(* ===== verification/Prelude.thy ===== *)
theory Prelude
  imports Complex_Main "HOL-Library.Word"
begin

section \<open>Shared vocabulary of the development\<close>

text \<open>
  This theory holds what every component of the gateway model shares:
  \<^item> the exceptions a Python function of the sources may raise, and the result type
    \<open>'a res\<close> (\<open>Inl\<close> of the exception, \<open>Inr\<close> of the value) with its bind;
  \<^item> Python values that reach the code untyped (a parsed JSON document), \<open>pyval\<close>;
  \<^item> bytes and strings: \<open>bytes\<close> is a list of 8-bit words, a \<open>str\<close> is an Isabelle string,
    whose characters stand for the bytes of its UTF-8 encoding, so that \<open>encode\<close> is one byte
    per character: a text of the program with a code point of 128 or more is the string of
    its two to four bytes. Equality, concatenation, prefixes and the search for an ASCII
    character agree with those of the text, since UTF-8 is injective and keeps ASCII apart;
    lengths are lengths in bytes;
  \<^item> the generic list lemmas and the lemma collections the component theories use.
\<close>

type_synonym byte = "8 word"
type_synonym bytes = "byte list"
type_synonym u32 = "32 word"

subsection \<open>Exceptions and results\<close>

datatype exn =
    ValueError string
  | TypeError string
  | IndexError string
  | KeyError string
  | RuntimeError string
  | LookupError string
  | PermissionError string
  | OSError string

type_synonym 'a res = "exn + 'a"

definition bind_res :: "'e + 'a \<Rightarrow> ('a \<Rightarrow> 'e + 'b) \<Rightarrow> 'e + 'b" where
  "bind_res r f = (case r of Inl e \<Rightarrow> Inl e | Inr x \<Rightarrow> f x)"

definition is_ok :: "'e + 'a \<Rightarrow> bool" where
  "is_ok r = (case r of Inl _ \<Rightarrow> False | Inr _ \<Rightarrow> True)"

fun map_res :: "('a \<Rightarrow> 'e + 'b) \<Rightarrow> 'a list \<Rightarrow> 'e + 'b list" where
  "map_res f [] = Inr []"
| "map_res f (x # xs) = bind_res (f x) (\<lambda>y. bind_res (map_res f xs) (\<lambda>ys. Inr (y # ys)))"

named_theorems res_simps "evaluation of results"

lemma bind_res_Inr [simp, res_simps]: "bind_res (Inr x) f = f x"
  by (simp add: bind_res_def)

lemma bind_res_Inl [simp, res_simps]: "bind_res (Inl e) f = Inl e"
  by (simp add: bind_res_def)

lemma is_ok_simps [simp, res_simps]: "is_ok (Inr x)" "\<not> is_ok (Inl e)"
  by (simp_all add: is_ok_def)

lemma bind_res_eq_Inr: "bind_res r f = Inr y \<longleftrightarrow> (\<exists>x. r = Inr x \<and> f x = Inr y)"
  by (cases r) simp_all

lemma bind_res_eq_Inl:
  "bind_res r f = Inl e \<longleftrightarrow> r = Inl e \<or> (\<exists>x. r = Inr x \<and> f x = Inl e)"
  by (cases r) simp_all

lemma bind_res_split:
  "P (bind_res r f) \<longleftrightarrow> (\<forall>e. r = Inl e \<longrightarrow> P (Inl e)) \<and> (\<forall>x. r = Inr x \<longrightarrow> P (f x))"
  by (cases r) simp_all

lemma map_res_Inr:
  assumes "\<And>x. x \<in> set xs \<Longrightarrow> f x = Inr (g x)"
  shows "map_res f xs = Inr (map g xs)"
  using assms by (induction xs) simp_all

lemma map_res_length: "map_res f xs = Inr ys \<Longrightarrow> length ys = length xs"
  by (induction xs arbitrary: ys) (auto simp: bind_res_eq_Inr)

subsection \<open>Python values\<close>

text \<open>
  The values a parsed JSON document can hold. A finite float is the rational it
  denotes; \<open>PNonFinite\<close> is one of \<open>NaN\<close> and the two infinities, which the JSON parser of
  Python reads too. A dict keeps its insertion order.
\<close>

datatype non_finite = Not_A_Number | Plus_Infinity | Minus_Infinity

datatype pyval =
    PNone
  | PBool bool
  | PInt int
  | PFloat rat
  | PNonFinite non_finite
  | PStr string
  | PList "pyval list"
  | PDict "(string \<times> pyval) list"

text \<open>
  Python's \<open>==\<close> between an arbitrary value and an \<open>int\<close>: a bool is an int, and a float
  equals the int of the same value. Against a \<open>str\<close> only a \<open>str\<close> can be equal.
\<close>

fun py_eq_int :: "pyval \<Rightarrow> int \<Rightarrow> bool" where
  "py_eq_int (PInt i) n = (i = n)"
| "py_eq_int (PBool b) n = ((if b then 1 else 0) = n)"
| "py_eq_int (PFloat q) n = (q = of_int n)"
| "py_eq_int _ n = False"

text \<open>\<open>isinstance(v, int) and not isinstance(v, bool)\<close>, with the integer when it holds.\<close>

fun as_int :: "pyval \<Rightarrow> int option" where
  "as_int (PInt i) = Some i"
| "as_int _ = None"

fun as_str :: "pyval \<Rightarrow> string option" where
  "as_str (PStr s) = Some s"
| "as_str _ = None"

text \<open>Membership in a set hashes the value: a list or a dict raises \<open>TypeError\<close>.\<close>

fun hashable :: "pyval \<Rightarrow> bool" where
  "hashable (PList _) = False"
| "hashable (PDict _) = False"
| "hashable _ = True"

lemma as_int_eq_Some [simp]: "as_int v = Some i \<longleftrightarrow> v = PInt i"
  by (cases v) simp_all

lemma as_str_eq_Some [simp]: "as_str v = Some s \<longleftrightarrow> v = PStr s"
  by (cases v) simp_all

subsection \<open>Strings as bytes\<close>

text \<open>\<open>str.encode()\<close> on a string that is held as the bytes of its UTF-8 encoding.\<close>

definition encode :: "string \<Rightarrow> bytes" where
  "encode s = map of_char s"

lemma length_encode [simp]: "length (encode s) = length s"
  by (simp add: encode_def)

lemma encode_append [simp]: "encode (s @ t) = encode s @ encode t"
  by (simp add: encode_def)

lemma encode_Nil [simp]: "encode [] = []"
  by (simp add: encode_def)

lemma of_char_nat_less: "(of_char c :: nat) < 256"
  by (metis of_char_mod_256 mod_less_divisor zero_less_numeral)

lemma unat_of_char: "unat (of_char c :: byte) = of_char c"
proof -
  have "(of_char c :: byte) = of_nat (of_char c)"
    by (simp add: of_nat_of_char)
  then show ?thesis
    using of_char_nat_less [of c] by (simp add: unat_of_nat)
qed

lemma of_char_word_inj: "(of_char c :: byte) = of_char d \<Longrightarrow> c = d"
  by (metis unat_of_char of_char_eq_iff)

lemma encode_inj [simp]: "encode s = encode t \<longleftrightarrow> s = t"
proof
  assume "encode s = encode t"
  then show "s = t"
    by (auto simp: encode_def intro!: map_injective [of of_char] injI dest: of_char_word_inj)
qed simp

subsection \<open>Lists\<close>

lemma append_eq_append_same_length:
  "length xs = length ys \<Longrightarrow> xs @ us = ys @ vs \<longleftrightarrow> xs = ys \<and> us = vs"
  by simp

lemma concat_same_length_inj:
  assumes "length xs = length ys"
    and "\<And>x. x \<in> set xs \<Longrightarrow> length x = n" and "\<And>y. y \<in> set ys \<Longrightarrow> length y = n"
    and "concat xs = concat ys"
  shows "xs = ys"
  using assms
proof (induction xs ys rule: list_induct2)
  case (Cons x xs y ys)
  then have "length x = length y" by simp
  with Cons show ?case by simp
qed simp

lemma concat_fixed_length:
  "(\<And>x. x \<in> set xs \<Longrightarrow> length x = n) \<Longrightarrow> length (concat xs) = n * length xs"
  by (induction xs) simp_all

end
