(* ===== verification/Sha256.thy ===== *)
theory Sha256
  imports Prelude
begin

section \<open>SHA-256 and HMAC-SHA-256\<close>

text \<open>
  The hash functions of Python's \<open>hashlib\<close> and \<open>hmac\<close> that the evidence chain is built
  on, written out after FIPS 180-4 and RFC 2104 over 32-bit words, so that every digest
  of the model is a function of its input and no property of it is assumed. The
  theorems of the other theories that speak of second preimages exhibit an explicit
  pair of distinct inputs with one digest; nothing rests on the absence of collisions.
\<close>

unbundle bit_operations_syntax

subsection \<open>The compression function\<close>

definition sha256_k :: "u32 list" where
  "sha256_k =
     [1116352408, 1899447441, 3049323471, 3921009573, 961987163, 1508970993,
      2453635748, 2870763221, 3624381080, 310598401, 607225278, 1426881987,
      1925078388, 2162078206, 2614888103, 3248222580, 3835390401, 4022224774,
      264347078, 604807628, 770255983, 1249150122, 1555081692, 1996064986,
      2554220882, 2821834349, 2952996808, 3210313671, 3336571891, 3584528711,
      113926993, 338241895, 666307205, 773529912, 1294757372, 1396182291,
      1695183700, 1986661051, 2177026350, 2456956037, 2730485921, 2820302411,
      3259730800, 3345764771, 3516065817, 3600352804, 4094571909, 275423344,
      430227734, 506948616, 659060556, 883997877, 958139571, 1322822218,
      1537002063, 1747873779, 1955562222, 2024104815, 2227730452, 2361852424,
      2428436474, 2756734187, 3204031479, 3329325298]"

datatype sha_state = Sha u32 u32 u32 u32 u32 u32 u32 u32

definition sha256_h0 :: sha_state where
  "sha256_h0 = Sha 1779033703 3144134277 1013904242 2773480762 1359893119 2600822924 528734635 1541459225"

definition rotr :: "nat \<Rightarrow> u32 \<Rightarrow> u32" where
  "rotr n x = (drop_bit n x) OR (push_bit (32 - n) x)"

definition small_sigma0 :: "u32 \<Rightarrow> u32" where
  "small_sigma0 x = rotr 7 x XOR rotr 18 x XOR drop_bit 3 x"
definition small_sigma1 :: "u32 \<Rightarrow> u32" where
  "small_sigma1 x = rotr 17 x XOR rotr 19 x XOR drop_bit 10 x"
definition big_sigma0 :: "u32 \<Rightarrow> u32" where
  "big_sigma0 x = rotr 2 x XOR rotr 13 x XOR rotr 22 x"
definition big_sigma1 :: "u32 \<Rightarrow> u32" where
  "big_sigma1 x = rotr 6 x XOR rotr 11 x XOR rotr 25 x"
definition choose_w :: "u32 \<Rightarrow> u32 \<Rightarrow> u32 \<Rightarrow> u32" where
  "choose_w x y z = (x AND y) XOR (NOT x AND z)"
definition majority_w :: "u32 \<Rightarrow> u32 \<Rightarrow> u32 \<Rightarrow> u32" where
  "majority_w x y z = (x AND y) XOR (x AND z) XOR (y AND z)"

fun extend :: "nat \<Rightarrow> u32 list \<Rightarrow> u32 list" where
  "extend 0 w = w"
| "extend (Suc n) w =
     (let t = length w in
      extend n (w @ [small_sigma1 (w ! (t - 2)) + w ! (t - 7) + small_sigma0 (w ! (t - 15)) + w ! (t - 16)]))"

fun round_step :: "sha_state \<Rightarrow> u32 \<times> u32 \<Rightarrow> sha_state" where
  "round_step (Sha a b c d e f g h) (k, w) =
     (let t1 = h + big_sigma1 e + choose_w e f g + k + w;
          t2 = big_sigma0 a + majority_w a b c
      in Sha (t1 + t2) a b c (d + t1) e f g)"

fun add_state :: "sha_state \<Rightarrow> sha_state \<Rightarrow> sha_state" where
  "add_state (Sha a b c d e f g h) (Sha a' b' c' d' e' f' g' h') =
     Sha (a + a') (b + b') (c + c') (d + d') (e + e') (f + f') (g + g') (h + h')"

definition word_be :: "byte list \<Rightarrow> u32" where
  "word_be bs = foldl (\<lambda>acc b. push_bit 8 acc OR ucast b) 0 bs"

fun chunks :: "nat \<Rightarrow> nat \<Rightarrow> 'a list \<Rightarrow> 'a list list" where
  "chunks 0 n xs = []"
| "chunks (Suc k) n xs = take n xs # chunks k n (drop n xs)"

definition compress :: "sha_state \<Rightarrow> byte list \<Rightarrow> sha_state" where
  "compress s block =
     add_state s (foldl round_step s (zip sha256_k (extend 48 (map word_be (chunks 16 4 block)))))"


definition be_bytes :: "nat \<Rightarrow> 'a::len word \<Rightarrow> byte list" where
  "be_bytes n w = map (\<lambda>i. ucast (drop_bit (8 * i) w)) (rev [0..<n])"

definition sha_pad :: "byte list \<Rightarrow> byte list" where
  "sha_pad m = m @ [0x80] @ replicate ((55 + 64 - length m mod 64) mod 64) 0
     @ be_bytes 8 (of_nat (8 * length m) :: 64 word)"

fun state_bytes :: "sha_state \<Rightarrow> byte list" where
  "state_bytes (Sha a b c d e f g h) = concat (map (be_bytes 4) [a, b, c, d, e, f, g, h])"

definition sha256 :: "byte list \<Rightarrow> byte list" where
  "sha256 m = (let p = sha_pad m in
     state_bytes (foldl compress sha256_h0 (chunks (length p div 64) 64 p)))"


definition ipad :: bytes where
  "ipad = replicate 64 0x36"

definition opad :: bytes where
  "opad = replicate 64 0x5c"

definition hmac_key_block :: "bytes \<Rightarrow> bytes" where
  "hmac_key_block key =
     (let k = (if length key > 64 then sha256 key else key) in k @ replicate (64 - length k) 0)"

definition hmac_sha256 :: "bytes \<Rightarrow> bytes \<Rightarrow> bytes" where
  "hmac_sha256 key msg =
     (let k = hmac_key_block key
      in sha256 (map2 (XOR) k opad @ sha256 (map2 (XOR) k ipad @ msg)))"

subsection \<open>Digest lengths\<close>

lemma length_be_bytes [simp]: "length (be_bytes n w) = n"
  by (simp add: be_bytes_def)

lemma length_state_bytes [simp]: "length (state_bytes s) = 32"
  by (cases s) simp

lemma length_sha256 [simp]: "length (sha256 m) = 32"
  by (simp add: sha256_def Let_def)

lemma length_hmac_sha256 [simp]: "length (hmac_sha256 k m) = 32"
  by (simp add: hmac_sha256_def Let_def)

lemma length_hmac_key_block [simp]: "length (hmac_key_block k) = 64"
  by (simp add: hmac_key_block_def Let_def)

lemma sha_pad_blocks: "64 dvd length (sha_pad m)"
proof -
  define q r where "q = length m div 64" and "r = length m mod 64"
  have m: "length m = 64 * q + r" and r: "r < 64"
    by (simp_all add: q_def r_def)
  have "length (sha_pad m) = length m + 9 + (119 - r) mod 64"
    by (simp add: sha_pad_def r_def)
  moreover have "(119 - r) mod 64 = (if r \<le> 55 then 55 - r else 119 - r)"
  proof (cases "r \<le> 55")
    case True
    then have "119 - r = 64 + (55 - r)" by simp
    then show ?thesis using True by (simp only: mod_add_self1) simp
  qed (use r in simp)
  ultimately have "length (sha_pad m) = 64 * (if r \<le> 55 then q + 1 else q + 2)"
    using m r by simp
  then show ?thesis
    by (metis dvd_triv_left)
qed

subsection \<open>Collisions\<close>

text \<open>
  A pair of distinct byte strings with one digest. Soundness theorems return one from
  the inputs that two computations hashed.
\<close>

definition sha_collision :: "bytes \<Rightarrow> bytes \<Rightarrow> bool" where
  "sha_collision x y \<longleftrightarrow> x \<noteq> y \<and> sha256 x = sha256 y"

definition collision_between :: "bytes set \<Rightarrow> bytes set \<Rightarrow> bool" where
  "collision_between A B \<longleftrightarrow> (\<exists>x\<in>A. \<exists>y\<in>B. sha_collision x y)"

lemma collision_betweenI:
  "x \<in> A \<Longrightarrow> y \<in> B \<Longrightarrow> x \<noteq> y \<Longrightarrow> sha256 x = sha256 y \<Longrightarrow> collision_between A B"
  by (auto simp: collision_between_def sha_collision_def)

lemma collision_between_mono:
  "collision_between A B \<Longrightarrow> A \<subseteq> A' \<Longrightarrow> B \<subseteq> B' \<Longrightarrow> collision_between A' B'"
  by (auto simp: collision_between_def)

lemma sha256_eq_or_collision:
  "sha256 x = sha256 y \<Longrightarrow> x \<in> A \<Longrightarrow> y \<in> B \<Longrightarrow> x = y \<or> collision_between A B"
  by (auto intro: collision_betweenI)

end
