(* ===== verification/Encoding.thy ===== *)
theory Encoding
  imports Sha256
begin

section \<open>Digest encodings\<close>

text \<open>
  The textual forms of a digest that \<^verbatim>\<open>aegis/core/mmr.py\<close> handles: lowercase hexadecimal
  (\<open>bytes.hex\<close>, \<open>bytes.fromhex\<close>, \<open>_is_sha256_hex\<close>) and unpadded base64url
  (\<open>_hex_to_b64u\<close>, \<open>_b64u_to_hex\<close>). The standard library routines are modelled as
  CPython documents them, with their exceptions; the lemmas show that both encodings
  are exact round trips on 32-byte digests and that the strict decoder accepts one
  spelling of a digest only.
\<close>

subsection \<open>Hexadecimal\<close>

definition hex_digits :: string where
  "hex_digits = ''0123456789abcdef''"

definition hex_digit :: "nat \<Rightarrow> char" where
  "hex_digit n = hex_digits ! (n mod 16)"

definition hex_byte :: "byte \<Rightarrow> string" where
  "hex_byte b = [hex_digit (unat b div 16), hex_digit (unat b mod 16)]"

text \<open>\<open>bytes.hex()\<close>\<close>

definition hex :: "bytes \<Rightarrow> string" where
  "hex bs = concat (map hex_byte bs)"

definition hexval :: "char \<Rightarrow> nat option" where
  "hexval c =
     (let n = of_char c in
      if 48 \<le> n \<and> n \<le> 57 then Some (n - 48)
      else if 97 \<le> n \<and> n \<le> 102 then Some (n - 87)
      else if 65 \<le> n \<and> n \<le> 70 then Some (n - 55)
      else None)"

definition ascii_space :: "char \<Rightarrow> bool" where
  "ascii_space c \<longleftrightarrow> of_char c \<in> {9, 10, 11, 12, 13, 32 :: nat}"

text \<open>\<open>bytes.fromhex\<close>: pairs of digits of either case, ASCII whitespace skipped.\<close>

fun fromhex :: "string \<Rightarrow> bytes res" where
  "fromhex [] = Inr []"
| "fromhex [c] = (if ascii_space c then Inr [] else Inl (ValueError ''non-hexadecimal number''))"
| "fromhex (c # d # s) =
     (if ascii_space c then fromhex (d # s)
      else case (hexval c, hexval d) of
             (Some a, Some b) \<Rightarrow> bind_res (fromhex s) (\<lambda>bs. Inr (of_nat (16 * a + b) # bs))
           | _ \<Rightarrow> Inl (ValueError ''non-hexadecimal number''))"

definition hexdigest :: "bytes \<Rightarrow> string" where
  "hexdigest m = hex (sha256 m)"

text \<open>\<open>_is_sha256_hex\<close>, on a value that is already known to be a string.\<close>

definition is_sha256_hex_str :: "string \<Rightarrow> bool" where
  "is_sha256_hex_str s \<longleftrightarrow> length s = 64 \<and> list_all (\<lambda>c. c \<in> set hex_digits) s"

definition is_sha256_hex :: "pyval \<Rightarrow> bool" where
  "is_sha256_hex v = (case as_str v of None \<Rightarrow> False | Some s \<Rightarrow> is_sha256_hex_str s)"

text \<open>Decoding that cannot fail, for strings known to be hexadecimal.\<close>

definition unhex :: "string \<Rightarrow> bytes" where
  "unhex s = (case fromhex s of Inl _ \<Rightarrow> [] | Inr bs \<Rightarrow> bs)"

lemma hexval_hex_digit: "n < 16 \<Longrightarrow> hexval (hex_digit n) = Some n"
proof -
  assume "n < 16"
  then have "n \<in> {0, 1, 2, 3, 4, 5, 6, 7, 8, 9, 10, 11, 12, 13, 14, 15}"
    unfolding insert_iff empty_iff by presburger
  then show ?thesis
    by (auto simp: hex_digit_def hex_digits_def hexval_def Let_def)
qed

lemma hex_digit_in: "hex_digit n \<in> set hex_digits"
proof -
  have "n mod 16 < length hex_digits"
    by (simp add: hex_digits_def)
  then show ?thesis
    unfolding hex_digit_def by (rule nth_mem)
qed

lemma hex_digit_hexval:
  assumes "c \<in> set hex_digits"
  shows "\<exists>n. n < 16 \<and> hexval c = Some n \<and> hex_digit n = c"
proof -
  from assms obtain n where n: "n < length hex_digits" "hex_digits ! n = c"
    by (auto simp: in_set_conv_nth)
  then have "n < 16" and "hex_digit n = c"
    by (simp_all add: hex_digits_def hex_digit_def)
  with hexval_hex_digit show ?thesis
    by blast
qed

lemma hex_digit_not_space: "c \<in> set hex_digits \<Longrightarrow> \<not> ascii_space c"
  by (auto simp: hex_digits_def ascii_space_def)

lemma length_hex [simp]: "length (hex bs) = 2 * length bs"
  by (induction bs) (simp_all add: hex_def hex_byte_def)

lemma hex_Nil [simp]: "hex [] = []"
  by (simp add: hex_def)

lemma hex_Cons: "hex (b # bs) = hex_digit (unat b div 16) # hex_digit (unat b mod 16) # hex bs"
  by (simp add: hex_def hex_byte_def)

lemma hex_chars: "c \<in> set (hex bs) \<Longrightarrow> c \<in> set hex_digits"
  by (induction bs) (auto simp: hex_Cons hex_digit_in)

lemma hex_ascii: "list_all (\<lambda>c. (of_char c :: nat) < 128) (hex bs)"
proof -
  have "(of_char c :: nat) < 128" if "c \<in> set hex_digits" for c using that by (auto simp: hex_digits_def)
  then show ?thesis using hex_chars by (auto simp: list_all_iff)
qed

lemma byte_split: "16 * (unat b div 16) + unat b mod 16 = unat (b :: byte)"
  by simp

lemma unat_byte_less: "unat (b :: byte) < 256"
  using unsigned_less [of b] by simp

lemma fromhex_hex [simp]: "fromhex (hex bs) = Inr bs"
proof (induction bs)
  case (Cons b bs)
  have "unat b div 16 < 16"
    using unat_byte_less [of b] by simp
  then show ?case
    using Cons by (simp add: hex_Cons hexval_hex_digit hex_digit_in hex_digit_not_space byte_split)
qed simp

lemma unhex_hex [simp]: "unhex (hex bs) = bs"
  by (simp add: unhex_def)

lemma fromhex_ok:
  assumes "list_all (\<lambda>c. c \<in> set hex_digits) s" and "length s = 2 * n"
  shows "\<exists>bs. fromhex s = Inr bs \<and> length bs = n \<and> hex bs = s"
  using assms
proof (induction s arbitrary: n rule: fromhex.induct)
  case (3 c d s)
  from "3.prems" obtain m where n: "n = Suc m" and len: "length s = 2 * m"
    by (cases n) auto
  from "3.prems" obtain a b where a: "a < 16" "hexval c = Some a" "hex_digit a = c"
    and b: "b < 16" "hexval d = Some b" "hex_digit b = d"
    using hex_digit_hexval [of c] hex_digit_hexval [of d] by auto
  have nsp: "\<not> ascii_space c"
    using "3.prems" by (auto simp: hex_digit_not_space)
  have "list_all (\<lambda>c. c \<in> set hex_digits) s"
    using "3.prems" by simp
  with "3.IH"(2) [OF nsp _ a(2) b(2) _ len] obtain bs where
    bs: "fromhex s = Inr bs" "length bs = m" "hex bs = s"
    by auto
  have "unat (of_nat (16 * a + b) :: byte) = 16 * a + b"
    using a b by (simp add: unat_of_nat del: of_nat_add of_nat_mult)
  then have "hex (of_nat (16 * a + b) # bs) = c # d # s"
    using a b bs by (simp add: hex_Cons)
  with nsp a b bs n show ?case
    by simp
qed auto

lemma sha256_hex_fromhex:
  assumes "is_sha256_hex_str s"
  shows "fromhex s = Inr (unhex s)" and "length (unhex s) = 32" and "hex (unhex s) = s"
proof -
  from assms obtain bs where "fromhex s = Inr bs \<and> length bs = 32 \<and> hex bs = s"
    using fromhex_ok [of s 32] by (auto simp: is_sha256_hex_str_def)
  then show "fromhex s = Inr (unhex s)" and "length (unhex s) = 32" and "hex (unhex s) = s"
    by (auto simp: unhex_def)
qed

lemma is_sha256_hex_str_hex: "length bs = 32 \<Longrightarrow> is_sha256_hex_str (hex bs)"
  by (auto simp: is_sha256_hex_str_def list_all_iff dest: hex_chars)

lemma is_sha256_hex_str_hexdigest [simp]: "is_sha256_hex_str (hexdigest m)"
  by (simp add: hexdigest_def is_sha256_hex_str_hex)

lemma is_sha256_hex_PStr [simp]: "is_sha256_hex (PStr s) = is_sha256_hex_str s"
  by (simp add: is_sha256_hex_def)

lemma is_sha256_hexD: "is_sha256_hex v \<Longrightarrow> \<exists>s. v = PStr s \<and> is_sha256_hex_str s"
  by (auto simp: is_sha256_hex_def split: option.splits)

lemma hex_inj [simp]: "hex xs = hex ys \<longleftrightarrow> xs = ys"
  by (metis unhex_hex)

lemma hexdigest_eq_iff: "hexdigest x = hexdigest y \<longleftrightarrow> sha256 x = sha256 y"
  by (simp add: hexdigest_def)

lemma unhex_inj:
  "is_sha256_hex_str s \<Longrightarrow> is_sha256_hex_str t \<Longrightarrow> unhex s = unhex t \<longleftrightarrow> s = t"
  by (metis sha256_hex_fromhex(3))

subsection \<open>Base64url\<close>

definition b64_alphabet :: string where
  "b64_alphabet = ''ABCDEFGHIJKLMNOPQRSTUVWXYZabcdefghijklmnopqrstuvwxyz0123456789-_''"

definition b64_char :: "nat \<Rightarrow> char" where
  "b64_char n = b64_alphabet ! (n mod 64)"

text \<open>\<open>base64.urlsafe_b64encode\<close>, padded.\<close>

fun urlsafe_b64encode :: "bytes \<Rightarrow> string" where
  "urlsafe_b64encode [] = []"
| "urlsafe_b64encode [a] =
     [b64_char (unat a div 4), b64_char (unat a mod 4 * 16), CHR ''='', CHR ''='']"
| "urlsafe_b64encode [a, b] =
     [b64_char (unat a div 4), b64_char (unat a mod 4 * 16 + unat b div 16),
      b64_char (unat b mod 16 * 4), CHR ''='']"
| "urlsafe_b64encode (a # b # c # bs) =
     b64_char (unat a div 4) # b64_char (unat a mod 4 * 16 + unat b div 16)
     # b64_char (unat b mod 16 * 4 + unat c div 64) # b64_char (unat c mod 64)
     # urlsafe_b64encode bs"

text \<open>
  The decoding table of \<open>urlsafe_b64decode\<close>: the two URL-safe characters are translated
  to the standard ones first, so \<open>+\<close> and \<open>/\<close> decode as well.
\<close>

definition b64_val :: "char \<Rightarrow> nat option" where
  "b64_val c =
     (let n = of_char c in
      if 65 \<le> n \<and> n \<le> 90 then Some (n - 65)
      else if 97 \<le> n \<and> n \<le> 122 then Some (n - 71)
      else if 48 \<le> n \<and> n \<le> 57 then Some (n + 4)
      else if n = 45 \<or> n = 43 then Some 62
      else if n = 95 \<or> n = 47 then Some 63
      else None)"

text \<open>
  \<open>binascii.a2b_base64\<close> in its lenient mode: the position in the current group of four,
  the padding seen, the bits left over. Characters outside the table are skipped, a
  complete padding ends the input, an incomplete last group raises.
\<close>

fun a2b_base64 :: "nat \<Rightarrow> nat \<Rightarrow> nat \<Rightarrow> string \<Rightarrow> bytes res" where
  "a2b_base64 q pads lft [] = (if q = 0 then Inr [] else Inl (ValueError ''Incorrect padding''))"
| "a2b_base64 q pads lft (c # s) =
     (if c = CHR ''='' then
        (if 2 \<le> q \<and> 4 \<le> q + Suc pads then Inr []
         else a2b_base64 q (if 2 \<le> q then Suc pads else pads) lft s)
      else case b64_val c of
             None \<Rightarrow> a2b_base64 q pads lft s
           | Some v \<Rightarrow>
               (if q = 0 then a2b_base64 1 0 v s
                else if q = 1 then
                  bind_res (a2b_base64 2 0 (v mod 16) s) (\<lambda>bs. Inr (of_nat (lft * 4 + v div 16) # bs))
                else if q = 2 then
                  bind_res (a2b_base64 3 0 (v mod 4) s) (\<lambda>bs. Inr (of_nat (lft * 16 + v div 4) # bs))
                else
                  bind_res (a2b_base64 0 0 0 s) (\<lambda>bs. Inr (of_nat (lft * 64 + v) # bs))))"

definition urlsafe_b64decode :: "string \<Rightarrow> bytes res" where
  "urlsafe_b64decode s = a2b_base64 0 0 0 s"

definition rstrip_pad :: "string \<Rightarrow> string" where
  "rstrip_pad s = rev (dropWhile (\<lambda>c. c = CHR ''='') (rev s))"

definition hex_to_b64u :: "string \<Rightarrow> string res" where
  "hex_to_b64u value =
     bind_res (fromhex value) (\<lambda>raw. Inr (rstrip_pad (urlsafe_b64encode raw)))"

definition b64u_to_hex :: "pyval \<Rightarrow> string res" where
  "b64u_to_hex v =
     (case as_str v of
        None \<Rightarrow> Inl (ValueError ''v2 proof digests must be 43-character unpadded base64url'')
      | Some value \<Rightarrow>
          if length value \<noteq> 43
          then Inl (ValueError ''v2 proof digests must be 43-character unpadded base64url'')
          else if \<not> list_all (\<lambda>c. c \<in> set b64_alphabet) value
          then Inl (ValueError ''v2 proof digests must use the base64url alphabet'')
          else case urlsafe_b64decode (value @ ''='') of
                 Inl _ \<Rightarrow> Inl (ValueError ''v2 proof digest is not valid base64url'')
               | Inr raw \<Rightarrow>
                   if length raw \<noteq> 32
                   then Inl (ValueError ''v2 proof digests must decode to 32 bytes'')
                   else if rstrip_pad (urlsafe_b64encode raw) \<noteq> value
                   then Inl (ValueError ''v2 proof digest is not canonically encoded'')
                   else Inr (hex raw))"

definition identity_hex :: "pyval \<Rightarrow> string res" where
  "identity_hex v =
     (case as_str v of
        None \<Rightarrow> Inl (ValueError ''v1 proof digests must be hex strings'')
      | Some s \<Rightarrow> Inr s)"

lemma length_b64_alphabet: "length b64_alphabet = 64"
  by (simp add: b64_alphabet_def)

lemma b64_val_char: "n < 64 \<Longrightarrow> b64_val (b64_char n) = Some n"
proof -
  have "list_all (\<lambda>(i, c). b64_val c = Some i) (enumerate 0 b64_alphabet)"
    by (simp add: b64_alphabet_def b64_val_def Let_def)
  then show "n < 64 \<Longrightarrow> b64_val (b64_char n) = Some n"
    by (auto simp: b64_char_def list_all_length nth_enumerate_eq length_b64_alphabet)
qed

lemma b64_char_in: "b64_char n \<in> set b64_alphabet"
proof -
  have "n mod 64 < length b64_alphabet"
    by (simp add: length_b64_alphabet)
  then show ?thesis
    unfolding b64_char_def by (rule nth_mem)
qed

lemma pad_not_in_alphabet: "CHR ''='' \<notin> set b64_alphabet"
  by (simp add: b64_alphabet_def)

lemma b64_char_not_pad [simp]: "b64_char n \<noteq> CHR ''=''"
  using b64_char_in [of n] pad_not_in_alphabet by metis

lemma b64_byte_bounds:
  fixes a b c :: byte
  shows "unat a div 4 < 64" and "unat a mod 4 * 16 + unat b div 16 < 64"
    and "unat b mod 16 * 4 + unat c div 64 < 64" and "unat a mod 4 * 16 < 64"
    and "unat b mod 16 * 4 < 64"
  using unat_byte_less [of a] unat_byte_less [of b] unat_byte_less [of c] by auto

lemma b64_byte_joins:
  fixes a b c :: byte
  shows "unat a div 4 * 4 + (unat a mod 4 * 16 + unat b div 16) div 16 = unat a"
    and "(unat a mod 4 * 16 + unat b div 16) mod 16 * 16 + (unat b mod 16 * 4 + unat c div 64) div 4
           = unat b"
    and "(unat b mod 16 * 4 + unat c div 64) mod 4 * 64 + unat c mod 64 = unat c"
  using unat_byte_less [of b] unat_byte_less [of c] by auto

lemma urlsafe_b64_roundtrip: "urlsafe_b64decode (urlsafe_b64encode bs) = Inr bs"
  unfolding urlsafe_b64decode_def
proof (induction bs rule: urlsafe_b64encode.induct)
  case (2 a)
  have "unat a div 4 * 4 + unat a mod 4 = unat a" by simp
  then show ?case
    by (simp add: b64_val_char b64_byte_bounds del: div_mult_mod_eq of_nat_add of_nat_mult)
next
  case (3 a b)
  have "(unat a mod 4 * 16 + unat b div 16) mod 16 * 16 + unat b mod 16 = unat b"
    using unat_byte_less [of b] by auto
  then show ?case
    using b64_byte_joins(1) [of a b]
    by (simp add: b64_val_char b64_byte_bounds del: of_nat_add of_nat_mult)
next
  case (4 a b c bs)
  then show ?case
    using b64_byte_joins(1) [of a b] b64_byte_joins(2) [of a b c] b64_byte_joins(3) [of b c]
    by (simp add: b64_val_char b64_byte_bounds del: of_nat_add of_nat_mult)
qed simp

lemma urlsafe_b64encode_shape:
  assumes "length bs = 3 * n + 2"
  shows "\<exists>s. urlsafe_b64encode bs = s @ ''='' \<and> length s = 4 * n + 3 \<and>
           list_all (\<lambda>c. c \<in> set b64_alphabet) s"
  using assms
proof (induction n arbitrary: bs)
  case 0
  then obtain a b where "bs = [a, b]"
    by (auto simp: length_Suc_conv numeral_2_eq_2)
  then show ?case
    by (simp add: b64_char_in)
next
  case (Suc n)
  define k where "k = 3 * n + 2"
  with Suc.prems have "length bs = Suc (Suc (Suc k))"
    by simp
  then obtain a b c bs' where bs: "bs = a # b # c # bs'" and "length bs' = k"
    by (auto simp: length_Suc_conv)
  then have len: "length bs' = 3 * n + 2"
    by (simp add: k_def)
  from Suc.IH [OF len] obtain s where
    "urlsafe_b64encode bs' = s @ ''=''" "length s = 4 * n + 3" "list_all (\<lambda>c. c \<in> set b64_alphabet) s"
    by blast
  then show ?case
    by (intro exI [of _ "b64_char (unat a div 4) # b64_char (unat a mod 4 * 16 + unat b div 16)
          # b64_char (unat b mod 16 * 4 + unat c div 64) # b64_char (unat c mod 64) # s"])
      (simp add: bs b64_char_in)
qed

lemma rstrip_pad_append:
  assumes "list_all (\<lambda>c. c \<in> set b64_alphabet) s" and "s \<noteq> []"
  shows "rstrip_pad (s @ ''='') = s"
proof -
  from assms have "last s \<noteq> CHR ''=''"
    using pad_not_in_alphabet by (metis last_in_set list_all_iff)
  with assms(2) have "dropWhile (\<lambda>c. c = CHR ''='') (rev s) = rev s"
    by (cases s rule: rev_cases) simp_all
  then show ?thesis
    by (simp add: rstrip_pad_def)
qed

lemma hex_to_b64u_ok:
  assumes "is_sha256_hex_str h"
  shows "\<exists>s. hex_to_b64u h = Inr s \<and> length s = 43 \<and> list_all (\<lambda>c. c \<in> set b64_alphabet) s
           \<and> urlsafe_b64encode (unhex h) = s @ ''=''"
proof -
  note h = sha256_hex_fromhex [OF assms]
  from urlsafe_b64encode_shape [of "unhex h" 10] h obtain s where
    s: "urlsafe_b64encode (unhex h) = s @ ''=''" "length s = 43" "list_all (\<lambda>c. c \<in> set b64_alphabet) s"
    by auto
  then have "s \<noteq> []" by auto
  with s h(1) show ?thesis
    by (simp add: hex_to_b64u_def rstrip_pad_append)
qed

lemma b64u_roundtrip:
  assumes "is_sha256_hex_str h"
  shows "\<exists>s. hex_to_b64u h = Inr s \<and> b64u_to_hex (PStr s) = Inr h"
proof -
  from hex_to_b64u_ok [OF assms] obtain s where
    s: "hex_to_b64u h = Inr s" "length s = 43" "list_all (\<lambda>c. c \<in> set b64_alphabet) s"
      "urlsafe_b64encode (unhex h) = s @ ''=''"
    by blast
  note h = sha256_hex_fromhex [OF assms]
  have "rstrip_pad (urlsafe_b64encode (unhex h)) = s"
    using s(1) h(1) by (simp add: hex_to_b64u_def)
  moreover have "urlsafe_b64decode (s @ ''='') = Inr (unhex h)"
    using urlsafe_b64_roundtrip [of "unhex h"] s(4) by simp
  ultimately have "b64u_to_hex (PStr s) = Inr h"
    using s h by (simp add: b64u_to_hex_def)
  with s(1) show ?thesis by blast
qed

lemma b64u_to_hex_canonical:
  assumes "b64u_to_hex v = Inr h"
  shows "is_sha256_hex_str h \<and> (\<exists>s. v = PStr s \<and> hex_to_b64u h = Inr s)"
proof -
  from assms obtain val raw where v: "v = PStr val" and raw: "length raw = 32"
    and canon: "rstrip_pad (urlsafe_b64encode raw) = val" and h: "h = hex raw"
    by (auto simp: b64u_to_hex_def split: option.splits if_splits sum.splits)
  then show ?thesis
    by (simp add: hex_to_b64u_def is_sha256_hex_str_hex)
qed

end
