(* ===== verification/Mmr.thy ===== *)
theory Mmr
  imports Encoding
begin

section \<open>The Merkle Mountain Range accumulator\<close>

text \<open>
  The model of \<^verbatim>\<open>aegis/core/mmr.py\<close>: the two hash schemes, the accumulator
  \<open>MerkleMountainRange\<close> with every operation that changes it, proof generation and the
  two verifiers.

  Node objects are shared between the \<open>nodes\<close> list and the \<open>peaks\<close> list and an append
  writes their \<open>parent\<close> field through one of the two, so the accumulator keeps an explicit
  store: \<open>heap\<close> maps an object reference to the object, both lists hold references, and
  the \<open>is\<close> tests of the source compare references. The parent walks of the source are
  \<open>while\<close> loops over data that an arbitrary object graph could make cyclic, so they take
  fuel, with \<open>None\<close> for a walk that has not ended; theory \<open>Mmr_Forest\<close> proves that the fuel
  given here always suffices for an accumulator the operations can build.
\<close>

subsection \<open>Hash schemes\<close>

definition HASH_SCHEME_V1 :: string where
  "HASH_SCHEME_V1 = ''v1-asciihex''"

definition HASH_SCHEME_V2 :: string where
  "HASH_SCHEME_V2 = ''v2-binary-domain-separated''"

definition MMR_PROOF_VERSION_V1 :: string where
  "MMR_PROOF_VERSION_V1 = ''aegis-mmr-inclusion-v1''"

definition MMR_PROOF_VERSION_V2 :: string where
  "MMR_PROOF_VERSION_V2 = ''aegis-mmr-inclusion-v2''"

definition MMR_ALGORITHM_V1 :: string where
  "MMR_ALGORITHM_V1 = ''sha256-asciihex''"

definition MMR_ALGORITHM_V2 :: string where
  "MMR_ALGORITHM_V2 = ''sha256-binary-domain-separated''"

definition DOMAIN_LEAF :: bytes where
  "DOMAIN_LEAF = [0]"

definition DOMAIN_NODE :: bytes where
  "DOMAIN_NODE = [1]"

definition DOMAIN_ROOT :: bytes where
  "DOMAIN_ROOT = [2]"

definition v2_leaf_hash :: "bytes \<Rightarrow> bytes" where
  "v2_leaf_hash payload = sha256 (DOMAIN_LEAF @ payload)"

definition v2_node_hash :: "bytes \<Rightarrow> bytes \<Rightarrow> bytes res" where
  "v2_node_hash lft rgt =
     (if length lft \<noteq> 32 \<or> length rgt \<noteq> 32
      then Inl (ValueError ''v2 node hashing requires two 32-byte digests'')
      else Inr (sha256 (DOMAIN_NODE @ lft @ rgt)))"

definition v2_bagged_root :: "bytes list \<Rightarrow> bytes res" where
  "v2_bagged_root peaks =
     (if list_ex (\<lambda>p. length p \<noteq> 32) peaks
      then Inl (ValueError ''v2 root bagging requires 32-byte digests'')
      else Inr (sha256 (DOMAIN_ROOT @ concat peaks)))"

text \<open>The two ways an interior digest and a root are computed, by scheme.\<close>

definition combine_hash :: "bool \<Rightarrow> string \<Rightarrow> string \<Rightarrow> string res" where
  "combine_hash v2 lft rgt =
     (if v2 then
        bind_res (fromhex lft) (\<lambda>l. bind_res (fromhex rgt) (\<lambda>r.
          bind_res (v2_node_hash l r) (\<lambda>d. Inr (hex d))))
      else Inr (hexdigest (encode (lft @ rgt))))"

definition bag_hashes :: "bool \<Rightarrow> string list \<Rightarrow> string res" where
  "bag_hashes v2 hs =
     (if v2 then
        bind_res (map_res fromhex hs) (\<lambda>ps. bind_res (v2_bagged_root ps) (\<lambda>d. Inr (hex d)))
      else Inr (hexdigest (encode (concat hs))))"

subsection \<open>Data\<close>

type_synonym ref = nat

record mmr_node =
  mn_hash :: string
  mn_height :: nat
  mn_index :: nat
  mn_left :: "nat option"
  mn_right :: "nat option"
  mn_parent :: "nat option"

record mmr_checkpoint =
  ck_node_count :: int
  ck_leaf_node_index_count :: int
  ck_leaf_count :: int
  ck_peaks :: "ref list"
  ck_owner :: nat

record mmr_step =
  st_sibling_hash :: pyval
  st_direction :: pyval

record mmr_peak =
  pk_height :: pyval
  pk_hash :: pyval

record mmr_proof =
  pr_version :: pyval
  pr_algorithm :: pyval
  pr_leaf_index :: pyval
  pr_leaf_count :: pyval
  pr_peak_index :: pyval
  pr_path :: "mmr_step list"
  pr_peaks :: "mmr_peak list"
  pr_root :: pyval

record mmr =
  hash_scheme :: string
  heap :: "ref \<Rightarrow> mmr_node"
  next_ref :: ref
  nodes :: "ref list"
  peaks :: "ref list"
  leaf_node_indices :: "nat list"
  leaf_count :: nat
  leaf_index_base :: nat
  owner :: nat

definition mmr_node_new :: "string \<Rightarrow> nat \<Rightarrow> nat \<Rightarrow> nat option \<Rightarrow> nat option \<Rightarrow> nat option \<Rightarrow> mmr_node" where
  "mmr_node_new h k i l r p =
     \<lparr>mn_hash = h, mn_height = k, mn_index = i, mn_left = l, mn_right = r, mn_parent = p\<rparr>"

text \<open>\<open>__init__\<close>: \<open>oid\<close> stands for the identity of the fresh \<open>object()\<close> token.\<close>

definition mmr_init :: "nat \<Rightarrow> string \<Rightarrow> mmr res" where
  "mmr_init oid scheme =
     (if scheme \<noteq> HASH_SCHEME_V1 \<and> scheme \<noteq> HASH_SCHEME_V2
      then Inl (ValueError ''hash_scheme must be one of the known schemes'')
      else Inr \<lparr>hash_scheme = scheme, heap = (\<lambda>_. mmr_node_new [] 0 0 None None None), next_ref = 0,
                nodes = [], peaks = [], leaf_node_indices = [], leaf_count = 0,
                leaf_index_base = 0, owner = oid\<rparr>)"

definition is_v2 :: "mmr \<Rightarrow> bool" where
  "is_v2 m \<longleftrightarrow> hash_scheme m = HASH_SCHEME_V2"

definition scheme_leaf_digest :: "bool \<Rightarrow> bytes \<Rightarrow> string" where
  "scheme_leaf_digest v2 data = (if v2 then hex (v2_leaf_hash data) else hexdigest data)"

definition leaf_digest :: "mmr \<Rightarrow> bytes \<Rightarrow> string" where
  "leaf_digest m data = scheme_leaf_digest (is_v2 m) data"

definition obj :: "mmr \<Rightarrow> ref \<Rightarrow> mmr_node" where
  "obj m r = heap m r"

definition set_parent :: "ref \<Rightarrow> nat option \<Rightarrow> mmr \<Rightarrow> mmr" where
  "set_parent r p m = m\<lparr>heap := (heap m)(r := (heap m r)\<lparr>mn_parent := p\<rparr>)\<rparr>"

text \<open>Creating a node object and appending it to \<open>nodes\<close>.\<close>

definition append_node :: "mmr_node \<Rightarrow> mmr \<Rightarrow> mmr" where
  "append_node nd m =
     m\<lparr>heap := (heap m)(next_ref m := nd), next_ref := Suc (next_ref m),
       nodes := nodes m @ [next_ref m]\<rparr>"

subsection \<open>The root\<close>

definition canonical_peaks :: "mmr \<Rightarrow> ref list" where
  "canonical_peaks m = sort_key (\<lambda>r. - int (mn_height (obj m r))) (peaks m)"

definition zero_root :: string where
  "zero_root = replicate 64 CHR ''0''"

definition get_root_hash :: "mmr \<Rightarrow> string res" where
  "get_root_hash m =
     (if peaks m = [] then Inr zero_root
      else bag_hashes (is_v2 m) (map (\<lambda>r. mn_hash (obj m r)) (canonical_peaks m)))"

definition get_leaf_count :: "mmr \<Rightarrow> nat" where
  "get_leaf_count m = leaf_count m"

subsection \<open>Appending\<close>

text \<open>
  The loop of \<open>add_leaf_hash\<close>: while the last peak has the height of the current node,
  pop it and make the parent of both.
\<close>

function merge_peaks :: "mmr \<Rightarrow> ref \<Rightarrow> (mmr \<times> ref) res" where
  "merge_peaks m cur =
     (if peaks m \<noteq> [] \<and> mn_height (obj m (last (peaks m))) = mn_height (obj m cur) then
        let old = last (peaks m); m1 = m\<lparr>peaks := butlast (peaks m)\<rparr> in
        bind_res (combine_hash (is_v2 m) (mn_hash (obj m old)) (mn_hash (obj m cur))) (\<lambda>h.
          let new_idx = length (nodes m1);
              par = mmr_node_new h (mn_height (obj m old) + 1) new_idx
                      (Some (mn_index (obj m old))) (Some (mn_index (obj m cur))) None;
              m2 = set_parent cur (Some new_idx) (set_parent old (Some new_idx) m1)
          in merge_peaks (append_node par m2) (next_ref m2))
      else Inr (m, cur))"
  by pat_completeness auto
termination
  by (relation "measure (\<lambda>(m, cur). length (peaks m))")
    (auto simp: append_node_def set_parent_def Let_def)

declare merge_peaks.simps [simp del]

definition add_leaf_hash :: "mmr \<Rightarrow> string \<Rightarrow> (string \<times> mmr) res" where
  "add_leaf_hash m leaf_hash =
     (if \<not> is_sha256_hex_str leaf_hash
      then Inl (ValueError ''leaf_hash must be a lowercase SHA-256 hex digest'')
      else
        let idx = length (nodes m);
            new_ref = next_ref m;
            m1 = append_node (mmr_node_new leaf_hash 0 idx None None None) m;
            m2 = m1\<lparr>leaf_node_indices := leaf_node_indices m1 @ [idx],
                     leaf_count := leaf_count m1 + 1\<rparr>
        in bind_res (merge_peaks m2 new_ref) (\<lambda>(m3, cur).
             let m4 = m3\<lparr>peaks := peaks m3 @ [cur]\<rparr>
             in bind_res (get_root_hash m4) (\<lambda>rt. Inr (rt, m4))))"

definition add_leaf :: "mmr \<Rightarrow> bytes \<Rightarrow> (string \<times> mmr) res" where
  "add_leaf m data = add_leaf_hash m (leaf_digest m data)"

subsection \<open>Restoring from a peak set\<close>

fun bit_length :: "nat \<Rightarrow> nat" where
  "bit_length n = (if n = 0 then 0 else Suc (bit_length (n div 2)))"

fun bit_count :: "nat \<Rightarrow> nat" where
  "bit_count n = (if n = 0 then 0 else n mod 2 + bit_count (n div 2))"

declare bit_length.simps [simp del] bit_count.simps [simp del]

definition expected_heights :: "nat \<Rightarrow> nat list" where
  "expected_heights n = filter (\<lambda>b. odd (n div 2 ^ b)) (rev [0..<bit_length n])"

definition heights_match :: "mmr_peak list \<Rightarrow> nat list \<Rightarrow> bool" where
  "heights_match ps hs \<longleftrightarrow> list_all2 (\<lambda>p h. py_eq_int (pk_height p) (int h)) ps hs"

definition pk_hash_str :: "mmr_peak \<Rightarrow> string" where
  "pk_hash_str p = (case as_str (pk_hash p) of None \<Rightarrow> [] | Some s \<Rightarrow> s)"

fun seat_peaks :: "(nat \<times> mmr_peak) list \<Rightarrow> mmr \<Rightarrow> mmr" where
  "seat_peaks [] m = m"
| "seat_peaks ((h, p) # ps) m =
     (let r = next_ref m;
          m1 = append_node (mmr_node_new (pk_hash_str p) h (length (nodes m)) None None None) m
      in seat_peaks ps (m1\<lparr>peaks := peaks m1 @ [r]\<rparr>))"

definition restore_from_peaks :: "mmr \<Rightarrow> int \<Rightarrow> mmr_peak list \<Rightarrow> (string \<times> mmr) res" where
  "restore_from_peaks m n ps =
     (if nodes m \<noteq> [] \<or> peaks m \<noteq> [] \<or> leaf_count m \<noteq> 0
      then Inl (ValueError ''restore_from_peaks requires an empty accumulator'')
      else if n < 1
      then Inl (ValueError ''restore_from_peaks requires leaf_count >= 1'')
      else if \<not> heights_match ps (expected_heights (nat n))
      then Inl (ValueError ''peak heights do not match the set bits of leaf_count'')
      else if list_ex (\<lambda>p. \<not> is_sha256_hex (pk_hash p)) ps
      then Inl (ValueError ''every restored peak hash must be a lowercase SHA-256 hex digest'')
      else
        let m1 = seat_peaks (zip (expected_heights (nat n)) ps) m;
            m2 = m1\<lparr>leaf_count := nat n, leaf_index_base := nat n\<rparr>
        in bind_res (get_root_hash m2) (\<lambda>rt. Inr (rt, m2)))"

subsection \<open>Checkpoint and rollback\<close>

definition checkpoint :: "mmr \<Rightarrow> mmr_checkpoint" where
  "checkpoint m =
     \<lparr>ck_node_count = int (length (nodes m)),
      ck_leaf_node_index_count = int (length (leaf_node_indices m)),
      ck_leaf_count = int (leaf_count m), ck_peaks = peaks m, ck_owner = owner m\<rparr>"

definition rollback_refused :: "mmr \<Rightarrow> mmr_checkpoint \<Rightarrow> bool" where
  "rollback_refused m ck \<longleftrightarrow>
     ck_owner ck \<noteq> owner m
     \<or> ck_node_count ck < 0
     \<or> ck_leaf_node_index_count ck < 0
     \<or> ck_leaf_count ck < int (leaf_index_base m)
     \<or> ck_node_count ck > int (length (nodes m))
     \<or> ck_leaf_node_index_count ck > int (length (leaf_node_indices m))
     \<or> ck_leaf_count ck > int (leaf_count m)
     \<or> list_ex (\<lambda>p. int (mn_index (obj m p)) \<ge> ck_node_count ck
                    \<or> nodes m ! mn_index (obj m p) \<noteq> p) (ck_peaks ck)"

definition rollback_to :: "mmr \<Rightarrow> mmr_checkpoint \<Rightarrow> mmr res" where
  "rollback_to m ck =
     (if rollback_refused m ck
      then Inl (ValueError ''MMR checkpoint does not describe a prefix of the current state'')
      else
        let m1 = m\<lparr>nodes := take (nat (ck_node_count ck)) (nodes m),
                   leaf_node_indices := take (nat (ck_leaf_node_index_count ck)) (leaf_node_indices m),
                   leaf_count := nat (ck_leaf_count ck), peaks := ck_peaks ck\<rparr>
        in Inr (fold (\<lambda>p. set_parent p None) (peaks m1) m1))"

subsection \<open>Inclusion proofs\<close>

definition nth_res :: "'a list \<Rightarrow> nat \<Rightarrow> 'a res" where
  "nth_res xs i = (if i < length xs then Inr (xs ! i) else Inl (IndexError ''list index out of range''))"

definition node_at :: "mmr \<Rightarrow> nat \<Rightarrow> mmr_node res" where
  "node_at m i = bind_res (nth_res (nodes m) i) (\<lambda>r. Inr (obj m r))"

definition physical_leaf_node_index :: "mmr \<Rightarrow> int \<Rightarrow> nat res" where
  "physical_leaf_node_index m i =
     (if i < 0 \<or> i \<ge> int (leaf_count m) then Inl (IndexError ''Leaf index out of range'')
      else let physical = i - int (leaf_index_base m) in
        if physical < 0 then Inl (LookupError ''MMRHistoricalLeafUnavailableError'')
        else nth_res (leaf_node_indices m) (nat physical))"

fun climb :: "nat \<Rightarrow> mmr \<Rightarrow> nat \<Rightarrow> (string \<times> string) list \<Rightarrow> (string \<times> string) list res option" where
  "climb 0 m idx acc = None"
| "climb (Suc fuel) m idx acc =
     (case node_at m idx of
        Inl e \<Rightarrow> Some (Inl e)
      | Inr node \<Rightarrow>
          (case mn_parent node of
             None \<Rightarrow> Some (Inr acc)
           | Some p \<Rightarrow>
               (case node_at m p of
                  Inl e \<Rightarrow> Some (Inl e)
                | Inr par \<Rightarrow>
                    (case (mn_left par, mn_right par) of
                       (Some l, Some r) \<Rightarrow>
                         (if mn_index node = l then
                            (case node_at m r of
                               Inl e \<Rightarrow> Some (Inl e)
                             | Inr sib \<Rightarrow> climb fuel m (mn_index par) (acc @ [(mn_hash sib, ''R'')]))
                          else
                            (case node_at m l of
                               Inl e \<Rightarrow> Some (Inl e)
                             | Inr sib \<Rightarrow> climb fuel m (mn_index par) (acc @ [(mn_hash sib, ''L'')])))
                     | _ \<Rightarrow> Some (Inl (ValueError ''MMR internal node with a missing child link''))))))"

definition get_inclusion_proof :: "mmr \<Rightarrow> int \<Rightarrow> (string \<times> string) list res option" where
  "get_inclusion_proof m i =
     (case physical_leaf_node_index m i of
        Inl e \<Rightarrow> Some (Inl e)
      | Inr idx \<Rightarrow> climb (Suc (length (nodes m))) m idx [])"

fun climb_root :: "nat \<Rightarrow> mmr \<Rightarrow> mmr_node \<Rightarrow> mmr_node res option" where
  "climb_root 0 m node = None"
| "climb_root (Suc fuel) m node =
     (case mn_parent node of
        None \<Rightarrow> Some (Inr node)
      | Some p \<Rightarrow>
          (case node_at m p of Inl e \<Rightarrow> Some (Inl e) | Inr par \<Rightarrow> climb_root fuel m par))"

fun find_peak :: "nat \<Rightarrow> nat \<Rightarrow> mmr_node list \<Rightarrow> nat res" where
  "find_peak idx i [] = Inl (RuntimeError ''StopIteration'')"
| "find_peak idx i (p # ps) = (if mn_index p = idx then Inr i else find_peak idx (Suc i) ps)"

definition mk_step :: "string \<times> string \<Rightarrow> mmr_step" where
  "mk_step sd = \<lparr>st_sibling_hash = PStr (fst sd), st_direction = PStr (snd sd)\<rparr>"

definition mk_peak :: "mmr_node \<Rightarrow> mmr_peak" where
  "mk_peak nd = \<lparr>pk_height = PInt (int (mn_height nd)), pk_hash = PStr (mn_hash nd)\<rparr>"

definition mk_proof :: "bool \<Rightarrow> int \<Rightarrow> nat \<Rightarrow> nat \<Rightarrow> mmr_step list \<Rightarrow> mmr_peak list \<Rightarrow> string \<Rightarrow> mmr_proof" where
  "mk_proof v2 i n pidx path ps rt =
     \<lparr>pr_version = PStr (if v2 then MMR_PROOF_VERSION_V2 else MMR_PROOF_VERSION_V1),
      pr_algorithm = PStr (if v2 then MMR_ALGORITHM_V2 else MMR_ALGORITHM_V1),
      pr_leaf_index = PInt i, pr_leaf_count = PInt (int n), pr_peak_index = PInt (int pidx),
      pr_path = path, pr_peaks = ps, pr_root = PStr rt\<rparr>"

definition get_portable_inclusion_proof :: "mmr \<Rightarrow> int \<Rightarrow> mmr_proof res option" where
  "get_portable_inclusion_proof m i =
     (case bind_res (physical_leaf_node_index m i) (node_at m) of
        Inl e \<Rightarrow> Some (Inl e)
      | Inr node \<Rightarrow>
          (case get_inclusion_proof m i of
             None \<Rightarrow> None
           | Some (Inl e) \<Rightarrow> Some (Inl e)
           | Some (Inr steps) \<Rightarrow>
               (case climb_root (Suc (length (nodes m))) m node of
                  None \<Rightarrow> None
                | Some (Inl e) \<Rightarrow> Some (Inl e)
                | Some (Inr peak_node) \<Rightarrow>
                    let canon = map (obj m) (canonical_peaks m) in
                    Some (bind_res (find_peak (mn_index peak_node) 0 canon) (\<lambda>pidx.
                      bind_res (get_root_hash m) (\<lambda>rt.
                        Inr (mk_proof (is_v2 m) i (leaf_count m) pidx (map mk_step steps)
                               (map mk_peak canon) rt)))))))"

subsection \<open>Verification\<close>

text \<open>
  The strict verifier. A direction that is a list or a dict cannot be looked up in the
  set \<open>{"L", "R"}\<close>: Python raises \<open>TypeError\<close> there.
\<close>

fun check_path :: "bool \<Rightarrow> nat \<Rightarrow> nat \<Rightarrow> mmr_step list \<Rightarrow> string \<Rightarrow> (string option) res" where
  "check_path v2 local_index level [] current = Inr (Some current)"
| "check_path v2 local_index level (s # ss) current =
     (if \<not> is_sha256_hex (st_sibling_hash s) then Inr None
      else if \<not> hashable (st_direction s) then Inl (TypeError ''unhashable type'')
      else if st_direction s \<noteq> PStr ''L'' \<and> st_direction s \<noteq> PStr ''R'' then Inr None
      else
        let expected = (if even (local_index div 2 ^ level) then ''R'' else ''L'') in
        if st_direction s \<noteq> PStr expected then Inr None
        else
          let sib = (case as_str (st_sibling_hash s) of None \<Rightarrow> [] | Some h \<Rightarrow> h);
              (lft, rgt) = (if st_direction s = PStr ''R'' then (current, sib) else (sib, current))
          in bind_res (combine_hash v2 lft rgt) (check_path v2 local_index (Suc level) ss))"

definition proof_scheme :: "mmr_proof \<Rightarrow> bool option" where
  "proof_scheme p =
     (if pr_version p = PStr MMR_PROOF_VERSION_V2 then
        (if pr_algorithm p \<noteq> PStr MMR_ALGORITHM_V2 then None else Some True)
      else if pr_version p = PStr MMR_PROOF_VERSION_V1 then
        (if pr_algorithm p \<noteq> PStr MMR_ALGORITHM_V1 then None else Some False)
      else None)"

definition normalise_root :: "string \<Rightarrow> string option" where
  "normalise_root rt =
     (if is_sha256_hex_str rt then Some rt
      else case b64u_to_hex (PStr rt) of Inl _ \<Rightarrow> None | Inr h \<Rightarrow> Some h)"

definition verify_body :: "bool \<Rightarrow> string \<Rightarrow> nat \<Rightarrow> nat \<Rightarrow> int \<Rightarrow> mmr_proof \<Rightarrow> string \<Rightarrow> bool res" where
  "verify_body v2 leaf_hash index count peak_index p rt =
     (if length (pr_peaks p) \<noteq> bit_count count then Inr False
      else if \<not> (0 \<le> peak_index \<and> peak_index < int (length (pr_peaks p))) then Inr False
      else
        let hs = expected_heights count; pk = nat peak_index in
        if \<not> heights_match (pr_peaks p) hs then Inr False
        else if list_ex (\<lambda>q. \<not> is_sha256_hex (pk_hash q)) (pr_peaks p) then Inr False
        else
          let start = sum_list (map (\<lambda>h. 2 ^ h) (take pk hs)); height = hs ! pk in
          if \<not> (start \<le> index \<and> index < start + 2 ^ height) then Inr False
          else if length (pr_path p) \<noteq> height then Inr False
          else
            bind_res (check_path v2 (index - start) 0 (pr_path p) leaf_hash) (\<lambda>r.
              case r of
                None \<Rightarrow> Inr False
              | Some current \<Rightarrow>
                  if PStr current \<noteq> pk_hash (pr_peaks p ! pk) then Inr False
                  else bind_res (bag_hashes v2 (map pk_hash_str (pr_peaks p))) (\<lambda>actual.
                         Inr (actual = rt))))"

definition verify_portable_inclusion_hash :: "string \<Rightarrow> mmr_proof \<Rightarrow> string \<Rightarrow> bool res" where
  "verify_portable_inclusion_hash leaf_hash p trusted_root =
     (if \<not> is_sha256_hex_str leaf_hash then Inr False
      else case proof_scheme p of
        None \<Rightarrow> Inr False
      | Some v2 \<Rightarrow>
          (case (as_int (pr_leaf_index p), as_int (pr_leaf_count p), as_int (pr_peak_index p)) of
             (Some index, Some count, Some peak_index) \<Rightarrow>
               if count < 1 \<or> \<not> (0 \<le> index \<and> index < count) then Inr False
               else (case normalise_root trusted_root of
                       None \<Rightarrow> Inr False
                     | Some rt \<Rightarrow>
                         if pr_root p \<noteq> PStr rt then Inr False
                         else verify_body v2 leaf_hash (nat index) (nat count) peak_index p rt)
           | _ \<Rightarrow> Inr False))"

definition verify_portable_inclusion :: "bytes \<Rightarrow> mmr_proof \<Rightarrow> string \<Rightarrow> bool res" where
  "verify_portable_inclusion leaf_data p trusted_root =
     verify_portable_inclusion_hash
       (scheme_leaf_digest (pr_version p = PStr MMR_PROOF_VERSION_V2) leaf_data) p trusted_root"

text \<open>
  The instance verifier finds the peak of the leaf, then asks the portable one. Its loop
  leaves \<open>peak_index\<close> at the last peak when none is broken out of.
\<close>

fun locate_peak :: "nat \<Rightarrow> nat \<Rightarrow> nat \<Rightarrow> nat list \<Rightarrow> nat" where
  "locate_peak idx start i [] = i"
| "locate_peak idx start i [h] = i"
| "locate_peak idx start i (h # h' # hs) =
     (if idx < start + 2 ^ h then i else locate_peak idx (start + 2 ^ h) (Suc i) (h' # hs))"

definition verify_inclusion ::
  "mmr \<Rightarrow> bytes \<Rightarrow> pyval \<Rightarrow> (pyval \<times> pyval) list \<Rightarrow> string \<Rightarrow> bool res" where
  "verify_inclusion m leaf_data leaf_idx steps rt =
     (case as_int leaf_idx of
        None \<Rightarrow> Inr False
      | Some i \<Rightarrow>
          if \<not> (0 \<le> i \<and> i < int (leaf_count m)) \<or> \<not> is_sha256_hex_str rt then Inr False
          else if peaks m = [] then Inr False
          else
            let canon = map (obj m) (canonical_peaks m);
                pidx = locate_peak (nat i) 0 0 (map mn_height canon);
                path = map (\<lambda>(s, d). \<lparr>st_sibling_hash = s, st_direction = d\<rparr>) steps
            in bind_res (get_root_hash m) (\<lambda>r.
                 verify_portable_inclusion leaf_data
                   (mk_proof (is_v2 m) i (leaf_count m) pidx path (map mk_peak canon) r) rt))"

subsection \<open>Consistency proofs\<close>

fun reconstruct_loop ::
  "nat \<Rightarrow> mmr \<Rightarrow> nat \<Rightarrow> string list \<Rightarrow> ref list \<Rightarrow> string list res option" where
  "reconstruct_loop 0 m remaining acc stack = None"
| "reconstruct_loop (Suc fuel) m remaining acc stack =
     (if remaining = 0 \<or> stack = [] then
        Some (if remaining \<noteq> 0
              then Inl (ValueError ''Cannot reconstruct peaks from an incomplete tree'')
              else Inr acc)
      else
        let r = hd stack; rest = tl stack; node = obj m r in
        if mn_index node \<ge> length (nodes m) \<or> nodes m ! mn_index node \<noteq> r
        then Some (Inl (ValueError ''Cannot reconstruct peaks from detached nodes''))
        else if 2 ^ mn_height node \<le> remaining
        then reconstruct_loop fuel m (remaining - 2 ^ mn_height node) (acc @ [mn_hash node]) rest
        else case (mn_left node, mn_right node) of
               (Some l, Some rg) \<Rightarrow>
                 (case (nth_res (nodes m) l, nth_res (nodes m) rg) of
                    (Inr lr, Inr rr) \<Rightarrow> reconstruct_loop fuel m remaining acc (lr # rr # rest)
                  | _ \<Rightarrow> Some (Inl (IndexError ''list index out of range'')))
             | _ \<Rightarrow> Some (Inl (ValueError ''Cannot reconstruct peaks inside a pruned mountain'')))"

definition reconstruct_peaks_at :: "mmr \<Rightarrow> int \<Rightarrow> string list res option" where
  "reconstruct_peaks_at m target =
     (if \<not> (0 \<le> target \<and> target \<le> int (leaf_count m))
      then Some (Inl (ValueError ''Cannot reconstruct peaks outside the current tree''))
      else reconstruct_loop (Suc (length (nodes m))) m (nat target) [] (peaks m))"

definition get_consistency_proof ::
  "mmr \<Rightarrow> string \<Rightarrow> pyval \<Rightarrow> (string \<times> string list) res option" where
  "get_consistency_proof m old_root old_count =
     (case as_int old_count of
        None \<Rightarrow> Some (Inl (ValueError ''old_count out of valid range''))
      | Some n \<Rightarrow>
          if \<not> (0 \<le> n \<and> n \<le> int (leaf_count m))
          then Some (Inl (ValueError ''old_count out of valid range''))
          else case get_root_hash m of
            Inl e \<Rightarrow> Some (Inl e)
          | Inr current_root \<Rightarrow>
              if n = 0 then
                Some (if old_root \<noteq> zero_root
                      then Inl (ValueError ''old_root mismatch for the empty accumulator'')
                      else Inr (current_root, []))
              else if n = int (leaf_count m) then
                Some (if old_root \<noteq> current_root
                      then Inl (ValueError ''old_root mismatch for the current accumulator'')
                      else Inr (current_root, map (\<lambda>r. mn_hash (obj m r)) (peaks m)))
              else case reconstruct_peaks_at m n of
                None \<Rightarrow> None
              | Some (Inl _) \<Rightarrow>
                  Some (Inl (ValueError ''Cannot reconstruct peaks for the requested prefix''))
              | Some (Inr old_peaks) \<Rightarrow>
                  Some (bind_res (bag_hashes (is_v2 m) old_peaks) (\<lambda>r.
                    if r \<noteq> old_root
                    then Inl (ValueError ''old_root mismatch for the requested prefix'')
                    else Inr (current_root, old_peaks))))"

end
