(* ===== verification/Mmr_Heights.thy ===== *)
theory Mmr_Heights
  imports Mmr "HOL-Library.Countable"
begin

section \<open>Mountain heights and the binary digits of the leaf count\<close>

text \<open>
  The code reads the heights of the mountains off the set bits of the leaf count
  (\<open>expected_heights\<close>, modelled from the list comprehensions of \<open>restore_from_peaks\<close> and
  \<open>verify_portable_inclusion_hash\<close>). The lemmas here say that this list is the only
  strictly descending list of heights whose mountains hold that many leaves.
\<close>

definition mountain_leaves :: "nat list \<Rightarrow> nat" where
  "mountain_leaves hs = sum_list (map (\<lambda>h. 2 ^ h) hs)"

lemma mountain_leaves_simps [simp]:
  "mountain_leaves [] = 0"
  "mountain_leaves (h # hs) = 2 ^ h + mountain_leaves hs"
  "mountain_leaves (hs @ hs') = mountain_leaves hs + mountain_leaves hs'"
  by (simp_all add: mountain_leaves_def)

lemma less_bit_length: "n < 2 ^ bit_length n"
proof (induction n rule: bit_length.induct)
  case (1 n)
  show ?case
  proof (cases "n = 0")
    case False
    with 1 have "n div 2 < 2 ^ bit_length (n div 2)" by simp
    then have "n < 2 * 2 ^ bit_length (n div 2)" by linarith
    with False show ?thesis by (subst bit_length.simps) simp
  qed simp
qed

lemma odd_div_less_bit_length: "odd (n div 2 ^ b) \<Longrightarrow> b < bit_length n"
proof (rule ccontr)
  assume odd: "odd (n div 2 ^ b)" and "\<not> b < bit_length n"
  then have "(2::nat) ^ bit_length n \<le> 2 ^ b" by simp
  with less_bit_length [of n] have "n < 2 ^ b" by (rule less_le_trans)
  then have "n div 2 ^ b = 0" by simp
  with odd show False by simp
qed

lemma set_expected_heights: "set (expected_heights n) = set_decode n"
  by (auto simp: expected_heights_def set_decode_def odd_div_less_bit_length)

lemma sorted_expected_heights: "sorted_wrt (>) (expected_heights n)"
  by (auto simp: expected_heights_def sorted_wrt_rev intro!: sorted_wrt_filter)

lemma sorted_greater_distinct: "sorted_wrt (>) (hs :: nat list) \<Longrightarrow> distinct hs"
  by (induction hs) auto

lemma sorted_greater_unique:
  assumes "sorted_wrt (>) (xs :: nat list)" and "sorted_wrt (>) ys" and "set xs = set ys"
  shows "xs = ys"
proof -
  have *: "sorted (rev zs)" if "sorted_wrt (>) zs" for zs :: "nat list"
    using that by (auto simp: sorted_wrt_rev intro: sorted_wrt_mono_rel [rotated])
  have "rev xs = rev ys"
    using assms * by (intro sorted_distinct_set_unique) (auto dest: sorted_greater_distinct)
  then show ?thesis by simp
qed

lemma mountain_leaves_set_encode:
  "sorted_wrt (>) hs \<Longrightarrow> mountain_leaves hs = set_encode (set hs)"
  by (simp add: mountain_leaves_def set_encode_def sum_list_distinct_conv_sum_set
      sorted_greater_distinct)

lemma expected_heights_unique:
  assumes "sorted_wrt (>) hs"
  shows "expected_heights (mountain_leaves hs) = hs"
  using assms sorted_expected_heights
  by (intro sorted_greater_unique) (auto simp: set_expected_heights mountain_leaves_set_encode)

lemma mountain_leaves_expected_heights: "mountain_leaves (expected_heights n) = n"
  by (simp add: mountain_leaves_set_encode sorted_expected_heights set_expected_heights)

lemma card_set_decode: "card (set_decode n) = bit_count n"
proof (induction n rule: bit_count.induct)
  case (1 n)
  show ?case
  proof (cases "n = 0")
    case False
    have "set_decode n = (if odd n then insert 0 (Suc ` set_decode (n div 2)) else Suc ` set_decode (n div 2))"
      by (auto simp: image_iff) (metis not0_implies_Suc set_decode_Suc set_decode_0)+
    moreover have "card (Suc ` set_decode (n div 2)) = bit_count (n div 2)"
      using 1 False by (simp add: card_image)
    ultimately show ?thesis
      using False by (subst bit_count.simps) (simp add: finite_set_decode odd_iff_mod_2_eq_one even_iff_mod_2_eq_zero)
  qed (simp add: bit_count.simps)
qed

lemma length_expected_heights: "length (expected_heights n) = bit_count n"
proof -
  have "length (expected_heights n) = card (set (expected_heights n))"
    using sorted_greater_distinct [OF sorted_expected_heights] by (rule distinct_card [symmetric])
  then show ?thesis
    by (simp add: set_expected_heights card_set_decode)
qed

lemma heights_match_map:
  "heights_match (map mk_peak ns) hs \<longleftrightarrow> map mn_height ns = hs"
proof -
  have "heights_match (map mk_peak ns) hs \<longleftrightarrow> list_all2 (\<lambda>n h. mn_height n = h) ns hs"
    by (simp add: heights_match_def mk_peak_def list_all2_map1)
  also have "\<dots> \<longleftrightarrow> map mn_height ns = hs"
    by (simp add: list_all2_conv_all_nth list_eq_iff_nth_eq)
  finally show ?thesis .
qed

lemma heights_match_length: "heights_match ps hs \<Longrightarrow> length ps = length hs"
  by (auto simp: heights_match_def dest: list_all2_lengthD)

end
