(* ===== verification/Mmr_Forest.thy ===== *)
theory Mmr_Forest
  imports Mmr_Heights
begin

section \<open>The accumulator as a forest of perfect trees\<close>

text \<open>
  The abstract view of an accumulator: a list of perfect binary trees, highest first,
  whose leaves are the appended digests (or, after a restore, opaque peaks). The
  relation \<open>represents\<close> fixes the whole object graph of the code as a function of the
  forest: the nodes in the order they were created, with their links. Every operation
  of theory \<open>Mmr\<close> is refined to an operation on forests.
\<close>

datatype mtree = MLeaf string | MPruned nat string | MNode mtree mtree

fun ht :: "mtree \<Rightarrow> nat" where
  "ht (MLeaf h) = 0"
| "ht (MPruned k h) = k"
| "ht (MNode l r) = Suc (ht l)"

fun nsize :: "mtree \<Rightarrow> nat" where
  "nsize (MLeaf h) = 1"
| "nsize (MPruned k h) = 1"
| "nsize (MNode l r) = nsize l + nsize r + 1"

definition node_digest :: "bool \<Rightarrow> string \<Rightarrow> string \<Rightarrow> string" where
  "node_digest v2 l r =
     (if v2 then hex (sha256 (DOMAIN_NODE @ unhex l @ unhex r)) else hexdigest (encode (l @ r)))"

fun thash :: "bool \<Rightarrow> mtree \<Rightarrow> string" where
  "thash v2 (MLeaf h) = h"
| "thash v2 (MPruned k h) = h"
| "thash v2 (MNode l r) = node_digest v2 (thash v2 l) (thash v2 r)"

fun perfect :: "mtree \<Rightarrow> bool" where
  "perfect (MNode l r) \<longleftrightarrow> perfect l \<and> perfect r \<and> ht l = ht r"
| "perfect _ = True"

fun digests_ok :: "mtree \<Rightarrow> bool" where
  "digests_ok (MLeaf h) = is_sha256_hex_str h"
| "digests_ok (MPruned k h) = is_sha256_hex_str h"
| "digests_ok (MNode l r) \<longleftrightarrow> digests_ok l \<and> digests_ok r"

fun tleaves :: "mtree \<Rightarrow> string list" where
  "tleaves (MLeaf h) = [h]"
| "tleaves (MPruned k h) = []"
| "tleaves (MNode l r) = tleaves l @ tleaves r"

fun tpruned :: "mtree \<Rightarrow> nat" where
  "tpruned (MLeaf h) = 0"
| "tpruned (MPruned k h) = 2 ^ k"
| "tpruned (MNode l r) = tpruned l + tpruned r"

text \<open>The order in which restored peaks (0) and leaves (1) stand.\<close>

fun marks :: "mtree \<Rightarrow> nat list" where
  "marks (MLeaf h) = [1]"
| "marks (MPruned k h) = [0]"
| "marks (MNode l r) = marks l @ marks r"

fun top_links :: "nat \<Rightarrow> mtree \<Rightarrow> nat option \<times> nat option" where
  "top_links off (MNode l r) = (Some (off + nsize l - 1), Some (off + nsize l + nsize r - 1))"
| "top_links off _ = (None, None)"

definition top_node :: "bool \<Rightarrow> nat \<Rightarrow> nat option \<Rightarrow> mtree \<Rightarrow> mmr_node" where
  "top_node v2 off par t =
     mmr_node_new (thash v2 t) (ht t) (off + nsize t - 1) (fst (top_links off t)) (snd (top_links off t)) par"

fun inner :: "bool \<Rightarrow> nat \<Rightarrow> mtree \<Rightarrow> mmr_node list" where
  "inner v2 off (MNode l r) =
     (let i = Some (off + nsize l + nsize r) in
      inner v2 off l @ [top_node v2 off i l] @ inner v2 (off + nsize l) r @ [top_node v2 (off + nsize l) i r])"
| "inner v2 off _ = []"

definition layout :: "bool \<Rightarrow> nat \<Rightarrow> nat option \<Rightarrow> mtree \<Rightarrow> mmr_node list" where
  "layout v2 off par t = inner v2 off t @ [top_node v2 off par t]"

fun forest_layout :: "bool \<Rightarrow> nat \<Rightarrow> mtree list \<Rightarrow> mmr_node list" where
  "forest_layout v2 off [] = []"
| "forest_layout v2 off (t # ts) = layout v2 off None t @ forest_layout v2 (off + nsize t) ts"

fun root_pos :: "nat \<Rightarrow> mtree list \<Rightarrow> nat list" where
  "root_pos off [] = []"
| "root_pos off (t # ts) = (off + nsize t - 1) # root_pos (off + nsize t) ts"

fun leaf_pos :: "nat \<Rightarrow> mtree \<Rightarrow> nat list" where
  "leaf_pos off (MLeaf h) = [off]"
| "leaf_pos off (MPruned k h) = []"
| "leaf_pos off (MNode l r) = leaf_pos off l @ leaf_pos (off + nsize l) r"

fun forest_leaf_pos :: "nat \<Rightarrow> mtree list \<Rightarrow> nat list" where
  "forest_leaf_pos off [] = []"
| "forest_leaf_pos off (t # ts) = leaf_pos off t @ forest_leaf_pos (off + nsize t) ts"

definition fsize :: "mtree list \<Rightarrow> nat" where
  "fsize ts = sum_list (map nsize ts)"

definition fleaves :: "mtree list \<Rightarrow> string list" where
  "fleaves ts = concat (map tleaves ts)"

definition fpruned :: "mtree list \<Rightarrow> nat" where
  "fpruned ts = sum_list (map tpruned ts)"

definition wf_tree :: "mtree \<Rightarrow> bool" where
  "wf_tree t \<longleftrightarrow> perfect t \<and> digests_ok t"

definition wf_forest :: "mtree list \<Rightarrow> bool" where
  "wf_forest ts \<longleftrightarrow>
     list_all wf_tree ts \<and> sorted_wrt (>) (map ht ts) \<and> sorted (concat (map marks ts))"

text \<open>
  The object graph of an accumulator, as a function of its forest: \<open>graph m ns\<close> says that
  the \<open>nodes\<close> list holds distinct live references to the objects \<open>ns\<close>.
\<close>

definition graph :: "mmr \<Rightarrow> mmr_node list \<Rightarrow> bool" where
  "graph m ns \<longleftrightarrow> map (heap m) (nodes m) = ns \<and> distinct (nodes m)
     \<and> list_all (\<lambda>r. r < next_ref m) (nodes m)"

definition represents :: "mmr \<Rightarrow> mtree list \<Rightarrow> bool" where
  "represents m ts \<longleftrightarrow>
     (hash_scheme m = HASH_SCHEME_V1 \<or> hash_scheme m = HASH_SCHEME_V2)
     \<and> graph m (forest_layout (is_v2 m) 0 ts)
     \<and> peaks m = map ((!) (nodes m)) (root_pos 0 ts)
     \<and> leaf_node_indices m = forest_leaf_pos 0 ts
     \<and> leaf_count m = mountain_leaves (map ht ts)
     \<and> leaf_index_base m = fpruned ts
     \<and> wf_forest ts"

text \<open>The invariant of the accumulator: it represents some forest.\<close>

definition mmr_inv :: "mmr \<Rightarrow> bool" where
  "mmr_inv m \<longleftrightarrow> (\<exists>ts. represents m ts)"

text \<open>Appending on forests: the binary counter, least significant tree last.\<close>

fun push_rev :: "mtree list \<Rightarrow> mtree \<Rightarrow> mtree list" where
  "push_rev [] c = [c]"
| "push_rev (p # ps) c = (if ht p = ht c then push_rev ps (MNode p c) else c # p # ps)"

definition push :: "mtree list \<Rightarrow> mtree \<Rightarrow> mtree list" where
  "push ts c = rev (push_rev (rev ts) c)"

subsection \<open>Hashes of well-formed trees\<close>

lemma combine_hash_ok:
  assumes "is_sha256_hex_str l" and "is_sha256_hex_str r"
  shows "combine_hash v2 l r = Inr (node_digest v2 l r)"
  using sha256_hex_fromhex [OF assms(1)] sha256_hex_fromhex [OF assms(2)]
  by (simp add: combine_hash_def node_digest_def v2_node_hash_def)

lemma node_digest_hex [simp]: "is_sha256_hex_str (node_digest v2 l r)"
  by (simp add: node_digest_def is_sha256_hex_str_hex)

lemma thash_hex: "digests_ok t \<Longrightarrow> is_sha256_hex_str (thash v2 t)"
  by (cases t) simp_all

lemma nsize_pos [simp]: "0 < nsize t"
  by (cases t) simp_all

lemma nsize_ne0 [simp]: "nsize t \<noteq> 0"
  using nsize_pos [of t] by simp

lemma length_inner: "length (inner v2 off t) = nsize t - 1"
proof (induction t arbitrary: off)
  case (MNode l r)
  then show ?case
    using nsize_pos [of l] nsize_pos [of r] by (simp add: Let_def)
qed simp_all

lemma length_layout [simp]: "length (layout v2 off par t) = nsize t"
  using nsize_pos [of t] by (simp add: layout_def length_inner)

lemma length_forest_layout [simp]: "length (forest_layout v2 off ts) = fsize ts"
  by (induction ts arbitrary: off) (simp_all add: fsize_def)

lemma fsize_simps [simp]:
  "fsize [] = 0" "fsize (t # ts) = nsize t + fsize ts" "fsize (ts @ us) = fsize ts + fsize us"
  by (simp_all add: fsize_def)

lemma forest_layout_append [simp]:
  "forest_layout v2 off (ts @ us) = forest_layout v2 off ts @ forest_layout v2 (off + fsize ts) us"
  by (induction ts arbitrary: off) (simp_all add: add.assoc)

lemma root_pos_append [simp]:
  "root_pos off (ts @ us) = root_pos off ts @ root_pos (off + fsize ts) us"
  by (induction ts arbitrary: off) (simp_all add: add.assoc)

lemma forest_leaf_pos_append [simp]:
  "forest_leaf_pos off (ts @ us) = forest_leaf_pos off ts @ forest_leaf_pos (off + fsize ts) us"
  by (induction ts arbitrary: off) (simp_all add: add.assoc)

lemma root_pos_bound: "i \<in> set (root_pos off ts) \<Longrightarrow> off \<le> i \<and> i < off + fsize ts"
proof (induction ts arbitrary: off)
  case (Cons t ts)
  then show ?case
    using nsize_pos [of t] by (fastforce simp del: nsize_pos)
qed simp

lemma layout_MNode:
  "layout v2 off par (MNode l r) =
     layout v2 off (Some (off + nsize l + nsize r)) l
     @ layout v2 (off + nsize l) (Some (off + nsize l + nsize r)) r
     @ [top_node v2 off par (MNode l r)]"
  by (simp add: layout_def Let_def)

lemma layout_reparent:
  "layout v2 off par' t = (layout v2 off par t)[nsize t - 1 := top_node v2 off par' t]"
  by (simp add: layout_def list_update_append length_inner)

lemma top_node_reparent: "(top_node v2 off par t)\<lparr>mn_parent := par'\<rparr> = top_node v2 off par' t"
  by (simp add: top_node_def mmr_node_new_def)

lemma top_node_sel [simp]:
  "mn_hash (top_node v2 off par t) = thash v2 t" "mn_height (top_node v2 off par t) = ht t"
  "mn_index (top_node v2 off par t) = off + nsize t - 1" "mn_parent (top_node v2 off par t) = par"
  "mn_left (top_node v2 off par t) = fst (top_links off t)"
  "mn_right (top_node v2 off par t) = snd (top_links off t)"
  by (simp_all add: top_node_def mmr_node_new_def)

lemma layout_last: "layout v2 off par t ! (nsize t - 1) = top_node v2 off par t"
  by (simp add: layout_def nth_append length_inner)

subsection \<open>The object graph under the primitive updates\<close>

lemma graph_length: "graph m ns \<Longrightarrow> length (nodes m) = length ns"
  by (auto simp: graph_def)

lemma graph_obj: "graph m ns \<Longrightarrow> i < length ns \<Longrightarrow> obj m (nodes m ! i) = ns ! i"
  by (auto simp: graph_def obj_def)

lemma graph_append_node: "graph m ns \<Longrightarrow> graph (append_node nd m) (ns @ [nd])"
  by (fastforce simp: graph_def append_node_def list_all_iff)

lemma graph_set_parent:
  assumes "graph m ns" and "i < length ns"
  shows "graph (set_parent (nodes m ! i) p m) (ns[i := (ns ! i)\<lparr>mn_parent := p\<rparr>])"
proof -
  have "map ((heap m)(nodes m ! i := (heap m (nodes m ! i))\<lparr>mn_parent := p\<rparr>)) (nodes m)
          = (map (heap m) (nodes m))[i := (heap m (nodes m ! i))\<lparr>mn_parent := p\<rparr>]"
    using assms by (intro nth_equalityI)
      (auto simp: graph_def nth_list_update nth_eq_iff_index_eq)
  with assms show ?thesis
    by (auto simp: graph_def set_parent_def)
qed

lemma graph_peaks [simp]: "graph (m\<lparr>peaks := ps\<rparr>) ns = graph m ns"
  "graph (m\<lparr>leaf_node_indices := li\<rparr>) ns = graph m ns" "graph (m\<lparr>leaf_count := lc\<rparr>) ns = graph m ns"
  "graph (m\<lparr>leaf_index_base := lb\<rparr>) ns = graph m ns"
  by (simp_all add: graph_def)

lemma append_node_sel [simp]:
  "nodes (append_node nd m) = nodes m @ [next_ref m]" "peaks (append_node nd m) = peaks m"
  "hash_scheme (append_node nd m) = hash_scheme m"
  "leaf_node_indices (append_node nd m) = leaf_node_indices m"
  "leaf_count (append_node nd m) = leaf_count m"
  "leaf_index_base (append_node nd m) = leaf_index_base m" "owner (append_node nd m) = owner m"
  "next_ref (append_node nd m) = Suc (next_ref m)"
  "heap (append_node nd m) = (heap m)(next_ref m := nd)"
  by (simp_all add: append_node_def)

lemma set_parent_sel [simp]:
  "nodes (set_parent r p m) = nodes m" "peaks (set_parent r p m) = peaks m"
  "hash_scheme (set_parent r p m) = hash_scheme m"
  "leaf_node_indices (set_parent r p m) = leaf_node_indices m"
  "leaf_count (set_parent r p m) = leaf_count m"
  "leaf_index_base (set_parent r p m) = leaf_index_base m" "owner (set_parent r p m) = owner m"
  "next_ref (set_parent r p m) = next_ref m"
  by (simp_all add: set_parent_def)

lemma is_v2_cong: "hash_scheme m = hash_scheme m' \<Longrightarrow> is_v2 m = is_v2 m'"
  by (simp add: is_v2_def)

lemma is_v2_updates [simp]:
  "is_v2 (m\<lparr>peaks := ps\<rparr>) = is_v2 m" "is_v2 (m\<lparr>leaf_node_indices := li\<rparr>) = is_v2 m"
  "is_v2 (m\<lparr>leaf_count := lc\<rparr>) = is_v2 m" "is_v2 (m\<lparr>leaf_index_base := lb\<rparr>) = is_v2 m"
  "is_v2 (append_node nd m) = is_v2 m" "is_v2 (set_parent r p m) = is_v2 m"
  by (simp_all add: is_v2_def)

subsection \<open>What an append leaves alone\<close>

definition strip_parent :: "mmr_node \<Rightarrow> mmr_node" where
  "strip_parent nd = nd\<lparr>mn_parent := None\<rparr>"

text \<open>
  \<open>frame m m'\<close>: the later state \<open>m'\<close> extends \<open>m\<close>; of the objects of \<open>m\<close> only the
  \<open>parent\<close> of a peak may have changed, and no object of \<open>m\<close> has become a peak.
\<close>

definition frame :: "mmr \<Rightarrow> mmr \<Rightarrow> bool" where
  "frame m m' \<longleftrightarrow>
     (\<exists>xs. nodes m' = nodes m @ xs \<and> list_all (\<lambda>r. next_ref m \<le> r) xs) \<and> next_ref m \<le> next_ref m'
     \<and> (\<forall>r. r < next_ref m \<longrightarrow> r \<notin> set (peaks m) \<longrightarrow> heap m' r = heap m r)
     \<and> (\<forall>r. r < next_ref m \<longrightarrow> strip_parent (heap m' r) = strip_parent (heap m r))
     \<and> (\<forall>r \<in> set (peaks m'). r < next_ref m \<longrightarrow> r \<in> set (peaks m))
     \<and> (\<exists>ys. leaf_node_indices m' = leaf_node_indices m @ ys) \<and> leaf_count m \<le> leaf_count m'
     \<and> hash_scheme m' = hash_scheme m \<and> leaf_index_base m' = leaf_index_base m \<and> owner m' = owner m"

lemma frame_refl: "frame m m"
  by (simp add: frame_def)

lemma frame_trans: "frame m m' \<Longrightarrow> frame m' m'' \<Longrightarrow> frame m m''"
  unfolding frame_def by (auto simp: list_all_iff) (metis order_trans less_le_trans)+

subsection \<open>Merging\<close>

text \<open>A forest with a loose last tree, as the loop of \<open>add_leaf_hash\<close> sees it.\<close>

definition open_state :: "mmr \<Rightarrow> mtree list \<Rightarrow> mtree \<Rightarrow> ref \<Rightarrow> bool" where
  "open_state m ts c cur \<longleftrightarrow>
     graph m (forest_layout (is_v2 m) 0 ts @ layout (is_v2 m) (fsize ts) None c)
     \<and> peaks m = map ((!) (nodes m)) (root_pos 0 ts)
     \<and> cur = nodes m ! (fsize ts + nsize c - 1)
     \<and> list_all wf_tree ts \<and> wf_tree c"

lemma graph_block_top:
  assumes "graph m (pre @ layout v2 off par t @ post)" and "off = length pre"
  shows "obj m (nodes m ! (off + nsize t - 1)) = top_node v2 off par t"
proof -
  have "off + nsize t - 1 = length pre + (nsize t - 1)"
    using nsize_pos [of t] assms(2) by linarith
  then show ?thesis
    using assms nsize_pos [of t] by (simp only: graph_obj length_append length_layout)
      (simp add: nth_append layout_last [unfolded One_nat_def])
qed

lemma graph_block_reparent:
  assumes g: "graph m (pre @ layout v2 off par t @ post)" and off: "off = length pre"
  shows "graph (set_parent (nodes m ! (off + nsize t - 1)) q m) (pre @ layout v2 off q t @ post)"
proof -
  let ?ns = "pre @ layout v2 off par t @ post" and ?i = "off + nsize t - 1"
  have i: "?i = length pre + (nsize t - 1)"
    using nsize_pos [of t] off by linarith
  then have lt: "?i < length ?ns"
    using nsize_pos [of t] by (simp del: nsize_pos)
  have nth: "?ns ! ?i = top_node v2 off par t"
    unfolding i using nsize_pos [of t]
    by (simp add: nth_append layout_last [unfolded One_nat_def] del: nsize_pos)
  have "?ns[?i := top_node v2 off q t] = pre @ layout v2 off q t @ post"
    unfolding i using nsize_pos [of t]
    by (subst layout_reparent [of v2 off q t par]) (simp add: list_update_append not_less)
  with graph_set_parent [OF g lt, of q] show ?thesis
    by (simp only: nth top_node_reparent)
qed

lemma open_state_graph:
  assumes "open_state m ts c cur"
  shows "graph m (forest_layout (is_v2 m) 0 ts @ layout (is_v2 m) (fsize ts) None c @ [])"
    and "cur = nodes m ! (fsize ts + nsize c - 1)"
  using assms by (simp_all add: open_state_def)

lemma open_state_cur:
  assumes "open_state m ts c cur"
  shows "obj m cur = top_node (is_v2 m) (fsize ts) None c"
  unfolding open_state_graph(2) [OF assms]
  by (rule graph_block_top [OF open_state_graph(1) [OF assms]]) simp

lemma open_state_last:
  assumes "open_state m (ts @ [p]) c cur"
  shows "obj m (last (peaks m)) = top_node (is_v2 m) (fsize ts) None p"
    and "last (peaks m) = nodes m ! (fsize ts + nsize p - 1)"
    and "butlast (peaks m) = map ((!) (nodes m)) (root_pos 0 ts)"
proof -
  from assms have ps: "peaks m = map ((!) (nodes m)) (root_pos 0 (ts @ [p]))"
    and g: "graph m (forest_layout (is_v2 m) 0 ts @ layout (is_v2 m) (fsize ts) None p
              @ layout (is_v2 m) (fsize ts + nsize p) None c)"
    by (simp_all add: open_state_def)
  from ps show lst: "last (peaks m) = nodes m ! (fsize ts + nsize p - 1)"
    by simp
  from ps show "butlast (peaks m) = map ((!) (nodes m)) (root_pos 0 ts)"
    by (simp add: butlast_append)
  show "obj m (last (peaks m)) = top_node (is_v2 m) (fsize ts) None p"
    unfolding lst using g by (rule graph_block_top) simp
qed

text \<open>One turn of the loop, as a state.\<close>

definition merged :: "mmr \<Rightarrow> ref \<Rightarrow> string \<Rightarrow> mmr" where
  "merged m cur h =
     append_node (mmr_node_new h (mn_height (obj m (last (peaks m))) + 1) (length (nodes m))
         (Some (mn_index (obj m (last (peaks m))))) (Some (mn_index (obj m cur))) None)
       (set_parent cur (Some (length (nodes m)))
         (set_parent (last (peaks m)) (Some (length (nodes m))) (m\<lparr>peaks := butlast (peaks m)\<rparr>)))"

lemma merge_peaks_step:
  assumes "peaks m \<noteq> []" and "mn_height (obj m (last (peaks m))) = mn_height (obj m cur)"
    and "combine_hash (is_v2 m) (mn_hash (obj m (last (peaks m)))) (mn_hash (obj m cur)) = Inr h"
  shows "merge_peaks m cur = merge_peaks (merged m cur h) (next_ref m)"
  by (subst merge_peaks.simps) (use assms in \<open>simp add: merged_def Let_def\<close>)

lemma merge_peaks_stop:
  "peaks m = [] \<or> mn_height (obj m (last (peaks m))) \<noteq> mn_height (obj m cur)
     \<Longrightarrow> merge_peaks m cur = Inr (m, cur)"
  by (subst merge_peaks.simps) auto

lemma merged_open_state:
  assumes os: "open_state m (ts @ [p]) c cur" and h: "ht p = ht c"
  shows "open_state (merged m cur (node_digest (is_v2 m) (thash (is_v2 m) p) (thash (is_v2 m) c)))
           ts (MNode p c) (next_ref m)"
proof -
  let ?v = "is_v2 m" and ?F = "forest_layout (is_v2 m) 0 ts" and ?i = "length (nodes m)"
  let ?m1 = "set_parent (last (peaks m)) (Some ?i) (m\<lparr>peaks := butlast (peaks m)\<rparr>)"
  let ?m2 = "set_parent cur (Some ?i) ?m1"
  note last = open_state_last [OF os] and cur = open_state_cur [OF os]
  from os have g: "graph m (?F @ layout ?v (fsize ts) None p @ layout ?v (fsize ts + nsize p) None c)"
    and cur_ref: "cur = nodes m ! (fsize ts + nsize p + nsize c - 1)"
    by (simp_all add: open_state_def)
  from g have len: "?i = fsize ts + nsize p + nsize c"
    by (auto dest!: graph_length)
  have g1: "graph ?m1 (?F @ layout ?v (fsize ts) (Some ?i) p @ layout ?v (fsize ts + nsize p) None c)"
  proof -
    have "graph (m\<lparr>peaks := butlast (peaks m)\<rparr>)
        (?F @ layout ?v (fsize ts) None p @ layout ?v (fsize ts + nsize p) None c)"
      using g by simp
    from graph_block_reparent [OF this, of "Some ?i"] show ?thesis
      by (simp add: last(2))
  qed
  have "cur = nodes ?m1 ! (fsize ts + nsize p + nsize c - 1)"
    by (simp add: cur_ref)
  then have g2: "graph ?m2
      ((?F @ layout ?v (fsize ts) (Some ?i) p) @ layout ?v (fsize ts + nsize p) (Some ?i) c @ [])"
    by (simp only:) (rule graph_block_reparent, use g1 in simp_all)
  have g3: "graph (append_node (top_node ?v (fsize ts) None (MNode p c)) ?m2)
          (?F @ layout ?v (fsize ts) None (MNode p c))"
    using graph_append_node [OF g2, of "top_node ?v (fsize ts) None (MNode p c)"]
    by (simp add: layout_MNode len)
  have par: "mmr_node_new (node_digest ?v (thash ?v p) (thash ?v c)) (ht p + 1) ?i
        (Some (fsize ts + nsize p - 1)) (Some (fsize ts + nsize p + nsize c - 1)) None
      = top_node ?v (fsize ts) None (MNode p c)"
    by (simp add: top_node_def len add.assoc)
  have m': "merged m cur (node_digest ?v (thash ?v p) (thash ?v c))
      = append_node (top_node ?v (fsize ts) None (MNode p c)) ?m2"
    unfolding merged_def last(1) cur top_node_sel par [symmetric] by simp
  have "map ((!) (nodes m @ [next_ref m])) (root_pos 0 ts) = map ((!) (nodes m)) (root_pos 0 ts)"
    using root_pos_bound [of _ 0 ts] len by (auto simp: nth_append dest: trans_less_add1)
  moreover have "(nodes m @ [next_ref m]) ! (fsize ts + nsize (MNode p c) - 1) = next_ref m"
    by (simp add: nth_append len)
  moreover have "list_all wf_tree ts" and "wf_tree (MNode p c)"
    using os h by (simp_all add: open_state_def wf_tree_def)
  ultimately show ?thesis
    using last(3) g3 unfolding open_state_def m' by simp
qed

lemma merged_frame:
  assumes "frame m0 m" and "peaks m \<noteq> []" and "next_ref m0 \<le> cur"
  shows "frame m0 (merged m cur h)"
proof -
  let ?old = "last (peaks m)"
  from assms(2) have old: "?old \<in> set (peaks m)" by simp
  with assms(1) have "?old < next_ref m0 \<Longrightarrow> ?old \<in> set (peaks m0)"
    by (simp add: frame_def)
  with assms show ?thesis
    unfolding frame_def merged_def
    by (auto simp: set_parent_def strip_parent_def in_set_butlastD list_all_iff)
qed

lemma merge_peaks_refines:
  assumes "open_state m ts c cur" and "frame m0 m" and "next_ref m0 \<le> cur" and "next_ref m0 \<le> next_ref m"
  shows "\<exists>m' cur' ts' c'. merge_peaks m cur = Inr (m', cur') \<and> open_state m' ts' c' cur'
           \<and> push ts c = ts' @ [c'] \<and> frame m0 m' \<and> next_ref m0 \<le> cur'
           \<and> leaf_node_indices m' = leaf_node_indices m \<and> leaf_count m' = leaf_count m"
  using assms
proof (induction ts arbitrary: m c cur rule: rev_induct)
  case Nil
  then show ?case
    by (intro exI [of _ m] exI [of _ cur] exI [of _ "[]"] exI [of _ c])
      (simp add: merge_peaks_stop open_state_def push_def)
next
  case (snoc p ts)
  note last = open_state_last [OF snoc.prems(1)] and cur = open_state_cur [OF snoc.prems(1)]
  have ne: "peaks m \<noteq> []"
    using snoc.prems(1) by (simp add: open_state_def)
  show ?case
  proof (cases "ht p = ht c")
    case False
    then show ?thesis
      using snoc.prems last cur
      by (intro exI [of _ m] exI [of _ cur] exI [of _ "ts @ [p]"] exI [of _ c])
        (simp add: merge_peaks_stop push_def)
  next
    case True
    let ?h = "node_digest (is_v2 m) (thash (is_v2 m) p) (thash (is_v2 m) c)"
    let ?m = "merged m cur ?h"
    have "combine_hash (is_v2 m) (mn_hash (obj m (List.last (peaks m)))) (mn_hash (obj m cur)) = Inr ?h"
      using snoc.prems(1) last cur
      by (simp add: combine_hash_ok thash_hex open_state_def wf_tree_def)
    then have step: "merge_peaks m cur = merge_peaks ?m (next_ref m)"
      using ne True last cur by (intro merge_peaks_step) simp_all
    have "open_state ?m ts (MNode p c) (next_ref m)"
      using snoc.prems(1) True by (rule merged_open_state)
    moreover have "frame m0 ?m"
      using snoc.prems ne by (intro merged_frame) simp_all
    moreover have "next_ref m0 \<le> next_ref ?m"
      using snoc.prems by (simp add: merged_def)
    ultimately have "\<exists>m' cur' ts' c'. merge_peaks ?m (next_ref m) = Inr (m', cur') \<and> open_state m' ts' c' cur'
           \<and> push ts (MNode p c) = ts' @ [c'] \<and> frame m0 m' \<and> next_ref m0 \<le> cur'
           \<and> leaf_node_indices m' = leaf_node_indices ?m \<and> leaf_count m' = leaf_count ?m"
      using snoc.prems by (intro snoc.IH) simp_all
    then show ?thesis
      using True by (simp add: step push_def) (simp add: merged_def)
  qed
qed

subsection \<open>Appending to the forest\<close>

lemma push_Nil: "push [] c = [c]"
  by (simp add: push_def)

lemma push_snoc: "push (ts @ [p]) c = (if ht p = ht c then push ts (MNode p c) else ts @ [p, c])"
  by (simp add: push_def)

lemma push_leaves: "fleaves (push ts c) = fleaves ts @ tleaves c"
  by (induction ts arbitrary: c rule: rev_induct) (simp_all add: push_Nil push_snoc fleaves_def)

lemma push_marks: "concat (map marks (push ts c)) = concat (map marks ts) @ marks c"
  by (induction ts arbitrary: c rule: rev_induct) (simp_all add: push_Nil push_snoc)

lemma push_pruned: "fpruned (push ts c) = fpruned ts + tpruned c"
  by (induction ts arbitrary: c rule: rev_induct) (simp_all add: push_Nil push_snoc fpruned_def)

lemma push_mountain_leaves:
  "mountain_leaves (map ht (push ts c)) = mountain_leaves (map ht ts) + 2 ^ ht c"
  by (induction ts arbitrary: c rule: rev_induct) (simp_all add: push_Nil push_snoc)

lemma push_leaf_pos:
  "forest_leaf_pos off (push ts c) = forest_leaf_pos off ts @ leaf_pos (off + fsize ts) c"
  by (induction ts arbitrary: c rule: rev_induct) (simp_all add: push_Nil push_snoc add.assoc)

lemma push_wf_tree: "list_all wf_tree ts \<Longrightarrow> wf_tree c \<Longrightarrow> list_all wf_tree (push ts c)"
  by (induction ts arbitrary: c rule: rev_induct) (simp_all add: push_Nil push_snoc wf_tree_def)

lemma push_sorted:
  "sorted_wrt (>) (map ht ts) \<Longrightarrow> \<forall>t \<in> set ts. ht c \<le> ht t \<Longrightarrow> sorted_wrt (>) (map ht (push ts c))"
proof (induction ts arbitrary: c rule: rev_induct)
  case (snoc p ts)
  show ?case
  proof (cases "ht p = ht c")
    case True
    with snoc.prems have "sorted_wrt (>) (map ht (push ts (MNode p c)))"
      by (intro snoc.IH) (auto simp: sorted_wrt_append)
    with True show ?thesis by (simp add: push_snoc)
  next
    case False
    with snoc.prems show ?thesis
      by (auto simp: push_snoc sorted_wrt_append)
  qed
qed (simp add: push_Nil)

lemma marks_le: "x \<in> set (marks t) \<Longrightarrow> x \<le> 1"
  by (induction t) auto

lemma push_wf_forest:
  assumes "wf_forest ts" and "is_sha256_hex_str h"
  shows "wf_forest (push ts (MLeaf h))"
  using assms marks_le
  by (auto simp: wf_forest_def push_wf_tree push_sorted push_marks sorted_append wf_tree_def)

lemma push_not_Nil: "push ts c \<noteq> []"
  by (induction ts arbitrary: c rule: rev_induct) (simp_all add: push_Nil push_snoc)

subsection \<open>The root of a forest\<close>

definition bag_digest :: "bool \<Rightarrow> string list \<Rightarrow> string" where
  "bag_digest v2 hs =
     (if v2 then hex (sha256 (DOMAIN_ROOT @ concat (map unhex hs))) else hexdigest (encode (concat hs)))"

definition forest_root :: "bool \<Rightarrow> mtree list \<Rightarrow> string" where
  "forest_root v2 ts = (if ts = [] then zero_root else bag_digest v2 (map (thash v2) ts))"

fun forest_tops :: "bool \<Rightarrow> nat \<Rightarrow> mtree list \<Rightarrow> mmr_node list" where
  "forest_tops v2 off [] = []"
| "forest_tops v2 off (t # ts) = top_node v2 off None t # forest_tops v2 (off + nsize t) ts"

lemma forest_tops_sel [simp]:
  "map mn_hash (forest_tops v2 off ts) = map (thash v2) ts"
  "map mn_height (forest_tops v2 off ts) = map ht ts"
  "map mn_index (forest_tops v2 off ts) = root_pos off ts"
  by (induction ts arbitrary: off) simp_all

lemma length_forest_tops [simp]: "length (forest_tops v2 off ts) = length ts"
  by (induction ts arbitrary: off) simp_all

lemma bag_hashes_ok:
  assumes "list_all is_sha256_hex_str hs"
  shows "bag_hashes v2 hs = Inr (bag_digest v2 hs)"
proof -
  have "map_res fromhex hs = Inr (map unhex hs)"
    using assms by (intro map_res_Inr) (simp add: list_all_iff sha256_hex_fromhex)
  moreover have "\<not> list_ex (\<lambda>p. length p \<noteq> 32) (map unhex hs)"
    using assms by (auto simp: list_all_iff list_ex_iff sha256_hex_fromhex)
  ultimately show ?thesis
    by (simp add: bag_hashes_def bag_digest_def v2_bagged_root_def)
qed

lemma bag_digest_hex [simp]: "is_sha256_hex_str (bag_digest v2 hs)"
  by (simp add: bag_digest_def is_sha256_hex_str_hex)

lemma zero_root_hex [simp]: "is_sha256_hex_str zero_root"
  by (simp add: is_sha256_hex_str_def zero_root_def list_all_iff hex_digits_def)

lemma forest_root_hex [simp]: "is_sha256_hex_str (forest_root v2 ts)"
  by (simp add: forest_root_def)

lemma graph_tops:
  assumes "graph m (pre @ forest_layout v2 off ts @ post)" and "off = length pre"
  shows "map (\<lambda>i. obj m (nodes m ! i)) (root_pos off ts) = forest_tops v2 off ts"
  using assms
proof (induction ts arbitrary: off pre)
  case (Cons t ts)
  from Cons.prems(1) have g: "graph m (pre @ layout v2 off None t @ forest_layout v2 (off + nsize t) ts @ post)"
    by simp
  have "map (\<lambda>i. obj m (nodes m ! i)) (root_pos (off + nsize t) ts) = forest_tops v2 (off + nsize t) ts"
    by (rule Cons.IH [of "pre @ layout v2 off None t"]) (use g Cons.prems in simp_all)
  moreover have "obj m (nodes m ! (off + nsize t - 1)) = top_node v2 off None t"
    using g Cons.prems(2) by (rule graph_block_top)
  ultimately show ?case by simp
qed simp

lemma represents_tops:
  assumes "represents m ts"
  shows "map (obj m) (peaks m) = forest_tops (is_v2 m) 0 ts"
proof -
  from assms have "graph m ([] @ forest_layout (is_v2 m) 0 ts @ [])"
    and "peaks m = map ((!) (nodes m)) (root_pos 0 ts)"
    by (simp_all add: represents_def)
  then show ?thesis
    using graph_tops [of m "[]" "is_v2 m" 0 ts "[]"] by (simp add: comp_def)
qed

lemma represents_canonical:
  assumes "represents m ts"
  shows "canonical_peaks m = peaks m"
proof -
  have "map mn_height (map (obj m) (peaks m)) = map ht ts"
    using represents_tops [OF assms] by simp
  moreover have "sorted_wrt (>) (map ht ts)"
    using assms by (simp add: represents_def wf_forest_def)
  ultimately have "sorted_wrt (>) (map (\<lambda>r. mn_height (obj m r)) (peaks m))"
    by (simp add: comp_def)
  then have "sorted (map (\<lambda>r. - int (mn_height (obj m r))) (peaks m))"
    by (auto simp: sorted_wrt_map intro: sorted_wrt_mono_rel [rotated])
  then show ?thesis
    by (simp add: canonical_peaks_def sort_key_id_if_sorted)
qed

lemma represents_peaks_Nil: "represents m ts \<Longrightarrow> peaks m = [] \<longleftrightarrow> ts = []"
  by (cases ts) (auto simp: represents_def)

theorem represents_root:
  assumes "represents m ts"
  shows "get_root_hash m = Inr (forest_root (is_v2 m) ts)"
proof -
  have "map (\<lambda>r. mn_hash (obj m r)) (peaks m) = map (thash (is_v2 m)) ts"
    using arg_cong [OF represents_tops [OF assms], of "map mn_hash"] by (simp add: comp_def)
  moreover have "list_all is_sha256_hex_str (map (thash (is_v2 m)) ts)"
    using assms by (auto simp: represents_def wf_forest_def wf_tree_def list_all_iff thash_hex)
  ultimately show ?thesis
    using represents_peaks_Nil [OF assms]
    by (simp add: get_root_hash_def represents_canonical [OF assms] bag_hashes_ok forest_root_def)
qed

subsection \<open>The operations refine the forest operations\<close>

lemma mmr_init_represents: "mmr_init oid s = Inr m \<Longrightarrow> represents m []"
  by (auto simp: mmr_init_def represents_def graph_def wf_forest_def fpruned_def split: if_splits)

lemma add_leaf_hash_invalid:
  "\<not> is_sha256_hex_str h \<Longrightarrow>
     add_leaf_hash m h = Inl (ValueError ''leaf_hash must be a lowercase SHA-256 hex digest'')"
  by (simp add: add_leaf_hash_def)

definition leaf_added :: "mmr \<Rightarrow> string \<Rightarrow> mmr" where
  "leaf_added m h =
     (append_node (mmr_node_new h 0 (length (nodes m)) None None None) m)
       \<lparr>leaf_node_indices := leaf_node_indices m @ [length (nodes m)], leaf_count := leaf_count m + 1\<rparr>"

lemma leaf_added_open_state:
  assumes "represents m ts" and "is_sha256_hex_str h"
  shows "open_state (leaf_added m h) ts (MLeaf h) (next_ref m)"
proof -
  let ?v = "is_v2 m"
  from assms(1) have g: "graph m (forest_layout ?v 0 ts)" and pk: "peaks m = map ((!) (nodes m)) (root_pos 0 ts)"
    and wf: "list_all wf_tree ts"
    by (simp_all add: represents_def wf_forest_def)
  from g have len: "length (nodes m) = fsize ts"
    by (auto dest: graph_length)
  have "map ((!) (nodes m @ [next_ref m])) (root_pos 0 ts) = map ((!) (nodes m)) (root_pos 0 ts)"
    using root_pos_bound [of _ 0 ts] len by (auto simp: nth_append)
  with graph_append_node [OF g, of "mmr_node_new h 0 (length (nodes m)) None None None"] pk wf assms(2) len
  show ?thesis
    by (simp add: open_state_def leaf_added_def layout_def top_node_def wf_tree_def nth_append)
qed

lemma leaf_added_frame:
  assumes "represents m ts"
  shows "frame m (leaf_added m h)"
proof -
  have "\<forall>r \<in> set (peaks m). r < next_ref m"
  proof
    fix r
    assume "r \<in> set (peaks m)"
    then obtain i where "r = nodes m ! i" "i < length (nodes m)"
      using assms root_pos_bound [of _ 0 ts] graph_length [of m "forest_layout (is_v2 m) 0 ts"]
      by (auto simp: represents_def)
    then show "r < next_ref m"
      using assms by (simp add: represents_def graph_def list_all_length)
  qed
  then show ?thesis
    by (simp add: frame_def leaf_added_def strip_parent_def)
qed

theorem add_leaf_hash_refines:
  assumes rep: "represents m ts" and h: "is_sha256_hex_str h"
  shows "\<exists>m'. add_leaf_hash m h = Inr (forest_root (is_v2 m) (push ts (MLeaf h)), m')
           \<and> represents m' (push ts (MLeaf h)) \<and> frame m m'"
proof -
  let ?m2 = "leaf_added m h"
  have "\<exists>m' cur' ts' c'. merge_peaks ?m2 (next_ref m) = Inr (m', cur') \<and> open_state m' ts' c' cur'
           \<and> push ts (MLeaf h) = ts' @ [c'] \<and> frame m m' \<and> next_ref m \<le> cur'
           \<and> leaf_node_indices m' = leaf_node_indices ?m2 \<and> leaf_count m' = leaf_count ?m2"
    by (rule merge_peaks_refines [OF leaf_added_open_state [OF rep h] leaf_added_frame [OF rep]])
      (simp_all add: leaf_added_def)
  then obtain m3 cur ts' c' where mp: "merge_peaks ?m2 (next_ref m) = Inr (m3, cur)"
    and os: "open_state m3 ts' c' cur" and push: "push ts (MLeaf h) = ts' @ [c']"
    and fr: "frame m m3" and cur: "next_ref m \<le> cur"
    and li: "leaf_node_indices m3 = leaf_node_indices ?m2" "leaf_count m3 = leaf_count ?m2"
    by blast
  let ?m4 = "m3\<lparr>peaks := peaks m3 @ [cur]\<rparr>"
  from fr have v: "is_v2 m3 = is_v2 m" and base: "leaf_index_base m3 = leaf_index_base m"
    and hs: "hash_scheme m3 = hash_scheme m"
    by (simp_all add: frame_def is_v2_def)
  have wf: "wf_forest (push ts (MLeaf h))"
    using rep h by (simp add: represents_def push_wf_forest)
  have len: "length (nodes m) = fsize ts"
    using rep by (auto simp: represents_def dest: graph_length)
  have rep4: "represents ?m4 (push ts (MLeaf h))"
    using os wf rep li len push_leaf_pos [of 0 ts "MLeaf h"] push_mountain_leaves [of ts "MLeaf h"]
      push_pruned [of ts "MLeaf h"]
    by (simp add: represents_def open_state_def base hs leaf_added_def push)
  have "frame m ?m4"
    using fr cur by (auto simp: frame_def)
  moreover have "add_leaf_hash m h = bind_res (get_root_hash ?m4) (\<lambda>rt. Inr (rt, ?m4))"
    using mp h by (simp add: add_leaf_hash_def Let_def leaf_added_def)
  ultimately show ?thesis
    using rep4 represents_root [OF rep4] v by simp
qed

text \<open>Appending a list of digests.\<close>

fun add_leaf_hashes :: "mmr \<Rightarrow> string list \<Rightarrow> mmr res" where
  "add_leaf_hashes m [] = Inr m"
| "add_leaf_hashes m (h # hs) = bind_res (add_leaf_hash m h) (\<lambda>(_, m'). add_leaf_hashes m' hs)"

definition push_leaves_of :: "mtree list \<Rightarrow> string list \<Rightarrow> mtree list" where
  "push_leaves_of ts hs = foldl (\<lambda>ts h. push ts (MLeaf h)) ts hs"

lemma push_leaves_of_simps [simp]:
  "push_leaves_of ts [] = ts" "push_leaves_of ts (h # hs) = push_leaves_of (push ts (MLeaf h)) hs"
  by (simp_all add: push_leaves_of_def)

theorem add_leaf_hashes_refines:
  assumes "represents m ts" and "list_all is_sha256_hex_str hs"
  shows "\<exists>m'. add_leaf_hashes m hs = Inr m' \<and> represents m' (push_leaves_of ts hs) \<and> frame m m'"
  using assms
proof (induction hs arbitrary: m ts)
  case Nil
  then show ?case by (simp add: frame_refl)
next
  case (Cons h hs)
  then obtain m1 where m1: "add_leaf_hash m h = Inr (forest_root (is_v2 m) (push ts (MLeaf h)), m1)"
    "represents m1 (push ts (MLeaf h))" "frame m m1"
    using add_leaf_hash_refines [of m ts h] by auto
  with Cons obtain m2 where "add_leaf_hashes m1 hs = Inr m2"
    "represents m2 (push_leaves_of (push ts (MLeaf h)) hs)" "frame m1 m2"
    by fastforce
  with m1 show ?case
    by (auto intro: frame_trans)
qed

lemma frame_is_v2: "frame m m' \<Longrightarrow> is_v2 m' = is_v2 m"
  by (simp add: frame_def is_v2_def)

end
