(* ===== verification/Mmr_State.thy ===== *)
theory Mmr_State
  imports Mmr_Forest
begin

section \<open>Roots, rollback and restore of the accumulator\<close>

text \<open>
  What the accumulator promises its clients: its root is a function of the digests
  appended, computed here without any accumulator (\<open>spec_root\<close>); a checkpoint undoes any
  number of appends exactly; a peak-set restore is indistinguishable, for every later
  root, from a full replay.
\<close>

subsection \<open>The specification of the root\<close>

fun subtree_hash :: "bool \<Rightarrow> nat \<Rightarrow> string list \<Rightarrow> string" where
  "subtree_hash v2 0 ls = hd ls"
| "subtree_hash v2 (Suc k) ls =
     node_digest v2 (subtree_hash v2 k (take (2 ^ k) ls)) (subtree_hash v2 k (drop (2 ^ k) ls))"

fun spec_peaks :: "bool \<Rightarrow> nat list \<Rightarrow> string list \<Rightarrow> string list" where
  "spec_peaks v2 [] ls = []"
| "spec_peaks v2 (h # hs) ls =
     subtree_hash v2 h (take (2 ^ h) ls) # spec_peaks v2 hs (drop (2 ^ h) ls)"

definition spec_root :: "bool \<Rightarrow> string list \<Rightarrow> string" where
  "spec_root v2 ls =
     (if ls = [] then zero_root else bag_digest v2 (spec_peaks v2 (expected_heights (length ls)) ls))"

text \<open>A tree or forest without restored peaks.\<close>

definition full :: "mtree list \<Rightarrow> bool" where
  "full ts \<longleftrightarrow> fpruned ts = 0"

lemma full_simps [simp]:
  "full []" "full (t # ts) \<longleftrightarrow> tpruned t = 0 \<and> full ts" "full (ts @ us) \<longleftrightarrow> full ts \<and> full us"
  by (auto simp: full_def fpruned_def)

lemma length_tleaves: "perfect t \<Longrightarrow> length (tleaves t) + tpruned t = 2 ^ ht t"
  by (induction t) auto

lemma thash_subtree:
  "perfect t \<Longrightarrow> tpruned t = 0 \<Longrightarrow> subtree_hash v2 (ht t) (tleaves t) = thash v2 t"
proof (induction t)
  case (MNode l r)
  then have "length (tleaves l) = 2 ^ ht l" and "ht l = ht r"
    using length_tleaves [of l] by simp_all
  with MNode show ?case by simp
qed simp_all

lemma fleaves_simps [simp]:
  "fleaves [] = []" "fleaves (t # ts) = tleaves t @ fleaves ts" "fleaves (ts @ us) = fleaves ts @ fleaves us"
  by (simp_all add: fleaves_def)

lemma length_fleaves:
  "list_all wf_tree ts \<Longrightarrow> length (fleaves ts) + fpruned ts = mountain_leaves (map ht ts)"
proof (induction ts)
  case (Cons t ts)
  then show ?case
    using length_tleaves [of t] by (simp add: wf_tree_def fpruned_def)
qed (simp add: fpruned_def)

lemma spec_peaks_forest:
  "list_all wf_tree ts \<Longrightarrow> full ts \<Longrightarrow> spec_peaks v2 (map ht ts) (fleaves ts) = map (thash v2) ts"
proof (induction ts)
  case (Cons t ts)
  then have "length (tleaves t) = 2 ^ ht t"
    using length_tleaves [of t] by (simp add: wf_tree_def)
  with Cons show ?case
    by (simp add: wf_tree_def thash_subtree)
qed simp

lemma forest_heights:
  assumes "wf_forest ts" and "full ts"
  shows "expected_heights (length (fleaves ts)) = map ht ts"
proof -
  have "length (fleaves ts) = mountain_leaves (map ht ts)"
    using length_fleaves [of ts] assms by (simp add: wf_forest_def full_def)
  with assms(1) show ?thesis
    by (simp add: wf_forest_def expected_heights_unique)
qed

lemma fleaves_Nil: "wf_forest ts \<Longrightarrow> full ts \<Longrightarrow> fleaves ts = [] \<longleftrightarrow> ts = []"
  using forest_heights [of ts] length_fleaves [of ts]
  by (cases ts) (auto simp: wf_forest_def full_def)

theorem forest_root_spec:
  assumes "wf_forest ts" and "full ts"
  shows "forest_root v2 ts = spec_root v2 (fleaves ts)"
  using assms fleaves_Nil [OF assms]
  by (simp add: forest_root_def spec_root_def forest_heights spec_peaks_forest wf_forest_def)

lemma push_leaves_of_leaves: "fleaves (push_leaves_of ts hs) = fleaves ts @ hs"
  by (induction hs arbitrary: ts) (simp_all add: push_leaves)

lemma push_leaves_of_full: "full (push_leaves_of ts hs) = full ts"
  by (induction hs arbitrary: ts) (simp_all add: full_def push_pruned)

text \<open>An accumulator holding exactly the digests \<open>ls\<close>, nothing pruned.\<close>

definition holds :: "mmr \<Rightarrow> string list \<Rightarrow> bool" where
  "holds m ls \<longleftrightarrow> (\<exists>ts. represents m ts \<and> full ts \<and> fleaves ts = ls)"

lemma holds_init: "mmr_init oid s = Inr m \<Longrightarrow> holds m []"
  using mmr_init_represents [of oid s m] by (auto simp: holds_def)

lemma holds_root: "holds m ls \<Longrightarrow> get_root_hash m = Inr (spec_root (is_v2 m) ls)"
  unfolding holds_def by (auto simp: represents_root forest_root_spec represents_def)

lemma holds_leaf_count: "holds m ls \<Longrightarrow> leaf_count m = length ls \<and> leaf_index_base m = 0"
  using length_fleaves by (fastforce simp: holds_def represents_def full_def wf_forest_def)

lemma holds_mmr_inv: "holds m ls \<Longrightarrow> mmr_inv m"
  by (auto simp: holds_def mmr_inv_def)

lemma add_leaf_hashes_holds:
  assumes "holds m ls" and "list_all is_sha256_hex_str hs"
  shows "\<exists>m'. add_leaf_hashes m hs = Inr m' \<and> holds m' (ls @ hs) \<and> frame m m'"
proof -
  from assms(1) obtain ts where ts: "represents m ts" "full ts" "fleaves ts = ls"
    by (auto simp: holds_def)
  from add_leaf_hashes_refines [OF ts(1) assms(2)] obtain m' where
    "add_leaf_hashes m hs = Inr m'" "represents m' (push_leaves_of ts hs)" "frame m m'"
    by blast
  with ts show ?thesis
    by (auto simp: holds_def push_leaves_of_leaves push_leaves_of_full)
qed

lemma add_leaf_hash_holds:
  assumes "holds m ls" and "is_sha256_hex_str h"
  shows "\<exists>m'. add_leaf_hash m h = Inr (spec_root (is_v2 m) (ls @ [h]), m') \<and> holds m' (ls @ [h]) \<and> frame m m'"
proof -
  from assms(1) obtain ts where ts: "represents m ts" "full ts" "fleaves ts = ls"
    by (auto simp: holds_def)
  from add_leaf_hash_refines [OF ts(1) assms(2)] obtain m' where
    m': "add_leaf_hash m h = Inr (forest_root (is_v2 m) (push ts (MLeaf h)), m')"
      "represents m' (push ts (MLeaf h))" "frame m m'"
    by blast
  have "full (push ts (MLeaf h))" and "fleaves (push ts (MLeaf h)) = ls @ [h]"
    using ts by (simp_all add: full_def push_pruned push_leaves)
  moreover from m'(2) have "wf_forest (push ts (MLeaf h))"
    by (simp add: represents_def)
  ultimately show ?thesis
    using m' by (auto simp: holds_def forest_root_spec)
qed

subsection \<open>Rollback\<close>

text \<open>
  Two states that no operation can tell apart: the same fields, and the same objects
  behind the references of \<open>nodes\<close>.
\<close>

definition same_state :: "mmr \<Rightarrow> mmr \<Rightarrow> bool" where
  "same_state m m' \<longleftrightarrow>
     nodes m' = nodes m \<and> peaks m' = peaks m \<and> leaf_node_indices m' = leaf_node_indices m
     \<and> leaf_count m' = leaf_count m \<and> leaf_index_base m' = leaf_index_base m
     \<and> hash_scheme m' = hash_scheme m \<and> owner m' = owner m
     \<and> (\<forall>r \<in> set (nodes m). heap m' r = heap m r)"

lemma fold_set_parent_sel:
  "nodes (fold (\<lambda>p. set_parent p q) ps m) = nodes m" "peaks (fold (\<lambda>p. set_parent p q) ps m) = peaks m"
  "hash_scheme (fold (\<lambda>p. set_parent p q) ps m) = hash_scheme m"
  "leaf_node_indices (fold (\<lambda>p. set_parent p q) ps m) = leaf_node_indices m"
  "leaf_count (fold (\<lambda>p. set_parent p q) ps m) = leaf_count m"
  "leaf_index_base (fold (\<lambda>p. set_parent p q) ps m) = leaf_index_base m"
  "owner (fold (\<lambda>p. set_parent p q) ps m) = owner m"
  "next_ref (fold (\<lambda>p. set_parent p q) ps m) = next_ref m"
  by (induction ps arbitrary: m) simp_all

lemma fold_set_parent_heap:
  "heap (fold (\<lambda>p. set_parent p q) ps m) r
     = (if r \<in> set ps then (heap m r)\<lparr>mn_parent := q\<rparr> else heap m r)"
  by (induction ps arbitrary: m) (auto simp: set_parent_def)

lemma length_root_pos: "length (root_pos off ts) = length ts"
  by (induction ts arbitrary: off) simp_all

lemma represents_peak_facts:
  assumes rep: "represents m ts" and p: "p \<in> set (peaks m)"
  shows "mn_parent (heap m p) = None" and "mn_index (heap m p) < length (nodes m)"
    and "nodes m ! mn_index (heap m p) = p" and "p \<in> set (nodes m)"
proof -
  from rep have pk: "peaks m = map ((!) (nodes m)) (root_pos 0 ts)"
    and g: "graph m (forest_layout (is_v2 m) 0 ts)"
    by (simp_all add: represents_def)
  from p pk obtain k where k: "k < length (root_pos 0 ts)" "p = nodes m ! (root_pos 0 ts ! k)"
    by (auto simp: in_set_conv_nth)
  then have klt: "k < length ts"
    by (simp add: length_root_pos)
  from represents_tops [OF rep] have "map (obj m) (peaks m) ! k = forest_tops (is_v2 m) 0 ts ! k"
    by simp
  with pk k klt have obj: "heap m p = forest_tops (is_v2 m) 0 ts ! k"
    by (simp add: obj_def)
  have "mn_parent (forest_tops v off us ! k) = None" if "k < length us" for v off us
    using that by (induction us arbitrary: off k) (auto simp: nth_Cons')
  with obj klt show "mn_parent (heap m p) = None" by simp
  have idx: "mn_index (heap m p) = root_pos 0 ts ! k"
    using obj klt arg_cong [OF forest_tops_sel(3) [of "is_v2 m" 0 ts], of "\<lambda>xs. xs ! k"]
    by (simp del: forest_tops_sel)
  have "root_pos 0 ts ! k < fsize ts"
    using k(1) root_pos_bound [of "root_pos 0 ts ! k" 0 ts] by simp
  with g show lt: "mn_index (heap m p) < length (nodes m)"
    using graph_length [OF g] by (simp add: idx)
  show "nodes m ! mn_index (heap m p) = p" unfolding idx by (rule k(2) [symmetric])
  with lt show "p \<in> set (nodes m)" by (metis nth_mem)
qed

lemma represents_node_live: "represents m ts \<Longrightarrow> r \<in> set (nodes m) \<Longrightarrow> r < next_ref m"
  by (simp add: represents_def graph_def list_all_iff)

lemma strip_parent_index: "strip_parent a = strip_parent b \<Longrightarrow> mn_index a = mn_index b"
  by (metis mmr_node.select_convs(3) mmr_node.surjective mmr_node.update_convs(6) strip_parent_def)

theorem rollback_exact:
  assumes rep: "represents m ts" and fr: "frame m m'"
  shows "\<exists>m''. rollback_to m' (checkpoint m) = Inr m'' \<and> same_state m m''"
proof -
  from fr obtain xs ys where nodes: "nodes m' = nodes m @ xs"
    and idx: "leaf_node_indices m' = leaf_node_indices m @ ys"
    and same: "\<And>r. r < next_ref m \<Longrightarrow> r \<notin> set (peaks m) \<Longrightarrow> heap m' r = heap m r"
    and strip: "\<And>r. r < next_ref m \<Longrightarrow> strip_parent (heap m' r) = strip_parent (heap m r)"
    and rest: "leaf_count m \<le> leaf_count m'" "hash_scheme m' = hash_scheme m"
      "leaf_index_base m' = leaf_index_base m" "owner m' = owner m"
    by (auto simp: frame_def)
  have peak: "mn_index (obj m' p) < length (nodes m) \<and> nodes m' ! mn_index (obj m' p) = p"
    if "p \<in> set (peaks m)" for p
  proof -
    note f = represents_peak_facts [OF rep that]
    from strip [OF represents_node_live [OF rep f(4)]] have "mn_index (heap m' p) = mn_index (heap m p)"
      by (rule strip_parent_index)
    with f show ?thesis by (simp add: obj_def nodes nth_append)
  qed
  have "fpruned ts \<le> mountain_leaves (map ht ts)"
    using rep length_fleaves [of ts] by (simp add: represents_def wf_forest_def)
  then have base: "leaf_index_base m \<le> leaf_count m"
    using rep by (simp add: represents_def)
  have "\<not> rollback_refused m' (checkpoint m)"
    using peak rest nodes idx base
    by (auto simp: rollback_refused_def checkpoint_def list_ex_iff) (metis not_le)+
  moreover have "heap (fold (\<lambda>p. set_parent p None) (peaks m) k) r = heap m r"
    if "r \<in> set (nodes m)" and "heap k = heap m'" for k r
  proof (cases "r \<in> set (peaks m)")
    case True
    with represents_peak_facts(1) [OF rep True] strip [OF represents_node_live [OF rep that(1)]] that(2)
    show ?thesis by (simp add: fold_set_parent_heap strip_parent_def)
  next
    case False
    with same represents_node_live [OF rep that(1)] that(2) show ?thesis
      by (simp add: fold_set_parent_heap)
  qed
  ultimately show ?thesis
    using rest nodes idx
    by (simp add: rollback_to_def same_state_def fold_set_parent_sel checkpoint_def Let_def)
qed

text \<open>A checkpoint of another instance is refused.\<close>

lemma rollback_foreign:
  "ck_owner ck \<noteq> owner m \<Longrightarrow>
     rollback_to m ck = Inl (ValueError ''MMR checkpoint does not describe a prefix of the current state'')"
  by (simp add: rollback_to_def rollback_refused_def)

lemma same_state_represents:
  assumes "represents m ts" and "same_state m m'" and "next_ref m \<le> next_ref m'"
  shows "represents m' ts"
proof -
  have g: "graph m (forest_layout (is_v2 m) 0 ts)"
    using assms(1) by (simp add: represents_def)
  have eqs: "nodes m' = nodes m" "is_v2 m' = is_v2 m"
    using assms(2) by (simp_all add: same_state_def is_v2_def)
  have "map (heap m') (nodes m) = map (heap m) (nodes m)"
    using assms(2) by (simp add: same_state_def)
  also have "\<dots> = forest_layout (is_v2 m) 0 ts"
    using g by (simp add: graph_def)
  finally have "map (heap m') (nodes m) = forest_layout (is_v2 m) 0 ts" .
  moreover have "list_all (\<lambda>r. r < next_ref m') (nodes m)"
    using represents_node_live [OF assms(1)] assms(3) by (auto simp: list_all_iff dest: less_le_trans)
  moreover have "distinct (nodes m)"
    using g by (simp add: graph_def)
  ultimately have "graph m' (forest_layout (is_v2 m') 0 ts)"
    unfolding graph_def eqs by (intro conjI)
  then show ?thesis
    using assms(1,2) by (simp add: represents_def same_state_def)
qed

subsection \<open>Restoring from a peak set\<close>

definition pruned_forest :: "nat list \<Rightarrow> string list \<Rightarrow> mtree list" where
  "pruned_forest hs ds = map2 MPruned hs ds"

lemma seat_peaks_represents:
  assumes "graph m (forest_layout (is_v2 m) 0 ts)" and "peaks m = map ((!) (nodes m)) (root_pos 0 ts)"
    and "length hs = length ps"
  shows "graph (seat_peaks (zip hs ps) m)
           (forest_layout (is_v2 m) 0 (ts @ pruned_forest hs (map pk_hash_str ps)))
         \<and> peaks (seat_peaks (zip hs ps) m)
           = map ((!) (nodes (seat_peaks (zip hs ps) m))) (root_pos 0 (ts @ pruned_forest hs (map pk_hash_str ps)))
         \<and> hash_scheme (seat_peaks (zip hs ps) m) = hash_scheme m
         \<and> leaf_node_indices (seat_peaks (zip hs ps) m) = leaf_node_indices m
         \<and> owner (seat_peaks (zip hs ps) m) = owner m"
  using assms
proof (induction hs arbitrary: m ts ps)
  case Nil
  then show ?case by (simp add: pruned_forest_def)
next
  case (Cons h hs)
  then obtain q qs where ps: "ps = q # qs" "length hs = length qs"
    by (cases ps) simp_all
  let ?nd = "mmr_node_new (pk_hash_str q) h (length (nodes m)) None None None"
  let ?m1 = "(append_node ?nd m)\<lparr>peaks := peaks m @ [next_ref m]\<rparr>"
  let ?t = "MPruned h (pk_hash_str q)"
  have len: "length (nodes m) = fsize ts"
    using graph_length [OF Cons.prems(1)] by simp
  have "graph ?m1 (forest_layout (is_v2 ?m1) 0 (ts @ [?t]))"
    using graph_append_node [OF Cons.prems(1), of ?nd]
    by (simp add: layout_def top_node_def len)
  moreover have "peaks ?m1 = map ((!) (nodes ?m1)) (root_pos 0 (ts @ [?t]))"
    using Cons.prems(2) root_pos_bound [of _ 0 ts] by (auto simp: nth_append len)
  ultimately have "graph (seat_peaks (zip hs qs) ?m1)
           (forest_layout (is_v2 ?m1) 0 ((ts @ [?t]) @ pruned_forest hs (map pk_hash_str qs)))
         \<and> peaks (seat_peaks (zip hs qs) ?m1)
           = map ((!) (nodes (seat_peaks (zip hs qs) ?m1)))
               (root_pos 0 ((ts @ [?t]) @ pruned_forest hs (map pk_hash_str qs)))
         \<and> hash_scheme (seat_peaks (zip hs qs) ?m1) = hash_scheme ?m1
         \<and> leaf_node_indices (seat_peaks (zip hs qs) ?m1) = leaf_node_indices ?m1
         \<and> owner (seat_peaks (zip hs qs) ?m1) = owner ?m1"
    using ps(2) by (rule Cons.IH)
  then show ?case
    by (simp add: ps Let_def pruned_forest_def)
qed

lemma pruned_forest_facts:
  assumes "length hs = length ds"
  shows "map ht (pruned_forest hs ds) = hs" and "map (thash v2) (pruned_forest hs ds) = ds"
    and "fpruned (pruned_forest hs ds) = mountain_leaves hs"
    and "forest_leaf_pos off (pruned_forest hs ds) = []"
    and "sorted (concat (map marks (pruned_forest hs ds)))"
    and "set (concat (map marks (pruned_forest hs ds))) \<subseteq> {0}"
    and "list_all is_sha256_hex_str ds \<Longrightarrow> list_all wf_tree (pruned_forest hs ds)"
  using assms
  by (induction hs ds arbitrary: off rule: list_induct2)
    (auto simp: pruned_forest_def fpruned_def wf_tree_def)

theorem restore_represents:
  assumes "mmr_init oid s = Inr m" and "heights_match ps (expected_heights n)" and "0 < n"
    and "list_all (\<lambda>p. is_sha256_hex (pk_hash p)) ps"
  shows "\<exists>r. restore_from_peaks m (int n) ps
           = Inr (forest_root (is_v2 m) (pruned_forest (expected_heights n) (map pk_hash_str ps)), r)
         \<and> represents r (pruned_forest (expected_heights n) (map pk_hash_str ps)) \<and> hash_scheme r = s"
proof -
  let ?hs = "expected_heights n" and ?ds = "map pk_hash_str ps"
  let ?F = "pruned_forest ?hs ?ds"
  let ?m1 = "seat_peaks (zip ?hs ps) m"
  let ?r = "?m1\<lparr>leaf_count := n, leaf_index_base := n\<rparr>"
  from assms(1) have m: "nodes m = []" "peaks m = []" "leaf_count m = 0" "leaf_node_indices m = []"
    and s: "hash_scheme m = s" "s = HASH_SCHEME_V1 \<or> s = HASH_SCHEME_V2"
    by (auto simp: mmr_init_def split: if_splits)
  have len: "length ?hs = length ps"
    using heights_match_length [OF assms(2)] by simp
  have ds: "list_all is_sha256_hex_str ?ds"
    using assms(4) by (auto simp: list_all_iff pk_hash_str_def dest!: is_sha256_hexD)
  have "graph m (forest_layout (is_v2 m) 0 [])"
    using m by (simp add: graph_def)
  from seat_peaks_represents [OF this _ len] m
  have seat: "graph ?m1 (forest_layout (is_v2 m) 0 ?F)"
    "peaks ?m1 = map ((!) (nodes ?m1)) (root_pos 0 ?F)" "hash_scheme ?m1 = hash_scheme m"
    "leaf_node_indices ?m1 = []"
    by simp_all
  have len': "length ?hs = length ?ds"
    using len by simp
  note pf = pruned_forest_facts [OF len']
  have "wf_forest ?F"
    using pf(1,5) pf(7) [OF ds] sorted_expected_heights [of n] by (simp add: wf_forest_def)
  then have rep: "represents ?r ?F"
    using seat s pf(1,3,4) by (simp add: represents_def is_v2_def mountain_leaves_expected_heights)
  have "restore_from_peaks m (int n) ps = bind_res (get_root_hash ?r) (\<lambda>rt. Inr (rt, ?r))"
    using m assms(2-4) by (simp add: restore_from_peaks_def Let_def list_ex_iff list_all_iff)
  with rep represents_root [OF rep] seat(3) s(1) show ?thesis
    by (simp add: is_v2_def)
qed

text \<open>
  Two forests with the same mountain heights and hashes grow alike: after any appends
  their mountains still have the same heights and hashes.
\<close>

definition alike :: "bool \<Rightarrow> mtree list \<Rightarrow> mtree list \<Rightarrow> bool" where
  "alike v2 ts us \<longleftrightarrow> map ht ts = map ht us \<and> map (thash v2) ts = map (thash v2) us"

lemma alike_push:
  assumes "alike v2 ts us" and "ht c = ht d" and "thash v2 c = thash v2 d"
  shows "alike v2 (push ts c) (push us d)"
  using assms
proof (induction ts arbitrary: us c d rule: rev_induct)
  case Nil
  then show ?case by (simp add: alike_def push_Nil)
next
  case (snoc p ts)
  then obtain us' q where us: "us = us' @ [q]" and "alike v2 ts us'" "ht p = ht q" "thash v2 p = thash v2 q"
    by (cases us rule: rev_cases) (auto simp: alike_def)
  with snoc.IH [of us' "MNode p c" "MNode q d"] snoc.prems show ?case
    by (auto simp: push_snoc alike_def)
qed

lemma alike_push_leaves_of: "alike v2 ts us \<Longrightarrow> alike v2 (push_leaves_of ts hs) (push_leaves_of us hs)"
  by (induction hs arbitrary: ts us) (simp_all add: alike_push)

lemma alike_root: "alike v2 ts us \<Longrightarrow> forest_root v2 ts = forest_root v2 us"
  by (auto simp: alike_def forest_root_def)

text \<open>The peaks of an accumulator as the ledger writes them to its state file.\<close>

definition peak_set :: "mmr \<Rightarrow> mmr_peak list" where
  "peak_set m = map (\<lambda>r. mk_peak (obj m r)) (peaks m)"

lemma peak_set_facts:
  assumes "represents m ts"
  shows "heights_match (peak_set m) (expected_heights (leaf_count m))"
    and "list_all (\<lambda>p. is_sha256_hex (pk_hash p)) (peak_set m)"
    and "alike (is_v2 m) (pruned_forest (expected_heights (leaf_count m)) (map pk_hash_str (peak_set m))) ts"
proof -
  have ps: "peak_set m = map mk_peak (forest_tops (is_v2 m) 0 ts)"
    using represents_tops [OF assms] by (simp add: peak_set_def flip: map_map [unfolded comp_def])
  have hs: "expected_heights (leaf_count m) = map ht ts"
    using assms by (simp add: represents_def wf_forest_def expected_heights_unique)
  show "heights_match (peak_set m) (expected_heights (leaf_count m))"
    by (simp add: ps heights_match_map hs)
  have hash: "map pk_hash_str (peak_set m) = map (thash (is_v2 m)) ts"
    using forest_tops_sel(1) [of "is_v2 m" 0 ts] by (simp add: ps mk_peak_def pk_hash_str_def comp_def)
  have "list_all is_sha256_hex_str (map mn_hash (forest_tops (is_v2 m) 0 ts))"
    using assms by (auto simp: represents_def wf_forest_def wf_tree_def list_all_iff thash_hex)
  then show "list_all (\<lambda>p. is_sha256_hex (pk_hash p)) (peak_set m)"
    by (simp add: ps mk_peak_def list.pred_map comp_def del: forest_tops_sel)
  show "alike (is_v2 m) (pruned_forest (expected_heights (leaf_count m)) (map pk_hash_str (peak_set m))) ts"
    unfolding alike_def hs hash by (simp add: pruned_forest_facts)
qed

subsection \<open>Appending payloads\<close>

fun add_leaves :: "mmr \<Rightarrow> bytes list \<Rightarrow> mmr res" where
  "add_leaves m [] = Inr m"
| "add_leaves m (d # ds) = bind_res (add_leaf m d) (\<lambda>(_, m'). add_leaves m' ds)"

lemma scheme_leaf_digest_hex [simp]: "is_sha256_hex_str (scheme_leaf_digest v2 d)"
  by (simp add: scheme_leaf_digest_def v2_leaf_hash_def is_sha256_hex_str_hex)

lemma leaf_digest_hex [simp]: "is_sha256_hex_str (leaf_digest m d)"
  by (simp add: leaf_digest_def)

lemma add_leaves_holds:
  "holds m ls \<Longrightarrow> \<exists>m'. add_leaves m ds = Inr m' \<and> holds m' (ls @ map (scheme_leaf_digest (is_v2 m)) ds)
     \<and> frame m m'"
proof (induction ds arbitrary: m ls)
  case Nil
  then show ?case by (simp add: frame_refl)
next
  case (Cons d ds)
  let ?h = "scheme_leaf_digest (is_v2 m) d"
  from add_leaf_hash_holds [OF Cons.prems, of ?h] obtain m1 where
    m1: "add_leaf m d = Inr (spec_root (is_v2 m) (ls @ [?h]), m1)" "holds m1 (ls @ [?h])" "frame m m1"
    by (auto simp: add_leaf_def leaf_digest_def)
  with Cons.IH [OF m1(2)] show ?case
    by (auto simp: frame_is_v2 intro: frame_trans)
qed

lemma add_leaves_represents:
  "represents m ts \<Longrightarrow> \<exists>m'. add_leaves m ds = Inr m'
     \<and> represents m' (push_leaves_of ts (map (scheme_leaf_digest (is_v2 m)) ds)) \<and> frame m m'"
proof (induction ds arbitrary: m ts)
  case Nil
  then show ?case by (simp add: frame_refl)
next
  case (Cons d ds)
  let ?h = "scheme_leaf_digest (is_v2 m) d"
  from add_leaf_hash_refines [OF Cons.prems, of ?h] obtain m1 where
    m1: "add_leaf m d = Inr (forest_root (is_v2 m) (push ts (MLeaf ?h)), m1)"
      "represents m1 (push ts (MLeaf ?h))" "frame m m1"
    by (auto simp: add_leaf_def leaf_digest_def)
  with Cons.IH [OF m1(2)] show ?case
    by (auto simp: frame_is_v2 intro: frame_trans)
qed

lemma mmr_init_cases:
  "mmr_init oid s = Inr m \<longleftrightarrow> (s = HASH_SCHEME_V1 \<or> s = HASH_SCHEME_V2) \<and> m = projr (mmr_init oid s)"
  by (auto simp: mmr_init_def)

lemma mmr_init_scheme: "mmr_init oid s = Inr m \<Longrightarrow> hash_scheme m = s \<and> owner m = oid"
  by (auto simp: mmr_init_def split: if_splits)

subsection \<open>Properties\<close>

text \<open>
  C3. The root is a function of the payloads: whatever the accumulator does internally
  (peak merging, links, allocation), after appending the payloads \<open>ds\<close> to a new
  accumulator the append calls all succeed and the root is \<open>spec_root\<close> of their digests,
  the bagged hash of the perfect trees that the binary digits of the leaf count cut out
  of the digest list; an unknown scheme is refused.
\<close>

theorem mmr_root_is_spec:
  "case mmr_init oid s of
     Inl e \<Rightarrow> s \<noteq> HASH_SCHEME_V1 \<and> s \<noteq> HASH_SCHEME_V2
   | Inr m \<Rightarrow> \<exists>m'. add_leaves m ds = Inr m' \<and> get_leaf_count m' = length ds
       \<and> get_root_hash m'
         = Inr (spec_root (s = HASH_SCHEME_V2) (map (scheme_leaf_digest (s = HASH_SCHEME_V2)) ds))"
proof (cases "mmr_init oid s")
  case (Inr m)
  have v: "is_v2 m = (s = HASH_SCHEME_V2)"
    using mmr_init_scheme [OF Inr] by (auto simp: is_v2_def)
  from add_leaves_holds [OF holds_init [OF Inr], of ds] obtain m' where
    "add_leaves m ds = Inr m'" "holds m' (map (scheme_leaf_digest (s = HASH_SCHEME_V2)) ds)" "frame m m'"
    by (auto simp: v)
  with Inr v show ?thesis
    by (simp add: holds_root holds_leaf_count get_leaf_count_def frame_is_v2)
qed (auto simp: mmr_init_def split: if_splits)

text \<open>
  Rollback is exact: from any state the operations can reach, take a checkpoint,
  append any payloads, roll back. The rollback is accepted and the accumulator is in the
  state the checkpoint was taken in, down to the objects and their parent links.
\<close>

theorem rollback_undoes_appends:
  assumes "mmr_inv m" and "add_leaves m ds = Inr m'"
  shows "\<exists>m''. rollback_to m' (checkpoint m) = Inr m'' \<and> same_state m m''"
proof -
  from assms(1) obtain ts where rep: "represents m ts"
    by (auto simp: mmr_inv_def)
  with add_leaves_represents [OF rep, of ds] assms(2) have "frame m m'"
    by auto
  with rep show ?thesis
    by (rule rollback_exact)
qed

theorem rollback_undoes_appends_witness:
  "\<exists>e m m' m''. mmr_init 0 HASH_SCHEME_V2 = Inr e \<and> add_leaves e [[7]] = Inr m
     \<and> add_leaves m [[1], [2, 3]] = Inr m' \<and> rollback_to m' (checkpoint m) = Inr m'' \<and> same_state m m''"
proof -
  obtain e where e: "mmr_init 0 HASH_SCHEME_V2 = Inr e"
    by (simp add: mmr_init_def)
  from add_leaves_holds [OF holds_init [OF e], of "[[7]]"] obtain m where
    m: "add_leaves e [[7]] = Inr m" "mmr_inv m"
    by (auto intro: holds_mmr_inv)
  then obtain m' where m': "add_leaves m [[1], [2, 3]] = Inr m'"
    using add_leaves_represents [of m _ "[[1], [2, 3]]"] by (auto simp: mmr_inv_def)
  from rollback_undoes_appends [OF m(2) m'] e m(1) m' show ?thesis
    by blast
qed

text \<open>
  Restoring a peak set equals replaying the leaves: seat a new accumulator of the same
  scheme on the peaks of one that holds \<open>n > 0\<close> leaves. The restore succeeds, and for
  every further list of payloads both accumulators accept them and report the same root.
\<close>

theorem restore_equals_replay:
  assumes "mmr_inv m" and "0 < leaf_count m" and "mmr_init oid (hash_scheme m) = Inr e"
  shows "\<exists>r. restore_from_peaks e (int (leaf_count m)) (peak_set m) = Inr (projr (get_root_hash m), r)
           \<and> (\<exists>m' r'. add_leaves m ds = Inr m' \<and> add_leaves r ds = Inr r'
                 \<and> get_root_hash r' = get_root_hash m')"
proof -
  from assms(1) obtain ts where rep: "represents m ts"
    by (auto simp: mmr_inv_def)
  let ?F = "pruned_forest (expected_heights (leaf_count m)) (map pk_hash_str (peak_set m))"
  note ps = peak_set_facts [OF rep]
  have e: "is_v2 e = is_v2 m"
    using mmr_init_scheme [OF assms(3)] by (simp add: is_v2_def)
  from restore_represents [OF assms(3) ps(1) assms(2) ps(2)] obtain r where
    r: "restore_from_peaks e (int (leaf_count m)) (peak_set m) = Inr (forest_root (is_v2 e) ?F, r)"
      "represents r ?F" "hash_scheme r = hash_scheme m"
    by blast
  have v: "is_v2 r = is_v2 m"
    using r(3) by (simp add: is_v2_def)
  from add_leaves_represents [OF rep, of ds] obtain m' where
    m': "add_leaves m ds = Inr m'" "frame m m'"
      "represents m' (push_leaves_of ts (map (scheme_leaf_digest (is_v2 m)) ds))"
    by blast
  from add_leaves_represents [OF r(2), of ds] obtain r' where
    r': "add_leaves r ds = Inr r'" "frame r r'"
      "represents r' (push_leaves_of ?F (map (scheme_leaf_digest (is_v2 m)) ds))"
    by (auto simp: v)
  have "get_root_hash r' = get_root_hash m'"
    using represents_root [OF m'(3)] represents_root [OF r'(3)] alike_push_leaves_of [OF ps(3)]
    by (simp add: frame_is_v2 [OF m'(2)] frame_is_v2 [OF r'(2)] v alike_root)
  moreover have "forest_root (is_v2 e) ?F = projr (get_root_hash m)"
    using represents_root [OF rep] ps(3) by (simp add: e alike_root)
  ultimately show ?thesis
    using r(1) m'(1) r'(1) by auto
qed

theorem restore_equals_replay_witness:
  "\<exists>e m r m' r'. mmr_init 0 HASH_SCHEME_V2 = Inr e \<and> add_leaves e [[7], [8], [9]] = Inr m
     \<and> restore_from_peaks e 3 (peak_set m) = Inr (projr (get_root_hash m), r)
     \<and> add_leaves m [[1]] = Inr m' \<and> add_leaves r [[1]] = Inr r' \<and> get_root_hash r' = get_root_hash m'"
proof -
  obtain e where e: "mmr_init 0 HASH_SCHEME_V2 = Inr e"
    by (simp add: mmr_init_def)
  from add_leaves_holds [OF holds_init [OF e], of "[[7], [8], [9]]"] obtain m where
    "add_leaves e [[7], [8], [9]] = Inr m" "frame e m"
    and h: "holds m (map (scheme_leaf_digest (is_v2 e)) [[7], [8], [9]])"
    by (metis append_Nil)
  with holds_mmr_inv [OF h] holds_leaf_count [OF h]
  have m: "add_leaves e [[7], [8], [9]] = Inr m" "mmr_inv m" "leaf_count m = 3" "frame e m"
    by simp_all
  then have "mmr_init 0 (hash_scheme m) = Inr e"
    using e mmr_init_scheme [OF e] by (simp add: frame_def)
  from restore_equals_replay [OF m(2) _ this, of "[[1]]"] e m show ?thesis
    by auto
qed

end
