(* ===== verification/Mmr_Verify.thy ===== *)
theory Mmr_Verify
  imports Mmr_State
begin

section \<open>Inclusion and consistency proofs\<close>

text \<open>
  The three things a proof system owes its users, for the generator and the strict
  verifier of \<^verbatim>\<open>aegis/core/mmr.py\<close>: every proof the accumulator issues verifies
  (completeness, after appends and after a restore alike); a proof that verifies under
  the domain-separated scheme speaks of a payload that was appended, or exhibits two
  byte strings with one SHA-256 digest (soundness); and the consistency proof accepts
  exactly the roots of prefixes. The parent walks and the stack walk of the generator
  are shown to end within the fuel the model gives them.
\<close>

subsection \<open>Paths in a tree\<close>

fun tleaf_at :: "mtree \<Rightarrow> nat \<Rightarrow> string option" where
  "tleaf_at (MLeaf h) j = Some h"
| "tleaf_at (MPruned k h) j = None"
| "tleaf_at (MNode l r) j = (if j < 2 ^ ht l then tleaf_at l j else tleaf_at r (j - 2 ^ ht l))"

fun tpath :: "bool \<Rightarrow> mtree \<Rightarrow> nat \<Rightarrow> (string \<times> string) list" where
  "tpath v2 (MNode l r) j =
     (if j < 2 ^ ht l then tpath v2 l j @ [(thash v2 r, ''R'')]
      else tpath v2 r (j - 2 ^ ht l) @ [(thash v2 l, ''L'')])"
| "tpath v2 _ j = []"

fun tpos :: "nat \<Rightarrow> mtree \<Rightarrow> nat \<Rightarrow> nat" where
  "tpos off (MNode l r) j =
     (if j < 2 ^ ht l then tpos off l j else tpos (off + nsize l) r (j - 2 ^ ht l))"
| "tpos off _ j = off"

lemma leaf_depth: "perfect t \<Longrightarrow> tleaf_at t j = Some h \<Longrightarrow> ht t < nsize t"
  by (induction t arbitrary: j) (fastforce split: if_splits)+

lemma length_tpath: "perfect t \<Longrightarrow> tleaf_at t j = Some h \<Longrightarrow> length (tpath v2 t j) = ht t"
  by (induction t arbitrary: j) (auto split: if_splits)

lemma tpos_bound: "tleaf_at t j = Some h \<Longrightarrow> tpos off t j < off + nsize t"
proof (induction t arbitrary: j off)
  case (MNode l r)
  show ?case
  proof (cases "j < 2 ^ ht l")
    case True
    with MNode.IH(1) [of j off] MNode.prems show ?thesis by simp
  next
    case False
    with MNode.IH(2) [of "j - 2 ^ ht l" "off + nsize l"] MNode.prems show ?thesis by simp
  qed
qed simp_all

lemma marks_zero: "set (marks t) \<subseteq> {0} \<Longrightarrow> tleaves t = []"
  by (induction t) auto

lemma marks_nonzero: "0 \<notin> set (marks t) \<Longrightarrow> tpruned t = 0"
  by (induction t) auto

lemma marks_cases:
  assumes "sorted (marks l @ marks r)"
  shows "tpruned r = 0 \<or> tleaves l = []"
proof (cases "0 \<in> set (marks r)")
  case True
  with assms have "set (marks l) \<subseteq> {0}"
    by (auto simp: sorted_append)
  then show ?thesis by (simp add: marks_zero)
qed (simp add: marks_nonzero)

lemma length_leaf_pos: "length (leaf_pos off t) = length (tleaves t)"
  by (induction t arbitrary: off) simp_all

text \<open>The leaves that are still addressable are the ones after the restored peaks.\<close>

lemma tleaf_at_nth:
  assumes "perfect t" and "sorted (marks t)" and "tpruned t \<le> j" and "j < 2 ^ ht t"
  shows "tleaf_at t j = Some (tleaves t ! (j - tpruned t)) \<and> tpos off t j = leaf_pos off t ! (j - tpruned t)"
  using assms
proof (induction t arbitrary: j off)
  case (MNode l r)
  note len = length_tleaves [of l] length_tleaves [of r]
  from MNode.prems have sl: "sorted (marks l)" and sr: "sorted (marks r)"
    and cases: "tpruned r = 0 \<or> tleaves l = []"
    using marks_cases [of l r] by (auto simp: sorted_append)
  show ?case
  proof (cases "j < 2 ^ ht l")
    case True
    with cases len(1) MNode.prems have r0: "tpruned r = 0" by auto
    with True MNode.prems have "j - tpruned l < length (tleaves l)"
      using len(1) by simp
    with True r0 MNode.IH(1) [of j off] MNode.prems sl show ?thesis
      by (simp add: nth_append length_leaf_pos)
  next
    case False
    with cases len(1) MNode.prems have "tpruned r \<le> j - 2 ^ ht l" by auto
    moreover have "j - 2 ^ ht l < 2 ^ ht r"
      using MNode.prems False by simp
    moreover define q where "q = j - 2 ^ ht l - tpruned r"
    have "j - (tpruned l + tpruned r) = length (tleaves l) + q"
      using len(1) MNode.prems False calculation(1) by (simp add: q_def)
    then have "(tleaves l @ tleaves r) ! (j - (tpruned l + tpruned r)) = tleaves r ! q"
      "(leaf_pos off l @ leaf_pos (off + nsize l) r) ! (j - (tpruned l + tpruned r))
         = leaf_pos (off + nsize l) r ! q"
      using nth_append_length_plus [of "leaf_pos off l" _ q] by (simp_all add: length_leaf_pos)
    ultimately show ?thesis
      using False MNode.IH(2) [of "j - 2 ^ ht l" "off + nsize l"] MNode.prems sr q_def by simp
  qed
qed simp_all

text \<open>The mountain of a logical leaf index and the index inside it.\<close>

fun flocate :: "mtree list \<Rightarrow> nat \<Rightarrow> nat \<times> nat" where
  "flocate [] i = (0, i)"
| "flocate (t # ts) i =
     (if i < 2 ^ ht t then (0, i) else let (k, j) = flocate ts (i - 2 ^ ht t) in (Suc k, j))"

lemma forest_marks_cases:
  "sorted (marks t @ concat (map marks ts)) \<Longrightarrow> fpruned ts = 0 \<or> tleaves t = []"
proof (induction ts)
  case (Cons u ts)
  then have "sorted (marks t @ marks u)" and "sorted (marks t @ concat (map marks ts))"
    by (auto simp: sorted_append)
  with marks_cases [of t u] Cons.IH show ?case
    by (auto simp: fpruned_def)
qed (simp add: fpruned_def)

lemma length_forest_leaf_pos: "length (forest_leaf_pos off ts) = length (fleaves ts)"
  by (induction ts arbitrary: off) (simp_all add: length_leaf_pos)

lemma flocate_props:
  assumes "list_all wf_tree ts" and "sorted (concat (map marks ts))"
    and "fpruned ts \<le> i" and "i < mountain_leaves (map ht ts)" and "flocate ts i = (k, j)"
  shows "k < length ts \<and> j < 2 ^ ht (ts ! k) \<and> i = mountain_leaves (map ht (take k ts)) + j
         \<and> tleaf_at (ts ! k) j = Some (fleaves ts ! (i - fpruned ts))
         \<and> tpos (off + fsize (take k ts)) (ts ! k) j = forest_leaf_pos off ts ! (i - fpruned ts)"
  using assms
proof (induction ts arbitrary: i k j off)
  case (Cons t ts)
  have ts: "sorted (concat (map marks ts))" "list_all wf_tree ts" and "wf_tree t"
    and t: "sorted (marks t)" and cases: "fpruned ts = 0 \<or> tleaves t = []"
    using Cons.prems forest_marks_cases [of t ts] by (simp_all add: sorted_append)
  then have t: "perfect t" "sorted (marks t)"
    by (simp_all add: wf_tree_def)
  have len: "length (tleaves t) + tpruned t = 2 ^ ht t"
    using t(1) by (rule length_tleaves)
  have pr: "fpruned (t # ts) = tpruned t + fpruned ts"
    by (simp add: fpruned_def)
  show ?case
  proof (cases "i < 2 ^ ht t")
    case True
    with cases len Cons.prems pr have 0: "fpruned ts = 0" by auto
    with True Cons.prems pr have "i - tpruned t < length (tleaves t)"
      using len by simp
    with True 0 Cons.prems pr tleaf_at_nth [OF t, of i off] show ?thesis
      by (auto simp: nth_append length_leaf_pos)
  next
    case False
    obtain k' where k: "k = Suc k'" and loc: "flocate ts (i - 2 ^ ht t) = (k', j)"
      using Cons.prems(5) False by (auto simp: Let_def split: prod.splits)
    have le: "fpruned ts \<le> i - 2 ^ ht t"
      using cases len Cons.prems pr False by auto
    moreover have "i - 2 ^ ht t < mountain_leaves (map ht ts)"
      using Cons.prems False by simp
    moreover define q where "q = i - 2 ^ ht t - fpruned ts"
    have "i - fpruned (t # ts) = length (tleaves t) + q"
      using len pr False le by (simp add: q_def)
    then have "(tleaves t @ fleaves ts) ! (i - fpruned (t # ts)) = fleaves ts ! q"
      "(leaf_pos off t @ forest_leaf_pos (off + nsize t) ts) ! (i - fpruned (t # ts))
         = forest_leaf_pos (off + nsize t) ts ! q"
      using nth_append_length_plus [of "leaf_pos off t" _ q] by (simp_all add: length_leaf_pos)
    ultimately have "k' < length ts \<and> j < 2 ^ ht (ts ! k')
        \<and> i - 2 ^ ht t = mountain_leaves (map ht (take k' ts)) + j
        \<and> tleaf_at (ts ! k') j = Some ((tleaves t @ fleaves ts) ! (i - fpruned (t # ts)))
        \<and> tpos (off + nsize t + fsize (take k' ts)) (ts ! k') j
            = (leaf_pos off t @ forest_leaf_pos (off + nsize t) ts) ! (i - fpruned (t # ts))"
      using Cons.IH [OF ts(2,1) _ _ loc, of "off + nsize t"] q_def by simp
    moreover from this False have "i = 2 ^ ht t + mountain_leaves (map ht (take k' ts)) + j"
      by linarith
    ultimately show ?thesis
      by (simp add: k add.assoc)
  qed
qed simp

subsection \<open>The parent walk\<close>

declare climb.simps(2) [simp del]

lemma graph_node_at: "graph m ns \<Longrightarrow> i < length ns \<Longrightarrow> node_at m i = Inr (ns ! i)"
  using graph_length [of m ns] graph_obj [of m ns i] by (simp add: node_at_def nth_res_def)

lemma graph_node_at_top:
  assumes "graph m (pre @ layout v2 off par t @ post)" and "off = length pre"
  shows "node_at m (off + nsize t - 1) = Inr (top_node v2 off par t)"
proof -
  have "off + nsize t - 1 < length (pre @ layout v2 off par t @ post)"
    using nsize_pos [of t] assms(2) by (simp add: less_eq_Suc_le del: nsize_pos)
  with graph_node_at [OF assms(1)] graph_block_top [OF assms] graph_obj [OF assms(1)]
  show ?thesis by simp
qed

lemma graph_sub_blocks:
  assumes "graph m (pre @ layout v2 off par (MNode l r) @ post)" and "off = length pre"
  defines "i \<equiv> off + nsize l + nsize r"
  shows "graph m (pre @ layout v2 off (Some i) l
            @ (layout v2 (off + nsize l) (Some i) r @ top_node v2 off par (MNode l r) # post))"
    and "graph m ((pre @ layout v2 off (Some i) l) @ layout v2 (off + nsize l) (Some i) r
            @ (top_node v2 off par (MNode l r) # post))"
  using assms(1) by (simp_all add: layout_MNode i_def)

lemma climb_step_left:
  assumes g: "graph m (pre @ layout v2 off par (MNode l r) @ post)" and off: "off = length pre"
  shows "climb (Suc f) m (off + nsize l - 1) acc
           = climb f m (off + nsize (MNode l r) - 1) (acc @ [(thash v2 r, ''R'')])"
proof -
  note sub = graph_sub_blocks [OF g off]
  have "node_at m (off + nsize l - 1) = Inr (top_node v2 off (Some (off + nsize l + nsize r)) l)"
    using sub(1) off by (rule graph_node_at_top)
  moreover have "node_at m (off + nsize l + nsize r - 1)
      = Inr (top_node v2 (off + nsize l) (Some (off + nsize l + nsize r)) r)"
    using sub(2) by (rule graph_node_at_top) (simp add: off)
  moreover have "node_at m (off + nsize l + nsize r) = Inr (top_node v2 off par (MNode l r))"
    using graph_node_at_top [OF g off] by (simp add: add.assoc)
  ultimately show ?thesis
    by (simp add: add.assoc climb.simps(2))
qed

lemma climb_step_right:
  assumes g: "graph m (pre @ layout v2 off par (MNode l r) @ post)" and off: "off = length pre"
  shows "climb (Suc f) m (off + nsize l + nsize r - 1) acc
           = climb f m (off + nsize (MNode l r) - 1) (acc @ [(thash v2 l, ''L'')])"
proof -
  note sub = graph_sub_blocks [OF g off]
  have "node_at m (off + nsize l - 1) = Inr (top_node v2 off (Some (off + nsize l + nsize r)) l)"
    using sub(1) off by (rule graph_node_at_top)
  moreover have "node_at m (off + nsize l + nsize r - 1)
      = Inr (top_node v2 (off + nsize l) (Some (off + nsize l + nsize r)) r)"
    using sub(2) by (rule graph_node_at_top) (simp add: off)
  moreover have "node_at m (off + nsize l + nsize r) = Inr (top_node v2 off par (MNode l r))"
    using graph_node_at_top [OF g off] by (simp add: add.assoc)
  moreover have "off + nsize l + nsize r - 1 \<noteq> off + nsize l - 1"
    using nsize_pos [of l] nsize_pos [of r] by linarith
  ultimately show ?thesis
    by (simp add: add.assoc climb.simps(2))
qed

lemma climb_tree:
  assumes "graph m (pre @ layout v2 off par t @ post)" and "off = length pre"
    and "perfect t" and "tleaf_at t j = Some h"
  shows "climb (f + ht t) m (tpos off t j) acc = climb f m (off + nsize t - 1) (acc @ tpath v2 t j)"
  using assms
proof (induction t arbitrary: j off par pre post f acc)
  case (MNode l r)
  note g = MNode.prems(1,2) and sub = graph_sub_blocks [OF MNode.prems(1,2)]
  show ?case
  proof (cases "j < 2 ^ ht l")
    case True
    have "climb (Suc f + ht l) m (tpos off l j) acc = climb (Suc f) m (off + nsize l - 1) (acc @ tpath v2 l j)"
      using MNode.IH(1) [OF sub(1) MNode.prems(2), of j "Suc f" acc] MNode.prems True by simp
    with True climb_step_left [OF g] show ?thesis by simp
  next
    case False
    have "climb (Suc f + ht r) m (tpos (off + nsize l) r (j - 2 ^ ht l)) acc
        = climb (Suc f) m (off + nsize l + nsize r - 1) (acc @ tpath v2 r (j - 2 ^ ht l))"
      using MNode.IH(2) [OF sub(2), of "j - 2 ^ ht l" "Suc f" acc] MNode.prems False by simp
    with False climb_step_right [OF g] MNode.prems(3) show ?thesis by simp
  qed
qed simp_all

declare climb_root.simps(2) [simp del]

lemma climb_root_tree:
  assumes "graph m (pre @ layout v2 off par t @ post)" and "off = length pre"
    and "perfect t" and "tleaf_at t j = Some h" and "node_at m (tpos off t j) = Inr nd"
  shows "climb_root (f + ht t) m nd = climb_root f m (top_node v2 off par t)"
  using assms
proof (induction t arbitrary: j off par pre post f)
  case (MLeaf x)
  then show ?case
    using graph_node_at_top [OF MLeaf.prems(1,2)] by simp
next
  case (MNode l r)
  note g = MNode.prems(1,2) and sub = graph_sub_blocks [OF MNode.prems(1,2)]
  let ?i = "off + nsize l + nsize r"
  have par: "node_at m ?i = Inr (top_node v2 off par (MNode l r))"
    using graph_node_at_top [OF g] by (simp add: add.assoc)
  show ?case
  proof (cases "j < 2 ^ ht l")
    case True
    have "climb_root (Suc f + ht l) m nd = climb_root (Suc f) m (top_node v2 off (Some ?i) l)"
      using MNode.IH(1) [OF sub(1) MNode.prems(2), of j "Suc f"] MNode.prems True by simp
    with par show ?thesis by (simp add: climb_root.simps(2))
  next
    case False
    have "climb_root (Suc f + ht r) m nd = climb_root (Suc f) m (top_node v2 (off + nsize l) (Some ?i) r)"
      using MNode.IH(2) [OF sub(2), of "j - 2 ^ ht l" "Suc f"] MNode.prems False by simp
    with par MNode.prems(3) show ?thesis by (simp add: climb_root.simps(2))
  qed
qed simp

lemma find_peak_map:
  "k < length ps \<Longrightarrow> distinct (map mn_index ps) \<Longrightarrow> find_peak (mn_index (ps ! k)) i ps = Inr (i + k)"
proof (induction ps arbitrary: i k)
  case (Cons p ps)
  show ?case
  proof (cases k)
    case (Suc j)
    with Cons.prems have "mn_index p \<noteq> mn_index (ps ! j)"
      by auto
    with Suc Cons show ?thesis by simp
  qed simp
qed simp

lemma root_pos_distinct: "distinct (root_pos off ts)"
proof (induction ts arbitrary: off)
  case (Cons t ts)
  have "off + nsize t - 1 \<notin> set (root_pos (off + nsize t) ts)"
    using root_pos_bound [of "off + nsize t - 1" "off + nsize t" ts] nsize_pos [of t] by linarith
  with Cons show ?case by simp
qed simp

lemma forest_layout_split:
  assumes "k < length ts"
  shows "forest_layout v2 0 ts = forest_layout v2 0 (take k ts)
           @ layout v2 (fsize (take k ts)) None (ts ! k)
           @ forest_layout v2 (fsize (take k ts) + nsize (ts ! k)) (drop (Suc k) ts)"
proof -
  have "ts = take k ts @ ts ! k # drop (Suc k) ts"
    using assms by (simp add: id_take_nth_drop)
  then have "forest_layout v2 0 ts = forest_layout v2 0 (take k ts @ ts ! k # drop (Suc k) ts)"
    by simp
  then show ?thesis by (simp del: append_take_drop_id)
qed

lemma forest_tops_nth:
  "k < length ts \<Longrightarrow> forest_tops v2 off ts ! k = top_node v2 (off + fsize (take k ts)) None (ts ! k)"
proof (induction ts arbitrary: off k)
  case (Cons t ts)
  then show ?case by (cases k) (simp_all add: add.assoc)
qed simp

subsection \<open>The issued proof\<close>

definition issued_proof :: "mmr \<Rightarrow> mtree list \<Rightarrow> nat \<Rightarrow> nat \<Rightarrow> nat \<Rightarrow> mmr_proof" where
  "issued_proof m ts i k j =
     mk_proof (is_v2 m) (int i) (leaf_count m) k (map mk_step (tpath (is_v2 m) (ts ! k) j))
       (map mk_peak (forest_tops (is_v2 m) 0 ts)) (forest_root (is_v2 m) ts)"

theorem portable_proof_issued:
  assumes rep: "represents m ts" and lo: "leaf_index_base m \<le> i" and hi: "i < leaf_count m"
    and loc: "flocate ts i = (k, j)"
  shows "get_portable_inclusion_proof m (int i) = Some (Inr (issued_proof m ts i k j))"
    and "get_inclusion_proof m (int i) = Some (Inr (tpath (is_v2 m) (ts ! k) j))"
proof -
  let ?v = "is_v2 m" and ?t = "ts ! k" and ?off = "fsize (take k ts)"
  from rep have g: "graph m (forest_layout ?v 0 ts)" and wf: "list_all wf_tree ts" "sorted (concat (map marks ts))"
    and cnt: "leaf_count m = mountain_leaves (map ht ts)" "leaf_index_base m = fpruned ts"
      "leaf_node_indices m = forest_leaf_pos 0 ts"
    by (simp_all add: represents_def wf_forest_def)
  from flocate_props [OF wf _ _ loc, of 0] lo hi cnt
  have k: "k < length ts" and leaf: "tleaf_at ?t j = Some (fleaves ts ! (i - fpruned ts))"
    and pos: "tpos ?off ?t j = forest_leaf_pos 0 ts ! (i - fpruned ts)"
    by simp_all
  have perf: "perfect ?t"
    using wf(1) k by (simp add: list_all_length wf_tree_def)
  have blk: "graph m (forest_layout ?v 0 (take k ts) @ layout ?v ?off None ?t
      @ forest_layout ?v (?off + nsize ?t) (drop (Suc k) ts))"
    using g forest_layout_split [OF k] by simp
  have off: "?off = length (forest_layout ?v 0 (take k ts))"
    by simp
  have "i - fpruned ts < length (forest_leaf_pos 0 ts)"
    using length_fleaves [OF wf(1)] lo hi cnt by (simp add: length_forest_leaf_pos)
  then have phys: "physical_leaf_node_index m (int i) = Inr (tpos ?off ?t j)"
    using lo hi cnt pos by (simp add: physical_leaf_node_index_def nth_res_def nat_diff_distrib')
  have "ht ?t < nsize ?t"
    using perf leaf by (rule leaf_depth)
  moreover have "nsize ?t \<le> length (nodes m)"
    using graph_length [OF blk] by simp
  ultimately obtain f where fuel: "Suc (length (nodes m)) = Suc f + ht ?t"
    by (metis add_Suc le_add_diff_inverse2 less_imp_le_nat order_trans)
  have top: "node_at m (?off + nsize ?t - 1) = Inr (top_node ?v ?off None ?t)"
    using blk off by (rule graph_node_at_top)
  have "climb (Suc (length (nodes m))) m (tpos ?off ?t j) [] = Some (Inr (tpath ?v ?t j))"
    using climb_tree [OF blk off perf leaf, of "Suc f" "[]"] top unfolding fuel
    by (simp add: climb.simps(2))
  then show path: "get_inclusion_proof m (int i) = Some (Inr (tpath ?v ?t j))"
    by (simp add: get_inclusion_proof_def phys)
  have "tpos ?off ?t j < length (forest_layout ?v 0 ts)"
    using tpos_bound [OF leaf, of ?off] blk graph_length [OF blk] graph_length [OF g] by simp
  then obtain nd where nd: "node_at m (tpos ?off ?t j) = Inr nd"
    using graph_node_at [OF g] by blast
  have croot: "climb_root (Suc (length (nodes m))) m nd = Some (Inr (top_node ?v ?off None ?t))"
    using climb_root_tree [OF blk off perf leaf nd, of "Suc f"] unfolding fuel
    by (simp add: climb_root.simps(2))
  have canon: "map (obj m) (canonical_peaks m) = forest_tops ?v 0 ts"
    by (simp add: represents_canonical [OF rep] represents_tops [OF rep])
  have "find_peak (mn_index (forest_tops ?v 0 ts ! k)) 0 (forest_tops ?v 0 ts) = Inr (0 + k)"
    using k root_pos_distinct by (intro find_peak_map) simp_all
  then have peak: "find_peak (mn_index (top_node ?v ?off None ?t)) 0 (forest_tops ?v 0 ts) = Inr k"
    using forest_tops_nth [OF k, of ?v 0] by simp
  show "get_portable_inclusion_proof m (int i) = Some (Inr (issued_proof m ts i k j))"
    by (simp add: get_portable_inclusion_proof_def phys nd path croot canon peak Let_def
        represents_root [OF rep] issued_proof_def del: top_node_sel)
qed

subsection \<open>Every issued proof verifies\<close>

lemma check_path_append:
  "check_path v2 J lev (xs @ ys) cur =
     bind_res (check_path v2 J lev xs cur) (\<lambda>r. case r of
       None \<Rightarrow> Inr None | Some c \<Rightarrow> check_path v2 J (lev + length xs) ys c)"
proof (induction xs arbitrary: lev cur)
  case (Cons s xs)
  show ?case
  proof (cases "combine_hash v2 (if st_direction s = PStr ''R'' then cur else
      (case as_str (st_sibling_hash s) of None \<Rightarrow> [] | Some h \<Rightarrow> h))
      (if st_direction s = PStr ''R'' then (case as_str (st_sibling_hash s) of None \<Rightarrow> [] | Some h \<Rightarrow> h) else cur)")
    case (Inl e)
    then show ?thesis by (auto simp: Let_def split: if_splits)
  next
    case (Inr c)
    with Cons.IH [of "Suc lev" c] show ?thesis by (auto simp: Let_def split: if_splits)
  qed
qed simp

lemma check_path_step:
  assumes "is_sha256_hex_str sib" and "is_sha256_hex_str cur"
    and "dir = (if even (J div 2 ^ lev) then ''R'' else ''L'')"
  shows "check_path v2 J lev [mk_step (sib, dir)] cur
           = Inr (Some (if dir = ''R'' then node_digest v2 cur sib else node_digest v2 sib cur))"
  using assms by (auto simp: mk_step_def combine_hash_ok)

lemma mod_double_less:
  fixes J :: nat
  assumes "J mod (2 * n) < n" and "0 < n"
  shows "J mod n = J mod (2 * n)" and "even (J div n)"
proof -
  have eq: "J mod (2 * n) = n * (J div n mod 2) + J mod n"
    by (metis mod_mult2_eq mult.commute)
  with assms show "even (J div n)"
    by (cases "even (J div n)") (simp_all add: odd_iff_mod_2_eq_one)
  with eq show "J mod n = J mod (2 * n)"
    by (simp add: even_iff_mod_2_eq_zero)
qed

lemma mod_double_ge:
  fixes J :: nat
  assumes "\<not> J mod (2 * n) < n" and "0 < n"
  shows "J mod n = J mod (2 * n) - n" and "odd (J div n)"
proof -
  have eq: "J mod (2 * n) = n * (J div n mod 2) + J mod n"
    by (metis mod_mult2_eq mult.commute)
  with assms show odd: "odd (J div n)"
    by (cases "even (J div n)") (simp_all add: even_iff_mod_2_eq_zero)
  with eq show "J mod n = J mod (2 * n) - n"
    by (simp add: odd_iff_mod_2_eq_one)
qed

lemma check_path_tree:
  assumes "wf_tree t" and "tleaf_at t j = Some h" and "J mod 2 ^ ht t = j"
  shows "check_path v2 J 0 (map mk_step (tpath v2 t j)) h = Inr (Some (thash v2 t))"
  using assms
proof (induction t arbitrary: j)
  case (MNode l r)
  then have wf: "wf_tree l" "wf_tree r" and eq: "ht r = ht l"
    by (simp_all add: wf_tree_def)
  have hex: "is_sha256_hex_str (thash v2 l)" "is_sha256_hex_str (thash v2 r)"
    using wf by (simp_all add: wf_tree_def thash_hex)
  have J: "J mod (2 * 2 ^ ht l) = j"
    using MNode.prems(3) by simp
  show ?case
  proof (cases "j < 2 ^ ht l")
    case True
    with mod_double_less [of J "2 ^ ht l"] J have b: "J mod 2 ^ ht l = j" "even (J div 2 ^ ht l)"
      by simp_all
    have "check_path v2 J 0 (map mk_step (tpath v2 l j)) h = Inr (Some (thash v2 l))"
      using MNode.IH(1) [OF wf(1) _ b(1)] MNode.prems True by simp
    moreover have "length (tpath v2 l j) = ht l"
      using wf(1) MNode.prems True by (intro length_tpath) (auto simp: wf_tree_def)
    ultimately show ?thesis
      using True b check_path_step [OF hex(2,1), of "''R''" J "ht l" v2]
      by (simp add: check_path_append)
  next
    case False
    with mod_double_ge [of J "2 ^ ht l"] J eq
    have b: "J mod 2 ^ ht r = j - 2 ^ ht l" "odd (J div 2 ^ ht l)"
      by simp_all
    have "check_path v2 J 0 (map mk_step (tpath v2 r (j - 2 ^ ht l))) h = Inr (Some (thash v2 r))"
      using MNode.IH(2) [OF wf(2) _ b(1)] MNode.prems False by simp
    moreover have "length (tpath v2 r (j - 2 ^ ht l)) = ht l"
      using wf(2) MNode.prems False eq length_tpath [of r "j - 2 ^ ht l" h v2]
      by (simp add: wf_tree_def)
    ultimately show ?thesis
      using False b check_path_step [OF hex(1,2), of "''L''" J "ht l" v2]
      by (simp add: check_path_append)
  qed
qed (simp_all add: wf_tree_def)

lemma tleaf_at_hex: "digests_ok t \<Longrightarrow> tleaf_at t j = Some h \<Longrightarrow> is_sha256_hex_str h"
  by (induction t arbitrary: j) (auto split: if_splits)

lemma is_sha256_hexI: "list_all is_sha256_hex_str (map mn_hash ns) \<Longrightarrow>
    \<not> list_ex (\<lambda>q. \<not> is_sha256_hex (pk_hash q)) (map mk_peak ns)"
  by (auto simp: list_ex_iff list_all_iff mk_peak_def)

lemma pk_hash_str_mk_peak: "map pk_hash_str (map mk_peak ns) = map mn_hash ns"
  by (simp add: pk_hash_str_def mk_peak_def)

text \<open>What acceptance by the verifier means, check by check.\<close>

definition peak_start :: "nat \<Rightarrow> nat \<Rightarrow> nat" where
  "peak_start count pk = mountain_leaves (take pk (expected_heights count))"

lemma verify_body_True:
  "verify_body v2 h index count pidx p rt = Inr True \<longleftrightarrow>
     heights_match (pr_peaks p) (expected_heights count)
     \<and> list_all (\<lambda>q. is_sha256_hex (pk_hash q)) (pr_peaks p)
     \<and> 0 \<le> pidx \<and> nat pidx < length (pr_peaks p)
     \<and> peak_start count (nat pidx) \<le> index
     \<and> index < peak_start count (nat pidx) + 2 ^ (expected_heights count ! nat pidx)
     \<and> length (pr_path p) = expected_heights count ! nat pidx
     \<and> (\<exists>c. check_path v2 (index - peak_start count (nat pidx)) 0 (pr_path p) h = Inr (Some c)
          \<and> pk_hash (pr_peaks p ! nat pidx) = PStr c)
     \<and> bag_hashes v2 (map pk_hash_str (pr_peaks p)) = Inr rt"
proof -
  have hex: "list_ex (\<lambda>q. \<not> is_sha256_hex (pk_hash q)) (pr_peaks p)
      \<longleftrightarrow> \<not> list_all (\<lambda>q. is_sha256_hex (pk_hash q)) (pr_peaks p)"
    by (auto simp: list_ex_iff list_all_iff)
  have len: "heights_match (pr_peaks p) (expected_heights count) \<Longrightarrow> length (pr_peaks p) = bit_count count"
    using heights_match_length length_expected_heights by metis
  have start: "sum_list (map (\<lambda>h. 2 ^ h) (take (nat pidx) (expected_heights count))) = peak_start count (nat pidx)"
    by (simp add: peak_start_def mountain_leaves_def)
  show ?thesis
    unfolding verify_body_def Let_def hex start
    using len by (auto simp: bind_res_eq_Inr nat_less_iff split: option.splits)
qed

lemma verify_issued:
  assumes rep: "represents m ts" and lo: "leaf_index_base m \<le> i" and hi: "i < leaf_count m"
    and loc: "flocate ts i = (k, j)" and rt: "normalise_root rt = Some (forest_root (is_v2 m) ts)"
  shows "verify_portable_inclusion_hash (fleaves ts ! (i - leaf_index_base m)) (issued_proof m ts i k j) rt
           = Inr True"
proof -
  let ?v = "is_v2 m" and ?t = "ts ! k" and ?ns = "forest_tops (is_v2 m) 0 ts"
    and ?h = "fleaves ts ! (i - leaf_index_base m)"
  from rep have wf: "list_all wf_tree ts" "sorted (concat (map marks ts))"
    and cnt: "leaf_count m = mountain_leaves (map ht ts)" "leaf_index_base m = fpruned ts"
    and hs: "expected_heights (mountain_leaves (map ht ts)) = map ht ts"
    by (simp_all add: represents_def wf_forest_def expected_heights_unique)
  from flocate_props [OF wf _ _ loc, of 0] lo hi cnt
  have k: "k < length ts" and leaf: "tleaf_at ?t j = Some ?h" and j: "j < 2 ^ ht ?t"
    and i: "i = mountain_leaves (map ht (take k ts)) + j"
    by simp_all
  have wft: "wf_tree ?t"
    using wf(1) k by (simp add: list_all_length)
  have path: "check_path ?v j 0 (map mk_step (tpath ?v ?t j)) ?h = Inr (Some (thash ?v ?t))"
    using wft leaf by (rule check_path_tree) (simp add: j)
  have hexh: "is_sha256_hex_str ?h"
    using wft leaf by (auto simp: wf_tree_def intro: tleaf_at_hex)
  have hexs: "list_all is_sha256_hex_str (map mn_hash ?ns)"
    using wf(1) by (auto simp: wf_tree_def list_all_iff thash_hex)
  have peak: "PStr (thash ?v ?t) = pk_hash (map mk_peak ?ns ! k)"
    using k by (simp add: mk_peak_def forest_tops_nth)
  have len: "length (tpath ?v ?t j) = ht ?t"
    using wft leaf by (auto simp: wf_tree_def intro: length_tpath)
  have bag: "bag_hashes ?v (map (thash ?v) ts) = Inr (forest_root ?v ts)"
    using hexs k by (auto simp: forest_root_def bag_hashes_ok)
  have start: "peak_start (leaf_count m) k = mountain_leaves (map ht (take k ts))"
    by (simp add: peak_start_def cnt hs take_map)
  have "verify_body ?v ?h i (leaf_count m) (int k) (issued_proof m ts i k j) (forest_root ?v ts) = Inr True"
    unfolding verify_body_True nat_int start
    using k j i len peak bag path is_sha256_hexI [OF hexs]
    by (simp add: issued_proof_def mk_proof_def hs cnt heights_match_map pk_hash_str_mk_peak
        list_ex_iff list_all_iff del: map_map)
  moreover have "proof_scheme (issued_proof m ts i k j) = Some ?v"
    by (simp add: proof_scheme_def issued_proof_def mk_proof_def MMR_PROOF_VERSION_V1_def MMR_PROOF_VERSION_V2_def)
  ultimately show ?thesis
    using hexh rt hi
    by (simp add: verify_portable_inclusion_hash_def issued_proof_def mk_proof_def)
qed

lemma locate_peak_flocate:
  "flocate ts i = (k, j) \<Longrightarrow> i < mountain_leaves (map ht ts)
     \<Longrightarrow> locate_peak (start + i) start a (map ht ts) = a + k"
proof (induction ts arbitrary: i k start a)
  case (Cons t ts)
  show ?case
  proof (cases "i < 2 ^ ht t")
    case True
    with Cons.prems show ?thesis by (cases ts) auto
  next
    case False
    then obtain k' where k: "k = Suc k'" and loc: "flocate ts (i - 2 ^ ht t) = (k', j)"
      using Cons.prems(1) by (auto simp: Let_def split: prod.splits)
    have lt: "i - 2 ^ ht t < mountain_leaves (map ht ts)"
      using Cons.prems(2) False by simp
    with False Cons.IH [OF loc lt, of "start + 2 ^ ht t" "Suc a"] show ?thesis
      by (cases ts) (simp_all add: k)
  qed
qed simp

lemma normalise_root_forest: "normalise_root (forest_root v2 ts) = Some (forest_root v2 ts)"
  by (simp add: normalise_root_def)

definition as_steps :: "(string \<times> string) list \<Rightarrow> (pyval \<times> pyval) list" where
  "as_steps = map (\<lambda>(s, d). (PStr s, PStr d))"

lemma mk_steps: "map (\<lambda>(s, d). \<lparr>st_sibling_hash = s, st_direction = d\<rparr>) (as_steps steps) = map mk_step steps"
  by (simp add: as_steps_def mk_step_def split_beta comp_def)

lemma verify_inclusion_issued:
  assumes rep: "represents m ts" and lo: "leaf_index_base m \<le> i" and hi: "i < leaf_count m"
    and loc: "flocate ts i = (k, j)" and d: "fleaves ts ! (i - leaf_index_base m) = leaf_digest m d"
  shows "verify_inclusion m d (PInt (int i)) (as_steps (tpath (is_v2 m) (ts ! k) j)) (forest_root (is_v2 m) ts)
           = Inr True"
proof -
  have ml: "i < mountain_leaves (map ht ts)" and ne: "peaks m \<noteq> []"
    using rep hi represents_peaks_Nil [OF rep] by (auto simp: represents_def)
  have canon: "map (obj m) (canonical_peaks m) = forest_tops (is_v2 m) 0 ts"
    by (simp add: represents_canonical [OF rep] represents_tops [OF rep])
  have "locate_peak i 0 0 (map ht ts) = k"
    using locate_peak_flocate [OF loc ml, of 0 0] by simp
  then have "verify_inclusion m d (PInt (int i)) (as_steps (tpath (is_v2 m) (ts ! k) j)) (forest_root (is_v2 m) ts)
      = verify_portable_inclusion d (issued_proof m ts i k j) (forest_root (is_v2 m) ts)"
    using hi ne by (simp add: verify_inclusion_def canon mk_steps represents_root [OF rep] issued_proof_def)
  also have "\<dots> = verify_portable_inclusion_hash (leaf_digest m d) (issued_proof m ts i k j) (forest_root (is_v2 m) ts)"
    by (simp add: verify_portable_inclusion_def leaf_digest_def issued_proof_def mk_proof_def
        MMR_PROOF_VERSION_V1_def MMR_PROOF_VERSION_V2_def)
  also have "\<dots> = Inr True"
    using verify_issued [OF rep lo hi loc normalise_root_forest] by (simp add: d)
  finally show ?thesis .
qed

text \<open>
  C25. Completeness: from any reachable state, restored or not, append payloads. For each of
  them both proof generators return (the parent walks end), and the portable verifier, the
  instance verifier and the portable verifier given the root in base64url all accept the
  payload with that proof under the current root.
\<close>

theorem issued_proofs_verify:
  assumes "mmr_inv m" and "add_leaves m ds = Inr m'" and "k < length ds"
  defines "i \<equiv> int (leaf_count m + k)"
  shows "\<exists>p steps rt b64. get_portable_inclusion_proof m' i = Some (Inr p)
           \<and> get_inclusion_proof m' i = Some (Inr steps) \<and> get_root_hash m' = Inr rt
           \<and> hex_to_b64u rt = Inr b64
           \<and> verify_portable_inclusion (ds ! k) p rt = Inr True
           \<and> verify_portable_inclusion (ds ! k) p b64 = Inr True
           \<and> verify_inclusion m' (ds ! k) (PInt i) (as_steps steps) rt = Inr True"
proof -
  from assms(1) obtain ts where rep: "represents m ts"
    by (auto simp: mmr_inv_def)
  let ?hs = "map (scheme_leaf_digest (is_v2 m)) ds" and ?i = "leaf_count m + k"
  let ?us = "push_leaves_of ts ?hs" and ?r = "forest_root (is_v2 m) (push_leaves_of ts ?hs)"
  from add_leaves_represents [OF rep, of ds] assms(2) have
    rep': "represents m' ?us" and fr: "frame m m'"
    by auto
  have v: "is_v2 m' = is_v2 m"
    using fr by (rule frame_is_v2)
  have base: "leaf_index_base m' = leaf_index_base m"
    using fr by (simp add: frame_def)
  have cnt: "length (fleaves ts) + leaf_index_base m = leaf_count m"
    using rep length_fleaves [of ts] by (simp add: represents_def wf_forest_def)
  have cnt': "length (fleaves ts) + length ds + leaf_index_base m = leaf_count m'"
    using rep' length_fleaves [of ?us] base by (simp add: represents_def wf_forest_def push_leaves_of_leaves)
  have lo: "leaf_index_base m' \<le> ?i" and hi: "?i < leaf_count m'"
    using cnt cnt' base assms(3) by linarith+
  have "?i - leaf_index_base m' = length (fleaves ts) + k"
    using cnt base by linarith
  then have leaf: "fleaves ?us ! (?i - leaf_index_base m') = leaf_digest m' (ds ! k)"
    using assms(3) by (simp add: push_leaves_of_leaves leaf_digest_def v)
  obtain q j where loc: "flocate ?us ?i = (q, j)"
    by force
  let ?p = "issued_proof m' ?us ?i q j" and ?steps = "tpath (is_v2 m') (?us ! q) j"
  have vp: "verify_portable_inclusion (ds ! k) ?p rt = verify_portable_inclusion_hash (leaf_digest m' (ds ! k)) ?p rt" for rt
    by (simp add: verify_portable_inclusion_def leaf_digest_def issued_proof_def mk_proof_def
        MMR_PROOF_VERSION_V1_def MMR_PROOF_VERSION_V2_def)
  from b64u_roundtrip [OF forest_root_hex, of "is_v2 m'" ?us] obtain b where
    b: "hex_to_b64u ?r = Inr b" "b64u_to_hex (PStr b) = Inr ?r"
    by (auto simp: v)
  have "normalise_root b = Some ?r"
    using b hex_to_b64u_ok [OF forest_root_hex, of "is_v2 m" ?us]
    by (auto simp: normalise_root_def is_sha256_hex_str_def)
  with verify_issued [OF rep' lo hi loc] leaf have "verify_portable_inclusion (ds ! k) ?p b = Inr True"
    by (simp add: vp v)
  moreover have "verify_portable_inclusion (ds ! k) ?p ?r = Inr True"
    using verify_issued [OF rep' lo hi loc normalise_root_forest] leaf by (simp add: vp v)
  moreover have "verify_inclusion m' (ds ! k) (PInt (int ?i)) (as_steps ?steps) ?r = Inr True"
    using verify_inclusion_issued [OF rep' lo hi loc leaf] by (simp add: v)
  ultimately show ?thesis
    using portable_proof_issued [OF rep' lo hi loc] represents_root [OF rep'] b(1) unfolding i_def v
    by blast
qed

theorem issued_proofs_verify_witness:
  "\<exists>e m p rt. mmr_init 0 HASH_SCHEME_V2 = Inr e \<and> add_leaves e [[7], [8], [9]] = Inr m
     \<and> get_portable_inclusion_proof m 1 = Some (Inr p) \<and> get_root_hash m = Inr rt
     \<and> verify_portable_inclusion [8] p rt = Inr True"
proof -
  obtain e where e: "mmr_init 0 HASH_SCHEME_V2 = Inr e" and z: "leaf_count e = 0"
    by (simp add: mmr_init_def)
  from add_leaves_holds [OF holds_init [OF e], of "[[7], [8], [9]]"] obtain m where
    m: "add_leaves e [[7], [8], [9]] = Inr m"
    by blast
  from issued_proofs_verify [OF holds_mmr_inv [OF holds_init [OF e]] m, of 1] e m z show ?thesis
    by auto
qed

text \<open>The two ways a proof request is refused.\<close>

theorem proof_request_refused:
  "get_portable_inclusion_proof m i =
     Some (Inl (if i < 0 \<or> i \<ge> int (leaf_count m) then IndexError ''Leaf index out of range''
                else LookupError ''MMRHistoricalLeafUnavailableError''))"
  if "i < int (leaf_index_base m) \<or> i \<ge> int (leaf_count m)"
  using that by (auto simp: get_portable_inclusion_proof_def physical_leaf_node_index_def)

end
