(* ===== verification/Mmr_Sound.thy ===== *)
theory Mmr_Sound
  imports Mmr_Verify
begin

section \<open>What an accepted inclusion proof proves\<close>

text \<open>
  Soundness of the strict verifier against any proof object, issued or forged. SHA-256 is
  not assumed to be injective: the theorem returns either the membership it claims or two
  different byte strings with one digest, one of which the verifier hashed and the other
  the accumulator. The bytes each side hashes are spelled out (\<open>verifier_inputs\<close>,
  \<open>tree_inputs\<close>). What the verifier does not establish is stated too: the claimed leaf
  count and index, and, under the legacy scheme, that the payload was a leaf.
\<close>

subsection \<open>The bytes that are hashed\<close>

definition step_sibling :: "mmr_step \<Rightarrow> string" where
  "step_sibling s = (case as_str (st_sibling_hash s) of None \<Rightarrow> [] | Some h \<Rightarrow> h)"

definition step_pair :: "mmr_step \<Rightarrow> string \<Rightarrow> string \<times> string" where
  "step_pair s cur = (if st_direction s = PStr ''R'' then (cur, step_sibling s) else (step_sibling s, cur))"

fun path_digest :: "string \<Rightarrow> mmr_step list \<Rightarrow> string" where
  "path_digest cur [] = cur"
| "path_digest cur (s # ss) = path_digest (case step_pair s cur of (l, r) \<Rightarrow> node_digest True l r) ss"

definition node_input :: "string \<times> string \<Rightarrow> bytes" where
  "node_input lr = DOMAIN_NODE @ unhex (fst lr) @ unhex (snd lr)"

definition root_input :: "string list \<Rightarrow> bytes" where
  "root_input hs = DOMAIN_ROOT @ concat (map unhex hs)"

definition leaf_input :: "bytes \<Rightarrow> bytes" where
  "leaf_input d = DOMAIN_LEAF @ d"

fun path_inputs :: "string \<Rightarrow> mmr_step list \<Rightarrow> bytes set" where
  "path_inputs cur [] = {}"
| "path_inputs cur (s # ss) =
     insert (node_input (step_pair s cur))
       (path_inputs (case step_pair s cur of (l, r) \<Rightarrow> node_digest True l r) ss)"

definition verifier_inputs :: "bytes \<Rightarrow> mmr_proof \<Rightarrow> bytes set" where
  "verifier_inputs d p =
     {leaf_input d, root_input (map pk_hash_str (pr_peaks p))}
     \<union> path_inputs (scheme_leaf_digest True d) (pr_path p)"

text \<open>The bytes hashed for the perfect tree over the payloads \<open>ds\<close>, and for all mountains.\<close>

abbreviation dig :: "bytes list \<Rightarrow> string list" where
  "dig ds \<equiv> map (scheme_leaf_digest True) ds"

fun subtree_inputs :: "nat \<Rightarrow> bytes list \<Rightarrow> bytes set" where
  "subtree_inputs 0 ds = {leaf_input (hd ds)}"
| "subtree_inputs (Suc k) ds =
     insert (node_input (subtree_hash True k (dig (take (2 ^ k) ds)), subtree_hash True k (dig (drop (2 ^ k) ds))))
       (subtree_inputs k (take (2 ^ k) ds) \<union> subtree_inputs k (drop (2 ^ k) ds))"

fun peaks_inputs :: "nat list \<Rightarrow> bytes list \<Rightarrow> bytes set" where
  "peaks_inputs [] ds = {}"
| "peaks_inputs (h # hs) ds = subtree_inputs h (take (2 ^ h) ds) \<union> peaks_inputs hs (drop (2 ^ h) ds)"

definition tree_inputs :: "bytes list \<Rightarrow> bytes set" where
  "tree_inputs ds =
     insert (root_input (spec_peaks True (expected_heights (length ds)) (dig ds)))
       (peaks_inputs (expected_heights (length ds)) ds)"

subsection \<open>One path against one mountain\<close>

lemma unhex_length: "is_sha256_hex_str h \<Longrightarrow> length (unhex h) = 32"
  using sha256_hex_fromhex by blast

lemma subtree_hash_hex:
  "list_all is_sha256_hex_str ls \<Longrightarrow> length ls = 2 ^ k \<Longrightarrow> is_sha256_hex_str (subtree_hash v2 k ls)"
  by (cases k) (auto simp: length_Suc_conv)

lemma node_digest_sha: "unhex (node_digest True l r) = sha256 (node_input (l, r))"
  by (simp add: node_digest_def node_input_def)

lemma leaf_digest_sha: "unhex (scheme_leaf_digest True d) = sha256 (leaf_input d)"
  by (simp add: scheme_leaf_digest_def v2_leaf_hash_def leaf_input_def)

lemma input_tags [simp]:
  "leaf_input d \<noteq> node_input lr" "node_input lr \<noteq> leaf_input d"
  by (simp_all add: leaf_input_def node_input_def DOMAIN_LEAF_def DOMAIN_NODE_def)

lemma leaf_input_inj [simp]: "leaf_input d = leaf_input d' \<longleftrightarrow> d = d'"
  by (simp add: leaf_input_def)

lemma node_input_inj:
  assumes "is_sha256_hex_str l" "is_sha256_hex_str r" "is_sha256_hex_str l'" "is_sha256_hex_str r'"
    and "node_input (l, r) = node_input (l', r')"
  shows "l = l' \<and> r = r'"
  using assms unhex_inj by (auto simp: node_input_def unhex_length)

definition good_step :: "mmr_step \<Rightarrow> bool" where
  "good_step s \<longleftrightarrow> is_sha256_hex_str (step_sibling s)"

lemma path_digest_snoc:
  "path_digest cur (ss @ [s]) = (case step_pair s (path_digest cur ss) of (l, r) \<Rightarrow> node_digest True l r)"
  by (induction ss arbitrary: cur) simp_all

lemma path_inputs_snoc:
  "path_inputs cur (ss @ [s]) = insert (node_input (step_pair s (path_digest cur ss))) (path_inputs cur ss)"
  by (induction ss arbitrary: cur) auto

lemma path_digest_hex: "is_sha256_hex_str cur \<Longrightarrow> is_sha256_hex_str (path_digest cur ss)"
  by (induction ss arbitrary: cur) (simp_all add: split_beta)

text \<open>Where a path of directions leads: the offset of its leaf among the leaves of the mountain.\<close>

fun path_index :: "mmr_step list \<Rightarrow> nat" where
  "path_index [] = 0"
| "path_index (s # ss) = (if st_direction s = PStr ''R'' then 0 else 1) + 2 * path_index ss"

lemma path_index_snoc:
  "path_index (ss @ [s]) = path_index ss + 2 ^ length ss * (if st_direction s = PStr ''R'' then 0 else 1)"
  by (induction ss) auto

lemma path_index_less: "path_index ss < 2 ^ length ss"
  by (induction ss) auto

lemma digest_eq_or_collision:
  "hex (sha256 x) = hex (sha256 y) \<Longrightarrow> x \<in> A \<Longrightarrow> y \<in> B \<Longrightarrow> x = y \<or> collision_between A B"
  by (simp add: sha256_eq_or_collision)

lemma node_digest_hex_sha: "node_digest True l r = hex (sha256 (node_input (l, r)))"
  by (simp add: node_digest_def node_input_def)

lemma leaf_digest_hex_sha: "scheme_leaf_digest True d = hex (sha256 (leaf_input d))"
  by (simp add: scheme_leaf_digest_def v2_leaf_hash_def leaf_input_def)

lemma step_pair_digest: "(case step_pair s c of (l, r) \<Rightarrow> node_digest True l r) = hex (sha256 (node_input (step_pair s c)))"
  by (cases "step_pair s c") (simp add: node_digest_hex_sha)

definition claims :: "bytes \<Rightarrow> mmr_step list \<Rightarrow> nat \<Rightarrow> bytes list \<Rightarrow> bool" where
  "claims d ss k ds \<longleftrightarrow> d \<in> set ds \<and> (length ss = k \<longrightarrow> d = ds ! path_index ss)"

lemma claims_step:
  assumes "length ds = 2 ^ Suc k"
    and "if st_direction s = PStr ''R'' then claims d ss k (take (2 ^ k) ds) else claims d ss k (drop (2 ^ k) ds)"
  shows "claims d (ss @ [s]) (Suc k) ds"
proof -
  have "path_index ss < 2 ^ k" if "length ss = k"
    using path_index_less [of ss] that by simp
  with assms show ?thesis
    by (auto simp: claims_def path_index_snoc add.commute dest: in_set_takeD in_set_dropD split: if_splits)
qed

theorem path_sound:
  assumes "path_digest (scheme_leaf_digest True d) ss = subtree_hash True k (dig ds)"
    and "list_all good_step ss" and "length ds = 2 ^ k"
  shows "claims d ss k ds
         \<or> collision_between (insert (leaf_input d) (path_inputs (scheme_leaf_digest True d) ss)) (subtree_inputs k ds)"
  using assms
proof (induction ss arbitrary: k ds rule: rev_induct)
  case Nil
  show ?case
  proof (cases k)
    case 0
    with Nil obtain x where ds: "ds = [x]" by (auto simp: length_Suc_conv)
    with Nil.prems(1) 0 show ?thesis
      using digest_eq_or_collision [of "leaf_input d" "leaf_input x" "{leaf_input d}" "{leaf_input x}"]
      by (auto simp: leaf_digest_hex_sha claims_def)
  next
    case (Suc n)
    with Nil.prems(1) have "sha256 (leaf_input d) = sha256 (node_input
        (subtree_hash True n (dig (take (2 ^ n) ds)), subtree_hash True n (dig (drop (2 ^ n) ds))))"
      by (simp add: leaf_digest_hex_sha [of d] node_digest_hex_sha take_map drop_map)
    then have "collision_between {leaf_input d} {node_input
        (subtree_hash True n (dig (take (2 ^ n) ds)), subtree_hash True n (dig (drop (2 ^ n) ds)))}"
      by (simp add: collision_betweenI)
    then show ?thesis
      by (intro disjI2) (erule collision_between_mono, auto simp: Suc)
  qed
next
  case (snoc s ss)
  let ?c = "path_digest (scheme_leaf_digest True d) ss"
  note eq = snoc.prems(1) [unfolded path_digest_snoc step_pair_digest]
  show ?case
  proof (cases k)
    case 0
    with snoc.prems obtain x where ds: "ds = [x]" by (auto simp: length_Suc_conv)
    have "sha256 (node_input (step_pair s ?c)) = sha256 (leaf_input x)"
      using eq ds 0 by (simp add: leaf_digest_hex_sha [of x])
    then have "collision_between {node_input (step_pair s ?c)} {leaf_input x}"
      by (simp add: collision_betweenI)
    then show ?thesis
      by (intro disjI2) (erule collision_between_mono, auto simp: ds 0 path_inputs_snoc)
  next
    case (Suc n)
    let ?L = "subtree_hash True n (dig (take (2 ^ n) ds))" and ?R = "subtree_hash True n (dig (drop (2 ^ n) ds))"
    have len: "length (take (2 ^ n) ds) = 2 ^ n" "length (drop (2 ^ n) ds) = 2 ^ n"
      using snoc.prems(3) Suc by simp_all
    have dighex: "list_all is_sha256_hex_str (dig xs)" for xs
      by (simp add: list_all_iff)
    have hex: "is_sha256_hex_str ?c" "is_sha256_hex_str (step_sibling s)"
      "is_sha256_hex_str ?L" "is_sha256_hex_str ?R"
      using snoc.prems(2) len subtree_hash_hex [OF dighex] by (simp_all add: path_digest_hex good_step_def)
    have "hex (sha256 (node_input (step_pair s ?c))) = hex (sha256 (node_input (?L, ?R)))"
      using eq Suc by (simp add: node_digest_hex_sha take_map drop_map)
    then consider "node_input (step_pair s ?c) = node_input (?L, ?R)"
      | "collision_between {node_input (step_pair s ?c)} {node_input (?L, ?R)}"
      using digest_eq_or_collision by blast
    then show ?thesis
    proof cases
      case 1
      then have "if st_direction s = PStr ''R'' then ?c = ?L else ?c = ?R"
        using node_input_inj [OF hex(1,2,3,4)] node_input_inj [OF hex(2,1,3,4)]
        by (simp add: step_pair_def split: if_splits)
      moreover define half where "half = (if st_direction s = PStr ''R'' then take (2 ^ n) ds else drop (2 ^ n) ds)"
      ultimately have "?c = subtree_hash True n (dig half)" and "length half = 2 ^ n"
        and sub: "subtree_inputs n half \<subseteq> subtree_inputs k ds"
        using len by (simp_all add: Suc half_def le_supI1 le_supI2 subset_insertI2)
      with snoc.IH [of n half] snoc.prems(2)
      consider "claims d ss n half"
        | "collision_between (insert (leaf_input d) (path_inputs (scheme_leaf_digest True d) ss)) (subtree_inputs n half)"
        by (simp only: list_all_append) blast
      then show ?thesis
      proof cases
        case 1
        then show ?thesis
          using claims_step [of ds n s d ss] snoc.prems(3) by (simp add: Suc half_def split: if_splits)
      next
        case 2
        then show ?thesis
          using sub by (intro disjI2) (erule collision_between_mono, auto simp: path_inputs_snoc)
      qed
    next
      case 2
      then show ?thesis
        by (intro disjI2) (erule collision_between_mono, auto simp: Suc path_inputs_snoc)
    qed
  qed
qed

subsection \<open>The verifier\<close>

lemma check_path_accepts:
  assumes "check_path True J lev ss cur = Inr (Some c)" and "is_sha256_hex_str cur"
  shows "c = path_digest cur ss \<and> list_all good_step ss \<and> J div 2 ^ lev mod 2 ^ length ss = path_index ss"
  using assms
proof (induction ss arbitrary: lev cur)
  case (Cons s ss)
  let ?n = "case step_pair s cur of (l, r) \<Rightarrow> node_digest True l r"
  from Cons.prems(1) have sib: "is_sha256_hex (st_sibling_hash s)"
    and dir: "st_direction s = PStr (if even (J div 2 ^ lev) then ''R'' else ''L'')"
    by (auto simp: Let_def split: if_splits)
  from sib have hex: "is_sha256_hex_str (step_sibling s)"
    by (auto simp: step_sibling_def dest: is_sha256_hexD)
  then have "check_path True J (Suc lev) ss ?n = Inr (Some c)"
    using Cons.prems dir
    by (auto simp: Let_def combine_hash_ok step_pair_def step_sibling_def [symmetric] split: if_splits)
  from Cons.IH [OF this] have IH: "c = path_digest ?n ss" "list_all good_step ss"
      "J div 2 ^ Suc lev mod 2 ^ length ss = path_index ss"
    by (simp_all add: split_beta)
  define a where "a = J div 2 ^ lev"
  have "a mod (2 * 2 ^ length ss) = 2 * (a div 2 mod 2 ^ length ss) + a mod 2"
    by (rule mod_mult2_eq)
  moreover have "a div 2 = J div 2 ^ Suc lev"
    unfolding a_def by (simp only: div_mult2_eq [symmetric] power_Suc mult.commute)
  moreover have "a mod 2 = (if st_direction s = PStr ''R'' then 0 else 1)"
    using dir by (simp add: a_def even_iff_mod_2_eq_zero odd_iff_mod_2_eq_one)
  ultimately have "a mod 2 ^ length (s # ss) = path_index (s # ss)"
    using IH(3) by simp
  moreover have "good_step s"
    using hex by (simp add: good_step_def)
  ultimately show ?case
    using IH(1,2) by (simp add: a_def)
qed simp

lemma peaks_sound:
  assumes "length ds = mountain_leaves hs" and "k < length hs"
  shows "\<exists>pre xs post. ds = pre @ xs @ post \<and> length pre = mountain_leaves (take k hs)
           \<and> length xs = 2 ^ (hs ! k) \<and> spec_peaks True hs (dig ds) ! k = subtree_hash True (hs ! k) (dig xs)
           \<and> subtree_inputs (hs ! k) xs \<subseteq> peaks_inputs hs ds"
  using assms
proof (induction hs arbitrary: ds k)
  case (Cons h hs)
  show ?case
  proof (cases k)
    case 0
    with Cons.prems show ?thesis
      by (intro exI [of _ "[]"] exI [of _ "take (2 ^ h) ds"] exI [of _ "drop (2 ^ h) ds"])
        (simp add: take_map)
  next
    case (Suc n)
    with Cons.prems Cons.IH [of "drop (2 ^ h) ds" n] obtain pre xs post where
      "drop (2 ^ h) ds = pre @ xs @ post" "length pre = mountain_leaves (take n hs)"
      "length xs = 2 ^ (hs ! n)" "spec_peaks True hs (dig (drop (2 ^ h) ds)) ! n = subtree_hash True (hs ! n) (dig xs)"
      "subtree_inputs (hs ! n) xs \<subseteq> peaks_inputs hs (drop (2 ^ h) ds)"
      by auto
    moreover from this have "ds = (take (2 ^ h) ds @ pre) @ xs @ post"
      using append_take_drop_id [of "2 ^ h" ds] by simp
    moreover have "length (take (2 ^ h) ds @ pre) = mountain_leaves (take k (h # hs))"
      using Suc Cons.prems(1) calculation by simp
    ultimately show ?thesis
      using Suc
      by (intro exI [of _ "take (2 ^ h) ds @ pre"] exI [of _ xs] exI [of _ post])
        (simp add: drop_map le_supI2)
  qed
qed simp

lemma spec_peaks_hex:
  "list_all is_sha256_hex_str ls \<Longrightarrow> length ls = mountain_leaves hs
     \<Longrightarrow> list_all is_sha256_hex_str (spec_peaks v2 hs ls)"
proof (induction hs arbitrary: ls)
  case (Cons h hs)
  then have "list_all is_sha256_hex_str (take (2 ^ h) ls)" "list_all is_sha256_hex_str (drop (2 ^ h) ls)"
    by (auto simp: list_all_iff dest: in_set_takeD in_set_dropD)
  with Cons subtree_hash_hex [of "take (2 ^ h) ls" h v2] show ?case by simp
qed simp

lemma length_spec_peaks [simp]: "length (spec_peaks v2 hs ls) = length hs"
  by (induction hs arbitrary: ls) simp_all

lemma root_input_inj:
  assumes "list_all is_sha256_hex_str xs" and "list_all is_sha256_hex_str ys" and "root_input xs = root_input ys"
  shows "xs = ys"
proof -
  have len: "length (concat (map unhex zs)) = 32 * length zs" if "list_all is_sha256_hex_str zs" for zs
    using that by (induction zs) (simp_all add: unhex_length)
  have eq: "concat (map unhex xs) = concat (map unhex ys)"
    using assms(3) by (simp add: root_input_def)
  have "length xs = length ys"
    using len [OF assms(1)] len [OF assms(2)] eq by simp
  moreover from this have "map unhex xs = map unhex ys"
    using assms(1,2) eq
    by (intro concat_same_length_inj [of _ _ 32]) (auto simp: list_all_iff unhex_length)
  moreover have "inj_on unhex (set xs \<union> set ys)"
    using assms(1,2) by (intro inj_onI) (auto simp: list_all_iff unhex_inj)
  ultimately show ?thesis
    by (blast intro: map_inj_on)
qed

lemma pk_hash_str_of: "pk_hash p = PStr c \<Longrightarrow> pk_hash_str p = c"
  by (simp add: pk_hash_str_def)

lemma peak_hashes_hex:
  "list_all (\<lambda>q. is_sha256_hex (pk_hash q)) ps \<Longrightarrow> list_all is_sha256_hex_str (map pk_hash_str ps)"
  by (auto simp: list_all_iff pk_hash_str_def dest!: is_sha256_hexD)

lemma mountain_leaves_take_nth:
  "k < length hs \<Longrightarrow> mountain_leaves (take k hs) + 2 ^ (hs ! k) \<le> mountain_leaves hs"
proof (induction hs arbitrary: k)
  case (Cons h hs)
  then show ?case by (cases k) auto
qed simp

lemma verify_body_sound:
  assumes acc: "verify_body True (scheme_leaf_digest True d) index count pidx p
                  (spec_root True (dig ds)) = Inr True" and ne: "ds \<noteq> []"
  shows "d \<in> set ds \<and> (count = length ds \<longrightarrow> d = ds ! index)
         \<or> collision_between (verifier_inputs d p) (tree_inputs ds)"
proof -
  let ?hs = "expected_heights (length ds)" and ?k = "nat pidx" and ?cur = "scheme_leaf_digest True d"
  let ?start = "peak_start count ?k"
  let ?sp = "spec_peaks True ?hs (dig ds)" and ?ps = "map pk_hash_str (pr_peaks p)"
  from acc [unfolded verify_body_True] obtain c where
    hm: "heights_match (pr_peaks p) (expected_heights count)"
    and hexs: "list_all is_sha256_hex_str ?ps" and k: "?k < length ?ps"
    and range: "?start \<le> index" "index < ?start + 2 ^ (expected_heights count ! ?k)"
    and len: "length (pr_path p) = expected_heights count ! ?k"
    and path: "check_path True (index - ?start) 0 (pr_path p) ?cur = Inr (Some c)" and c: "?ps ! ?k = c"
    and bag: "bag_hashes True ?ps = Inr (spec_root True (dig ds))"
    by (auto simp: peak_hashes_hex pk_hash_str_of)
  have ml: "length ds = mountain_leaves ?hs"
    by (simp add: mountain_leaves_expected_heights)
  have hexs': "list_all is_sha256_hex_str ?sp"
    by (rule spec_peaks_hex) (simp_all add: list_all_iff mountain_leaves_expected_heights)
  have "hex (sha256 (root_input ?ps)) = hex (sha256 (root_input ?sp))"
    using bag ne by (simp add: bag_hashes_ok [OF hexs] spec_root_def bag_digest_def root_input_def)
  then consider "root_input ?ps = root_input ?sp" | "collision_between {root_input ?ps} {root_input ?sp}"
    using digest_eq_or_collision by blast
  then show ?thesis
  proof cases
    case 1
    then have ps: "?ps = ?sp"
      using hexs hexs' by (intro root_input_inj)
    with k have k': "?k < length ?hs"
      by (metis length_spec_peaks)
    from peaks_sound [OF ml k'] obtain pre xs post where
      ds: "ds = pre @ xs @ post" and pre: "length pre = mountain_leaves (take ?k ?hs)"
      and xs: "length xs = 2 ^ (?hs ! ?k)" and peak: "?sp ! ?k = subtree_hash True (?hs ! ?k) (dig xs)"
      and sub: "subtree_inputs (?hs ! ?k) xs \<subseteq> peaks_inputs ?hs ds"
      by blast
    from check_path_accepts [OF path] have dig: "path_digest ?cur (pr_path p) = subtree_hash True (?hs ! ?k) (dig xs)"
      and good: "list_all good_step (pr_path p)"
      and idx: "(index - ?start) mod 2 ^ length (pr_path p) = path_index (pr_path p)"
      using c ps peak by auto
    from path_sound [OF dig good xs] show ?thesis
    proof
      assume cl: "claims d (pr_path p) (?hs ! ?k) xs"
      have "d = ds ! index" if "count = length ds"
      proof -
        have "d = xs ! path_index (pr_path p)" and lt: "path_index (pr_path p) < length xs"
          using cl len that xs path_index_less [of "pr_path p"] by (simp_all add: claims_def)
        moreover have "index = length pre + path_index (pr_path p)"
          using idx range len that pre by (simp add: peak_start_def)
        ultimately show ?thesis
          using ds by (simp add: nth_append)
      qed
      with cl ds show ?thesis by (auto simp: claims_def)
    next
      assume "collision_between (insert (leaf_input d) (path_inputs ?cur (pr_path p))) (subtree_inputs (?hs ! ?k) xs)"
      then show ?thesis
        using sub by (intro disjI2) (erule collision_between_mono, auto simp: verifier_inputs_def tree_inputs_def)
    qed
  next
    case 2
    then show ?thesis
      by (intro disjI2) (erule collision_between_mono, auto simp: verifier_inputs_def tree_inputs_def)
  qed
qed

text \<open>
  C26. Soundness of the domain-separated scheme, for any proof object whatever. Let the
  trusted root be the root of an accumulator that holds the payloads \<open>ds\<close>. If the portable
  verifier accepts the payload \<open>d\<close> with a v2 proof, then \<open>d\<close> is one of the payloads, and it
  is the one at the claimed index if the proof claims the true leaf count; or two different
  byte strings, one hashed by this verification and one by the accumulator, have the same
  SHA-256 digest.
\<close>

theorem inclusion_sound:
  assumes acc: "verify_portable_inclusion d p rt = Inr True"
    and v2: "pr_version p = PStr MMR_PROOF_VERSION_V2"
    and rt: "normalise_root rt = Some (spec_root True (dig ds))" and ne: "ds \<noteq> []"
  shows "d \<in> set ds \<and> (\<forall>i. pr_leaf_count p = PInt (int (length ds)) \<and> pr_leaf_index p = PInt (int i)
                            \<longrightarrow> d = ds ! i)
         \<or> collision_between (verifier_inputs d p) (tree_inputs ds)"
proof -
  from acc v2 rt obtain index count pidx where
    "pr_leaf_index p = PInt index" "pr_leaf_count p = PInt count" "0 \<le> index" "1 \<le> count"
    and "verify_body True (scheme_leaf_digest True d) (nat index) (nat count) pidx p (spec_root True (dig ds)) = Inr True"
    by (auto simp: verify_portable_inclusion_def verify_portable_inclusion_hash_def proof_scheme_def
        split: option.splits if_splits)
  with verify_body_sound [OF _ ne, of d "nat index" "nat count" pidx p] show ?thesis
    by auto
qed

lemma portable_proof_version:
  "get_portable_inclusion_proof m i = Some (Inr p) \<Longrightarrow> is_v2 m \<Longrightarrow> pr_version p = PStr MMR_PROOF_VERSION_V2"
  by (auto simp: get_portable_inclusion_proof_def bind_res_eq_Inr mk_proof_def Let_def
      split: sum.splits option.splits)

theorem inclusion_sound_witness:
  "\<exists>p rt. verify_portable_inclusion [8] p rt = Inr True \<and> pr_version p = PStr MMR_PROOF_VERSION_V2
     \<and> normalise_root rt = Some (spec_root True (dig [[7], [8], [9]]))
     \<and> (([8] :: bytes) \<in> set [[7], [8], [9]]
          \<and> (\<forall>i. pr_leaf_count p = PInt 3 \<and> pr_leaf_index p = PInt (int i) \<longrightarrow> [8] = [[7], [8], [9 :: byte]] ! i)
        \<or> collision_between (verifier_inputs [8] p) (tree_inputs [[7], [8], [9]]))"
proof -
  obtain e where e: "mmr_init 0 HASH_SCHEME_V2 = Inr e" and z: "leaf_count e = 0" "is_v2 e"
    by (simp add: mmr_init_def is_v2_def)
  from add_leaves_holds [OF holds_init [OF e], of "[[7], [8], [9]]"] z(2) obtain m where
    m: "add_leaves e [[7], [8], [9]] = Inr m" "frame e m" and h: "holds m (dig [[7], [8], [9]])"
    by (metis append_Nil)
  have v: "is_v2 m"
    using frame_is_v2 [OF m(2)] z(2) by simp
  from issued_proofs_verify [OF holds_mmr_inv [OF holds_init [OF e]] m(1), of 1] z(1) holds_root [OF h] v
  obtain p where p: "get_portable_inclusion_proof m 1 = Some (Inr p)"
    "verify_portable_inclusion [8] p (spec_root True (dig [[7], [8], [9]])) = Inr True"
    by auto
  have rt: "normalise_root (spec_root True (dig [[7], [8], [9]])) = Some (spec_root True (dig [[7], [8], [9]]))"
    by (simp add: normalise_root_def spec_root_def)
  from inclusion_sound [OF p(2) portable_proof_version [OF p(1) v] rt] p(2) portable_proof_version [OF p(1) v] rt
  show ?thesis by auto
qed

subsection \<open>What acceptance does not establish\<close>

lemma expected_heights_small:
  "expected_heights (Suc 0) = [0]" "expected_heights (Suc (Suc 0)) = [1]"
  "expected_heights (Suc (Suc (Suc 0))) = [1, 0]" "expected_heights 5 = [2, 0]"
  using expected_heights_unique [of "[0]"] expected_heights_unique [of "[1]"]
    expected_heights_unique [of "[1, 0]"] expected_heights_unique [of "[2, 0]"]
  by (simp_all add: numeral_eq_Suc)

lemma spec_root_hex [simp]: "is_sha256_hex_str (spec_root v2 ls)"
  by (simp add: spec_root_def)

text \<open>
  The claimed leaf count and index are not bound by the trusted root: for any three
  payloads, the third one is accepted, under the true root of the three-leaf accumulator,
  with a proof that says it is leaf 4 of 5.
\<close>

theorem leaf_count_not_bound:
  "\<exists>p. pr_leaf_count p = PInt 5 \<and> pr_leaf_index p = PInt 4
     \<and> verify_portable_inclusion c p (spec_root True (dig [a, b, c])) = Inr True"
proof -
  let ?h = "scheme_leaf_digest True" and ?rt = "spec_root True (dig [a, b, c])"
  let ?n = "node_digest True (?h a) (?h b)"
  let ?p = "\<lparr>pr_version = PStr MMR_PROOF_VERSION_V2, pr_algorithm = PStr MMR_ALGORITHM_V2,
      pr_leaf_index = PInt 4, pr_leaf_count = PInt 5, pr_peak_index = PInt 1, pr_path = [],
      pr_peaks = [\<lparr>pk_height = PInt 2, pk_hash = PStr ?n\<rparr>, \<lparr>pk_height = PInt 0, pk_hash = PStr (?h c)\<rparr>],
      pr_root = PStr ?rt\<rparr>"
  have rt: "?rt = bag_digest True [?n, ?h c]"
    by (simp add: spec_root_def expected_heights_small)
  have "verify_body True (?h c) 4 5 1 ?p ?rt = Inr True"
    unfolding verify_body_True rt
    by (simp add: expected_heights_small heights_match_def peak_start_def pk_hash_str_def
        bag_hashes_ok)
  then have "verify_portable_inclusion c ?p ?rt = Inr True"
    by (simp add: verify_portable_inclusion_def verify_portable_inclusion_hash_def proof_scheme_def
        normalise_root_def)
  then show ?thesis
    by (intro exI [of _ ?p]) simp
qed

text \<open>
  Under the legacy scheme an interior node passes for a leaf: the 128-byte payload made
  of the two hex digests of a two-leaf accumulator is accepted under its root, whatever
  the two payloads.
\<close>

theorem v1_interior_node_as_leaf:
  "length (encode (hexdigest a @ hexdigest b)) = 128
   \<and> (\<exists>p. pr_version p = PStr MMR_PROOF_VERSION_V1
        \<and> verify_portable_inclusion (encode (hexdigest a @ hexdigest b)) p
            (spec_root False [hexdigest a, hexdigest b]) = Inr True)"
proof -
  let ?d = "encode (hexdigest a @ hexdigest b)" and ?rt = "spec_root False [hexdigest a, hexdigest b]"
  let ?n = "hexdigest ?d"
  let ?p = "\<lparr>pr_version = PStr MMR_PROOF_VERSION_V1, pr_algorithm = PStr MMR_ALGORITHM_V1,
      pr_leaf_index = PInt 0, pr_leaf_count = PInt 1, pr_peak_index = PInt 0, pr_path = [],
      pr_peaks = [\<lparr>pk_height = PInt 0, pk_hash = PStr ?n\<rparr>], pr_root = PStr ?rt\<rparr>"
  have rt: "?rt = bag_digest False [?n]"
    by (simp add: spec_root_def expected_heights_small node_digest_def)
  have "verify_body False ?n 0 1 0 ?p ?rt = Inr True"
    unfolding verify_body_True
    by (simp add: expected_heights_small heights_match_def peak_start_def pk_hash_str_def
        bag_hashes_ok rt)
  then have "verify_portable_inclusion ?d ?p ?rt = Inr True"
    by (simp add: verify_portable_inclusion_def verify_portable_inclusion_hash_def proof_scheme_def
        normalise_root_def rt scheme_leaf_digest_def MMR_PROOF_VERSION_V1_def MMR_PROOF_VERSION_V2_def)
  moreover have "length ?d = 128"
    by (simp add: hexdigest_def)
  ultimately show ?thesis
    by (intro conjI exI [of _ ?p]) simp_all
qed

end
