(* ===== verification/Mmr_Json.thy ===== *)
theory Mmr_Json
  imports Mmr_Sound
begin

section \<open>The wire form of an inclusion proof\<close>

text \<open>
  \<open>MMRInclusionProofV1.to_dict\<close> and \<open>from_dict\<close> of \<^verbatim>\<open>aegis/core/mmr.py\<close>, on the
  documents JSON can carry, and the round trip between them. Hostile documents are
  modelled too: \<open>from_dict\<close> may meet any value where it expects a list of objects.
\<close>

subsection \<open>Reading a document\<close>

fun py_iter :: "pyval \<Rightarrow> pyval list res" where
  "py_iter (PList xs) = Inr xs"
| "py_iter (PStr s) = Inr (map (\<lambda>c. PStr [c]) s)"
| "py_iter (PDict kvs) = Inr (map (PStr \<circ> fst) kvs)"
| "py_iter _ = Inl (TypeError ''object is not iterable'')"

fun py_item :: "string \<Rightarrow> pyval \<Rightarrow> pyval res" where
  "py_item k (PDict kvs) = (case map_of kvs k of None \<Rightarrow> Inl (KeyError k) | Some v \<Rightarrow> Inr v)"
| "py_item k _ = Inl (TypeError ''indices must be integers'')"

definition required_fields :: "string list" where
  "required_fields = [''version'', ''algorithm'', ''leaf_index'', ''leaf_count'', ''peak_index'',
     ''path'', ''peaks'', ''root'']"

definition field_of :: "(string \<times> pyval) list \<Rightarrow> string \<Rightarrow> pyval" where
  "field_of doc k = (case map_of doc k of None \<Rightarrow> PNone | Some v \<Rightarrow> v)"

definition read_step :: "(pyval \<Rightarrow> string res) \<Rightarrow> pyval \<Rightarrow> mmr_step res" where
  "read_step decode item =
     bind_res (py_item ''sibling_hash'' item) (\<lambda>s. bind_res (decode s) (\<lambda>h.
       bind_res (py_item ''direction'' item) (\<lambda>d.
         Inr \<lparr>st_sibling_hash = PStr h, st_direction = d\<rparr>)))"

definition read_peak :: "(pyval \<Rightarrow> string res) \<Rightarrow> pyval \<Rightarrow> mmr_peak res" where
  "read_peak decode item =
     bind_res (py_item ''height'' item) (\<lambda>k. bind_res (py_item ''hash'' item) (\<lambda>s.
       bind_res (decode s) (\<lambda>h. Inr \<lparr>pk_height = k, pk_hash = PStr h\<rparr>)))"

definition from_dict :: "(string \<times> pyval) list \<Rightarrow> mmr_proof res" where
  "from_dict doc =
     (if set (map fst doc) \<noteq> set required_fields
      then Inl (ValueError ''MMR proof fields do not match the proof schema'')
      else if list_ex (\<lambda>k. as_int (field_of doc k) = None) [''leaf_index'', ''leaf_count'', ''peak_index'']
      then Inl (ValueError ''MMR proof field must be an integer'')
      else
        let decode = (if field_of doc ''version'' = PStr MMR_PROOF_VERSION_V2 then b64u_to_hex else identity_hex)
        in bind_res (bind_res (py_iter (field_of doc ''path'')) (map_res (read_step decode))) (\<lambda>path.
             bind_res (bind_res (py_iter (field_of doc ''peaks'')) (map_res (read_peak decode))) (\<lambda>ps.
               bind_res (decode (field_of doc ''root'')) (\<lambda>rt.
                 Inr \<lparr>pr_version = field_of doc ''version'', pr_algorithm = field_of doc ''algorithm'',
                      pr_leaf_index = field_of doc ''leaf_index'', pr_leaf_count = field_of doc ''leaf_count'',
                      pr_peak_index = field_of doc ''peak_index'', pr_path = path, pr_peaks = ps,
                      pr_root = PStr rt\<rparr>))))"

subsection \<open>Writing a document\<close>

text \<open>\<open>_hex_to_b64u\<close> applied to a field of the proof: \<open>bytes.fromhex\<close> wants a string.\<close>

definition b64u_field :: "pyval \<Rightarrow> pyval res" where
  "b64u_field v =
     (case as_str v of
        None \<Rightarrow> Inl (TypeError ''fromhex() argument must be str'')
      | Some s \<Rightarrow> bind_res (hex_to_b64u s) (\<lambda>b. Inr (PStr b)))"

definition write_step :: "(pyval \<Rightarrow> pyval res) \<Rightarrow> mmr_step \<Rightarrow> pyval res" where
  "write_step enc s =
     bind_res (enc (st_sibling_hash s)) (\<lambda>h.
       Inr (PDict [(''sibling_hash'', h), (''direction'', st_direction s)]))"

definition write_peak :: "(pyval \<Rightarrow> pyval res) \<Rightarrow> mmr_peak \<Rightarrow> pyval res" where
  "write_peak enc p =
     bind_res (enc (pk_hash p)) (\<lambda>h. Inr (PDict [(''height'', pk_height p), (''hash'', h)]))"

definition to_dict :: "mmr_proof \<Rightarrow> (string \<times> pyval) list res" where
  "to_dict p =
     (let enc = (if pr_version p \<noteq> PStr MMR_PROOF_VERSION_V2 then Inr else b64u_field) in
      bind_res (enc (pr_root p)) (\<lambda>rt.
        bind_res (map_res (write_step enc) (pr_path p)) (\<lambda>path.
          bind_res (map_res (write_peak enc) (pr_peaks p)) (\<lambda>ps.
            Inr [(''version'', pr_version p), (''algorithm'', pr_algorithm p),
                 (''leaf_index'', pr_leaf_index p), (''leaf_count'', pr_leaf_count p),
                 (''peak_index'', pr_peak_index p), (''path'', PList path), (''peaks'', PList ps),
                 (''root'', rt)]))))"

subsection \<open>The round trip\<close>

text \<open>A proof whose integers are integers and whose digests are digests.\<close>

definition well_typed :: "mmr_proof \<Rightarrow> bool" where
  "well_typed p \<longleftrightarrow>
     list_all (\<lambda>v. as_int v \<noteq> None) [pr_leaf_index p, pr_leaf_count p, pr_peak_index p]
     \<and> list_all (\<lambda>s. is_sha256_hex (st_sibling_hash s)) (pr_path p)
     \<and> list_all (\<lambda>q. is_sha256_hex (pk_hash q)) (pr_peaks p) \<and> is_sha256_hex (pr_root p)"

definition wire_encode :: "bool \<Rightarrow> pyval \<Rightarrow> pyval res" where
  "wire_encode v2 = (if v2 then b64u_field else Inr)"

definition wire_decode :: "bool \<Rightarrow> pyval \<Rightarrow> string res" where
  "wire_decode v2 = (if v2 then b64u_to_hex else identity_hex)"

lemma wire_roundtrip:
  assumes "is_sha256_hex v"
  shows "\<exists>w s. v = PStr s \<and> wire_encode v2 v = Inr w \<and> wire_decode v2 w = Inr s"
proof -
  from assms obtain s where s: "v = PStr s" "is_sha256_hex_str s"
    using is_sha256_hexD by blast
  show ?thesis
  proof (cases v2)
    case True
    from b64u_roundtrip [OF s(2)] obtain b where "hex_to_b64u s = Inr b" "b64u_to_hex (PStr b) = Inr s"
      by blast
    then show ?thesis
      using True s(1) by (simp add: wire_encode_def wire_decode_def b64u_field_def)
  qed (simp add: wire_encode_def wire_decode_def identity_hex_def s(1))
qed

lemma step_roundtrip:
  assumes "is_sha256_hex (st_sibling_hash s)"
  shows "\<exists>w. write_step (wire_encode v2) s = Inr w \<and> read_step (wire_decode v2) w = Inr s"
  using wire_roundtrip [OF assms, of v2] by (cases s) (auto simp: write_step_def read_step_def)

lemma peak_roundtrip:
  assumes "is_sha256_hex (pk_hash p)"
  shows "\<exists>w. write_peak (wire_encode v2) p = Inr w \<and> read_peak (wire_decode v2) w = Inr p"
  using wire_roundtrip [OF assms, of v2] by (cases p) (auto simp: write_peak_def read_peak_def)

lemma map_res_roundtrip:
  "(\<And>x. x \<in> set xs \<Longrightarrow> \<exists>w. f x = Inr w \<and> g w = Inr x) \<Longrightarrow> \<exists>ws. map_res f xs = Inr ws \<and> map_res g ws = Inr xs"
proof (induction xs)
  case (Cons x xs)
  from Cons.prems [of x] obtain w where "f x = Inr w" "g w = Inr x" by auto
  moreover from Cons obtain ws where "map_res f xs = Inr ws" "map_res g ws = Inr xs" by auto
  ultimately show ?case by (intro exI [of _ "w # ws"]) simp
qed simp

lemma document_roundtrip:
  assumes "well_typed p"
  shows "\<exists>doc. to_dict p = Inr doc \<and> from_dict doc = Inr p"
proof -
  let ?v2 = "pr_version p = PStr MMR_PROOF_VERSION_V2"
  from map_res_roundtrip [of "pr_path p" "write_step (wire_encode ?v2)" "read_step (wire_decode ?v2)"]
    step_roundtrip assms
  obtain path where path: "map_res (write_step (wire_encode ?v2)) (pr_path p) = Inr path"
    "map_res (read_step (wire_decode ?v2)) path = Inr (pr_path p)"
    by (auto simp: well_typed_def list_all_iff)
  from map_res_roundtrip [of "pr_peaks p" "write_peak (wire_encode ?v2)" "read_peak (wire_decode ?v2)"]
    peak_roundtrip assms
  obtain ps where ps: "map_res (write_peak (wire_encode ?v2)) (pr_peaks p) = Inr ps"
    "map_res (read_peak (wire_decode ?v2)) ps = Inr (pr_peaks p)"
    by (auto simp: well_typed_def list_all_iff)
  from wire_roundtrip [of "pr_root p" ?v2] assms obtain w s where
    rt: "pr_root p = PStr s" "wire_encode ?v2 (pr_root p) = Inr w" "wire_decode ?v2 w = Inr s"
    by (auto simp: well_typed_def)
  have enc: "(if pr_version p \<noteq> PStr MMR_PROOF_VERSION_V2 then Inr else b64u_field) = wire_encode ?v2"
    and dec: "(if pr_version p = PStr MMR_PROOF_VERSION_V2 then b64u_to_hex else identity_hex) = wire_decode ?v2"
    by (simp_all add: wire_encode_def wire_decode_def)
  let ?doc = "[(''version'', pr_version p), (''algorithm'', pr_algorithm p),
      (''leaf_index'', pr_leaf_index p), (''leaf_count'', pr_leaf_count p),
      (''peak_index'', pr_peak_index p), (''path'', PList path), (''peaks'', PList ps), (''root'', w)]"
  have "to_dict p = Inr ?doc"
    unfolding to_dict_def Let_def enc by (simp add: path ps rt(2))
  moreover have fields: "set (map fst ?doc) = set required_fields"
    by (simp add: required_fields_def)
  moreover have "field_of ?doc ''version'' = pr_version p" "field_of ?doc ''algorithm'' = pr_algorithm p"
    "field_of ?doc ''leaf_index'' = pr_leaf_index p" "field_of ?doc ''leaf_count'' = pr_leaf_count p"
    "field_of ?doc ''peak_index'' = pr_peak_index p" "field_of ?doc ''path'' = PList path"
    "field_of ?doc ''peaks'' = PList ps" "field_of ?doc ''root'' = w"
    by (simp_all add: field_of_def)
  then have "from_dict ?doc = Inr p"
    using assms rt path ps fields
    by (simp only: from_dict_def Let_def dec) (simp add: well_typed_def)
  ultimately show ?thesis by blast
qed

text \<open>
  The wire form loses nothing: a proof with well-typed fields, in either version, is
  written without error, and reading the document back gives the same proof.
\<close>

theorem proof_document_roundtrip:
  assumes "well_typed p"
  shows "\<exists>doc. to_dict p = Inr doc \<and> from_dict doc = Inr p"
  using assms by (rule document_roundtrip)

theorem proof_document_roundtrip_witness:
  "\<exists>doc. to_dict (mk_proof True 0 1 0 [mk_step (zero_root, ''R'')] [] zero_root) = Inr doc
     \<and> from_dict doc = Inr (mk_proof True 0 1 0 [mk_step (zero_root, ''R'')] [] zero_root)"
  using proof_document_roundtrip [of "mk_proof True 0 1 0 [mk_step (zero_root, ''R'')] [] zero_root"]
  by (simp add: well_typed_def mk_proof_def mk_step_def)

subsection \<open>A document that makes the verifier raise\<close>

definition hostile_document :: "string \<Rightarrow> (string \<times> pyval) list" where
  "hostile_document h =
     [(''version'', PStr MMR_PROOF_VERSION_V1), (''algorithm'', PStr MMR_ALGORITHM_V1),
      (''leaf_index'', PInt 0), (''leaf_count'', PInt 2), (''peak_index'', PInt 0),
      (''path'', PList [PDict [(''sibling_hash'', PStr h), (''direction'', PList [])]]),
      (''peaks'', PList [PDict [(''height'', PInt 1), (''hash'', PStr h)]]), (''root'', PStr h)]"

text \<open>
  The verifier is meant to return a truth value for every proof document, and does not:
  a document whose path step carries a list as its direction passes \<open>from_dict\<close>, and the
  verifier then raises \<open>TypeError\<close> for every leaf digest.
\<close>

theorem verifier_raises_on_list_direction:
  assumes "is_sha256_hex_str h"
  shows "\<exists>p. from_dict (hostile_document h) = Inr p
           \<and> verify_portable_inclusion d p h = Inl (TypeError ''unhashable type'')"
proof -
  let ?p = "\<lparr>pr_version = PStr MMR_PROOF_VERSION_V1, pr_algorithm = PStr MMR_ALGORITHM_V1,
      pr_leaf_index = PInt 0, pr_leaf_count = PInt 2, pr_peak_index = PInt 0,
      pr_path = [\<lparr>st_sibling_hash = PStr h, st_direction = PList []\<rparr>],
      pr_peaks = [\<lparr>pk_height = PInt 1, pk_hash = PStr h\<rparr>], pr_root = PStr h\<rparr>"
  have "from_dict (hostile_document h) = Inr ?p"
    by (simp add: from_dict_def hostile_document_def required_fields_def field_of_def read_step_def
        read_peak_def identity_hex_def MMR_PROOF_VERSION_V1_def MMR_PROOF_VERSION_V2_def insert_commute)
  moreover have "verify_body False x 0 2 0 ?p h = Inl (TypeError ''unhashable type'')" for x
    using assms expected_heights_small(2) length_expected_heights [of 2]
    by (simp add: verify_body_def heights_match_def numeral_2_eq_2 Let_def)
  then have "verify_portable_inclusion d ?p h = Inl (TypeError ''unhashable type'')"
    using assms
    by (simp add: verify_portable_inclusion_def verify_portable_inclusion_hash_def proof_scheme_def
        normalise_root_def MMR_PROOF_VERSION_V1_def MMR_PROOF_VERSION_V2_def)
  ultimately show ?thesis by blast
qed

theorem verifier_raises_on_list_direction_witness:
  "is_sha256_hex_str zero_root
   \<and> (\<exists>p. from_dict (hostile_document zero_root) = Inr p
        \<and> verify_portable_inclusion [1] p zero_root = Inl (TypeError ''unhashable type''))"
  using verifier_raises_on_list_direction [of zero_root "[1]"] by simp

end
