(* ===== verification/Mmr_Consistency.thy ===== *)
theory Mmr_Consistency
  imports Mmr_Verify
begin

section \<open>Consistency proofs\<close>

text \<open>
  \<open>reconstruct_peaks_at\<close> walks down from the current peaks with an explicit stack and
  \<open>get_consistency_proof\<close> accepts an old root only if it is the root of the prefix. The walk
  is shown to end within the fuel of the model and to return the peaks the accumulator had
  when it held the prefix.
\<close>

subsection \<open>The mountains of a prefix\<close>

fun ptrees :: "mtree \<Rightarrow> nat \<Rightarrow> mtree list" where
  "ptrees (MNode l r) n =
     (if n = 0 then [] else if 2 ^ Suc (ht l) \<le> n then [MNode l r]
      else if 2 ^ ht l \<le> n then l # ptrees r (n - 2 ^ ht l) else ptrees l n)"
| "ptrees t n = (if n = 0 then [] else [t])"

fun fptrees :: "mtree list \<Rightarrow> nat \<Rightarrow> mtree list" where
  "fptrees [] n = []"
| "fptrees (t # ts) n =
     (if n = 0 then [] else if 2 ^ ht t \<le> n then t # fptrees ts (n - 2 ^ ht t) else ptrees t n)"

lemma pow2_le_pos: "2 ^ k \<le> n \<Longrightarrow> 0 < (n :: nat)"
  using zero_less_power [of "2 :: nat" k] by linarith

lemma ptrees_0 [simp]: "ptrees t 0 = []"
  by (cases t) simp_all

lemma ptrees_facts:
  assumes "perfect t" and "digests_ok t" and "tpruned t = 0" and "n \<le> 2 ^ ht t"
  shows "list_all wf_tree (ptrees t n) \<and> full (ptrees t n) \<and> sorted_wrt (>) (map ht (ptrees t n))
         \<and> (\<forall>u \<in> set (ptrees t n). 2 ^ ht u \<le> n) \<and> fleaves (ptrees t n) = take n (tleaves t)"
  using assms
proof (induction t arbitrary: n)
  case (MNode l r)
  then have len: "length (tleaves l) = 2 ^ ht l" "length (tleaves r) = 2 ^ ht l" "ht r = ht l"
    using length_tleaves [of l] length_tleaves [of r] by simp_all
  consider "n = 0" | "n = 2 ^ Suc (ht l)" | "0 < n" "n < 2 ^ ht l"
    | "2 ^ ht l \<le> n" "n < 2 ^ Suc (ht l)"
    using MNode.prems(4) by fastforce
  then show ?case
  proof cases
    case 4
    let ?k = "n - 2 ^ ht l"
    from 4 have k: "?k < 2 ^ ht l" by simp
    have IH: "list_all wf_tree (ptrees r ?k) \<and> full (ptrees r ?k) \<and> sorted_wrt (>) (map ht (ptrees r ?k))
         \<and> (\<forall>u \<in> set (ptrees r ?k). 2 ^ ht u \<le> ?k) \<and> fleaves (ptrees r ?k) = take ?k (tleaves r)"
      using MNode.IH(2) [of ?k] MNode.prems len k by simp
    have "ht u < ht l" if "u \<in> set (ptrees r ?k)" for u
    proof -
      have "2 ^ ht u \<le> ?k"
        using IH that by blast
      with k have "(2 :: nat) ^ ht u < 2 ^ ht l" by linarith
      then show ?thesis by simp
    qed
    moreover have "ptrees (MNode l r) n = l # ptrees r ?k"
      using 4 by simp
    moreover have "wf_tree l"
      using MNode.prems by (simp add: wf_tree_def)
    moreover have "2 ^ ht u \<le> n" if "u \<in> set (ptrees r ?k)" for u
      using IH that by (meson diff_le_self order_trans)
    ultimately show ?thesis
      using IH 4 MNode.prems len by simp
  qed (use MNode len in \<open>auto simp: wf_tree_def\<close>)
qed (auto simp: wf_tree_def)

lemma fptrees_facts:
  assumes "list_all wf_tree ts" and "full ts" and "sorted_wrt (>) (map ht ts)" and "n \<le> length (fleaves ts)"
  shows "list_all wf_tree (fptrees ts n) \<and> full (fptrees ts n) \<and> sorted_wrt (>) (map ht (fptrees ts n))
         \<and> fleaves (fptrees ts n) = take n (fleaves ts)
         \<and> (\<forall>u \<in> set (fptrees ts n). \<forall>h. (\<forall>t \<in> set ts. ht t < h) \<longrightarrow> ht u < h)"
  using assms
proof (induction ts arbitrary: n)
  case (Cons t ts)
  then have t: "perfect t" "digests_ok t" "tpruned t = 0" and len: "length (tleaves t) = 2 ^ ht t"
    using length_tleaves [of t] by (simp_all add: wf_tree_def)
  show ?case
  proof (cases "2 ^ ht t \<le> n")
    case True
    with Cons.prems len Cons.IH [of "n - 2 ^ ht t"]
    have IH: "list_all wf_tree (fptrees ts (n - 2 ^ ht t)) \<and> full (fptrees ts (n - 2 ^ ht t))
        \<and> sorted_wrt (>) (map ht (fptrees ts (n - 2 ^ ht t)))
        \<and> fleaves (fptrees ts (n - 2 ^ ht t)) = take (n - 2 ^ ht t) (fleaves ts)
        \<and> (\<forall>u \<in> set (fptrees ts (n - 2 ^ ht t)). \<forall>h. (\<forall>t \<in> set ts. ht t < h) \<longrightarrow> ht u < h)"
      by simp
    moreover have "fptrees (t # ts) n = t # fptrees ts (n - 2 ^ ht t)"
      using True pow2_le_pos [OF True] by simp
    ultimately show ?thesis
      using True Cons.prems len by auto
  next
    case False
    have "ht u < ht t" if "u \<in> set (ptrees t n)" for u
    proof -
      have "2 ^ ht u \<le> n"
        using ptrees_facts [OF t, of n] False that by auto
      with False have "(2 :: nat) ^ ht u < 2 ^ ht t" by linarith
      then show ?thesis by simp
    qed
    then show ?thesis
      using ptrees_facts [OF t, of n] False len by (auto intro: less_trans)
  qed
qed simp

lemma fptrees_spec:
  assumes "wf_forest ts" and "full ts" and "n \<le> length (fleaves ts)"
  shows "map (thash v2) (fptrees ts n) = spec_peaks v2 (expected_heights n) (take n (fleaves ts))"
proof -
  have ts: "list_all wf_tree ts" "sorted_wrt (>) (map ht ts)"
    using assms(1) by (simp_all add: wf_forest_def)
  note f = fptrees_facts [OF ts(1) assms(2) ts(2) assms(3)]
  have "mountain_leaves (map ht (fptrees ts n)) = n"
    using length_fleaves [of "fptrees ts n"] f assms(3) by (simp add: full_def)
  then have "expected_heights n = map ht (fptrees ts n)"
    using f expected_heights_unique [of "map ht (fptrees ts n)"] by simp
  then show ?thesis
    using f spec_peaks_forest [of "fptrees ts n" v2] by simp
qed

subsection \<open>The stack walk\<close>

declare reconstruct_loop.simps(2) [simp del]

lemma reconstruct_done: "reconstruct_loop (Suc f) m 0 acc st = Some (Inr acc)"
  by (simp add: reconstruct_loop.simps(2))

lemma block_top:
  assumes "graph m (pre @ layout v2 off par t @ post)" and "off = length pre"
  shows "obj m (nodes m ! (off + nsize t - 1)) = top_node v2 off par t" and "off + nsize t - 1 < length (nodes m)"
proof -
  have "length (nodes m) = off + (nsize t + length post)"
    using graph_length [OF assms(1)] assms(2) by simp
  then show "off + nsize t - 1 < length (nodes m)"
    using nsize_pos [of t] by linarith
qed (rule graph_block_top [OF assms])

lemma reconstruct_take:
  assumes "graph m (pre @ layout v2 off par t @ post)" and "off = length pre" and "2 ^ ht t \<le> n"
  shows "reconstruct_loop (Suc f) m n acc (nodes m ! (off + nsize t - 1) # rest)
           = reconstruct_loop f m (n - 2 ^ ht t) (acc @ [thash v2 t]) rest"
proof -
  have "n \<noteq> 0" using pow2_le_pos [OF assms(3)] by simp
  then show ?thesis
    using block_top [OF assms(1,2)] assms(3) by (simp add: reconstruct_loop.simps(2) Let_def)
qed

lemma reconstruct_split:
  assumes "graph m (pre @ layout v2 off par (MNode l r) @ post)" and "off = length pre"
    and "0 < n" and "n < 2 ^ Suc (ht l)"
  shows "reconstruct_loop (Suc f) m n acc (nodes m ! (off + nsize (MNode l r) - 1) # rest)
           = reconstruct_loop f m n acc
               (nodes m ! (off + nsize l - 1) # nodes m ! (off + nsize l + nsize r - 1) # rest)"
proof -
  note b = block_top [OF assms(1,2)]
  have lt: "off + nsize l - 1 < length (nodes m)" "off + nsize l + nsize r - 1 < length (nodes m)"
    using b(2) nsize_pos [of r] by simp_all
  have "\<not> 2 ^ ht (MNode l r) \<le> n" using assms(4) by simp
  then show ?thesis
    using b lt assms(3) by (simp add: reconstruct_loop.simps(2) Let_def nth_res_def)
qed

lemma reconstruct_tree:
  assumes "graph m (pre @ layout v2 off par t @ post)" and "off = length pre"
    and "perfect t" and "0 < n" and "n \<le> 2 ^ ht t" and "tpruned t = 0"
  shows "reconstruct_loop (f + nsize t + 1) m n acc (nodes m ! (off + nsize t - 1) # rest)
           = Some (Inr (acc @ map (thash v2) (ptrees t n)))"
  using assms
proof (induction t arbitrary: off par pre post n f acc rest)
  case (MLeaf h)
  then have "n = 1" by simp
  then show ?case
    using reconstruct_take [OF MLeaf.prems(1,2), of n "Suc f" acc rest]
    by (simp add: reconstruct_done)
next
  case (MNode l r)
  note sub = graph_sub_blocks [OF MNode.prems(1,2)]
  have eq: "ht r = ht l" and len: "off + nsize l = length (pre @ layout v2 off (Some (off + nsize l + nsize r)) l)"
    using MNode.prems by simp_all
  have fuel: "f + nsize (MNode l r) + 1 = Suc (f + nsize l + nsize r + 1)"
    by simp
  note split = reconstruct_split [OF MNode.prems(1,2), of n "f + nsize l + nsize r + 1" acc rest]
  consider "n = 2 ^ Suc (ht l)" | "n < 2 ^ ht l" | "n = 2 ^ ht l" | "2 ^ ht l < n" "n < 2 ^ Suc (ht l)"
    using MNode.prems(5) by fastforce
  then show ?case
  proof cases
    case 1
    then show ?thesis
      unfolding fuel using reconstruct_take [OF MNode.prems(1,2), of n] by (simp add: reconstruct_done)
  next
    case 2
    let ?rest = "nodes m ! (off + nsize l + nsize r - 1) # rest"
    have "reconstruct_loop (f + nsize r + nsize l + 1) m n acc (nodes m ! (off + nsize l - 1) # ?rest)
        = Some (Inr (acc @ map (thash v2) (ptrees l n)))"
      using MNode.IH(1) [OF sub(1) MNode.prems(2)] 2 MNode.prems by simp
    with 2 MNode.prems split show ?thesis
      unfolding fuel by (simp add: add_ac)
  next
    case 3
    have "reconstruct_loop (Suc (f + nsize l + nsize r)) m n acc
        (nodes m ! (off + nsize l - 1) # nodes m ! (off + nsize l + nsize r - 1) # rest)
        = reconstruct_loop (f + nsize l + nsize r) m 0 (acc @ [thash v2 l]) (nodes m ! (off + nsize l + nsize r - 1) # rest)"
      using reconstruct_take [OF sub(1) MNode.prems(2), of n] 3 by simp
    moreover obtain g where "f + nsize l + nsize r = Suc g"
      using nsize_pos [of l] by (metis add_is_0 nat.exhaust nsize_ne0)
    ultimately show ?thesis
      using 3 MNode.prems split unfolding fuel by (simp add: reconstruct_done)
  next
    case 4
    obtain g where g: "nsize l = Suc g"
      using nsize_pos [of l] by (metis Suc_pred)
    have "reconstruct_loop (Suc (f + nsize l + nsize r)) m n acc
        (nodes m ! (off + nsize l - 1) # nodes m ! (off + nsize l + nsize r - 1) # rest)
        = reconstruct_loop (f + nsize l + nsize r) m (n - 2 ^ ht l) (acc @ [thash v2 l]) (nodes m ! (off + nsize l + nsize r - 1) # rest)"
      using reconstruct_take [OF sub(1) MNode.prems(2), of n] 4 by simp
    also have "\<dots> = Some (Inr ((acc @ [thash v2 l]) @ map (thash v2) (ptrees r (n - 2 ^ ht l))))"
      using MNode.IH(2) [OF sub(2) len, of "n - 2 ^ ht l" "f + g" "acc @ [thash v2 l]" rest] 4 MNode.prems eq g
      by (simp add: add_ac)
    finally show ?thesis
      using 4 MNode.prems split unfolding fuel by simp
  qed
qed simp

lemma reconstruct_forest:
  assumes "graph m (pre @ forest_layout v2 off ts @ post)" and "off = length pre"
    and "list_all wf_tree ts" and "full ts" and "n \<le> length (fleaves ts)"
  shows "reconstruct_loop (f + fsize ts + 1) m n acc (map ((!) (nodes m)) (root_pos off ts))
           = Some (Inr (acc @ map (thash v2) (fptrees ts n)))"
  using assms
proof (induction ts arbitrary: off pre n f acc)
  case Nil
  then show ?case by (simp add: reconstruct_done)
next
  case (Cons t ts)
  from Cons.prems have t: "perfect t" "tpruned t = 0" and len: "length (tleaves t) = 2 ^ ht t"
    using length_tleaves [of t] by (simp_all add: wf_tree_def)
  have g: "graph m (pre @ layout v2 off None t @ (forest_layout v2 (off + nsize t) ts @ post))"
    using Cons.prems(1) by simp
  let ?rest = "map ((!) (nodes m)) (root_pos (off + nsize t) ts)"
  consider "n = 0" | "0 < n" "n < 2 ^ ht t" | "2 ^ ht t \<le> n" by linarith
  then show ?case
  proof cases
    case 2
    then show ?thesis
      using reconstruct_tree [OF g Cons.prems(2) t(1), of n "f + fsize ts" acc ?rest] t(2)
      by (simp add: add_ac)
  next
    case 3
    obtain k where k: "nsize t = Suc k"
      using nsize_pos [of t] by (metis Suc_pred)
    have "n \<noteq> 0" using pow2_le_pos [OF 3] by simp
    have "reconstruct_loop ((f + k) + fsize ts + 1) m (n - 2 ^ ht t) (acc @ [thash v2 t]) ?rest
        = Some (Inr ((acc @ [thash v2 t]) @ map (thash v2) (fptrees ts (n - 2 ^ ht t))))"
      using Cons.prems len 3 by (intro Cons.IH [of "pre @ layout v2 off None t"]) simp_all
    then show ?thesis
      using reconstruct_take [OF g Cons.prems(2) 3, of "f + k + fsize ts + 1" acc ?rest] 3 k \<open>n \<noteq> 0\<close>
      by (simp add: add_ac)
  qed (simp add: reconstruct_done)
qed

theorem reconstruct_peaks_at_spec:
  assumes "holds m ls" and "n \<le> length ls"
  shows "reconstruct_peaks_at m (int n)
           = Some (Inr (spec_peaks (is_v2 m) (expected_heights n) (take n ls)))"
proof -
  from assms(1) obtain ts where ts: "represents m ts" "full ts" "fleaves ts = ls"
    by (auto simp: holds_def)
  then have wf: "wf_forest ts" "list_all wf_tree ts" and g: "graph m ([] @ forest_layout (is_v2 m) 0 ts @ [])"
    and pk: "peaks m = map ((!) (nodes m)) (root_pos 0 ts)"
    by (simp_all add: represents_def wf_forest_def)
  have cnt: "leaf_count m = length ls" and len: "length (nodes m) = fsize ts"
    using holds_leaf_count [OF assms(1)] graph_length [OF g] by simp_all
  have "reconstruct_loop (0 + fsize ts + 1) m n [] (peaks m) = Some (Inr ([] @ map (thash (is_v2 m)) (fptrees ts n)))"
    unfolding pk using assms(2) ts wf by (intro reconstruct_forest [OF g]) simp_all
  then show ?thesis
    using assms(2) ts wf by (simp add: reconstruct_peaks_at_def cnt len fptrees_spec)
qed

subsection \<open>The consistency proof\<close>

lemma consistency_prefix:
  assumes "holds m ls" and "0 < n" and "n < length ls"
  shows "get_consistency_proof m r (PInt (int n)) =
     Some (if r = spec_root (is_v2 m) (take n ls)
           then Inr (spec_root (is_v2 m) ls, spec_peaks (is_v2 m) (expected_heights n) (take n ls))
           else Inl (ValueError ''old_root mismatch for the requested prefix''))"
proof -
  let ?ps = "spec_peaks (is_v2 m) (expected_heights n) (take n ls)"
  from assms(1) obtain ts where ts: "represents m ts" "full ts" "fleaves ts = ls"
    by (auto simp: holds_def)
  have le: "n \<le> length ls" using assms(3) by (rule less_imp_le)
  have wf: "wf_forest ts" using ts(1) by (simp add: represents_def)
  then have "list_all wf_tree (fptrees ts n)"
    using fptrees_facts [of ts n] ts le unfolding wf_forest_def by blast
  then have "list_all is_sha256_hex_str (map (thash (is_v2 m)) (fptrees ts n))"
    by (auto simp: list_all_iff wf_tree_def thash_hex)
  then have hex: "list_all is_sha256_hex_str ?ps"
    using fptrees_spec [OF wf ts(2), of n "is_v2 m"] ts(3) le by simp
  have "length (take n ls) = n" and "take n ls \<noteq> []"
    using assms(2,3) by auto
  then have root: "spec_root (is_v2 m) (take n ls) = bag_digest (is_v2 m) ?ps"
    by (simp only: spec_root_def if_False)
  have "get_consistency_proof m r (PInt (int n))
      = Some (bind_res (bag_hashes (is_v2 m) ?ps) (\<lambda>x. if x \<noteq> r
          then Inl (ValueError ''old_root mismatch for the requested prefix'')
          else Inr (spec_root (is_v2 m) ls, ?ps)))"
    using assms(2,3) holds_leaf_count [OF assms(1)]
    by (simp add: get_consistency_proof_def holds_root [OF assms(1)] reconstruct_peaks_at_spec [OF assms(1) le])
  then show ?thesis
    unfolding bag_hashes_ok [OF hex] root bind_res_Inr by (cases "r = bag_digest (is_v2 m) ?ps") simp_all
qed

text \<open>
  Consistency is decided correctly: for an accumulator holding the payloads \<open>ds\<close> and any
  claimed old root and count \<open>n\<close> up to the current one, the request returns (the walk ends),
  it succeeds exactly if the claimed root is the root of the first \<open>n\<close> payloads, and the
  result carries the current root and, for \<open>n > 0\<close>, the peaks of that prefix.
\<close>

theorem consistency_exact:
  assumes "mmr_init oid s = Inr e" and "add_leaves e ds = Inr m" and "n \<le> length ds"
  defines "v \<equiv> is_v2 e"
  defines "ls \<equiv> map (scheme_leaf_digest v) ds"
  shows "\<exists>res. get_consistency_proof m r (PInt (int n)) = Some res
           \<and> (is_ok res \<longleftrightarrow> r = spec_root v (take n ls))
           \<and> (is_ok res \<longrightarrow> res = Inr (spec_root v ls, spec_peaks v (expected_heights n) (take n ls)))"
proof -
  from add_leaves_holds [OF holds_init [OF assms(1)], of ds] assms(2)
  have h: "holds m ls" and v: "is_v2 m = v"
    by (auto simp: ls_def v_def frame_is_v2)
  have cnt: "leaf_count m = length ls" and len: "length ls = length ds"
    using holds_leaf_count [OF h] by (simp_all add: ls_def)
  consider "n = 0" | "0 < n" "n = length ls" | "0 < n" "n < length ls"
    using assms(3) len by linarith
  then show ?thesis
  proof cases
    case 1
    have "expected_heights 0 = []"
      using expected_heights_unique [of "[]"] by simp
    with 1 show ?thesis
      by (auto simp: get_consistency_proof_def holds_root [OF h] v spec_root_def)
  next
    case 2
    from h obtain ts where ts: "represents m ts" "full ts" "fleaves ts = ls"
      by (auto simp: holds_def)
    have wf: "wf_forest ts" using ts(1) by (simp add: represents_def)
    have "map (\<lambda>r. mn_hash (obj m r)) (peaks m) = map (thash v) ts"
      using arg_cong [OF represents_tops [OF ts(1)], of "map mn_hash"] by (simp add: comp_def v)
    also have "\<dots> = spec_peaks v (expected_heights n) ls"
      using spec_peaks_forest [of ts v] forest_heights [OF wf ts(2)] ts wf 2 by (simp add: wf_forest_def)
    finally show ?thesis
      using 2 by (auto simp: get_consistency_proof_def holds_root [OF h] v cnt)
  next
    case 3
    with consistency_prefix [OF h, of n r] show ?thesis
      by (auto simp: v)
  qed
qed

theorem consistency_exact_witness:
  "\<exists>e m. mmr_init 0 HASH_SCHEME_V2 = Inr e \<and> add_leaves e [[7], [8], [9]] = Inr m
     \<and> (\<exists>res. get_consistency_proof m (spec_root True (map (scheme_leaf_digest True) [[7], [8]])) (PInt 2) = Some res
          \<and> is_ok res)"
proof -
  obtain e where e: "mmr_init 0 HASH_SCHEME_V2 = Inr e" and v: "is_v2 e"
    by (simp add: mmr_init_def is_v2_def)
  from add_leaves_holds [OF holds_init [OF e], of "[[7], [8], [9]]"] obtain m where
    m: "add_leaves e [[7], [8], [9]] = Inr m"
    by blast
  from consistency_exact [OF e m, of 2 "spec_root True (map (scheme_leaf_digest True) [[7], [8]])"] e m v
  show ?thesis
    by auto
qed

end
