(* ===== verification/Group_Commit.thy ===== *)
theory Group_Commit
  imports Prelude
begin

section \<open>Group commit of the write-ahead log\<close>

text \<open>
  The model of \<^verbatim>\<open>aegis/core/group_commit.py\<close>. \<open>CoalescedCommitEngine\<close> is a record and
  each critical section (a maximal run of code under the condition variable) is one
  function on it. The threads that call \<open>await_durable\<close> run these sections in any order:
  a step relation interleaves them over a program counter per thread, and a descriptor
  with its stable prefix stands for the device. The theorems are about every reachable
  state: a caller that returns has its record on stable storage, a failure is final, no
  waiter is left parked without a syncer that will wake it.
\<close>

subsection \<open>The engine\<close>

record engine =
  max_batch :: int
  linger :: rat
  written :: nat
  durable :: nat
  syncing :: bool
  waiting :: nat
  failure :: "string option"
  records :: nat
  batches :: nat
  largest_batch :: nat

definition engine_init :: "int \<Rightarrow> rat \<Rightarrow> engine res" where
  "engine_init mb lg =
     (if mb < 1 then Inl (ValueError ''max_batch must be >= 1'')
      else if lg < 0 then Inl (ValueError ''linger_seconds must be >= 0'')
      else Inr \<lparr>max_batch = mb, linger = lg, written = 0, durable = 0, syncing = False, waiting = 0,
                failure = None, records = 0, batches = 0, largest_batch = 0\<rparr>)"

definition wal_durability_error :: exn where
  "wal_durability_error = RuntimeError ''WalDurabilityError''"

definition raise_if_failed :: "engine \<Rightarrow> unit res" where
  "raise_if_failed e = (case failure e of None \<Rightarrow> Inr () | Some _ \<Rightarrow> Inl wal_durability_error)"

definition enqueue :: "engine \<Rightarrow> (nat \<times> engine) res" where
  "enqueue e =
     bind_res (raise_if_failed e) (\<lambda>_.
       let e' = e\<lparr>written := written e + 1, records := records e + 1\<rparr> in Inr (written e', e'))"

definition note_external_sync :: "engine \<Rightarrow> engine" where
  "note_external_sync e = (if failure e \<noteq> None then e else e\<lparr>durable := written e\<rparr>)"

definition fail_engine :: "string \<Rightarrow> engine \<Rightarrow> engine" where
  "fail_engine exc e = (if failure e = None then e\<lparr>failure := Some exc\<rparr> else e)"

text \<open>When \<open>_linger_for_company\<close> returns without waiting.\<close>

definition linger_skipped :: "engine \<Rightarrow> bool" where
  "linger_skipped e \<longleftrightarrow>
     linger e \<le> 0 \<or> waiting e \<le> 1 \<or> int (written e) - int (durable e) \<ge> max_batch e"

text \<open>
  The loop of \<open>_claim_sync_or_wait\<close>, cut where it gives up the lock: in the wait for
  another syncer and in the linger. After the linger, when another thread has claimed the
  sync, the loop tests the same conditions again under the same lock and waits.
\<close>

datatype claim = Claim_Raise | Claim_Done | Claim_Wait | Claim_Linger | Claim_Own nat

definition claim_enter :: "engine \<Rightarrow> engine" where
  "claim_enter e = e\<lparr>waiting := waiting e + 1\<rparr>"

definition claim_leave :: "engine \<Rightarrow> engine" where
  "claim_leave e = e\<lparr>waiting := waiting e - 1\<rparr>"

definition claim_bottom :: "engine \<Rightarrow> nat \<Rightarrow> claim \<times> engine" where
  "claim_bottom e ticket =
     (if failure e \<noteq> None then (Claim_Raise, claim_leave e)
      else if durable e \<ge> ticket then (Claim_Done, claim_leave e)
      else if syncing e then (Claim_Wait, e)
      else (Claim_Own (written e), claim_leave (e\<lparr>syncing := True\<rparr>)))"

definition claim_top :: "engine \<Rightarrow> nat \<Rightarrow> claim \<times> engine" where
  "claim_top e ticket =
     (if failure e \<noteq> None then (Claim_Raise, claim_leave e)
      else if durable e \<ge> ticket then (Claim_Done, claim_leave e)
      else if syncing e then (Claim_Wait, e)
      else if linger_skipped e then claim_bottom e ticket
      else (Claim_Linger, e))"

text \<open>The end of \<open>await_durable\<close>, after \<open>sync\<close> returned or raised.\<close>

definition sync_returned :: "engine \<Rightarrow> nat \<Rightarrow> unit res \<times> engine" where
  "sync_returned e high_water =
     (let e1 = e\<lparr>syncing := False\<rparr> in
      if failure e1 \<noteq> None then (Inl wal_durability_error, e1)
      else
        let retired = int high_water - int (durable e1) in
        (Inr (), if retired > 0
                 then e1\<lparr>durable := high_water, batches := batches e1 + 1,
                         largest_batch := max (largest_batch e1) (nat retired)\<rparr>
                 else e1))"

definition sync_raised :: "engine \<Rightarrow> string \<Rightarrow> unit res \<times> engine" where
  "sync_raised e exc =
     (let e1 = e\<lparr>syncing := False\<rparr> in
      (Inl wal_durability_error, if failure e1 = None then e1\<lparr>failure := Some exc\<rparr> else e1))"

definition stats :: "engine \<Rightarrow> nat \<times> nat \<times> nat" where
  "stats e = (records e, batches e, largest_batch e)"

subsection \<open>Threads and the device\<close>

text \<open>
  \<open>Parked\<close> is a thread in \<open>condition.wait()\<close>, \<open>Ready\<close> one that was notified and will test
  the loop head again. \<open>InSync t hw\<close> is outside the lock, inside \<open>sync()\<close>.
\<close>

datatype pc =
    Idle | Enter nat | Ready nat | Parked nat | Lingering nat | InSync nat nat
  | Returned nat | Raised nat

record sys =
  eng :: engine
  appended :: nat
  stable :: nat
  pcs :: "nat \<Rightarrow> pc"

fun wake :: "pc \<Rightarrow> pc" where
  "wake (Parked t) = Ready t"
| "wake p = p"

definition notify_all :: "sys \<Rightarrow> sys" where
  "notify_all s = s\<lparr>pcs := wake \<circ> pcs s\<rparr>"

fun claim_pc :: "nat \<Rightarrow> claim \<Rightarrow> pc" where
  "claim_pc t Claim_Raise = Raised t"
| "claim_pc t Claim_Done = Returned t"
| "claim_pc t Claim_Wait = Parked t"
| "claim_pc t Claim_Linger = Lingering t"
| "claim_pc t (Claim_Own hw) = InSync t hw"

definition settle :: "nat \<Rightarrow> nat \<Rightarrow> claim \<times> engine \<Rightarrow> sys \<Rightarrow> sys" where
  "settle i t r s = s\<lparr>eng := snd r, pcs := (pcs s)(i := claim_pc t (fst r))\<rparr>"

definition finish :: "nat \<Rightarrow> nat \<Rightarrow> unit res \<times> engine \<Rightarrow> sys \<Rightarrow> sys" where
  "finish i t r s =
     notify_all (s\<lparr>eng := snd r, pcs := (pcs s)(i := (if is_ok (fst r) then Returned t else Raised t))\<rparr>)"

definition sys_init :: "engine \<Rightarrow> sys" where
  "sys_init e = \<lparr>eng = e, appended = 0, stable = 0, pcs = (\<lambda>_. Idle)\<rparr>"

text \<open>
  The device: \<open>fsync\<close> makes at least what was written when it was called durable, and at
  most what is written when it returns. Rotation syncs everything under the ledger lock
  and then tells the engine; it may also fail.
\<close>

inductive gc_step :: "sys \<Rightarrow> sys \<Rightarrow> bool" where
  Write: "pcs s i = Idle \<Longrightarrow> enqueue (eng s) = Inr (t, e') \<Longrightarrow>
     gc_step s (s\<lparr>eng := e', appended := appended s + 1, pcs := (pcs s)(i := Enter t)\<rparr>)"
| Refused: "pcs s i = Idle \<Longrightarrow> enqueue (eng s) = Inl x \<Longrightarrow>
     gc_step s (s\<lparr>appended := appended s + 1, pcs := (pcs s)(i := Raised (appended s + 1))\<rparr>)"
| First: "pcs s i = Enter t \<Longrightarrow> gc_step s (settle i t (claim_top (claim_enter (eng s)) t) s)"
| Again: "pcs s i = Ready t \<Longrightarrow> gc_step s (settle i t (claim_top (eng s) t) s)"
| Lingered: "pcs s i = Lingering t \<Longrightarrow> gc_step s (settle i t (claim_bottom (eng s) t) s)"
| Synced: "pcs s i = InSync t hw \<Longrightarrow> hw \<le> w \<Longrightarrow> w \<le> appended s \<Longrightarrow>
     gc_step s (finish i t (sync_returned (eng s) hw) (s\<lparr>stable := max (stable s) w\<rparr>))"
| Sync_Failed: "pcs s i = InSync t hw \<Longrightarrow>
     gc_step s (finish i t (sync_raised (eng s) x) s)"
| Rotated: "gc_step s (notify_all (s\<lparr>eng := note_external_sync (eng s), stable := appended s\<rparr>))"
| Rotation_Failed: "gc_step s (notify_all (s\<lparr>eng := fail_engine x (eng s)\<rparr>))"

inductive reachable :: "sys \<Rightarrow> bool" where
  Start: "engine_init mb lg = Inr e \<Longrightarrow> reachable (sys_init e)"
| Step: "reachable s \<Longrightarrow> gc_step s s' \<Longrightarrow> reachable s'"

inductive_cases gc_stepE: "gc_step s s'"

subsection \<open>The invariant\<close>

fun ticket_ok :: "engine \<Rightarrow> pc \<Rightarrow> bool" where
  "ticket_ok e (Enter t) \<longleftrightarrow> t \<le> written e"
| "ticket_ok e (Ready t) \<longleftrightarrow> t \<le> written e"
| "ticket_ok e (Parked t) \<longleftrightarrow> t \<le> written e \<and> syncing e"
| "ticket_ok e (Lingering t) \<longleftrightarrow> t \<le> written e"
| "ticket_ok e (InSync t hw) \<longleftrightarrow> t \<le> hw \<and> hw \<le> written e \<and> syncing e"
| "ticket_ok e (Returned t) \<longleftrightarrow> t \<le> durable e"
| "ticket_ok e _ \<longleftrightarrow> True"

definition in_sync :: "pc \<Rightarrow> bool" where
  "in_sync p \<longleftrightarrow> (\<exists>t hw. p = InSync t hw)"

definition gc_inv :: "sys \<Rightarrow> bool" where
  "gc_inv s \<longleftrightarrow>
     durable (eng s) \<le> stable s \<and> durable (eng s) \<le> written (eng s) \<and> stable s \<le> appended s
     \<and> written (eng s) \<le> appended s \<and> (failure (eng s) = None \<longrightarrow> written (eng s) = appended s)
     \<and> records (eng s) = written (eng s)
     \<and> (\<forall>i. ticket_ok (eng s) (pcs s i))
     \<and> (syncing (eng s) \<longrightarrow> (\<exists>i. in_sync (pcs s i)))
     \<and> (\<forall>i j. in_sync (pcs s i) \<longrightarrow> in_sync (pcs s j) \<longrightarrow> i = j)"

lemma in_sync_simps [simp]:
  "in_sync (InSync t hw)" "\<not> in_sync Idle" "\<not> in_sync (Enter t)" "\<not> in_sync (Ready t)"
  "\<not> in_sync (Parked t)" "\<not> in_sync (Lingering t)" "\<not> in_sync (Returned t)" "\<not> in_sync (Raised t)"
  by (simp_all add: in_sync_def)

lemma in_sync_wake [simp]: "in_sync (wake p) = in_sync p"
  by (cases p) simp_all

lemma ticket_ok_mono:
  "ticket_ok e p \<Longrightarrow> durable e \<le> durable e' \<Longrightarrow> written e \<le> written e' \<Longrightarrow> (syncing e \<Longrightarrow> syncing e')
     \<Longrightarrow> ticket_ok e' p"
  by (cases p) auto

lemma owner_kept: "\<not> in_sync (f i) \<Longrightarrow> (\<exists>k. in_sync (f k)) \<Longrightarrow> \<exists>k. in_sync ((f(i := p)) k)"
  by (metis fun_upd_other)

text \<open>One thread moves within the lock and the counters do not change.\<close>

lemma gc_inv_settle:
  assumes inv: "gc_inv s" and "pcs s i \<in> {Enter t, Ready t, Lingering t}"
    and same: "durable e = durable (eng s)" "written e = written (eng s)" "records e = records (eng s)"
      "failure e = failure (eng s)" "syncing e = (syncing (eng s) \<or> in_sync p)"
    and p: "ticket_ok e p" "in_sync p \<longrightarrow> \<not> syncing (eng s)"
  shows "gc_inv (s\<lparr>eng := e, pcs := (pcs s)(i := p)\<rparr>)"
proof -
  have "\<not> in_sync (pcs s i)"
    using assms(2) by auto
  moreover have "ticket_ok e (((pcs s)(i := p)) j)" for j
    using inv same p(1) by (auto simp: gc_inv_def intro: ticket_ok_mono [of "eng s"])
  moreover have "syncing (eng s)" if "in_sync (pcs s j)" for j
  proof -
    have "ticket_ok (eng s) (pcs s j)"
      using inv by (simp add: gc_inv_def)
    with that show ?thesis by (auto simp: in_sync_def)
  qed
  moreover have "\<exists>k. in_sync (((pcs s)(i := p)) k)" if "syncing e"
  proof (cases "in_sync p")
    case False
    with that same inv have "\<exists>k. in_sync (pcs s k)"
      by (simp add: gc_inv_def)
    with calculation(1) show ?thesis
      by (rule owner_kept)
  qed auto
  moreover have "j = k" if "in_sync (((pcs s)(i := p)) j)" "in_sync (((pcs s)(i := p)) k)" for j k
    using that inv p(2) calculation(1,3) by (auto simp: gc_inv_def split: if_splits)
  ultimately show ?thesis
    using inv same p unfolding gc_inv_def
    by (intro conjI allI impI) (simp_all del: fun_upd_apply add: fun_upd_def [symmetric] split: if_splits)
qed

lemma claim_bottom_facts:
  assumes "claim_bottom e t = (c, e')" and "t \<le> written e"
  shows "durable e' = durable e \<and> written e' = written e \<and> records e' = records e \<and> failure e' = failure e
         \<and> syncing e' = (syncing e \<or> in_sync (claim_pc t c)) \<and> ticket_ok e' (claim_pc t c)
         \<and> (in_sync (claim_pc t c) \<longrightarrow> \<not> syncing e)"
  using assms by (auto simp: claim_bottom_def claim_leave_def split: if_splits)

lemma claim_top_facts:
  assumes "claim_top e t = (c, e')" and "t \<le> written e"
  shows "durable e' = durable e \<and> written e' = written e \<and> records e' = records e \<and> failure e' = failure e
         \<and> syncing e' = (syncing e \<or> in_sync (claim_pc t c)) \<and> ticket_ok e' (claim_pc t c)
         \<and> (in_sync (claim_pc t c) \<longrightarrow> \<not> syncing e)"
  using assms claim_bottom_facts [of e t c e']
  by (auto simp: claim_top_def claim_leave_def split: if_splits)

lemma gc_inv_ticket: "gc_inv s \<Longrightarrow> ticket_ok (eng s) (pcs s i)"
  by (simp add: gc_inv_def)

lemma gc_inv_claim:
  assumes inv: "gc_inv s" and pc: "pcs s i \<in> {Enter t, Ready t, Lingering t}"
    and e: "e = eng s \<or> e = claim_enter (eng s)" and r: "r = claim_top e t \<or> r = claim_bottom e t"
  shows "gc_inv (settle i t r s)"
proof -
  obtain c e' where ce: "r = (c, e')" by (cases r)
  have "t \<le> written (eng s)"
    using gc_inv_ticket [OF inv, of i] pc by auto
  then have "t \<le> written e"
    using e by (auto simp: claim_enter_def)
  then have f: "durable e' = durable e \<and> written e' = written e \<and> records e' = records e \<and> failure e' = failure e
      \<and> syncing e' = (syncing e \<or> in_sync (claim_pc t c)) \<and> ticket_ok e' (claim_pc t c)
      \<and> (in_sync (claim_pc t c) \<longrightarrow> \<not> syncing e)"
    using r ce claim_top_facts [of e t c e'] claim_bottom_facts [of e t c e'] by auto
  have "durable e = durable (eng s)" "written e = written (eng s)" "records e = records (eng s)"
    "failure e = failure (eng s)" "syncing e = syncing (eng s)"
    using e by (auto simp: claim_enter_def)
  with f gc_inv_settle [OF inv pc, of e' "claim_pc t c"] show ?thesis
    by (simp add: settle_def ce)
qed

text \<open>The syncer leaves and wakes the others.\<close>

lemma ticket_ok_wake:
  "ticket_ok e p \<Longrightarrow> \<not> in_sync p \<Longrightarrow> durable e \<le> durable e' \<Longrightarrow> written e \<le> written e' \<Longrightarrow> ticket_ok e' (wake p)"
  by (cases p) auto

lemma gc_inv_finish:
  assumes inv: "gc_inv s" and pc: "pcs s i = InSync t hw" and w: "durable e \<le> w" "w \<le> appended s" "stable s \<le> w"
    and e: "written e = written (eng s)" "records e = records (eng s)" "\<not> syncing e"
      "durable (eng s) \<le> durable e" "durable e \<le> written e"
      "failure e = None \<longrightarrow> failure (eng s) = None" "is_ok r \<longrightarrow> t \<le> durable e"
  shows "gc_inv (finish i t (r, e) (s\<lparr>stable := w\<rparr>))"
proof -
  have none: "\<not> in_sync (pcs s j)" if "j \<noteq> i" for j
    using inv pc that by (auto simp: gc_inv_def)
  moreover have "ticket_ok e (wake (pcs s j))" if "j \<noteq> i" for j
    using gc_inv_ticket [OF inv, of j] none [OF that] e by (auto intro: ticket_ok_wake)
  ultimately show ?thesis
    using inv w e by (auto simp: gc_inv_def finish_def notify_all_def)
qed

lemma gc_inv_wake_all:
  assumes "gc_inv s" and "written e = written (eng s)" "records e = records (eng s)" "syncing e = syncing (eng s)"
    and "durable (eng s) \<le> durable e" "durable e \<le> w" "durable e \<le> written e" "w \<le> appended s"
    and "failure e = None \<longrightarrow> failure (eng s) = None"
  shows "gc_inv (notify_all (s\<lparr>eng := e, stable := w\<rparr>))"
proof -
  have "ticket_ok e (wake (pcs s j))" for j
    using gc_inv_ticket [OF assms(1), of j] assms by (cases "pcs s j") auto
  then show ?thesis
    using assms by (auto simp: gc_inv_def notify_all_def)
qed

theorem gc_inv_step: "gc_step s s' \<Longrightarrow> gc_inv s \<Longrightarrow> gc_inv s'"
proof (induction rule: gc_step.induct)
  case (Write s i t e')
  have fail: "failure (eng s) = None"
    using Write.hyps by (simp add: enqueue_def raise_if_failed_def split: option.splits)
  have e': "e' = (eng s)\<lparr>written := written (eng s) + 1, records := records (eng s) + 1\<rparr>" "t = written (eng s) + 1"
    using Write.hyps fail by (auto simp: enqueue_def raise_if_failed_def)
  have "ticket_ok e' (pcs s j)" for j
    using gc_inv_ticket [OF Write.prems, of j] by (rule ticket_ok_mono) (simp_all add: e')
  moreover have "in_sync (((pcs s)(i := Enter t)) j) \<longleftrightarrow> in_sync (pcs s j)" for j
    using Write.hyps by simp
  moreover have "\<exists>k. in_sync (((pcs s)(i := Enter t)) k)" if "syncing (eng s)"
    using that Write by (intro owner_kept) (simp_all add: gc_inv_def)
  ultimately show ?case
    using Write.prems fail unfolding gc_inv_def
    by (intro conjI allI impI) (simp_all add: e')
next
  case (Refused s i x)
  have "failure (eng s) \<noteq> None"
    using Refused.hyps by (auto simp: enqueue_def raise_if_failed_def split: option.splits)
  moreover have "in_sync (((pcs s)(i := Raised k)) j) \<longleftrightarrow> in_sync (pcs s j)" for j k
    using Refused.hyps by simp
  moreover have "\<exists>k. in_sync (((pcs s)(i := Raised (appended s + 1))) k)" if "syncing (eng s)"
    using that Refused by (intro owner_kept) (simp_all add: gc_inv_def)
  ultimately show ?case
    using Refused.prems unfolding gc_inv_def
    by (intro conjI allI impI) simp_all
next
  case (First s i t)
  then show ?case by (intro gc_inv_claim [of s i t "claim_enter (eng s)"]) auto
next
  case (Again s i t)
  then show ?case by (intro gc_inv_claim) auto
next
  case (Lingered s i t)
  then show ?case by (intro gc_inv_claim) auto
next
  case (Synced s i t hw w)
  obtain r e where re: "sync_returned (eng s) hw = (r, e)" by force
  have tk: "t \<le> hw" "hw \<le> written (eng s)"
    using gc_inv_ticket [OF Synced.prems, of i] Synced.hyps(1) by simp_all
  have "durable e \<le> max (stable s) w" "written e = written (eng s)" "records e = records (eng s)" "\<not> syncing e"
    "durable (eng s) \<le> durable e" "durable e \<le> written e" "failure e = failure (eng s)" "is_ok r \<longrightarrow> t \<le> durable e"
    using re tk Synced.prems Synced.hyps
    by (auto simp: sync_returned_def gc_inv_def Let_def split: if_splits)
  then show ?case
    unfolding re using Synced.prems Synced.hyps by (intro gc_inv_finish) (auto simp: gc_inv_def)
next
  case (Sync_Failed s i t hw x)
  have "gc_inv (finish i t (sync_raised (eng s) x) (s\<lparr>stable := stable s\<rparr>))"
    unfolding sync_raised_def Let_def using Sync_Failed.prems Sync_Failed.hyps
    by (intro gc_inv_finish) (auto simp: gc_inv_def)
  then show ?case by simp
next
  case (Rotated s)
  then show ?case
    by (intro gc_inv_wake_all) (auto simp: gc_inv_def note_external_sync_def)
next
  case (Rotation_Failed s x)
  have "gc_inv (notify_all (s\<lparr>eng := fail_engine x (eng s), stable := stable s\<rparr>))"
    using Rotation_Failed by (intro gc_inv_wake_all) (auto simp: gc_inv_def fail_engine_def)
  then show ?case by simp
qed

lemma reachable_inv: "reachable s \<Longrightarrow> gc_inv s"
proof (induction rule: reachable.induct)
  case (Start mb lg e)
  then show ?case by (auto simp: gc_inv_def sys_init_def engine_init_def split: if_splits)
qed (rule gc_inv_step)

subsection \<open>Properties\<close>

text \<open>
  C6. No receipt for a record that is not on the disk: in every state that any
  interleaving of writers, syncers, rotations and failures can reach, a call of
  \<open>await_durable\<close> that returned did so for a ticket within the stable prefix of the file.
\<close>

theorem returned_is_stable:
  assumes "reachable s" and "pcs s i = Returned t"
  shows "t \<le> stable s"
  using reachable_inv [OF assms(1)] gc_inv_ticket [OF reachable_inv [OF assms(1)], of i] assms(2)
  by (simp add: gc_inv_def)

text \<open>A complete run of one thread, used by the witnesses.\<close>

definition e0 :: engine where
  "e0 = \<lparr>max_batch = 64, linger = 0, written = 0, durable = 0, syncing = False, waiting = 0,
        failure = None, records = 0, batches = 0, largest_batch = 0\<rparr>"

lemma run_start: "reachable (sys_init e0)"
  by (rule reachable.Start [of 64 0]) (simp add: engine_init_def e0_def)

definition run_written :: sys where
  "run_written = (sys_init e0)\<lparr>eng := e0\<lparr>written := 1, records := 1\<rparr>, appended := 1,
      pcs := (\<lambda>_. Idle)(0 := Enter 1)\<rparr>"

lemma run_written: "reachable run_written"
  using reachable.Step [OF run_start gc_step.Write [of "sys_init e0" 0 1 "e0\<lparr>written := 1, records := 1\<rparr>"]]
  by (simp add: run_written_def sys_init_def enqueue_def raise_if_failed_def e0_def)

definition run_syncing :: sys where
  "run_syncing = run_written\<lparr>eng := e0\<lparr>written := 1, records := 1, syncing := True\<rparr>,
      pcs := (\<lambda>_. Idle)(0 := InSync 1 1)\<rparr>"

lemma run_syncing: "reachable run_syncing"
  using reachable.Step [OF run_written gc_step.First [of run_written 0 1]]
  by (simp add: run_syncing_def run_written_def sys_init_def claim_top_def claim_bottom_def claim_enter_def
      claim_leave_def linger_skipped_def settle_def e0_def)

theorem returned_is_stable_witness:
  "\<exists>s. reachable s \<and> pcs s 0 = Returned 1 \<and> 1 \<le> stable s"
proof -
  let ?s = "finish 0 1 (sync_returned (eng run_syncing) 1) (run_syncing\<lparr>stable := max (stable run_syncing) 1\<rparr>)"
  have "reachable ?s"
    by (rule reachable.Step [OF run_syncing gc_step.Synced])
      (simp_all add: run_syncing_def run_written_def)
  moreover have "pcs ?s 0 = Returned 1"
    by (simp add: finish_def notify_all_def sync_returned_def run_syncing_def run_written_def e0_def Let_def)
  ultimately show ?thesis
    using returned_is_stable by blast
qed

text \<open>
  A durability failure is collective and terminal: once latched it stays latched under
  every step, no thread that had not returned before returns after it, and a new record
  is refused.
\<close>

theorem failure_is_terminal:
  assumes "gc_step s s'" and "failure (eng s) \<noteq> None"
  shows "failure (eng s') = failure (eng s) \<and> (\<forall>i t. pcs s' i = Returned t \<longrightarrow> pcs s i = Returned t)
         \<and> enqueue (eng s') = Inl wal_durability_error"
proof -
  have wake: "wake p = Returned t \<longleftrightarrow> p = Returned t" for p t
    by (cases p) simp_all
  have keep: "failure (eng s') = failure (eng s) \<and> (\<forall>i t. pcs s' i = Returned t \<longrightarrow> pcs s i = Returned t)"
    using assms
    by (induction rule: gc_step.induct)
      (auto simp: enqueue_def raise_if_failed_def settle_def finish_def notify_all_def wake claim_top_def
        claim_bottom_def claim_leave_def claim_enter_def sync_returned_def sync_raised_def Let_def
        note_external_sync_def fail_engine_def split: if_splits option.splits)
  with assms(2) show ?thesis
    by (auto simp: enqueue_def raise_if_failed_def split: option.splits)
qed

theorem failure_is_terminal_witness:
  "gc_step ((sys_init e0)\<lparr>eng := fail_engine ''EIO'' e0\<rparr>)
     (notify_all ((sys_init e0)\<lparr>eng := note_external_sync (fail_engine ''EIO'' e0), stable := 0\<rparr>))
   \<and> enqueue (note_external_sync (fail_engine ''EIO'' e0)) = Inl wal_durability_error"
proof -
  let ?s = "(sys_init e0)\<lparr>eng := fail_engine ''EIO'' e0\<rparr>"
  have step: "gc_step ?s (notify_all (?s\<lparr>eng := note_external_sync (eng ?s), stable := appended ?s\<rparr>))"
    by (rule gc_step.Rotated)
  have "failure (eng ?s) \<noteq> None"
    by (simp add: fail_engine_def e0_def)
  from failure_is_terminal [OF step this] step show ?thesis
    by (simp add: notify_all_def sys_init_def)
qed

lemma settle_other: "pcs s k = Parked t \<Longrightarrow> pcs s i \<noteq> Parked t \<Longrightarrow> pcs (settle i u r s) k = Parked t"
  by (auto simp: settle_def)

lemma parked_step:
  assumes "gc_step s s'" and "pcs s i = Parked t"
  shows "pcs s' i = Ready t \<or> pcs s' i = Parked t"
  using assms by (induction rule: gc_step.induct) (auto simp: settle_def finish_def notify_all_def)

text \<open>
  C39. No waiter is stranded and no wake-up is lost: whenever a thread is parked in
  \<open>condition.wait()\<close> in a reachable state, exactly one thread is inside \<open>sync()\<close>, the end of
  that call wakes the parked thread, and no step at all leaves it parked with nobody
  syncing.
\<close>

theorem parked_has_syncer:
  assumes "reachable s" and "pcs s i = Parked t"
  shows "(\<exists>!j. in_sync (pcs s j))
         \<and> (\<exists>s'. gc_step s s' \<and> pcs s' i = Ready t)
         \<and> (\<forall>s'. gc_step s s' \<longrightarrow> pcs s' i = Ready t \<or> pcs s' i = Parked t \<and> syncing (eng s'))"
proof -
  have inv: "gc_inv s"
    using assms(1) by (rule reachable_inv)
  with gc_inv_ticket [OF inv, of i] assms(2) have one: "\<exists>!j. in_sync (pcs s j)"
    by (auto simp: gc_inv_def)
  then obtain j u hw where j: "pcs s j = InSync u hw"
    by (auto simp: in_sync_def)
  have "hw \<le> appended s"
    using gc_inv_ticket [OF inv, of j] j inv by (simp add: gc_inv_def)
  with gc_step.Synced [OF j order_refl] have
    "gc_step s (finish j u (sync_returned (eng s) hw) (s\<lparr>stable := max (stable s) hw\<rparr>))"
    by simp
  moreover have "pcs (finish j u r (s\<lparr>stable := w\<rparr>)) i = Ready t" for r w
    using assms(2) j by (auto simp: finish_def notify_all_def)
  ultimately have "\<exists>s'. gc_step s s' \<and> pcs s' i = Ready t"
    by blast
  moreover have "pcs s' i = Ready t \<or> pcs s' i = Parked t \<and> syncing (eng s')" if "gc_step s s'" for s'
    using parked_step [OF that assms(2)] gc_inv_ticket [OF gc_inv_step [OF that inv], of i] by auto
  ultimately show ?thesis
    using one by blast
qed

text \<open>A second writer arrives while the first one syncs.\<close>

theorem parked_has_syncer_witness:
  "\<exists>s. reachable s \<and> pcs s 1 = Parked 2 \<and> (\<exists>!j. in_sync (pcs s j))"
proof -
  let ?e = "e0\<lparr>written := 2, records := 2, syncing := True\<rparr>"
  let ?s = "run_syncing\<lparr>eng := ?e, appended := 2, pcs := (pcs run_syncing)(1 := Enter 2)\<rparr>"
  have "reachable ?s"
    using reachable.Step [OF run_syncing gc_step.Write [of run_syncing 1 2 ?e]]
    by (simp add: run_syncing_def run_written_def sys_init_def enqueue_def raise_if_failed_def e0_def numeral_2_eq_2)
  then have r: "reachable (settle 1 2 (claim_top (claim_enter (eng ?s)) 2) ?s)"
    by (rule reachable.Step) (rule gc_step.First, simp)
  have "pcs (settle 1 2 (claim_top (claim_enter (eng ?s)) 2) ?s) 1 = Parked 2"
    by (simp add: settle_def claim_top_def claim_enter_def e0_def)
  with r parked_has_syncer [OF r] show ?thesis by blast
qed

end
