(* ===== verification/Py_Text.thy ===== *)
theory Py_Text
  imports Encoding
begin

section \<open>Text and sequences as Python has them\<close>

text \<open>
  Decimal rendering of integers (\<open>str(i)\<close> and f-string fields), its injectivity, fields
  joined by a separator that the fields do not contain, and Python's indexing and slicing
  with negative positions.
\<close>

subsection \<open>Decimal numbers\<close>

definition digits :: string where
  "digits = ''0123456789''"

definition digit :: "nat \<Rightarrow> char" where
  "digit n = digits ! (n mod 10)"

fun str_nat :: "nat \<Rightarrow> string" where
  "str_nat n = (if n < 10 then [digit n] else str_nat (n div 10) @ [digit (n mod 10)])"

declare str_nat.simps [simp del]

definition str_int :: "int \<Rightarrow> string" where
  "str_int i = (if i < 0 then ''-'' @ str_nat (nat (- i)) else str_nat (nat i))"

lemma length_digits: "length digits = 10"
  by (simp add: digits_def)

lemma digit_inj: "digit m = digit n \<longleftrightarrow> m mod 10 = n mod 10"
proof -
  have "distinct digits" by (simp add: digits_def)
  then show ?thesis by (simp add: digit_def nth_eq_iff_index_eq length_digits)
qed

lemma str_nat_not_Nil [simp]: "str_nat n \<noteq> []" "[] \<noteq> str_nat n"
  by (subst str_nat.simps, simp)+

lemma str_nat_inj [simp]: "str_nat m = str_nat n \<longleftrightarrow> m = n"
proof
  show "str_nat m = str_nat n \<Longrightarrow> m = n"
  proof (induction m arbitrary: n rule: str_nat.induct)
    case (1 m)
    show ?case
    proof (cases "m < 10")
      case True
      show ?thesis
      proof (cases "n < 10")
        case False
        with True 1(2) show ?thesis
          by (subst (asm) (1 2) str_nat.simps) (simp add: append_eq_Cons_conv)
      qed (use True 1(2) in \<open>subst (asm) (1 2) str_nat.simps, simp add: digit_inj\<close>)
    next
      case False
      show ?thesis
      proof (cases "n < 10")
        case True
        with False 1(2) show ?thesis
          by (subst (asm) (1 2) str_nat.simps) (simp add: append_eq_Cons_conv)
      next
        case n: False
        with False 1(2) have "str_nat (m div 10) = str_nat (n div 10)" "m mod 10 = n mod 10"
          by (subst (asm) (1 2) str_nat.simps, simp add: digit_inj)+
        with 1(1) [OF False] show ?thesis by (metis div_mult_mod_eq)
      qed
    qed
  qed
qed simp

definition decimal_char :: "char \<Rightarrow> bool" where
  "decimal_char c \<longleftrightarrow> c = CHR ''-'' \<or> c \<in> set digits"

lemma digit_decimal: "digit n \<in> set digits"
  by (simp add: digit_def length_digits)

lemma str_nat_digits: "c \<in> set (str_nat n) \<Longrightarrow> c \<in> set digits"
proof (induction n rule: str_nat.induct)
  case (1 n)
  show ?case
  proof (cases "n < 10")
    case True
    with 1(2) have "c = digit n" by (simp add: str_nat.simps [of n])
    then show ?thesis using digit_decimal by simp
  next
    case False
    with 1(2) have "c \<in> set (str_nat (n div 10)) \<or> c = digit (n mod 10)"
      by (auto simp: str_nat.simps [of n])
    then show ?thesis using 1(1) [OF False] digit_decimal by blast
  qed
qed

lemma str_int_decimal: "c \<in> set (str_int i) \<Longrightarrow> decimal_char c"
  using str_nat_digits by (auto simp: str_int_def decimal_char_def split: if_splits)

lemma str_int_inj [simp]: "str_int i = str_int j \<longleftrightarrow> i = j"
proof -
  have "str_nat n \<noteq> CHR ''-'' # xs" for n xs
  proof
    assume "str_nat n = CHR ''-'' # xs"
    with str_nat_digits [of "CHR ''-''" n] show False by (simp add: digits_def)
  qed
  moreover have "CHR ''-'' # xs \<noteq> str_nat n" for n xs
    using calculation by metis
  ultimately show ?thesis
    by (auto simp: str_int_def)
qed

subsection \<open>Fields and separators\<close>

lemma sep_split:
  assumes "x @ c # y = x' @ c # y'" and "c \<notin> set x" and "c \<notin> set x'"
  shows "x = x' \<and> y = y'"
  using assms
proof (induction x arbitrary: x')
  case Nil
  then show ?case by (cases x') auto
next
  case (Cons a x)
  then show ?case by (cases x') auto
qed

lemma str_int_sep: "\<not> decimal_char c \<Longrightarrow> c \<notin> set (str_int i)"
  using str_int_decimal by blast

subsection \<open>Python sequences\<close>

definition py_index :: "'a list \<Rightarrow> int \<Rightarrow> 'a res" where
  "py_index xs i =
     (if 0 \<le> i \<and> i < int (length xs) then Inr (xs ! nat i)
      else if i < 0 \<and> - i \<le> int (length xs) then Inr (xs ! nat (int (length xs) + i))
      else Inl (IndexError ''list index out of range''))"

definition py_upto :: "'a list \<Rightarrow> int \<Rightarrow> 'a list" where
  "py_upto xs k = (if 0 \<le> k then take (nat k) xs else take (nat (int (length xs) + k)) xs)"

lemma py_index_nat [simp]: "py_index xs (int k) = (if k < length xs then Inr (xs ! k) else Inl (IndexError ''list index out of range''))"
  by (simp add: py_index_def)

lemma py_upto_nat [simp]: "py_upto xs (int k) = take k xs"
  by (simp add: py_upto_def)

subsection \<open>Splitting and parsing\<close>

definition py_space :: "char \<Rightarrow> bool" where
  "py_space c \<longleftrightarrow> (of_char c :: nat) \<in> {9, 10, 11, 12, 13, 28, 29, 30, 31, 32, 133, 160}"

definition strip :: "string \<Rightarrow> string" where
  "strip s = rev (dropWhile py_space (rev (dropWhile py_space s)))"

text \<open>\<open>s.split(c)\<close> for one separator character, and \<open>s.partition(c)\<close> with whether it occurs.\<close>

fun split_on :: "char \<Rightarrow> string \<Rightarrow> string list" where
  "split_on c [] = [[]]"
| "split_on c (x # xs) =
     (if x = c then [] # split_on c xs
      else case split_on c xs of [] \<Rightarrow> [[x]] | y # ys \<Rightarrow> (x # y) # ys)"

definition partition_at :: "char \<Rightarrow> string \<Rightarrow> string \<times> bool \<times> string" where
  "partition_at c s = (takeWhile (\<lambda>x. x \<noteq> c) s, c \<in> set s, drop 1 (dropWhile (\<lambda>x. x \<noteq> c) s))"

lemma split_on_not_Nil [simp]: "split_on c s \<noteq> []"
  by (cases s) (auto split: list.splits)

text \<open>\<open>str.isdigit\<close> holds of the decimal digits and of the superscripts, \<open>int\<close> accepts only the former.\<close>

definition py_isdigit :: "string \<Rightarrow> bool" where
  "py_isdigit s \<longleftrightarrow> s \<noteq> [] \<and> list_all (\<lambda>c. c \<in> set digits \<or> c \<in> {CHR 0xB2, CHR 0xB3, CHR 0xB9}) s"

definition digit_value :: "char \<Rightarrow> nat" where
  "digit_value c = of_char c - 48"

definition parse_nat :: "string \<Rightarrow> nat" where
  "parse_nat s = foldl (\<lambda>n c. n * 10 + digit_value c) 0 s"

definition py_int :: "string \<Rightarrow> int res" where
  "py_int s =
     (if list_all (\<lambda>c. c \<in> set digits) s then Inr (int (parse_nat s))
      else Inl (ValueError ''invalid literal for int() with base 10''))"

lemma digit_value_digit: "digit_value (digit n) = n mod 10"
proof -
  have "n mod 10 < 10" by simp
  moreover have "digit_value (digits ! k) = k" if "k < 10" for k
    using that by (auto simp: digit_value_def digits_def less_Suc_eq numeral_eq_Suc)
  ultimately show ?thesis by (simp add: digit_def)
qed

lemma parse_str_nat: "parse_nat (str_nat n) = n"
proof (induction n rule: str_nat.induct)
  case (1 n)
  then show ?case
    by (cases "n < 10") (simp_all add: str_nat.simps [of n] parse_nat_def digit_value_digit)
qed

lemma length_str_nat: "n < 10 ^ Suc k \<Longrightarrow> length (str_nat n) \<le> Suc k"
proof (induction k arbitrary: n)
  case 0
  then show ?case by (simp add: str_nat.simps [of n])
next
  case (Suc k)
  have "n div 10 < 10 ^ Suc k" using Suc.prems by (simp add: less_mult_imp_div_less)
  with Suc.IH [of "n div 10"] show ?case by (simp add: str_nat.simps [of n])
qed

end
