(* ===== verification/Raft.thy ===== *)
theory Raft
  imports Py_Text
begin

section \<open>The Raft state machine\<close>

text \<open>
  The model of \<^verbatim>\<open>aegis/core/raft_consensus.py\<close>: log entries and their hashes, the state of
  a node and every handler of \<open>RaftNode\<close>. Terms and indices are Python integers and list
  accesses follow Python, negative positions and out-of-range errors included, because a
  request may carry any index.
\<close>

subsection \<open>Data\<close>

datatype raft_role = FOLLOWER | CANDIDATE | LEADER

record log_entry =
  le_index :: int
  le_term :: int
  le_command :: string
  le_hash :: string

definition entry_raw :: "int \<Rightarrow> int \<Rightarrow> string \<Rightarrow> string" where
  "entry_raw i t cmd = str_int i @ ''|'' @ str_int t @ ''|'' @ cmd"

definition entry_create :: "int \<Rightarrow> int \<Rightarrow> string \<Rightarrow> log_entry" where
  "entry_create i t cmd =
     \<lparr>le_index = i, le_term = t, le_command = cmd, le_hash = hexdigest (encode (entry_raw i t cmd))\<rparr>"

definition recompute_hash :: "log_entry \<Rightarrow> string" where
  "recompute_hash e = hexdigest (encode (entry_raw (le_index e) (le_term e) (le_command e)))"

definition is_hash_valid :: "log_entry \<Rightarrow> bool" where
  "is_hash_valid e \<longleftrightarrow> le_hash e = recompute_hash e"

record raft_state =
  node_id :: string
  current_term :: int
  voted_for :: "string option"
  raft_log :: "log_entry list"
  commit_index :: int
  last_applied :: int
  role :: raft_role
  leader_id :: "string option"

definition last_log_index :: "raft_state \<Rightarrow> int" where
  "last_log_index s = (if raft_log s = [] then 0 else le_index (last (raft_log s)))"

definition last_log_term :: "raft_state \<Rightarrow> int" where
  "last_log_term s = (if raft_log s = [] then 0 else le_term (last (raft_log s)))"

record vote_request =
  vq_term :: int
  vq_candidate_id :: string
  vq_last_log_index :: int
  vq_last_log_term :: int

record vote_response =
  vr_term :: int
  vr_granted :: bool
  vr_voter_id :: string

record append_request =
  aq_term :: int
  aq_leader_id :: string
  aq_prev_log_index :: int
  aq_prev_log_term :: int
  aq_entries :: "log_entry list"
  aq_leader_commit :: int

record append_response =
  ar_term :: int
  ar_success :: bool
  ar_follower_id :: string
  ar_match_index :: int

record raft_node =
  st :: raft_state
  peers :: "string set"
  votes_received :: "string set"
  next_index :: "string \<rightharpoonup> int"
  match_index :: "string \<rightharpoonup> int"

definition node_init :: "string \<Rightarrow> string list \<Rightarrow> raft_node" where
  "node_init nid ps =
     \<lparr>st = \<lparr>node_id = nid, current_term = 0, voted_for = None, raft_log = [], commit_index = 0,
            last_applied = 0, role = FOLLOWER, leader_id = None\<rparr>,
      peers = set ps, votes_received = {}, next_index = Map.empty, match_index = Map.empty\<rparr>"

definition is_leader :: "raft_node \<Rightarrow> bool" where
  "is_leader n \<longleftrightarrow> role (st n) = LEADER"

definition get0 :: "(string \<rightharpoonup> int) \<Rightarrow> string \<Rightarrow> int \<Rightarrow> int" where
  "get0 m k d = (case m k of None \<Rightarrow> d | Some v \<Rightarrow> v)"

definition majority :: "raft_node \<Rightarrow> nat" where
  "majority n = (1 + card (peers n)) div 2 + 1"

subsection \<open>Election\<close>

definition start_election :: "raft_node \<Rightarrow> vote_request \<times> raft_node" where
  "start_election n =
     (let s = (st n)\<lparr>current_term := current_term (st n) + 1, role := CANDIDATE,
                     voted_for := Some (node_id (st n)), leader_id := None\<rparr>
      in (\<lparr>vq_term = current_term s, vq_candidate_id = node_id s,
           vq_last_log_index = last_log_index s, vq_last_log_term = last_log_term s\<rparr>,
          n\<lparr>st := s, votes_received := {node_id s}\<rparr>))"

text \<open>A higher term turns the node into a follower that has not voted.\<close>

definition step_down :: "int \<Rightarrow> raft_node \<Rightarrow> raft_node" where
  "step_down t n =
     n\<lparr>st := (st n)\<lparr>current_term := t, role := FOLLOWER, voted_for := None, leader_id := None\<rparr>,
       votes_received := {}\<rparr>"

definition log_up_to_date :: "vote_request \<Rightarrow> raft_state \<Rightarrow> bool" where
  "log_up_to_date req s \<longleftrightarrow>
     vq_last_log_term req > last_log_term s
     \<or> vq_last_log_term req = last_log_term s \<and> vq_last_log_index req \<ge> last_log_index s"

definition vote_reply :: "raft_node \<Rightarrow> bool \<Rightarrow> vote_response" where
  "vote_reply n g = \<lparr>vr_term = current_term (st n), vr_granted = g, vr_voter_id = node_id (st n)\<rparr>"

definition handle_vote_request :: "raft_node \<Rightarrow> vote_request \<Rightarrow> vote_response \<times> raft_node" where
  "handle_vote_request n0 req =
     (let n = (if vq_term req > current_term (st n0) then step_down (vq_term req) n0 else n0) in
      if vq_term req < current_term (st n) then (vote_reply n False, n)
      else if voted_for (st n) \<noteq> None \<and> voted_for (st n) \<noteq> Some (vq_candidate_id req)
      then (vote_reply n False, n)
      else if \<not> log_up_to_date req (st n) then (vote_reply n False, n)
      else let n' = n\<lparr>st := (st n)\<lparr>voted_for := Some (vq_candidate_id req)\<rparr>\<rparr>
           in (vote_reply n' True, n'))"

definition become_leader :: "raft_node \<Rightarrow> raft_node" where
  "become_leader n =
     (let nxt = last_log_index (st n) + 1 in
      n\<lparr>st := (st n)\<lparr>role := LEADER, leader_id := Some (node_id (st n))\<rparr>,
        next_index := (\<lambda>p. if p \<in> peers n then Some nxt else next_index n p),
        match_index := (\<lambda>p. if p \<in> peers n then Some 0 else match_index n p)\<rparr>)"

definition handle_vote_response :: "raft_node \<Rightarrow> vote_response \<Rightarrow> raft_role \<times> raft_node" where
  "handle_vote_response n resp =
     (if vr_term resp > current_term (st n) then (FOLLOWER, step_down (vr_term resp) n)
      else if role (st n) \<noteq> CANDIDATE then (role (st n), n)
      else
        let n1 = (if vr_granted resp
                  then n\<lparr>votes_received := insert (vr_voter_id resp) (votes_received n)\<rparr> else n);
            n2 = (if card (votes_received n1) \<ge> majority n1 then become_leader n1 else n1)
        in (role (st n2), n2))"

subsection \<open>Log replication\<close>

definition append_reply :: "raft_state \<Rightarrow> bool \<Rightarrow> append_response" where
  "append_reply s ok =
     \<lparr>ar_term = current_term s, ar_success = ok, ar_follower_id = node_id s, ar_match_index = last_log_index s\<rparr>"

text \<open>
  An index error raised in the loop leaves the log as the loop had made it so far, so the
  handlers return the outcome and the node.
\<close>

fun merge_entries :: "log_entry list \<Rightarrow> log_entry list \<Rightarrow> unit res \<times> log_entry list" where
  "merge_entries lg [] = (Inr (), lg)"
| "merge_entries lg (e # es) =
     (if le_index e \<le> int (length lg) then
        (case py_index lg (le_index e - 1) of
           Inl x \<Rightarrow> (Inl x, lg)
         | Inr old \<Rightarrow>
             if le_term old \<noteq> le_term e
             then merge_entries (py_upto lg (le_index e - 1) @ [e]) es
             else merge_entries lg es)
      else merge_entries (lg @ [e]) es)"

definition accept_entries :: "append_request \<Rightarrow> raft_node \<Rightarrow> append_response res \<times> raft_node" where
  "accept_entries req n =
     (case merge_entries (raft_log (st n)) (aq_entries req) of
        (Inl x, lg) \<Rightarrow> (Inl x, n\<lparr>st := (st n)\<lparr>raft_log := lg\<rparr>\<rparr>)
      | (Inr _, lg) \<Rightarrow>
          let s1 = (st n)\<lparr>raft_log := lg\<rparr>;
              s2 = (if aq_leader_commit req > commit_index s1
                    then s1\<lparr>commit_index := min (aq_leader_commit req) (last_log_index s1)\<rparr> else s1)
          in (Inr (append_reply s2 True), n\<lparr>st := s2\<rparr>))"

definition handle_append_entries :: "raft_node \<Rightarrow> append_request \<Rightarrow> append_response res \<times> raft_node" where
  "handle_append_entries n req =
     (if aq_term req < current_term (st n) then (Inr (append_reply (st n) False), n)
      else
        let s = (st n)\<lparr>current_term := aq_term req, role := FOLLOWER, leader_id := Some (aq_leader_id req)\<rparr>;
            n1 = n\<lparr>st := s, votes_received := {}\<rparr>
        in
        if aq_prev_log_index req > 0 then
          if last_log_index s < aq_prev_log_index req then (Inr (append_reply s False), n1)
          else (case py_index (raft_log s) (aq_prev_log_index req - 1) of
                  Inl x \<Rightarrow> (Inl x, n1)
                | Inr prev \<Rightarrow>
                    if le_term prev \<noteq> aq_prev_log_term req then
                      let s1 = s\<lparr>raft_log := py_upto (raft_log s) (aq_prev_log_index req - 1)\<rparr>
                      in (Inr (append_reply s1 False), n1\<lparr>st := s1\<rparr>)
                    else accept_entries req n1)
        else accept_entries req n1)"

text \<open>
  The scan of the leader for a higher commit index: \<open>n\<close> runs down from the last log index
  to the current commit index.
\<close>

definition replicated_on :: "raft_node \<Rightarrow> int \<Rightarrow> nat" where
  "replicated_on n k = 1 + card {p \<in> peers n. get0 (match_index n) p 0 \<ge> k}"

fun commit_scan :: "nat \<Rightarrow> raft_node \<Rightarrow> int \<Rightarrow> int res" where
  "commit_scan 0 n k = Inr (commit_index (st n))"
| "commit_scan (Suc m) n k =
     (if k < 1 then Inr (commit_index (st n))
      else bind_res (py_index (raft_log (st n)) (k - 1)) (\<lambda>e.
        if le_term e \<noteq> current_term (st n) then commit_scan m n (k - 1)
        else if replicated_on n k \<ge> majority n then Inr k
        else commit_scan m n (k - 1)))"

definition note_response :: "raft_node \<Rightarrow> append_response \<Rightarrow> raft_node" where
  "note_response n resp =
     (let p = ar_follower_id resp in
      if ar_success resp then
        let mi = max (get0 (match_index n) p 0) (ar_match_index resp)
        in n\<lparr>match_index := (match_index n)(p \<mapsto> mi), next_index := (next_index n)(p \<mapsto> mi + 1)\<rparr>
      else n\<lparr>next_index := (next_index n)(p \<mapsto> max 1 (get0 (next_index n) p 1 - 1))\<rparr>)"

definition handle_append_entries_response :: "raft_node \<Rightarrow> append_response \<Rightarrow> int res \<times> raft_node" where
  "handle_append_entries_response n resp =
     (if ar_term resp > current_term (st n)
      then (Inr (commit_index (st n)), step_down (ar_term resp) n)
      else if role (st n) \<noteq> LEADER then (Inr (commit_index (st n)), n)
      else
        let n1 = note_response n resp; l = last_log_index (st n1) in
        case commit_scan (nat (l - commit_index (st n1))) n1 l of
          Inl x \<Rightarrow> (Inl x, n1)
        | Inr c \<Rightarrow> (Inr c, n1\<lparr>st := (st n1)\<lparr>commit_index := c\<rparr>\<rparr>))"

subsection \<open>Leader operations\<close>

definition not_leader :: exn where
  "not_leader = RuntimeError ''NotLeaderError''"

definition append_command :: "raft_node \<Rightarrow> string \<Rightarrow> (log_entry \<times> raft_node) res" where
  "append_command n cmd =
     (if \<not> is_leader n then Inl not_leader
      else let e = entry_create (last_log_index (st n) + 1) (current_term (st n)) cmd
           in Inr (e, n\<lparr>st := (st n)\<lparr>raft_log := raft_log (st n) @ [e]\<rparr>\<rparr>))"

definition build_append_entries :: "raft_node \<Rightarrow> string \<Rightarrow> append_request res" where
  "build_append_entries n p =
     (if \<not> is_leader n then Inl not_leader
      else if p \<notin> peers n then Inl (KeyError p)
      else
        let nxt = get0 (next_index n) p 1; prev = nxt - 1;
            lg = raft_log (st n);
            pt = (if prev > 0 \<and> prev \<le> int (length lg) then le_term (lg ! nat (prev - 1)) else 0)
        in Inr \<lparr>aq_term = current_term (st n), aq_leader_id = node_id (st n), aq_prev_log_index = prev,
                aq_prev_log_term = pt, aq_entries = filter (\<lambda>e. le_index e \<ge> nxt) lg,
                aq_leader_commit = commit_index (st n)\<rparr>)"

end
