(* ===== verification/Raft_Election.thy ===== *)
theory Raft_Election
  imports Raft
begin

section \<open>Election safety\<close>

text \<open>
  A cluster runs the handlers of theory \<open>Raft\<close> over a network that may delay, duplicate and
  reorder messages: every message ever sent stays available. The parameter \<open>fresh\<close> says
  whether the network also guarantees that a vote response is not delivered after its
  candidate has moved to a later term. With that guarantee there is at most one leader
  per term; without it the handlers elect two, because \<open>handle_vote_response\<close> does not
  compare the term of a response with its own.
\<close>

subsection \<open>Quorums\<close>

locale quorum_system =
  fixes quorum :: "'a set \<Rightarrow> bool"
  assumes quorums_meet: "quorum P \<Longrightarrow> quorum Q \<Longrightarrow> \<exists>x. x \<in> P \<and> x \<in> Q"
begin

lemma one_choice:
  assumes "quorum P" and "\<And>x. x \<in> P \<Longrightarrow> vote x = Some a"
    and "quorum Q" and "\<And>x. x \<in> Q \<Longrightarrow> vote x = Some b"
  shows "a = b"
proof -
  from quorums_meet [OF assms(1,3)] obtain x where "x \<in> P" "x \<in> Q" by blast
  with assms(2,4) have "Some a = Some b" by metis
  then show ?thesis by simp
qed

end

definition is_majority :: "string set \<Rightarrow> string set \<Rightarrow> bool" where
  "is_majority ids Q \<longleftrightarrow> finite ids \<and> Q \<subseteq> ids \<and> card ids div 2 + 1 \<le> card Q"

lemma majorities_meet:
  assumes "is_majority ids P" and "is_majority ids Q"
  shows "\<exists>x. x \<in> P \<and> x \<in> Q"
proof (rule ccontr)
  assume "\<not> ?thesis"
  then have "P \<inter> Q = {}" by blast
  moreover have fin: "finite P" "finite Q" "finite ids" and sub: "P \<union> Q \<subseteq> ids"
    using assms by (auto simp: is_majority_def intro: finite_subset)
  ultimately have "card P + card Q = card (P \<union> Q)"
    by (simp add: card_Un_disjoint)
  also have "\<dots> \<le> card ids"
    using fin sub by (simp add: card_mono)
  finally show False
    using assms unfolding is_majority_def by linarith
qed

interpretation maj: quorum_system "is_majority ids" for ids
  by unfold_locales (rule majorities_meet)

subsection \<open>A cluster\<close>

record cluster =
  node_of :: "string \<Rightarrow> raft_node"
  vreqs :: "vote_request set"
  vresps :: "(string \<times> vote_response) set"
  areqs :: "(string \<times> append_request) set"
  aresps :: "(string \<times> append_response) set"
  votes :: "string \<Rightarrow> int \<Rightarrow> string option"

definition set_node :: "string \<Rightarrow> raft_node \<Rightarrow> cluster \<Rightarrow> cluster" where
  "set_node i n c = c\<lparr>node_of := (node_of c)(i := n)\<rparr>"

text \<open>The votes that were cast are kept as a history; the handlers do not read it.\<close>

definition cast_vote :: "string \<Rightarrow> int \<Rightarrow> string \<Rightarrow> cluster \<Rightarrow> cluster" where
  "cast_vote v t cand c = c\<lparr>votes := (votes c)(v := (votes c v)(t := Some cand))\<rparr>"

definition cluster_init :: "string list \<Rightarrow> cluster" where
  "cluster_init is =
     \<lparr>node_of = (\<lambda>i. node_init i (filter (\<lambda>p. p \<noteq> i) is)), vreqs = {}, vresps = {}, areqs = {}, aresps = {},
      votes = (\<lambda>_ _. None)\<rparr>"

inductive cl_step :: "bool \<Rightarrow> string set \<Rightarrow> cluster \<Rightarrow> cluster \<Rightarrow> bool" for fresh ids where
  Elect: "i \<in> ids \<Longrightarrow> start_election (node_of c i) = (req, n) \<Longrightarrow>
     cl_step fresh ids c ((cast_vote i (current_term (st n)) i (set_node i n c))\<lparr>vreqs := insert req (vreqs c)\<rparr>)"
| Vote: "i \<in> ids \<Longrightarrow> req \<in> vreqs c \<Longrightarrow> handle_vote_request (node_of c i) req = (resp, n) \<Longrightarrow>
     cl_step fresh ids c
       ((if vr_granted resp then cast_vote i (vr_term resp) (vq_candidate_id req) (set_node i n c) else set_node i n c)
        \<lparr>vresps := insert (vq_candidate_id req, resp) (vresps c)\<rparr>)"
| Count: "i \<in> ids \<Longrightarrow> (i, resp) \<in> vresps c \<Longrightarrow> fresh \<longrightarrow> vr_term resp \<ge> current_term (st (node_of c i)) \<Longrightarrow>
     handle_vote_response (node_of c i) resp = (r, n) \<Longrightarrow> cl_step fresh ids c (set_node i n c)"
| Command: "i \<in> ids \<Longrightarrow> append_command (node_of c i) cmd = Inr (e, n) \<Longrightarrow> cl_step fresh ids c (set_node i n c)"
| Replicate: "i \<in> ids \<Longrightarrow> build_append_entries (node_of c i) p = Inr req \<Longrightarrow>
     cl_step fresh ids c (c\<lparr>areqs := insert (p, req) (areqs c)\<rparr>)"
| Append: "i \<in> ids \<Longrightarrow> (i, req) \<in> areqs c \<Longrightarrow> handle_append_entries (node_of c i) req = (resp, n) \<Longrightarrow>
     cl_step fresh ids c
       ((set_node i n c)\<lparr>aresps := (case resp of Inl _ \<Rightarrow> aresps c | Inr a \<Rightarrow> insert (aq_leader_id req, a) (aresps c))\<rparr>)"
| Ack: "i \<in> ids \<Longrightarrow> (i, a) \<in> aresps c \<Longrightarrow> handle_append_entries_response (node_of c i) a = (r, n) \<Longrightarrow>
     cl_step fresh ids c (set_node i n c)"

inductive cl_reachable :: "bool \<Rightarrow> string list \<Rightarrow> cluster \<Rightarrow> bool" for fresh ids where
  Init: "cl_reachable fresh ids (cluster_init ids)"
| Step: "cl_reachable fresh ids c \<Longrightarrow> cl_step fresh (set ids) c c' \<Longrightarrow> cl_reachable fresh ids c'"

subsection \<open>The invariant\<close>

text \<open>What holds of one node, given the history of votes.\<close>

definition node_ok :: "string set \<Rightarrow> (string \<Rightarrow> int \<Rightarrow> string option) \<Rightarrow> string \<Rightarrow> raft_node \<Rightarrow> bool" where
  "node_ok ids vs i n \<longleftrightarrow>
     node_id (st n) = i \<and> peers n = ids - {i}
     \<and> (\<forall>t > current_term (st n). vs i t = None)
     \<and> (\<forall>cand. vs i (current_term (st n)) = Some cand \<longrightarrow> voted_for (st n) = Some cand)
     \<and> (role (st n) \<noteq> FOLLOWER \<longrightarrow>
          votes_received n \<subseteq> ids \<and> (\<forall>v \<in> votes_received n. vs v (current_term (st n)) = Some i))
     \<and> (role (st n) = LEADER \<longrightarrow> majority n \<le> card (votes_received n))"

definition response_ok :: "string set \<Rightarrow> (string \<Rightarrow> int \<Rightarrow> string option) \<Rightarrow> string \<times> vote_response \<Rightarrow> bool" where
  "response_ok ids vs r \<longleftrightarrow>
     (vr_granted (snd r) \<longrightarrow> vr_voter_id (snd r) \<in> ids
        \<and> vs (vr_voter_id (snd r)) (vr_term (snd r)) = Some (fst r))"

definition cl_inv :: "string set \<Rightarrow> cluster \<Rightarrow> bool" where
  "cl_inv ids c \<longleftrightarrow> (\<forall>i \<in> ids. node_ok ids (votes c) i (node_of c i)) \<and> (\<forall>r \<in> vresps c. response_ok ids (votes c) r)"

text \<open>A vote is never changed once cast.\<close>

definition votes_le :: "(string \<Rightarrow> int \<Rightarrow> string option) \<Rightarrow> (string \<Rightarrow> int \<Rightarrow> string option) \<Rightarrow> bool" where
  "votes_le vs vs' \<longleftrightarrow> (\<forall>v t cand. vs v t = Some cand \<longrightarrow> vs' v t = Some cand)"

lemma votes_le_refl [simp]: "votes_le vs vs"
  by (simp add: votes_le_def)

lemma response_ok_mono: "response_ok ids vs r \<Longrightarrow> votes_le vs vs' \<Longrightarrow> response_ok ids vs' r"
  by (simp add: response_ok_def votes_le_def)

lemma node_ok_mono: "node_ok ids vs j n \<Longrightarrow> votes_le vs vs' \<Longrightarrow> vs' j = vs j \<Longrightarrow> node_ok ids vs' j n"
  by (auto simp: node_ok_def votes_le_def)

lemma votes_le_cast:
  "vs v t = None \<or> vs v t = Some cand \<Longrightarrow> votes_le vs (vs(v := (vs v)(t := Some cand)))"
  by (auto simp: votes_le_def)

lemma cl_inv_change:
  assumes "cl_inv ids c" and "i \<in> ids" and "votes_le (votes c) (votes c')" and "\<And>j. j \<noteq> i \<Longrightarrow> votes c' j = votes c j"
    and "\<And>j. j \<noteq> i \<Longrightarrow> node_of c' j = node_of c j" and "node_ok ids (votes c') i (node_of c' i)"
    and "\<And>r. r \<in> vresps c' \<Longrightarrow> r \<in> vresps c \<or> response_ok ids (votes c') r"
  shows "cl_inv ids c'"
proof -
  have "node_ok ids (votes c') j (node_of c' j)" if "j \<in> ids" for j
    using assms that node_ok_mono [of ids "votes c" j "node_of c j" "votes c'"]
    by (cases "j = i") (simp_all add: cl_inv_def)
  moreover have "response_ok ids (votes c') r" if "r \<in> vresps c'" for r
    using assms(1,3,7) that response_ok_mono unfolding cl_inv_def by blast
  ultimately show ?thesis by (simp add: cl_inv_def)
qed

subsection \<open>The handlers keep it\<close>

lemma node_ok_step_down:
  "node_ok ids vs i n \<Longrightarrow> current_term (st n) < t \<Longrightarrow> node_ok ids vs i (step_down t n)"
  by (simp add: node_ok_def step_down_def)

lemma node_ok_elect:
  assumes "node_ok ids vs i n" and "i \<in> ids" and "start_election n = (req, n')"
  shows "vs i (current_term (st n')) = None"
    and "node_ok ids (vs(i := (vs i)(current_term (st n') := Some i))) i n'"
  using assms by (auto simp: node_ok_def start_election_def Let_def)

lemma node_ok_vote:
  assumes "node_ok ids vs i n" and "i \<in> ids" and "handle_vote_request n req = (resp, n')"
  defines "vs' \<equiv> (if vr_granted resp then vs(i := (vs i)(vr_term resp := Some (vq_candidate_id req))) else vs)"
  shows "votes_le vs vs' \<and> node_ok ids vs' i n' \<and> response_ok ids vs' (vq_candidate_id req, resp)"
proof -
  define m where "m = (if vq_term req > current_term (st n) then step_down (vq_term req) n else n)"
  have m: "node_ok ids vs i m"
    using assms(1) node_ok_step_down by (simp add: m_def)
  show ?thesis
  proof (cases "vr_granted resp")
    case True
    with assms(3) have resp: "resp = vote_reply n' True" "n' = m\<lparr>st := (st m)\<lparr>voted_for := Some (vq_candidate_id req)\<rparr>\<rparr>"
      and v: "voted_for (st m) = None \<or> voted_for (st m) = Some (vq_candidate_id req)"
      by (auto simp: handle_vote_request_def Let_def m_def vote_reply_def split: if_splits)
    have "vs i (current_term (st m)) = None \<or> vs i (current_term (st m)) = Some (vq_candidate_id req)"
      using m v by (cases "vs i (current_term (st m))") (auto simp: node_ok_def)
    then have le: "votes_le vs vs'"
      using True resp by (simp add: vs'_def vote_reply_def votes_le_cast)
    moreover have "node_ok ids vs' i n'"
      using m le resp True by (auto simp: node_ok_def vs'_def vote_reply_def majority_def votes_le_def)
    moreover have "response_ok ids vs' (vq_candidate_id req, resp)"
      using m resp True assms(2) by (simp add: response_ok_def vs'_def vote_reply_def node_ok_def)
    ultimately show ?thesis by blast
  next
    case False
    with assms(3) have "n' = m"
      by (auto simp: handle_vote_request_def Let_def m_def vote_reply_def split: if_splits)
    with False m show ?thesis by (simp add: vs'_def response_ok_def)
  qed
qed

lemma become_leader_sel [simp]:
  "peers (become_leader n) = peers n" "votes_received (become_leader n) = votes_received n"
  "node_id (st (become_leader n)) = node_id (st n)" "current_term (st (become_leader n)) = current_term (st n)"
  "voted_for (st (become_leader n)) = voted_for (st n)" "role (st (become_leader n)) = LEADER"
  "majority (become_leader n) = majority n"
  by (simp_all add: become_leader_def Let_def majority_def)

lemma node_ok_count:
  assumes ok: "node_ok ids vs i n" and r: "response_ok ids vs (i, resp)"
    and fresh: "current_term (st n) \<le> vr_term resp" and h: "handle_vote_response n resp = (rl, n')"
  shows "node_ok ids vs i n'"
proof (cases "vr_term resp > current_term (st n) \<or> role (st n) \<noteq> CANDIDATE")
  case True
  with assms show ?thesis
    by (auto simp: handle_vote_response_def node_ok_step_down split: if_splits)
next
  case False
  with fresh have t: "vr_term resp = current_term (st n)" by simp
  define n1 where "n1 = (if vr_granted resp then n\<lparr>votes_received := insert (vr_voter_id resp) (votes_received n)\<rparr> else n)"
  have "node_ok ids vs i n1"
    using ok r t False by (auto simp: n1_def node_ok_def response_ok_def)
  moreover have "n' = (if card (votes_received n1) \<ge> majority n1 then become_leader n1 else n1)"
    using h [unfolded handle_vote_response_def Let_def, folded n1_def] False by simp
  moreover have "role (st n1) = CANDIDATE"
    using False by (simp add: n1_def)
  ultimately show ?thesis
    by (auto simp: node_ok_def)
qed

lemma accept_entries_sel:
  "accept_entries req n = (r, n') \<Longrightarrow> peers n' = peers n \<and> votes_received n' = votes_received n
     \<and> node_id (st n') = node_id (st n) \<and> current_term (st n') = current_term (st n)
     \<and> voted_for (st n') = voted_for (st n) \<and> role (st n') = role (st n)"
  by (auto simp: accept_entries_def Let_def split: prod.splits sum.splits)

lemma handle_append_cases:
  assumes "handle_append_entries n req = (r, n')"
  shows "n' = n \<or> peers n' = peers n \<and> node_id (st n') = node_id (st n) \<and> current_term (st n) \<le> current_term (st n')
     \<and> voted_for (st n') = voted_for (st n) \<and> role (st n') = FOLLOWER"
  using assms
  by (auto simp: handle_append_entries_def Let_def dest!: accept_entries_sel split: if_splits sum.splits)

lemma node_ok_append:
  assumes "node_ok ids vs i n" and "handle_append_entries n req = (r, n')"
  shows "node_ok ids vs i n'"
  using handle_append_cases [OF assms(2)]
proof
  assume h: "peers n' = peers n \<and> node_id (st n') = node_id (st n) \<and> current_term (st n) \<le> current_term (st n')
     \<and> voted_for (st n') = voted_for (st n) \<and> role (st n') = FOLLOWER"
  with assms(1) show ?thesis
    by (cases "current_term (st n) = current_term (st n')") (auto simp: node_ok_def)
qed (use assms(1) in simp)

lemma note_response_sel:
  "st (note_response n a) = st n \<and> peers (note_response n a) = peers n
     \<and> votes_received (note_response n a) = votes_received n"
  by (simp add: note_response_def Let_def)

lemma node_ok_ack:
  assumes "node_ok ids vs i n" and "handle_append_entries_response n a = (r, n')"
  shows "node_ok ids vs i n'"
proof (cases "ar_term a > current_term (st n) \<or> role (st n) \<noteq> LEADER")
  case True
  with assms show ?thesis
    by (auto simp: handle_append_entries_response_def node_ok_step_down split: if_splits)
next
  case False
  with assms(2) have "\<exists>c. n' = (note_response n a)\<lparr>st := (st n)\<lparr>commit_index := c\<rparr>\<rparr> \<or> n' = note_response n a"
    using note_response_sel [of n a]
    by (auto simp: handle_append_entries_response_def Let_def split: sum.splits)
  with assms(1) note_response_sel [of n a] show ?thesis
    by (auto simp: node_ok_def majority_def)
qed

lemma node_ok_command:
  assumes "node_ok ids vs i n" and "append_command n cmd = Inr (e, n')"
  shows "node_ok ids vs i n'"
  using assms by (auto simp: append_command_def node_ok_def majority_def Let_def split: if_splits)

theorem cl_inv_step: "cl_step True ids c c' \<Longrightarrow> cl_inv ids c \<Longrightarrow> cl_inv ids c'"
proof (induction rule: cl_step.induct)
  case (Elect i c req n)
  then have "node_ok ids (votes c) i (node_of c i)" by (simp add: cl_inv_def)
  note ok = node_ok_elect [OF this Elect.hyps]
  show ?case
    using ok by (intro cl_inv_change [OF Elect.prems Elect.hyps(1)])
      (simp_all add: cast_vote_def set_node_def votes_le_cast)
next
  case (Vote i req c resp n)
  then have "node_ok ids (votes c) i (node_of c i)" by (simp add: cl_inv_def)
  from node_ok_vote [OF this Vote.hyps(1,3)] show ?case
    by (intro cl_inv_change [OF Vote.prems Vote.hyps(1)])
      (auto simp: cast_vote_def set_node_def)
next
  case (Count i resp c r n)
  then have ok: "node_ok ids (votes c) i (node_of c i)" and "response_ok ids (votes c) (i, resp)"
    by (auto simp: cl_inv_def)
  from node_ok_count [OF this _ Count.hyps(4)] Count.hyps(3) show ?case
    by (intro cl_inv_change [OF Count.prems Count.hyps(1)]) (simp_all add: set_node_def)
next
  case (Command i c cmd e n)
  then have "node_ok ids (votes c) i n" by (auto simp: cl_inv_def intro: node_ok_command)
  then show ?case
    by (intro cl_inv_change [OF Command.prems Command.hyps(1)]) (simp_all add: set_node_def)
next
  case (Replicate i c p req)
  then show ?case by (simp add: cl_inv_def)
next
  case (Append i req c resp n)
  then have "node_ok ids (votes c) i n" by (auto simp: cl_inv_def intro: node_ok_append)
  then show ?case
    by (intro cl_inv_change [OF Append.prems Append.hyps(1)]) (simp_all add: set_node_def)
next
  case (Ack i a c r n)
  then have "node_ok ids (votes c) i n" by (auto simp: cl_inv_def intro: node_ok_ack)
  then show ?case
    by (intro cl_inv_change [OF Ack.prems Ack.hyps(1)]) (simp_all add: set_node_def)
qed

lemma cl_reachable_inv: "cl_reachable True ids c \<Longrightarrow> cl_inv (set ids) c"
proof (induction rule: cl_reachable.induct)
  case Init
  show ?case
    by (auto simp: cl_inv_def cluster_init_def node_ok_def node_init_def)
qed (rule cl_inv_step)

lemma leader_quorum:
  assumes "node_ok ids vs i n" and "role (st n) = LEADER" and "finite ids" and "i \<in> ids"
  shows "is_majority ids (votes_received n)"
    and "\<And>v. v \<in> votes_received n \<Longrightarrow> vs v (current_term (st n)) = Some i"
proof -
  have "1 + card (ids - {i}) = card ids"
    using assms(3,4) by (metis Suc_eq_plus1_left card_Suc_Diff1)
  with assms show "is_majority ids (votes_received n)"
    by (auto simp: node_ok_def is_majority_def majority_def)
qed (use assms in \<open>simp add: node_ok_def\<close>)

text \<open>
  C5. Election safety: in every state a cluster can reach over a network that may lose,
  delay, duplicate and reorder messages but does not deliver a vote response after its
  candidate has moved to a later term, two leaders of the same term are the same node.
\<close>

theorem election_safety:
  assumes "cl_reachable True ids c" and "i \<in> set ids" and "j \<in> set ids"
    and "is_leader (node_of c i)" and "is_leader (node_of c j)"
    and "current_term (st (node_of c i)) = current_term (st (node_of c j))"
  shows "i = j"
proof -
  have ok: "node_ok (set ids) (votes c) k (node_of c k)" if "k \<in> set ids" for k
    using cl_reachable_inv [OF assms(1)] that by (simp add: cl_inv_def)
  let ?v = "\<lambda>v. votes c v (current_term (st (node_of c i)))"
  note qi = leader_quorum [OF ok [OF assms(2)] _ finite_set assms(2)]
    and qj = leader_quorum [OF ok [OF assms(3)] _ finite_set assms(3)]
  from assms(4-6) qi qj
  have "is_majority (set ids) (votes_received (node_of c i))" "\<And>v. v \<in> votes_received (node_of c i) \<Longrightarrow> ?v v = Some i"
    "is_majority (set ids) (votes_received (node_of c j))" "\<And>v. v \<in> votes_received (node_of c j) \<Longrightarrow> ?v v = Some j"
    by (simp_all add: is_leader_def)
  then show ?thesis
    by (rule maj.one_choice)
qed

subsection \<open>Running a cluster\<close>

text \<open>A schedule of election steps, executed: every run is a run of the step relation.\<close>

datatype action = DoElect string | DoVote string vote_request | DoCount string vote_response

definition enabled_count :: "bool \<Rightarrow> cluster \<Rightarrow> string \<Rightarrow> vote_response \<Rightarrow> bool" where
  "enabled_count fresh c i resp \<longleftrightarrow>
     (i, resp) \<in> vresps c \<and> (fresh \<longrightarrow> vr_term resp \<ge> current_term (st (node_of c i)))"

fun perform :: "bool \<Rightarrow> action \<Rightarrow> cluster \<Rightarrow> cluster option" where
  "perform fresh (DoElect i) c =
     (case start_election (node_of c i) of (req, n) \<Rightarrow>
        Some ((cast_vote i (current_term (st n)) i (set_node i n c))\<lparr>vreqs := insert req (vreqs c)\<rparr>))"
| "perform fresh (DoVote i req) c =
     (if req \<notin> vreqs c then None
      else case handle_vote_request (node_of c i) req of (resp, n) \<Rightarrow>
        Some ((if vr_granted resp then cast_vote i (vr_term resp) (vq_candidate_id req) (set_node i n c) else set_node i n c)
          \<lparr>vresps := insert (vq_candidate_id req, resp) (vresps c)\<rparr>))"
| "perform fresh (DoCount i resp) c =
     (if \<not> enabled_count fresh c i resp then None
      else Some (set_node i (snd (handle_vote_response (node_of c i) resp)) c))"

fun actor :: "action \<Rightarrow> string" where
  "actor (DoElect i) = i"
| "actor (DoVote i _) = i"
| "actor (DoCount i _) = i"

fun run :: "bool \<Rightarrow> action list \<Rightarrow> cluster \<Rightarrow> cluster option" where
  "run fresh [] c = Some c"
| "run fresh (a # as) c = (case perform fresh a c of None \<Rightarrow> None | Some c' \<Rightarrow> run fresh as c')"

lemma perform_step: "perform fresh a c = Some c' \<Longrightarrow> actor a \<in> ids \<Longrightarrow> cl_step fresh ids c c'"
proof (cases a)
  case (DoElect i)
  assume "perform fresh a c = Some c'" "actor a \<in> ids"
  with DoElect cl_step.Elect [of i ids c] show ?thesis
    by (cases "start_election (node_of c i)") auto
next
  case (DoVote i req)
  assume "perform fresh a c = Some c'" "actor a \<in> ids"
  moreover obtain resp n where h: "handle_vote_request (node_of c i) req = (resp, n)"
    by (cases "handle_vote_request (node_of c i) req")
  ultimately show ?thesis
    using DoVote cl_step.Vote [OF _ _ h, of ids fresh] by (simp split: if_split_asm)
next
  case (DoCount i resp)
  assume "perform fresh a c = Some c'" "actor a \<in> ids"
  with DoCount cl_step.Count [of i ids resp c fresh] show ?thesis
    by (cases "handle_vote_response (node_of c i) resp") (auto simp: enabled_count_def split: if_splits)
qed

lemma run_reachable:
  "run fresh as c = Some c' \<Longrightarrow> list_all (\<lambda>a. actor a \<in> set ids) as \<Longrightarrow> cl_reachable fresh ids c
     \<Longrightarrow> cl_reachable fresh ids c'"
proof (induction as arbitrary: c)
  case (Cons a as)
  then obtain c1 where "perform fresh a c = Some c1" "run fresh as c1 = Some c'"
    by (auto split: option.splits)
  moreover from this Cons.prems have "cl_reachable fresh ids c1"
    by (auto intro: cl_reachable.Step [of fresh ids c] perform_step)
  ultimately show ?case
    using Cons by simp
qed simp

definition vreq :: "int \<Rightarrow> string \<Rightarrow> vote_request" where
  "vreq t i = \<lparr>vq_term = t, vq_candidate_id = i, vq_last_log_index = 0, vq_last_log_term = 0\<rparr>"

definition vresp :: "int \<Rightarrow> string \<Rightarrow> vote_response" where
  "vresp t v = \<lparr>vr_term = t, vr_granted = True, vr_voter_id = v\<rparr>"

definition normal_run :: "action list" where
  "normal_run = [DoElect ''A'', DoVote ''B'' (vreq 1 ''A''), DoCount ''A'' (vresp 1 ''B'')]"

definition stale_run :: "action list" where
  "stale_run = [DoElect ''A'', DoVote ''B'' (vreq 1 ''A''), DoElect ''A'', DoElect ''C'', DoElect ''C'',
     DoVote ''B'' (vreq 2 ''C''), DoCount ''C'' (vresp 2 ''B''), DoCount ''A'' (vresp 1 ''B'')]"

definition leads :: "string \<Rightarrow> int \<Rightarrow> cluster \<Rightarrow> bool" where
  "leads i t c \<longleftrightarrow> is_leader (node_of c i) \<and> current_term (st (node_of c i)) = t"

lemma normal_run_elects:
  "case run True normal_run (cluster_init [''A'', ''B'', ''C'']) of None \<Rightarrow> False | Some c \<Rightarrow> leads ''A'' 1 c"
  by code_simp

lemma stale_run_elects_two:
  "case run False stale_run (cluster_init [''A'', ''B'', ''C'']) of None \<Rightarrow> False
   | Some c \<Rightarrow> leads ''A'' 2 c \<and> leads ''C'' 2 c"
  by code_simp

theorem election_safety_witness:
  "\<exists>c. cl_reachable True [''A'', ''B'', ''C''] c \<and> is_leader (node_of c ''A'')
     \<and> (\<forall>j \<in> set [''A'', ''B'', ''C'']. leads j 1 c \<longrightarrow> ''A'' = j)"
proof -
  from normal_run_elects obtain c where c: "run True normal_run (cluster_init [''A'', ''B'', ''C'']) = Some c" "leads ''A'' 1 c"
    by (auto split: option.splits)
  have r: "cl_reachable True [''A'', ''B'', ''C''] c"
    by (rule run_reachable [OF c(1) _ cl_reachable.Init]) (simp add: normal_run_def)
  have "''A'' = j" if "j \<in> set [''A'', ''B'', ''C'']" "leads j 1 c" for j
    using that c(2) by (intro election_safety [OF r]) (simp_all add: leads_def)
  with r c(2) show ?thesis
    by (auto simp: leads_def)
qed

text \<open>
  Without that guarantee the handlers elect two leaders in one term: a vote cast for
  \<open>A\<close> in term 1 that is delivered when \<open>A\<close> is already a candidate in term 2 is counted
  there, while the same voter has elected \<open>C\<close> in term 2.
\<close>

theorem stale_vote_elects_two_leaders:
  "\<exists>c. cl_reachable False [''A'', ''B'', ''C''] c \<and> leads ''A'' 2 c \<and> leads ''C'' 2 c"
proof -
  from stale_run_elects_two obtain c where
    c: "run False stale_run (cluster_init [''A'', ''B'', ''C'']) = Some c" "leads ''A'' 2 c" "leads ''C'' 2 c"
    by (auto split: option.splits)
  have "cl_reachable False [''A'', ''B'', ''C''] c"
    by (rule run_reachable [OF c(1) _ cl_reachable.Init]) (simp add: stale_run_def)
  with c show ?thesis by blast
qed

end
