(* ===== verification/Raft_Log.thy ===== *)
theory Raft_Log
  imports Raft
begin

section \<open>Log replication and commitment\<close>

text \<open>
  Logs are numbered by position, a well-formed request never makes a handler raise and
  leaves the follower's log equal to the leader's entries where it was told, and the
  leader commits exactly the highest entry of its own term that a majority holds. Two
  places where the handlers depart from their documentation are shown on concrete states.
\<close>

subsection \<open>Entry hashes\<close>

lemma entry_raw_inj:
  assumes "entry_raw i t cmd = entry_raw i' t' cmd'"
  shows "i = i' \<and> t = t' \<and> cmd = cmd'"
proof -
  have bar: "CHR ''|'' \<notin> set (str_int k)" for k
    by (rule str_int_sep) (simp add: decimal_char_def digits_def)
  from assms have 1: "str_int i @ CHR ''|'' # (str_int t @ CHR ''|'' # cmd)
      = str_int i' @ CHR ''|'' # (str_int t' @ CHR ''|'' # cmd')"
    by (simp add: entry_raw_def)
  from sep_split [OF 1 bar bar] have "str_int i = str_int i'"
    and 2: "str_int t @ CHR ''|'' # cmd = str_int t' @ CHR ''|'' # cmd'"
    by simp_all
  with sep_split [OF 2 bar bar] show ?thesis by simp
qed

lemma entry_create_valid: "is_hash_valid (entry_create i t cmd)"
  by (simp add: is_hash_valid_def recompute_hash_def entry_create_def)

definition entry_input :: "log_entry \<Rightarrow> bytes" where
  "entry_input e = encode (entry_raw (le_index e) (le_term e) (le_command e))"

text \<open>
  An entry hash commits to the entry: two entries with valid hashes and the same hash
  are the same entry, or their renderings are two byte strings with one SHA-256 digest.
\<close>

theorem entry_hash_binds:
  assumes "is_hash_valid d" and "is_hash_valid e" and "le_hash d = le_hash e"
  shows "d = e \<or> sha_collision (entry_input d) (entry_input e)"
proof (cases "entry_input d = entry_input e")
  case True
  then have "entry_raw (le_index d) (le_term d) (le_command d) = entry_raw (le_index e) (le_term e) (le_command e)"
    by (simp add: entry_input_def)
  with assms(3) show ?thesis
    using entry_raw_inj by (cases d, cases e) fastforce
next
  case False
  have "sha256 (entry_input d) = sha256 (entry_input e)"
    using assms by (simp add: is_hash_valid_def recompute_hash_def hexdigest_eq_iff entry_input_def)
  with False show ?thesis by (simp add: sha_collision_def)
qed

theorem entry_hash_binds_witness:
  "is_hash_valid (entry_create 1 1 ''x'')
   \<and> (entry_create 1 1 ''x'' = entry_create 1 1 ''x''
      \<or> sha_collision (entry_input (entry_create 1 1 ''x'')) (entry_input (entry_create 1 1 ''x'')))"
  using entry_hash_binds [OF entry_create_valid entry_create_valid refl, of 1 1 "''x''"] entry_create_valid by blast

subsection \<open>Numbered logs\<close>

definition log_wf :: "log_entry list \<Rightarrow> bool" where
  "log_wf lg \<longleftrightarrow> (\<forall>k < length lg. le_index (lg ! k) = int k + 1)"

definition consecutive :: "nat \<Rightarrow> log_entry list \<Rightarrow> bool" where
  "consecutive p es \<longleftrightarrow> (\<forall>k < length es. le_index (es ! k) = int (p + k) + 1)"

lemma log_wf_consecutive: "log_wf lg \<longleftrightarrow> consecutive 0 lg"
  by (simp add: log_wf_def consecutive_def)

lemma consecutive_Cons: "consecutive p (e # es) \<longleftrightarrow> le_index e = int p + 1 \<and> consecutive (Suc p) es"
  by (simp add: consecutive_def All_less_Suc2)

lemma log_wf_take: "log_wf lg \<Longrightarrow> log_wf (take k lg)"
  by (simp add: log_wf_def)

lemma log_wf_snoc: "log_wf lg \<Longrightarrow> le_index e = int (length lg) + 1 \<Longrightarrow> log_wf (lg @ [e])"
  by (auto simp: log_wf_def nth_append less_Suc_eq)

lemma log_wf_last: "log_wf (raft_log s) \<Longrightarrow> last_log_index s = int (length (raft_log s))"
  by (cases "raft_log s" rule: rev_cases) (auto simp: log_wf_def last_log_index_def nth_append)

text \<open>What the follower's log holds afterwards: the prefix, then the leader's entries up to terms.\<close>

definition agrees :: "nat \<Rightarrow> log_entry list \<Rightarrow> log_entry list \<Rightarrow> log_entry list \<Rightarrow> bool" where
  "agrees p lg es lg' \<longleftrightarrow>
     log_wf lg' \<and> take p lg' = take p lg \<and> p + length es \<le> length lg'
     \<and> (\<forall>k < length es. le_term (lg' ! (p + k)) = le_term (es ! k)
          \<and> (lg' ! (p + k) = es ! k \<or> p + k < length lg \<and> lg' ! (p + k) = lg ! (p + k)))"

lemma agrees_step:
  assumes "agrees (Suc p) lg1 es lg'" and "p < length lg1" and "take p lg1 = take p lg"
    and "le_term (lg1 ! p) = le_term e" and "lg1 ! p = e \<or> lg1 = lg"
    and "\<And>k. p < k \<Longrightarrow> k < length lg1 \<Longrightarrow> k < length lg \<and> lg1 ! k = lg ! k"
  shows "agrees p lg (e # es) lg'"
proof -
  have len: "Suc p + length es \<le> length lg'" and pre: "take (Suc p) lg' = take (Suc p) lg1"
    using assms(1) by (simp_all add: agrees_def)
  have p: "lg' ! p = lg1 ! p"
    using arg_cong [OF pre, of "\<lambda>xs. xs ! p"] by simp
  have "take p lg' = take p lg"
    using arg_cong [OF pre, of "take p"] assms(3) by (simp add: min_def)
  moreover have "le_term (lg' ! (p + k)) = le_term ((e # es) ! k)
      \<and> (lg' ! (p + k) = (e # es) ! k \<or> p + k < length lg \<and> lg' ! (p + k) = lg ! (p + k))"
    if "k < length (e # es)" for k
  proof (cases k)
    case 0
    with p assms show ?thesis by auto
  next
    case (Suc j)
    with that assms(1) have "le_term (lg' ! (Suc p + j)) = le_term (es ! j)"
      and "lg' ! (Suc p + j) = es ! j \<or> Suc p + j < length lg1 \<and> lg' ! (Suc p + j) = lg1 ! (Suc p + j)"
      by (simp_all add: agrees_def)
    with Suc assms(6) [of "Suc p + j"] show ?thesis by auto
  qed
  ultimately show ?thesis
    using assms(1) len by (simp add: agrees_def)
qed

lemma merge_entries_agrees:
  assumes "log_wf lg" and "consecutive p es" and "p \<le> length lg"
  shows "\<exists>lg'. merge_entries lg es = (Inr (), lg') \<and> agrees p lg es lg'"
  using assms
proof (induction es arbitrary: lg p)
  case Nil
  then show ?case by (simp add: agrees_def)
next
  case (Cons e es)
  from Cons.prems(2) have e: "le_index e = int p + 1" and es: "consecutive (Suc p) es"
    by (simp_all add: consecutive_Cons)
  consider "p < length lg" "le_term (lg ! p) = le_term e" | "p < length lg" "le_term (lg ! p) \<noteq> le_term e"
    | "p = length lg"
    using Cons.prems(3) by linarith
  then show ?case
  proof cases
    case 1
    with Cons.IH [OF Cons.prems(1) es] obtain lg' where
      "merge_entries lg es = (Inr (), lg')" "agrees (Suc p) lg es lg'"
      by auto
    with 1 e agrees_step [of p lg es lg' lg e] show ?thesis by simp
  next
    case 2
    let ?lg = "take p lg @ [e]"
    have "log_wf ?lg"
      using Cons.prems(1) e 2 by (intro log_wf_snoc log_wf_take) simp_all
    with Cons.IH [OF _ es, of ?lg] 2 obtain lg' where
      "merge_entries ?lg es = (Inr (), lg')" "agrees (Suc p) ?lg es lg'"
      by auto
    with 2 e agrees_step [of p ?lg es lg' lg e] show ?thesis
      by (simp add: nth_append)
  next
    case 3
    let ?lg = "lg @ [e]"
    have "log_wf ?lg"
      using Cons.prems(1) e 3 by (intro log_wf_snoc) simp_all
    with Cons.IH [OF _ es, of ?lg] 3 obtain lg' where
      "merge_entries ?lg es = (Inr (), lg')" "agrees (Suc p) ?lg es lg'"
      by auto
    with 3 e agrees_step [of p ?lg es lg' lg e] show ?thesis
      by simp
  qed
qed

definition request_wf :: "append_request \<Rightarrow> bool" where
  "request_wf req \<longleftrightarrow> 0 \<le> aq_prev_log_index req \<and> consecutive (nat (aq_prev_log_index req)) (aq_entries req)"

text \<open>
  Replication: on a numbered log and a request with consecutive entries the handler of
  \<open>AppendEntries\<close> never raises and the log stays numbered. A request of the current or a
  later term that succeeds leaves the log equal to the request's entries from the given
  position on, entry by entry up to equal terms, with everything before it untouched; a
  refusal leaves the log as it was or cut before the conflicting entry.
\<close>

theorem append_entries_replicates:
  assumes "log_wf (raft_log (st n))" and "request_wf req"
  defines "p \<equiv> nat (aq_prev_log_index req)" and "lg \<equiv> raft_log (st n)"
  shows "\<exists>resp n'. handle_append_entries n req = (Inr resp, n') \<and> log_wf (raft_log (st n'))
     \<and> (ar_success resp \<longrightarrow> current_term (st n) \<le> aq_term req \<and> current_term (st n') = aq_term req
          \<and> agrees p lg (aq_entries req) (raft_log (st n')))
     \<and> (\<not> ar_success resp \<longrightarrow> raft_log (st n') = lg \<or> raft_log (st n') = take (p - 1) lg)"
proof -
  let ?s = "(st n)\<lparr>current_term := aq_term req, role := FOLLOWER, leader_id := Some (aq_leader_id req)\<rparr>"
  let ?n1 = "n\<lparr>st := ?s, votes_received := {}\<rparr>"
  have last: "last_log_index ?s = int (length lg)"
    using log_wf_last [of ?s] assms(1) by (simp add: lg_def)
  have p: "aq_prev_log_index req = int p" and cons: "consecutive p (aq_entries req)"
    using assms(2) by (simp_all add: request_wf_def p_def)
  have accept: "\<exists>resp n'. accept_entries req ?n1 = (Inr resp, n') \<and> ar_success resp \<and> current_term (st n') = aq_term req
      \<and> agrees p lg (aq_entries req) (raft_log (st n'))" if "p \<le> length lg"
  proof -
    from merge_entries_agrees [OF assms(1) cons] that obtain lg' where
      "merge_entries lg (aq_entries req) = (Inr (), lg')" "agrees p lg (aq_entries req) lg'"
      by (auto simp: lg_def)
    then show ?thesis
      by (simp add: accept_entries_def lg_def Let_def append_reply_def)
  qed
  consider "aq_term req < current_term (st n)"
    | "current_term (st n) \<le> aq_term req" "length lg < p"
    | "current_term (st n) \<le> aq_term req" "0 < p" "p \<le> length lg" "le_term (lg ! (p - 1)) \<noteq> aq_prev_log_term req"
    | "current_term (st n) \<le> aq_term req" "p \<le> length lg" "p = 0 \<or> le_term (lg ! (p - 1)) = aq_prev_log_term req"
    by linarith
  then show ?thesis
  proof cases
    case 1
    then show ?thesis using assms(1) by (simp add: handle_append_entries_def append_reply_def lg_def)
  next
    case 2
    then show ?thesis
      using assms(1) last by (simp add: handle_append_entries_def append_reply_def lg_def p Let_def)
  next
    case 3
    then obtain k where k: "p = Suc k" by (cases p) simp_all
    then have "aq_prev_log_index req - 1 = int k" using p by simp
    with 3 k show ?thesis
      using assms(1) last
      by (simp add: handle_append_entries_def append_reply_def lg_def p Let_def log_wf_take)
  next
    case 4
    have "handle_append_entries n req = accept_entries req ?n1"
    proof (cases p)
      case (Suc k)
      then have "aq_prev_log_index req - 1 = int k" using p by simp
      with 4 Suc p last show ?thesis
        by (simp add: handle_append_entries_def Let_def lg_def)
    qed (use 4 p in \<open>simp add: handle_append_entries_def Let_def\<close>)
    with accept [OF 4(2)] 4(1) show ?thesis
      by (auto simp: agrees_def)
  qed
qed

definition follower :: "log_entry list \<Rightarrow> raft_node" where
  "follower lg = (node_init ''B'' [''A'', ''C''])\<lparr>st := (st (node_init ''B'' [''A'', ''C'']))\<lparr>raft_log := lg, current_term := 1\<rparr>\<rparr>"

definition ent :: "int \<Rightarrow> int \<Rightarrow> log_entry" where
  "ent i t = \<lparr>le_index = i, le_term = t, le_command = ''cmd'', le_hash = []\<rparr>"

definition heartbeat :: "int \<Rightarrow> int \<Rightarrow> int \<Rightarrow> log_entry list \<Rightarrow> int \<Rightarrow> append_request" where
  "heartbeat t p pt es lc =
     \<lparr>aq_term = t, aq_leader_id = ''A'', aq_prev_log_index = p, aq_prev_log_term = pt, aq_entries = es,
      aq_leader_commit = lc\<rparr>"

lemma small_logs:
  "log_wf (raft_log (st (follower [ent 1 1, ent 2 1])))"
  "request_wf (heartbeat 2 1 1 [ent 2 2, ent 3 2] 0)"
  by (simp_all add: log_wf_def follower_def ent_def node_init_def request_wf_def heartbeat_def consecutive_def
      All_less_Suc2)

theorem append_entries_replicates_witness:
  "\<exists>resp n'. handle_append_entries (follower [ent 1 1, ent 2 1]) (heartbeat 2 1 1 [ent 2 2, ent 3 2] 0) = (Inr resp, n')
     \<and> ar_success resp \<and> log_wf (raft_log (st n'))"
  using append_entries_replicates [OF small_logs]
  by (auto simp: follower_def heartbeat_def node_init_def handle_append_entries_def last_log_index_def ent_def
      py_index_def accept_entries_def Let_def append_reply_def)

subsection \<open>Commitment\<close>

definition qualifies :: "raft_node \<Rightarrow> int \<Rightarrow> bool" where
  "qualifies n k \<longleftrightarrow> 1 \<le> k \<and> k \<le> int (length (raft_log (st n)))
     \<and> le_term (raft_log (st n) ! nat (k - 1)) = current_term (st n) \<and> majority n \<le> replicated_on n k"

lemma commit_scan_correct:
  assumes "k \<le> int (length (raft_log (st n)))"
  shows "\<exists>c. commit_scan m n k = Inr c
     \<and> (c = commit_index (st n) \<and> (\<forall>j. k - int m < j \<and> j \<le> k \<longrightarrow> \<not> qualifies n j)
        \<or> k - int m < c \<and> c \<le> k \<and> qualifies n c \<and> (\<forall>j. c < j \<and> j \<le> k \<longrightarrow> \<not> qualifies n j))"
  using assms
proof (induction m arbitrary: k)
  case (Suc m)
  show ?case
  proof (cases "k < 1 \<or> qualifies n k")
    case True
    then show ?thesis
    proof
      assume "qualifies n k"
      then have "k - 1 = int (nat (k - 1))" "nat (k - 1) < length (raft_log (st n))" "\<not> k < 1"
        by (auto simp: qualifies_def)
      with \<open>qualifies n k\<close> have "commit_scan (Suc m) n k = Inr k"
        using py_index_nat [of "raft_log (st n)" "nat (k - 1)"] by (simp add: qualifies_def)
      with \<open>qualifies n k\<close> show ?thesis by auto
    qed (auto simp: qualifies_def)
  next
    case False
    then have "k - 1 = int (nat (k - 1))" "nat (k - 1) < length (raft_log (st n))"
      using Suc.prems by auto
    with False Suc.prems have "commit_scan (Suc m) n k = commit_scan m n (k - 1)"
      using py_index_nat [of "raft_log (st n)" "nat (k - 1)"] by (auto simp: qualifies_def)
    moreover have range: "(\<forall>j. a < j \<and> j \<le> k \<longrightarrow> \<not> qualifies n j) \<longleftrightarrow> (\<forall>j. a < j \<and> j \<le> k - 1 \<longrightarrow> \<not> qualifies n j)" for a
      using False by (metis zle_diff1_eq order.order_iff_strict)
    moreover have "k - int (Suc m) = k - 1 - int m"
      by simp
    ultimately show ?thesis
      using Suc.IH [of "k - 1"] Suc.prems by (simp only: range) auto
  qed
qed auto

text \<open>
  Commitment: a leader with a numbered log processes an acknowledgement of its term
  without raising; the commit index it returns and keeps is the old one if no entry above
  it qualifies, and otherwise the highest entry above it that is of the leader's own term
  and is held by a majority of the cluster. It never decreases.
\<close>

theorem leader_commits_majority:
  assumes "log_wf (raft_log (st n))" and "is_leader n" and "ar_term a \<le> current_term (st n)"
    and "commit_index (st n) \<le> last_log_index (st n)"
  defines "n1 \<equiv> note_response n a"
  shows "\<exists>c. handle_append_entries_response n a = (Inr c, n1\<lparr>st := (st n1)\<lparr>commit_index := c\<rparr>\<rparr>)
     \<and> commit_index (st n) \<le> c \<and> (c = commit_index (st n) \<or> qualifies n1 c)
     \<and> (\<forall>j > c. \<not> qualifies n1 j)"
proof -
  have st: "st n1 = st n"
    by (simp add: n1_def note_response_def Let_def)
  let ?l = "last_log_index (st n)"
  have len: "?l = int (length (raft_log (st n1)))"
    using log_wf_last [OF assms(1)] st by simp
  have m: "?l - int (nat (?l - commit_index (st n))) = commit_index (st n)"
    using assms(4) by simp
  from commit_scan_correct [of ?l n1 "nat (?l - commit_index (st n))"] len st obtain c where
    c: "commit_scan (nat (?l - commit_index (st n))) n1 ?l = Inr c"
    "c = commit_index (st n) \<and> (\<forall>j. commit_index (st n) < j \<and> j \<le> ?l \<longrightarrow> \<not> qualifies n1 j)
        \<or> commit_index (st n) < c \<and> c \<le> ?l \<and> qualifies n1 c \<and> (\<forall>j. c < j \<and> j \<le> ?l \<longrightarrow> \<not> qualifies n1 j)"
    unfolding m by auto
  have "\<not> qualifies n1 j" if "?l < j" for j
    using that len by (simp add: qualifies_def)
  with c(2) have "commit_index (st n) \<le> c \<and> (c = commit_index (st n) \<or> qualifies n1 c) \<and> (\<forall>j > c. \<not> qualifies n1 j)"
    by (auto simp: not_le [symmetric])
  moreover have "handle_append_entries_response n a = (Inr c, n1\<lparr>st := (st n1)\<lparr>commit_index := c\<rparr>\<rparr>)"
    using assms(2,3) c(1) by (simp add: handle_append_entries_response_def is_leader_def n1_def [symmetric] st Let_def)
  ultimately show ?thesis by blast
qed

definition leader3 :: raft_node where
  "leader3 = become_leader ((node_init ''A'' [''B'', ''C''])\<lparr>st := (st (node_init ''A'' [''B'', ''C'']))
     \<lparr>raft_log := [ent 1 1], current_term := 1, role := CANDIDATE\<rparr>\<rparr>)"

definition ack :: "string \<Rightarrow> int \<Rightarrow> append_response" where
  "ack f k = \<lparr>ar_term = 1, ar_success = True, ar_follower_id = f, ar_match_index = k\<rparr>"

lemma leader3_facts:
  "log_wf (raft_log (st leader3))" "is_leader leader3" "ar_term (ack ''B'' 1) \<le> current_term (st leader3)"
  "commit_index (st leader3) \<le> last_log_index (st leader3)"
  by (simp_all add: leader3_def become_leader_def log_wf_def node_init_def ent_def is_leader_def ack_def
      last_log_index_def Let_def)

theorem leader_commits_majority_witness:
  "\<exists>c. fst (handle_append_entries_response leader3 (ack ''B'' 1)) = Inr c \<and> c \<ge> commit_index (st leader3)
     \<and> (\<forall>j > c. \<not> qualifies (note_response leader3 (ack ''B'' 1)) j)"
  using leader_commits_majority [OF leader3_facts] by auto

lemma leader3_commits: "fst (handle_append_entries_response leader3 (ack ''B'' 1)) = Inr 1"
  by code_simp

subsection \<open>Departures from the documented rules\<close>

text \<open>
  A heartbeat can commit entries the leader never sent: the follower's third entry is
  of an old term and lies behind the position the heartbeat vouches for, yet the commit
  index moves over it. The documented bound is the index of the last new entry.
\<close>

theorem heartbeat_commits_unchecked_entry:
  "\<exists>resp n'. handle_append_entries (follower [ent 1 1, ent 2 1, ent 3 1]) (heartbeat 2 1 1 [] 3) = (Inr resp, n')
     \<and> raft_log (st n') = [ent 1 1, ent 2 1, ent 3 1] \<and> commit_index (st n') = 3"
  by (simp add: follower_def heartbeat_def node_init_def handle_append_entries_def last_log_index_def ent_def
      py_index_def accept_entries_def Let_def append_reply_def)

text \<open>
  A vote outlives its term: \<open>voted_for\<close> is documented as the vote of the current term,
  but an \<open>AppendEntries\<close> of a later term raises the term and leaves the old vote in place,
  after which the node denies every other candidate of the new term its vote.
\<close>

theorem vote_outlives_term:
  assumes "current_term (st n) < aq_term req" and "voted_for (st n) = Some v" and "v \<noteq> vq_candidate_id q"
    and "vq_term q = aq_term req"
  shows "\<exists>r n'. handle_append_entries n req = (r, n') \<and> current_term (st n') = aq_term req
     \<and> voted_for (st n') = Some v \<and> \<not> vr_granted (fst (handle_vote_request n' q))"
proof -
  obtain r n' where h: "handle_append_entries n req = (r, n')"
    by (cases "handle_append_entries n req")
  have acc: "current_term (st m') = current_term (st m) \<and> voted_for (st m') = voted_for (st m)"
    if "accept_entries req m = (x, m')" for m m' x
    using that by (auto simp: accept_entries_def Let_def split: prod.splits sum.splits)
  have "current_term (st n') = aq_term req \<and> voted_for (st n') = Some v"
    using h assms(1,2)
    by (auto simp: handle_append_entries_def Let_def dest!: acc split: if_splits sum.splits)
  with h assms(3,4) show ?thesis
    by (auto simp: handle_vote_request_def Let_def vote_reply_def)
qed

theorem vote_outlives_term_witness:
  "\<exists>r n'. handle_append_entries ((follower [])\<lparr>st := (st (follower []))\<lparr>voted_for := Some ''C''\<rparr>\<rparr>) (heartbeat 2 0 0 [] 0) = (r, n')
     \<and> current_term (st n') = 2 \<and> voted_for (st n') = Some ''C''"
  using vote_outlives_term [of "(follower [])\<lparr>st := (st (follower []))\<lparr>voted_for := Some ''C''\<rparr>\<rparr>"
      "heartbeat 2 0 0 [] 0" "''C''" "\<lparr>vq_term = 2, vq_candidate_id = ''A'', vq_last_log_index = 0, vq_last_log_term = 0\<rparr>"]
  by (auto simp: follower_def heartbeat_def)

end
