(* ===== verification/Circuit_Breaker.thy ===== *)
theory Circuit_Breaker
  imports Prelude
begin

section \<open>The upstream circuit breaker\<close>

text \<open>
  The model of \<^verbatim>\<open>aegis/core/circuit_breaker.py\<close>: three states, two counters and the time of
  the last opening. The monotonic clock is an argument of the operations that read it; the
  metrics calls have no effect on the state. The theorems follow a breaker through any
  sequence of requests and outcomes.
\<close>

datatype breaker_state = CLOSED | OPEN | HALF_OPEN

record breaker =
  failure_threshold :: int
  recovery_timeout :: rat
  success_threshold :: int
  bstate :: breaker_state
  failures :: int
  successes :: int
  opened_at :: rat

definition breaker_init :: "int \<Rightarrow> rat \<Rightarrow> int \<Rightarrow> breaker" where
  "breaker_init ft rt sth =
     \<lparr>failure_threshold = ft, recovery_timeout = rt, success_threshold = sth, bstate = CLOSED,
      failures = 0, successes = 0, opened_at = 0\<rparr>"

definition allow_request :: "rat \<Rightarrow> breaker \<Rightarrow> bool \<times> breaker" where
  "allow_request now b =
     (case bstate b of
        CLOSED \<Rightarrow> (True, b)
      | OPEN \<Rightarrow>
          if now - opened_at b \<ge> recovery_timeout b
          then (True, b\<lparr>bstate := HALF_OPEN, successes := 0\<rparr>)
          else (False, b)
      | HALF_OPEN \<Rightarrow> (True, b))"

definition record_success :: "breaker \<Rightarrow> breaker" where
  "record_success b =
     (if bstate b = HALF_OPEN then
        let b1 = b\<lparr>successes := successes b + 1\<rparr> in
        if successes b1 \<ge> success_threshold b1 then b1\<lparr>bstate := CLOSED, failures := 0\<rparr> else b1
      else if bstate b = CLOSED then b\<lparr>failures := 0\<rparr>
      else b)"

definition record_failure :: "rat \<Rightarrow> breaker \<Rightarrow> breaker" where
  "record_failure now b =
     (let b1 = b\<lparr>failures := failures b + 1\<rparr> in
      if bstate b1 = HALF_OPEN \<or> failures b1 \<ge> failure_threshold b1
      then b1\<lparr>bstate := OPEN, opened_at := now\<rparr> else b1)"

definition check_breaker :: "rat \<Rightarrow> breaker \<Rightarrow> unit res \<times> breaker" where
  "check_breaker now b =
     (case allow_request now b of
        (ok, b') \<Rightarrow> (if ok then Inr () else Inl (RuntimeError ''CircuitOpenError''), b'))"

subsection \<open>Histories\<close>

datatype event = Ask rat | Succeeded | Failed rat

fun happen :: "event \<Rightarrow> breaker \<Rightarrow> breaker" where
  "happen (Ask now) b = snd (check_breaker now b)"
| "happen Succeeded b = record_success b"
| "happen (Failed now) b = record_failure now b"

definition history :: "event list \<Rightarrow> breaker \<Rightarrow> breaker" where
  "history evs b = fold happen evs b"

text \<open>The failures since the last success, newest event first.\<close>

fun streak :: "event list \<Rightarrow> int" where
  "streak [] = 0"
| "streak (Ask _ # evs) = streak evs"
| "streak (Succeeded # evs) = 0"
| "streak (Failed _ # evs) = streak evs + 1"

lemma streak_nonneg: "0 \<le> streak evs"
  by (induction evs rule: streak.induct) simp_all

lemma history_snoc: "history (evs @ [e]) b = happen e (history evs b)"
  by (simp add: history_def)

lemma happen_config [simp]:
  "failure_threshold (happen e b) = failure_threshold b" "recovery_timeout (happen e b) = recovery_timeout b"
  "success_threshold (happen e b) = success_threshold b"
  by (cases e; simp add: check_breaker_def allow_request_def record_success_def record_failure_def Let_def
      split: breaker_state.splits prod.splits)+

lemma happen_closed:
  assumes "bstate b = CLOSED" and "failures b = streak (rev evs)"
  shows "bstate (happen e b) = (if streak (e # rev evs) < failure_threshold b \<or> (\<forall>t. e \<noteq> Failed t) then CLOSED else OPEN)
         \<and> failures (happen e b) = streak (e # rev evs)"
  using assms
  by (cases e) (auto simp: check_breaker_def allow_request_def record_success_def record_failure_def Let_def)

abbreviation below :: "int \<Rightarrow> event list \<Rightarrow> bool" where
  "below ft evs \<equiv> (\<forall>k \<le> length evs. streak (rev (take k evs)) < ft)"

lemma below_snoc: "below ft (evs @ [e]) \<longleftrightarrow> below ft evs \<and> streak (rev (evs @ [e])) < ft"
  by (auto simp: le_Suc_eq)

lemma history_threshold: "failure_threshold (history evs b) = failure_threshold b"
  by (induction evs rule: rev_induct) (simp_all add: history_snoc, simp add: history_def)

lemma closed_while_below:
  "below ft evs \<Longrightarrow> bstate (history evs (breaker_init ft rt sth)) = CLOSED
     \<and> failures (history evs (breaker_init ft rt sth)) = streak (rev evs)"
proof (induction evs rule: rev_induct)
  case Nil
  then show ?case by (simp add: history_def breaker_init_def)
next
  case (snoc e evs)
  let ?b = "history evs (breaker_init ft rt sth)"
  from snoc.prems have "below ft evs" and lt: "streak (e # rev evs) < ft"
    unfolding below_snoc by simp_all
  with snoc.IH have "bstate ?b = CLOSED" "failures ?b = streak (rev evs)" by simp_all
  from happen_closed [OF this, of e] lt show ?case
    by (simp add: history_snoc history_threshold) (simp add: breaker_init_def)
qed

lemma trips:
  assumes "below ft evs" and "ft \<le> streak (rev (evs @ [e]))"
  shows "bstate (history (evs @ [e]) (breaker_init ft rt sth)) = OPEN"
proof -
  let ?b = "history evs (breaker_init ft rt sth)"
  have b: "bstate ?b = CLOSED" "failures ?b = streak (rev evs)"
    using closed_while_below [OF assms(1)] by simp_all
  have "streak (rev evs) < ft" "0 < ft"
    using assms(1) [rule_format, of "length evs"] assms(1) [rule_format, of 0] by simp_all
  with assms(2) have "\<exists>t. e = Failed t"
    by (cases e) auto
  with happen_closed [OF b, of e] assms(2) show ?thesis
    by (auto simp: history_snoc history_threshold) (auto simp: breaker_init_def)
qed

lemma closed_only_below:
  assumes "0 < ft" and "\<forall>k \<le> length evs. bstate (history (take k evs) (breaker_init ft rt sth)) = CLOSED"
  shows "below ft evs"
  using assms(2)
proof (induction evs rule: rev_induct)
  case (snoc e evs)
  have "bstate (history (take k evs) (breaker_init ft rt sth)) = CLOSED" if "k \<le> length evs" for k
    using snoc.prems [rule_format, of k] that by simp
  with snoc.IH have b: "below ft evs" by blast
  have "bstate (history (evs @ [e]) (breaker_init ft rt sth)) = CLOSED"
    using snoc.prems [rule_format, of "length (evs @ [e])"] by simp
  with trips [OF b, of e] b show ?case
    unfolding below_snoc by force
qed (use assms(1) in simp)

text \<open>
  The breaker opens on the configured number of consecutive failures and not before:
  a breaker with threshold at least one has been closed throughout a history exactly if at
  no point of it the failures since the last success reached the threshold, and the event
  that makes them reach it opens the breaker.
\<close>

theorem opens_at_threshold:
  assumes "0 < ft"
  shows "((\<forall>k \<le> length evs. bstate (history (take k evs) (breaker_init ft rt sth)) = CLOSED) \<longleftrightarrow> below ft evs)
     \<and> (below ft evs \<and> ft \<le> streak (rev (evs @ [e])) \<longrightarrow> bstate (history (evs @ [e]) (breaker_init ft rt sth)) = OPEN)"
proof -
  have "below ft (take k evs)" if "below ft evs" for k
    using that by (auto simp: min_def)
  then show ?thesis
    using closed_only_below [OF assms] closed_while_below trips by blast
qed

theorem opens_at_threshold_witness:
  "bstate (history [Failed 1, Ask 2, Failed 3] (breaker_init 2 30 1)) = OPEN"
proof -
  have "below 2 [Failed 1, Ask 2]"
    by (auto simp: le_Suc_eq)
  with opens_at_threshold [of 2 "[Failed 1, Ask 2]" 30 1 "Failed 3"] show ?thesis by simp
qed

definition probing :: "nat \<Rightarrow> breaker \<Rightarrow> breaker" where
  "probing k b = (record_success ^^ k) b"

lemma probing_half_open:
  "bstate b = HALF_OPEN \<Longrightarrow> successes b = 0 \<Longrightarrow> int k < success_threshold b \<Longrightarrow>
     probing k b = b\<lparr>successes := int k\<rparr>"
proof (induction k)
  case (Suc k)
  then show ?case
    by (simp add: probing_def record_success_def Let_def)
qed (simp add: probing_def)

lemma closed_stays: "bstate b = CLOSED \<Longrightarrow> bstate (probing k b) = CLOSED"
  by (induction k) (simp_all add: probing_def record_success_def)

text \<open>
  An open breaker fails fast and closes only on proof: within the recovery timeout every
  request is refused and nothing changes; the first request after it is admitted as a
  probe; and from there, with no further failure, the breaker is closed exactly when the
  configured number of successes has been recorded.
\<close>

theorem open_recovers_by_probes:
  assumes "bstate b = OPEN" and "0 < success_threshold b"
  shows "(now - opened_at b < recovery_timeout b \<longrightarrow> check_breaker now b = (Inl (RuntimeError ''CircuitOpenError''), b))
     \<and> (now - opened_at b \<ge> recovery_timeout b \<longrightarrow>
          (\<exists>p. check_breaker now b = (Inr (), p)
               \<and> (\<forall>k. bstate (probing k p) = (if int k < success_threshold b then HALF_OPEN else CLOSED))))"
proof (intro conjI impI)
  assume late: "now - opened_at b \<ge> recovery_timeout b"
  let ?p = "b\<lparr>bstate := HALF_OPEN, successes := 0\<rparr>"
  have "bstate (probing k ?p) = (if int k < success_threshold b then HALF_OPEN else CLOSED)" for k
  proof (cases "int k < success_threshold b")
    case True
    then show ?thesis using probing_half_open [of ?p k] by simp
  next
    case False
    define m where "m = nat (success_threshold b) - 1"
    have m: "int m < success_threshold b" "int m + 1 = success_threshold b" "Suc m \<le> k"
      using assms(2) False by (auto simp: m_def)
    then have "bstate (probing (Suc m) ?p) = CLOSED"
      using probing_half_open [of ?p m] by (simp add: probing_def record_success_def Let_def)
    from closed_stays [OF this, of "k - Suc m"] have "bstate (probing k ?p) = CLOSED"
      using m(3) by (simp add: probing_def funpow_add [symmetric, THEN fun_cong, unfolded comp_def] del: funpow.simps)
    with False show ?thesis by simp
  qed
  moreover have "check_breaker now b = (Inr (), ?p)"
    using assms(1) late by (simp add: check_breaker_def allow_request_def)
  ultimately show "\<exists>p. check_breaker now b = (Inr (), p)
      \<and> (\<forall>k. bstate (probing k p) = (if int k < success_threshold b then HALF_OPEN else CLOSED))"
    by blast
qed (use assms(1) in \<open>simp add: check_breaker_def allow_request_def\<close>)

theorem open_recovers_by_probes_witness:
  "check_breaker 5 (history [Failed 1] (breaker_init 1 30 2))
     = (Inl (RuntimeError ''CircuitOpenError''), history [Failed 1] (breaker_init 1 30 2))"
  using open_recovers_by_probes [of "history [Failed 1] (breaker_init 1 30 2)" 5]
  by (simp add: history_def breaker_init_def record_failure_def)

text \<open>
  The number of concurrent probes is not limited: the documentation allows one probe at
  a time in the half-open state, but any number of requests in a row is admitted there
  before any of them has reported its outcome.
\<close>

theorem half_open_admits_any_number:
  assumes "bstate b = HALF_OPEN"
  shows "fst (check_breaker now (history (map Ask nows) b)) = Inr ()"
proof -
  have "history (map Ask nows) b = b"
    using assms by (induction nows) (simp_all add: history_def check_breaker_def allow_request_def)
  with assms show ?thesis
    by (simp add: check_breaker_def allow_request_def)
qed

theorem half_open_admits_any_number_witness:
  "fst (check_breaker 40 (history (map Ask [40, 40, 40]) (history [Failed 1, Ask 40] (breaker_init 1 30 1)))) = Inr ()"
  using half_open_admits_any_number [of "history [Failed 1, Ask 40] (breaker_init 1 30 1)" 40 "[40, 40, 40]"]
  by (simp add: history_def breaker_init_def record_failure_def check_breaker_def allow_request_def)

end
