(* ===== verification/Fencing.thy ===== *)
theory Fencing
  imports Prelude
begin

section \<open>The fencing contract\<close>

text \<open>
  Two components refuse a stale writer by comparing a number it carries with the highest
  one the storage has seen: the lease lock of \<^verbatim>\<open>aegis/core/split_brain.py\<close> and the global
  sequence store of \<^verbatim>\<open>aegis/core/ha.py\<close>. The contract both rely on is stated once: the mark
  of the storage never goes down, and a writer below it is not admitted. What a client
  gets from it, that a superseded writer is refused for good, is proved here.
\<close>

locale fencing =
  fixes step :: "'s \<Rightarrow> 's \<Rightarrow> bool"
    and mark :: "'s \<Rightarrow> int option"
    and admits :: "'s \<Rightarrow> int \<Rightarrow> bool"
  assumes mark_mono: "step s s' \<Longrightarrow> mark s = Some m \<Longrightarrow> \<exists>m' \<ge> m. mark s' = Some m'"
    and admits_mark: "admits s v \<Longrightarrow> mark s = Some m \<Longrightarrow> m \<le> v"
begin

lemma mark_rtranclp: "step\<^sup>*\<^sup>* s s' \<Longrightarrow> mark s = Some m \<Longrightarrow> \<exists>m' \<ge> m. mark s' = Some m'"
proof (induction arbitrary: m rule: rtranclp_induct)
  case (step s' s'')
  then obtain m' where "m \<le> m'" "mark s' = Some m'" by blast
  with mark_mono [OF step.hyps(2)] show ?case by (meson order_trans)
qed simp

lemma stale_refused: "step\<^sup>*\<^sup>* s s' \<Longrightarrow> mark s = Some m \<Longrightarrow> v < m \<Longrightarrow> \<not> admits s' v"
  using mark_rtranclp admits_mark by fastforce

end

end
