(* ===== verification/Split_Brain.thy ===== *)
theory Split_Brain
  imports Fencing
begin

section \<open>Fencing tokens\<close>

text \<open>
  The model of \<^verbatim>\<open>aegis/core/split_brain.py\<close>. The clock is an argument; the WAL write that
  \<open>gate_wal_write\<close> runs is a function on an arbitrary WAL, so that its not being called is
  visible as the WAL not changing.
\<close>

record fencing_token =
  tk_value :: int
  tk_issued_at :: rat
  tk_node_id :: string
  tk_expires_at :: rat

record lease_lock =
  lk_node_id :: string
  lk_ttl :: rat
  lk_current_token :: "fencing_token option"
  lk_max_seen :: int

definition lock_init :: "string \<Rightarrow> rat \<Rightarrow> lease_lock" where
  "lock_init nid ttl = \<lparr>lk_node_id = nid, lk_ttl = ttl, lk_current_token = None, lk_max_seen = 0\<rparr>"

definition token_is_valid :: "rat \<Rightarrow> fencing_token \<Rightarrow> bool" where
  "token_is_valid now tok \<longleftrightarrow> now < tk_expires_at tok"

definition supersedes :: "fencing_token \<Rightarrow> fencing_token \<Rightarrow> bool" where
  "supersedes a b \<longleftrightarrow> tk_value a > tk_value b"

definition acquire_lease :: "rat \<Rightarrow> int \<Rightarrow> lease_lock \<Rightarrow> (fencing_token \<times> lease_lock) res" where
  "acquire_lease now v l =
     (if v \<le> lk_max_seen l then Inl (RuntimeError ''FencingTokenError'')
      else
        let tok = \<lparr>tk_value = v, tk_issued_at = now, tk_node_id = lk_node_id l, tk_expires_at = now + lk_ttl l\<rparr>
        in Inr (tok, l\<lparr>lk_max_seen := v, lk_current_token := Some tok\<rparr>))"

definition check_fence :: "rat \<Rightarrow> fencing_token \<Rightarrow> lease_lock \<Rightarrow> unit res" where
  "check_fence now tok l =
     (if \<not> token_is_valid now tok then Inl (RuntimeError ''StaleLeaseError: expired'')
      else if tk_value tok < lk_max_seen l then Inl (RuntimeError ''StaleLeaseError: superseded'')
      else Inr ())"

definition gate_wal_write ::
  "rat \<Rightarrow> fencing_token \<Rightarrow> ('w \<Rightarrow> 'r res \<times> 'w) \<Rightarrow> lease_lock \<Rightarrow> 'w \<Rightarrow> 'r res \<times> 'w" where
  "gate_wal_write now tok write l w =
     (case check_fence now tok l of Inl e \<Rightarrow> (Inl e, w) | Inr _ \<Rightarrow> write w)"

definition current_lease_valid :: "rat \<Rightarrow> lease_lock \<Rightarrow> bool" where
  "current_lease_valid now l \<longleftrightarrow> (case lk_current_token l of None \<Rightarrow> False | Some tok \<Rightarrow> token_is_valid now tok)"

inductive lock_step :: "lease_lock \<Rightarrow> lease_lock \<Rightarrow> bool" where
  Acquired: "acquire_lease now v l = Inr (tok, l') \<Longrightarrow> lock_step l l'"

definition lock_admits :: "lease_lock \<Rightarrow> int \<Rightarrow> bool" where
  "lock_admits l v \<longleftrightarrow> (\<exists>now tok. tk_value tok = v \<and> check_fence now tok l = Inr ())"

lemma lock_step_mark: "lock_step l l' \<Longrightarrow> lk_max_seen l < lk_max_seen l'"
  by (auto elim!: lock_step.cases simp: acquire_lease_def Let_def split: if_splits)

interpretation lock: fencing lock_step "\<lambda>l. Some (lk_max_seen l)" lock_admits
  by unfold_locales
    (auto dest: lock_step_mark simp: lock_admits_def check_fence_def split: if_splits)

text \<open>
  A superseded writer never reaches the WAL: once a lease with a higher token value has
  been taken, then after any further leases, at any time, with any write function, a
  write gated by the older token fails and leaves the WAL as it was.
\<close>

theorem superseded_writer_fenced:
  assumes "acquire_lease now v l = Inr (tok, l')" and "lock_step\<^sup>*\<^sup>* l' l''" and "supersedes tok old"
  shows "\<exists>e. gate_wal_write later old write l'' w = (Inl e, w)"
proof -
  have "lk_max_seen l' = v" and "tk_value tok = v"
    using assms(1) by (auto simp: acquire_lease_def Let_def split: if_splits)
  then have "\<not> lock_admits l'' (tk_value old)"
    using lock.stale_refused [OF assms(2), of v "tk_value old"] assms(3) by (simp add: supersedes_def)
  then show ?thesis
    by (cases "check_fence later old l''") (auto simp: lock_admits_def gate_wal_write_def)
qed

theorem superseded_writer_fenced_witness:
  "\<exists>tok l' e. acquire_lease 0 2 (lock_init ''B'' 30) = Inr (tok, l')
     \<and> gate_wal_write 1 \<lparr>tk_value = 1, tk_issued_at = 0, tk_node_id = ''A'', tk_expires_at = 30\<rparr>
         (\<lambda>w. (Inr (), w @ [7 :: nat])) l' [] = (Inl e, [])"
proof -
  obtain tok l' where a: "acquire_lease 0 2 (lock_init ''B'' 30) = Inr (tok, l')" "tk_value tok = 2"
    by (simp add: acquire_lease_def lock_init_def Let_def)
  let ?old = "\<lparr>tk_value = 1, tk_issued_at = 0, tk_node_id = ''A'', tk_expires_at = 30\<rparr>"
  have "supersedes tok ?old"
    using a(2) by (simp add: supersedes_def)
  from superseded_writer_fenced [OF a(1) rtranclp.rtrancl_refl this, of 1 "\<lambda>w. (Inr (), w @ [7 :: nat])" "[]"] a(1)
  show ?thesis by blast
qed

text \<open>The holder of the newest lease can write until it expires, and not after.\<close>

lemma newest_lease_writes:
  assumes "acquire_lease now v l = Inr (tok, l')"
  shows "gate_wal_write t tok write l' w
           = (if t < now + lk_ttl l then write w else (Inl (RuntimeError ''StaleLeaseError: expired''), w))"
  using assms by (auto simp: acquire_lease_def Let_def gate_wal_write_def check_fence_def token_is_valid_def
      split: if_splits)

end
