(* ===== verification/Json_Text.thy ===== *)
theory Json_Text
  imports Py_Text
begin

section \<open>JSON text\<close>

text \<open>
  What \<open>json.dumps\<close> of the standard library writes for strings, integers and objects with
  \<open>separators=(",", ":")\<close> and the default \<open>ensure_ascii\<close>. A character stands for the code
  point of its number, so the text covers code points below 256; printable ASCII is copied,
  everything else is escaped. The string form is shown to be a prefix code, which makes
  records written field by field injective.
\<close>

definition u_escape :: "char \<Rightarrow> string" where
  "u_escape c = CHR 0x5C # ''u00'' @ [hex_digit (of_char c div 16), hex_digit (of_char c mod 16)]"

definition json_char :: "char \<Rightarrow> string" where
  "json_char c =
     (if c = CHR 0x22 then [CHR 0x5C, CHR 0x22]
      else if c = CHR 0x5C then [CHR 0x5C, CHR 0x5C]
      else if c = CHR 0x0A then [CHR 0x5C, CHR ''n'']
      else if c = CHR 0x0D then [CHR 0x5C, CHR ''r'']
      else if c = CHR 0x09 then [CHR 0x5C, CHR ''t'']
      else if c = CHR 0x0C then [CHR 0x5C, CHR ''f'']
      else if c = CHR 0x08 then [CHR 0x5C, CHR ''b'']
      else if (32 :: nat) \<le> of_char c \<and> (of_char c :: nat) \<le> 126 then [c]
      else u_escape c)"

definition json_str :: "string \<Rightarrow> string" where
  "json_str s = [CHR 0x22] @ concat (map json_char s) @ [CHR 0x22]"

text \<open>Reading one character back.\<close>

fun short_escape :: "char \<Rightarrow> char" where
  "short_escape d =
     (if d = CHR ''n'' then CHR 0x0A else if d = CHR ''r'' then CHR 0x0D else if d = CHR ''t'' then CHR 0x09
      else if d = CHR ''f'' then CHR 0x0C else if d = CHR ''b'' then CHR 0x08 else d)"

fun read_char :: "string \<Rightarrow> (char \<times> string) option" where
  "read_char [] = None"
| "read_char (c # cs) =
     (if c = CHR 0x22 then None
      else if c \<noteq> CHR 0x5C then Some (c, cs)
      else case cs of
             d # ds \<Rightarrow>
               if d \<noteq> CHR ''u'' then Some (short_escape d, ds)
               else (case ds of
                       _ # _ # h # l # rest \<Rightarrow>
                         (case (hexval h, hexval l) of
                            (Some x, Some y) \<Rightarrow> Some (char_of (16 * x + y), rest)
                          | _ \<Rightarrow> None)
                     | _ \<Rightarrow> None)
           | [] \<Rightarrow> None)"

lemma read_u_escape: "read_char (u_escape c @ rest) = Some (c, rest)"
proof -
  have "of_char c div 16 < (16 :: nat)"
    using of_char_nat_less [of c] by (simp add: less_mult_imp_div_less)
  then show ?thesis
    by (simp add: u_escape_def hexval_hex_digit)
qed

lemma read_json_char: "read_char (json_char c @ rest) = Some (c, rest)"
proof (cases "c \<in> {CHR 0x22, CHR 0x5C, CHR 0x0A, CHR 0x0D, CHR 0x09, CHR 0x0C, CHR 0x08}")
  case True
  then show ?thesis
    by (auto simp: json_char_def)
next
  case False
  then have "json_char c = (if (32 :: nat) \<le> of_char c \<and> (of_char c :: nat) \<le> 126 then [c] else u_escape c)"
    by (simp add: json_char_def)
  with False show ?thesis
    by (simp add: read_u_escape del: short_escape.simps)
qed

lemma read_json_end: "read_char (CHR 0x22 # rest) = None"
  by simp

lemma json_chars_prefix:
  "concat (map json_char s) @ CHR 0x22 # x = concat (map json_char t) @ CHR 0x22 # y \<Longrightarrow> s = t \<and> x = y"
proof (induction s arbitrary: t)
  case Nil
  then show ?case
    using read_json_char [of "hd t" "concat (map json_char (tl t)) @ CHR 0x22 # y"] read_json_end [of x]
    by (cases t) (simp_all del: read_char.simps)
next
  case (Cons c s)
  let ?x = "concat (map json_char s) @ CHR 0x22 # x"
  have c: "read_char (concat (map json_char t) @ CHR 0x22 # y) = Some (c, ?x)"
    using Cons.prems read_json_char [of c ?x] by (simp del: read_char.simps)
  then obtain d t' where t: "t = d # t'"
    using read_json_end [of y] by (cases t) (simp_all del: read_char.simps)
  let ?y = "concat (map json_char t') @ CHR 0x22 # y"
  have "Some (c, ?x) = Some (d, ?y)"
    using c read_json_char [of d ?y] by (simp add: t del: read_char.simps)
  with Cons.IH [of t'] t show ?case by simp
qed

theorem json_str_prefix: "json_str s @ x = json_str t @ y \<Longrightarrow> s = t \<and> x = y"
  using json_chars_prefix [of s x t y] by (simp add: json_str_def)

lemma json_str_inj [simp]: "json_str s = json_str t \<longleftrightarrow> s = t"
  using json_str_prefix [of s "[]" t "[]"] by auto

text \<open>An integer field ends at the first character that is not part of a number.\<close>

lemma str_int_prefix:
  assumes "str_int i @ c # x = str_int j @ c # y" and "\<not> decimal_char c"
  shows "i = j \<and> x = y"
  using sep_split [OF assms(1) str_int_sep [OF assms(2)] str_int_sep [OF assms(2)]] by simp

lemma not_decimal [simp]: "\<not> decimal_char CHR '',''" "\<not> decimal_char CHR ''}''"
  by (simp_all add: decimal_char_def digits_def)

subsection \<open>Objects\<close>

text \<open>
  The values the components write: integers, strings, booleans and an object of counts.
\<close>

datatype jfield = JInt int | JStr string | JBool bool | JCounts "(string \<times> int) list"

fun count_fields :: "(string \<times> int) list \<Rightarrow> string" where
  "count_fields [] = ''}''"
| "count_fields [(k, v)] = json_str k @ '':'' @ str_int v @ ''}''"
| "count_fields ((k, v) # f # fs) = json_str k @ '':'' @ str_int v @ '','' @ count_fields (f # fs)"

fun json_field :: "jfield \<Rightarrow> string" where
  "json_field (JInt i) = str_int i"
| "json_field (JStr s) = json_str s"
| "json_field (JBool b) = (if b then ''true'' else ''false'')"
| "json_field (JCounts cs) = ''{'' @ count_fields cs"

fun same_kind :: "jfield \<Rightarrow> jfield \<Rightarrow> bool" where
  "same_kind (JInt _) (JInt _) = True"
| "same_kind (JStr _) (JStr _) = True"
| "same_kind (JBool _) (JBool _) = True"
| "same_kind (JCounts _) (JCounts _) = True"
| "same_kind _ _ = False"

lemma number_end:
  assumes "str_int i @ c # x = str_int j @ d # y" and "\<not> decimal_char c" and "\<not> decimal_char d"
  shows "i = j \<and> c # x = d # y"
proof -
  have "takeWhile decimal_char (str_int i @ c # x) = str_int i" "takeWhile decimal_char (str_int j @ d # y) = str_int j"
    using str_int_decimal assms(2,3) by (simp_all add: takeWhile_append2)
  with assms(1) have "str_int i = str_int j" by simp
  with assms(1) show ?thesis by simp
qed

lemma json_str_head: "\<exists>s'. json_str s = CHR 0x22 # s'"
  by (simp add: json_str_def)

lemma count_fields_prefix: "count_fields cs @ x = count_fields ds @ y \<Longrightarrow> cs = ds \<and> x = y"
proof (induction cs arbitrary: ds rule: count_fields.induct)
  case 1
  then show ?case
    using json_str_head by (cases ds rule: count_fields.cases) (auto simp: json_str_def)
next
  case (2 k v)
  note eq = "2.prems"
  show ?case
  proof (cases ds rule: count_fields.cases)
    case 1
    with eq show ?thesis by (simp add: json_str_def)
  next
    case (2 l w)
    with eq json_str_prefix [of k "CHR '':'' # str_int v @ CHR ''}'' # x" l "CHR '':'' # str_int w @ CHR ''}'' # y"]
      number_end [of v "CHR ''}''" x w "CHR ''}''" y]
    show ?thesis by simp
  next
    case (3 l w f fs)
    with eq json_str_prefix [of k "CHR '':'' # str_int v @ CHR ''}'' # x" l "CHR '':'' # str_int w @ CHR '','' # count_fields (f # fs) @ y"]
      number_end [of v "CHR ''}''" x w "CHR '',''" "count_fields (f # fs) @ y"]
    show ?thesis by simp
  qed
next
  case (3 k v f fs)
  note eq = "3.prems"
  show ?case
  proof (cases ds rule: count_fields.cases)
    case 1
    with eq show ?thesis by (simp add: json_str_def)
  next
    case (2 l w)
    with eq json_str_prefix [of k "CHR '':'' # str_int v @ CHR '','' # count_fields (f # fs) @ x" l "CHR '':'' # str_int w @ CHR ''}'' # y"]
      number_end [of v "CHR '',''" "count_fields (f # fs) @ x" w "CHR ''}''" y]
    show ?thesis by simp
  next
    case (3 l w g gs)
    with eq json_str_prefix [of k "CHR '':'' # str_int v @ CHR '','' # count_fields (f # fs) @ x" l
        "CHR '':'' # str_int w @ CHR '','' # count_fields (g # gs) @ y"]
      number_end [of v "CHR '',''" "count_fields (f # fs) @ x" w "CHR '',''" "count_fields (g # gs) @ y"]
    have "k = l" "v = w" "count_fields (f # fs) @ x = count_fields (g # gs) @ y" by simp_all
    with "3.IH" [of "g # gs"] \<open>ds = _\<close> show ?thesis by simp
  qed
qed

fun json_fields :: "(string \<times> jfield) list \<Rightarrow> string" where
  "json_fields [] = ''}''"
| "json_fields [(k, v)] = json_str k @ '':'' @ json_field v @ ''}''"
| "json_fields ((k, v) # f # fs) = json_str k @ '':'' @ json_field v @ '','' @ json_fields (f # fs)"

definition json_object :: "(string \<times> jfield) list \<Rightarrow> string" where
  "json_object fs = ''{'' @ json_fields fs"

lemma json_field_prefix:
  assumes "json_field v @ c # x = json_field w @ c # y" and "same_kind v w" and "\<not> decimal_char c"
  shows "v = w \<and> x = y"
proof (cases v)
  case (JInt i)
  with assms(2) obtain j where "w = JInt j" by (cases w) simp_all
  with JInt assms str_int_prefix [of i c x j y] show ?thesis by simp
next
  case (JStr s)
  with assms(2) obtain t where "w = JStr t" by (cases w) simp_all
  with JStr assms json_str_prefix [of s "c # x" t "c # y"] show ?thesis by simp
next
  case (JBool a)
  with assms(2) obtain b where "w = JBool b" by (cases w) simp_all
  with JBool assms show ?thesis by (simp split: if_splits)
next
  case (JCounts a)
  with assms(2) obtain b where "w = JCounts b" by (cases w) simp_all
  with JCounts assms count_fields_prefix [of a "c # x" b "c # y"] show ?thesis by simp
qed

text \<open>Two objects with the same keys and kinds of values and the same text are the same.\<close>

definition same_shape :: "(string \<times> jfield) list \<Rightarrow> (string \<times> jfield) list \<Rightarrow> bool" where
  "same_shape fs gs \<longleftrightarrow> list_all2 (\<lambda>(k, v) (l, w). k = l \<and> same_kind v w) fs gs"

lemma json_fields_inj: "same_shape fs gs \<Longrightarrow> json_fields fs = json_fields gs \<Longrightarrow> fs = gs"
proof (induction fs arbitrary: gs rule: json_fields.induct)
  case 1
  then show ?case by (simp add: same_shape_def)
next
  case (2 k v)
  from "2.prems"(1) obtain w where gs: "gs = [(k, w)]" and "same_kind v w"
    by (auto simp: same_shape_def list_all2_Cons1)
  with "2.prems" json_field_prefix [of v "CHR ''}''" "[]" w "[]"] show ?case by simp
next
  case (3 k v f fs)
  from "3.prems"(1) obtain w g gs' where gs: "gs = (k, w) # g # gs'" and kind: "same_kind v w" and rest: "same_shape (f # fs) (g # gs')"
    by (auto simp: same_shape_def list_all2_Cons1)
  with "3.prems" json_field_prefix [of v "CHR '',''" "json_fields (f # fs)" w "json_fields (g # gs')"]
  have "v = w" and "json_fields (f # fs) = json_fields (g # gs')" by simp_all
  with "3.IH" [OF rest] gs show ?case by simp
qed

lemma json_object_inj: "same_shape fs gs \<Longrightarrow> json_object fs = json_object gs \<Longrightarrow> fs = gs"
  by (simp add: json_object_def json_fields_inj)

end
