(* ===== verification/Ha_Sequence.thy ===== *)
theory Ha_Sequence
  imports Json_Text Fencing
begin

section \<open>The global sequence\<close>

text \<open>
  The model of the global sequence of \<^verbatim>\<open>aegis/core/ha.py\<close>: entries and their hashes, the
  append transaction with its fence (\<open>plan_append\<close>, \<open>_build_entries\<close> and the stores), the
  two verifiers, and the sequencer that follows one replica. The table of a store is the
  list of its rows in insertion order, with the uniqueness constraints of its \<open>CREATE TABLE\<close>
  checked on insertion. The two queries of an append may each have met an older state of the
  table (\<open>PostgresSequenceStore\<close> runs them as two statements of a transaction that reads what is
  committed at the time), the wall clock is an argument.
\<close>

subsection \<open>Entries\<close>

record seq_entry =
  se_seq :: int
  se_prev_entry_hash :: string
  se_chain_id :: string
  se_chain_epoch :: int
  se_local_seq :: int
  se_node_hash :: string
  se_local_prev_hash :: string
  se_recorded_at :: string
  se_entry_hash :: string

definition GENESIS_HASH :: string where
  "GENESIS_HASH = replicate 64 CHR ''0''"

definition SEQUENCE_DOMAIN :: bytes where
  "SEQUENCE_DOMAIN = encode ''aegis-global-sequence-v1'' @ [0]"

text \<open>The canonical JSON of an entry: keys sorted, no spaces.\<close>

definition entry_fields ::
  "int \<Rightarrow> string \<Rightarrow> string \<Rightarrow> int \<Rightarrow> int \<Rightarrow> string \<Rightarrow> string \<Rightarrow> string \<Rightarrow> (string \<times> jfield) list" where
  "entry_fields seq prev_entry_hash chain_id chain_epoch local_seq node_hash local_prev_hash recorded_at =
     [(''chain_epoch'', JInt chain_epoch), (''chain_id'', JStr chain_id),
      (''local_prev_hash'', JStr local_prev_hash), (''local_seq'', JInt local_seq),
      (''node_hash'', JStr node_hash), (''prev_entry_hash'', JStr prev_entry_hash),
      (''recorded_at'', JStr recorded_at), (''seq'', JInt seq)]"

definition compute_entry_hash ::
  "int \<Rightarrow> string \<Rightarrow> string \<Rightarrow> int \<Rightarrow> int \<Rightarrow> string \<Rightarrow> string \<Rightarrow> string \<Rightarrow> string" where
  "compute_entry_hash seq prev_entry_hash chain_id chain_epoch local_seq node_hash local_prev_hash recorded_at =
     hexdigest (SEQUENCE_DOMAIN
       @ encode (json_object (entry_fields seq prev_entry_hash chain_id chain_epoch local_seq node_hash local_prev_hash recorded_at)))"

record pending_node =
  pn_local_seq :: int
  pn_node_hash :: string
  pn_local_prev_hash :: string

subsection \<open>The append transaction\<close>

definition sequence_diverged :: exn where
  "sequence_diverged = RuntimeError ''SequenceDivergedError''"

fun contiguous :: "pending_node list \<Rightarrow> bool" where
  "contiguous (a # b # rest) \<longleftrightarrow>
     pn_local_seq b = pn_local_seq a + 1 \<and> pn_local_prev_hash b = pn_node_hash a \<and> contiguous (b # rest)"
| "contiguous _ \<longleftrightarrow> True"

definition plan_append :: "seq_entry option \<Rightarrow> int \<Rightarrow> pending_node list \<Rightarrow> pending_node list res" where
  "plan_append last_entry epoch items =
     (if \<not> contiguous items then Inl (ValueError ''pending nodes must be contiguous and linked'')
      else case last_entry of
        None \<Rightarrow> Inr items
      | Some l \<Rightarrow>
          if epoch < se_chain_epoch l then Inl sequence_diverged
          else
            let remaining = filter (\<lambda>i. pn_local_seq i > se_local_seq l) items in
            if list_ex (\<lambda>i. pn_local_seq i = se_local_seq l \<and> pn_node_hash i \<noteq> se_node_hash l) items
            then Inl sequence_diverged
            else if remaining = [] then Inr []
            else if pn_local_seq (hd remaining) \<noteq> se_local_seq l + 1
                    \<or> pn_local_prev_hash (hd remaining) \<noteq> se_node_hash l
            then Inl sequence_diverged
            else Inr remaining)"

fun build_loop :: "int \<Rightarrow> string \<Rightarrow> string \<Rightarrow> int \<Rightarrow> string \<Rightarrow> pending_node list \<Rightarrow> seq_entry list" where
  "build_loop seq prev chain_id epoch recorded_at [] = []"
| "build_loop seq prev chain_id epoch recorded_at (i # items) =
     (let h = compute_entry_hash (seq + 1) prev chain_id epoch (pn_local_seq i) (pn_node_hash i)
                (pn_local_prev_hash i) recorded_at
      in \<lparr>se_seq = seq + 1, se_prev_entry_hash = prev, se_chain_id = chain_id, se_chain_epoch = epoch,
          se_local_seq = pn_local_seq i, se_node_hash = pn_node_hash i,
          se_local_prev_hash = pn_local_prev_hash i, se_recorded_at = recorded_at, se_entry_hash = h\<rparr>
         # build_loop (seq + 1) h chain_id epoch recorded_at items)"

definition build_entries ::
  "(int \<times> string) option \<Rightarrow> string \<Rightarrow> int \<Rightarrow> string \<Rightarrow> pending_node list \<Rightarrow> seq_entry list" where
  "build_entries tip chain_id epoch recorded_at items =
     (case tip of None \<Rightarrow> build_loop 0 GENESIS_HASH chain_id epoch recorded_at items
      | Some (seq, prev) \<Rightarrow> build_loop seq prev chain_id epoch recorded_at items)"

text \<open>
  The two queries: the row of the chain with the greatest \<open>local_seq\<close>, and the row with the
  greatest \<open>seq\<close>.
\<close>

fun pick_max :: "('a \<Rightarrow> int) \<Rightarrow> 'a list \<Rightarrow> 'a option" where
  "pick_max f [] = None"
| "pick_max f (x # xs) =
     (case pick_max f xs of None \<Rightarrow> Some x | Some y \<Rightarrow> if f x > f y then Some x else Some y)"

definition last_for_chain :: "string \<Rightarrow> seq_entry list \<Rightarrow> seq_entry option" where
  "last_for_chain c tbl = pick_max se_local_seq (filter (\<lambda>e. se_chain_id e = c) tbl)"

definition tip_of :: "seq_entry list \<Rightarrow> (int \<times> string) option" where
  "tip_of tbl = map_option (\<lambda>e. (se_seq e, se_entry_hash e)) (pick_max se_seq tbl)"

definition unique_ok :: "seq_entry list \<Rightarrow> bool" where
  "unique_ok tbl \<longleftrightarrow>
     distinct (map se_seq tbl) \<and> distinct (map se_entry_hash tbl)
     \<and> distinct (map (\<lambda>e. (se_chain_id e, se_local_seq e)) tbl)
     \<and> distinct (map (\<lambda>e. (se_chain_id e, se_node_hash e)) tbl)"

definition unique_violation :: exn where
  "unique_violation = RuntimeError ''UniqueViolationError''"

text \<open>
  One attempt of \<open>append\<close>: plan against the table the first query met, build on the tip the
  second query met, insert into the table as it is at commit. With the table locked
  (\<open>BEGIN IMMEDIATE\<close>) all three are the table.
\<close>

definition append_attempt ::
  "seq_entry list \<Rightarrow> seq_entry list \<Rightarrow> string \<Rightarrow> int \<Rightarrow> string \<Rightarrow> pending_node list \<Rightarrow> seq_entry list
     \<Rightarrow> (seq_entry list \<times> seq_entry list) res" where
  "append_attempt seen_last seen_tip chain_id epoch recorded_at items tbl =
     bind_res (plan_append (last_for_chain chain_id seen_last) epoch items) (\<lambda>todo.
       let rows = build_entries (tip_of seen_tip) chain_id epoch recorded_at todo in
       if unique_ok (tbl @ rows) then Inr (rows, tbl @ rows) else Inl unique_violation)"

definition sqlite_append ::
  "string \<Rightarrow> int \<Rightarrow> string \<Rightarrow> pending_node list \<Rightarrow> seq_entry list \<Rightarrow> (seq_entry list \<times> seq_entry list) res" where
  "sqlite_append chain_id epoch recorded_at items tbl = append_attempt tbl tbl chain_id epoch recorded_at items tbl"

text \<open>
  The retry loop of \<open>PostgresSequenceStore.append\<close>: each attempt meets a table at
  each query and one at its commit; a uniqueness violation is retried, anything else is raised.
\<close>

fun postgres_append ::
  "string \<Rightarrow> int \<Rightarrow> string \<Rightarrow> pending_node list \<Rightarrow> (seq_entry list \<times> seq_entry list \<times> seq_entry list) list
     \<Rightarrow> (seq_entry list \<times> seq_entry list) res" where
  "postgres_append chain_id epoch recorded_at items [] =
     Inl (RuntimeError ''global sequence append kept losing the tip race'')"
| "postgres_append chain_id epoch recorded_at items ((seen_last, seen_tip, tbl) # attempts) =
     (case append_attempt seen_last seen_tip chain_id epoch recorded_at items tbl of
        Inr r \<Rightarrow> Inr r
      | Inl e \<Rightarrow> if e = unique_violation then postgres_append chain_id epoch recorded_at items attempts else Inl e)"

definition entries_after :: "int \<Rightarrow> nat \<Rightarrow> seq_entry list \<Rightarrow> seq_entry list" where
  "entries_after after limit tbl = take limit (sort_key se_seq (filter (\<lambda>e. se_seq e > after) tbl))"

subsection \<open>Verification\<close>

record sequence_report =
  rp_valid :: bool
  rp_entries :: nat
  rp_chains :: "string \<rightharpoonup> int"
  rp_error_seq :: "int option"
  rp_reason :: string

definition chain_counts :: "(string \<rightharpoonup> seq_entry) \<Rightarrow> (string \<rightharpoonup> int)" where
  "chain_counts m = (\<lambda>c. map_option se_local_seq (m c))"

definition rehash :: "seq_entry \<Rightarrow> string" where
  "rehash e = compute_entry_hash (se_seq e) (se_prev_entry_hash e) (se_chain_id e) (se_chain_epoch e)
     (se_local_seq e) (se_node_hash e) (se_local_prev_hash e) (se_recorded_at e)"

text \<open>Why one entry is refused, in the order of the checks.\<close>

definition entry_fault :: "string \<Rightarrow> int \<Rightarrow> seq_entry option \<Rightarrow> seq_entry \<Rightarrow> string option" where
  "entry_fault prev_hash expected previous e =
     (if se_seq e \<noteq> expected then Some ''gap in seq''
      else if se_prev_entry_hash e \<noteq> prev_hash then Some ''broken link''
      else if rehash e \<noteq> se_entry_hash e then Some ''entry altered''
      else case previous of
        None \<Rightarrow> None
      | Some p \<Rightarrow>
          if se_local_seq e \<noteq> se_local_seq p + 1 then Some ''chain position skipped''
          else if se_local_prev_hash e \<noteq> se_node_hash p then Some ''chain link broken''
          else if se_chain_epoch e < se_chain_epoch p then Some ''lease epoch went backwards''
          else None)"

fun verify_loop ::
  "string \<Rightarrow> int \<Rightarrow> (string \<rightharpoonup> seq_entry) \<Rightarrow> nat \<Rightarrow> seq_entry list \<Rightarrow> sequence_report" where
  "verify_loop prev_hash expected last_by_chain count [] =
     \<lparr>rp_valid = True, rp_entries = count, rp_chains = chain_counts last_by_chain, rp_error_seq = None, rp_reason = []\<rparr>"
| "verify_loop prev_hash expected last_by_chain count (e # es) =
     (case entry_fault prev_hash expected (last_by_chain (se_chain_id e)) e of
        Some why \<Rightarrow>
          \<lparr>rp_valid = False, rp_entries = count + 1, rp_chains = chain_counts last_by_chain,
           rp_error_seq = Some (se_seq e), rp_reason = why\<rparr>
      | None \<Rightarrow>
          verify_loop (se_entry_hash e) (expected + 1) (last_by_chain(se_chain_id e \<mapsto> e)) (count + 1) es)"

definition verify_global_sequence :: "seq_entry list \<Rightarrow> sequence_report" where
  "verify_global_sequence es = verify_loop GENESIS_HASH 1 Map.empty 0 es"

text \<open>
  \<open>verify_chain_references\<close>: \<open>by_position\<close> as a map from position to the last entry with it.
\<close>

definition by_position :: "string \<Rightarrow> seq_entry list \<Rightarrow> (int \<rightharpoonup> seq_entry)" where
  "by_position c es = map_of (rev (map (\<lambda>e. (se_local_seq e, e)) (filter (\<lambda>e. se_chain_id e = c) es)))"

fun match_nodes :: "(int \<rightharpoonup> seq_entry) \<Rightarrow> int \<Rightarrow> (string \<times> string) list \<Rightarrow> (int \<rightharpoonup> seq_entry) option" where
  "match_nodes m pos [] = Some m"
| "match_nodes m pos ((node_hash, prev_hash) # nodes) =
     (case m pos of
        None \<Rightarrow> match_nodes m (pos + 1) nodes
      | Some e \<Rightarrow>
          if se_node_hash e \<noteq> node_hash \<or> se_local_prev_hash e \<noteq> prev_hash then None
          else match_nodes (m(pos := None)) (pos + 1) nodes)"

definition verify_chain_references :: "seq_entry list \<Rightarrow> string \<Rightarrow> (string \<times> string) list \<Rightarrow> bool \<times> string" where
  "verify_chain_references es c nodes =
     (let mine = filter (\<lambda>e. se_chain_id e = c) es; m = by_position c es in
      if mine = [] then (True, ''no entries for this chain'')
      else case match_nodes m (Min (set (map se_local_seq mine))) nodes of
             None \<Rightarrow> (False, ''the sequence names a different node'')
           | Some m' \<Rightarrow>
               if list_ex (\<lambda>e. m' (se_local_seq e) \<noteq> None) mine then (False, ''sequenced node(s) are not in this chain'')
               else (True, ''every sequenced node is in the chain at its recorded position''))"

end
