(* ===== verification/Ha_Verify.thy ===== *)
theory Ha_Verify
  imports Ha_Sequence
begin

section \<open>The global sequence never forks\<close>

text \<open>
  Every table that any interleaving of appends can build passes \<open>verify_global_sequence\<close>; a
  verified sequence is fixed by the hash of its last entry, up to a SHA-256 collision; a
  writer with an older lease epoch adds no row; the chain references are checked exactly.
\<close>

subsection \<open>The verifier's state\<close>

definition valid_seq :: "seq_entry list \<Rightarrow> bool" where
  "valid_seq es \<longleftrightarrow> rp_valid (verify_global_sequence es)"

definition chain_rows :: "string \<Rightarrow> seq_entry list \<Rightarrow> seq_entry list" where
  "chain_rows c es = filter (\<lambda>e. se_chain_id e = c) es"

definition chain_last :: "seq_entry list \<Rightarrow> string \<rightharpoonup> seq_entry" where
  "chain_last es c = (if chain_rows c es = [] then None else Some (last (chain_rows c es)))"

definition prev_hash_of :: "seq_entry list \<Rightarrow> string" where
  "prev_hash_of es = (if es = [] then GENESIS_HASH else se_entry_hash (last es))"

lemma chain_last_snoc: "chain_last (es @ [e]) = (chain_last es)(se_chain_id e \<mapsto> e)"
  by (auto simp: chain_last_def chain_rows_def fun_eq_iff)

lemma chain_last_Nil [simp]: "chain_last [] = Map.empty"
  by (simp add: chain_last_def chain_rows_def fun_eq_iff)

lemma verify_loop_split:
  "rp_valid (verify_loop (prev_hash_of es) (int (length es) + 1) (chain_last es) n (fs @ [e]))
     \<longleftrightarrow> rp_valid (verify_loop (prev_hash_of es) (int (length es) + 1) (chain_last es) n fs)
         \<and> entry_fault (prev_hash_of (es @ fs)) (int (length (es @ fs)) + 1) (chain_last (es @ fs) (se_chain_id e)) e = None"
proof (induction fs arbitrary: es n)
  case Nil
  then show ?case by (simp split: option.splits)
next
  case (Cons f fs)
  have ph: "prev_hash_of (es @ [f]) = se_entry_hash f" and len: "int (length (es @ [f])) + 1 = int (length es) + 1 + 1"
    by (simp_all add: prev_hash_of_def)
  note IH = Cons.IH [of "es @ [f]" "n + 1", unfolded ph len chain_last_snoc]
  show ?case
  proof (cases "entry_fault (prev_hash_of es) (int (length es) + 1) (chain_last es (se_chain_id f)) f")
    case None
    with IH show ?thesis by (simp only: append_Cons verify_loop.simps option.case append_assoc append_Nil)
  qed simp
qed

lemma valid_seq_Nil [simp]: "valid_seq []"
  by (simp add: valid_seq_def verify_global_sequence_def)

lemma valid_seq_snoc:
  "valid_seq (es @ [e]) \<longleftrightarrow> valid_seq es
     \<and> entry_fault (prev_hash_of es) (int (length es) + 1) (chain_last es (se_chain_id e)) e = None"
  using verify_loop_split [of "[]" 0 es e]
  by (simp add: valid_seq_def verify_global_sequence_def prev_hash_of_def)

lemma entry_fault_None:
  "entry_fault ph x p e = None \<longleftrightarrow>
     se_seq e = x \<and> se_prev_entry_hash e = ph \<and> rehash e = se_entry_hash e
     \<and> (\<forall>l. p = Some l \<longrightarrow> se_local_seq e = se_local_seq l + 1 \<and> se_local_prev_hash e = se_node_hash l
          \<and> se_chain_epoch l \<le> se_chain_epoch e)"
  by (auto simp: entry_fault_def split: option.splits)

lemma valid_seq_take: "valid_seq es \<Longrightarrow> valid_seq (take k es)"
proof (induction es rule: rev_induct)
  case (snoc e es)
  then show ?case
    by (cases "k \<le> length es") (auto simp: valid_seq_snoc)
qed simp

lemma valid_seq_nth: "valid_seq es \<Longrightarrow> k < length es \<Longrightarrow> se_seq (es ! k) = int k + 1"
  by (induction es rule: rev_induct) (auto simp: valid_seq_snoc entry_fault_None nth_append less_Suc_eq)

lemma valid_seq_sorted: "valid_seq es \<Longrightarrow> sorted_wrt (\<lambda>a b. se_seq a < se_seq b) es"
  by (auto simp: sorted_wrt_iff_nth_less valid_seq_nth)

lemma chain_rows_sorted:
  assumes "valid_seq es"
  shows "sorted_wrt (\<lambda>a b. se_local_seq a < se_local_seq b \<and> se_chain_epoch a \<le> se_chain_epoch b) (chain_rows c es)"
  using assms
proof (induction es rule: rev_induct)
  case (snoc e es)
  let ?R = "\<lambda>a b. se_local_seq a < se_local_seq b \<and> se_chain_epoch a \<le> se_chain_epoch b"
  from snoc have IH: "sorted_wrt ?R (chain_rows c es)"
    and ok: "entry_fault (prev_hash_of es) (int (length es) + 1) (chain_last es (se_chain_id e)) e = None"
    by (simp_all add: valid_seq_snoc)
  show ?case
  proof (cases "se_chain_id e = c \<and> chain_rows c es \<noteq> []")
    case True
    define l where "l = last (chain_rows c es)"
    from True ok have l: "se_local_seq e = se_local_seq l + 1" "se_chain_epoch l \<le> se_chain_epoch e"
      by (simp_all add: entry_fault_None chain_last_def l_def)
    obtain xs where xs: "chain_rows c es = xs @ [l]"
      using True by (metis append_butlast_last_id l_def)
    with IH have "?R a l" if "a \<in> set xs" for a
      using that by (simp add: sorted_wrt_append)
    then have "\<forall>a \<in> set (xs @ [l]). ?R a e"
      using l by fastforce
    with IH xs True show ?thesis
      by (simp add: chain_rows_def sorted_wrt_append)
  qed (use IH in \<open>auto simp: chain_rows_def\<close>)
qed (simp add: chain_rows_def)

lemma pick_max_sorted:
  "sorted_wrt (\<lambda>a b. f a < f b) xs \<Longrightarrow> pick_max f xs = (if xs = [] then None else Some (last xs))"
proof (induction xs)
  case (Cons x xs)
  show ?case
  proof (cases "xs = []")
    case False
    then have "f x < f (last xs)" using Cons.prems by simp
    then have "\<not> f (last xs) < f x" by linarith
    with False Cons.prems Cons.IH show ?thesis by simp
  qed simp
qed simp

lemma last_for_chain_valid:
  assumes "valid_seq es"
  shows "last_for_chain c es = chain_last es c"
proof -
  have "sorted_wrt (\<lambda>a b. se_local_seq a < se_local_seq b) (chain_rows c es)"
    using chain_rows_sorted [OF assms, of c] by (rule sorted_wrt_mono_rel [rotated]) simp
  from pick_max_sorted [OF this] show ?thesis
    by (simp add: last_for_chain_def chain_last_def chain_rows_def)
qed

lemma tip_valid:
  assumes "valid_seq es" and "es \<noteq> []"
  shows "tip_of es = Some (int (length es), prev_hash_of es)"
proof -
  have "se_seq (last es) = int (length es)"
    using valid_seq_nth [OF assms(1), of "length es - 1"] assms(2) by (cases es rule: rev_cases) simp_all
  with assms(2) pick_max_sorted [OF valid_seq_sorted [OF assms(1)]] show ?thesis
    by (simp add: tip_of_def prev_hash_of_def)
qed

lemma build_entries_valid:
  "valid_seq es \<Longrightarrow> build_entries (tip_of es) c ep now items = build_loop (int (length es)) (prev_hash_of es) c ep now items"
  by (cases "es = []") (simp_all add: build_entries_def tip_valid, simp add: tip_of_def prev_hash_of_def)

subsection \<open>Appending\<close>

lemma contiguous_tail: "contiguous (a # items) \<Longrightarrow> contiguous items"
  by (cases items) simp_all

lemma contiguous_above: "contiguous (a # items) \<Longrightarrow> b \<in> set items \<Longrightarrow> pn_local_seq a < pn_local_seq b"
proof (induction items arbitrary: a)
  case (Cons c items)
  then show ?case by force
qed simp

lemma contiguous_filter: "contiguous items \<Longrightarrow> contiguous (filter (\<lambda>i. pn_local_seq i > k) items)"
proof (induction items)
  case (Cons a items)
  show ?case
  proof (cases "pn_local_seq a > k")
    case True
    then have "filter (\<lambda>i. pn_local_seq i > k) (a # items) = a # items"
      using contiguous_above [OF Cons.prems] by (auto simp: filter_id_conv intro: less_trans)
    with Cons.prems show ?thesis by simp
  qed (use Cons contiguous_tail [of a items] in simp)
qed simp

text \<open>The first row continues the last row of the chain, under an epoch that is not older.\<close>

definition continues :: "seq_entry option \<Rightarrow> int \<Rightarrow> pending_node list \<Rightarrow> bool" where
  "continues l ep items \<longleftrightarrow>
     (\<forall>p i rest. l = Some p \<and> items = i # rest \<longrightarrow>
        pn_local_seq i = se_local_seq p + 1 \<and> pn_local_prev_hash i = se_node_hash p \<and> se_chain_epoch p \<le> ep)"

lemma plan_append_continues:
  assumes "plan_append l ep items = Inr todo"
  shows "contiguous todo \<and> continues l ep todo \<and> (l = None \<longrightarrow> todo = items)"
proof (cases l)
  case None
  then show ?thesis using assms by (auto simp: plan_append_def continues_def split: if_splits)
next
  case (Some p)
  let ?r = "filter (\<lambda>i. pn_local_seq i > se_local_seq p) items"
  from assms Some have "contiguous items" and ep: "se_chain_epoch p \<le> ep" and "todo = [] \<or> todo = ?r"
    and hd: "todo \<noteq> [] \<longrightarrow> pn_local_seq (hd todo) = se_local_seq p + 1 \<and> pn_local_prev_hash (hd todo) = se_node_hash p"
    by (auto simp: plan_append_def Let_def split: if_splits)
  then have "contiguous todo" by (auto intro: contiguous_filter)
  with ep hd Some show ?thesis by (auto simp: continues_def)
qed

lemma build_loop_valid:
  assumes "valid_seq es" and "contiguous items" and "continues (chain_last es c) ep items"
  shows "valid_seq (es @ build_loop (int (length es)) (prev_hash_of es) c ep now items)"
  using assms
proof (induction items arbitrary: es)
  case (Cons i items)
  define e where "e = hd (build_loop (int (length es)) (prev_hash_of es) c ep now (i # items))"
  have e: "se_seq e = int (length es) + 1" "se_prev_entry_hash e = prev_hash_of es" "se_chain_id e = c"
    "se_chain_epoch e = ep" "se_local_seq e = pn_local_seq i" "se_node_hash e = pn_node_hash i"
    "se_local_prev_hash e = pn_local_prev_hash i" "rehash e = se_entry_hash e"
    by (simp_all add: e_def Let_def rehash_def)
  have split: "build_loop (int (length es)) (prev_hash_of es) c ep now (i # items)
      = e # build_loop (int (length (es @ [e]))) (prev_hash_of (es @ [e])) c ep now items"
    by (simp add: e_def Let_def prev_hash_of_def add.commute)
  have "valid_seq (es @ [e])"
    using Cons.prems e by (auto simp: valid_seq_snoc entry_fault_None continues_def)
  moreover have "continues (chain_last (es @ [e]) c) ep items"
    using Cons.prems(2) e by (cases items) (auto simp: chain_last_snoc continues_def)
  ultimately have "valid_seq ((es @ [e]) @ build_loop (int (length (es @ [e]))) (prev_hash_of (es @ [e])) c ep now items)"
    using Cons.IH contiguous_tail [OF Cons.prems(2)] by blast
  then show ?case unfolding split by simp
qed simp

text \<open>
  A table that only grows row by row from the first position of each chain. A writer that
  finds no row of its chain starts at position 1, as the sequencer does.
\<close>

definition from_one :: "seq_entry list \<Rightarrow> bool" where
  "from_one es \<longleftrightarrow> (\<forall>c. chain_rows c es \<noteq> [] \<longrightarrow> se_local_seq (hd (chain_rows c es)) = 1)"

definition seq_table :: "seq_entry list \<Rightarrow> bool" where
  "seq_table es \<longleftrightarrow> valid_seq es \<and> from_one es"

definition starts_chain :: "seq_entry list \<Rightarrow> string \<Rightarrow> pending_node list \<Rightarrow> bool" where
  "starts_chain seen c items \<longleftrightarrow> (last_for_chain c seen = None \<longrightarrow> items = [] \<or> pn_local_seq (hd items) = 1)"

lemma seq_table_Nil [simp]: "seq_table []"
  by (simp add: seq_table_def from_one_def chain_rows_def)

lemma from_one_prefix: "from_one (es @ fs) \<Longrightarrow> from_one es"
  by (auto simp: from_one_def chain_rows_def)

lemma chain_rows_position:
  "valid_seq es \<Longrightarrow> from_one es \<Longrightarrow> i < length (chain_rows c es) \<Longrightarrow> se_local_seq (chain_rows c es ! i) = int i + 1"
proof (induction es arbitrary: i rule: rev_induct)
  case (snoc e es)
  have IH: "\<And>i. i < length (chain_rows c es) \<Longrightarrow> se_local_seq (chain_rows c es ! i) = int i + 1"
    using snoc from_one_prefix by (auto simp: valid_seq_snoc)
  show ?case
  proof (cases "se_chain_id e = c \<and> i = length (chain_rows c es)")
    case True
    then have row: "chain_rows c (es @ [e]) = chain_rows c es @ [e]" by (simp add: chain_rows_def)
    show ?thesis
    proof (cases "chain_rows c es = []")
      case True
      then have e: "chain_rows c (es @ [e]) = [e]" using row by simp
      have "chain_rows c (es @ [e]) \<noteq> [] \<longrightarrow> se_local_seq (hd (chain_rows c (es @ [e]))) = 1"
        using snoc.prems(2) unfolding from_one_def by blast
      then show ?thesis using e True \<open>se_chain_id e = c \<and> i = length (chain_rows c es)\<close> by simp
    next
      case False
      then have "chain_last es c = Some (last (chain_rows c es))" by (simp add: chain_last_def)
      with snoc.prems(1) True have "se_local_seq e = se_local_seq (last (chain_rows c es)) + 1"
        by (auto simp: valid_seq_snoc entry_fault_None)
      moreover have "length (chain_rows c es) - 1 < length (chain_rows c es)" using False by (cases "chain_rows c es") simp_all
      ultimately show ?thesis using IH [of "length (chain_rows c es) - 1"] False True row
        by (simp add: last_conv_nth of_nat_diff Suc_le_eq)
    qed
  next
    case False
    then show ?thesis using IH [of i] snoc.prems(3) by (auto simp: chain_rows_def nth_append split: if_splits)
  qed
qed (simp add: chain_rows_def)

lemma append_attempt_planned:
  assumes "append_attempt (take j tbl) (take k tbl) c ep now items tbl = Inr (rows, tbl')"
  shows "\<exists>todo. plan_append (last_for_chain c (take j tbl)) ep items = Inr todo
    \<and> rows = build_entries (tip_of (take k tbl)) c ep now todo \<and> tbl' = tbl @ rows \<and> unique_ok (tbl @ rows)"
  using assms by (auto simp: append_attempt_def bind_res_eq_Inr Let_def split: if_splits)

text \<open>The primary key makes an append on a stale tip fail, unless it adds nothing.\<close>

lemma stale_tip_adds_nothing:
  assumes v: "valid_seq tbl" and k: "k < length tbl" and uniq: "unique_ok (tbl @ build_entries (tip_of (take k tbl)) c ep now todo)"
  shows "todo = []"
proof (rule ccontr)
  assume "todo \<noteq> []"
  have "build_entries (tip_of (take k tbl)) c ep now todo = build_loop (int k) (prev_hash_of (take k tbl)) c ep now todo"
    using build_entries_valid [OF valid_seq_take [OF v], of k] k by simp
  with \<open>todo \<noteq> []\<close> have "int k + 1 \<in> se_seq ` set (build_entries (tip_of (take k tbl)) c ep now todo)"
    by (cases todo) (simp_all add: Let_def)
  moreover have "int k + 1 \<in> se_seq ` set tbl"
    using valid_seq_nth [OF v k] nth_mem [OF k] by (metis image_eqI)
  moreover have "se_seq ` set tbl \<inter> se_seq ` set (build_entries (tip_of (take k tbl)) c ep now todo) = {}"
    using uniq by (simp add: unique_ok_def)
  ultimately show False by blast
qed

lemma build_loop_position:
  "todo \<noteq> [] \<Longrightarrow> \<exists>r \<in> set (build_loop n p c ep now todo). se_chain_id r = c \<and> se_local_seq r = pn_local_seq (hd todo)"
  by (cases todo) (simp_all add: Let_def)

text \<open>
  \<open>UNIQUE (chain_id, local_seq)\<close> makes an append whose reading of the chain's last entry is
  stale fail, unless it adds nothing: another writer of the chain already took the position.
\<close>

lemma stale_last_adds_nothing:
  assumes t: "seq_table tbl" and plan: "plan_append (last_for_chain c (take j tbl)) ep items = Inr todo" and ne: "todo \<noteq> []"
    and start: "starts_chain (take j tbl) c items"
    and uniq: "unique_ok (tbl @ build_loop n p c ep now todo)"
  shows "last_for_chain c (take j tbl) = last_for_chain c tbl"
proof -
  have v: "valid_seq tbl" "valid_seq (take j tbl)" and one: "from_one tbl"
    using t by (simp_all add: seq_table_def valid_seq_take)
  define A where "A = chain_rows c (take j tbl)"
  define B where "B = chain_rows c (drop j tbl)"
  have AB: "chain_rows c tbl = A @ B"
    unfolding A_def B_def chain_rows_def filter_append [symmetric] append_take_drop_id ..
  have "B = []"
  proof (rule ccontr)
    assume B: "B \<noteq> []"
    have pos: "se_local_seq ((A @ B) ! i) = int i + 1" if "i < length (A @ B)" for i
      using chain_rows_position [OF v(1) one, of i c] that by (simp add: AB)
    have first: "pn_local_seq (hd todo) = int (length A) + 1"
    proof (cases "A = []")
      case True
      then have "last_for_chain c (take j tbl) = None" by (simp add: last_for_chain_valid [OF v(2)] chain_last_def A_def)
      with start plan_append_continues [OF plan] ne True show ?thesis by (auto simp: starts_chain_def)
    next
      case False
      then have "last_for_chain c (take j tbl) = Some (last A)" by (simp add: last_for_chain_valid [OF v(2)] chain_last_def A_def)
      with plan_append_continues [OF plan] ne have "pn_local_seq (hd todo) = se_local_seq (last A) + 1"
        by (cases todo) (simp_all add: continues_def)
      moreover have "length A - 1 < length (A @ B)" "length A - 1 < length A" using False by (cases A; simp)+
      ultimately show ?thesis using pos [of "length A - 1"] False by (simp add: last_conv_nth nth_append of_nat_diff Suc_le_eq)
    qed
    have "se_local_seq (hd B) = pn_local_seq (hd todo)"
      using pos [of "length A"] B first by (simp add: hd_conv_nth nth_append)
    moreover have "hd B \<in> set (chain_rows c tbl)" using B by (simp add: AB)
    ultimately have "(c, pn_local_seq (hd todo)) \<in> (\<lambda>e. (se_chain_id e, se_local_seq e)) ` set tbl"
      by (auto simp: chain_rows_def image_iff)
    moreover have "(c, pn_local_seq (hd todo)) \<in> (\<lambda>e. (se_chain_id e, se_local_seq e)) ` set (build_loop n p c ep now todo)"
      using build_loop_position [OF ne, of n p c ep now] by (auto simp: image_iff)
    moreover have "(\<lambda>e. (se_chain_id e, se_local_seq e)) ` set tbl
        \<inter> (\<lambda>e. (se_chain_id e, se_local_seq e)) ` set (build_loop n p c ep now todo) = {}"
      using uniq unfolding unique_ok_def map_append distinct_append set_map by blast
    ultimately show False by blast
  qed
  then show ?thesis using AB by (simp add: last_for_chain_valid v chain_last_def A_def)
qed

theorem append_valid:
  assumes t: "seq_table tbl" and start: "starts_chain (take j tbl) c items"
    and a: "append_attempt (take j tbl) (take k tbl) c ep now items tbl = Inr (rows, tbl')"
  shows "seq_table tbl' \<and> tbl' = tbl @ rows"
proof -
  from append_attempt_planned [OF a] obtain todo where plan: "plan_append (last_for_chain c (take j tbl)) ep items = Inr todo"
    and rows: "rows = build_entries (tip_of (take k tbl)) c ep now todo" and tbl': "tbl' = tbl @ rows" and uniq: "unique_ok (tbl @ rows)"
    by blast
  have v: "valid_seq tbl" and one: "from_one tbl" using t by (simp_all add: seq_table_def)
  show ?thesis
  proof (cases "todo = []")
    case True
    then show ?thesis using t tbl' rows by (simp add: build_entries_def split: option.split)
  next
    case False
    then have "\<not> k < length tbl" using stale_tip_adds_nothing [OF v] uniq rows by blast
    then have r: "rows = build_loop (int (length tbl)) (prev_hash_of tbl) c ep now todo"
      using rows build_entries_valid [OF v] by simp
    note fresh = stale_last_adds_nothing [OF t plan False start uniq [unfolded r]]
    from plan_append_continues [OF plan] fresh have "contiguous todo" "continues (chain_last tbl c) ep todo"
      by (simp_all add: last_for_chain_valid [OF v])
    from build_loop_valid [OF v this, of now] have "valid_seq tbl'" using tbl' r by simp
    moreover have "from_one tbl'"
      unfolding from_one_def
    proof (intro allI impI)
      fix d assume d: "chain_rows d tbl' \<noteq> []"
      show "se_local_seq (hd (chain_rows d tbl')) = 1"
      proof (cases "chain_rows d tbl = []")
        case True
        then have new: "chain_rows d tbl' = chain_rows d rows" by (simp add: tbl' chain_rows_def)
        have c: "\<forall>x \<in> set (build_loop n q c ep now ts). se_chain_id x = c" for n q ts
          by (induction ts arbitrary: n q) (simp_all add: Let_def)
        have dc: "d = c" using d new c [of "int (length tbl)" "prev_hash_of tbl" todo] unfolding r chain_rows_def
          by (auto simp: filter_empty_conv)
        then have "chain_rows d rows = rows" using c [of "int (length tbl)" "prev_hash_of tbl" todo]
          unfolding r chain_rows_def by (simp add: filter_id_conv)
        moreover have "last_for_chain c (take j tbl) = None"
          using fresh True dc by (simp add: last_for_chain_valid [OF v] chain_last_def)
        then have "pn_local_seq (hd todo) = 1" using start plan_append_continues [OF plan] False by (auto simp: starts_chain_def)
        ultimately show ?thesis using False new by (cases todo) (simp_all add: r Let_def)
      next
        case False
        then show ?thesis using one by (simp add: tbl' from_one_def chain_rows_def)
      qed
    qed
    ultimately show ?thesis using tbl' by (simp add: seq_table_def)
  qed
qed

text \<open>
  One commit of an append: its two queries met the table as it was after some of the commits,
  not necessarily the same ones.
\<close>

inductive seq_step :: "seq_entry list \<Rightarrow> seq_entry list \<Rightarrow> bool" where
  Appended: "starts_chain (take j tbl) c items \<Longrightarrow>
    append_attempt (take j tbl) (take k tbl) c ep now items tbl = Inr (rows, tbl') \<Longrightarrow> seq_step tbl tbl'"

lemma seq_step_valid: "seq_step tbl tbl' \<Longrightarrow> seq_table tbl \<Longrightarrow> seq_table tbl'"
  by (induction rule: seq_step.induct) (use append_valid in blast)

subsection \<open>Properties\<close>

text \<open>
  C4. The global sequence interleaves but never forks: from the empty table, any number of
  appends by any writers, also several of one chain, each planned on a last entry of its chain
  and built on a tip that two separate queries read and that may both be stale by the time it
  commits, leads only to tables that \<open>verify_global_sequence\<close> accepts as a whole. A writer that
  finds no entry of its chain starts at position 1, as the sequencer does.
\<close>

theorem sequence_always_verifies:
  assumes "seq_step\<^sup>*\<^sup>* [] tbl"
  shows "rp_valid (verify_global_sequence tbl)"
proof -
  have "seq_table tbl"
    using assms by (induction rule: rtranclp_induct) (simp_all add: seq_step_valid)
  then show ?thesis by (simp add: seq_table_def valid_seq_def)
qed

definition item :: "int \<Rightarrow> string \<Rightarrow> string \<Rightarrow> pending_node" where
  "item k h p = \<lparr>pn_local_seq = k, pn_node_hash = h, pn_local_prev_hash = p\<rparr>"

lemma first_append:
  "\<exists>rows. append_attempt [] [] ''c'' 3 ''now'' [item 1 ''n1'' GENESIS_HASH] [] = Inr (rows, rows)
     \<and> seq_table rows \<and> chain_last rows ''c'' \<noteq> None \<and> se_chain_epoch (the (chain_last rows ''c'')) = 3"
proof -
  let ?rows = "build_loop 0 GENESIS_HASH ''c'' 3 ''now'' [item 1 ''n1'' GENESIS_HASH]"
  have "append_attempt [] [] ''c'' 3 ''now'' [item 1 ''n1'' GENESIS_HASH] [] = Inr (?rows, ?rows)"
    by (simp add: append_attempt_def plan_append_def last_for_chain_def build_entries_def tip_of_def Let_def unique_ok_def)
  moreover from append_valid [OF seq_table_Nil, of 0 "''c''" "[item 1 ''n1'' GENESIS_HASH]" 0] this have "seq_table ?rows"
    by (simp add: starts_chain_def item_def)
  moreover have "chain_last ?rows ''c'' \<noteq> None \<and> se_chain_epoch (the (chain_last ?rows ''c'')) = 3"
    by (simp add: chain_last_def chain_rows_def Let_def)
  ultimately show ?thesis by blast
qed

theorem sequence_always_verifies_witness:
  "\<exists>tbl. tbl \<noteq> [] \<and> seq_step\<^sup>*\<^sup>* [] tbl \<and> rp_valid (verify_global_sequence tbl)"
proof -
  from first_append obtain rows where
    rows: "append_attempt [] [] ''c'' 3 ''now'' [item 1 ''n1'' GENESIS_HASH] [] = Inr (rows, rows)" "chain_last rows ''c'' \<noteq> None"
    by blast
  then have "seq_step\<^sup>*\<^sup>* [] rows"
    using seq_step.Appended [of 0 "[]" "''c''" "[item 1 ''n1'' GENESIS_HASH]" 0]
    by (auto simp: starts_chain_def item_def intro!: r_into_rtranclp)
  moreover have "rows \<noteq> []"
    using rows(2) by auto
  ultimately show ?thesis
    using sequence_always_verifies by blast
qed

text \<open>What the hash of an entry was computed over.\<close>

definition fields_of :: "seq_entry \<Rightarrow> (string \<times> jfield) list" where
  "fields_of e = entry_fields (se_seq e) (se_prev_entry_hash e) (se_chain_id e)
     (se_chain_epoch e) (se_local_seq e) (se_node_hash e) (se_local_prev_hash e) (se_recorded_at e)"

definition entry_hash_input :: "seq_entry \<Rightarrow> bytes" where
  "entry_hash_input e = SEQUENCE_DOMAIN @ encode (json_object (fields_of e))"

lemma rehash_input: "rehash e = hexdigest (entry_hash_input e)"
  by (simp add: rehash_def entry_hash_input_def compute_entry_hash_def fields_of_def)

lemma entry_input_inj:
  assumes "entry_hash_input d = entry_hash_input e" and "se_entry_hash d = se_entry_hash e"
  shows "d = e"
proof -
  have "json_object (fields_of d) = json_object (fields_of e)"
    using assms(1) by (simp add: entry_hash_input_def)
  moreover have "same_shape (fields_of d) (fields_of e)"
    by (simp add: same_shape_def fields_of_def entry_fields_def)
  ultimately have "fields_of d = fields_of e"
    by (rule json_object_inj [rotated])
  with assms(2) show ?thesis
    by (cases d, cases e) (simp add: fields_of_def entry_fields_def)
qed

lemma valid_seq_lastD:
  "valid_seq (es @ [e]) \<Longrightarrow> se_seq e = int (length es) + 1 \<and> se_entry_hash e = hexdigest (entry_hash_input e)
     \<and> se_prev_entry_hash e = prev_hash_of es"
  by (auto simp: valid_seq_snoc entry_fault_None rehash_input)

lemma same_tip_same_sequence:
  assumes "valid_seq es" and "valid_seq fs" and "length es = length fs" and "prev_hash_of es = prev_hash_of fs"
  shows "es = fs \<or> collision_between (entry_hash_input ` set es) (entry_hash_input ` set fs)"
  using assms
proof (induction es arbitrary: fs rule: rev_induct)
  case (snoc e es)
  then obtain f fs' where fs: "fs = fs' @ [f]" by (cases fs rule: rev_cases) auto
  note e = valid_seq_lastD [OF snoc.prems(1)] and f = valid_seq_lastD [OF snoc.prems(2) [unfolded fs]]
  have "sha256 (entry_hash_input e) = sha256 (entry_hash_input f)"
    using snoc.prems(4) e f fs by (simp add: prev_hash_of_def hexdigest_eq_iff)
  then consider "entry_hash_input e = entry_hash_input f"
    | "collision_between {entry_hash_input e} {entry_hash_input f}"
    using sha256_eq_or_collision by blast
  then show ?case
  proof cases
    case 1
    then have "e = f"
      using snoc.prems(4) fs by (intro entry_input_inj) (simp_all add: prev_hash_of_def)
    then have "prev_hash_of es = prev_hash_of fs'"
      using e f by simp
    with snoc.IH [of fs'] snoc.prems fs have "es = fs' \<or> collision_between (entry_hash_input ` set es) (entry_hash_input ` set fs')"
      by (simp add: valid_seq_snoc)
    then show ?thesis
    proof
      assume "collision_between (entry_hash_input ` set es) (entry_hash_input ` set fs')"
      then show ?thesis by (intro disjI2) (erule collision_between_mono, auto simp: fs)
    qed (simp add: \<open>e = f\<close> fs)
  next
    case 2
    then show ?thesis by (intro disjI2) (erule collision_between_mono, auto simp: fs)
  qed
qed simp

text \<open>
  C36. The last entry commits to the whole history: two non-empty sequences that verify and
  end in the same entry hash are the same sequence, every field of every entry, or the
  rendering of an entry of one and of an entry of the other are two byte strings with the
  same SHA-256 digest.
\<close>

theorem tip_commits_to_history:
  assumes "rp_valid (verify_global_sequence es)" and "rp_valid (verify_global_sequence fs)"
    and "es \<noteq> []" and "fs \<noteq> []" and "se_entry_hash (last es) = se_entry_hash (last fs)"
  shows "es = fs \<or> collision_between (entry_hash_input ` set es) (entry_hash_input ` set fs)"
proof -
  obtain es' e where es: "es = es' @ [e]" using assms(3) by (metis rev_exhaust)
  obtain fs' f where fs: "fs = fs' @ [f]" using assms(4) by (metis rev_exhaust)
  have v: "valid_seq es" "valid_seq fs" using assms(1,2) by (simp_all add: valid_seq_def)
  note e = valid_seq_lastD [OF v(1) [unfolded es]] and f = valid_seq_lastD [OF v(2) [unfolded fs]]
  have "sha256 (entry_hash_input e) = sha256 (entry_hash_input f)"
    using assms(5) e f es fs by (simp add: hexdigest_eq_iff)
  then consider "entry_hash_input e = entry_hash_input f"
    | "collision_between {entry_hash_input e} {entry_hash_input f}"
    using sha256_eq_or_collision by blast
  then show ?thesis
  proof cases
    case 1
    then have "e = f" using assms(5) es fs by (intro entry_input_inj) simp_all
    with e f es fs have "length es = length fs" by simp
    with same_tip_same_sequence [OF v] assms(3-5) show ?thesis by (simp add: prev_hash_of_def)
  next
    case 2
    then show ?thesis by (intro disjI2) (erule collision_between_mono, auto simp: es fs)
  qed
qed

theorem tip_commits_to_history_witness:
  "\<exists>es. es \<noteq> [] \<and> rp_valid (verify_global_sequence es)
     \<and> (es = es \<or> collision_between (entry_hash_input ` set es) (entry_hash_input ` set es))"
proof -
  from first_append obtain es where "seq_table es" "chain_last es ''c'' \<noteq> None" by blast
  then have "rp_valid (verify_global_sequence es)" "es \<noteq> []"
    by (auto simp: seq_table_def valid_seq_def)
  with tip_commits_to_history [of es es] show ?thesis by blast
qed

subsection \<open>The fence\<close>

definition vstep :: "seq_entry list \<Rightarrow> seq_entry list \<Rightarrow> bool" where
  "vstep tbl tbl' \<longleftrightarrow> seq_table tbl \<and> seq_step tbl tbl'"

definition sequenced_epoch :: "string \<Rightarrow> seq_entry list \<Rightarrow> int option" where
  "sequenced_epoch c tbl = map_option se_chain_epoch (last_for_chain c tbl)"

definition store_admits :: "string \<Rightarrow> seq_entry list \<Rightarrow> int \<Rightarrow> bool" where
  "store_admits c tbl v \<longleftrightarrow> (\<exists>items todo. plan_append (last_for_chain c tbl) v items = Inr todo)"

lemma seq_step_extends: "seq_step tbl tbl' \<Longrightarrow> \<exists>rows. tbl' = tbl @ rows"
  by (auto elim!: seq_step.cases simp: append_attempt_def bind_res_eq_Inr Let_def split: if_splits)

lemma chain_epoch_mono:
  assumes "valid_seq (tbl @ rows)" and "chain_last tbl c = Some p"
  shows "\<exists>q. chain_last (tbl @ rows) c = Some q \<and> se_chain_epoch p \<le> se_chain_epoch q"
proof -
  let ?a = "chain_rows c tbl" and ?b = "chain_rows c rows"
  have app: "chain_rows c (tbl @ rows) = ?a @ ?b" by (simp add: chain_rows_def)
  have p: "?a \<noteq> []" "p = last ?a" using assms(2) by (simp_all add: chain_last_def split: if_splits)
  show ?thesis
  proof (cases "?b = []")
    case False
    with p have "se_chain_epoch p \<le> se_chain_epoch (last ?b)"
      using chain_rows_sorted [OF assms(1), of c] by (simp add: app sorted_wrt_append)
    with False show ?thesis by (simp add: chain_last_def app)
  qed (use p in \<open>simp add: chain_last_def app\<close>)
qed

interpretation store: fencing vstep "sequenced_epoch c" "store_admits c" for c
proof
  fix s s' m
  assume v: "vstep s s'" and m: "sequenced_epoch c s = Some m"
  then have val: "valid_seq s" "valid_seq s'" by (auto simp: vstep_def seq_table_def dest: seq_step_valid [unfolded seq_table_def])
  obtain rows where s': "s' = s @ rows" using v seq_step_extends by (auto simp: vstep_def)
  from m val obtain p where "chain_last s c = Some p" "se_chain_epoch p = m"
    by (auto simp: sequenced_epoch_def last_for_chain_valid)
  with chain_epoch_mono [of s rows c p] val s' show "\<exists>m' \<ge> m. sequenced_epoch c s' = Some m'"
    by (auto simp: sequenced_epoch_def last_for_chain_valid)
next
  fix s v m
  assume "store_admits c s v" and "sequenced_epoch c s = Some m"
  then show "m \<le> v"
    by (auto simp: store_admits_def sequenced_epoch_def plan_append_def Let_def split: if_splits)
qed

text \<open>
  The epoch fence: once the last sequenced entry of a chain carries epoch \<open>m\<close>, then after
  any number of further appends an append by a writer with an older epoch, whatever its
  queries met, inserts no row.
\<close>

theorem stale_epoch_adds_nothing:
  assumes "seq_table tbl" and "sequenced_epoch c tbl = Some m" and "vstep\<^sup>*\<^sup>* tbl tbl'" and "ep < m"
    and "starts_chain (take j tbl') c items" and "append_attempt (take j tbl') (take k tbl') c ep now items tbl' = Inr (rows, tbl'')"
  shows "rows = [] \<and> tbl'' = tbl'"
proof -
  have t: "seq_table tbl'"
    using assms(3,1) by (induction rule: rtranclp_induct) (auto simp: vstep_def intro: seq_step_valid)
  then have v: "valid_seq tbl'" by (simp add: seq_table_def)
  from append_attempt_planned [OF assms(6)] obtain todo where plan: "plan_append (last_for_chain c (take j tbl')) ep items = Inr todo"
    and rows: "rows = build_entries (tip_of (take k tbl')) c ep now todo" "tbl'' = tbl' @ rows" and uniq: "unique_ok (tbl' @ rows)"
    by blast
  have "todo = []"
  proof (rule ccontr)
    assume ne: "todo \<noteq> []"
    have b: "build_entries (tip_of (take k tbl')) c ep now todo
        = build_loop (int (length (take k tbl'))) (prev_hash_of (take k tbl')) c ep now todo"
      by (rule build_entries_valid [OF valid_seq_take [OF v]])
    from stale_last_adds_nothing [OF t plan ne assms(5) uniq [unfolded rows(1) b]] plan have "store_admits c tbl' ep"
      by (auto simp: store_admits_def)
    with store.stale_refused [OF assms(3,2,4)] show False by simp
  qed
  then show ?thesis using rows by (simp add: build_entries_def split: option.split)
qed

theorem stale_epoch_adds_nothing_witness:
  "\<exists>tbl. seq_table tbl \<and> sequenced_epoch ''c'' tbl = Some 3
     \<and> (\<forall>now items rows tbl'. starts_chain [] ''c'' items \<longrightarrow>
          append_attempt [] (take 1 tbl) ''c'' 2 now items tbl = Inr (rows, tbl') \<longrightarrow> rows = [])"
proof -
  from first_append obtain tbl where v: "seq_table tbl" and l: "chain_last tbl ''c'' \<noteq> None" "se_chain_epoch (the (chain_last tbl ''c'')) = 3"
    by blast
  then have "sequenced_epoch ''c'' tbl = Some 3"
    by (auto simp: sequenced_epoch_def last_for_chain_valid seq_table_def)
  with v stale_epoch_adds_nothing [OF v this rtranclp.rtrancl_refl, of 2 0] show ?thesis by auto
qed

subsection \<open>Chain references\<close>

lemma match_nodes_spec:
  "match_nodes m pos nodes =
     (if \<forall>k < length nodes. \<forall>e. m (pos + int k) = Some e \<longrightarrow> nodes ! k = (se_node_hash e, se_local_prev_hash e)
      then Some (\<lambda>p. if pos \<le> p \<and> p < pos + int (length nodes) then None else m p) else None)"
proof (induction nodes arbitrary: m pos)
  case (Cons nd nodes)
  obtain h p where nd: "nd = (h, p)" by force
  have shift: "pos + 1 + int k = pos + int (Suc k)" for k by simp
  show ?case
  proof (cases "m pos")
    case None
    have "(\<lambda>p. if pos + 1 \<le> p \<and> p < pos + 1 + int (length nodes) then None else m p)
        = (\<lambda>p. if pos \<le> p \<and> p < pos + int (length (nd # nodes)) then None else m p)"
      using None by (auto simp: fun_eq_iff) (metis antisym_conv2 zle_add1_eq_le linorder_not_le add.commute zless_imp_add1_zle)
    with None show ?thesis
      by (simp add: nd Cons.IH All_less_Suc2 shift del: of_nat_Suc)
  next
    case (Some e)
    let ?m = "m(pos := None)"
    have m: "?m (pos + int (Suc k)) = m (pos + int (Suc k))" for k by simp
    have "(\<lambda>p. if pos + 1 \<le> p \<and> p < pos + 1 + int (length nodes) then None else ?m p)
        = (\<lambda>p. if pos \<le> p \<and> p < pos + int (length (nd # nodes)) then None else m p)"
      by (auto simp: fun_eq_iff)
    with Some show ?thesis
      by (auto simp: nd Cons.IH All_less_Suc2 m shift simp del: of_nat_Suc fun_upd_apply)
  qed
qed (auto simp: fun_eq_iff)

lemma by_position_valid:
  assumes "valid_seq es"
  shows "by_position c es k = Some e \<longleftrightarrow> e \<in> set (chain_rows c es) \<and> se_local_seq e = k"
proof -
  have "sorted_wrt (\<lambda>a b. se_local_seq a < se_local_seq b) (chain_rows c es)"
    using chain_rows_sorted [OF assms, of c] by (rule sorted_wrt_mono_rel [rotated]) simp
  then have "sorted_wrt (<) (map se_local_seq (chain_rows c es))"
    by (simp add: sorted_wrt_map)
  then have "distinct (map se_local_seq (chain_rows c es))"
    by (simp add: strict_sorted_iff)
  then have "distinct (map fst (map (\<lambda>e. (se_local_seq e, e)) (chain_rows c es)))"
    by (simp add: comp_def)
  then have "distinct (map fst (rev (map (\<lambda>e. (se_local_seq e, e)) (chain_rows c es))))"
    by (simp only: rev_map [symmetric] distinct_rev)
  then show ?thesis
    by (auto simp: by_position_def chain_rows_def)
qed

text \<open>
  The chain references are checked exactly: for a verified sequence with entries for the
  chain, \<open>verify_chain_references\<close> answers true if and only if every entry of the chain names
  the node hash and the predecessor hash that the given chain has at that position,
  counted from the first sequenced one.
\<close>

theorem chain_references_exact:
  assumes "valid_seq es" and "chain_rows c es \<noteq> []"
  defines "first \<equiv> Min (se_local_seq ` set (chain_rows c es))"
  shows "fst (verify_chain_references es c nodes) \<longleftrightarrow>
     (\<forall>e \<in> set (chain_rows c es). se_local_seq e - first < int (length nodes)
        \<and> nodes ! nat (se_local_seq e - first) = (se_node_hash e, se_local_prev_hash e))"
proof -
  let ?R = "set (chain_rows c es)" and ?m = "by_position c es"
  have ge: "first \<le> se_local_seq e" if "e \<in> ?R" for e
    unfolding first_def using that by simp
  have eq: "filter (\<lambda>e. se_chain_id e = c) es = chain_rows c es"
    by (simp add: chain_rows_def)
  have pos: "?m (first + int k) = Some e \<longleftrightarrow> e \<in> ?R \<and> nat (se_local_seq e - first) = k" for k e
    using by_position_valid [OF assms(1)] ge by (auto simp: nat_eq_iff)
  have left: "?m (se_local_seq e) = Some e" if "e \<in> ?R" for e
    using by_position_valid [OF assms(1)] that by simp
  have "fst (verify_chain_references es c nodes) \<longleftrightarrow>
      (\<forall>k < length nodes. \<forall>e. ?m (first + int k) = Some e \<longrightarrow> nodes ! k = (se_node_hash e, se_local_prev_hash e))
      \<and> (\<forall>e \<in> ?R. se_local_seq e < first + int (length nodes))"
    using assms(2) ge left
    by (auto simp: verify_chain_references_def Let_def eq match_nodes_spec list_ex_iff first_def [symmetric]
        split: if_splits)
  also have "\<dots> \<longleftrightarrow> (\<forall>e \<in> ?R. se_local_seq e - first < int (length nodes)
        \<and> nodes ! nat (se_local_seq e - first) = (se_node_hash e, se_local_prev_hash e))"
    using ge by (auto simp: pos nat_less_iff)
  finally show ?thesis .
qed

theorem chain_references_exact_witness:
  "\<exists>es. chain_rows ''c'' es \<noteq> [] \<and> fst (verify_chain_references es ''c'' [(''n1'', GENESIS_HASH)])"
proof -
  let ?rows = "build_loop 0 GENESIS_HASH ''c'' 3 ''now'' [item 1 ''n1'' GENESIS_HASH]"
  have "append_attempt [] [] ''c'' 3 ''now'' [item 1 ''n1'' GENESIS_HASH] [] = Inr (?rows, ?rows)"
    by (simp add: append_attempt_def plan_append_def last_for_chain_def build_entries_def tip_of_def Let_def unique_ok_def)
  from append_valid [OF seq_table_Nil, of 0 "''c''" "[item 1 ''n1'' GENESIS_HASH]" 0] this have v: "valid_seq ?rows"
    by (simp add: starts_chain_def item_def seq_table_def)
  have ne: "chain_rows ''c'' ?rows \<noteq> []"
    by (simp add: chain_rows_def Let_def)
  have "fst (verify_chain_references ?rows ''c'' [(''n1'', GENESIS_HASH)])"
    unfolding chain_references_exact [OF v ne] by (simp add: chain_rows_def Let_def item_def)
  with ne show ?thesis by blast
qed

end
