(* ===== verification/Ha_Lease.thy ===== *)
theory Ha_Lease
  imports Prelude
begin

section \<open>The chain writer lease\<close>

text \<open>
  The model of \<open>ChainLease\<close> of \<^verbatim>\<open>aegis/core/ha.py\<close>: the four Lua scripts as operations on the
  lease key and the epoch counter of the server, the client's operations around them, and a
  system of any number of replicas. A call is three steps (sent, executed by the server,
  reply processed), each at its own time; a reply may never come, and the server may execute a
  call again, or only long after the client gave up waiting (the client library retries, the
  socket times out). The client counts its lease from the time before the call was sent.
  Clocks run at the same rate. A holder id is one process (\<open>new_holder_id\<close> draws it), and a
  process releases once, when it stops (\<open>HAController.stop\<close>). The stored
  value \<open>holder|epoch\<close> is kept as the pair: the constructor refuses a holder id with a
  \<open>|\<close>, so splitting at the first one is exact. Epochs are integers: the floor is checked
  against \<open>MAX_EPOCH\<close>, below which the server's numbers are exact.
\<close>

subsection \<open>The server\<close>

record redis =
  lease_value :: "(string \<times> int) option"
  lease_expires :: rat
  epoch_counter :: int

definition redis_empty :: redis where
  "redis_empty = \<lparr>lease_value = None, lease_expires = 0, epoch_counter = 0\<rparr>"

definition redis_get :: "rat \<Rightarrow> redis \<Rightarrow> (string \<times> int) option" where
  "redis_get now r = (if now < lease_expires r then lease_value r else None)"

text \<open>\<open>INCR\<close>, lifted above the floor.\<close>

definition draw_epoch :: "int \<Rightarrow> redis \<Rightarrow> int" where
  "draw_epoch fl r =
     (let epoch = epoch_counter r + 1 in if epoch \<le> fl then fl + 1 else epoch)"

definition lua_acquire :: "rat \<Rightarrow> string \<Rightarrow> rat \<Rightarrow> int \<Rightarrow> redis \<Rightarrow> int option \<times> redis" where
  "lua_acquire now holder ttl fl r =
     (case redis_get now r of
        None \<Rightarrow>
          let epoch = draw_epoch fl r
          in (Some epoch, r\<lparr>lease_value := Some (holder, epoch), lease_expires := now + ttl, epoch_counter := epoch\<rparr>)
      | Some (h, epoch) \<Rightarrow>
          if h = holder then (Some epoch, r\<lparr>lease_expires := now + ttl\<rparr>) else (None, r))"

definition lua_renew :: "rat \<Rightarrow> string \<times> int \<Rightarrow> rat \<Rightarrow> redis \<Rightarrow> bool \<times> redis" where
  "lua_renew now v ttl r =
     (if redis_get now r = Some v then (True, r\<lparr>lease_expires := now + ttl\<rparr>) else (False, r))"

definition lua_raise :: "rat \<Rightarrow> string \<times> int \<Rightarrow> rat \<Rightarrow> int \<Rightarrow> redis \<Rightarrow> int option \<times> redis" where
  "lua_raise now v ttl fl r =
     (if redis_get now r \<noteq> Some v then (None, r)
      else
        let epoch = draw_epoch fl r
        in (Some epoch, r\<lparr>lease_value := Some (fst v, epoch), lease_expires := now + ttl, epoch_counter := epoch\<rparr>))"

definition lua_release :: "rat \<Rightarrow> string \<times> int \<Rightarrow> redis \<Rightarrow> redis" where
  "lua_release now v r = (if redis_get now r = Some v then r\<lparr>lease_value := None\<rparr> else r)"

subsection \<open>The client\<close>

datatype call = Acquire int | Renew "string \<times> int" | Raise "string \<times> int" int | Release "string \<times> int"

datatype phase = Quiet | Sent rat call | Done rat call "int option"

record chain_lease =
  holder_id :: string
  ttl_seconds :: rat
  epoch_held :: "int option"
  valid_until :: rat
  call_phase :: phase

definition MAX_EPOCH :: int where
  "MAX_EPOCH = 2 ^ 53 - 2"

definition margin_seconds :: "chain_lease \<Rightarrow> rat" where
  "margin_seconds l = max (ttl_seconds l / 5) (1 / 2)"

definition ttl_ms :: "chain_lease \<Rightarrow> int" where
  "ttl_ms l = \<lfloor>ttl_seconds l * 1000\<rfloor>"

text \<open>The TTL as the server applies it, in seconds.\<close>

definition server_ttl :: "chain_lease \<Rightarrow> rat" where
  "server_ttl l = of_int (ttl_ms l) / 1000"

definition forbidden_char :: "char \<Rightarrow> bool" where
  "forbidden_char c \<longleftrightarrow> c = CHR ''|'' \<or> c = CHR 0x0D \<or> c = CHR 0x0A \<or> c = CHR 0x00"

definition lease_init :: "string \<Rightarrow> string \<Rightarrow> rat \<Rightarrow> chain_lease res" where
  "lease_init chain_id holder ttl =
     (if chain_id = [] \<or> list_ex forbidden_char chain_id
      then Inl (ValueError ''chain_id must be non-empty and contain no | or control characters'')
      else if CHR ''|'' \<in> set holder then Inl (ValueError ''holder_id must not contain |'')
      else if ttl < 1 then Inl (ValueError ''ttl_seconds must be at least 1'')
      else Inr \<lparr>holder_id = holder, ttl_seconds = ttl, epoch_held = None, valid_until = 0, call_phase = Quiet\<rparr>)"

definition checked_floor :: "int \<Rightarrow> int res" where
  "checked_floor fl =
     (if 0 \<le> fl \<and> fl \<le> MAX_EPOCH then Inr fl else Inl (ValueError ''an epoch floor must be an integer in range''))"

definition lease_unavailable :: exn where
  "lease_unavailable = RuntimeError ''LeaseUnavailableError''"

text \<open>What each operation does before it sends, or instead of sending (the right summand).\<close>

definition acquire_send :: "rat \<Rightarrow> int \<Rightarrow> chain_lease \<Rightarrow> chain_lease res" where
  "acquire_send now fl l =
     bind_res (checked_floor fl) (\<lambda>f. Inr (l\<lparr>call_phase := Sent now (Acquire f)\<rparr>))"

definition renew_send :: "rat \<Rightarrow> chain_lease \<Rightarrow> chain_lease + bool" where
  "renew_send now l =
     (case epoch_held l of
        None \<Rightarrow> Inr False
      | Some e \<Rightarrow> Inl (l\<lparr>call_phase := Sent now (Renew (holder_id l, e))\<rparr>))"

definition raise_send :: "rat \<Rightarrow> int \<Rightarrow> chain_lease \<Rightarrow> (chain_lease + int) res" where
  "raise_send now fl l =
     bind_res (checked_floor fl) (\<lambda>f.
       case epoch_held l of
         None \<Rightarrow> Inl lease_unavailable
       | Some e \<Rightarrow>
           if e > f then Inr (Inr e)
           else Inr (Inl (l\<lparr>call_phase := Sent now (Raise (holder_id l, e) f)\<rparr>)))"

definition release_send :: "rat \<Rightarrow> chain_lease \<Rightarrow> chain_lease" where
  "release_send now l =
     (let l1 = l\<lparr>valid_until := 0\<rparr> in
      case epoch_held l1 of
        None \<Rightarrow> l1
      | Some e \<Rightarrow> l1\<lparr>call_phase := Sent now (Release (holder_id l1, e))\<rparr>)"

text \<open>The server executes the call; \<open>Some\<close> in the result is success.\<close>

fun serve :: "rat \<Rightarrow> chain_lease \<Rightarrow> call \<Rightarrow> redis \<Rightarrow> int option \<times> redis" where
  "serve now l (Acquire f) r = lua_acquire now (holder_id l) (server_ttl l) f r"
| "serve now l (Renew v) r =
     (case lua_renew now v (server_ttl l) r of (ok, r') \<Rightarrow> (if ok then Some 1 else None, r'))"
| "serve now l (Raise v f) r = lua_raise now v (server_ttl l) f r"
| "serve now l (Release v) r = (None, lua_release now v r)"

text \<open>The reply: the lease counts from the time the call was sent, minus the margin.\<close>

fun reply :: "rat \<Rightarrow> call \<Rightarrow> int option \<Rightarrow> chain_lease \<Rightarrow> chain_lease" where
  "reply sent (Acquire f) (Some e) l =
     l\<lparr>epoch_held := Some e, valid_until := sent + ttl_seconds l - margin_seconds l, call_phase := Quiet\<rparr>"
| "reply sent (Acquire f) None l = l\<lparr>call_phase := Quiet\<rparr>"
| "reply sent (Renew v) (Some _) l = l\<lparr>valid_until := sent + ttl_seconds l - margin_seconds l, call_phase := Quiet\<rparr>"
| "reply sent (Renew v) None l = l\<lparr>valid_until := 0, call_phase := Quiet\<rparr>"
| "reply sent (Raise v f) (Some e) l =
     l\<lparr>epoch_held := Some e, valid_until := sent + ttl_seconds l - margin_seconds l, call_phase := Quiet\<rparr>"
| "reply sent (Raise v f) None l = l\<lparr>valid_until := 0, call_phase := Quiet\<rparr>"
| "reply sent (Release v) _ l = l\<lparr>call_phase := Quiet\<rparr>"

definition lease_holds :: "rat \<Rightarrow> chain_lease \<Rightarrow> bool" where
  "lease_holds now l \<longleftrightarrow> now < valid_until l"

definition seconds_remaining :: "rat \<Rightarrow> chain_lease \<Rightarrow> rat" where
  "seconds_remaining now l = max 0 (valid_until l - now)"

subsection \<open>Replicas\<close>

record replicas =
  server :: redis
  now :: rat
  lease_of :: "string \<Rightarrow> chain_lease"
  on_wire :: "(string \<times> call) list"

definition with_lease :: "string \<Rightarrow> chain_lease \<Rightarrow> replicas \<Rightarrow> replicas" where
  "with_lease i l s = s\<lparr>lease_of := (lease_of s)(i := l)\<rparr>"

text \<open>A call goes out: the network keeps it.\<close>

definition send_call :: "string \<Rightarrow> chain_lease \<Rightarrow> replicas \<Rightarrow> replicas" where
  "send_call i l s =
     (case call_phase l of
        Sent t c \<Rightarrow> with_lease i l (s\<lparr>on_wire := (i, c) # on_wire s\<rparr>)
      | _ \<Rightarrow> with_lease i l s)"

definition gave_up :: "replicas \<Rightarrow> string \<Rightarrow> bool" where
  "gave_up s i \<longleftrightarrow> (\<exists>v. (i, Release v) \<in> set (on_wire s))"

text \<open>
  One operation at a time per replica (\<open>_op_lock\<close>). A call whose reply is lost raises and
  leaves the client as it was. \<open>Late\<close>: the server executes any call ever sent, at any time
  and any number of times, to nobody's knowledge. A replica that has sent a release makes no
  other call after it.
\<close>

inductive lease_step :: "replicas \<Rightarrow> replicas \<Rightarrow> bool" where
  Tick: "0 \<le> d \<Longrightarrow> lease_step s (s\<lparr>now := now s + d\<rparr>)"
| Send_Acquire: "call_phase (lease_of s i) = Quiet \<Longrightarrow> \<not> gave_up s i \<Longrightarrow>
     acquire_send (now s) f (lease_of s i) = Inr l \<Longrightarrow> lease_step s (send_call i l s)"
| Send_Renew: "call_phase (lease_of s i) = Quiet \<Longrightarrow> \<not> gave_up s i \<Longrightarrow>
     renew_send (now s) (lease_of s i) = Inl l \<Longrightarrow> lease_step s (send_call i l s)"
| Send_Raise: "call_phase (lease_of s i) = Quiet \<Longrightarrow> \<not> gave_up s i \<Longrightarrow>
     raise_send (now s) f (lease_of s i) = Inr (Inl l) \<Longrightarrow> lease_step s (send_call i l s)"
| Send_Release: "call_phase (lease_of s i) = Quiet \<Longrightarrow> lease_step s (send_call i (release_send (now s) (lease_of s i)) s)"
| Execute: "call_phase (lease_of s i) = Sent t c \<Longrightarrow> serve (now s) (lease_of s i) c (server s) = (res, r) \<Longrightarrow>
     lease_step s (with_lease i ((lease_of s i)\<lparr>call_phase := Done t c res\<rparr>) (s\<lparr>server := r\<rparr>))"
| Reply: "call_phase (lease_of s i) = Done t c res \<Longrightarrow> lease_step s (with_lease i (reply t c res (lease_of s i)) s)"
| Lost: "call_phase (lease_of s i) \<noteq> Quiet \<Longrightarrow>
     lease_step s (with_lease i ((lease_of s i)\<lparr>call_phase := Quiet\<rparr>) s)"
| Late: "(i, c) \<in> set (on_wire s) \<Longrightarrow> serve (now s) (lease_of s i) c (server s) = (res, r) \<Longrightarrow>
     lease_step s (s\<lparr>server := r\<rparr>)"

definition replicas_init :: "(string \<Rightarrow> rat) \<Rightarrow> replicas" where
  "replicas_init ttl =
     \<lparr>server = redis_empty, now = 0,
      lease_of = (\<lambda>i. \<lparr>holder_id = i, ttl_seconds = ttl i, epoch_held = None, valid_until = 0, call_phase = Quiet\<rparr>),
      on_wire = []\<rparr>"

subsection \<open>At most one holder\<close>

text \<open>
  A claim of a replica is a time until which it believes, or will believe once it reads a
  reply, that it holds the lease. The server's expiry is later than every live claim.
\<close>

definition claim_until :: "rat \<Rightarrow> chain_lease \<Rightarrow> rat" where
  "claim_until sent l = sent + ttl_seconds l - margin_seconds l"

fun grants :: "call \<Rightarrow> int option \<Rightarrow> bool" where
  "grants (Release _) _ = False"
| "grants _ res = (res \<noteq> None)"

definition claims_of :: "chain_lease \<Rightarrow> rat set" where
  "claims_of l = insert (valid_until l)
     (case call_phase l of Done t c res \<Rightarrow> if grants c res then {claim_until t l} else {} | _ \<Rightarrow> {})"

definition backed :: "rat \<Rightarrow> redis \<Rightarrow> string \<Rightarrow> rat \<Rightarrow> bool" where
  "backed t r i u \<longleftrightarrow> (t < u \<longrightarrow> u \<le> lease_expires r \<and> (\<exists>e. lease_value r = Some (i, e)))"

fun sent_at :: "phase \<Rightarrow> rat option" where
  "sent_at (Sent t c) = Some t"
| "sent_at (Done t c res) = Some t"
| "sent_at Quiet = None"

fun value_ok :: "string \<Rightarrow> call \<Rightarrow> bool" where
  "value_ok i (Renew v) = (fst v = i)"
| "value_ok i (Raise v f) = (fst v = i)"
| "value_ok i (Release v) = (fst v = i)"
| "value_ok i (Acquire f) = True"

definition client_ok :: "rat \<Rightarrow> redis \<Rightarrow> string \<Rightarrow> chain_lease \<Rightarrow> bool" where
  "client_ok t r i l \<longleftrightarrow>
     holder_id l = i \<and> 1 \<le> ttl_seconds l
     \<and> (\<forall>u \<in> claims_of l. backed t r i u \<and> u \<le> t + server_ttl l)
     \<and> (\<forall>x. sent_at (call_phase l) = Some x \<longrightarrow> x \<le> t)"

fun call_of :: "phase \<Rightarrow> call option" where
  "call_of (Sent t c) = Some c"
| "call_of (Done t c res) = Some c"
| "call_of Quiet = None"

fun is_release :: "call \<Rightarrow> bool" where
  "is_release (Release v) = True"
| "is_release _ = False"

text \<open>A replica that gave the lease up claims it no more and makes no other call.\<close>

definition withdrawn :: "rat \<Rightarrow> chain_lease \<Rightarrow> bool" where
  "withdrawn t l \<longleftrightarrow> valid_until l \<le> t \<and> (\<forall>c. call_of (call_phase l) = Some c \<longrightarrow> is_release c)"

definition wire_ok :: "replicas \<Rightarrow> bool" where
  "wire_ok s \<longleftrightarrow>
     (\<forall>(i, c) \<in> set (on_wire s). value_ok i c)
     \<and> (\<forall>i t c. call_phase (lease_of s i) = Sent t c \<longrightarrow> (i, c) \<in> set (on_wire s))
     \<and> (\<forall>i. gave_up s i \<longrightarrow> withdrawn (now s) (lease_of s i))"

definition lease_inv :: "replicas \<Rightarrow> bool" where
  "lease_inv s \<longleftrightarrow> 0 \<le> now s \<and> (\<forall>i. client_ok (now s) (server s) i (lease_of s i)) \<and> wire_ok s"

lemma server_ttl_bounds:
  assumes "1 \<le> ttl_seconds l"
  shows "ttl_seconds l - margin_seconds l \<le> server_ttl l" and "0 \<le> server_ttl l"
proof -
  have "ttl_seconds l * 1000 - 1 < of_int (ttl_ms l)"
    unfolding ttl_ms_def by linarith
  then have "ttl_seconds l - 1 / 1000 < server_ttl l"
    by (simp add: server_ttl_def field_simps)
  moreover have "1 / 2 \<le> margin_seconds l"
    by (simp add: margin_seconds_def)
  ultimately show "ttl_seconds l - margin_seconds l \<le> server_ttl l" "0 \<le> server_ttl l"
    using assms by linarith+
qed

lemma claim_until_bound: "1 \<le> ttl_seconds l \<Longrightarrow> x \<le> t \<Longrightarrow> claim_until x l \<le> t + server_ttl l"
  using server_ttl_bounds(1) [of l] by (simp add: claim_until_def)

lemma backed_past: "u \<le> t \<Longrightarrow> backed t r i u"
  by (simp add: backed_def)

lemma backed_later: "backed t r i u \<Longrightarrow> 0 \<le> d \<Longrightarrow> backed (t + d) r i u"
  by (auto simp: backed_def)

lemma live_claim_get: "backed t r i u \<Longrightarrow> t < u \<Longrightarrow> \<exists>e. redis_get t r = Some (i, e)"
  by (auto simp: backed_def redis_get_def)

text \<open>How the server may change: not at all, or in favour of one replica.\<close>

lemma serve_cases:
  assumes "serve t l c r = (res, r')" and "value_ok (holder_id l) c"
  shows "r' = r \<and> \<not> grants c res
     \<or> (redis_get t r = None \<or> (\<exists>e. redis_get t r = Some (holder_id l, e)))
        \<and> (lease_expires r' = t + server_ttl l \<and> (\<exists>e. lease_value r' = Some (holder_id l, e))
           \<or> (\<exists>v. c = Release v) \<and> lease_value r' = None \<and> redis_get t r \<noteq> None)"
proof (cases c)
  case (Acquire f)
  then show ?thesis using assms
    by (auto simp: lua_acquire_def redis_get_def Let_def split: option.splits if_splits)
next
  case (Renew v)
  then show ?thesis using assms
    by (cases v) (auto simp: lua_renew_def redis_get_def split: if_splits)
next
  case (Raise v f)
  then show ?thesis using assms
    by (cases v) (auto simp: lua_raise_def redis_get_def Let_def split: if_splits)
next
  case (Release v)
  then show ?thesis using assms
    by (cases v) (auto simp: lua_release_def split: if_splits)
qed

lemma withdrawn_claims: "withdrawn t l \<Longrightarrow> u \<in> claims_of l \<Longrightarrow> u \<le> t"
  by (cases "call_phase l")
    (auto simp: withdrawn_def claims_of_def split: if_splits elim: is_release.elims)

lemma serve_keeps_backing:
  assumes i: "client_ok t r i l" and j: "client_ok t r j lj" and sv: "serve t l c r = (res, r')" and v: "value_ok i c"
    and same: "j = i \<Longrightarrow> lj = l" and rel: "\<And>w. c = Release w \<Longrightarrow> withdrawn t l" and u: "u \<in> claims_of lj"
  shows "backed t r' j u"
proof (cases "t < u")
  case True
  have b: "backed t r j u" "u \<le> t + server_ttl lj" using j u by (simp_all add: client_ok_def)
  obtain e where get: "redis_get t r = Some (j, e)" using live_claim_get [OF b(1) True] by blast
  have h: "holder_id l = i" using i by (simp add: client_ok_def)
  show ?thesis
  proof (cases "r' = r")
    case False
    with serve_cases [OF sv] v h get have ji: "j = i"
      and r': "lease_expires r' = t + server_ttl l \<and> (\<exists>e. lease_value r' = Some (i, e)) \<or> (\<exists>w. c = Release w)"
      by auto
    from r' show ?thesis
    proof
      assume "\<exists>w. c = Release w"
      then show ?thesis using rel withdrawn_claims [of t l u] u same [OF ji] True by auto
    qed (use b ji same in \<open>simp add: backed_def\<close>)
  qed (use b in simp)
qed (simp add: backed_def)

lemma lease_invD:
  assumes "lease_inv s"
  shows "client_ok (now s) (server s) i (lease_of s i)" "0 \<le> now s"
    and "(i, c) \<in> set (on_wire s) \<Longrightarrow> value_ok i c"
    and "call_phase (lease_of s i) = Sent t c \<Longrightarrow> (i, c) \<in> set (on_wire s)"
    and "gave_up s i \<Longrightarrow> withdrawn (now s) (lease_of s i)"
  using assms by (auto simp: lease_inv_def wire_ok_def)

lemma wire_ok_local:
  assumes "wire_ok s" and "\<And>t c. call_phase l \<noteq> Sent t c" and "gave_up s i \<Longrightarrow> withdrawn (now s) l"
  shows "wire_ok (with_lease i l s)"
  using assms by (auto simp: wire_ok_def with_lease_def gave_up_def)

lemma lease_inv_local:
  assumes "lease_inv s" and "client_ok (now s) (server s) i l"
    and "\<And>t c. call_phase l \<noteq> Sent t c" and "gave_up s i \<Longrightarrow> withdrawn (now s) l"
  shows "lease_inv (with_lease i l s)"
proof -
  have "wire_ok (with_lease i l s)" using assms(1) by (intro wire_ok_local assms(3,4)) (simp_all add: lease_inv_def)
  then show ?thesis using assms(1,2) by (simp add: lease_inv_def with_lease_def)
qed

lemma client_ok_send:
  assumes "client_ok t r i l" and "call_phase l = Quiet" and "0 \<le> t"
    and "l' = l\<lparr>call_phase := Sent t c\<rparr> \<or> l' = l\<lparr>valid_until := 0, call_phase := Sent t c\<rparr>"
  shows "client_ok t r i l'"
  using assms server_ttl_bounds [of l]
  by (auto simp: client_ok_def claims_of_def backed_past server_ttl_def ttl_ms_def)

lemma client_ok_reply:
  assumes "client_ok t r i l" and ph: "call_phase l = Done x c res" and "0 \<le> t"
  shows "client_ok t r i (reply x c res l)"
proof -
  let ?l = "reply x c res l"
  have "claims_of ?l \<subseteq> insert 0 (claims_of l)" and "call_phase ?l = Quiet" and "ttl_seconds ?l = ttl_seconds l"
    and "holder_id ?l = holder_id l"
    using ph by (cases c; cases res; simp add: claims_of_def claim_until_def)+
  with assms server_ttl_bounds(2) [of l] show ?thesis
    by (auto simp: client_ok_def backed_past server_ttl_def ttl_ms_def)
qed

lemma withdrawn_later: "withdrawn t l \<Longrightarrow> 0 \<le> d \<Longrightarrow> withdrawn (t + d) l"
  by (auto simp: withdrawn_def)

lemma lease_inv_tick:
  assumes "lease_inv s" and "0 \<le> d"
  shows "lease_inv (s\<lparr>now := now s + d\<rparr>)"
proof -
  have "client_ok (now s + d) (server s) i (lease_of s i)" for i
    using lease_invD(1) [OF assms(1), of i] assms(2) unfolding client_ok_def
    by (meson add_increasing2 add_mono backed_later order_refl order_trans)
  moreover have "wire_ok (s\<lparr>now := now s + d\<rparr>)"
    using assms withdrawn_later by (auto simp: lease_inv_def wire_ok_def gave_up_def)
  ultimately show ?thesis using lease_invD(2) [OF assms(1)] assms(2) by (simp add: lease_inv_def)
qed

lemma lease_inv_send:
  assumes inv: "lease_inv s" and q: "call_phase (lease_of s i) = Quiet" and v: "value_ok i c"
    and l: "l = (lease_of s i)\<lparr>call_phase := Sent (now s) c\<rparr> \<and> \<not> gave_up s i \<and> \<not> is_release c
      \<or> l = (lease_of s i)\<lparr>valid_until := 0, call_phase := Sent (now s) c\<rparr> \<and> is_release c"
  shows "lease_inv (send_call i l s)"
proof -
  have ok: "client_ok (now s) (server s) i l"
    using l by (intro client_ok_send [OF lease_invD(1) [OF inv] q lease_invD(2) [OF inv], of _ c]) auto
  have ph: "call_phase l = Sent (now s) c" using l by auto
  have w: "withdrawn (now s) l" if "gave_up (send_call i l s) i"
    using that l lease_invD(2) [OF inv] by (auto simp: send_call_def ph gave_up_def withdrawn_def with_lease_def)
  have o: "gave_up (send_call i l s) j \<Longrightarrow> j \<noteq> i \<Longrightarrow> gave_up s j" for j
    by (auto simp: send_call_def ph gave_up_def with_lease_def)
  have s': "now (send_call i l s) = now s" "server (send_call i l s) = server s"
    "lease_of (send_call i l s) = (lease_of s)(i := l)" "on_wire (send_call i l s) = (i, c) # on_wire s"
    by (simp_all add: send_call_def ph with_lease_def)
  have "wire_ok (send_call i l s)"
    unfolding wire_ok_def s' using w o lease_invD(3,4,5) [OF inv] v ph by auto
  then show ?thesis using lease_invD(1,2) [OF inv] ok by (simp add: lease_inv_def s')
qed

lemma lease_inv_release:
  assumes "lease_inv s" and "call_phase (lease_of s i) = Quiet"
  shows "lease_inv (send_call i (release_send (now s) (lease_of s i)) s)"
proof (cases "epoch_held (lease_of s i)")
  case None
  have "client_ok (now s) (server s) i ((lease_of s i)\<lparr>valid_until := 0\<rparr>)"
    using lease_invD(1) [OF assms(1), of i] assms(2) lease_invD(2) [OF assms(1)]
      server_ttl_bounds(2) [of "lease_of s i"]
    by (simp add: client_ok_def claims_of_def backed_past server_ttl_def ttl_ms_def)
  with None assms lease_invD(2) [OF assms(1)] show ?thesis
    by (simp add: release_send_def send_call_def lease_inv_local withdrawn_def)
next
  case (Some e)
  have "holder_id (lease_of s i) = i"
    using lease_invD(1) [OF assms(1), of i] by (simp add: client_ok_def)
  with Some assms show ?thesis
    by (intro lease_inv_send [where c = "Release (i, e)"]) (simp_all add: release_send_def)
qed

text \<open>The server executes a call that was sent, now or late.\<close>

lemma lease_inv_late:
  assumes inv: "lease_inv s" and c: "(i, c) \<in> set (on_wire s)"
    and sv: "serve (now s) (lease_of s i) c (server s) = (res, r)"
  shows "lease_inv (s\<lparr>server := r\<rparr>)"
proof -
  have rel: "withdrawn (now s) (lease_of s i)" if "c = Release w" for w
    using lease_invD(5) [OF inv, of i] c that unfolding gave_up_def by blast
  have "backed (now s) r j u" if "u \<in> claims_of (lease_of s j)" for j u
    using serve_keeps_backing [OF lease_invD(1) [OF inv] lease_invD(1) [OF inv] sv lease_invD(3) [OF inv c] _ rel that] by simp
  then have "client_ok (now s) r j (lease_of s j)" for j
    using lease_invD(1) [OF inv, of j] by (simp add: client_ok_def)
  then show ?thesis using inv by (simp add: lease_inv_def wire_ok_def gave_up_def)
qed

lemma lease_inv_execute:
  assumes inv: "lease_inv s" and ph: "call_phase (lease_of s i) = Sent t c"
    and sv: "serve (now s) (lease_of s i) c (server s) = (res, r)"
  shows "lease_inv (with_lease i ((lease_of s i)\<lparr>call_phase := Done t c res\<rparr>) (s\<lparr>server := r\<rparr>))"
proof -
  let ?l = "lease_of s i"
  have wire: "(i, c) \<in> set (on_wire s)" by (rule lease_invD(4) [OF inv ph])
  note inv' = lease_inv_late [OF inv wire sv]
  have ok: "client_ok (now s) r i ?l" using lease_invD(1) [OF inv', of i] by simp
  have i: "holder_id ?l = i" "value_ok (holder_id ?l) c" "t \<le> now s" "1 \<le> ttl_seconds ?l"
    using lease_invD(1) [OF inv, of i] lease_invD(3) [OF inv wire] ph by (simp_all add: client_ok_def)
  have new: "backed (now s) r i (claim_until t ?l)" if "grants c res"
    using serve_cases [OF sv i(2)] that claim_until_bound [OF i(4,3)] i(1)
    by (auto simp: backed_def)
  have cl: "claims_of (?l\<lparr>call_phase := Done t c res\<rparr>)
      = insert (valid_until ?l) (if grants c res then {claim_until t ?l} else {})"
    by (simp add: claims_of_def claim_until_def margin_seconds_def)
  have "valid_until ?l \<in> claims_of ?l" by (simp add: claims_of_def)
  with ok have "backed (now s) r i (valid_until ?l)" "valid_until ?l \<le> now s + server_ttl ?l"
    by (simp_all add: client_ok_def)
  with cl new claim_until_bound [OF i(4,3)] i
  have "client_ok (now s) r i (?l\<lparr>call_phase := Done t c res\<rparr>)"
    by (simp add: client_ok_def server_ttl_def ttl_ms_def)
  moreover have "withdrawn (now s) (?l\<lparr>call_phase := Done t c res\<rparr>)" if "gave_up s i"
    using lease_invD(5) [OF inv that] ph by (simp add: withdrawn_def)
  ultimately show ?thesis using lease_inv_local [OF inv', of i "?l\<lparr>call_phase := Done t c res\<rparr>"] by (simp add: gave_up_def)
qed

lemma lease_inv_reply:
  assumes inv: "lease_inv s" and ph: "call_phase (lease_of s i) = Done t c res"
  shows "lease_inv (with_lease i (reply t c res (lease_of s i)) s)"
proof (rule lease_inv_local [OF inv])
  show "client_ok (now s) (server s) i (reply t c res (lease_of s i))"
    by (rule client_ok_reply [OF lease_invD(1) [OF inv] ph lease_invD(2) [OF inv]])
  show "call_phase (reply t c res (lease_of s i)) \<noteq> Sent t' c'" for t' c'
    by (cases c; cases res) simp_all
  assume "gave_up s i"
  from lease_invD(5) [OF inv this] ph show "withdrawn (now s) (reply t c res (lease_of s i))"
    by (cases c; cases res) (simp_all add: withdrawn_def)
qed

lemma lease_inv_lost:
  assumes inv: "lease_inv s"
  shows "lease_inv (with_lease i ((lease_of s i)\<lparr>call_phase := Quiet\<rparr>) s)"
proof (rule lease_inv_local [OF inv])
  show "client_ok (now s) (server s) i ((lease_of s i)\<lparr>call_phase := Quiet\<rparr>)"
    using lease_invD(1) [OF inv, of i] by (simp add: client_ok_def claims_of_def server_ttl_def ttl_ms_def)
  show "gave_up s i \<Longrightarrow> withdrawn (now s) ((lease_of s i)\<lparr>call_phase := Quiet\<rparr>)"
    using lease_invD(5) [OF inv, of i] by (simp add: withdrawn_def)
qed simp

lemma lease_inv_step: "lease_step s s' \<Longrightarrow> lease_inv s \<Longrightarrow> lease_inv s'"
proof (induction rule: lease_step.induct)
  case (Send_Acquire s i f l)
  then have "l = (lease_of s i)\<lparr>call_phase := Sent (now s) (Acquire f)\<rparr>"
    by (simp add: acquire_send_def checked_floor_def split: if_splits)
  with Send_Acquire show ?case by (intro lease_inv_send [where c = "Acquire f"]) simp_all
next
  case (Send_Renew s i l)
  then obtain e where "l = (lease_of s i)\<lparr>call_phase := Sent (now s) (Renew (holder_id (lease_of s i), e))\<rparr>"
    by (auto simp: renew_send_def split: option.splits)
  with Send_Renew lease_invD(1) [of s i] show ?case
    by (intro lease_inv_send [where c = "Renew (i, e)"]) (simp_all add: client_ok_def)
next
  case (Send_Raise s i f l)
  then obtain e where "l = (lease_of s i)\<lparr>call_phase := Sent (now s) (Raise (holder_id (lease_of s i), e) f)\<rparr>"
    by (auto simp: raise_send_def checked_floor_def split: option.splits if_splits)
  with Send_Raise lease_invD(1) [of s i] show ?case
    by (intro lease_inv_send [where c = "Raise (i, e) f"]) (simp_all add: client_ok_def)
qed (simp_all add: lease_inv_tick lease_inv_release lease_inv_execute lease_inv_lost lease_inv_reply lease_inv_late)

inductive lease_reachable :: "(string \<Rightarrow> rat) \<Rightarrow> replicas \<Rightarrow> bool" for ttl where
  Start: "lease_reachable ttl (replicas_init ttl)"
| Step: "lease_reachable ttl s \<Longrightarrow> lease_step s s' \<Longrightarrow> lease_reachable ttl s'"

lemma lease_inv_init: "(\<And>i. 1 \<le> ttl i) \<Longrightarrow> lease_inv (replicas_init ttl)"
  by (auto simp: lease_inv_def replicas_init_def client_ok_def claims_of_def backed_past wire_ok_def gave_up_def
      intro: server_ttl_bounds(2))

lemma lease_inv_reachable: "lease_reachable ttl s \<Longrightarrow> (\<And>i. 1 \<le> ttl i) \<Longrightarrow> lease_inv s"
  by (induction rule: lease_reachable.induct) (auto intro: lease_inv_init lease_inv_step)

lemma lease_inv_holder:
  assumes "lease_inv s" and "lease_holds (now s) (lease_of s i)"
  shows "\<exists>e. redis_get (now s) (server s) = Some (i, e)"
proof -
  from assms(1) have "client_ok (now s) (server s) i (lease_of s i)" by (simp add: lease_inv_def)
  then have "backed (now s) (server s) i (valid_until (lease_of s i))"
    by (simp add: client_ok_def claims_of_def)
  with assms(2) show ?thesis by (simp add: live_claim_get lease_holds_def)
qed

text \<open>
  C7. Whenever two replicas, each configured with a TTL of at least one second, both believe
  they hold the writer lease, they are the same replica: in every state that any
  interleaving of calls, server executions, lost replies and passing time can reach, where the
  server may also execute any call again or long after its client gave up waiting. The clocks
  run at the same rate, and a replica that has sent a release, which the program does once
  when it stops, asks for the lease no more.
\<close>

theorem lease_exclusive:
  assumes "\<And>i. 1 \<le> ttl i" and "lease_reachable ttl s"
    and "lease_holds (now s) (lease_of s i)" and "lease_holds (now s) (lease_of s j)"
  shows "i = j"
  proof -
  have "lease_inv s" by (rule lease_inv_reachable [OF assms(2,1)])
  then obtain e e' where "redis_get (now s) (server s) = Some (i, e)" "redis_get (now s) (server s) = Some (j, e')"
    using lease_inv_holder assms(3,4) by blast
  then show ?thesis by simp
qed

text \<open>Replica \<open>a\<close> acquires the free lease at time 0.\<close>

definition lease_demo :: replicas where
  "lease_demo =
     \<lparr>server = \<lparr>lease_value = Some (''a'', 1), lease_expires = 5, epoch_counter = 1\<rparr>, now = 0,
      lease_of = (\<lambda>i. \<lparr>holder_id = i, ttl_seconds = 5, epoch_held = None, valid_until = 0, call_phase = Quiet\<rparr>)
        (''a'' := \<lparr>holder_id = ''a'', ttl_seconds = 5, epoch_held = Some 1, valid_until = 4, call_phase = Quiet\<rparr>),
      on_wire = [(''a'', Acquire 0)]\<rparr>"

lemma lease_demo_reachable: "lease_reachable (\<lambda>_. 5) lease_demo"
proof -
  let ?s0 = "replicas_init (\<lambda>_. 5)"
  define l1 where "l1 = (lease_of ?s0 ''a'')\<lparr>call_phase := Sent 0 (Acquire 0)\<rparr>"
  define s1 where "s1 = send_call ''a'' l1 ?s0"
  define l2 where "l2 = l1\<lparr>call_phase := Done 0 (Acquire 0) (Some 1)\<rparr>"
  define s2 where "s2 = with_lease ''a'' l2 (s1\<lparr>server := server lease_demo\<rparr>)"
  have "acquire_send (now ?s0) 0 (lease_of ?s0 ''a'') = Inr l1"
    by (simp add: acquire_send_def checked_floor_def MAX_EPOCH_def l1_def replicas_init_def)
  then have "lease_step ?s0 s1"
    unfolding s1_def by (rule Send_Acquire [rotated 2]) (simp_all add: replicas_init_def gave_up_def)
  moreover have "lease_of s1 ''a'' = l1" "call_phase l1 = Sent 0 (Acquire 0)"
    by (simp_all add: s1_def send_call_def with_lease_def l1_def)
  moreover have "serve (now s1) l1 (Acquire 0) (server s1) = (Some 1, server lease_demo)"
    by (simp add: s1_def l1_def lease_demo_def replicas_init_def send_call_def with_lease_def lua_acquire_def redis_get_def
        redis_empty_def draw_epoch_def server_ttl_def ttl_ms_def Let_def)
  ultimately have "lease_step s1 s2"
    using Execute [of s1 "''a''" 0 "Acquire 0" "Some 1" "server lease_demo"] by (simp add: s2_def l2_def)
  have "lease_of s2 ''a'' = l2" "call_phase l2 = Done 0 (Acquire 0) (Some 1)"
    by (simp_all add: s2_def with_lease_def l2_def)
  moreover have "with_lease ''a'' (reply 0 (Acquire 0) (Some 1) l2) s2 = lease_demo"
    by (simp add: s2_def s1_def l2_def l1_def lease_demo_def replicas_init_def send_call_def with_lease_def
        margin_seconds_def)
  ultimately have "lease_step s2 lease_demo"
    using Reply [of s2 "''a''" 0 "Acquire 0" "Some 1"] by simp
  with \<open>lease_step ?s0 s1\<close> \<open>lease_step s1 s2\<close> show ?thesis
    by (blast intro: lease_reachable.intros)
qed

theorem lease_exclusive_witness:
  "lease_holds (now lease_demo) (lease_of lease_demo ''a'') \<and> \<not> lease_holds (now lease_demo) (lease_of lease_demo ''b'')"
proof -
  have a: "lease_holds (now lease_demo) (lease_of lease_demo ''a'')"
    by (simp add: lease_demo_def lease_holds_def)
  have "''a'' = ''b''" if "lease_holds (now lease_demo) (lease_of lease_demo ''b'')"
    by (rule lease_exclusive [OF _ lease_demo_reachable a that]) simp
  with a show ?thesis by auto
qed

text \<open>
  Why a replica must not ask again after a release: acquiring again while the release is
  still under way returns the same epoch, so the release that arrives late matches the lease
  it was not meant for, and another replica acquires while the first counts on its TTL.
\<close>

lemma late_release_takes_lease:
  assumes "redis_get t r = Some (h, e)" and "lua_acquire t h ttl fl r = (ans, r1)" and "t \<le> t'" and "t' < t + ttl" and "h' \<noteq> h"
  shows "ans = Some e \<and> redis_get t' r1 = Some (h, e)
    \<and> (\<exists>e' r2. lua_acquire t' h' ttl' fl' (lua_release t' (h, e) r1) = (Some e', r2))"
proof -
  have "redis_get t' r1 = Some (h, e)" "ans = Some e"
    using assms(1-4) by (auto simp: lua_acquire_def redis_get_def split: if_splits)
  then show ?thesis by (simp add: lua_release_def) (simp add: lua_acquire_def redis_get_def Let_def)
qed

subsection \<open>Epochs order the holders\<close>

text \<open>The server never reuses an epoch: the counter bounds the stored one and never falls.\<close>

definition epochs_ok :: "redis \<Rightarrow> bool" where
  "epochs_ok r \<longleftrightarrow> (\<forall>h e. lease_value r = Some (h, e) \<longrightarrow> e \<le> epoch_counter r)"

lemma draw_epoch_above: "fl < draw_epoch fl r" "epoch_counter r < draw_epoch fl r"
  by (auto simp: draw_epoch_def Let_def)

lemma serve_epochs:
  assumes "serve t l c r = (res, r')" and "epochs_ok r"
  shows "epochs_ok r' \<and> epoch_counter r \<le> epoch_counter r'"
proof -
  have "r' = r \<or> lease_value r' = None \<and> epoch_counter r' = epoch_counter r
    \<or> lease_value r' = lease_value r \<and> epoch_counter r' = epoch_counter r
    \<or> (\<exists>h fl. lease_value r' = Some (h, draw_epoch fl r) \<and> epoch_counter r' = draw_epoch fl r)"
    using assms(1)
    by (cases c) (auto simp: lua_acquire_def lua_renew_def lua_raise_def lua_release_def Let_def
        split: option.splits if_splits)
  with assms(2) draw_epoch_above(2) [where r = r] show ?thesis
    by (metis epochs_ok_def less_imp_le option.distinct(1) option.inject order_refl prod.inject)
qed

lemma lease_step_epochs:
  "lease_step s s' \<Longrightarrow> epochs_ok (server s) \<Longrightarrow>
     epochs_ok (server s') \<and> epoch_counter (server s) \<le> epoch_counter (server s')"
  by (induction rule: lease_step.induct) (auto simp: with_lease_def send_call_def dest: serve_epochs split: phase.split)

lemma reachable_epochs: "lease_reachable ttl s \<Longrightarrow> epochs_ok (server s)"
  by (induction rule: lease_reachable.induct)
    (auto simp: epochs_ok_def replicas_init_def redis_empty_def dest!: lease_step_epochs)

text \<open>
  A change of holder draws an epoch above every earlier one: when an acquisition
  succeeds for a replica that the server does not have as the current holder, the epoch it
  returns exceeds the stored epoch, the counter and the floor the caller gave.
\<close>

theorem takeover_epoch_fresh:
  assumes "lease_reachable ttl s" and "lua_acquire (now s) h d fl (server s) = (Some e, r)"
    and "\<And>e'. redis_get (now s) (server s) \<noteq> Some (h, e')"
  shows "fl < e \<and> epoch_counter (server s) < e \<and> (\<forall>h' e'. lease_value (server s) = Some (h', e') \<longrightarrow> e' < e)
     \<and> lease_value r = Some (h, e) \<and> epoch_counter r = e"
proof -
  from assms(2,3) have e: "e = draw_epoch fl (server s)"
    and "lease_value r = Some (h, e) \<and> epoch_counter r = e"
    by (auto simp: lua_acquire_def Let_def split: option.splits if_splits)
  with reachable_epochs [OF assms(1)] draw_epoch_above [where fl = fl and r = "server s"] show ?thesis
    by (fastforce simp: epochs_ok_def)
qed

theorem takeover_epoch_fresh_witness:
  "fst (lua_acquire 0 ''b'' 5 7 redis_empty) = Some 8 \<and> (7::int) < 8"
  using takeover_epoch_fresh [OF Start [of "\<lambda>_. 5"], where h = "''b''" and d = 5 and fl = 7 and e = 8]
  by (simp add: replicas_init_def lua_acquire_def redis_get_def redis_empty_def draw_epoch_def Let_def)

end
