(* ===== verification/Ha_Sequencer.thy ===== *)
theory Ha_Sequencer
  imports Ha_Verify Ha_Lease
begin

section \<open>The sequencer and the controller\<close>

text \<open>
  \<open>GlobalSequencer\<close> and \<open>HAController\<close> of \<^verbatim>\<open>aegis/core/ha.py\<close>: a replica's durable commits
  arrive in any order, are put back into chain order by their predecessor hashes and handed
  to the store in batches; a replica admits requests only while its backlog is young. Of a
  node the sequencer reads its hash, the hash of its predecessor and its time. Messages are
  abbreviated; the store is an argument, with its laws in the locale \<open>sequence_store\<close>.
\<close>

record seq_node =
  sn_hash :: string
  sn_prev :: string
  sn_time :: rat

record sequencer =
  sq_chain_id :: string
  sq_max_lag :: rat
  sq_batch_size :: nat
  sq_pending :: "(string \<times> string \<times> rat) list"
  sq_next_prev :: string
  sq_next_local_seq :: int
  sq_backfilled :: bool
  sq_diverged :: string
  sq_last_error :: string
  sq_sequenced :: nat
  sq_stopped :: bool

definition sequencer_new :: "string \<Rightarrow> rat \<Rightarrow> nat \<Rightarrow> sequencer" where
  "sequencer_new c lag n =
     \<lparr>sq_chain_id = c, sq_max_lag = lag, sq_batch_size = n, sq_pending = [], sq_next_prev = GENESIS_HASH,
      sq_next_local_seq = 1, sq_backfilled = False, sq_diverged = [], sq_last_error = [], sq_sequenced = 0,
      sq_stopped = False\<rparr>"

text \<open>The dictionary of waiting nodes, by predecessor hash, in insertion order.\<close>

fun put :: "string \<Rightarrow> 'v \<Rightarrow> (string \<times> 'v) list \<Rightarrow> (string \<times> 'v) list" where
  "put k v [] = [(k, v)]"
| "put k v ((k', v') # d) = (if k = k' then (k, v) # d else (k', v') # put k v d)"

definition pop :: "string \<Rightarrow> (string \<times> 'v) list \<Rightarrow> (string \<times> 'v) list" where
  "pop k d = filter (\<lambda>e. fst e \<noteq> k) d"

definition notify :: "seq_node \<Rightarrow> sequencer \<Rightarrow> sequencer" where
  "notify n s =
     (if sq_stopped s then s
      else case map_of (sq_pending s) (sn_prev n) of
             Some (h, _) \<Rightarrow>
               if h \<noteq> sn_hash n then s\<lparr>sq_diverged := ''conflicting nodes share a predecessor''\<rparr>
               else s\<lparr>sq_pending := put (sn_prev n) (sn_hash n, sn_time n) (sq_pending s)\<rparr>
           | None \<Rightarrow> s\<lparr>sq_pending := put (sn_prev n) (sn_hash n, sn_time n) (sq_pending s)\<rparr>)"

definition sequencer_stop :: "sequencer \<Rightarrow> sequencer" where
  "sequencer_stop s = s\<lparr>sq_stopped := True, sq_pending := [], sq_backfilled := False\<rparr>"

subsection \<open>Sequencing\<close>

fun ready_loop :: "nat \<Rightarrow> string \<Rightarrow> int \<Rightarrow> (string \<times> string \<times> rat) list \<Rightarrow> pending_node list" where
  "ready_loop 0 prev position pending = []"
| "ready_loop (Suc n) prev position pending =
     (case map_of pending prev of
        None \<Rightarrow> []
      | Some (node_hash, _) \<Rightarrow>
          \<lparr>pn_local_seq = position, pn_node_hash = node_hash, pn_local_prev_hash = prev\<rparr>
          # ready_loop n node_hash (position + 1) pending)"

definition ready_batch :: "sequencer \<Rightarrow> pending_node list" where
  "ready_batch s = ready_loop (sq_batch_size s) (sq_next_prev s) (sq_next_local_seq s) (sq_pending s)"

type_synonym 't appender = "string \<Rightarrow> int \<Rightarrow> pending_node list \<Rightarrow> 't \<Rightarrow> unit res \<times> 't"

definition sequence_ready :: "'t appender \<Rightarrow> int option \<Rightarrow> sequencer \<Rightarrow> 't \<Rightarrow> bool \<times> sequencer \<times> 't" where
  "sequence_ready store epoch s t =
     (let batch = ready_batch s in
      if batch = [] \<or> sq_diverged s \<noteq> [] then (False, s, t)
      else case epoch of
             None \<Rightarrow> (False, s\<lparr>sq_last_error := ''no writer lease epoch''\<rparr>, t)
           | Some e \<Rightarrow>
               (case store (sq_chain_id s) e batch t of
                  (Inl x, t') \<Rightarrow>
                    if x = sequence_diverged then (False, s\<lparr>sq_diverged := ''SequenceDivergedError''\<rparr>, t')
                    else (False, s\<lparr>sq_last_error := ''append failed''\<rparr>, t')
                | (Inr _, t') \<Rightarrow>
                    (True, s\<lparr>sq_pending := fold (\<lambda>i d. pop (pn_local_prev_hash i) d) batch (sq_pending s),
                             sq_next_prev := pn_node_hash (last batch),
                             sq_next_local_seq := pn_local_seq (last batch) + 1,
                             sq_sequenced := sq_sequenced s + length batch, sq_last_error := []\<rparr>, t')))"

lemma pop_fold_le: "length (fold (\<lambda>i d. pop (f i) d) items d) \<le> length d"
proof (induction items arbitrary: d)
  case (Cons i items)
  show ?case using Cons.IH [of "pop (f i) d"] by (simp add: pop_def) (meson le_trans length_filter_le)
qed simp

lemma pop_shorter: "map_of d k \<noteq> None \<Longrightarrow> length (pop k d) < length d"
  unfolding pop_def by (rule length_filter_less [where x = "(k, the (map_of d k))"]) (auto dest: map_of_SomeD)

lemma ready_batch_hd:
  "ready_batch s = i # rest \<Longrightarrow> pn_local_prev_hash i = sq_next_prev s \<and> map_of (sq_pending s) (sq_next_prev s) \<noteq> None"
  by (cases "sq_batch_size s") (auto simp: ready_batch_def split: option.splits)

lemma sequence_ready_shrinks:
  assumes "sequence_ready store epoch s t = (True, s', t')"
  shows "length (sq_pending s') < length (sq_pending s)"
proof -
  from assms obtain i rest where b: "ready_batch s = i # rest"
    and p: "sq_pending s' = fold (\<lambda>i d. pop (pn_local_prev_hash i) d) (ready_batch s) (sq_pending s)"
    by (cases "ready_batch s") (auto simp: sequence_ready_def Let_def split: if_splits option.splits prod.splits sum.splits)
  have "length (sq_pending s') \<le> length (pop (pn_local_prev_hash i) (sq_pending s))"
    using pop_fold_le [of pn_local_prev_hash rest] p b by simp
  also have "\<dots> < length (sq_pending s)" using ready_batch_hd [OF b] pop_shorter by force
  finally show ?thesis .
qed

text \<open>\<open>while await self._sequence_ready(): pass\<close>, under one epoch and one behaviour of the store.\<close>

function drain :: "'t appender \<Rightarrow> int option \<Rightarrow> sequencer \<Rightarrow> 't \<Rightarrow> sequencer \<times> 't" where
  "drain store epoch s t =
     (case sequence_ready store epoch s t of (again, s', t') \<Rightarrow> if again then drain store epoch s' t' else (s', t'))"
  by pat_completeness auto
termination
  by (relation "measure (\<lambda>(_, _, s, _). length (sq_pending s))") (auto dest: sequence_ready_shrinks [OF sym])

declare drain.simps [simp del]

subsection \<open>Backfill\<close>

text \<open>
  The scan of the log: the position, the predecessor of the first node, whether the last
  sequenced node has been met, and the nodes after it; \<open>None\<close> when it stands elsewhere.
\<close>

record scan =
  sc_position :: int
  sc_first_prev :: "string option"
  sc_found :: bool
  sc_unsequenced :: "(string \<times> string \<times> rat) list"

fun scan_nodes :: "seq_entry option \<Rightarrow> seq_node list \<Rightarrow> scan \<Rightarrow> scan option" where
  "scan_nodes lst [] c = Some c"
| "scan_nodes lst (n # ns) c =
     (let c1 = c\<lparr>sc_position := sc_position c + 1,
                 sc_first_prev := (case sc_first_prev c of None \<Rightarrow> Some (sn_prev n) | Some p \<Rightarrow> Some p)\<rparr> in
      if \<not> sc_found c1 then
        (case lst of
           None \<Rightarrow> scan_nodes lst ns c1
         | Some l \<Rightarrow>
             if sn_hash n = se_node_hash l then
               if sc_position c1 \<noteq> se_local_seq l then None else scan_nodes lst ns (c1\<lparr>sc_found := True\<rparr>)
             else scan_nodes lst ns c1)
      else scan_nodes lst ns (c1\<lparr>sc_unsequenced := put (sn_prev n) (sn_hash n, sn_time n) (sc_unsequenced c1)\<rparr>))"

definition backfill_scan :: "seq_entry option \<Rightarrow> seq_node list \<Rightarrow> sequencer \<Rightarrow> sequencer" where
  "backfill_scan lst wal s =
     (case scan_nodes lst wal \<lparr>sc_position = 0, sc_first_prev = None, sc_found = (lst = None), sc_unsequenced = []\<rparr> of
        None \<Rightarrow> s\<lparr>sq_diverged := ''a node is sequenced at another position''\<rparr>
      | Some c \<Rightarrow>
          let s1 = s\<lparr>sq_pending := fold (\<lambda>(k, v). put k v) (sc_unsequenced c) (sq_pending s)\<rparr> in
          if \<not> sc_found c then s1\<lparr>sq_diverged := ''the last sequenced node is not in this WAL''\<rparr>
          else
            (case lst of
               Some l \<Rightarrow> s1\<lparr>sq_next_prev := se_node_hash l, sq_next_local_seq := se_local_seq l + 1\<rparr>
             | None \<Rightarrow>
                 (case sc_first_prev c of
                    Some p \<Rightarrow> s1\<lparr>sq_next_prev := p, sq_next_local_seq := 1\<rparr>
                  | None \<Rightarrow> s1))\<lparr>sq_backfilled := True\<rparr>)"

definition backfill :: "'t appender \<Rightarrow> int option \<Rightarrow> seq_entry option \<Rightarrow> seq_node list \<Rightarrow> sequencer \<Rightarrow> 't \<Rightarrow> sequencer \<times> 't" where
  "backfill store epoch lst wal s t =
     (let s1 = backfill_scan lst wal s in if sq_backfilled s1 then drain store epoch s1 t else (s1, t))"

definition sequencer_start :: "'t appender \<Rightarrow> int option \<Rightarrow> seq_entry option \<Rightarrow> seq_node list \<Rightarrow> sequencer \<Rightarrow> 't \<Rightarrow> sequencer \<times> 't" where
  "sequencer_start store epoch lst wal s t =
     backfill store epoch lst wal (s\<lparr>sq_stopped := False, sq_backfilled := False\<rparr>) t"

subsection \<open>Admission\<close>

definition lag_seconds :: "rat \<Rightarrow> sequencer \<Rightarrow> rat" where
  "lag_seconds wall s =
     (if sq_pending s = [] then 0 else max 0 (wall - Min (set (map (\<lambda>(_, _, ts). ts) (sq_pending s)))))"

definition sequencer_admission_error :: "rat \<Rightarrow> sequencer \<Rightarrow> string option" where
  "sequencer_admission_error wall s =
     (if sq_stopped s then Some ''global sequencer is stopped''
      else if sq_diverged s \<noteq> [] then Some ''global sequence diverged''
      else if \<not> sq_backfilled s then Some ''global sequence backfill has not completed''
      else if lag_seconds wall s > sq_max_lag s then Some ''global sequencing lag exceeds the bound''
      else None)"

record ha_controller =
  hc_lease :: "chain_lease option"
  hc_sequencer :: "sequencer option"
  hc_lost :: string

definition admission_error :: "rat \<Rightarrow> rat \<Rightarrow> ha_controller \<Rightarrow> string option" where
  "admission_error clock wall h =
     (if hc_lost h \<noteq> [] then Some ''chain writer lease lost''
      else if (case hc_lease h of None \<Rightarrow> False | Some l \<Rightarrow> \<not> lease_holds clock l) then Some ''chain writer lease is not held''
      else case hc_sequencer h of None \<Rightarrow> None | Some s \<Rightarrow> sequencer_admission_error wall s)"

end
