(* ===== verification/Ha_Order.thy ===== *)
theory Ha_Order
  imports Ha_Sequencer
begin

section \<open>The sequence follows the chain\<close>

text \<open>
  Notifications come in any order and appends may fail; the rows of a replica's chain in the
  global sequence are nevertheless always the first nodes of its chain, in chain order, and a
  drain that meets no failure leaves nothing waiting. The store is used through the locale
  \<open>sequence_store\<close>, interpreted on the SQLite store.
\<close>

subsection \<open>The store's contract\<close>

type_synonym row = "int \<times> string \<times> string"

definition item_row :: "pending_node \<Rightarrow> row" where
  "item_row i = (pn_local_seq i, pn_node_hash i, pn_local_prev_hash i)"

text \<open>What a batch still adds to the rows of the chain: the items above the last position.\<close>

definition unsequenced :: "row list \<Rightarrow> pending_node list \<Rightarrow> pending_node list" where
  "unsequenced rs items = filter (\<lambda>i. rs \<noteq> [] \<longrightarrow> fst (last rs) < pn_local_seq i) items"

definition starts_at_one :: "row list \<Rightarrow> pending_node list \<Rightarrow> bool" where
  "starts_at_one rs items \<longleftrightarrow> (rs = [] \<longrightarrow> items = [] \<or> pn_local_seq (hd items) = 1)"

locale sequence_store =
  fixes valid :: "'t \<Rightarrow> bool"
    and store :: "'t appender"
    and rows :: "string \<Rightarrow> 't \<Rightarrow> row list"
  assumes accepted: "valid t \<Longrightarrow> starts_at_one (rows c t) items \<Longrightarrow> store c e items t = (Inr (), t') \<Longrightarrow>
      valid t' \<and> rows c t' = rows c t @ map item_row (unsequenced (rows c t) items)"
    and failed: "valid t \<Longrightarrow> starts_at_one (rows c t) items \<Longrightarrow> store c e items t = (Inl x, t') \<Longrightarrow>
      t' = t \<or> valid t' \<and> rows c t' = rows c t @ map item_row (unsequenced (rows c t) items)"

text \<open>
  The SQLite store. What happens to an append the table would accept: it is committed and
  acknowledged; or an error or a cancellation meets it before it is committed, and it is
  rolled back; or the commit is done and its acknowledgement does not arrive.
\<close>

datatype append_outcome = Acknowledged | Rolled_Back | Commit_Unknown

definition store_failed :: exn where
  "store_failed = RuntimeError ''OperationalError''"

definition sqlite_store :: "append_outcome \<Rightarrow> string \<Rightarrow> seq_entry list appender" where
  "sqlite_store outcome stamp c e items tbl =
     (case sqlite_append c e stamp items tbl of
        Inl x \<Rightarrow> (Inl x, tbl)
      | Inr (_, tbl') \<Rightarrow>
          (case outcome of
             Acknowledged \<Rightarrow> (Inr (), tbl')
           | Rolled_Back \<Rightarrow> (Inl store_failed, tbl)
           | Commit_Unknown \<Rightarrow> (Inl store_failed, tbl')))"

definition entry_row :: "seq_entry \<Rightarrow> row" where
  "entry_row e = (se_local_seq e, se_node_hash e, se_local_prev_hash e)"

definition table_rows :: "string \<Rightarrow> seq_entry list \<Rightarrow> row list" where
  "table_rows c tbl = map entry_row (chain_rows c tbl)"

lemma build_loop_rows: "chain_rows c (build_loop n p c e stamp items) = build_loop n p c e stamp items
   \<and> map entry_row (build_loop n p c e stamp items) = map item_row items"
  by (induction items arbitrary: n p) (simp_all add: chain_rows_def Let_def entry_row_def item_row_def)

lemma plan_append_todo:
  assumes "plan_append l e items = Inr todo"
  shows "todo = (case l of None \<Rightarrow> items | Some p \<Rightarrow> filter (\<lambda>i. se_local_seq p < pn_local_seq i) items)"
  using assms by (auto simp: plan_append_def Let_def split: option.splits if_splits)

lemma sqlite_appends:
  assumes t: "seq_table t" and start: "starts_at_one (table_rows c t) items" and s: "sqlite_append c e stamp items t = Inr (new, t')"
  shows "seq_table t' \<and> table_rows c t' = table_rows c t @ map item_row (unsequenced (table_rows c t) items)"
proof -
  have v: "valid_seq t" using t by (simp add: seq_table_def)
  from s have a: "append_attempt (take (length t) t) (take (length t) t) c e stamp items t = Inr (new, t')"
    by (simp add: sqlite_append_def)
  have last: "last_for_chain c t = (if table_rows c t = [] then None else Some (last (chain_rows c t)))"
    by (simp add: last_for_chain_valid [OF v] chain_last_def table_rows_def)
  from append_attempt_planned [OF a] obtain todo where plan: "plan_append (last_for_chain c t) e items = Inr todo"
    and new: "new = build_entries (tip_of t) c e stamp todo" by auto
  have "todo = unsequenced (table_rows c t) items"
    using plan_append_todo [OF plan] by (auto simp: last unsequenced_def table_rows_def last_map entry_row_def)
  then have "table_rows c new = map item_row (unsequenced (table_rows c t) items)"
    using build_loop_rows new by (simp add: table_rows_def build_entries_valid [OF v])
  moreover have "starts_chain (take (length t) t) c items" using start by (simp add: starts_chain_def starts_at_one_def last)
  from append_valid [OF t this a] have "seq_table t'" "t' = t @ new" by blast+
  ultimately show ?thesis by (simp add: table_rows_def chain_rows_def)
qed

interpretation sqlite: sequence_store seq_table "sqlite_store outcome stamp" table_rows for outcome stamp
proof
  fix t c e items t'
  assume "seq_table t" "starts_at_one (table_rows c t) items" "sqlite_store outcome stamp c e items t = (Inr (), t')"
  then show "seq_table t' \<and> table_rows c t' = table_rows c t @ map item_row (unsequenced (table_rows c t) items)"
    by (auto simp: sqlite_store_def dest: sqlite_appends split: sum.splits prod.splits append_outcome.splits)
next
  fix t c e items x t'
  assume "seq_table t" "starts_at_one (table_rows c t) items" "sqlite_store outcome stamp c e items t = (Inl x, t')"
  then show "t' = t \<or> seq_table t' \<and> table_rows c t' = table_rows c t @ map item_row (unsequenced (table_rows c t) items)"
    by (auto simp: sqlite_store_def dest: sqlite_appends split: sum.splits prod.splits append_outcome.splits)
qed

subsection \<open>The chain of a replica\<close>

definition key_at :: "seq_node list \<Rightarrow> nat \<Rightarrow> string" where
  "key_at ns k = (if k < length ns then sn_prev (ns ! k) else if ns = [] then GENESIS_HASH else sn_hash (last ns))"

text \<open>Linked from the genesis hash, and no hash repeats.\<close>

definition chain_ok :: "seq_node list \<Rightarrow> bool" where
  "chain_ok ns \<longleftrightarrow>
     key_at ns 0 = GENESIS_HASH \<and> (\<forall>k < length ns. sn_hash (ns ! k) = key_at ns (Suc k))
     \<and> distinct (map (key_at ns) [0..<Suc (length ns)])"

lemma key_at_inj: "chain_ok ns \<Longrightarrow> i \<le> length ns \<Longrightarrow> j \<le> length ns \<Longrightarrow> key_at ns i = key_at ns j \<longleftrightarrow> i = j"
  unfolding chain_ok_def distinct_map by (auto simp: inj_on_def simp del: upt_Suc)

lemma chain_hash: "chain_ok ns \<Longrightarrow> k < length ns \<Longrightarrow> sn_hash (ns ! k) = key_at ns (Suc k)"
  by (simp add: chain_ok_def)

definition item_at :: "seq_node list \<Rightarrow> nat \<Rightarrow> pending_node" where
  "item_at ns k = \<lparr>pn_local_seq = int k + 1, pn_node_hash = sn_hash (ns ! k), pn_local_prev_hash = key_at ns k\<rparr>"

definition chain_prefix :: "seq_node list \<Rightarrow> nat \<Rightarrow> row list" where
  "chain_prefix ns k = map (\<lambda>i. item_row (item_at ns i)) [0..<k]"

text \<open>The waiting entries are nodes of the chain.\<close>

definition waiting_ok :: "seq_node list \<Rightarrow> (string \<times> string \<times> rat) list \<Rightarrow> bool" where
  "waiting_ok ns d \<longleftrightarrow> distinct (map fst d) \<and> (\<forall>(k, h, ts) \<in> set d. \<exists>i < length ns. k = key_at ns i \<and> h = sn_hash (ns ! i))"

lemma set_put: "set (put k v d) \<subseteq> insert (k, v) (set d)"
  by (induction k v d rule: put.induct) auto

lemma keys_put: "fst ` set (put k v d) = insert k (fst ` set d)"
  by (induction k v d rule: put.induct) (simp_all add: insert_commute)

lemma distinct_put: "distinct (map fst d) \<Longrightarrow> distinct (map fst (put k v d))"
  by (induction k v d rule: put.induct) (simp_all add: keys_put)

lemma waiting_put: "waiting_ok ns d \<Longrightarrow> i < length ns \<Longrightarrow> waiting_ok ns (put (key_at ns i) (sn_hash (ns ! i), ts) d)"
  using set_put [of "key_at ns i" "(sn_hash (ns ! i), ts)" d] by (auto simp: waiting_ok_def distinct_put)

lemma waiting_pop: "waiting_ok ns d \<Longrightarrow> waiting_ok ns (pop k d)"
  by (auto simp: waiting_ok_def pop_def distinct_map_filter)

lemma waiting_pops: "waiting_ok ns d \<Longrightarrow> waiting_ok ns (fold (\<lambda>i d. pop (f i) d) items d)"
  by (induction items arbitrary: d) (simp_all add: waiting_pop)

lemma waiting_at:
  assumes "chain_ok ns" and "waiting_ok ns d" and "k \<le> length ns" and "map_of d (key_at ns k) = Some (h, ts)"
  shows "k < length ns \<and> h = sn_hash (ns ! k)"
proof -
  from map_of_SomeD [OF assms(4)] assms(2) obtain i where "i < length ns" "key_at ns k = key_at ns i" "h = sn_hash (ns ! i)"
    unfolding waiting_ok_def by blast
  with key_at_inj [OF assms(1,3), of i] show ?thesis by simp
qed

text \<open>A batch is a segment of the chain, starting where the sequencer stands.\<close>

lemma ready_loop_segment:
  assumes "chain_ok ns" and "waiting_ok ns d"
  shows "k \<le> length ns \<Longrightarrow> \<exists>m. k + m \<le> length ns \<and> ready_loop n (key_at ns k) (int k + 1) d = map (item_at ns) [k..<k + m]
     \<and> (\<forall>i \<in> {k..<k + m}. map_of d (key_at ns i) \<noteq> None) \<and> (m < n \<longrightarrow> map_of d (key_at ns (k + m)) = None)"
proof (induction n arbitrary: k)
  case 0
  then show ?case by (intro exI [of _ 0]) simp
next
  case (Suc n)
  show ?case
  proof (cases "map_of d (key_at ns k)")
    case None
    then show ?thesis using Suc.prems by (intro exI [of _ 0]) simp
  next
    case (Some v)
    obtain h ts where v: "v = (h, ts)" by force
    with waiting_at [OF assms Suc.prems] Some have h: "k < length ns" "h = sn_hash (ns ! k)" by simp_all
    with chain_hash [OF assms(1)] have hk: "h = key_at ns (Suc k)" by simp
    from Suc.IH [of "Suc k"] h(1) obtain m where m: "Suc k + m \<le> length ns"
      "ready_loop n (key_at ns (Suc k)) (int (Suc k) + 1) d = map (item_at ns) [Suc k..<Suc k + m]"
      "\<forall>i \<in> {Suc k..<Suc k + m}. map_of d (key_at ns i) \<noteq> None" "m < n \<longrightarrow> map_of d (key_at ns (Suc k + m)) = None" by auto
    have "ready_loop (Suc n) (key_at ns k) (int k + 1) d = map (item_at ns) [k..<k + Suc m]"
      using m(2) Some v h hk by (simp add: item_at_def upt_conv_Cons algebra_simps del: upt_Suc)
    moreover have "map_of d (key_at ns i) \<noteq> None" if "i \<in> {k..<k + Suc m}" for i
      using that m(3) Some by (cases "i = k") auto
    ultimately show ?thesis using m(1,4) by (intro exI [of _ "Suc m"]) simp
  qed
qed

subsection \<open>Runs\<close>

text \<open>Where the sequencer stands: the first \<open>k\<close> nodes of its chain are in the store.\<close>

definition stands_at :: "seq_node list \<Rightarrow> nat \<Rightarrow> sequencer \<Rightarrow> bool" where
  "stands_at ns k s \<longleftrightarrow>
     k \<le> length ns \<and> sq_next_prev s = key_at ns k \<and> sq_next_local_seq s = int k + 1 \<and> waiting_ok ns (sq_pending s)"

lemma map_of_put: "map_of (put k v d) x = (if x = k then Some v else map_of d x)"
  by (induction k v d rule: put.induct) auto

lemma notify_stands: "stands_at ns k s \<Longrightarrow> i < length ns \<Longrightarrow> stands_at ns k (notify (ns ! i) s) \<and> sq_chain_id (notify (ns ! i) s) = sq_chain_id s"
  using waiting_put [of ns "sq_pending s" i] key_at_def [of ns i]
  by (auto simp: notify_def stands_at_def split: option.split)

lemma ready_batch_segment:
  assumes "chain_ok ns" and "stands_at ns k s"
  shows "\<exists>m. k + m \<le> length ns \<and> ready_batch s = map (item_at ns) [k..<k + m]
     \<and> (m < sq_batch_size s \<longrightarrow> map_of (sq_pending s) (key_at ns (k + m)) = None)"
  using ready_loop_segment [OF assms(1), of "sq_pending s" k "sq_batch_size s"] assms(2)
  by (auto simp: stands_at_def ready_batch_def)

lemma sequence_ready_cases:
  assumes "sequence_ready store epoch s t = (b, s', t')"
  obtains (idle) "\<not> b" "t' = t" "sq_pending s' = sq_pending s" "sq_next_prev s' = sq_next_prev s"
      "sq_next_local_seq s' = sq_next_local_seq s" "sq_chain_id s' = sq_chain_id s"
      "ready_batch s = [] \<or> sq_diverged s' \<noteq> [] \<or> sq_last_error s' \<noteq> []"
    | (failed) e x where "\<not> b" "store (sq_chain_id s) e (ready_batch s) t = (Inl x, t')" "sq_pending s' = sq_pending s"
      "sq_next_prev s' = sq_next_prev s" "sq_next_local_seq s' = sq_next_local_seq s" "sq_chain_id s' = sq_chain_id s"
      "sq_diverged s' \<noteq> [] \<or> sq_last_error s' \<noteq> []"
    | (stored) e where "b" "epoch = Some e" "ready_batch s \<noteq> []" "store (sq_chain_id s) e (ready_batch s) t = (Inr (), t')"
      "sq_pending s' = fold (\<lambda>i d. pop (pn_local_prev_hash i) d) (ready_batch s) (sq_pending s)"
      "sq_next_prev s' = pn_node_hash (last (ready_batch s))"
      "sq_next_local_seq s' = pn_local_seq (last (ready_batch s)) + 1" "sq_chain_id s' = sq_chain_id s"
      "sq_batch_size s' = sq_batch_size s" "sq_diverged s' = sq_diverged s"
proof (cases "ready_batch s = [] \<or> sq_diverged s \<noteq> [] \<or> epoch = None")
  case True
  with assms have "\<not> b \<and> t' = t \<and> (s' = s \<and> (ready_batch s = [] \<or> sq_diverged s \<noteq> []) \<or> s' = s\<lparr>sq_last_error := ''no writer lease epoch''\<rparr>)"
    by (auto simp: sequence_ready_def Let_def split: if_splits)
  then show ?thesis by (intro idle) auto
next
  case False
  then obtain e where e: "ready_batch s \<noteq> []" "sq_diverged s = []" "epoch = Some e" by auto
  obtain r t1 where r: "store (sq_chain_id s) e (ready_batch s) t = (r, t1)" by force
  show ?thesis
  proof (cases r)
    case (Inl x)
    with assms e r have "\<not> b \<and> t' = t1 \<and> (s' = s\<lparr>sq_diverged := ''SequenceDivergedError''\<rparr> \<or> s' = s\<lparr>sq_last_error := ''append failed''\<rparr>)"
      by (auto simp: sequence_ready_def Let_def split: if_splits)
    with r Inl show ?thesis by (intro failed [of e x]) auto
  next
    case (Inr u)
    with assms e r show ?thesis by (intro stored [of e]) (auto simp: sequence_ready_def Let_def)
  qed
qed

text \<open>
  The nodes between where the sequencer stands and the end of its chain in the store were
  committed by appends whose acknowledgement was lost: they are still waiting.
\<close>

definition all_kept :: "seq_node list \<Rightarrow> nat \<Rightarrow> nat \<Rightarrow> sequencer \<Rightarrow> bool" where
  "all_kept ns k k' s \<longleftrightarrow> (\<forall>i. k \<le> i \<longrightarrow> i < k' \<longrightarrow> map_of (sq_pending s) (key_at ns i) \<noteq> None)"

lemma map_of_pops:
  "k \<notin> f ` set items \<Longrightarrow> map_of (fold (\<lambda>i d. pop (f i) d) items d) k = map_of d k"
proof (induction items arbitrary: d)
  case (Cons i items)
  have "map_of (pop (f i) d) k = map_of d k" using Cons.prems by (auto simp: pop_def map_of_filter_in) (induction d, auto)
  with Cons show ?case by simp
qed simp

lemma segment_pops:
  assumes "chain_ok ns" and "k + m \<le> length ns" and "k + m \<le> i" and "i < length ns"
  shows "map_of (fold (\<lambda>i d. pop (pn_local_prev_hash i) d) (map (item_at ns) [k..<k + m]) d) (key_at ns i) = map_of d (key_at ns i)"
  using assms key_at_inj [OF assms(1)] by (intro map_of_pops) (auto simp: item_at_def)

lemma kept_after:
  assumes "chain_ok ns" and "k + m \<le> length ns" and "n \<le> length ns" and "all_kept ns k n s"
    and "sq_pending s' = fold (\<lambda>i d. pop (pn_local_prev_hash i) d) (map (item_at ns) [k..<k + m]) (sq_pending s)"
  shows "all_kept ns (k + m) n s'"
  unfolding all_kept_def
proof (intro allI impI)
  fix i assume i: "k + m \<le> i" "i < n"
  then have "map_of (sq_pending s') (key_at ns i) = map_of (sq_pending s) (key_at ns i)"
    using segment_pops [OF assms(1,2) i(1)] assms(3) by (simp add: assms(5))
  then show "map_of (sq_pending s') (key_at ns i) \<noteq> None" using assms(4) i by (simp add: all_kept_def)
qed

lemma prefix_segment:
  assumes "k \<le> k'"
  shows "unsequenced (chain_prefix ns k') (map (item_at ns) [k..<k + m]) = map (item_at ns) [k'..<k + m]"
    and "chain_prefix ns k' @ map item_row (map (item_at ns) [k'..<k + m]) = chain_prefix ns (max k' (k + m))"
proof -
  have ne: "chain_prefix ns k' \<noteq> [] \<longleftrightarrow> 0 < k'" by (simp add: chain_prefix_def)
  have l: "fst (last (chain_prefix ns k')) = int k'" if "0 < k'"
    using that by (simp add: chain_prefix_def last_map item_row_def item_at_def of_nat_diff Suc_le_eq)
  have f: "filter (\<lambda>x. k' \<le> x) [k..<n] = [k'..<n]" for n
    by (induction n) (use assms in auto)
  have p: "(\<lambda>i. chain_prefix ns k' \<noteq> [] \<longrightarrow> fst (last (chain_prefix ns k')) < pn_local_seq i) \<circ> item_at ns = (\<lambda>x. k' \<le> x)"
    using l by (auto simp: fun_eq_iff ne item_at_def)
  show "unsequenced (chain_prefix ns k') (map (item_at ns) [k..<k + m]) = map (item_at ns) [k'..<k + m]"
    unfolding unsequenced_def filter_map p f ..
  show "chain_prefix ns k' @ map item_row (map (item_at ns) [k'..<k + m]) = chain_prefix ns (max k' (k + m))"
  proof (cases "k' \<le> k + m")
    case True
    then have "[0..<k'] @ [k'..<k + m] = [0..<k + m]" by (metis le_add_diff_inverse le0 upt_add_eq_append)
    then show ?thesis using True unfolding chain_prefix_def map_map comp_def map_append [symmetric] by (simp add: max_def)
  qed (simp add: max_def)
qed

context sequence_store
begin

text \<open>One attempt moves the sequencer and the store along the chain.\<close>

lemma ready_moves:
  assumes ok: "chain_ok ns" and st: "stands_at ns k s" and v: "valid t" and r: "rows (sq_chain_id s) t = chain_prefix ns k'"
    and k': "k \<le> k'" "k' \<le> length ns" and kept: "all_kept ns k k' s"
    and sr: "sequence_ready store epoch s t = (b, s', t')"
  shows "\<exists>m m'. stands_at ns (k + m) s' \<and> valid t' \<and> rows (sq_chain_id s) t' = chain_prefix ns m' \<and> k + m \<le> m' \<and> k' \<le> m'
    \<and> m' \<le> length ns \<and> all_kept ns (k + m) m' s' \<and> sq_chain_id s' = sq_chain_id s
    \<and> (b \<longrightarrow> ready_batch s = map (item_at ns) [k..<k + m])"
proof -
  from ready_loop_segment [OF ok, of "sq_pending s" k "sq_batch_size s"] st obtain m where
    m: "k + m \<le> length ns" "ready_batch s = map (item_at ns) [k..<k + m]"
    and wait: "\<forall>i \<in> {k..<k + m}. map_of (sq_pending s) (key_at ns i) \<noteq> None"
    by (auto simp: stands_at_def ready_batch_def)
  have one: "starts_at_one (rows (sq_chain_id s) t) (ready_batch s)"
    using k'(1) by (cases m) (auto simp: starts_at_one_def r m(2) chain_prefix_def upt_conv_Cons item_at_def simp del: upt_Suc)
  have added: "rows (sq_chain_id s) t @ map item_row (unsequenced (rows (sq_chain_id s) t) (ready_batch s))
      = chain_prefix ns (max k' (k + m))"
    using prefix_segment [OF k'(1)] by (simp add: r m(2))
  from sr show ?thesis
  proof (cases rule: sequence_ready_cases)
    case idle
    with st v r k' kept show ?thesis by (intro exI [of _ 0] exI [of _ k']) (auto simp: stands_at_def all_kept_def)
  next
    case (failed e x)
    from failed(1,3-6) st have s': "stands_at ns k s'" "\<not> b" "sq_pending s' = sq_pending s" "sq_chain_id s' = sq_chain_id s"
      by (simp_all add: stands_at_def)
    from sequence_store.failed [OF sequence_store_axioms v one failed(2)] show ?thesis
    proof
      assume "t' = t"
      with s' v r k' kept show ?thesis by (intro exI [of _ 0] exI [of _ k']) (auto simp: all_kept_def)
    next
      assume new: "valid t' \<and> rows (sq_chain_id s) t' = rows (sq_chain_id s) t @ map item_row (unsequenced (rows (sq_chain_id s) t) (ready_batch s))"
      have "all_kept ns k (max k' (k + m)) s'"
        using kept wait unfolding all_kept_def s'(3) by (auto simp: max_def split: if_splits)
      with s' new added k' m(1) show ?thesis by (intro exI [of _ 0] exI [of _ "max k' (k + m)"]) auto
    qed
  next
    case (stored e)
    with m have pos: "0 < m" by (cases m) simp_all
    then have last: "last (ready_batch s) = item_at ns (k + m - 1)" using m(2) by (simp add: last_map)
    from accepted [OF v one stored(4)] have "valid t'" "rows (sq_chain_id s) t' = chain_prefix ns (max k' (k + m))"
      using added by simp_all
    moreover have "stands_at ns (k + m) s'"
      using stored m(1) pos st last chain_hash [OF ok, of "k + m - 1"]
      by (auto simp: stands_at_def item_at_def waiting_pops of_nat_diff)
    moreover have "all_kept ns (k + m) (max k' (k + m)) s'"
      using kept_after [OF ok m(1) k'(2) kept stored(5) [unfolded m(2)]] by (auto simp: all_kept_def max_def)
    ultimately show ?thesis using stored(8) m k' by (intro exI [of _ m] exI [of _ "max k' (k + m)"]) auto
  qed
qed

end

subsection \<open>Starting over a log\<close>

lemma scan_ok:
  assumes ok: "chain_ok ns" and w: "w \<le> length ns"
    and last: "\<And>l. lst = Some l \<Longrightarrow> 0 < j \<and> j \<le> w \<and> se_node_hash l = key_at ns j \<and> se_local_seq l = int j"
  shows "i \<le> w \<Longrightarrow> sc_position c = int i \<Longrightarrow> sc_found c = (lst = None \<or> j \<le> i) \<Longrightarrow> waiting_ok ns (sc_unsequenced c) \<Longrightarrow>
    \<exists>c'. scan_nodes lst (drop i (take w ns)) c = Some c' \<and> sc_found c' \<and> waiting_ok ns (sc_unsequenced c')
      \<and> sc_first_prev c' = (if sc_first_prev c = None \<and> i < w then Some (key_at ns i) else sc_first_prev c)"
proof (induction "w - i" arbitrary: i c)
  case 0
  with last show ?case by (cases lst) auto
next
  case (Suc d)
  from Suc.hyps(2) w have i: "i < w" "i < length ns" by simp_all
  then have step: "drop i (take w ns) = ns ! i # drop (Suc i) (take w ns)"
    by (metis Cons_nth_drop_Suc length_take min.absorb2 nth_take w)
  have key: "sn_prev (ns ! i) = key_at ns i" "sn_hash (ns ! i) = key_at ns (Suc i)"
    using i chain_hash [OF ok] by (simp_all add: key_at_def)
  let ?c = "c\<lparr>sc_position := sc_position c + 1,
    sc_first_prev := (case sc_first_prev c of None \<Rightarrow> Some (sn_prev (ns ! i)) | Some p \<Rightarrow> Some p)\<rparr>"
  have fp: "sc_first_prev ?c \<noteq> None" "sc_first_prev ?c = (if sc_first_prev c = None then Some (key_at ns i) else sc_first_prev c)"
    using key by (auto split: option.split)
  have IH: "\<exists>c'. scan_nodes lst (drop (Suc i) (take w ns)) x = Some c' \<and> sc_found c' \<and> waiting_ok ns (sc_unsequenced c')
      \<and> sc_first_prev c' = (if sc_first_prev c = None \<and> i < w then Some (key_at ns i) else sc_first_prev c)"
    if "sc_found x = (lst = None \<or> j \<le> Suc i)" "waiting_ok ns (sc_unsequenced x)" "sc_position x = sc_position c + 1"
      "sc_first_prev x = sc_first_prev ?c" for x
    using Suc.hyps(1) [of "Suc i" x] Suc.hyps(2) Suc.prems(2) i that fp by auto
  show ?case
  proof (cases "sc_found c")
    case True
    then have f: "lst = None \<or> j \<le> i" using Suc.prems(3) by simp
    let ?x = "?c\<lparr>sc_unsequenced := put (sn_prev (ns ! i)) (sn_hash (ns ! i), sn_time (ns ! i)) (sc_unsequenced ?c)\<rparr>"
    have "waiting_ok ns (sc_unsequenced ?x)" using waiting_put [OF Suc.prems(4) i(2)] key by simp
    moreover have e: "scan_nodes lst (drop i (take w ns)) c = scan_nodes lst (drop (Suc i) (take w ns)) ?x"
      using True by (simp add: step Let_def)
    ultimately show ?thesis unfolding e using f True by (intro IH) auto
  next
    case False
    then obtain l where l: "lst = Some l" "i < j" using Suc.prems(3) by auto
    note ll = last [OF l(1)]
    have eq: "sn_hash (ns ! i) = se_node_hash l \<longleftrightarrow> Suc i = j"
      using key ll key_at_inj [OF ok, of "Suc i" j] i w by simp
    show ?thesis
    proof (cases "Suc i = j")
      case True
      then have e: "scan_nodes lst (drop i (take w ns)) c = scan_nodes lst (drop (Suc i) (take w ns)) (?c\<lparr>sc_found := True\<rparr>)"
        using False l eq ll Suc.prems(2) by (simp add: step Let_def)
      show ?thesis unfolding e using Suc.prems(4) True by (intro IH) auto
    next
      case ne: False
      then have e: "scan_nodes lst (drop i (take w ns)) c = scan_nodes lst (drop (Suc i) (take w ns)) ?c"
        using False l eq by (simp add: step Let_def)
      show ?thesis unfolding e using Suc.prems(4) False ne l by (intro IH) auto
    qed
  qed
qed

lemma waiting_fold: "waiting_ok ns d \<Longrightarrow> waiting_ok ns xs \<Longrightarrow> waiting_ok ns (fold (\<lambda>(k, v). put k v) xs d)"
proof (induction xs arbitrary: d)
  case (Cons x xs)
  obtain k h ts where x: "x = (k, h, ts)" by (cases x) auto
  with Cons.prems(2) obtain i where "i < length ns" "k = key_at ns i" "h = sn_hash (ns ! i)" by (auto simp: waiting_ok_def)
  with waiting_put [OF Cons.prems(1)] x have "waiting_ok ns (put k (h, ts) d)" by simp
  moreover have "waiting_ok ns xs" using Cons.prems(2) by (auto simp: waiting_ok_def)
  ultimately show ?case using Cons.IH x by simp
qed simp

lemma waiting_Nil [simp]: "waiting_ok ns []"
  by (simp add: waiting_ok_def)

lemma backfill_stands:
  assumes ok: "chain_ok ns" and w: "w \<le> length ns" "j \<le> w" and v: "valid_seq t" and r: "table_rows c t = chain_prefix ns j"
  shows "stands_at ns j (backfill_scan (last_for_chain c t) (take w ns) (sequencer_new c lag n))
     \<and> sq_chain_id (backfill_scan (last_for_chain c t) (take w ns) (sequencer_new c lag n)) = c"
proof -
  let ?lst = "last_for_chain c t"
  have "length (chain_rows c t) = j"
    using arg_cong [OF r, of length] by (simp add: table_rows_def chain_prefix_def)
  then have none: "?lst = None \<longleftrightarrow> j = 0"
    by (auto simp: last_for_chain_valid [OF v] chain_last_def)
  have last: "0 < j \<and> j \<le> w \<and> se_node_hash l = key_at ns j \<and> se_local_seq l = int j" if l: "?lst = Some l" for l
  proof -
    have "chain_rows c t \<noteq> []" "l = last (chain_rows c t)"
      using l by (auto simp: last_for_chain_valid [OF v] chain_last_def split: if_splits)
    then have "entry_row l = last (table_rows c t)" by (simp add: table_rows_def last_map)
    moreover have "0 < j" using l none by (cases j) auto
    ultimately have "entry_row l = item_row (item_at ns (j - 1))" using r by (simp add: chain_prefix_def last_map)
    with \<open>0 < j\<close> w chain_hash [OF ok, of "j - 1"] show ?thesis
      by (auto simp: entry_row_def item_row_def item_at_def of_nat_diff)
  qed
  let ?c0 = "\<lparr>sc_position = 0, sc_first_prev = None, sc_found = (?lst = None), sc_unsequenced = []\<rparr>"
  have "\<exists>c'. scan_nodes ?lst (drop 0 (take w ns)) ?c0 = Some c' \<and> sc_found c' \<and> waiting_ok ns (sc_unsequenced c')
      \<and> sc_first_prev c' = (if sc_first_prev ?c0 = None \<and> 0 < w then Some (key_at ns 0) else sc_first_prev ?c0)"
    by (rule scan_ok [OF ok w(1), of ?lst j]) (use last none in auto)
  then obtain c' where
    c': "scan_nodes ?lst (take w ns) ?c0 = Some c'" "sc_found c'" "waiting_ok ns (sc_unsequenced c')"
      "sc_first_prev c' = (if 0 < w then Some (key_at ns 0) else None)" by (auto simp: drop_0)
  have pend: "waiting_ok ns (fold (\<lambda>(k, v). put k v) (sc_unsequenced c') [])"
    using waiting_fold [OF waiting_Nil c'(3)] .
  have k0: "key_at ns 0 = GENESIS_HASH" using ok by (simp add: chain_ok_def)
  show ?thesis
  proof (cases ?lst)
    case None
    with none c' pend k0 w show ?thesis
      by (auto simp: backfill_scan_def sequencer_new_def stands_at_def Let_def)
  next
    case (Some l)
    with last [OF Some] c' pend w show ?thesis
      by (auto simp: backfill_scan_def sequencer_new_def stands_at_def Let_def)
  qed
qed

subsection \<open>Runs\<close>

text \<open>
  What may happen to a replica and the table: the sequencer starts over a log that holds the
  first \<open>w\<close> nodes of the chain, of which \<open>j\<close> are sequenced; it is told of nodes in any order
  and any number of times; it tries to sequence, with any epoch; the table may refuse the
  append, it may fail and be rolled back, or be committed without an acknowledgement; another
  chain's writer appends.
\<close>

inductive seq_run :: "string \<Rightarrow> seq_node list \<Rightarrow> sequencer \<Rightarrow> seq_entry list \<Rightarrow> bool" for c ns where
  Started: "seq_table t \<Longrightarrow> table_rows c t = chain_prefix ns j \<Longrightarrow> j \<le> w \<Longrightarrow> w \<le> length ns \<Longrightarrow>
    seq_run c ns (backfill_scan (last_for_chain c t) (take w ns) (sequencer_new c lag n)) t"
| Told: "seq_run c ns s t \<Longrightarrow> i < length ns \<Longrightarrow> seq_run c ns (notify (ns ! i) s) t"
| Tried: "seq_run c ns s t \<Longrightarrow> sequence_ready (sqlite_store outcome stamp) epoch s t = (b, s', t') \<Longrightarrow> seq_run c ns s' t'"
| Others: "seq_run c ns s t \<Longrightarrow> c' \<noteq> c \<Longrightarrow> starts_at_one (table_rows c' t) items \<Longrightarrow> sqlite_append c' e stamp items t = Inr (new, t') \<Longrightarrow> seq_run c ns s t'"

lemma others_rows:
  assumes t: "seq_table t" and "c' \<noteq> c" and start: "starts_at_one (table_rows c' t) items"
    and a: "sqlite_append c' e stamp items t = Inr (new, t')"
  shows "seq_table t' \<and> table_rows c t' = table_rows c t"
proof -
  have v: "valid_seq t" using t by (simp add: seq_table_def)
  from a have "append_attempt (take (length t) t) (take (length t) t) c' e stamp items t = Inr (new, t')" by (simp add: sqlite_append_def)
  from append_attempt_planned [OF this] obtain todo where new: "new = build_entries (tip_of t) c' e stamp todo" "t' = t @ new" by auto
  then have "chain_rows c' new = new" using build_loop_rows by (simp add: build_entries_valid [OF v])
  then have "chain_rows c new = []" using assms(2) by (auto simp: chain_rows_def filter_id_conv filter_empty_conv)
  with sqlite_appends [OF t start a] new show ?thesis by (auto simp: table_rows_def chain_rows_def)
qed

lemma all_kept_notify: "all_kept ns k k' s \<Longrightarrow> all_kept ns k k' (notify n s)"
  by (auto simp: all_kept_def notify_def map_of_put split: option.split)

lemma run_stands:
  assumes "chain_ok ns" and "seq_run c ns s t"
  shows "\<exists>k k'. stands_at ns k s \<and> seq_table t \<and> table_rows c t = chain_prefix ns k' \<and> k \<le> k' \<and> k' \<le> length ns
    \<and> all_kept ns k k' s \<and> sq_chain_id s = c"
  using assms(2)
proof induction
  case (Started t j w lag n)
  then have "valid_seq t" by (simp add: seq_table_def)
  from backfill_stands [OF assms(1) Started.hyps(4,3) this Started.hyps(2), of lag n] Started.hyps show ?case
    by (intro exI [of _ j]) (auto simp: all_kept_def)
next
  case (Told s t i)
  then obtain k k' where "stands_at ns k s" "seq_table t" "table_rows c t = chain_prefix ns k'" "k \<le> k'" "k' \<le> length ns"
    "all_kept ns k k' s" "sq_chain_id s = c" by blast
  with notify_stands [OF this(1) Told.hyps(2)] all_kept_notify [OF this(6), of "ns ! i"] show ?case by blast
next
  case (Tried s t outcome stamp epoch b s' t')
  then obtain k k' where "stands_at ns k s" "seq_table t" "table_rows (sq_chain_id s) t = chain_prefix ns k'" "k \<le> k'" "k' \<le> length ns"
    "all_kept ns k k' s" "sq_chain_id s = c" by blast
  with sqlite.ready_moves [OF assms(1) this(1-6) Tried.hyps(2)] show ?case by metis
next
  case (Others s t c' items e stamp new t')
  with others_rows show ?case by metis
qed

text \<open>
  C37. The sequence follows the chain: let a replica's nodes be linked from the genesis hash
  with no hash repeated. However its sequencer was started, in whatever order and how often it
  is told of commits, whichever appends are refused, fail and are rolled back, or are committed
  without their acknowledgement, and whatever other chains write in between, the rows of its
  chain in the global sequence are exactly its first nodes, each once, in chain order and at
  their positions, and the whole table verifies.
\<close>

theorem sequence_follows_chain:
  assumes "chain_ok ns" and "seq_run c ns s t"
  shows "(\<exists>k \<le> length ns. table_rows c t = chain_prefix ns k) \<and> rp_valid (verify_global_sequence t)"
  using run_stands [OF assms] by (auto simp: seq_table_def valid_seq_def)

definition demo_chain :: "seq_node list" where
  "demo_chain = [\<lparr>sn_hash = ''a'', sn_prev = GENESIS_HASH, sn_time = 1\<rparr>, \<lparr>sn_hash = ''b'', sn_prev = ''a'', sn_time = 2\<rparr>]"

definition demo_told :: sequencer where
  "demo_told = notify (demo_chain ! 0) (notify (demo_chain ! 1) (backfill_scan None [] (sequencer_new ''c'' 5 1)))"

lemma genesis_long [simp]: "GENESIS_HASH \<noteq> [x]" "GENESIS_HASH \<noteq> []" "[x] \<noteq> GENESIS_HASH"
  by (auto simp: GENESIS_HASH_def dest: arg_cong [where f = length])

lemma demo_chain_ok: "chain_ok demo_chain"
  by (simp add: chain_ok_def key_at_def demo_chain_def less_Suc_eq numeral_2_eq_2)

lemma demo_run: "seq_run ''c'' demo_chain demo_told []"
proof -
  have "table_rows ''c'' [] = chain_prefix demo_chain 0" by (simp add: table_rows_def chain_rows_def chain_prefix_def)
  from Started [OF seq_table_Nil this, of 0 5 1]
  have "seq_run ''c'' demo_chain (backfill_scan None [] (sequencer_new ''c'' 5 1)) []"
    by (simp add: last_for_chain_def)
  then show ?thesis unfolding demo_told_def by (intro Told) (simp_all add: demo_chain_def)
qed

theorem sequence_follows_chain_witness:
  "\<exists>s t. sequence_ready (sqlite_store Acknowledged ''t0'') (Some 1) demo_told [] = (True, s, t) \<and> t \<noteq> []
     \<and> (\<exists>k \<le> 2. table_rows ''c'' t = chain_prefix demo_chain k)"
proof -
  have "\<exists>s t. sequence_ready (sqlite_store Acknowledged ''t0'') (Some 1) demo_told [] = (True, s, t) \<and> t \<noteq> []"
    by (simp add: sequence_ready_def ready_batch_def demo_told_def demo_chain_def notify_def backfill_scan_def sequencer_new_def
        sqlite_store_def sqlite_append_def append_attempt_def plan_append_def build_entries_def last_for_chain_def tip_of_def
        unique_ok_def Let_def)
  then obtain s t where st: "sequence_ready (sqlite_store Acknowledged ''t0'') (Some 1) demo_told [] = (True, s, t)" "t \<noteq> []" by blast
  have "length demo_chain = 2" by (simp add: demo_chain_def)
  with sequence_follows_chain [OF demo_chain_ok Tried [OF demo_run st(1)]] st show ?thesis by auto
qed

subsection \<open>A drain that meets no failure\<close>

lemma ready_loop_stops: "ready_batch s = [] \<Longrightarrow> 0 < sq_batch_size s \<Longrightarrow> map_of (sq_pending s) (sq_next_prev s) = None"
  by (cases "sq_batch_size s") (auto simp: ready_batch_def split: option.splits)

definition all_waiting :: "seq_node list \<Rightarrow> nat \<Rightarrow> sequencer \<Rightarrow> bool" where
  "all_waiting ns k s \<longleftrightarrow> (\<forall>i. k \<le> i \<longrightarrow> i < length ns \<longrightarrow> map_of (sq_pending s) (key_at ns i) \<noteq> None)"

context sequence_store
begin

lemma drain_all:
  assumes "chain_ok ns" and "stands_at ns k s" and "valid t" and "rows (sq_chain_id s) t = chain_prefix ns k'"
    and "k \<le> k'" and "k' \<le> length ns" and "all_waiting ns k s"
    and "0 < sq_batch_size s" and "drain store epoch s t = (s', t')" and "sq_diverged s' = []" and "sq_last_error s' = []"
  shows "rows (sq_chain_id s) t' = chain_prefix ns (length ns)"
  using assms(2-)
proof (induction "length (sq_pending s)" arbitrary: s t k k' rule: less_induct)
  case less
  obtain b s1 t1 where sr: "sequence_ready store epoch s t = (b, s1, t1)" by (metis prod_cases3)
  have kept: "all_kept ns k k' s" using less.prems(5,6) by (auto simp: all_kept_def all_waiting_def)
  from ready_moves [OF assms(1) less.prems(1-5) kept sr] obtain m m' where
    m: "stands_at ns (k + m) s1" "valid t1" "rows (sq_chain_id s) t1 = chain_prefix ns m'" "k + m \<le> m'" "k' \<le> m'" "m' \<le> length ns"
    and batch: "b \<Longrightarrow> ready_batch s = map (item_at ns) [k..<k + m]" by blast
  from sr show ?case
  proof (cases rule: sequence_ready_cases)
    case (stored e)
    have "all_waiting ns (k + m) s1"
      using kept_after [OF assms(1) _ order_refl _ stored(5) [unfolded batch [OF stored(1)]]] less.prems(6) m(4,6)
      by (simp add: all_waiting_def all_kept_def)
    moreover have "drain store epoch s1 t1 = (s', t')" using less.prems(8) sr stored(1) by (simp add: drain.simps [of store epoch s t])
    moreover have "length (sq_pending s1) < length (sq_pending s)" using sequence_ready_shrinks [of store epoch s t s1 t1] sr stored(1) by simp
    ultimately show ?thesis
      using less.hyps [of s1 "k + m" t1 m'] m less.prems(7,9,10) stored(8,9) by simp
  next
    case idle
    then have e: "s1 = s'" "t1 = t'" using less.prems(8) sr by (simp_all add: drain.simps [of store epoch s t])
    with idle(7) less.prems(9,10) have "ready_batch s = []" by blast
    with ready_loop_stops [of s] less.prems(7) have "map_of (sq_pending s) (key_at ns k) = None"
      using less.prems(1) by (simp add: stands_at_def)
    with less.prems(1,6) have "k = length ns" by (auto simp: all_waiting_def stands_at_def)
    with idle(2) e less.prems(3,4,5) show ?thesis by simp
  next
    case (failed e x)
    then have "s1 = s'" using less.prems(8) sr by (simp add: drain.simps [of store epoch s t])
    with failed(7) less.prems(9,10) show ?thesis by blast
  qed
qed

end

text \<open>
  C38. A drain sequences what it was told: the loop over \<open>_sequence_ready\<close> ends, and when the
  nodes of the chain that are not yet in the sequence are all waiting, in whatever order they
  came, and no failure is recorded, every node of the chain is in the sequence afterwards.
\<close>

theorem drain_sequences_everything:
  assumes "chain_ok ns" and "seq_run c ns s t" and "0 < sq_batch_size s"
    and "all_waiting ns (length (table_rows c t)) s"
    and "drain (sqlite_store outcome stamp) epoch s t = (s', t')" and "sq_diverged s' = []" and "sq_last_error s' = []"
  shows "table_rows c t' = chain_prefix ns (length ns)"
proof -
  from run_stands [OF assms(1,2)] obtain k k' where
    k: "stands_at ns k s" "seq_table t" "table_rows c t = chain_prefix ns k'" "k \<le> k'" "k' \<le> length ns" "all_kept ns k k' s"
      "sq_chain_id s = c" by blast
  then have "length (table_rows c t) = k'" by (simp add: chain_prefix_def)
  with assms(4) k(6) have "all_waiting ns k s" by (auto simp: all_waiting_def all_kept_def not_le)
  with assms k show ?thesis
    using sqlite.drain_all [OF assms(1) k(1,2) _ k(4,5) _ assms(3,5,6,7)] by simp
qed

text \<open>One node waiting, drained into an empty table.\<close>

definition demo_one :: "seq_node list" where
  "demo_one = [\<lparr>sn_hash = ''a'', sn_prev = GENESIS_HASH, sn_time = 1\<rparr>]"

definition demo_one_told :: sequencer where
  "demo_one_told = notify (demo_one ! 0) (backfill_scan None [] (sequencer_new ''c'' 5 4))"

lemma demo_one_run: "seq_run ''c'' demo_one demo_one_told []"
proof -
  have "table_rows ''c'' [] = chain_prefix demo_one 0" by (simp add: table_rows_def chain_rows_def chain_prefix_def)
  from Started [OF seq_table_Nil this, of 0 5 4]
  have "seq_run ''c'' demo_one (backfill_scan None [] (sequencer_new ''c'' 5 4)) []"
    by (simp add: last_for_chain_def)
  then show ?thesis unfolding demo_one_told_def by (intro Told) (simp_all add: demo_one_def)
qed

lemmas demo_eval = sequence_ready_def ready_batch_def demo_one_told_def demo_one_def notify_def backfill_scan_def
  sequencer_new_def sqlite_store_def sqlite_append_def append_attempt_def plan_append_def build_entries_def
  last_for_chain_def tip_of_def unique_ok_def pop_def eval_nat_numeral Let_def

lemma demo_drain: "\<exists>s t. drain (sqlite_store Acknowledged ''t0'') (Some 1) demo_one_told [] = (s, t) \<and> sq_diverged s = [] \<and> sq_last_error s = []"
proof -
  obtain s t where 1: "sequence_ready (sqlite_store Acknowledged ''t0'') (Some 1) demo_one_told [] = (True, s, t)"
    and s: "sq_diverged s = []" "sq_last_error s = []" "sq_pending s = []"
    by (simp add: demo_eval)
  have 2: "sequence_ready (sqlite_store Acknowledged ''t0'') (Some 1) s t = (False, s, t)"
    using s by (cases "sq_batch_size s") (simp_all add: sequence_ready_def ready_batch_def)
  have "drain (sqlite_store Acknowledged ''t0'') (Some 1) demo_one_told [] = (s, t)"
    using 1 2 by (simp add: drain.simps [of _ _ demo_one_told] drain.simps [of _ _ s])
  with s show ?thesis by simp
qed

theorem drain_sequences_everything_witness:
  "\<exists>s t. drain (sqlite_store Acknowledged ''t0'') (Some 1) demo_one_told [] = (s, t) \<and> table_rows ''c'' t = [(1, ''a'', GENESIS_HASH)]"
proof -
  from demo_drain obtain s t where d: "drain (sqlite_store Acknowledged ''t0'') (Some 1) demo_one_told [] = (s, t)"
    "sq_diverged s = []" "sq_last_error s = []" by blast
  have "chain_ok demo_one" by (simp add: chain_ok_def key_at_def demo_one_def)
  moreover have "0 < sq_batch_size demo_one_told" "all_waiting demo_one (length (table_rows ''c'' [])) demo_one_told"
    by (simp_all add: demo_eval all_waiting_def table_rows_def chain_rows_def key_at_def)
  ultimately have "table_rows ''c'' t = chain_prefix demo_one (length demo_one)"
    using drain_sequences_everything [OF _ demo_one_run _ _ d] by blast
  with d show ?thesis by (simp add: chain_prefix_def item_row_def item_at_def key_at_def demo_one_def)
qed

subsection \<open>Admission\<close>

text \<open>
  Admission bounds the backlog: when the controller admits a request, its lease has not
  been reported lost and is held by the local clock, the sequencer is running, backfilled and
  not diverged, and no node has been waiting to be sequenced for longer than the bound.
\<close>

theorem admission_bounds_backlog:
  assumes "admission_error clock wall h = None" and "hc_lease h = Some l" and "hc_sequencer h = Some s" and "0 \<le> sq_max_lag s"
  shows "hc_lost h = [] \<and> lease_holds clock l \<and> \<not> sq_stopped s \<and> sq_backfilled s \<and> sq_diverged s = []
     \<and> (\<forall>(k, hsh, ts) \<in> set (sq_pending s). wall - ts \<le> sq_max_lag s)"
proof -
  from assms have a: "hc_lost h = []" "lease_holds clock l" "\<not> sq_stopped s" "sq_backfilled s" "sq_diverged s = []"
    and lag: "lag_seconds wall s \<le> sq_max_lag s"
    by (auto simp: admission_error_def sequencer_admission_error_def split: if_splits)
  have "wall - ts \<le> sq_max_lag s" if "(k, hsh, ts) \<in> set (sq_pending s)" for k hsh ts
  proof -
    let ?T = "set (map (\<lambda>(_, _, ts). ts) (sq_pending s))"
    have "ts \<in> ?T" using that by force
    then have "Min ?T \<le> ts" by (intro Min_le) simp_all
    moreover have "wall - Min ?T \<le> sq_max_lag s" using lag that by (auto simp: lag_seconds_def split: if_splits)
    ultimately show ?thesis by linarith
  qed
  with a show ?thesis by auto
qed

theorem admission_bounds_backlog_witness:
  "let s = (sequencer_new ''c'' 5 1)\<lparr>sq_backfilled := True, sq_pending := [(''p'', ''h'', 7)]\<rparr>;
       h = \<lparr>hc_lease = Some (lease_of lease_demo ''a''), hc_sequencer = Some s, hc_lost = []\<rparr>
   in admission_error (now lease_demo) 10 h = None \<and> (10::rat) - 7 \<le> sq_max_lag s"
proof -
  let ?s = "(sequencer_new ''c'' 5 1)\<lparr>sq_backfilled := True, sq_pending := [(''p'', ''h'', 7)]\<rparr>"
  let ?h = "\<lparr>hc_lease = Some (lease_of lease_demo ''a''), hc_sequencer = Some ?s, hc_lost = []\<rparr>"
  have adm: "admission_error (now lease_demo) 10 ?h = None"
    by (simp add: admission_error_def sequencer_admission_error_def lag_seconds_def sequencer_new_def lease_demo_def lease_holds_def)
  have "\<forall>(k, hsh, ts) \<in> set (sq_pending ?s). 10 - ts \<le> sq_max_lag ?s"
    using admission_bounds_backlog [OF adm, of "lease_of lease_demo ''a''" ?s] by (simp add: sequencer_new_def)
  with adm show ?thesis by (simp add: Let_def)
qed

end
