(* ===== verification/Ha_Handover.thy ===== *)
theory Ha_Handover
  imports Ha_Lease Py_Text
begin

section \<open>Writer handovers recorded in the chain\<close>

text \<open>
  \<open>highest_recorded_epoch\<close> of \<^verbatim>\<open>aegis/core/ha.py\<close>: the floor a new writer lifts the epoch
  counter above is read back from the chain's own handover records. Of a node it reads the
  tenant and the state id.
\<close>

definition handover_prefix :: "string \<Rightarrow> string" where
  "handover_prefix chain_id = ''ha-lease-'' @ chain_id @ ''-''"

definition handover_state_id :: "string \<Rightarrow> int \<Rightarrow> string" where
  "handover_state_id chain_id epoch = ''ha-lease-'' @ chain_id @ ''-'' @ str_int epoch"

fun highest_loop :: "string \<Rightarrow> int \<Rightarrow> (string \<times> string) list \<Rightarrow> int res" where
  "highest_loop prefix highest [] = Inr highest"
| "highest_loop prefix highest ((tenant_id, state_id) # nodes) =
     (if tenant_id \<noteq> ''aegis-system'' \<or> take (length prefix) state_id \<noteq> prefix then highest_loop prefix highest nodes
      else
        let suffix = drop (length prefix) state_id in
        if \<not> py_isdigit suffix \<or> length suffix > 16 then highest_loop prefix highest nodes
        else
          bind_res (py_int suffix) (\<lambda>epoch.
            highest_loop prefix (if epoch \<le> MAX_EPOCH then max highest epoch else highest) nodes))"

definition highest_recorded_epoch :: "(string \<times> string) list \<Rightarrow> string \<Rightarrow> int res" where
  "highest_recorded_epoch nodes chain_id = highest_loop (handover_prefix chain_id) 0 nodes"

subsection \<open>Printing and reading an epoch\<close>

lemma epoch_text:
  assumes "0 \<le> e" and "e \<le> MAX_EPOCH"
  shows "py_isdigit (str_int e)" and "length (str_int e) \<le> 16" and "py_int (str_int e) = Inr e"
proof -
  have s: "str_int e = str_nat (nat e)" using assms(1) by (simp add: str_int_def)
  have d: "list_all (\<lambda>c. c \<in> set digits) (str_nat (nat e))" using str_nat_digits by (auto simp: list_all_iff)
  then show "py_isdigit (str_int e)" by (auto simp: s py_isdigit_def list_all_iff)
  have "nat e < 10 ^ Suc 15" using assms(2) by (simp add: MAX_EPOCH_def)
  from length_str_nat [OF this] show "length (str_int e) \<le> 16" by (simp add: s)
  show "py_int (str_int e) = Inr e" using d assms(1) by (simp add: py_int_def s parse_str_nat)
qed

lemma highest_loop_le: "highest_loop p m nodes = Inr h \<Longrightarrow> m \<le> h"
proof (induction p m nodes rule: highest_loop.induct)
  case (2 p m t s nodes)
  let ?suf = "drop (length p) s"
  show ?case
  proof (cases "t \<noteq> ''aegis-system'' \<or> take (length p) s \<noteq> p \<or> \<not> py_isdigit ?suf \<or> length ?suf > 16")
    case True
    with "2.prems" "2.IH"(1,2) show ?thesis by (auto simp: Let_def split: if_splits)
  next
    case False
    with "2.prems" obtain e where e: "py_int ?suf = Inr e"
      "highest_loop p (if e \<le> MAX_EPOCH then max m e else m) nodes = Inr h"
      by (auto simp: Let_def bind_res_eq_Inr)
    from "2.IH"(3) [OF _ refl _ e(2)] False have "(if e \<le> MAX_EPOCH then max m e else m) \<le> h" by auto
    then show ?thesis by (simp split: if_splits)
  qed
qed simp

text \<open>Every handover recorded for the chain is covered by the floor.\<close>

lemma highest_covers:
  assumes "highest_loop p m nodes = Inr h" and "(''aegis-system'', p @ str_int e) \<in> set nodes" and "0 \<le> e" and "e \<le> MAX_EPOCH"
  shows "e \<le> h"
  using assms(1,2)
proof (induction nodes arbitrary: m)
  case (Cons x nodes)
  obtain t s where x: "x = (t, s)" by force
  show ?case
  proof (cases "x = (''aegis-system'', p @ str_int e)")
    case True
    with Cons.prems(1) have "highest_loop p (max m e) nodes = Inr h"
      using epoch_text [OF assms(3,4)] assms(4) by simp
    from highest_loop_le [OF this] show ?thesis by simp
  next
    case False
    with Cons.prems(2) have i: "(''aegis-system'', p @ str_int e) \<in> set nodes" by auto
    from Cons.prems(1) x obtain m' where "highest_loop p m' nodes = Inr h"
      by (auto simp: Let_def bind_res_eq_Inr split: if_splits)
    from Cons.IH [OF this i] show ?thesis .
  qed
qed simp

theorem floor_covers_handovers:
  assumes "highest_recorded_epoch nodes c = Inr h" and "(''aegis-system'', handover_state_id c e) \<in> set nodes"
    and "0 \<le> e" and "e \<le> MAX_EPOCH"
  shows "e \<le> h"
  using highest_covers [OF assms(1) [unfolded highest_recorded_epoch_def] _ assms(3,4)] assms(2)
  by (simp add: handover_prefix_def handover_state_id_def)

text \<open>A record whose epoch is a superscript digit is not ignored: reading it raises.\<close>

theorem superscript_epoch_raises:
  "\<exists>msg. highest_recorded_epoch [(''aegis-system'', ''ha-lease-c-'' @ [CHR 0xB2])] ''c'' = Inl (ValueError msg)"
  by (simp add: highest_recorded_epoch_def handover_prefix_def py_isdigit_def py_int_def digits_def)

end
