(* ===== verification/Forensic.thy ===== *)
theory Forensic
  imports Json_Text "HOL-Library.List_Lexorder" "HOL-Library.Char_ord"
begin

section \<open>Forensic records\<close>

text \<open>
  The model of \<^verbatim>\<open>aegis/core/forensic.py\<close>: the closed vocabulary of WAF verdicts and the
  canonical bytes hashed into the accumulator, for a request with its response and for an
  incrementally hashed stream. The envelope is written with sorted keys; the keys are
  written here in that order. Lists are compared lexicographically, as Python compares
  strings.
\<close>

definition WAF_VERDICT_PASSED :: string where
  "WAF_VERDICT_PASSED = ''passed''"

definition WAF_VERDICT_BLOCKED :: string where
  "WAF_VERDICT_BLOCKED = ''blocked''"

definition WAF_VERDICT_UNRECORDED :: string where
  "WAF_VERDICT_UNRECORDED = []"

lemmas verdict_defs = WAF_VERDICT_PASSED_def WAF_VERDICT_BLOCKED_def WAF_VERDICT_UNRECORDED_def

definition WAF_VERDICTS :: "string list" where
  "WAF_VERDICTS = [WAF_VERDICT_PASSED, WAF_VERDICT_BLOCKED, WAF_VERDICT_UNRECORDED]"

definition validate_waf_verdict :: "string \<Rightarrow> string res" where
  "validate_waf_verdict verdict =
     (if verdict \<notin> set WAF_VERDICTS then Inl (ValueError ''waf_verdict must be one of the verdicts'')
      else Inr verdict)"

definition sha256_hex :: "bytes \<Rightarrow> string" where
  "sha256_hex data = hexdigest data"

definition cap_bytes :: "bytes \<Rightarrow> nat \<Rightarrow> bytes" where
  "cap_bytes data limit = (if length data > limit then take limit data else data)"

text \<open>\<open>response_bytes or b""\<close>, and its digest when there is a non-empty response.\<close>

definition response_body :: "bytes option \<Rightarrow> bytes" where
  "response_body r = (case r of None \<Rightarrow> [] | Some b \<Rightarrow> b)"

definition response_digest :: "bytes option \<Rightarrow> string" where
  "response_digest r = (if response_body r = [] then [] else sha256_hex (response_body r))"

definition envelope ::
  "string \<Rightarrow> bytes \<Rightarrow> bytes option \<Rightarrow> string \<Rightarrow> string \<Rightarrow> nat \<Rightarrow> string \<Rightarrow> (string \<times> jfield) list" where
  "envelope state_id request_bytes response_bytes model endpoint max_bytes waf_verdict =
     [(''endpoint'', JStr endpoint), (''model'', JStr model),
      (''request_hash'', JStr (sha256_hex request_bytes)),
      (''request_preview_hex'', JStr (hex (cap_bytes request_bytes max_bytes))),
      (''request_size'', JInt (int (length request_bytes))),
      (''response_hash'', JStr (response_digest response_bytes)),
      (''response_preview_hex'', JStr (hex (cap_bytes (response_body response_bytes) max_bytes))),
      (''response_size'', JInt (int (length (response_body response_bytes)))),
      (''state_id'', JStr state_id)]
     @ (if waf_verdict \<noteq> WAF_VERDICT_UNRECORDED then [(''waf_verdict'', JStr waf_verdict)] else [])"

definition build_merkle_leaf ::
  "string \<Rightarrow> bytes \<Rightarrow> bytes option \<Rightarrow> string \<Rightarrow> string \<Rightarrow> nat \<Rightarrow> string \<Rightarrow> bytes res" where
  "build_merkle_leaf state_id request_bytes response_bytes model endpoint max_bytes waf_verdict =
     bind_res (validate_waf_verdict waf_verdict) (\<lambda>v.
       Inr (encode (json_object (envelope state_id request_bytes response_bytes model endpoint max_bytes v))))"

definition sorted_counts :: "(string \<times> int) list \<Rightarrow> (string \<times> int) list" where
  "sorted_counts hits = sort_key fst hits"

record stream_leaf =
  sl_state_id :: string
  sl_request_hash :: string
  sl_response_hash :: string
  sl_request_size :: int
  sl_response_size :: int
  sl_request_preview :: bytes
  sl_response_preview :: bytes
  sl_model :: string
  sl_endpoint :: string
  sl_terminal_outcome :: string
  sl_final_marker_included :: bool
  sl_token_count :: int
  sl_redaction_hits :: "(string \<times> int) list"

definition stream_envelope :: "stream_leaf \<Rightarrow> (string \<times> jfield) list" where
  "stream_envelope s =
     [(''endpoint'', JStr (sl_endpoint s)), (''final_marker_included'', JBool (sl_final_marker_included s)),
      (''leaf_version'', JInt 2), (''model'', JStr (sl_model s)),
      (''redaction_hits'', JCounts (sorted_counts (sl_redaction_hits s))),
      (''request_hash'', JStr (sl_request_hash s)),
      (''request_preview_hex'', JStr (hex (sl_request_preview s))), (''request_size'', JInt (sl_request_size s)),
      (''response_hash'', JStr (sl_response_hash s)),
      (''response_preview_hex'', JStr (hex (sl_response_preview s))), (''response_size'', JInt (sl_response_size s)),
      (''state_id'', JStr (sl_state_id s)), (''terminal_outcome'', JStr (sl_terminal_outcome s)),
      (''token_count'', JInt (sl_token_count s))]"

definition build_stream_merkle_leaf :: "stream_leaf \<Rightarrow> bytes" where
  "build_stream_merkle_leaf s = encode (json_object (stream_envelope s))"

subsection \<open>What a leaf commits to\<close>

text \<open>A field ends before the character that follows it, whichever it is.\<close>

lemma json_field_end:
  assumes "json_field v @ c # x = json_field w @ d # y" and "same_kind v w"
    and "\<not> decimal_char c" and "\<not> decimal_char d"
  shows "v = w \<and> c # x = d # y"
proof (cases v)
  case (JInt i)
  with assms(2) obtain j where "w = JInt j" by (cases w) simp_all
  with JInt assms number_end [of i c x j d y] show ?thesis by simp
next
  case (JStr s)
  with assms(2) obtain t where "w = JStr t" by (cases w) simp_all
  with JStr assms json_str_prefix [of s "c # x" t "d # y"] show ?thesis by simp
next
  case (JBool a)
  with assms(2) obtain b where "w = JBool b" by (cases w) simp_all
  with JBool assms show ?thesis by (simp split: if_splits)
next
  case (JCounts a)
  with assms(2) obtain b where "w = JCounts b" by (cases w) simp_all
  with JCounts assms count_fields_prefix [of a "c # x" b "d # y"] show ?thesis by simp
qed

text \<open>An object is not the beginning of one with further fields.\<close>

lemma json_fields_optional:
  "same_shape fs gs \<Longrightarrow> fs \<noteq> [] \<Longrightarrow> json_fields fs = json_fields (gs @ hs) \<Longrightarrow> fs = gs \<and> hs = []"
proof (induction fs arbitrary: gs rule: json_fields.induct)
  case (2 k v)
  then obtain w where gs: "gs = [(k, w)]" and kind: "same_kind v w"
    by (auto simp: same_shape_def list_all2_Cons1)
  obtain c x where cx: "json_fields (gs @ hs) = json_str k @ '':'' @ json_field w @ c # x"
    and c: "\<not> decimal_char c" "hs \<noteq> [] \<Longrightarrow> c = CHR '',''"
    using gs by (cases hs) auto
  have "json_field v @ CHR ''}'' # [] = json_field w @ c # x"
    using "2.prems"(3) cx by simp
  from json_field_end [OF this kind not_decimal(2) c(1)] have "v = w" "c = CHR ''}''" by simp_all
  with gs c(2) show ?case by auto
next
  case (3 k v f fs)
  then obtain w g gs' where gs: "gs = (k, w) # g # gs'" and kind: "same_kind v w" and rest: "same_shape (f # fs) (g # gs')"
    by (auto simp: same_shape_def list_all2_Cons1)
  with "3.prems" json_field_end [of v "CHR '',''" "json_fields (f # fs)" w "CHR '',''" "json_fields ((g # gs') @ hs)"]
  have "v = w" and "json_fields (f # fs) = json_fields ((g # gs') @ hs)" by simp_all
  with "3.IH" [OF rest] gs show ?case by simp
qed simp

text \<open>
  A leaf commits to everything in its envelope: two leaves with the same bytes have the
  same state id, model, endpoint, verdict (recorded or not), sizes, body digests and
  previews. In particular no verdict can be added to or taken from a leaf.
\<close>

theorem leaf_binds_envelope:
  assumes "build_merkle_leaf sid req resp model endpoint k v = Inr leaf"
    and "build_merkle_leaf sid' req' resp' model' endpoint' k' v' = Inr leaf"
  shows "sid = sid' \<and> model = model' \<and> endpoint = endpoint' \<and> v = v'
    \<and> length req = length req' \<and> sha256 req = sha256 req' \<and> cap_bytes req k = cap_bytes req' k'
    \<and> length (response_body resp) = length (response_body resp') \<and> response_digest resp = response_digest resp'
    \<and> cap_bytes (response_body resp) k = cap_bytes (response_body resp') k'"
proof -
  let ?E = "envelope sid req resp model endpoint k []" and ?E' = "envelope sid' req' resp' model' endpoint' k' []"
  let ?x = "if v \<noteq> [] then [(''waf_verdict'', JStr v)] else []" and ?x' = "if v' \<noteq> [] then [(''waf_verdict'', JStr v')] else []"
  from assms have eq: "json_fields (?E @ ?x) = json_fields (?E' @ ?x')"
    by (auto simp: build_merkle_leaf_def bind_res_eq_Inr validate_waf_verdict_def json_object_def envelope_def
        verdict_defs split: if_splits)
  have shape: "same_shape ?E ?E'" "same_shape ?E' ?E" and ne: "?E \<noteq> []" "?E' \<noteq> []"
    by (simp_all add: envelope_def same_shape_def verdict_defs)
  have "?E = ?E' \<and> v = v'"
  proof (cases "v = [] \<or> v' = []")
    case True
    with eq json_fields_optional [OF shape(1) ne(1), of ?x'] json_fields_optional [OF shape(2) ne(2), of ?x]
    show ?thesis by (auto split: if_splits)
  next
    case False
    then have "same_shape (?E @ ?x) (?E' @ ?x')"
      using shape(1) by (simp add: same_shape_def list_all2_appendI)
    from json_fields_inj [OF this eq] False show ?thesis
      using list_all2_lengthD [of _ ?E ?E'] shape(1) by (simp add: same_shape_def)
  qed
  then show ?thesis
    by (auto simp: envelope_def verdict_defs sha256_hex_def hexdigest_eq_iff)
qed

theorem leaf_binds_envelope_witness:
  "\<exists>leaf. build_merkle_leaf ''r1'' [1, 2] None ''m'' ''chat'' 8 ''passed'' = Inr leaf
     \<and> build_merkle_leaf ''r1'' [1, 2] None ''m'' ''chat'' 8 [] \<noteq> Inr leaf"
proof -
  obtain leaf where leaf: "build_merkle_leaf ''r1'' [1, 2] None ''m'' ''chat'' 8 ''passed'' = Inr leaf"
    by (simp add: build_merkle_leaf_def validate_waf_verdict_def WAF_VERDICTS_def verdict_defs)
  moreover have "build_merkle_leaf ''r1'' [1, 2] None ''m'' ''chat'' 8 [] \<noteq> Inr leaf"
    using leaf_binds_envelope [OF leaf, of "''r1''" "[1, 2]" None "''m''" "''chat''" 8 "[]"] by auto
  ultimately show ?thesis by blast
qed

end
