(* ===== verification/Py_Float.thy ===== *)
theory Py_Float
  imports Py_Text
begin

section \<open>Floating-point numbers as text\<close>

text \<open>
  Python floats and the two renderings the ledger hashes: \<open>f"{x:.9f}"\<close> and \<open>str(x)\<close>. A
  finite float is the rational it denotes (the two zeros are one); rounding to a decimal is
  exact and ties go to the even neighbour, as in the C library. \<open>str\<close> writes the shortest
  decimal that reads back as the same IEEE double, in exponent form when the decimal point
  lies outside the range of \<open>repr\<close>.
\<close>

datatype py_float = Fin rat | Nan | Inf | NegInf

fun is_finite :: "py_float \<Rightarrow> bool" where
  "is_finite (Fin _) = True"
| "is_finite _ = False"

definition half_even :: "rat \<Rightarrow> int" where
  "half_even q =
     (let f = \<lfloor>q\<rfloor>; d = q - of_int f in
      if d < 1 / 2 then f else if 1 / 2 < d then f + 1 else if even f then f else f + 1)"

definition sign_text :: "rat \<Rightarrow> string" where
  "sign_text q = (if q < 0 then ''-'' else [])"

definition pad_zeros :: "nat \<Rightarrow> string \<Rightarrow> string" where
  "pad_zeros k s = replicate (k - length s) CHR ''0'' @ s"

fun fixed9 :: "py_float \<Rightarrow> string" where
  "fixed9 (Fin q) =
     (let n = nat (half_even (\<bar>q\<bar> * 10 ^ 9)) in
      sign_text q @ str_nat (n div 10 ^ 9) @ ''.'' @ pad_zeros 9 (str_nat (n mod 10 ^ 9)))"
| "fixed9 Nan = ''nan''"
| "fixed9 Inf = ''inf''"
| "fixed9 NegInf = ''-inf''"

subsection \<open>The shortest decimal that reads back\<close>

definition pow_int :: "rat \<Rightarrow> int \<Rightarrow> rat" where
  "pow_int b i = (if 0 \<le> i then b ^ nat i else 1 / b ^ nat (- i))"

text \<open>\<open>\<lfloor>log b q\<rfloor>\<close> for \<open>q > 0\<close>; the fuel covers the exponent range of a double.\<close>

fun flog :: "nat \<Rightarrow> rat \<Rightarrow> rat \<Rightarrow> int" where
  "flog 0 b q = 0"
| "flog (Suc k) b q = (if b \<le> q then flog k b (q / b) + 1 else if q < 1 then flog k b (q * b) - 1 else 0)"

definition to_double :: "rat \<Rightarrow> rat" where
  "to_double q =
     (if q = 0 then 0
      else let u = pow_int 2 (max (flog 1100 2 \<bar>q\<bar> - 52) (- 1074)) in of_int (half_even (q / u)) * u)"

fun short_digits :: "nat \<Rightarrow> nat \<Rightarrow> int \<Rightarrow> rat \<Rightarrow> nat \<times> nat" where
  "short_digits 0 k e q = (nat (half_even (q * pow_int 10 (16 - e))), 17)"
| "short_digits (Suc m) k e q =
     (let n = half_even (q * pow_int 10 (int k - 1 - e)) in
      if to_double (of_int n * pow_int 10 (e - int k + 1)) = q then (nat n, k) else short_digits m (Suc k) e q)"

definition rstrip_zeros :: "string \<Rightarrow> string" where
  "rstrip_zeros s = rev (dropWhile (\<lambda>c. c = CHR ''0'') (rev s))"

definition place_point :: "string \<Rightarrow> int \<Rightarrow> string" where
  "place_point ds decpt =
     (if decpt \<le> - 4 \<or> 16 < decpt then
        let x = decpt - 1 in
        take 1 ds @ (if length ds \<le> 1 then [] else ''.'' @ drop 1 ds) @ ''e'' @ (if x < 0 then ''-'' else ''+'')
          @ pad_zeros 2 (str_nat (nat \<bar>x\<bar>))
      else if decpt \<le> 0 then ''0.'' @ replicate (nat (- decpt)) CHR ''0'' @ ds
      else if int (length ds) \<le> decpt then ds @ replicate (nat decpt - length ds) CHR ''0'' @ ''.0''
      else take (nat decpt) ds @ ''.'' @ drop (nat decpt) ds)"

fun str_float :: "py_float \<Rightarrow> string" where
  "str_float (Fin q) =
     (if q = 0 then ''0.0''
      else let e = flog 400 10 \<bar>q\<bar>;
               (n, k) = short_digits 16 1 e \<bar>q\<bar>;
               s = str_nat n
           in sign_text q @ place_point (rstrip_zeros s) (e + 1 + int (length s) - int k))"
| "str_float Nan = ''nan''"
| "str_float Inf = ''inf''"
| "str_float NegInf = ''-inf''"

subsection \<open>The characters of a number\<close>

definition number_chars :: "char set" where
  "number_chars = set digits \<union> set ''-+.einaf''"

lemma digits_number: "set digits \<subseteq> number_chars" "CHR ''0'' \<in> number_chars" "CHR ''-'' \<in> number_chars"
  "CHR ''+'' \<in> number_chars" "CHR ''.'' \<in> number_chars" "CHR ''e'' \<in> number_chars"
  by (auto simp: number_chars_def digits_def)

lemma str_nat_number: "set (str_nat n) \<subseteq> number_chars"
  using str_nat_digits digits_number(1) by blast

lemma pad_zeros_number: "set s \<subseteq> number_chars \<Longrightarrow> set (pad_zeros k s) \<subseteq> number_chars"
  by (auto simp: pad_zeros_def digits_number)

lemma rstrip_zeros_subset: "set (rstrip_zeros s) \<subseteq> set s"
  by (auto simp: rstrip_zeros_def dest: set_dropWhileD)

lemma place_point_number: "set ds \<subseteq> number_chars \<Longrightarrow> set (place_point ds p) \<subseteq> number_chars"
  using pad_zeros_number [OF str_nat_number]
  by (auto simp: place_point_def Let_def digits_number dest: in_set_takeD in_set_dropD)

lemma fixed9_number: "set (fixed9 x) \<subseteq> number_chars"
  using pad_zeros_number [OF str_nat_number] str_nat_number
  by (cases x) (auto simp: Let_def sign_text_def digits_number, auto simp: number_chars_def)

lemma str_float_number: "set (str_float x) \<subseteq> number_chars"
proof (cases x)
  case (Fin q)
  have "set (place_point (rstrip_zeros (str_nat n)) p) \<subseteq> number_chars" for n p
    using place_point_number rstrip_zeros_subset str_nat_number by (metis order_trans)
  with Fin show ?thesis
    by (auto simp: Let_def sign_text_def digits_number split: prod.split)
qed (auto simp: number_chars_def)

lemma bar_not_number: "CHR ''|'' \<notin> number_chars"
  by (simp add: number_chars_def digits_def)

lemma float_text_bar [simp]: "CHR ''|'' \<notin> set (fixed9 x)" "CHR ''|'' \<notin> set (str_float x)"
  using fixed9_number str_float_number bar_not_number by blast+

end
