(* ===== verification/Audit_Node.thy ===== *)
theory Audit_Node
  imports Forensic Py_Float
begin

section \<open>Audit nodes and their signed bytes\<close>

text \<open>
  The first half of \<^verbatim>\<open>aegis/core/crypto_audit.py\<close>: the node of the audit chain with its hash,
  the signature tiers and the material each scheme must carry, the bytes a signature covers
  in their three historical shapes, and the module-level helpers.

  A field holds a value of its annotated type. \<open>sampling_params\<close> and \<open>mmr_proof\<close> are
  documents (\<open>pyval\<close>). The hash remembered at construction is the field
  \<open>an_creation_hash\<close>, which is no part of the node's document.
\<close>

record audit_node =
  an_state_id :: string
  an_timestamp :: py_float
  an_entropy :: py_float
  an_tenant_id :: string
  an_sampling_params :: pyval
  an_prev_hash :: string
  an_merkle_root :: string
  an_signature :: string
  an_signature_scheme :: string
  an_public_key :: string
  an_request_hash :: string
  an_response_hash :: string
  an_model :: string
  an_endpoint :: string
  an_token_trail_count :: int
  an_is_fallback :: bool
  an_phi_scrubbed :: bool
  an_scrub_method :: string
  an_signer_name :: string
  an_signature_meaning :: string
  an_audit_trail_version :: string
  an_status :: string
  an_mmr_leaf_hash :: string
  an_mmr_leaf_index :: int
  an_mmr_leaf_count :: int
  an_mmr_proof :: pyval
  an_sealed_subject_id :: string
  an_sealed_nonce :: string
  an_sealed_ciphertext :: string
  an_shredding_version :: string
  an_waf_verdict :: string
  an_creation_hash :: string

fun bar_join :: "string list \<Rightarrow> string" where
  "bar_join [] = []"
| "bar_join [x] = x"
| "bar_join (x # y # ys) = x @ ''|'' @ bar_join (y # ys)"

definition node_content :: "audit_node \<Rightarrow> string" where
  "node_content n =
     bar_join [an_prev_hash n, an_state_id n, fixed9 (an_timestamp n), str_float (an_entropy n), an_tenant_id n,
       an_merkle_root n, an_signature n, an_request_hash n, an_response_hash n]"

definition node_hash :: "audit_node \<Rightarrow> string" where
  "node_hash n = hexdigest (encode (node_content n))"

text \<open>\<open>__post_init__\<close>.\<close>

definition post_init :: "audit_node \<Rightarrow> audit_node" where
  "post_init n = n\<lparr>an_creation_hash := node_hash n\<rparr>"

subsection \<open>Signature tiers\<close>

datatype signature_assurance =
  UNSIGNED | COMPROMISED_EPHEMERAL | SYMMETRIC_AUTHENTICATED | ASYMMETRIC_SOFTWARE | ASYMMETRIC_HARDWARE_ATTESTED

fun assurance_rank :: "signature_assurance \<Rightarrow> nat" where
  "assurance_rank UNSIGNED = 0"
| "assurance_rank COMPROMISED_EPHEMERAL = 1"
| "assurance_rank SYMMETRIC_AUTHENTICATED = 2"
| "assurance_rank ASYMMETRIC_SOFTWARE = 3"
| "assurance_rank ASYMMETRIC_HARDWARE_ATTESTED = 4"

lemma assurance_rank_inj: "assurance_rank a = assurance_rank b \<longleftrightarrow> a = b"
  by (cases a; cases b) simp_all

instantiation signature_assurance :: linorder
begin

definition less_eq_signature_assurance :: "signature_assurance \<Rightarrow> signature_assurance \<Rightarrow> bool" where
  "less_eq_signature_assurance a b \<longleftrightarrow> assurance_rank a \<le> assurance_rank b"

definition less_signature_assurance :: "signature_assurance \<Rightarrow> signature_assurance \<Rightarrow> bool" where
  "less_signature_assurance a b \<longleftrightarrow> assurance_rank a < assurance_rank b"

instance
  by standard
    (auto simp: less_eq_signature_assurance_def less_signature_assurance_def assurance_rank_inj
      dest: order_antisym simp flip: assurance_rank_inj)

end

definition scheme_assurance :: "string \<Rightarrow> signature_assurance option" where
  "scheme_assurance s = map_of
     [(''ed25519-fallback'', COMPROMISED_EPHEMERAL), (''hmac-sha256'', SYMMETRIC_AUTHENTICATED),
      (''pqc-ml-dsa'', ASYMMETRIC_SOFTWARE), (''pkcs11-rsa-pss-sha256'', ASYMMETRIC_HARDWARE_ATTESTED),
      (''pkcs11-ecdsa-sha256'', ASYMMETRIC_HARDWARE_ATTESTED)] s"

definition is_hex_token :: "string \<Rightarrow> bool" where
  "is_hex_token v \<longleftrightarrow> v \<noteq> [] \<and> even (length v) \<and> list_all (\<lambda>c. c \<in> set ''0123456789abcdefABCDEF'') v"

text \<open>Signature and key lengths per scheme; the inner \<open>None\<close> means present, of any length.\<close>

definition SCHEME_MATERIAL :: "(string \<times> nat option \<times> nat option) list" where
  "SCHEME_MATERIAL =
     [(''hmac-sha256'', Some 64, Some 0), (''ed25519-fallback'', Some 128, Some 64), (''pqc-ml-dsa'', None, None),
      (''pkcs11-rsa-pss-sha256'', None, None), (''pkcs11-ecdsa-sha256'', None, None)]"

definition scheme_material_inconsistency :: "audit_node \<Rightarrow> string option" where
  "scheme_material_inconsistency n =
     (case map_of SCHEME_MATERIAL (an_signature_scheme n) of
        None \<Rightarrow> Some ''unrecognised signature scheme''
      | Some (expected_signature, expected_public_key) \<Rightarrow>
          if \<not> is_hex_token (an_signature n) then Some ''signature is not a non-empty even-length hex token''
          else if an_public_key n \<noteq> [] \<and> \<not> is_hex_token (an_public_key n)
          then Some ''public key is not an even-length hex token''
          else if expected_signature \<noteq> None \<and> expected_signature \<noteq> Some (length (an_signature n))
          then Some ''signature length does not match scheme''
          else case expected_public_key of
                 None \<Rightarrow> if an_public_key n = [] then Some ''scheme requires a public key'' else None
               | Some k \<Rightarrow>
                   if k = 0 then (if an_public_key n \<noteq> [] then Some ''scheme does not carry a public key'' else None)
                   else if length (an_public_key n) \<noteq> k then Some ''public key length does not match scheme'' else None)"

definition node_signature_assurance :: "audit_node \<Rightarrow> signature_assurance" where
  "node_signature_assurance n =
     (if scheme_material_inconsistency n \<noteq> None then UNSIGNED
      else case scheme_assurance (an_signature_scheme n) of None \<Rightarrow> UNSIGNED | Some t \<Rightarrow> t)"

definition PINNED_KEY_SCHEMES :: "string list" where
  "PINNED_KEY_SCHEMES = [''pqc-ml-dsa'']"

text \<open>\<open>str.lower\<close> on the characters a key is made of.\<close>

definition lower_char :: "char \<Rightarrow> char" where
  "lower_char c =
     (if (65 :: nat) \<le> of_char c \<and> of_char c \<le> (90 :: nat) then char_of (of_char c + 32 :: nat) else c)"

definition lower :: "string \<Rightarrow> string" where
  "lower = map lower_char"

definition pinned_assurance :: "string list option \<Rightarrow> audit_node \<Rightarrow> signature_assurance" where
  "pinned_assurance trusted_keys n =
     (case trusted_keys of
        None \<Rightarrow> node_signature_assurance n
      | Some ks \<Rightarrow>
          if an_signature_scheme n \<in> set PINNED_KEY_SCHEMES \<and> lower (an_public_key n) \<notin> set ks
          then UNSIGNED else node_signature_assurance n)"

definition chain_signature_assurance :: "audit_node list \<Rightarrow> string list option \<Rightarrow> signature_assurance option" where
  "chain_signature_assurance ns trusted_keys =
     (case map (pinned_assurance trusted_keys) ns of [] \<Rightarrow> None | t # ts \<Rightarrow> Some (fold min ts t))"

text \<open>The keys given as a list of strings.\<close>

definition normalise_trusted_public_keys :: "string list option \<Rightarrow> string list res" where
  "normalise_trusted_public_keys keys =
     (case keys of
        None \<Rightarrow> Inr []
      | Some ks \<Rightarrow>
          map_res (\<lambda>k. if \<not> is_hex_token (strip k)
                       then Inl (ValueError ''trusted_public_keys entries must be non-empty hex-encoded keys'')
                       else Inr (lower (strip k))) ks)"

subsection \<open>The signed bytes\<close>

definition NODE_STATUS_COMMITTED :: string where
  "NODE_STATUS_COMMITTED = ''committed''"

definition NODE_STATUS_REJECTED :: string where
  "NODE_STATUS_REJECTED = ''rejected''"

definition validate_node_status :: "string \<Rightarrow> string res" where
  "validate_node_status s =
     (if s \<notin> {NODE_STATUS_COMMITTED, NODE_STATUS_REJECTED} then Inl (ValueError ''status must be one of the statuses'')
      else Inr s)"

definition validate_signature_scheme :: "string \<Rightarrow> string res" where
  "validate_signature_scheme s =
     (if map_of SCHEME_MATERIAL s = None then Inl (ValueError ''signature scheme is not one this codebase writes'')
      else Inr s)"

text \<open>Floats nested anywhere in a document must be finite.\<close>

fun finite_json :: "pyval \<Rightarrow> bool" where
  "finite_json (PNonFinite _) = False"
| "finite_json (PList xs) = list_all finite_json xs"
| "finite_json (PDict kvs) = list_all (\<lambda>kv. finite_json (snd kv)) kvs"
| "finite_json _ = True"

definition require_finite_json :: "pyval \<Rightarrow> unit res" where
  "require_finite_json v =
     (if finite_json v then Inr () else Inl (ValueError ''field contains a non-finite float''))"

definition part11_annotation_token :: "string \<Rightarrow> string \<Rightarrow> string" where
  "part11_annotation_token signer_name signature_meaning =
     hexdigest (encode (signer_name @ [CHR 0x00] @ signature_meaning))"

record signed_fields =
  sf_prev_hash :: string
  sf_merkle_root :: string
  sf_request_hash :: string
  sf_response_hash :: string
  sf_waf_verdict :: string
  sf_signer_name :: string
  sf_signature_meaning :: string
  sf_status :: string

definition base_fields :: "signed_fields \<Rightarrow> string list" where
  "base_fields f = [sf_prev_hash f, sf_merkle_root f, sf_request_hash f, sf_response_hash f]"

definition verdict_field :: "string \<Rightarrow> string list" where
  "verdict_field v = (if v \<noteq> WAF_VERDICT_UNRECORDED then [v] else [])"

definition annotation_field :: "signed_fields \<Rightarrow> string list" where
  "annotation_field f =
     (if sf_signer_name f \<noteq> [] \<or> sf_signature_meaning f \<noteq> []
      then [part11_annotation_token (sf_signer_name f) (sf_signature_meaning f)] else [])"

definition status_field :: "string \<Rightarrow> string list" where
  "status_field s = (if s \<noteq> NODE_STATUS_COMMITTED then [s] else [])"

definition build_signed_payload :: "signed_fields \<Rightarrow> string \<Rightarrow> bytes res" where
  "build_signed_payload f scheme =
     bind_res (validate_waf_verdict (sf_waf_verdict f)) (\<lambda>v.
       bind_res (validate_node_status (sf_status f)) (\<lambda>s.
         bind_res (if scheme \<noteq> [] then bind_res (validate_signature_scheme scheme) (\<lambda>x. Inr [x]) else Inr []) (\<lambda>sch.
           Inr (encode (bar_join (base_fields f @ verdict_field v @ annotation_field f @ status_field s @ sch))))))"

definition build_prebinding_signed_payload :: "signed_fields \<Rightarrow> bytes res" where
  "build_prebinding_signed_payload f =
     bind_res (validate_waf_verdict (sf_waf_verdict f)) (\<lambda>v.
       Inr (encode (bar_join (base_fields f @ verdict_field v))))"

definition fields_of_node :: "audit_node \<Rightarrow> signed_fields" where
  "fields_of_node n =
     \<lparr>sf_prev_hash = an_prev_hash n, sf_merkle_root = an_merkle_root n, sf_request_hash = an_request_hash n,
      sf_response_hash = an_response_hash n, sf_waf_verdict = an_waf_verdict n, sf_signer_name = an_signer_name n,
      sf_signature_meaning = an_signature_meaning n, sf_status = an_status n\<rparr>"

definition signed_payload_candidates_for :: "audit_node \<Rightarrow> bytes list res" where
  "signed_payload_candidates_for n =
     (let f = fields_of_node n in
      bind_res (build_signed_payload f []) (\<lambda>annotated.
        bind_res (build_prebinding_signed_payload f) (\<lambda>prebinding.
          bind_res (if map_of SCHEME_MATERIAL (an_signature_scheme n) \<noteq> None
                    then bind_res (build_signed_payload f (an_signature_scheme n)) (\<lambda>c. Inr [c]) else Inr []) (\<lambda>cs.
            Inr (fold (\<lambda>c acc. if c \<in> set acc then acc else acc @ [c]) [annotated, prebinding] cs)))))"

definition hmac_sign :: "string \<Rightarrow> bytes \<Rightarrow> string" where
  "hmac_sign signing_key data = hex (hmac_sha256 (encode signing_key) data)"

definition hmac_verify :: "string \<Rightarrow> bytes \<Rightarrow> string \<Rightarrow> bool" where
  "hmac_verify signing_key data expected_hex \<longleftrightarrow> hmac_sign signing_key data = expected_hex"

end
