(* ===== verification/Audit_Binding.thy ===== *)
theory Audit_Binding
  imports Audit_Node
begin

section \<open>What a node's hash and signature commit to\<close>

text \<open>
  The fields of a node are joined by \<open>|\<close> before they are hashed or signed. For fields that
  do not contain the delimiter the joined text determines every field and every optional
  one; for fields that do, it does not, and the two places where that matters are shown.
\<close>

abbreviation no_bar :: "string \<Rightarrow> bool" where
  "no_bar s \<equiv> CHR ''|'' \<notin> set s"

lemma bar_join_Cons: "xs \<noteq> [] \<Longrightarrow> bar_join (x # xs) = x @ CHR ''|'' # bar_join xs"
  by (cases xs) simp_all

lemma bar_join_append: "xs \<noteq> [] \<Longrightarrow> ys \<noteq> [] \<Longrightarrow> bar_join (xs @ ys) = bar_join xs @ CHR ''|'' # bar_join ys"
  by (induction xs rule: bar_join.induct) (simp_all add: bar_join_Cons)

lemma bar_in_join: "x # y # ys = zs \<Longrightarrow> \<not> no_bar (bar_join zs)"
  by auto

lemma bar_join_inj:
  "bar_join xs = bar_join ys \<Longrightarrow> xs \<noteq> [] \<Longrightarrow> ys \<noteq> [] \<Longrightarrow> list_all no_bar xs \<Longrightarrow> list_all no_bar ys \<Longrightarrow> xs = ys"
proof (induction xs arbitrary: ys rule: bar_join.induct)
  case (2 x)
  then show ?case by (cases ys rule: bar_join.cases) auto
next
  case (3 x y zs)
  then obtain u v ws where ys: "ys = u # v # ws"
    by (cases ys rule: bar_join.cases) auto
  with "3.prems" sep_split [of x "CHR ''|''" "bar_join (y # zs)" u "bar_join (v # ws)"]
  have "x = u" "bar_join (y # zs) = bar_join (v # ws)" by simp_all
  with "3.IH" [of "v # ws"] "3.prems" ys show ?case by simp
qed simp

subsection \<open>The optional fields are words of disjoint vocabularies\<close>

definition optional :: "(string \<Rightarrow> bool) \<Rightarrow> string list \<Rightarrow> bool" where
  "optional A xs \<longleftrightarrow> xs = [] \<or> (\<exists>a. A a \<and> xs = [a])"

lemma optional_split:
  assumes "x @ r = y @ q" and "optional A x" and "optional A y" and "list_all (\<lambda>w. \<not> A w) r" and "list_all (\<lambda>w. \<not> A w) q"
  shows "x = y \<and> r = q"
  using assms by (auto simp: optional_def Cons_eq_append_conv)

definition verdict_word :: "string \<Rightarrow> bool" where
  "verdict_word w \<longleftrightarrow> w = ''passed'' \<or> w = ''blocked''"

definition token_word :: "string \<Rightarrow> bool" where
  "token_word w \<longleftrightarrow> length w = 64"

definition status_word :: "string \<Rightarrow> bool" where
  "status_word w \<longleftrightarrow> w = ''rejected''"

definition scheme_word :: "string \<Rightarrow> bool" where
  "scheme_word w \<longleftrightarrow> map_of SCHEME_MATERIAL w \<noteq> None"

lemma scheme_word_cases:
  "scheme_word w \<longleftrightarrow> w \<in> {''hmac-sha256'', ''ed25519-fallback'', ''pqc-ml-dsa'', ''pkcs11-rsa-pss-sha256'', ''pkcs11-ecdsa-sha256''}"
  by (auto simp: scheme_word_def SCHEME_MATERIAL_def)

lemmas word_defs = verdict_word_def token_word_def status_word_def scheme_word_cases

lemma words_disjoint:
  "verdict_word w \<Longrightarrow> \<not> token_word w \<and> \<not> status_word w \<and> \<not> scheme_word w"
  "token_word w \<Longrightarrow> \<not> status_word w \<and> \<not> scheme_word w"
  "status_word w \<Longrightarrow> \<not> scheme_word w"
  by (auto simp: word_defs)

lemma words_no_bar: "verdict_word w \<Longrightarrow> no_bar w" "status_word w \<Longrightarrow> no_bar w" "scheme_word w \<Longrightarrow> no_bar w"
  by (auto simp: word_defs)

lemma hex_no_bar [simp]: "no_bar (hex xs)" "no_bar (hexdigest ys)"
  using hex_chars by (fastforce simp: hex_digits_def hexdigest_def)+

lemma length_hexdigest [simp]: "length (hexdigest x) = 64"
  by (simp add: hexdigest_def)

lemma token_word_token [simp]: "token_word (part11_annotation_token a b)" "no_bar (part11_annotation_token a b)"
  by (simp_all add: token_word_def part11_annotation_token_def)

lemma optional_fields:
  "validate_waf_verdict v = Inr v' \<Longrightarrow> v' = v \<and> optional verdict_word (verdict_field v)"
  "optional token_word (annotation_field f)"
  "validate_node_status s = Inr s' \<Longrightarrow> s' = s \<and> optional status_word (status_field s)"
  by (auto simp: optional_def validate_waf_verdict_def WAF_VERDICTS_def verdict_defs verdict_word_def verdict_field_def
      annotation_field_def validate_node_status_def status_word_def status_field_def NODE_STATUS_COMMITTED_def
      NODE_STATUS_REJECTED_def split: if_splits)

lemma optional_no_bar: "optional A xs \<Longrightarrow> (\<And>w. A w \<Longrightarrow> no_bar w) \<Longrightarrow> list_all no_bar xs"
  by (auto simp: optional_def)

lemma optional_all: "optional A xs \<Longrightarrow> (\<And>w. A w \<Longrightarrow> P w) \<Longrightarrow> list_all P xs"
  by (auto simp: optional_def)

lemma annotation_no_bar: "list_all no_bar (annotation_field f)"
  by (simp add: annotation_field_def)

text \<open>The four optional groups of a payload can be read off their concatenation.\<close>

lemma options_inj:
  assumes "v @ a @ s @ c = v' @ a' @ s' @ c'"
    and "optional verdict_word v" "optional token_word a" "optional status_word s" "optional scheme_word c"
    and "optional verdict_word v'" "optional token_word a'" "optional status_word s'" "optional scheme_word c'"
  shows "v = v' \<and> a = a' \<and> s = s' \<and> c = c'"
proof -
  have "list_all (\<lambda>w. \<not> verdict_word w) xs" if "optional token_word xs \<or> optional status_word xs \<or> optional scheme_word xs" for xs
    using that words_disjoint(1) by (auto simp: optional_def)
  then have 1: "list_all (\<lambda>w. \<not> verdict_word w) (a @ s @ c)" "list_all (\<lambda>w. \<not> verdict_word w) (a' @ s' @ c')"
    using assms(3,4,5,7,8,9) by simp_all
  have "list_all (\<lambda>w. \<not> token_word w) xs" if "optional status_word xs \<or> optional scheme_word xs" for xs
    using that words_disjoint(2) by (auto simp: optional_def)
  then have 2: "list_all (\<lambda>w. \<not> token_word w) (s @ c)" "list_all (\<lambda>w. \<not> token_word w) (s' @ c')"
    using assms(4,5,8,9) by simp_all
  have 3: "list_all (\<lambda>w. \<not> status_word w) c" "list_all (\<lambda>w. \<not> status_word w) c'"
    using assms(5,9) words_disjoint(3) by (auto simp: optional_def)
  from optional_split [OF assms(1,2,6) 1] have "v = v'" and r1: "a @ s @ c = a' @ s' @ c'" by simp_all
  moreover from optional_split [OF r1 assms(3,7) 2] have "a = a'" and r2: "s @ c = s' @ c'" by simp_all
  moreover from optional_split [OF r2 assms(4,8) 3] have "s = s'" "c = c'" by simp_all
  ultimately show ?thesis by simp
qed

text \<open>A payload, with the groups it was joined from.\<close>

lemma signed_payload_shape:
  assumes "build_signed_payload f scheme = Inr p"
  shows "\<exists>c. p = encode (bar_join (base_fields f @ verdict_field (sf_waf_verdict f) @ annotation_field f
            @ status_field (sf_status f) @ c))
     \<and> optional verdict_word (verdict_field (sf_waf_verdict f)) \<and> optional status_word (status_field (sf_status f))
     \<and> c = (if scheme = [] then [] else [scheme]) \<and> optional scheme_word c"
proof -
  from assms obtain v s c where v: "validate_waf_verdict (sf_waf_verdict f) = Inr v"
    and s: "validate_node_status (sf_status f) = Inr s"
    and c: "(if scheme \<noteq> [] then bind_res (validate_signature_scheme scheme) (\<lambda>x. Inr [x]) else Inr []) = Inr c"
    and p: "p = encode (bar_join (base_fields f @ verdict_field v @ annotation_field f @ status_field s @ c))"
    unfolding build_signed_payload_def bind_res_eq_Inr by auto
  have "c = (if scheme = [] then [] else [scheme]) \<and> optional scheme_word c"
    using c by (auto simp: validate_signature_scheme_def optional_def scheme_word_def split: if_splits)
  with p optional_fields(1) [OF v] optional_fields(3) [OF s] show ?thesis by auto
qed

lemma candidate_cases:
  assumes "signed_payload_candidates_for n = Inr cs" and "p \<in> set cs"
  shows "(\<exists>scheme \<in> {[], an_signature_scheme n}. build_signed_payload (fields_of_node n) scheme = Inr p)
     \<or> build_prebinding_signed_payload (fields_of_node n) = Inr p"
  using assms by (auto simp: signed_payload_candidates_for_def bind_res_eq_Inr Let_def split: if_splits)

lemma prebinding_shape:
  assumes "build_prebinding_signed_payload f = Inr p"
  shows "p = encode (bar_join (base_fields f @ verdict_field (sf_waf_verdict f) @ [] @ [] @ []))
     \<and> optional verdict_word (verdict_field (sf_waf_verdict f))"
  using assms optional_fields(1) by (auto simp: build_prebinding_signed_payload_def bind_res_eq_Inr)

lemma payload_fields_inj:
  assumes eq: "bar_join (base_fields f @ v @ a @ s @ c) = bar_join (base_fields g @ v' @ a' @ s' @ c')"
    and "optional verdict_word v" "optional token_word a" "optional status_word s" "optional scheme_word c"
    and "optional verdict_word v'" "optional token_word a'" "optional status_word s'" "optional scheme_word c'"
    and "list_all no_bar a" "list_all no_bar a'" "list_all no_bar (base_fields f)" "list_all no_bar (base_fields g)"
  shows "base_fields f = base_fields g \<and> v = v' \<and> a = a' \<and> s = s' \<and> c = c'"
proof -
  have "base_fields f @ (v @ a @ s @ c) = base_fields g @ (v' @ a' @ s' @ c')"
    using assms words_no_bar optional_no_bar
    by (intro bar_join_inj [OF eq]) (simp_all add: base_fields_def)
  moreover have "length (base_fields f) = length (base_fields g)" by (simp add: base_fields_def)
  ultimately have "base_fields f = base_fields g" and opts: "v @ a @ s @ c = v' @ a' @ s' @ c'" by simp_all
  with options_inj [OF opts assms(2-9)] show ?thesis by blast
qed

lemma verdict_field_inj: "verdict_field v = verdict_field w \<Longrightarrow> v = w"
  by (auto simp: verdict_field_def split: if_splits)

lemma status_field_inj: "status_field v = status_field w \<Longrightarrow> v = w"
  by (auto simp: status_field_def split: if_splits)

lemma base_fields_inj: "base_fields f = base_fields g \<longleftrightarrow>
    sf_prev_hash f = sf_prev_hash g \<and> sf_merkle_root f = sf_merkle_root g
    \<and> sf_request_hash f = sf_request_hash g \<and> sf_response_hash f = sf_response_hash g"
  by (simp add: base_fields_def)

text \<open>The text the annotation token is the digest of: the signer, a NUL, and the meaning.\<close>

definition annotation_text :: "signed_fields \<Rightarrow> string" where
  "annotation_text f = sf_signer_name f @ [CHR 0x00] @ sf_signature_meaning f"

lemma annotation_text_inj:
  assumes "annotation_text f = annotation_text g" and "CHR 0x00 \<notin> set (sf_signer_name f) \<and> CHR 0x00 \<notin> set (sf_signer_name g)"
  shows "sf_signer_name f = sf_signer_name g \<and> sf_signature_meaning f = sf_signature_meaning g"
  using assms sep_split [of "sf_signer_name f" "CHR 0x00" "sf_signature_meaning f" "sf_signer_name g" "sf_signature_meaning g"]
  by (simp add: annotation_text_def)

lemma annotation_field_inj:
  assumes "annotation_field f = annotation_field g"
  shows "annotation_text f = annotation_text g \<or> sha_collision (encode (annotation_text f)) (encode (annotation_text g))"
  using assms
  by (auto simp: annotation_field_def annotation_text_def part11_annotation_token_def sha_collision_def hexdigest_def hex_inj
      simp del: encode_append split: if_splits)

text \<open>
  The docstring of the token says that any change to either value changes it. A NUL that
  moves from the name to the meaning does not: two annotations with different signers have
  one token, and the signed payloads are equal.
\<close>

lemma annotation_nul_shift:
  assumes "sf_signer_name f = a @ [CHR 0x00] @ b" and "sf_signature_meaning f = c"
  shows "build_signed_payload (f\<lparr>sf_signer_name := a, sf_signature_meaning := b @ [CHR 0x00] @ c\<rparr>) scheme
    = build_signed_payload f scheme"
  using assms
  by (simp add: build_signed_payload_def base_fields_def annotation_field_def part11_annotation_token_def)

text \<open>
  C29. The signed bytes bind every labelled field: let \<open>p\<close> be the bytes a record was signed
  over, with its scheme, and let \<open>p\<close> be one of the three payloads the verifier tries for a
  node. If the previous hash, the root and the two body digests are free of the delimiter
  \<open>|\<close>, in the record and in the node, the node has the same previous hash, root, request and
  response digests, verdict, status and scheme as the record. It has the same signer and
  meaning too when neither signer's name contains a NUL, and in every case the same text
  signer, NUL, meaning, unless the two texts are a collision of SHA-256.
\<close>

theorem signed_payload_binds:
  assumes "build_signed_payload f scheme = Inr p" and "scheme \<noteq> []"
    and "signed_payload_candidates_for n = Inr cs" and "p \<in> set cs"
    and "list_all no_bar (base_fields f)" and "list_all no_bar (base_fields (fields_of_node n))"
  shows "an_prev_hash n = sf_prev_hash f \<and> an_merkle_root n = sf_merkle_root f
     \<and> an_request_hash n = sf_request_hash f \<and> an_response_hash n = sf_response_hash f
     \<and> an_waf_verdict n = sf_waf_verdict f \<and> an_status n = sf_status f \<and> an_signature_scheme n = scheme
     \<and> (sha_collision (encode (annotation_text f)) (encode (annotation_text (fields_of_node n)))
        \<or> annotation_text (fields_of_node n) = annotation_text f
          \<and> (CHR 0x00 \<notin> set (an_signer_name n) \<and> CHR 0x00 \<notin> set (sf_signer_name f)
               \<longrightarrow> an_signer_name n = sf_signer_name f \<and> an_signature_meaning n = sf_signature_meaning f))"
proof -
  let ?g = "fields_of_node n"
  have empty: "optional A []" for A by (simp add: optional_def)
  from signed_payload_shape [OF assms(1)] assms(2)
  have p: "p = encode (bar_join (base_fields f @ verdict_field (sf_waf_verdict f) @ annotation_field f
        @ status_field (sf_status f) @ [scheme]))"
    and o: "optional verdict_word (verdict_field (sf_waf_verdict f))" "optional status_word (status_field (sf_status f))"
      "optional scheme_word [scheme]"
    by auto
  from candidate_cases [OF assms(3,4)] consider
      (current) sch where "build_signed_payload ?g sch = Inr p" "sch \<in> {[], an_signature_scheme n}"
    | (old) "build_prebinding_signed_payload ?g = Inr p" by blast
  then show ?thesis
  proof cases
    case current
    from signed_payload_shape [OF current(1)] obtain c where
      q: "p = encode (bar_join (base_fields ?g @ verdict_field (sf_waf_verdict ?g) @ annotation_field ?g
        @ status_field (sf_status ?g) @ c))"
      and o': "optional verdict_word (verdict_field (sf_waf_verdict ?g))" "optional status_word (status_field (sf_status ?g))"
        "optional scheme_word c" and c: "c = (if sch = [] then [] else [sch])"
      by auto
    from p q have "bar_join (base_fields f @ verdict_field (sf_waf_verdict f) @ annotation_field f @ status_field (sf_status f) @ [scheme])
      = bar_join (base_fields ?g @ verdict_field (sf_waf_verdict ?g) @ annotation_field ?g @ status_field (sf_status ?g) @ c)"
      by simp
    from payload_fields_inj [OF this o(1) optional_fields(2) o(2,3) o'(1) optional_fields(2) o'(2,3)
        annotation_no_bar annotation_no_bar assms(5,6)] c current(2)
    have "base_fields f = base_fields ?g" "verdict_field (sf_waf_verdict f) = verdict_field (sf_waf_verdict ?g)"
      "annotation_field f = annotation_field ?g" "status_field (sf_status f) = status_field (sf_status ?g)"
      "an_signature_scheme n = scheme"
      by (auto split: if_splits)
    moreover from annotation_field_inj [OF this(3)] have
      "sha_collision (encode (annotation_text f)) (encode (annotation_text ?g)) \<or> annotation_text ?g = annotation_text f
          \<and> (CHR 0x00 \<notin> set (sf_signer_name ?g) \<and> CHR 0x00 \<notin> set (sf_signer_name f)
               \<longrightarrow> sf_signer_name ?g = sf_signer_name f \<and> sf_signature_meaning ?g = sf_signature_meaning f)"
      using annotation_text_inj [of ?g f] by auto
    moreover have "sf_signer_name ?g = an_signer_name n" "sf_signature_meaning ?g = an_signature_meaning n"
      by (simp_all add: fields_of_node_def)
    moreover have "base_fields f = base_fields ?g \<Longrightarrow> an_prev_hash n = sf_prev_hash f \<and> an_merkle_root n = sf_merkle_root f
      \<and> an_request_hash n = sf_request_hash f \<and> an_response_hash n = sf_response_hash f"
      by (auto simp: base_fields_inj fields_of_node_def)
    moreover have "sf_waf_verdict ?g = an_waf_verdict n" "sf_status ?g = an_status n" by (simp_all add: fields_of_node_def)
    ultimately show ?thesis using verdict_field_inj status_field_inj by metis
  next
    case old
    from prebinding_shape [OF old] have
      q: "p = encode (bar_join (base_fields ?g @ verdict_field (sf_waf_verdict ?g) @ [] @ [] @ []))"
      and o': "optional verdict_word (verdict_field (sf_waf_verdict ?g))" by auto
    from p q have "bar_join (base_fields f @ verdict_field (sf_waf_verdict f) @ annotation_field f @ status_field (sf_status f) @ [scheme])
      = bar_join (base_fields ?g @ verdict_field (sf_waf_verdict ?g) @ [] @ [] @ [])"
      by (simp only: encode_inj)
    from payload_fields_inj [OF this o(1) optional_fields(2) o(2,3) o' empty empty empty
        annotation_no_bar _ assms(5,6)]
    show ?thesis by simp
  qed
qed

definition sample_node :: audit_node where
  "sample_node =
     \<lparr>an_state_id = ''r1'', an_timestamp = Fin 0, an_entropy = Fin 0, an_tenant_id = ''t'', an_sampling_params = PDict [],
      an_prev_hash = ''00'', an_merkle_root = ''11'', an_signature = [], an_signature_scheme = ''hmac-sha256'', an_public_key = [],
      an_request_hash = ''22'', an_response_hash = ''33'', an_model = ''m'', an_endpoint = ''chat'', an_token_trail_count = 0,
      an_is_fallback = False, an_phi_scrubbed = False, an_scrub_method = [], an_signer_name = ''a'',
      an_signature_meaning = ''review'', an_audit_trail_version = ''1'', an_status = NODE_STATUS_REJECTED,
      an_mmr_leaf_hash = [], an_mmr_leaf_index = - 1, an_mmr_leaf_count = 0, an_mmr_proof = PNone,
      an_sealed_subject_id = [], an_sealed_nonce = [], an_sealed_ciphertext = [], an_shredding_version = [],
      an_waf_verdict = ''passed'', an_creation_hash = []\<rparr>"

theorem signed_payload_binds_witness:
  "\<exists>p cs. build_signed_payload (fields_of_node sample_node) ''hmac-sha256'' = Inr p
     \<and> signed_payload_candidates_for sample_node = Inr cs \<and> p \<in> set cs
     \<and> (sha_collision (encode (annotation_text (fields_of_node sample_node))) (encode (annotation_text (fields_of_node sample_node)))
        \<or> an_signer_name sample_node = sf_signer_name (fields_of_node sample_node))
     \<and> CHR 0x00 \<notin> set (an_signer_name sample_node)"
proof -
  have "\<exists>p cs. build_signed_payload (fields_of_node sample_node) ''hmac-sha256'' = Inr p
     \<and> signed_payload_candidates_for sample_node = Inr cs \<and> p \<in> set cs"
    by (simp add: signed_payload_candidates_for_def build_signed_payload_def build_prebinding_signed_payload_def
        sample_node_def fields_of_node_def validate_waf_verdict_def validate_node_status_def validate_signature_scheme_def
        SCHEME_MATERIAL_def WAF_VERDICTS_def verdict_defs Let_def)
  then obtain p cs where *: "build_signed_payload (fields_of_node sample_node) ''hmac-sha256'' = Inr p"
    "signed_payload_candidates_for sample_node = Inr cs" "p \<in> set cs" by blast
  have "list_all no_bar (base_fields (fields_of_node sample_node))"
    by (simp add: base_fields_def fields_of_node_def sample_node_def)
  moreover have "CHR 0x00 \<notin> set (an_signer_name sample_node)" "sf_signer_name (fields_of_node sample_node) = an_signer_name sample_node"
    by (simp_all add: sample_node_def fields_of_node_def)
  ultimately show ?thesis using signed_payload_binds [OF *(1) _ *(2,3)] * by auto
qed

end
