(* ===== verification/Accumulator.thy ===== *)
theory Accumulator
  imports Mmr_Json
begin

section \<open>The accumulator as the ledger sees it\<close>

text \<open>
  What the ledger relies on when it appends a leaf inside a commit: the append succeeds on a
  digest, it can be undone exactly, and a proof can be issued for the new leaf that the
  offline check accepts. The interface is the locale \<open>accumulator\<close>; \<open>replayable\<close> adds that
  the root is a function of the appended digests. Both are interpreted on the Merkle Mountain
  Range.
\<close>

locale accumulator =
  fixes valid :: "'m \<Rightarrow> bool"
    and append :: "'m \<Rightarrow> string \<Rightarrow> (string \<times> 'm) res"
    and count :: "'m \<Rightarrow> nat"
    and mark :: "'m \<Rightarrow> 'c"
    and undo :: "'m \<Rightarrow> 'c \<Rightarrow> 'm res"
    and same :: "'m \<Rightarrow> 'm \<Rightarrow> bool"
    and issue :: "'m \<Rightarrow> int \<Rightarrow> 'd res"
    and accepts :: "string \<Rightarrow> int \<Rightarrow> int \<Rightarrow> string \<Rightarrow> 'd \<Rightarrow> bool res"
    and is_digest :: "string \<Rightarrow> bool"
  assumes append_ok: "valid m \<Longrightarrow> is_digest h \<Longrightarrow>
      \<exists>r m'. append m h = Inr (r, m') \<and> valid m' \<and> count m' = Suc (count m) \<and> is_digest r"
    and append_digest: "append m h = Inr (r, m') \<Longrightarrow> is_digest h"
    and undo_append: "valid m \<Longrightarrow> append m h = Inr (r, m') \<Longrightarrow>
      \<exists>m''. undo m' (mark m) = Inr m'' \<and> same m m'' \<and> valid m''"
    and issue_accepted: "valid m \<Longrightarrow> append m h = Inr (r, m') \<Longrightarrow>
      \<exists>d. issue m' (int (count m)) = Inr d \<and> accepts h (int (count m)) (int (count m')) r d = Inr True"
begin

text \<open>A commit's use of the accumulator: append, prove the new leaf, and be able to go back.\<close>

lemma transaction:
  assumes "valid m" and "is_digest h"
  shows "\<exists>r m' d m''. append m h = Inr (r, m') \<and> valid m' \<and> count m' = Suc (count m) \<and> is_digest r
     \<and> issue m' (int (count m' - 1)) = Inr d \<and> accepts h (int (count m' - 1)) (int (count m')) r d = Inr True
     \<and> undo m' (mark m) = Inr m'' \<and> same m m'' \<and> valid m''"
proof -
  from append_ok [OF assms] obtain r m' where
    a: "append m h = Inr (r, m')" "valid m'" "count m' = Suc (count m)" "is_digest r" by blast
  from issue_accepted [OF assms(1) a(1)] obtain d where
    "issue m' (int (count m)) = Inr d" "accepts h (int (count m)) (int (count m')) r d = Inr True" by blast
  moreover from undo_append [OF assms(1) a(1)] obtain m'' where
    "undo m' (mark m) = Inr m''" "same m m''" "valid m''" by blast
  ultimately show ?thesis using a by auto
qed

end

locale replayable = accumulator +
  fixes holding :: "'a \<Rightarrow> string list \<Rightarrow> bool"
    and kind :: "'a \<Rightarrow> 'k"
    and root_of :: "'k \<Rightarrow> string list \<Rightarrow> string"
  assumes holding_valid: "holding m ls \<Longrightarrow> valid m \<and> count m = length ls"
    and append_holding: "holding m ls \<Longrightarrow> append m h = Inr (r, m') \<Longrightarrow>
      holding m' (ls @ [h]) \<and> kind m' = kind m \<and> r = root_of (kind m) (ls @ [h])"
    and undo_holding: "holding m ls \<Longrightarrow> append m h = Inr (r, m') \<Longrightarrow> undo m' (mark m) = Inr m'' \<Longrightarrow>
      holding m'' ls \<and> kind m'' = kind m"
begin

fun replay :: "'a \<Rightarrow> (string \<times> string) list \<Rightarrow> (bool \<times> 'a) res" where
  "replay m [] = Inr (True, m)"
| "replay m ((h, recorded) # rest) =
     bind_res (append m h) (\<lambda>(r, m'). if r \<noteq> recorded then Inr (False, m') else replay m' rest)"

fun recorded_roots :: "'k \<Rightarrow> string list \<Rightarrow> (string \<times> string) list \<Rightarrow> bool" where
  "recorded_roots k ls [] = True"
| "recorded_roots k ls ((h, r) # rest) \<longleftrightarrow> is_digest h \<and> r = root_of k (ls @ [h]) \<and> recorded_roots k (ls @ [h]) rest"

text \<open>Replaying digests meets the roots recorded when they were first appended.\<close>

lemma replay_recorded:
  "holding m ls \<Longrightarrow> recorded_roots (kind m) ls xs \<Longrightarrow>
     \<exists>m'. replay m xs = Inr (True, m') \<and> holding m' (ls @ map fst xs) \<and> kind m' = kind m"
proof (induction xs arbitrary: m ls)
  case (Cons x xs)
  obtain h r where x: "x = (h, r)" by force
  with Cons.prems append_ok [of m h] holding_valid obtain r' m1 where m1: "append m h = Inr (r', m1)" by auto
  from append_holding [OF Cons.prems(1) m1] have h1: "holding m1 (ls @ [h])" "kind m1 = kind m"
    "r' = root_of (kind m) (ls @ [h])" by simp_all
  from Cons.IH [OF h1(1)] Cons.prems(2) x h1(2) obtain m2 where
    "replay m1 xs = Inr (True, m2)" "holding m2 ((ls @ [h]) @ map fst xs)" "kind m2 = kind m1" by auto
  with m1 h1 x Cons.prems(2) show ?case by simp
qed simp

lemma recorded_roots_append:
  "recorded_roots k ls (xs @ ys) \<longleftrightarrow> recorded_roots k ls xs \<and> recorded_roots k (ls @ map fst xs) ys"
  by (induction xs arbitrary: ls) auto

lemma recorded_snoc:
  assumes "holding m ls" and "recorded_roots (kind m) [] xs" and "map fst xs = ls" and "append m h = Inr (r, m')"
  shows "recorded_roots (kind m') [] (xs @ [(h, r)])"
  using append_holding [OF assms(1,4)] append_digest [OF assms(4)] assms(2,3)
  by (simp add: recorded_roots_append)

end

subsection \<open>The Merkle Mountain Range\<close>

text \<open>
  Issuing a proof document for a leaf, and the check of a stored document against the index
  and count recorded beside it. A parent walk that has not ended with the given fuel is
  reported as an error; the interpretation shows it does not occur.
\<close>

definition issue_document :: "mmr \<Rightarrow> int \<Rightarrow> (string \<times> pyval) list res" where
  "issue_document m i =
     (case get_portable_inclusion_proof m i of
        None \<Rightarrow> Inl (RuntimeError ''the parent walk has not ended'')
      | Some r \<Rightarrow> bind_res r to_dict)"

fun malformed :: "exn \<Rightarrow> bool" where
  "malformed (ValueError _) = True"
| "malformed (TypeError _) = True"
| "malformed (KeyError _) = True"
| "malformed _ = False"

definition document_accepted :: "string \<Rightarrow> int \<Rightarrow> int \<Rightarrow> string \<Rightarrow> (string \<times> pyval) list \<Rightarrow> bool res" where
  "document_accepted leaf_hash index cnt rt doc =
     (case from_dict doc of
        Inl e \<Rightarrow> if malformed e then Inr False else Inl e
      | Inr p \<Rightarrow>
          if pr_leaf_index p \<noteq> PInt index \<or> pr_leaf_count p \<noteq> PInt cnt then Inr False
          else verify_portable_inclusion_hash leaf_hash p rt)"

lemma tpath_hex: "digests_ok t \<Longrightarrow> list_all (\<lambda>s. is_sha256_hex_str (fst s)) (tpath v2 t j)"
  by (induction t arbitrary: j) (auto simp: thash_hex)

lemma issued_well_typed:
  assumes "represents m ts" and "k < length ts"
  shows "well_typed (issued_proof m ts i k j)"
proof -
  have wf: "list_all wf_tree ts" using assms(1) by (simp add: represents_def wf_forest_def)
  then have "digests_ok (ts ! k)" using assms(2) by (simp add: list_all_length wf_tree_def)
  from tpath_hex [OF this] have "list_all (\<lambda>s. is_sha256_hex (st_sibling_hash s)) (map mk_step (tpath (is_v2 m) (ts ! k) j))"
    by (simp add: list_all_iff mk_step_def)
  moreover have "list_all is_sha256_hex_str (map mn_hash (forest_tops (is_v2 m) 0 ts))"
    using wf by (auto simp: wf_tree_def list_all_iff thash_hex)
  from is_sha256_hexI [OF this]
  have "list_all (\<lambda>q. is_sha256_hex (pk_hash q)) (map mk_peak (forest_tops (is_v2 m) 0 ts))"
    by (auto simp: list_all_iff list_ex_iff)
  ultimately show ?thesis
    by (simp add: well_typed_def issued_proof_def mk_proof_def forest_root_hex)
qed

lemma rollback_next_ref: "rollback_to m ck = Inr m' \<Longrightarrow> next_ref m' = next_ref m"
  by (auto simp: rollback_to_def fold_set_parent_sel Let_def split: if_splits)

lemma append_undone:
  assumes "represents m ts" and "add_leaf_hash m h = Inr (r, m')"
  shows "\<exists>m''. rollback_to m' (checkpoint m) = Inr m'' \<and> same_state m m'' \<and> represents m'' ts"
proof -
  from assms(2) have "is_sha256_hex_str h" by (simp add: add_leaf_hash_def split: if_splits)
  from add_leaf_hash_refines [OF assms(1) this] assms(2) have fr: "frame m m'" by auto
  from rollback_exact [OF assms(1) fr] obtain m'' where
    m'': "rollback_to m' (checkpoint m) = Inr m''" "same_state m m''" by blast
  moreover have "next_ref m \<le> next_ref m''"
    using fr rollback_next_ref [OF m''(1)] by (simp add: frame_def)
  ultimately show ?thesis
    using same_state_represents [OF assms(1)] by blast
qed

lemma document_of_new_leaf:
  assumes rep: "represents m ts" and add: "add_leaf_hash m h = Inr (r, m')"
  shows "\<exists>d. issue_document m' (int (leaf_count m)) = Inr d
     \<and> document_accepted h (int (leaf_count m)) (int (leaf_count m')) r d = Inr True"
proof -
  from add have h: "is_sha256_hex_str h" by (simp add: add_leaf_hash_def split: if_splits)
  let ?us = "push ts (MLeaf h)" and ?i = "leaf_count m"
  from add_leaf_hash_refines [OF rep h] add have r: "r = forest_root (is_v2 m) ?us"
    and rep': "represents m' ?us" and fr: "frame m m'" by auto
  have v: "is_v2 m' = is_v2 m" and base: "leaf_index_base m' = leaf_index_base m"
    using fr by (simp_all add: frame_is_v2 frame_def)
  have cnt: "length (fleaves ts) + leaf_index_base m = leaf_count m"
    using rep length_fleaves [of ts] by (simp add: represents_def wf_forest_def)
  have cnt': "length (fleaves ts) + 1 + leaf_index_base m = leaf_count m'"
    using rep' length_fleaves [of ?us] base by (simp add: represents_def wf_forest_def push_leaves)
  have lo: "leaf_index_base m' \<le> ?i" and hi: "?i < leaf_count m'"
    using cnt cnt' base by linarith+
  obtain q j where loc: "flocate ?us ?i = (q, j)" by force
  let ?p = "issued_proof m' ?us ?i q j"
  have "list_all wf_tree ?us" "sorted (concat (map marks ?us))" "leaf_count m' = mountain_leaves (map ht ?us)"
    "leaf_index_base m' = fpruned ?us"
    using rep' by (simp_all add: represents_def wf_forest_def)
  with flocate_props [OF _ _ _ _ loc, of 0] lo hi have "q < length ?us" by simp
  from document_roundtrip [OF issued_well_typed [OF rep' this]] obtain d where
    d: "to_dict ?p = Inr d" "from_dict d = Inr ?p" by blast
  have "?i - leaf_index_base m' = length (fleaves ts)"
    using cnt base by linarith
  then have "fleaves ?us ! (?i - leaf_index_base m') = h"
    by (simp add: push_leaves)
  with verify_issued [OF rep' lo hi loc normalise_root_forest]
  have "verify_portable_inclusion_hash h ?p r = Inr True" by (simp add: r v)
  with d portable_proof_issued(1) [OF rep' lo hi loc] show ?thesis
    by (auto simp: issue_document_def document_accepted_def issued_proof_def mk_proof_def)
qed

interpretation acc: accumulator mmr_inv add_leaf_hash get_leaf_count checkpoint rollback_to same_state
  issue_document document_accepted is_sha256_hex_str
proof
  fix m h r m'
  show "\<exists>r m'. add_leaf_hash m h = Inr (r, m') \<and> mmr_inv m' \<and> get_leaf_count m' = Suc (get_leaf_count m) \<and> is_sha256_hex_str r"
    if "mmr_inv m" "is_sha256_hex_str h"
  proof -
    from that(1) obtain ts where rep: "represents m ts" by (auto simp: mmr_inv_def)
    from add_leaf_hash_refines [OF rep that(2)] obtain m' where
      a: "add_leaf_hash m h = Inr (forest_root (is_v2 m) (push ts (MLeaf h)), m')" "represents m' (push ts (MLeaf h))" "frame m m'"
      by blast
    have "leaf_count m' = Suc (leaf_count m)"
      using a(2,3) rep length_fleaves [of ts] length_fleaves [of "push ts (MLeaf h)"]
      by (simp add: represents_def wf_forest_def push_leaves frame_def)
    with a show ?thesis by (auto simp: mmr_inv_def get_leaf_count_def forest_root_hex)
  qed
  show "is_sha256_hex_str h" if "add_leaf_hash m h = Inr (r, m')"
    using that by (simp add: add_leaf_hash_def split: if_splits)
  show "\<exists>m''. rollback_to m' (checkpoint m) = Inr m'' \<and> same_state m m'' \<and> mmr_inv m''"
    if "mmr_inv m" "add_leaf_hash m h = Inr (r, m')"
    using that append_undone unfolding mmr_inv_def by blast
  show "\<exists>d. issue_document m' (int (get_leaf_count m)) = Inr d
      \<and> document_accepted h (int (get_leaf_count m)) (int (get_leaf_count m')) r d = Inr True"
    if "mmr_inv m" "add_leaf_hash m h = Inr (r, m')"
    using that document_of_new_leaf unfolding mmr_inv_def get_leaf_count_def by blast
qed

interpretation rep: replayable mmr_inv add_leaf_hash get_leaf_count checkpoint rollback_to same_state
  issue_document document_accepted is_sha256_hex_str holds is_v2 spec_root
proof
  fix m ls h r m' m''
  show "mmr_inv m \<and> get_leaf_count m = length ls" if "holds m ls"
    using that by (simp add: holds_mmr_inv holds_leaf_count get_leaf_count_def)
  show "holds m' (ls @ [h]) \<and> is_v2 m' = is_v2 m \<and> r = spec_root (is_v2 m) (ls @ [h])"
    if "holds m ls" "add_leaf_hash m h = Inr (r, m')"
    using add_leaf_hash_holds [OF that(1) acc.append_digest [OF that(2)]] that(2) by (auto simp: frame_is_v2)
  show "holds m'' ls \<and> is_v2 m'' = is_v2 m"
    if hl: "holds m ls" and "add_leaf_hash m h = Inr (r, m')" "rollback_to m' (checkpoint m) = Inr m''"
  proof -
    from hl obtain ts where "represents m ts" "full ts" "fleaves ts = ls" by (auto simp: holds_def)
    with append_undone [OF _ that(2)] that(3) show ?thesis
      by (auto simp: holds_def same_state_def is_v2_def)
  qed
qed

end
