(* ===== verification/Shredder.thy ===== *)
theory Shredder
  imports Py_Text
begin

section \<open>Cryptographic erasure\<close>

text \<open>
  The model of \<^verbatim>\<open>aegis/core/crypto_shredder.py\<close>: a vault of per-subject keys, sealing under
  the subject's key with the subject as associated data, the keyed digest of a payload,
  opening, and erasure. AES-256-GCM belongs to a third-party package: encryption and
  decryption are arguments, and what is relied on is named \<open>aead_correct\<close>: decrypting what
  was encrypted gives the plaintext. A fresh key and a nonce come from the environment; storing a key may fail.
\<close>

type_synonym vault = "string \<Rightarrow> bytes option"
type_synonym aead_enc = "bytes \<Rightarrow> bytes \<Rightarrow> bytes \<Rightarrow> bytes \<Rightarrow> bytes"
type_synonym aead_dec = "bytes \<Rightarrow> bytes \<Rightarrow> bytes \<Rightarrow> bytes \<Rightarrow> bytes option"

definition SHRED_SCHEME_V1 :: string where
  "SHRED_SCHEME_V1 = ''v1-aesgcm256-sha256''"

definition SHRED_SCHEME_V2 :: string where
  "SHRED_SCHEME_V2 = ''v2-aesgcm256-hmacsha256''"

definition SHRED_SCHEME_UNSEALED :: string where
  "SHRED_SCHEME_UNSEALED = []"

definition DOMAIN_COMMITMENT :: bytes where
  "DOMAIN_COMMITMENT = [0]"

definition DIGEST_SALT_INFO :: bytes where
  "DIGEST_SALT_INFO = encode ''aegis-shred-digest-salt-v1''"

record sealed_payload =
  sp_subject_id :: string
  sp_nonce :: bytes
  sp_ciphertext :: bytes

definition commitment :: "sealed_payload \<Rightarrow> bytes" where
  "commitment s = sha256 (DOMAIN_COMMITMENT @ sp_nonce s @ sp_ciphertext s)"

definition commitment_hex :: "sealed_payload \<Rightarrow> string" where
  "commitment_hex s = hex (commitment s)"

definition seal_scheme :: "sealed_payload \<Rightarrow> string" where
  "seal_scheme s = SHRED_SCHEME_V2"

definition key_for_seal :: "bytes res \<Rightarrow> string \<Rightarrow> vault \<Rightarrow> bytes res \<times> vault" where
  "key_for_seal fresh subject_id v =
     (case v subject_id of
        Some k \<Rightarrow> (Inr k, v)
      | None \<Rightarrow> (case fresh of Inl e \<Rightarrow> (Inl e, v) | Inr k \<Rightarrow> (Inr k, v(subject_id \<mapsto> k))))"

definition seal :: "aead_enc \<Rightarrow> bytes res \<Rightarrow> bytes \<Rightarrow> string \<Rightarrow> bytes \<Rightarrow> vault \<Rightarrow> sealed_payload res \<times> vault" where
  "seal enc fresh nonce subject_id plaintext v =
     (if subject_id = [] then (Inl (ValueError ''subject_id must not be empty''), v)
      else case key_for_seal fresh subject_id v of
             (Inl e, v') \<Rightarrow> (Inl e, v')
           | (Inr key, v') \<Rightarrow>
               (Inr \<lparr>sp_subject_id = subject_id, sp_nonce = nonce,
                     sp_ciphertext = enc key nonce plaintext (encode subject_id)\<rparr>, v'))"

definition keyed_digest :: "bytes \<Rightarrow> bytes \<Rightarrow> string" where
  "keyed_digest key data = hex (hmac_sha256 (hmac_sha256 key DIGEST_SALT_INFO) data)"

definition digest :: "bytes res \<Rightarrow> string \<Rightarrow> bytes \<Rightarrow> vault \<Rightarrow> string res \<times> vault" where
  "digest fresh subject_id data v =
     (if subject_id = [] then (Inl (ValueError ''subject_id must not be empty''), v)
      else case key_for_seal fresh subject_id v of
             (Inl e, v') \<Rightarrow> (Inl e, v')
           | (Inr key, v') \<Rightarrow> (Inr (keyed_digest key data), v'))"

definition key_destroyed :: exn where
  "key_destroyed = RuntimeError ''ShredderKeyDestroyedError''"

definition integrity_error :: exn where
  "integrity_error = RuntimeError ''ShredderIntegrityError''"

definition open_sealed :: "aead_dec \<Rightarrow> sealed_payload \<Rightarrow> vault \<Rightarrow> bytes res" where
  "open_sealed dec s v =
     (case v (sp_subject_id s) of
        None \<Rightarrow> Inl key_destroyed
      | Some key \<Rightarrow>
          (case dec key (sp_nonce s) (sp_ciphertext s) (encode (sp_subject_id s)) of
             None \<Rightarrow> Inl integrity_error
           | Some p \<Rightarrow> Inr p))"

definition erase :: "string \<Rightarrow> vault \<Rightarrow> bool \<times> vault" where
  "erase subject_id v = (case v subject_id of None \<Rightarrow> (False, v) | Some _ \<Rightarrow> (True, v(subject_id := None)))"

definition has_key :: "string \<Rightarrow> vault \<Rightarrow> bool" where
  "has_key subject_id v \<longleftrightarrow> v subject_id \<noteq> None"

definition aead_correct :: "aead_enc \<Rightarrow> aead_dec \<Rightarrow> bool" where
  "aead_correct enc dec \<longleftrightarrow> (\<forall>k n p ad. dec k n (enc k n p ad) ad = Some p)"

subsection \<open>The vault under its operations\<close>

datatype vault_op = Seal "bytes res" bytes string bytes | Digest "bytes res" string bytes | Erase string

fun vault_do :: "aead_enc \<Rightarrow> vault_op \<Rightarrow> vault \<Rightarrow> vault" where
  "vault_do enc (Seal fresh nonce s p) v = snd (seal enc fresh nonce s p v)"
| "vault_do enc (Digest fresh s d) v = snd (digest fresh s d v)"
| "vault_do enc (Erase s) v = snd (erase s v)"

definition vault_run :: "aead_enc \<Rightarrow> vault_op list \<Rightarrow> vault \<Rightarrow> vault" where
  "vault_run enc ops v = fold (vault_do enc) ops v"

fun erases :: "string \<Rightarrow> vault_op \<Rightarrow> bool" where
  "erases s (Erase t) = (s = t)"
| "erases s _ = False"

fun uses_subject :: "string \<Rightarrow> vault_op \<Rightarrow> bool" where
  "uses_subject s (Seal _ _ t _) = (s = t)"
| "uses_subject s (Digest _ t _) = (s = t)"
| "uses_subject s (Erase _) = False"

lemmas vault_op_defs = seal_def digest_def erase_def key_for_seal_def

lemma vault_do_keeps: "v s = Some k \<Longrightarrow> \<not> erases s c \<Longrightarrow> vault_do enc c v s = Some k"
  by (cases c) (auto simp: vault_op_defs split: option.splits sum.splits)

lemma vault_do_absent: "v s = None \<Longrightarrow> \<not> uses_subject s c \<Longrightarrow> vault_do enc c v s = None"
  by (cases c) (auto simp: vault_op_defs split: option.splits sum.splits)

lemma vault_run_keeps: "v s = Some k \<Longrightarrow> list_all (\<lambda>c. \<not> erases s c) ops \<Longrightarrow> vault_run enc ops v s = Some k"
  unfolding vault_run_def by (induction ops arbitrary: v) (auto simp: vault_do_keeps)

lemma vault_run_absent: "v s = None \<Longrightarrow> list_all (\<lambda>c. \<not> uses_subject s c) ops \<Longrightarrow> vault_run enc ops v s = None"
  unfolding vault_run_def by (induction ops arbitrary: v) (auto simp: vault_do_absent)

lemma seal_key:
  "seal enc fresh nonce s p v = (Inr sp, v') \<Longrightarrow>
     \<exists>k. v' s = Some k \<and> sp_subject_id sp = s \<and> sp_nonce sp = nonce \<and> sp_ciphertext sp = enc k nonce p (encode s)"
  by (auto simp: seal_def key_for_seal_def split: option.splits sum.splits if_splits)

text \<open>
  C31. Sealing and erasure: a sealed payload opens to its plaintext after any operations on
  the vault that do not erase its subject. Once the subject is erased, opening reports the
  destroyed key, as long as nothing has been sealed or digested for the subject since, while
  a record of any other subject opens as it did before the erasure.
\<close>

theorem seal_open_erase:
  assumes "aead_correct enc dec" and "seal enc fresh nonce s p v = (Inr sp, v')"
    and "list_all (\<lambda>c. \<not> erases s c) ops" and "list_all (\<lambda>c. \<not> uses_subject s c) later"
  shows "open_sealed dec sp (vault_run enc ops v') = Inr p
     \<and> fst (erase s (vault_run enc ops v'))
     \<and> open_sealed dec sp (vault_run enc later (snd (erase s (vault_run enc ops v')))) = Inl key_destroyed
     \<and> (\<forall>other. sp_subject_id other \<noteq> s \<longrightarrow>
          open_sealed dec other (snd (erase s (vault_run enc ops v'))) = open_sealed dec other (vault_run enc ops v'))"
proof -
  from seal_key [OF assms(2)] obtain k where k: "v' s = Some k" "sp_subject_id sp = s" "sp_nonce sp = nonce"
    "sp_ciphertext sp = enc k nonce p (encode s)" by blast
  let ?w = "vault_run enc ops v'"
  have w: "?w s = Some k" using vault_run_keeps [where v = v', OF k(1) assms(3)] .
  with k assms(1) have "open_sealed dec sp ?w = Inr p"
    by (simp add: open_sealed_def aead_correct_def)
  moreover have "snd (erase s ?w) s = None" and "fst (erase s ?w)"
    using w by (simp_all add: erase_def)
  moreover have "open_sealed dec other (snd (erase s ?w)) = open_sealed dec other ?w" if "sp_subject_id other \<noteq> s" for other
    using that by (simp add: open_sealed_def erase_def split: option.split)
  ultimately show ?thesis
    using vault_run_absent [OF _ assms(4), of "snd (erase s ?w)" enc] k(2) by (simp add: open_sealed_def)
qed

text \<open>A cipher that carries its key in front of the plaintext, to evaluate the properties on.\<close>

definition tag_enc :: aead_enc where
  "tag_enc k n p ad = concat (map (\<lambda>b. [1, b]) k) @ 0 # p"

fun untag :: "bytes \<Rightarrow> bytes \<Rightarrow> bytes option" where
  "untag [] (c # p) = (if c = 0 then Some p else None)"
| "untag (b # k) (c # d # r) = (if c = 1 \<and> d = b then untag k r else None)"
| "untag _ _ = None"

definition tag_dec :: aead_dec where
  "tag_dec k n c ad = untag k c"

lemma tag_correct: "aead_correct tag_enc tag_dec"
proof -
  have "untag k (concat (map (\<lambda>b. [1, b]) k) @ 0 # p) = Some p" for k p
    by (induction k) simp_all
  then show ?thesis by (simp add: aead_correct_def tag_enc_def tag_dec_def)
qed

theorem seal_open_erase_witness:
  "\<exists>sp v'. seal tag_enc (Inr [7]) [1] ''t'' [9, 9] Map.empty = (Inr sp, v')
     \<and> open_sealed tag_dec sp (vault_run tag_enc [Digest (Inr [8]) ''t'' [1], Erase ''u''] v') = Inr [9, 9]
     \<and> open_sealed tag_dec sp (vault_run tag_enc [Digest (Inr [8]) ''u'' []]
          (snd (erase ''t'' (vault_run tag_enc [Digest (Inr [8]) ''t'' [1], Erase ''u''] v')))) = Inl key_destroyed"
proof -
  obtain sp v' where s: "seal tag_enc (Inr [7]) [1] ''t'' [9, 9] Map.empty = (Inr sp, v')"
    by (simp add: seal_def key_for_seal_def)
  from seal_open_erase [OF tag_correct s, of "[Digest (Inr [8]) ''t'' [1], Erase ''u'']" "[Digest (Inr [8]) ''u'' []]"] s
  show ?thesis by auto
qed

text \<open>
  An erased record is reported as corrupt once its subject is used again: sealing
  anything more for an erased subject mints a new key, and when the new key does not
  authenticate a record sealed before the erasure, opening that record raises the integrity
  error, which is meant for ciphertext that is corrupt under a key that is still present,
  and no longer the error of a destroyed key.
\<close>

theorem erased_reads_as_corrupt:
  assumes "seal enc fresh nonce s p v = (Inr sp, v')" and "dec k' nonce (sp_ciphertext sp) (encode s) = None"
    and "seal enc (Inr k') nonce' s p' (snd (erase s v')) = (Inr sp', v'')"
  shows "open_sealed dec sp (snd (erase s v')) = Inl key_destroyed \<and> open_sealed dec sp v'' = Inl integrity_error"
proof -
  from seal_key [OF assms(1)] have sp: "sp_subject_id sp = s" "sp_nonce sp = nonce" by blast+
  have gone: "snd (erase s v') s = None"
    by (simp add: erase_def split: option.splits)
  with assms(3) have "v'' s = Some k'"
    by (auto simp: seal_def key_for_seal_def split: if_splits)
  with sp assms(2) gone show ?thesis by (simp add: open_sealed_def)
qed

theorem erased_reads_as_corrupt_witness:
  "\<exists>sp v' sp' v''. seal tag_enc (Inr [7]) [1] ''t'' [9] Map.empty = (Inr sp, v')
     \<and> seal tag_enc (Inr [8]) [2] ''t'' [5] (snd (erase ''t'' v')) = (Inr sp', v'')
     \<and> open_sealed tag_dec sp v'' = Inl integrity_error"
proof -
  let ?sp = "\<lparr>sp_subject_id = ''t'', sp_nonce = [1], sp_ciphertext = tag_enc [7] [1] [9] (encode ''t'')\<rparr>"
  have s: "seal tag_enc (Inr [7]) [1] ''t'' [9] Map.empty = (Inr ?sp, [''t'' \<mapsto> [7]])"
    by (simp add: seal_def key_for_seal_def)
  obtain sp' v'' where s': "seal tag_enc (Inr [8]) [2] ''t'' [5] (snd (erase ''t'' [''t'' \<mapsto> [7]])) = (Inr sp', v'')"
    by (simp add: seal_def key_for_seal_def erase_def)
  have "tag_dec [8] [1] (sp_ciphertext ?sp) (encode ''t'') = None"
    by (simp add: tag_dec_def tag_enc_def)
  from erased_reads_as_corrupt [where dec = tag_dec, OF s this s'] s s' show ?thesis by blast
qed

end
