(* ===== verification/Ledger.thy ===== *)
theory Ledger
  imports Accumulator Audit_Node Shredder Group_Commit
begin

section \<open>The audit ledger\<close>

text \<open>
  \<open>CryptographicAuditLedger\<close> of \<^verbatim>\<open>aegis/core/crypto_audit.py\<close>: signing with its tiers, the
  three commit paths, persistence and rotation of the write-ahead log, the integrity sweep,
  replay and the peak-set checkpoint.

  A commit is split where the code releases the ledger lock: the locked part writes and
  returns a ticket, then the caller waits for the group commit (theory \<open>Group_Commit\<close>).
  What the environment decides (the clock, the outcome of a system call, the answers of a
  hardware token, fresh keys) is an argument. The log is kept as its lines: blank, not
  parsable, or the document of a node.
\<close>

subsection \<open>Signers\<close>

text \<open>A token and an ML-DSA identity answer for themselves; they are not in the sources.\<close>

record hsm_backend =
  hsm_available :: bool
  hsm_scheme_label :: "string res option"
  hsm_sign :: "bytes \<Rightarrow> (bytes \<times> string \<times> string) res"

record pqc_signer =
  pqc_public_key :: bytes
  pqc_sign :: "bytes \<Rightarrow> bytes res"

definition hsm_unavailable :: exn where
  "hsm_unavailable = RuntimeError ''HSMUnavailableError''"

fun is_value_error :: "exn \<Rightarrow> bool" where
  "is_value_error (ValueError _) = True"
| "is_value_error _ = False"

subsection \<open>The write-ahead log\<close>

text \<open>
  The document of a node: the keys present, the value of each of them, and the field
  \<open>payload\<close> of old records.
\<close>

record wal_doc =
  doc_keys :: "string list"
  doc_payload :: "string option"
  doc_values :: audit_node

datatype wal_line = Blank | Unparsable | Document wal_doc

record mmr_state_file =
  cf_version :: int
  cf_leaf_count :: int
  cf_peaks :: "(int \<times> string) list"
  cf_bagged_root :: string
  cf_checksum :: string

record ledger =
  lg_signing_key :: string
  lg_hsm :: "hsm_backend option"
  lg_hsm_learned_scheme :: string
  lg_require_strong_signing :: bool
  lg_trusted_public_keys :: "string list"
  lg_max_memory_nodes :: nat
  lg_max_forensic_bytes :: nat
  lg_max_wal_bytes :: nat
  lg_mmr_fast_restore :: bool
  lg_scheme_pinned :: bool
  lg_mmr_hash_scheme :: string
  lg_chain :: "audit_node list"
  lg_window_anchor_hash :: string
  lg_wal_open :: bool
  lg_wal_bytes :: nat
  lg_fault_state :: string
  lg_commit_engine :: engine
  lg_shredder :: "vault option"
  lg_pqc :: "pqc_signer option"
  lg_mmr :: mmr
  lg_wal_proof_version :: "string option"
  lg_segments :: "wal_line list list"
  lg_active :: "wal_line list"
  lg_mmr_state :: "mmr_state_file option"

definition healthy :: string where
  "healthy = ''healthy''"

definition ledger_faulted :: exn where
  "ledger_faulted = RuntimeError ''LedgerFaultedError''"

definition refuse_if_faulted :: "ledger \<Rightarrow> unit res" where
  "refuse_if_faulted l = (if lg_fault_state l \<noteq> healthy then Inl ledger_faulted else Inr ())"

definition latch :: "string \<Rightarrow> ledger \<Rightarrow> ledger" where
  "latch f l = l\<lparr>lg_fault_state := f\<rparr>"

subsection \<open>What the environment decides during a commit\<close>

record rotation =
  rot_save_ok :: bool
  rot_sync_ok :: bool
  rot_exists :: bool
  rot_rename_ok :: bool
  rot_open_ok :: bool
  rot_dir_sync_ok :: bool

datatype write_outcome = Written | Write_Raises "wal_line list"

record commit_env =
  ev_timestamp :: py_float
  ev_ed25519_sign :: "bytes \<Rightarrow> bytes \<times> bytes"
  ev_aead :: aead_enc
  ev_fresh_key :: "bytes res"
  ev_nonce :: bytes
  ev_write :: write_outcome
  ev_line_bytes :: nat
  ev_wal_size :: nat
  ev_rotation :: rotation
  ev_durable :: bool

subsection \<open>Signing\<close>

definition hsm_label_or_empty :: "hsm_backend \<Rightarrow> string \<Rightarrow> string res" where
  "hsm_label_or_empty h learned =
     (if learned \<noteq> [] then Inr learned
      else case hsm_scheme_label h of
             None \<Rightarrow> Inr []
           | Some (Inl e) \<Rightarrow> if e = hsm_unavailable then Inl e else Inr []
           | Some (Inr label) \<Rightarrow>
               if label \<noteq> [] \<and> map_of SCHEME_MATERIAL label = None then Inr [] else Inr label)"

type_synonym signed = "string \<times> string \<times> string \<times> bool \<times> bytes"

text \<open>The token path: the result, and the label learned on the way.\<close>

definition sign_hsm :: "hsm_backend \<Rightarrow> (string \<Rightarrow> bytes res) \<Rightarrow> string \<Rightarrow> signed res \<times> string" where
  "sign_hsm h build learned =
     (case hsm_label_or_empty h learned of
        Inl e \<Rightarrow> (Inl e, learned)
      | Inr scheme \<Rightarrow>
          if scheme \<noteq> [] then
            (bind_res (build scheme) (\<lambda>payload.
               bind_res (hsm_sign h payload) (\<lambda>(sig, pub, reported).
                 if reported \<noteq> scheme then
                   bind_res (build reported) (\<lambda>payload'.
                     bind_res (hsm_sign h payload') (\<lambda>(sig', pub', reported').
                       Inr (hex sig', pub', reported', False, payload')))
                 else Inr (hex sig, pub, reported, False, payload))), learned)
          else
            case bind_res (build []) (hsm_sign h) of
              Inl e \<Rightarrow> (Inl e, learned)
            | Inr (sig, pub, reported) \<Rightarrow>
                (bind_res (build reported) (\<lambda>payload.
                   bind_res (hsm_sign h payload) (\<lambda>(sig', pub', reported').
                     Inr (hex sig', pub', reported', False, payload))), reported))"

definition sign_software :: "commit_env \<Rightarrow> ledger \<Rightarrow> (string \<Rightarrow> bytes res) \<Rightarrow> signed res" where
  "sign_software ev l build =
     (if lg_signing_key l \<noteq> [] then
        bind_res (build ''hmac-sha256'') (\<lambda>payload.
          Inr (hmac_sign (lg_signing_key l) payload, [], ''hmac-sha256'', False, payload))
      else if lg_require_strong_signing l
      then Inl (RuntimeError ''strong signing required; no verifiable signer is available'')
      else
        bind_res (build ''ed25519-fallback'') (\<lambda>payload.
          let (sig, pub) = ev_ed25519_sign ev payload
          in Inr (hex sig, hex pub, ''ed25519-fallback'', True, payload)))"

definition sign_pqc :: "commit_env \<Rightarrow> ledger \<Rightarrow> (string \<Rightarrow> bytes res) \<Rightarrow> signed res" where
  "sign_pqc ev l build =
     (case lg_pqc l of
        None \<Rightarrow> sign_software ev l build
      | Some s \<Rightarrow>
          (case bind_res (build ''pqc-ml-dsa'') (\<lambda>payload. bind_res (pqc_sign s payload) (\<lambda>sig.
                  Inr (hex sig, hex (pqc_public_key s), ''pqc-ml-dsa'', False, payload))) of
             Inr r \<Rightarrow> Inr r
           | Inl e \<Rightarrow> if is_value_error e then Inl e else sign_software ev l build))"

definition sign_bound :: "commit_env \<Rightarrow> ledger \<Rightarrow> (string \<Rightarrow> bytes res) \<Rightarrow> signed res \<times> ledger" where
  "sign_bound ev l build =
     (case lg_hsm l of
        Some h \<Rightarrow>
          if hsm_available h then
            (case sign_hsm h build (lg_hsm_learned_scheme l) of
               (r, learned) \<Rightarrow>
                 let l' = l\<lparr>lg_hsm_learned_scheme := learned\<rparr> in
                 (case r of
                    Inr s \<Rightarrow> (Inr s, l')
                  | Inl e \<Rightarrow> if e = hsm_unavailable \<or> is_value_error e then (sign_pqc ev l' build, l') else (Inl e, l')))
          else (sign_pqc ev l build, l)
      | None \<Rightarrow> (sign_pqc ev l build, l))"

subsection \<open>Digests and sealing\<close>

definition payload_digest :: "commit_env \<Rightarrow> bytes \<Rightarrow> string \<Rightarrow> ledger \<Rightarrow> string res \<times> ledger" where
  "payload_digest ev data subject_id l =
     (case lg_shredder l of
        None \<Rightarrow> (Inr (sha256_hex data), l)
      | Some v \<Rightarrow>
          if subject_id = [] then (Inr (sha256_hex data), l)
          else case digest (ev_fresh_key ev) subject_id data v of (r, v') \<Rightarrow> (r, l\<lparr>lg_shredder := Some v'\<rparr>))"

definition seal_leaf :: "commit_env \<Rightarrow> bytes \<Rightarrow> string \<Rightarrow> ledger \<Rightarrow> (string \<times> sealed_payload option) res \<times> ledger" where
  "seal_leaf ev leaf subject_id l =
     (case lg_shredder l of
        None \<Rightarrow> (Inr (leaf_digest (lg_mmr l) leaf, None), l)
      | Some v \<Rightarrow>
          (case seal (ev_aead ev) (ev_fresh_key ev) (ev_nonce ev) subject_id leaf v of
             (r, v') \<Rightarrow> (bind_res r (\<lambda>s. Inr (commitment_hex s, Some s)), l\<lparr>lg_shredder := Some v'\<rparr>)))"

definition crypto_shred :: "string \<Rightarrow> ledger \<Rightarrow> bool res \<times> ledger" where
  "crypto_shred subject_id l =
     (case lg_shredder l of
        None \<Rightarrow> (Inl (RuntimeError ''cryptographic shredding is not enabled on this ledger''), l)
      | Some v \<Rightarrow> (case erase subject_id v of (b, v') \<Rightarrow> (Inr b, l\<lparr>lg_shredder := Some v'\<rparr>)))"

definition open_sealed_leaf :: "aead_dec \<Rightarrow> audit_node \<Rightarrow> ledger \<Rightarrow> bytes res" where
  "open_sealed_leaf dec n l =
     (case lg_shredder l of
        None \<Rightarrow> Inl (RuntimeError ''cryptographic shredding is not enabled on this ledger'')
      | Some v \<Rightarrow>
          if an_sealed_ciphertext n = [] then Inl (ValueError ''node carries no sealed envelope'')
          else bind_res (fromhex (an_sealed_nonce n)) (\<lambda>nonce. bind_res (fromhex (an_sealed_ciphertext n)) (\<lambda>c.
            open_sealed dec \<lparr>sp_subject_id = an_sealed_subject_id n, sp_nonce = nonce, sp_ciphertext = c\<rparr> v)))"

subsection \<open>The peak-set checkpoint\<close>

definition MMR_STATE_VERSION :: int where
  "MMR_STATE_VERSION = 1"

text \<open>The canonical JSON of the checksummed fields.\<close>

definition peak_json :: "int \<times> string \<Rightarrow> string" where
  "peak_json p = json_object [(''hash'', JStr (snd p)), (''height'', JInt (fst p))]"

fun comma_join :: "string list \<Rightarrow> string" where
  "comma_join [] = []"
| "comma_join [x] = x"
| "comma_join (x # y # ys) = x @ '','' @ comma_join (y # ys)"

definition state_body_bytes :: "mmr_state_file \<Rightarrow> bytes" where
  "state_body_bytes c =
     encode (''{'' @ json_str ''bagged_root'' @ '':'' @ json_str (cf_bagged_root c) @ '','' @ json_str ''leaf_count'' @ '':''
       @ str_int (cf_leaf_count c) @ '','' @ json_str ''peaks'' @ '':['' @ comma_join (map peak_json (cf_peaks c)) @ ''],''
       @ json_str ''version'' @ '':'' @ str_int (cf_version c) @ ''}'')"

definition mmr_state_body :: "mmr \<Rightarrow> mmr_state_file res" where
  "mmr_state_body m =
     bind_res (get_root_hash m) (\<lambda>rt.
       Inr \<lparr>cf_version = MMR_STATE_VERSION, cf_leaf_count = int (get_leaf_count m),
            cf_peaks = map (\<lambda>r. (int (mn_height (obj m r)), mn_hash (obj m r))) (canonical_peaks m),
            cf_bagged_root = rt, cf_checksum = []\<rparr>)"

definition save_mmr_state :: "bool \<Rightarrow> ledger \<Rightarrow> bool \<times> ledger" where
  "save_mmr_state ok l =
     (case mmr_state_body (lg_mmr l) of
        Inl e \<Rightarrow> (False, l)
      | Inr body \<Rightarrow>
          if cf_leaf_count body < 1 then (False, if ok then l\<lparr>lg_mmr_state := None\<rparr> else l)
          else if \<not> ok then (False, l)
          else (True, l\<lparr>lg_mmr_state := Some (body\<lparr>cf_checksum := sha256_hex (state_body_bytes body)\<rparr>)\<rparr>))"

definition load_mmr_state :: "ledger \<Rightarrow> (int \<times> mmr_peak list) option" where
  "load_mmr_state l =
     (case lg_mmr_state l of
        None \<Rightarrow> None
      | Some c \<Rightarrow>
          if cf_version c \<noteq> MMR_STATE_VERSION then None
          else if cf_checksum c \<noteq> sha256_hex (state_body_bytes c) then None
          else Some (cf_leaf_count c, map (\<lambda>(k, h). \<lparr>pk_height = PInt k, pk_hash = PStr h\<rparr>) (cf_peaks c)))"

subsection \<open>Persistence and rotation\<close>

text \<open>\<open>_open_wal\<close>, with the outcome of the open and the size of the file it finds.\<close>

definition open_wal :: "bool \<Rightarrow> nat \<Rightarrow> ledger \<Rightarrow> ledger" where
  "open_wal ok sz l = (if lg_wal_open l then l else if ok then l\<lparr>lg_wal_open := True, lg_wal_bytes := sz\<rparr> else l)"

definition engine_fails :: "string \<Rightarrow> ledger \<Rightarrow> ledger" where
  "engine_fails exc l = l\<lparr>lg_commit_engine := fail_engine exc (lg_commit_engine l)\<rparr>"

definition engine_synced :: "ledger \<Rightarrow> ledger" where
  "engine_synced l = l\<lparr>lg_commit_engine := note_external_sync (lg_commit_engine l)\<rparr>"

definition rotate_wal :: "rotation \<Rightarrow> ledger \<Rightarrow> unit res \<times> ledger" where
  "rotate_wal rv l =
     (let l0 = snd (save_mmr_state (rot_save_ok rv) l) in
      if lg_wal_open l0 \<and> \<not> rot_sync_ok rv then (Inl (OSError ''fsync''), engine_fails ''fsync'' l0)
      else
        let l1 = l0\<lparr>lg_wal_open := False\<rparr> in
        if \<not> rot_exists rv then
          (Inl (OSError ''WAL disappeared during rotation''),
           engine_fails ''WAL disappeared during rotation''
             (open_wal (rot_open_ok rv) 0 (l1\<lparr>lg_wal_bytes := 0, lg_active := []\<rparr>)))
        else if \<not> rot_rename_ok rv then
          (Inr (), engine_synced (open_wal (rot_open_ok rv) (lg_wal_bytes l1) l1))
        else
          let l2 = open_wal (rot_open_ok rv) 0
                     (l1\<lparr>lg_segments := lg_segments l1 @ [lg_active l1], lg_active := [], lg_wal_bytes := 0\<rparr>)
          in if \<not> lg_wal_open l2 \<or> \<not> rot_dir_sync_ok rv
             then (Inl (OSError ''rotation barrier''), engine_fails ''rotation barrier'' l2)
             else (Inr (), engine_synced l2))"

definition node_field_names :: "string list" where
  "node_field_names =
     [''state_id'', ''timestamp'', ''entropy'', ''tenant_id'', ''sampling_params'', ''prev_hash'', ''merkle_root'',
      ''signature'', ''signature_scheme'', ''public_key'', ''request_hash'', ''response_hash'', ''model'', ''endpoint'',
      ''token_trail_count'', ''is_fallback'', ''phi_scrubbed'', ''scrub_method'', ''signer_name'', ''signature_meaning'',
      ''audit_trail_version'', ''status'', ''mmr_leaf_hash'', ''mmr_leaf_index'', ''mmr_leaf_count'', ''mmr_proof'',
      ''sealed_subject_id'', ''sealed_nonce'', ''sealed_ciphertext'', ''shredding_version'', ''waf_verdict'']"

definition node_to_dict :: "audit_node \<Rightarrow> wal_doc" where
  "node_to_dict n = \<lparr>doc_keys = node_field_names, doc_payload = None, doc_values = n\<rparr>"

text \<open>\<open>json.dumps\<close> with \<open>allow_nan=False\<close> refuses a document with a number JSON does not have.\<close>

definition node_serialisable :: "audit_node \<Rightarrow> bool" where
  "node_serialisable n \<longleftrightarrow>
     is_finite (an_timestamp n) \<and> is_finite (an_entropy n) \<and> finite_json (an_sampling_params n)
     \<and> finite_json (an_mmr_proof n)"

definition persist_node :: "commit_env \<Rightarrow> audit_node \<Rightarrow> ledger \<Rightarrow> nat option res \<times> ledger" where
  "persist_node ev n l =
     (if \<not> node_serialisable n then (Inl (ValueError ''Out of range float values are not JSON compliant''), l)
      else
        case ev_write ev of
          Write_Raises junk \<Rightarrow> (Inl (OSError ''write''), l\<lparr>lg_active := lg_active l @ junk\<rparr>)
        | Written \<Rightarrow>
            let l1 = l\<lparr>lg_active := lg_active l @ [Document (node_to_dict n)]\<rparr>;
                (r, l2) = (if lg_wal_open l1 then
                     (case enqueue (lg_commit_engine l1) of
                        Inl e \<Rightarrow> (Inl e, l1)
                      | Inr (t, e) \<Rightarrow> (Inr (Some t), l1\<lparr>lg_commit_engine := e, lg_wal_bytes := lg_wal_bytes l1 + ev_line_bytes ev\<rparr>))
                   else (Inr None, l1\<lparr>lg_wal_bytes := ev_wal_size ev\<rparr>))
            in case r of
                 Inl e \<Rightarrow> (Inl e, l2)
               | Inr ticket \<Rightarrow>
                   if 0 < lg_max_wal_bytes l2 \<and> lg_max_wal_bytes l2 \<le> lg_wal_bytes l2 then
                     (case rotate_wal (ev_rotation ev) l2 of
                        (Inl e, l3) \<Rightarrow> (Inl e, l3)
                      | (Inr _, l3) \<Rightarrow> (Inr ticket, l3))
                   else (Inr ticket, l2))"

definition append_memory_node :: "audit_node \<Rightarrow> ledger \<Rightarrow> unit res \<times> ledger" where
  "append_memory_node n l =
     (if length (lg_chain l) = lg_max_memory_nodes l then
        (case lg_chain l of
           [] \<Rightarrow> (Inl (IndexError ''deque index out of range''), l)
         | first # rest \<Rightarrow> (Inr (), l\<lparr>lg_window_anchor_hash := node_hash first, lg_chain := rest @ [n]\<rparr>))
      else (Inr (), l\<lparr>lg_chain := lg_chain l @ [n]\<rparr>))"

definition await_durable :: "commit_env \<Rightarrow> nat option \<Rightarrow> ledger \<Rightarrow> unit res \<times> ledger" where
  "await_durable ev ticket l =
     (if ticket = None \<or> ev_durable ev then (Inr (), l)
      else (Inl wal_durability_error, latch ''wal_persist_failed'' l))"

subsection \<open>Committing\<close>

definition tip_hash :: "ledger \<Rightarrow> string" where
  "tip_hash l = (if lg_chain l = [] then replicate 64 CHR ''0'' else node_hash (last (lg_chain l)))"

definition rolled_back :: "mmr_checkpoint \<Rightarrow> string \<Rightarrow> exn \<Rightarrow> ledger \<Rightarrow> 'a res \<times> ledger" where
  "rolled_back ck fault e l =
     (case rollback_to (lg_mmr l) ck of
        Inl e' \<Rightarrow> (Inl e', l)
      | Inr m \<Rightarrow> (Inl e, latch fault (l\<lparr>lg_mmr := m\<rparr>)))"

text \<open>
  The part of a commit under the lock, which the three commit paths share: \<open>f\<close> holds the
  fields to be signed apart from the chain tip and the root, \<open>tmpl\<close> the fields of the node
  that do not come from signing, sealing or the accumulator.
\<close>

definition complete_node ::
  "audit_node \<Rightarrow> commit_env \<Rightarrow> string \<Rightarrow> string \<Rightarrow> signed \<Rightarrow> string \<Rightarrow> nat \<Rightarrow> (string \<times> pyval) list
     \<Rightarrow> sealed_payload option \<Rightarrow> audit_node" where
  "complete_node tmpl ev prev_hash merkle_root sg leaf_hash cnt doc sealed =
     (case sg of (signature, pub_key_hex, scheme, is_fallback, _) \<Rightarrow>
        post_init (tmpl\<lparr>an_timestamp := ev_timestamp ev, an_prev_hash := prev_hash, an_merkle_root := merkle_root,
          an_signature := signature, an_signature_scheme := scheme, an_public_key := pub_key_hex,
          an_is_fallback := is_fallback, an_mmr_leaf_hash := leaf_hash, an_mmr_leaf_index := int cnt - 1,
          an_mmr_leaf_count := int cnt, an_mmr_proof := PDict doc,
          an_sealed_subject_id := (case sealed of None \<Rightarrow> [] | Some s \<Rightarrow> sp_subject_id s),
          an_sealed_nonce := (case sealed of None \<Rightarrow> [] | Some s \<Rightarrow> hex (sp_nonce s)),
          an_sealed_ciphertext := (case sealed of None \<Rightarrow> [] | Some s \<Rightarrow> hex (sp_ciphertext s)),
          an_shredding_version := (case sealed of None \<Rightarrow> SHRED_SCHEME_UNSEALED | Some s \<Rightarrow> seal_scheme s)\<rparr>))"

definition commit_locked ::
  "commit_env \<Rightarrow> bytes \<Rightarrow> string \<Rightarrow> signed_fields \<Rightarrow> audit_node \<Rightarrow> ledger \<Rightarrow> (audit_node \<times> nat option) res \<times> ledger" where
  "commit_locked ev leaf subject f tmpl l =
     (case refuse_if_faulted l of
        Inl e \<Rightarrow> (Inl e, l)
      | Inr _ \<Rightarrow>
          let prev_hash = tip_hash l; mmr_before = checkpoint (lg_mmr l) in
          (case seal_leaf ev leaf subject l of
             (Inl e, l1) \<Rightarrow> (Inl e, l1)
           | (Inr (leaf_hash, sealed), l1) \<Rightarrow>
               (case add_leaf_hash (lg_mmr l1) leaf_hash of
                  Inl e \<Rightarrow> (Inl e, l1)
                | Inr (merkle_root, m) \<Rightarrow>
                    let l2 = l1\<lparr>lg_mmr := m\<rparr>; cnt = get_leaf_count m in
                    (case issue_document m (int cnt - 1) of
                       Inl e \<Rightarrow> (Inl e, l2)
                     | Inr doc \<Rightarrow>
                         (case sign_bound ev l2 (build_signed_payload
                                 (f\<lparr>sf_prev_hash := prev_hash, sf_merkle_root := merkle_root\<rparr>)) of
                            (Inl e, l3) \<Rightarrow> rolled_back mmr_before ''signing_failed'' e l3
                          | (Inr sg, l3) \<Rightarrow>
                              let node = complete_node tmpl ev prev_hash merkle_root sg leaf_hash cnt doc sealed in
                              (case persist_node ev node l3 of
                                 (Inl e, l4) \<Rightarrow> rolled_back mmr_before ''wal_persist_failed'' e l4
                               | (Inr ticket, l4) \<Rightarrow>
                                   (case append_memory_node node l4 of
                                      (Inl e, l5) \<Rightarrow> (Inl e, l5)
                                    | (Inr _, l5) \<Rightarrow> (Inr (node, ticket), l5))))))))"

definition commit_with ::
  "commit_env \<Rightarrow> bytes \<Rightarrow> string \<Rightarrow> signed_fields \<Rightarrow> audit_node \<Rightarrow> ledger \<Rightarrow> audit_node res \<times> ledger" where
  "commit_with ev leaf subject f tmpl l =
     (case commit_locked ev leaf subject f tmpl l of
        (Inl e, l1) \<Rightarrow> (Inl e, l1)
      | (Inr (node, ticket), l1) \<Rightarrow>
          (case await_durable ev ticket l1 of
             (Inl e, l2) \<Rightarrow> (Inl e, l2)
           | (Inr _, l2) \<Rightarrow> (Inr node, l2)))"

subsection \<open>The commit paths\<close>

definition MAX_PAYLOAD_BYTES :: nat where
  "MAX_PAYLOAD_BYTES = 1048576"

definition RECOVERED_TERMINAL_MEANING :: string where
  "RECOVERED_TERMINAL_MEANING = ''stream-terminal-evidence-recovered''"

fun dict_set :: "string \<Rightarrow> pyval \<Rightarrow> (string \<times> pyval) list \<Rightarrow> (string \<times> pyval) list" where
  "dict_set k v [] = [(k, v)]"
| "dict_set k v ((k', v') # kvs) = (if k = k' then (k, v) # kvs else (k', v') # dict_set k v kvs)"

text \<open>A node before signing: the defaults of the dataclass.\<close>

definition blank_node :: audit_node where
  "blank_node =
     \<lparr>an_state_id = [], an_timestamp = Fin 0, an_entropy = Fin 0, an_tenant_id = [], an_sampling_params = PDict [],
      an_prev_hash = [], an_merkle_root = [], an_signature = [], an_signature_scheme = [], an_public_key = [],
      an_request_hash = [], an_response_hash = [], an_model = [], an_endpoint = [], an_token_trail_count = 0,
      an_is_fallback = False, an_phi_scrubbed = False, an_scrub_method = [], an_signer_name = [],
      an_signature_meaning = [], an_audit_trail_version = ''1'', an_status = NODE_STATUS_COMMITTED,
      an_mmr_leaf_hash = [], an_mmr_leaf_index = - 1, an_mmr_leaf_count = 0, an_mmr_proof = PNone,
      an_sealed_subject_id = [], an_sealed_nonce = [], an_sealed_ciphertext = [], an_shredding_version = [],
      an_waf_verdict = [], an_creation_hash = []\<rparr>"

text \<open>The fields that are signed, taken from the node they will be recorded in.\<close>

definition signed_fields_for :: "audit_node \<Rightarrow> signed_fields" where
  "signed_fields_for tmpl = fields_of_node tmpl"

record forensic_args =
  fa_state_id :: string
  fa_request_bytes :: bytes
  fa_response_bytes :: "bytes option"
  fa_entropy :: py_float
  fa_tenant_id :: string
  fa_model :: string
  fa_endpoint :: string
  fa_token_trail :: "pyval list option"
  fa_usage :: "(string \<times> pyval) list option"
  fa_sampling_params :: "(string \<times> pyval) list option"
  fa_phi_scrubbed :: bool
  fa_scrub_method :: string
  fa_signer_name :: string
  fa_signature_meaning :: string
  fa_waf_verdict :: string

definition forensic_params :: "forensic_args \<Rightarrow> pyval" where
  "forensic_params a =
     (let params = (case fa_sampling_params a of None \<Rightarrow> [] | Some p \<Rightarrow> p) in
      PDict (case fa_usage a of
               None \<Rightarrow> params
             | Some u \<Rightarrow> if u = [] then params else dict_set ''usage'' (PDict u) params))"

definition forensic_checks :: "forensic_args \<Rightarrow> unit res" where
  "forensic_checks a =
     (if CHR 0x00 \<in> set (fa_state_id a) then Inl (ValueError ''state_id containing NULL byte is rejected'')
      else if \<not> is_finite (fa_entropy a) then Inl (ValueError ''entropy must be a finite number'')
      else if length (fa_request_bytes a) > MAX_PAYLOAD_BYTES
      then Inl (ValueError ''request_bytes exceeds 1 MiB hard cap'')
      else require_finite_json (forensic_params a))"

definition forensic_node :: "forensic_args \<Rightarrow> string \<Rightarrow> string \<Rightarrow> audit_node" where
  "forensic_node a req_hash resp_hash =
     blank_node\<lparr>an_state_id := fa_state_id a, an_entropy := fa_entropy a, an_tenant_id := fa_tenant_id a,
       an_sampling_params := forensic_params a, an_request_hash := req_hash, an_response_hash := resp_hash,
       an_model := fa_model a, an_endpoint := fa_endpoint a,
       an_token_trail_count := (case fa_token_trail a of None \<Rightarrow> 0 | Some t \<Rightarrow> int (length t)),
       an_phi_scrubbed := fa_phi_scrubbed a, an_scrub_method := fa_scrub_method a,
       an_signer_name := fa_signer_name a, an_signature_meaning := fa_signature_meaning a,
       an_waf_verdict := fa_waf_verdict a\<rparr>"

definition commit_forensic :: "commit_env \<Rightarrow> forensic_args \<Rightarrow> ledger \<Rightarrow> audit_node res \<times> ledger" where
  "commit_forensic ev a l =
     (case forensic_checks a of
        Inl e \<Rightarrow> (Inl e, l)
      | Inr _ \<Rightarrow>
          (case payload_digest ev (fa_request_bytes a) (fa_tenant_id a) l of
             (Inl e, l1) \<Rightarrow> (Inl e, l1)
           | (Inr req_hash, l1) \<Rightarrow>
               (case (if response_body (fa_response_bytes a) = [] then (Inr [], l1)
                      else payload_digest ev (response_body (fa_response_bytes a)) (fa_tenant_id a) l1) of
                  (Inl e, l2) \<Rightarrow> (Inl e, l2)
                | (Inr resp_hash, l2) \<Rightarrow>
                    (case build_merkle_leaf (fa_state_id a) (fa_request_bytes a) (fa_response_bytes a) (fa_model a)
                            (fa_endpoint a) (lg_max_forensic_bytes l2) (fa_waf_verdict a) of
                       Inl e \<Rightarrow> (Inl e, l2)
                     | Inr leaf \<Rightarrow>
                         let tmpl = forensic_node a req_hash resp_hash
                         in commit_with ev leaf (fa_tenant_id a) (signed_fields_for tmpl) tmpl l2))))"

record rejection_args =
  ra_request_bytes :: bytes
  ra_rejection_code :: int
  ra_reason_category :: string
  ra_tenant_id :: "string option"
  ra_state_id :: "string option"
  ra_endpoint :: string

text \<open>\<open>x or default\<close> on an optional string.\<close>

definition or_default :: "string option \<Rightarrow> string \<Rightarrow> string" where
  "or_default v d = (case v of None \<Rightarrow> d | Some s \<Rightarrow> if s = [] then d else s)"

definition rejection_decision :: "rejection_args \<Rightarrow> bytes" where
  "rejection_decision a = encode (''REJECTED:'' @ str_int (ra_rejection_code a) @ '':'' @ ra_reason_category a)"

definition rejection_node :: "rejection_args \<Rightarrow> string \<Rightarrow> string \<Rightarrow> string \<Rightarrow> audit_node" where
  "rejection_node a rejection_id req_hash resp_hash =
     blank_node\<lparr>an_state_id := rejection_id, an_tenant_id := or_default (ra_tenant_id a) ''unattributed'',
       an_sampling_params := PDict [(''rejection_code'', PInt (ra_rejection_code a)),
         (''reason_category'', PStr (ra_reason_category a))],
       an_request_hash := req_hash, an_response_hash := resp_hash, an_model := ''none'', an_endpoint := ra_endpoint a,
       an_status := NODE_STATUS_REJECTED\<rparr>"

definition commit_rejection :: "commit_env \<Rightarrow> string \<Rightarrow> rejection_args \<Rightarrow> ledger \<Rightarrow> audit_node res \<times> ledger" where
  "commit_rejection ev fresh_id a l =
     (let rejection_id = or_default (ra_state_id a) (''rej-'' @ fresh_id);
          subject = or_default (ra_tenant_id a) ''unattributed'' in
      if CHR 0x00 \<in> set rejection_id then (Inl (ValueError ''state_id containing NULL byte is rejected''), l)
      else if length (ra_request_bytes a) > MAX_PAYLOAD_BYTES
      then (Inl (ValueError ''request_bytes exceeds 1 MiB hard cap''), l)
      else
        (case payload_digest ev (ra_request_bytes a) subject l of
           (Inl e, l1) \<Rightarrow> (Inl e, l1)
         | (Inr req_hash, l1) \<Rightarrow>
             (case payload_digest ev (rejection_decision a) subject l1 of
                (Inl e, l2) \<Rightarrow> (Inl e, l2)
              | (Inr resp_hash, l2) \<Rightarrow>
                  (case build_merkle_leaf rejection_id (ra_request_bytes a) (Some (rejection_decision a)) ''none''
                          (ra_endpoint a) (lg_max_forensic_bytes l2) WAF_VERDICT_UNRECORDED of
                     Inl e \<Rightarrow> (Inl e, l2)
                   | Inr leaf \<Rightarrow>
                       let tmpl = rejection_node a rejection_id req_hash resp_hash
                       in commit_with ev leaf subject (signed_fields_for tmpl) tmpl l2))))"

record summary_args =
  sa_state_id :: string
  sa_request_bytes :: "bytes option"
  sa_request_digest :: "(string \<times> int) option"
  sa_response_hash :: string
  sa_response_size :: int
  sa_response_preview :: bytes
  sa_terminal_outcome :: string
  sa_final_marker_included :: bool
  sa_token_count :: int
  sa_elapsed_seconds :: py_float
  sa_redaction_hits :: "(string \<times> int) list"
  sa_tenant_id :: string
  sa_model :: string
  sa_endpoint :: string
  sa_phi_scrubbed :: bool
  sa_scrub_method :: string
  sa_signer_name :: string
  sa_signature_meaning :: string

definition allowed_outcomes :: "string list" where
  "allowed_outcomes = [''complete'', ''client_disconnected'', ''upstream_error'', ''upstream_incomplete'', ''timeout'',
     ''byte_limit'', ''event_limit'', ''privacy_failure'', ''shutdown_cancelled'']"

text \<open>The request digest, its size, the preview and the evidence status.\<close>

definition summary_request :: "summary_args \<Rightarrow> nat \<Rightarrow> (string \<times> int \<times> bytes \<times> string) res" where
  "summary_request a max_bytes =
     (case (sa_request_bytes a, sa_request_digest a) of
        (Some b, None) \<Rightarrow>
          if sa_signature_meaning a = RECOVERED_TERMINAL_MEANING
          then Inl (ValueError ''the recovered signature meaning is reserved for request_digest'')
          else if length b > MAX_PAYLOAD_BYTES then Inl (ValueError ''request_bytes exceeds 1 MiB hard cap'')
          else Inr (sha256_hex b, int (length b), take max_bytes b, ''durable-terminal'')
      | (None, Some (h, n)) \<Rightarrow>
          if sa_signature_meaning a \<noteq> RECOVERED_TERMINAL_MEANING
          then Inl (ValueError ''request_digest is recovery-only'')
          else if \<not> is_sha256_hex_str h
          then Inl (ValueError ''request_digest hash must be a lowercase SHA-256 hex digest'')
          else if \<not> (0 \<le> n \<and> n \<le> int MAX_PAYLOAD_BYTES)
          then Inl (ValueError ''request_digest size must be an integer within [0, 1 MiB]'')
          else Inr (h, n, [], ''recovered-terminal'')
      | _ \<Rightarrow> Inl (ValueError ''exactly one of request_bytes and request_digest is required''))"

fun float_value :: "py_float \<Rightarrow> pyval" where
  "float_value (Fin q) = PFloat q"
| "float_value Nan = PNonFinite Not_A_Number"
| "float_value Inf = PNonFinite Plus_Infinity"
| "float_value NegInf = PNonFinite Minus_Infinity"

fun float_nonneg :: "py_float \<Rightarrow> bool" where
  "float_nonneg (Fin q) = (0 \<le> q)"
| "float_nonneg _ = False"

definition summary_checks :: "summary_args \<Rightarrow> nat \<Rightarrow> unit res" where
  "summary_checks a max_bytes =
     (if \<not> is_sha256_hex_str (sa_response_hash a)
      then Inl (ValueError ''response_hash must be a lowercase SHA-256 hex digest'')
      else if sa_response_size a < 0 then Inl (ValueError ''response_size must be a non-negative integer'')
      else if sa_token_count a < 0 then Inl (ValueError ''token_count must be a non-negative integer'')
      else if \<not> float_nonneg (sa_elapsed_seconds a)
      then Inl (ValueError ''elapsed_seconds must be finite and non-negative'')
      else if length (sa_response_preview a) > max_bytes
      then Inl (ValueError ''response_preview exceeds max_forensic_bytes'')
      else if sa_terminal_outcome a \<notin> set allowed_outcomes then Inl (ValueError ''unsupported terminal_outcome'')
      else if list_ex (\<lambda>(k, v). k = [] \<or> v < 0) (sa_redaction_hits a)
      then Inl (ValueError ''redaction_hits must contain non-negative integer counts'')
      else Inr ())"

definition summary_leaf :: "summary_args \<Rightarrow> string \<Rightarrow> int \<Rightarrow> bytes \<Rightarrow> stream_leaf" where
  "summary_leaf a request_hash request_size request_preview =
     \<lparr>sl_state_id = sa_state_id a, sl_request_hash = request_hash, sl_response_hash = sa_response_hash a,
      sl_request_size = request_size, sl_response_size = sa_response_size a, sl_request_preview = request_preview,
      sl_response_preview = sa_response_preview a, sl_model = sa_model a, sl_endpoint = sa_endpoint a,
      sl_terminal_outcome = sa_terminal_outcome a, sl_final_marker_included = sa_final_marker_included a,
      sl_token_count = sa_token_count a, sl_redaction_hits = sa_redaction_hits a\<rparr>"

definition summary_node :: "summary_args \<Rightarrow> string \<Rightarrow> string \<Rightarrow> audit_node" where
  "summary_node a request_hash evidence_status =
     blank_node\<lparr>an_state_id := sa_state_id a, an_tenant_id := sa_tenant_id a,
       an_sampling_params := PDict [(''evidence_status'', PStr evidence_status),
         (''elapsed_seconds'', float_value (sa_elapsed_seconds a)),
         (''final_marker_included'', PBool (sa_final_marker_included a)), (''leaf_version'', PInt 2),
         (''redaction_hits'', PDict (map (\<lambda>(k, v). (k, PInt v)) (sorted_counts (sa_redaction_hits a)))),
         (''response_size'', PInt (sa_response_size a)), (''terminal_outcome'', PStr (sa_terminal_outcome a)),
         (''token_count'', PInt (sa_token_count a))],
       an_request_hash := request_hash, an_response_hash := sa_response_hash a, an_model := sa_model a,
       an_endpoint := sa_endpoint a, an_token_trail_count := sa_token_count a,
       an_phi_scrubbed := sa_phi_scrubbed a \<or> sa_redaction_hits a \<noteq> [], an_scrub_method := sa_scrub_method a,
       an_signer_name := sa_signer_name a, an_signature_meaning := sa_signature_meaning a,
       an_audit_trail_version := ''2''\<rparr>"

definition commit_forensic_summary :: "commit_env \<Rightarrow> summary_args \<Rightarrow> ledger \<Rightarrow> audit_node res \<times> ledger" where
  "commit_forensic_summary ev a l =
     (if CHR 0x00 \<in> set (sa_state_id a) then (Inl (ValueError ''state_id containing NULL byte is rejected''), l)
      else
        (case summary_request a (lg_max_forensic_bytes l) of
           Inl e \<Rightarrow> (Inl e, l)
         | Inr (request_hash, request_size, request_preview, evidence_status) \<Rightarrow>
             (case summary_checks a (lg_max_forensic_bytes l) of
                Inl e \<Rightarrow> (Inl e, l)
              | Inr _ \<Rightarrow>
                  let leaf = build_stream_merkle_leaf (summary_leaf a request_hash request_size request_preview);
                      tmpl = summary_node a request_hash evidence_status
                  in commit_with ev leaf (sa_tenant_id a) (signed_fields_for tmpl) tmpl l)))"

end
