(* ===== verification/Ledger_Verify.thy ===== *)
theory Ledger_Verify
  imports Ledger
begin

section \<open>Integrity sweep and replay\<close>

text \<open>
  The reading half of the ledger: \<open>signature_status\<close>, \<open>verify_integrity\<close>, the assurance of
  the chain, \<open>AuditNode.from_dict\<close>, replay of the log and the restoration of the accumulator.
  The verifiers of Ed25519 and ML-DSA are not in the sources; their answers are arguments.
\<close>

subsection \<open>Signatures\<close>

record verifiers =
  ed25519_verify :: "bytes \<Rightarrow> bytes \<Rightarrow> bytes \<Rightarrow> bool"
  rust_available :: bool
  pqc_verify :: "bytes \<Rightarrow> bytes \<Rightarrow> bytes \<Rightarrow> bool res"

datatype sig_status = Valid | Invalid | Unverified

definition trusted_signing_keys :: "ledger \<Rightarrow> string list" where
  "trusted_signing_keys l =
     (case lg_pqc l of
        None \<Rightarrow> lg_trusted_public_keys l
      | Some s \<Rightarrow> hex (pqc_public_key s) # lg_trusted_public_keys l)"

fun any_res :: "('a \<Rightarrow> bool res) \<Rightarrow> 'a list \<Rightarrow> bool res" where
  "any_res f [] = Inr False"
| "any_res f (x # xs) = bind_res (f x) (\<lambda>b. if b then Inr True else any_res f xs)"

text \<open>The body of the \<open>try\<close>: an exception is mapped by the caller.\<close>

definition scheme_verdict :: "verifiers \<Rightarrow> ledger \<Rightarrow> audit_node \<Rightarrow> sig_status res" where
  "scheme_verdict vs l n =
     bind_res (signed_payload_candidates_for n) (\<lambda>payloads.
       if an_signature_scheme n = ''hmac-sha256'' then
         Inr (if lg_signing_key l = [] then Unverified
              else if list_ex (\<lambda>p. hmac_verify (lg_signing_key l) p (an_signature n)) payloads then Valid else Invalid)
       else if an_signature_scheme n = ''ed25519-fallback'' then
         bind_res (fromhex (an_public_key n)) (\<lambda>pk. bind_res (fromhex (an_signature n)) (\<lambda>sig.
           Inr (if list_ex (\<lambda>p. ed25519_verify vs pk sig p) payloads then Unverified else Invalid)))
       else if an_signature_scheme n = ''pqc-ml-dsa'' then
         let trusted = trusted_signing_keys l in
         if trusted \<noteq> [] \<and> lower (an_public_key n) \<notin> set trusted then Inr Invalid
         else if \<not> rust_available vs then Inr Unverified
         else
           bind_res (any_res (\<lambda>p. bind_res (fromhex (an_signature n)) (\<lambda>sig. bind_res (fromhex (an_public_key n)) (\<lambda>pk.
             pqc_verify vs p sig pk))) payloads) (\<lambda>ok.
               Inr (if ok then (if trusted \<noteq> [] then Valid else Unverified) else Invalid))
       else Inr Unverified)"

fun value_or_type_error :: "exn \<Rightarrow> bool" where
  "value_or_type_error (ValueError _) = True"
| "value_or_type_error (TypeError _) = True"
| "value_or_type_error _ = False"

definition signature_status :: "verifiers \<Rightarrow> ledger \<Rightarrow> audit_node \<Rightarrow> sig_status" where
  "signature_status vs l n =
     (if scheme_material_inconsistency n \<noteq> None then Invalid
      else case scheme_verdict vs l n of
             Inr s \<Rightarrow> s
           | Inl e \<Rightarrow> if value_or_type_error e then Invalid else Unverified)"

definition configured_signing_ceiling :: "ledger \<Rightarrow> signature_assurance" where
  "configured_signing_ceiling l =
     (if (case lg_hsm l of None \<Rightarrow> False | Some h \<Rightarrow> hsm_available h) then ASYMMETRIC_HARDWARE_ATTESTED
      else if lg_pqc l \<noteq> None then ASYMMETRIC_SOFTWARE
      else if lg_signing_key l \<noteq> [] then SYMMETRIC_AUTHENTICATED
      else COMPROMISED_EPHEMERAL)"

definition signature_assurance :: "ledger \<Rightarrow> signature_assurance" where
  "signature_assurance l =
     (case chain_signature_assurance (lg_chain l) (Some (trusted_signing_keys l)) of
        None \<Rightarrow> configured_signing_ceiling l
      | Some t \<Rightarrow> t)"

subsection \<open>The integrity sweep\<close>

definition proof_violation :: "audit_node \<Rightarrow> bool res" where
  "proof_violation n =
     (case an_mmr_proof n of
        PNone \<Rightarrow> Inr False
      | PDict doc \<Rightarrow>
          bind_res (document_accepted (an_mmr_leaf_hash n) (an_mmr_leaf_index n) (an_mmr_leaf_count n)
            (an_merkle_root n) doc) (\<lambda>ok. Inr (\<not> ok))
      | _ \<Rightarrow> Inr True)"

definition node_violation :: "verifiers \<Rightarrow> ledger \<Rightarrow> string \<Rightarrow> audit_node \<Rightarrow> bool res" where
  "node_violation vs l expected_prev n =
     (if node_hash n \<noteq> an_creation_hash n then Inr True
      else if an_prev_hash n \<noteq> expected_prev then Inr True
      else if lg_require_strong_signing l \<and> an_is_fallback n then Inr True
      else
        let status = signature_status vs l n in
        if lg_require_strong_signing l \<and> status = Unverified \<and> an_signature_scheme n \<in> set PINNED_KEY_SCHEMES
        then Inr True
        else if status = Invalid then Inr True
        else proof_violation n)"

fun sweep :: "verifiers \<Rightarrow> ledger \<Rightarrow> nat \<Rightarrow> string \<Rightarrow> audit_node list \<Rightarrow> (bool \<times> nat option) res" where
  "sweep vs l i expected_prev [] = Inr (True, None)"
| "sweep vs l i expected_prev (n # ns) =
     bind_res (node_violation vs l expected_prev n) (\<lambda>bad.
       if bad then Inr (False, Some i) else sweep vs l (Suc i) (node_hash n) ns)"

definition verify_integrity :: "verifiers \<Rightarrow> ledger \<Rightarrow> (bool \<times> nat option) res" where
  "verify_integrity vs l = sweep vs l 0 (lg_window_anchor_hash l) (lg_chain l)"

subsection \<open>Reading the log\<close>

definition required_node_fields :: "string list" where
  "required_node_fields = [''state_id'', ''timestamp'', ''entropy'', ''tenant_id'', ''sampling_params'', ''prev_hash'',
     ''merkle_root'', ''signature'']"

definition field_or :: "wal_doc \<Rightarrow> string \<Rightarrow> (audit_node \<Rightarrow> 'a) \<Rightarrow> 'a \<Rightarrow> 'a" where
  "field_or d k sel dflt = (if k \<in> set (doc_keys d) then sel (doc_values d) else dflt)"

definition node_from_dict :: "wal_doc \<Rightarrow> audit_node res" where
  "node_from_dict d =
     (let v = doc_values d in
      if \<not> set required_node_fields \<subseteq> set (doc_keys d) then Inl (TypeError ''missing required arguments'')
      else Inr (post_init
        \<lparr>an_state_id = an_state_id v, an_timestamp = an_timestamp v, an_entropy = an_entropy v,
         an_tenant_id = an_tenant_id v, an_sampling_params = an_sampling_params v, an_prev_hash = an_prev_hash v,
         an_merkle_root = an_merkle_root v, an_signature = an_signature v,
         an_signature_scheme = field_or d ''signature_scheme'' an_signature_scheme ''hmac-sha256'',
         an_public_key = field_or d ''public_key'' an_public_key [],
         an_request_hash = field_or d ''request_hash'' an_request_hash
           (case doc_payload d of None \<Rightarrow> [] | Some p \<Rightarrow> p),
         an_response_hash = field_or d ''response_hash'' an_response_hash [],
         an_model = field_or d ''model'' an_model ''unknown'',
         an_endpoint = field_or d ''endpoint'' an_endpoint ''unknown'',
         an_token_trail_count = field_or d ''token_trail_count'' an_token_trail_count 0,
         an_is_fallback = field_or d ''is_fallback'' an_is_fallback False,
         an_phi_scrubbed = field_or d ''phi_scrubbed'' an_phi_scrubbed False,
         an_scrub_method = field_or d ''scrub_method'' an_scrub_method [],
         an_signer_name = field_or d ''signer_name'' an_signer_name [],
         an_signature_meaning = field_or d ''signature_meaning'' an_signature_meaning [],
         an_audit_trail_version = field_or d ''audit_trail_version'' an_audit_trail_version ''1'',
         an_status = field_or d ''status'' an_status ''committed'',
         an_mmr_leaf_hash = field_or d ''mmr_leaf_hash'' an_mmr_leaf_hash [],
         an_mmr_leaf_index = field_or d ''mmr_leaf_index'' an_mmr_leaf_index (- 1),
         an_mmr_leaf_count = field_or d ''mmr_leaf_count'' an_mmr_leaf_count 0,
         an_mmr_proof = field_or d ''mmr_proof'' an_mmr_proof PNone,
         an_sealed_subject_id = field_or d ''sealed_subject_id'' an_sealed_subject_id [],
         an_sealed_nonce = field_or d ''sealed_nonce'' an_sealed_nonce [],
         an_sealed_ciphertext = field_or d ''sealed_ciphertext'' an_sealed_ciphertext [],
         an_shredding_version = field_or d ''shredding_version'' an_shredding_version
           (if field_or d ''sealed_ciphertext'' an_sealed_ciphertext [] \<noteq> [] then SHRED_SCHEME_V1 else []),
         an_waf_verdict = field_or d ''waf_verdict'' an_waf_verdict [],
         an_creation_hash = []\<rparr>))"

definition proof_version_of :: "audit_node \<Rightarrow> string option" where
  "proof_version_of n =
     (case an_mmr_proof n of
        PDict doc \<Rightarrow> (case map_of doc ''version'' of Some (PStr v) \<Rightarrow> Some v | _ \<Rightarrow> None)
      | _ \<Rightarrow> None)"

type_synonym suffix = "(string \<times> string \<times> string) list"

definition note_version :: "audit_node \<Rightarrow> ledger \<Rightarrow> ledger" where
  "note_version n l =
     (case proof_version_of n of None \<Rightarrow> l | Some v \<Rightarrow> l\<lparr>lg_wal_proof_version := Some v\<rparr>)"

text \<open>The lines of all files in order; a line that cannot be read ends the reconstruction.\<close>

fun replay_lines :: "wal_line list \<Rightarrow> suffix \<Rightarrow> ledger \<Rightarrow> (suffix \<times> ledger) res" where
  "replay_lines [] sfx l = Inr (sfx, l)"
| "replay_lines (Blank # rest) sfx l = replay_lines rest sfx l"
| "replay_lines (Unparsable # rest) sfx l = Inr (sfx, latch ''wal_corrupt'' l)"
| "replay_lines (Document d # rest) sfx l =
     (case node_from_dict d of
        Inl e \<Rightarrow> Inr (sfx, latch ''wal_corrupt'' l)
      | Inr n \<Rightarrow>
          (case append_memory_node n (note_version n l) of
             (Inl e, l') \<Rightarrow> Inl e
           | (Inr _, l') \<Rightarrow>
               replay_lines rest
                 (if an_mmr_leaf_hash n \<noteq> [] then sfx @ [(an_mmr_leaf_hash n, an_merkle_root n, an_state_id n)] else []) l'))"

subsection \<open>Restoring the accumulator\<close>

definition scheme_proof_version :: "string \<Rightarrow> string option" where
  "scheme_proof_version = map_of [(HASH_SCHEME_V1, MMR_PROOF_VERSION_V1), (HASH_SCHEME_V2, MMR_PROOF_VERSION_V2)]"

definition proof_version_scheme :: "string \<Rightarrow> string option" where
  "proof_version_scheme = map_of [(MMR_PROOF_VERSION_V1, HASH_SCHEME_V1), (MMR_PROOF_VERSION_V2, HASH_SCHEME_V2)]"

definition fresh_mmr :: "nat \<Rightarrow> string \<Rightarrow> mmr res" where
  "fresh_mmr oid scheme = mmr_init oid scheme"

text \<open>Adopt the scheme of the chain when none was pinned; \<open>None\<close> when it is not implemented.\<close>

definition adopt_scheme :: "nat \<Rightarrow> ledger \<Rightarrow> ledger option res" where
  "adopt_scheme oid l =
     (case lg_wal_proof_version l of
        None \<Rightarrow> Inr (Some l)
      | Some v \<Rightarrow>
          if lg_scheme_pinned l then Inr (Some l)
          else
            (case proof_version_scheme v of
               None \<Rightarrow> Inr None
             | Some adopted \<Rightarrow>
                 if adopted \<noteq> lg_mmr_hash_scheme l then
                   bind_res (fresh_mmr oid adopted) (\<lambda>m. Inr (Some (l\<lparr>lg_mmr_hash_scheme := adopted, lg_mmr := m\<rparr>)))
                 else Inr (Some l)))"

fun replay_hashes :: "mmr \<Rightarrow> string list \<Rightarrow> mmr res" where
  "replay_hashes m [] = Inr m"
| "replay_hashes m (h # hs) = bind_res (add_leaf_hash m h) (\<lambda>(_, m'). replay_hashes m' hs)"

fun replay_suffix :: "mmr \<Rightarrow> suffix \<Rightarrow> (bool \<times> mmr) res" where
  "replay_suffix m [] = Inr (True, m)"
| "replay_suffix m ((leaf_hash, recorded_root, _) # rest) =
     bind_res (add_leaf_hash m leaf_hash) (\<lambda>(rebuilt_root, m').
       if rebuilt_root \<noteq> recorded_root then Inr (False, m') else replay_suffix m' rest)"

definition fast_restore :: "mmr \<Rightarrow> int \<Rightarrow> mmr_peak list \<Rightarrow> suffix \<Rightarrow> mmr res" where
  "fast_restore m leaf_cnt ps sfx =
     bind_res (restore_from_peaks m leaf_cnt ps) (\<lambda>(_, m'). replay_hashes m' (map fst (drop (nat leaf_cnt) sfx)))"

text \<open>
  The checkpoint path: whether its result is accepted, and the accumulator to go on with,
  which is a new one when the checkpoint was tried and rejected.
\<close>

definition try_checkpoint :: "nat \<Rightarrow> ledger \<Rightarrow> suffix \<Rightarrow> (bool \<times> mmr) res" where
  "try_checkpoint oid l sfx =
     (case (if lg_mmr_fast_restore l then load_mmr_state l else None) of
        None \<Rightarrow> Inr (False, lg_mmr l)
      | Some (leaf_cnt, ps) \<Rightarrow>
          if 0 < leaf_cnt \<and> leaf_cnt \<le> int (length sfx) then
            (case bind_res (fast_restore (lg_mmr l) leaf_cnt ps sfx) (\<lambda>m. bind_res (get_root_hash m) (\<lambda>rt. Inr (rt, m))) of
               Inl e \<Rightarrow> if is_value_error e then bind_res (fresh_mmr oid (lg_mmr_hash_scheme l)) (\<lambda>m. Inr (False, m)) else Inl e
             | Inr (rt, m) \<Rightarrow>
                 if rt = fst (snd (last sfx)) then Inr (True, m)
                 else bind_res (fresh_mmr oid (lg_mmr_hash_scheme l)) (\<lambda>m. Inr (False, m)))
          else Inr (False, lg_mmr l))"

definition replay_all :: "nat \<Rightarrow> ledger \<Rightarrow> suffix \<Rightarrow> ledger res" where
  "replay_all oid l sfx =
     bind_res (try_checkpoint oid l sfx) (\<lambda>(accepted, m0).
       if accepted then Inr (l\<lparr>lg_mmr := m0\<rparr>)
       else
         bind_res (replay_suffix m0 sfx) (\<lambda>(ok, m).
           let l' = l\<lparr>lg_mmr := m\<rparr> in Inr (if ok then l' else latch ''mmr_replay_mismatch'' l')))"

definition restore_mmr :: "nat \<Rightarrow> suffix \<Rightarrow> ledger \<Rightarrow> ledger res" where
  "restore_mmr oid sfx l =
     bind_res (adopt_scheme oid l) (\<lambda>al.
       case al of
         None \<Rightarrow> Inr (latch ''mmr_scheme_mismatch'' l)
       | Some l1 \<Rightarrow>
           if lg_wal_proof_version l1 \<noteq> None \<and> lg_wal_proof_version l1 \<noteq> scheme_proof_version (lg_mmr_hash_scheme l1)
           then Inr (latch ''mmr_scheme_mismatch'' l1)
           else if sfx = [] then Inr l1
           else replay_all oid l1 sfx)"

definition load_from_wal :: "nat \<Rightarrow> ledger \<Rightarrow> ledger res" where
  "load_from_wal oid l =
     bind_res (replay_lines (concat (lg_segments l) @ lg_active l) [] l) (\<lambda>(sfx, l1). restore_mmr oid sfx l1)"

subsection \<open>Construction\<close>

definition MMR_SCHEME_AUTO :: string where
  "MMR_SCHEME_AUTO = ''auto''"

definition MMR_NEW_CHAIN_DEFAULT_SCHEME :: string where
  "MMR_NEW_CHAIN_DEFAULT_SCHEME = HASH_SCHEME_V2"

text \<open>The fields before the log is read.\<close>

definition before_load :: "bool \<Rightarrow> string \<Rightarrow> string list \<Rightarrow> engine \<Rightarrow> mmr \<Rightarrow> ledger \<Rightarrow> ledger" where
  "before_load pinned scheme trusted e m c =
     c\<lparr>lg_hsm_learned_scheme := [], lg_trusted_public_keys := trusted, lg_scheme_pinned := pinned,
       lg_mmr_hash_scheme := scheme, lg_chain := [], lg_window_anchor_hash := replicate 64 CHR ''0'',
       lg_wal_open := False, lg_wal_bytes := 0, lg_fault_state := healthy, lg_commit_engine := e,
       lg_mmr := m, lg_wal_proof_version := None\<rparr>"

text \<open>
  \<open>__init__\<close>: \<open>c\<close> carries the configuration (keys, bounds, signers) and the files; \<open>mb\<close> and
  \<open>wait_s\<close> are the resolved batch settings, \<open>open_ok\<close> and \<open>sz\<close> the outcome of opening the log.
\<close>

definition ledger_init ::
  "nat \<Rightarrow> string \<Rightarrow> int \<Rightarrow> rat \<Rightarrow> string list option \<Rightarrow> bool \<Rightarrow> nat \<Rightarrow> ledger \<Rightarrow> ledger res" where
  "ledger_init oid scheme mb wait_s keys open_ok sz c =
     (if scheme_proof_version scheme = None \<and> scheme \<noteq> MMR_SCHEME_AUTO
      then Inl (ValueError ''mmr_hash_scheme must be auto or one of the schemes'')
      else
        let pinned = (scheme \<noteq> MMR_SCHEME_AUTO);
            used = (if pinned then scheme else MMR_NEW_CHAIN_DEFAULT_SCHEME) in
        bind_res (normalise_trusted_public_keys keys) (\<lambda>trusted.
          bind_res (engine_init mb wait_s) (\<lambda>e.
            bind_res (fresh_mmr oid used) (\<lambda>m.
              bind_res (load_from_wal oid (before_load pinned used trusted e m c)) (\<lambda>l.
                Inr (open_wal open_ok sz l))))))"

end
