(* ===== verification/Ledger_Integrity.thy ===== *)
theory Ledger_Integrity
  imports Ledger_Verify
begin

section \<open>A ledger always verifies\<close>

text \<open>
  Whatever sequence of commits is made, and whatever fails during them, the integrity sweep
  of the ledger finds nothing; a failed commit leaves chain and accumulator as they were.
  The proofs use the accumulator only through the interface \<open>accumulator\<close>. What is relied on
  of signers outside the sources is \<open>signers_ok\<close>: a signature a signer returns has the shape
  of its scheme and is accepted by the corresponding verifier.
\<close>

subsection \<open>The sweep as a predicate\<close>

fun clean :: "verifiers \<Rightarrow> ledger \<Rightarrow> string \<Rightarrow> audit_node list \<Rightarrow> bool" where
  "clean vs l p [] = True"
| "clean vs l p (n # ns) \<longleftrightarrow> node_violation vs l p n = Inr False \<and> clean vs l (node_hash n) ns"

lemma sweep_clean: "clean vs l p ns \<Longrightarrow> sweep vs l i p ns = Inr (True, None)"
  by (induction ns arbitrary: i p) simp_all

definition end_hash :: "string \<Rightarrow> audit_node list \<Rightarrow> string" where
  "end_hash p ns = (if ns = [] then p else node_hash (last ns))"

lemma clean_snoc: "clean vs l p (ns @ [n]) \<longleftrightarrow> clean vs l p ns \<and> node_violation vs l (end_hash p ns) n = Inr False"
  by (induction ns arbitrary: p) (auto simp: end_hash_def)

text \<open>What the checks read of a ledger.\<close>

definition same_keys :: "ledger \<Rightarrow> ledger \<Rightarrow> bool" where
  "same_keys l l' \<longleftrightarrow>
     lg_signing_key l' = lg_signing_key l \<and> lg_require_strong_signing l' = lg_require_strong_signing l
     \<and> lg_trusted_public_keys l' = lg_trusted_public_keys l \<and> lg_pqc l' = lg_pqc l \<and> lg_hsm l' = lg_hsm l
     \<and> lg_max_memory_nodes l' = lg_max_memory_nodes l"

lemma same_keys_refl [simp]: "same_keys l l"
  by (simp add: same_keys_def)

lemma same_keys_trans: "same_keys l l' \<Longrightarrow> same_keys l' l'' \<Longrightarrow> same_keys l l''"
  by (simp add: same_keys_def)

lemma trusted_cong: "same_keys l l' \<Longrightarrow> trusted_signing_keys l' = trusted_signing_keys l"
  by (simp add: trusted_signing_keys_def same_keys_def split: option.split)

lemma status_cong: "same_keys l l' \<Longrightarrow> signature_status vs l' n = signature_status vs l n"
  unfolding signature_status_def scheme_verdict_def by (simp only: trusted_cong) (simp only: same_keys_def)

lemma node_violation_cong: "same_keys l l' \<Longrightarrow> node_violation vs l' p n = node_violation vs l p n"
  unfolding node_violation_def by (simp only: status_cong) (simp only: same_keys_def)

lemma clean_cong: "same_keys l l' \<Longrightarrow> clean vs l' p ns = clean vs l p ns"
  by (induction ns arbitrary: p) (simp_all add: node_violation_cong)

subsection \<open>Signers\<close>

definition signers_ok :: "verifiers \<Rightarrow> commit_env \<Rightarrow> ledger \<Rightarrow> bool" where
  "signers_ok vs ev l \<longleftrightarrow>
     (\<forall>p sig pub. ev_ed25519_sign ev p = (sig, pub) \<longrightarrow>
        length sig = 64 \<and> length pub = 32 \<and> ed25519_verify vs pub sig p)
     \<and> (\<forall>h p sig pub label. lg_hsm l = Some h \<longrightarrow> hsm_sign h p = Inr (sig, pub, label) \<longrightarrow>
        sig \<noteq> [] \<and> is_hex_token pub \<and> label \<in> {''pkcs11-rsa-pss-sha256'', ''pkcs11-ecdsa-sha256''})
     \<and> (\<forall>s. lg_pqc l = Some s \<longrightarrow>
        pqc_public_key s \<noteq> [] \<and> (lg_require_strong_signing l \<longrightarrow> rust_available vs)
        \<and> (\<forall>p sig. pqc_sign s p = Inr sig \<longrightarrow> sig \<noteq> [] \<and> pqc_verify vs p sig (pqc_public_key s) = Inr True))"

lemma hex_eq_Nil [simp]: "hex xs = [] \<longleftrightarrow> xs = []"
  by (metis hex_Nil hex_inj)

lemma hex_token_hex: "xs \<noteq> [] \<Longrightarrow> is_hex_token (hex xs)"
proof -
  have "c \<in> set ''0123456789abcdefABCDEF''" if "c \<in> set (hex xs)" for c
    using hex_chars [OF that] by (auto simp: hex_digits_def)
  then show "xs \<noteq> [] \<Longrightarrow> is_hex_token (hex xs)" by (simp add: is_hex_token_def list_all_iff)
qed

lemma lower_hex: "lower (hex xs) = hex xs"
proof -
  have "lower_char c = c" if "c \<in> set hex_digits" for c
    using that by (auto simp: lower_char_def hex_digits_def)
  then show ?thesis
    using hex_chars by (simp add: lower_def map_idI)
qed

text \<open>The bytes a node was signed over are among those the verifier tries.\<close>

lemma set_candidates:
  assumes "signed_payload_candidates_for n = Inr cs" and "map_of SCHEME_MATERIAL (an_signature_scheme n) \<noteq> None"
  shows "\<exists>c cs'. build_signed_payload (fields_of_node n) (an_signature_scheme n) = Inr c \<and> cs = c # cs'"
  using assms by (auto simp: signed_payload_candidates_for_def bind_res_eq_Inr Let_def split: if_splits)

lemma candidates_exist:
  assumes "build_signed_payload (fields_of_node n) (an_signature_scheme n) = Inr p"
  shows "\<exists>cs. signed_payload_candidates_for n = Inr cs"
proof -
  from assms obtain v s where "validate_waf_verdict (sf_waf_verdict (fields_of_node n)) = Inr v"
    "validate_node_status (sf_status (fields_of_node n)) = Inr s"
    unfolding build_signed_payload_def bind_res_eq_Inr by blast
  with assms show ?thesis
    by (simp add: signed_payload_candidates_for_def build_prebinding_signed_payload_def build_signed_payload_def Let_def)
qed

definition well_signed :: "verifiers \<Rightarrow> ledger \<Rightarrow> audit_node \<Rightarrow> bool" where
  "well_signed vs l n \<longleftrightarrow>
     signature_status vs l n \<noteq> Invalid
     \<and> (lg_require_strong_signing l \<longrightarrow> \<not> an_is_fallback n
        \<and> \<not> (signature_status vs l n = Unverified \<and> an_signature_scheme n \<in> set PINNED_KEY_SCHEMES))"

text \<open>What each tier puts into a node, and that the verifier is content with it.\<close>

inductive signed_as :: "verifiers \<Rightarrow> commit_env \<Rightarrow> ledger \<Rightarrow> (string \<Rightarrow> bytes res) \<Rightarrow> signed \<Rightarrow> bool" for vs ev l build where
  Token: "sig \<noteq> [] \<Longrightarrow> is_hex_token pub \<Longrightarrow> label \<in> {''pkcs11-rsa-pss-sha256'', ''pkcs11-ecdsa-sha256''} \<Longrightarrow>
    build bound = Inr payload \<Longrightarrow> signed_as vs ev l build (hex sig, pub, label, False, payload)"
| Identity: "lg_pqc l = Some s \<Longrightarrow> build ''pqc-ml-dsa'' = Inr payload \<Longrightarrow> pqc_sign s payload = Inr sig \<Longrightarrow>
    signed_as vs ev l build (hex sig, hex (pqc_public_key s), ''pqc-ml-dsa'', False, payload)"
| Keyed: "lg_signing_key l \<noteq> [] \<Longrightarrow> build ''hmac-sha256'' = Inr payload \<Longrightarrow>
    signed_as vs ev l build (hmac_sign (lg_signing_key l) payload, [], ''hmac-sha256'', False, payload)"
| Ephemeral: "\<not> lg_require_strong_signing l \<Longrightarrow> build ''ed25519-fallback'' = Inr payload \<Longrightarrow>
    ev_ed25519_sign ev payload = (sig, pub) \<Longrightarrow>
    signed_as vs ev l build (hex sig, hex pub, ''ed25519-fallback'', True, payload)"

lemma sign_software_cases:
  assumes "sign_software ev l build = Inr sg"
  shows "signed_as vs ev l build sg"
proof (cases "lg_signing_key l = []")
  case True
  with assms obtain p where "\<not> lg_require_strong_signing l" "build ''ed25519-fallback'' = Inr p"
    "sg = (hex (fst (ev_ed25519_sign ev p)), hex (snd (ev_ed25519_sign ev p)), ''ed25519-fallback'', True, p)"
    by (auto simp: sign_software_def bind_res_eq_Inr case_prod_unfold Let_def split: if_splits)
  then show ?thesis by (simp add: Ephemeral)
next
  case False
  with assms show ?thesis by (auto simp: sign_software_def bind_res_eq_Inr intro: Keyed)
qed

lemma sign_pqc_cases: "sign_pqc ev l build = Inr sg \<Longrightarrow> signed_as vs ev l build sg"
  by (auto simp: sign_pqc_def bind_res_eq_Inr bind_res_eq_Inl split: option.splits sum.splits if_splits
      intro: sign_software_cases Identity)

lemma sign_hsm_cases:
  assumes "fst (sign_hsm h build learned) = Inr sg" and "signers_ok vs ev l" and "lg_hsm l = Some h"
  shows "signed_as vs ev l build sg"
proof -
  have tok: "signed_as vs ev l build (hex sig, pub, label, False, payload)"
    if "hsm_sign h payload = Inr (sig, pub, label)" "build bound = Inr payload" for sig pub label bound payload
    using that assms(2,3) by (intro Token) (auto simp: signers_ok_def)
  from assms(1) show ?thesis
    by (auto simp: sign_hsm_def bind_res_eq_Inr bind_res_eq_Inl split: sum.splits if_splits prod.splits dest: tok)
qed

lemma sign_bound_cases:
  assumes "sign_bound ev l build = (Inr sg, l')" and "signers_ok vs ev l"
  shows "signed_as vs ev l build sg"
proof -
  have pqc: "signed_as vs ev l build sg" if "sign_pqc ev (l\<lparr>lg_hsm_learned_scheme := x\<rparr>) build = Inr sg" for x
    using sign_pqc_cases [OF that, of vs] by (cases rule: signed_as.cases) (auto intro: signed_as.intros)
  have plain: "signed_as vs ev l build sg" if "sign_pqc ev l build = Inr sg"
    using sign_pqc_cases [OF that] .
  show ?thesis
  proof (cases "lg_hsm l")
    case None
    with assms(1) have "sign_pqc ev l build = Inr sg" by (auto simp: sign_bound_def)
    then show ?thesis by (rule plain)
  next
    case (Some h)
    obtain r learned where r: "sign_hsm h build (lg_hsm_learned_scheme l) = (r, learned)" by force
    with assms(1) Some show ?thesis
      using plain pqc sign_hsm_cases [OF _ assms(2) Some, of build "lg_hsm_learned_scheme l" sg]
      by (auto simp: sign_bound_def Let_def split: if_splits sum.splits)
  qed
qed

lemma length_hmac_sign [simp]: "length (hmac_sign k d) = 64"
  by (simp add: hmac_sign_def)

lemma hmac_sign_token: "is_hex_token (hmac_sign k d)"
proof -
  have "length (hmac_sha256 (encode k) d) = 32" by simp
  then have "hmac_sha256 (encode k) d \<noteq> []" by (metis list.size(3) zero_neq_numeral)
  then show ?thesis unfolding hmac_sign_def by (rule hex_token_hex)
qed

text \<open>
  A node that carries what a tier returned over its own fields is well signed.
\<close>

lemma signed_as_well_signed:
  assumes "signed_as vs ev l (build_signed_payload (fields_of_node n)) sg" and "signers_ok vs ev l"
    and sg: "sg = (an_signature n, an_public_key n, an_signature_scheme n, an_is_fallback n, p)"
  shows "well_signed vs l n"
  using assms(1)
proof (cases rule: signed_as.cases)
  case (Token sig pub label bound payload)
  with sg have n: "an_signature n = hex sig" "an_public_key n = pub" "an_signature_scheme n = label" "\<not> an_is_fallback n"
    by simp_all
  have "pub \<noteq> []" using Token(3) by (auto simp: is_hex_token_def)
  with n Token hex_token_hex have "scheme_material_inconsistency n = None"
    by (auto simp: scheme_material_inconsistency_def SCHEME_MATERIAL_def)
  moreover from Token(5) obtain v s where "validate_waf_verdict (sf_waf_verdict (fields_of_node n)) = Inr v"
    "validate_node_status (sf_status (fields_of_node n)) = Inr s"
    unfolding build_signed_payload_def bind_res_eq_Inr by blast
  then have "\<exists>cs. signed_payload_candidates_for n = Inr cs"
    using n Token(4)
    by (auto simp: signed_payload_candidates_for_def build_prebinding_signed_payload_def build_signed_payload_def
        validate_signature_scheme_def SCHEME_MATERIAL_def Let_def)
  ultimately have "signature_status vs l n = Unverified"
    using n Token(4) by (auto simp: signature_status_def scheme_verdict_def)
  with n Token(4) show ?thesis by (auto simp: well_signed_def PINNED_KEY_SCHEMES_def)
next
  case (Identity s payload sig)
  with sg have n: "an_signature n = hex sig" "an_public_key n = hex (pqc_public_key s)" "an_signature_scheme n = ''pqc-ml-dsa''"
    "\<not> an_is_fallback n" by simp_all
  have ok: "sig \<noteq> []" "pqc_public_key s \<noteq> []" "pqc_verify vs payload sig (pqc_public_key s) = Inr True"
    "lg_require_strong_signing l \<Longrightarrow> rust_available vs"
    using assms(2) Identity unfolding signers_ok_def by blast+
  have mat: "scheme_material_inconsistency n = None"
    using n ok hex_token_hex by (simp add: scheme_material_inconsistency_def SCHEME_MATERIAL_def)
  have "build_signed_payload (fields_of_node n) (an_signature_scheme n) = Inr payload"
    using Identity n by simp
  from candidates_exist [OF this] set_candidates [of n] this obtain cs where
    "signed_payload_candidates_for n = Inr (payload # cs)"
    using n by (auto simp: SCHEME_MATERIAL_def)
  moreover have "hex (pqc_public_key s) \<in> set (trusted_signing_keys l)" "trusted_signing_keys l \<noteq> []"
    using Identity by (simp_all add: trusted_signing_keys_def)
  ultimately have "signature_status vs l n = (if rust_available vs then Valid else Unverified)"
    using n ok mat by (simp add: signature_status_def scheme_verdict_def lower_hex Let_def)
  with n ok(4) show ?thesis by (simp add: well_signed_def)
next
  case (Keyed payload)
  with sg have n: "an_signature n = hmac_sign (lg_signing_key l) payload" "an_public_key n = []"
    "an_signature_scheme n = ''hmac-sha256''" "\<not> an_is_fallback n" by auto
  have mat: "scheme_material_inconsistency n = None"
    using n hmac_sign_token by (simp add: scheme_material_inconsistency_def SCHEME_MATERIAL_def)
  have "build_signed_payload (fields_of_node n) (an_signature_scheme n) = Inr payload"
    using Keyed n by simp
  from candidates_exist [OF this] set_candidates [of n] this obtain cs where
    "signed_payload_candidates_for n = Inr (payload # cs)"
    using n by (auto simp: SCHEME_MATERIAL_def)
  then have "signature_status vs l n = Valid"
    using n mat Keyed by (simp add: signature_status_def scheme_verdict_def hmac_verify_def)
  with n show ?thesis by (simp add: well_signed_def)
next
  case (Ephemeral payload sig pub)
  with sg have n: "an_signature n = hex sig" "an_public_key n = hex pub" "an_signature_scheme n = ''ed25519-fallback''"
    by simp_all
  have ok: "length sig = 64" "length pub = 32" "ed25519_verify vs pub sig payload"
    using assms(2) Ephemeral unfolding signers_ok_def by blast+
  then have "sig \<noteq> []" "pub \<noteq> []" by auto
  then have mat: "scheme_material_inconsistency n = None"
    using n ok hex_token_hex by (simp add: scheme_material_inconsistency_def SCHEME_MATERIAL_def)
  have "build_signed_payload (fields_of_node n) (an_signature_scheme n) = Inr payload"
    using Ephemeral n by simp
  from candidates_exist [OF this] set_candidates [of n] this obtain cs where
    "signed_payload_candidates_for n = Inr (payload # cs)"
    using n by (auto simp: SCHEME_MATERIAL_def)
  then have "signature_status vs l n = Unverified"
    using n ok mat by (simp add: signature_status_def scheme_verdict_def)
  with n Ephemeral show ?thesis by (simp add: well_signed_def)
qed

subsection \<open>What the helpers leave alone\<close>

text \<open>Everything of a ledger except the log, its engine, the vault and the learned label.\<close>

definition core :: "ledger \<Rightarrow> ledger" where
  "core l = l\<lparr>lg_hsm_learned_scheme := [], lg_wal_open := False, lg_wal_bytes := 0, lg_commit_engine := undefined,
     lg_shredder := None, lg_segments := [], lg_active := [], lg_mmr_state := None\<rparr>"

lemma core_sel:
  assumes "core l' = core l"
  shows "same_keys l l'" "lg_chain l' = lg_chain l" "lg_window_anchor_hash l' = lg_window_anchor_hash l"
    "lg_mmr l' = lg_mmr l" "lg_fault_state l' = lg_fault_state l" "lg_max_memory_nodes l' = lg_max_memory_nodes l"
    "lg_max_forensic_bytes l' = lg_max_forensic_bytes l" "lg_mmr_hash_scheme l' = lg_mmr_hash_scheme l"
    "lg_wal_proof_version l' = lg_wal_proof_version l"
  using assms by (cases l; cases l'; simp add: core_def same_keys_def)+

lemma core_simps [simp]:
  "core (l\<lparr>lg_hsm_learned_scheme := a\<rparr>) = core l" "core (l\<lparr>lg_wal_open := b\<rparr>) = core l"
  "core (l\<lparr>lg_wal_bytes := c\<rparr>) = core l" "core (l\<lparr>lg_commit_engine := d\<rparr>) = core l"
  "core (l\<lparr>lg_shredder := e\<rparr>) = core l" "core (l\<lparr>lg_segments := f\<rparr>) = core l"
  "core (l\<lparr>lg_active := g\<rparr>) = core l" "core (l\<lparr>lg_mmr_state := h\<rparr>) = core l"
  by (simp_all add: core_def)

lemma core_mmr: "core (l\<lparr>lg_mmr := m\<rparr>) = (core l)\<lparr>lg_mmr := m\<rparr>"
  by (simp add: core_def)

lemma core_save [simp]: "core (snd (save_mmr_state ok l)) = core l"
  by (simp add: save_mmr_state_def split: sum.split)

lemma core_open [simp]: "core (open_wal ok sz l) = core l"
  by (simp add: open_wal_def)

lemma core_engine [simp]: "core (engine_fails x l) = core l" "core (engine_synced l) = core l"
  by (simp_all add: engine_fails_def engine_synced_def)

lemma core_rotate: "rotate_wal rv l = (r, l') \<Longrightarrow> core l' = core l"
  by (auto simp: rotate_wal_def Let_def split: if_splits)

lemma core_persist: "persist_node ev n l = (r, l') \<Longrightarrow> core l' = core l"
  by (auto simp: persist_node_def Let_def dest!: core_rotate
      split: if_splits sum.splits write_outcome.splits prod.splits)

lemma core_sign: "sign_bound ev l build = (r, l') \<Longrightarrow> core l' = core l"
  by (auto simp: sign_bound_def Let_def split: option.splits if_splits prod.splits sum.splits)

lemma core_seal: "seal_leaf ev leaf s l = (r, l') \<Longrightarrow> core l' = core l"
  by (auto simp: seal_leaf_def split: option.splits prod.splits)

lemma core_digest: "payload_digest ev d s l = (r, l') \<Longrightarrow> core l' = core l"
  by (auto simp: payload_digest_def split: option.splits prod.splits if_splits)

lemma signers_core: "core l' = core l \<Longrightarrow> signers_ok vs ev l' = signers_ok vs ev l"
  using core_sel(1) [of l' l] by (simp add: signers_ok_def same_keys_def)

lemma seal_leaf_digest: "seal_leaf ev leaf s l = (Inr (h, sealed), l') \<Longrightarrow> is_sha256_hex_str h"
  by (auto simp: seal_leaf_def commitment_hex_def commitment_def bind_res_eq_Inr is_sha256_hex_str_hex
      split: option.splits prod.splits)

subsection \<open>The invariant\<close>

definition ledger_inv :: "verifiers \<Rightarrow> ledger \<Rightarrow> bool" where
  "ledger_inv vs l \<longleftrightarrow>
     mmr_inv (lg_mmr l) \<and> clean vs l (lg_window_anchor_hash l) (lg_chain l)
     \<and> (lg_chain l = [] \<longrightarrow> lg_window_anchor_hash l = replicate 64 CHR ''0'') \<and> 0 < lg_max_memory_nodes l"

lemma ledger_inv_core: "core l' = core l \<Longrightarrow> ledger_inv vs l' = ledger_inv vs l"
  using core_sel [of l' l] clean_cong [of l l'] by (simp add: ledger_inv_def)

lemma inv_verifies: "ledger_inv vs l \<Longrightarrow> verify_integrity vs l = Inr (True, None)"
  by (simp add: ledger_inv_def verify_integrity_def sweep_clean)

lemma latch_sel [simp]:
  "lg_chain (latch f l) = lg_chain l" "lg_window_anchor_hash (latch f l) = lg_window_anchor_hash l"
  "lg_mmr (latch f l) = lg_mmr l" "lg_max_memory_nodes (latch f l) = lg_max_memory_nodes l"
  "lg_fault_state (latch f l) = f" "same_keys l (latch f l)" "lg_active (latch f l) = lg_active l"
  "lg_segments (latch f l) = lg_segments l"
  by (simp_all add: latch_def same_keys_def)

lemma ledger_inv_latch [simp]: "ledger_inv vs (latch f l) = ledger_inv vs l"
  by (simp add: ledger_inv_def clean_cong [of l "latch f l"])

lemma node_hash_post_init [simp]: "node_hash (post_init n) = node_hash n"
  by (simp add: post_init_def node_hash_def node_content_def)

lemma complete_node_ok:
  assumes n: "n = complete_node tmpl ev p r sg h cnt doc sealed"
    and sg: "signed_as vs ev l (build_signed_payload ((fields_of_node tmpl)\<lparr>sf_prev_hash := p, sf_merkle_root := r\<rparr>)) sg"
    and "signers_ok vs ev l" and doc: "document_accepted h (int cnt - 1) (int cnt) r doc = Inr True"
  shows "node_violation vs l p n = Inr False"
proof -
  obtain sig pub sch fb pl where s: "sg = (sig, pub, sch, fb, pl)" by (cases sg)
  have fields: "fields_of_node n = (fields_of_node tmpl)\<lparr>sf_prev_hash := p, sf_merkle_root := r\<rparr>"
    and own: "sg = (an_signature n, an_public_key n, an_signature_scheme n, an_is_fallback n, pl)"
    by (simp_all add: n s complete_node_def post_init_def fields_of_node_def)
  have "well_signed vs l n"
    using signed_as_well_signed [of vs ev l n sg pl] sg fields assms(3) own by simp
  moreover have "node_hash n = an_creation_hash n" "an_prev_hash n = p"
    by (simp_all add: n s complete_node_def) (simp_all add: post_init_def)
  moreover have "proof_violation n = Inr False"
    using doc by (simp add: n s complete_node_def proof_violation_def post_init_def)
  ultimately show ?thesis
    by (auto simp: node_violation_def well_signed_def Let_def)
qed

lemma append_memory_inv:
  assumes inv: "ledger_inv vs l" and v: "node_violation vs l (tip_hash l) n = Inr False" and m: "mmr_inv m"
    and core: "core l' = core (l\<lparr>lg_mmr := m\<rparr>)"
  shows "\<exists>l''. append_memory_node n l' = (Inr (), l'') \<and> ledger_inv vs l'' \<and> same_keys l l''"
proof -
  have sel: "lg_chain l' = lg_chain l" "lg_window_anchor_hash l' = lg_window_anchor_hash l" "lg_mmr l' = m"
    "lg_max_memory_nodes l' = lg_max_memory_nodes l" and keys: "same_keys l l'"
    using core_sel [OF core] by (simp_all add: same_keys_def)
  have tip: "tip_hash l = end_hash (lg_window_anchor_hash l) (lg_chain l)"
    using inv by (simp add: tip_hash_def end_hash_def ledger_inv_def)
  have all: "clean vs l (lg_window_anchor_hash l) (lg_chain l @ [n])"
    using inv v tip by (simp add: ledger_inv_def clean_snoc)
  show ?thesis
  proof (cases "length (lg_chain l) = lg_max_memory_nodes l")
    case True
    with inv obtain a rest where c: "lg_chain l = a # rest"
      by (cases "lg_chain l") (auto simp: ledger_inv_def)
    let ?l = "l'\<lparr>lg_window_anchor_hash := node_hash a, lg_chain := rest @ [n]\<rparr>"
    have "same_keys l ?l" using keys by (simp add: same_keys_def)
    moreover from all c have "clean vs l (node_hash a) (rest @ [n])" by simp
    ultimately have "ledger_inv vs ?l"
      using inv m sel by (simp add: ledger_inv_def clean_cong)
    with True c sel \<open>same_keys l ?l\<close> show ?thesis by (simp add: append_memory_node_def)
  next
    case False
    let ?l = "l'\<lparr>lg_chain := lg_chain l @ [n]\<rparr>"
    have "same_keys l ?l" using keys by (simp add: same_keys_def)
    with all inv m sel have "ledger_inv vs ?l" by (simp add: ledger_inv_def clean_cong)
    with False sel \<open>same_keys l ?l\<close> show ?thesis by (simp add: append_memory_node_def)
  qed
qed

subsection \<open>One commit\<close>

definition wal_lines :: "ledger \<Rightarrow> wal_line list" where
  "wal_lines l = concat (lg_segments l) @ lg_active l"

definition same_view :: "ledger \<Rightarrow> ledger \<Rightarrow> bool" where
  "same_view l l' \<longleftrightarrow>
     lg_chain l' = lg_chain l \<and> lg_window_anchor_hash l' = lg_window_anchor_hash l
     \<and> same_state (lg_mmr l) (lg_mmr l') \<and> same_keys l l'"

lemma same_state_refl [simp]: "same_state m m"
  by (simp add: same_state_def)

lemma same_view_core: "core l' = core l \<Longrightarrow> same_view l l'"
  using core_sel [of l' l] by (simp add: same_view_def)

text \<open>The files a helper leaves alone: they change only in \<open>persist_node\<close>.\<close>

lemma wal_lines_sign: "sign_bound ev l build = (r, l') \<Longrightarrow> wal_lines l' = wal_lines l"
  by (auto simp: sign_bound_def wal_lines_def Let_def split: option.splits if_splits prod.splits sum.splits)

lemma wal_lines_seal: "seal_leaf ev leaf s l = (r, l') \<Longrightarrow> wal_lines l' = wal_lines l"
  by (auto simp: seal_leaf_def wal_lines_def split: option.splits prod.splits)

lemma wal_lines_digest: "payload_digest ev d s l = (r, l') \<Longrightarrow> wal_lines l' = wal_lines l"
  by (auto simp: payload_digest_def wal_lines_def split: option.splits prod.splits if_splits)

lemma wal_lines_save: "wal_lines (snd (save_mmr_state ok l)) = wal_lines l"
  by (simp add: save_mmr_state_def wal_lines_def split: sum.split)

lemma wal_lines_files:
  "wal_lines (open_wal ok sz l) = wal_lines l" "wal_lines (engine_fails x l) = wal_lines l"
  "wal_lines (engine_synced l) = wal_lines l" "wal_lines (l\<lparr>lg_wal_open := b\<rparr>) = wal_lines l"
  "wal_lines (l\<lparr>lg_mmr := m\<rparr>) = wal_lines l" "wal_lines (latch f l) = wal_lines l"
  by (simp_all add: wal_lines_def open_wal_def engine_fails_def engine_synced_def latch_def)

lemma rotate_lines: "rotate_wal rv l = (Inr u, l') \<Longrightarrow> wal_lines l' = wal_lines l"
  using wal_lines_save [of "rot_save_ok rv" l]
  by (auto simp: rotate_wal_def Let_def wal_lines_files split: if_splits)
    (auto simp: wal_lines_def open_wal_def engine_synced_def)

lemma persist_lines:
  assumes "persist_node ev n l = (Inr t, l')"
  shows "wal_lines l' = wal_lines l @ [Document (node_to_dict n)]"
  using assms
  by (auto simp: persist_node_def Let_def dest!: rotate_lines
      split: if_splits sum.splits write_outcome.splits prod.splits) (auto simp: wal_lines_def)

lemma rolled_back_undone:
  assumes "mmr_inv (lg_mmr l)" and "add_leaf_hash (lg_mmr l) h = Inr (r, m)" and "core l3 = core (l\<lparr>lg_mmr := m\<rparr>)"
    and "rolled_back (checkpoint (lg_mmr l)) fault e l3 = (res, l')"
  shows "res = Inl e \<and> same_view l l' \<and> mmr_inv (lg_mmr l') \<and> lg_fault_state l' = fault"
proof -
  from acc.undo_append [OF assms(1,2)] obtain m'' where
    m'': "rollback_to m (checkpoint (lg_mmr l)) = Inr m''" "same_state (lg_mmr l) m''" "mmr_inv m''" by blast
  have "lg_mmr l3 = m" "lg_chain l3 = lg_chain l" "lg_window_anchor_hash l3 = lg_window_anchor_hash l" "same_keys l l3"
    using core_sel [OF assms(3)] by (simp_all add: same_keys_def)
  with m'' assms(4) show ?thesis
    by (auto simp: rolled_back_def same_view_def same_keys_def latch_def)
qed

lemma ledger_inv_view:
  "ledger_inv vs l \<Longrightarrow> same_view l l' \<Longrightarrow> mmr_inv (lg_mmr l') \<Longrightarrow> ledger_inv vs l'"
  using clean_cong [of l l' vs] by (auto simp: ledger_inv_def same_view_def same_keys_def)

text \<open>
  The two ways the locked part of a commit ends: it raises, and then chain and accumulator
  are what they were; or it appends one node that the sweep accepts.
\<close>

definition unless_faulted :: "ledger \<Rightarrow> ledger \<Rightarrow> bool" where
  "unless_faulted l l' \<longleftrightarrow> lg_fault_state l' = healthy \<longrightarrow> core l' = core l \<and> wal_lines l' = wal_lines l"

lemma unless_faulted_simps [simp]: "unless_faulted l l" "f \<noteq> healthy \<Longrightarrow> unless_faulted l (latch f l')"
  by (simp_all add: unless_faulted_def)

lemma fault_names [simp]: "''signing_failed'' \<noteq> healthy" "''wal_persist_failed'' \<noteq> healthy"
  by (simp_all add: healthy_def)

definition extended :: "ledger \<Rightarrow> audit_node \<Rightarrow> ledger \<Rightarrow> bool" where
  "extended l n l' \<longleftrightarrow>
     (\<exists>m doc. add_leaf_hash (lg_mmr l) (an_mmr_leaf_hash n) = Inr (an_merkle_root n, m) \<and> lg_mmr l' = m
        \<and> issue_document m (int (get_leaf_count m) - 1) = Inr doc \<and> an_mmr_proof n = PDict doc)
     \<and> n = post_init n \<and> wal_lines l' = wal_lines l @ [Document (node_to_dict n)]
     \<and> lg_fault_state l' = lg_fault_state l
     \<and> (if length (lg_chain l) = lg_max_memory_nodes l
        then lg_chain l' = tl (lg_chain l) @ [n] \<and> lg_window_anchor_hash l' = node_hash (hd (lg_chain l))
        else lg_chain l' = lg_chain l @ [n] \<and> lg_window_anchor_hash l' = lg_window_anchor_hash l)"

lemma post_init_idem [simp]: "post_init (post_init n) = post_init n"
  by (simp add: post_init_def node_hash_def node_content_def)

lemma append_memory_extended:
  assumes "append_memory_node n l' = (Inr (), l'')"
  shows "(if length (lg_chain l') = lg_max_memory_nodes l'
        then lg_chain l'' = tl (lg_chain l') @ [n] \<and> lg_window_anchor_hash l'' = node_hash (hd (lg_chain l'))
        else lg_chain l'' = lg_chain l' @ [n] \<and> lg_window_anchor_hash l'' = lg_window_anchor_hash l')
     \<and> lg_mmr l'' = lg_mmr l' \<and> wal_lines l'' = wal_lines l' \<and> lg_fault_state l'' = lg_fault_state l'"
  using assms by (auto simp: append_memory_node_def wal_lines_def split: if_splits list.splits)

lemma commit_locked_outcome:
  assumes inv: "ledger_inv vs l" and ok: "signers_ok vs ev l"
    and eq: "commit_locked ev leaf s (fields_of_node tmpl) tmpl l = (res, l')"
  shows "ledger_inv vs l' \<and> same_keys l l' \<and>
    (case res of
       Inl e \<Rightarrow> same_view l l' \<and> unless_faulted l l'
     | Inr (n, t) \<Rightarrow> lg_fault_state l = healthy \<and> extended l n l')"
proof (cases "lg_fault_state l = healthy")
  case False
  with eq inv show ?thesis
    by (auto simp: commit_locked_def refuse_if_faulted_def same_view_def)
next
  case True
  note healthy = True
  obtain rs l1 where sl: "seal_leaf ev leaf s l = (rs, l1)" by force
  note c1 = core_seal [OF sl]
  show ?thesis
  proof (cases rs)
    case (Inl e)
    with eq sl healthy have "res = Inl e" "l' = l1"
      by (simp_all add: commit_locked_def refuse_if_faulted_def)
    with inv c1 show ?thesis
      using ledger_inv_core [OF c1] core_sel(1) [OF c1] same_view_core [OF c1] wal_lines_seal [OF sl]
      by (simp add: unless_faulted_def)
  next
    case (Inr hs)
    obtain h sealed where hs: "hs = (h, sealed)" by force
    have mi: "mmr_inv (lg_mmr l)" using inv by (simp add: ledger_inv_def)
    from acc.transaction [OF mi seal_leaf_digest [OF sl [unfolded Inr hs]]] obtain r m doc where
      add: "add_leaf_hash (lg_mmr l) h = Inr (r, m)" and m: "mmr_inv m" "get_leaf_count m = Suc (get_leaf_count (lg_mmr l))"
      and doc: "issue_document m (int (get_leaf_count m - 1)) = Inr doc"
      and acc: "document_accepted h (int (get_leaf_count m - 1)) (int (get_leaf_count m)) r doc = Inr True" by blast
    have idx: "int (get_leaf_count m - 1) = int (get_leaf_count m) - 1" using m(2) by simp
    let ?l2 = "l1\<lparr>lg_mmr := m\<rparr>"
    let ?b = "build_signed_payload ((fields_of_node tmpl)\<lparr>sf_prev_hash := tip_hash l, sf_merkle_root := r\<rparr>)"
    have c2: "core ?l2 = core (l\<lparr>lg_mmr := m\<rparr>)" using c1 by (simp add: core_mmr)
    have ml1: "lg_mmr l1 = lg_mmr l" using core_sel(4) [OF c1] .
    obtain rg l3 where sb: "sign_bound ev ?l2 ?b = (rg, l3)" by force
    have c3: "core l3 = core (l\<lparr>lg_mmr := m\<rparr>)" using core_sign [OF sb] c2 by simp
    have ok2: "signers_ok vs ev ?l2" using ok signers_core [OF c1, of vs ev] by (simp add: signers_ok_def)
    show ?thesis
    proof (cases rg)
      case (Inl e)
      with eq sl Inr hs healthy add doc idx sb ml1 have "rolled_back (checkpoint (lg_mmr l)) ''signing_failed'' e l3 = (res, l')"
        by (simp add: commit_locked_def refuse_if_faulted_def Let_def)
      from rolled_back_undone [OF mi add c3 this] have
        "res = Inl e" "same_view l l'" "mmr_inv (lg_mmr l')" "unless_faulted l l'" by (auto simp: unless_faulted_def)
      with inv ledger_inv_view show ?thesis by (auto simp: same_view_def)
    next
      case sg: (Inr sg)
      let ?n = "complete_node tmpl ev (tip_hash l) r sg h (get_leaf_count m) doc sealed"
      have "signed_as vs ev ?l2 ?b sg" using sign_bound_cases [OF sb [unfolded sg] ok2] .
      from complete_node_ok [OF refl this ok2] acc idx have "node_violation vs ?l2 (tip_hash l) ?n = Inr False" by simp
      moreover have "same_keys l ?l2" using core_sel(1) [OF c1] by (simp add: same_keys_def)
      ultimately have viol: "node_violation vs l (tip_hash l) ?n = Inr False" by (simp add: node_violation_cong)
      obtain rp l4 where pn: "persist_node ev ?n l3 = (rp, l4)" by force
      have c4: "core l4 = core (l\<lparr>lg_mmr := m\<rparr>)" using core_persist [OF pn] c3 by simp
      note step = sl Inr hs healthy add doc idx sb ml1 sg pn
      show ?thesis
      proof (cases rp)
        case (Inl e)
        with eq step have "rolled_back (checkpoint (lg_mmr l)) ''wal_persist_failed'' e l4 = (res, l')"
          by (simp add: commit_locked_def refuse_if_faulted_def Let_def)
        from rolled_back_undone [OF mi add c4 this] have
          "res = Inl e" "same_view l l'" "mmr_inv (lg_mmr l')" "unless_faulted l l'" by (auto simp: unless_faulted_def)
        with inv ledger_inv_view show ?thesis by (auto simp: same_view_def)
      next
        case (Inr t)
        from append_memory_inv [OF inv viol m(1) c4] obtain l5 where
          l5: "append_memory_node ?n l4 = (Inr (), l5)" "ledger_inv vs l5" "same_keys l l5" by blast
        have "wal_lines l4 = wal_lines l @ [Document (node_to_dict ?n)]"
          using persist_lines [OF pn [unfolded Inr]] wal_lines_sign [OF sb] wal_lines_seal [OF sl] by (simp add: wal_lines_files)
        with append_memory_extended [OF l5(1)] core_sel [OF c4] add doc idx
        have "extended l ?n l5"
          by (cases sg) (auto simp: extended_def complete_node_def, auto simp: post_init_def node_hash_def node_content_def)
        moreover from eq step Inr l5(1) have "res = Inr (?n, t)" "l' = l5"
          by (simp_all add: commit_locked_def refuse_if_faulted_def Let_def)
        ultimately show ?thesis using l5 healthy by simp
      qed
    qed
  qed
qed

subsection \<open>The operations\<close>

datatype ledger_op =
    Forensic commit_env forensic_args
  | Rejection commit_env string rejection_args
  | Summary commit_env summary_args
  | Shred string
  | Durability_Lost

text \<open>
  \<open>Durability_Lost\<close> is a commit of another thread that finds its record not durable while
  this sequence goes on: it latches the fault.
\<close>

fun ledger_do :: "ledger_op \<Rightarrow> ledger \<Rightarrow> ledger" where
  "ledger_do (Forensic ev a) l = snd (commit_forensic ev a l)"
| "ledger_do (Rejection ev i a) l = snd (commit_rejection ev i a l)"
| "ledger_do (Summary ev a) l = snd (commit_forensic_summary ev a l)"
| "ledger_do (Shred s) l = snd (crypto_shred s l)"
| "ledger_do Durability_Lost l = latch ''wal_persist_failed'' l"

fun op_ok :: "verifiers \<Rightarrow> ledger \<Rightarrow> ledger_op \<Rightarrow> bool" where
  "op_ok vs l (Forensic ev a) = signers_ok vs ev l"
| "op_ok vs l (Rejection ev i a) = signers_ok vs ev l"
| "op_ok vs l (Summary ev a) = signers_ok vs ev l"
| "op_ok vs l _ = True"

text \<open>Each commit path is digests, which leave the core alone, and then the common part.\<close>

inductive commits_via :: "commit_env \<Rightarrow> ledger \<Rightarrow> audit_node res \<times> ledger \<Rightarrow> bool" for ev l where
  Refused: "core l' = core l \<Longrightarrow> wal_lines l' = wal_lines l \<Longrightarrow> commits_via ev l (Inl e, l')"
| Locked: "core l1 = core l \<Longrightarrow> wal_lines l1 = wal_lines l \<Longrightarrow>
    commits_via ev l (commit_with ev leaf s (fields_of_node tmpl) tmpl l1)"

lemmas helper_frames = core_digest wal_lines_digest

lemma commit_forensic_via: "commits_via ev l (commit_forensic ev a l)"
proof -
  obtain r1 l1 where d1: "payload_digest ev (fa_request_bytes a) (fa_tenant_id a) l = (r1, l1)" by force
  obtain r2 l2 where d2: "(if response_body (fa_response_bytes a) = [] then (Inr [], l1)
      else payload_digest ev (response_body (fa_response_bytes a)) (fa_tenant_id a) l1) = (r2, l2)" by force
  have 1: "core l1 = core l" "wal_lines l1 = wal_lines l"
    using core_digest [OF d1] wal_lines_digest [OF d1] by simp_all
  have 2: "core l2 = core l" "wal_lines l2 = wal_lines l"
    using d2 1 core_digest [of ev _ _ l1] wal_lines_digest [of ev _ _ l1] by (auto split: if_splits)
  show ?thesis
    using 1 2 d1 d2
    by (auto simp: commit_forensic_def signed_fields_for_def Let_def intro: Refused Locked split: sum.splits)
qed

lemma commit_rejection_via: "commits_via ev l (commit_rejection ev i a l)"
proof -
  let ?s = "or_default (ra_tenant_id a) ''unattributed''"
  obtain r1 l1 where d1: "payload_digest ev (ra_request_bytes a) ?s l = (r1, l1)" by force
  obtain r2 l2 where d2: "payload_digest ev (rejection_decision a) ?s l1 = (r2, l2)" by force
  have 1: "core l1 = core l" "wal_lines l1 = wal_lines l"
    using core_digest [OF d1] wal_lines_digest [OF d1] by simp_all
  have 2: "core l2 = core l" "wal_lines l2 = wal_lines l"
    using core_digest [OF d2] wal_lines_digest [OF d2] 1 by simp_all
  show ?thesis
    using 1 2 d1 d2
    by (auto simp: commit_rejection_def signed_fields_for_def Let_def intro: Refused Locked split: sum.splits)
qed

lemma commit_summary_via: "commits_via ev l (commit_forensic_summary ev a l)"
  by (auto simp: commit_forensic_summary_def signed_fields_for_def Let_def intro: Refused Locked
      split: sum.splits prod.splits)

lemma commit_with_outcome:
  assumes inv: "ledger_inv vs l" and ok: "signers_ok vs ev l"
    and eq: "commit_with ev leaf s (fields_of_node tmpl) tmpl l = (res, l')"
  shows "ledger_inv vs l' \<and> same_keys l l' \<and>
    (case res of
       Inl e \<Rightarrow> (same_view l l' \<or> e = wal_durability_error \<and> lg_fault_state l' = ''wal_persist_failed'') \<and> unless_faulted l l'
     | Inr n \<Rightarrow> lg_fault_state l = healthy \<and> extended l n l')"
proof -
  obtain r l1 where cl: "commit_locked ev leaf s (fields_of_node tmpl) tmpl l = (r, l1)" by force
  note out = commit_locked_outcome [OF inv ok cl]
  show ?thesis
  proof (cases r)
    case (Inl e)
    with eq cl have "res = Inl e" "l' = l1" by (simp_all add: commit_with_def)
    with out Inl show ?thesis by simp
  next
    case (Inr nt)
    obtain n t where nt: "nt = (n, t)" by force
    have keys: "same_keys l (latch f l1)" for f
      using out by (simp add: same_keys_def latch_def)
    from eq cl Inr nt out keys show ?thesis
      by (auto simp: commit_with_def await_durable_def split: if_splits)
  qed
qed

lemma commits_via_outcome:
  assumes "commits_via ev l (res, l')" and inv: "ledger_inv vs l" and ok: "signers_ok vs ev l"
  shows "ledger_inv vs l' \<and> same_keys l l' \<and>
    (case res of
       Inl e \<Rightarrow> (same_view l l' \<or> e = wal_durability_error \<and> lg_fault_state l' = ''wal_persist_failed'') \<and> unless_faulted l l'
     | Inr n \<Rightarrow> lg_fault_state l = healthy \<and> extended l n l')"
  using assms(1)
proof (cases rule: commits_via.cases)
  case (Refused e)
  then have "core l' = core l" "wal_lines l' = wal_lines l" "res = Inl e" by simp_all
  with inv show ?thesis
    using ledger_inv_core [of l' l vs] same_view_core [of l' l] core_sel(1) [of l' l] by (simp add: unless_faulted_def)
next
  case (Locked l1 leaf s tmpl)
  have inv1: "ledger_inv vs l1" and ok1: "signers_ok vs ev l1"
    using inv ok ledger_inv_core [OF Locked(2)] signers_core [OF Locked(2)] by simp_all
  note out = commit_with_outcome [OF inv1 ok1 Locked(1) [symmetric]]
  note sel = core_sel [OF Locked(2)]
  have keys: "same_keys l l'" using out same_keys_trans [OF sel(1)] by blast
  show ?thesis
  proof (cases res)
    case (Inl e)
    have "same_view l l'" if "same_view l1 l'"
      using that sel(2,3,4) keys by (simp add: same_view_def)
    moreover have "unless_faulted l l'" if "unless_faulted l1 l'"
      using that Locked(2,3) by (simp add: unless_faulted_def)
    ultimately show ?thesis using Inl out keys by auto
  next
    case (Inr n)
    have "extended l n l'" if "extended l1 n l'"
      using that sel(2-6) Locked(3) by (simp add: extended_def)
    with Inr out keys sel(5) show ?thesis by simp
  qed
qed

text \<open>What a commit returns was sealed and completed from its template.\<close>

lemma commit_with_node:
  assumes "commit_with ev leaf subj f tmpl l = (Inr n, l')"
  shows "\<exists>r sg h cnt doc s l1. seal_leaf ev leaf subj l = (Inr (h, s), l1)
     \<and> n = complete_node tmpl ev (tip_hash l) r sg h cnt doc s"
proof -
  from assms obtain t l1 where "commit_locked ev leaf subj f tmpl l = (Inr (n, t), l1)"
    by (auto simp: commit_with_def split: sum.splits prod.splits)
  then show ?thesis
    by (auto simp: commit_locked_def rolled_back_def Let_def split: sum.splits prod.splits) blast
qed


lemma commits_via_inv:
  assumes "commits_via ev l r" and "ledger_inv vs l" and "signers_ok vs ev l"
  shows "ledger_inv vs (snd r) \<and> same_keys l (snd r)"
  using commits_via_outcome [of ev l "fst r" "snd r" vs] assms by simp

lemma ledger_do_inv:
  assumes "ledger_inv vs l" and "op_ok vs l op"
  shows "ledger_inv vs (ledger_do op l) \<and> same_keys l (ledger_do op l)"
proof (cases op)
  case (Forensic ev a)
  with assms commits_via_inv [OF commit_forensic_via] show ?thesis by simp
next
  case (Rejection ev i a)
  with assms commits_via_inv [OF commit_rejection_via] show ?thesis by simp
next
  case (Summary ev a)
  with assms commits_via_inv [OF commit_summary_via] show ?thesis by simp
next
  case (Shred s)
  have c: "core (snd (crypto_shred s l)) = core l"
    by (simp add: crypto_shred_def split: option.split prod.split)
  with Shred assms(1) show ?thesis using ledger_inv_core [OF c] core_sel(1) [OF c] by simp
next
  case Durability_Lost
  with assms(1) show ?thesis by simp
qed

subsection \<open>Reachable ledgers\<close>

definition new_ledger :: "ledger \<Rightarrow> bool" where
  "new_ledger l \<longleftrightarrow>
     (\<exists>oid scheme mb wait_s keys ok sz c. ledger_init oid scheme mb wait_s keys ok sz c = Inr l
        \<and> lg_segments c = [] \<and> lg_active c = [] \<and> 0 < lg_max_memory_nodes c)"

inductive ledger_reach :: "verifiers \<Rightarrow> ledger \<Rightarrow> bool" for vs where
  New: "new_ledger l \<Longrightarrow> ledger_reach vs l"
| Op: "ledger_reach vs l \<Longrightarrow> op_ok vs l op \<Longrightarrow> ledger_reach vs (ledger_do op l)"

lemma load_empty:
  assumes "lg_segments c = []" and "lg_active c = []" and "lg_wal_proof_version c = None"
  shows "load_from_wal oid c = Inr c"
  using assms by (simp add: load_from_wal_def restore_mmr_def adopt_scheme_def)

lemma open_wal_sel [simp]:
  "lg_chain (open_wal b k l) = lg_chain l" "lg_window_anchor_hash (open_wal b k l) = lg_window_anchor_hash l"
  "lg_fault_state (open_wal b k l) = lg_fault_state l" "lg_mmr (open_wal b k l) = lg_mmr l"
  "lg_mmr_hash_scheme (open_wal b k l) = lg_mmr_hash_scheme l" "lg_max_memory_nodes (open_wal b k l) = lg_max_memory_nodes l"
  by (simp_all add: open_wal_def)

lemma new_ledger_facts:
  assumes "new_ledger l"
  shows "\<exists>oid. mmr_init oid (lg_mmr_hash_scheme l) = Inr (lg_mmr l)" and "lg_chain l = []"
    and "lg_window_anchor_hash l = replicate 64 CHR ''0''" and "lg_fault_state l = healthy"
    and "wal_lines l = []" and "0 < lg_max_memory_nodes l"
proof -
  from assms obtain oid scheme mb wait_s keys ok sz c where
    i: "ledger_init oid scheme mb wait_s keys ok sz c = Inr l" and c: "lg_segments c = []" "lg_active c = []" "0 < lg_max_memory_nodes c"
    unfolding new_ledger_def by blast
  let ?load = "\<lambda>pinned used trusted e m.
    bind_res (load_from_wal oid (before_load pinned used trusted e m c)) (\<lambda>l. Inr (open_wal ok sz l))"
  have "\<exists>trusted e m. mmr_init oid used = Inr m \<and> ?load pinned used trusted e m = Inr l"
    if "bind_res (normalise_trusted_public_keys keys) (\<lambda>trusted. bind_res (engine_init mb wait_s) (\<lambda>e.
        bind_res (mmr_init oid used) (?load pinned used trusted e))) = Inr l" for pinned used
    using that by (cases "normalise_trusted_public_keys keys"; cases "engine_init mb wait_s"; cases "mmr_init oid used") auto
  with i obtain pinned used e m trusted where m: "mmr_init oid used = Inr m" and l: "?load pinned used trusted e m = Inr l"
    unfolding ledger_init_def Let_def fresh_mmr_def by (meson Inl_Inr_False)
  let ?b = "before_load pinned used trusted e m c"
  have "load_from_wal oid ?b = Inr ?b"
    using c by (intro load_empty) (simp_all add: before_load_def)
  with l have "l = open_wal ok sz ?b" by simp
  with m c show "lg_chain l = []" "lg_window_anchor_hash l = replicate 64 CHR ''0''" "lg_fault_state l = healthy"
    "wal_lines l = []" "0 < lg_max_memory_nodes l" and "\<exists>oid. mmr_init oid (lg_mmr_hash_scheme l) = Inr (lg_mmr l)"
    by (auto simp: wal_lines_files) (auto simp: before_load_def wal_lines_def)
qed

lemma new_ledger_inv: "new_ledger l \<Longrightarrow> ledger_inv vs l"
  using new_ledger_facts [of l] holds_mmr_inv [OF holds_init] by (auto simp: ledger_inv_def)

lemma reach_inv: "ledger_reach vs l \<Longrightarrow> ledger_inv vs l"
  by (induction rule: ledger_reach.induct) (simp_all add: new_ledger_inv ledger_do_inv)

text \<open>A latched fault stops every commit.\<close>

lemma frozen:
  assumes "lg_fault_state l \<noteq> healthy"
  shows "ledger_do op l = latch ''wal_persist_failed'' l
     \<or> core (ledger_do op l) = core l \<and> wal_lines (ledger_do op l) = wal_lines l"
proof -
  have via: "core (snd r) = core l \<and> wal_lines (snd r) = wal_lines l" if "commits_via ev l r" for ev r
    using that
  proof (cases rule: commits_via.cases)
    case (Locked l1 leaf s tmpl)
    have "lg_fault_state l1 \<noteq> healthy" using core_sel(5) [OF Locked(2)] assms by simp
    then have "snd r = l1"
      by (simp add: Locked(1) commit_with_def commit_locked_def refuse_if_faulted_def)
    with Locked show ?thesis by simp
  qed simp
  have shred: "core (snd (crypto_shred s l)) = core l \<and> wal_lines (snd (crypto_shred s l)) = wal_lines l" for s
    by (simp add: crypto_shred_def wal_lines_def split: option.split prod.split)
  show ?thesis
    using via [OF commit_forensic_via] via [OF commit_rejection_via] via [OF commit_summary_via] shred
    by (cases op) simp_all
qed

lemma faulted_stays: "lg_fault_state l \<noteq> healthy \<Longrightarrow> lg_fault_state (ledger_do op l) \<noteq> healthy"
  using frozen [of l op] core_sel(5) [of "ledger_do op l" l] by auto

subsection \<open>A ledger to evaluate\<close>

definition demo_verifiers :: verifiers where
  "demo_verifiers = \<lparr>ed25519_verify = \<lambda>_ _ _. True, rust_available = False, pqc_verify = \<lambda>_ _ _. Inr True\<rparr>"

definition demo_rotation :: rotation where
  "demo_rotation = \<lparr>rot_save_ok = True, rot_sync_ok = True, rot_exists = True, rot_rename_ok = True,
     rot_open_ok = True, rot_dir_sync_ok = True\<rparr>"

definition demo_env :: commit_env where
  "demo_env = \<lparr>ev_timestamp = Fin 1, ev_ed25519_sign = \<lambda>_. (replicate 64 0, replicate 32 0),
     ev_aead = tag_enc, ev_fresh_key = Inr [7], ev_nonce = [1], ev_write = Written, ev_line_bytes = 100, ev_wal_size = 0,
     ev_rotation = demo_rotation, ev_durable = True\<rparr>"

definition demo_config :: ledger where
  "demo_config =
     \<lparr>lg_signing_key = ''key'', lg_hsm = None, lg_hsm_learned_scheme = [], lg_require_strong_signing = True,
      lg_trusted_public_keys = [], lg_max_memory_nodes = 2, lg_max_forensic_bytes = 16, lg_max_wal_bytes = 0,
      lg_mmr_fast_restore = False, lg_scheme_pinned = False, lg_mmr_hash_scheme = [], lg_chain = [],
      lg_window_anchor_hash = [], lg_wal_open = False, lg_wal_bytes = 0, lg_fault_state = healthy,
      lg_commit_engine = projr (engine_init 1 0), lg_shredder = None, lg_pqc = None,
      lg_mmr = projr (mmr_init 0 HASH_SCHEME_V2), lg_wal_proof_version = None, lg_segments = [], lg_active = [],
      lg_mmr_state = None\<rparr>"

definition demo_ledger :: ledger where
  "demo_ledger = projr (ledger_init 0 MMR_SCHEME_AUTO 1 0 None True 0 demo_config)"

definition demo_rejection :: rejection_args where
  "demo_rejection = \<lparr>ra_request_bytes = [1, 2], ra_rejection_code = 403, ra_reason_category = ''waf_block'',
     ra_tenant_id = None, ra_state_id = Some ''r1'', ra_endpoint = ''chat''\<rparr>"

definition demo_args :: forensic_args where
  "demo_args = \<lparr>fa_state_id = [CHR 0x00], fa_request_bytes = [1], fa_response_bytes = None, fa_entropy = Fin 0,
     fa_tenant_id = ''t'', fa_model = ''m'', fa_endpoint = ''chat'', fa_token_trail = None, fa_usage = None,
     fa_sampling_params = None, fa_phi_scrubbed = False, fa_scrub_method = [], fa_signer_name = [],
     fa_signature_meaning = [], fa_waf_verdict = ''passed''\<rparr>"

lemma demo_init: "ledger_init 0 MMR_SCHEME_AUTO 1 0 None True 0 demo_config = Inr demo_ledger"
proof -
  have "\<exists>l. ledger_init 0 MMR_SCHEME_AUTO 1 0 None True 0 demo_config = Inr l"
    by (simp add: ledger_init_def Let_def normalise_trusted_public_keys_def engine_init_def fresh_mmr_def mmr_init_def
        MMR_NEW_CHAIN_DEFAULT_SCHEME_def load_empty before_load_def demo_config_def)
  then show ?thesis by (auto simp: demo_ledger_def)
qed

lemma demo_new: "new_ledger demo_ledger"
  unfolding new_ledger_def
  by (intro exI conjI, rule demo_init) (simp_all add: demo_config_def)

lemma demo_signers: "lg_hsm l = None \<Longrightarrow> lg_pqc l = None \<Longrightarrow> signers_ok demo_verifiers demo_env l"
  by (simp add: signers_ok_def demo_env_def demo_verifiers_def)

lemma demo_no_tokens: "lg_hsm demo_ledger = None" "lg_pqc demo_ledger = None"
  by (simp_all add: demo_ledger_def ledger_init_def Let_def normalise_trusted_public_keys_def engine_init_def fresh_mmr_def
      mmr_init_def MMR_NEW_CHAIN_DEFAULT_SCHEME_def load_empty before_load_def demo_config_def open_wal_def)

text \<open>
  C1. A ledger always verifies: start a ledger on an empty log, under any scheme and with any
  signers, and let it do any sequence of forensic, rejection and stream commits and key
  erasures, with whatever failing on the way (signing, the write, the rotation, the sync),
  or the window evicting old nodes. The integrity sweep of the result reports no violation.
\<close>

theorem ledger_always_verifies:
  assumes "ledger_reach vs l"
  shows "verify_integrity vs l = Inr (True, None)"
  using reach_inv [OF assms] by (rule inv_verifies)

theorem ledger_always_verifies_witness:
  "verify_integrity demo_verifiers (ledger_do (Rejection demo_env ''x'' demo_rejection) demo_ledger) = Inr (True, None)"
proof (rule ledger_always_verifies)
  show "ledger_reach demo_verifiers (ledger_do (Rejection demo_env ''x'' demo_rejection) demo_ledger)"
    by (rule Op [OF New [OF demo_new]]) (simp add: demo_signers demo_no_tokens)
qed

text \<open>
  C27. A failed commit leaves no trace: when a forensic commit raises, the chain, its anchor and
  the accumulator are what they were before the call; the only exception is a record that
  was written and whose sync failed, and then the fault that stops the ledger is latched.
\<close>

theorem failed_commit_leaves_no_trace:
  assumes "ledger_reach vs l" and "signers_ok vs ev l" and "commit_forensic ev a l = (Inl e, l')"
  shows "lg_chain l' = lg_chain l \<and> lg_window_anchor_hash l' = lg_window_anchor_hash l \<and> same_state (lg_mmr l) (lg_mmr l')
     \<or> e = wal_durability_error \<and> lg_fault_state l' = ''wal_persist_failed''"
  using commits_via_outcome [of ev l "Inl e" l' vs] commit_forensic_via [of ev l a] assms reach_inv [OF assms(1)]
  by (auto simp: same_view_def)

theorem failed_commit_leaves_no_trace_witness:
  "\<exists>e l'. commit_forensic demo_env demo_args demo_ledger = (Inl e, l') \<and> lg_chain l' = lg_chain demo_ledger"
proof -
  obtain e where c: "commit_forensic demo_env demo_args demo_ledger = (Inl (ValueError e), demo_ledger)"
    by (simp add: commit_forensic_def forensic_checks_def demo_args_def)
  have "lg_fault_state demo_ledger \<noteq> ''wal_persist_failed''"
    using new_ledger_facts(4) [OF demo_new] by (simp add: healthy_def)
  with failed_commit_leaves_no_trace [OF New [OF demo_new] demo_signers [OF demo_no_tokens] c] c show ?thesis by auto
qed

text \<open>
  C30. A fault is terminal: once a fault is latched, no operation changes the chain, the
  anchor, the accumulator or the log, and the ledger stays faulted.
\<close>

theorem faulted_ledger_is_frozen:
  assumes "lg_fault_state l \<noteq> healthy" and "l' = ledger_do op l"
  shows "lg_chain l' = lg_chain l \<and> lg_window_anchor_hash l' = lg_window_anchor_hash l \<and> lg_mmr l' = lg_mmr l
     \<and> wal_lines l' = wal_lines l \<and> lg_fault_state l' \<noteq> healthy"
  using frozen [OF assms(1), of op] core_sel [of l' l] assms by (auto simp: wal_lines_files healthy_def)

theorem faulted_ledger_is_frozen_witness:
  "lg_chain (ledger_do (Rejection demo_env ''x'' demo_rejection) (latch ''signing_failed'' demo_ledger)) = lg_chain demo_ledger"
  using faulted_ledger_is_frozen [of "latch ''signing_failed'' demo_ledger" _ "Rejection demo_env ''x'' demo_rejection", OF _ refl]
  by (simp add: healthy_def del: ledger_do.simps)

end
