(* ===== verification/Ledger_Progress.thy ===== *)
theory Ledger_Progress
  imports Ledger_Integrity
begin

section \<open>Commits succeed\<close>

text \<open>
  A commit is not only safe when it fails: with a signing key, no token in front of it and a
  file system that does its work, a forensic commit with acceptable arguments returns a node.
\<close>

subsection \<open>An issued proof can be written as JSON\<close>

lemma map_res_all:
  assumes "map_res f xs = Inr ys" and "\<And>x v. x \<in> set xs \<Longrightarrow> f x = Inr v \<Longrightarrow> P v"
  shows "list_all P ys"
  using assms
proof (induction xs arbitrary: ys)
  case (Cons x xs)
  then obtain y zs where "f x = Inr y" "map_res f xs = Inr zs" "ys = y # zs" by (auto simp: bind_res_eq_Inr)
  moreover have "P y" using Cons.prems(2) [of x y] calculation by simp
  moreover have "list_all P zs" by (rule Cons.IH) (use calculation Cons.prems(2) in auto)
  ultimately show ?case by simp
qed simp

definition text_encoder :: "(pyval \<Rightarrow> pyval res) \<Rightarrow> bool" where
  "text_encoder enc \<longleftrightarrow> (\<forall>s v. enc (PStr s) = Inr v \<longrightarrow> finite_json v)"

lemma text_encoders: "text_encoder Inr" "text_encoder b64u_field"
  by (auto simp: text_encoder_def b64u_field_def bind_res_eq_Inr)

lemma written_finite:
  assumes "text_encoder enc"
  shows "write_step enc (mk_step x) = Inr v \<Longrightarrow> finite_json v" and "write_peak enc (mk_peak y) = Inr v \<Longrightarrow> finite_json v"
  using assms by (auto simp: write_step_def write_peak_def mk_step_def mk_peak_def text_encoder_def bind_res_eq_Inr)

lemma proof_document_finite:
  assumes "to_dict (mk_proof v i n pidx (map mk_step path) (map mk_peak ps) rt) = Inr doc"
  shows "finite_json (PDict doc)"
proof -
  let ?p = "mk_proof v i n pidx (map mk_step path) (map mk_peak ps) rt"
  define enc where "enc = (if pr_version ?p \<noteq> PStr MMR_PROOF_VERSION_V2 then Inr else b64u_field)"
  have enc: "text_encoder enc" by (simp add: enc_def text_encoders)
  have sel: "pr_path ?p = map mk_step path" "pr_peaks ?p = map mk_peak ps" "pr_root ?p = PStr rt"
    by (simp_all add: mk_proof_def)
  from assms obtain r p k where
    r: "enc (PStr rt) = Inr r" and p: "map_res (write_step enc) (map mk_step path) = Inr p"
    and k: "map_res (write_peak enc) (map mk_peak ps) = Inr k"
    and doc: "doc = [(''version'', pr_version ?p), (''algorithm'', pr_algorithm ?p), (''leaf_index'', pr_leaf_index ?p),
      (''leaf_count'', pr_leaf_count ?p), (''peak_index'', pr_peak_index ?p), (''path'', PList p), (''peaks'', PList k), (''root'', r)]"
    unfolding to_dict_def Let_def enc_def [symmetric] sel bind_res_eq_Inr by auto
  have "list_all finite_json p" by (rule map_res_all [OF p]) (auto dest: written_finite(1) [OF enc])
  moreover have "list_all finite_json k" by (rule map_res_all [OF k]) (auto dest: written_finite(2) [OF enc])
  moreover have "finite_json r" using enc r by (simp add: text_encoder_def)
  ultimately show ?thesis by (simp add: doc mk_proof_def)
qed

lemma issued_finite: "issue_document m i = Inr doc \<Longrightarrow> finite_json (PDict doc)"
  unfolding issue_document_def get_portable_inclusion_proof_def
  by (auto simp: Let_def bind_res_eq_Inr simp del: finite_json.simps map_map intro: proof_document_finite
      split: option.splits sum.splits if_splits)

subsection \<open>A calm environment\<close>

definition calm :: "commit_env \<Rightarrow> ledger \<Rightarrow> bool" where
  "calm ev l \<longleftrightarrow>
     is_finite (ev_timestamp ev) \<and> ev_write ev = Written \<and> ev_durable ev \<and> failure (lg_commit_engine l) = None
     \<and> (let rv = ev_rotation ev in rot_sync_ok rv \<and> rot_exists rv \<and> rot_open_ok rv \<and> rot_dir_sync_ok rv)"

definition software_signed :: "ledger \<Rightarrow> bool" where
  "software_signed l \<longleftrightarrow> lg_signing_key l \<noteq> [] \<and> lg_hsm l = None \<and> lg_pqc l = None"

lemma rotate_ok:
  "rot_sync_ok rv \<Longrightarrow> rot_exists rv \<Longrightarrow> rot_open_ok rv \<Longrightarrow> rot_dir_sync_ok rv \<Longrightarrow> \<exists>l'. rotate_wal rv l = (Inr (), l')"
  by (simp add: rotate_wal_def Let_def open_wal_def)

lemma persist_ok:
  assumes "calm ev l" and "node_serialisable n"
  shows "\<exists>t l'. persist_node ev n l = (Inr t, l')"
proof -
  have rot: "\<exists>l'. rotate_wal (ev_rotation ev) k = (Inr (), l')" for k
    using assms(1) by (intro rotate_ok) (simp_all add: calm_def Let_def)
  have "\<exists>t e. enqueue (lg_commit_engine l) = Inr (t, e)"
    using assms(1) by (simp add: calm_def enqueue_def raise_if_failed_def Let_def)
  then obtain t e where t: "enqueue (lg_commit_engine l) = Inr (t, e)" by blast
  define l1 where "l1 = l\<lparr>lg_active := lg_active l @ [Document (node_to_dict n)]\<rparr>"
  define r where "r = (if lg_wal_open l1
    then (Inr (Some t), l1\<lparr>lg_commit_engine := e, lg_wal_bytes := lg_wal_bytes l1 + ev_line_bytes ev\<rparr>)
    else (Inr None, l1\<lparr>lg_wal_bytes := ev_wal_size ev\<rparr>) :: nat option res \<times> ledger)"
  obtain ticket l2 where r2: "r = (Inr ticket, l2)" by (cases "lg_wal_open l1") (simp_all add: r_def)
  from rot [of l2] obtain l3 where l3: "rotate_wal (ev_rotation ev) l2 = (Inr (), l3)" by blast
  have "persist_node ev n l = (case r of (r, l2) \<Rightarrow> case r of
          Inl e \<Rightarrow> (Inl e, l2)
        | Inr ticket \<Rightarrow>
            if 0 < lg_max_wal_bytes l2 \<and> lg_max_wal_bytes l2 \<le> lg_wal_bytes l2 then
              (case rotate_wal (ev_rotation ev) l2 of (Inl e, l3) \<Rightarrow> (Inl e, l3) | (Inr _, l3) \<Rightarrow> (Inr ticket, l3))
            else (Inr ticket, l2))"
    using assms t by (simp add: persist_node_def calm_def Let_def r_def l1_def)
  with r2 l3 show ?thesis by (simp split: if_split)
qed

lemma sign_ok:
  assumes "software_signed l" and "build ''hmac-sha256'' = Inr p"
  shows "sign_bound ev l build = (Inr (hmac_sign (lg_signing_key l) p, [], ''hmac-sha256'', False, p), l)"
  using assms by (simp add: software_signed_def sign_bound_def sign_pqc_def sign_software_def)

definition signable :: "audit_node \<Rightarrow> bool" where
  "signable n \<longleftrightarrow> an_waf_verdict n \<in> set WAF_VERDICTS \<and> an_status n \<in> {NODE_STATUS_COMMITTED, NODE_STATUS_REJECTED}
     \<and> is_finite (an_entropy n) \<and> finite_json (an_sampling_params n)"

lemma payload_ok:
  "signable n \<Longrightarrow> \<exists>p. build_signed_payload ((fields_of_node n)\<lparr>sf_prev_hash := x, sf_merkle_root := y\<rparr>) ''hmac-sha256'' = Inr p"
  by (auto simp: signable_def build_signed_payload_def fields_of_node_def validate_waf_verdict_def validate_node_status_def
      validate_signature_scheme_def SCHEME_MATERIAL_def)

lemma append_memory_ok: "0 < lg_max_memory_nodes l \<Longrightarrow> \<exists>l'. append_memory_node n l = (Inr (), l')"
  by (cases "lg_chain l") (simp_all add: append_memory_node_def)

lemma seal_leaf_vault: "seal_leaf ev leaf subj l = (r, l1) \<Longrightarrow> \<exists>v. l1 = l\<lparr>lg_shredder := v\<rparr>"
  by (auto simp: seal_leaf_def split: option.splits prod.splits) (metis ledger.surjective ledger.update_convs(18))

lemma seal_leaf_plain: "lg_shredder l = None \<Longrightarrow> seal_leaf ev leaf subj l = (Inr (leaf_digest (lg_mmr l) leaf, None), l)"
  by (simp add: seal_leaf_def)

lemma commit_with_ok:
  assumes inv: "ledger_inv vs l" and ok: "signers_ok vs ev l" and "lg_fault_state l = healthy" and sw: "software_signed l"
    and calm: "calm ev l" and tmpl: "signable tmpl" and seal: "seal_leaf ev leaf subj l = (Inr (h, s), l1)"
  shows "\<exists>n l' r sg cnt doc. commit_with ev leaf subj (fields_of_node tmpl) tmpl l = (Inr n, l')
     \<and> n = complete_node tmpl ev (tip_hash l) r sg h cnt doc s
     \<and> (\<exists>p. build_signed_payload ((fields_of_node tmpl)\<lparr>sf_prev_hash := tip_hash l, sf_merkle_root := r\<rparr>) ''hmac-sha256'' = Inr p
          \<and> sg = (hmac_sign (lg_signing_key l) p, [], ''hmac-sha256'', False, p))"
proof -
  from seal_leaf_vault [OF seal] obtain v where l1: "l1 = l\<lparr>lg_shredder := v\<rparr>" by blast
  have mi: "mmr_inv (lg_mmr l)" using inv by (simp add: ledger_inv_def)
  from acc.transaction [OF mi seal_leaf_digest [OF seal]] obtain r m doc where
    add: "add_leaf_hash (lg_mmr l) h = Inr (r, m)" and m: "mmr_inv m" "get_leaf_count m = Suc (get_leaf_count (lg_mmr l))"
    and doc: "issue_document m (int (get_leaf_count m - 1)) = Inr doc" by blast
  have add': "add_leaf_hash (lg_mmr l1) h = Inr (r, m)" using add by (simp add: l1)
  have idx: "int (get_leaf_count m - 1) = int (get_leaf_count m) - 1" using m(2) by simp
  let ?l2 = "l1\<lparr>lg_mmr := m\<rparr>"
  from payload_ok [OF tmpl, where x = "tip_hash l" and y = r] obtain p where
    p: "build_signed_payload ((fields_of_node tmpl)\<lparr>sf_prev_hash := tip_hash l, sf_merkle_root := r\<rparr>) ''hmac-sha256'' = Inr p" by blast
  define sg where "sg = (hmac_sign (lg_signing_key l) p, [] :: string, ''hmac-sha256'', False, p)"
  have sb: "sign_bound ev ?l2 (build_signed_payload ((fields_of_node tmpl)\<lparr>sf_prev_hash := tip_hash l, sf_merkle_root := r\<rparr>)) = (Inr sg, ?l2)"
    unfolding sg_def using sw sign_ok [where l = ?l2 and build = "build_signed_payload ((fields_of_node tmpl)\<lparr>sf_prev_hash := tip_hash l, sf_merkle_root := r\<rparr>)", OF _ p]
    by (simp add: software_signed_def l1)
  let ?n = "complete_node tmpl ev (tip_hash l) r sg h (get_leaf_count m) doc s"
  have "node_serialisable ?n"
    using tmpl calm issued_finite [OF doc]
    by (simp add: node_serialisable_def complete_node_def sg_def post_init_def signable_def calm_def)
  moreover have "calm ev ?l2" using calm by (simp add: calm_def l1)
  ultimately obtain t l4 where pn: "persist_node ev ?n ?l2 = (Inr t, l4)" using persist_ok by blast
  have "0 < lg_max_memory_nodes l4" using core_sel(6) [OF core_persist [OF pn]] inv by (simp add: ledger_inv_def l1)
  then obtain l5 where am: "append_memory_node ?n l4 = (Inr (), l5)" using append_memory_ok by blast
  have "commit_locked ev leaf subj (fields_of_node tmpl) tmpl l = (Inr (?n, t), l5)"
    unfolding commit_locked_def refuse_if_faulted_def assms(3) Let_def
    by (simp only: not_True_eq_False simp_thms if_False seal prod.case sum.case add' doc [unfolded idx] sb pn am)
  moreover have "await_durable ev t l5 = (Inr (), l5)" using calm by (simp add: await_durable_def calm_def)
  ultimately have "commit_with ev leaf subj (fields_of_node tmpl) tmpl l = (Inr ?n, l5)" by (simp add: commit_with_def)
  with p sg_def show ?thesis by blast
qed

lemma extended_last: "extended l n l' \<Longrightarrow> last (lg_chain l') = n"
  by (simp add: extended_def split: if_splits)

text \<open>
  What a node must say of the request it records: every argument of the commit under its own
  field, the digests of the two bodies (the empty text when there is no response body), and
  the number of entries of the token trail.
\<close>

definition records_request :: "forensic_args \<Rightarrow> audit_node \<Rightarrow> bool" where
  "records_request a n \<longleftrightarrow>
     an_state_id n = fa_state_id a \<and> an_entropy n = fa_entropy a \<and> an_tenant_id n = fa_tenant_id a
     \<and> an_sampling_params n = forensic_params a
     \<and> an_request_hash n = sha256_hex (fa_request_bytes a)
     \<and> an_response_hash n = (case fa_response_bytes a of
         None \<Rightarrow> [] | Some b \<Rightarrow> if b = [] then [] else sha256_hex b)
     \<and> an_model n = fa_model a \<and> an_endpoint n = fa_endpoint a
     \<and> an_token_trail_count n = (case fa_token_trail a of None \<Rightarrow> 0 | Some t \<Rightarrow> int (length t))
     \<and> an_phi_scrubbed n = fa_phi_scrubbed a \<and> an_scrub_method n = fa_scrub_method a
     \<and> an_signer_name n = fa_signer_name a \<and> an_signature_meaning n = fa_signature_meaning a
     \<and> an_waf_verdict n = fa_waf_verdict a \<and> an_status n = NODE_STATUS_COMMITTED"

lemma complete_records:
  "records_request a (complete_node (forensic_node a (sha256_hex (fa_request_bytes a))
     (if response_body (fa_response_bytes a) = [] then [] else sha256_hex (response_body (fa_response_bytes a)))) ev prev r sg h cnt doc s)"
  by (cases sg) (simp add: records_request_def complete_node_def post_init_def forensic_node_def blank_node_def
      response_body_def split: option.split)

lemma forensic_commit_ok:
  assumes reach: "ledger_reach vs l" and ok: "signers_ok vs ev l" and healthy: "lg_fault_state l = healthy"
    and sw: "software_signed l" and sh: "lg_shredder l = None" and calm: "calm ev l"
    and args: "forensic_checks a = Inr ()" "fa_waf_verdict a \<in> set WAF_VERDICTS"
  shows "\<exists>n l'. commit_forensic ev a l = (Inr n, l') \<and> lg_fault_state l' = healthy \<and> last (lg_chain l') = n
     \<and> wal_lines l' = wal_lines l @ [Document (node_to_dict n)]
     \<and> get_leaf_count (lg_mmr l') = Suc (get_leaf_count (lg_mmr l))
     \<and> records_request a n \<and> an_prev_hash n = tip_hash l
     \<and> (\<exists>leaf. build_merkle_leaf (fa_state_id a) (fa_request_bytes a) (fa_response_bytes a) (fa_model a)
            (fa_endpoint a) (lg_max_forensic_bytes l) (fa_waf_verdict a) = Inr leaf
          \<and> add_leaf_hash (lg_mmr l) (leaf_digest (lg_mmr l) leaf) = Inr (an_merkle_root n, lg_mmr l'))
     \<and> (\<exists>p. build_signed_payload (fields_of_node n) ''hmac-sha256'' = Inr p
          \<and> an_signature n = hmac_sign (lg_signing_key l) p)"
proof -
  let ?resp = "if response_body (fa_response_bytes a) = [] then [] else sha256_hex (response_body (fa_response_bytes a))"
  let ?t = "forensic_node a (sha256_hex (fa_request_bytes a)) ?resp"
  from args obtain leaf where leaf: "build_merkle_leaf (fa_state_id a) (fa_request_bytes a) (fa_response_bytes a) (fa_model a)
      (fa_endpoint a) (lg_max_forensic_bytes l) (fa_waf_verdict a) = Inr leaf"
    by (simp add: build_merkle_leaf_def validate_waf_verdict_def)
  have cf: "commit_forensic ev a l = commit_with ev leaf (fa_tenant_id a) (fields_of_node ?t) ?t l"
    by (simp add: commit_forensic_def args payload_digest_def sh leaf signed_fields_for_def Let_def)
  have "signable ?t"
    using args by (auto simp: signable_def forensic_node_def blank_node_def forensic_checks_def require_finite_json_def split: if_splits)
  from commit_with_ok [OF reach_inv [OF reach] ok healthy sw calm this seal_leaf_plain [OF sh]] obtain n l' r sg cnt doc p where
    c: "commit_with ev leaf (fa_tenant_id a) (fields_of_node ?t) ?t l = (Inr n, l')"
    and n: "n = complete_node ?t ev (tip_hash l) r sg (leaf_digest (lg_mmr l) leaf) cnt doc None"
    and p: "build_signed_payload ((fields_of_node ?t)\<lparr>sf_prev_hash := tip_hash l, sf_merkle_root := r\<rparr>) ''hmac-sha256'' = Inr p"
    and sg: "sg = (hmac_sign (lg_signing_key l) p, [], ''hmac-sha256'', False, p)" by blast
  have ext: "extended l n l'"
    using commit_with_outcome [OF reach_inv [OF reach] ok c] by simp
  have "records_request a n" unfolding n by (rule complete_records)
  moreover have sel: "an_prev_hash n = tip_hash l" "an_mmr_leaf_hash n = leaf_digest (lg_mmr l) leaf"
    unfolding n sg by (simp_all add: complete_node_def post_init_def)
  moreover have "fields_of_node n = (fields_of_node ?t)\<lparr>sf_prev_hash := tip_hash l, sf_merkle_root := r\<rparr>"
    "an_signature n = hmac_sign (lg_signing_key l) p"
    unfolding n sg by (simp_all add: complete_node_def post_init_def fields_of_node_def)
  with p have "\<exists>p. build_signed_payload (fields_of_node n) ''hmac-sha256'' = Inr p \<and> an_signature n = hmac_sign (lg_signing_key l) p"
    by simp
  moreover have "lg_fault_state l' = healthy" "wal_lines l' = wal_lines l @ [Document (node_to_dict n)]"
    using ext healthy by (simp_all add: extended_def)
  moreover have add: "add_leaf_hash (lg_mmr l) (leaf_digest (lg_mmr l) leaf) = Inr (an_merkle_root n, lg_mmr l')"
    using ext sel(2) unfolding extended_def by auto
  moreover have "get_leaf_count (lg_mmr l') = Suc (get_leaf_count (lg_mmr l))"
    using add acc.append_ok [OF _ acc.append_digest, of "lg_mmr l" "lg_mmr l"] reach_inv [OF reach]
    by (fastforce simp: ledger_inv_def)
  ultimately show ?thesis using cf c leaf extended_last [OF ext] by auto
qed

text \<open>
  C28. A commit succeeds: on a healthy ledger that signs with its key, with shredding off and a
  file system that does its work (a rotation included), a forensic commit whose arguments
  pass the checks returns a node. The node carries every argument under its own field and the
  digests of the two bodies, is linked to the tip, is signed with the ledger's key over its own
  fields, is the newest of the chain and the last line of the log, and the accumulator grew by
  the leaf built from the request, to the root the node records.
\<close>

theorem commit_forensic_succeeds:
  assumes reach: "ledger_reach vs l" and ok: "signers_ok vs ev l" and healthy: "lg_fault_state l = healthy"
    and sw: "software_signed l" and sh: "lg_shredder l = None" and calm: "calm ev l"
    and args: "forensic_checks a = Inr ()" "fa_waf_verdict a \<in> set WAF_VERDICTS"
  shows "\<exists>n l'. commit_forensic ev a l = (Inr n, l') \<and> lg_fault_state l' = healthy \<and> last (lg_chain l') = n
     \<and> wal_lines l' = wal_lines l @ [Document (node_to_dict n)]
     \<and> get_leaf_count (lg_mmr l') = Suc (get_leaf_count (lg_mmr l))
     \<and> records_request a n \<and> an_prev_hash n = tip_hash l
     \<and> (\<exists>leaf. build_merkle_leaf (fa_state_id a) (fa_request_bytes a) (fa_response_bytes a) (fa_model a)
            (fa_endpoint a) (lg_max_forensic_bytes l) (fa_waf_verdict a) = Inr leaf
          \<and> add_leaf_hash (lg_mmr l) (leaf_digest (lg_mmr l) leaf) = Inr (an_merkle_root n, lg_mmr l'))
     \<and> (\<exists>p. build_signed_payload (fields_of_node n) ''hmac-sha256'' = Inr p
          \<and> an_signature n = hmac_sign (lg_signing_key l) p)"
  using assms by (rule forensic_commit_ok)

definition demo_request :: forensic_args where
  "demo_request = demo_args\<lparr>fa_state_id := ''r2''\<rparr>"

lemma demo_request_ok: "forensic_checks demo_request = Inr ()" "fa_waf_verdict demo_request \<in> set WAF_VERDICTS"
  by (simp_all add: forensic_checks_def demo_request_def demo_args_def MAX_PAYLOAD_BYTES_def require_finite_json_def
      forensic_params_def WAF_VERDICTS_def verdict_defs)

lemma demo_calm: "calm demo_env demo_ledger" "software_signed demo_ledger" "lg_shredder demo_ledger = None"
  by (simp_all add: calm_def software_signed_def demo_env_def demo_rotation_def demo_ledger_def ledger_init_def Let_def
      normalise_trusted_public_keys_def engine_init_def fresh_mmr_def mmr_init_def MMR_NEW_CHAIN_DEFAULT_SCHEME_def
      load_empty before_load_def demo_config_def open_wal_def)

lemma demo_committed:
  "lg_fault_state (ledger_do (Forensic demo_env demo_request) demo_ledger) = healthy"
  "ledger_reach demo_verifiers (ledger_do (Forensic demo_env demo_request) demo_ledger)"
proof -
  show "lg_fault_state (ledger_do (Forensic demo_env demo_request) demo_ledger) = healthy"
    using forensic_commit_ok [OF New [OF demo_new] demo_signers [OF demo_no_tokens] new_ledger_facts(4) [OF demo_new]
        demo_calm(2,3,1) demo_request_ok] by auto
  show "ledger_reach demo_verifiers (ledger_do (Forensic demo_env demo_request) demo_ledger)"
    by (rule Op [OF New [OF demo_new]]) (simp add: demo_signers demo_no_tokens)
qed

theorem commit_forensic_succeeds_witness:
  "\<exists>n l'. commit_forensic demo_env demo_request demo_ledger = (Inr n, l') \<and> lg_fault_state l' = healthy
     \<and> an_state_id n = ''r2'' \<and> an_request_hash n = sha256_hex [1] \<and> records_request demo_request n"
  using commit_forensic_succeeds [OF New [OF demo_new] demo_signers [OF demo_no_tokens] new_ledger_facts(4) [OF demo_new]
      demo_calm(2,3,1) demo_request_ok]
  by (auto simp: demo_request_def demo_args_def records_request_def)

end
