(* ===== verification/Ledger_Replay.thy ===== *)
theory Ledger_Replay
  imports Ledger_Progress
begin

section \<open>Replay rebuilds the ledger\<close>

text \<open>
  Opening a ledger on the files another one wrote: the chain, its anchor and the root come
  back, whichever way the accumulator is restored and whatever the checkpoint file holds.
\<close>

subsection \<open>The window over a history\<close>

fun push_node :: "nat \<Rightarrow> audit_node \<Rightarrow> string \<times> audit_node list \<Rightarrow> string \<times> audit_node list" where
  "push_node k n (a, c) = (if length c = k then (node_hash (hd c), tl c @ [n]) else (a, c @ [n]))"

definition view :: "ledger \<Rightarrow> string \<times> audit_node list" where
  "view l = (lg_window_anchor_hash l, lg_chain l)"

definition genesis_view :: "string \<times> audit_node list" where
  "genesis_view = (replicate 64 CHR ''0'', [])"

lemma extended_view: "extended l n l' \<Longrightarrow> view l' = push_node (lg_max_memory_nodes l) n (view l)"
  by (simp add: extended_def view_def)

lemma append_memory_view:
  assumes "0 < lg_max_memory_nodes l"
  shows "\<exists>a c. push_node (lg_max_memory_nodes l) n (view l) = (a, c)
     \<and> append_memory_node n l = (Inr (), l\<lparr>lg_window_anchor_hash := a, lg_chain := c\<rparr>)"
  using assms by (cases "lg_chain l") (auto simp: append_memory_node_def view_def)

subsection \<open>Reading back what was written\<close>

lemma field_or_to_dict: "k \<in> set node_field_names \<Longrightarrow> field_or (node_to_dict n) k sel d = sel n"
  by (simp add: field_or_def node_to_dict_def)

lemma doc_values_to_dict: "doc_values (node_to_dict n) = n"
  by (simp add: node_to_dict_def)

lemma from_dict_to_dict:
  assumes "n = post_init n"
  shows "node_from_dict (node_to_dict n) = Inr n"
proof -
  have names: "set required_node_fields \<subseteq> set (doc_keys (node_to_dict n))"
    by (simp add: required_node_fields_def node_to_dict_def node_field_names_def)
  have "node_from_dict (node_to_dict n) = Inr (post_init (n\<lparr>an_creation_hash := []\<rparr>))"
    unfolding node_from_dict_def Let_def
    by (simp only: names not_True_eq_False if_False doc_values_to_dict)
      (cases n, simp add: field_or_to_dict node_field_names_def)
  also have "post_init (n\<lparr>an_creation_hash := []\<rparr>) = post_init n"
    by (simp add: post_init_def node_hash_def node_content_def)
  finally show ?thesis using assms by simp
qed

definition triple :: "audit_node \<Rightarrow> string \<times> string \<times> string" where
  "triple n = (an_mmr_leaf_hash n, an_merkle_root n, an_state_id n)"

text \<open>A history as a ledger of the given scheme writes it.\<close>

definition version_of :: "bool \<Rightarrow> string" where
  "version_of v2 = (if v2 then MMR_PROOF_VERSION_V2 else MMR_PROOF_VERSION_V1)"

definition written_by :: "bool \<Rightarrow> audit_node list \<Rightarrow> bool" where
  "written_by v2 ns \<longleftrightarrow>
     (\<forall>n \<in> set ns. n = post_init n \<and> proof_version_of n = Some (version_of v2))
     \<and> rep.recorded_roots v2 [] (map (\<lambda>n. (an_mmr_leaf_hash n, an_merkle_root n)) ns)"

lemma recorded_digests: "rep.recorded_roots v2 ls xs \<Longrightarrow> list_all (\<lambda>x. is_sha256_hex_str (fst x)) xs"
  by (induction xs arbitrary: ls) auto

lemma digest_not_Nil: "is_sha256_hex_str h \<Longrightarrow> h \<noteq> []"
  by (auto simp: is_sha256_hex_str_def)

lemma written_by_digests: "written_by v2 ns \<Longrightarrow> n \<in> set ns \<Longrightarrow> is_sha256_hex_str (an_mmr_leaf_hash n)"
  using recorded_digests by (fastforce simp: written_by_def list_all_iff)

lemma replay_lines_written:
  assumes "0 < lg_max_memory_nodes l"
    and "\<And>n. n \<in> set ns \<Longrightarrow> n = post_init n \<and> proof_version_of n = Some v \<and> an_mmr_leaf_hash n \<noteq> []"
  shows "\<exists>a c. fold (push_node (lg_max_memory_nodes l)) ns (view l) = (a, c)
     \<and> replay_lines (map (\<lambda>n. Document (node_to_dict n)) ns) sfx l
         = Inr (sfx @ map triple ns, l\<lparr>lg_window_anchor_hash := a, lg_chain := c,
             lg_wal_proof_version := (if ns = [] then lg_wal_proof_version l else Some v)\<rparr>)"
  using assms
proof (induction ns arbitrary: l sfx)
  case Nil
  then show ?case by (simp add: view_def)
next
  case (Cons n ns)
  let ?l = "l\<lparr>lg_wal_proof_version := Some v\<rparr>"
  have n: "n = post_init n" "proof_version_of n = Some v" "an_mmr_leaf_hash n \<noteq> []" using Cons.prems(2) [of n] by simp_all
  have nv: "note_version n l = ?l" using n by (simp add: note_version_def)
  have vw: "view ?l = view l" "lg_max_memory_nodes ?l = lg_max_memory_nodes l" by (simp_all add: view_def)
  from append_memory_view [of ?l n] Cons.prems(1) vw obtain a c where
    p: "push_node (lg_max_memory_nodes l) n (view l) = (a, c)"
      "append_memory_node n ?l = (Inr (), ?l\<lparr>lg_window_anchor_hash := a, lg_chain := c\<rparr>)" by auto
  let ?k = "?l\<lparr>lg_window_anchor_hash := a, lg_chain := c\<rparr>"
  have "view ?k = (a, c)" "lg_max_memory_nodes ?k = lg_max_memory_nodes l" by (simp_all add: view_def)
  with Cons.IH [of ?k "sfx @ [triple n]"] Cons.prems obtain a' c' where
    "fold (push_node (lg_max_memory_nodes l)) ns (a, c) = (a', c')"
    "replay_lines (map (\<lambda>n. Document (node_to_dict n)) ns) (sfx @ [triple n]) ?k
       = Inr ((sfx @ [triple n]) @ map triple ns, ?k\<lparr>lg_window_anchor_hash := a', lg_chain := c',
           lg_wal_proof_version := (if ns = [] then lg_wal_proof_version ?k else Some v)\<rparr>)"
    by auto
  moreover have "replay_lines (map (\<lambda>n. Document (node_to_dict n)) (n # ns)) sfx l
      = replay_lines (map (\<lambda>n. Document (node_to_dict n)) ns) (sfx @ [triple n]) ?k"
    using n(3) by (simp add: from_dict_to_dict [OF n(1)] nv p(2) triple_def)
  ultimately show ?case using p(1) by simp
qed

lemma replay_suffix_locale:
  "replay_suffix m sfx = rep.replay m (map (\<lambda>t. (fst t, fst (snd t))) sfx)"
  by (induction m sfx rule: replay_suffix.induct) (auto simp: bind_res_def split: sum.splits)

lemma replay_hashes_ok:
  "mmr_inv m \<Longrightarrow> list_all is_sha256_hex_str hs \<Longrightarrow>
     \<exists>m'. replay_hashes m hs = Inr m' \<and> mmr_inv m' \<and> get_leaf_count m' = get_leaf_count m + length hs"
proof (induction hs arbitrary: m)
  case (Cons h hs)
  from acc.append_ok [of m h] Cons.prems obtain r m1 where
    m1: "add_leaf_hash m h = Inr (r, m1)" "mmr_inv m1" "get_leaf_count m1 = Suc (get_leaf_count m)" by auto
  from Cons.IH [OF m1(2)] Cons.prems(2) m1 show ?case by auto
qed simp

lemma mmr_inv_root: "mmr_inv m \<Longrightarrow> \<exists>rt. get_root_hash m = Inr rt"
  by (auto simp: mmr_inv_def represents_root)

lemma restore_cases:
  assumes "mmr_init oid s = Inr m"
  shows "(\<exists>msg. restore_from_peaks m n ps = Inl (ValueError msg))
     \<or> (\<exists>rt r. restore_from_peaks m n ps = Inr (rt, r) \<and> mmr_inv r \<and> get_leaf_count r = nat n)"
proof (cases "restore_from_peaks m n ps")
  case (Inl e)
  have "nodes m = []" "peaks m = []" "leaf_count m = 0"
    using assms by (auto simp: mmr_init_def split: if_splits)
  show ?thesis
  proof (cases "1 \<le> n \<and> heights_match ps (expected_heights (nat n)) \<and> list_all (\<lambda>p. is_sha256_hex (pk_hash p)) ps")
    case True
    then have "n = int (nat n)" "0 < nat n" by auto
    with restore_represents [OF assms, of ps "nat n"] True Inl show ?thesis by force
  next
    case False
    then show ?thesis
      by (auto simp: restore_from_peaks_def \<open>nodes m = []\<close> \<open>peaks m = []\<close> \<open>leaf_count m = 0\<close> list_ex_iff list_all_iff)
  qed
next
  case (Inr x)
  obtain rt r where x: "x = (rt, r)" by force
  from Inr x have c: "1 \<le> n" "heights_match ps (expected_heights (nat n))" "list_all (\<lambda>p. is_sha256_hex (pk_hash p)) ps"
    and "leaf_count r = nat n"
    by (auto simp: restore_from_peaks_def Let_def bind_res_eq_Inr list_ex_iff list_all_iff split: if_splits)
  moreover from c(1) have "n = int (nat n)" "0 < nat n" by auto
  with restore_represents [OF assms, of ps "nat n"] c Inr x have "mmr_inv r" by (auto simp: mmr_inv_def)
  ultimately show ?thesis using Inr x by (simp add: get_leaf_count_def)
qed

subsection \<open>The accumulator after a restart\<close>

abbreviation digest_root :: "string \<times> string \<times> string \<Rightarrow> string \<times> string" where
  "digest_root t \<equiv> (fst t, fst (snd t))"

lemma recorded_last:
  "rep.recorded_roots v2 [] xs \<Longrightarrow> xs \<noteq> [] \<Longrightarrow> snd (last xs) = spec_root v2 (map fst xs)"
  by (cases xs rule: rev_cases) (auto simp: rep.recorded_roots_append)

lemma fast_restore_outcome:
  assumes "mmr_init oid s = Inr m" and "0 < n" and "n \<le> int (length sfx)" and "list_all (\<lambda>t. is_sha256_hex_str (fst t)) sfx"
  shows "(\<exists>msg. fast_restore m n ps sfx = Inl (ValueError msg))
     \<or> (\<exists>r. fast_restore m n ps sfx = Inr r \<and> mmr_inv r \<and> get_leaf_count r = length sfx)"
  using restore_cases [OF assms(1), of n ps]
proof
  assume "\<exists>rt r. restore_from_peaks m n ps = Inr (rt, r) \<and> mmr_inv r \<and> get_leaf_count r = nat n"
  then obtain rt r where r: "restore_from_peaks m n ps = Inr (rt, r)" "mmr_inv r" "get_leaf_count r = nat n" by blast
  have "list_all is_sha256_hex_str (map fst (drop (nat n) sfx))"
    using assms(4) by (auto simp: list_all_iff dest: in_set_dropD)
  from replay_hashes_ok [OF r(2) this] r(1,3) assms(2,3) show ?thesis by (auto simp: fast_restore_def)
qed (auto simp: fast_restore_def)

lemma try_checkpoint_outcome:
  assumes m: "mmr_init oid (lg_mmr_hash_scheme l) = Inr (lg_mmr l)"
    and hex: "list_all (\<lambda>t. is_sha256_hex_str (fst t)) sfx"
  shows "try_checkpoint oid l sfx = Inr (False, lg_mmr l)
     \<or> (\<exists>r. try_checkpoint oid l sfx = Inr (True, r) \<and> mmr_inv r \<and> get_leaf_count r = length sfx
            \<and> get_root_hash r = Inr (fst (snd (last sfx))))"
proof (cases "if lg_mmr_fast_restore l then load_mmr_state l else None")
  case None
  then show ?thesis by (simp add: try_checkpoint_def)
next
  case (Some np)
  obtain n ps where np: "np = (n, ps)" by force
  note t = try_checkpoint_def [of oid l sfx, unfolded Some np option.case prod.case fresh_mmr_def m]
  show ?thesis
  proof (cases "0 < n \<and> n \<le> int (length sfx)")
    case True
    then consider msg where "fast_restore (lg_mmr l) n ps sfx = Inl (ValueError msg)"
      | r where "fast_restore (lg_mmr l) n ps sfx = Inr r" "mmr_inv r" "get_leaf_count r = length sfx"
      using fast_restore_outcome [OF m _ _ hex, of n ps] by blast
    then show ?thesis
    proof cases
      case 1
      with True show ?thesis by (simp add: t)
    next
      case (2 r)
      from mmr_inv_root [OF 2(2)] obtain rt where "get_root_hash r = Inr rt" by blast
      with 2 True show ?thesis by (auto simp: t)
    qed
  next
    case False
    then show ?thesis unfolding t by (simp only: if_False simp_thms)
  qed
qed

text \<open>Either way, the restored accumulator has the recorded root and count.\<close>

lemma replay_all_outcome:
  assumes m: "mmr_init oid (lg_mmr_hash_scheme l) = Inr (lg_mmr l)"
    and rec: "rep.recorded_roots (is_v2 (lg_mmr l)) [] (map digest_root sfx)" and ne: "sfx \<noteq> []"
  shows "\<exists>r. replay_all oid l sfx = Inr (l\<lparr>lg_mmr := r\<rparr>) \<and> get_leaf_count r = length sfx
     \<and> get_root_hash r = Inr (spec_root (is_v2 (lg_mmr l)) (map fst sfx))"
proof -
  have hex: "list_all (\<lambda>t. is_sha256_hex_str (fst t)) sfx"
    using recorded_digests [OF rec] by (simp add: list_all_iff)
  have last: "fst (snd (last sfx)) = spec_root (is_v2 (lg_mmr l)) (map fst sfx)"
    using recorded_last [OF rec] ne by (simp add: last_map o_def)
  from rep.replay_recorded [OF holds_init [OF m] rec] obtain r where
    r: "replay_suffix (lg_mmr l) sfx = Inr (True, r)" "holds r (map fst sfx)" "is_v2 r = is_v2 (lg_mmr l)"
    by (auto simp: replay_suffix_locale o_def)
  have "get_leaf_count r = length sfx" "get_root_hash r = Inr (spec_root (is_v2 (lg_mmr l)) (map fst sfx))"
    using holds_root [OF r(2)] holds_leaf_count [OF r(2)] r(3) by (simp_all add: get_leaf_count_def)
  with try_checkpoint_outcome [OF m hex] r(1) last show ?thesis by (auto simp: replay_all_def Let_def)
qed

subsection \<open>What the log records of a healthy ledger\<close>

definition recorded :: "ledger \<Rightarrow> audit_node list \<Rightarrow> bool" where
  "recorded l hist \<longleftrightarrow>
     wal_lines l = map (\<lambda>n. Document (node_to_dict n)) hist
     \<and> view l = fold (push_node (lg_max_memory_nodes l)) hist genesis_view
     \<and> holds (lg_mmr l) (map an_mmr_leaf_hash hist) \<and> written_by (is_v2 (lg_mmr l)) hist
     \<and> hash_scheme (lg_mmr l) \<in> {HASH_SCHEME_V1, HASH_SCHEME_V2}"

lemma recorded_core: "core l' = core l \<Longrightarrow> wal_lines l' = wal_lines l \<Longrightarrow> recorded l' hist = recorded l hist"
  using core_sel [of l' l] by (simp add: recorded_def view_def)

lemma mmr_init_known: "mmr_init oid s = Inr m \<Longrightarrow> hash_scheme m = s \<and> (s = HASH_SCHEME_V1 \<or> s = HASH_SCHEME_V2)"
  by (auto simp: mmr_init_def split: if_splits)

lemma recorded_new:
  assumes "new_ledger l"
  shows "recorded l []"
proof -
  note new = new_ledger_facts [OF assms]
  from new(1) obtain oid where m: "mmr_init oid (lg_mmr_hash_scheme l) = Inr (lg_mmr l)" by blast
  have "hash_scheme (lg_mmr l) \<in> {HASH_SCHEME_V1, HASH_SCHEME_V2}"
    using mmr_init_known [OF m] by auto
  with new holds_init [OF m] show ?thesis
    by (simp add: recorded_def view_def genesis_view_def written_by_def)
qed

lemma issued_version:
  "issue_document m i = Inr doc \<Longrightarrow> map_of doc ''version'' = Some (PStr (version_of (is_v2 m)))"
  by (auto simp: issue_document_def get_portable_inclusion_proof_def to_dict_def mk_proof_def version_of_def Let_def
      bind_res_eq_Inr split: option.splits sum.splits if_splits)

lemma add_leaf_hash_scheme: "holds m ls \<Longrightarrow> add_leaf_hash m h = Inr (r, m') \<Longrightarrow> hash_scheme m' = hash_scheme m"
  using add_leaf_hash_holds [of m ls h] acc.append_digest [of m h r m'] by (auto simp: frame_def)

lemma recorded_extended:
  assumes rec: "recorded l hist" and ext: "extended l n l'" and keys: "same_keys l l'"
  shows "recorded l' (hist @ [n])"
proof -
  from ext obtain m doc where m: "add_leaf_hash (lg_mmr l) (an_mmr_leaf_hash n) = Inr (an_merkle_root n, m)" "lg_mmr l' = m"
    and doc: "issue_document m (int (get_leaf_count m) - 1) = Inr doc" "an_mmr_proof n = PDict doc"
    and n: "n = post_init n" "wal_lines l' = wal_lines l @ [Document (node_to_dict n)]"
    unfolding extended_def by blast
  have h: "holds (lg_mmr l) (map an_mmr_leaf_hash hist)" and w: "written_by (is_v2 (lg_mmr l)) hist"
    using rec by (simp_all add: recorded_def)
  have h': "holds m (map an_mmr_leaf_hash hist @ [an_mmr_leaf_hash n])" "is_v2 m = is_v2 (lg_mmr l)"
    using rep.append_holding [OF h m(1)] by simp_all
  have "rep.recorded_roots (is_v2 m) [] (map (\<lambda>n. (an_mmr_leaf_hash n, an_merkle_root n)) hist @ [(an_mmr_leaf_hash n, an_merkle_root n)])"
    using rep.recorded_snoc [OF h _ _ m(1)] w by (simp add: written_by_def o_def)
  moreover have "proof_version_of n = Some (version_of (is_v2 m))"
    using issued_version [OF doc(1)] doc(2) by (simp add: proof_version_of_def)
  ultimately have "written_by (is_v2 m) (hist @ [n])"
    using w n(1) h'(2) by (auto simp: written_by_def)
  moreover have "lg_max_memory_nodes l' = lg_max_memory_nodes l" using keys by (simp add: same_keys_def)
  ultimately show ?thesis
    using rec n(2) h' m extended_view [OF ext] add_leaf_hash_scheme [OF h m(1)] by (simp add: recorded_def)
qed

lemma commits_via_recorded:
  assumes "commits_via ev l r" and "ledger_inv vs l" and "signers_ok vs ev l" and "recorded l hist"
    and healthy: "lg_fault_state (snd r) = healthy"
  shows "\<exists>hist'. recorded (snd r) hist'"
proof -
  obtain res l' where r: "r = (res, l')" by force
  note out = commits_via_outcome [OF assms(1) [unfolded r] assms(2,3)]
  show ?thesis
  proof (cases res)
    case (Inl e)
    from out have "unless_faulted l l'" unfolding Inl by simp
    with healthy have "core l' = core l" "wal_lines l' = wal_lines l" by (simp_all add: unless_faulted_def r)
    from recorded_core [OF this] assms(4) r show ?thesis by (metis snd_conv)
  next
    case (Inr n)
    from out have "extended l n l'" "same_keys l l'" unfolding Inr by simp_all
    from recorded_extended [OF assms(4) this] r show ?thesis by (metis snd_conv)
  qed
qed

lemma reach_recorded: "ledger_reach vs l \<Longrightarrow> lg_fault_state l = healthy \<Longrightarrow> \<exists>hist. recorded l hist"
proof (induction rule: ledger_reach.induct)
  case (New l)
  then show ?case using recorded_new by blast
next
  case (Op l op)
  have was: "lg_fault_state l = healthy"
    using Op.prems faulted_stays [of l op] by blast
  with Op.IH obtain hist where hist: "recorded l hist" by blast
  note inv = reach_inv [OF Op.hyps(1)]
  show ?case
  proof (cases op)
    case (Forensic ev a)
    show ?thesis
      using commits_via_recorded [OF commit_forensic_via inv _ hist] Op.hyps(2) Op.prems
      unfolding Forensic ledger_do.simps op_ok.simps by blast
  next
    case (Rejection ev i a)
    show ?thesis
      using commits_via_recorded [OF commit_rejection_via inv _ hist] Op.hyps(2) Op.prems
      unfolding Rejection ledger_do.simps op_ok.simps by blast
  next
    case (Summary ev a)
    show ?thesis
      using commits_via_recorded [OF commit_summary_via inv _ hist] Op.hyps(2) Op.prems
      unfolding Summary ledger_do.simps op_ok.simps by blast
  next
    case (Shred s)
    have "core (snd (crypto_shred s l)) = core l" "wal_lines (snd (crypto_shred s l)) = wal_lines l"
      by (simp_all add: crypto_shred_def wal_lines_def split: option.split prod.split)
    from recorded_core [OF this] hist Shred show ?thesis by (metis ledger_do.simps(4))
  next
    case Durability_Lost
    with Op.prems show ?thesis by simp
  qed
qed

subsection \<open>Opening the ledger again\<close>

lemmas scheme_names = HASH_SCHEME_V1_def HASH_SCHEME_V2_def MMR_PROOF_VERSION_V1_def MMR_PROOF_VERSION_V2_def

lemma version_schemes:
  assumes "s = HASH_SCHEME_V1 \<or> s = HASH_SCHEME_V2"
  shows "proof_version_scheme (version_of (s = HASH_SCHEME_V2)) = Some s"
    and "scheme_proof_version s = Some (version_of (s = HASH_SCHEME_V2))"
  using assms by (auto simp: proof_version_scheme_def scheme_proof_version_def version_of_def scheme_names)

lemma mmr_init_ok: "s = HASH_SCHEME_V1 \<or> s = HASH_SCHEME_V2 \<Longrightarrow> \<exists>m. mmr_init oid s = Inr m"
  by (auto simp: mmr_init_def)

lemma adopt_scheme_outcome:
  assumes v: "lg_wal_proof_version l = Some (version_of (s = HASH_SCHEME_V2))" and s: "s = HASH_SCHEME_V1 \<or> s = HASH_SCHEME_V2"
    and m: "mmr_init oid (lg_mmr_hash_scheme l) = Inr (lg_mmr l)" and pin: "lg_scheme_pinned l \<Longrightarrow> lg_mmr_hash_scheme l = s"
  shows "\<exists>m. adopt_scheme oid l = Inr (Some (l\<lparr>lg_mmr_hash_scheme := s, lg_mmr := m\<rparr>)) \<and> mmr_init oid s = Inr m"
proof (cases "lg_mmr_hash_scheme l = s")
  case True
  then have "l\<lparr>lg_mmr_hash_scheme := s, lg_mmr := lg_mmr l\<rparr> = l" by simp
  with True m v show ?thesis by (auto simp: adopt_scheme_def version_schemes(1) [OF s])
next
  case False
  from mmr_init_ok [OF s] obtain m' where "mmr_init oid s = Inr m'" by blast
  with False pin v show ?thesis by (auto simp: adopt_scheme_def version_schemes(1) [OF s] fresh_mmr_def)
qed

lemma restore_mmr_outcome:
  assumes v: "lg_wal_proof_version l = Some (version_of (s = HASH_SCHEME_V2))" and s: "s = HASH_SCHEME_V1 \<or> s = HASH_SCHEME_V2"
    and m: "mmr_init oid (lg_mmr_hash_scheme l) = Inr (lg_mmr l)" and pin: "lg_scheme_pinned l \<Longrightarrow> lg_mmr_hash_scheme l = s"
    and rec: "rep.recorded_roots (s = HASH_SCHEME_V2) [] (map digest_root sfx)" and ne: "sfx \<noteq> []"
  shows "\<exists>r. restore_mmr oid sfx l = Inr (l\<lparr>lg_mmr_hash_scheme := s, lg_mmr := r\<rparr>) \<and> get_leaf_count r = length sfx
     \<and> get_root_hash r = Inr (spec_root (s = HASH_SCHEME_V2) (map fst sfx))"
proof -
  from adopt_scheme_outcome [OF v s m pin] obtain m1 where
    m1: "adopt_scheme oid l = Inr (Some (l\<lparr>lg_mmr_hash_scheme := s, lg_mmr := m1\<rparr>))" "mmr_init oid s = Inr m1" by blast
  have "is_v2 m1 \<longleftrightarrow> s = HASH_SCHEME_V2" using mmr_init_known [OF m1(2)] by (simp add: is_v2_def)
  with replay_all_outcome [of oid "l\<lparr>lg_mmr_hash_scheme := s, lg_mmr := m1\<rparr>" sfx] m1(2) rec ne obtain r where
    "replay_all oid (l\<lparr>lg_mmr_hash_scheme := s, lg_mmr := m1\<rparr>) sfx = Inr (l\<lparr>lg_mmr_hash_scheme := s, lg_mmr := r\<rparr>)"
    "get_leaf_count r = length sfx" "get_root_hash r = Inr (spec_root (s = HASH_SCHEME_V2) (map fst sfx))"
    by auto
  with m1(1) ne v version_schemes(2) [OF s] show ?thesis by (auto simp: restore_mmr_def)
qed

text \<open>Reading the log into a ledger whose window is empty.\<close>

lemma load_recorded:
  assumes rec: "recorded k hist" and files: "wal_lines l = wal_lines k" and window: "view l = genesis_view"
    and sz: "lg_max_memory_nodes l = lg_max_memory_nodes k" "0 < lg_max_memory_nodes k" and v: "lg_wal_proof_version l = None"
    and m: "mmr_init oid (lg_mmr_hash_scheme l) = Inr (lg_mmr l)"
    and pin: "lg_scheme_pinned l \<Longrightarrow> lg_mmr_hash_scheme l = hash_scheme (lg_mmr k)"
  shows "\<exists>l'. load_from_wal oid l = Inr l' \<and> view l' = view k \<and> lg_fault_state l' = lg_fault_state l
     \<and> get_leaf_count (lg_mmr l') = get_leaf_count (lg_mmr k) \<and> get_root_hash (lg_mmr l') = get_root_hash (lg_mmr k)"
proof -
  let ?s = "hash_scheme (lg_mmr k)" and ?ls = "map an_mmr_leaf_hash hist"
  have w: "written_by (?s = HASH_SCHEME_V2) hist" and h: "holds (lg_mmr k) ?ls" and s: "?s = HASH_SCHEME_V1 \<or> ?s = HASH_SCHEME_V2"
    and lines: "wal_lines k = map (\<lambda>n. Document (node_to_dict n)) hist"
    and vw: "view k = fold (push_node (lg_max_memory_nodes k)) hist genesis_view"
    using rec by (auto simp: recorded_def is_v2_def)
  have k: "get_leaf_count (lg_mmr k) = length hist" "get_root_hash (lg_mmr k) = Inr (spec_root (?s = HASH_SCHEME_V2) ?ls)"
    using holds_leaf_count [OF h] holds_root [OF h] by (simp_all add: get_leaf_count_def is_v2_def)
  have each: "n = post_init n \<and> proof_version_of n = Some (version_of (?s = HASH_SCHEME_V2)) \<and> an_mmr_leaf_hash n \<noteq> []"
    if "n \<in> set hist" for n
    using that w digest_not_Nil [OF written_by_digests [OF w that]] unfolding written_by_def by blast
  from replay_lines_written [OF _ each, of l hist "[]"] sz window vw obtain a c where
    ac: "view k = (a, c)" and rl: "replay_lines (map (\<lambda>n. Document (node_to_dict n)) hist) [] l
      = Inr (map triple hist, l\<lparr>lg_window_anchor_hash := a, lg_chain := c,
          lg_wal_proof_version := (if hist = [] then lg_wal_proof_version l else Some (version_of (?s = HASH_SCHEME_V2)))\<rparr>)"
    by auto
  let ?l = "l\<lparr>lg_window_anchor_hash := a, lg_chain := c,
     lg_wal_proof_version := (if hist = [] then lg_wal_proof_version l else Some (version_of (?s = HASH_SCHEME_V2)))\<rparr>"
  have load: "load_from_wal oid l = restore_mmr oid (map triple hist) ?l"
    using rl files lines by (simp add: load_from_wal_def wal_lines_def)
  show ?thesis
  proof (cases "hist = []")
    case True
    have "get_leaf_count (lg_mmr l) = 0" "get_root_hash (lg_mmr l) = Inr zero_root"
      using holds_leaf_count [OF holds_init [OF m]] holds_root [OF holds_init [OF m]]
      by (simp_all add: get_leaf_count_def spec_root_def)
    with True load v k ac show ?thesis
      by (simp add: restore_mmr_def adopt_scheme_def view_def spec_root_def)
  next
    case False
    have "rep.recorded_roots (?s = HASH_SCHEME_V2) [] (map digest_root (map triple hist))"
      using w by (simp add: written_by_def triple_def o_def)
    from restore_mmr_outcome [of ?l ?s oid, OF _ s _ _ this] False m pin obtain r where
      "restore_mmr oid (map triple hist) ?l = Inr (?l\<lparr>lg_mmr_hash_scheme := ?s, lg_mmr := r\<rparr>)"
      "get_leaf_count r = length hist" "get_root_hash r = Inr (spec_root (?s = HASH_SCHEME_V2) ?ls)"
      by (auto simp: triple_def o_def)
    with load k ac show ?thesis by (simp add: view_def)
  qed
qed

lemma view_open [simp]: "view (open_wal ok sz l) = view l"
  by (simp add: view_def)

text \<open>
  C2. Replay rebuilds the ledger: take any healthy ledger reached by commits, erasures and
  failures, with rotations at any point, and open a ledger on its files with the same window
  size and the same scheme or none pinned. The chain in memory, the anchor of its window, the
  leaf count and the root come back and no fault is raised, whether the accumulator is rebuilt
  leaf by leaf or from a checkpoint, and whatever the checkpoint file holds.
\<close>

theorem replay_rebuilds_ledger:
  assumes reach: "ledger_reach vs l" and healthy: "lg_fault_state l = healthy"
    and files: "lg_segments c = lg_segments l" "lg_active c = lg_active l" "lg_max_memory_nodes c = lg_max_memory_nodes l"
    and scheme: "scheme = MMR_SCHEME_AUTO \<or> scheme = hash_scheme (lg_mmr l)"
    and settings: "normalise_trusted_public_keys keys = Inr trusted" "engine_init mb wait_s = Inr e"
  shows "\<exists>l'. ledger_init oid scheme mb wait_s keys open_ok sz c = Inr l' \<and> lg_chain l' = lg_chain l
     \<and> lg_window_anchor_hash l' = lg_window_anchor_hash l \<and> lg_fault_state l' = healthy
     \<and> get_leaf_count (lg_mmr l') = get_leaf_count (lg_mmr l) \<and> get_root_hash (lg_mmr l') = get_root_hash (lg_mmr l)"
proof -
  from reach_recorded [OF reach healthy] obtain hist where rec: "recorded l hist" by blast
  then have known: "hash_scheme (lg_mmr l) = HASH_SCHEME_V1 \<or> hash_scheme (lg_mmr l) = HASH_SCHEME_V2"
    by (simp add: recorded_def)
  let ?used = "if scheme \<noteq> MMR_SCHEME_AUTO then scheme else MMR_NEW_CHAIN_DEFAULT_SCHEME"
  have used: "?used = HASH_SCHEME_V1 \<or> ?used = HASH_SCHEME_V2"
    using scheme known by (auto simp: MMR_NEW_CHAIN_DEFAULT_SCHEME_def)
  then obtain m where m: "mmr_init oid ?used = Inr m" using mmr_init_ok by blast
  let ?b = "before_load (scheme \<noteq> MMR_SCHEME_AUTO) ?used trusted e m c"
  have "wal_lines ?b = wal_lines l" "view ?b = genesis_view" "lg_max_memory_nodes ?b = lg_max_memory_nodes l"
    "lg_wal_proof_version ?b = None" "mmr_init oid (lg_mmr_hash_scheme ?b) = Inr (lg_mmr ?b)"
    "lg_scheme_pinned ?b \<Longrightarrow> lg_mmr_hash_scheme ?b = hash_scheme (lg_mmr l)"
    using files m scheme by (auto simp: before_load_def wal_lines_def view_def genesis_view_def)
  note load = load_recorded [OF rec this(1-3) _ this(4-6)]
  moreover have "0 < lg_max_memory_nodes l" using reach_inv [OF reach] by (simp add: ledger_inv_def)
  ultimately obtain l' where l': "load_from_wal oid ?b = Inr l'" "view l' = view l" "lg_fault_state l' = lg_fault_state ?b"
    "get_leaf_count (lg_mmr l') = get_leaf_count (lg_mmr l)" "get_root_hash (lg_mmr l') = get_root_hash (lg_mmr l)" by blast
  have "scheme_proof_version scheme \<noteq> None \<or> scheme = MMR_SCHEME_AUTO"
    using scheme version_schemes(2) [OF known] by auto
  then have "ledger_init oid scheme mb wait_s keys open_ok sz c = Inr (open_wal open_ok sz l')"
    using settings m l'(1) by (auto simp: ledger_init_def fresh_mmr_def Let_def)
  moreover have "lg_fault_state ?b = healthy" by (simp add: before_load_def)
  ultimately show ?thesis using l' by (simp add: view_def)
qed

theorem replay_rebuilds_ledger_witness:
  "let l = ledger_do (Forensic demo_env demo_request) demo_ledger;
       c = demo_config\<lparr>lg_segments := lg_segments l, lg_active := lg_active l, lg_max_memory_nodes := lg_max_memory_nodes l,
             lg_mmr_fast_restore := True, lg_mmr_state := lg_mmr_state l\<rparr>
   in \<exists>l'. ledger_init 1 MMR_SCHEME_AUTO 4 0 None True 0 c = Inr l' \<and> lg_chain l' = lg_chain l
        \<and> get_root_hash (lg_mmr l') = get_root_hash (lg_mmr l)"
proof -
  let ?l = "ledger_do (Forensic demo_env demo_request) demo_ledger"
  let ?c = "demo_config\<lparr>lg_segments := lg_segments ?l, lg_active := lg_active ?l, lg_max_memory_nodes := lg_max_memory_nodes ?l,
     lg_mmr_fast_restore := True, lg_mmr_state := lg_mmr_state ?l\<rparr>"
  have e: "\<exists>e. engine_init 4 0 = Inr e" by (simp add: engine_init_def)
  then obtain e where "engine_init 4 0 = Inr e" by blast
  from replay_rebuilds_ledger [where c = ?c and scheme = MMR_SCHEME_AUTO and keys = None and oid = 1 and open_ok = True and sz = 0,
      OF demo_committed(2,1) _ _ _ _ _ this]
  show ?thesis by (simp add: normalise_trusted_public_keys_def Let_def del: ledger_do.simps) blast
qed

end
