(* ===== verification/Ledger_Limits.thy ===== *)
theory Ledger_Limits
  imports Ledger_Progress Audit_Binding
begin

section \<open>Where the ledger promises more than it does\<close>

text \<open>
  Two places where the behaviour of the ledger differs from what its documentation says: an
  edit of a rejection that the sweep does not see, and stream records labelled as shredded
  whose request digest anybody can recompute.
\<close>

subsection \<open>Relabelling the newest rejection\<close>

text \<open>
  The edit needs no key: the status moves into the response digest, which is neither checked
  nor escaped, and the payload without a scheme that the verifier also tries is then the one
  that was signed. The hash recorded at creation is not part of the log; it is computed from
  the fields when the line is read.
\<close>

definition relabelled :: "audit_node \<Rightarrow> audit_node" where
  "relabelled n =
     post_init (n\<lparr>an_response_hash := an_response_hash n @ ''|rejected|'' @ an_signature_scheme n,
       an_status := NODE_STATUS_COMMITTED\<rparr>)"

definition plain_rejection :: "audit_node \<Rightarrow> bool" where
  "plain_rejection n \<longleftrightarrow>
     an_status n = NODE_STATUS_REJECTED \<and> an_waf_verdict n = [] \<and> an_signer_name n = [] \<and> an_signature_meaning n = []
     \<and> an_signature_scheme n = ''hmac-sha256''"

lemmas payload_defs = build_signed_payload_def fields_of_node_def base_fields_def verdict_field_def annotation_field_def
  status_field_def validate_waf_verdict_def validate_node_status_def validate_signature_scheme_def NODE_STATUS_COMMITTED_def
  NODE_STATUS_REJECTED_def WAF_VERDICTS_def verdict_defs

text \<open>The signed payload of the rejection is the payload without scheme of the edited node.\<close>

lemma relabelled_payload:
  assumes "plain_rejection n"
  shows "build_signed_payload (fields_of_node (relabelled n)) []
     = build_signed_payload (fields_of_node n) (an_signature_scheme n)"
  using assms by (simp add: plain_rejection_def relabelled_def post_init_def payload_defs SCHEME_MATERIAL_def)

lemma relabelled_candidates:
  assumes "plain_rejection n"
  shows "\<exists>p cs. signed_payload_candidates_for (relabelled n) = Inr cs \<and> p \<in> set cs
     \<and> build_signed_payload (fields_of_node n) ''hmac-sha256'' = Inr p"
  using assms
  by (auto simp: signed_payload_candidates_for_def build_prebinding_signed_payload_def plain_rejection_def relabelled_def
      post_init_def payload_defs SCHEME_MATERIAL_def Let_def)

lemma hmac_valid:
  assumes "an_signature_scheme n = ''hmac-sha256''" and "an_public_key n = []" and "lg_signing_key l \<noteq> []"
    and "an_signature n = hmac_sign (lg_signing_key l) p" and "signed_payload_candidates_for n = Inr cs" and "p \<in> set cs"
  shows "signature_status vs l n = Valid"
proof -
  have "scheme_material_inconsistency n = None"
    using assms hmac_sign_token by (simp add: scheme_material_inconsistency_def SCHEME_MATERIAL_def)
  moreover have "list_ex (\<lambda>p. hmac_verify (lg_signing_key l) p (an_signature n)) cs"
    using assms(4,6) by (auto simp: list_ex_iff hmac_verify_def)
  ultimately show ?thesis using assms by (simp add: signature_status_def scheme_verdict_def)
qed

lemma proof_violation_cong:
  "an_mmr_proof n' = an_mmr_proof n \<Longrightarrow> an_mmr_leaf_hash n' = an_mmr_leaf_hash n \<Longrightarrow> an_mmr_leaf_index n' = an_mmr_leaf_index n \<Longrightarrow>
     an_mmr_leaf_count n' = an_mmr_leaf_count n \<Longrightarrow> an_merkle_root n' = an_merkle_root n \<Longrightarrow> proof_violation n' = proof_violation n"
  by (cases "an_mmr_proof n") (simp_all add: proof_violation_def)

lemma relabelled_sel:
  "an_signature_scheme (relabelled n) = an_signature_scheme n" "an_public_key (relabelled n) = an_public_key n"
  "an_signature (relabelled n) = an_signature n" "an_prev_hash (relabelled n) = an_prev_hash n"
  "an_is_fallback (relabelled n) = an_is_fallback n" "node_hash (relabelled n) = an_creation_hash (relabelled n)"
  "an_status (relabelled n) = NODE_STATUS_COMMITTED"
  by (simp_all add: relabelled_def post_init_def node_hash_def node_content_def)

lemma relabelled_proof: "proof_violation (relabelled n) = proof_violation n"
  by (rule proof_violation_cong) (simp_all add: relabelled_def post_init_def)

text \<open>An edited rejection passes every check of the sweep that the rejection passes.\<close>

lemma relabelled_passes:
  assumes n: "plain_rejection n" and key: "lg_signing_key l \<noteq> []" "an_public_key n = []"
    and p: "build_signed_payload (fields_of_node n) ''hmac-sha256'' = Inr p" "an_signature n = hmac_sign (lg_signing_key l) p"
    and was: "node_violation vs l prev n = Inr False"
  shows "signature_status vs l (relabelled n) = Valid \<and> node_violation vs l prev (relabelled n) = Inr False"
proof -
  from relabelled_candidates [OF n] p(1) obtain cs where
    "signed_payload_candidates_for (relabelled n) = Inr cs" "p \<in> set cs" by auto
  then have st: "signature_status vs l (relabelled n) = Valid"
    using n key p(2) by (intro hmac_valid) (simp_all add: relabelled_sel plain_rejection_def)
  from was have "an_prev_hash n = prev" "\<not> (lg_require_strong_signing l \<and> an_is_fallback n)" "proof_violation n = Inr False"
    by (auto simp: node_violation_def Let_def split: if_splits)
  with st show ?thesis by (simp add: node_violation_def relabelled_sel relabelled_proof)
qed

lemma rejection_commit_ok:
  assumes reach: "ledger_reach vs l" and ok: "signers_ok vs ev l" and healthy: "lg_fault_state l = healthy"
    and sw: "software_signed l" and sh: "lg_shredder l = None" and calm: "calm ev l" and n: "commit_rejection ev i a l = (Inr n, l')"
  shows "plain_rejection n \<and> an_public_key n = [] \<and> extended l n l'
     \<and> (\<exists>p. build_signed_payload (fields_of_node n) ''hmac-sha256'' = Inr p \<and> an_signature n = hmac_sign (lg_signing_key l) p)"
proof -
  from n sh obtain leaf subj rid req resp where
    c: "commit_with ev leaf subj (fields_of_node (rejection_node a rid req resp)) (rejection_node a rid req resp) l = (Inr n, l')"
    by (auto simp: commit_rejection_def payload_digest_def signed_fields_for_def Let_def split: if_splits sum.splits)
  let ?t = "rejection_node a rid req resp"
  have "signable ?t"
    by (simp add: signable_def rejection_node_def blank_node_def WAF_VERDICTS_def verdict_defs)
  from commit_with_ok [OF reach_inv [OF reach] ok healthy sw calm this seal_leaf_plain [OF sh], of leaf subj] c obtain r h cnt doc s p where
    nd: "n = complete_node ?t ev (tip_hash l) r (hmac_sign (lg_signing_key l) p, [], ''hmac-sha256'', False, p) h cnt doc s"
    and p: "build_signed_payload ((fields_of_node ?t)\<lparr>sf_prev_hash := tip_hash l, sf_merkle_root := r\<rparr>) ''hmac-sha256'' = Inr p"
    by auto
  have "fields_of_node n = (fields_of_node ?t)\<lparr>sf_prev_hash := tip_hash l, sf_merkle_root := r\<rparr>"
    by (simp add: nd complete_node_def post_init_def fields_of_node_def)
  moreover have "plain_rejection n" "an_public_key n = []" "an_signature n = hmac_sign (lg_signing_key l) p"
    by (simp_all add: nd complete_node_def post_init_def plain_rejection_def rejection_node_def blank_node_def)
  ultimately show ?thesis
    using p commit_with_outcome [OF reach_inv [OF reach] ok c] by simp
qed

lemma extended_window: "extended l n l' \<Longrightarrow> lg_chain l' = butlast (lg_chain l') @ [n]"
  by (auto simp: extended_def split: if_splits)

text \<open>
  The newest rejection can be relabelled as committed without the key: after a rejection
  signed under the ledger's key, replace the node by one with status \<open>committed\<close> whose
  response digest carries the dropped fields. Its signature is reported valid and the sweep
  of the edited chain finds nothing.
\<close>

theorem relabelled_rejection_verifies:
  assumes reach: "ledger_reach vs l" and ok: "signers_ok vs ev l" and healthy: "lg_fault_state l = healthy"
    and sw: "software_signed l" and sh: "lg_shredder l = None" and calm: "calm ev l" and n: "commit_rejection ev i a l = (Inr n, l')"
    and edit: "l'' = l'\<lparr>lg_chain := butlast (lg_chain l') @ [relabelled n]\<rparr>"
  shows "an_status n = NODE_STATUS_REJECTED \<and> an_status (relabelled n) = NODE_STATUS_COMMITTED
     \<and> signature_status vs l'' (relabelled n) = Valid \<and> verify_integrity vs l'' = Inr (True, None)"
proof -
  from rejection_commit_ok [OF reach ok healthy sw sh calm n] obtain p where
    f: "plain_rejection n" "an_public_key n = []" "extended l n l'"
      "build_signed_payload (fields_of_node n) ''hmac-sha256'' = Inr p" "an_signature n = hmac_sign (lg_signing_key l) p" by blast
  have "commits_via ev l (Inr n, l')" using commit_rejection_via [of ev l i a] n by simp
  from commits_via_outcome [OF this reach_inv [OF reach] ok] have inv: "ledger_inv vs l'" and keys: "same_keys l l'" by simp_all
  have key: "lg_signing_key l' \<noteq> []" "an_signature n = hmac_sign (lg_signing_key l') p"
    using sw keys f(5) by (simp_all add: software_signed_def same_keys_def)
  let ?q = "end_hash (lg_window_anchor_hash l') (butlast (lg_chain l'))"
  have "clean vs l' (lg_window_anchor_hash l') (butlast (lg_chain l') @ [n])"
    using inv extended_window [OF f(3)] by (simp add: ledger_inv_def)
  then have rest: "clean vs l' (lg_window_anchor_hash l') (butlast (lg_chain l'))" and v: "node_violation vs l' ?q n = Inr False"
    by (simp_all add: clean_snoc)
  note ed = relabelled_passes [OF f(1) key(1) f(2,4) key(2) v]
  have same: "same_keys l' l''" by (simp add: edit same_keys_def)
  have "clean vs l'' (lg_window_anchor_hash l') (butlast (lg_chain l') @ [relabelled n])"
    using ed rest by (simp add: clean_cong [OF same] node_violation_cong [OF same] clean_snoc)
  then have "verify_integrity vs l'' = Inr (True, None)"
    by (simp add: edit verify_integrity_def sweep_clean)
  with ed f(1) show ?thesis by (simp add: status_cong [OF same] relabelled_sel plain_rejection_def)
qed

lemma demo_rejected: "\<exists>n l'. commit_rejection demo_env ''x'' demo_rejection demo_ledger = (Inr n, l')"
proof -
  let ?t = "\<lambda>q r. rejection_node demo_rejection ''r1'' q r"
  have "\<exists>leaf subj q r. commit_rejection demo_env ''x'' demo_rejection demo_ledger
     = commit_with demo_env leaf subj (fields_of_node (?t q r)) (?t q r) demo_ledger"
    using demo_calm(3)
    by (auto simp: commit_rejection_def payload_digest_def signed_fields_for_def or_default_def
        demo_rejection_def MAX_PAYLOAD_BYTES_def build_merkle_leaf_def validate_waf_verdict_def WAF_VERDICTS_def verdict_defs Let_def)
  moreover have "signable (?t q r)" for q r
    by (simp add: signable_def rejection_node_def blank_node_def demo_rejection_def WAF_VERDICTS_def verdict_defs)
  note commit_with_ok [OF reach_inv [OF New [OF demo_new]] demo_signers [OF demo_no_tokens] new_ledger_facts(4) [OF demo_new]
      demo_calm(2,1) this seal_leaf_plain [OF demo_calm(3)]]
  ultimately show ?thesis by metis
qed

theorem relabelled_rejection_verifies_witness:
  "\<exists>n l'. commit_rejection demo_env ''x'' demo_rejection demo_ledger = (Inr n, l')
     \<and> verify_integrity demo_verifiers (l'\<lparr>lg_chain := butlast (lg_chain l') @ [relabelled n]\<rparr>) = Inr (True, None)
     \<and> an_status n \<noteq> an_status (relabelled n)"
proof -
  from demo_rejected obtain n l' where c: "commit_rejection demo_env ''x'' demo_rejection demo_ledger = (Inr n, l')" by blast
  from relabelled_rejection_verifies [OF New [OF demo_new] demo_signers [OF demo_no_tokens] new_ledger_facts(4) [OF demo_new]
      demo_calm(2,3,1) c refl] c
  show ?thesis by (auto simp: NODE_STATUS_COMMITTED_def NODE_STATUS_REJECTED_def)
qed

subsection \<open>Stream records under shredding\<close>

text \<open>
  A stream record is labelled as shredded and keeps a plain digest: with shredding on, a
  stream commit of a request records the scheme whose digests are documented as keyed, and
  the request digest is the unkeyed SHA-256 of the request. Erasing the subject's key leaves
  it in place.
\<close>

theorem stream_digest_not_keyed:
  assumes "lg_shredder l = Some v" and "sa_request_bytes a = Some b" and "commit_forensic_summary ev a l = (Inr n, l')"
  shows "an_shredding_version n = SHRED_SCHEME_V2 \<and> an_request_hash n = sha256_hex b"
proof -
  from assms(2,3) obtain leaf st where
    "commit_with ev leaf (sa_tenant_id a) (signed_fields_for (summary_node a (sha256_hex b) st)) (summary_node a (sha256_hex b) st) l = (Inr n, l')"
    by (auto simp: commit_forensic_summary_def summary_request_def Let_def split: if_splits sum.splits option.splits)
  from commit_with_node [OF this] obtain r sg h cnt doc s l1 where
    s: "seal_leaf ev leaf (sa_tenant_id a) l = (Inr (h, s), l1)"
    and n: "n = complete_node (summary_node a (sha256_hex b) st) ev (tip_hash l) r sg h cnt doc s" by blast
  from s assms(1) obtain sp where "s = Some sp" by (auto simp: seal_leaf_def bind_res_eq_Inr split: prod.splits)
  with n show ?thesis
    by (cases sg) (simp add: complete_node_def post_init_def summary_node_def seal_scheme_def)
qed

definition demo_summary :: summary_args where
  "demo_summary =
     \<lparr>sa_state_id = ''s1'', sa_request_bytes = Some [1, 2], sa_request_digest = None, sa_response_hash = replicate 64 CHR ''0'',
      sa_response_size = 0, sa_response_preview = [], sa_terminal_outcome = ''complete'', sa_final_marker_included = True,
      sa_token_count = 0, sa_elapsed_seconds = Fin 1, sa_redaction_hits = [], sa_tenant_id = ''t'', sa_model = ''m'',
      sa_endpoint = ''chat'', sa_phi_scrubbed = False, sa_scrub_method = [], sa_signer_name = [], sa_signature_meaning = []\<rparr>"

definition demo_vault_ledger :: ledger where
  "demo_vault_ledger = demo_ledger\<lparr>lg_shredder := Some (\<lambda>_. None)\<rparr>"

lemma demo_summary_commits: "\<exists>n l'. commit_forensic_summary demo_env demo_summary demo_vault_ledger = (Inr n, l')"
proof -
  let ?t = "summary_node demo_summary (sha256_hex [1, 2]) ''durable-terminal''"
  have "is_sha256_hex_str (replicate 64 CHR ''0'')" by (simp add: is_sha256_hex_str_def hex_digits_def list_all_iff)
  then have "\<exists>leaf. commit_forensic_summary demo_env demo_summary demo_vault_ledger
     = commit_with demo_env leaf ''t'' (fields_of_node ?t) ?t demo_vault_ledger"
    by (simp add: commit_forensic_summary_def summary_request_def summary_checks_def demo_summary_def
        RECOVERED_TERMINAL_MEANING_def MAX_PAYLOAD_BYTES_def allowed_outcomes_def signed_fields_for_def Let_def) blast
  then obtain leaf where c: "commit_forensic_summary demo_env demo_summary demo_vault_ledger
     = commit_with demo_env leaf ''t'' (fields_of_node ?t) ?t demo_vault_ledger" by blast
  have "\<exists>h s l1. seal_leaf demo_env leaf ''t'' demo_vault_ledger = (Inr (h, s), l1)"
    by (simp add: seal_leaf_def demo_vault_ledger_def demo_env_def seal_def key_for_seal_def)
  then obtain h s l1 where seal: "seal_leaf demo_env leaf ''t'' demo_vault_ledger = (Inr (h, s), l1)" by blast
  have "signable ?t"
    by (simp add: signable_def summary_node_def blank_node_def demo_summary_def sorted_counts_def WAF_VERDICTS_def verdict_defs)
  moreover have "ledger_inv demo_verifiers demo_vault_ledger"
    using reach_inv [OF New [OF demo_new]] ledger_inv_core [of demo_vault_ledger demo_ledger] by (simp add: demo_vault_ledger_def)
  moreover have "signers_ok demo_verifiers demo_env demo_vault_ledger"
    by (rule demo_signers) (simp_all add: demo_vault_ledger_def demo_no_tokens)
  moreover have "lg_fault_state demo_vault_ledger = healthy" "software_signed demo_vault_ledger" "calm demo_env demo_vault_ledger"
    using new_ledger_facts(4) [OF demo_new] demo_calm by (simp_all add: demo_vault_ledger_def software_signed_def calm_def)
  ultimately show ?thesis using commit_with_ok [OF _ _ _ _ _ _ seal] c by metis
qed

theorem stream_digest_not_keyed_witness:
  "\<exists>n l'. commit_forensic_summary demo_env demo_summary demo_vault_ledger = (Inr n, l')
     \<and> an_shredding_version n = SHRED_SCHEME_V2 \<and> an_request_hash n = sha256_hex [1, 2]"
proof -
  from demo_summary_commits obtain n l' where c: "commit_forensic_summary demo_env demo_summary demo_vault_ledger = (Inr n, l')" by blast
  have "lg_shredder demo_vault_ledger = Some (\<lambda>_. None)" "sa_request_bytes demo_summary = Some [1, 2]"
    by (simp_all add: demo_vault_ledger_def demo_summary_def)
  from stream_digest_not_keyed [OF this c] c show ?thesis by blast
qed

end
