(* ===== verification/Causal_Clock.thy ===== *)
theory Causal_Clock
  imports Sha256
begin

section \<open>Vector clocks of the replicated accumulator\<close>

text \<open>
  The \<open>VectorClock\<close> of \<^verbatim>\<open>aegis_rust_v2/src/crdt_mmr.rs\<close>. A \<open>BTreeMap<u32, u64>\<close> is the
  list of its entries in ascending key order, which is how the code iterates over it; an
  absent replica reads as zero. Counters are 64-bit and saturate. The lemmas show that a
  clock is determined by what its lookups return, that \<open>merge\<close> is the pointwise maximum and
  so a join semilattice, and that the scalar sum the accumulator sorts by extends causal
  precedence as long as it does not saturate.
\<close>

type_synonym u64 = "64 word"
type_synonym vector_clock = "(u32 \<times> u64) list"

definition sat_add :: "u64 \<Rightarrow> u64 \<Rightarrow> u64" where
  "sat_add a b = (if unat a + unat b < 2 ^ 64 then a + b else - 1)"

definition clock_get :: "vector_clock \<Rightarrow> u32 \<Rightarrow> u64" where
  "clock_get c r = (case map_of c r of None \<Rightarrow> 0 | Some v \<Rightarrow> v)"

text \<open>\<open>entry(r).or_insert(0)\<close> followed by a write through the reference.\<close>

fun clock_entry :: "u32 \<Rightarrow> (u64 \<Rightarrow> u64) \<Rightarrow> vector_clock \<Rightarrow> vector_clock" where
  "clock_entry r f [] = [(r, f 0)]"
| "clock_entry r f ((k, v) # c) =
     (if r < k then (r, f 0) # (k, v) # c
      else if r = k then (k, f v) # c
      else (k, v) # clock_entry r f c)"

definition clock_tick :: "u32 \<Rightarrow> vector_clock \<Rightarrow> vector_clock" where
  "clock_tick r c = clock_entry r (\<lambda>v. sat_add v 1) c"

definition clock_merge :: "vector_clock \<Rightarrow> vector_clock \<Rightarrow> vector_clock" where
  "clock_merge c other = fold (\<lambda>(r, s). clock_entry r (\<lambda>v. max v s)) other c"

definition clock_scalar :: "vector_clock \<Rightarrow> u64" where
  "clock_scalar c = foldl sat_add 0 (map snd c)"

datatype ordering = Less | Equal | Greater

text \<open>\<open>PartialOrd::partial_cmp\<close>: the loop over the keys of both clocks, with its early return.\<close>

fun cmp_loop :: "vector_clock \<Rightarrow> vector_clock \<Rightarrow> u32 list \<Rightarrow> bool \<Rightarrow> bool \<Rightarrow> ordering option" where
  "cmp_loop a b [] gt lt =
     (if gt \<and> lt then None
      else if gt then Some Greater
      else if lt then Some Less
      else Some Equal)"
| "cmp_loop a b (k # ks) gt lt =
     (let g = (gt \<or> clock_get b k < clock_get a k);
          l = (lt \<or> clock_get a k < clock_get b k)
      in if g \<and> l then None else cmp_loop a b ks g l)"

definition clock_cmp :: "vector_clock \<Rightarrow> vector_clock \<Rightarrow> ordering option" where
  "clock_cmp a b = cmp_loop a b (sort (remdups (map fst a @ map fst b))) False False"

subsection \<open>Clocks as maps\<close>

definition clock_ok :: "vector_clock \<Rightarrow> bool" where
  "clock_ok c \<longleftrightarrow> sorted_wrt (<) (map fst c)"

lemma clock_ok_simps [simp]:
  "clock_ok []"
  "clock_ok ((k, v) # c) \<longleftrightarrow> (\<forall>k' \<in> fst ` set c. k < k') \<and> clock_ok c"
  by (auto simp: clock_ok_def)

lemma clock_ok_distinct: "clock_ok c \<Longrightarrow> distinct (map fst c)"
  by (simp add: clock_ok_def strict_sorted_iff)

lemma keys_clock_entry [simp]: "fst ` set (clock_entry r f c) = insert r (fst ` set c)"
  by (induction r f c rule: clock_entry.induct) auto

lemma clock_ok_entry [simp]: "clock_ok c \<Longrightarrow> clock_ok (clock_entry r f c)"
proof (induction r f c rule: clock_entry.induct)
  case (2 r f k v c)
  then show ?case by (auto simp: not_less le_less dest: less_trans)
qed simp

lemma map_of_clock_entry:
  "clock_ok c \<Longrightarrow> map_of (clock_entry r f c) = (map_of c)(r \<mapsto> f (clock_get c r))"
proof (induction r f c rule: clock_entry.induct)
  case (2 r f k v c)
  have "r < k \<Longrightarrow> map_of c r = None"
    using "2.prems" by (auto simp: map_of_eq_None_iff)
  with 2 show ?case by (auto simp: clock_get_def fun_upd_twist)
qed (simp add: clock_get_def)

lemma clock_ok_merge [simp]: "clock_ok c \<Longrightarrow> clock_ok (clock_merge c d)"
  unfolding clock_merge_def by (induction d arbitrary: c) auto

definition opt_max :: "u64 option \<Rightarrow> u64 option \<Rightarrow> u64 option" where
  "opt_max a b = (case a of None \<Rightarrow> b | Some v \<Rightarrow> (case b of None \<Rightarrow> Some v | Some w \<Rightarrow> Some (max v w)))"

lemma opt_max_laws:
  "opt_max a a = a" "opt_max a b = opt_max b a" "opt_max (opt_max a b) c = opt_max a (opt_max b c)"
  by (auto simp: opt_max_def ac_simps split: option.splits)

lemma map_of_clock_merge:
  "clock_ok c \<Longrightarrow> clock_ok d \<Longrightarrow> map_of (clock_merge c d) k = opt_max (map_of c k) (map_of d k)"
proof (induction d arbitrary: c)
  case Nil
  then show ?case by (simp add: clock_merge_def opt_max_def split: option.splits)
next
  case (Cons e d)
  obtain r s where e: "e = (r, s)" by (cases e)
  have r: "map_of d r = None"
    using Cons.prems by (auto simp: e map_of_eq_None_iff)
  have "map_of (clock_merge c (e # d)) k = opt_max (map_of (clock_entry r (\<lambda>v. max v s) c) k) (map_of d k)"
    using Cons by (simp add: clock_merge_def e)
  then show ?case
    using Cons.prems r by (auto simp: e map_of_clock_entry clock_get_def opt_max_def split: option.splits)
qed

text \<open>A clock in ascending order is determined by its lookups.\<close>

lemma clock_eqI:
  assumes "clock_ok a" "clock_ok b" "map_of a = map_of b"
  shows "a = b"
proof -
  have s: "set a = set b"
    using assms map_of_inject_set [OF clock_ok_distinct [OF assms(1)] clock_ok_distinct [OF assms(2)]] by simp
  then have "set (map fst a) = set (map fst b)" by simp
  with assms(1,2) have k: "map fst a = map fst b"
    by (simp add: clock_ok_def strict_sorted_equal)
  show ?thesis
  proof (rule nth_equalityI)
    show len: "length a = length b" using k by (metis length_map)
    fix i assume i: "i < length a"
    with k len have f: "fst (a ! i) = fst (b ! i)" by (metis nth_map)
    have "map_of a (fst (a ! i)) = Some (snd (a ! i))" "map_of b (fst (b ! i)) = Some (snd (b ! i))"
      using i len clock_ok_distinct [OF assms(1)] clock_ok_distinct [OF assms(2)] by simp_all
    with assms(3) f show "a ! i = b ! i" by (simp add: prod_eq_iff)
  qed
qed

subsection \<open>Big-endian numbers\<close>

definition from_be :: "bytes \<Rightarrow> nat" where
  "from_be bs = foldl (\<lambda>acc b. acc * 256 + unat b) 0 bs"

lemma from_be_Cons: "from_be (b # bs) = unat b * 256 ^ length bs + from_be bs"
proof -
  have "foldl (\<lambda>acc b. acc * 256 + unat b) a bs = a * 256 ^ length bs + from_be bs" for a bs
    unfolding from_be_def by (induction bs rule: rev_induct) (simp_all add: distrib_right)
  from this [of "unat b" bs] show ?thesis unfolding from_be_def by simp
qed

lemma be_bytes_Suc: "be_bytes (Suc n) w = ucast (drop_bit (8 * n) w) # be_bytes n w"
  by (simp add: be_bytes_def)

lemma from_be_be_bytes: "from_be (be_bytes n (w :: 'a::len word)) = unat w mod 256 ^ n"
proof (induction n)
  case 0
  then show ?case by (simp add: be_bytes_def from_be_def)
next
  case (Suc n)
  have "unat (ucast (drop_bit (8 * n) w) :: byte) = unat w div 256 ^ n mod 256"
    
    using take_bit_nat_eq_self [OF unsigned_less [of w, where ?'a = nat]]
    by (simp only: unsigned_ucast_eq unsigned_drop_bit_eq) (simp add: drop_bit_eq_div take_bit_eq_mod [of 8] power_mult)
  moreover have "unat w mod 256 ^ Suc n = unat w div 256 ^ n mod 256 * 256 ^ n + unat w mod 256 ^ n"
    by (simp only: power_Suc2 mod_mult2_eq mult.commute [of "256 ^ n" "unat w div 256 ^ n mod 256"])
  ultimately show ?case using Suc by (simp add: be_bytes_Suc from_be_Cons)
qed

lemma from_be_be_bytes_word:
  "LENGTH('a) = 8 * n \<Longrightarrow> of_nat (from_be (be_bytes n (w :: 'a::len word))) = w"
  using unsigned_less [of w, where ?'a = nat] by (simp add: from_be_be_bytes power_mult)

lemma from_be_less: "from_be bs < 256 ^ length bs"
proof (induction bs)
  case (Cons b bs)
  have "unat b \<le> 255" using unsigned_less [of b, where ?'a = nat] by simp
  then have "unat b * 256 ^ length bs \<le> 255 * 256 ^ length bs" by (rule mult_right_mono) simp
  from this Cons have "unat b * 256 ^ length bs + from_be bs < 255 * 256 ^ length bs + 256 ^ length bs"
    by (rule add_le_less_mono)
  then show ?case by (simp add: from_be_Cons)
qed (simp add: from_be_def)

lemma from_be_inj: "length bs = length cs \<Longrightarrow> from_be bs = from_be cs \<Longrightarrow> bs = cs"
proof (induction bs cs rule: list_induct2)
  case (Cons b bs c cs)
  have "from_be (b # bs) div 256 ^ length bs = unat b" "from_be (c # cs) div 256 ^ length cs = unat c"
    "from_be (b # bs) mod 256 ^ length bs = from_be bs" "from_be (c # cs) mod 256 ^ length cs = from_be cs"
    using from_be_less [of bs] from_be_less [of cs] by (simp_all add: from_be_Cons)
  then have "unat b = unat c" "from_be bs = from_be cs" using Cons.prems Cons.hyps by metis+
  with Cons.IH show ?case by (simp add: word_unat_eq_iff)
qed simp

lemma be_bytes_from_be:
  assumes "length bs = n" "LENGTH('a) = 8 * n"
  shows "be_bytes n (of_nat (from_be bs) :: 'a::len word) = bs"
proof (rule from_be_inj)
  have "from_be bs < 2 ^ LENGTH('a)" using from_be_less [of bs] assms by (simp add: power_mult)
  then show "from_be (be_bytes n (of_nat (from_be bs) :: 'a word)) = from_be bs"
    using from_be_less [of bs] assms by (simp add: from_be_be_bytes unat_of_nat)
qed (simp add: assms)

lemma u64_of_nat_inj: "m \<le> 2 ^ 32 \<Longrightarrow> n \<le> 2 ^ 32 \<Longrightarrow> (of_nat m :: u64) = of_nat n \<Longrightarrow> m = n"
  by (drule arg_cong [where f = unat]) (simp add: unat_of_nat)

subsection \<open>Joins\<close>

text \<open>
  What replicas rely on: an operation that is idempotent, commutative and associative on
  the states that occur. Then folding in a list of states gives a result that depends only
  on which states were received, not on how often or in what order.
\<close>

locale join_laws =
  fixes ok :: "'s \<Rightarrow> bool" and join :: "'s \<Rightarrow> 's \<Rightarrow> 's"
  assumes join_ok: "ok a \<Longrightarrow> ok b \<Longrightarrow> ok (join a b)"
    and join_idem: "ok a \<Longrightarrow> join a a = a"
    and join_commute: "ok a \<Longrightarrow> ok b \<Longrightarrow> join a b = join b a"
    and join_assoc: "ok a \<Longrightarrow> ok b \<Longrightarrow> ok c \<Longrightarrow> join (join a b) c = join a (join b c)"
begin

lemma fold_ok: "ok x \<Longrightarrow> (\<And>y. y \<in> set ys \<Longrightarrow> ok y) \<Longrightarrow> ok (foldl join x ys)"
  by (induction ys arbitrary: x) (simp_all add: join_ok)

lemma le_join:
  assumes "ok a" "ok b" "ok c" "join a b = b"
  shows "join a (join b c) = join b c"
  using assms join_assoc [of a b c] by simp

lemma fold_upper:
  assumes "ok x" "\<And>y. y \<in> set ys \<Longrightarrow> ok y" "z = x \<or> z \<in> set ys"
  shows "join z (foldl join x ys) = foldl join x ys"
  using assms
proof (induction ys rule: rev_induct)
  case Nil
  then show ?case by (simp add: join_idem)
next
  case (snoc y ys)
  let ?F = "foldl join x ys"
  have F: "ok ?F" "ok y" using snoc.prems by (auto intro: fold_ok)
  show ?case
  proof (cases "z = x \<or> z \<in> set ys")
    case True
    then have "join z ?F = ?F" "ok z" using snoc by auto
    with F show ?thesis by (simp add: le_join)
  next
    case False
    then have "z = y" using snoc.prems(3) by auto
    moreover have "join y (join y ?F) = join y ?F"
      using F by (simp add: le_join join_idem)
    ultimately show ?thesis using F by (simp add: join_commute [of ?F y])
  qed
qed

lemma fold_least:
  assumes "ok x" "\<And>y. y \<in> set ys \<Longrightarrow> ok y" "ok u"
    and "join x u = u" "\<And>y. y \<in> set ys \<Longrightarrow> join y u = u"
  shows "join (foldl join x ys) u = u"
  using assms
proof (induction ys rule: rev_induct)
  case (snoc y ys)
  then have "ok (foldl join x ys)" by (auto intro: fold_ok)
  with snoc show ?case by (simp add: join_assoc)
qed simp

theorem delivery_irrelevant:
  assumes "ok x" "\<And>y. y \<in> set ys \<Longrightarrow> ok y" "set ys = set zs"
  shows "foldl join x ys = foldl join x zs"
proof -
  let ?Y = "foldl join x ys" and ?Z = "foldl join x zs"
  have zs: "\<And>z. z \<in> set zs \<Longrightarrow> ok z" using assms by simp
  have ok: "ok ?Y" "ok ?Z" using fold_ok [OF assms(1,2)] fold_ok [OF assms(1) zs] by auto
  have "join ?Y ?Z = ?Z"
    by (rule fold_least [OF assms(1,2) ok(2)]) (use assms(3) fold_upper [OF assms(1) zs] in blast)+
  moreover have "join ?Z ?Y = ?Y"
    by (rule fold_least [OF assms(1) zs ok(1)]) (use assms(3) fold_upper [OF assms(1,2)] in blast)+
  ultimately show ?thesis using join_commute [OF ok] by simp
qed

end

interpretation clocks: join_laws clock_ok clock_merge
  proof unfold_locales
  show "clock_merge (clock_merge a b) c = clock_merge a (clock_merge b c)" if "clock_ok a" "clock_ok b" "clock_ok c" for a b c
    using that by (intro clock_eqI) (simp_all add: fun_eq_iff map_of_clock_merge opt_max_laws(3))
  show "clock_merge a b = clock_merge b a" if "clock_ok a" "clock_ok b" for a b
    using that by (intro clock_eqI) (simp_all add: fun_eq_iff map_of_clock_merge opt_max_laws(2) [of "map_of a _"])
qed (auto intro!: clock_eqI simp: fun_eq_iff map_of_clock_merge opt_max_laws(1))

subsection \<open>Causal precedence and the scalar sum\<close>

definition clock_le :: "vector_clock \<Rightarrow> vector_clock \<Rightarrow> bool" where
  "clock_le a b \<longleftrightarrow> (\<forall>k. clock_get a k \<le> clock_get b k)"

definition clock_sum :: "vector_clock \<Rightarrow> nat" where
  "clock_sum c = (\<Sum>e\<leftarrow>c. unat (snd e))"

lemma cmp_loop_result:
  "cmp_loop a b ks gt lt =
     (let g = (gt \<or> (\<exists>k\<in>set ks. clock_get b k < clock_get a k));
          l = (lt \<or> (\<exists>k\<in>set ks. clock_get a k < clock_get b k))
      in if g \<and> l then None else if g then Some Greater else if l then Some Less else Some Equal)"
  by (induction a b ks gt lt rule: cmp_loop.induct) (simp_all add: Let_def, auto)

lemma clock_get_absent: "k \<notin> fst ` set c \<Longrightarrow> clock_get c k = 0"
  by (auto simp: clock_get_def map_of_eq_None_iff [THEN iffD2])

lemma clock_cmp_Less:
  "clock_cmp a b = Some Less \<longleftrightarrow> clock_le a b \<and> (\<exists>k. clock_get a k < clock_get b k)"
proof -
  let ?K = "fst ` set a \<union> fst ` set b"
  have gt: "(\<exists>k\<in>?K. clock_get b k < clock_get a k) \<longleftrightarrow> \<not> clock_le a b"
    unfolding clock_le_def not_all not_le using clock_get_absent [of _ a]
    by (metis UnI1 word_not_simps(1))
  have lt: "(\<exists>k\<in>?K. clock_get a k < clock_get b k) \<longleftrightarrow> (\<exists>k. clock_get a k < clock_get b k)"
    using clock_get_absent [of _ b] by (metis UnI2 word_not_simps(1))
  have keys: "set (sort (remdups (map fst a @ map fst b))) = ?K" by simp
  show ?thesis unfolding clock_cmp_def cmp_loop_result keys gt lt Let_def by simp
qed

lemma clock_get_merge:
  "clock_ok a \<Longrightarrow> clock_ok b \<Longrightarrow> clock_get (clock_merge a b) k = max (clock_get a k) (clock_get b k)"
  by (auto simp: clock_get_def map_of_clock_merge opt_max_def split: option.splits)

lemma clock_le_merge:
  "clock_ok a \<Longrightarrow> clock_ok b \<Longrightarrow> clock_le a (clock_merge a b) \<and> clock_le b (clock_merge a b)"
  by (simp add: clock_le_def clock_get_merge)

lemma clock_le_refl [simp]: "clock_le a a"
  by (simp add: clock_le_def)

lemma clock_le_trans: "clock_le a b \<Longrightarrow> clock_le b c \<Longrightarrow> clock_le a c"
  unfolding clock_le_def using order_trans by blast

lemma u64_less: "unat (a :: u64) < 18446744073709551616"
  using unsigned_less [of a, where ?'a = nat] by simp

lemma u64_max: "unat (- 1 :: u64) = 18446744073709551615"
  by (simp add: unsigned_minus_1_eq_mask mask_eq_exp_minus_1)

lemma unat_sat_add: "unat (sat_add a b) = min (unat a + unat b) (2 ^ 64 - 1)"
proof (cases "unat a + unat b < 2 ^ 64")
  case True
  then show ?thesis by (simp add: sat_add_def unat_word_ariths)
next
  case False
  then show ?thesis by (simp add: sat_add_def u64_max)
qed

lemma unat_fold_sat_add:
  "unat (foldl sat_add a vs) = min (unat a + (\<Sum>v\<leftarrow>vs. unat v)) (2 ^ 64 - 1)"
proof (induction vs arbitrary: a)
  case Nil
  then show ?case using u64_less [of a] by simp
next
  case (Cons v vs)
  then show ?case by (auto simp: unat_sat_add min_def)
qed

lemma unat_clock_scalar: "unat (clock_scalar c) = min (clock_sum c) (2 ^ 64 - 1)"
  by (simp add: clock_scalar_def unat_fold_sat_add clock_sum_def comp_def)

lemma clock_sum_over:
  assumes "clock_ok c" "finite K" "fst ` set c \<subseteq> K"
  shows "clock_sum c = (\<Sum>k\<in>K. unat (clock_get c k))"
proof -
  have "clock_sum c = (\<Sum>k\<leftarrow>map fst c. unat (clock_get c k))"
    unfolding clock_sum_def map_map
    by (rule arg_cong [where f = sum_list], rule map_cong [OF refl])
      (use clock_ok_distinct [OF assms(1)] in \<open>auto simp: clock_get_def\<close>)
  also have "\<dots> = (\<Sum>k\<in>fst ` set c. unat (clock_get c k))"
    using sum_list_distinct_conv_sum_set [OF clock_ok_distinct [OF assms(1)], of "\<lambda>k. unat (clock_get c k)"] by simp
  also have "\<dots> = (\<Sum>k\<in>K. unat (clock_get c k))"
    using assms(2,3) by (intro sum.mono_neutral_left) (auto simp: clock_get_absent)
  finally show ?thesis .
qed

lemma clock_sum_mono:
  assumes "clock_ok a" "clock_ok b" "clock_le a b"
  shows "clock_sum a \<le> clock_sum b"
    and "clock_get a k < clock_get b k \<Longrightarrow> clock_sum a < clock_sum b"
proof -
  let ?K = "fst ` set a \<union> fst ` set b"
  have s: "clock_sum a = (\<Sum>k\<in>?K. unat (clock_get a k))" "clock_sum b = (\<Sum>k\<in>?K. unat (clock_get b k))"
    using assms by (intro clock_sum_over; auto)+
  have le: "unat (clock_get a k) \<le> unat (clock_get b k)" for k
    using assms(3) by (simp add: clock_le_def word_le_nat_alt)
  show "clock_sum a \<le> clock_sum b" unfolding s by (rule sum_mono) (rule le)
  assume "clock_get a k < clock_get b k"
  moreover from this have "k \<in> ?K" using clock_get_absent [of k b] by fastforce
  ultimately show "clock_sum a < clock_sum b"
    unfolding s by (intro sum_strict_mono_ex1) (auto simp: le word_less_nat_alt)
qed

lemma clock_get_tick: "clock_ok c \<Longrightarrow> clock_get (clock_tick r c) k = (if k = r then sat_add (clock_get c r) 1 else clock_get c k)"
  by (simp add: clock_tick_def clock_get_def map_of_clock_entry)

lemma clock_ok_tick [simp]: "clock_ok c \<Longrightarrow> clock_ok (clock_tick r c)"
  by (simp add: clock_tick_def)

lemma le_sat_add: "a \<le> sat_add a b"
  using u64_less [of a] by (simp add: word_le_nat_alt unat_sat_add)

lemma clock_le_tick: "clock_ok c \<Longrightarrow> clock_le c (clock_tick r c)"
  by (simp add: clock_le_def clock_get_tick le_sat_add)

lemma clock_sum_tick:
  assumes "clock_ok c"
  shows "clock_sum (clock_tick r c) \<le> clock_sum c + 1"
    and "clock_get c r \<noteq> - 1 \<Longrightarrow> clock_sum (clock_tick r c) = clock_sum c + 1"
proof -
  let ?K = "insert r (fst ` set c)" and ?d = "clock_tick r c"
  have keys: "fst ` set ?d = ?K" by (simp add: clock_tick_def)
  have s: "clock_sum c = (\<Sum>k\<in>?K. unat (clock_get c k))" "clock_sum ?d = (\<Sum>k\<in>?K. unat (clock_get ?d k))"
    using assms keys by (intro clock_sum_over; auto)+
  have rest: "(\<Sum>k\<in>?K - {r}. unat (clock_get ?d k)) = (\<Sum>k\<in>?K - {r}. unat (clock_get c k))"
    using assms by (intro sum.cong) (auto simp: clock_get_tick)
  have split: "clock_sum c = unat (clock_get c r) + (\<Sum>k\<in>?K - {r}. unat (clock_get c k))"
    "clock_sum ?d = unat (sat_add (clock_get c r) 1) + (\<Sum>k\<in>?K - {r}. unat (clock_get c k))"
    unfolding s rest [symmetric] using assms by (auto simp: clock_get_tick sum.remove [of ?K r] rest)
  then show "clock_sum ?d \<le> clock_sum c + 1" by (simp add: unat_sat_add)
  assume "clock_get c r \<noteq> - 1"
  then have "unat (clock_get c r) + 1 \<le> 2 ^ 64 - 1"
    using u64_less [of "clock_get c r"] u64_max by (simp add: word_unat_eq_iff)
  with split show "clock_sum ?d = clock_sum c + 1" by (simp add: unat_sat_add)
qed

end
