(* ===== verification/Causal_Mmr.thy ===== *)
theory Causal_Mmr
  imports Causal_Clock Py_Text "HOL-Library.List_Lexorder" "HOL-Library.Product_Lexorder"
begin

section \<open>The replicated accumulator\<close>

text \<open>
  The \<open>CausalMmr\<close> of \<^verbatim>\<open>aegis_rust_v2/src/crdt_mmr.rs\<close>, the accumulator the gossip mesh
  reconciles: a Merkle Mountain Range over leaves that carry vector clocks, kept in a
  total order that extends causality. Definitions follow the Rust functions one by one:
  \<open>digest\<close>, \<open>sort_key\<close>, \<open>carry\<close>, \<open>append\<close>, \<open>root\<close> and \<open>join\<close>. The lemmas give the
  invariant of a replica, show that \<open>join\<close> is a semilattice on leaf sets, that leaves stay
  in causal order, and that two replicas with one root hold the same leaves; where a
  statement rests on digests being different for different leaves, its conclusion offers
  the colliding byte strings instead.
\<close>

subsection \<open>Leaves\<close>

record causal_leaf =
  lf_clock :: vector_clock
  lf_replica_id :: u32
  lf_payload_hash :: bytes

definition CAUSAL_LEAF :: byte where "CAUSAL_LEAF = 0"
definition CAUSAL_NODE :: byte where "CAUSAL_NODE = 1"
definition CAUSAL_ROOT :: byte where "CAUSAL_ROOT = 2"

definition clock_bytes :: "vector_clock \<Rightarrow> bytes" where
  "clock_bytes c = concat (map (\<lambda>(r, s). be_bytes 4 r @ be_bytes 8 s) c)"

definition causal_input :: "causal_leaf \<Rightarrow> bytes" where
  "causal_input l =
     CAUSAL_LEAF # be_bytes 4 (lf_replica_id l) @ be_bytes 8 (of_nat (length (lf_clock l)) :: u64)
     @ clock_bytes (lf_clock l) @ lf_payload_hash l"

definition causal_digest :: "causal_leaf \<Rightarrow> bytes" where
  "causal_digest l = sha256 (causal_input l)"

definition leaf_key :: "causal_leaf \<Rightarrow> u64 \<times> u32 \<times> u64 \<times> bytes" where
  "leaf_key l = (clock_scalar (lf_clock l), lf_replica_id l, clock_get (lf_clock l) (lf_replica_id l), causal_digest l)"

subsection \<open>The accumulator\<close>

record causal_mmr =
  cm_replica_id :: u32
  cm_clock :: vector_clock
  cm_leaves :: "causal_leaf list"
  cm_peaks :: "bytes list"

definition causal_new :: "u32 \<Rightarrow> causal_mmr" where
  "causal_new r = \<lparr>cm_replica_id = r, cm_clock = [], cm_leaves = [], cm_peaks = []\<rparr>"

definition causal_node_input :: "bytes \<Rightarrow> bytes \<Rightarrow> bytes" where
  "causal_node_input left edge = CAUSAL_NODE # left @ edge"

definition causal_node_hash :: "bytes \<Rightarrow> bytes \<Rightarrow> bytes" where
  "causal_node_hash left edge = sha256 (causal_node_input left edge)"

function carry :: "bytes list \<Rightarrow> nat \<Rightarrow> bytes \<Rightarrow> bytes list" where
  "carry peaks count edge =
     (if odd count then peaks @ [edge]
      else if peaks = [] then peaks @ [edge]
      else carry (butlast peaks) (count div 2) (causal_node_hash (last peaks) edge))"
  by pat_completeness auto
termination by (relation "measure (\<lambda>(peaks, _, _). length peaks)") auto

declare carry.simps [simp del]

definition causal_root_input :: "bytes list \<Rightarrow> bytes" where
  "causal_root_input ps = CAUSAL_ROOT # concat ps"

definition causal_root :: "causal_mmr \<Rightarrow> bytes" where
  "causal_root m = sha256 (causal_root_input (cm_peaks m))"

definition push_leaf :: "causal_leaf \<Rightarrow> causal_mmr \<Rightarrow> causal_mmr" where
  "push_leaf l m =
     m\<lparr>cm_leaves := cm_leaves m @ [l],
       cm_peaks := carry (cm_peaks m) (length (cm_leaves m) + 1) (causal_digest l)\<rparr>"

definition causal_append :: "bytes \<Rightarrow> causal_mmr \<Rightarrow> bytes \<times> causal_mmr" where
  "causal_append payload m =
     (let m1 = m\<lparr>cm_clock := clock_tick (cm_replica_id m) (cm_clock m)\<rparr>;
          leaf = \<lparr>lf_clock = cm_clock m1, lf_replica_id = cm_replica_id m, lf_payload_hash = sha256 payload\<rparr>;
          m2 = push_leaf leaf m1
      in (causal_root m2, m2))"

text \<open>The loop of \<open>join\<close> that keeps the first leaf of every digest.\<close>

fun dedup :: "bytes list \<Rightarrow> causal_leaf list \<Rightarrow> causal_leaf list" where
  "dedup seen [] = []"
| "dedup seen (l # ls) =
     (if causal_digest l \<in> set seen then dedup seen ls
      else l # dedup (causal_digest l # seen) ls)"

definition causal_join :: "causal_mmr \<Rightarrow> causal_mmr \<Rightarrow> causal_mmr" where
  "causal_join a b =
     fold push_leaf (sort_key leaf_key (dedup [] (cm_leaves a @ cm_leaves b)))
       \<lparr>cm_replica_id = cm_replica_id a, cm_clock = clock_merge (cm_clock a) (cm_clock b),
        cm_leaves = [], cm_peaks = []\<rparr>"

subsection \<open>The invariant of a replica\<close>

definition leaf_ok :: "causal_leaf \<Rightarrow> bool" where
  "leaf_ok l \<longleftrightarrow> clock_ok (lf_clock l) \<and> length (lf_payload_hash l) = 32"

definition build :: "('p list \<Rightarrow> nat \<Rightarrow> 'x \<Rightarrow> 'p list) \<Rightarrow> 'x list \<Rightarrow> 'p list" where
  "build step xs = fst (foldl (\<lambda>(ps, n) x. (step ps (n + 1) x, n + 1)) ([], 0) xs)"

definition peaks_of :: "bytes list \<Rightarrow> bytes list" where
  "peaks_of ds = build carry ds"

text \<open>
  \<open>holdings_ok\<close> is what every accumulator has, one freshly decoded from the wire included;
  \<open>replica_ok\<close> adds that the leaves are in strictly ascending key order, so none occurs
  twice.
\<close>

definition holdings_ok :: "causal_mmr \<Rightarrow> bool" where
  "holdings_ok m \<longleftrightarrow> clock_ok (cm_clock m) \<and> cm_peaks m = peaks_of (map causal_digest (cm_leaves m))
     \<and> (\<forall>l\<in>set (cm_leaves m). leaf_ok l \<and> clock_le (lf_clock l) (cm_clock m))"

definition replica_ok :: "causal_mmr \<Rightarrow> bool" where
  "replica_ok m \<longleftrightarrow> holdings_ok m \<and> sorted_wrt (<) (map leaf_key (cm_leaves m))"

lemma build_simps [simp]:
  "build step [] = []"
  "build step (xs @ [x]) = step (build step xs) (Suc (length xs)) x"
proof -
  have "snd (foldl (\<lambda>(ps, n) x. (step ps (n + 1) x, n + 1)) (ps, n) xs) = n + length xs" for ps n
    by (induction xs arbitrary: ps n) simp_all
  from this [of "[]" 0] show "build step (xs @ [x]) = step (build step xs) (Suc (length xs)) x"
    by (simp add: build_def case_prod_beta)
qed (simp add: build_def)

lemma peaks_of_simps [simp]:
  "peaks_of [] = []"
  "peaks_of (ds @ [d]) = carry (peaks_of ds) (Suc (length ds)) d"
  by (simp_all add: peaks_of_def)

lemma push_leaf_sel [simp]:
  "cm_replica_id (push_leaf l m) = cm_replica_id m"
  "cm_clock (push_leaf l m) = cm_clock m"
  "cm_leaves (push_leaf l m) = cm_leaves m @ [l]"
  by (simp_all add: push_leaf_def)

lemma push_leaf_peaks:
  "cm_peaks m = peaks_of (map causal_digest (cm_leaves m)) \<Longrightarrow>
   cm_peaks (push_leaf l m) = peaks_of (map causal_digest (cm_leaves m @ [l]))"
  by (simp add: push_leaf_def)

lemma push_leaves_result:
  assumes "cm_peaks m = peaks_of (map causal_digest (cm_leaves m))"
  shows "cm_replica_id (fold push_leaf ls m) = cm_replica_id m"
    and "cm_clock (fold push_leaf ls m) = cm_clock m"
    and "cm_leaves (fold push_leaf ls m) = cm_leaves m @ ls"
    and "cm_peaks (fold push_leaf ls m) = peaks_of (map causal_digest (cm_leaves m @ ls))"
  using assms by (induction ls arbitrary: m) (simp_all add: push_leaf_peaks)

lemma push_leaves_new:
  "fold push_leaf ls \<lparr>cm_replica_id = r, cm_clock = c, cm_leaves = [], cm_peaks = []\<rparr>
   = \<lparr>cm_replica_id = r, cm_clock = c, cm_leaves = ls, cm_peaks = peaks_of (map causal_digest ls)\<rparr>"
  using push_leaves_result [of "\<lparr>cm_replica_id = r, cm_clock = c, cm_leaves = [], cm_peaks = []\<rparr>" ls] by simp

lemma causal_join_eq:
  "causal_join a b =
     (let ls = sort_key leaf_key (dedup [] (cm_leaves a @ cm_leaves b)) in
      \<lparr>cm_replica_id = cm_replica_id a, cm_clock = clock_merge (cm_clock a) (cm_clock b),
       cm_leaves = ls, cm_peaks = peaks_of (map causal_digest ls)\<rparr>)"
  by (simp add: causal_join_def push_leaves_new Let_def)

lemma dedup_subset: "set (dedup seen ls) \<subseteq> set ls"
  by (induction seen ls rule: dedup.induct) auto

lemma dedup_digests: "causal_digest ` set (dedup seen ls) = causal_digest ` set ls - set seen"
  by (induction seen ls rule: dedup.induct) auto

lemma dedup_distinct: "distinct (map causal_digest (dedup seen ls))"
  by (induction seen ls rule: dedup.induct) (auto simp: dedup_digests)

lemma leaf_key_digest: "snd (snd (snd (leaf_key l))) = causal_digest l"
  by (simp add: leaf_key_def)

lemma distinct_digest_key: "distinct (map causal_digest ls) \<Longrightarrow> distinct (map leaf_key ls)"
  unfolding distinct_map by (auto simp: inj_on_def) (metis leaf_key_digest)

lemma strict_sorted_dedup: "sorted_wrt (<) (map leaf_key (sort_key leaf_key (dedup seen ls)))"
proof -
  let ?xs = "dedup seen ls"
  have "distinct (map leaf_key (sort_key leaf_key ?xs))"
    using distinct_digest_key [OF dedup_distinct] by (simp add: distinct_map)
  then show ?thesis by (simp add: strict_sorted_iff)
qed

lemma join_replica_ok:
  assumes "holdings_ok a" "holdings_ok b"
  shows "replica_ok (causal_join a b)"
proof -
  have c: "clock_ok (cm_clock a)" "clock_ok (cm_clock b)" using assms by (auto simp: holdings_ok_def)
  have "leaf_ok l \<and> clock_le (lf_clock l) (clock_merge (cm_clock a) (cm_clock b))"
    if "l \<in> set (dedup [] (cm_leaves a @ cm_leaves b))" for l
  proof -
    have "l \<in> set (cm_leaves a) \<or> l \<in> set (cm_leaves b)" using that dedup_subset by fastforce
    then show ?thesis using assms clock_le_merge [OF c] unfolding holdings_ok_def by (meson clock_le_trans)
  qed
  then show ?thesis
    using c by (auto simp: replica_ok_def holdings_ok_def causal_join_eq Let_def strict_sorted_dedup)
qed

lemma replica_ok_new: "replica_ok (causal_new r)"
  by (simp add: replica_ok_def holdings_ok_def causal_new_def)

text \<open>
  A local append keeps the order without sorting, because the new leaf's clock dominates
  every clock the replica has seen; that fails only when the sum of the counters reaches
  the ceiling of 64 bits.
\<close>

lemma scalar_less:
  "clock_sum c < clock_sum d \<Longrightarrow> clock_sum c < 2 ^ 64 - 1 \<Longrightarrow> clock_scalar c < clock_scalar d"
  by (simp add: word_less_nat_alt unat_clock_scalar)

lemma member_le_clock_sum: "clock_ok c \<Longrightarrow> unat (clock_get c r) \<le> clock_sum c"
  using clock_sum_over [of c "insert r (fst ` set c)", OF _ _ subset_insertI]
    member_le_sum [of r "insert r (fst ` set c)" "\<lambda>k. unat (clock_get c k)"] by auto

lemma append_key_above:
  assumes h: "holdings_ok m" and room: "clock_sum (cm_clock m) < 2 ^ 64 - 1" and l: "l \<in> set (cm_leaves m)"
  shows "leaf_key l < leaf_key \<lparr>lf_clock = clock_tick (cm_replica_id m) (cm_clock m), lf_replica_id = cm_replica_id m,
    lf_payload_hash = sha256 payload\<rparr>"
proof -
  let ?c = "clock_tick (cm_replica_id m) (cm_clock m)"
  have c: "clock_ok (cm_clock m)" using h by (simp add: holdings_ok_def)
  have "clock_get (cm_clock m) (cm_replica_id m) \<noteq> - 1"
    using member_le_clock_sum [OF c, of "cm_replica_id m"] room by (auto simp: u64_max)
  then have s: "clock_sum ?c = clock_sum (cm_clock m) + 1" by (rule clock_sum_tick(2) [OF c])
  have "clock_sum (lf_clock l) \<le> clock_sum (cm_clock m)"
    using l h by (intro clock_sum_mono(1)) (auto simp: holdings_ok_def leaf_ok_def)
  then have "clock_scalar (lf_clock l) < clock_scalar ?c" using s room by (intro scalar_less) simp_all
  then show ?thesis by (simp add: leaf_key_def less_prod_def')
qed

lemma append_replica_ok:
  assumes "replica_ok m" "clock_sum (cm_clock m) < 2 ^ 64 - 1"
  shows "replica_ok (snd (causal_append payload m))"
proof -
  let ?c = "clock_tick (cm_replica_id m) (cm_clock m)"
  have c: "clock_ok (cm_clock m)" and h: "holdings_ok m" using assms by (auto simp: replica_ok_def holdings_ok_def)
  have "leaf_key l < leaf_key \<lparr>lf_clock = ?c, lf_replica_id = cm_replica_id m, lf_payload_hash = sha256 payload\<rparr>"
    if "l \<in> set (cm_leaves m)" for l
    by (rule append_key_above [OF h assms(2) that])
  then show ?thesis
    using assms(1) c clock_le_tick [OF c, of "cm_replica_id m"]
    by (auto simp: causal_append_def Let_def replica_ok_def holdings_ok_def push_leaf_peaks leaf_ok_def sorted_wrt_append
        intro: clock_le_trans)
qed


subsection \<open>What a leaf commits to\<close>

lemma be_bytes_inj: "be_bytes n (v :: 'a::len word) = be_bytes n w \<Longrightarrow> LENGTH('a) = 8 * n \<Longrightarrow> v = w"
  by (metis from_be_be_bytes_word)

lemma clock_length_bound: "clock_ok c \<Longrightarrow> length c \<le> 2 ^ 32"
  using card_mono [of "UNIV :: u32 set" "set (map fst c)"] distinct_card [OF clock_ok_distinct [of c]]
  by (simp add: card_word)

lemma clock_bytes_inj:
  "length c = length d \<Longrightarrow> clock_bytes c = clock_bytes d \<Longrightarrow> c = d"
proof (induction c d rule: list_induct2)
  case (Cons x c y d)
  obtain r s r' s' where xy: "x = (r, s)" "y = (r', s')" by (cases x, cases y)
  with Cons.prems have e: "be_bytes 4 r = be_bytes 4 r'" "be_bytes 8 s = be_bytes 8 s'" "clock_bytes c = clock_bytes d"
    by (simp_all add: clock_bytes_def)
  have "r = r'" "s = s'" using be_bytes_inj [OF e(1)] be_bytes_inj [OF e(2)] by simp_all
  with e(3) Cons.IH xy show ?case by simp
qed simp

lemma length_clock_bytes: "length (clock_bytes c) = 12 * length c"
  by (induction c) (auto simp: clock_bytes_def)

lemma causal_input_inj:
  assumes "leaf_ok l" "leaf_ok k" "causal_input l = causal_input k"
  shows "l = k"
proof -
  let ?n = "\<lambda>l. of_nat (length (lf_clock l)) :: u64"
  from assms(3) have e: "be_bytes 4 (lf_replica_id l) = be_bytes 4 (lf_replica_id k)" "be_bytes 8 (?n l) = be_bytes 8 (?n k)"
    "clock_bytes (lf_clock l) @ lf_payload_hash l = clock_bytes (lf_clock k) @ lf_payload_hash k"
    by (simp_all add: causal_input_def)
  have "length (lf_clock l) \<le> 2 ^ 32" "length (lf_clock k) \<le> 2 ^ 32"
    using assms clock_length_bound by (auto simp: leaf_ok_def)
  moreover have "?n l = ?n k" using be_bytes_inj [OF e(2)] by simp
  ultimately have len: "length (lf_clock l) = length (lf_clock k)"
    by (metis (no_types, lifting) u64_of_nat_inj)
  then have "clock_bytes (lf_clock l) = clock_bytes (lf_clock k)" "lf_payload_hash l = lf_payload_hash k"
    using e(3) by (simp_all add: append_eq_append_same_length length_clock_bytes)
  with len be_bytes_inj [OF e(1)] show ?thesis by (auto dest: clock_bytes_inj)
qed

lemma digest_inj_or_collision:
  assumes "\<And>l. l \<in> A \<Longrightarrow> leaf_ok l"
  obtains "inj_on causal_digest A" | "collision_between (causal_input ` A) (causal_input ` A)"
proof (cases "inj_on causal_digest A")
  case False
  then obtain x y where xy: "x \<in> A" "y \<in> A" "x \<noteq> y" "causal_digest x = causal_digest y"
    by (auto simp: inj_on_def)
  then have "causal_input x \<noteq> causal_input y" using assms causal_input_inj by blast
  with xy have "collision_between (causal_input ` A) (causal_input ` A)"
    by (intro collision_betweenI [of "causal_input x" _ "causal_input y"]) (auto simp: causal_digest_def)
  with that show thesis by blast
qed

subsection \<open>Joins depend on the set of leaves only\<close>

lemma strict_keys_unique:
  assumes "sorted_wrt (<) (map leaf_key xs)" "sorted_wrt (<) (map leaf_key ys)" "set xs = set ys"
  shows "xs = ys"
proof -
  have "map leaf_key xs = map leaf_key ys"
    using assms by (intro strict_sorted_equal) simp_all
  moreover have "inj_on leaf_key (set xs \<union> set ys)"
    using assms by (simp add: strict_sorted_iff distinct_map)
  ultimately show ?thesis by (rule map_inj_on)
qed

lemma same_leaves_same_peaks:
  "replica_ok a \<Longrightarrow> replica_ok b \<Longrightarrow> set (cm_leaves a) = set (cm_leaves b) \<Longrightarrow>
   cm_leaves a = cm_leaves b \<and> cm_peaks a = cm_peaks b \<and> causal_root a = causal_root b"
  using strict_keys_unique [of "cm_leaves a" "cm_leaves b"]
  by (simp add: replica_ok_def holdings_ok_def causal_root_def)

lemma set_dedup: "inj_on causal_digest (set ls) \<Longrightarrow> set (dedup [] ls) = set ls"
  using dedup_subset [of "[]" ls] dedup_digests [of "[]" ls] by (simp add: inj_on_image_eq_iff)

lemma set_join:
  "inj_on causal_digest (set (cm_leaves a) \<union> set (cm_leaves b)) \<Longrightarrow>
   set (cm_leaves (causal_join a b)) = set (cm_leaves a) \<union> set (cm_leaves b)"
  by (simp add: causal_join_eq Let_def set_dedup)

lemma join_digests:
  "causal_digest ` set (cm_leaves (causal_join a b)) = causal_digest ` (set (cm_leaves a) \<union> set (cm_leaves b))"
  using dedup_digests [of "[]" "cm_leaves a @ cm_leaves b"] by (simp add: causal_join_eq Let_def)

lemma join_leaves_subset: "set (cm_leaves (causal_join a b)) \<subseteq> set (cm_leaves a) \<union> set (cm_leaves b)"
  using dedup_subset [of "[]" "cm_leaves a @ cm_leaves b"] by (simp add: causal_join_eq Let_def)

lemma replica_holdings: "replica_ok m \<Longrightarrow> holdings_ok m"
  by (simp add: replica_ok_def)

lemma cm_clock_join [simp]: "cm_clock (causal_join a b) = clock_merge (cm_clock a) (cm_clock b)"
  by (simp add: causal_join_eq Let_def)

lemma cm_replica_id_join [simp]: "cm_replica_id (causal_join a b) = cm_replica_id a"
  by (simp add: causal_join_eq Let_def)

text \<open>
  On the replicas whose leaves come from a set without colliding digests, and up to the
  identity of the replica, \<open>join\<close> satisfies the laws of a join semilattice.
\<close>

lemma replica_eqI:
  assumes "replica_ok a" "replica_ok b" "set (cm_leaves a) = set (cm_leaves b)"
    and "cm_clock a = cm_clock b" "cm_replica_id a = cm_replica_id b"
  shows "a = b"
  using assms same_leaves_same_peaks [OF assms(1-3)] by (cases a, cases b) simp

lemma replicas_join_laws:
  assumes "inj_on causal_digest U"
  shows "join_laws (\<lambda>m. replica_ok m \<and> cm_replica_id m = r \<and> set (cm_leaves m) \<subseteq> U) causal_join"
proof -
  let ?ok = "\<lambda>m. replica_ok m \<and> cm_replica_id m = r \<and> set (cm_leaves m) \<subseteq> U"
  have set: "set (cm_leaves (causal_join a b)) = set (cm_leaves a) \<union> set (cm_leaves b)" if "?ok a" "?ok b" for a b
    using that by (intro set_join) (meson assms inj_on_subset Un_least)
  have ok: "?ok (causal_join a b)" if "?ok a" "?ok b" for a b
    using that set [OF that] by (auto intro: join_replica_ok replica_holdings)
  have clk: "clock_ok (cm_clock a)" if "?ok a" for a using that by (simp add: replica_ok_def holdings_ok_def)
  show ?thesis
  proof
    show "?ok (causal_join a b)" if "?ok a" "?ok b" for a b using ok [OF that] .
    show "causal_join a a = a" if "?ok a" for a
      using that ok [OF that that] set [OF that that] clk [OF that] by (intro replica_eqI) (simp_all add: clocks.join_idem)
    show "causal_join a b = causal_join b a" if "?ok a" "?ok b" for a b
      using that ok [OF that] ok [OF that(2,1)] set [OF that] set [OF that(2,1)] clk [OF that(1)] clk [OF that(2)]
      by (intro replica_eqI) (auto simp: clocks.join_commute)
    show "causal_join (causal_join a b) c = causal_join a (causal_join b c)" if "?ok a" "?ok b" "?ok c" for a b c
      using that ok [OF ok [OF that(1,2)] that(3)] ok [OF that(1) ok [OF that(2,3)]]
        set [OF ok [OF that(1,2)] that(3)] set [OF that(1) ok [OF that(2,3)]] set [OF that(1,2)] set [OF that(2,3)]
        clk [OF that(1)] clk [OF that(2)] clk [OF that(3)]
      by (intro replica_eqI) (auto simp: clocks.join_assoc)
  qed
qed

lemma fold_join_ok: "replica_ok a \<Longrightarrow> (\<And>y. y \<in> set ys \<Longrightarrow> replica_ok y) \<Longrightarrow> replica_ok (foldl causal_join a ys)"
  by (induction ys arbitrary: a) (simp_all add: join_replica_ok replica_holdings)

lemma fold_join_set:
  assumes "inj_on causal_digest U" "set (cm_leaves a) \<subseteq> U" "\<And>y. y \<in> set ys \<Longrightarrow> set (cm_leaves y) \<subseteq> U"
  shows "set (cm_leaves (foldl causal_join a ys)) = (\<Union>m\<in>set (a # ys). set (cm_leaves m))"
  using assms(2,3)
proof (induction ys arbitrary: a)
  case (Cons y ys)
  have "set (cm_leaves (causal_join a y)) = set (cm_leaves a) \<union> set (cm_leaves y)"
    using Cons.prems by (intro set_join) (meson assms(1) inj_on_subset Un_least list.set_intros(1))
  with Cons show ?case by auto
qed simp

text \<open>
  C9. Replicas converge whatever the network does with their states: two replicas that
  have merged states holding between them the same leaves, in any order, any number of
  times and through any intermediaries, hold the same leaves in the same order and have
  the same peaks and root; the alternative is a pair of leaves whose SHA-256 digests
  collide.
\<close>

theorem join_converges:
  assumes "\<And>m. m \<in> set (a # ys) \<union> set (b # zs) \<Longrightarrow> replica_ok m"
    and "(\<Union>m\<in>set (a # ys). set (cm_leaves m)) = L" "(\<Union>m\<in>set (b # zs). set (cm_leaves m)) = L"
  shows "(cm_leaves (foldl causal_join a ys) = cm_leaves (foldl causal_join b zs)
          \<and> cm_peaks (foldl causal_join a ys) = cm_peaks (foldl causal_join b zs)
          \<and> causal_root (foldl causal_join a ys) = causal_root (foldl causal_join b zs))
         \<or> collision_between (causal_input ` L) (causal_input ` L)"
proof -
  have "leaf_ok l" if "l \<in> L" for l
    using that assms(1) unfolding assms(2) [symmetric] by (auto simp: replica_ok_def holdings_ok_def)
  then consider "inj_on causal_digest L" | "collision_between (causal_input ` L) (causal_input ` L)"
    using digest_inj_or_collision [of L] by blast
  then show ?thesis
  proof cases
    case 1
    have "set (cm_leaves (foldl causal_join a ys)) = L" "set (cm_leaves (foldl causal_join b zs)) = L"
      by (subst fold_join_set [OF 1]; use assms(2,3) in auto)+
    moreover have "replica_ok (foldl causal_join a ys)" "replica_ok (foldl causal_join b zs)"
      using assms(1) by (auto intro: fold_join_ok)
    ultimately show ?thesis using same_leaves_same_peaks by blast
  qed blast
qed

definition demo_replica :: "u32 \<Rightarrow> causal_mmr" where
  "demo_replica r = snd (causal_append [7] (causal_new r))"

lemma demo_replica_ok: "replica_ok (demo_replica r)"
  unfolding demo_replica_def by (rule append_replica_ok [OF replica_ok_new]) (simp add: causal_new_def clock_sum_def)

theorem join_converges_witness:
  "let a = demo_replica 1; b = demo_replica 2; L = set (cm_leaves a) \<union> set (cm_leaves b) in
   causal_root (foldl causal_join a [b, b]) = causal_root (foldl causal_join b [a])
   \<or> collision_between (causal_input ` L) (causal_input ` L)"
  using join_converges [of "demo_replica 1" "[demo_replica 2, demo_replica 2]" "demo_replica 2" "[demo_replica 1]", OF _ refl]
    demo_replica_ok unfolding Let_def by (auto simp: Un_commute)

subsection \<open>Causal order\<close>

text \<open>
  The order of a replica's leaves extends causality: of two leaves of which one
  causally precedes the other, the earlier comes first, provided the later leaf's counters
  do not sum to the ceiling of 64 bits.
\<close>

theorem leaves_in_causal_order:
  assumes "replica_ok m" "i < length (cm_leaves m)" "j < length (cm_leaves m)"
    and "clock_cmp (lf_clock (cm_leaves m ! i)) (lf_clock (cm_leaves m ! j)) = Some Less"
    and "clock_sum (lf_clock (cm_leaves m ! j)) < 2 ^ 64"
  shows "i < j"
proof (rule ccontr)
  assume "\<not> i < j"
  let ?x = "lf_clock (cm_leaves m ! i)" and ?y = "lf_clock (cm_leaves m ! j)"
  have ok: "clock_ok ?x" "clock_ok ?y" using assms(1-3) by (auto simp: replica_ok_def holdings_ok_def leaf_ok_def)
  obtain k where "clock_le ?x ?y" "clock_get ?x k < clock_get ?y k"
    using assms(4) by (auto simp: clock_cmp_Less)
  then have "clock_sum ?x < clock_sum ?y" using clock_sum_mono(2) [OF ok] by blast
  with assms(5) have "clock_scalar ?x < clock_scalar ?y" by (intro scalar_less) simp_all
  then have lt: "leaf_key (cm_leaves m ! i) < leaf_key (cm_leaves m ! j)" by (simp add: leaf_key_def less_prod_def')
  have "leaf_key (cm_leaves m ! j) \<le> leaf_key (cm_leaves m ! i)"
  proof (cases "j = i")
    case False
    with \<open>\<not> i < j\<close> have "j < i" by simp
    with assms(1,2) show ?thesis
      using sorted_wrt_nth_less [of "(<)" "map leaf_key (cm_leaves m)" j i] by (simp add: replica_ok_def)
  qed simp
  with lt show False by simp
qed

definition demo_two :: causal_mmr where
  "demo_two = snd (causal_append [8] (demo_replica 1))"

lemma demo_two_leaves:
  "map lf_clock (cm_leaves demo_two) = [[(1, 1)], [(1, 2)]]"
  by (simp add: demo_two_def demo_replica_def causal_append_def causal_new_def clock_tick_def sat_add_def Let_def)

lemma demo_two_ok: "replica_ok demo_two"
  unfolding demo_two_def
  by (rule append_replica_ok [OF demo_replica_ok])
    (simp add: demo_replica_def causal_append_def causal_new_def clock_tick_def sat_add_def clock_sum_def Let_def)

theorem leaves_in_causal_order_witness:
  "replica_ok demo_two \<and> clock_cmp (lf_clock (cm_leaves demo_two ! 0)) (lf_clock (cm_leaves demo_two ! 1)) = Some Less
   \<and> (0 :: nat) < 1"
proof -
  have c: "cm_leaves demo_two \<noteq> []" "length (cm_leaves demo_two) = 2"
    "lf_clock (cm_leaves demo_two ! 0) = [(1, 1)]" "lf_clock (cm_leaves demo_two ! 1) = [(1, 2)]"
    using demo_two_leaves by (auto simp: map_eq_Cons_conv)
  have less: "clock_cmp (lf_clock (cm_leaves demo_two ! 0)) (lf_clock (cm_leaves demo_two ! 1)) = Some Less"
    unfolding c(3,4) by (simp add: clock_cmp_def clock_get_def)
  have "(0 :: nat) < 1"
    by (rule leaves_in_causal_order [OF demo_two_ok _ _ less]) (use c in \<open>simp_all add: clock_sum_def\<close>)
  with less demo_two_ok show ?thesis by simp
qed

subsection \<open>What a root commits to\<close>

datatype ctree = CLeaf causal_leaf | CNode ctree ctree

fun chash :: "ctree \<Rightarrow> bytes" where
  "chash (CLeaf l) = causal_digest l"
| "chash (CNode t u) = causal_node_hash (chash t) (chash u)"

fun cleaves :: "ctree \<Rightarrow> causal_leaf list" where
  "cleaves (CLeaf l) = [l]"
| "cleaves (CNode t u) = cleaves t @ cleaves u"

fun ctree_inputs :: "ctree \<Rightarrow> bytes set" where
  "ctree_inputs (CLeaf l) = {causal_input l}"
| "ctree_inputs (CNode t u) = insert (causal_node_input (chash t) (chash u)) (ctree_inputs t \<union> ctree_inputs u)"

function carry_trees :: "ctree list \<Rightarrow> nat \<Rightarrow> ctree \<Rightarrow> ctree list" where
  "carry_trees ts count t =
     (if odd count \<or> ts = [] then ts @ [t] else carry_trees (butlast ts) (count div 2) (CNode (last ts) t))"
  by pat_completeness auto
termination by (relation "measure (\<lambda>(ts, _, _). length ts)") auto

declare carry_trees.simps [simp del]

definition forest_of :: "causal_leaf list \<Rightarrow> ctree list" where
  "forest_of ls = build (\<lambda>ts n l. carry_trees ts n (CLeaf l)) ls"

definition replica_inputs :: "causal_mmr \<Rightarrow> bytes set" where
  "replica_inputs m = insert (causal_root_input (cm_peaks m)) (\<Union>t\<in>set (forest_of (cm_leaves m)). ctree_inputs t)"

lemma map_chash_carry: "map chash (carry_trees ts n t) = carry (map chash ts) n (chash t)"
proof (induction ts n t rule: carry_trees.induct)
  case (1 ts n t)
  then show ?case
    by (subst carry.simps, subst carry_trees.simps) (simp add: map_butlast last_map)
qed

lemma cleaves_carry: "concat (map cleaves (carry_trees ts n t)) = concat (map cleaves ts) @ cleaves t"
proof (induction ts n t rule: carry_trees.induct)
  case (1 ts n t)
  have "concat (map cleaves ts) = concat (map cleaves (butlast ts)) @ cleaves (last ts)" if "ts \<noteq> []"
    using that by (induction ts rule: rev_induct) simp_all
  with 1 show ?case by (subst carry_trees.simps) simp
qed

lemma forest_of_represents:
  "map chash (forest_of ls) = peaks_of (map causal_digest ls) \<and> concat (map cleaves (forest_of ls)) = ls"
  by (induction ls rule: rev_induct) (simp_all add: forest_of_def map_chash_carry cleaves_carry)

lemma length_chash [simp]: "length (chash t) = 32"
  by (cases t) (simp_all add: causal_digest_def causal_node_hash_def)

lemma input_tags_differ [simp]: "causal_input l \<noteq> causal_node_input x y" "causal_node_input x y \<noteq> causal_input l"
  by (simp_all add: causal_input_def causal_node_input_def CAUSAL_LEAF_def CAUSAL_NODE_def)

lemma chash_binds:
  assumes "\<And>l. l \<in> set (cleaves t) \<union> set (cleaves u) \<Longrightarrow> leaf_ok l" "chash t = chash u"
  shows "cleaves t = cleaves u \<or> collision_between (ctree_inputs t) (ctree_inputs u)"
  using assms
proof (induction t arbitrary: u)
  case (CLeaf l)
  show ?case
  proof (cases u)
    case (CLeaf k)
    with CLeaf.prems have "sha256 (causal_input l) = sha256 (causal_input k)" "leaf_ok l" "leaf_ok k"
      by (simp_all add: causal_digest_def)
    with CLeaf show ?thesis by (auto dest: causal_input_inj intro!: collision_betweenI)
  next
    case (CNode v w)
    with CLeaf.prems show ?thesis
      by (intro disjI2 collision_betweenI [of "causal_input l" _ "causal_node_input (chash v) (chash w)"])
        (simp_all add: causal_digest_def causal_node_hash_def)
  qed
next
  case (CNode t1 t2)
  show ?case
  proof (cases u)
    case (CLeaf k)
    with CNode.prems show ?thesis
      by (intro disjI2 collision_betweenI [of "causal_node_input (chash t1) (chash t2)" _ "causal_input k"])
        (simp_all add: causal_digest_def causal_node_hash_def)
  next
    case u: (CNode v w)
    have eq: "sha256 (causal_node_input (chash t1) (chash t2)) = sha256 (causal_node_input (chash v) (chash w))"
      using CNode.prems(2) u by (simp add: causal_node_hash_def)
    show ?thesis
    proof (cases "causal_node_input (chash t1) (chash t2) = causal_node_input (chash v) (chash w)")
      case True
      then have "chash t1 = chash v" "chash t2 = chash w" by (simp_all add: causal_node_input_def)
      with CNode.IH(1) [of v] CNode.IH(2) [of w] CNode.prems(1) u
      have "(cleaves t1 = cleaves v \<or> collision_between (ctree_inputs t1) (ctree_inputs v))
          \<and> (cleaves t2 = cleaves w \<or> collision_between (ctree_inputs t2) (ctree_inputs w))" by auto
      then show ?thesis unfolding collision_between_def using u by auto
    next
      case False
      with eq u show ?thesis by (auto intro!: collision_betweenI)
    qed
  qed
qed

lemma forests_bind:
  assumes "length ts = length us" "\<And>l. l \<in> set (concat (map cleaves ts)) \<union> set (concat (map cleaves us)) \<Longrightarrow> leaf_ok l"
    and "map chash ts = map chash us"
  shows "concat (map cleaves ts) = concat (map cleaves us)
       \<or> collision_between (\<Union>t\<in>set ts. ctree_inputs t) (\<Union>t\<in>set us. ctree_inputs t)"
  using assms
proof (induction ts us rule: list_induct2)
  case (Cons t ts u us)
  then have "cleaves t = cleaves u \<or> collision_between (ctree_inputs t) (ctree_inputs u)"
    by (intro chash_binds) auto
  moreover have "concat (map cleaves ts) = concat (map cleaves us)
      \<or> collision_between (\<Union>t\<in>set ts. ctree_inputs t) (\<Union>t\<in>set us. ctree_inputs t)"
    using Cons.prems by (intro Cons.IH) auto
  ultimately show ?case unfolding collision_between_def by auto
qed simp

lemma root_binds_leaves_aux:
  assumes "replica_ok a" "replica_ok b" "causal_root a = causal_root b"
  shows "cm_leaves a = cm_leaves b \<or> collision_between (replica_inputs a) (replica_inputs b)"
proof (cases "causal_root_input (cm_peaks a) = causal_root_input (cm_peaks b)")
  case True
  let ?t = "forest_of (cm_leaves a)" and ?u = "forest_of (cm_leaves b)"
  have pk: "cm_peaks a = map chash ?t" "cm_peaks b = map chash ?u"
    using assms(1,2) forest_of_represents by (simp_all add: replica_ok_def holdings_ok_def)
  have c: "concat (map chash ?t) = concat (map chash ?u)" using True pk by (simp add: causal_root_input_def)
  have "32 * length ?t = 32 * length ?u"
    using c concat_fixed_length [of "map chash ?t" 32] concat_fixed_length [of "map chash ?u" 32] by force
  then have len: "length ?t = length ?u" by simp
  have peaks: "map chash ?t = map chash ?u" by (rule concat_same_length_inj [where n = 32]) (use len c in auto)
  have "concat (map cleaves ?t) = concat (map cleaves ?u)
      \<or> collision_between (\<Union>t\<in>set ?t. ctree_inputs t) (\<Union>t\<in>set ?u. ctree_inputs t)"
    by (rule forests_bind [OF len _ peaks]) (use assms(1,2) forest_of_represents in \<open>auto simp: replica_ok_def holdings_ok_def\<close>)
  then show ?thesis
    using forest_of_represents unfolding replica_inputs_def collision_between_def by auto
next
  case False
  with assms(3) show ?thesis
    by (auto simp: causal_root_def replica_inputs_def intro!: collision_betweenI)
qed

text \<open>
  The root commits to the leaves: two replicas with one root hold the same leaves in
  the same order, or two different byte strings they hashed have one SHA-256 digest. So a
  gossip round that skips a peer whose root equals its own skips nothing.
\<close>

theorem root_binds_leaves:
  assumes "replica_ok a" "replica_ok b" "causal_root a = causal_root b"
  shows "cm_leaves a = cm_leaves b \<or> collision_between (replica_inputs a) (replica_inputs b)"
  using assms by (rule root_binds_leaves_aux)

theorem root_binds_leaves_witness:
  "let b = demo_two\<lparr>cm_replica_id := 9\<rparr> in
   replica_ok demo_two \<and> replica_ok b \<and> causal_root demo_two = causal_root b
   \<and> (cm_leaves demo_two = cm_leaves b \<or> collision_between (replica_inputs demo_two) (replica_inputs b))"
proof -
  let ?b = "demo_two\<lparr>cm_replica_id := 9\<rparr>"
  have "replica_ok ?b" "causal_root demo_two = causal_root ?b"
    using demo_two_ok by (simp_all add: replica_ok_def holdings_ok_def causal_root_def)
  with root_binds_leaves [OF demo_two_ok this] demo_two_ok show ?thesis by (simp add: Let_def)
qed

end
