(* ===== verification/Causal_Wire.thy ===== *)
theory Causal_Wire
  imports Causal_Mmr
begin

section \<open>The wire form of a replica's state\<close>

text \<open>
  \<open>encode_state\<close>, \<open>decode_state\<close> and the Python surface \<open>merge_encoded\<close> of
  \<^verbatim>\<open>aegis_rust_v2/src/crdt_mmr.rs\<close>. The reader is the suffix of the input that has not been
  consumed; a read past its end is the \<open>Truncated\<close> error, never a panic. The lemmas show
  that a state decodes to what was encoded, that the decoder accepts nothing but encodings
  of leaf lists, and that, whatever bytes a peer sends, merging them either fails with the
  replica unchanged or gives a well-formed replica.
\<close>

definition STATE_MAGIC :: bytes where
  "STATE_MAGIC = encode ''AEGCRDT'' @ [1]"

definition MAX_STATE_LEAVES :: nat where
  "MAX_STATE_LEAVES = 1000000"

definition MAX_CLOCK_ENTRIES :: nat where
  "MAX_CLOCK_ENTRIES = 4096"

datatype state_encode_error = Encode_TooManyLeaves nat | Encode_TooManyClockEntries nat

datatype state_decode_error =
    Truncated nat nat
  | BadMagic
  | TooManyLeaves nat
  | TooManyClockEntries nat
  | NonCanonicalClock
  | TrailingBytes nat

fun show_encode_error :: "state_encode_error \<Rightarrow> string" where
  "show_encode_error (Encode_TooManyLeaves n) = ''state holds '' @ str_nat n @ '' leaves; the ceiling is 1000000''"
| "show_encode_error (Encode_TooManyClockEntries n) = ''leaf clock holds '' @ str_nat n @ '' entries; the ceiling is 4096''"

fun show_decode_error :: "state_decode_error \<Rightarrow> string" where
  "show_decode_error (Truncated need have') = ''truncated state: needed '' @ str_nat need @ '' bytes, had '' @ str_nat have'"
| "show_decode_error BadMagic = ''not an aegis CRDT state, or a different format version''"
| "show_decode_error (TooManyLeaves n) = ''state declares '' @ str_nat n @ '' leaves; the ceiling is 1000000''"
| "show_decode_error (TooManyClockEntries n) = ''leaf clock declares '' @ str_nat n @ '' entries; the ceiling is 4096''"
| "show_decode_error NonCanonicalClock = ''clock entries are not in strictly ascending replica order''"
| "show_decode_error (TrailingBytes n) = str_nat n @ '' unconsumed bytes after the final leaf''"

subsection \<open>Encoding\<close>

text \<open>\<open>clock.len() as u32\<close>, which would wrap for a clock with an entry for every \<open>u32\<close>.\<close>

definition clock_len32 :: "causal_leaf \<Rightarrow> u32" where
  "clock_len32 l = of_nat (length (lf_clock l))"

definition encode_leaf :: "causal_leaf \<Rightarrow> bytes" where
  "encode_leaf l =
     be_bytes 4 (lf_replica_id l) @ be_bytes 4 (clock_len32 l)
     @ clock_bytes (lf_clock l) @ lf_payload_hash l"

definition encode_state :: "causal_mmr \<Rightarrow> state_encode_error + bytes" where
  "encode_state m =
     (if length (cm_leaves m) > MAX_STATE_LEAVES then Inl (Encode_TooManyLeaves (length (cm_leaves m)))
      else case List.find (\<lambda>l. unat (clock_len32 l) > MAX_CLOCK_ENTRIES) (cm_leaves m) of
             Some l \<Rightarrow> Inl (Encode_TooManyClockEntries (unat (clock_len32 l)))
           | None \<Rightarrow> Inr (STATE_MAGIC @ be_bytes 8 (of_nat (length (cm_leaves m)) :: u64)
                            @ concat (map encode_leaf (cm_leaves m))))"

subsection \<open>Decoding\<close>

type_synonym 'a reading = "state_decode_error + 'a \<times> bytes"

definition read_take :: "nat \<Rightarrow> bytes \<Rightarrow> bytes reading" where
  "read_take n bs = (if n > length bs then Inl (Truncated n (length bs)) else Inr (take n bs, drop n bs))"

definition read_u32 :: "bytes \<Rightarrow> u32 reading" where
  "read_u32 bs = bind_res (read_take 4 bs) (\<lambda>(raw, r). Inr (of_nat (from_be raw), r))"

definition read_u64 :: "bytes \<Rightarrow> u64 reading" where
  "read_u64 bs = bind_res (read_take 8 bs) (\<lambda>(raw, r). Inr (of_nat (from_be raw), r))"

definition read_digest :: "bytes \<Rightarrow> bytes reading" where
  "read_digest bs = read_take 32 bs"

fun read_clock :: "nat \<Rightarrow> u32 option \<Rightarrow> vector_clock \<Rightarrow> bytes \<Rightarrow> vector_clock reading" where
  "read_clock 0 previous clock bs = Inr (clock, bs)"
| "read_clock (Suc n) previous clock bs =
     bind_res (read_u32 bs) (\<lambda>(replica, bs1).
       bind_res (read_u64 bs1) (\<lambda>(s, bs2).
         if (case previous of None \<Rightarrow> False | Some p \<Rightarrow> replica \<le> p) then Inl NonCanonicalClock
         else read_clock n (Some replica) (clock_entry replica (\<lambda>_. s) clock) bs2))"

definition read_leaf :: "bytes \<Rightarrow> causal_leaf reading" where
  "read_leaf bs =
     bind_res (read_u32 bs) (\<lambda>(replica_id, bs1).
       bind_res (read_u32 bs1) (\<lambda>(entries, bs2).
         if unat entries > MAX_CLOCK_ENTRIES then Inl (TooManyClockEntries (unat entries))
         else bind_res (read_clock (unat entries) None [] bs2) (\<lambda>(clock, bs3).
           bind_res (read_digest bs3) (\<lambda>(payload_hash, bs4).
             Inr (\<lparr>lf_clock = clock, lf_replica_id = replica_id, lf_payload_hash = payload_hash\<rparr>, bs4)))))"

fun read_leaves :: "nat \<Rightarrow> bytes \<Rightarrow> causal_leaf list reading" where
  "read_leaves 0 bs = Inr ([], bs)"
| "read_leaves (Suc n) bs =
     bind_res (read_leaf bs) (\<lambda>(l, bs1). bind_res (read_leaves n bs1) (\<lambda>(ls, bs2). Inr (l # ls, bs2)))"

definition parse_state :: "bytes \<Rightarrow> state_decode_error + causal_leaf list" where
  "parse_state bs =
     bind_res (read_take (length STATE_MAGIC) bs) (\<lambda>(magic, bs1).
       if magic \<noteq> STATE_MAGIC then Inl BadMagic
       else bind_res (read_u64 bs1) (\<lambda>(count, bs2).
         if unat count > MAX_STATE_LEAVES then Inl (TooManyLeaves (unat count))
         else if unat count * 40 > length bs2 then Inl (Truncated (unat count * 40) (length bs2))
         else bind_res (read_leaves (unat count) bs2) (\<lambda>(leaves, rest).
           if rest \<noteq> [] then Inl (TrailingBytes (length rest)) else Inr leaves)))"

definition rebuild :: "u32 \<Rightarrow> causal_leaf list \<Rightarrow> causal_mmr" where
  "rebuild local_id leaves =
     fold push_leaf (sort_key leaf_key leaves)
       \<lparr>cm_replica_id = local_id, cm_clock = fold (\<lambda>l c. clock_merge c (lf_clock l)) leaves [],
        cm_leaves = [], cm_peaks = []\<rparr>"

definition decode_state :: "bytes \<Rightarrow> u32 \<Rightarrow> state_decode_error + causal_mmr" where
  "decode_state bs local_id = bind_res (parse_state bs) (\<lambda>leaves. Inr (rebuild local_id leaves))"

text \<open>The two methods of the Python handle, with the exceptions they raise.\<close>

definition py_encode_state :: "causal_mmr \<Rightarrow> bytes res" where
  "py_encode_state m =
     (case encode_state m of
        Inl e \<Rightarrow> Inl (ValueError (''refusing to encode state: '' @ show_encode_error e))
      | Inr bs \<Rightarrow> Inr bs)"

definition merge_encoded :: "causal_mmr \<Rightarrow> bytes \<Rightarrow> causal_mmr res" where
  "merge_encoded m state =
     (case decode_state state (cm_replica_id m) of
        Inl e \<Rightarrow> Inl (ValueError (''peer state rejected: '' @ show_decode_error e))
      | Inr peer \<Rightarrow> Inr (causal_join m peer))"

subsection \<open>Reading back what was written\<close>

lemma be_bytes_eq [simp]:
  "be_bytes 4 (v :: u32) = be_bytes 4 w \<longleftrightarrow> v = w"
  "be_bytes 8 (x :: u64) = be_bytes 8 y \<longleftrightarrow> x = y"
  using be_bytes_inj [of 4 v w] be_bytes_inj [of 8 x y] by auto

lemma read_take_append [simp]: "length xs = n \<Longrightarrow> read_take n (xs @ ys) = Inr (xs, ys)"
  by (simp add: read_take_def)

lemma read_u32_append [simp]: "read_u32 (be_bytes 4 w @ ys) = Inr (w, ys)"
  by (simp add: read_u32_def from_be_be_bytes_word)

lemma read_u64_append [simp]: "read_u64 (be_bytes 8 w @ ys) = Inr (w, ys)"
  by (simp add: read_u64_def from_be_be_bytes_word)

lemma clock_entry_last:
  "\<forall>k\<in>fst ` set c. k < r \<Longrightarrow> clock_entry r (\<lambda>_. s) c = c @ [(r, s)]"
  by (induction c) (auto simp: not_less less_imp_le)

lemma read_clock_append:
  assumes "clock_ok (c @ d)" "previous = (if c = [] then None else Some (fst (last c)))"
  shows "read_clock (length d) previous c (clock_bytes d @ ys) = Inr (c @ d, ys)"
  using assms
proof (induction d arbitrary: c previous)
  case (Cons e d)
  obtain r s where e: "e = (r, s)" by (cases e)
  have lt: "\<forall>k\<in>fst ` set c. k < r" using Cons.prems(1) by (auto simp: clock_ok_def e sorted_wrt_append)
  then have "\<not> (case previous of None \<Rightarrow> False | Some p \<Rightarrow> r \<le> p)"
    using Cons.prems(2) by (auto simp: not_le)
  with lt Cons.IH [of "c @ [(r, s)]" "Some r"] Cons.prems(1) show ?case
    by (simp add: e clock_bytes_def clock_entry_last)
qed (simp add: clock_bytes_def)

lemma read_leaf_append:
  assumes "leaf_ok l" "length (lf_clock l) \<le> MAX_CLOCK_ENTRIES"
  shows "read_leaf (encode_leaf l @ ys) = Inr (l, ys)"
proof -
  have u: "unat (clock_len32 l) = length (lf_clock l)"
    using assms(2) by (simp add: clock_len32_def unat_of_nat MAX_CLOCK_ENTRIES_def)
  have "read_clock (length (lf_clock l)) None [] (clock_bytes (lf_clock l) @ zs) = Inr (lf_clock l, zs)" for zs
    using read_clock_append [of "[]" "lf_clock l" None zs] assms(1) by (simp add: leaf_ok_def)
  then show ?thesis
    using assms u by (simp add: read_leaf_def encode_leaf_def read_digest_def leaf_ok_def)
qed

lemma read_leaves_append:
  "(\<And>l. l \<in> set ls \<Longrightarrow> leaf_ok l \<and> length (lf_clock l) \<le> MAX_CLOCK_ENTRIES) \<Longrightarrow>
   read_leaves (length ls) (concat (map encode_leaf ls) @ ys) = Inr (ls, ys)"
  by (induction ls) (simp_all add: read_leaf_append)

definition wire_ok :: "causal_leaf list \<Rightarrow> bool" where
  "wire_ok ls \<longleftrightarrow> length ls \<le> MAX_STATE_LEAVES
     \<and> (\<forall>l\<in>set ls. leaf_ok l \<and> length (lf_clock l) \<le> MAX_CLOCK_ENTRIES)"

definition wire_bytes :: "causal_leaf list \<Rightarrow> bytes" where
  "wire_bytes ls = STATE_MAGIC @ be_bytes 8 (of_nat (length ls) :: u64) @ concat (map encode_leaf ls)"

lemma length_encode_leaf: "leaf_ok l \<Longrightarrow> 40 \<le> length (encode_leaf l)"
  by (simp add: encode_leaf_def leaf_ok_def)

lemma parse_wire_bytes: "wire_ok ls \<Longrightarrow> parse_state (wire_bytes ls) = Inr ls"
proof -
  assume ok: "wire_ok ls"
  have n: "unat (of_nat (length ls) :: u64) = length ls"
    using ok by (simp add: wire_ok_def MAX_STATE_LEAVES_def unat_of_nat)
  have "length ls * 40 \<le> length (concat (map encode_leaf ls))"
    using ok length_encode_leaf by (induction ls) (fastforce simp: wire_ok_def)+
  then show ?thesis
    using ok n read_leaves_append [of ls "[]"] by (simp add: parse_state_def wire_bytes_def wire_ok_def)
qed

lemma encode_state_eq:
  assumes "\<And>l. l \<in> set (cm_leaves m) \<Longrightarrow> length (lf_clock l) < 2 ^ 32"
  shows "encode_state m = Inr bs \<longleftrightarrow> bs = wire_bytes (cm_leaves m) \<and> length (cm_leaves m) \<le> MAX_STATE_LEAVES
     \<and> (\<forall>l\<in>set (cm_leaves m). length (lf_clock l) \<le> MAX_CLOCK_ENTRIES)"
proof -
  have u: "unat (clock_len32 l) = length (lf_clock l)" if "l \<in> set (cm_leaves m)" for l
    using assms [OF that] by (simp add: clock_len32_def unat_of_nat)
  show ?thesis
  proof (cases "List.find (\<lambda>l. unat (clock_len32 l) > MAX_CLOCK_ENTRIES) (cm_leaves m)")
    case None
    then have "\<forall>l\<in>set (cm_leaves m). length (lf_clock l) \<le> MAX_CLOCK_ENTRIES"
      using u by (auto simp: find_None_iff not_less)
    with None show ?thesis by (auto simp: encode_state_def wire_bytes_def)
  next
    case (Some l)
    then have "l \<in> set (cm_leaves m)" "unat (clock_len32 l) > MAX_CLOCK_ENTRIES" by (auto simp: find_Some_iff)
    with Some u show ?thesis by (force simp: encode_state_def)
  qed
qed

subsection \<open>The decoder accepts encodings only\<close>

lemma read_take_Inr: "read_take n bs = Inr (x, r) \<longleftrightarrow> bs = x @ r \<and> length x = n"
  by (auto simp: read_take_def)

lemma read_u32_Inr: "read_u32 bs = Inr (w, r) \<longleftrightarrow> bs = be_bytes 4 w @ r"
  by (auto simp: read_u32_def bind_res_eq_Inr read_take_Inr be_bytes_from_be from_be_be_bytes_word
      intro!: exI [of _ "be_bytes 4 w"])

lemma read_u64_Inr: "read_u64 bs = Inr (w, r) \<longleftrightarrow> bs = be_bytes 8 w @ r"
  by (auto simp: read_u64_def bind_res_eq_Inr read_take_Inr be_bytes_from_be from_be_be_bytes_word
      intro!: exI [of _ "be_bytes 8 w"])

lemma read_clock_Inr:
  assumes "read_clock n previous c bs = Inr (d, r)" "clock_ok c"
    and "previous = (if c = [] then None else Some (fst (last c)))"
  shows "\<exists>e. d = c @ e \<and> clock_ok d \<and> length e = n \<and> bs = clock_bytes e @ r"
  using assms
proof (induction n arbitrary: previous c bs)
  case 0
  then show ?case by (simp add: clock_bytes_def)
next
  case (Suc n)
  from Suc.prems(1) obtain k bs1 s bs2 where k: "bs = be_bytes 4 k @ bs1" "bs1 = be_bytes 8 s @ bs2"
    and p: "\<not> (case previous of None \<Rightarrow> False | Some p \<Rightarrow> k \<le> p)"
    and rest: "read_clock n (Some k) (clock_entry k (\<lambda>_. s) c) bs2 = Inr (d, r)"
    by (auto simp: bind_res_eq_Inr read_u32_Inr read_u64_Inr split: if_splits)
  have lt: "\<forall>x\<in>fst ` set c. x < k"
  proof (cases "c = []")
    case False
    with p Suc.prems(3) have "fst (last c) < k" by simp
    moreover have "x \<le> fst (last c)" if "x \<in> fst ` set c" for x
      using Suc.prems(2) that False unfolding clock_ok_def
      by (cases c rule: rev_cases) (auto simp: sorted_wrt_append less_imp_le)
    ultimately show ?thesis using le_less_trans by blast
  qed simp
  then have e: "clock_entry k (\<lambda>_. s) c = c @ [(k, s)]" by (rule clock_entry_last)
  have "clock_ok (c @ [(k, s)])" using Suc.prems(2) lt by (simp add: clock_ok_def sorted_wrt_append)
  with Suc.IH [OF rest] e obtain f where "d = (c @ [(k, s)]) @ f \<and> clock_ok d \<and> length f = n \<and> bs2 = clock_bytes f @ r" by auto
  with k show ?case by (intro exI [of _ "(k, s) # f"]) (auto simp: clock_bytes_def)
qed

lemma read_leaf_Inr:
  assumes "read_leaf bs = Inr (l, r)"
  shows "leaf_ok l \<and> length (lf_clock l) \<le> MAX_CLOCK_ENTRIES \<and> bs = encode_leaf l @ r"
proof -
  have "\<exists>i (n :: u32) bs2 c h. bs = be_bytes 4 i @ be_bytes 4 n @ bs2 \<and> unat n \<le> MAX_CLOCK_ENTRIES
      \<and> read_clock (unat n) None [] bs2 = Inr (c, h @ r) \<and> length h = 32
      \<and> l = \<lparr>lf_clock = c, lf_replica_id = i, lf_payload_hash = h\<rparr>"
    using assms
    by (simp add: read_leaf_def read_digest_def bind_res_eq_Inr read_u32_Inr read_take_Inr not_less split: if_splits) auto
  then obtain i and n :: u32 and bs2 c h where b: "bs = be_bytes 4 i @ be_bytes 4 n @ bs2"
    and n: "unat n \<le> MAX_CLOCK_ENTRIES" and c: "read_clock (unat n) None [] bs2 = Inr (c, h @ r)"
    and h: "length h = 32" and l: "l = \<lparr>lf_clock = c, lf_replica_id = i, lf_payload_hash = h\<rparr>" by blast
  from read_clock_Inr [OF c] have cc: "clock_ok c" "length c = unat n" "bs2 = clock_bytes c @ h @ r" by auto
  have "clock_len32 l = n" by (simp add: clock_len32_def l cc)
  then show ?thesis using b n h l cc by (simp add: encode_leaf_def leaf_ok_def)
qed

lemma read_leaves_Inr:
  assumes "read_leaves n bs = Inr (ls, r)"
  shows "length ls = n \<and> (\<forall>l\<in>set ls. leaf_ok l \<and> length (lf_clock l) \<le> MAX_CLOCK_ENTRIES)
    \<and> bs = concat (map encode_leaf ls) @ r"
  using assms
  by (induction n bs arbitrary: ls r rule: read_leaves.induct) (fastforce simp: bind_res_eq_Inr dest: read_leaf_Inr)+

lemma parse_state_Inr: "parse_state bs = Inr ls \<longleftrightarrow> wire_ok ls \<and> bs = wire_bytes ls"
proof
  assume "parse_state bs = Inr ls"
  then have "\<exists>(n :: u64) bs2. bs = STATE_MAGIC @ be_bytes 8 n @ bs2 \<and> unat n \<le> MAX_STATE_LEAVES
      \<and> read_leaves (unat n) bs2 = Inr (ls, [])"
    by (auto simp: parse_state_def bind_res_eq_Inr read_take_Inr read_u64_Inr not_less split: if_splits)
  then show "wire_ok ls \<and> bs = wire_bytes ls"
    by (auto simp: wire_ok_def wire_bytes_def dest!: read_leaves_Inr)
qed (simp add: parse_wire_bytes)

subsection \<open>Rebuilt replicas\<close>

definition leaf_clocks :: "causal_leaf list \<Rightarrow> vector_clock" where
  "leaf_clocks ls = foldl clock_merge [] (map lf_clock ls)"

lemma fold_leaf_clocks: "fold (\<lambda>l c. clock_merge c (lf_clock l)) ls c = foldl clock_merge c (map lf_clock ls)"
  by (induction ls arbitrary: c) simp_all

lemma rebuild_eq:
  "rebuild r ls =
     \<lparr>cm_replica_id = r, cm_clock = leaf_clocks ls, cm_leaves = sort_key leaf_key ls,
      cm_peaks = peaks_of (map causal_digest (sort_key leaf_key ls))\<rparr>"
  by (simp add: rebuild_def push_leaves_new leaf_clocks_def fold_leaf_clocks)

lemma leaf_clocks_ok: "(\<And>l. l \<in> set ls \<Longrightarrow> clock_ok (lf_clock l)) \<Longrightarrow> clock_ok (leaf_clocks ls)"
  unfolding leaf_clocks_def by (rule clocks.fold_ok) auto

lemma leaf_clocks_upper:
  assumes "\<And>l. l \<in> set ls \<Longrightarrow> clock_ok (lf_clock l)" "l \<in> set ls"
  shows "clock_le (lf_clock l) (leaf_clocks ls)"
proof -
  have "clock_merge (lf_clock l) (leaf_clocks ls) = leaf_clocks ls"
    unfolding leaf_clocks_def by (rule clocks.fold_upper) (use assms in auto)
  with clock_le_merge [of "lf_clock l" "leaf_clocks ls"] show ?thesis
    using assms leaf_clocks_ok [of ls] by simp
qed

lemma rebuild_holdings_ok: "(\<And>l. l \<in> set ls \<Longrightarrow> leaf_ok l) \<Longrightarrow> holdings_ok (rebuild r ls)"
  by (auto simp: rebuild_eq holdings_ok_def leaf_ok_def intro!: leaf_clocks_ok leaf_clocks_upper)

lemma decode_wire_bytes: "wire_ok ls \<Longrightarrow> decode_state (wire_bytes ls) r = Inr (rebuild r ls)"
  by (simp add: decode_state_def parse_wire_bytes)

lemma decode_state_Inr: "decode_state bs r = Inr m \<longleftrightarrow> (\<exists>ls. wire_ok ls \<and> bs = wire_bytes ls \<and> m = rebuild r ls)"
  by (auto simp: decode_state_def bind_res_eq_Inr parse_state_Inr)

text \<open>
  How a replica comes about: empty, by an append, by a join, or decoded from any bytes a peer
  sent. An append whose clock has counters that add up to the 64-bit ceiling is left out; the
  local counter only comes near it when a peer sends it.
\<close>

inductive grown :: "causal_mmr \<Rightarrow> bool" where
  New: "grown (causal_new r)"
| Appended: "grown m \<Longrightarrow> clock_sum (cm_clock m) < 2 ^ 64 - 1 \<Longrightarrow> grown (snd (causal_append payload m))"
| Joined: "grown a \<Longrightarrow> grown b \<Longrightarrow> grown (causal_join a b)"
| Decoded: "decode_state bs r = Inr m \<Longrightarrow> grown m"

text \<open>The leaves of such a replica are in key order; decoded ones may occur twice.\<close>

definition key_ordered :: "causal_mmr \<Rightarrow> bool" where
  "key_ordered m \<longleftrightarrow> holdings_ok m \<and> sorted (map leaf_key (cm_leaves m))"

lemma append_key_ordered:
  assumes m: "key_ordered m" and room: "clock_sum (cm_clock m) < 2 ^ 64 - 1"
  shows "key_ordered (snd (causal_append payload m))"
proof -
  let ?c = "clock_tick (cm_replica_id m) (cm_clock m)"
  let ?l = "\<lparr>lf_clock = ?c, lf_replica_id = cm_replica_id m, lf_payload_hash = sha256 payload\<rparr>"
  have h: "holdings_ok m" and s: "sorted (map leaf_key (cm_leaves m))" using m by (simp_all add: key_ordered_def)
  then have c: "clock_ok (cm_clock m)" by (simp add: holdings_ok_def)
  have "leaf_key l \<le> leaf_key ?l" if "l \<in> set (cm_leaves m)" for l
    by (rule less_imp_le [OF append_key_above [OF h room that]])
  then have "sorted (map leaf_key (cm_leaves m @ [?l]))" using s by (simp add: sorted_append)
  moreover have "holdings_ok (snd (causal_append payload m))"
    using h c clock_le_tick [OF c, of "cm_replica_id m"]
    by (auto simp: causal_append_def Let_def holdings_ok_def push_leaf_peaks leaf_ok_def intro: clock_le_trans)
  ultimately show ?thesis by (simp add: key_ordered_def causal_append_def Let_def)
qed

lemma grown_key_ordered: "grown m \<Longrightarrow> key_ordered m"
proof (induction rule: grown.induct)
  case (Joined a b)
  then have "replica_ok (causal_join a b)" by (simp add: join_replica_ok key_ordered_def)
  then show ?case by (simp add: replica_ok_def key_ordered_def strict_sorted_iff)
next
  case (Decoded bs r m)
  then obtain ls where "wire_ok ls" "m = rebuild r ls" by (auto simp: decode_state_Inr)
  moreover from this have "holdings_ok m" by (simp add: wire_ok_def rebuild_holdings_ok)
  ultimately show ?case by (simp add: key_ordered_def rebuild_eq)
qed (simp_all add: append_key_ordered, simp add: key_ordered_def holdings_ok_def causal_new_def)

lemma replica_key_ordered: "replica_ok m \<Longrightarrow> key_ordered m"
  by (simp add: replica_ok_def key_ordered_def strict_sorted_iff)

lemma encoded_wire_ok:
  assumes "key_ordered m" "\<And>l. l \<in> set (cm_leaves m) \<Longrightarrow> length (lf_clock l) < 2 ^ 32" "encode_state m = Inr bs"
  shows "wire_ok (cm_leaves m)" "bs = wire_bytes (cm_leaves m)"
  using assms(1,3) encode_state_eq [OF assms(2)] by (auto simp: wire_ok_def key_ordered_def holdings_ok_def)

lemma encode_state_exact:
  assumes "\<And>l. l \<in> set (cm_leaves m) \<Longrightarrow> length (lf_clock l) < 2 ^ 32"
  shows "(\<exists>e. encode_state m = Inl e) \<longleftrightarrow>
    length (cm_leaves m) > MAX_STATE_LEAVES \<or> (\<exists>l\<in>set (cm_leaves m). length (lf_clock l) > MAX_CLOCK_ENTRIES)"
proof -
  have "(\<exists>bs. encode_state m = Inr bs) \<longleftrightarrow>
      length (cm_leaves m) \<le> MAX_STATE_LEAVES \<and> (\<forall>l\<in>set (cm_leaves m). length (lf_clock l) \<le> MAX_CLOCK_ENTRIES)"
    using encode_state_eq [OF assms] by blast
  moreover have "(\<exists>e. encode_state m = Inl e) \<longleftrightarrow> \<not> (\<exists>bs. encode_state m = Inr bs)" by (cases "encode_state m") simp_all
  ultimately show ?thesis by (simp add: not_le)
qed

text \<open>
  C32. A state survives the wire. However a replica came about, by appends, joins and states
  decoded from any peer, where no append met counters that add up to the 64-bit ceiling and no
  clock has \<open>2 ^ 32\<close> entries: the encoder refuses exactly the states that exceed the ceilings
  the decoder enforces, and what it encodes any peer decodes to the same leaves in the same
  order, the same peaks and so the same root, with the clock recomputed from the leaves.
\<close>

theorem state_roundtrip:
  assumes "grown m" "\<And>l. l \<in> set (cm_leaves m) \<Longrightarrow> length (lf_clock l) < 2 ^ 32"
  shows "((\<exists>e. encode_state m = Inl e) \<longleftrightarrow>
      length (cm_leaves m) > MAX_STATE_LEAVES \<or> (\<exists>l\<in>set (cm_leaves m). length (lf_clock l) > MAX_CLOCK_ENTRIES))
    \<and> (\<forall>bs. encode_state m = Inr bs \<longrightarrow>
         decode_state bs r = Inr (m\<lparr>cm_replica_id := r, cm_clock := leaf_clocks (cm_leaves m)\<rparr>))"
proof (intro conjI allI impI)
  show "(\<exists>e. encode_state m = Inl e) \<longleftrightarrow>
      length (cm_leaves m) > MAX_STATE_LEAVES \<or> (\<exists>l\<in>set (cm_leaves m). length (lf_clock l) > MAX_CLOCK_ENTRIES)"
    by (rule encode_state_exact [OF assms(2)])
  fix bs assume "encode_state m = Inr bs"
  note k = grown_key_ordered [OF assms(1)] and w = encoded_wire_ok [OF grown_key_ordered [OF assms(1)] assms(2) this]
  have "rebuild r (cm_leaves m) = m\<lparr>cm_replica_id := r, cm_clock := leaf_clocks (cm_leaves m)\<rparr>"
    using k by (simp add: rebuild_eq key_ordered_def holdings_ok_def sort_key_id_if_sorted)
  with w show "decode_state bs r = Inr (m\<lparr>cm_replica_id := r, cm_clock := leaf_clocks (cm_leaves m)\<rparr>)"
    by (simp add: decode_wire_bytes)
qed

text \<open>
  C33. Nothing a peer sends can break a replica: for any bytes at all, merging them either
  raises \<open>ValueError\<close>, exactly when they are not the encoding of a list of well-formed
  leaves within the ceilings, or yields a well-formed replica with the same identity whose
  leaf digests are its own and those of the leaves encoded.
\<close>

theorem merge_any_bytes:
  assumes "replica_ok m"
  shows "case merge_encoded m bs of
           Inl e \<Rightarrow> (\<exists>msg. e = ValueError msg) \<and> (\<nexists>ls. wire_ok ls \<and> bs = wire_bytes ls)
         | Inr m' \<Rightarrow> replica_ok m' \<and> cm_replica_id m' = cm_replica_id m
             \<and> (\<exists>ls. wire_ok ls \<and> bs = wire_bytes ls
                  \<and> causal_digest ` set (cm_leaves m') = causal_digest ` (set (cm_leaves m) \<union> set ls))"
proof (cases "decode_state bs (cm_replica_id m)")
  case (Inl e)
  then have "wire_ok ls \<Longrightarrow> bs \<noteq> wire_bytes ls" for ls using decode_wire_bytes [of ls "cm_replica_id m"] by auto
  with Inl show ?thesis by (auto simp: merge_encoded_def)
next
  case (Inr p)
  then obtain ls where ls: "wire_ok ls" "bs = wire_bytes ls" "p = rebuild (cm_replica_id m) ls"
    by (auto simp: decode_state_Inr)
  then have "holdings_ok p" by (auto simp: wire_ok_def intro: rebuild_holdings_ok)
  then have "replica_ok (causal_join m p)" using assms by (simp add: join_replica_ok replica_holdings)
  with Inr ls show ?thesis
    unfolding merge_encoded_def by (simp add: join_digests rebuild_eq) blast
qed

lemma demo_two_grown: "grown demo_two"
  unfolding demo_two_def demo_replica_def
  by (intro grown.intros) (simp_all add: causal_new_def causal_append_def clock_sum_def clock_tick_def clock_get_def sat_add_def Let_def)

theorem state_roundtrip_witness:
  "grown demo_two \<and> list_all (\<lambda>l. length (lf_clock l) < 2 ^ 32) (cm_leaves demo_two)
   \<and> decode_state (wire_bytes (cm_leaves demo_two)) 9
       = Inr (demo_two\<lparr>cm_replica_id := 9, cm_clock := leaf_clocks (cm_leaves demo_two)\<rparr>)"
proof -
  have one: "length (lf_clock l) = 1" if "l \<in> set (cm_leaves demo_two)" for l
  proof -
    have "lf_clock l \<in> set (map lf_clock (cm_leaves demo_two))" using that by simp
    then show ?thesis unfolding demo_two_leaves by auto
  qed
  then have lim: "\<And>l. l \<in> set (cm_leaves demo_two) \<Longrightarrow> length (lf_clock l) < 2 ^ 32" by simp
  have "length (cm_leaves demo_two) = 2" using arg_cong [OF demo_two_leaves, of length] by simp
  then have "encode_state demo_two = Inr (wire_bytes (cm_leaves demo_two))"
    using encode_state_eq [OF lim] one by (simp add: MAX_STATE_LEAVES_def MAX_CLOCK_ENTRIES_def)
  with state_roundtrip [OF demo_two_grown lim, of 9] demo_two_grown lim show ?thesis by (simp add: list_all_iff)
qed

theorem merge_any_bytes_witness:
  "replica_ok demo_two \<and> (\<exists>msg. merge_encoded demo_two [1, 2, 3] = Inl (ValueError msg))"
proof -
  have "merge_encoded demo_two [1, 2, 3] \<noteq> Inr m'" for m'
    by (simp add: merge_encoded_def decode_state_def parse_state_def read_take_def STATE_MAGIC_def)
  then show ?thesis
    using merge_any_bytes [OF demo_two_ok, of "[1, 2, 3]"] demo_two_ok
    by (cases "merge_encoded demo_two [1, 2, 3]") auto
qed

lemma merge_encoded_digests:
  assumes "replica_ok m" "wire_ok ls"
  shows "\<exists>m'. merge_encoded m (wire_bytes ls) = Inr m' \<and> replica_ok m' \<and> cm_replica_id m' = cm_replica_id m
    \<and> set (cm_leaves m') \<subseteq> set (cm_leaves m) \<union> set ls
    \<and> causal_digest ` set (cm_leaves m') = causal_digest ` (set (cm_leaves m) \<union> set ls)"
proof -
  let ?p = "rebuild (cm_replica_id m) ls"
  have "holdings_ok ?p" using assms by (auto simp: wire_ok_def intro: rebuild_holdings_ok)
  moreover have "set (cm_leaves ?p) = set ls" by (simp add: rebuild_eq)
  ultimately show ?thesis
    using assms join_leaves_subset [of m ?p] join_digests [of m ?p]
    by (simp add: merge_encoded_def decode_wire_bytes join_replica_ok replica_holdings)
qed

subsection \<open>Limits of the encoding\<close>

text \<open>
  The decoder fixes the order of the entries of a clock but not the order of the leaves:
  one replica state has as many encodings as its leaves have orders.
\<close>

lemma leaf_order_free:
  assumes "wire_ok ls" "distinct (map leaf_key ls)" "distinct (map leaf_key ks)" "set ks = set ls"
  shows "decode_state (wire_bytes ks) r = decode_state (wire_bytes ls) r"
proof -
  have "length ks = length ls" using assms(2-4) by (metis distinct_card distinct_map)
  then have w: "wire_ok ks" using assms(1,4) by (simp add: wire_ok_def)
  have "sort_key leaf_key ks = sort_key leaf_key ls"
    using assms(2-4) by (intro strict_keys_unique) (simp_all add: strict_sorted_iff distinct_map)
  moreover have "leaf_clocks ks = leaf_clocks ls"
    unfolding leaf_clocks_def
    by (rule clocks.delivery_irrelevant) (use w assms(4) in \<open>auto simp: wire_ok_def leaf_ok_def\<close>)
  ultimately show ?thesis using assms(1) w by (simp add: decode_wire_bytes rebuild_eq)
qed

definition ahead_leaf :: causal_leaf where
  "ahead_leaf = \<lparr>lf_clock = [(1, - 1)], lf_replica_id = 2, lf_payload_hash = replicate 32 0\<rparr>"

definition behind_leaf :: causal_leaf where
  "behind_leaf = \<lparr>lf_clock = [(1, - 1), (2, 1)], lf_replica_id = 1, lf_payload_hash = replicate 32 0\<rparr>"

lemma demo_keys: "leaf_key behind_leaf < leaf_key ahead_leaf"
  by (simp add: leaf_key_def ahead_leaf_def behind_leaf_def clock_scalar_def sat_add_def less_prod_def' u64_max)

lemma demo_wire_ok: "wire_ok [ahead_leaf, behind_leaf]"
  by (simp add: wire_ok_def ahead_leaf_def behind_leaf_def leaf_ok_def MAX_STATE_LEAVES_def MAX_CLOCK_ENTRIES_def)

lemma two_encodings_of_one_state:
  "wire_bytes [ahead_leaf, behind_leaf] \<noteq> wire_bytes [behind_leaf, ahead_leaf]
   \<and> decode_state (wire_bytes [ahead_leaf, behind_leaf]) r = decode_state (wire_bytes [behind_leaf, ahead_leaf]) r"
proof
  show "decode_state (wire_bytes [ahead_leaf, behind_leaf]) r = decode_state (wire_bytes [behind_leaf, ahead_leaf]) r"
    by (rule leaf_order_free [symmetric]) (use demo_wire_ok demo_keys in auto)
  have "wire_ok [behind_leaf, ahead_leaf]" using demo_wire_ok by (auto simp: wire_ok_def)
  then show "wire_bytes [ahead_leaf, behind_leaf] \<noteq> wire_bytes [behind_leaf, ahead_leaf]"
    using parse_wire_bytes [OF demo_wire_ok] parse_wire_bytes [of "[behind_leaf, ahead_leaf]"]
    by (auto simp: ahead_leaf_def behind_leaf_def)
qed

text \<open>
  A peer can invert causal order: counters are taken from the wire unchecked and their
  sum saturates, so a state whose counters reach the 64-bit ceiling is decoded into a
  well-formed replica in which a leaf stands before one that causally precedes it.
\<close>

theorem saturated_clocks_invert_causality:
  "clock_cmp (lf_clock ahead_leaf) (lf_clock behind_leaf) = Some Less
   \<and> (\<exists>m. decode_state (wire_bytes [ahead_leaf, behind_leaf]) r = Inr m \<and> replica_ok m
        \<and> cm_leaves m = [behind_leaf, ahead_leaf])"
proof
  show "clock_cmp (lf_clock ahead_leaf) (lf_clock behind_leaf) = Some Less"
    by (auto simp: clock_cmp_Less clock_le_def clock_get_def ahead_leaf_def behind_leaf_def intro: exI [of _ 2])
  let ?p = "rebuild r [ahead_leaf, behind_leaf]"
  have "cm_leaves ?p = [behind_leaf, ahead_leaf]" using demo_keys by (simp add: rebuild_eq)
  moreover have "holdings_ok ?p"
    using demo_wire_ok by (intro rebuild_holdings_ok) (auto simp: wire_ok_def)
  ultimately show "\<exists>m. decode_state (wire_bytes [ahead_leaf, behind_leaf]) r = Inr m \<and> replica_ok m
        \<and> cm_leaves m = [behind_leaf, ahead_leaf]"
    using demo_wire_ok demo_keys by (auto simp: decode_wire_bytes replica_ok_def)
qed

text \<open>
  Why the ceiling is left out of the round trip: a replica that merges a leaf carrying the
  greatest counter under its own identity can only append under that same counter, and the new
  leaf sorts before the merged one. The replica keeps it last; a peer that decodes its state
  sorts it first, and the two roots differ, or two byte strings collide.
\<close>

definition pinned :: causal_mmr where
  "pinned = rebuild 1 [ahead_leaf]"

definition late_leaf :: "bytes \<Rightarrow> causal_leaf" where
  "late_leaf payload = \<lparr>lf_clock = [(1, - 1)], lf_replica_id = 1, lf_payload_hash = sha256 payload\<rparr>"

lemma pinned_clock: "clock_tick 1 (clock_merge [] [(1, - 1)]) = [(1, - 1)]"
  by (simp add: clock_tick_def clock_merge_def sat_add_def u64_max max_def)

lemma carry_two: "carry [] (Suc 0) x = [x]" "carry [x] (Suc (Suc 0)) y = [causal_node_hash x y]"
  by (simp_all add: carry.simps [of "[]" "Suc 0"] carry.simps [of "[x]" "Suc (Suc 0)"])

lemma peaks_two: "peaks_of [x] = [x]" "peaks_of [x, y] = [causal_node_hash x y]"
  by (simp_all add: peaks_of_def build_def carry_two)

lemma pinned_append:
  "snd (causal_append payload pinned) =
     \<lparr>cm_replica_id = 1, cm_clock = [(1, - 1)], cm_leaves = [ahead_leaf, late_leaf payload],
      cm_peaks = [causal_node_hash (causal_digest ahead_leaf) (causal_digest (late_leaf payload))]\<rparr>"
proof -
  have p: "pinned = \<lparr>cm_replica_id = 1, cm_clock = clock_merge [] [(1, - 1)], cm_leaves = [ahead_leaf],
      cm_peaks = [causal_digest ahead_leaf]\<rparr>"
    by (simp add: pinned_def rebuild_eq leaf_clocks_def ahead_leaf_def peaks_two)
  show ?thesis
    by (simp add: p causal_append_def push_leaf_def Let_def late_leaf_def pinned_clock carry_two)
qed

theorem saturated_append_changes_root:
  fixes payload :: bytes
  defines "m \<equiv> snd (causal_append payload pinned)"
  shows "encode_state m = Inr (wire_bytes (cm_leaves m))
    \<and> (\<exists>p. decode_state (wire_bytes (cm_leaves m)) r = Inr p \<and> cm_leaves p = rev (cm_leaves m)
         \<and> (causal_root p = causal_root m \<longrightarrow> (\<exists>x y. x \<noteq> y \<and> sha256 x = sha256 y)))"
proof -
  let ?l = "late_leaf payload"
  have leaves: "cm_leaves m = [ahead_leaf, ?l]" unfolding m_def pinned_append by simp
  have less: "leaf_key ?l < leaf_key ahead_leaf"
    by (simp add: leaf_key_def late_leaf_def ahead_leaf_def clock_scalar_def sat_add_def less_prod_def')
  have w: "wire_ok (cm_leaves m)"
    unfolding leaves by (simp add: wire_ok_def ahead_leaf_def late_leaf_def leaf_ok_def MAX_STATE_LEAVES_def MAX_CLOCK_ENTRIES_def)
  have "encode_state m = Inr (wire_bytes (cm_leaves m))"
    by (rule encode_state_eq [THEN iffD2])
      (auto simp: leaves late_leaf_def ahead_leaf_def MAX_STATE_LEAVES_def MAX_CLOCK_ENTRIES_def)
  moreover have sort: "sort_key leaf_key (cm_leaves m) = [?l, ahead_leaf]"
    using less by (simp add: leaves)
  have "(\<exists>x y. x \<noteq> y \<and> sha256 x = sha256 y)" if eq: "causal_root (rebuild r (cm_leaves m)) = causal_root m"
  proof (rule ccontr)
    assume "\<nexists>x y. x \<noteq> y \<and> sha256 x = sha256 y"
    then have inj: "sha256 x = sha256 y \<Longrightarrow> x = y" for x y by blast
    have "causal_node_hash (causal_digest ?l) (causal_digest ahead_leaf)
        = causal_node_hash (causal_digest ahead_leaf) (causal_digest ?l)"
      using inj [OF eq [unfolded causal_root_def]]
      by (simp add: causal_root_input_def rebuild_eq sort peaks_two) (simp add: m_def pinned_append)
    from inj [OF this [unfolded causal_node_hash_def]]
    have "causal_digest ?l @ causal_digest ahead_leaf = causal_digest ahead_leaf @ causal_digest ?l"
      by (simp add: causal_node_input_def)
    moreover have "length (causal_digest ?l) = length (causal_digest ahead_leaf)" by (simp add: causal_digest_def)
    ultimately have "causal_digest ?l = causal_digest ahead_leaf" by (metis append_eq_append_conv)
    from inj [OF this [unfolded causal_digest_def]] have "?l = ahead_leaf"
      using w by (intro causal_input_inj) (simp_all add: wire_ok_def leaves)
    then show False by (simp add: late_leaf_def ahead_leaf_def)
  qed
  ultimately show ?thesis using w sort by (auto simp: decode_wire_bytes leaves rebuild_eq)
qed

end
