(* ===== verification/Gossip.thy ===== *)
theory Gossip
  imports Causal_Wire
begin

section \<open>Gossip between replicas\<close>

text \<open>
  The anti-entropy daemon of \<^verbatim>\<open>aegis/consensus/gossip.py\<close> and the inbound endpoint of
  \<^verbatim>\<open>aegis/consensus/transport.py\<close>. The accumulator is the protocol \<open>CausalAccumulator\<close>: the
  four operations the daemon calls are the record \<open>accumulator_ops\<close>, an argument of every
  definition. What the network does in a round is given per peer by \<open>peer_env\<close>: the states
  that arrive from other peers while the daemon waits, the answer to each of its two
  requests, and any exception. Messages of exceptions keep their constant part.
\<close>

definition MAX_STATE_BYTES :: int where
  "MAX_STATE_BYTES = 64 * 1024 * 1024"

definition ROOT_HEX_LENGTH :: nat where
  "ROOT_HEX_LENGTH = 64"

text \<open>\<open>PeerStateRejectedError\<close> has its own handler; every other exception is a peer failure.\<close>

datatype gossip_exn = PeerStateRejectedError string | OtherError exn

subsection \<open>Configuration\<close>

record gossip_peer =
  gp_name :: string
  gp_url :: string

definition new_peer :: "string \<Rightarrow> string \<Rightarrow> gossip_peer res" where
  "new_peer name url =
     (if name = [] then Inl (ValueError ''peer name must not be empty'')
      else if take (length ''https://'') url \<noteq> ''https://'' then Inl (ValueError ''peer must be reached over https'')
      else Inr \<lparr>gp_name = name, gp_url = url\<rparr>)"

record gossip_settings =
  gs_replica_id :: int
  gs_peers :: "gossip_peer list"
  gs_interval_seconds :: rat
  gs_request_timeout_seconds :: rat
  gs_client_certificate :: string
  gs_client_private_key :: string
  gs_certificate_authority :: string
  gs_max_state_bytes :: int

definition new_settings :: "gossip_settings \<Rightarrow> gossip_settings res" where
  "new_settings s =
     (if gs_interval_seconds s \<le> 0 then Inl (ValueError ''interval_seconds must be positive'')
      else if gs_request_timeout_seconds s \<le> 0 then Inl (ValueError ''request_timeout_seconds must be positive'')
      else if gs_max_state_bytes s \<le> 0 then Inl (ValueError ''max_state_bytes must be positive'')
      else if \<not> distinct (map gp_name (gs_peers s)) then Inl (ValueError ''peer names must be unique'')
      else Inr s)"

definition mutual_tls_configured :: "gossip_settings \<Rightarrow> bool" where
  "mutual_tls_configured s \<longleftrightarrow> gs_client_certificate s \<noteq> [] \<and> gs_client_private_key s \<noteq> []"

definition peer_names :: "gossip_settings \<Rightarrow> string list" where
  "peer_names s = map gp_name (gs_peers s)"

fun parse_entries :: "string list \<Rightarrow> gossip_peer list res" where
  "parse_entries [] = Inr []"
| "parse_entries (raw # rest) =
     (let entry = strip raw in
      if entry = [] then parse_entries rest
      else case partition_at (CHR ''='') entry of
        (name, separator, url) \<Rightarrow>
          if \<not> separator then Inl (ValueError ''peer is not in 'name=url' form'')
          else bind_res (new_peer (strip name) (strip url)) (\<lambda>p.
                 bind_res (parse_entries rest) (\<lambda>ps. Inr (p # ps))))"

definition parse_peers :: "string \<Rightarrow> gossip_peer list res" where
  "parse_peers specification = parse_entries (split_on (CHR '','') specification)"

text \<open>The fields of the gateway's settings that the mesh reads, after their defaults.\<close>

record gossip_config =
  gc_self_name :: string
  gc_peers :: string
  gc_replica_id :: int
  gc_interval_seconds :: rat
  gc_client_certificate :: string
  gc_client_private_key :: string
  gc_certificate_authority :: string

definition settings_from_config :: "gossip_config \<Rightarrow> gossip_settings res" where
  "settings_from_config c =
     bind_res (parse_peers (gc_peers c)) (\<lambda>ps.
       new_settings
         \<lparr>gs_replica_id = gc_replica_id c,
          gs_peers = filter (\<lambda>p. gp_name p \<noteq> gc_self_name c) ps,
          gs_interval_seconds = gc_interval_seconds c,
          gs_request_timeout_seconds = 3,
          gs_client_certificate = gc_client_certificate c,
          gs_client_private_key = gc_client_private_key c,
          gs_certificate_authority = gc_certificate_authority c,
          gs_max_state_bytes = MAX_STATE_BYTES\<rparr>)"

definition is_root :: "string \<Rightarrow> bool" where
  "is_root v \<longleftrightarrow> length v = ROOT_HEX_LENGTH \<and> list_all (\<lambda>c. c \<in> set ''0123456789abcdef'') v"

subsection \<open>State of the daemon\<close>

record gossip_stats =
  rounds_started :: nat
  rounds_converged :: nat
  states_merged :: nat
  peer_failures :: nat
  states_rejected :: nat
  leaves_learned :: nat

definition no_stats :: gossip_stats where
  "no_stats = \<lparr>rounds_started = 0, rounds_converged = 0, states_merged = 0, peer_failures = 0,
     states_rejected = 0, leaves_learned = 0\<rparr>"

record peer_health =
  consecutive_failures :: nat
  skip_rounds :: nat

definition new_health :: peer_health where
  "new_health = \<lparr>consecutive_failures = 0, skip_rounds = 0\<rparr>"

definition health_succeeded :: "peer_health \<Rightarrow> peer_health" where
  "health_succeeded h = h\<lparr>consecutive_failures := 0, skip_rounds := 0\<rparr>"

definition health_failed :: "nat \<Rightarrow> peer_health \<Rightarrow> peer_health" where
  "health_failed cap h =
     (let n = consecutive_failures h + 1 in
      h\<lparr>consecutive_failures := n, skip_rounds := min (2 ^ n) (2 ^ cap)\<rparr>)"

definition should_skip :: "peer_health \<Rightarrow> bool \<times> peer_health" where
  "should_skip h =
     (if skip_rounds h > 0 then (True, h\<lparr>skip_rounds := skip_rounds h - 1\<rparr>) else (False, h))"

definition FAILURE_CAP :: nat where
  "FAILURE_CAP = 6"

record 'a accumulator_ops =
  ao_root :: "'a \<Rightarrow> string"
  ao_leaf_count :: "'a \<Rightarrow> int"
  ao_encode_state :: "'a \<Rightarrow> bytes res"
  ao_merge_encoded :: "'a \<Rightarrow> bytes \<Rightarrow> 'a res"

record 'a gossip_daemon =
  gd_accumulator :: 'a
  gd_settings :: gossip_settings
  gd_health :: "(string \<times> peer_health) list"
  gd_stats :: gossip_stats

definition new_daemon :: "'a \<Rightarrow> gossip_settings \<Rightarrow> 'a gossip_daemon" where
  "new_daemon a s =
     \<lparr>gd_accumulator = a, gd_settings = s,
      gd_health = map (\<lambda>p. (gp_name p, new_health)) (gs_peers s), gd_stats = no_stats\<rparr>"

definition set_health :: "string \<Rightarrow> peer_health \<Rightarrow> (string \<times> peer_health) list \<Rightarrow> (string \<times> peer_health) list" where
  "set_health name h hs = map (\<lambda>(n, g). if n = name then (n, h) else (n, g)) hs"

definition with_health :: "string \<Rightarrow> (peer_health \<Rightarrow> peer_health) \<Rightarrow> 'a gossip_daemon \<Rightarrow> 'a gossip_daemon" where
  "with_health name f d =
     (case map_of (gd_health d) name of
        None \<Rightarrow> d
      | Some h \<Rightarrow> d\<lparr>gd_health := set_health name (f h) (gd_health d)\<rparr>)"

subsection \<open>Merging a state\<close>

definition is_value_or_type_error :: "exn \<Rightarrow> bool" where
  "is_value_or_type_error e = (case e of ValueError _ \<Rightarrow> True | TypeError _ \<Rightarrow> True | _ \<Rightarrow> False)"

definition count_rejected :: "'a gossip_daemon \<Rightarrow> 'a gossip_daemon" where
  "count_rejected d = d\<lparr>gd_stats := (gd_stats d)\<lparr>states_rejected := states_rejected (gd_stats d) + 1\<rparr>\<rparr>"

definition merge_state :: "'a accumulator_ops \<Rightarrow> bytes \<Rightarrow> 'a gossip_daemon \<Rightarrow> (gossip_exn + bool) \<times> 'a gossip_daemon" where
  "merge_state ops state d =
     (if int (length state) > gs_max_state_bytes (gd_settings d)
      then (Inl (PeerStateRejectedError ''state exceeds the ceiling''), count_rejected d)
      else
        let before_root = ao_root ops (gd_accumulator d);
            before_leaves = ao_leaf_count ops (gd_accumulator d)
        in case ao_merge_encoded ops (gd_accumulator d) state of
             Inl e \<Rightarrow>
               if is_value_or_type_error e then (Inl (PeerStateRejectedError ''state was refused''), count_rejected d)
               else (Inl (OtherError e), d)
           | Inr merged \<Rightarrow>
               let learned = ao_leaf_count ops merged - before_leaves;
                   changed = (ao_root ops merged \<noteq> before_root);
                   s = gd_stats d
               in (Inr changed,
                   d\<lparr>gd_accumulator := merged,
                     gd_stats := (if changed
                       then s\<lparr>states_merged := states_merged s + 1,
                              leaves_learned := leaves_learned s + nat (max learned 0)\<rparr>
                       else s)\<rparr>))"

subsection \<open>A round\<close>

record peer_env =
  pe_fetch_arrivals :: "bytes list"
  pe_fetch :: "gossip_exn + string"
  pe_exchange_arrivals :: "bytes list"
  pe_exchange :: "bytes \<Rightarrow> gossip_exn + bytes"

definition arrivals :: "'a accumulator_ops \<Rightarrow> bytes list \<Rightarrow> 'a gossip_daemon \<Rightarrow> 'a gossip_daemon" where
  "arrivals ops ss d = fold (\<lambda>s d. snd (merge_state ops s d)) ss d"

definition peer_raised :: "string \<Rightarrow> gossip_exn \<Rightarrow> 'a gossip_daemon \<Rightarrow> 'a gossip_daemon" where
  "peer_raised name e d =
     (case e of
        PeerStateRejectedError _ \<Rightarrow> d
      | OtherError _ \<Rightarrow>
          (with_health name (health_failed FAILURE_CAP) d)
            \<lparr>gd_stats := (gd_stats d)\<lparr>peer_failures := peer_failures (gd_stats d) + 1\<rparr>\<rparr>)"

text \<open>The body of the \<open>try\<close> for one peer: whether \<open>converged\<close> was cleared, and the daemon.\<close>

definition contact_peer :: "'a accumulator_ops \<Rightarrow> peer_env \<Rightarrow> string \<Rightarrow> 'a gossip_daemon \<Rightarrow> bool \<times> 'a gossip_daemon" where
  "contact_peer ops env name d =
     (let d1 = arrivals ops (pe_fetch_arrivals env) d in
      case pe_fetch env of
        Inl e \<Rightarrow> (False, peer_raised name e d1)
      | Inr peer_root \<Rightarrow>
          if is_root peer_root \<and> peer_root = ao_root ops (gd_accumulator d1)
          then (False, with_health name health_succeeded d1)
          else
            (case ao_encode_state ops (gd_accumulator d1) of
               Inl e \<Rightarrow> (True, peer_raised name (OtherError e) d1)
             | Inr ours \<Rightarrow>
                 let d2 = arrivals ops (pe_exchange_arrivals env) d1 in
                 (case pe_exchange env ours of
                    Inl e \<Rightarrow> (True, peer_raised name e d2)
                  | Inr theirs \<Rightarrow>
                      (case merge_state ops theirs d2 of
                         (Inl e, d3) \<Rightarrow> (True, peer_raised name e d3)
                       | (Inr _, d3) \<Rightarrow> (True, with_health name health_succeeded d3)))))"

fun round_loop ::
    "'a accumulator_ops \<Rightarrow> (string \<Rightarrow> peer_env) \<Rightarrow> gossip_peer list \<Rightarrow> bool \<Rightarrow> 'a gossip_daemon \<Rightarrow> bool res \<times> 'a gossip_daemon" where
  "round_loop ops env [] converged d = (Inr converged, d)"
| "round_loop ops env (p # ps) converged d =
     (case map_of (gd_health d) (gp_name p) of
        None \<Rightarrow> (Inl (KeyError (gp_name p)), d)
      | Some h \<Rightarrow>
          (case should_skip h of
             (True, h') \<Rightarrow> round_loop ops env ps converged (with_health (gp_name p) (\<lambda>_. h') d)
           | (False, _) \<Rightarrow>
               (case contact_peer ops (env (gp_name p)) (gp_name p) d of
                  (cleared, d') \<Rightarrow> round_loop ops env ps (converged \<and> \<not> cleared) d')))"

definition run_round :: "'a accumulator_ops \<Rightarrow> (string \<Rightarrow> peer_env) \<Rightarrow> 'a gossip_daemon \<Rightarrow> gossip_stats res \<times> 'a gossip_daemon" where
  "run_round ops env d =
     (let d0 = d\<lparr>gd_stats := (gd_stats d)\<lparr>rounds_started := rounds_started (gd_stats d) + 1\<rparr>\<rparr> in
      case round_loop ops env (gs_peers (gd_settings d)) True d0 of
        (Inl e, d1) \<Rightarrow> (Inl e, d1)
      | (Inr converged, d1) \<Rightarrow>
          let d2 = (if converged \<and> gs_peers (gd_settings d) \<noteq> []
                    then d1\<lparr>gd_stats := (gd_stats d1)\<lparr>rounds_converged := rounds_converged (gd_stats d1) + 1\<rparr>\<rparr>
                    else d1)
          in (Inr (gd_stats d2), d2))"

subsection \<open>The inbound endpoint\<close>

datatype response = Status nat | State bytes

fun read_body :: "int \<Rightarrow> nat \<Rightarrow> bytes list \<Rightarrow> bytes option" where
  "read_body limit sofar [] = Some []"
| "read_body limit sofar (part # parts) =
     (if int (sofar + length part) > limit then None
      else case read_body limit (sofar + length part) parts of None \<Rightarrow> None | Some rest \<Rightarrow> Some (part @ rest))"

text \<open>\<open>read_root\<close> and \<open>exchange\<close> of \<open>build_gossip_app\<close>; an exception nobody handles is a 500.\<close>

definition serve_root :: "'a accumulator_ops \<Rightarrow> 'a gossip_daemon \<Rightarrow> string" where
  "serve_root ops d = ao_root ops (gd_accumulator d)"

definition serve_exchange ::
    "'a accumulator_ops \<Rightarrow> string option \<Rightarrow> bytes list \<Rightarrow> 'a gossip_daemon \<Rightarrow> response \<times> 'a gossip_daemon" where
  "serve_exchange ops declared parts d =
     (let limit = gs_max_state_bytes (gd_settings d) in
      case (case declared of
              None \<Rightarrow> Inr False
            | Some s \<Rightarrow> if py_isdigit s then bind_res (py_int s) (\<lambda>n. Inr (n > limit)) else Inr False) of
        Inl e \<Rightarrow> (Status 500, d)
      | Inr True \<Rightarrow> (Status 413, d)
      | Inr False \<Rightarrow>
          (case read_body limit 0 parts of
             None \<Rightarrow> (Status 413, d)
           | Some body \<Rightarrow>
               (case ao_encode_state ops (gd_accumulator d) of
                  Inl e \<Rightarrow> (Status 500, d)
                | Inr ours \<Rightarrow>
                    (case merge_state ops body d of
                       (Inl (PeerStateRejectedError _), d') \<Rightarrow> (Status 422, d')
                     | (Inl (OtherError _), d') \<Rightarrow> (Status 500, d')
                     | (Inr _, d') \<Rightarrow> (State ours, d')))))"

subsection \<open>Two daemons in contact\<close>

text \<open>
  What a peer's request meets at the other end: the client half of the transport, which
  refuses a body above its own ceiling and raises on any status but success, against the
  endpoint of the other daemon.
\<close>

definition client_exchange :: "int \<Rightarrow> response \<Rightarrow> gossip_exn + bytes" where
  "client_exchange limit r =
     (case r of
        Status n \<Rightarrow> Inl (OtherError (RuntimeError ''HTTPStatusError''))
      | State bs \<Rightarrow> if int (length bs) > limit then Inl (PeerStateRejectedError ''peer sent more than the ceiling'') else Inr bs)"

definition live_env :: "'a accumulator_ops \<Rightarrow> int \<Rightarrow> 'a gossip_daemon \<Rightarrow> peer_env" where
  "live_env ops limit e =
     \<lparr>pe_fetch_arrivals = [], pe_fetch = Inr (serve_root ops e), pe_exchange_arrivals = [],
      pe_exchange = (\<lambda>ours. client_exchange limit (fst (serve_exchange ops None [ours] e)))\<rparr>"

definition posted_state :: "'a accumulator_ops \<Rightarrow> 'a gossip_daemon \<Rightarrow> 'a gossip_daemon \<Rightarrow> bytes option" where
  "posted_state ops d e =
     (if is_root (serve_root ops e) \<and> serve_root ops e = ao_root ops (gd_accumulator d) then None
      else case ao_encode_state ops (gd_accumulator d) of Inl _ \<Rightarrow> None | Inr ours \<Rightarrow> Some ours)"

text \<open>Replica \<open>i\<close> contacts replica \<open>j\<close>, known to it by name, in a mesh of daemons.\<close>

definition mesh_contact ::
    "'a accumulator_ops \<Rightarrow> (nat \<Rightarrow> string) \<Rightarrow> nat \<times> nat \<Rightarrow> (nat \<Rightarrow> 'a gossip_daemon) \<Rightarrow> nat \<Rightarrow> 'a gossip_daemon" where
  "mesh_contact ops nm c M =
     (case c of (i, j) \<Rightarrow>
        M(i := snd (contact_peer ops (live_env ops (gs_max_state_bytes (gd_settings (M i))) (M j)) (nm j) (M i)),
          j := (case posted_state ops (M i) (M j) of
                  None \<Rightarrow> M j
                | Some ours \<Rightarrow> snd (serve_exchange ops None [ours] (M j)))))"

fun mesh_run ::
    "'a accumulator_ops \<Rightarrow> (nat \<Rightarrow> string) \<Rightarrow> (nat \<times> nat) list \<Rightarrow> (nat \<Rightarrow> 'a gossip_daemon) \<Rightarrow> nat \<Rightarrow> 'a gossip_daemon" where
  "mesh_run ops nm [] M = M"
| "mesh_run ops nm (c # cs) M = mesh_run ops nm cs (mesh_contact ops nm c M)"

text \<open>How far information has travelled after a sequence of contacts.\<close>

fun spread :: "(nat \<times> nat) list \<Rightarrow> (nat \<Rightarrow> 'b set) \<Rightarrow> nat \<Rightarrow> 'b set" where
  "spread [] S = S"
| "spread ((i, j) # cs) S = spread cs (S(i := S i \<union> S j, j := S i \<union> S j))"

definition fits :: "'a accumulator_ops \<Rightarrow> 'a gossip_daemon \<Rightarrow> 'a gossip_daemon \<Rightarrow> bool" where
  "fits ops d e =
     (case ao_encode_state ops (gd_accumulator d) of
        Inl _ \<Rightarrow> False
      | Inr bs \<Rightarrow> int (length bs) \<le> gs_max_state_bytes (gd_settings d) \<and> int (length bs) \<le> gs_max_state_bytes (gd_settings e))"

fun run_fits :: "'a accumulator_ops \<Rightarrow> (nat \<Rightarrow> string) \<Rightarrow> (nat \<times> nat) list \<Rightarrow> (nat \<Rightarrow> 'a gossip_daemon) \<Rightarrow> bool" where
  "run_fits ops nm [] M = True"
| "run_fits ops nm ((i, j) # cs) M \<longleftrightarrow>
     i \<noteq> j \<and> fits ops (M i) (M j) \<and> fits ops (M j) (M i) \<and> run_fits ops nm cs (mesh_contact ops nm (i, j) M)"

lemma spread_UN: "spread cs (\<lambda>k. \<Union>s\<in>S k. h s) = (\<lambda>k. \<Union>s\<in>spread cs S k. h s)"
proof (induction cs S rule: spread.induct)
  case (2 i j cs S)
  have "(\<lambda>k. \<Union>s\<in>S k. h s)(i := (\<Union>s\<in>S i. h s) \<union> (\<Union>s\<in>S j. h s), j := (\<Union>s\<in>S i. h s) \<union> (\<Union>s\<in>S j. h s))
      = (\<lambda>k. \<Union>s\<in>(S(i := S i \<union> S j, j := S i \<union> S j)) k. h s)" by (auto simp: fun_eq_iff)
  then show ?case unfolding spread.simps by (simp only: 2)
qed simp

subsection \<open>What a merge leaves alone\<close>

lemma merge_state_sel:
  "gd_health (snd (merge_state ops s d)) = gd_health d"
  "gd_settings (snd (merge_state ops s d)) = gd_settings d"
  "rounds_converged (gd_stats (snd (merge_state ops s d))) = rounds_converged (gd_stats d)"
  by (simp_all add: merge_state_def count_rejected_def Let_def split: sum.splits)

lemma arrivals_sel:
  "gd_health (arrivals ops ss d) = gd_health d \<and> gd_settings (arrivals ops ss d) = gd_settings d
   \<and> rounds_converged (gd_stats (arrivals ops ss d)) = rounds_converged (gd_stats d)"
  unfolding arrivals_def by (induction ss arbitrary: d) (simp_all add: merge_state_sel)

subsection \<open>Back-off\<close>

definition health_ok :: "'a gossip_daemon \<Rightarrow> bool" where
  "health_ok d \<longleftrightarrow> map fst (gd_health d) = map gp_name (gs_peers (gd_settings d))
     \<and> (\<forall>h\<in>snd ` set (gd_health d). skip_rounds h \<le> 2 ^ FAILURE_CAP)"

lemma fst_set_health [simp]: "map fst (set_health n h hs) = map fst hs"
  by (simp add: set_health_def case_prod_beta comp_def if_distrib cong: if_cong)

lemma with_health_sel [simp]:
  "gd_accumulator (with_health n f d) = gd_accumulator d"
  "gd_settings (with_health n f d) = gd_settings d"
  "gd_stats (with_health n f d) = gd_stats d"
  "map fst (gd_health (with_health n f d)) = map fst (gd_health d)"
  by (simp_all add: with_health_def split: option.splits)

lemma with_health_ok:
  assumes "health_ok d" "\<And>h. map_of (gd_health d) n = Some h \<Longrightarrow> skip_rounds (f h) \<le> 2 ^ FAILURE_CAP"
  shows "health_ok (with_health n f d)"
proof -
  have "h \<in> snd ` set (gd_health (with_health n f d)) \<Longrightarrow> skip_rounds h \<le> 2 ^ FAILURE_CAP" for h
    using assms by (auto simp: health_ok_def with_health_def set_health_def split: option.splits if_splits)
  with assms(1) show ?thesis by (simp add: health_ok_def)
qed

lemma health_failed_bound: "skip_rounds (health_failed FAILURE_CAP h) \<le> 2 ^ FAILURE_CAP"
  by (simp add: health_failed_def Let_def)

lemma peer_raised_ok: "health_ok d \<Longrightarrow> health_ok (peer_raised n e d)"
  using with_health_ok [of d n "health_failed FAILURE_CAP"] health_failed_bound
  by (auto simp: peer_raised_def health_ok_def split: gossip_exn.splits)

lemma peer_raised_sel [simp]:
  "gd_accumulator (peer_raised n e d) = gd_accumulator d"
  "gd_settings (peer_raised n e d) = gd_settings d"
  by (simp_all add: peer_raised_def split: gossip_exn.splits)

subsection \<open>What the daemon relies on\<close>

text \<open>
  The contract of \<open>CausalAccumulator\<close>: \<open>held\<close> are the byte strings whose digests are the
  leaves of an accumulator, \<open>hashed\<close> everything hashed for its root, \<open>carried\<close> what an
  encoded state holds, if it is one.
\<close>

locale causal_accumulator =
  fixes ops :: "'a accumulator_ops" and ok :: "'a \<Rightarrow> bool"
    and held :: "'a \<Rightarrow> bytes set" and hashed :: "'a \<Rightarrow> bytes set" and carried :: "bytes \<Rightarrow> bytes set option"
  assumes encode_carries: "ok a \<Longrightarrow> ao_encode_state ops a = Inr bs \<Longrightarrow> carried bs = Some (held a)"
    and merge_joins: "ok a \<Longrightarrow> carried bs = Some X \<Longrightarrow>
      \<exists>a'. ao_merge_encoded ops a bs = Inr a' \<and> ok a' \<and> held a' \<subseteq> held a \<union> X
         \<and> sha256 ` held a' = sha256 ` held a \<union> sha256 ` X"
    and merge_refuses: "ok a \<Longrightarrow> carried bs = None \<Longrightarrow> \<exists>msg. ao_merge_encoded ops a bs = Inl (ValueError msg)"
    and root_of_held: "ok a \<Longrightarrow> ok b \<Longrightarrow> sha256 ` held a = sha256 ` held b \<Longrightarrow>
      ao_root ops a = ao_root ops b \<or> collision_between (held a \<union> held b) (held a \<union> held b)"
    and held_of_root: "ok a \<Longrightarrow> ok b \<Longrightarrow> ao_root ops a = ao_root ops b \<Longrightarrow>
      held a = held b \<or> collision_between (hashed a) (hashed b)"
begin

definition grows :: "'a gossip_daemon \<Rightarrow> 'a gossip_daemon \<Rightarrow> bool" where
  "grows d d' \<longleftrightarrow> ok (gd_accumulator d') \<and> sha256 ` held (gd_accumulator d) \<subseteq> sha256 ` held (gd_accumulator d')
     \<and> gd_settings d' = gd_settings d"

lemma growsD: "grows d d' \<Longrightarrow> ok (gd_accumulator d')" "grows d d' \<Longrightarrow> gd_settings d' = gd_settings d"
  by (simp_all add: grows_def)

lemma grows_trans: "grows d x \<Longrightarrow> grows x y \<Longrightarrow> grows d y"
  unfolding grows_def by (elim conjE, intro conjI, assumption, erule (1) subset_trans, simp)

lemma grows_with:
  "grows d x \<Longrightarrow> gd_accumulator y = gd_accumulator x \<Longrightarrow> gd_settings y = gd_settings x \<Longrightarrow> grows d y"
  by (simp add: grows_def)

lemma merge_state_outcome:
  assumes "ok (gd_accumulator d)"
  shows "grows d (snd (merge_state ops s d)) \<and> gd_health (snd (merge_state ops s d)) = gd_health d"
    and "fst (merge_state ops s d) \<noteq> Inl (OtherError e)"
proof -
  have "\<exists>msg. ao_merge_encoded ops (gd_accumulator d) s = Inl (ValueError msg)" if "carried s = None"
    using merge_refuses [OF assms that] .
  moreover have "\<exists>a'. ao_merge_encoded ops (gd_accumulator d) s = Inr a' \<and> ok a'
      \<and> sha256 ` held (gd_accumulator d) \<subseteq> sha256 ` held a'" if "carried s = Some X" for X
    using merge_joins [OF assms that] by (metis Un_upper1)
  ultimately show "grows d (snd (merge_state ops s d)) \<and> gd_health (snd (merge_state ops s d)) = gd_health d"
    and "fst (merge_state ops s d) \<noteq> Inl (OtherError e)"
    using assms by (cases "carried s"; auto simp: grows_def merge_state_def count_rejected_def is_value_or_type_error_def Let_def)+
qed

lemma arrivals_outcome:
  "ok (gd_accumulator d) \<Longrightarrow> grows d (arrivals ops ss d) \<and> gd_health (arrivals ops ss d) = gd_health d"
proof (induction ss arbitrary: d)
  case (Cons s ss)
  let ?d = "snd (merge_state ops s d)"
  note m = merge_state_outcome(1) [OF Cons.prems, of s]
  have "arrivals ops (s # ss) d = arrivals ops ss ?d" by (simp add: arrivals_def)
  with m Cons.IH [OF growsD(1) [OF conjunct1 [OF m]]] show ?case by (auto intro: grows_trans)
qed (simp add: arrivals_def grows_def)

lemma contact_peer_outcome:
  assumes "ok (gd_accumulator d)" "health_ok d" "contact_peer ops env n d = (c, d')"
  shows "grows d d' \<and> health_ok d'"
proof -
  let ?d1 = "arrivals ops (pe_fetch_arrivals env) d"
  let ?d2 = "arrivals ops (pe_exchange_arrivals env) ?d1"
  have keep: "health_ok x" if "grows d x" "gd_health x = gd_health d" for x
    using assms(2) that growsD(2) [OF that(1)] by (simp add: health_ok_def)
  have g1: "grows d ?d1" "gd_health ?d1 = gd_health d" using arrivals_outcome [OF assms(1)] by auto
  have g2: "grows d ?d2" "gd_health ?d2 = gd_health d"
    using arrivals_outcome [OF growsD(1) [OF g1(1)], of "pe_exchange_arrivals env"] g1 by (auto intro: grows_trans)
  have g3: "grows d (snd (merge_state ops s ?d2))" "gd_health (snd (merge_state ops s ?d2)) = gd_health d" for s
    using merge_state_outcome(1) [OF growsD(1) [OF g2(1)], of s] g2 by (auto intro: grows_trans)
  have succ: "grows d (with_health n health_succeeded x) \<and> health_ok (with_health n health_succeeded x)"
    if "grows d x" "gd_health x = gd_health d" for x
    using that keep [OF that] grows_with [OF that(1)] by (auto intro!: with_health_ok simp: health_succeeded_def)
  have fail: "grows d (peer_raised n e x) \<and> health_ok (peer_raised n e x)" if "grows d x" "gd_health x = gd_health d" for x e
    using that keep [OF that] grows_with [OF that(1)] by (auto intro: peer_raised_ok)
  show ?thesis
    using assms(3) succ [OF g1] fail [OF g1] fail [OF g2] succ [OF g3] fail [OF g3]
    unfolding contact_peer_def Let_def
    by (auto split: sum.splits if_splits prod.splits) (metis snd_conv)+
qed

lemma round_loop_outcome:
  assumes "ok (gd_accumulator d)" "health_ok d" "set ps \<subseteq> set (gs_peers (gd_settings d))"
  shows "\<exists>c d'. round_loop ops env ps conv d = (Inr c, d') \<and> grows d d' \<and> health_ok d'"
  using assms
proof (induction ps arbitrary: d conv)
  case (Cons p ps)
  have "gp_name p \<in> set (map fst (gd_health d))" using Cons.prems by (auto simp: health_ok_def)
  then obtain h where h: "map_of (gd_health d) (gp_name p) = Some h"
    by (metis list.set_map map_of_eq_None_iff option.exhaust)
  then have "h \<in> snd ` set (gd_health d)" by (force dest: map_of_SomeD)
  then have b: "skip_rounds h \<le> 2 ^ FAILURE_CAP" using Cons.prems(2) by (auto simp: health_ok_def)
  show ?case
  proof (cases "skip_rounds h > 0")
    case True
    let ?d = "with_health (gp_name p) (\<lambda>_. h\<lparr>skip_rounds := skip_rounds h - 1\<rparr>) d"
    have "health_ok ?d" using Cons.prems(2) b by (intro with_health_ok) simp_all
    with Cons.IH [of ?d conv] Cons.prems obtain c d' where
      "round_loop ops env ps conv ?d = (Inr c, d')" "grows ?d d'" "health_ok d'" by auto
    moreover from this(2) have "grows d d'" by (simp add: grows_def)
    ultimately show ?thesis using h True by (simp add: should_skip_def)
  next
    case False
    obtain c d1 where c: "contact_peer ops (env (gp_name p)) (gp_name p) d = (c, d1)" by fastforce
    note g = contact_peer_outcome [OF Cons.prems(1,2) c]
    with Cons.IH [of d1 "conv \<and> \<not> c"] Cons.prems growsD [of d d1] obtain c' d' where
      "round_loop ops env ps (conv \<and> \<not> c) d1 = (Inr c', d')" "grows d1 d'" "health_ok d'" by auto
    moreover from this g have "grows d d'" using grows_trans by blast
    ultimately show ?thesis using h False c by (simp add: should_skip_def)
  qed
qed (simp add: grows_def)

lemma round_outcome:
  assumes "ok (gd_accumulator d)" "health_ok d"
  shows "\<exists>st d'. run_round ops env d = (Inr st, d') \<and> grows d d' \<and> health_ok d'"
proof -
  let ?d = "d\<lparr>gd_stats := (gd_stats d)\<lparr>rounds_started := rounds_started (gd_stats d) + 1\<rparr>\<rparr>"
  obtain c d' where "round_loop ops env (gs_peers (gd_settings d)) True ?d = (Inr c, d')" "grows ?d d'" "health_ok d'"
    using round_loop_outcome [of ?d "gs_peers (gd_settings d)" env True] assms by (auto simp: health_ok_def)
  then show ?thesis by (auto simp: run_round_def Let_def health_ok_def grows_def)
qed

end

end
