(* ===== verification/Gossip_Mesh.thy ===== *)
theory Gossip_Mesh
  imports Gossip
begin

section \<open>Convergence of the gossip mesh\<close>

text \<open>
  Client lemmas of the accumulator contract on whole contacts between daemons, the
  interpretation of the contract on the replicated accumulator, and the properties of the
  mesh: a daemon survives any network, contacts spread leaves exactly as far as they
  connect replicas, and replicas reached by the same sources have one root.
\<close>

text \<open>Everything the replicas of a run had hashed when they compared roots.\<close>

fun run_hashed ::
    "'a accumulator_ops \<Rightarrow> ('a \<Rightarrow> bytes set) \<Rightarrow> (nat \<Rightarrow> string) \<Rightarrow> (nat \<times> nat) list \<Rightarrow> (nat \<Rightarrow> 'a gossip_daemon) \<Rightarrow> bytes set" where
  "run_hashed ops hashed nm [] M = {}"
| "run_hashed ops hashed nm ((i, j) # cs) M =
     hashed (gd_accumulator (M i)) \<union> hashed (gd_accumulator (M j))
     \<union> run_hashed ops hashed nm cs (mesh_contact ops nm (i, j) M)"

context causal_accumulator
begin

lemma merge_state_joined:
  assumes "ok (gd_accumulator d)" "carried s = Some X" "int (length s) \<le> gs_max_state_bytes (gd_settings d)"
  obtains c d' where "merge_state ops s d = (Inr c, d')" "ok (gd_accumulator d')" "gd_settings d' = gd_settings d"
    "held (gd_accumulator d') \<subseteq> held (gd_accumulator d) \<union> X"
    "sha256 ` held (gd_accumulator d') = sha256 ` held (gd_accumulator d) \<union> sha256 ` X"
proof -
  from merge_joins [OF assms(1,2)] obtain a' where a: "ao_merge_encoded ops (gd_accumulator d) s = Inr a'" "ok a'"
    "held a' \<subseteq> held (gd_accumulator d) \<union> X" "sha256 ` held a' = sha256 ` held (gd_accumulator d) \<union> sha256 ` X" by blast
  obtain c d' where "merge_state ops s d = (Inr c, d')" "gd_accumulator d' = a'" "gd_settings d' = gd_settings d"
    using a(1) assms(3) by (simp add: merge_state_def Let_def)
  with a that show thesis by simp
qed

lemma serve_exchange_joined:
  assumes "ok (gd_accumulator e)" "carried s = Some X" "int (length s) \<le> gs_max_state_bytes (gd_settings e)"
    and "ao_encode_state ops (gd_accumulator e) = Inr bs"
  obtains e' where "serve_exchange ops None [s] e = (State bs, e')" "ok (gd_accumulator e')" "gd_settings e' = gd_settings e"
    "held (gd_accumulator e') \<subseteq> held (gd_accumulator e) \<union> X"
    "sha256 ` held (gd_accumulator e') = sha256 ` held (gd_accumulator e) \<union> sha256 ` X"
  by (rule merge_state_joined [OF assms(1-3)]) (use assms(3,4) that in \<open>simp add: serve_exchange_def Let_def\<close>)

lemma contact_joins:
  assumes "ok (gd_accumulator d)" "ok (gd_accumulator e)" "fits ops d e" "fits ops e d"
    and d': "d' = snd (contact_peer ops (live_env ops (gs_max_state_bytes (gd_settings d)) e) n d)"
    and e': "e' = (case posted_state ops d e of None \<Rightarrow> e | Some ours \<Rightarrow> snd (serve_exchange ops None [ours] e))"
  shows "ok (gd_accumulator d') \<and> ok (gd_accumulator e') \<and> gd_settings d' = gd_settings d \<and> gd_settings e' = gd_settings e
    \<and> held (gd_accumulator d') \<subseteq> held (gd_accumulator d) \<union> held (gd_accumulator e)
    \<and> held (gd_accumulator e') \<subseteq> held (gd_accumulator d) \<union> held (gd_accumulator e)
    \<and> (ao_root ops (gd_accumulator d) = ao_root ops (gd_accumulator e)
          \<and> gd_accumulator d' = gd_accumulator d \<and> gd_accumulator e' = gd_accumulator e
       \<or> sha256 ` held (gd_accumulator d') = sha256 ` (held (gd_accumulator d) \<union> held (gd_accumulator e))
          \<and> sha256 ` held (gd_accumulator e') = sha256 ` (held (gd_accumulator d) \<union> held (gd_accumulator e)))"
proof -
  from assms(3,4) obtain bd be where enc: "ao_encode_state ops (gd_accumulator d) = Inr bd" "ao_encode_state ops (gd_accumulator e) = Inr be"
    and fit: "int (length bd) \<le> gs_max_state_bytes (gd_settings e)" "int (length be) \<le> gs_max_state_bytes (gd_settings d)"
    by (auto simp: fits_def split: sum.splits)
  note cd = encode_carries [OF assms(1) enc(1)] and ce = encode_carries [OF assms(2) enc(2)]
  show ?thesis
  proof (cases "is_root (serve_root ops e) \<and> serve_root ops e = ao_root ops (gd_accumulator d)")
    case True
    then have "is_root (ao_root ops (gd_accumulator d))" "serve_root ops e = ao_root ops (gd_accumulator d)" by auto
    then have "d' = with_health n health_succeeded d" "e' = e"
      by (simp_all add: d' e' contact_peer_def live_env_def arrivals_def posted_state_def Let_def)
    with True assms(1,2) show ?thesis by (simp add: serve_root_def)
  next
    case False
    from serve_exchange_joined [OF assms(2) cd fit(1) enc(2)] obtain e1 where e1: "serve_exchange ops None [bd] e = (State be, e1)"
      "ok (gd_accumulator e1)" "gd_settings e1 = gd_settings e"
      "held (gd_accumulator e1) \<subseteq> held (gd_accumulator e) \<union> held (gd_accumulator d)"
      "sha256 ` held (gd_accumulator e1) = sha256 ` held (gd_accumulator e) \<union> sha256 ` held (gd_accumulator d)" by blast
    from merge_state_joined [OF assms(1) ce fit(2)] obtain c d1 where d1: "merge_state ops be d = (Inr c, d1)"
      "ok (gd_accumulator d1)" "gd_settings d1 = gd_settings d"
      "held (gd_accumulator d1) \<subseteq> held (gd_accumulator d) \<union> held (gd_accumulator e)"
      "sha256 ` held (gd_accumulator d1) = sha256 ` held (gd_accumulator d) \<union> sha256 ` held (gd_accumulator e)" by blast
    have "e' = e1" using False enc(1) e1(1) by (auto simp: e' posted_state_def)
    moreover have "d' = with_health n health_succeeded d1"
      using False enc(1) e1(1) d1(1) fit(2)
      by (auto simp: d' contact_peer_def live_env_def arrivals_def client_exchange_def Let_def)
    ultimately show ?thesis using d1 e1 by (auto simp: image_Un)
  qed
qed

lemma mesh_contact_joins:
  assumes "\<And>k. ok (gd_accumulator (M k))" "i \<noteq> j" "fits ops (M i) (M j)" "fits ops (M j) (M i)"
    and "\<And>k. sha256 ` held (gd_accumulator (M k)) = sha256 ` H k"
    and M': "M' = mesh_contact ops nm (i, j) M"
  shows "(\<forall>k. ok (gd_accumulator (M' k)))
    \<and> (\<forall>k. held (gd_accumulator (M' k)) \<subseteq> (\<Union>s. held (gd_accumulator (M s))))
    \<and> ((\<forall>k. sha256 ` held (gd_accumulator (M' k)) = sha256 ` ((H(i := H i \<union> H j, j := H i \<union> H j)) k))
       \<or> collision_between (hashed (gd_accumulator (M i))) (hashed (gd_accumulator (M j))))"
proof -
  note c = contact_joins [OF assms(1) assms(1) assms(3,4), of "M' i" "nm j" "M' j"]
  have m: "M' i = snd (contact_peer ops (live_env ops (gs_max_state_bytes (gd_settings (M i))) (M j)) (nm j) (M i))"
    "M' j = (case posted_state ops (M i) (M j) of None \<Rightarrow> M j | Some ours \<Rightarrow> snd (serve_exchange ops None [ours] (M j)))"
    and rest: "k \<noteq> i \<Longrightarrow> k \<noteq> j \<Longrightarrow> M' k = M k" for k
    using assms(2) by (simp_all add: M' mesh_contact_def)
  note c = c [OF m]
  have hk: "sha256 ` held (gd_accumulator (M i)) = sha256 ` H i" "sha256 ` held (gd_accumulator (M j)) = sha256 ` H j"
    using assms(5) by auto
  have all: "\<forall>k. P k" if "P i" "P j" "\<And>k. k \<noteq> i \<Longrightarrow> k \<noteq> j \<Longrightarrow> P k" for P :: "nat \<Rightarrow> bool"
    using that by metis
  have held_sub: "held (gd_accumulator (M' i)) \<subseteq> held (gd_accumulator (M i)) \<union> held (gd_accumulator (M j))"
    "held (gd_accumulator (M' j)) \<subseteq> held (gd_accumulator (M i)) \<union> held (gd_accumulator (M j))" using c by blast+
  have "\<forall>k. ok (gd_accumulator (M' k))" by (rule all) (use c rest assms(1) in auto)
  moreover have "\<forall>k. held (gd_accumulator (M' k)) \<subseteq> (\<Union>s. held (gd_accumulator (M s)))"
    by (rule all) (use held_sub rest in fastforce)+
  moreover have "(\<forall>k. sha256 ` held (gd_accumulator (M' k)) = sha256 ` ((H(i := H i \<union> H j, j := H i \<union> H j)) k))
       \<or> collision_between (hashed (gd_accumulator (M i))) (hashed (gd_accumulator (M j)))"
  proof (cases "sha256 ` held (gd_accumulator (M' i)) = sha256 ` (held (gd_accumulator (M i)) \<union> held (gd_accumulator (M j)))
      \<and> sha256 ` held (gd_accumulator (M' j)) = sha256 ` (held (gd_accumulator (M i)) \<union> held (gd_accumulator (M j)))")
    case True
    then have "\<forall>k. sha256 ` held (gd_accumulator (M' k)) = sha256 ` ((H(i := H i \<union> H j, j := H i \<union> H j)) k)"
      by (intro all) (use rest assms(2,5) hk in \<open>simp_all add: image_Un\<close>)
    then show ?thesis ..
  next
    case False
    with c have r: "ao_root ops (gd_accumulator (M i)) = ao_root ops (gd_accumulator (M j))"
      and same: "gd_accumulator (M' i) = gd_accumulator (M i)" "gd_accumulator (M' j) = gd_accumulator (M j)" by blast+
    from held_of_root [OF assms(1) assms(1) r] show ?thesis
    proof
      assume e: "held (gd_accumulator (M i)) = held (gd_accumulator (M j))"
      with False same show ?thesis by simp
    next
      assume "collision_between (hashed (gd_accumulator (M i))) (hashed (gd_accumulator (M j)))"
      then show ?thesis ..
    qed
  qed
  ultimately show ?thesis by blast
qed

lemma mesh_run_spreads:
  assumes "\<And>k. ok (gd_accumulator (M k))" "run_fits ops nm cs M"
    and "\<And>k. sha256 ` held (gd_accumulator (M k)) = sha256 ` H k"
  shows "(\<forall>k. ok (gd_accumulator (mesh_run ops nm cs M k)))
    \<and> (\<forall>k. held (gd_accumulator (mesh_run ops nm cs M k)) \<subseteq> (\<Union>s. held (gd_accumulator (M s))))
    \<and> ((\<forall>k. sha256 ` held (gd_accumulator (mesh_run ops nm cs M k)) = sha256 ` spread cs H k)
       \<or> collision_between (run_hashed ops hashed nm cs M) (run_hashed ops hashed nm cs M))"
  using assms
proof (induction cs arbitrary: M H)
  case (Cons c cs)
  obtain i j where c: "c = (i, j)" by (cases c)
  define M' H' where "M' = mesh_contact ops nm (i, j) M" and "H' = H(i := H i \<union> H j, j := H i \<union> H j)"
  let ?R = "run_hashed ops hashed nm cs M'"
  have f: "i \<noteq> j" "fits ops (M i) (M j)" "fits ops (M j) (M i)" "run_fits ops nm cs M'"
    using Cons.prems(2) by (simp_all add: c M'_def)
  note step = mesh_contact_joins [OF Cons.prems(1) f(1-3) Cons.prems(3) M'_def]
  have ok': "\<And>k. ok (gd_accumulator (M' k))" using conjunct1 [OF step] by simp
  have sub': "held (gd_accumulator (M' k)) \<subseteq> (\<Union>s. held (gd_accumulator (M s)))" for k
    using conjunct1 [OF conjunct2 [OF step]] by simp
  note run = Cons.IH [OF ok' f(4) refl]
  have okr: "\<forall>k. ok (gd_accumulator (mesh_run ops nm cs M' k))" using conjunct1 [OF run] .
  have sub: "held (gd_accumulator (mesh_run ops nm cs M' k)) \<subseteq> (\<Union>s. held (gd_accumulator (M s)))" for k
  proof -
    have "held (gd_accumulator (mesh_run ops nm cs M' k)) \<subseteq> (\<Union>s. held (gd_accumulator (M' s)))"
      using conjunct1 [OF conjunct2 [OF run]] by simp
    also have "\<dots> \<subseteq> (\<Union>s. held (gd_accumulator (M s)))" using sub' by (rule UN_least)
    finally show ?thesis .
  qed
  consider (eq) "\<And>k. sha256 ` held (gd_accumulator (M' k)) = sha256 ` H' k"
    | (clash) "collision_between (hashed (gd_accumulator (M i))) (hashed (gd_accumulator (M j)))"
    using conjunct2 [OF conjunct2 [OF step]] unfolding H'_def by (elim disjE) simp_all
  then have "(\<forall>k. sha256 ` held (gd_accumulator (mesh_run ops nm cs M' k)) = sha256 ` spread cs H' k)
      \<or> collision_between (run_hashed ops hashed nm (c # cs) M) (run_hashed ops hashed nm (c # cs) M)"
  proof cases
    case eq
    have "?R \<subseteq> run_hashed ops hashed nm (c # cs) M" by (auto simp: c M'_def)
    with conjunct2 [OF conjunct2 [OF Cons.IH [OF ok' f(4) eq]]] show ?thesis
      by (elim disjE) (simp, intro disjI2, erule (2) collision_between_mono)
  next
    case clash
    then show ?thesis by (intro disjI2) (erule collision_between_mono, auto simp: c)
  qed
  then show ?case
    using okr sub unfolding c mesh_run.simps spread.simps M'_def [symmetric] H'_def [symmetric]
    by (intro conjI allI) simp_all
qed auto

lemma mesh_run_converges:
  assumes "\<And>k. ok (gd_accumulator (M k))" "run_fits ops nm cs M"
    and "spread cs (\<lambda>k. {k}) i = spread cs (\<lambda>k. {k}) j"
    and X: "X = run_hashed ops hashed nm cs M \<union> (\<Union>k. held (gd_accumulator (M k)))"
  shows "ao_root ops (gd_accumulator (mesh_run ops nm cs M i)) = ao_root ops (gd_accumulator (mesh_run ops nm cs M j))
    \<or> collision_between X X"
proof -
  let ?a = "\<lambda>k. gd_accumulator (mesh_run ops nm cs M k)"
  note run = mesh_run_spreads [OF assms(1,2) refl]
  have "spread cs (\<lambda>k. \<Union>s\<in>{k}. held (gd_accumulator (M s))) i = spread cs (\<lambda>k. \<Union>s\<in>{k}. held (gd_accumulator (M s))) j"
    unfolding spread_UN assms(3) ..
  then have "sha256 ` held (?a i) = sha256 ` held (?a j) \<or> collision_between (run_hashed ops hashed nm cs M) (run_hashed ops hashed nm cs M)"
    using run by (elim conjE disjE) simp_all
  then show ?thesis
  proof
    assume "sha256 ` held (?a i) = sha256 ` held (?a j)"
    then have "ao_root ops (?a i) = ao_root ops (?a j) \<or> collision_between (held (?a i) \<union> held (?a j)) (held (?a i) \<union> held (?a j))"
      using run by (intro root_of_held) auto
    moreover have "held (?a i) \<union> held (?a j) \<subseteq> X" using run X by blast
    ultimately show ?thesis using collision_between_mono by blast
  next
    assume "collision_between (run_hashed ops hashed nm cs M) (run_hashed ops hashed nm cs M)"
    then show ?thesis unfolding X by (intro disjI2) (erule collision_between_mono, auto)
  qed
qed

end

subsection \<open>The replicated accumulator meets the contract\<close>

definition causal_ops :: "causal_mmr accumulator_ops" where
  "causal_ops =
     \<lparr>ao_root = (\<lambda>m. hex (causal_root m)), ao_leaf_count = (\<lambda>m. int (length (cm_leaves m))),
      ao_encode_state = py_encode_state, ao_merge_encoded = merge_encoded\<rparr>"

definition replica_fit :: "causal_mmr \<Rightarrow> bool" where
  "replica_fit m \<longleftrightarrow> replica_ok m \<and> (\<forall>l\<in>set (cm_leaves m). length (lf_clock l) < 2 ^ 32)"

definition held_inputs :: "causal_mmr \<Rightarrow> bytes set" where
  "held_inputs m = causal_input ` set (cm_leaves m)"

definition carried_leaves :: "bytes \<Rightarrow> bytes set option" where
  "carried_leaves bs = (case parse_state bs of Inl _ \<Rightarrow> None | Inr ls \<Rightarrow> Some (causal_input ` set ls))"

lemma causal_ops_sel [simp]:
  "ao_root causal_ops = (\<lambda>m. hex (causal_root m))" "ao_leaf_count causal_ops = (\<lambda>m. int (length (cm_leaves m)))"
  "ao_encode_state causal_ops = py_encode_state" "ao_merge_encoded causal_ops = merge_encoded"
  by (simp_all add: causal_ops_def)

lemma sha256_held: "sha256 ` held_inputs m = causal_digest ` set (cm_leaves m)"
  by (auto simp: held_inputs_def causal_digest_def)

lemma merge_encoded_fit:
  assumes "replica_fit m" "wire_ok ls"
  shows "\<exists>m'. merge_encoded m (wire_bytes ls) = Inr m' \<and> replica_fit m' \<and> held_inputs m' \<subseteq> held_inputs m \<union> causal_input ` set ls
    \<and> sha256 ` held_inputs m' = sha256 ` held_inputs m \<union> sha256 ` causal_input ` set ls"
proof -
  have "replica_ok m" using assms(1) by (simp add: replica_fit_def)
  from merge_encoded_digests [OF this assms(2)] obtain m' where m: "merge_encoded m (wire_bytes ls) = Inr m'" "replica_ok m'"
    "set (cm_leaves m') \<subseteq> set (cm_leaves m) \<union> set ls"
    "causal_digest ` set (cm_leaves m') = causal_digest ` (set (cm_leaves m) \<union> set ls)" by blast
  have "length (lf_clock l) < 2 ^ 32" if "l \<in> set (cm_leaves m')" for l
    using subsetD [OF m(3) that] assms by (fastforce simp: replica_fit_def wire_ok_def MAX_CLOCK_ENTRIES_def)
  moreover have "sha256 ` causal_input ` set ls = causal_digest ` set ls" by (auto simp: causal_digest_def)
  moreover have "held_inputs m' \<subseteq> held_inputs m \<union> causal_input ` set ls"
    unfolding held_inputs_def image_Un [symmetric] using m(3) by (rule image_mono)
  ultimately show ?thesis using m(1,2,4) unfolding sha256_held replica_fit_def image_Un by simp
qed

lemma causal_encode_carries:
  assumes "replica_fit a" "ao_encode_state causal_ops a = Inr bs"
  shows "carried_leaves bs = Some (held_inputs a)"
proof -
  have e: "encode_state a = Inr bs" using assms(2) by (simp add: py_encode_state_def split: sum.splits)
  have ok: "replica_ok a" and l: "\<And>l. l \<in> set (cm_leaves a) \<Longrightarrow> length (lf_clock l) < 2 ^ 32"
    using assms(1) unfolding replica_fit_def by blast+
  show ?thesis
    using encoded_wire_ok [OF replica_key_ordered [OF ok] l e] by (simp add: carried_leaves_def parse_wire_bytes held_inputs_def)
qed

lemma causal_merge_joins:
  assumes "replica_fit a" "carried_leaves bs = Some X"
  shows "\<exists>a'. ao_merge_encoded causal_ops a bs = Inr a' \<and> replica_fit a' \<and> held_inputs a' \<subseteq> held_inputs a \<union> X
    \<and> sha256 ` held_inputs a' = sha256 ` held_inputs a \<union> sha256 ` X"
proof -
  from assms(2) obtain ls where "wire_ok ls" "bs = wire_bytes ls" "X = causal_input ` set ls"
    by (auto simp: carried_leaves_def parse_state_Inr split: sum.splits)
  with merge_encoded_fit [OF assms(1), of ls] show ?thesis by simp
qed

lemma causal_merge_refuses:
  "replica_fit a \<Longrightarrow> carried_leaves bs = None \<Longrightarrow> \<exists>msg. ao_merge_encoded causal_ops a bs = Inl (ValueError msg)"
  by (simp add: carried_leaves_def merge_encoded_def decode_state_def split: sum.splits)

lemma causal_root_of_held:
  assumes "replica_fit a" "replica_fit b" "sha256 ` held_inputs a = sha256 ` held_inputs b"
  shows "ao_root causal_ops a = ao_root causal_ops b
    \<or> collision_between (held_inputs a \<union> held_inputs b) (held_inputs a \<union> held_inputs b)"
proof -
  let ?A = "set (cm_leaves a)" and ?B = "set (cm_leaves b)"
  have ok: "replica_ok a" "replica_ok b" using assms(1,2) by (simp_all add: replica_fit_def)
  then have "leaf_ok l" if "l \<in> ?A \<union> ?B" for l using that by (auto simp: replica_ok_def holdings_ok_def)
  then consider "inj_on causal_digest (?A \<union> ?B)" | "collision_between (causal_input ` (?A \<union> ?B)) (causal_input ` (?A \<union> ?B))"
    using digest_inj_or_collision [of "?A \<union> ?B"] by blast
  then show ?thesis
  proof cases
    case 1
    then have "?A = ?B" using assms(3) by (simp add: sha256_held inj_on_image_eq_iff)
    with same_leaves_same_peaks [OF ok] show ?thesis by simp
  next
    case 2
    then show ?thesis by (simp add: held_inputs_def image_Un)
  qed
qed

lemma causal_held_of_root:
  assumes "replica_fit a" "replica_fit b" "ao_root causal_ops a = ao_root causal_ops b"
  shows "held_inputs a = held_inputs b \<or> collision_between (replica_inputs a) (replica_inputs b)"
proof -
  have "replica_ok a" "replica_ok b" "causal_root a = causal_root b" using assms by (simp_all add: replica_fit_def)
  from root_binds_leaves_aux [OF this] show ?thesis by (auto simp: held_inputs_def)
qed

lemmas causal_contract =
  causal_encode_carries causal_merge_joins causal_merge_refuses causal_root_of_held causal_held_of_root

interpretation causal: causal_accumulator causal_ops replica_fit held_inputs replica_inputs carried_leaves
  by unfold_locales (fact causal_contract)+

subsection \<open>Properties of the mesh\<close>

text \<open>
  No network can stop a daemon: whatever its peers answer, raise or send meanwhile, a
  round returns, the replica stays well-formed, keeps every leaf it had, and no peer is
  left backed off for more than 64 rounds.
\<close>

theorem round_survives_any_network:
  assumes "replica_fit (gd_accumulator d)" "health_ok d"
  shows "\<exists>st d'. run_round causal_ops env d = (Inr st, d') \<and> replica_fit (gd_accumulator d') \<and> health_ok d'
    \<and> causal_digest ` set (cm_leaves (gd_accumulator d)) \<subseteq> causal_digest ` set (cm_leaves (gd_accumulator d'))
    \<and> (\<forall>h\<in>snd ` set (gd_health d'). skip_rounds h \<le> 64)"
  using causal.round_outcome [OF assms, of env]
  by (auto simp: causal.grows_def sha256_held health_ok_def FAILURE_CAP_def)

text \<open>
  Leaves travel exactly as far as contacts carry them: after any sequence of contacts
  between daemons in which no state exceeds the ceilings, a replica holds the digests of
  the leaves of precisely those replicas from which a chain of contacts leads to it in
  order; or two byte strings the replicas hashed collide.
\<close>

theorem contacts_spread_leaves:
  assumes "\<And>k. replica_fit (gd_accumulator (M k))" "run_fits causal_ops nm cs M"
  shows "(\<forall>k. causal_digest ` set (cm_leaves (gd_accumulator (mesh_run causal_ops nm cs M k)))
            = (\<Union>s\<in>spread cs (\<lambda>k. {k}) k. causal_digest ` set (cm_leaves (gd_accumulator (M s)))))
         \<or> collision_between (run_hashed causal_ops replica_inputs nm cs M) (run_hashed causal_ops replica_inputs nm cs M)"
proof -
  let ?h = "\<lambda>k. held_inputs (gd_accumulator (M k))"
  have "spread cs (\<lambda>k. \<Union>s\<in>{k}. ?h s) k = (\<Union>s\<in>spread cs (\<lambda>k. {k}) k. ?h s)" for k
    unfolding spread_UN ..
  then have "sha256 ` spread cs ?h k = (\<Union>s\<in>spread cs (\<lambda>k. {k}) k. sha256 ` ?h s)" for k by (simp add: image_UN)
  with conjunct2 [OF conjunct2 [OF causal.mesh_run_spreads [OF assms refl]]] show ?thesis by (simp only: sha256_held)
qed

text \<open>
  C8. The mesh converges: after any sequence of contacts in which no state exceeds the
  ceilings, two replicas that the same replicas have reached show the same root; or two
  byte strings the replicas hashed collide.
\<close>

theorem mesh_converges:
  assumes "\<And>k. replica_fit (gd_accumulator (M k))" "run_fits causal_ops nm cs M"
    and "spread cs (\<lambda>k. {k}) i = spread cs (\<lambda>k. {k}) j"
    and "X = run_hashed causal_ops replica_inputs nm cs M \<union> (\<Union>k. held_inputs (gd_accumulator (M k)))"
  shows "serve_root causal_ops (mesh_run causal_ops nm cs M i) = serve_root causal_ops (mesh_run causal_ops nm cs M j)
    \<or> collision_between X X"
  unfolding serve_root_def by (rule causal.mesh_run_converges [OF assms])

text \<open>A round in which every peer is unreachable or backed off.\<close>

lemma unreachable_loop:
  assumes "health_ok d" "set ps \<subseteq> set (gs_peers (gd_settings d))"
    and "\<And>p. p \<in> set ps \<Longrightarrow> \<exists>e. pe_fetch (env (gp_name p)) = Inl e"
  shows "\<exists>d'. round_loop ops env ps conv d = (Inr conv, d') \<and> rounds_converged (gd_stats d') = rounds_converged (gd_stats d)"
  using assms
proof (induction ps arbitrary: d)
  case (Cons p ps)
  have "gp_name p \<in> set (map fst (gd_health d))" using Cons.prems by (auto simp: health_ok_def)
  then obtain h where h: "map_of (gd_health d) (gp_name p) = Some h"
    by (metis list.set_map map_of_eq_None_iff option.exhaust)
  then have "h \<in> snd ` set (gd_health d)" by (force dest: map_of_SomeD)
  then have b: "skip_rounds h \<le> 2 ^ FAILURE_CAP" using Cons.prems(1) by (auto simp: health_ok_def)
  obtain e where e: "pe_fetch (env (gp_name p)) = Inl e" using Cons.prems(3) by force
  let ?skip = "with_health (gp_name p) (\<lambda>_. h\<lparr>skip_rounds := skip_rounds h - 1\<rparr>) d"
  let ?arr = "arrivals ops (pe_fetch_arrivals (env (gp_name p))) d"
  let ?fail = "peer_raised (gp_name p) e ?arr"
  have "health_ok ?skip" using Cons.prems(1) b by (intro with_health_ok) simp_all
  moreover have "health_ok ?arr" using Cons.prems(1) arrivals_sel [of ops _ d] by (simp add: health_ok_def)
  moreover have "rounds_converged (gd_stats ?fail) = rounds_converged (gd_stats d)" "gd_settings ?fail = gd_settings d"
    using arrivals_sel [of ops _ d] by (simp_all add: peer_raised_def split: gossip_exn.splits)
  ultimately show ?case
    using Cons.IH [of ?skip] Cons.IH [of ?fail] Cons.prems h e
    by (auto simp: should_skip_def contact_peer_def peer_raised_ok)
qed simp

text \<open>
  A round that reaches nobody counts as converged: when every request for a peer's
  root fails, or its peer is backed off, the round still raises \<open>rounds_converged\<close>, the
  counter an operator is told to read as agreement.
\<close>

theorem unreachable_round_counts_as_converged:
  assumes "health_ok d" "gs_peers (gd_settings d) \<noteq> []"
    and "\<And>p. p \<in> set (gs_peers (gd_settings d)) \<Longrightarrow> \<exists>e. pe_fetch (env (gp_name p)) = Inl e"
  shows "\<exists>st d'. run_round ops env d = (Inr st, d') \<and> rounds_converged st = rounds_converged (gd_stats d) + 1"
proof -
  let ?d = "d\<lparr>gd_stats := (gd_stats d)\<lparr>rounds_started := rounds_started (gd_stats d) + 1\<rparr>\<rparr>"
  have "health_ok ?d" using assms(1) by (simp add: health_ok_def)
  from unreachable_loop [OF this, of "gs_peers (gd_settings d)" env ops True] assms(3) obtain d' where
    "round_loop ops env (gs_peers (gd_settings d)) True ?d = (Inr True, d')"
    "rounds_converged (gd_stats d') = rounds_converged (gd_stats ?d)" by auto
  with assms(2) show ?thesis by (simp add: run_round_def Let_def)
qed

subsection \<open>Instances\<close>

definition demo_settings :: gossip_settings where
  "demo_settings = \<lparr>gs_replica_id = 0, gs_peers = [\<lparr>gp_name = ''b'', gp_url = ''https://b''\<rparr>], gs_interval_seconds = 5,
     gs_request_timeout_seconds = 3, gs_client_certificate = [], gs_client_private_key = [],
     gs_certificate_authority = [], gs_max_state_bytes = MAX_STATE_BYTES\<rparr>"

definition demo_mesh :: "nat \<Rightarrow> causal_mmr gossip_daemon" where
  "demo_mesh k = new_daemon (snd (causal_append [of_nat k] (causal_new (of_nat k)))) demo_settings"

definition down_env :: peer_env where
  "down_env = \<lparr>pe_fetch_arrivals = [[1, 2, 3]], pe_fetch = Inl (OtherError (OSError ''refused'')),
     pe_exchange_arrivals = [], pe_exchange = (\<lambda>_. Inl (OtherError (OSError ''refused'')))\<rparr>"

lemma demo_leaves: "\<exists>l. cm_leaves (gd_accumulator (demo_mesh k)) = [l] \<and> length (lf_clock l) = 1 \<and> length (lf_payload_hash l) = 32"
  by (simp add: demo_mesh_def new_daemon_def causal_append_def causal_new_def Let_def clock_tick_def)

lemma demo_fit: "replica_fit (gd_accumulator (demo_mesh k))"
proof -
  have "replica_ok (snd (causal_append [of_nat k] (causal_new (of_nat k))))"
    by (rule append_replica_ok [OF replica_ok_new]) (simp add: causal_new_def clock_sum_def)
  then show ?thesis
    using demo_leaves [of k] by (auto simp: replica_fit_def demo_mesh_def new_daemon_def)
qed

lemma demo_health_ok: "health_ok (demo_mesh k)"
  by (simp add: health_ok_def demo_mesh_def new_daemon_def new_health_def)

lemma demo_fits: "fits causal_ops (demo_mesh i) (demo_mesh j)"
proof -
  obtain l where l: "cm_leaves (gd_accumulator (demo_mesh i)) = [l]" "length (lf_clock l) = 1" "length (lf_payload_hash l) = 32"
    using demo_leaves by blast
  have "encode_state (gd_accumulator (demo_mesh i)) = Inr (wire_bytes [l])"
    using encode_state_eq [of "gd_accumulator (demo_mesh i)"] l
    by (simp add: MAX_STATE_LEAVES_def MAX_CLOCK_ENTRIES_def)
  moreover have "length (wire_bytes [l]) = 68"
    using l by (simp add: wire_bytes_def STATE_MAGIC_def encode_leaf_def length_clock_bytes)
  ultimately show ?thesis
    by (simp add: fits_def py_encode_state_def demo_mesh_def new_daemon_def demo_settings_def MAX_STATE_BYTES_def)
qed

lemma demo_run_fits: "run_fits causal_ops nm [(0, 1)] demo_mesh"
  using demo_fits by simp

theorem round_survives_any_network_witness:
  "replica_fit (gd_accumulator (demo_mesh 0)) \<and> health_ok (demo_mesh 0)
   \<and> (\<exists>st d'. run_round causal_ops (\<lambda>_. down_env) (demo_mesh 0) = (Inr st, d') \<and> replica_fit (gd_accumulator d'))"
  using round_survives_any_network [OF demo_fit demo_health_ok, of "\<lambda>_. down_env" 0] demo_fit demo_health_ok by blast

theorem contacts_spread_leaves_witness:
  "run_fits causal_ops (\<lambda>_. ''b'') [(0, 1)] demo_mesh \<and> spread [(0, 1)] (\<lambda>k. {k}) 1 = {0, 1}
   \<and> ((\<forall>k. causal_digest ` set (cm_leaves (gd_accumulator (mesh_run causal_ops (\<lambda>_. ''b'') [(0, 1)] demo_mesh k)))
            = (\<Union>s\<in>spread [(0, 1)] (\<lambda>k. {k}) k. causal_digest ` set (cm_leaves (gd_accumulator (demo_mesh s)))))
      \<or> collision_between (run_hashed causal_ops replica_inputs (\<lambda>_. ''b'') [(0, 1)] demo_mesh)
          (run_hashed causal_ops replica_inputs (\<lambda>_. ''b'') [(0, 1)] demo_mesh))"
  using contacts_spread_leaves [OF demo_fit demo_run_fits, of "\<lambda>_. ''b''"] demo_run_fits [of "\<lambda>_. ''b''"]
  by (intro conjI) (simp_all add: insert_commute)

definition demo_hashed :: "bytes set" where
  "demo_hashed = run_hashed causal_ops replica_inputs (\<lambda>_. ''b'') [(0, 1)] demo_mesh
     \<union> (\<Union>k. held_inputs (gd_accumulator (demo_mesh k)))"

theorem mesh_converges_witness:
  "run_fits causal_ops (\<lambda>_. ''b'') [(0, 1)] demo_mesh
   \<and> spread [(0, 1)] (\<lambda>k. {k}) 0 = spread [(0, 1)] (\<lambda>k. {k}) (1 :: nat)
   \<and> (serve_root causal_ops (mesh_run causal_ops (\<lambda>_. ''b'') [(0, 1)] demo_mesh 0)
        = serve_root causal_ops (mesh_run causal_ops (\<lambda>_. ''b'') [(0, 1)] demo_mesh 1)
      \<or> collision_between demo_hashed demo_hashed)"
proof (intro conjI)
  show "run_fits causal_ops (\<lambda>_. ''b'') [(0, 1)] demo_mesh" by (rule demo_run_fits)
  show s: "spread [(0, 1)] (\<lambda>k. {k}) 0 = spread [(0, 1)] (\<lambda>k. {k}) (1 :: nat)" by simp
  show "serve_root causal_ops (mesh_run causal_ops (\<lambda>_. ''b'') [(0, 1)] demo_mesh 0)
        = serve_root causal_ops (mesh_run causal_ops (\<lambda>_. ''b'') [(0, 1)] demo_mesh 1)
      \<or> collision_between demo_hashed demo_hashed"
    using mesh_converges [OF demo_fit demo_run_fits s demo_hashed_def] .
qed

theorem unreachable_round_counts_as_converged_witness:
  "\<exists>st d'. run_round causal_ops (\<lambda>_. down_env) (demo_mesh 0) = (Inr st, d') \<and> rounds_converged st = 1"
  using unreachable_round_counts_as_converged [OF demo_health_ok, of 0 "\<lambda>_. down_env" causal_ops]
  by (auto simp: demo_mesh_def new_daemon_def demo_settings_def down_env_def no_stats_def)

end
