(* ===== verification/Crdt_Ordering.thy ===== *)
theory Crdt_Ordering
  imports Py_Text "HOL-Library.AList" "HOL-Library.List_Lexorder" "HOL-Library.Char_ord" "HOL-Library.Product_Lexorder"
    "HOL-Library.Multiset"
begin

section \<open>Ordering audit entries by vector clocks\<close>

text \<open>
  The model of \<^verbatim>\<open>aegis/core/crdt_ordering.py\<close>. A clock's dict is an association list with
  distinct keys in insertion order; two dicts are equal when they hold the same items, in
  whatever order. Timestamps are finite floats, read as rationals. \<open>sorted\<close> is a stable
  insertion sort: Python returns what any stable sort returns when the comparison is a weak
  order, and what it returns otherwise is not relied on here. The lemmas give the clock
  laws, the conditions under which the order is total, deterministic and causal, and three
  entries on which no order respects both rules of the module.
\<close>

type_synonym clock_dict = "(string \<times> int) list"

definition dict_get :: "clock_dict \<Rightarrow> string \<Rightarrow> int" where
  "dict_get c k = (case map_of c k of None \<Rightarrow> 0 | Some v \<Rightarrow> v)"

definition dict_eq :: "clock_dict \<Rightarrow> clock_dict \<Rightarrow> bool" where
  "dict_eq a b \<longleftrightarrow> length a = length b \<and> list_all (\<lambda>(k, v). map_of b k = Some v) a"

definition all_keys :: "clock_dict \<Rightarrow> clock_dict \<Rightarrow> string list" where
  "all_keys a b = remdups (map fst a @ map fst b)"

definition vc_zero :: clock_dict where
  "vc_zero = []"

definition vc_increment :: "string \<Rightarrow> clock_dict \<Rightarrow> clock_dict" where
  "vc_increment node_id c = AList.update node_id (dict_get c node_id + 1) c"

definition vc_merge :: "clock_dict \<Rightarrow> clock_dict \<Rightarrow> clock_dict" where
  "vc_merge a b = map (\<lambda>k. (k, max (dict_get a k) (dict_get b k))) (all_keys a b)"

fun hb_loop :: "clock_dict \<Rightarrow> clock_dict \<Rightarrow> string list \<Rightarrow> bool \<Rightarrow> bool" where
  "hb_loop a b [] strictly_less = strictly_less"
| "hb_loop a b (k # ks) strictly_less =
     (let s = dict_get a k; other = dict_get b k in
      if s > other then False else hb_loop a b ks (strictly_less \<or> s < other))"

definition happens_before :: "clock_dict \<Rightarrow> clock_dict \<Rightarrow> bool" where
  "happens_before a b = hb_loop a b (all_keys a b) False"

definition concurrent_with :: "clock_dict \<Rightarrow> clock_dict \<Rightarrow> bool" where
  "concurrent_with a b = (if dict_eq a b then False else \<not> happens_before a b \<and> \<not> happens_before b a)"

record ordered_entry =
  oe_state_id :: string
  oe_node_hash :: string
  oe_timestamp :: rat
  oe_vector_clock :: clock_dict
  oe_origin_node_id :: string

record orderer =
  or_node_id :: string
  or_clock :: clock_dict

definition new_orderer :: "string \<Rightarrow> orderer" where
  "new_orderer node_id = \<lparr>or_node_id = node_id, or_clock = vc_zero\<rparr>"

definition next_clock :: "orderer \<Rightarrow> clock_dict \<times> orderer" where
  "next_clock r = (let c = vc_increment (or_node_id r) (or_clock r) in (c, r\<lparr>or_clock := c\<rparr>))"

definition receive_clock :: "clock_dict \<Rightarrow> orderer \<Rightarrow> clock_dict \<times> orderer" where
  "receive_clock incoming r =
     (let c = vc_increment (or_node_id r) (vc_merge (or_clock r) incoming) in (c, r\<lparr>or_clock := c\<rparr>))"

definition tag_entry :: "string \<Rightarrow> string \<Rightarrow> rat \<Rightarrow> orderer \<Rightarrow> ordered_entry \<times> orderer" where
  "tag_entry state_id node_hash timestamp r =
     (case next_clock r of (c, r') \<Rightarrow>
        (\<lparr>oe_state_id = state_id, oe_node_hash = node_hash, oe_timestamp = timestamp,
          oe_vector_clock = c, oe_origin_node_id = or_node_id r\<rparr>, r'))"

definition tie_key :: "ordered_entry \<Rightarrow> rat \<times> string \<times> string" where
  "tie_key e = (oe_timestamp e, oe_origin_node_id e, oe_state_id e)"

definition entry_cmp :: "ordered_entry \<Rightarrow> ordered_entry \<Rightarrow> int" where
  "entry_cmp a b =
     (if happens_before (oe_vector_clock a) (oe_vector_clock b) then - 1
      else if happens_before (oe_vector_clock b) (oe_vector_clock a) then 1
      else if tie_key a < tie_key b then - 1
      else if tie_key a > tie_key b then 1
      else 0)"

fun insert_by :: "('a \<Rightarrow> 'a \<Rightarrow> bool) \<Rightarrow> 'a \<Rightarrow> 'a list \<Rightarrow> 'a list" where
  "insert_by lt x [] = [x]"
| "insert_by lt x (y # ys) = (if lt y x then y # insert_by lt x ys else x # y # ys)"

definition py_sorted :: "('a \<Rightarrow> 'a \<Rightarrow> bool) \<Rightarrow> 'a list \<Rightarrow> 'a list" where
  "py_sorted lt xs = foldr (insert_by lt) xs []"

definition total_order :: "ordered_entry list \<Rightarrow> ordered_entry list" where
  "total_order entries = py_sorted (\<lambda>a b. entry_cmp a b < 0) entries"

definition merge_from_peers :: "ordered_entry list \<Rightarrow> ordered_entry list \<Rightarrow> ordered_entry list" where
  "merge_from_peers local_entries remote =
     (let seen = fold (\<lambda>e s. AList.update (oe_state_id e) e s) local_entries [];
          seen' = fold (\<lambda>e s. if oe_state_id e \<notin> fst ` set s then AList.update (oe_state_id e) e s else s) remote seen
      in total_order (map snd seen'))"

subsection \<open>Clock laws\<close>

definition dict_ok :: "clock_dict \<Rightarrow> bool" where
  "dict_ok c \<longleftrightarrow> distinct (map fst c)"

lemma dict_get_absent: "k \<notin> fst ` set c \<Longrightarrow> dict_get c k = 0"
  by (simp add: dict_get_def map_of_eq_None_iff [THEN iffD2])

lemma set_all_keys [simp]: "set (all_keys a b) = fst ` set a \<union> fst ` set b"
  by (simp add: all_keys_def)

lemma hb_loop_result:
  "hb_loop a b ks l \<longleftrightarrow> (\<forall>k\<in>set ks. dict_get a k \<le> dict_get b k) \<and> (l \<or> (\<exists>k\<in>set ks. dict_get a k < dict_get b k))"
  by (induction a b ks l rule: hb_loop.induct) (auto simp: Let_def)

lemma happens_before_iff:
  "happens_before a b \<longleftrightarrow> (\<forall>k. dict_get a k \<le> dict_get b k) \<and> (\<exists>k. dict_get a k < dict_get b k)"
proof -
  let ?K = "fst ` set a \<union> fst ` set b"
  have out: "k \<notin> ?K \<Longrightarrow> dict_get a k = 0 \<and> dict_get b k = 0" for k by (simp add: dict_get_absent)
  have "(\<forall>k\<in>?K. dict_get a k \<le> dict_get b k) \<longleftrightarrow> (\<forall>k. dict_get a k \<le> dict_get b k)"
    using out by (metis order_refl)
  moreover have "(\<exists>k\<in>?K. dict_get a k < dict_get b k) \<longleftrightarrow> (\<exists>k. dict_get a k < dict_get b k)"
    using out by (metis less_irrefl)
  ultimately show ?thesis by (simp add: happens_before_def hb_loop_result)
qed

lemma dict_get_increment: "dict_get (vc_increment n c) k = (if k = n then dict_get c n + 1 else dict_get c k)"
  by (simp add: vc_increment_def dict_get_def update_conv')

lemma dict_get_merge: "dict_get (vc_merge a b) k = max (dict_get a k) (dict_get b k)"
proof (cases "k \<in> set (all_keys a b)")
  case True
  then have "map_of (vc_merge a b) k = Some (max (dict_get a k) (dict_get b k))"
    unfolding vc_merge_def map_of_map_restrict by (simp add: restrict_map_def)
  then show ?thesis by (simp add: dict_get_def [of "vc_merge a b"])
next
  case False
  then have "map_of (vc_merge a b) k = None"
    unfolding vc_merge_def map_of_map_restrict by (simp add: restrict_map_def)
  with False show ?thesis by (simp add: dict_get_def [of "vc_merge a b"] dict_get_absent)
qed

lemma happens_before_irrefl: "\<not> happens_before a a"
  by (simp add: happens_before_iff)

lemma happens_before_trans: "happens_before a b \<Longrightarrow> happens_before b c \<Longrightarrow> happens_before a c"
  unfolding happens_before_iff by (metis order_trans less_le_trans)

lemma happens_before_asym: "happens_before a b \<Longrightarrow> \<not> happens_before b a"
  using happens_before_trans happens_before_irrefl by blast

text \<open>
  Clocks record what a replica has seen: the clock of a tick causally follows the
  replica's previous clock, the clock of a receipt follows both that and the clock
  received, and merging is the pointwise maximum, hence independent of the order of the
  two clocks.
\<close>

theorem clocks_follow_causality:
  "happens_before (or_clock r) (fst (next_clock r))
   \<and> happens_before (or_clock r) (fst (receive_clock incoming r))
   \<and> happens_before incoming (fst (receive_clock incoming r))
   \<and> dict_get (vc_merge a b) k = max (dict_get a k) (dict_get b k)
   \<and> dict_get (vc_merge a b) k = dict_get (vc_merge b a) k"
proof -
  have "happens_before a (vc_increment n c)" if "\<And>k. dict_get a k \<le> dict_get c k" for a n c
    unfolding happens_before_iff dict_get_increment
  proof (intro conjI allI)
    show "dict_get a k \<le> (if k = n then dict_get c n + 1 else dict_get c k)" for k using that [of k] by auto
    show "\<exists>k. dict_get a k < (if k = n then dict_get c n + 1 else dict_get c k)" using that [of n] by (intro exI [of _ n]) simp
  qed
  then show ?thesis
    by (simp add: next_clock_def receive_clock_def dict_get_merge max.commute Let_def)
qed

subsection \<open>When the order is total\<close>

text \<open>
  Wall clocks that agree with causality on the entries at hand, and entries told apart by
  timestamp, origin and state id.
\<close>

definition clocks_agree :: "ordered_entry set \<Rightarrow> bool" where
  "clocks_agree E \<longleftrightarrow>
     (\<forall>a\<in>E. \<forall>b\<in>E. happens_before (oe_vector_clock a) (oe_vector_clock b) \<longrightarrow> tie_key a < tie_key b)"

lemma entry_cmp_key:
  assumes "clocks_agree E" "a \<in> E" "b \<in> E"
  shows "entry_cmp a b < 0 \<longleftrightarrow> tie_key a < tie_key b"
  using assms by (auto simp: entry_cmp_def clocks_agree_def not_less intro: less_imp_le dest: less_asym)

lemma set_insert_by [simp]: "set (insert_by lt x ys) = insert x (set ys)"
  by (induction ys) auto

lemma insert_by_key:
  "(\<And>y. y \<in> set ys \<Longrightarrow> lt y x \<longleftrightarrow> f y < (f x :: 'k::linorder)) \<Longrightarrow> insert_by lt x ys = insort_key f x ys"
  by (induction ys) (auto simp: not_less)

lemma py_sorted_key:
  assumes "\<And>x y. x \<in> set xs \<Longrightarrow> y \<in> set xs \<Longrightarrow> lt x y \<longleftrightarrow> f x < (f y :: 'k::linorder)"
  shows "py_sorted lt xs = sort_key f xs"
  using assms
proof (induction xs)
  case (Cons x xs)
  then have "py_sorted lt (x # xs) = insert_by lt x (sort_key f xs)" by (simp add: py_sorted_def)
  also have "\<dots> = insort_key f x (sort_key f xs)" using Cons.prems by (intro insert_by_key) simp
  finally show ?case by simp
qed (simp add: py_sorted_def)

lemma total_order_key: "clocks_agree (set es) \<Longrightarrow> total_order es = sort_key tie_key es"
  unfolding total_order_def by (rule py_sorted_key) (rule entry_cmp_key)

lemma total_order_deterministic_aux:
  assumes "clocks_agree (set es)" "inj_on tie_key (set es)" "mset fs = mset es"
  shows "total_order fs = total_order es"
proof -
  have "clocks_agree (set fs)" using assms(1,3) by (metis mset_eq_setD)
  moreover have "sort_key tie_key es = sort_key tie_key fs"
    using assms(2,3) by (intro sort_key_eq_sort_key) auto
  ultimately show ?thesis using assms(1) by (simp add: total_order_key)
qed

text \<open>
  Where wall clocks agree with causality the order is what the module promises: every
  replica computes the same list from the same entries in whatever order they arrive, it
  holds exactly those entries, an entry never precedes one that happened before it, and
  concurrent entries stand in the order of timestamp, origin and state id.
\<close>

theorem total_order_deterministic:
  assumes "clocks_agree (set es)" "inj_on tie_key (set es)" "mset fs = mset es"
  shows "total_order fs = total_order es \<and> mset (total_order es) = mset es
    \<and> sorted_wrt (\<lambda>a b. \<not> happens_before (oe_vector_clock b) (oe_vector_clock a)) (total_order es)
    \<and> sorted_wrt (\<lambda>a b. tie_key a \<le> tie_key b) (total_order es)"
proof -
  have "sorted_wrt (\<lambda>a b. tie_key a \<le> tie_key b) (total_order es)"
    using sorted_sort_key [of tie_key es] assms(1) by (simp add: total_order_key sorted_map)
  moreover from this have "sorted_wrt (\<lambda>a b. \<not> happens_before (oe_vector_clock b) (oe_vector_clock a)) (total_order es)"
    by (rule sorted_wrt_mono_rel [rotated])
      (use assms(1) in \<open>auto simp: total_order_key clocks_agree_def dest: leD\<close>)
  ultimately show ?thesis
    using total_order_deterministic_aux [OF assms] assms(1) by (simp add: total_order_key)
qed

subsection \<open>Merging with a peer\<close>

definition seen_ok :: "(string \<times> ordered_entry) list \<Rightarrow> bool" where
  "seen_ok s \<longleftrightarrow> distinct (map fst s) \<and> (\<forall>(k, e)\<in>set s. oe_state_id e = k)"

lemma seen_members: "seen_ok s \<Longrightarrow> snd ` set s = {e. map_of s (oe_state_id e) = Some e}"
  by (force simp: seen_ok_def)

lemma seen_ok_update:
  assumes "seen_ok s"
  shows "seen_ok (AList.update (oe_state_id e) e s)"
proof -
  have d: "distinct (map fst (AList.update (oe_state_id e) e s))" using assms by (simp add: seen_ok_def distinct_update)
  have "oe_state_id x = k" if "(k, x) \<in> set (AList.update (oe_state_id e) e s)" for k x
  proof -
    have "map_of (AList.update (oe_state_id e) e s) k = Some x" using that d by simp
    with assms show ?thesis
      by (auto simp: update_conv' seen_ok_def split: if_splits dest: map_of_SomeD)
  qed
  with d show ?thesis by (auto simp: seen_ok_def)
qed

lemma seen_update_members:
  assumes "seen_ok s" "snd ` set s \<subseteq> E" "e \<in> E" "inj_on oe_state_id E"
  shows "snd ` set (AList.update (oe_state_id e) e s) = insert e (snd ` set s)"
proof -
  have "map_of s (oe_state_id x) = Some x \<Longrightarrow> oe_state_id x = oe_state_id e \<Longrightarrow> x = e" for x
    using assms(2-4) by (force dest: map_of_SomeD inj_onD)
  then show ?thesis
    unfolding seen_members [OF seen_ok_update [OF assms(1)]] seen_members [OF assms(1)]
    by (auto simp: update_conv')
qed

lemma seen_local:
  assumes "inj_on oe_state_id E" "set es \<subseteq> E"
  shows "seen_ok s \<Longrightarrow> snd ` set s \<subseteq> E \<Longrightarrow>
    seen_ok (fold (\<lambda>e s. AList.update (oe_state_id e) e s) es s)
    \<and> snd ` set (fold (\<lambda>e s. AList.update (oe_state_id e) e s) es s) = snd ` set s \<union> set es"
  using assms(2)
proof (induction es arbitrary: s)
  case (Cons e es)
  have "snd ` set (AList.update (oe_state_id e) e s) = insert e (snd ` set s)"
    using Cons.prems assms(1) by (intro seen_update_members) auto
  with Cons.IH [OF seen_ok_update [OF Cons.prems(1)], of e] Cons.prems show ?case by auto
qed simp

lemma seen_remote:
  assumes "inj_on oe_state_id E" "set es \<subseteq> E"
  shows "seen_ok s \<Longrightarrow> snd ` set s \<subseteq> E \<Longrightarrow>
    seen_ok (fold (\<lambda>e s. if oe_state_id e \<notin> fst ` set s then AList.update (oe_state_id e) e s else s) es s)
    \<and> snd ` set (fold (\<lambda>e s. if oe_state_id e \<notin> fst ` set s then AList.update (oe_state_id e) e s else s) es s)
      = snd ` set s \<union> set es"
  using assms(2)
proof (induction es arbitrary: s)
  case (Cons e es)
  show ?case
  proof (cases "oe_state_id e \<in> fst ` set s")
    case True
    then obtain x where "(oe_state_id e, x) \<in> set s" by auto
    then have "oe_state_id x = oe_state_id e" "x \<in> snd ` set s" using Cons.prems(1) by (auto simp: seen_ok_def intro: rev_image_eqI)
    then have "e \<in> snd ` set s" using Cons.prems assms(1) by (auto dest: inj_onD)
    with True Cons.IH [OF Cons.prems(1,2)] Cons.prems(3) show ?thesis by auto
  next
    case False
    have "snd ` set (AList.update (oe_state_id e) e s) = insert e (snd ` set s)"
      using Cons.prems assms(1) by (intro seen_update_members) auto
    with False Cons.IH [OF seen_ok_update [OF Cons.prems(1)], of e] Cons.prems show ?thesis by auto
  qed
qed simp

definition merged_seen :: "ordered_entry list \<Rightarrow> ordered_entry list \<Rightarrow> (string \<times> ordered_entry) list" where
  "merged_seen l r = fold (\<lambda>e s. if oe_state_id e \<notin> fst ` set s then AList.update (oe_state_id e) e s else s) r
     (fold (\<lambda>e s. AList.update (oe_state_id e) e s) l [])"

lemma merge_from_peers_eq: "merge_from_peers l r = total_order (map snd (merged_seen l r))"
  by (simp add: merge_from_peers_def merged_seen_def Let_def)

lemma merged_seen_facts:
  assumes "inj_on oe_state_id (set l \<union> set r)"
  shows "set (map snd (merged_seen l r)) = set l \<union> set r" "distinct (map snd (merged_seen l r))"
proof -
  have l: "seen_ok (fold (\<lambda>e s. AList.update (oe_state_id e) e s) l [])"
    "snd ` set (fold (\<lambda>e s. AList.update (oe_state_id e) e s) l []) = set l"
    using seen_local [OF assms, of l "[]"] by (auto simp: seen_ok_def)
  have r: "seen_ok (merged_seen l r)" "snd ` set (merged_seen l r) = set l \<union> set r"
    using seen_remote [OF assms, of r, OF _ l(1)] l(2) by (auto simp: merged_seen_def)
  from r(2) show "set (map snd (merged_seen l r)) = set l \<union> set r" by simp
  have "k = oe_state_id e" if "(k, e) \<in> set (merged_seen l r)" for k e
    using r(1) that unfolding seen_ok_def by blast
  then have "inj_on snd (set (merged_seen l r))" by (intro inj_onI) (metis prod.collapse)
  moreover have "distinct (merged_seen l r)" using r(1) by (simp add: seen_ok_def distinct_map)
  ultimately show "distinct (map snd (merged_seen l r))" by (simp add: distinct_map)
qed

text \<open>
  Merging with a peer commutes: two replicas whose entries agree on the state ids they
  share compute the same list whichever of them merges the other's, it holds every entry
  of both exactly once, and merging again changes nothing, provided wall clocks agree with
  causality.
\<close>

theorem merge_from_peers_commutes:
  assumes "inj_on oe_state_id (set l \<union> set r)" "clocks_agree (set l \<union> set r)"
  shows "merge_from_peers l r = merge_from_peers r l
    \<and> set (merge_from_peers l r) = set l \<union> set r \<and> distinct (map oe_state_id (merge_from_peers l r))
    \<and> merge_from_peers (merge_from_peers l r) r = merge_from_peers l r"
proof -
  have key: "inj_on tie_key (set l \<union> set r)" using assms(1) by (auto simp: inj_on_def tie_key_def)
  have same: "merge_from_peers x y = total_order (map snd (merged_seen l r))" if "set x \<union> set y = set l \<union> set r" for x y
  proof -
    note f = merged_seen_facts [OF assms(1)] and g = merged_seen_facts [of x y, unfolded that, OF assms(1)]
    have "mset (map snd (merged_seen x y)) = mset (map snd (merged_seen l r))"
      using f g set_eq_iff_mset_eq_distinct [OF g(2) f(2)] by simp
    then show ?thesis
      unfolding merge_from_peers_eq using assms(2) key f(1) by (intro total_order_deterministic_aux) simp_all
  qed
  have m: "merge_from_peers l r = sort_key tie_key (map snd (merged_seen l r))"
    using merged_seen_facts(1) [OF assms(1)] assms(2) by (simp add: merge_from_peers_eq total_order_key)
  have set: "set (merge_from_peers l r) = set l \<union> set r" using merged_seen_facts(1) [OF assms(1)] by (simp add: m)
  have "distinct (merge_from_peers l r)" using merged_seen_facts(2) [OF assms(1)] by (simp add: m)
  then have "distinct (map oe_state_id (merge_from_peers l r))" using assms(1) set by (simp add: distinct_map)
  moreover have "merge_from_peers r l = merge_from_peers l r" "merge_from_peers (merge_from_peers l r) r = merge_from_peers l r"
    using same [of r l] same [of "merge_from_peers l r" r] same [of l r] set by (auto simp: Un_commute)
  ultimately show ?thesis using set by simp
qed

subsection \<open>Where it is not\<close>

text \<open>
  Three entries as the module itself tags them: \<open>a1\<close> on node A; \<open>b1\<close> on node B after B has
  received A's clock, while B's wall clock runs behind; \<open>c1\<close> on node C, which has heard of
  neither, at a time between the two.
\<close>

definition skew_a :: ordered_entry where
  "skew_a = fst (tag_entry ''a1'' ''h'' 10 (new_orderer ''A''))"

definition skew_b :: ordered_entry where
  "skew_b = fst (tag_entry ''b1'' ''h'' 1 (snd (receive_clock (oe_vector_clock skew_a) (new_orderer ''B''))))"

definition skew_c :: ordered_entry where
  "skew_c = fst (tag_entry ''c1'' ''h'' 5 (new_orderer ''C''))"

lemmas skew_defs = skew_a_def skew_b_def skew_c_def tag_entry_def next_clock_def receive_clock_def new_orderer_def
  vc_zero_def vc_increment_def vc_merge_def all_keys_def dict_get_def

lemma skew_values [simp]:
  "skew_a = \<lparr>oe_state_id = ''a1'', oe_node_hash = ''h'', oe_timestamp = 10,
     oe_vector_clock = [(''A'', 1)], oe_origin_node_id = ''A''\<rparr>"
  "skew_b = \<lparr>oe_state_id = ''b1'', oe_node_hash = ''h'', oe_timestamp = 1,
     oe_vector_clock = [(''A'', 1), (''B'', 2)], oe_origin_node_id = ''B''\<rparr>"
  "skew_c = \<lparr>oe_state_id = ''c1'', oe_node_hash = ''h'', oe_timestamp = 5,
     oe_vector_clock = [(''C'', 1)], oe_origin_node_id = ''C''\<rparr>"
  by (simp_all add: skew_defs Let_def)

lemma skew_cycle:
  "entry_cmp skew_a skew_b = - 1" "entry_cmp skew_b skew_c = - 1" "entry_cmp skew_c skew_a = - 1"
  "entry_cmp skew_b skew_a = 1" "entry_cmp skew_c skew_b = 1" "entry_cmp skew_a skew_c = 1"
  by (simp_all add: entry_cmp_def happens_before_def all_keys_def dict_get_def tie_key_def less_prod_def' Let_def)

lemma skew_distinct: "skew_a \<noteq> skew_b" "skew_a \<noteq> skew_c" "skew_b \<noteq> skew_c"
  by simp_all

lemma skew_agree: "clocks_agree {skew_a, skew_c}" "inj_on tie_key {skew_a, skew_c}" "inj_on oe_state_id {skew_a, skew_c}"
  by (simp_all add: clocks_agree_def happens_before_def all_keys_def dict_get_def tie_key_def Let_def)

declare skew_values [simp del]

text \<open>
  The comparison is not an order when a wall clock runs behind: on three entries the
  module tags itself it is cyclic, so no arrangement of them satisfies both ordering rules
  and what a sort returns depends on the order of its input.
\<close>

theorem no_consistent_order:
  "entry_cmp skew_a skew_b < 0 \<and> entry_cmp skew_b skew_c < 0 \<and> entry_cmp skew_c skew_a < 0
   \<and> (\<nexists>es. mset es = {#skew_a, skew_b, skew_c#} \<and> sorted_wrt (\<lambda>x y. entry_cmp x y \<le> 0) es)
   \<and> total_order [skew_a, skew_b, skew_c] \<noteq> total_order [skew_b, skew_c, skew_a]"
proof (intro conjI notI)
  show "entry_cmp skew_a skew_b < 0" "entry_cmp skew_b skew_c < 0" "entry_cmp skew_c skew_a < 0"
    using skew_cycle by simp_all
  show False if "\<exists>es. mset es = {#skew_a, skew_b, skew_c#} \<and> sorted_wrt (\<lambda>x y. entry_cmp x y \<le> 0) es"
  proof -
    from that obtain es where es: "mset es = {#skew_a, skew_b, skew_c#}" "sorted_wrt (\<lambda>x y. entry_cmp x y \<le> 0) es" by blast
    have "length es = 3" using arg_cong [OF es(1), of size] by simp
    then obtain x y z where xyz: "es = [x, y, z]" by (auto simp: length_Suc_conv numeral_3_eq_3)
    have "set es = {skew_a, skew_b, skew_c}" using arg_cong [OF es(1), of set_mset] by simp
    then have "{x, y, z} = {skew_a, skew_b, skew_c}" by (simp add: xyz)
    then have "x = skew_a \<or> x = skew_b \<or> x = skew_c" "y = skew_a \<or> y = skew_b \<or> y = skew_c" "z = skew_a \<or> z = skew_b \<or> z = skew_c"
      "skew_a = x \<or> skew_a = y \<or> skew_a = z" "skew_b = x \<or> skew_b = y \<or> skew_b = z" "skew_c = x \<or> skew_c = y \<or> skew_c = z"
      by blast+
    moreover have "entry_cmp x y \<le> 0" "entry_cmp x z \<le> 0" "entry_cmp y z \<le> 0" using es(2) by (simp_all add: xyz)
    ultimately show False using skew_distinct skew_cycle(4-6) by auto
  qed
  show False if "total_order [skew_a, skew_b, skew_c] = total_order [skew_b, skew_c, skew_a]"
    using that skew_distinct skew_cycle by (simp add: total_order_def py_sorted_def)
qed

theorem total_order_deterministic_witness:
  "clocks_agree {skew_a, skew_c} \<and> inj_on tie_key {skew_a, skew_c}
   \<and> total_order [skew_a, skew_c] = total_order [skew_c, skew_a] \<and> total_order [skew_c, skew_a] = [skew_c, skew_a]"
  using total_order_deterministic [of "[skew_c, skew_a]" "[skew_a, skew_c]"] skew_agree skew_cycle
  by (simp add: insert_commute total_order_def py_sorted_def add_mset_commute)

theorem merge_from_peers_commutes_witness:
  "inj_on oe_state_id {skew_a, skew_c} \<and> clocks_agree {skew_a, skew_c}
   \<and> merge_from_peers [skew_a] [skew_c, skew_a] = merge_from_peers [skew_c, skew_a] [skew_a]"
  using merge_from_peers_commutes [of "[skew_a]" "[skew_c, skew_a]"] skew_agree by (simp add: insert_commute)

end
