(* ===== verification/Witness_Cosign.thy ===== *)
theory Witness_Cosign
  imports Json_Text
begin

section \<open>Witness co-signatures\<close>

text \<open>
  The model of \<^verbatim>\<open>aegis/core/witness_cosign.py\<close>, the threshold gate in front of an evidence
  export. Times are seconds as rationals; the text form of a time is the argument \<open>isoformat\<close>
  (\<open>datetime.isoformat\<close>) and its reading the argument \<open>fromiso\<close> (\<open>datetime.fromisoformat\<close>),
  which may fail and may return a time without a zone. Each reading of the wall clock
  during a check stands beside the signature checked with it. The text of a package mismatch
  and of a missed threshold leaves out the values the program prints. A co-signing error and the exceptions of the language
  are the two kinds of failure.
\<close>

datatype cosign_exn = WitnessCoSignError string | PyError exn

datatype iso_time = Aware rat | Naive rat

definition DEFAULT_VALIDITY_SECONDS :: int where
  "DEFAULT_VALIDITY_SECONDS = 3600"

definition MIN_VALIDITY_SECONDS :: int where
  "MIN_VALIDITY_SECONDS = 60"

definition derive_witness_key :: "string \<Rightarrow> string \<Rightarrow> bytes" where
  "derive_witness_key master_key witness_id = hmac_sha256 (encode master_key) (encode witness_id)"

definition witness_hmac_sign :: "bytes \<Rightarrow> bytes \<Rightarrow> string" where
  "witness_hmac_sign key data = hex (hmac_sha256 key data)"

text \<open>\<open>hmac.compare_digest\<close> of two strings raises unless both are ASCII.\<close>

definition witness_hmac_verify :: "bytes \<Rightarrow> bytes \<Rightarrow> string \<Rightarrow> bool res" where
  "witness_hmac_verify key data expected_hex =
     (if list_all (\<lambda>c. (of_char c :: nat) < 128) expected_hex
      then Inr (witness_hmac_sign key data = expected_hex)
      else Inl (TypeError ''comparing strings with non-ASCII characters is not supported''))"

record witness_signature =
  ws_sig_id :: string
  ws_witness_id :: string
  ws_package_id :: string
  ws_issued_at :: string
  ws_expires_at :: string
  ws_signature :: string

definition signature_to_dict :: "witness_signature \<Rightarrow> (string \<times> string) list" where
  "signature_to_dict s =
     [(''sig_id'', ws_sig_id s), (''witness_id'', ws_witness_id s), (''package_id'', ws_package_id s),
      (''issued_at'', ws_issued_at s), (''expires_at'', ws_expires_at s), (''signature'', ws_signature s)]"

record cosign_verify_result =
  cv_valid :: bool
  cv_reason :: string
  cv_sig_id :: string
  cv_witness_id :: string

record cosign_gate_result =
  cr_threshold_met :: bool
  cr_valid_count :: int
  cr_required :: int
  cr_valid_witnesses :: "string list"
  cr_rejected :: "(string \<times> string \<times> string) list"

definition canonical_fields :: "string \<Rightarrow> string \<Rightarrow> string \<Rightarrow> string \<Rightarrow> string \<Rightarrow> (string \<times> jfield) list" where
  "canonical_fields sig_id witness_id package_id issued_at expires_at =
     [(''expires_at'', JStr expires_at), (''issued_at'', JStr issued_at), (''package_id'', JStr package_id),
      (''sig_id'', JStr sig_id), (''witness_id'', JStr witness_id)]"

definition canonical_body :: "string \<Rightarrow> string \<Rightarrow> string \<Rightarrow> string \<Rightarrow> string \<Rightarrow> bytes" where
  "canonical_body sig_id witness_id package_id issued_at expires_at =
     encode (json_object (canonical_fields sig_id witness_id package_id issued_at expires_at))"

subsection \<open>The gate\<close>

record cosign_gate =
  cg_required :: int
  cg_total :: int
  cg_signing_key :: string
  cg_validity_seconds :: int

text \<open>\<open>int(raw)\<close> of a string: surrounding space, a sign, and digits with single underscores between.\<close>

fun int_digits :: "string \<Rightarrow> bool" where
  "int_digits [] = False"
| "int_digits [c] = (c \<in> set digits)"
| "int_digits (c # d # cs) = (c \<in> set digits \<and> (if d = CHR ''_'' then int_digits cs else int_digits (d # cs)))"

definition int_of_text :: "string \<Rightarrow> int option" where
  "int_of_text raw =
     (let t = strip raw;
          negative = (take 1 t = ''-'');
          u = (if take 1 t = ''-'' \<or> take 1 t = ''+'' then drop 1 t else t)
      in if int_digits u
         then Some ((if negative then - 1 else 1) * int (parse_nat (filter (\<lambda>c. c \<noteq> CHR ''_'') u)))
         else None)"

definition new_gate ::
    "int \<Rightarrow> int \<Rightarrow> string option \<Rightarrow> int option \<Rightarrow> (string \<Rightarrow> string option) \<Rightarrow> cosign_gate res" where
  "new_gate required total_witnesses signing_key validity_seconds environ =
     (if required < 1 then Inl (ValueError ''required must be >= 1'')
      else if total_witnesses < required then Inl (ValueError ''total must be >= required'')
      else
        let key = (case signing_key of
                     Some k \<Rightarrow> k
                   | None \<Rightarrow> (case environ ''AEGIS_SIGNING_KEY'' of None \<Rightarrow> [] | Some k \<Rightarrow> k));
            validity = (case validity_seconds of
                          Some v \<Rightarrow> max MIN_VALIDITY_SECONDS v
                        | None \<Rightarrow>
                            (case int_of_text (case environ ''AEGIS_WITNESS_VALIDITY'' of
                                                 None \<Rightarrow> str_int DEFAULT_VALIDITY_SECONDS | Some raw \<Rightarrow> raw) of
                               Some v \<Rightarrow> max MIN_VALIDITY_SECONDS v
                             | None \<Rightarrow> DEFAULT_VALIDITY_SECONDS))
        in Inr \<lparr>cg_required = required, cg_total = total_witnesses, cg_signing_key = key, cg_validity_seconds = validity\<rparr>)"

definition sign ::
    "cosign_gate \<Rightarrow> (rat \<Rightarrow> string) \<Rightarrow> rat \<Rightarrow> string \<Rightarrow> string \<Rightarrow> string \<Rightarrow> cosign_exn + witness_signature" where
  "sign g isoformat now_time sig_id witness_id package_id =
     (if cg_signing_key g = [] then Inl (WitnessCoSignError ''Cannot sign: AEGIS_SIGNING_KEY not configured.'')
      else
        let issued_at = isoformat now_time;
            expires_at = isoformat (now_time + of_int (cg_validity_seconds g));
            body = canonical_body sig_id witness_id package_id issued_at expires_at;
            key = derive_witness_key (cg_signing_key g) witness_id
        in Inr \<lparr>ws_sig_id = sig_id, ws_witness_id = witness_id, ws_package_id = package_id,
                ws_issued_at = issued_at, ws_expires_at = expires_at, ws_signature = witness_hmac_sign key body\<rparr>)"

definition verify_answer :: "bool \<Rightarrow> string \<Rightarrow> witness_signature \<Rightarrow> cosign_exn + cosign_verify_result" where
  "verify_answer valid reason s =
     Inr \<lparr>cv_valid = valid, cv_reason = reason, cv_sig_id = ws_sig_id s, cv_witness_id = ws_witness_id s\<rparr>"

definition verify_signature ::
    "cosign_gate \<Rightarrow> (string \<Rightarrow> iso_time option) \<Rightarrow> rat \<Rightarrow> witness_signature \<Rightarrow> cosign_exn + cosign_verify_result" where
  "verify_signature g fromiso now_time s =
     (case fromiso (ws_expires_at s) of
        None \<Rightarrow> verify_answer False ''Malformed expires_at timestamp'' s
      | Some (Naive _) \<Rightarrow> Inl (PyError (TypeError ''can't compare offset-naive and offset-aware datetimes''))
      | Some (Aware expires) \<Rightarrow>
          if now_time > expires then verify_answer False (''Signature expired at '' @ ws_expires_at s) s
          else if cg_signing_key g = [] then verify_answer False ''No signing key configured; cannot verify'' s
          else
            let body = canonical_body (ws_sig_id s) (ws_witness_id s) (ws_package_id s) (ws_issued_at s) (ws_expires_at s);
                key = derive_witness_key (cg_signing_key g) (ws_witness_id s)
            in case witness_hmac_verify key body (ws_signature s) of
                 Inl e \<Rightarrow> Inl (PyError e)
               | Inr False \<Rightarrow> verify_answer False ''Signature verification failed'' s
               | Inr True \<Rightarrow> verify_answer True [] s)"

fun threshold_loop ::
    "cosign_gate \<Rightarrow> (string \<Rightarrow> iso_time option) \<Rightarrow> string \<Rightarrow> (rat \<times> witness_signature) list
     \<Rightarrow> string list \<Rightarrow> (string \<times> string \<times> string) list
     \<Rightarrow> cosign_exn + string list \<times> (string \<times> string \<times> string) list" where
  "threshold_loop g fromiso package_id [] valid rejected = Inr (valid, rejected)"
| "threshold_loop g fromiso package_id ((t, s) # rest) valid rejected =
     (if ws_package_id s \<noteq> package_id then
        threshold_loop g fromiso package_id rest valid (rejected @ [(ws_sig_id s, ws_witness_id s, ''package_id mismatch'')])
      else if ws_witness_id s \<in> set valid then
        threshold_loop g fromiso package_id rest valid
          (rejected @ [(ws_sig_id s, ws_witness_id s, ''Duplicate signature from same witness'')])
      else
        bind_res (verify_signature g fromiso t s) (\<lambda>r.
          if cv_valid r then threshold_loop g fromiso package_id rest (valid @ [ws_witness_id s]) rejected
          else threshold_loop g fromiso package_id rest valid (rejected @ [(ws_sig_id s, ws_witness_id s, cv_reason r)])))"

definition check_threshold ::
    "cosign_gate \<Rightarrow> (string \<Rightarrow> iso_time option) \<Rightarrow> string \<Rightarrow> (rat \<times> witness_signature) list \<Rightarrow> cosign_exn + cosign_gate_result" where
  "check_threshold g fromiso package_id sigs =
     bind_res (threshold_loop g fromiso package_id sigs [] []) (\<lambda>(valid, rejected).
       Inr \<lparr>cr_threshold_met = (int (length valid) \<ge> cg_required g), cr_valid_count = int (length valid),
            cr_required = cg_required g, cr_valid_witnesses = valid, cr_rejected = rejected\<rparr>)"

definition gate_export ::
    "cosign_gate \<Rightarrow> (string \<Rightarrow> iso_time option) \<Rightarrow> string \<Rightarrow> (rat \<times> witness_signature) list \<Rightarrow> cosign_exn + unit" where
  "gate_export g fromiso package_id sigs =
     bind_res (check_threshold g fromiso package_id sigs) (\<lambda>r.
       if \<not> cr_threshold_met r then Inl (WitnessCoSignError ''Co-signing threshold not met for package'')
       else Inr ())"

subsection \<open>What a keyed hash commits to\<close>

definition hmac_inner :: "bytes \<Rightarrow> bytes \<Rightarrow> bytes" where
  "hmac_inner key msg = map2 (XOR) (hmac_key_block key) ipad @ msg"

definition hmac_outer :: "bytes \<Rightarrow> bytes \<Rightarrow> bytes" where
  "hmac_outer key msg = map2 (XOR) (hmac_key_block key) opad @ sha256 (hmac_inner key msg)"

definition hmac_inputs :: "bytes \<Rightarrow> bytes \<Rightarrow> bytes set" where
  "hmac_inputs key msg = {hmac_inner key msg, hmac_outer key msg}"

lemma hmac_sha256_outer: "hmac_sha256 key msg = sha256 (hmac_outer key msg)"
  by (simp add: hmac_sha256_def hmac_outer_def hmac_inner_def Let_def)

lemma length_pads [simp]: "length ipad = 64" "length opad = 64"
  by (simp_all add: ipad_def opad_def)

lemma map2_xor_inj:
  "length xs = length zs \<Longrightarrow> length ys = length zs \<Longrightarrow> map2 (XOR) xs zs = map2 (XOR) ys (zs :: byte list) \<Longrightarrow> xs = ys"
proof (induction zs arbitrary: xs ys)
  case (Cons z zs)
  obtain x xs' y ys' where e: "xs = x # xs'" "ys = y # ys'" using Cons.prems(1,2) by (metis Suc_length_conv length_Cons)
  have "x XOR z = y XOR z" "xs' = ys'" using Cons e by auto
  moreover have "w = (w XOR z) XOR z" for w by (simp add: xor.assoc)
  ultimately show ?case using e by metis
qed simp

lemma hmac_binds:
  assumes "hmac_sha256 k m = hmac_sha256 k' m'"
  shows "hmac_key_block k = hmac_key_block k' \<and> m = m' \<or> collision_between (hmac_inputs k m) (hmac_inputs k' m')"
proof (cases "hmac_outer k m = hmac_outer k' m'")
  case True
  then have b: "map2 (XOR) (hmac_key_block k) opad = map2 (XOR) (hmac_key_block k') opad"
    and i: "sha256 (hmac_inner k m) = sha256 (hmac_inner k' m')" by (simp_all add: hmac_outer_def)
  have "hmac_key_block k = hmac_key_block k'" by (rule map2_xor_inj [OF _ _ b]) simp_all
  moreover have "m = m' \<or> collision_between (hmac_inputs k m) (hmac_inputs k' m')"
  proof (cases "hmac_inner k m = hmac_inner k' m'")
    case True
    then show ?thesis by (simp add: hmac_inner_def)
  next
    case False
    with i show ?thesis
      by (intro disjI2 collision_betweenI [of "hmac_inner k m" _ "hmac_inner k' m'"]) (simp_all add: hmac_inputs_def)
  qed
  ultimately show ?thesis by blast
next
  case False
  with assms show ?thesis
    by (intro disjI2 collision_betweenI [of "hmac_outer k m" _ "hmac_outer k' m'"])
      (simp_all add: hmac_sha256_outer hmac_inputs_def)
qed

lemma hmac_key_block_32: "length k = 32 \<Longrightarrow> length k' = 32 \<Longrightarrow> hmac_key_block k = hmac_key_block k' \<Longrightarrow> k = k'"
  by (simp add: hmac_key_block_def Let_def)

subsection \<open>The threshold\<close>

definition accepted :: "cosign_gate \<Rightarrow> (string \<Rightarrow> iso_time option) \<Rightarrow> string \<Rightarrow> rat \<times> witness_signature \<Rightarrow> bool" where
  "accepted g fromiso package_id ts =
     (ws_package_id (snd ts) = package_id
      \<and> (case verify_signature g fromiso (fst ts) (snd ts) of Inl _ \<Rightarrow> False | Inr r \<Rightarrow> cv_valid r))"

text \<open>
  What a check should say of the signature at a position: whether an accepted signature of
  the same witness stands before it, whether it is one the gate verifies, whether it counts,
  and the report it gets when it does not.
\<close>

definition repeats :: "cosign_gate \<Rightarrow> (string \<Rightarrow> iso_time option) \<Rightarrow> string \<Rightarrow> (rat \<times> witness_signature) list \<Rightarrow> nat \<Rightarrow> bool" where
  "repeats g fromiso package_id sigs i \<longleftrightarrow>
     (\<exists>ts \<in> set (take i sigs). accepted g fromiso package_id ts \<and> ws_witness_id (snd ts) = ws_witness_id (snd (sigs ! i)))"

definition verified_at :: "cosign_gate \<Rightarrow> (string \<Rightarrow> iso_time option) \<Rightarrow> string \<Rightarrow> (rat \<times> witness_signature) list \<Rightarrow> nat \<Rightarrow> bool" where
  "verified_at g fromiso package_id sigs i \<longleftrightarrow>
     ws_package_id (snd (sigs ! i)) = package_id \<and> \<not> repeats g fromiso package_id sigs i"

definition counts :: "cosign_gate \<Rightarrow> (string \<Rightarrow> iso_time option) \<Rightarrow> string \<Rightarrow> (rat \<times> witness_signature) list \<Rightarrow> nat \<Rightarrow> bool" where
  "counts g fromiso package_id sigs i \<longleftrightarrow>
     accepted g fromiso package_id (sigs ! i) \<and> \<not> repeats g fromiso package_id sigs i"

definition report :: "cosign_gate \<Rightarrow> (string \<Rightarrow> iso_time option) \<Rightarrow> string \<Rightarrow> (rat \<times> witness_signature) list \<Rightarrow> nat
    \<Rightarrow> string \<times> string \<times> string" where
  "report g fromiso package_id sigs i =
     (let s = snd (sigs ! i) in
      (ws_sig_id s, ws_witness_id s,
       if ws_package_id s \<noteq> package_id then ''package_id mismatch''
       else if repeats g fromiso package_id sigs i then ''Duplicate signature from same witness''
       else case verify_signature g fromiso (fst (sigs ! i)) s of Inl _ \<Rightarrow> [] | Inr r \<Rightarrow> cv_reason r))"

abbreviation witness_at :: "(rat \<times> witness_signature) list \<Rightarrow> nat \<Rightarrow> string" where
  "witness_at sigs i \<equiv> ws_witness_id (snd (sigs ! i))"

text \<open>The loop, after a prefix of the signatures, holds the counted witnesses and the reports of that prefix.\<close>

lemma threshold_loop_result:
  assumes "sigs = pre @ rest"
    and "\<And>i. i < length sigs \<Longrightarrow> verified_at g fromiso package_id sigs i
           \<Longrightarrow> is_ok (verify_signature g fromiso (fst (sigs ! i)) (snd (sigs ! i)))"
    and "set valid = ws_witness_id ` snd ` {ts \<in> set pre. accepted g fromiso package_id ts}"
  shows "threshold_loop g fromiso package_id rest valid rejected =
     Inr (valid @ map (witness_at sigs) (filter (counts g fromiso package_id sigs) [length pre..<length sigs]),
          rejected @ map (report g fromiso package_id sigs)
            (filter (\<lambda>i. \<not> counts g fromiso package_id sigs i) [length pre..<length sigs]))"
  using assms(1,3)
proof (induction rest arbitrary: pre valid rejected)
  case (Cons ts rest)
  obtain t s where ts: "ts = (t, s)" by (cases ts)
  let ?i = "length pre"
  let ?P = "accepted g fromiso package_id"
  have at: "sigs ! ?i = (t, s)" "take ?i sigs = pre" using Cons.prems(1) ts by simp_all
  have range: "[?i..<length sigs] = ?i # [Suc ?i..<length sigs]" by (rule upt_conv_Cons) (simp add: Cons.prems(1))
  have dup: "ws_witness_id s \<in> set valid \<longleftrightarrow> repeats g fromiso package_id sigs ?i"
    unfolding repeats_def at Cons.prems(2) by (auto simp: image_iff) (metis snd_conv)
  have "sigs = (pre @ [ts]) @ rest" using Cons.prems(1) by simp
  note IH = Cons.IH [OF this]
  have grow: "{x \<in> set (pre @ [ts]). ?P x} = (if ?P (t, s) then insert (t, s) else id) {x \<in> set pre. ?P x}" using ts by auto
  have acc: "set valid = ws_witness_id ` snd ` {x \<in> set (pre @ [ts]). ?P x}" if "\<not> ?P (t, s) \<or> ws_witness_id s \<in> set valid"
    using that unfolding grow by (simp add: Cons.prems(2) insert_absorb)
  consider (skip) "ws_package_id s \<noteq> package_id \<or> ws_witness_id s \<in> set valid"
    | (check) "ws_package_id s = package_id" "ws_witness_id s \<notin> set valid" by blast
  then show ?case
  proof cases
    case skip
    then have out: "\<not> counts g fromiso package_id sigs ?i" using dup at by (auto simp: counts_def accepted_def)
    from skip have "threshold_loop g fromiso package_id (ts # rest) valid rejected
        = threshold_loop g fromiso package_id rest valid (rejected @ [report g fromiso package_id sigs ?i])"
      using dup at ts by (auto simp: report_def Let_def)
    moreover have "\<not> ?P (t, s) \<or> ws_witness_id s \<in> set valid" using skip by (auto simp: accepted_def)
    ultimately show ?thesis using IH [OF acc] out by (simp add: range)
  next
    case check
    then have "verified_at g fromiso package_id sigs ?i" using dup at by (simp add: verified_at_def)
    then obtain r where r: "verify_signature g fromiso t s = Inr r"
      using assms(2) [of ?i] at Cons.prems(1) by (cases "verify_signature g fromiso t s") auto
    show ?thesis
    proof (cases "cv_valid r")
      case True
      then have "?P (t, s)" using check r by (simp add: accepted_def)
      then have "counts g fromiso package_id sigs ?i"
        and "set (valid @ [ws_witness_id s]) = ws_witness_id ` snd ` {x \<in> set (pre @ [ts]). ?P x}"
        using check dup at Cons.prems(2) unfolding grow by (simp_all add: counts_def)
      then show ?thesis using IH [of "valid @ [ws_witness_id s]" rejected] True check r ts at by (simp add: range)
    next
      case False
      then have no: "\<not> ?P (t, s)" using r by (simp add: accepted_def)
      then have "\<not> counts g fromiso package_id sigs ?i" using at by (simp add: counts_def)
      moreover have "report g fromiso package_id sigs ?i = (ws_sig_id s, ws_witness_id s, cv_reason r)"
        using check dup at r by (simp add: report_def Let_def)
      ultimately show ?thesis using IH [OF acc] no False check r ts by (simp add: range)
    qed
  qed
qed simp

lemma counted_witnesses:
  "distinct (map (witness_at sigs) (filter (counts g fromiso package_id sigs) [0..<length sigs]))"
  "witness_at sigs ` {i. i < length sigs \<and> counts g fromiso package_id sigs i}
     = ws_witness_id ` snd ` {ts \<in> set sigs. accepted g fromiso package_id ts}" (is "?A = ?B")
proof -
  have later: "witness_at sigs i \<noteq> witness_at sigs j"
    if "i < j" "j < length sigs" "counts g fromiso package_id sigs i" "counts g fromiso package_id sigs j" for i j
  proof -
    have "sigs ! i \<in> set (take j sigs)" using that by (metis in_set_conv_nth length_take min.absorb4 nth_take)
    then show ?thesis using that unfolding counts_def repeats_def by metis
  qed
  then have "inj_on (witness_at sigs) (set (filter (counts g fromiso package_id sigs) [0..<length sigs]))"
    by (intro inj_onI) (metis (no_types, lifting) atLeastLessThan_iff linorder_neqE_nat mem_Collect_eq set_filter set_upt)
  then show "distinct (map (witness_at sigs) (filter (counts g fromiso package_id sigs) [0..<length sigs]))"
    by (simp add: distinct_map)
  have first: "witness_at sigs i \<in> ?A" if "i < length sigs" "accepted g fromiso package_id (sigs ! i)" for i
    using that
  proof (induction i rule: less_induct)
    case (less i)
    show ?case
    proof (cases "counts g fromiso package_id sigs i")
      case False
      then obtain j where "j < i" "accepted g fromiso package_id (sigs ! j)" "witness_at sigs j = witness_at sigs i"
        using less.prems by (auto simp: counts_def repeats_def in_set_conv_nth)
      then show ?thesis using less.IH [of j] less.prems by auto
    qed (use less.prems in blast)
  qed
  show "?A = ?B"
  proof
    show "?A \<subseteq> ?B" by (auto simp: counts_def)
    show "?B \<subseteq> ?A"
    proof clarify
      fix t s assume "(t, s) \<in> set sigs" "accepted g fromiso package_id (t, s)"
      then obtain i where "i < length sigs" "sigs ! i = (t, s)" "accepted g fromiso package_id (sigs ! i)"
        by (metis in_set_conv_nth)
      with first [of i] show "ws_witness_id (snd (t, s)) \<in> ?A" by simp
    qed
  qed
qed

text \<open>
  C34. The gate opens exactly on enough witnesses. Take a check in which no verification
  raises, of the signatures that are verified at all: those that name the package and have no
  accepted signature of their witness before them. The witnesses it counts are, in order, those
  of the signatures that verify at the time they are checked and are the first of their witness
  to do so; each id appears once, and they are precisely the ids for which some presented
  signature names the package and verifies. Every other signature is reported as rejected, in
  order, with its id, its witness and the reason: another package, a duplicate, or the
  verifier's own. The export is authorised if and only if there are at least the required
  number of counted witnesses.
\<close>

theorem gate_opens_on_threshold:
  assumes "\<And>i. i < length sigs \<Longrightarrow> verified_at g fromiso package_id sigs i
           \<Longrightarrow> is_ok (verify_signature g fromiso (fst (sigs ! i)) (snd (sigs ! i)))"
    and "W = ws_witness_id ` snd ` {ts \<in> set sigs. accepted g fromiso package_id ts}"
  shows "\<exists>r. check_threshold g fromiso package_id sigs = Inr r
    \<and> cr_valid_witnesses r = map (witness_at sigs) (filter (counts g fromiso package_id sigs) [0..<length sigs])
    \<and> cr_rejected r = map (report g fromiso package_id sigs) (filter (\<lambda>i. \<not> counts g fromiso package_id sigs i) [0..<length sigs])
    \<and> distinct (cr_valid_witnesses r) \<and> set (cr_valid_witnesses r) = W
    \<and> cr_valid_count r = int (card W) \<and> (cr_threshold_met r \<longleftrightarrow> int (card W) \<ge> cg_required g)
    \<and> (gate_export g fromiso package_id sigs = Inr () \<longleftrightarrow> int (card W) \<ge> cg_required g)"
proof -
  let ?v = "map (witness_at sigs) (filter (counts g fromiso package_id sigs) [0..<length sigs])"
  let ?r = "map (report g fromiso package_id sigs) (filter (\<lambda>i. \<not> counts g fromiso package_id sigs i) [0..<length sigs])"
  have loop: "threshold_loop g fromiso package_id sigs [] [] = Inr (?v, ?r)"
    using threshold_loop_result [of sigs "[]" sigs g fromiso package_id "[]" "[]", OF _ assms(1)] by simp
  have set_v: "set ?v = W"
    using counted_witnesses(2) [of sigs g fromiso package_id] by (simp add: assms(2) conj_commute)
  then have "card W = length ?v" using distinct_card [OF counted_witnesses(1)] by metis
  with loop set_v counted_witnesses(1) show ?thesis by (simp add: check_threshold_def gate_export_def)
qed

text \<open>
  A co-signature is good for its window and nothing else: what \<open>sign\<close> issues verifies at
  every time up to its expiry and at no later time, given that the time format reads back
  the times it prints.
\<close>

theorem issued_signature_verifies:
  assumes "sign g isoformat issued sig_id witness_id package_id = Inr s"
    and "fromiso (isoformat (issued + of_int (cg_validity_seconds g))) = Some (Aware (issued + of_int (cg_validity_seconds g)))"
  shows "\<exists>r. verify_signature g fromiso t s = Inr r
    \<and> (cv_valid r \<longleftrightarrow> t \<le> issued + of_int (cg_validity_seconds g))"
  using assms
  by (auto simp: sign_def verify_signature_def verify_answer_def witness_hmac_verify_def witness_hmac_sign_def hex_ascii Let_def
      split: if_splits)

definition signed_body :: "witness_signature \<Rightarrow> bytes" where
  "signed_body s = canonical_body (ws_sig_id s) (ws_witness_id s) (ws_package_id s) (ws_issued_at s) (ws_expires_at s)"

definition signature_inputs :: "cosign_gate \<Rightarrow> witness_signature \<Rightarrow> bytes set" where
  "signature_inputs g s = hmac_inputs (encode (cg_signing_key g)) (encode (ws_witness_id s))
     \<union> hmac_inputs (derive_witness_key (cg_signing_key g) (ws_witness_id s)) (signed_body s)"

lemma canonical_body_inj:
  "canonical_body a b c d e = canonical_body a' b' c' d' e' \<Longrightarrow> a = a' \<and> b = b' \<and> c = c' \<and> d = d' \<and> e = e'"
  using json_object_inj [of "canonical_fields a b c d e" "canonical_fields a' b' c' d' e'"]
  by (simp add: canonical_body_def canonical_fields_def same_shape_def)

lemma valid_signature_value:
  "verify_signature g fromiso t s = Inr r \<Longrightarrow> cv_valid r \<Longrightarrow>
   ws_signature s = hex (hmac_sha256 (derive_witness_key (cg_signing_key g) (ws_witness_id s)) (signed_body s))"
  by (auto simp: verify_signature_def verify_answer_def witness_hmac_verify_def witness_hmac_sign_def signed_body_def Let_def
      split: option.splits iso_time.splits if_splits sum.splits bool.splits)

text \<open>
  Co-signatures are not interchangeable: two accepted signatures with the same
  signature value agree on every field, the witness and the package among them, or two
  byte strings hashed for them collide under SHA-256.
\<close>

theorem signatures_not_interchangeable:
  assumes "verify_signature g fromiso t s = Inr r" "cv_valid r" "verify_signature g fromiso t' s' = Inr r'" "cv_valid r'"
    and "ws_signature s = ws_signature s'"
  shows "s = s' \<or> collision_between (signature_inputs g s) (signature_inputs g s')"
proof -
  have "hmac_sha256 (derive_witness_key (cg_signing_key g) (ws_witness_id s)) (signed_body s)
      = hmac_sha256 (derive_witness_key (cg_signing_key g) (ws_witness_id s')) (signed_body s')"
    using assms valid_signature_value [OF assms(1,2)] valid_signature_value [OF assms(3,4)] by simp
  from hmac_binds [OF this] show ?thesis
  proof
    assume "hmac_key_block (derive_witness_key (cg_signing_key g) (ws_witness_id s))
        = hmac_key_block (derive_witness_key (cg_signing_key g) (ws_witness_id s')) \<and> signed_body s = signed_body s'"
    then have "signed_body s = signed_body s'" by blast
    then have "s = s'" using assms(5) by (cases s, cases s') (auto simp: signed_body_def dest: canonical_body_inj)
    then show ?thesis ..
  next
    assume "collision_between (hmac_inputs (derive_witness_key (cg_signing_key g) (ws_witness_id s)) (signed_body s))
      (hmac_inputs (derive_witness_key (cg_signing_key g) (ws_witness_id s')) (signed_body s'))"
    then show ?thesis by (intro disjI2) (erule collision_between_mono, auto simp: signature_inputs_def)
  qed
qed

subsection \<open>Limits of the gate\<close>

text \<open>
  One signature can block every export: a co-signature for the package whose expiry
  reads as a time without a zone makes the check raise \<open>TypeError\<close> instead of listing it
  as rejected, whatever valid signatures follow it.
\<close>

theorem naive_expiry_raises:
  assumes "fromiso (ws_expires_at s) = Some (Naive e)" "ws_package_id s = package_id"
  shows "\<exists>msg. check_threshold g fromiso package_id ((t, s) # sigs) = Inl (PyError (TypeError msg))
    \<and> gate_export g fromiso package_id ((t, s) # sigs) = Inl (PyError (TypeError msg))"
  using assms by (simp add: check_threshold_def gate_export_def verify_signature_def)

text \<open>The number of designated witnesses plays no part in a check, and no list of them exists.\<close>

lemma total_not_consulted:
  "check_threshold (g\<lparr>cg_total := n\<rparr>) fromiso package_id sigs = check_threshold g fromiso package_id sigs"
proof -
  have "verify_signature (g\<lparr>cg_total := n\<rparr>) = verify_signature g" 
    unfolding fun_eq_iff verify_signature_def by (auto split: option.splits iso_time.splits)
  then have "threshold_loop (g\<lparr>cg_total := n\<rparr>) fromiso package_id sigs valid rejected
      = threshold_loop g fromiso package_id sigs valid rejected" for valid rejected
    by (induction sigs arbitrary: valid rejected) (auto cong: if_cong)
  then show ?thesis by (simp add: check_threshold_def)
qed

subsection \<open>Instances\<close>

text \<open>A gate and a time format for the instances: seconds in decimal, always with a zone.\<close>

definition demo_gate :: cosign_gate where
  "demo_gate = \<lparr>cg_required = 1, cg_total = 3, cg_signing_key = ''k'', cg_validity_seconds = 3600\<rparr>"

definition demo_iso :: "rat \<Rightarrow> string" where
  "demo_iso t = str_int \<lfloor>t\<rfloor>"

definition demo_fromiso :: "string \<Rightarrow> iso_time option" where
  "demo_fromiso s = (if s = [] then Some (Naive 0) else if list_all (\<lambda>c. c \<in> set digits) s then Some (Aware (of_nat (parse_nat s))) else None)"

definition demo_signature :: witness_signature where
  "demo_signature =
     \<lparr>ws_sig_id = ''s1'', ws_witness_id = ''alice'', ws_package_id = ''pkg'', ws_issued_at = demo_iso 100,
      ws_expires_at = demo_iso 3700,
      ws_signature = witness_hmac_sign (derive_witness_key ''k'' ''alice'')
        (canonical_body ''s1'' ''alice'' ''pkg'' (demo_iso 100) (demo_iso 3700))\<rparr>"

lemma demo_issued: "sign demo_gate demo_iso 100 ''s1'' ''alice'' ''pkg'' = Inr demo_signature"
  by (simp add: sign_def demo_gate_def demo_signature_def Let_def)

lemma demo_reads: "demo_fromiso (demo_iso 3700) = Some (Aware 3700)"
proof -
  have d: "list_all (\<lambda>c. c \<in> set digits) (str_nat 3700)" using str_nat_digits by (auto simp: list_all_iff)
  have "str_nat 3700 \<noteq> []" by (subst str_nat.simps) simp
  moreover have "demo_iso 3700 = str_nat 3700" by (simp add: demo_iso_def str_int_def)
  ultimately show ?thesis using d by (simp add: demo_fromiso_def parse_str_nat)
qed

lemma demo_valid:
  assumes "t \<le> 3700"
  obtains r where "verify_signature demo_gate demo_fromiso t demo_signature = Inr r" "cv_valid r"
  using assms demo_reads that
  by (auto simp: verify_signature_def demo_gate_def demo_signature_def verify_answer_def witness_hmac_verify_def
      witness_hmac_sign_def hex_ascii Let_def)

theorem issued_signature_verifies_witness:
  "\<exists>r r'. verify_signature demo_gate demo_fromiso 3700 demo_signature = Inr r \<and> cv_valid r
     \<and> verify_signature demo_gate demo_fromiso 3701 demo_signature = Inr r' \<and> \<not> cv_valid r'"
proof -
  have v: "100 + of_int (cg_validity_seconds demo_gate) = (3700 :: rat)" by (simp add: demo_gate_def)
  from issued_signature_verifies [OF demo_issued, of demo_fromiso 3700] issued_signature_verifies [OF demo_issued, of demo_fromiso 3701]
  show ?thesis unfolding v using demo_reads by auto
qed

theorem gate_opens_on_threshold_witness:
  "gate_export demo_gate demo_fromiso ''pkg''
     [(200, demo_signature), (250, demo_signature\<lparr>ws_package_id := ''other'', ws_expires_at := []\<rparr>), (300, demo_signature)] = Inr ()"
proof -
  obtain r r' where r: "verify_signature demo_gate demo_fromiso 200 demo_signature = Inr r" "cv_valid r"
    "verify_signature demo_gate demo_fromiso 300 demo_signature = Inr r'" "cv_valid r'"
    by (rule demo_valid [of 200], simp, rule demo_valid [of 300], simp) blast
  let ?other = "(250, demo_signature\<lparr>ws_package_id := ''other'', ws_expires_at := []\<rparr>)"
  let ?sigs = "[(200, demo_signature), ?other, (300, demo_signature)]"
  have ok: "is_ok (verify_signature demo_gate demo_fromiso (fst (?sigs ! i)) (snd (?sigs ! i)))"
    if "i < length ?sigs" "verified_at demo_gate demo_fromiso ''pkg'' ?sigs i" for i
    using that r by (cases i) (auto simp: less_Suc_eq verified_at_def)
  have "accepted demo_gate demo_fromiso ''pkg'' (200, demo_signature)" "accepted demo_gate demo_fromiso ''pkg'' (300, demo_signature)"
    using r by (simp_all add: accepted_def demo_signature_def)
  moreover have "\<not> accepted demo_gate demo_fromiso ''pkg'' ?other" by (simp add: accepted_def)
  ultimately have "{ts \<in> set ?sigs. accepted demo_gate demo_fromiso ''pkg'' ts} = {(200, demo_signature), (300, demo_signature)}"
    by auto
  then have w: "card (ws_witness_id ` snd ` {ts \<in> set ?sigs. accepted demo_gate demo_fromiso ''pkg'' ts}) = 1"
    by (simp only: image_insert image_empty) simp
  from gate_opens_on_threshold [of ?sigs demo_gate demo_fromiso "''pkg''", OF ok refl] show ?thesis
    unfolding w by (auto simp: demo_gate_def)
qed

theorem signatures_not_interchangeable_witness:
  "\<exists>r r'. verify_signature demo_gate demo_fromiso 200 demo_signature = Inr r \<and> cv_valid r
     \<and> verify_signature demo_gate demo_fromiso 300 demo_signature = Inr r' \<and> cv_valid r'
     \<and> (demo_signature = demo_signature
        \<or> collision_between (signature_inputs demo_gate demo_signature) (signature_inputs demo_gate demo_signature))"
proof -
  obtain r where r: "verify_signature demo_gate demo_fromiso 200 demo_signature = Inr r" "cv_valid r"
    by (rule demo_valid [of 200]) simp_all
  obtain r' where r': "verify_signature demo_gate demo_fromiso 300 demo_signature = Inr r'" "cv_valid r'"
    by (rule demo_valid [of 300]) simp_all
  from signatures_not_interchangeable [OF r r' refl] r r' show ?thesis by blast
qed

theorem naive_expiry_raises_witness:
  "\<exists>msg. gate_export demo_gate demo_fromiso ''pkg'' [(0, demo_signature\<lparr>ws_expires_at := []\<rparr>), (0, demo_signature)]
     = Inl (PyError (TypeError msg))"
  using naive_expiry_raises [of demo_fromiso "demo_signature\<lparr>ws_expires_at := []\<rparr>" 0 "''pkg''" demo_gate 0 "[(0, demo_signature)]"]
  by (auto simp: demo_fromiso_def demo_signature_def)

end
