(* ===== verification/Transparency_Log.thy ===== *)
theory Transparency_Log
  imports Py_Float
begin

section \<open>The deployment transparency log\<close>

text \<open>
  The model of \<^verbatim>\<open>aegis/core/transparency_log.py\<close>: the hash chain of published binaries, its
  append-only file and the check a deployment runs before it starts a binary. The file is
  the list of its lines; what \<open>json.dumps\<close> wrote for an entry is that entry again when
  \<open>json.loads\<close> reads it, any other line is malformed or blank. An append to the file either
  happens in full or raises \<open>OSError\<close>.
\<close>

definition GENESIS_PREV_HASH :: string where
  "GENESIS_PREV_HASH = replicate 64 CHR ''0''"

record log_entry =
  le_index :: int
  le_binary_hash :: string
  le_version :: string
  le_timestamp :: py_float
  le_prev_hash :: string
  le_entry_hash :: string

definition entry_material :: "int \<Rightarrow> string \<Rightarrow> string \<Rightarrow> py_float \<Rightarrow> string \<Rightarrow> string" where
  "entry_material index binary_hash version timestamp prev_hash =
     str_int index @ binary_hash @ version @ str_float timestamp @ prev_hash"

definition compute_log_hash :: "int \<Rightarrow> string \<Rightarrow> string \<Rightarrow> py_float \<Rightarrow> string \<Rightarrow> string" where
  "compute_log_hash index binary_hash version timestamp prev_hash =
     hexdigest (encode (entry_material index binary_hash version timestamp prev_hash))"

datatype log_line = Entry_Line log_entry | Malformed_Line | Blank_Line

text \<open>The manager: the ledger in memory, and the lines of its file when it has one.\<close>

record log_manager =
  tm_ledger :: "log_entry list"
  tm_file :: "log_line list option"

fun replay_from_disk :: "log_line list \<Rightarrow> log_entry list" where
  "replay_from_disk [] = []"
| "replay_from_disk (Entry_Line e # ls) = e # replay_from_disk ls"
| "replay_from_disk (Malformed_Line # ls) = replay_from_disk ls"
| "replay_from_disk (Blank_Line # ls) = replay_from_disk ls"

definition new_manager :: "log_line list option \<Rightarrow> log_manager" where
  "new_manager file =
     \<lparr>tm_ledger = (case file of None \<Rightarrow> [] | Some ls \<Rightarrow> replay_from_disk ls), tm_file = file\<rparr>"

definition append_to_disk :: "bool \<Rightarrow> log_entry \<Rightarrow> log_line list \<Rightarrow> log_line list res" where
  "append_to_disk writable e ls =
     (if writable then Inr (ls @ [Entry_Line e]) else Inl (OSError ''append failed''))"

definition tail_hash :: "log_entry list \<Rightarrow> string" where
  "tail_hash es = (if es = [] then GENESIS_PREV_HASH else le_entry_hash (last es))"

definition publish_binary_hash ::
    "bool \<Rightarrow> py_float \<Rightarrow> string \<Rightarrow> string \<Rightarrow> log_manager \<Rightarrow> string res \<times> log_manager" where
  "publish_binary_hash writable timestamp binary_hash version m =
     (let prev = tail_hash (tm_ledger m);
          index = int (length (tm_ledger m));
          h = compute_log_hash index binary_hash version timestamp prev;
          e = \<lparr>le_index = index, le_binary_hash = binary_hash, le_version = version, le_timestamp = timestamp,
               le_prev_hash = prev, le_entry_hash = h\<rparr>
      in case tm_file m of
           None \<Rightarrow> (Inr h, m\<lparr>tm_ledger := tm_ledger m @ [e]\<rparr>)
         | Some ls \<Rightarrow>
             (case append_to_disk writable e ls of
                Inl x \<Rightarrow> (Inl x, m)
              | Inr ls' \<Rightarrow> (Inr h, m\<lparr>tm_ledger := tm_ledger m @ [e], tm_file := Some ls'\<rparr>)))"

definition entry_sound :: "log_entry list \<Rightarrow> nat \<Rightarrow> bool" where
  "entry_sound es i =
     (let e = es ! i in
      le_index e = int i
      \<and> le_prev_hash e = (if i = 0 then GENESIS_PREV_HASH else le_entry_hash (es ! (i - 1)))
      \<and> compute_log_hash (le_index e) (le_binary_hash e) (le_version e) (le_timestamp e) (le_prev_hash e) = le_entry_hash e)"

definition verify_ledger_integrity :: "log_entry list \<Rightarrow> bool" where
  "verify_ledger_integrity es = list_all (entry_sound es) [0..<length es]"

definition verify_binary_presence :: "string \<Rightarrow> log_entry list \<Rightarrow> bool" where
  "verify_binary_presence binary_hash es =
     (if \<not> verify_ledger_integrity es then False
      else list_ex (\<lambda>e. le_binary_hash e = binary_hash) es)"

definition get_merkle_root :: "log_entry list \<Rightarrow> string" where
  "get_merkle_root es = (if es = [] then replicate 64 CHR ''0'' else le_entry_hash (last es))"

subsection \<open>A log that only publishes\<close>

lemma integrity_snoc:
  "verify_ledger_integrity (es @ [e]) \<longleftrightarrow> verify_ledger_integrity es \<and> le_index e = int (length es)
     \<and> le_prev_hash e = tail_hash es
     \<and> compute_log_hash (le_index e) (le_binary_hash e) (le_version e) (le_timestamp e) (le_prev_hash e) = le_entry_hash e"
proof -
  have "entry_sound (es @ [e]) i = entry_sound es i" if "i < length es" for i
    using that by (auto simp: entry_sound_def nth_append Let_def)
  then have "list_all (entry_sound (es @ [e])) [0..<length es] = list_all (entry_sound es) [0..<length es]"
    by (auto simp: list_all_iff)
  then show ?thesis
    by (auto simp: verify_ledger_integrity_def entry_sound_def nth_append tail_hash_def last_conv_nth Let_def)
qed

lemma replay_append [simp]: "replay_from_disk (ls @ ks) = replay_from_disk ls @ replay_from_disk ks"
  by (induction ls rule: replay_from_disk.induct) simp_all

text \<open>
  A manager's life: it starts on an empty store, publishes, with the file writable or not,
  or is started again on its file.
\<close>

inductive log_history :: "(string \<times> string) list \<Rightarrow> log_manager \<Rightarrow> bool" where
  Started: "log_history [] (new_manager (if stored then Some [] else None))"
| Published: "log_history ps m \<Longrightarrow> publish_binary_hash writable ts b v m = (Inr h, m') \<Longrightarrow> log_history (ps @ [(b, v)]) m'"
| Refused: "log_history ps m \<Longrightarrow> publish_binary_hash writable ts b v m = (Inl x, m') \<Longrightarrow> log_history ps m'"
| Restarted: "log_history ps m \<Longrightarrow> tm_file m = Some ls \<Longrightarrow> log_history ps (new_manager (Some ls))"

lemma publish_cases:
  "publish_binary_hash writable ts b v m = (r, m') \<Longrightarrow>
   (\<exists>x. r = Inl x \<and> m' = m)
   \<or> (\<exists>h e. r = Inr h \<and> tm_ledger m' = tm_ledger m @ [e] \<and> h = le_entry_hash e
        \<and> (verify_ledger_integrity (tm_ledger m) \<longrightarrow> verify_ledger_integrity (tm_ledger m @ [e]))
        \<and> le_binary_hash e = b \<and> le_version e = v
        \<and> tm_file m' = map_option (\<lambda>ls. ls @ [Entry_Line e]) (tm_file m))"
  by (auto simp: publish_binary_hash_def append_to_disk_def integrity_snoc Let_def split: option.splits if_splits)

lemma log_history_sound:
  "log_history ps m \<Longrightarrow> verify_ledger_integrity (tm_ledger m)
     \<and> map (\<lambda>e. (le_binary_hash e, le_version e)) (tm_ledger m) = ps
     \<and> (\<forall>ls. tm_file m = Some ls \<longrightarrow> replay_from_disk ls = tm_ledger m)"
proof (induction rule: log_history.induct)
  case (Published ps m writable ts b v h m')
  with publish_cases [OF Published.hyps(2)] show ?case by (cases "tm_file m") auto
next
  case (Refused ps m writable ts b v x m')
  with publish_cases [OF Refused.hyps(2)] show ?case by auto
qed (auto simp: new_manager_def verify_ledger_integrity_def)

text \<open>
  The log answers for what was published: after any sequence of publications,
  failed appends and restarts the ledger verifies, a restart reads back the same ledger,
  and the presence check confirms exactly the binaries whose publication succeeded.
\<close>

theorem published_log_verifies:
  assumes "log_history ps m"
  shows "verify_ledger_integrity (tm_ledger m)
    \<and> (verify_binary_presence b (tm_ledger m) \<longleftrightarrow> b \<in> fst ` set ps)
    \<and> (case tm_file m of None \<Rightarrow> True | Some ls \<Rightarrow> tm_ledger (new_manager (Some ls)) = tm_ledger m)"
proof -
  note s = log_history_sound [OF assms]
  then have "fst ` set ps = le_binary_hash ` set (tm_ledger m)" by force
  with s show ?thesis
    by (auto simp: verify_binary_presence_def list_ex_iff new_manager_def split: option.splits)
qed

theorem published_log_verifies_witness:
  "\<exists>h m. publish_binary_hash True (Fin 1) ''b1'' ''1.0'' (new_manager (Some [])) = (Inr h, m)
     \<and> verify_binary_presence ''b1'' (tm_ledger m) \<and> \<not> verify_binary_presence ''b2'' (tm_ledger m)"
proof -
  obtain h m where p: "publish_binary_hash True (Fin 1) ''b1'' ''1.0'' (new_manager (Some [])) = (Inr h, m)"
    by (simp add: publish_binary_hash_def new_manager_def append_to_disk_def Let_def)
  have "log_history [] (new_manager (Some []))" using Started [of True] by simp
  from Published [OF this p] have hist: "log_history ([] @ [(''b1'', ''1.0'')]) m" .
  from published_log_verifies [OF hist, of "''b1''"] published_log_verifies [OF hist, of "''b2''"] p show ?thesis by auto
qed

subsection \<open>What the chain commits to\<close>

definition material_of :: "log_entry \<Rightarrow> string" where
  "material_of e = entry_material (le_index e) (le_binary_hash e) (le_version e) (le_timestamp e) (le_prev_hash e)"

definition own_text :: "log_entry \<Rightarrow> string" where
  "own_text e = le_binary_hash e @ le_version e @ str_float (le_timestamp e)"

lemma length_tail_hash: "verify_ledger_integrity es \<Longrightarrow> length (tail_hash es) = 64"
  by (cases es rule: rev_cases)
    (auto simp: tail_hash_def GENESIS_PREV_HASH_def integrity_snoc compute_log_hash_def hexdigest_def dest: sym)

lemma same_tail_same_text:
  assumes "verify_ledger_integrity es" "verify_ledger_integrity fs" "length es = length fs" "tail_hash es = tail_hash fs"
  shows "map own_text es = map own_text fs
    \<or> collision_between ((encode \<circ> material_of) ` set es) ((encode \<circ> material_of) ` set fs)"
  using assms
proof (induction es arbitrary: fs rule: rev_induct)
  case (snoc e es)
  then obtain f fs' where fs: "fs = fs' @ [f]" by (cases fs rule: rev_cases) auto
  note e = snoc.prems(1) [unfolded integrity_snoc] and f = snoc.prems(2) [unfolded fs integrity_snoc]
  have eq: "sha256 (encode (material_of e)) = sha256 (encode (material_of f))"
  proof -
    have "le_entry_hash e = le_entry_hash f" using snoc.prems(4) fs by (simp add: tail_hash_def)
    then have "hexdigest (encode (material_of e)) = hexdigest (encode (material_of f))"
      using e f unfolding compute_log_hash_def material_of_def by metis
    then show ?thesis by (simp only: hexdigest_eq_iff)
  qed
  show ?case
  proof (cases "material_of e = material_of f")
    case True
    have len: "length es = length fs'" using snoc.prems(3) fs by simp
    then have "own_text e @ le_prev_hash e = own_text f @ le_prev_hash f"
      using True e f by (simp add: material_of_def entry_material_def own_text_def)
    moreover have "length (le_prev_hash e) = length (le_prev_hash f)" using e f length_tail_hash by metis
    ultimately have "own_text e = own_text f" "tail_hash es = tail_hash fs'" using e f by auto
    moreover from this(2) len e f have "map own_text es = map own_text fs'
        \<or> collision_between ((encode \<circ> material_of) ` set es) ((encode \<circ> material_of) ` set fs')"
      by (intro snoc.IH) auto
    ultimately show ?thesis unfolding collision_between_def by (auto simp: fs)
  next
    case False
    with eq show ?thesis by (intro disjI2 collision_betweenI [of "encode (material_of e)" _ "encode (material_of f)"]) (auto simp: fs)
  qed
qed simp

text \<open>
  The tail hash commits to the running text of the history: two verifying ledgers of
  one length with one tail hash agree, entry by entry, on the concatenation of binary hash,
  version and timestamp, or two byte strings hashed for them collide.
\<close>

theorem tail_commits_to_text:
  assumes "verify_ledger_integrity es" "verify_ledger_integrity fs" "length es = length fs"
    and "get_merkle_root es = get_merkle_root fs"
  shows "map own_text es = map own_text fs
    \<or> collision_between ((encode \<circ> material_of) ` set es) ((encode \<circ> material_of) ` set fs)"
  using assms by (intro same_tail_same_text) (auto simp: get_merkle_root_def tail_hash_def)

definition shifted :: "char \<Rightarrow> log_entry \<Rightarrow> log_entry" where
  "shifted c e = e\<lparr>le_binary_hash := le_binary_hash e @ [c], le_version := tl (le_version e)\<rparr>"

lemma shifted_integrity:
  assumes "verify_ledger_integrity es" "i < length es" "le_version (es ! i) = c # rest"
  shows "verify_ledger_integrity (es[i := shifted c (es ! i)])"
proof -
  let ?fs = "es[i := shifted c (es ! i)]"
  have "entry_sound ?fs k" if "k < length es" for k
  proof -
    have s: "entry_sound es k" using assms(1) that by (simp add: verify_ledger_integrity_def list_all_iff)
    have h: "le_entry_hash (?fs ! j) = le_entry_hash (es ! j)" if "j < length es" for j
      using that by (cases "j = i") (simp_all add: shifted_def)
    have m: "compute_log_hash x (b @ [c]) rest t p = compute_log_hash x b (c # rest) t p" for x b t p
      by (simp add: compute_log_hash_def entry_material_def)
    show ?thesis
      using s h [of "k - 1"] assms(2,3) that m
      by (cases "k = i"; cases "k = 0") (auto simp: entry_sound_def shifted_def Let_def)
  qed
  then show ?thesis by (simp add: verify_ledger_integrity_def list_all_iff)
qed

text \<open>
  The tail hash does not commit to the fields themselves: the fields are hashed without separators,
  so moving the first character of a version to the end of its binary hash, in place and
  with every hash left alone, still verifies, and the presence check then confirms a binary
  hash that was never published.
\<close>

theorem shifted_entry_verifies:
  assumes "verify_ledger_integrity es" "i < length es" "le_version (es ! i) = c # rest"
  shows "verify_ledger_integrity (es[i := shifted c (es ! i)])
    \<and> verify_binary_presence (le_binary_hash (es ! i) @ [c]) (es[i := shifted c (es ! i)])"
proof -
  let ?fs = "es[i := shifted c (es ! i)]"
  have "?fs ! i \<in> set ?fs" using assms(2) by (intro nth_mem) simp
  then have "list_ex (\<lambda>e. le_binary_hash e = le_binary_hash (es ! i) @ [c]) ?fs"
    using assms(2) by (auto simp: list_ex_iff shifted_def intro!: bexI)
  with shifted_integrity [OF assms] show ?thesis by (simp add: verify_binary_presence_def)
qed

definition demo_ledger :: "log_entry list" where
  "demo_ledger = tm_ledger (snd (publish_binary_hash True (Fin 1) ''b1'' ''1.0'' (new_manager None)))"

lemma demo_ledger_facts: "verify_ledger_integrity demo_ledger" "length demo_ledger = 1" "le_version (demo_ledger ! 0) = ''1.0''"
  "le_binary_hash (demo_ledger ! 0) = ''b1''"
  by (simp_all add: demo_ledger_def publish_binary_hash_def new_manager_def verify_ledger_integrity_def entry_sound_def
      tail_hash_def Let_def)

theorem tail_commits_to_text_witness:
  "verify_ledger_integrity demo_ledger \<and> verify_ledger_integrity (demo_ledger[0 := shifted (CHR ''1'') (demo_ledger ! 0)])
   \<and> (map own_text demo_ledger = map own_text (demo_ledger[0 := shifted (CHR ''1'') (demo_ledger ! 0)])
      \<or> collision_between ((encode \<circ> material_of) ` set demo_ledger)
          ((encode \<circ> material_of) ` set (demo_ledger[0 := shifted (CHR ''1'') (demo_ledger ! 0)])))"
proof -
  let ?fs = "demo_ledger[0 := shifted (CHR ''1'') (demo_ledger ! 0)]"
  obtain e where e: "demo_ledger = [e]" using demo_ledger_facts(2) by (auto simp: length_Suc_conv)
  have i: "verify_ledger_integrity ?fs" using shifted_integrity [OF demo_ledger_facts(1), of 0 "CHR ''1''" "''.0''"] demo_ledger_facts by simp
  have "get_merkle_root demo_ledger = get_merkle_root ?fs" unfolding e by (simp add: get_merkle_root_def shifted_def)
  from tail_commits_to_text [OF demo_ledger_facts(1) i _ this] i demo_ledger_facts(1) show ?thesis by simp
qed

theorem shifted_entry_verifies_witness:
  "verify_binary_presence ''b11'' (demo_ledger[0 := shifted (CHR ''1'') (demo_ledger ! 0)])"
  using shifted_entry_verifies [OF demo_ledger_facts(1), of 0 "CHR ''1''" "''.0''"] demo_ledger_facts by simp

end
