(* ===== verification/Signed_Log.thy ===== *)
theory Signed_Log
  imports Json_Text Py_Float "HOL-Library.List_Lexorder" "HOL-Library.Char_ord"
begin

section \<open>Signed line logs\<close>

text \<open>
  Two logs keep one signed JSON object per line beside the audit chain: custody transfers
  (\<^verbatim>\<open>aegis/core/custody_transfer.py\<close>) and compliance exports
  (\<^verbatim>\<open>aegis/core/export_audit_log.py\<close>). A file is the list of its lines, each blank, not JSON,
  or the document \<open>json.loads\<close> reads from it, which for a line the log wrote is the document
  it dumped; a file that does not exist is \<open>None\<close>. A record read back holds whatever values
  the document has, since nothing checks their types. The verification loop the two logs
  share is \<open>verify_lines\<close>; the contract it needs of a log is the locale \<open>signed_log\<close>,
  interpreted for each of them.
\<close>

subsection \<open>JSON documents\<close>

fun comma_join :: "string list \<Rightarrow> string" where
  "comma_join [] = []"
| "comma_join [x] = x"
| "comma_join (x # y # xs) = x @ '','' @ comma_join (y # xs)"

text \<open>\<open>json.dumps(v, sort_keys=True, separators=(",", ":"))\<close>.\<close>

fun json_value :: "pyval \<Rightarrow> string" where
  "json_value PNone = ''null''"
| "json_value (PBool b) = (if b then ''true'' else ''false'')"
| "json_value (PInt i) = str_int i"
| "json_value (PFloat q) = str_float (Fin q)"
| "json_value (PNonFinite x) =
     (case x of Not_A_Number \<Rightarrow> ''NaN'' | Plus_Infinity \<Rightarrow> ''Infinity'' | Minus_Infinity \<Rightarrow> ''-Infinity'')"
| "json_value (PStr s) = json_str s"
| "json_value (PList vs) = ''['' @ comma_join (map json_value vs) @ '']''"
| "json_value (PDict d) =
     ''{'' @ comma_join (map snd (sort_key fst (map (\<lambda>(k, v). (k, json_str k @ '':'' @ json_value v)) d))) @ ''}''"

text \<open>\<open>d[k]\<close> on a parsed document, and \<open>d.get(k, dflt)\<close> on one known to be a dict.\<close>

definition doc_item :: "pyval \<Rightarrow> string \<Rightarrow> pyval res" where
  "doc_item d k =
     (case d of
        PDict al \<Rightarrow> (case map_of al k of None \<Rightarrow> Inl (KeyError k) | Some v \<Rightarrow> Inr v)
      | _ \<Rightarrow> Inl (TypeError ''not subscriptable by a string''))"

definition doc_get :: "pyval \<Rightarrow> string \<Rightarrow> pyval \<Rightarrow> pyval" where
  "doc_get d k dflt = (case d of PDict al \<Rightarrow> (case map_of al k of None \<Rightarrow> dflt | Some v \<Rightarrow> v) | _ \<Rightarrow> dflt)"

text \<open>\<open>hmac.compare_digest\<close> of a hex digest with a value from a document.\<close>

definition compare_digest_value :: "string \<Rightarrow> pyval \<Rightarrow> bool res" where
  "compare_digest_value expected v =
     (case v of
        PStr s \<Rightarrow> if list_all (\<lambda>c. (of_char c :: nat) < 128) s then Inr (expected = s)
                  else Inl (TypeError ''comparing strings with non-ASCII characters is not supported'')
      | _ \<Rightarrow> Inl (TypeError ''unsupported operand types(s) or combination of types''))"

datatype log_text = Blank_Text | Bad_Text | Doc_Text pyval

fun count_records :: "log_text list \<Rightarrow> int" where
  "count_records [] = 0"
| "count_records (Blank_Text # ls) = count_records ls"
| "count_records (Bad_Text # ls) = count_records ls + 1"
| "count_records (Doc_Text d # ls) = count_records ls + 1"

text \<open>
  The file: its lines, and whether the last of them lacks its newline. Appending a line can
  succeed (\<open>Synced\<close>), or raise with the line in the file in full (\<open>Not_Synced\<close>, the \<open>fsync\<close>
  after the flush failed), without its newline (\<open>No_Newline\<close>), in part (\<open>Cut_Short\<close>), or not at
  all (\<open>Not_Written\<close>). What is appended to a line without a newline joins it, and neither a
  document nor a part of one continues to be JSON with a document behind it.
\<close>

record log_disk =
  ld_lines :: "log_text list"
  ld_open :: bool

datatype write_outcome = Synced | Not_Synced | No_Newline | Cut_Short | Not_Written

definition put_text :: "log_text \<Rightarrow> bool \<Rightarrow> log_disk option \<Rightarrow> log_disk option" where
  "put_text l unended file =
     (case file of
        None \<Rightarrow> Some \<lparr>ld_lines = [l], ld_open = unended\<rparr>
      | Some d \<Rightarrow>
          Some \<lparr>ld_lines = (if ld_open d then butlast (ld_lines d) @ [Bad_Text] else ld_lines d @ [l]), ld_open = unended\<rparr>)"

fun append_line :: "write_outcome \<Rightarrow> pyval \<Rightarrow> log_disk option \<Rightarrow> log_disk option" where
  "append_line Synced v file = put_text (Doc_Text v) False file"
| "append_line Not_Synced v file = put_text (Doc_Text v) False file"
| "append_line No_Newline v file = put_text (Doc_Text v) True file"
| "append_line Cut_Short v file = put_text Bad_Text True file"
| "append_line Not_Written v file = file"

abbreviation empty_log :: log_disk where
  "empty_log \<equiv> \<lparr>ld_lines = [], ld_open = False\<rparr>"

subsection \<open>The verification loop\<close>

text \<open>The messages a verification collects, with the line they name.\<close>

datatype log_fault = Not_Json nat | Bad_Schema nat | Index_Mismatch nat int pyval | Bad_Signature nat

fun verify_lines ::
    "(pyval \<Rightarrow> 'r res) \<Rightarrow> ('r \<Rightarrow> pyval) \<Rightarrow> ('r \<Rightarrow> bool res) \<Rightarrow> nat \<Rightarrow> int \<Rightarrow> log_fault list \<Rightarrow> log_text list \<Rightarrow> log_fault list res" where
  "verify_lines from_dict index_of sig_ok lineno expected errors [] = Inr errors"
| "verify_lines from_dict index_of sig_ok lineno expected errors (Blank_Text # ls) =
     verify_lines from_dict index_of sig_ok (lineno + 1) expected errors ls"
| "verify_lines from_dict index_of sig_ok lineno expected errors (Bad_Text # ls) =
     verify_lines from_dict index_of sig_ok (lineno + 1) (expected + 1) (errors @ [Not_Json lineno]) ls"
| "verify_lines from_dict index_of sig_ok lineno expected errors (Doc_Text d # ls) =
     (case from_dict d of
        Inl _ \<Rightarrow> verify_lines from_dict index_of sig_ok (lineno + 1) (expected + 1) (errors @ [Bad_Schema lineno]) ls
      | Inr r \<Rightarrow>
          let errors1 = (if \<not> py_eq_int (index_of r) expected then errors @ [Index_Mismatch lineno expected (index_of r)] else errors) in
          bind_res (sig_ok r) (\<lambda>good.
            verify_lines from_dict index_of sig_ok (lineno + 1) (expected + 1)
              (if \<not> good then errors1 @ [Bad_Signature lineno] else errors1) ls))"

definition verify_file ::
    "(pyval \<Rightarrow> 'r res) \<Rightarrow> ('r \<Rightarrow> pyval) \<Rightarrow> ('r \<Rightarrow> bool res) \<Rightarrow> log_text list option \<Rightarrow> (bool \<times> log_fault list) res" where
  "verify_file from_dict index_of sig_ok file =
     (case file of
        None \<Rightarrow> Inr (True, [])
      | Some ls \<Rightarrow> bind_res (verify_lines from_dict index_of sig_ok 1 0 [] ls) (\<lambda>errors. Inr (errors = [], errors)))"

lemma verify_lines_errors:
  "verify_lines f ix s n e errs ls = Inr errs' \<Longrightarrow> \<exists>more_errs. errs' = errs @ more_errs"
proof (induction f ix s n e errs ls arbitrary: errs' rule: verify_lines.induct)
  case (3 f ix s n e errs ls)
  then show ?case by fastforce
next
  case (4 f ix s n e errs d ls)
  show ?case
  proof (cases "f d")
    case (Inl x)
    with "4.IH"(1) [OF Inl, of errs'] "4.prems" show ?thesis by auto
  next
    case (Inr r)
    with "4.prems" obtain g where g: "s r = Inr g" by (auto simp: bind_res_eq_Inr Let_def)
    from "4.IH"(2) [OF Inr refl, of g errs'] "4.prems" Inr g show ?thesis
      by (auto simp: Let_def split: if_splits)
  qed
qed auto

subsection \<open>What a log promises\<close>

locale signed_log =
  fixes from_dict :: "pyval \<Rightarrow> 'r res" and index_of :: "'r \<Rightarrow> pyval" and sig_ok :: "'r \<Rightarrow> bool res"
    and doc_of :: "'r \<Rightarrow> pyval" and own :: "int \<Rightarrow> 'r \<Rightarrow> bool"
  assumes own_parses: "own i r \<Longrightarrow> from_dict (doc_of r) = Inr r"
    and own_index: "own i r \<Longrightarrow> index_of r = PInt i"
    and own_signed: "own i r \<Longrightarrow> sig_ok r = Inr True"
begin

definition written :: "int \<Rightarrow> 'r list \<Rightarrow> bool" where
  "written k rs \<longleftrightarrow> (\<forall>i<length rs. own (k + int i) (rs ! i))"

lemma written_Cons: "written k (r # rs) \<longleftrightarrow> own k r \<and> written (k + 1) rs"
proof -
  have "(\<forall>i<Suc n. P i) \<longleftrightarrow> P 0 \<and> (\<forall>i<n. P (Suc i))" for P :: "nat \<Rightarrow> bool" and n
    by (auto simp: less_Suc_eq_0_disj)
  then show ?thesis by (auto simp: written_def ac_simps)
qed

lemma written_append: "written k (rs @ ss) \<longleftrightarrow> written k rs \<and> written (k + int (length rs)) ss"
  by (induction rs arbitrary: k) (auto simp: written_Cons ac_simps, simp add: written_def)

lemma written_Nil: "written k []"
  by (simp add: written_def)

lemma written_snoc: "written k (rs @ [r]) \<longleftrightarrow> written k rs \<and> own (k + int (length rs)) r"
  by (simp add: written_append written_Cons written_Nil)

abbreviation file_of :: "'r list \<Rightarrow> log_text list" where
  "file_of rs \<equiv> map (\<lambda>r. Doc_Text (doc_of r)) rs"

abbreviation check :: "nat \<Rightarrow> int \<Rightarrow> log_fault list \<Rightarrow> log_text list \<Rightarrow> log_fault list res" where
  "check \<equiv> verify_lines from_dict index_of sig_ok"

lemma own_line: "own k r \<Longrightarrow> check n k errs (Doc_Text (doc_of r) # ls) = check (n + 1) (k + 1) errs ls"
  using own_parses [of k r] own_index [of k r] own_signed [of k r] by simp

lemma own_lines: "written k rs \<Longrightarrow> check n k errs (file_of rs @ ls) = check (n + length rs) (k + int (length rs)) errs ls"
proof (induction rs arbitrary: k n)
  case (Cons r rs)
  then show ?case
    using own_line [of k r n errs "file_of rs @ ls"] by (simp del: verify_lines.simps add: written_Cons algebra_simps)
qed simp

lemma written_verifies: "written k rs \<Longrightarrow> check n k errs (file_of rs) = Inr errs"
  using own_lines [of k rs n errs "[]"] by simp

lemma wrong_index_reported:
  assumes "own i r" "i \<noteq> k"
  shows "check n k errs (Doc_Text (doc_of r) # ls) \<noteq> Inr []"
  using verify_lines_errors [of from_dict index_of sig_ok "n + 1" "k + 1" "errs @ [Index_Mismatch n k (PInt i)]" ls "[]"]
    assms own_parses [of i r] own_index [of i r] own_signed [of i r] by auto

lemma bad_text_reported: "check n k errs (Bad_Text # ls) \<noteq> Inr []"
  using verify_lines_errors [of from_dict index_of sig_ok "n + 1" "k + 1" "errs @ [Not_Json n]" ls "[]"] by auto

text \<open>A line that no verification passes at its place: no document, or a record with another index.\<close>

definition spoiled :: "int \<Rightarrow> log_text \<Rightarrow> bool" where
  "spoiled k l \<longleftrightarrow> l = Bad_Text \<or> (\<exists>i r. l = Doc_Text (doc_of r) \<and> own i r \<and> i \<noteq> k)"

definition spoiled_file :: "log_text list \<Rightarrow> bool" where
  "spoiled_file ls \<longleftrightarrow> (\<exists>rs l rest. ls = file_of rs @ l # rest \<and> written 0 rs \<and> spoiled (int (length rs)) l)"

lemma spoiled_reported:
  assumes "spoiled_file ls"
  shows "verify_file from_dict index_of sig_ok (Some ls) \<noteq> Inr (True, [])"
proof -
  from assms obtain rs l rest where ls: "ls = file_of rs @ l # rest" "written 0 rs" "spoiled (int (length rs)) l"
    unfolding spoiled_file_def by blast
  have "check (1 + length rs) (int (length rs)) [] (l # rest) \<noteq> Inr []"
    using ls(3) bad_text_reported wrong_index_reported unfolding spoiled_def by blast
  then have "check 1 0 [] ls \<noteq> Inr []" using own_lines [OF ls(2), of 1 "[]" "l # rest"] by (simp add: ls(1) del: verify_lines.simps)
  then show ?thesis by (cases "check 1 0 [] ls") (auto simp: verify_file_def)
qed

lemma spoiled_grows:
  assumes "spoiled_file ls"
  shows "spoiled_file (ls @ more_lines)" and "spoiled_file (butlast ls @ [Bad_Text])"
proof -
  from assms obtain rs l rest where ls: "ls = file_of rs @ l # rest" "written 0 rs" "spoiled (int (length rs)) l"
    unfolding spoiled_file_def by blast
  then show "spoiled_file (ls @ more_lines)" unfolding spoiled_file_def by fastforce
  show "spoiled_file (butlast ls @ [Bad_Text])"
  proof (cases "rest = []")
    case True
    then have "butlast ls @ [Bad_Text] = file_of rs @ Bad_Text # []" by (simp add: ls(1))
    then show ?thesis using ls(2) unfolding spoiled_file_def spoiled_def by blast
  next
    case False
    then have "butlast ls @ [Bad_Text] = file_of rs @ l # butlast rest @ [Bad_Text]" by (simp add: ls(1) butlast_append)
    then show ?thesis using ls(2,3) unfolding spoiled_file_def by blast
  qed
qed

lemma spoiled_put: "spoiled_file (ld_lines d) \<Longrightarrow> \<exists>d'. put_text l unended (Some d) = Some d' \<and> spoiled_file (ld_lines d')"
  using spoiled_grows by (auto simp: put_text_def)

text \<open>A line in the wrong place, or joined to one without a newline, spoils the file.\<close>

lemma misplaced_spoils: "written 0 rs \<Longrightarrow> spoiled (int (length rs)) l \<Longrightarrow> spoiled_file (file_of rs @ [l])"
  unfolding spoiled_file_def by blast

lemma joined_spoils:
  assumes "written 0 rs" "rs \<noteq> []"
  shows "spoiled_file (butlast (file_of rs) @ [Bad_Text])"
proof -
  have "written 0 (butlast rs)" using assms written_snoc [of 0 "butlast rs" "last rs"] by simp
  then show ?thesis using misplaced_spoils [of "butlast rs" Bad_Text] by (simp add: spoiled_def map_butlast)
qed

lemma deletion_reported:
  assumes "written 0 (as @ r # b # bs)"
  shows "check n 0 [] (file_of as @ file_of (b # bs)) \<noteq> Inr []"
proof -
  have "written 0 as" "own (int (length as) + 1) b" using assms by (simp_all add: written_append written_Cons)
  then show ?thesis
    using own_lines [of 0 as n "[]" "file_of (b # bs)"] wrong_index_reported [of "int (length as) + 1" b "int (length as)"]
    by (simp del: verify_lines.simps)
qed

lemma count_file: "count_records (file_of rs) = int (length rs)"
  by (induction rs) simp_all

text \<open>What a file written in full order answers, and what it answers with a record gone.\<close>

lemma verify_own_file: "written 0 rs \<Longrightarrow> verify_file from_dict index_of sig_ok (Some (file_of rs)) = Inr (True, [])"
  using written_verifies [of 0 rs 1 "[]"] by (simp add: verify_file_def)

lemma verify_truncated:
  assumes "written 0 rs"
  shows "verify_file from_dict index_of sig_ok (Some (file_of (take n rs))) = Inr (True, [])"
  using assms written_append [of 0 "take n rs" "drop n rs"] by (intro verify_own_file) simp

lemma verify_deleted:
  assumes "written 0 rs" "Suc i < length rs"
  shows "verify_file from_dict index_of sig_ok (Some (file_of (take i rs @ drop (Suc i) rs))) \<noteq> Inr (True, [])"
proof -
  have "rs = take i rs @ rs ! i # rs ! Suc i # drop (Suc (Suc i)) rs" "drop (Suc i) rs = rs ! Suc i # drop (Suc (Suc i)) rs"
    using assms(2) by (simp_all add: Cons_nth_drop_Suc Suc_lessD)
  then have "check 1 0 [] (file_of (take i rs) @ file_of (drop (Suc i) rs)) \<noteq> Inr []"
    using deletion_reported [of "take i rs" "rs ! i" "rs ! Suc i" "drop (Suc (Suc i)) rs" 1] assms(1) by metis
  then show ?thesis by (cases "check 1 0 [] (file_of (take i rs @ drop (Suc i) rs))") (auto simp: verify_file_def)
qed

end

end
