(* ===== verification/Custody_Log.thy ===== *)
theory Custody_Log
  imports Signed_Log
begin

section \<open>Custody transfers\<close>

text \<open>
  The model of \<^verbatim>\<open>aegis/core/custody_transfer.py\<close>: the signed record of one handoff, and the
  log object with the record count it caches. The file is shared by every object opened on
  it and passed explicitly; a write appends its line, or raises and leaves in the file
  nothing, a part of the line, or all of it. Modes and directories are left out.
\<close>

subsection \<open>Records\<close>

record custody_record =
  ct_index :: pyval
  ct_timestamp_iso :: pyval
  ct_transferor :: pyval
  ct_transferee :: pyval
  ct_package_id :: pyval
  ct_evidence_hash :: pyval
  ct_reason :: pyval
  ct_authorization :: pyval
  ct_extra :: pyval
  ct_transfer_sig :: pyval

definition custody_body :: "custody_record \<Rightarrow> (string \<times> pyval) list" where
  "custody_body r =
     [(''version'', PStr ''1''), (''index'', ct_index r), (''timestamp_iso'', ct_timestamp_iso r),
      (''transferor'', ct_transferor r), (''transferee'', ct_transferee r), (''package_id'', ct_package_id r),
      (''evidence_hash'', ct_evidence_hash r), (''reason'', ct_reason r), (''authorization'', ct_authorization r),
      (''extra'', ct_extra r)]"

definition custody_to_dict :: "custody_record \<Rightarrow> pyval" where
  "custody_to_dict r = PDict (custody_body r @ [(''transfer_sig'', ct_transfer_sig r)])"

definition custody_from_dict :: "pyval \<Rightarrow> custody_record res" where
  "custody_from_dict d =
     bind_res (doc_item d ''index'') (\<lambda>index.
     bind_res (doc_item d ''timestamp_iso'') (\<lambda>timestamp_iso.
     bind_res (doc_item d ''transferor'') (\<lambda>transferor.
     bind_res (doc_item d ''transferee'') (\<lambda>transferee.
     bind_res (doc_item d ''package_id'') (\<lambda>package_id.
       Inr \<lparr>ct_index = index, ct_timestamp_iso = timestamp_iso, ct_transferor = transferor, ct_transferee = transferee,
            ct_package_id = package_id, ct_evidence_hash = doc_get d ''evidence_hash'' (PStr []),
            ct_reason = doc_get d ''reason'' (PStr []), ct_authorization = doc_get d ''authorization'' (PStr []),
            ct_extra = doc_get d ''extra'' (PDict []), ct_transfer_sig = doc_get d ''transfer_sig'' (PStr [])\<rparr>)))))"

definition sign_record :: "custody_record \<Rightarrow> bytes \<Rightarrow> string" where
  "sign_record r key = hex (hmac_sha256 key (encode (json_value (PDict (custody_body r)))))"

definition verify_record_sig :: "bytes \<Rightarrow> custody_record \<Rightarrow> bool res" where
  "verify_record_sig key r = compare_digest_value (sign_record r key) (ct_transfer_sig r)"

subsection \<open>The log\<close>

record custody_log =
  cl_key :: bytes
  cl_count :: int

record transfer_args =
  ta_transferor :: string
  ta_transferee :: string
  ta_package_id :: string
  ta_evidence_hash :: string
  ta_reason :: string
  ta_authorization :: string
  ta_extra :: "(string \<times> pyval) list option"
  ta_timestamp_iso :: "string option"

definition open_custody :: "string \<Rightarrow> log_disk option \<Rightarrow> custody_log res \<times> log_disk option" where
  "open_custody signing_key file =
     (if signing_key = [] then (Inl (ValueError ''signing_key must be non-empty''), file)
      else case file of
        Some d \<Rightarrow> (Inr \<lparr>cl_key = encode signing_key, cl_count = count_records (ld_lines d)\<rparr>, Some d)
      | None \<Rightarrow> (Inr \<lparr>cl_key = encode signing_key, cl_count = 0\<rparr>, Some empty_log))"

definition transfer_record :: "int \<Rightarrow> string \<Rightarrow> transfer_args \<Rightarrow> custody_record" where
  "transfer_record count now_iso a =
     \<lparr>ct_index = PInt count,
      ct_timestamp_iso = PStr (case ta_timestamp_iso a of None \<Rightarrow> now_iso | Some t \<Rightarrow> t),
      ct_transferor = PStr (ta_transferor a), ct_transferee = PStr (ta_transferee a),
      ct_package_id = PStr (ta_package_id a), ct_evidence_hash = PStr (ta_evidence_hash a),
      ct_reason = PStr (ta_reason a), ct_authorization = PStr (ta_authorization a),
      ct_extra = PDict (case ta_extra a of None \<Rightarrow> [] | Some d \<Rightarrow> d), ct_transfer_sig = PStr []\<rparr>"

definition record_transfer ::
    "write_outcome \<Rightarrow> string \<Rightarrow> transfer_args \<Rightarrow> custody_log \<Rightarrow> log_disk option
     \<Rightarrow> custody_record res \<times> custody_log \<times> log_disk option" where
  "record_transfer w now_iso a h file =
     (let blank = transfer_record (cl_count h) now_iso a;
          rec = blank\<lparr>ct_transfer_sig := PStr (sign_record blank (cl_key h))\<rparr>;
          file' = append_line w (custody_to_dict rec) file
      in if w = Synced then (Inr rec, h\<lparr>cl_count := cl_count h + 1\<rparr>, file')
         else (Inl (OSError ''write failed''), h, file'))"

definition custody_verify :: "custody_log \<Rightarrow> log_disk option \<Rightarrow> (bool \<times> log_fault list) res" where
  "custody_verify h file = verify_file custody_from_dict ct_index (verify_record_sig (cl_key h)) (map_option ld_lines file)"

fun custody_read_lines :: "log_text list \<Rightarrow> custody_record list res" where
  "custody_read_lines [] = Inr []"
| "custody_read_lines (Blank_Text # ls) = custody_read_lines ls"
| "custody_read_lines (Bad_Text # ls) = Inl (ValueError ''JSONDecodeError'')"
| "custody_read_lines (Doc_Text d # ls) =
     bind_res (custody_from_dict d) (\<lambda>r. bind_res (custody_read_lines ls) (\<lambda>rs. Inr (r # rs)))"

definition custody_read_all :: "log_disk option \<Rightarrow> custody_record list res" where
  "custody_read_all file = (case file of None \<Rightarrow> Inr [] | Some d \<Rightarrow> custody_read_lines (ld_lines d))"

subsection \<open>The contract of a signed log\<close>

definition custody_own :: "bytes \<Rightarrow> int \<Rightarrow> custody_record \<Rightarrow> bool" where
  "custody_own key i r \<longleftrightarrow> ct_index r = PInt i \<and> ct_transfer_sig r = PStr (sign_record r key)"

lemma custody_from_to_dict: "custody_from_dict (custody_to_dict r) = Inr r"
  by (simp add: custody_from_dict_def custody_to_dict_def custody_body_def doc_item_def doc_get_def bind_res_def)

interpretation custody: signed_log custody_from_dict ct_index "verify_record_sig key" custody_to_dict "custody_own key"
  for key :: bytes
  by unfold_locales
    (auto simp: custody_own_def custody_from_to_dict verify_record_sig_def compare_digest_value_def sign_record_def hex_ascii)

lemma custody_read_own: "custody_read_lines (custody.file_of rs) = Inr rs"
  by (induction rs) (simp_all add: custody_from_to_dict)

text \<open>The record a call writes carries the count of its object as index, and its signature.\<close>

lemma record_transfer_own:
  assumes "record_transfer w now_iso a h file = (res, h', file')"
  obtains r where "custody_own (cl_key h) (cl_count h) r" "file' = append_line w (custody_to_dict r) file" "cl_key h' = cl_key h"
    "res = (if w = Synced then Inr r else Inl (OSError ''write failed''))"
    "cl_count h' = (if w = Synced then cl_count h + 1 else cl_count h)"
proof -
  let ?blank = "transfer_record (cl_count h) now_iso a"
  let ?r = "?blank\<lparr>ct_transfer_sig := PStr (sign_record ?blank (cl_key h))\<rparr>"
  have "custody_own (cl_key h) (cl_count h) ?r"
    by (simp add: custody_own_def transfer_record_def sign_record_def custody_body_def)
  then show ?thesis using assms by (intro that [of ?r]) (auto simp: record_transfer_def Let_def split: if_splits)
qed

text \<open>
  The lives of a log under one key in which one object at a time is in use: its writes may
  fail in every way, and it may be closed and opened again. The state says what the failures
  have left: the object is in step with the file, it is behind because the line of a call
  that raised is there in full, the last line has no newline, or a line is spoiled. The
  records that calls have returned are listed.
\<close>

datatype log_state = In_Step | Behind | Unended | Damaged

fun after_write :: "log_state \<Rightarrow> write_outcome \<Rightarrow> log_state" where
  "after_write s Not_Written = s"
| "after_write In_Step Synced = In_Step"
| "after_write In_Step Not_Synced = Behind"
| "after_write In_Step No_Newline = Unended"
| "after_write _ _ = Damaged"

fun after_open :: "log_state \<Rightarrow> log_state" where
  "after_open Behind = In_Step"
| "after_open s = s"

inductive custody_run :: "string \<Rightarrow> custody_log \<Rightarrow> log_disk option \<Rightarrow> log_state \<Rightarrow> custody_record list \<Rightarrow> bool" for signing_key where
  Custody_Created: "open_custody signing_key None = (Inr h, f) \<Longrightarrow> custody_run signing_key h f In_Step []"
| Custody_Recorded:
    "custody_run signing_key h f s out \<Longrightarrow> record_transfer w t a h f = (r, h', f')
     \<Longrightarrow> custody_run signing_key h' f' (after_write s w) (out @ (case r of Inl _ \<Rightarrow> [] | Inr c \<Rightarrow> [c]))"
| Custody_Reopened:
    "custody_run signing_key h f s out \<Longrightarrow> open_custody signing_key f = (Inr h', f') \<Longrightarrow> custody_run signing_key h' f' (after_open s) out"

definition whole_log :: "bytes \<Rightarrow> custody_record list \<Rightarrow> custody_record list \<Rightarrow> log_disk option \<Rightarrow> bool \<Rightarrow> bool" where
  "whole_log key out rs f unended \<longleftrightarrow>
     f = Some \<lparr>ld_lines = custody.file_of rs, ld_open = unended\<rparr> \<and> custody.written key 0 rs \<and> set out \<subseteq> set rs"

fun custody_inv :: "log_state \<Rightarrow> custody_log \<Rightarrow> log_disk option \<Rightarrow> custody_record list \<Rightarrow> bool" where
  "custody_inv In_Step h f out \<longleftrightarrow> (\<exists>rs. whole_log (cl_key h) out rs f False \<and> cl_count h = int (length rs))"
| "custody_inv Behind h f out \<longleftrightarrow> (\<exists>rs. whole_log (cl_key h) out rs f False \<and> cl_count h + 1 = int (length rs))"
| "custody_inv Unended h f out \<longleftrightarrow> (\<exists>rs. whole_log (cl_key h) out rs f True \<and> rs \<noteq> [])"
| "custody_inv Damaged h f out \<longleftrightarrow> (\<exists>d. f = Some d \<and> custody.spoiled_file (cl_key h) (ld_lines d))"

lemma write_keeps_inv:
  assumes inv: "custody_inv s h f out" and step: "record_transfer w t a h f = (res, h', f')"
  shows "custody_inv (after_write s w) h' f' (out @ (case res of Inl _ \<Rightarrow> [] | Inr c \<Rightarrow> [c]))"
proof -
  from step obtain r where own: "custody_own (cl_key h) (cl_count h) r" and f': "f' = append_line w (custody_to_dict r) f"
    and h': "cl_key h' = cl_key h" "cl_count h' = (if w = Synced then cl_count h + 1 else cl_count h)"
    and res: "res = (if w = Synced then Inr r else Inl (OSError ''write failed''))" by (rule record_transfer_own)
  note defs = f' h' res whole_log_def put_text_def
  show ?thesis
  proof (cases s)
    case In_Step
    then obtain rs where rs: "whole_log (cl_key h) out rs f False" "cl_count h = int (length rs)" using inv by auto
    then have "custody.written (cl_key h) 0 (rs @ [r])" using own by (simp add: whole_log_def custody.written_snoc)
    moreover have "custody.spoiled_file (cl_key h) (custody.file_of rs @ [Bad_Text])"
      using rs(1) by (intro custody.misplaced_spoils) (simp_all add: whole_log_def custody.spoiled_def)
    ultimately show ?thesis
      using In_Step rs by (cases "w = Not_Written"; cases w) (auto simp: defs intro!: exI [of _ "if w = Not_Written then rs else rs @ [r]"])
  next
    case Behind
    then obtain rs where rs: "whole_log (cl_key h) out rs f False" "cl_count h + 1 = int (length rs)" using inv by auto
    have "custody.spoiled_file (cl_key h) (custody.file_of rs @ [l])" if "l = Bad_Text \<or> l = Doc_Text (custody_to_dict r)" for l
      using rs own that by (intro custody.misplaced_spoils) (auto simp: whole_log_def custody.spoiled_def)
    then show ?thesis using Behind rs by (cases w) (auto simp: defs)
  next
    case Unended
    then obtain rs where rs: "whole_log (cl_key h) out rs f True" "rs \<noteq> []" using inv by auto
    have "custody.spoiled_file (cl_key h) (butlast (custody.file_of rs) @ [Bad_Text])"
      using rs by (intro custody.joined_spoils) (simp_all add: whole_log_def)
    then show ?thesis using Unended rs by (cases w) (auto simp: defs)
  next
    case Damaged
    then obtain d where d: "f = Some d" "custody.spoiled_file (cl_key h) (ld_lines d)" using inv by auto
    from custody.spoiled_put [OF d(2)] show ?thesis using Damaged d by (cases w) (auto simp: f' h')
  qed
qed

lemma open_keeps_inv:
  assumes "custody_inv s h f out" and "cl_key h = encode sk" and "open_custody sk f = (Inr h', f')"
  shows "custody_inv (after_open s) h' f' out \<and> cl_key h' = encode sk"
  using assms by (cases s) (auto simp: open_custody_def whole_log_def custody.count_file split: if_splits)

lemma custody_run_inv: "custody_run sk h f s out \<Longrightarrow> custody_inv s h f out \<and> cl_key h = encode sk"
proof (induction rule: custody_run.induct)
  case (Custody_Created h f)
  then show ?case by (auto simp: open_custody_def whole_log_def custody.written_Nil split: if_splits)
next
  case (Custody_Recorded h f s out w t a r h' f')
  then show ?case using write_keeps_inv by (metis record_transfer_own)
next
  case (Custody_Reopened h f s out h' f')
  then show ?case using open_keeps_inv by blast
qed

text \<open>
  C35. What the custody log proves. Take any use of a log through one object at a time,
  across restarts and across calls that raise and leave in the file nothing, a part of their
  line, or all of it. The file verifies exactly as long as it is not damaged: a part of a
  line was left, something was written behind a line without newline, or the object whose
  call had raised after writing its line was used to write again instead of being reopened.
  A file that is not damaged reads back as its records, every record a call returned among
  them; with a record other than the last ones missing it does not verify, and with the last
  ones missing it does.
\<close>

theorem custody_log_detects_gaps:
  assumes "custody_run signing_key h f s out"
  shows "(custody_verify h f = Inr (True, []) \<longleftrightarrow> s \<noteq> Damaged)
    \<and> (s \<noteq> Damaged \<longrightarrow>
        (\<exists>rs. map_option ld_lines f = Some (map (Doc_Text \<circ> custody_to_dict) rs) \<and> custody_read_all f = Inr rs \<and> set out \<subseteq> set rs
          \<and> (\<forall>i b. Suc i < length rs \<longrightarrow>
               custody_verify h (Some \<lparr>ld_lines = map (Doc_Text \<circ> custody_to_dict) (take i rs @ drop (Suc i) rs), ld_open = b\<rparr>) \<noteq> Inr (True, []))
          \<and> (\<forall>n b. custody_verify h (Some \<lparr>ld_lines = map (Doc_Text \<circ> custody_to_dict) (take n rs), ld_open = b\<rparr>) = Inr (True, []))))"
proof (cases "s = Damaged")
  case True
  then show ?thesis
    using custody_run_inv [OF assms] custody.spoiled_reported by (fastforce simp: custody_verify_def)
next
  case False
  then obtain rs b where rs: "whole_log (cl_key h) out rs f b" using custody_run_inv [OF assms] by (cases s) auto
  then have w: "custody.written (cl_key h) 0 rs" and f: "map_option ld_lines f = Some (custody.file_of rs)" "custody_read_all f = Inr rs"
    by (auto simp: whole_log_def custody_read_all_def custody_read_own)
  have "custody_verify h f = Inr (True, [])" using custody.verify_own_file [OF w] f(1) unfolding custody_verify_def by metis
  moreover note custody.verify_deleted [OF w] custody.verify_truncated [OF w]
  moreover have "set out \<subseteq> set rs" using rs by (simp add: whole_log_def)
  ultimately show ?thesis using False f by (auto simp: custody_verify_def comp_def intro!: exI [of _ rs])
qed

text \<open>
  An object that goes on after a failed \<open>fsync\<close> breaks the log: the line of the call that
  raised is in the file, the next call returns a record with the same index, and the
  honest log no longer verifies.
\<close>

lemma failed_sync_breaks_log:
  assumes "custody_run sk h f In_Step out" and "record_transfer Not_Synced t a h f = (x, h1, f1)"
    and "record_transfer Synced u b h1 f1 = (Inr r, h2, f2)"
  shows "custody_verify h2 f2 \<noteq> Inr (True, [])"
  using custody_run_inv [OF Custody_Recorded [OF Custody_Recorded [OF assms(1,2)] assms(3)]] custody.spoiled_reported
  by (fastforce simp: custody_verify_def)

text \<open>
  A record that was returned can be unreadable: behind a line that was cut short the next
  call returns a record whose line is joined to the rest, and no reading of the file gives it.
\<close>

lemma torn_line_swallows_next:
  assumes "custody_run sk h f In_Step out" and "record_transfer Cut_Short t a h f = (x, h1, f1)"
    and "record_transfer Synced u b h1 f1 = (Inr r, h2, f2)"
  shows "\<exists>ls. f2 = Some \<lparr>ld_lines = ls @ [Bad_Text], ld_open = False\<rparr> \<and> custody_read_all f2 = Inl (ValueError ''JSONDecodeError'')"
proof -
  obtain rs where rs: "f = Some \<lparr>ld_lines = custody.file_of rs, ld_open = False\<rparr>"
    using custody_run_inv [OF assms(1)] by (auto simp: whole_log_def)
  have "f2 = Some \<lparr>ld_lines = custody.file_of rs @ [Bad_Text], ld_open = False\<rparr>"
    using assms(2,3) rs by (auto simp: record_transfer_def put_text_def Let_def)
  moreover have "custody_read_lines (custody.file_of rs @ [Bad_Text]) = Inl (ValueError ''JSONDecodeError'')"
    by (induction rs) (simp_all add: custody_from_to_dict)
  ultimately show ?thesis by (auto simp: custody_read_all_def)
qed

text \<open>
  Two objects on one file disagree: each counts the records when it is opened, so the log two
  writers fill in turn has an index twice and does not verify.
\<close>

theorem two_custody_writers:
  assumes "open_custody sk None = (Inr h, f0)" "open_custody sk f0 = (Inr g, f1)"
    and "record_transfer Synced t a h f1 = (Inr r, h', f2)" "record_transfer Synced u b g f2 = (Inr s, g', f3)"
  shows "custody_verify h' f3 \<noteq> Inr (True, [])"
proof -
  have hg: "cl_count h = 0" "cl_count g = 0" "cl_key g = cl_key h" "f1 = Some empty_log"
    using assms(1,2) by (auto simp: open_custody_def split: if_splits)
  obtain r' where r': "custody_own (cl_key h) 0 r'" "f2 = append_line Synced (custody_to_dict r') f1" "cl_key h' = cl_key h"
    using record_transfer_own [OF assms(3)] hg by metis
  obtain s' where s': "custody_own (cl_key h) 0 s'" "f3 = append_line Synced (custody_to_dict s') f2"
    using record_transfer_own [OF assms(4)] hg by metis
  have "custody.spoiled_file (cl_key h) (custody.file_of [r'] @ [Doc_Text (custody_to_dict s')])"
    by (rule custody.misplaced_spoils) (use r' s' in \<open>auto simp: custody.written_Cons custody.written_Nil custody.spoiled_def intro!: exI [of _ 0]\<close>)
  then show ?thesis using custody.spoiled_reported r' s' hg by (fastforce simp: custody_verify_def put_text_def)
qed

subsection \<open>A witness\<close>

definition demo_transfer :: transfer_args where
  "demo_transfer = \<lparr>ta_transferor = ''alice'', ta_transferee = ''bob'', ta_package_id = ''pkg'', ta_evidence_hash = [], ta_reason = [],
     ta_authorization = [], ta_extra = None, ta_timestamp_iso = Some ''2026-01-01''\<rparr>"

theorem custody_log_detects_gaps_witness:
  "\<exists>h f x h1 f1 h2 f2 r h3 f3 rs. open_custody ''k'' None = (Inr h, f) \<and> record_transfer Not_Synced [] demo_transfer h f = (x, h1, f1)
     \<and> open_custody ''k'' f1 = (Inr h2, f2) \<and> record_transfer Synced [] demo_transfer h2 f2 = (Inr r, h3, f3)
     \<and> custody_read_all f3 = Inr rs \<and> r \<in> set rs \<and> custody_verify h3 f3 = Inr (True, [])"
proof -
  obtain h f where o: "open_custody ''k'' None = (Inr h, f)" by (simp add: open_custody_def)
  obtain x h1 f1 where x: "record_transfer Not_Synced [] demo_transfer h f = (x, h1, f1)" by (simp add: record_transfer_def Let_def)
  then have "f1 \<noteq> None" by (auto simp: record_transfer_def put_text_def Let_def split: option.splits)
  then obtain h2 f2 where o2: "open_custody ''k'' f1 = (Inr h2, f2)" by (auto simp: open_custody_def)
  obtain r h3 f3 where r: "record_transfer Synced [] demo_transfer h2 f2 = (Inr r, h3, f3)" by (simp add: record_transfer_def Let_def)
  have "custody_run ''k'' h1 f1 Behind []"
    using Custody_Recorded [OF Custody_Created [OF o] x] x by (auto simp: record_transfer_def Let_def)
  from Custody_Recorded [OF Custody_Reopened [OF this o2] r] have "custody_run ''k'' h3 f3 In_Step [r]" by simp
  from custody_log_detects_gaps [OF this] show ?thesis using o x o2 r by fastforce
qed

end
