(* ===== verification/Export_Log.thy ===== *)
theory Export_Log
  imports Signed_Log
begin

section \<open>Compliance exports\<close>

text \<open>
  The model of \<^verbatim>\<open>aegis/core/export_audit_log.py\<close>: the signed entry of one export and the log
  object, which holds only its key and counts the lines of the file for every new entry.
  File and writes are as in the custody log.
\<close>

subsection \<open>Entries\<close>

definition LOG_VERSION :: int where "LOG_VERSION = 1"

definition HASH_ALGORITHM :: string where "HASH_ALGORITHM = ''HMAC-SHA256''"

record export_entry =
  ex_index :: pyval
  ex_timestamp_iso :: pyval
  ex_operator :: pyval
  ex_package_id :: pyval
  ex_client_ip :: pyval
  ex_api_key_hash :: pyval
  ex_node_count :: pyval
  ex_extra :: pyval
  ex_entry_sig :: pyval

definition export_body :: "export_entry \<Rightarrow> (string \<times> pyval) list" where
  "export_body e =
     [(''version'', PInt LOG_VERSION), (''index'', ex_index e), (''timestamp_iso'', ex_timestamp_iso e),
      (''operator'', ex_operator e), (''package_id'', ex_package_id e), (''client_ip'', ex_client_ip e),
      (''api_key_hash'', ex_api_key_hash e), (''node_count'', ex_node_count e), (''hash_algorithm'', PStr HASH_ALGORITHM)]"

definition export_to_dict :: "export_entry \<Rightarrow> pyval" where
  "export_to_dict e = PDict (export_body e @ [(''extra'', ex_extra e), (''entry_sig'', ex_entry_sig e)])"

definition export_from_dict :: "pyval \<Rightarrow> export_entry res" where
  "export_from_dict d =
     bind_res (doc_item d ''index'') (\<lambda>index.
     bind_res (doc_item d ''timestamp_iso'') (\<lambda>timestamp_iso.
     bind_res (doc_item d ''operator'') (\<lambda>operator.
     bind_res (doc_item d ''package_id'') (\<lambda>package_id.
     bind_res (doc_item d ''client_ip'') (\<lambda>client_ip.
     bind_res (doc_item d ''api_key_hash'') (\<lambda>api_key_hash.
     bind_res (doc_item d ''node_count'') (\<lambda>node_count.
       Inr \<lparr>ex_index = index, ex_timestamp_iso = timestamp_iso, ex_operator = operator, ex_package_id = package_id,
            ex_client_ip = client_ip, ex_api_key_hash = api_key_hash, ex_node_count = node_count,
            ex_extra = doc_get d ''extra'' (PDict []), ex_entry_sig = doc_get d ''entry_sig'' (PStr [])\<rparr>)))))))"

definition sign_entry :: "export_entry \<Rightarrow> bytes \<Rightarrow> string" where
  "sign_entry e key = hex (hmac_sha256 key (encode (json_value (PDict (export_body e)))))"

definition verify_entry_sig :: "bytes \<Rightarrow> export_entry \<Rightarrow> bool res" where
  "verify_entry_sig key e = compare_digest_value (sign_entry e key) (ex_entry_sig e)"

subsection \<open>The log\<close>

record export_args =
  ea_operator :: string
  ea_package_id :: string
  ea_client_ip :: string
  ea_api_key_hash :: string
  ea_node_count :: int
  ea_extra :: "(string \<times> pyval) list option"
  ea_timestamp_iso :: "string option"

text \<open>The log object is its key.\<close>

definition open_export :: "string \<Rightarrow> log_disk option \<Rightarrow> bytes res \<times> log_disk option" where
  "open_export signing_key file =
     (if signing_key = [] then (Inl (ValueError ''ExportAuditLog requires a non-empty signing_key''), file)
      else (Inr (encode signing_key), Some (case file of None \<Rightarrow> empty_log | Some d \<Rightarrow> d)))"

definition next_index :: "log_disk option \<Rightarrow> int" where
  "next_index file = (case file of None \<Rightarrow> 0 | Some d \<Rightarrow> count_records (ld_lines d))"

text \<open>\<open>timestamp_iso or now\<close>: an empty timestamp counts as none.\<close>

definition new_entry :: "int \<Rightarrow> string \<Rightarrow> export_args \<Rightarrow> export_entry" where
  "new_entry idx now_iso a =
     \<lparr>ex_index = PInt idx,
      ex_timestamp_iso = PStr (case ea_timestamp_iso a of None \<Rightarrow> now_iso | Some t \<Rightarrow> if t = [] then now_iso else t),
      ex_operator = PStr (ea_operator a), ex_package_id = PStr (ea_package_id a), ex_client_ip = PStr (ea_client_ip a),
      ex_api_key_hash = PStr (ea_api_key_hash a), ex_node_count = PInt (ea_node_count a),
      ex_extra = PDict (case ea_extra a of None \<Rightarrow> [] | Some d \<Rightarrow> d), ex_entry_sig = PStr []\<rparr>"

definition record_export ::
    "write_outcome \<Rightarrow> string \<Rightarrow> export_args \<Rightarrow> bytes \<Rightarrow> log_disk option \<Rightarrow> export_entry res \<times> log_disk option" where
  "record_export w now_iso a key file =
     (let blank = new_entry (next_index file) now_iso a;
          entry = blank\<lparr>ex_entry_sig := PStr (sign_entry blank key)\<rparr>;
          file' = append_line w (export_to_dict entry) file
      in (if w = Synced then Inr entry else Inl (OSError ''write failed''), file'))"

definition export_verify :: "bytes \<Rightarrow> log_disk option \<Rightarrow> (bool \<times> log_fault list) res" where
  "export_verify key file = verify_file export_from_dict ex_index (verify_entry_sig key) (map_option ld_lines file)"

text \<open>\<open>read_all\<close> skips lines that are not JSON or lack a field; a document that is no dict raises.\<close>

fun export_read_lines :: "log_text list \<Rightarrow> export_entry list res" where
  "export_read_lines [] = Inr []"
| "export_read_lines (Blank_Text # ls) = export_read_lines ls"
| "export_read_lines (Bad_Text # ls) = export_read_lines ls"
| "export_read_lines (Doc_Text d # ls) =
     (case export_from_dict d of
        Inr e \<Rightarrow> bind_res (export_read_lines ls) (\<lambda>es. Inr (e # es))
      | Inl (KeyError k) \<Rightarrow> export_read_lines ls
      | Inl x \<Rightarrow> Inl x)"

definition export_read_all :: "log_disk option \<Rightarrow> export_entry list res" where
  "export_read_all file = (case file of None \<Rightarrow> Inr [] | Some d \<Rightarrow> export_read_lines (ld_lines d))"

subsection \<open>The contract of a signed log\<close>

definition export_own :: "bytes \<Rightarrow> int \<Rightarrow> export_entry \<Rightarrow> bool" where
  "export_own key i e \<longleftrightarrow> ex_index e = PInt i \<and> ex_entry_sig e = PStr (sign_entry e key)"

lemma export_from_to_dict: "export_from_dict (export_to_dict e) = Inr e"
  by (simp add: export_from_dict_def export_to_dict_def export_body_def doc_item_def doc_get_def bind_res_def)

interpretation exports: signed_log export_from_dict ex_index "verify_entry_sig key" export_to_dict "export_own key"
  for key :: bytes
  by unfold_locales
    (auto simp: export_own_def export_from_to_dict verify_entry_sig_def compare_digest_value_def sign_entry_def hex_ascii)

lemma export_read_own: "export_read_lines (exports.file_of es) = Inr es"
  by (induction es) (simp_all add: export_from_to_dict)

text \<open>The entry a call writes, whether it returns it or raises.\<close>

lemma record_export_own:
  assumes "record_export w now_iso a key file = (res, file')"
  obtains e where "export_own key (next_index file) e" "file' = append_line w (export_to_dict e) file"
    "res = (if w = Synced then Inr e else Inl (OSError ''write failed''))"
proof -
  let ?blank = "new_entry (next_index file) now_iso a"
  let ?e = "?blank\<lparr>ex_entry_sig := PStr (sign_entry ?blank key)\<rparr>"
  have "export_own key (next_index file) ?e" by (simp add: export_own_def new_entry_def sign_entry_def export_body_def)
  then show ?thesis using assms by (intro that [of ?e]) (auto simp: record_export_def Let_def)
qed

text \<open>
  The lives of a log under one key, through any number of objects opened on it, in which a
  call that raises leaves its whole line or nothing.
\<close>

inductive export_run :: "string \<Rightarrow> bytes \<Rightarrow> log_disk option \<Rightarrow> bool" for signing_key where
  Export_Opened: "open_export signing_key None = (Inr key, f) \<Longrightarrow> export_run signing_key key f"
| Export_Recorded:
    "export_run signing_key key f \<Longrightarrow> w \<in> {Synced, Not_Synced, Not_Written} \<Longrightarrow> record_export w t a key f = (r, f')
     \<Longrightarrow> export_run signing_key key f'"
| Export_Reopened:
    "export_run signing_key key f \<Longrightarrow> open_export signing_key f = (Inr key', f') \<Longrightarrow> export_run signing_key key' f'"

lemma export_run_written:
  "export_run sk key f \<Longrightarrow>
   \<exists>es. f = Some \<lparr>ld_lines = exports.file_of es, ld_open = False\<rparr> \<and> exports.written key 0 es \<and> key = encode sk"
proof (induction rule: export_run.induct)
  case (Export_Opened key f)
  then show ?case by (auto simp: open_export_def exports.written_Nil split: if_splits)
next
  case (Export_Recorded key f w t a r f')
  then obtain es where es: "f = Some \<lparr>ld_lines = exports.file_of es, ld_open = False\<rparr>" "exports.written key 0 es" "key = encode sk" by blast
  obtain e where e: "export_own key (next_index f) e" "f' = append_line w (export_to_dict e) f"
    by (rule record_export_own [OF Export_Recorded.hyps(3)])
  have "exports.written key 0 (es @ [e])"
    using e(1) es exports.count_file [of es] by (simp add: exports.written_snoc next_index_def)
  then show ?case
    using Export_Recorded.hyps(2) e(2) es
    by (cases "w = Not_Written") (auto simp: put_text_def intro!: exI [of _ "if w = Not_Written then es else es @ [e]"])
next
  case (Export_Reopened key f key' f')
  then show ?case by (auto simp: open_export_def split: if_splits)
qed

text \<open>
  The export log proves its own history and no more: whatever was recorded through any
  objects on the file, across restarts and across failures that leave the whole line or
  nothing, the file reads back as its entries and verifies; with an entry other than the last
  ones missing it does not verify, and with the last ones missing, or with the \<open>extra\<close> field of
  every entry rewritten, it does.
\<close>

abbreviation export_disk :: "export_entry list \<Rightarrow> log_disk option" where
  "export_disk es \<equiv> Some \<lparr>ld_lines = map (Doc_Text \<circ> export_to_dict) es, ld_open = False\<rparr>"

theorem export_log_detects_gaps:
  assumes "export_run signing_key key f"
  shows "\<exists>es. f = export_disk es \<and> export_read_all f = Inr es \<and> export_verify key f = Inr (True, [])
    \<and> (\<forall>i. Suc i < length es \<longrightarrow> export_verify key (export_disk (take i es @ drop (Suc i) es)) \<noteq> Inr (True, []))
    \<and> (\<forall>n. export_verify key (export_disk (take n es)) = Inr (True, []))
    \<and> (\<forall>g. export_verify key (export_disk (map (\<lambda>e. e\<lparr>ex_extra := g e\<rparr>) es)) = Inr (True, []))"
proof -
  obtain es where es: "f = Some \<lparr>ld_lines = exports.file_of es, ld_open = False\<rparr>" "exports.written key 0 es"
    using export_run_written [OF assms] by blast
  have "exports.written key 0 (map (\<lambda>e. e\<lparr>ex_extra := g e\<rparr>) es)" for g
    using es(2) by (simp add: exports.written_def export_own_def sign_entry_def export_body_def)
  then have "export_verify key (export_disk (map (\<lambda>e. e\<lparr>ex_extra := g e\<rparr>) es)) = Inr (True, [])" for g
    using exports.verify_own_file [of key "map (\<lambda>e. e\<lparr>ex_extra := g e\<rparr>) es"] by (simp add: export_verify_def comp_def)
  moreover have "export_verify key f = Inr (True, [])" using exports.verify_own_file [OF es(2)] es(1) by (simp add: export_verify_def)
  moreover note exports.verify_deleted [OF es(2)] exports.verify_truncated [OF es(2)]
  ultimately show ?thesis
    using es(1) export_read_own [of es] by (intro exI [of _ es]) (auto simp: export_verify_def export_read_all_def comp_def)
qed

subsection \<open>A witness\<close>

definition demo_export :: export_args where
  "demo_export = \<lparr>ea_operator = ''alice'', ea_package_id = ''pkg'', ea_client_ip = ''unknown'', ea_api_key_hash = [], ea_node_count = 0,
     ea_extra = None, ea_timestamp_iso = Some ''2026-01-01''\<rparr>"

theorem export_log_detects_gaps_witness:
  "\<exists>key f e f' es. open_export ''k'' None = (Inr key, f) \<and> record_export Synced [] demo_export key f = (Inr e, f')
     \<and> export_read_all f' = Inr es \<and> length es = 1 \<and> export_verify key f' = Inr (True, [])"
proof -
  obtain key f where o: "open_export ''k'' None = (Inr key, f)" by (simp add: open_export_def)
  obtain e f' where r: "record_export Synced [] demo_export key f = (Inr e, f')" by (simp add: record_export_def Let_def)
  have run: "export_run ''k'' key f'" using Export_Recorded [OF Export_Opened [OF o] _ r] by simp
  have f': "f' = export_disk [e]" using o r by (auto simp: open_export_def record_export_def put_text_def Let_def)
  from export_log_detects_gaps [OF run] obtain es where
    "f' = export_disk es" "export_read_all f' = Inr es" "export_verify key f' = Inr (True, [])" by blast
  moreover from this(1) have "length es = 1" using f' by (cases es) auto
  ultimately show ?thesis using o r by blast
qed

end
