(* ===== verification/Terminal_Outbox.thy ===== *)
theory Terminal_Outbox
  imports Ledger Signed_Log "HOL-Library.AList"
begin

section \<open>The durable outbox of terminal evidence\<close>

text \<open>
  The model of \<^verbatim>\<open>aegis/proxy/terminal_outbox.py\<close>: the spool of pending terminal commits, its
  authenticated lines, strict decoding, and the operations of \<open>TerminalOutbox\<close>. The spool file
  is its lines with their lengths in bytes, a flag for a missing final newline and the
  quarantine file beside it; it survives the outbox object, which a crash discards. How a
  system call ends is an argument: a write is complete, undone, or leaves a torn tail; a
  compaction fails before the rename, after it, or not at all. A dict read back from a line
  keeps the order it was written in; nothing below depends on that order.
\<close>

definition RECORD_VERSION :: int where "RECORD_VERSION = 1"

definition MAC_DOMAIN :: string where "MAC_DOMAIN = ''aegis-terminal-outbox-mac-v1''"

definition COMPACT_AT_BYTES :: int where "COMPACT_AT_BYTES = 2 ^ 20"

definition MAX_REQUEST_BYTES :: int where "MAX_REQUEST_BYTES = 2 ^ 20"

definition TERMINAL_MEANINGS :: "string list" where
  "TERMINAL_MEANINGS = [''stream-terminal-evidence'', RECOVERED_TERMINAL_MEANING]"

definition derive_mac_key :: "string \<Rightarrow> bytes res" where
  "derive_mac_key signing_key =
     (if signing_key = [] then Inl (ValueError ''the terminal outbox needs a non-empty signing key to authenticate its spool'')
      else Inr (hmac_sha256 (encode signing_key) (encode MAC_DOMAIN)))"

subsection \<open>Entries\<close>

record replay_context =
  rc_state_id :: string
  rc_request_hash :: string
  rc_request_size :: int
  rc_tenant_id :: string
  rc_model :: string
  rc_endpoint :: string
  rc_phi_scrubbed :: bool
  rc_scrub_method :: string
  rc_append_stream_window_method :: bool
  rc_signer_name :: string

record spooled_summary =
  ss_response_hash :: string
  ss_response_size :: int
  ss_terminal_outcome :: string
  ss_final_marker_included :: bool
  ss_token_count :: int
  ss_elapsed_seconds :: py_float
  ss_redaction_hits :: "(string \<times> int) list"

record outbox_entry =
  ox_entry_id :: string
  ox_context :: replay_context
  ox_summary :: spooled_summary

definition commit_kwargs :: "outbox_entry \<Rightarrow> summary_args" where
  "commit_kwargs e =
     (let c = ox_context e; s = ox_summary e; hits = ss_redaction_hits s;
          scrub_method = (if rc_append_stream_window_method c \<and> hits \<noteq> []
                          then dropWhile (\<lambda>ch. ch = CHR ''+'') (rc_scrub_method c @ ''+stream_window_regex'')
                          else rc_scrub_method c)
      in \<lparr>sa_state_id = rc_state_id c, sa_request_bytes = None,
          sa_request_digest = Some (rc_request_hash c, rc_request_size c), sa_response_hash = ss_response_hash s,
          sa_response_size = ss_response_size s, sa_response_preview = [], sa_terminal_outcome = ss_terminal_outcome s,
          sa_final_marker_included = ss_final_marker_included s, sa_token_count = ss_token_count s,
          sa_elapsed_seconds = ss_elapsed_seconds s, sa_redaction_hits = hits, sa_tenant_id = rc_tenant_id c,
          sa_model = rc_model c, sa_endpoint = rc_endpoint c, sa_phi_scrubbed = (rc_phi_scrubbed c \<or> hits \<noteq> []),
          sa_scrub_method = scrub_method, sa_signer_name = rc_signer_name c,
          sa_signature_meaning = RECOVERED_TERMINAL_MEANING\<rparr>)"

text \<open>\<open>asdict\<close> of the two halves of an entry.\<close>

definition context_dict :: "replay_context \<Rightarrow> (string \<times> pyval) list" where
  "context_dict c =
     [(''state_id'', PStr (rc_state_id c)), (''request_hash'', PStr (rc_request_hash c)),
      (''request_size'', PInt (rc_request_size c)), (''tenant_id'', PStr (rc_tenant_id c)), (''model'', PStr (rc_model c)),
      (''endpoint'', PStr (rc_endpoint c)), (''phi_scrubbed'', PBool (rc_phi_scrubbed c)),
      (''scrub_method'', PStr (rc_scrub_method c)), (''append_stream_window_method'', PBool (rc_append_stream_window_method c)),
      (''signer_name'', PStr (rc_signer_name c))]"

definition summary_dict :: "spooled_summary \<Rightarrow> (string \<times> pyval) list" where
  "summary_dict s =
     [(''response_hash'', PStr (ss_response_hash s)), (''response_size'', PInt (ss_response_size s)),
      (''terminal_outcome'', PStr (ss_terminal_outcome s)), (''final_marker_included'', PBool (ss_final_marker_included s)),
      (''token_count'', PInt (ss_token_count s)), (''elapsed_seconds'', float_value (ss_elapsed_seconds s)),
      (''redaction_hits'', PDict (map (\<lambda>(k, v). (k, PInt v)) (ss_redaction_hits s)))]"

subsection \<open>Strict decoding\<close>

definition is_digest :: "string \<Rightarrow> bool" where
  "is_digest s \<longleftrightarrow> length s = 64 \<and> set s \<subseteq> set ''0123456789abcdef''"

definition str_field :: "(string \<times> pyval) list \<Rightarrow> string \<Rightarrow> string res" where
  "str_field al name = (case map_of al name of Some (PStr s) \<Rightarrow> Inr s | _ \<Rightarrow> Inl (ValueError (name @ '' is not a string'')))"

definition bool_field :: "(string \<times> pyval) list \<Rightarrow> string \<Rightarrow> bool res" where
  "bool_field al name = (case map_of al name of Some (PBool b) \<Rightarrow> Inr b | _ \<Rightarrow> Inl (ValueError (name @ '' is not a bool'')))"

definition digest_field :: "(string \<times> pyval) list \<Rightarrow> string \<Rightarrow> string res" where
  "digest_field al name =
     (case map_of al name of
        Some (PStr s) \<Rightarrow> if is_digest s then Inr s else Inl (ValueError (name @ '' is not a SHA-256 hex digest''))
      | _ \<Rightarrow> Inl (ValueError (name @ '' is not a SHA-256 hex digest'')))"

definition int_field :: "(string \<times> pyval) list \<Rightarrow> string \<Rightarrow> (int \<Rightarrow> bool) \<Rightarrow> int res" where
  "int_field al name in_range =
     (case map_of al name of
        Some (PInt i) \<Rightarrow> if in_range i then Inr i else Inl (ValueError (name @ '' out of range''))
      | _ \<Rightarrow> Inl (ValueError (name @ '' out of range'')))"

text \<open>\<open>math.isfinite\<close> and \<open>float\<close> of an int round to a double and raise \<open>OverflowError\<close> beyond the largest one.\<close>

definition elapsed_field :: "(string \<times> pyval) list \<Rightarrow> py_float res" where
  "elapsed_field al =
     (case map_of al ''elapsed_seconds'' of
        Some (PFloat q) \<Rightarrow> if q < 0 then Inl (ValueError ''elapsed_seconds out of range'') else Inr (Fin q)
      | Some (PNonFinite _) \<Rightarrow> Inl (ValueError ''elapsed_seconds out of range'')
      | Some (PInt i) \<Rightarrow>
          if 2 ^ 1024 - 2 ^ 970 \<le> \<bar>i\<bar> then Inl (RuntimeError ''OverflowError'')
          else if i < 0 then Inl (ValueError ''elapsed_seconds out of range'')
          else Inr (Fin (to_double (of_int i)))
      | _ \<Rightarrow> Inl (ValueError ''elapsed_seconds is not a number''))"

fun count_items :: "(string \<times> pyval) list \<Rightarrow> (string \<times> int) list option" where
  "count_items [] = Some []"
| "count_items ((k, v) # kvs) =
     (case v of
        PInt i \<Rightarrow> if i < 0 then None else (case count_items kvs of None \<Rightarrow> None | Some rest \<Rightarrow> Some ((k, i) # rest))
      | _ \<Rightarrow> None)"

definition hits_field :: "(string \<times> pyval) list \<Rightarrow> (string \<times> int) list res" where
  "hits_field al =
     (case map_of al ''redaction_hits'' of
        Some (PDict kvs) \<Rightarrow>
          (case count_items kvs of
             Some hits \<Rightarrow> Inr hits
           | None \<Rightarrow> Inl (ValueError ''redaction_hits is not a str -> non-negative int map''))
      | _ \<Rightarrow> Inl (ValueError ''redaction_hits is not a str -> non-negative int map''))"

definition context_fields :: "string list" where
  "context_fields = [''state_id'', ''request_hash'', ''request_size'', ''tenant_id'', ''model'', ''endpoint'', ''phi_scrubbed'',
     ''scrub_method'', ''append_stream_window_method'', ''signer_name'']"

definition summary_fields :: "string list" where
  "summary_fields = [''response_hash'', ''response_size'', ''terminal_outcome'', ''final_marker_included'', ''token_count'',
     ''elapsed_seconds'', ''redaction_hits'']"

definition context_from :: "pyval \<Rightarrow> replay_context res" where
  "context_from raw =
     (case raw of
        PDict al \<Rightarrow>
          if set (map fst al) \<noteq> set context_fields then Inl (ValueError ''context fields do not match'')
          else
            bind_res (str_field al ''state_id'') (\<lambda>state_id.
            bind_res (str_field al ''tenant_id'') (\<lambda>tenant_id.
            bind_res (str_field al ''model'') (\<lambda>model.
            bind_res (str_field al ''endpoint'') (\<lambda>endpoint.
            bind_res (str_field al ''scrub_method'') (\<lambda>scrub_method.
            bind_res (str_field al ''signer_name'') (\<lambda>signer_name.
            bind_res (bool_field al ''phi_scrubbed'') (\<lambda>phi_scrubbed.
            bind_res (bool_field al ''append_stream_window_method'') (\<lambda>append_method.
            bind_res (digest_field al ''request_hash'') (\<lambda>request_hash.
            bind_res (int_field al ''request_size'' (\<lambda>n. 0 \<le> n \<and> n \<le> MAX_REQUEST_BYTES)) (\<lambda>request_size.
              Inr \<lparr>rc_state_id = state_id, rc_request_hash = request_hash, rc_request_size = request_size,
                   rc_tenant_id = tenant_id, rc_model = model, rc_endpoint = endpoint, rc_phi_scrubbed = phi_scrubbed,
                   rc_scrub_method = scrub_method, rc_append_stream_window_method = append_method,
                   rc_signer_name = signer_name\<rparr>))))))))))
      | _ \<Rightarrow> Inl (ValueError ''context fields do not match''))"

definition summary_from :: "pyval \<Rightarrow> spooled_summary res" where
  "summary_from raw =
     (case raw of
        PDict al \<Rightarrow>
          if set (map fst al) \<noteq> set summary_fields then Inl (ValueError ''summary fields do not match'')
          else
            bind_res (digest_field al ''response_hash'') (\<lambda>response_hash.
            bind_res (int_field al ''response_size'' (\<lambda>n. 0 \<le> n)) (\<lambda>response_size.
            bind_res (int_field al ''token_count'' (\<lambda>n. 0 \<le> n)) (\<lambda>token_count.
            bind_res (str_field al ''terminal_outcome'') (\<lambda>terminal_outcome.
            bind_res (bool_field al ''final_marker_included'') (\<lambda>final_marker.
            bind_res (elapsed_field al) (\<lambda>elapsed.
            bind_res (hits_field al) (\<lambda>hits.
              Inr \<lparr>ss_response_hash = response_hash, ss_response_size = response_size, ss_terminal_outcome = terminal_outcome,
                   ss_final_marker_included = final_marker, ss_token_count = token_count, ss_elapsed_seconds = elapsed,
                   ss_redaction_hits = hits\<rparr>)))))))
      | _ \<Rightarrow> Inl (ValueError ''summary fields do not match''))"

subsection \<open>Lines\<close>

definition canonical_doc :: "(string \<times> pyval) list \<Rightarrow> string res" where
  "canonical_doc payload =
     (if finite_json (PDict payload) then Inr (json_value (PDict payload))
      else Inl (ValueError ''Out of range float values are not JSON compliant''))"

definition line_mac :: "bytes \<Rightarrow> string \<Rightarrow> string" where
  "line_mac mac_key body = hex (hmac_sha256 mac_key (encode body))"

definition signed_line :: "bytes \<Rightarrow> (string \<times> pyval) list \<Rightarrow> pyval res" where
  "signed_line mac_key payload =
     bind_res (canonical_doc payload) (\<lambda>body. Inr (PDict (payload @ [(''mac'', PStr (line_mac mac_key body))])))"

text \<open>The bytes of a line, its newline included.\<close>

definition line_size :: "pyval \<Rightarrow> nat" where
  "line_size d = length (json_value d) + 1"

definition pending_line :: "bytes \<Rightarrow> outbox_entry \<Rightarrow> pyval res" where
  "pending_line mac_key e =
     signed_line mac_key
       [(''v'', PInt RECORD_VERSION), (''op'', PStr ''pending''), (''id'', PStr (ox_entry_id e)),
        (''ctx'', PDict (context_dict (ox_context e))), (''summary'', PDict (summary_dict (ox_summary e)))]"

definition done_line :: "bytes \<Rightarrow> string \<Rightarrow> pyval res" where
  "done_line mac_key entry_id =
     signed_line mac_key [(''v'', PInt RECORD_VERSION), (''op'', PStr ''done''), (''id'', PStr entry_id)]"

subsection \<open>Loading a spool\<close>

type_synonym pending_set = "(string \<times> outbox_entry) list"

text \<open>
  The body of the \<open>try\<close> for one parsed line: authentication, then what an authentic record
  does to the pending set.
\<close>

definition apply_pending :: "(string \<times> pyval) list \<Rightarrow> string \<Rightarrow> pending_set \<Rightarrow> pending_set res" where
  "apply_pending rec entry_id pending =
     bind_res (doc_item (PDict rec) ''ctx'') (\<lambda>raw_ctx.
     bind_res (context_from raw_ctx) (\<lambda>ctx.
     bind_res (doc_item (PDict rec) ''summary'') (\<lambda>raw_summary.
     bind_res (summary_from raw_summary) (\<lambda>summary.
       Inr (AList.update entry_id \<lparr>ox_entry_id = entry_id, ox_context = ctx, ox_summary = summary\<rparr> pending)))))"

definition apply_op :: "(string \<times> pyval) list \<Rightarrow> string \<Rightarrow> pending_set \<Rightarrow> pending_set res" where
  "apply_op rec entry_id pending =
     bind_res (doc_item (PDict rec) ''op'') (\<lambda>op.
       if op = PStr ''done'' then Inr (AList.delete entry_id pending)
       else if op = PStr ''pending'' then apply_pending rec entry_id pending
       else Inl (ValueError ''unknown op''))"

definition apply_record :: "(string \<times> pyval) list \<Rightarrow> pending_set \<Rightarrow> pending_set res" where
  "apply_record rec pending =
     (if \<not> (case map_of rec ''v'' of Some v \<Rightarrow> py_eq_int v RECORD_VERSION | None \<Rightarrow> False)
      then Inl (ValueError ''unsupported record version'')
      else
        bind_res (doc_item (PDict rec) ''id'') (\<lambda>entry_id.
          case entry_id of
            PStr i \<Rightarrow> if i = [] then Inl (ValueError ''bad id'') else apply_op rec i pending
          | _ \<Rightarrow> Inl (ValueError ''bad id'')))"

definition load_line :: "bytes \<Rightarrow> pyval \<Rightarrow> pending_set \<Rightarrow> pending_set res" where
  "load_line mac_key d pending =
     (case d of
        PDict al \<Rightarrow>
          let rec = filter (\<lambda>kv. fst kv \<noteq> ''mac'') al in
          bind_res (canonical_doc rec) (\<lambda>body.
          bind_res (case map_of al ''mac'' of
                      Some (PStr mac) \<Rightarrow> compare_digest_value (line_mac mac_key body) (PStr mac)
                    | _ \<Rightarrow> Inr False) (\<lambda>authentic.
            if \<not> authentic then Inl (ValueError ''authentication failed'') else apply_record rec pending))
      | _ \<Rightarrow> Inl (ValueError ''not an object''))"

definition load_caught :: "exn \<Rightarrow> bool" where
  "load_caught e = (case e of ValueError _ \<Rightarrow> True | KeyError _ \<Rightarrow> True | TypeError _ \<Rightarrow> True | _ \<Rightarrow> False)"

fun load_spool :: "bytes \<Rightarrow> log_text list \<Rightarrow> pending_set \<times> log_text list \<Rightarrow> (pending_set \<times> log_text list) res" where
  "load_spool mac_key [] st = Inr st"
| "load_spool mac_key (Blank_Text # ls) st = load_spool mac_key ls st"
| "load_spool mac_key (Bad_Text # ls) (pending, rejected) = load_spool mac_key ls (pending, rejected @ [Bad_Text])"
| "load_spool mac_key (Doc_Text d # ls) (pending, rejected) =
     (case load_line mac_key d pending of
        Inr pending' \<Rightarrow> load_spool mac_key ls (pending', rejected)
      | Inl e \<Rightarrow> if load_caught e then load_spool mac_key ls (pending, rejected @ [Doc_Text d]) else Inl e)"

subsection \<open>The outbox\<close>

record spool =
  sp_lines :: "(nat \<times> log_text) list"
  sp_torn :: bool
  sp_quarantine :: "log_text list"

definition spool_size :: "spool \<Rightarrow> int" where
  "spool_size sp = int (sum_list (map fst (sp_lines sp)))"

record outbox =
  ob_mac_key :: bytes
  ob_open :: bool
  ob_max_bytes :: int
  ob_max_pending :: int
  ob_compact_at :: int
  ob_pending :: pending_set
  ob_size :: int
  ob_corrupt_lines :: nat
  ob_spooled :: nat
  ob_skipped :: nat
  ob_errors :: nat

definition count_error :: "outbox \<Rightarrow> outbox" where
  "count_error ob = ob\<lparr>ob_errors := ob_errors ob + 1\<rparr>"

text \<open>
  How \<open>os.write\<close> and the repair after it end: all bytes written, none left behind, or \<open>n\<close> bytes
  left behind and the descriptor closed. A tail that lacks only the newline is a whole line.
\<close>

datatype append_io = Write_Ok | Write_Restored | Write_Torn nat

definition torn_tail :: "nat \<Rightarrow> pyval \<Rightarrow> spool \<Rightarrow> spool" where
  "torn_tail n d sp =
     (if n = 0 then sp
      else if n + 1 < line_size d then sp\<lparr>sp_lines := sp_lines sp @ [(n, Bad_Text)], sp_torn := True\<rparr>
      else sp\<lparr>sp_lines := sp_lines sp @ [(line_size d - 1, Doc_Text d)], sp_torn := True\<rparr>)"

definition append_data :: "append_io \<Rightarrow> pyval \<Rightarrow> outbox \<Rightarrow> spool \<Rightarrow> unit res \<times> outbox \<times> spool" where
  "append_data io d ob sp =
     (if \<not> ob_open ob then (Inl (OSError ''terminal outbox is closed''), ob, sp)
      else case io of
        Write_Ok \<Rightarrow>
          (Inr (), ob\<lparr>ob_size := ob_size ob + int (line_size d)\<rparr>, sp\<lparr>sp_lines := sp_lines sp @ [(line_size d, Doc_Text d)]\<rparr>)
      | Write_Restored \<Rightarrow> (Inl (OSError ''short write to terminal outbox''), ob, sp)
      | Write_Torn n \<Rightarrow> (Inl (OSError ''short write to terminal outbox''), ob\<lparr>ob_open := False\<rparr>, torn_tail n d sp))"

fun pending_lines :: "bytes \<Rightarrow> outbox_entry list \<Rightarrow> pyval list res" where
  "pending_lines mac_key [] = Inr []"
| "pending_lines mac_key (e # es) =
     bind_res (pending_line mac_key e) (\<lambda>d. bind_res (pending_lines mac_key es) (\<lambda>ds. Inr (d # ds)))"

datatype compact_io = Compact_Ok | Compact_Failed | Compact_Unsynced

definition compacted :: "pyval list \<Rightarrow> spool \<Rightarrow> spool" where
  "compacted ds sp = sp\<lparr>sp_lines := map (\<lambda>d. (line_size d, Doc_Text d)) ds, sp_torn := False\<rparr>"

definition compact :: "compact_io \<Rightarrow> outbox \<Rightarrow> spool \<Rightarrow> unit res \<times> outbox \<times> spool" where
  "compact io ob sp =
     (if \<not> ob_open ob then (Inr (), ob, sp)
      else case pending_lines (ob_mac_key ob) (map snd (ob_pending ob)) of
        Inl e \<Rightarrow> (Inl e, ob, sp)
      | Inr ds \<Rightarrow>
          let ob1 = ob\<lparr>ob_size := spool_size (compacted ds sp)\<rparr> in
          (case io of
             Compact_Ok \<Rightarrow> (Inr (), ob1, compacted ds sp)
           | Compact_Unsynced \<Rightarrow> (Inr (), count_error ob1, compacted ds sp)
           | Compact_Failed \<Rightarrow> (Inr (), count_error ob, sp)))"

text \<open>\<open>if guard: self.compact()\<close> inside the \<open>try\<close> of a caller.\<close>

definition compact_when :: "bool \<Rightarrow> compact_io \<Rightarrow> outbox \<Rightarrow> spool \<Rightarrow> unit res \<times> outbox \<times> spool" where
  "compact_when b io ob sp = (if b then compact io ob sp else (Inr (), ob, sp))"

definition skip_record :: "outbox \<Rightarrow> outbox" where
  "skip_record ob = ob\<lparr>ob_skipped := ob_skipped ob + 1\<rparr>"

record record_io =
  ri_first :: compact_io
  ri_second :: compact_io
  ri_append :: append_io

definition record_entry :: "record_io \<Rightarrow> outbox_entry \<Rightarrow> outbox \<Rightarrow> spool \<Rightarrow> string option \<times> outbox \<times> spool" where
  "record_entry io e ob sp =
     (case compact_when (ob_size ob \<ge> ob_max_bytes ob) (ri_first io) ob sp of
        (Inl _, ob1, sp1) \<Rightarrow> (None, count_error ob1, sp1)
      | (Inr _, ob1, sp1) \<Rightarrow>
          if int (length (ob_pending ob1)) \<ge> ob_max_pending ob1 \<or> ob_size ob1 \<ge> ob_max_bytes ob1
          then (None, skip_record ob1, sp1)
          else
            (case pending_line (ob_mac_key ob1) e of
               Inl _ \<Rightarrow> (None, count_error ob1, sp1)
             | Inr d \<Rightarrow>
                 (case compact_when (ob_size ob1 + int (line_size d) > ob_max_bytes ob1) (ri_second io) ob1 sp1 of
                    (Inl _, ob2, sp2) \<Rightarrow> (None, count_error ob2, sp2)
                  | (Inr _, ob2, sp2) \<Rightarrow>
                      if ob_size ob2 + int (line_size d) > ob_max_bytes ob2 then (None, skip_record ob2, sp2)
                      else
                        (case append_data (ri_append io) d ob2 sp2 of
                           (Inl _, ob3, sp3) \<Rightarrow> (None, count_error ob3, sp3)
                         | (Inr _, ob3, sp3) \<Rightarrow>
                             (Some (ox_entry_id e),
                              ob3\<lparr>ob_pending := AList.update (ox_entry_id e) e (ob_pending ob3), ob_spooled := ob_spooled ob3 + 1\<rparr>,
                              sp3)))))"

record done_io =
  di_compact :: compact_io
  di_append :: append_io

definition mark_done :: "done_io \<Rightarrow> string \<Rightarrow> outbox \<Rightarrow> spool \<Rightarrow> outbox \<times> spool" where
  "mark_done io entry_id ob sp =
     (if map_of (ob_pending ob) entry_id = None then (ob, sp)
      else
        let ob1 = ob\<lparr>ob_pending := AList.delete entry_id (ob_pending ob)\<rparr> in
        (case done_line (ob_mac_key ob1) entry_id of
           Inl _ \<Rightarrow> (count_error ob1, sp)
         | Inr d \<Rightarrow>
             if ob_size ob1 + int (line_size d) > ob_max_bytes ob1 then
               (case compact (di_compact io) ob1 sp of
                  (Inl _, ob2, sp2) \<Rightarrow> (count_error ob2, sp2)
                | (Inr _, ob2, sp2) \<Rightarrow> (ob2, sp2))
             else
               (case append_data (di_append io) d ob1 sp of
                  (Inl _, ob2, sp2) \<Rightarrow> (count_error ob2, sp2)
                | (Inr _, ob2, sp2) \<Rightarrow>
                    (case compact_when (ob_size ob2 \<ge> ob_compact_at ob2) (di_compact io) ob2 sp2 of
                       (Inl _, ob3, sp3) \<Rightarrow> (count_error ob3, sp3)
                     | (Inr _, ob3, sp3) \<Rightarrow> (ob3, sp3)))))"

definition sync_outbox :: "bool \<Rightarrow> outbox \<Rightarrow> outbox" where
  "sync_outbox ok ob = (if ob_open ob \<and> \<not> ok then count_error ob else ob)"

definition close_outbox :: "outbox \<Rightarrow> outbox" where
  "close_outbox ob = ob\<lparr>ob_open := False\<rparr>"

definition new_outbox :: "bytes \<Rightarrow> int \<Rightarrow> int \<Rightarrow> pending_set \<Rightarrow> int \<Rightarrow> nat \<Rightarrow> outbox" where
  "new_outbox mac_key max_bytes max_pending pending bytes_now corrupt =
     \<lparr>ob_mac_key = mac_key, ob_open = True, ob_max_bytes = max_bytes, ob_max_pending = max_pending,
      ob_compact_at = max 1 (min COMPACT_AT_BYTES (max_bytes div 2)), ob_pending = pending, ob_size = bytes_now,
      ob_corrupt_lines = corrupt, ob_spooled = 0, ob_skipped = 0, ob_errors = 0\<rparr>"

text \<open>The newline that isolates a torn tail.\<close>

definition terminate_tail :: "spool \<Rightarrow> spool" where
  "terminate_tail sp =
     (if sp_torn sp \<and> sp_lines sp \<noteq> []
      then sp\<lparr>sp_lines := butlast (sp_lines sp) @ [(fst (last (sp_lines sp)) + 1, snd (last (sp_lines sp)))], sp_torn := False\<rparr>
      else sp)"

text \<open>An opening that fails has written the newline or not; one that does not fail may compact.\<close>

datatype open_io = Open_Ok compact_io | Open_Failed bool

definition open_outbox :: "open_io \<Rightarrow> bytes \<Rightarrow> int \<Rightarrow> int \<Rightarrow> spool \<Rightarrow> outbox res \<times> spool" where
  "open_outbox io mac_key max_bytes max_pending sp =
     (if mac_key = [] then (Inl (ValueError ''mac_key must be non-empty''), sp)
      else case io of
        Open_Failed terminated \<Rightarrow> (Inl (OSError ''open failed''), if terminated then terminate_tail sp else sp)
      | Open_Ok cio \<Rightarrow>
          let sp1 = terminate_tail sp in
          (case load_spool mac_key (map snd (sp_lines sp1)) ([], []) of
             Inl e \<Rightarrow> (Inl e, sp1)
           | Inr (pending, rejected) \<Rightarrow>
               let sp2 = sp1\<lparr>sp_quarantine := sp_quarantine sp1 @ rejected\<rparr>;
                   ob = new_outbox mac_key max_bytes max_pending pending (spool_size sp2) (length rejected)
               in if rejected \<noteq> [] \<or> spool_size sp2 \<ge> ob_compact_at ob
                  then (case compact cio ob sp2 of
                          (Inl e, ob1, sp3) \<Rightarrow> (Inl e, sp3)
                        | (Inr _, ob1, sp3) \<Rightarrow> (Inr ob1, sp3))
                  else (Inr ob, sp2)))"

end
