(* ===== verification/Outbox_Durable.thy ===== *)
theory Outbox_Durable
  imports Terminal_Outbox
begin

section \<open>What the outbox keeps\<close>

text \<open>
  An accepted record that the loader can read is found again after a crash of the process: the
  lines of the spool always load to a pending set that contains it, whichever writes and
  compactions failed. \<open>record\<close> takes every entry whose line can be written; the loader is
  stricter, and what it refuses is moved to the quarantine file by the next start.
\<close>

subsection \<open>Valid entries survive their line\<close>

text \<open>
  What the loader accepts. The identifier, the digests, the lengths and the counts are made by
  the program within these limits; the request size is the length of the body, which the
  configuration bounds by 1 MiB unless it is raised.
\<close>

definition entry_valid :: "outbox_entry \<Rightarrow> bool" where
  "entry_valid e \<longleftrightarrow>
     ox_entry_id e \<noteq> [] \<and> is_digest (rc_request_hash (ox_context e))
     \<and> 0 \<le> rc_request_size (ox_context e) \<and> rc_request_size (ox_context e) \<le> MAX_REQUEST_BYTES
     \<and> is_digest (ss_response_hash (ox_summary e)) \<and> 0 \<le> ss_response_size (ox_summary e) \<and> 0 \<le> ss_token_count (ox_summary e)
     \<and> float_nonneg (ss_elapsed_seconds (ox_summary e)) \<and> list_all (\<lambda>(k, v). 0 \<le> v) (ss_redaction_hits (ox_summary e))"

lemma context_roundtrip:
  assumes "is_digest (rc_request_hash c)" "0 \<le> rc_request_size c" "rc_request_size c \<le> MAX_REQUEST_BYTES"
  shows "context_from (PDict (context_dict c)) = Inr c"
proof -
  have "set (map fst (context_dict c)) = set context_fields" by (simp add: context_dict_def context_fields_def)
  with assms show ?thesis
    by (simp add: context_from_def context_dict_def str_field_def bool_field_def digest_field_def int_field_def bind_res_def)
qed

lemma count_items_dict: "list_all (\<lambda>(k, v). 0 \<le> v) hits \<Longrightarrow> count_items (map (\<lambda>(k, v). (k, PInt v)) hits) = Some hits"
  by (induction hits) auto

lemma float_nonneg_cases: "float_nonneg x \<Longrightarrow> \<exists>q\<ge>0. x = Fin q"
  by (cases x) auto

lemma summary_roundtrip:
  assumes "is_digest (ss_response_hash s)" "0 \<le> ss_response_size s" "0 \<le> ss_token_count s" "float_nonneg (ss_elapsed_seconds s)"
    "list_all (\<lambda>(k, v). 0 \<le> v) (ss_redaction_hits s)"
  shows "summary_from (PDict (summary_dict s)) = Inr s"
proof -
  have "set (map fst (summary_dict s)) = set summary_fields" by (simp add: summary_dict_def summary_fields_def)
  moreover obtain q where "0 \<le> q" "ss_elapsed_seconds s = Fin q" using float_nonneg_cases [OF assms(4)] by blast
  ultimately show ?thesis using assms
    by (simp add: summary_from_def summary_dict_def str_field_def bool_field_def digest_field_def int_field_def elapsed_field_def
        hits_field_def count_items_dict bind_res_def)
qed

lemma finite_counts: "list_all (\<lambda>kv. finite_json (snd kv)) (map (\<lambda>(k, v). (k, PInt v)) hits)"
  by (induction hits) auto

lemma load_signed_line:
  assumes "signed_line key payload = Inr d" "''mac'' \<notin> fst ` set payload"
  shows "load_line key d p = apply_record payload p"
proof -
  obtain body where b: "canonical_doc payload = Inr body" "d = PDict (payload @ [(''mac'', PStr (line_mac key body))])"
    using assms(1) by (auto simp: signed_line_def bind_res_eq_Inr)
  have f: "filter (\<lambda>kv. fst kv \<noteq> ''mac'') (payload @ [(''mac'', v)]) = payload" for v
    using assms(2) by (auto simp: filter_id_conv image_iff)
  have m: "map_of (payload @ [(''mac'', v)]) ''mac'' = Some v" for v
    using assms(2) by (simp add: map_add_Some_iff map_of_eq_None_iff)
  have "compare_digest_value (line_mac key body) (PStr (line_mac key body)) = Inr True"
    by (simp add: compare_digest_value_def line_mac_def hex_ascii)
  then show ?thesis unfolding b(2) load_line_def Let_def pyval.case f m b(1) by (simp add: bind_res_def)
qed

lemma pending_line_loads:
  assumes "entry_valid e"
  obtains d where "pending_line key e = Inr d" "\<And>p. load_line key d p = Inr (AList.update (ox_entry_id e) e p)"
proof -
  let ?p = "[(''v'', PInt RECORD_VERSION), (''op'', PStr ''pending''), (''id'', PStr (ox_entry_id e)),
        (''ctx'', PDict (context_dict (ox_context e))), (''summary'', PDict (summary_dict (ox_summary e)))]"
  obtain q where "ss_elapsed_seconds (ox_summary e) = Fin q" using assms float_nonneg_cases by (auto simp: entry_valid_def)
  then have "finite_json (PDict ?p)" by (simp add: context_dict_def summary_dict_def finite_counts)
  then obtain d where d: "signed_line key ?p = Inr d" by (simp add: signed_line_def canonical_doc_def bind_res_def)
  have "load_line key d p = Inr (AList.update (ox_entry_id e) e p)" for p
    using assms load_signed_line [OF d, of p] context_roundtrip [of "ox_context e"] summary_roundtrip [of "ox_summary e"]
    by (cases e) (simp add: entry_valid_def apply_record_def apply_op_def apply_pending_def doc_item_def bind_res_def)
  with d that show thesis by (simp add: pending_line_def)
qed

text \<open>An entry whose line can be written, and the refusal of one that is not valid.\<close>

definition spoolable :: "outbox_entry \<Rightarrow> bool" where
  "spoolable e \<longleftrightarrow> ox_entry_id e \<noteq> [] \<and> is_finite (ss_elapsed_seconds (ox_summary e))"

lemma valid_spoolable: "entry_valid e \<Longrightarrow> spoolable e"
  using float_nonneg_cases by (fastforce simp: entry_valid_def spoolable_def)

lemma context_refused:
  assumes "\<not> (is_digest (rc_request_hash c) \<and> 0 \<le> rc_request_size c \<and> rc_request_size c \<le> MAX_REQUEST_BYTES)"
  shows "\<exists>m. context_from (PDict (context_dict c)) = Inl (ValueError m)"
proof -
  have "set (map fst (context_dict c)) = set context_fields" by (simp add: context_dict_def context_fields_def)
  with assms show ?thesis
    by (auto simp: context_from_def context_dict_def str_field_def bool_field_def digest_field_def int_field_def bind_res_def)
qed

lemma count_items_refused: "\<not> list_all (\<lambda>(k, v). 0 \<le> v) hits \<Longrightarrow> count_items (map (\<lambda>(k, v). (k, PInt v)) hits) = None"
  by (induction hits) auto

lemma summary_refused:
  assumes "ss_elapsed_seconds s = Fin q" and "\<not> (is_digest (ss_response_hash s) \<and> 0 \<le> ss_response_size s \<and> 0 \<le> ss_token_count s
    \<and> 0 \<le> q \<and> list_all (\<lambda>(k, v). 0 \<le> v) (ss_redaction_hits s))"
  shows "\<exists>m. summary_from (PDict (summary_dict s)) = Inl (ValueError m)"
proof -
  have "set (map fst (summary_dict s)) = set summary_fields" by (simp add: summary_dict_def summary_fields_def)
  with assms show ?thesis
    by (auto simp: summary_from_def summary_dict_def str_field_def bool_field_def digest_field_def int_field_def elapsed_field_def
        hits_field_def count_items_dict count_items_refused bind_res_def)
qed

text \<open>What a line does when it is loaded: it changes the pending set, or is rejected and leaves it.\<close>

definition line_effect :: "bytes \<Rightarrow> pyval \<Rightarrow> (pending_set \<Rightarrow> pending_set) \<Rightarrow> bool" where
  "line_effect key d f \<longleftrightarrow>
     (\<forall>p. load_line key d p = Inr (f p)) \<or> (\<forall>p. (\<exists>m. load_line key d p = Inl (ValueError m)) \<and> f p = p)"

definition pending_effect :: "outbox_entry \<Rightarrow> pending_set \<Rightarrow> pending_set" where
  "pending_effect e p = (if entry_valid e then AList.update (ox_entry_id e) e p else p)"

lemma pending_line_effect:
  assumes "spoolable e"
  obtains d where "pending_line key e = Inr d" "line_effect key d (pending_effect e)"
    "\<not> entry_valid e \<Longrightarrow> \<exists>m. load_line key d p = Inl (ValueError m)"
proof (cases "entry_valid e")
  case True
  then show ?thesis using pending_line_loads [OF True, of key] that by (metis line_effect_def pending_effect_def)
next
  case False
  let ?p = "[(''v'', PInt RECORD_VERSION), (''op'', PStr ''pending''), (''id'', PStr (ox_entry_id e)),
        (''ctx'', PDict (context_dict (ox_context e))), (''summary'', PDict (summary_dict (ox_summary e)))]"
  obtain q where q: "ss_elapsed_seconds (ox_summary e) = Fin q"
    using assms by (cases "ss_elapsed_seconds (ox_summary e)") (auto simp: spoolable_def)
  then have "finite_json (PDict ?p)" by (simp add: context_dict_def summary_dict_def finite_counts)
  then obtain d where d: "signed_line key ?p = Inr d" by (simp add: signed_line_def canonical_doc_def bind_res_def)
  have "\<exists>m. load_line key d p = Inl (ValueError m)" for p
  proof -
    let ?c = "ox_context e" and ?s = "ox_summary e"
    consider "\<exists>m. context_from (PDict (context_dict ?c)) = Inl (ValueError m)"
      | "context_from (PDict (context_dict ?c)) = Inr ?c" "\<exists>m. summary_from (PDict (summary_dict ?s)) = Inl (ValueError m)"
      using False assms q context_refused [of ?c] context_roundtrip [of ?c] summary_refused [OF q]
      by (auto simp: entry_valid_def spoolable_def)
    then show ?thesis
      using assms load_signed_line [OF d, of p]
      by cases (auto simp: spoolable_def apply_record_def apply_op_def apply_pending_def doc_item_def bind_res_def)
  qed
  with d that False show ?thesis by (auto simp: pending_line_def line_effect_def pending_effect_def)
qed

lemma pending_line_spoolable: "pending_line key e = Inr d \<Longrightarrow> ox_entry_id e \<noteq> [] \<Longrightarrow> spoolable e"
  by (cases "ss_elapsed_seconds (ox_summary e)")
    (auto simp: pending_line_def signed_line_def canonical_doc_def spoolable_def summary_dict_def bind_res_eq_Inr split: if_splits)

lemma done_line_loads:
  assumes "i \<noteq> []"
  obtains d where "done_line key i = Inr d" "\<And>p. load_line key d p = Inr (AList.delete i p)"
proof -
  let ?p = "[(''v'', PInt RECORD_VERSION), (''op'', PStr ''done''), (''id'', PStr i)]"
  obtain d where d: "signed_line key ?p = Inr d" by (simp add: signed_line_def canonical_doc_def bind_res_def)
  have "load_line key d p = Inr (AList.delete i p)" for p
    using assms load_signed_line [OF d, of p] by (simp add: apply_record_def apply_op_def apply_pending_def doc_item_def bind_res_def)
  with d that show thesis by (simp add: done_line_def)
qed

subsection \<open>What a spool loads to\<close>

definition entries_ok :: "pending_set \<Rightarrow> bool" where
  "entries_ok p \<longleftrightarrow> distinct (map fst p) \<and> (\<forall>(i, e)\<in>set p. entry_valid e \<and> ox_entry_id e = i)"

lemma set_update_subset: "set (AList.update k v xs) \<subseteq> insert (k, v) (set xs)"
  by (induction xs) auto

text \<open>The pending set of an outbox object, and the part of it that a start can load.\<close>

definition entries_held :: "pending_set \<Rightarrow> bool" where
  "entries_held p \<longleftrightarrow> distinct (map fst p) \<and> (\<forall>(i, e)\<in>set p. spoolable e \<and> ox_entry_id e = i)"

lemma ok_held: "entries_ok p \<Longrightarrow> entries_held p"
  using valid_spoolable by (fastforce simp: entries_ok_def entries_held_def)

definition loadable :: "(string \<rightharpoonup> outbox_entry) \<Rightarrow> (string \<rightharpoonup> outbox_entry)" where
  "loadable m = (\<lambda>i. case m i of None \<Rightarrow> None | Some e \<Rightarrow> if entry_valid e then Some e else None)"

lemma loadable_simps [simp]:
  "loadable (m(i := None)) = (loadable m)(i := None)"
  "loadable (m(i \<mapsto> e)) = (loadable m)(i := if entry_valid e then Some e else None)"
  "loadable Map.empty = Map.empty" "loadable (loadable m) = loadable m"
  by (auto simp: loadable_def fun_eq_iff split: option.splits)

lemma loadable_mono: "m \<subseteq>\<^sub>m m' \<Longrightarrow> loadable m \<subseteq>\<^sub>m loadable m'"
  by (auto simp: map_le_def loadable_def dom_def split: option.splits if_splits)

lemma loadable_ok: "entries_ok p \<Longrightarrow> loadable (map_of p) = map_of p"
  by (auto simp: loadable_def entries_ok_def fun_eq_iff dest!: map_of_SomeD split: option.split)

lemma loadable_filter:
  "distinct (map fst p) \<Longrightarrow> loadable (map_of p) = map_of (filter (\<lambda>kv. entry_valid (snd kv)) p)"
  by (induction p) (auto simp: loadable_def fun_eq_iff map_of_eq_None_iff split: option.splits)

lemma entries_held_update: "entries_held p \<Longrightarrow> spoolable e \<Longrightarrow> entries_held (AList.update (ox_entry_id e) e p)"
  using set_update_subset [of "ox_entry_id e" e p] by (auto simp: entries_held_def distinct_update)

lemma entries_held_delete: "entries_held p \<Longrightarrow> entries_held (AList.delete i p)"
  by (auto simp: entries_held_def AList.delete_eq distinct_map inj_on_def)

lemma entries_ok_update: "entries_ok p \<Longrightarrow> entry_valid e \<Longrightarrow> entries_ok (AList.update (ox_entry_id e) e p)"
  using set_update_subset [of "ox_entry_id e" e p] by (auto simp: entries_ok_def distinct_update)

lemma entries_ok_delete: "entries_ok p \<Longrightarrow> entries_ok (AList.delete i p)"
  by (auto simp: entries_ok_def AList.delete_eq distinct_map inj_on_def)

lemma update_fresh: "k \<notin> fst ` set xs \<Longrightarrow> AList.update k v xs = xs @ [(k, v)]"
  by (induction xs) auto

lemma to_double_nonneg: "0 \<le> q \<Longrightarrow> 0 \<le> to_double q"
proof -
  assume "0 \<le> q"
  have u: "0 \<le> pow_int 2 i" for i by (simp add: pow_int_def)
  have h: "0 \<le> half_even r" if "0 \<le> r" for r using that by (auto simp: half_even_def Let_def)
  have "0 \<le> q / pow_int 2 i" for i using u \<open>0 \<le> q\<close> by simp
  then show ?thesis using u h by (simp add: to_double_def Let_def)
qed

lemma count_items_nonneg: "count_items kvs = Some hits \<Longrightarrow> list_all (\<lambda>(k, v). 0 \<le> v) hits"
  by (induction kvs arbitrary: hits rule: count_items.induct) (auto split: pyval.splits if_splits option.splits)

lemma field_results:
  "digest_field al n = Inr s \<Longrightarrow> is_digest s"
  "int_field al n r = Inr i \<Longrightarrow> r i"
  "elapsed_field al = Inr x \<Longrightarrow> float_nonneg x"
  "hits_field al = Inr hits \<Longrightarrow> list_all (\<lambda>(k, v). 0 \<le> v) hits"
  by (auto simp: digest_field_def int_field_def elapsed_field_def hits_field_def to_double_nonneg count_items_nonneg
      split: option.splits pyval.splits if_splits)

lemma decoded_entry_valid:
  assumes "context_from rc = Inr c" "summary_from rs = Inr s" "i \<noteq> []"
  shows "entry_valid \<lparr>ox_entry_id = i, ox_context = c, ox_summary = s\<rparr>"
proof -
  have "is_digest (rc_request_hash c) \<and> 0 \<le> rc_request_size c \<and> rc_request_size c \<le> MAX_REQUEST_BYTES"
    using assms(1) by (auto simp: context_from_def bind_res_eq_Inr dest: field_results split: pyval.splits if_splits)
  moreover have "is_digest (ss_response_hash s) \<and> 0 \<le> ss_response_size s \<and> 0 \<le> ss_token_count s
      \<and> float_nonneg (ss_elapsed_seconds s) \<and> list_all (\<lambda>(k, v). 0 \<le> v) (ss_redaction_hits s)"
    using assms(2) by (auto simp: summary_from_def bind_res_eq_Inr dest: field_results split: pyval.splits if_splits)
  ultimately show ?thesis using assms(3) by (simp add: entry_valid_def)
qed

lemma apply_op_cases:
  assumes "apply_op rec i p = Inr p'" "i \<noteq> []"
  shows "(\<exists>i. p' = AList.delete i p) \<or> (\<exists>e. entry_valid e \<and> p' = AList.update (ox_entry_id e) e p)"
proof -
  consider "p' = AList.delete i p" | "apply_pending rec i p = Inr p'"
    using assms(1) by (auto simp: apply_op_def bind_res_eq_Inr split: if_splits)
  then show ?thesis
  proof cases
    case 2
    then obtain rc c rs s where
      "context_from rc = Inr c" "summary_from rs = Inr s" "p' = AList.update i \<lparr>ox_entry_id = i, ox_context = c, ox_summary = s\<rparr> p"
      by (auto simp: apply_pending_def bind_res_eq_Inr)
    with decoded_entry_valid [OF this(1,2) assms(2)] show ?thesis by (metis outbox_entry.select_convs(1))
  qed blast
qed

lemma apply_record_cases:
  assumes "apply_record rec p = Inr p'"
  shows "(\<exists>i. p' = AList.delete i p) \<or> (\<exists>e. entry_valid e \<and> p' = AList.update (ox_entry_id e) e p)"
proof -
  from assms obtain v where
    v: "(case v of PStr i \<Rightarrow> if i = [] then Inl (ValueError ''bad id'') else apply_op rec i p | _ \<Rightarrow> Inl (ValueError ''bad id'')) = Inr p'"
    by (auto simp: apply_record_def bind_res_eq_Inr split: if_splits)
  then obtain i where "i \<noteq> []" "apply_op rec i p = Inr p'" by (cases v) (auto split: if_splits)
  then show ?thesis using apply_op_cases by blast
qed

lemma load_line_applies:
  assumes "load_line key d p = Inr p'"
  shows "\<exists>rec. apply_record rec p = Inr p'"
proof (cases d)
  case (PDict al)
  let ?rec = "filter (\<lambda>kv. fst kv \<noteq> ''mac'') al"
  from assms [unfolded load_line_def PDict pyval.case Let_def bind_res_eq_Inr] obtain body authentic where
    "(if \<not> authentic then Inl (ValueError ''authentication failed'') else apply_record ?rec p) = Inr p'" by blast
  then have "apply_record ?rec p = Inr p'" by (cases authentic) simp_all
  then show ?thesis by blast
qed (use assms in \<open>simp_all add: load_line_def\<close>)

lemma load_spool_ok:
  assumes "entries_ok (fst st)" "load_spool key ls st = Inr st'"
  shows "entries_ok (fst st')"
  using assms
proof (induction key ls st rule: load_spool.induct)
  case (4 key d ls p r)
  show ?case
  proof (cases "load_line key d p")
    case (Inr p')
    then obtain rec where "apply_record rec p = Inr p'" using load_line_applies by blast
    then have "entries_ok p'" using "4.prems"(1) apply_record_cases [of rec p p'] by (auto intro: entries_ok_update entries_ok_delete)
    with Inr "4.IH"(2) [OF Inr] "4.prems" show ?thesis by simp
  next
    case (Inl e)
    with "4.IH"(1) [OF Inl] "4.prems" show ?thesis by (auto split: if_splits)
  qed
qed auto

lemma load_spool_append: "load_spool key (xs @ ys) st = bind_res (load_spool key xs st) (load_spool key ys)"
proof (induction key xs st rule: load_spool.induct)
  case (4 key d ls p r)
  then show ?case by (cases "load_line key d p") (auto simp: bind_res_def)
qed (auto simp: bind_res_def)

lemma load_effect:
  assumes "line_effect key d f"
  obtains r' where "\<And>ls. load_spool key (Doc_Text d # ls) (p, r) = load_spool key ls (f p, r')"
proof -
  from assms consider "load_line key d p = Inr (f p)" | m where "load_line key d p = Inl (ValueError m)" "f p = p"
    unfolding line_effect_def by blast
  then show thesis
  proof cases
    case 1
    then show thesis by (intro that [of r]) simp
  next
    case 2
    then show thesis by (intro that [of "r @ [Doc_Text d]"]) (simp add: load_caught_def)
  qed
qed

lemma load_compacted:
  assumes "entries_held p" "distinct (map fst (p0 @ p))"
  obtains ds r' where "pending_lines key (map snd p) = Inr ds"
    "load_spool key (map Doc_Text ds) (p0, r) = Inr (p0 @ filter (\<lambda>kv. entry_valid (snd kv)) p, r')"
  using assms
proof (induction p arbitrary: p0 r thesis)
  case Nil
  show ?case by (rule Nil.prems(1) [of "[]" r]) simp_all
next
  case (Cons kv p)
  obtain i e where kv: "kv = (i, e)" by force
  have e: "spoolable e" "ox_entry_id e = i" "i \<notin> fst ` set p0" using Cons.prems(2,3) kv by (auto simp: entries_held_def)
  obtain d where d: "pending_line key e = Inr d" "line_effect key d (pending_effect e)" using pending_line_effect [OF e(1)] by metis
  let ?p0 = "pending_effect e p0"
  have p0: "?p0 = p0 @ filter (\<lambda>kv. entry_valid (snd kv)) [(i, e)]" using update_fresh [OF e(3), of e] e(2) by (simp add: pending_effect_def)
  obtain r1 where r1: "\<And>ls. load_spool key (Doc_Text d # ls) (p0, r) = load_spool key ls (?p0, r1)"
    using load_effect [OF d(2)] by blast
  have "entries_held p" "distinct (map fst (?p0 @ p))" using Cons.prems(2,3) kv by (auto simp: entries_held_def p0)
  from Cons.IH [OF _ this] obtain ds r' where
    ds: "pending_lines key (map snd p) = Inr ds" "load_spool key (map Doc_Text ds) (?p0, r1) = Inr (?p0 @ filter (\<lambda>kv. entry_valid (snd kv)) p, r')"
    by blast
  show ?case
    by (rule Cons.prems(1) [of "d # ds" r']) (use ds r1 d in \<open>simp_all add: kv p0 bind_res_def del: load_spool.simps\<close>)
qed

subsection \<open>The spool holds what the outbox holds\<close>

definition on_disk :: "bytes \<Rightarrow> spool \<Rightarrow> pending_set \<Rightarrow> bool" where
  "on_disk key sp disk \<longleftrightarrow> (\<exists>rejected. load_spool key (map snd (sp_lines sp)) ([], []) = Inr (disk, rejected))"

definition spool_inv :: "bytes \<Rightarrow> outbox \<Rightarrow> spool \<Rightarrow> bool" where
  "spool_inv key ob sp \<longleftrightarrow>
     ob_mac_key ob = key \<and> entries_held (ob_pending ob)
     \<and> (\<exists>disk. on_disk key sp disk \<and> loadable (map_of (ob_pending ob)) \<subseteq>\<^sub>m map_of disk)"

text \<open>Fields of the outbox that the invariant does not read.\<close>

lemma spool_inv_frame:
  "ob_mac_key ob' = ob_mac_key ob \<Longrightarrow> ob_pending ob' = ob_pending ob \<Longrightarrow> sp_lines sp' = sp_lines sp \<Longrightarrow>
   spool_inv key ob sp \<Longrightarrow> spool_inv key ob' sp'"
  by (simp add: spool_inv_def on_disk_def)

lemma count_error_sel [simp]:
  "ob_mac_key (count_error ob) = ob_mac_key ob" "ob_pending (count_error ob) = ob_pending ob"
  "ob_mac_key (skip_record ob) = ob_mac_key ob" "ob_pending (skip_record ob) = ob_pending ob"
  by (simp_all add: count_error_def skip_record_def)

lemma spool_inv_count [simp]:
  "spool_inv key (count_error ob) sp = spool_inv key ob sp" "spool_inv key (skip_record ob) sp = spool_inv key ob sp"
  by (simp_all add: spool_inv_def)

lemma on_disk_line:
  assumes "on_disk key sp disk" "sp_lines sp' = sp_lines sp @ [(n, Doc_Text d)]" "line_effect key d f"
  shows "on_disk key sp' (f disk)"
proof -
  from assms(1) obtain r where "load_spool key (map snd (sp_lines sp)) ([], []) = Inr (disk, r)" by (auto simp: on_disk_def)
  moreover obtain r' where "load_spool key [Doc_Text d] (disk, r) = Inr (f disk, r')"
    using load_effect [OF assms(3), of disk r] by (metis load_spool.simps(1))
  ultimately show ?thesis by (simp add: on_disk_def assms(2) load_spool_append del: load_spool.simps)
qed

lemma on_disk_junk:
  assumes "on_disk key sp disk" "sp_lines sp' = sp_lines sp @ [(n, Bad_Text)]"
  shows "on_disk key sp' disk"
  using assms by (auto simp: on_disk_def load_spool_append bind_res_def)

text \<open>Appending a line leaves the spool as it was, spoils its tail, or adds the line.\<close>

lemma append_data_cases:
  assumes "append_data io d ob sp = (r, ob', sp')" "on_disk key sp disk" "line_effect key d f"
  shows "ob_mac_key ob' = ob_mac_key ob \<and> ob_pending ob' = ob_pending ob
    \<and> (on_disk key sp' (f disk) \<or> r \<noteq> Inr () \<and> on_disk key sp' disk)"
proof -
  have t: "on_disk key (torn_tail n d sp) (f disk) \<or> on_disk key (torn_tail n d sp) disk" for n
    using on_disk_line [OF assms(2) _ assms(3)] on_disk_junk [OF assms(2)] assms(2) by (auto simp: torn_tail_def)
  have w: "on_disk key (sp\<lparr>sp_lines := sp_lines sp @ [(line_size d, Doc_Text d)]\<rparr>) (f disk)"
    using on_disk_line [OF assms(2) _ assms(3)] by simp
  show ?thesis using assms(1,2) t w by (auto simp: append_data_def split: if_splits append_io.splits)
qed

lemma compact_inv:
  assumes "spool_inv key ob sp" "compact io ob sp = (r, ob', sp')"
  shows "spool_inv key ob' sp' \<and> r = Inr () \<and> ob_pending ob' = ob_pending ob"
proof (cases "ob_open ob")
  case True
  have ok: "entries_held (ob_pending ob)" and k: "ob_mac_key ob = key" using assms(1) by (simp_all add: spool_inv_def)
  then have distinct: "distinct (map fst (ob_pending ob))" by (simp add: entries_held_def)
  let ?valid = "filter (\<lambda>kv. entry_valid (snd kv)) (ob_pending ob)"
  obtain ds rj where ds: "pending_lines key (map snd (ob_pending ob)) = Inr ds"
    "load_spool key (map Doc_Text ds) ([], []) = Inr (?valid, rj)"
    using load_compacted [OF ok, of "[]" key "[]"] distinct by auto
  have "on_disk key (compacted ds sp) ?valid"
    using ds(2) by (auto simp: on_disk_def compacted_def comp_def)
  then have "spool_inv key (ob\<lparr>ob_size := n\<rparr>) (compacted ds sp)" for n
    using ok k loadable_filter [OF distinct] by (auto simp: spool_inv_def)
  with True assms ds(1) k show ?thesis
    by (auto simp: compact_def Let_def split: compact_io.splits)
qed (use assms in \<open>simp add: compact_def\<close>)

lemma compact_when_inv:
  assumes "spool_inv key ob sp" "compact_when b io ob sp = (r, ob', sp')"
  shows "spool_inv key ob' sp' \<and> r = Inr () \<and> ob_pending ob' = ob_pending ob"
  using assms compact_inv by (auto simp: compact_when_def split: if_splits)

lemma spool_inv_append:
  assumes inv: "spool_inv key ob sp" and ap: "append_data io d ob sp = (r, ob', sp')"
    and line: "line_effect key d f"
    and keep: "\<And>disk. loadable (map_of (ob_pending ob)) \<subseteq>\<^sub>m map_of disk \<Longrightarrow> loadable (map_of (ob_pending ob)) \<subseteq>\<^sub>m map_of (f disk)"
  shows "spool_inv key ob' sp' \<and> ob_pending ob' = ob_pending ob
    \<and> (r = Inr () \<longrightarrow> (\<exists>disk. loadable (map_of (ob_pending ob)) \<subseteq>\<^sub>m map_of disk \<and> on_disk key sp' (f disk)))"
proof -
  obtain disk where d: "on_disk key sp disk" "loadable (map_of (ob_pending ob)) \<subseteq>\<^sub>m map_of disk" using inv by (auto simp: spool_inv_def)
  from append_data_cases [OF ap d(1) line] d keep [OF d(2)] inv show ?thesis by (auto simp: spool_inv_def)
qed

lemma record_inv:
  assumes inv: "spool_inv key ob sp" and e: "ox_entry_id e \<noteq> []" and new: "map_of (ob_pending ob) (ox_entry_id e) = None"
    and eq: "record_entry io e ob sp = (r, ob', sp')"
  shows "spool_inv key ob' sp' \<and> (r = None \<and> map_of (ob_pending ob') = map_of (ob_pending ob)
    \<or> r = Some (ox_entry_id e) \<and> map_of (ob_pending ob') = (map_of (ob_pending ob))(ox_entry_id e \<mapsto> e))"
proof (cases "spoolable e")
  case False
  obtain r1 ob1 sp1 where c1: "compact_when (ob_size ob \<ge> ob_max_bytes ob) (ri_first io) ob sp = (r1, ob1, sp1)" by (metis prod_cases3)
  note i1 = compact_when_inv [OF inv c1]
  have "\<exists>x. pending_line (ob_mac_key ob1) e = Inl x"
    using False pending_line_spoolable [OF _ e] by (cases "pending_line (ob_mac_key ob1) e") auto
  then show ?thesis using eq i1 by (auto simp: record_entry_def c1 split: if_splits)
next
  case True
  let ?i = "ox_entry_id e"
  obtain r1 ob1 sp1 where c1: "compact_when (ob_size ob \<ge> ob_max_bytes ob) (ri_first io) ob sp = (r1, ob1, sp1)" by (metis prod_cases3)
  note i1 = compact_when_inv [OF inv c1]
  have k1: "ob_mac_key ob1 = key" using i1 by (simp add: spool_inv_def)
  obtain d where d: "pending_line key e = Inr d" "line_effect key d (pending_effect e)"
    using pending_line_effect [OF True] by metis
  obtain r2 ob2 sp2 where c2: "compact_when (ob_size ob1 + int (line_size d) > ob_max_bytes ob1) (ri_second io) ob1 sp1 = (r2, ob2, sp2)"
    by (metis prod_cases3)
  note i2 = compact_when_inv [OF conjunct1 [OF i1] c2]
  obtain r3 ob3 sp3 where c3: "append_data (ri_append io) d ob2 sp2 = (r3, ob3, sp3)" by (metis prod_cases3)
  have same: "ob_pending ob2 = ob_pending ob" using i1 i2 by simp
  have none: "loadable (map_of (ob_pending ob)) ?i = None" using new by (simp add: loadable_def)
  have keep: "loadable (map_of (ob_pending ob2)) \<subseteq>\<^sub>m map_of (pending_effect e disk)"
    if "loadable (map_of (ob_pending ob2)) \<subseteq>\<^sub>m map_of disk" for disk
    using that none unfolding same by (auto simp: map_le_def pending_effect_def update_conv')
  note i3 = spool_inv_append [OF conjunct1 [OF i2] c3 d(2) keep]
  have ok: "spool_inv key (ob3\<lparr>ob_pending := AList.update ?i e (ob_pending ob3), ob_spooled := n\<rparr>) sp3" if r: "r3 = Inr ()" for n
  proof -
    obtain disk where disk: "loadable (map_of (ob_pending ob2)) \<subseteq>\<^sub>m map_of disk" "on_disk key sp3 (pending_effect e disk)" using i3 r by blast
    have "loadable ((map_of (ob_pending ob2))(?i \<mapsto> e)) \<subseteq>\<^sub>m map_of (pending_effect e disk)"
      using disk(1) none unfolding same by (auto simp: map_le_def pending_effect_def update_conv' split: if_splits)
    then show ?thesis
      using i3 disk(2) True by (intro spool_inv_def [THEN iffD2]) (auto simp: spool_inv_def update_conv' intro: entries_held_update)
  qed
  show ?thesis
    using eq i1 i2 i3 ok same k1 d(1)
    by (auto simp: record_entry_def c1 c2 c3 update_conv' split: if_splits sum.splits)
qed

lemma done_inv:
  assumes inv: "spool_inv key ob sp" and eq: "mark_done io i ob sp = (ob', sp')"
  shows "spool_inv key ob' sp' \<and> map_of (ob_pending ob') = (map_of (ob_pending ob))(i := None)"
proof (cases "map_of (ob_pending ob) i")
  case None
  with eq inv show ?thesis by (auto simp: mark_done_def)
next
  case (Some e)
  let ?ob = "ob\<lparr>ob_pending := AList.delete i (ob_pending ob)\<rparr>"
  have "i \<noteq> []" using Some inv by (auto simp: spool_inv_def entries_held_def spoolable_def dest!: map_of_SomeD)
  then obtain d where d: "done_line key i = Inr d" "line_effect key d (AList.delete i)"
    using done_line_loads unfolding line_effect_def by metis
  have inv1: "spool_inv key ?ob sp"
    using inv by (auto simp: spool_inv_def delete_conv' map_le_def intro: entries_held_delete)
  have k: "ob_mac_key ob = key" using inv by (simp add: spool_inv_def)
  obtain r2 ob2 sp2 where c2: "compact (di_compact io) ?ob sp = (r2, ob2, sp2)" by (metis prod_cases3)
  note i2 = compact_inv [OF inv1 c2]
  obtain r3 ob3 sp3 where c3: "append_data (di_append io) d ?ob sp = (r3, ob3, sp3)" by (metis prod_cases3)
  have keep: "loadable (map_of (ob_pending ?ob)) \<subseteq>\<^sub>m map_of (AList.delete i disk)"
    if "loadable (map_of (ob_pending ?ob)) \<subseteq>\<^sub>m map_of disk" for disk
    using that by (auto simp: map_le_def delete_conv')
  note i3 = spool_inv_append [OF inv1 c3 d(2) keep]
  obtain r4 ob4 sp4 where c4: "compact_when (ob_size ob3 \<ge> ob_compact_at ob3) (di_compact io) ob3 sp3 = (r4, ob4, sp4)" by (metis prod_cases3)
  note i4 = compact_when_inv [OF conjunct1 [OF i3] c4]
  show ?thesis
    using eq Some i2 i3 i4 k d(1)
    by (auto simp: mark_done_def Let_def c2 c3 c4 delete_conv' split: if_splits sum.splits)
qed

lemma terminate_tail_lines: "map snd (sp_lines (terminate_tail sp)) = map snd (sp_lines sp)"
  by (cases "sp_lines sp" rule: rev_cases) (simp_all add: terminate_tail_def)

lemma open_loaded:
  assumes "key \<noteq> []" "load_spool key (map snd (sp_lines sp)) ([], []) = Inr (p, rj)"
  shows "\<exists>ob sp'. open_outbox (Open_Ok cio) key mb mp sp = (Inr ob, sp') \<and> spool_inv key ob sp' \<and> ob_pending ob = p"
proof -
  define sp2 where "sp2 = (terminate_tail sp)\<lparr>sp_quarantine := sp_quarantine (terminate_tail sp) @ rj\<rparr>"
  define ob0 where "ob0 = new_outbox key mb mp p (spool_size sp2) (length rj)"
  have eq: "open_outbox (Open_Ok cio) key mb mp sp =
    (if rj \<noteq> [] \<or> spool_size sp2 \<ge> ob_compact_at ob0
     then (case compact cio ob0 sp2 of (Inl e, ob1, sp3) \<Rightarrow> (Inl e, sp3) | (Inr _, ob1, sp3) \<Rightarrow> (Inr ob1, sp3))
     else (Inr ob0, sp2))"
    using assms by (simp add: open_outbox_def Let_def terminate_tail_lines sp2_def ob0_def)
  have p: "ob_pending ob0 = p" by (simp add: ob0_def new_outbox_def)
  have "entries_ok p" using load_spool_ok [OF _ assms(2)] by (simp add: entries_ok_def)
  then have inv: "spool_inv key ob0 sp2"
    using assms(2) ok_held loadable_ok
    by (auto simp: spool_inv_def ob0_def new_outbox_def on_disk_def sp2_def terminate_tail_lines)
  obtain r1 ob1 sp1 where c: "compact cio ob0 sp2 = (r1, ob1, sp1)" by (metis prod_cases3)
  show ?thesis unfolding eq using compact_inv [OF inv c] inv p by (simp add: c)
qed

lemma open_inv:
  assumes "open_outbox io key mb mp sp = (Inr ob, sp')"
  shows "spool_inv key ob sp' \<and> on_disk key sp (ob_pending ob) \<and> key \<noteq> []"
proof -
  obtain cio p rj where o: "io = Open_Ok cio" "key \<noteq> []" "load_spool key (map snd (sp_lines sp)) ([], []) = Inr (p, rj)"
    using assms by (auto simp: open_outbox_def Let_def terminate_tail_lines split: if_splits open_io.splits sum.splits prod.splits)
  from open_loaded [OF o(2,3), of cio mb mp] o assms show ?thesis by (auto simp: on_disk_def)
qed

lemma open_failed_lines: "open_outbox io key mb mp sp = (Inl e, sp') \<Longrightarrow> on_disk key sp disk \<Longrightarrow> on_disk key sp' disk"
proof -
  assume o: "open_outbox io key mb mp sp = (Inl e, sp')" and "on_disk key sp disk"
  then obtain rj where l: "load_spool key (map snd (sp_lines sp)) ([], []) = Inr (disk, rj)" by (auto simp: on_disk_def)
  show "on_disk key sp' disk"
  proof (cases "key = [] \<or> (\<exists>b. io = Open_Failed b)")
    case True
    then have "map snd (sp_lines sp') = map snd (sp_lines sp)"
      using o by (auto simp: open_outbox_def terminate_tail_lines split: if_splits)
    then show ?thesis using l by (auto simp: on_disk_def)
  next
    case False
    then obtain cio where "io = Open_Ok cio" by (cases io) auto
    with open_loaded [OF _ l, of cio mb mp] o False show ?thesis by auto
  qed
qed

subsection \<open>Crashes lose nothing that was recorded\<close>

text \<open>
  The lives of an outbox and its spool under one key, with what is owed: the entries that
  \<open>record\<close> accepted and that nobody marked done. Identifiers are not empty and fresh among the
  pending ones, as random ones are; an entry is otherwise any. A crash of the process is the
  next start, which may itself fail.
\<close>

inductive outbox_life :: "bytes \<Rightarrow> (string \<rightharpoonup> outbox_entry) \<Rightarrow> outbox \<Rightarrow> spool \<Rightarrow> bool" for key where
  Life_Opened: "open_outbox io key mb mp sp = (Inr ob, sp') \<Longrightarrow> outbox_life key Map.empty ob sp'"
| Life_Recorded:
    "outbox_life key owed ob sp \<Longrightarrow> ox_entry_id e \<noteq> [] \<Longrightarrow> map_of (ob_pending ob) (ox_entry_id e) = None \<Longrightarrow>
     record_entry io e ob sp = (r, ob', sp') \<Longrightarrow>
     outbox_life key (case r of None \<Rightarrow> owed | Some i \<Rightarrow> owed(i \<mapsto> e)) ob' sp'"
| Life_Done:
    "outbox_life key owed ob sp \<Longrightarrow> mark_done io' i ob sp = (ob', sp') \<Longrightarrow> outbox_life key (owed(i := None)) ob' sp'"
| Life_Compacted: "outbox_life key owed ob sp \<Longrightarrow> compact cio ob sp = (r', ob', sp') \<Longrightarrow> outbox_life key owed ob' sp'"
| Life_Synced: "outbox_life key owed ob sp \<Longrightarrow> outbox_life key owed (sync_outbox b ob) sp"
| Life_Closed: "outbox_life key owed ob sp \<Longrightarrow> outbox_life key owed (close_outbox ob) sp"
| Life_Restarted:
    "outbox_life key owed ob sp \<Longrightarrow> open_outbox io'' key mb mp sp = (Inr ob', sp') \<Longrightarrow> outbox_life key owed ob' sp'"
| Life_Start_Failed:
    "outbox_life key owed ob sp \<Longrightarrow> open_outbox io'' key mb mp sp = (Inl x, sp') \<Longrightarrow> outbox_life key owed (close_outbox ob) sp'"

lemma life_inv: "outbox_life key owed ob sp \<Longrightarrow> spool_inv key ob sp \<and> loadable owed \<subseteq>\<^sub>m map_of (ob_pending ob) \<and> key \<noteq> []"
proof (induction rule: outbox_life.induct)
  case (Life_Opened io mb mp sp ob sp')
  then show ?case using open_inv by (auto simp: map_le_def)
next
  case (Life_Recorded owed ob sp e io r ob' sp')
  then have "spool_inv key ob sp" by simp
  from record_inv [OF this Life_Recorded.hyps(2-4)] Life_Recorded.IH show ?case
    by (auto simp: map_le_def split: option.splits if_splits)
next
  case (Life_Done owed ob sp io' i ob' sp')
  then have d: "spool_inv key ob' sp'" "map_of (ob_pending ob') = (map_of (ob_pending ob))(i := None)"
    using done_inv [of key ob sp io' i ob' sp'] by simp_all
  have "loadable (owed(i := None)) \<subseteq>\<^sub>m map_of (ob_pending ob')"
    unfolding d(2) loadable_simps(1) using Life_Done.IH by (auto simp: map_le_def)
  then show ?case using d(1) Life_Done.IH by blast
next
  case (Life_Compacted owed ob sp cio r' ob' sp')
  then show ?case using compact_inv [of key ob sp cio r' ob' sp'] by auto
next
  case (Life_Synced owed ob sp b)
  then show ?case by (auto simp: sync_outbox_def)
next
  case (Life_Closed owed ob sp)
  then show ?case using spool_inv_frame [of "close_outbox ob" ob sp sp key] by (simp add: close_outbox_def)
next
  case (Life_Restarted owed ob sp io'' mb mp ob' sp')
  then obtain disk where d: "on_disk key sp disk" "loadable (map_of (ob_pending ob)) \<subseteq>\<^sub>m map_of disk" by (auto simp: spool_inv_def)
  with open_inv [OF Life_Restarted.hyps(2)] have "ob_pending ob' = disk" by (auto simp: on_disk_def)
  moreover have "loadable owed \<subseteq>\<^sub>m loadable (map_of (ob_pending ob))" using loadable_mono [of "loadable owed"] Life_Restarted.IH by simp
  ultimately show ?case using d open_inv [OF Life_Restarted.hyps(2)] Life_Restarted.IH by (auto intro: map_le_trans)
next
  case (Life_Start_Failed owed ob sp io'' mb mp x sp')
  then show ?case
    using open_failed_lines [OF Life_Start_Failed.hyps(2)] by (auto simp: spool_inv_def close_outbox_def)
qed

text \<open>
  C11. An accepted record within the loader's limits is never lost: whatever happened to the
  outbox, which writes and compactions failed and where its process crashed, every entry that
  \<open>record\<close> accepted, that nobody marked done and whose fields the loader takes is pending now,
  and the next start opens the spool and finds it pending again. The limits are those of
  \<open>_context_from\<close> and \<open>_summary_from\<close>, which \<open>record\<close> itself does not check: a request of at
  most 1 MiB, SHA-256 digests, a finite duration and counts that are not negative.
\<close>

theorem no_accepted_record_lost:
  assumes "outbox_life key owed ob sp"
  shows "\<exists>ob' sp'. open_outbox (Open_Ok cio) key mb mp sp = (Inr ob', sp')
    \<and> (\<forall>i e. owed i = Some e \<longrightarrow> entry_valid e \<longrightarrow>
         map_of (ob_pending ob) i = Some e \<and> map_of (ob_pending ob') i = Some e)"
proof -
  note i = life_inv [OF assms]
  then obtain disk rj where d: "load_spool key (map snd (sp_lines sp)) ([], []) = Inr (disk, rj)"
    "loadable (map_of (ob_pending ob)) \<subseteq>\<^sub>m map_of disk"
    by (auto simp: spool_inv_def on_disk_def)
  from open_loaded [OF _ d(1), of cio mb mp] i obtain ob' sp' where o: "open_outbox (Open_Ok cio) key mb mp sp = (Inr ob', sp')"
    "ob_pending ob' = disk" by blast
  have "map_of (ob_pending ob) j = Some e \<and> map_of disk j = Some e" if "owed j = Some e" "entry_valid e" for j e
  proof -
    have "loadable owed j = Some e" using that by (simp add: loadable_def)
    then have now: "map_of (ob_pending ob) j = Some e" using i by (metis domI map_le_def)
    then have "loadable (map_of (ob_pending ob)) j = Some e" using that(2) by (simp add: loadable_def)
    with d(2) now show ?thesis by (metis domI map_le_def)
  qed
  with o show ?thesis by blast
qed

text \<open>
  An accepted record beyond the limits does not survive the next start. Where the
  configuration allows requests of more than 1 MiB, \<open>record\<close> takes the evidence of such a
  request and returns its identifier; the next start refuses its line, moves it to the
  quarantine file and has no such entry pending.
\<close>

lemma compact_quarantine: "compact io ob sp = (r, ob', sp') \<Longrightarrow> sp_quarantine sp' = sp_quarantine sp"
  by (auto simp: compact_def compacted_def Let_def split: if_splits sum.splits compact_io.splits)

lemma open_quarantine:
  assumes "load_spool key (map snd (sp_lines sp)) ([], []) = Inr (p, rj)" and "open_outbox (Open_Ok cio) key mb mp sp = (Inr ob, sp')"
  shows "sp_quarantine sp' = sp_quarantine sp @ rj"
proof -
  have "sp_quarantine (terminate_tail sp) = sp_quarantine sp" by (simp add: terminate_tail_def)
  then show ?thesis using assms
    by (auto simp: open_outbox_def Let_def terminate_tail_lines dest!: compact_quarantine split: if_splits sum.splits prod.splits)
qed

lemma oversize_record_not_replayed:
  assumes inv: "spool_inv key ob sp" "key \<noteq> []" "ob_open ob" and disk: "on_disk key sp disk" "map_of disk (ox_entry_id e) = None"
    and big: "rc_request_size (ox_context e) > MAX_REQUEST_BYTES" and line: "ox_entry_id e \<noteq> []" "pending_line key e = Inr d"
    and room: "int (length (ob_pending ob)) < ob_max_pending ob" "ob_size ob + int (line_size d) \<le> ob_max_bytes ob"
  shows "\<exists>ob1 sp1 ob2 sp2.
      record_entry \<lparr>ri_first = Compact_Ok, ri_second = Compact_Ok, ri_append = Write_Ok\<rparr> e ob sp = (Some (ox_entry_id e), ob1, sp1)
    \<and> open_outbox (Open_Ok cio) key mb mp sp1 = (Inr ob2, sp2)
    \<and> map_of (ob_pending ob2) (ox_entry_id e) = None \<and> Doc_Text d \<in> set (sp_quarantine sp2)"
proof -
  let ?sp1 = "sp\<lparr>sp_lines := sp_lines sp @ [(line_size d, Doc_Text d)]\<rparr>"
  have k: "ob_mac_key ob = key" using inv by (simp add: spool_inv_def)
  have "0 < line_size d" by (simp add: line_size_def)
  then have rec: "\<exists>ob1. record_entry \<lparr>ri_first = Compact_Ok, ri_second = Compact_Ok, ri_append = Write_Ok\<rparr> e ob sp
      = (Some (ox_entry_id e), ob1, ?sp1)"
    using inv(3) room line k by (simp add: record_entry_def compact_when_def append_data_def)
  from disk(1) obtain r where r: "load_spool key (map snd (sp_lines sp)) ([], []) = Inr (disk, r)" by (auto simp: on_disk_def)
  have "\<not> entry_valid e" using big by (simp add: entry_valid_def)
  then obtain m where "load_line key d disk = Inl (ValueError m)"
    using pending_line_effect [OF pending_line_spoolable [OF line(2,1)], of key disk] line(2) by (metis sum.inject(2))
  then have l: "load_spool key (map snd (sp_lines ?sp1)) ([], []) = Inr (disk, r @ [Doc_Text d])"
    by (simp add: load_spool_append r load_caught_def)
  from open_loaded [OF inv(2) l, of cio mb mp] obtain ob2 sp2 where
    o: "open_outbox (Open_Ok cio) key mb mp ?sp1 = (Inr ob2, sp2)" "ob_pending ob2 = disk" by blast
  with rec disk(2) open_quarantine [OF l o(1)] show ?thesis by fastforce
qed

definition demo_entry :: outbox_entry where
  "demo_entry = \<lparr>ox_entry_id = ''e1'',
     ox_context = \<lparr>rc_state_id = ''s1'', rc_request_hash = replicate 64 CHR ''0'', rc_request_size = 5, rc_tenant_id = ''t'',
       rc_model = ''m'', rc_endpoint = ''/v1'', rc_phi_scrubbed = False, rc_scrub_method = [],
       rc_append_stream_window_method = True, rc_signer_name = ''gw''\<rparr>,
     ox_summary = \<lparr>ss_response_hash = replicate 64 CHR ''1'', ss_response_size = 7, ss_terminal_outcome = ''complete'',
       ss_final_marker_included = True, ss_token_count = 2, ss_elapsed_seconds = Fin 1, ss_redaction_hits = [(''email'', 1)]\<rparr>\<rparr>"

lemma demo_entry_valid: "entry_valid demo_entry"
  by (simp add: entry_valid_def demo_entry_def is_digest_def MAX_REQUEST_BYTES_def)

definition demo_spool :: spool where
  "demo_spool = \<lparr>sp_lines = [(3, Bad_Text)], sp_torn = True, sp_quarantine = []\<rparr>"

lemma demo_open: "\<exists>ob sp. open_outbox (Open_Ok Compact_Ok) [1] mb 10 demo_spool = (Inr ob, sp)
    \<and> ob_pending ob = [] \<and> ob_open ob \<and> ob_size ob = 0 \<and> ob_max_bytes ob = mb \<and> ob_max_pending ob = 10 \<and> ob_mac_key ob = [1]"
  by (simp add: open_outbox_def demo_spool_def terminate_tail_def new_outbox_def compact_def compacted_def spool_size_def Let_def)

lemma demo_life:
  "\<exists>owed ob sp. outbox_life [1] owed ob sp \<and> owed ''e1'' = Some demo_entry \<and> ob_pending ob = [(''e1'', demo_entry)]"
proof -
  obtain d where d: "pending_line [1] demo_entry = Inr d" using pending_line_loads [OF demo_entry_valid] by blast
  obtain ob sp where o: "open_outbox (Open_Ok Compact_Ok) [1] (int (line_size d) + 1) 10 demo_spool = (Inr ob, sp)"
    and s: "ob_pending ob = []" "ob_open ob" "ob_size ob = 0" "ob_max_bytes ob = int (line_size d) + 1" "ob_max_pending ob = 10"
      "ob_mac_key ob = [1]"
    using demo_open by blast
  obtain r ob' sp' where rec: "record_entry \<lparr>ri_first = Compact_Ok, ri_second = Compact_Ok, ri_append = Write_Ok\<rparr> demo_entry ob sp = (r, ob', sp')"
    by (metis prod_cases3)
  then have r: "r = Some ''e1''" "ob_pending ob' = [(''e1'', demo_entry)]"
    using s d by (auto simp: record_entry_def compact_when_def append_data_def) (simp_all add: demo_entry_def)
  have "ox_entry_id demo_entry \<noteq> []" by (simp add: demo_entry_def)
  from Life_Recorded [OF Life_Opened [OF o] this _ rec] s r
  have "outbox_life [1] (Map.empty(''e1'' \<mapsto> demo_entry)) ob' sp'" by simp
  with r(2) show ?thesis by (metis fun_upd_same)
qed

theorem no_accepted_record_lost_witness:
  "\<exists>owed ob sp ob' sp'. outbox_life [1] owed ob sp \<and> owed ''e1'' = Some demo_entry
     \<and> open_outbox (Open_Ok Compact_Failed) [1] 0 0 sp = (Inr ob', sp') \<and> map_of (ob_pending ob') ''e1'' = Some demo_entry"
proof -
  obtain owed ob sp where l: "outbox_life [1] owed ob sp" "owed ''e1'' = Some demo_entry" using demo_life by blast
  from no_accepted_record_lost [OF l(1), of Compact_Failed 0 0] obtain ob' sp' where
    o: "open_outbox (Open_Ok Compact_Failed) [1] 0 0 sp = (Inr ob', sp')"
      "\<forall>i e. owed i = Some e \<longrightarrow> entry_valid e \<longrightarrow> map_of (ob_pending ob) i = Some e \<and> map_of (ob_pending ob') i = Some e" by blast
  then have "map_of (ob_pending ob') ''e1'' = Some demo_entry" using l(2) demo_entry_valid by blast
  with l o(1) show ?thesis by blast
qed

end
