(* ===== verification/Outbox_Replay.thy ===== *)
theory Outbox_Replay
  imports Outbox_Durable Ledger_Progress
begin

section \<open>Replaying the outbox into the ledger\<close>

text \<open>
  \<open>replay_pending\<close> of \<^verbatim>\<open>aegis/proxy/terminal_outbox.py\<close> against the ledger's
  \<open>commit_forensic_summary\<close>. What each commit and each marker meets is an argument, by entry.
\<close>

subsection \<open>The start-up replay\<close>

definition is_terminal_node :: "audit_node \<Rightarrow> bool" where
  "is_terminal_node n \<longleftrightarrow> an_signature_meaning n \<in> set TERMINAL_MEANINGS"

definition has_terminal_node :: "ledger \<Rightarrow> string \<Rightarrow> bool" where
  "has_terminal_node l state_id = list_ex (\<lambda>n. an_state_id n = state_id \<and> is_terminal_node n) (rev (lg_chain l))"

definition committed_terminal_state_ids :: "ledger \<Rightarrow> string list" where
  "committed_terminal_state_ids l = map an_state_id (filter is_terminal_node (lg_chain l))"

record replay_report =
  rr_pending :: nat
  rr_recovered :: nat
  rr_deduplicated :: nat
  rr_failed :: nat
  rr_refused_fault_state :: string

type_synonym replay_state = "replay_report \<times> outbox \<times> spool \<times> ledger"

text \<open>The loop: whether it reached its end, with the state then.\<close>

fun replay_loop ::
    "(string \<Rightarrow> commit_env) \<Rightarrow> (string \<Rightarrow> done_io) \<Rightarrow> outbox_entry list \<Rightarrow> string list \<Rightarrow> replay_state \<Rightarrow> bool \<times> replay_state" where
  "replay_loop ev dio [] committed st = (True, st)"
| "replay_loop ev dio (e # es) committed (rep, ob, sp, l) =
     (if lg_fault_state l \<noteq> healthy then (False, rep\<lparr>rr_refused_fault_state := lg_fault_state l\<rparr>, ob, sp, l)
      else if rc_state_id (ox_context e) \<in> set committed then
        (case mark_done (dio (ox_entry_id e)) (ox_entry_id e) ob sp of
           (ob', sp') \<Rightarrow> replay_loop ev dio es committed (rep\<lparr>rr_deduplicated := rr_deduplicated rep + 1\<rparr>, ob', sp', l))
      else
        (case commit_forensic_summary (ev (ox_entry_id e)) (commit_kwargs e) l of
           (Inl x, l') \<Rightarrow> replay_loop ev dio es committed (rep\<lparr>rr_failed := rr_failed rep + 1\<rparr>, ob, sp, l')
         | (Inr n, l') \<Rightarrow>
             (case mark_done (dio (ox_entry_id e)) (ox_entry_id e) ob sp of
                (ob', sp') \<Rightarrow>
                  replay_loop ev dio es (rc_state_id (ox_context e) # committed)
                    (rep\<lparr>rr_recovered := rr_recovered rep + 1\<rparr>, ob', sp', l'))))"

definition replay_pending ::
    "(string \<Rightarrow> commit_env) \<Rightarrow> (string \<Rightarrow> done_io) \<Rightarrow> compact_io \<Rightarrow> outbox \<Rightarrow> spool \<Rightarrow> ledger
     \<Rightarrow> replay_report res \<times> outbox \<times> spool \<times> ledger" where
  "replay_pending ev dio cio ob sp l =
     (let rep = \<lparr>rr_pending = length (ob_pending ob), rr_recovered = 0, rr_deduplicated = 0, rr_failed = 0, rr_refused_fault_state = []\<rparr>
      in if rr_pending rep = 0 then (Inr rep, ob, sp, l)
         else
           (case replay_loop ev dio (map snd (ob_pending ob)) (committed_terminal_state_ids l) (rep, ob, sp, l) of
              (False, rep1, ob1, sp1, l1) \<Rightarrow> (Inr rep1, ob1, sp1, l1)
            | (True, rep1, ob1, sp1, l1) \<Rightarrow>
                (case compact cio ob1 sp1 of
                   (Inl e, ob2, sp2) \<Rightarrow> (Inl e, ob2, sp2, l1)
                 | (Inr _, ob2, sp2) \<Rightarrow> (Inr rep1, ob2, sp2, l1))))"

subsection \<open>Each entry is committed once\<close>

lemma summary_commit_node:
  assumes "commit_forensic_summary ev a l = (Inr n, l')"
  shows "an_state_id n = sa_state_id a \<and> an_signature_meaning n = sa_signature_meaning a"
proof -
  obtain leaf s f h st where "commit_with ev leaf s f (summary_node a h st) l = (Inr n, l')"
    using assms by (auto simp: commit_forensic_summary_def Let_def split: if_splits sum.splits prod.splits)
  from commit_with_node [OF this] show ?thesis by (auto simp: complete_node_def post_init_def summary_node_def blank_node_def split: prod.splits)
qed

lemma kwargs_sel:
  "sa_state_id (commit_kwargs e) = rc_state_id (ox_context e)" "sa_signature_meaning (commit_kwargs e) = RECOVERED_TERMINAL_MEANING"
  by (simp_all add: commit_kwargs_def Let_def)

lemma signers_ok_same_keys: "same_keys l l' \<Longrightarrow> signers_ok vs ev l \<Longrightarrow> signers_ok vs ev l'"
  by (simp add: same_keys_def signers_ok_def)

lemma summary_commit_outcome:
  assumes "ledger_inv vs l" "signers_ok vs ev l" "commit_forensic_summary ev a l = (r, l')"
  shows "ledger_inv vs l' \<and> same_keys l l'"
    and "r = Inr n \<Longrightarrow> wal_lines l' = wal_lines l @ [Document (node_to_dict n)] \<and> lg_fault_state l' = lg_fault_state l"
    and "r = Inl x \<Longrightarrow> lg_fault_state l' = healthy \<Longrightarrow> wal_lines l' = wal_lines l"
proof -
  have "commits_via ev l (r, l')" using commit_summary_via [of ev l a] assms(3) by simp
  note o = commits_via_outcome [OF this assms(1,2)]
  show "ledger_inv vs l' \<and> same_keys l l'" using o by simp
  show "r = Inr n \<Longrightarrow> wal_lines l' = wal_lines l @ [Document (node_to_dict n)] \<and> lg_fault_state l' = lg_fault_state l"
    using o by (simp add: extended_def)
  show "r = Inl x \<Longrightarrow> lg_fault_state l' = healthy \<Longrightarrow> wal_lines l' = wal_lines l"
    using o by (simp add: unless_faulted_def)
qed

lemma replay_loop_faulted:
  "lg_fault_state l \<noteq> healthy \<Longrightarrow> replay_loop ev dio es c (rep, ob, sp, l) = (b, rep', ob', sp', l') \<Longrightarrow> l' = l"
  by (cases es) auto

text \<open>
  What became of each entry, in order, and the ledger its commit was tried on: the one the
  entries before it have left. An entry whose state has a terminal node, in the chain at the
  start or from an entry before it, is not tried.
\<close>

datatype replay_outcome = Deduplicated | Recovered audit_node | Raised exn

inductive replay_trace ::
    "(string \<Rightarrow> commit_env) \<Rightarrow> outbox_entry list \<Rightarrow> string list \<Rightarrow> ledger \<Rightarrow> replay_outcome list \<Rightarrow> ledger \<Rightarrow> bool" for ev where
  Trace_End: "replay_trace ev [] c l [] l"
| Trace_Deduplicated:
    "rc_state_id (ox_context e) \<in> set c \<Longrightarrow> replay_trace ev es c l os l' \<Longrightarrow> replay_trace ev (e # es) c l (Deduplicated # os) l'"
| Trace_Recovered:
    "rc_state_id (ox_context e) \<notin> set c \<Longrightarrow> commit_forensic_summary (ev (ox_entry_id e)) (commit_kwargs e) l = (Inr n, l1) \<Longrightarrow>
     replay_trace ev es (rc_state_id (ox_context e) # c) l1 os l' \<Longrightarrow> replay_trace ev (e # es) c l (Recovered n # os) l'"
| Trace_Raised:
    "rc_state_id (ox_context e) \<notin> set c \<Longrightarrow> commit_forensic_summary (ev (ox_entry_id e)) (commit_kwargs e) l = (Inl x, l1) \<Longrightarrow>
     replay_trace ev es c l1 os l' \<Longrightarrow> replay_trace ev (e # es) c l (Raised x # os) l'"

fun recovered_nodes :: "replay_outcome list \<Rightarrow> audit_node list" where
  "recovered_nodes [] = []"
| "recovered_nodes (Recovered n # os) = n # recovered_nodes os"
| "recovered_nodes (_ # os) = recovered_nodes os"

definition raised_ids :: "outbox_entry list \<Rightarrow> replay_outcome list \<Rightarrow> string set" where
  "raised_ids es os = {ox_entry_id e |e x. (e, Raised x) \<in> set (zip es os)}"

lemma raised_ids_simps [simp]:
  "raised_ids [] os = {}" "raised_ids (e # es) (Deduplicated # os) = raised_ids es os"
  "raised_ids (e # es) (Recovered n # os) = raised_ids es os"
  "raised_ids (e # es) (Raised x # os) = insert (ox_entry_id e) (raised_ids es os)"
  by (auto simp: raised_ids_def)

lemma finite_raised_ids: "finite (raised_ids es os)"
proof -
  have "raised_ids es os \<subseteq> ox_entry_id ` fst ` set (zip es os)" unfolding raised_ids_def by force
  then show ?thesis using finite_subset by blast
qed

lemma trace_length: "replay_trace ev es c l os l' \<Longrightarrow> length os = length es"
  by (induction rule: replay_trace.induct) simp_all

lemma raised_ids_nth:
  assumes "length os = length es" "distinct (map ox_entry_id es)" "k < length es"
  shows "ox_entry_id (es ! k) \<in> raised_ids es os \<longleftrightarrow> (\<exists>x. os ! k = Raised x)"
proof
  assume "ox_entry_id (es ! k) \<in> raised_ids es os"
  then obtain j x where "j < length es" "os ! j = Raised x" "ox_entry_id (es ! j) = ox_entry_id (es ! k)"
    using assms(1) by (auto simp: raised_ids_def in_set_zip)
  moreover from this have "j = k" using assms(2,3) nth_eq_iff_index_eq [OF assms(2), of j k] by simp
  ultimately show "\<exists>x. os ! k = Raised x" by blast
next
  assume "\<exists>x. os ! k = Raised x"
  then show "ox_entry_id (es ! k) \<in> raised_ids es os" using assms(1,3) by (auto simp: raised_ids_def in_set_zip)
qed

text \<open>
  What a run of the loop over some entries did: the nodes it wrote, the entries it failed on,
  and the pending set it left.
\<close>

definition replayed ::
    "outbox_entry list \<Rightarrow> string list \<Rightarrow> replay_state \<Rightarrow> replay_state \<Rightarrow> audit_node list \<Rightarrow> string set \<Rightarrow> bool" where
  "replayed es committed st st' ns failed \<longleftrightarrow>
     (case (st, st') of ((rep, ob, sp, l), (rep', ob', sp', l')) \<Rightarrow>
        wal_lines l' = wal_lines l @ map (Document \<circ> node_to_dict) ns
        \<and> distinct (map an_state_id ns) \<and> set (map an_state_id ns) \<inter> set committed = {}
        \<and> list_all (\<lambda>n. an_signature_meaning n = RECOVERED_TERMINAL_MEANING) ns
        \<and> set (map an_state_id ns) \<subseteq> set (map (rc_state_id \<circ> ox_context) es)
        \<and> failed \<subseteq> set (map ox_entry_id es)
        \<and> (\<forall>e\<in>set es. ox_entry_id e \<notin> failed \<longrightarrow> rc_state_id (ox_context e) \<in> set committed \<union> set (map an_state_id ns))
        \<and> map_of (ob_pending ob') = map_of (ob_pending ob) |` (- (set (map ox_entry_id es) - failed))
        \<and> rr_recovered rep' = rr_recovered rep + length ns \<and> rr_failed rep' = rr_failed rep + card failed
        \<and> rr_recovered rep' + rr_deduplicated rep' + rr_failed rep' = rr_recovered rep + rr_deduplicated rep + rr_failed rep + length es
        \<and> rr_pending rep' = rr_pending rep \<and> rr_refused_fault_state rep' = rr_refused_fault_state rep)"

lemma replayed_Nil: "replayed [] c st st [] {}"
  by (cases st) (simp add: replayed_def restrict_map_def)

lemma replayed_skip:
  assumes "replayed es c (rep\<lparr>rr_deduplicated := rr_deduplicated rep + 1\<rparr>, ob', sp', l) st' ns fs"
    and "map_of (ob_pending ob') = (map_of (ob_pending ob))(ox_entry_id e := None)" "rc_state_id (ox_context e) \<in> set c"
    and "ox_entry_id e \<notin> set (map ox_entry_id es)"
  shows "replayed (e # es) c (rep, ob, sp, l) st' ns fs"
  using assms by (cases st') (auto simp: replayed_def restrict_map_def fun_eq_iff)

lemma replayed_fail:
  assumes "replayed es c (rep\<lparr>rr_failed := rr_failed rep + 1\<rparr>, ob, sp, l1) st' ns fs" "wal_lines l1 = wal_lines l"
    and "ox_entry_id e \<notin> set (map ox_entry_id es)"
  shows "replayed (e # es) c (rep, ob, sp, l) st' ns (insert (ox_entry_id e) fs)"
proof -
  have fs: "fs \<subseteq> set (map ox_entry_id es)" using assms(1) by (cases st') (simp add: replayed_def)
  have "finite fs" using finite_subset [OF fs] by simp
  moreover have "ox_entry_id e \<notin> fs" using fs assms(3) by auto
  moreover have "set (map ox_entry_id (e # es)) - insert (ox_entry_id e) fs = set (map ox_entry_id es) - fs" using assms(3) by auto
  ultimately show ?thesis using assms by (cases st') (auto simp: replayed_def)
qed

lemma replayed_commit:
  assumes "replayed es (rc_state_id (ox_context e) # c) (rep\<lparr>rr_recovered := rr_recovered rep + 1\<rparr>, ob', sp', l1) st' ns fs"
    and "map_of (ob_pending ob') = (map_of (ob_pending ob))(ox_entry_id e := None)"
    and "wal_lines l1 = wal_lines l @ [Document (node_to_dict n)]" "rc_state_id (ox_context e) \<notin> set c"
    and "an_state_id n = rc_state_id (ox_context e)" "an_signature_meaning n = RECOVERED_TERMINAL_MEANING"
    and "ox_entry_id e \<notin> set (map ox_entry_id es)"
  shows "replayed (e # es) c (rep, ob, sp, l) st' (n # ns) fs"
  using assms by (cases st') (auto simp: replayed_def restrict_map_def fun_eq_iff)

lemma replay_loop_once:
  assumes "ledger_inv vs l" "\<And>i. signers_ok vs (ev i) l" "spool_inv key ob sp" "distinct (map ox_entry_id es)"
    and "replay_loop ev dio es c (rep, ob, sp, l) = (b, rep', ob', sp', l')" "lg_fault_state l' = healthy"
  shows "b \<and> spool_inv key ob' sp' \<and> (\<exists>os. replay_trace ev es c l os l'
     \<and> replayed es c (rep, ob, sp, l) (rep', ob', sp', l') (recovered_nodes os) (raised_ids es os))"
  using assms
proof (induction es arbitrary: c rep ob sp l)
  case Nil
  then show ?case using replayed_Nil by (auto intro!: exI [of _ "[]"] Trace_End)
next
  case (Cons e es)
  have h: "lg_fault_state l = healthy" using Cons.prems(5,6) by (auto split: if_splits)
  have nin: "ox_entry_id e \<notin> set (map ox_entry_id es)" and dist: "distinct (map ox_entry_id es)" using Cons.prems(4) by simp_all
  obtain ob1 sp1 where md: "mark_done (dio (ox_entry_id e)) (ox_entry_id e) ob sp = (ob1, sp1)" by force
  note di = done_inv [OF Cons.prems(3) md]
  show ?case
  proof (cases "rc_state_id (ox_context e) \<in> set c")
    case True
    then have "replay_loop ev dio es c (rep\<lparr>rr_deduplicated := rr_deduplicated rep + 1\<rparr>, ob1, sp1, l) = (b, rep', ob', sp', l')"
      using Cons.prems(5) h md by simp
    from Cons.IH [OF Cons.prems(1,2) conjunct1 [OF di] dist this Cons.prems(6)] obtain os where
      ih: "b" "spool_inv key ob' sp'" "replay_trace ev es c l os l'"
        "replayed es c (rep\<lparr>rr_deduplicated := rr_deduplicated rep + 1\<rparr>, ob1, sp1, l) (rep', ob', sp', l') (recovered_nodes os) (raised_ids es os)"
      by blast
    from Trace_Deduplicated [OF True ih(3)] replayed_skip [OF ih(4) conjunct2 [OF di] True nin] ih(1,2) show ?thesis
      by (intro conjI exI [of _ "Deduplicated # os"]) simp_all
  next
    case False
    obtain r l1 where c1: "commit_forensic_summary (ev (ox_entry_id e)) (commit_kwargs e) l = (r, l1)" by force
    note o = summary_commit_outcome [OF Cons.prems(1,2) c1]
    have inv1: "ledger_inv vs l1" and s1: "\<And>i. signers_ok vs (ev i) l1"
      using o(1) signers_ok_same_keys Cons.prems(2) by blast+
    show ?thesis
    proof (cases r)
      case (Inl x)
      then have lp: "replay_loop ev dio es c (rep\<lparr>rr_failed := rr_failed rep + 1\<rparr>, ob, sp, l1) = (b, rep', ob', sp', l')"
        using Cons.prems(5) h False c1 by simp
      have "lg_fault_state l1 = healthy" using replay_loop_faulted [OF _ lp] Cons.prems(6) by metis
      then have "wal_lines l1 = wal_lines l" using o(3) [OF Inl] by simp
      moreover from Cons.IH [OF inv1 s1 Cons.prems(3) dist lp Cons.prems(6)] obtain os where
        ih: "b" "spool_inv key ob' sp'" "replay_trace ev es c l1 os l'"
          "replayed es c (rep\<lparr>rr_failed := rr_failed rep + 1\<rparr>, ob, sp, l1) (rep', ob', sp', l') (recovered_nodes os) (raised_ids es os)"
        by blast
      moreover have c1': "commit_forensic_summary (ev (ox_entry_id e)) (commit_kwargs e) l = (Inl x, l1)" using c1 Inl by simp
      ultimately show ?thesis using Trace_Raised [OF False c1' ih(3)] replayed_fail [OF ih(4) _ nin]
        by (intro conjI exI [of _ "Raised x # os"]) simp_all
    next
      case (Inr n)
      then have lp: "replay_loop ev dio es (rc_state_id (ox_context e) # c) (rep\<lparr>rr_recovered := rr_recovered rep + 1\<rparr>, ob1, sp1, l1)
          = (b, rep', ob', sp', l')" using Cons.prems(5) h False c1 md by simp
      have n: "an_state_id n = rc_state_id (ox_context e)" "an_signature_meaning n = RECOVERED_TERMINAL_MEANING"
        using summary_commit_node [of _ _ l n l1] c1 Inr kwargs_sel by auto
      from Cons.IH [OF inv1 s1 conjunct1 [OF di] dist lp Cons.prems(6)] obtain os where
        ih: "b" "spool_inv key ob' sp'" "replay_trace ev es (rc_state_id (ox_context e) # c) l1 os l'"
          "replayed es (rc_state_id (ox_context e) # c) (rep\<lparr>rr_recovered := rr_recovered rep + 1\<rparr>, ob1, sp1, l1) (rep', ob', sp', l')
             (recovered_nodes os) (raised_ids es os)"
        by blast
      have c1': "commit_forensic_summary (ev (ox_entry_id e)) (commit_kwargs e) l = (Inr n, l1)" using c1 Inr by simp
      from Trace_Recovered [OF False c1' ih(3)]
        replayed_commit [OF ih(4) conjunct2 [OF di] conjunct1 [OF o(2) [OF Inr]] False n nin] ih(1,2)
      show ?thesis by (intro conjI exI [of _ "Recovered n # os"]) simp_all
    qed
  qed
qed

lemma pending_ids: "entries_held p \<Longrightarrow> map ox_entry_id (map snd p) = map fst p"
  by (auto simp: entries_held_def)

text \<open>Where no two entries are of one state, an entry's commit raised exactly when its state has no terminal node.\<close>

lemma trace_node_states:
  "replay_trace ev es c l os l' \<Longrightarrow> set (map an_state_id (recovered_nodes os)) \<subseteq> set (map (rc_state_id \<circ> ox_context) es)"
proof (induction rule: replay_trace.induct)
  case (Trace_Recovered e c l n l1 es os l')
  then show ?case using summary_commit_node [OF Trace_Recovered.hyps(2)] kwargs_sel by auto
qed auto

lemma trace_states:
  assumes "replay_trace ev es c l os l'" "distinct (map (rc_state_id \<circ> ox_context) es)" "k < length es"
  shows "(\<exists>x. os ! k = Raised x) \<longleftrightarrow> rc_state_id (ox_context (es ! k)) \<notin> set c \<union> set (map an_state_id (recovered_nodes os))"
  using assms
proof (induction arbitrary: k rule: replay_trace.induct)
  case (Trace_Deduplicated e c es l os l')
  then show ?case using Trace_Deduplicated.IH [of "k - 1"] by (cases k) auto
next
  case (Trace_Recovered e c l n l1 es os l')
  have "an_state_id n = rc_state_id (ox_context e)"
    using summary_commit_node [OF Trace_Recovered.hyps(2)] kwargs_sel by simp
  then show ?case using Trace_Recovered.IH [of "k - 1"] Trace_Recovered.prems by (cases k) auto
next
  case (Trace_Raised e c l x l1 es os l')
  have "rc_state_id (ox_context e) \<notin> set (map an_state_id (recovered_nodes os))"
    using trace_node_states [OF Trace_Raised.hyps(3)] Trace_Raised.prems(1) by auto
  then show ?case using Trace_Raised.IH [of "k - 1"] Trace_Raised.hyps(1) Trace_Raised.prems by (cases k) auto
qed simp

lemma replay_pending_replays:
  assumes "ledger_inv vs l" "\<And>i. signers_ok vs (ev i) l" "spool_inv key ob sp"
    and "replay_pending ev dio cio ob sp l = (res, ob', sp', l')" "lg_fault_state l' = healthy"
  shows "\<exists>rep os. res = Inr rep \<and> spool_inv key ob' sp'
    \<and> replay_trace ev (map snd (ob_pending ob)) (committed_terminal_state_ids l) l os l'
    \<and> replayed (map snd (ob_pending ob)) (committed_terminal_state_ids l)
        (\<lparr>rr_pending = length (ob_pending ob), rr_recovered = 0, rr_deduplicated = 0, rr_failed = 0, rr_refused_fault_state = []\<rparr>, ob, sp, l)
        (rep, ob', sp', l') (recovered_nodes os) (raised_ids (map snd (ob_pending ob)) os)"
proof (cases "ob_pending ob = []")
  case True
  then show ?thesis
    using assms(3,4) replayed_Nil Trace_End by (auto simp: replay_pending_def Let_def intro!: exI [of _ "[]"])
next
  case False
  let ?rep = "\<lparr>rr_pending = length (ob_pending ob), rr_recovered = 0, rr_deduplicated = 0, rr_failed = 0, rr_refused_fault_state = []\<rparr>"
  let ?es = "map snd (ob_pending ob)" and ?c = "committed_terminal_state_ids l"
  obtain b rep1 ob1 sp1 l1 where lp: "replay_loop ev dio ?es ?c (?rep, ob, sp, l) = (b, rep1, ob1, sp1, l1)" by (metis prod_cases5)
  have l1: "l1 = l'" using assms(4) False lp by (auto simp: replay_pending_def Let_def split: bool.splits sum.splits prod.splits)
  have ok: "entries_held (ob_pending ob)" using assms(3) by (simp add: spool_inv_def)
  then have "distinct (map ox_entry_id ?es)" unfolding pending_ids [OF ok] by (simp add: entries_held_def)
  from replay_loop_once [OF assms(1-3) this lp] l1 assms(5) obtain os where
    r: "b" "spool_inv key ob1 sp1" "replay_trace ev ?es ?c l os l'"
      "replayed ?es ?c (?rep, ob, sp, l) (rep1, ob1, sp1, l') (recovered_nodes os) (raised_ids ?es os)" by auto
  obtain r2 ob2 sp2 where c: "compact cio ob1 sp1 = (r2, ob2, sp2)" by (metis prod_cases3)
  note i = compact_inv [OF r(2) c]
  have "res = Inr rep1" "ob' = ob2" "sp' = sp2"
    using assms(4) False lp r(1) c i by (auto simp: replay_pending_def Let_def)
  moreover have "replayed ?es ?c (?rep, ob, sp, l) (rep1, ob2, sp2, l') (recovered_nodes os) (raised_ids ?es os)"
    using r(4) i by (simp add: replayed_def)
  ultimately show ?thesis using i r(3) by blast
qed

lemma restrict_to_domain: "map_of p |` (- (set (map fst p) - A)) = map_of p |` A"
  by (force simp: restrict_map_def fun_eq_iff map_of_eq_None_iff [symmetric] simp flip: not_None_eq)

text \<open>
  C10. A start recovers every pending record exactly once. Replaying an outbox into a ledger
  that stays healthy takes the entries in order: one whose state has a terminal node, in the
  retained chain or from an entry before it, is marked done, and every other is committed on
  the ledger the entries before it have left. What the log gains is the nodes those commits
  returned, one per newly committed state, none of a state that had a terminal node. The
  entries whose commit raised, and only they, stay pending, and the report counts the
  recovered, the deduplicated and the failed. So where no two entries are of one state, an
  entry leaves the pending set exactly when its state has a terminal node, old or new.
\<close>

theorem replay_exactly_once:
  assumes "ledger_reach vs l" "\<And>i. signers_ok vs (ev i) l" "outbox_life key owed ob sp"
    and "replay_pending ev dio cio ob sp l = (res, ob', sp', l')" "lg_fault_state l' = healthy"
    and "es = map snd (ob_pending ob)" "old = committed_terminal_state_ids l"
  shows "\<exists>rep os ns failed. res = Inr rep \<and> replay_trace ev es old l os l' \<and> ns = recovered_nodes os
    \<and> failed = {ox_entry_id e |e x. (e, Raised x) \<in> set (zip es os)}
    \<and> wal_lines l' = wal_lines l @ map (Document \<circ> node_to_dict) ns
    \<and> distinct (map an_state_id ns) \<and> set (map an_state_id ns) \<inter> set old = {}
    \<and> list_all (\<lambda>n. an_signature_meaning n = RECOVERED_TERMINAL_MEANING) ns
    \<and> map_of (ob_pending ob') = map_of (ob_pending ob) |` failed
    \<and> rr_recovered rep = length ns \<and> rr_failed rep = card failed
    \<and> rr_recovered rep + rr_deduplicated rep + rr_failed rep = length (ob_pending ob)
    \<and> (\<forall>e\<in>set es. ox_entry_id e \<notin> failed \<longrightarrow> rc_state_id (ox_context e) \<in> set old \<union> set (map an_state_id ns))
    \<and> (distinct (map (rc_state_id \<circ> ox_context) es) \<longrightarrow>
         (\<forall>e\<in>set es. map_of (ob_pending ob') (ox_entry_id e) = None
            \<longleftrightarrow> rc_state_id (ox_context e) \<in> set old \<union> set (map an_state_id ns)))"
proof -
  note life = life_inv [OF assms(3)]
  then have ok: "entries_held (ob_pending ob)" by (simp add: spool_inv_def)
  from replay_pending_replays [OF reach_inv [OF assms(1)] assms(2) conjunct1 [OF life] assms(4,5)] obtain rep os where
    r: "res = Inr rep" "replay_trace ev es old l os l'" "replayed es old
        (\<lparr>rr_pending = length (ob_pending ob), rr_recovered = 0, rr_deduplicated = 0, rr_failed = 0, rr_refused_fault_state = []\<rparr>, ob, sp, l)
        (rep, ob', sp', l') (recovered_nodes os) (raised_ids es os)" unfolding assms(6,7) by blast
  let ?F = "raised_ids es os"
  have distinct: "distinct (map ox_entry_id es)" unfolding assms(6) pending_ids [OF ok] using ok by (simp add: entries_held_def)
  have ids: "set (map ox_entry_id es) = set (map fst (ob_pending ob))" unfolding assms(6) by (simp only: pending_ids [OF ok])
  have left: "map_of (ob_pending ob') = map_of (ob_pending ob) |` ?F"
    using r(3) restrict_to_domain [of "ob_pending ob" ?F] unfolding replayed_def ids by simp
  have "map_of (ob_pending ob') (ox_entry_id e) = None \<longleftrightarrow> rc_state_id (ox_context e) \<in> set old \<union> set (map an_state_id (recovered_nodes os))"
    if d: "distinct (map (rc_state_id \<circ> ox_context) es)" and e: "e \<in> set es" for e
  proof -
    obtain k where k: "k < length es" "es ! k = e" using e by (metis in_set_conv_nth)
    have "ox_entry_id e \<in> set (map fst (ob_pending ob))" using e unfolding ids [symmetric] by simp
    then have "map_of (ob_pending ob) (ox_entry_id e) \<noteq> None" by (simp add: map_of_eq_None_iff)
    then show ?thesis
      using trace_states [OF r(2) d k(1)] raised_ids_nth [OF trace_length [OF r(2)] distinct k(1)] k(2) by (simp add: left restrict_map_def)
  qed
  moreover have "wal_lines l' = wal_lines l @ map (Document \<circ> node_to_dict) (recovered_nodes os)
    \<and> distinct (map an_state_id (recovered_nodes os)) \<and> set (map an_state_id (recovered_nodes os)) \<inter> set old = {}
    \<and> list_all (\<lambda>n. an_signature_meaning n = RECOVERED_TERMINAL_MEANING) (recovered_nodes os)
    \<and> rr_recovered rep = length (recovered_nodes os) \<and> rr_failed rep = card ?F
    \<and> rr_recovered rep + rr_deduplicated rep + rr_failed rep = length (ob_pending ob)
    \<and> (\<forall>e\<in>set es. ox_entry_id e \<notin> ?F \<longrightarrow> rc_state_id (ox_context e) \<in> set old \<union> set (map an_state_id (recovered_nodes os)))"
    using r(3) unfolding replayed_def prod.case assms(6) by simp
  ultimately show ?thesis using r(1,2) left unfolding raised_ids_def [symmetric] by blast
qed

lemma demo_recovery_commits:
  "\<exists>n l'. commit_forensic_summary demo_env (commit_kwargs demo_entry) demo_ledger = (Inr n, l') \<and> lg_fault_state l' = healthy"
proof -
  let ?a = "commit_kwargs demo_entry"
  let ?t = "summary_node ?a (replicate 64 CHR ''0'') ''recovered-terminal''"
  have "is_sha256_hex_str (replicate 64 CHR ''0'')" "is_sha256_hex_str (replicate 64 CHR ''1'')"
    by (simp_all add: is_sha256_hex_str_def hex_digits_def list_all_iff)
  then have "\<exists>leaf. commit_forensic_summary demo_env ?a demo_ledger = commit_with demo_env leaf ''t'' (fields_of_node ?t) ?t demo_ledger"
    by (simp add: commit_forensic_summary_def summary_request_def summary_checks_def commit_kwargs_def demo_entry_def
        RECOVERED_TERMINAL_MEANING_def MAX_PAYLOAD_BYTES_def allowed_outcomes_def signed_fields_for_def Let_def) blast
  then obtain leaf where c: "commit_forensic_summary demo_env ?a demo_ledger = commit_with demo_env leaf ''t'' (fields_of_node ?t) ?t demo_ledger"
    by blast
  have "\<exists>h s l1. seal_leaf demo_env leaf ''t'' demo_ledger = (Inr (h, s), l1)"
    using demo_calm(3) by (simp add: seal_leaf_def)
  then obtain h s l1 where seal: "seal_leaf demo_env leaf ''t'' demo_ledger = (Inr (h, s), l1)" by blast
  have sg: "signable ?t"
    by (simp add: signable_def summary_node_def blank_node_def commit_kwargs_def demo_entry_def sorted_counts_def WAF_VERDICTS_def
        verdict_defs Let_def)
  have ok: "signers_ok demo_verifiers demo_env demo_ledger" by (rule demo_signers) (simp_all add: demo_no_tokens)
  obtain n l' where n: "commit_forensic_summary demo_env ?a demo_ledger = (Inr n, l')"
    using commit_with_ok [OF _ _ _ _ _ _ seal] c sg ok reach_inv [OF New [OF demo_new]] new_ledger_facts(4) [OF demo_new] demo_calm
    by metis
  from summary_commit_outcome(2) [OF reach_inv [OF New [OF demo_new]] ok n refl] n new_ledger_facts(4) [OF demo_new]
  show ?thesis by auto
qed

theorem replay_exactly_once_witness:
  "\<exists>ob sp res ob' sp' l' rep ns. ob_pending ob = [(''e1'', demo_entry)]
     \<and> replay_pending (\<lambda>_. demo_env) (\<lambda>_. \<lparr>di_compact = Compact_Ok, di_append = Write_Ok\<rparr>) Compact_Ok ob sp demo_ledger = (res, ob', sp', l')
     \<and> res = Inr rep \<and> rr_recovered rep = 1 \<and> wal_lines l' = wal_lines demo_ledger @ map (Document \<circ> node_to_dict) ns
     \<and> map_of (ob_pending ob') = Map.empty"
proof -
  obtain owed ob sp where l: "outbox_life [1] owed ob sp" and p: "ob_pending ob = [(''e1'', demo_entry)]" using demo_life by blast
  let ?dio = "\<lambda>_ :: string. \<lparr>di_compact = Compact_Ok, di_append = Write_Ok\<rparr>"
  obtain res ob' sp' l' where r: "replay_pending (\<lambda>_. demo_env) ?dio Compact_Ok ob sp demo_ledger = (res, ob', sp', l')" by (metis prod_cases4)
  obtain n l1 where c: "commit_forensic_summary demo_env (commit_kwargs demo_entry) demo_ledger = (Inr n, l1)" "lg_fault_state l1 = healthy"
    using demo_recovery_commits by blast
  have none: "committed_terminal_state_ids demo_ledger = []" and hl: "lg_fault_state demo_ledger = healthy"
    using new_ledger_facts [OF demo_new] by (simp_all add: committed_terminal_state_ids_def)
  have h: "lg_fault_state l' = healthy"
    using r p c none hl by (auto simp: replay_pending_def Let_def split: prod.splits sum.splits)
  have ok: "\<And>i. signers_ok demo_verifiers demo_env demo_ledger" by (rule demo_signers) (simp_all add: demo_no_tokens)
  note once = replay_exactly_once [OF New [OF demo_new] ok l r h refl refl]
  from once obtain rep ns failed where
    e: "res = Inr rep" "wal_lines l' = wal_lines demo_ledger @ map (Document \<circ> node_to_dict) ns"
      "map_of (ob_pending ob') = map_of (ob_pending ob) |` failed" "rr_failed rep = card failed" "finite failed"
    unfolding raised_ids_def [symmetric] using finite_raised_ids by blast
  have q: "rr_recovered rep = 1" "rr_failed rep = 0"
    using r p c none hl e(1) by (auto simp: replay_pending_def Let_def split: prod.splits sum.splits)
  then have "failed = {}" using e(4,5) by simp
  then have "map_of (ob_pending ob') = Map.empty" using e(3) by simp
  with e q r p show ?thesis by blast
qed

end
