(* ===== verification/Commit_Handoff.thy ===== *)
theory Commit_Handoff
  imports Outbox_Replay
begin

section \<open>Handing terminal commits to the worker\<close>

text \<open>
  The admission gate and the commit hand-off of \<^verbatim>\<open>aegis/proxy/streaming.py\<close>, and the
  admission of a stream in \<^verbatim>\<open>aegis/proxy/app.py\<close>. A commit callable is a function on the
  world it commits to, with its exception as a value. The event loop runs one operation at
  a time; where the worker awaits, other operations come between, so its turn is the steps
  \<open>worker_get\<close>, \<open>worker_sync\<close> and \<open>worker_commit\<close>, with \<open>worker_cancel\<close> for a stop in the
  middle of a turn. The random identifier of a spooled entry is part of the entry.
\<close>

subsection \<open>The admission gate\<close>

record stream_gate =
  sg_limit :: int
  sg_active :: int
  sg_rejected :: nat

definition new_gate :: "int \<Rightarrow> stream_gate res" where
  "new_gate limit =
     (if limit < 0 then Inl (ValueError ''max_concurrent_streams must be >= 0'')
      else Inr \<lparr>sg_limit = limit, sg_active = 0, sg_rejected = 0\<rparr>)"

definition gate_acquire :: "stream_gate \<Rightarrow> unit res \<times> stream_gate" where
  "gate_acquire g =
     (if sg_limit g \<noteq> 0 \<and> sg_active g \<ge> sg_limit g
      then (Inl (RuntimeError ''StreamAdmissionFullError''), g\<lparr>sg_rejected := sg_rejected g + 1\<rparr>)
      else (Inr (), g\<lparr>sg_active := sg_active g + 1\<rparr>))"

definition gate_release :: "stream_gate \<Rightarrow> stream_gate" where
  "gate_release g = (if sg_active g > 0 then g\<lparr>sg_active := sg_active g - 1\<rparr> else g)"

subsection \<open>The hand-off\<close>

type_synonym 'w commit = "'w \<Rightarrow> unit res \<times> 'w"

record 'w handoff_item =
  hi_commit :: "'w commit"
  hi_spool :: "string option"

text \<open>The task: not running, waiting at the queue, or in a turn, with whether the outbox takes part in it.\<close>

datatype 'w worker = Stopped | Waiting | Syncing "'w handoff_item" bool | Committing "'w handoff_item" bool

record 'w handoff =
  hf_max_pending :: int
  hf_queue :: "'w handoff_item list"
  hf_worker :: "'w worker"
  hf_committed :: nat
  hf_dropped :: nat
  hf_attached :: bool
  hf_landed :: "('w \<Rightarrow> string \<Rightarrow> bool res) option"
  hf_outstanding :: int
  hf_admission_fault :: string

definition new_handoff :: "int \<Rightarrow> 'w handoff res" where
  "new_handoff max_pending =
     (if max_pending < 1 then Inl (ValueError ''max_pending must be positive'')
      else Inr \<lparr>hf_max_pending = max_pending, hf_queue = [], hf_worker = Stopped, hf_committed = 0, hf_dropped = 0,
                hf_attached = False, hf_landed = None, hf_outstanding = 0, hf_admission_fault = []\<rparr>)"

definition handoff_admission_error :: "'w handoff \<Rightarrow> int \<Rightarrow> string option" where
  "handoff_admission_error h active_streams =
     (if hf_admission_fault h \<noteq> [] then Some (hf_admission_fault h)
      else if active_streams + hf_outstanding h \<ge> hf_max_pending h then Some ''terminal evidence handoff capacity exhausted''
      else None)"

definition handoff_running :: "'w handoff \<Rightarrow> bool" where
  "handoff_running h \<longleftrightarrow> (case hf_worker h of Stopped \<Rightarrow> False | _ \<Rightarrow> True)"

definition attach_outbox :: "bool \<Rightarrow> ('w \<Rightarrow> string \<Rightarrow> bool res) option \<Rightarrow> 'w handoff \<Rightarrow> 'w handoff" where
  "attach_outbox outbox landed h = h\<lparr>hf_attached := outbox, hf_landed := landed\<rparr>"

definition start_handoff :: "'w handoff \<Rightarrow> 'w handoff" where
  "start_handoff h = (if handoff_running h then h else h\<lparr>hf_worker := Waiting\<rparr>)"

text \<open>Spooling comes first: the identifier the queued commit will carry.\<close>

definition spool_first ::
    "record_io \<Rightarrow> outbox_entry option \<Rightarrow> 'w handoff \<Rightarrow> outbox \<Rightarrow> spool \<Rightarrow> string option \<times> 'w handoff \<times> outbox \<times> spool" where
  "spool_first io replay h ob sp =
     (case replay of
        None \<Rightarrow> (None, h, ob, sp)
      | Some e \<Rightarrow>
          if \<not> hf_attached h then (None, h, ob, sp)
          else case record_entry io e ob sp of
            (None, ob', sp') \<Rightarrow> (None, h\<lparr>hf_admission_fault := ''terminal evidence spool unavailable''\<rparr>, ob', sp')
          | (Some i, ob', sp') \<Rightarrow> (Some i, h, ob', sp'))"

definition put_nowait :: "'w handoff_item \<Rightarrow> 'w handoff \<Rightarrow> bool \<times> 'w handoff" where
  "put_nowait item h =
     (if int (length (hf_queue h)) \<ge> hf_max_pending h
      then (False, h\<lparr>hf_admission_fault := ''terminal evidence handoff overflow'', hf_dropped := hf_dropped h + 1\<rparr>)
      else (True, h\<lparr>hf_queue := hf_queue h @ [item], hf_outstanding := hf_outstanding h + 1\<rparr>))"

definition submit ::
    "record_io \<Rightarrow> 'w commit \<Rightarrow> outbox_entry option \<Rightarrow> 'w handoff \<Rightarrow> outbox \<Rightarrow> spool \<Rightarrow> bool \<times> 'w handoff \<times> outbox \<times> spool" where
  "submit io commit replay h ob sp =
     (case spool_first io replay h ob sp of
        (spool_id, h1, ob1, sp1) \<Rightarrow>
          (case put_nowait \<lparr>hi_commit = commit, hi_spool = spool_id\<rparr> (start_handoff h1) of
             (ok, h2) \<Rightarrow> (ok, h2, ob1, sp1)))"

text \<open>The turn of the worker.\<close>

definition worker_get :: "'w handoff \<Rightarrow> 'w handoff" where
  "worker_get h =
     (case (hf_worker h, hf_queue h) of
        (Waiting, item # rest) \<Rightarrow> h\<lparr>hf_queue := rest, hf_worker := Syncing item (hi_spool item \<noteq> None \<and> hf_attached h)\<rparr>
      | _ \<Rightarrow> h)"

definition worker_sync :: "bool \<Rightarrow> 'w handoff \<Rightarrow> outbox \<Rightarrow> 'w handoff \<times> outbox" where
  "worker_sync ok h ob =
     (case hf_worker h of
        Syncing item spooled \<Rightarrow> (h\<lparr>hf_worker := Committing item spooled\<rparr>, if spooled then sync_outbox ok ob else ob)
      | _ \<Rightarrow> (h, ob))"

definition settle_after_failure ::
    "done_io \<Rightarrow> 'w handoff \<Rightarrow> string \<Rightarrow> 'w \<Rightarrow> outbox \<Rightarrow> spool \<Rightarrow> outbox \<times> spool" where
  "settle_after_failure io h spool_id w ob sp =
     (case (map_of (ob_pending ob) spool_id, hf_landed h) of
        (Some e, Some landed) \<Rightarrow>
          (case landed w (rc_state_id (ox_context e)) of
             Inr True \<Rightarrow> mark_done io spool_id ob sp
           | _ \<Rightarrow> (ob, sp))
      | _ \<Rightarrow> (ob, sp))"

definition turn_over :: "'w worker \<Rightarrow> 'w handoff \<Rightarrow> 'w handoff" where
  "turn_over wk h = h\<lparr>hf_outstanding := hf_outstanding h - 1, hf_worker := wk\<rparr>"

definition close_entry ::
    "done_io \<Rightarrow> 'w handoff \<Rightarrow> 'w handoff_item \<Rightarrow> bool \<Rightarrow> unit res \<Rightarrow> 'w \<Rightarrow> outbox \<Rightarrow> spool \<Rightarrow> outbox \<times> spool" where
  "close_entry io h item spooled r w ob sp =
     (case hi_spool item of
        None \<Rightarrow> (ob, sp)
      | Some i \<Rightarrow>
          if \<not> spooled then (ob, sp)
          else (case r of Inl _ \<Rightarrow> settle_after_failure io h i w ob sp | Inr _ \<Rightarrow> mark_done io i ob sp))"

definition after_commit :: "unit res \<Rightarrow> 'w handoff \<Rightarrow> 'w handoff" where
  "after_commit r h =
     (case r of
        Inl _ \<Rightarrow> h\<lparr>hf_admission_fault := ''terminal evidence commit failed''\<rparr>
      | Inr _ \<Rightarrow> h\<lparr>hf_committed := hf_committed h + 1\<rparr>)"

definition worker_commit ::
    "done_io \<Rightarrow> 'w handoff \<Rightarrow> outbox \<Rightarrow> spool \<Rightarrow> 'w \<Rightarrow> 'w handoff \<times> outbox \<times> spool \<times> 'w" where
  "worker_commit io h ob sp w =
     (case hf_worker h of
        Committing item spooled \<Rightarrow>
          (case hi_commit item w of (r, w') \<Rightarrow>
             (case close_entry io h item spooled r w' ob sp of (ob', sp') \<Rightarrow>
                (turn_over Waiting (after_commit r h), ob', sp', w')))
      | _ \<Rightarrow> (h, ob, sp, w))"

text \<open>A stop cancels the task wherever it is; a commit under way may have taken effect.\<close>

definition worker_cancel :: "bool \<Rightarrow> 'w handoff \<Rightarrow> 'w \<Rightarrow> 'w handoff \<times> 'w" where
  "worker_cancel took_effect h w =
     (case hf_worker h of
        Stopped \<Rightarrow> (h, w)
      | Waiting \<Rightarrow> (h\<lparr>hf_worker := Stopped\<rparr>, w)
      | Syncing item _ \<Rightarrow> (turn_over Stopped h, w)
      | Committing item _ \<Rightarrow> (turn_over Stopped h, if took_effect then snd (hi_commit item w) else w))"

subsection \<open>Admitting a stream\<close>

definition admit_stream :: "'w handoff \<Rightarrow> stream_gate \<Rightarrow> unit res \<times> stream_gate" where
  "admit_stream h g =
     (case gate_acquire g of
        (Inl x, g') \<Rightarrow> (Inl (RuntimeError ''HTTPException 429''), g')
      | (Inr _, g') \<Rightarrow>
          (case handoff_admission_error h (sg_active g' - 1) of
             Some reason \<Rightarrow> (Inl (RuntimeError (''HTTPException 503: '' @ reason)), gate_release g')
           | None \<Rightarrow> (Inr (), g')))"

subsection \<open>The gateway as a whole\<close>

text \<open>
  The state with the counts of its streams: the admitted ones that have not handed off their
  evidence, those that have and still hold their slot, and those that were closed from
  outside, which give their slot back first and hand off later. The last count is of such late
  hand-offs so far.
\<close>

record 'w gateway =
  gw_gate :: stream_gate
  gw_unhanded :: nat
  gw_handed :: nat
  gw_closing :: nat
  gw_late :: nat
  gw_handoff :: "'w handoff"
  gw_outbox :: outbox
  gw_spool :: spool
  gw_world :: 'w

text \<open>
  What a commit callable owes the world: it keeps the world valid, forgets no evidence, and
  when it returns the evidence of its request is there.
\<close>

definition sink_commit :: "('w \<Rightarrow> bool) \<Rightarrow> ('w \<Rightarrow> string \<Rightarrow> bool) \<Rightarrow> string \<Rightarrow> 'w commit \<Rightarrow> bool" where
  "sink_commit valid has sid c \<longleftrightarrow>
     (\<forall>w. valid w \<longrightarrow> valid (snd (c w)) \<and> (\<forall>s. has w s \<longrightarrow> has (snd (c w)) s)
        \<and> (fst (c w) = Inr () \<longrightarrow> has (snd (c w)) sid))"

definition enlist :: "string option \<Rightarrow> outbox_entry option \<Rightarrow> (string \<rightharpoonup> outbox_entry) \<Rightarrow> (string \<rightharpoonup> outbox_entry)" where
  "enlist i replay accepted = (case (i, replay) of (Some i, Some e) \<Rightarrow> accepted(i \<mapsto> e) | _ \<Rightarrow> accepted)"

text \<open>
  The runs of the gateway, with the entries the outbox has accepted so far, whatever is in them.
  A stream hands off at most once, after it was admitted, and gives its slot back after that or
  without it. Only a stream that is closed at the \<open>yield\<close> of \<open>guarded_stream\<close> gives the slot
  back at once: the generator inside it is finalised later, and hands off then. Other requests
  commit to the same world at any time.
\<close>

inductive gateway_run ::
    "('w \<Rightarrow> bool) \<Rightarrow> ('w \<Rightarrow> string \<Rightarrow> bool) \<Rightarrow> ('w \<Rightarrow> string \<Rightarrow> bool res) \<Rightarrow> bytes
     \<Rightarrow> (string \<rightharpoonup> outbox_entry) \<Rightarrow> 'w gateway \<Rightarrow> bool" for valid has landed key where
  Run_Boot: "new_gate limit = Inr g \<Longrightarrow> new_handoff mp = Inr h \<Longrightarrow> open_outbox oio key mb mo sp = (Inr ob, sp') \<Longrightarrow> valid w \<Longrightarrow>
    gateway_run valid has landed key Map.empty
      \<lparr>gw_gate = g, gw_unhanded = 0, gw_handed = 0, gw_closing = 0, gw_late = 0, gw_handoff = attach_outbox True (Some landed) (start_handoff h),
       gw_outbox = ob, gw_spool = sp', gw_world = w\<rparr>"
| Run_Admit: "gateway_run valid has landed key acc st \<Longrightarrow> admit_stream (gw_handoff st) (gw_gate st) = (Inr (), g) \<Longrightarrow>
    gateway_run valid has landed key acc (st\<lparr>gw_gate := g, gw_unhanded := Suc (gw_unhanded st)\<rparr>)"
| Run_Refuse: "gateway_run valid has landed key acc st \<Longrightarrow> admit_stream (gw_handoff st) (gw_gate st) = (Inl x, g) \<Longrightarrow>
    gateway_run valid has landed key acc (st\<lparr>gw_gate := g\<rparr>)"
| Run_Hand: "gateway_run valid has landed key acc st \<Longrightarrow> gw_unhanded st = Suc u \<Longrightarrow>
    pred_option (\<lambda>e. ox_entry_id e \<noteq> [] \<and> map_of (ob_pending (gw_outbox st)) (ox_entry_id e) = None \<and> acc (ox_entry_id e) = None
      \<and> rc_state_id (ox_context e) = sid) replay \<Longrightarrow>
    sink_commit valid has sid c \<Longrightarrow> spool_first io replay (gw_handoff st) (gw_outbox st) (gw_spool st) = (i, h1, ob1, sp1) \<Longrightarrow>
    submit io c replay (gw_handoff st) (gw_outbox st) (gw_spool st) = (ok, h, ob, sp) \<Longrightarrow>
    gateway_run valid has landed key (enlist i replay acc)
      (st\<lparr>gw_unhanded := u, gw_handed := Suc (gw_handed st), gw_handoff := h, gw_outbox := ob, gw_spool := sp\<rparr>)"
| Run_Release_Handed: "gateway_run valid has landed key acc st \<Longrightarrow> gw_handed st = Suc n \<Longrightarrow>
    gateway_run valid has landed key acc (st\<lparr>gw_handed := n, gw_gate := gate_release (gw_gate st)\<rparr>)"
| Run_Release_Inline: "gateway_run valid has landed key acc st \<Longrightarrow> gw_unhanded st = Suc n \<Longrightarrow>
    gateway_run valid has landed key acc (st\<lparr>gw_unhanded := n, gw_gate := gate_release (gw_gate st)\<rparr>)"
| Run_Close: "gateway_run valid has landed key acc st \<Longrightarrow> gw_unhanded st = Suc n \<Longrightarrow>
    gateway_run valid has landed key acc
      (st\<lparr>gw_unhanded := n, gw_closing := Suc (gw_closing st), gw_gate := gate_release (gw_gate st)\<rparr>)"
| Run_Hand_Late: "gateway_run valid has landed key acc st \<Longrightarrow> gw_closing st = Suc u \<Longrightarrow>
    pred_option (\<lambda>e. ox_entry_id e \<noteq> [] \<and> map_of (ob_pending (gw_outbox st)) (ox_entry_id e) = None \<and> acc (ox_entry_id e) = None
      \<and> rc_state_id (ox_context e) = sid) replay \<Longrightarrow>
    sink_commit valid has sid c \<Longrightarrow> spool_first io replay (gw_handoff st) (gw_outbox st) (gw_spool st) = (i, h1, ob1, sp1) \<Longrightarrow>
    submit io c replay (gw_handoff st) (gw_outbox st) (gw_spool st) = (ok, h, ob, sp) \<Longrightarrow>
    gateway_run valid has landed key (enlist i replay acc)
      (st\<lparr>gw_closing := u, gw_late := Suc (gw_late st), gw_handoff := h, gw_outbox := ob, gw_spool := sp\<rparr>)"
| Run_Closed_Inline: "gateway_run valid has landed key acc st \<Longrightarrow> gw_closing st = Suc n \<Longrightarrow>
    gateway_run valid has landed key acc (st\<lparr>gw_closing := n\<rparr>)"
| Run_Start: "gateway_run valid has landed key acc st \<Longrightarrow>
    gateway_run valid has landed key acc (st\<lparr>gw_handoff := start_handoff (gw_handoff st)\<rparr>)"
| Run_Get: "gateway_run valid has landed key acc st \<Longrightarrow>
    gateway_run valid has landed key acc (st\<lparr>gw_handoff := worker_get (gw_handoff st)\<rparr>)"
| Run_Sync: "gateway_run valid has landed key acc st \<Longrightarrow> worker_sync ok (gw_handoff st) (gw_outbox st) = (h, ob) \<Longrightarrow>
    gateway_run valid has landed key acc (st\<lparr>gw_handoff := h, gw_outbox := ob\<rparr>)"
| Run_Commit: "gateway_run valid has landed key acc st \<Longrightarrow>
    worker_commit dio (gw_handoff st) (gw_outbox st) (gw_spool st) (gw_world st) = (h, ob, sp, w) \<Longrightarrow>
    gateway_run valid has landed key acc (st\<lparr>gw_handoff := h, gw_outbox := ob, gw_spool := sp, gw_world := w\<rparr>)"
| Run_Cancel: "gateway_run valid has landed key acc st \<Longrightarrow> worker_cancel b (gw_handoff st) (gw_world st) = (h, w) \<Longrightarrow>
    gateway_run valid has landed key acc (st\<lparr>gw_handoff := h, gw_world := w\<rparr>)"
| Run_Other: "gateway_run valid has landed key acc st \<Longrightarrow> sink_commit valid has sid c \<Longrightarrow>
    gateway_run valid has landed key acc (st\<lparr>gw_world := snd (c (gw_world st))\<rparr>)"

subsection \<open>Which commits are dropped\<close>

definition in_turn :: "'w worker \<Rightarrow> int" where
  "in_turn wk = (case wk of Syncing _ _ \<Rightarrow> 1 | Committing _ _ \<Rightarrow> 1 | _ \<Rightarrow> 0)"

lemma in_turn_nonneg: "0 \<le> in_turn wk"
  by (simp add: in_turn_def split: worker.splits)

definition slots_ok :: "'w gateway \<Rightarrow> bool" where
  "slots_ok st \<longleftrightarrow>
     hf_outstanding (gw_handoff st) = int (length (hf_queue (gw_handoff st))) + in_turn (hf_worker (gw_handoff st))
     \<and> int (length (hf_queue (gw_handoff st))) \<le> hf_max_pending (gw_handoff st)
     \<and> sg_active (gw_gate st) = int (gw_unhanded st) + int (gw_handed st)
     \<and> hf_dropped (gw_handoff st) \<le> gw_late st
     \<and> int (hf_dropped (gw_handoff st)) + int (gw_unhanded st) + hf_outstanding (gw_handoff st)
         \<le> hf_max_pending (gw_handoff st) + int (gw_late st)"

lemma in_turn_idle [simp]: "in_turn Stopped = 0" "in_turn Waiting = 0"
  by (simp_all add: in_turn_def)

lemma start_handoff_sel [simp]:
  "hf_queue (start_handoff h) = hf_queue h" "hf_outstanding (start_handoff h) = hf_outstanding h"
  "hf_max_pending (start_handoff h) = hf_max_pending h" "hf_dropped (start_handoff h) = hf_dropped h"
  "hf_attached (start_handoff h) = hf_attached h" "hf_landed (start_handoff h) = hf_landed h"
  "in_turn (hf_worker (start_handoff h)) = in_turn (hf_worker h)"
  by (auto simp: start_handoff_def handoff_running_def in_turn_def split: worker.splits)

lemma spool_first_sel:
  assumes "spool_first io replay h ob sp = (i, h1, ob1, sp1)"
  shows "hf_queue h1 = hf_queue h" "hf_outstanding h1 = hf_outstanding h" "hf_max_pending h1 = hf_max_pending h"
    "hf_dropped h1 = hf_dropped h" "hf_worker h1 = hf_worker h" "hf_attached h1 = hf_attached h" "hf_landed h1 = hf_landed h"
  using assms by (auto simp: spool_first_def split: option.splits if_splits prod.splits)

text \<open>A hand-off queues its item, or finds the queue full and is dropped.\<close>

lemma submit_cases:
  assumes "submit io c replay h0 ob0 sp0 = (ok, h, ob, sp)"
  obtains i h1 where "spool_first io replay h0 ob0 sp0 = (i, h1, ob, sp)"
    "ok \<longleftrightarrow> int (length (hf_queue h0)) < hf_max_pending h0"
    "h = (if ok then (start_handoff h1)\<lparr>hf_queue := hf_queue h0 @ [\<lparr>hi_commit = c, hi_spool = i\<rparr>], hf_outstanding := hf_outstanding h0 + 1\<rparr>
          else (start_handoff h1)\<lparr>hf_admission_fault := ''terminal evidence handoff overflow'', hf_dropped := hf_dropped h0 + 1\<rparr>)"
proof -
  obtain i h1 ob1 sp1 where f: "spool_first io replay h0 ob0 sp0 = (i, h1, ob1, sp1)" by (metis prod_cases4)
  with assms spool_first_sel [OF f] that [of i h1] show thesis by (auto simp: submit_def put_nowait_def split: if_splits)
qed

lemma submit_sel:
  assumes "submit io c replay h0 ob0 sp0 = (ok, h, ob, sp)"
  shows "hf_max_pending h = hf_max_pending h0 \<and> in_turn (hf_worker h) = in_turn (hf_worker h0)
    \<and> (ok \<longleftrightarrow> int (length (hf_queue h0)) < hf_max_pending h0)
    \<and> int (length (hf_queue h)) = int (length (hf_queue h0)) + (if ok then 1 else 0)
    \<and> hf_outstanding h = hf_outstanding h0 + (if ok then 1 else 0) \<and> int (hf_dropped h) = int (hf_dropped h0) + (if ok then 0 else 1)"
  using assms by (cases rule: submit_cases) (auto dest: spool_first_sel)

lemma admit_stream_ok:
  assumes "admit_stream h g = (Inr (), g')"
  shows "sg_active g' = sg_active g + 1 \<and> sg_active g + hf_outstanding h < hf_max_pending h"
  using assms by (auto simp: admit_stream_def gate_acquire_def handoff_admission_error_def split: if_splits)

lemma admit_stream_refused:
  assumes "admit_stream h g = (Inl x, g')" "0 \<le> sg_active g"
  shows "sg_active g' = sg_active g"
  using assms by (auto simp: admit_stream_def gate_acquire_def gate_release_def split: if_splits option.splits)

lemma worker_commit_cases:
  assumes "worker_commit dio h ob sp w = (h', ob', sp', w')"
  obtains (idle) "h' = h" "ob' = ob" "sp' = sp" "w' = w"
    | (turn) item spooled r where "hf_worker h = Committing item spooled" "hi_commit item w = (r, w')"
      "close_entry dio h item spooled r w' ob sp = (ob', sp')" "h' = turn_over Waiting (after_commit r h)"
proof (cases "hf_worker h")
  case (Committing item spooled)
  obtain r w1 where c: "hi_commit item w = (r, w1)" by force
  obtain ob1 sp1 where d: "close_entry dio h item spooled r w1 ob sp = (ob1, sp1)" by force
  have "worker_commit dio h ob sp w = (turn_over Waiting (after_commit r h), ob1, sp1, w1)"
    by (simp add: worker_commit_def Committing c d)
  with assms have "h' = turn_over Waiting (after_commit r h)" "ob' = ob1" "sp' = sp1" "w' = w1" by simp_all
  with turn [OF Committing] c d show thesis by simp
qed (use assms idle in \<open>simp_all add: worker_commit_def\<close>)

lemma after_commit_sel [simp]:
  "hf_queue (after_commit r h) = hf_queue h" "hf_max_pending (after_commit r h) = hf_max_pending h"
  "hf_dropped (after_commit r h) = hf_dropped h" "hf_landed (after_commit r h) = hf_landed h"
  "hf_outstanding (after_commit r h) = hf_outstanding h"
  by (simp_all add: after_commit_def split: sum.splits)

lemma turn_over_sel [simp]:
  "hf_queue (turn_over wk h) = hf_queue h" "hf_max_pending (turn_over wk h) = hf_max_pending h"
  "hf_dropped (turn_over wk h) = hf_dropped h" "hf_landed (turn_over wk h) = hf_landed h"
  "hf_outstanding (turn_over wk h) = hf_outstanding h - 1" "hf_worker (turn_over wk h) = wk"
  by (simp_all add: turn_over_def)

lemma worker_commit_sel:
  assumes "worker_commit dio h ob sp w = (h', ob', sp', w')"
  shows "hf_queue h' = hf_queue h \<and> hf_max_pending h' = hf_max_pending h \<and> hf_dropped h' = hf_dropped h
    \<and> hf_landed h' = hf_landed h \<and> hf_outstanding h' - in_turn (hf_worker h') = hf_outstanding h - in_turn (hf_worker h)
    \<and> hf_outstanding h' \<le> hf_outstanding h"
  using assms by (cases rule: worker_commit_cases) (simp_all add: in_turn_def)

lemma worker_cancel_sel:
  assumes "worker_cancel b h w = (h', w')"
  shows "hf_queue h' = hf_queue h \<and> hf_max_pending h' = hf_max_pending h \<and> hf_dropped h' = hf_dropped h
    \<and> hf_landed h' = hf_landed h \<and> hf_outstanding h' - in_turn (hf_worker h') = hf_outstanding h - in_turn (hf_worker h)
    \<and> hf_outstanding h' \<le> hf_outstanding h \<and> hf_worker h' = Stopped"
  using assms by (cases "hf_worker h") (auto simp: worker_cancel_def in_turn_def)

lemma run_slots: "gateway_run valid has landed key acc st \<Longrightarrow> slots_ok st"
proof (induction rule: gateway_run.induct)
  case (Run_Boot limit g mp h oio mb mo sp ob sp' w)
  then show ?case by (auto simp: slots_ok_def new_gate_def new_handoff_def attach_outbox_def start_handoff_def handoff_running_def
        in_turn_def split: if_splits)
next
  case (Run_Admit acc st g)
  then show ?case using admit_stream_ok [OF Run_Admit.hyps(2)] by (simp add: slots_ok_def)
next
  case (Run_Refuse acc st x g)
  then show ?case using admit_stream_refused [OF Run_Refuse.hyps(2)] by (simp add: slots_ok_def)
next
  case (Run_Hand acc st u sid replay c io i h1 ob1 sp1 ok h ob sp)
  show ?case using Run_Hand.IH Run_Hand.hyps(2) submit_sel [OF Run_Hand.hyps(6)] in_turn_nonneg [of "hf_worker (gw_handoff st)"]
    by (cases ok) (auto simp: slots_ok_def)
next
  case (Run_Close acc st n)
  then show ?case by (simp add: slots_ok_def gate_release_def)
next
  case (Run_Hand_Late acc st u sid replay c io i h1 ob1 sp1 ok h ob sp)
  show ?case using Run_Hand_Late.IH Run_Hand_Late.hyps(2) submit_sel [OF Run_Hand_Late.hyps(6)]
    by (cases ok) (auto simp: slots_ok_def)
next
  case (Run_Closed_Inline acc st n)
  then show ?case by (simp add: slots_ok_def)
next
  case (Run_Release_Handed acc st n)
  then show ?case by (simp add: slots_ok_def gate_release_def)
next
  case (Run_Release_Inline acc st n)
  then show ?case by (simp add: slots_ok_def gate_release_def)
next
  case (Run_Start acc st)
  then show ?case by (simp add: slots_ok_def)
next
  case (Run_Get acc st)
  then show ?case by (cases "hf_worker (gw_handoff st)"; cases "hf_queue (gw_handoff st)") (simp_all add: slots_ok_def worker_get_def in_turn_def)
next
  case (Run_Sync acc st ok h ob)
  then show ?case by (cases "hf_worker (gw_handoff st)") (auto simp: slots_ok_def worker_sync_def in_turn_def)
next
  case (Run_Commit acc st dio h ob sp w)
  then show ?case using worker_commit_sel [OF Run_Commit.hyps(2)] by (simp add: slots_ok_def)
next
  case (Run_Cancel acc st b h w)
  then show ?case using worker_cancel_sel [OF Run_Cancel.hyps(2)] by (auto simp: slots_ok_def)
next
  case (Run_Other acc st sid c)
  then show ?case by (simp add: slots_ok_def)
qed

subsection \<open>Accepted evidence is in the ledger or in the outbox\<close>

definition items :: "'w handoff \<Rightarrow> 'w handoff_item set" where
  "items h = set (hf_queue h) \<union> (case hf_worker h of Syncing it _ \<Rightarrow> {it} | Committing it _ \<Rightarrow> {it} | _ \<Rightarrow> {})"

definition item_ok ::
    "('w \<Rightarrow> bool) \<Rightarrow> ('w \<Rightarrow> string \<Rightarrow> bool) \<Rightarrow> (string \<rightharpoonup> outbox_entry) \<Rightarrow> 'w handoff_item \<Rightarrow> bool" where
  "item_ok valid has acc it \<longleftrightarrow>
     (\<exists>sid. sink_commit valid has sid (hi_commit it)
        \<and> (\<forall>i. hi_spool it = Some i \<longrightarrow> (\<exists>e. acc i = Some e \<and> rc_state_id (ox_context e) = sid)))"

definition kept :: "('w \<Rightarrow> string \<Rightarrow> bool) \<Rightarrow> (string \<rightharpoonup> outbox_entry) \<Rightarrow> (string \<rightharpoonup> outbox_entry) \<Rightarrow> 'w \<Rightarrow> bool" where
  "kept has acc pending w \<longleftrightarrow> (\<forall>i e. acc i = Some e \<longrightarrow> pending i = Some e \<or> has w (rc_state_id (ox_context e)))"

lemma keptD: "kept has acc pending w \<Longrightarrow> acc i = Some e \<Longrightarrow> pending i = Some e \<or> has w (rc_state_id (ox_context e))"
  by (simp add: kept_def)

lemma kept_later:
  assumes "kept has acc pending w" "\<And>s. has w s \<Longrightarrow> has w' s"
  shows "kept has acc pending w'"
  using assms by (auto simp: kept_def)

lemma kept_done:
  assumes "kept has acc pending w" "\<And>e. acc i = Some e \<Longrightarrow> has w (rc_state_id (ox_context e))"
  shows "kept has acc (pending(i := None)) w"
  using assms by (auto simp: kept_def)

lemma kept_enlist:
  assumes "kept has acc pending w" "acc (ox_entry_id e) = None"
  shows "kept has (acc(ox_entry_id e \<mapsto> e)) (pending(ox_entry_id e \<mapsto> e)) w"
  using assms by (auto simp: kept_def)

definition secured ::
    "('w \<Rightarrow> bool) \<Rightarrow> ('w \<Rightarrow> string \<Rightarrow> bool) \<Rightarrow> ('w \<Rightarrow> string \<Rightarrow> bool res) \<Rightarrow> bytes
     \<Rightarrow> (string \<rightharpoonup> outbox_entry) \<Rightarrow> 'w gateway \<Rightarrow> bool" where
  "secured valid has landed key acc st \<longleftrightarrow>
     valid (gw_world st) \<and> spool_inv key (gw_outbox st) (gw_spool st) \<and> hf_landed (gw_handoff st) = Some landed
     \<and> kept has acc (map_of (ob_pending (gw_outbox st))) (gw_world st) \<and> (\<forall>it\<in>items (gw_handoff st). item_ok valid has acc it)"

lemma items_start [simp]: "items (start_handoff h) = items h"
  by (auto simp: items_def start_handoff_def handoff_running_def split: worker.splits)

lemma items_get: "items (worker_get h) = items h"
  by (cases "hf_worker h"; cases "hf_queue h") (auto simp: items_def worker_get_def)

lemma hf_landed_get: "hf_landed (worker_get h) = hf_landed h"
  by (cases "hf_worker h"; cases "hf_queue h") (simp_all add: worker_get_def)

lemma worker_sync_sel:
  assumes "worker_sync ok h ob = (h', ob')"
  shows "items h' = items h \<and> hf_landed h' = hf_landed h \<and> ob_mac_key ob' = ob_mac_key ob \<and> ob_pending ob' = ob_pending ob"
  using assms by (cases "hf_worker h") (auto simp: worker_sync_def items_def sync_outbox_def)

lemma sink_commitD:
  assumes "sink_commit valid has sid c" "valid w" "c w = (r, w')"
  shows "valid w'" "\<And>s. has w s \<Longrightarrow> has w' s" "r = Inr () \<Longrightarrow> has w' sid"
proof -
  have "valid (snd (c w)) \<and> (\<forall>s. has w s \<longrightarrow> has (snd (c w)) s) \<and> (fst (c w) = Inr () \<longrightarrow> has (snd (c w)) sid)"
    using assms(1,2) unfolding sink_commit_def by blast
  then show "valid w'" "\<And>s. has w s \<Longrightarrow> has w' s" "r = Inr () \<Longrightarrow> has w' sid" by (simp_all add: assms(3))
qed

lemma spool_first_secured:
  assumes inv: "spool_inv key ob sp" and k: "kept has acc (map_of (ob_pending ob)) w"
    and e: "pred_option (\<lambda>e. ox_entry_id e \<noteq> [] \<and> map_of (ob_pending ob) (ox_entry_id e) = None \<and> acc (ox_entry_id e) = None
      \<and> rc_state_id (ox_context e) = sid) replay"
    and f: "spool_first io replay h ob sp = (i, h', ob', sp')"
  shows "spool_inv key ob' sp' \<and> kept has (enlist i replay acc) (map_of (ob_pending ob')) w
    \<and> acc \<subseteq>\<^sub>m enlist i replay acc
    \<and> (\<forall>j. i = Some j \<longrightarrow> (\<exists>e. enlist i replay acc j = Some e \<and> rc_state_id (ox_context e) = sid))"
proof (cases "replay = None \<or> \<not> hf_attached h")
  case True
  then have "i = None" "ob' = ob" "sp' = sp" using f by (auto simp: spool_first_def split: option.splits)
  with inv k show ?thesis by (simp add: enlist_def)
next
  case False
  then obtain e' where r: "replay = Some e'" by auto
  obtain q ob1 sp1 where q: "record_entry io e' ob sp = (q, ob1, sp1)" by (metis prod_cases3)
  have ee: "ox_entry_id e' \<noteq> []" "map_of (ob_pending ob) (ox_entry_id e') = None" "acc (ox_entry_id e') = None"
    "rc_state_id (ox_context e') = sid" using e r by simp_all
  have res: "i = q" "ob' = ob1" "sp' = sp1" using f r q False by (auto simp: spool_first_def split: option.splits)
  from record_inv [OF inv ee(1,2) q] show ?thesis
  proof (elim conjE disjE)
    assume "spool_inv key ob1 sp1" "q = None" "map_of (ob_pending ob1) = map_of (ob_pending ob)"
    then show ?thesis using k res by (simp add: enlist_def)
  next
    assume "spool_inv key ob1 sp1" "q = Some (ox_entry_id e')" "map_of (ob_pending ob1) = (map_of (ob_pending ob))(ox_entry_id e' \<mapsto> e')"
    then show ?thesis using kept_enlist [OF k ee(3)] res r ee(3,4) by (auto simp: enlist_def map_le_def)
  qed
qed

lemma item_ok_enlist: "item_ok valid has acc it \<Longrightarrow> acc \<subseteq>\<^sub>m acc' \<Longrightarrow> item_ok valid has acc' it"
  unfolding item_ok_def map_le_def by (metis domI)

text \<open>The ledger, or whatever takes the commits, answers truthfully whether evidence has landed.\<close>

locale terminal_sink =
  fixes valid :: "'w \<Rightarrow> bool"
    and has :: "'w \<Rightarrow> string \<Rightarrow> bool"
    and landed :: "'w \<Rightarrow> string \<Rightarrow> bool res"
  assumes landed_sound: "valid w \<Longrightarrow> landed w s = Inr True \<Longrightarrow> has w s"
begin

lemma close_entry_keeps:
  assumes inv: "spool_inv key ob sp" and k: "kept has acc (map_of (ob_pending ob)) w" and v: "valid w"
    and h: "hf_landed h = Some landed" and c: "close_entry io h it spooled r w ob sp = (ob', sp')"
    and ok: "\<And>i e. hi_spool it = Some i \<Longrightarrow> acc i = Some e \<Longrightarrow> r = Inr () \<Longrightarrow> has w (rc_state_id (ox_context e))"
  shows "spool_inv key ob' sp' \<and> kept has acc (map_of (ob_pending ob')) w"
proof -
  consider (same) "ob' = ob" "sp' = sp"
    | (gone) i where "mark_done io i ob sp = (ob', sp')" "\<And>e. acc i = Some e \<Longrightarrow> has w (rc_state_id (ox_context e))"
  proof (cases "hi_spool it = None \<or> \<not> spooled")
    case True
    then show thesis using c same by (auto simp: close_entry_def split: option.splits)
  next
    case False
    then obtain i where i: "hi_spool it = Some i" spooled by auto
    show thesis
    proof (cases r)
      case (Inr u)
      then show thesis using gone [of i] c i ok by (simp add: close_entry_def)
    next
      case (Inl x)
      have c': "settle_after_failure io h i w ob sp = (ob', sp')" using c i Inl by (simp add: close_entry_def)
      show thesis
      proof (cases "map_of (ob_pending ob) i")
        case None
        then show thesis using c' same by (simp add: settle_after_failure_def)
      next
        case (Some e')
        show thesis
        proof (cases "landed w (rc_state_id (ox_context e')) = Inr True")
          case True
          have "has w (rc_state_id (ox_context e))" if "acc i = Some e" for e
            using keptD [OF k that] Some landed_sound [OF v True] by auto
          moreover have "mark_done io i ob sp = (ob', sp')" using c' Some h True by (simp add: settle_after_failure_def)
          ultimately show thesis by (rule gone [rotated])
        next
          case False
          then show thesis using c' Some h same by (auto simp: settle_after_failure_def split: sum.splits bool.splits)
        qed
      qed
    qed
  qed
  then show ?thesis
  proof cases
    case same
    then show ?thesis using inv k by simp
  next
    case gone
    then show ?thesis using done_inv [OF inv gone(1)] kept_done [OF k gone(2)] by simp
  qed
qed

lemma commit_secured:
  assumes s: "secured valid has landed key acc st"
    and c: "worker_commit dio (gw_handoff st) (gw_outbox st) (gw_spool st) (gw_world st) = (h, ob, sp, w)"
  shows "secured valid has landed key acc (st\<lparr>gw_handoff := h, gw_outbox := ob, gw_spool := sp, gw_world := w\<rparr>)"
  using c
proof (cases rule: worker_commit_cases)
  case idle
  then show ?thesis using s by (simp add: secured_def)
next
  case (turn it spooled r)
  have "item_ok valid has acc it" using s turn(1) by (simp add: secured_def items_def)
  then obtain sid where sid: "sink_commit valid has sid (hi_commit it)"
    "\<And>i. hi_spool it = Some i \<Longrightarrow> \<exists>e. acc i = Some e \<and> rc_state_id (ox_context e) = sid" by (auto simp: item_ok_def)
  have v: "valid (gw_world st)" using s by (simp add: secured_def)
  note d = sink_commitD [OF sid(1) v turn(2)]
  have si: "spool_inv key (gw_outbox st) (gw_spool st)" and hl: "hf_landed (gw_handoff st) = Some landed"
    using s by (simp_all add: secured_def)
  have k: "kept has acc (map_of (ob_pending (gw_outbox st))) w"
    using s d(2) kept_later [of has acc _ "gw_world st" w] by (simp add: secured_def)
  have l: "has w (rc_state_id (ox_context e))" if "hi_spool it = Some i" "acc i = Some e" "r = Inr ()" for i e
    using sid(2) [OF that(1)] that d(3) by auto
  have "spool_inv key ob sp \<and> kept has acc (map_of (ob_pending ob)) w"
    by (rule close_entry_keeps [OF si k d(1) hl turn(3) l])
  moreover have "items h \<subseteq> items (gw_handoff st)" using turn(4) by (auto simp: items_def)
  ultimately show ?thesis using s d(1) turn(4) by (auto simp: secured_def)
qed

lemma cancel_secured:
  assumes s: "secured valid has landed key acc st" and c: "worker_cancel b (gw_handoff st) (gw_world st) = (h, w)"
  shows "secured valid has landed key acc (st\<lparr>gw_handoff := h, gw_world := w\<rparr>)"
proof -
  have "\<exists>sid c. sink_commit valid has sid c \<and> w = snd (c (gw_world st)) \<or> w = gw_world st"
    using s c by (cases "hf_worker (gw_handoff st)") (auto simp: worker_cancel_def secured_def items_def item_ok_def split: if_splits)
  then have "valid w \<and> (\<forall>x. has (gw_world st) x \<longrightarrow> has w x)"
    using s by (auto simp: secured_def sink_commit_def)
  moreover have "items h \<subseteq> items (gw_handoff st)"
    using worker_cancel_sel [OF c] by (auto simp: items_def)
  ultimately show ?thesis
    using s worker_cancel_sel [OF c] kept_later [of has acc _ "gw_world st" w] by (auto simp: secured_def)
qed

lemma hand_secured:
  assumes s: "secured valid has landed key acc st"
    and e: "pred_option (\<lambda>e. ox_entry_id e \<noteq> [] \<and> map_of (ob_pending (gw_outbox st)) (ox_entry_id e) = None \<and> acc (ox_entry_id e) = None
      \<and> rc_state_id (ox_context e) = sid) replay"
    and k: "sink_commit valid has sid c" and f: "spool_first io replay (gw_handoff st) (gw_outbox st) (gw_spool st) = (i, h1, ob1, sp1)"
    and sub: "submit io c replay (gw_handoff st) (gw_outbox st) (gw_spool st) = (ok, h, ob, sp)"
  shows "secured valid has landed key (enlist i replay acc) (st\<lparr>gw_handoff := h, gw_outbox := ob, gw_spool := sp\<rparr>)"
proof -
  have inv: "spool_inv key (gw_outbox st) (gw_spool st)" "kept has acc (map_of (ob_pending (gw_outbox st))) (gw_world st)"
    using s by (simp_all add: secured_def)
  obtain i' h' where f': "spool_first io replay (gw_handoff st) (gw_outbox st) (gw_spool st) = (i', h', ob, sp)"
    and h: "h = (if ok then (start_handoff h')\<lparr>hf_queue := hf_queue (gw_handoff st) @ [\<lparr>hi_commit = c, hi_spool = i'\<rparr>],
              hf_outstanding := hf_outstanding (gw_handoff st) + 1\<rparr>
            else (start_handoff h')\<lparr>hf_admission_fault := ''terminal evidence handoff overflow'',
              hf_dropped := hf_dropped (gw_handoff st) + 1\<rparr>)"
    by (rule submit_cases [OF sub])
  have i: "i' = i" using f f' by simp
  note n = spool_first_secured [OF inv e f', unfolded i] and sel = spool_first_sel [OF f']
  have "items h \<subseteq> insert \<lparr>hi_commit = c, hi_spool = i\<rparr> (items (start_handoff h'))"
    unfolding h i by (cases ok) (auto simp: items_def sel)
  also have "items (start_handoff h') = items (gw_handoff st)" by (simp only: items_start) (simp add: items_def sel)
  finally have its: "items h \<subseteq> insert \<lparr>hi_commit = c, hi_spool = i\<rparr> (items (gw_handoff st))" .
  have new: "item_ok valid has (enlist i replay acc) \<lparr>hi_commit = c, hi_spool = i\<rparr>" using k n by (auto simp: item_ok_def)
  have "item_ok valid has (enlist i replay acc) it" if "it \<in> items h" for it
    using that its new s n item_ok_enlist by (fastforce simp: secured_def)
  moreover have "hf_landed h = Some landed" using s sel by (simp add: h secured_def)
  ultimately show ?thesis using s n by (simp add: secured_def)
qed

lemma run_secured:
  assumes "gateway_run valid has landed key acc st"
  shows "secured valid has landed key acc st"
  using assms
proof (induction rule: gateway_run.induct)
  case (Run_Boot limit g mp h oio mb mo sp ob sp' w)
  then show ?case using open_inv [OF Run_Boot.hyps(3)]
    by (auto simp: secured_def attach_outbox_def start_handoff_def handoff_running_def new_handoff_def items_def kept_def split: if_splits)
next
  case (Run_Hand acc st u sid replay c io i h1 ob1 sp1 ok h ob sp)
  from hand_secured [OF Run_Hand.IH Run_Hand.hyps(3-6)] show ?case by (simp add: secured_def)
next
  case (Run_Hand_Late acc st u sid replay c io i h1 ob1 sp1 ok h ob sp)
  from hand_secured [OF Run_Hand_Late.IH Run_Hand_Late.hyps(3-6)] show ?case by (simp add: secured_def)
next
  case (Run_Sync acc st ok h ob)
  then show ?case using worker_sync_sel [OF Run_Sync.hyps(2)] spool_inv_frame [of ob "gw_outbox st" "gw_spool st" "gw_spool st" key]
    by (simp add: secured_def)
next
  case (Run_Commit acc st dio h ob sp w)
  then show ?case by (blast intro: commit_secured)
next
  case (Run_Cancel acc st b h w)
  then show ?case by (blast intro: cancel_secured)
next
  case (Run_Other acc st sid c)
  then show ?case using kept_later [of has acc _ "gw_world st" "snd (c (gw_world st))"]
    by (auto simp: secured_def sink_commit_def)
qed (simp_all add: secured_def items_get hf_landed_get)

end

subsection \<open>The ledger as the sink\<close>

text \<open>
  A ledger holds the evidence of a request when its log has a terminal node of it, unless it
  has latched a fault; the nodes in memory are in the log.
\<close>

definition ledger_has :: "ledger \<Rightarrow> string \<Rightarrow> bool" where
  "ledger_has l sid \<longleftrightarrow> lg_fault_state l \<noteq> healthy
     \<or> (\<exists>n. Document (node_to_dict n) \<in> set (wal_lines l) \<and> an_state_id n = sid \<and> is_terminal_node n)"

definition ledger_sink :: "verifiers \<Rightarrow> ledger \<Rightarrow> ledger \<Rightarrow> bool" where
  "ledger_sink vs l0 l \<longleftrightarrow> ledger_inv vs l \<and> same_keys l0 l
     \<and> (lg_fault_state l = healthy \<longrightarrow> (\<forall>n\<in>set (lg_chain l). Document (node_to_dict n) \<in> set (wal_lines l)))"

definition ledger_landed :: "ledger \<Rightarrow> string \<Rightarrow> bool res" where
  "ledger_landed l sid = Inr (has_terminal_node l sid)"

text \<open>The part of a stream's commit callable that concerns the ledger.\<close>

definition ledger_commit :: "commit_env \<Rightarrow> summary_args \<Rightarrow> ledger commit" where
  "ledger_commit ev a l = (case commit_forensic_summary ev a l of (Inl x, l') \<Rightarrow> (Inl x, l') | (Inr n, l') \<Rightarrow> (Inr (), l'))"

interpretation ledger_terminal: terminal_sink "ledger_sink vs l0" ledger_has ledger_landed for vs :: verifiers and l0 :: ledger
  by unfold_locales (auto simp: ledger_sink_def ledger_landed_def ledger_has_def has_terminal_node_def list_ex_iff)

lemma ledger_commit_sinks:
  assumes "signers_ok vs ev l0" "sa_state_id a = sid" "sa_signature_meaning a \<in> set TERMINAL_MEANINGS"
  shows "sink_commit (ledger_sink vs l0) ledger_has sid (ledger_commit ev a)"
proof -
  have step: "ledger_sink vs l0 l' \<and> (\<forall>s. ledger_has l s \<longrightarrow> ledger_has l' s) \<and> (r = Inr () \<longrightarrow> ledger_has l' sid)"
    if v: "ledger_sink vs l0 l" and c: "ledger_commit ev a l = (r, l')" for l r l'
  proof -
    obtain q l1 where q1: "commit_forensic_summary ev a l = (q, l1)" by force
    then have q: "commit_forensic_summary ev a l = (q, l')" "r = Inr () \<longleftrightarrow> (\<exists>n. q = Inr n)"
      using c by (cases q; auto simp: ledger_commit_def)+
    have "ledger_inv vs l" and k: "same_keys l0 l" using v by (simp_all add: ledger_sink_def)
    moreover have "signers_ok vs ev l" using signers_ok_same_keys [OF k assms(1)] .
    moreover have "commits_via ev l (q, l')" using commit_summary_via [of ev l a] q(1) by simp
    ultimately have o: "ledger_inv vs l' \<and> same_keys l l' \<and>
      (case q of Inl e \<Rightarrow> (same_view l l' \<or> e = wal_durability_error \<and> lg_fault_state l' = ''wal_persist_failed'') \<and> unless_faulted l l'
       | Inr n \<Rightarrow> lg_fault_state l = healthy \<and> extended l n l')" using commits_via_outcome by blast
    have k': "same_keys l0 l'" using same_keys_trans [OF k] o by blast
    show ?thesis
    proof (cases q)
      case (Inl e)
      then have u: "unless_faulted l l'" using o by simp
      have r: "r \<noteq> Inr ()" using q(2) Inl by simp
      have i: "ledger_inv vs l'" using o by (rule conjunct1)
      show ?thesis
      proof (cases "lg_fault_state l' = healthy")
        case True
        then have c: "core l' = core l" and w: "wal_lines l' = wal_lines l" using u by (simp_all add: unless_faulted_def)
        have "lg_chain l' = lg_chain l" "lg_fault_state l' = lg_fault_state l" by (rule core_sel [OF c])+
        then show ?thesis using v i k' r w unfolding ledger_sink_def ledger_has_def by simp
      next
        case False
        then show ?thesis using i k' r unfolding ledger_sink_def ledger_has_def by simp
      qed
    next
      case (Inr n)
      then have x: "lg_fault_state l = healthy" "extended l n l'" using o by simp_all
      have n: "an_state_id n = sid" "is_terminal_node n"
        using summary_commit_node [of ev a l n l'] q(1) Inr assms(2,3) by (simp_all add: is_terminal_node_def)
      have w: "wal_lines l' = wal_lines l @ [Document (node_to_dict n)]" "lg_fault_state l' = healthy" using x by (simp_all add: extended_def)
      have "lg_chain l' = tl (lg_chain l) @ [n] \<or> lg_chain l' = lg_chain l @ [n]"
        using x(2) unfolding extended_def by (metis (no_types, lifting))
      then have "set (lg_chain l') \<subseteq> insert n (set (lg_chain l))" by (cases "lg_chain l") auto
      then have "ledger_sink vs l0 l'" using v x(1) w o k' by (auto simp: ledger_sink_def)
      then show ?thesis using x(1) w n by (auto simp: ledger_has_def)
    qed
  qed
  show ?thesis unfolding sink_commit_def
  proof (intro allI impI)
    fix l
    assume v: "ledger_sink vs l0 l"
    obtain r l' where c: "ledger_commit ev a l = (r, l')" by force
    from step [OF v c] show "ledger_sink vs l0 (snd (ledger_commit ev a l)) \<and> (\<forall>s. ledger_has l s \<longrightarrow> ledger_has (snd (ledger_commit ev a l)) s)
      \<and> (fst (ledger_commit ev a l) = Inr () \<longrightarrow> ledger_has (snd (ledger_commit ev a l)) sid)" by (simp add: c)
  qed
qed

subsection \<open>A run\<close>

definition demo_slots :: "ledger handoff" where
  "demo_slots = \<lparr>hf_max_pending = 1, hf_queue = [], hf_worker = Waiting, hf_committed = 0, hf_dropped = 0,
     hf_attached = True, hf_landed = Some ledger_landed, hf_outstanding = 0, hf_admission_fault = []\<rparr>"

definition demo_gateway :: "outbox \<Rightarrow> spool \<Rightarrow> ledger gateway" where
  "demo_gateway ob sp = \<lparr>gw_gate = \<lparr>sg_limit = 1, sg_active = 1, sg_rejected = 0\<rparr>, gw_unhanded = 1, gw_handed = 0, gw_closing = 0, gw_late = 0,
     gw_handoff = demo_slots, gw_outbox = ob, gw_spool = sp, gw_world = demo_ledger\<rparr>"

lemma demo_sink: "ledger_sink demo_verifiers demo_ledger demo_ledger"
  using reach_inv [OF New [OF demo_new]] new_ledger_facts(2) [OF demo_new] by (simp add: ledger_sink_def)

lemma demo_commit_sinks:
  "sink_commit (ledger_sink demo_verifiers demo_ledger) ledger_has (rc_state_id (ox_context demo_entry)) (ledger_commit demo_env (commit_kwargs demo_entry))"
  by (rule ledger_commit_sinks) (simp_all add: kwargs_sel TERMINAL_MEANINGS_def demo_signers demo_no_tokens)

lemma demo_boot:
  assumes "open_outbox oio [1] mb mp demo_spool = (Inr ob, sp)"
  shows "gateway_run (ledger_sink demo_verifiers demo_ledger) ledger_has ledger_landed [1] Map.empty (demo_gateway ob sp)"
proof -
  let ?run = "gateway_run (ledger_sink demo_verifiers demo_ledger) ledger_has ledger_landed [1] Map.empty"
  let ?h0 = "\<lparr>hf_max_pending = 1, hf_queue = [], hf_worker = Stopped, hf_committed = 0, hf_dropped = 0,
     hf_attached = False, hf_landed = None, hf_outstanding = 0, hf_admission_fault = []\<rparr>"
  have h: "new_handoff 1 = Inr ?h0" and g: "new_gate 1 = Inr \<lparr>sg_limit = 1, sg_active = 0, sg_rejected = 0\<rparr>"
    by (simp_all add: new_handoff_def new_gate_def)
  have a: "attach_outbox True (Some ledger_landed) (start_handoff ?h0) = demo_slots"
    by (simp add: attach_outbox_def start_handoff_def handoff_running_def demo_slots_def)
  let ?st = "\<lparr>gw_gate = \<lparr>sg_limit = 1, sg_active = 0, sg_rejected = 0\<rparr>, gw_unhanded = 0, gw_handed = 0, gw_closing = 0, gw_late = 0,
     gw_handoff = demo_slots, gw_outbox = ob, gw_spool = sp, gw_world = demo_ledger\<rparr>"
  have "?run ?st" using Run_Boot [where valid = "ledger_sink demo_verifiers demo_ledger" and has = ledger_has and landed = ledger_landed, OF g h assms demo_sink]
    unfolding a .
  from Run_Admit [OF this, of "\<lparr>sg_limit = 1, sg_active = 1, sg_rejected = 0\<rparr>"]
  have "?run (?st\<lparr>gw_gate := \<lparr>sg_limit = 1, sg_active = 1, sg_rejected = 0\<rparr>, gw_unhanded := Suc (gw_unhanded ?st)\<rparr>)"
    by (simp add: admit_stream_def gate_acquire_def handoff_admission_error_def demo_slots_def)
  then show ?thesis by (simp add: demo_gateway_def)
qed

text \<open>
  C15. Evidence is turned away at teardown only on account of streams that gave their slot back
  before they handed off. In every run of the gateway the commit queue stays within its
  bound, and no more hand-offs are dropped than such late ones have happened; as long as none
  has, the admission test keeps a place for each admitted stream, the one in the worker's
  hands counted too, so that its hand-off is queued and nothing is dropped.
\<close>

theorem handoff_never_overflows:
  assumes "gateway_run valid has landed key acc st"
  shows "int (length (hf_queue (gw_handoff st))) \<le> hf_max_pending (gw_handoff st) \<and> hf_dropped (gw_handoff st) \<le> gw_late st
    \<and> (\<forall>io c replay ok h ob sp. gw_late st = 0 \<longrightarrow> 0 < gw_unhanded st
         \<longrightarrow> submit io c replay (gw_handoff st) (gw_outbox st) (gw_spool st) = (ok, h, ob, sp)
         \<longrightarrow> ok \<and> hf_dropped h = 0 \<and> (\<exists>i. hf_queue h = hf_queue (gw_handoff st) @ [\<lparr>hi_commit = c, hi_spool = i\<rparr>]))"
proof -
  note s = run_slots [OF assms]
  have "ok \<and> hf_dropped h = 0 \<and> (\<exists>i. hf_queue h = hf_queue (gw_handoff st) @ [\<lparr>hi_commit = c, hi_spool = i\<rparr>])"
    if "gw_late st = 0" "0 < gw_unhanded st" and sub: "submit io c replay (gw_handoff st) (gw_outbox st) (gw_spool st) = (ok, h, ob, sp)"
    for io c replay ok h ob sp
  proof -
    have "ok \<and> hf_dropped h = 0"
      using that s submit_sel [OF sub] in_turn_nonneg [of "hf_worker (gw_handoff st)"] by (auto simp: slots_ok_def)
    moreover have "ok \<longrightarrow> (\<exists>i. hf_queue h = hf_queue (gw_handoff st) @ [\<lparr>hi_commit = c, hi_spool = i\<rparr>])"
      by (rule submit_cases [OF sub]) auto
    ultimately show ?thesis by simp
  qed
  moreover have "int (length (hf_queue (gw_handoff st))) \<le> hf_max_pending (gw_handoff st)" "hf_dropped (gw_handoff st) \<le> gw_late st"
    using s by (simp_all add: slots_ok_def)
  ultimately show ?thesis by blast
qed

theorem handoff_never_overflows_witness:
  "\<exists>ob sp h ob' sp'. gateway_run (ledger_sink demo_verifiers demo_ledger) ledger_has ledger_landed [1] Map.empty (demo_gateway ob sp)
     \<and> submit \<lparr>ri_first = Compact_Ok, ri_second = Compact_Ok, ri_append = Write_Restored\<rparr> (\<lambda>l. (Inr (), l)) (Some demo_entry) demo_slots ob sp
         = (True, h, ob', sp') \<and> hf_dropped h = 0 \<and> length (hf_queue h) = 1"
proof -
  obtain ob sp where o: "open_outbox (Open_Ok Compact_Ok) [1] 1000 10 demo_spool = (Inr ob, sp)" using demo_open by blast
  note r = demo_boot [OF o]
  have g: "gw_handoff (demo_gateway ob sp) = demo_slots" "gw_outbox (demo_gateway ob sp) = ob" "gw_spool (demo_gateway ob sp) = sp"
    "gw_late (demo_gateway ob sp) = 0" "0 < gw_unhanded (demo_gateway ob sp)" "hf_queue demo_slots = []"
    by (simp_all add: demo_gateway_def demo_slots_def)
  obtain ok h ob' sp' where s: "submit \<lparr>ri_first = Compact_Ok, ri_second = Compact_Ok, ri_append = Write_Restored\<rparr> (\<lambda>l. (Inr (), l)) (Some demo_entry)
      demo_slots ob sp = (ok, h, ob', sp')"
    by (metis prod_cases4)
  from handoff_never_overflows [OF r] g s have "ok \<and> hf_dropped h = 0 \<and> (\<exists>i. hf_queue h = [] @ [\<lparr>hi_commit = \<lambda>l. (Inr (), l), hi_spool = i\<rparr>])"
    by metis
  then show ?thesis using r s by (intro exI [of _ ob] exI [of _ sp] exI [of _ h] exI [of _ ob'] exI [of _ sp']) auto
qed

text \<open>
  The drop does happen. With one place, a stream is closed while it waits at the \<open>yield\<close> of
  \<open>guarded_stream\<close>: its slot is free before its evidence is handed off, another stream is
  admitted into it and hands off first, and the evidence of the closed one finds the queue full.
\<close>

lemma early_release_overflows:
  "\<exists>st. gateway_run (\<lambda>_ :: ledger. True) (\<lambda>_ _. True) (\<lambda>_ _. Inr True) [1] Map.empty st \<and> hf_dropped (gw_handoff st) = 1"
proof -
  let ?run = "gateway_run (\<lambda>_ :: ledger. True) (\<lambda>_ _. True) (\<lambda>_ _. Inr True) [1] Map.empty"
  let ?io = "\<lparr>ri_first = Compact_Ok, ri_second = Compact_Ok, ri_append = Write_Ok\<rparr>"
  let ?c = "\<lambda>l :: ledger. (Inr () :: unit res, l)"
  obtain ob sp where o: "open_outbox (Open_Ok Compact_Ok) [1] 1000 10 demo_spool = (Inr ob, sp)" using demo_open by blast
  let ?g = "\<lambda>a. \<lparr>sg_limit = 1, sg_active = a, sg_rejected = 0\<rparr>"
  let ?h = "\<lambda>q d f. \<lparr>hf_max_pending = 1, hf_queue = q, hf_worker = Waiting, hf_committed = 0, hf_dropped = d,
     hf_attached = True, hf_landed = Some (\<lambda>_ _. Inr True), hf_outstanding = int (length q), hf_admission_fault = f\<rparr>"
  let ?st = "\<lambda>a u n c q d f. \<lparr>gw_gate = ?g a, gw_unhanded = u, gw_handed = n, gw_closing = c, gw_late = d,
     gw_handoff = ?h q d f, gw_outbox = ob, gw_spool = sp, gw_world = demo_ledger\<rparr>"
  let ?it = "\<lparr>hi_commit = ?c, hi_spool = None\<rparr>"
  have sink: "sink_commit (\<lambda>_. True) (\<lambda>_ _. True) [] ?c" by (simp add: sink_commit_def)
  let ?fresh = "\<lparr>hf_max_pending = 1, hf_queue = [], hf_worker = Stopped, hf_committed = 0, hf_dropped = 0,
     hf_attached = False, hf_landed = None, hf_outstanding = 0, hf_admission_fault = []\<rparr> :: ledger handoff"
  have g: "new_gate 1 = Inr (?g 0)" and h: "new_handoff 1 = Inr ?fresh" by (simp_all add: new_gate_def new_handoff_def)
  have a: "attach_outbox True (Some (\<lambda>_ _. Inr True)) (start_handoff ?fresh) = ?h [] 0 []"
    by (simp add: attach_outbox_def start_handoff_def handoff_running_def)
  have "?run (?st 0 0 0 0 [] 0 [])"
    using Run_Boot [where valid = "\<lambda>_. True" and has = "\<lambda>_ _. True" and landed = "\<lambda>_ _. Inr True", OF g h o, of demo_ledger]
    unfolding a by simp
  then have "?run (?st 1 1 0 0 [] 0 [])"
    using Run_Admit [where st = "?st 0 0 0 0 [] 0 []" and g = "?g 1"]
    by (simp add: admit_stream_def gate_acquire_def handoff_admission_error_def)
  then have "?run (?st 0 0 0 1 [] 0 [])"
    using Run_Close [where st = "?st 1 1 0 0 [] 0 []" and n = 0] by (simp add: gate_release_def)
  then have b: "?run (?st 1 1 0 1 [] 0 [])"
    using Run_Admit [where st = "?st 0 0 0 1 [] 0 []" and g = "?g 1"]
    by (simp add: admit_stream_def gate_acquire_def handoff_admission_error_def)
  have c: "?run (?st 1 0 1 1 [?it] 0 [])"
    using Run_Hand [OF b, where u = 0 and replay = None and c = ?c and sid = "[]" and io = ?io, OF _ _ sink]
    by (simp add: spool_first_def submit_def put_nowait_def start_handoff_def handoff_running_def enlist_def)
  have "?run (?st 1 0 1 0 [?it] 1 ''terminal evidence handoff overflow'')"
    using Run_Hand_Late [OF c, where u = 0 and replay = None and i = None and ok = False and c = ?c and sid = "[]" and io = ?io, OF _ _ sink]
    by (simp add: spool_first_def submit_def put_nowait_def start_handoff_def handoff_running_def enlist_def)
  then show ?thesis by fastforce
qed

text \<open>
  C12. Evidence the outbox has accepted is never lost between the stream and the ledger: in every
  run of the gateway over a ledger, whatever the commits raise, whichever hand-offs are
  dropped, wherever the worker is cancelled and whichever writes of the spool fail, each
  accepted entry is still pending in the outbox, or the ledger's log has a terminal node of
  its request, or the ledger has latched a fault. And of those that are pending, a start with
  the same spool finds every one that is within the loader's limits, a request of at most 1 MiB
  among them, which the outbox does not check when it accepts an entry.
\<close>

theorem accepted_evidence_secured:
  assumes "gateway_run (ledger_sink vs l0) ledger_has ledger_landed key acc st" and "acc i = Some e"
  shows "ledger_has (gw_world st) (rc_state_id (ox_context e))
    \<or> map_of (ob_pending (gw_outbox st)) i = Some e
      \<and> (entry_valid e \<longrightarrow>
          (\<exists>ob' sp'. open_outbox (Open_Ok cio) key mb mp (gw_spool st) = (Inr ob', sp') \<and> map_of (ob_pending ob') i = Some e))"
proof -
  have s: "secured (ledger_sink vs l0) ledger_has ledger_landed key acc st" by (rule ledger_terminal.run_secured [OF assms(1)])
  have key: "key \<noteq> []" using assms(1) by (induction rule: gateway_run.induct) (simp_all add: open_inv)
  obtain disk rj where d: "load_spool key (map snd (sp_lines (gw_spool st))) ([], []) = Inr (disk, rj)"
    "loadable (map_of (ob_pending (gw_outbox st))) \<subseteq>\<^sub>m map_of disk" using s by (auto simp: secured_def spool_inv_def on_disk_def)
  consider "map_of (ob_pending (gw_outbox st)) i = Some e" | "ledger_has (gw_world st) (rc_state_id (ox_context e))"
    using s assms(2) by (auto simp: secured_def dest: keptD)
  then show ?thesis
  proof cases
    case 1
    have "map_of disk i = Some e" if "entry_valid e"
    proof -
      have "loadable (map_of (ob_pending (gw_outbox st))) i = Some e" using 1 that by (simp add: loadable_def)
      then show ?thesis using d(2) by (metis domI map_le_def)
    qed
    then show ?thesis using 1 open_loaded [OF key d(1), of cio mb mp] by auto
  qed simp
qed

theorem accepted_evidence_secured_witness:
  "\<exists>acc st. gateway_run (ledger_sink demo_verifiers demo_ledger) ledger_has ledger_landed [1] acc st \<and> acc ''e1'' = Some demo_entry
     \<and> (ledger_has (gw_world st) (rc_state_id (ox_context demo_entry)) \<or> map_of (ob_pending (gw_outbox st)) ''e1'' = Some demo_entry)"
proof -
  let ?io = "\<lparr>ri_first = Compact_Ok, ri_second = Compact_Ok, ri_append = Write_Ok\<rparr>"
  let ?c = "ledger_commit demo_env (commit_kwargs demo_entry)"
  let ?run = "gateway_run (ledger_sink demo_verifiers demo_ledger) ledger_has ledger_landed [1]"
  obtain d where d: "pending_line [1] demo_entry = Inr d" using pending_line_loads [OF demo_entry_valid] by blast
  obtain ob sp where o: "open_outbox (Open_Ok Compact_Ok) [1] (int (line_size d) + 1) 10 demo_spool = (Inr ob, sp)"
    and b: "ob_pending ob = []" "ob_open ob" "ob_size ob = 0" "ob_max_bytes ob = int (line_size d) + 1" "ob_max_pending ob = 10"
      "ob_mac_key ob = [1]"
    using demo_open by blast
  let ?st = "demo_gateway ob sp"
  have "\<exists>ob1 sp1. record_entry ?io demo_entry ob sp = (Some ''e1'', ob1, sp1)"
    using b d by (auto simp: record_entry_def compact_when_def append_data_def) (simp_all add: demo_entry_def)
  then obtain ob1 sp1 where f: "spool_first ?io (Some demo_entry) (gw_handoff ?st) (gw_outbox ?st) (gw_spool ?st) = (Some ''e1'', demo_slots, ob1, sp1)"
    by (auto simp: spool_first_def demo_gateway_def demo_slots_def)
  obtain ok h ob' sp' where s: "submit ?io ?c (Some demo_entry) (gw_handoff ?st) (gw_outbox ?st) (gw_spool ?st) = (ok, h, ob', sp')"
    by (metis prod_cases4)
  have u: "gw_unhanded ?st = Suc 0" by (simp add: demo_gateway_def)
  have e: "pred_option (\<lambda>e. ox_entry_id e \<noteq> [] \<and> map_of (ob_pending (gw_outbox ?st)) (ox_entry_id e) = None
      \<and> Map.empty (ox_entry_id e) = (None :: outbox_entry option)
      \<and> rc_state_id (ox_context e) = rc_state_id (ox_context demo_entry)) (Some demo_entry)"
    using b by (simp add: demo_gateway_def) (simp add: demo_entry_def)
  note run = Run_Hand [OF demo_boot [OF o] u e demo_commit_sinks f s]
  have a: "enlist (Some ''e1'') (Some demo_entry) Map.empty ''e1'' = Some demo_entry" by (simp add: enlist_def)
  from accepted_evidence_secured [OF run a] run a show ?thesis by blast
qed

end
