(* ===== verification/Bounded_Stream.thy ===== *)
theory Bounded_Stream
  imports Py_Float Encoding
begin

section \<open>Bounded streams and their evidence\<close>

text \<open>
  The model of \<open>_ByteBoundedQueue\<close> and \<open>BoundedStreamProxy\<close> of \<^verbatim>\<open>aegis/proxy/streaming.py\<close> and of
  \<^verbatim>\<open>aegis/core/stream_bounds.py\<close>. The upstream and the transformation of its events (JSON and
  the redactor) are an arbitrary source of canonical events; the tail the redactor flushes at
  the end is an argument. The digest is the bytes it has been fed. The generator is a step
  relation over the places where it can be suspended, so that a disconnect, a timeout or the
  producer come in at each of them; a call of the terminal callback is recorded in the state.
  A run starts where the iteration does: a generator that is closed before its first step runs
  none of its code, so that it has no state to model.
\<close>

subsection \<open>The declared ceiling\<close>

definition UTF8_MAX_BYTES_PER_CHAR :: int where "UTF8_MAX_BYTES_PER_CHAR = 4"

record stream_bounds =
  sb_window_chars :: int
  sb_queue_bytes :: int
  sb_event_bytes :: int
  sb_preview_bytes :: int

definition new_bounds :: "int \<Rightarrow> int \<Rightarrow> int \<Rightarrow> int \<Rightarrow> stream_bounds res" where
  "new_bounds w q e p =
     (if w < 0 \<or> q < 0 \<or> e < 0 \<or> p < 0 then Inl (ValueError ''must not be negative'')
      else if w < 1 then Inl (ValueError ''window_chars must be positive'')
      else if q \<noteq> 0 \<and> e > q then Inl (ValueError ''event_bytes exceeds queue_bytes'')
      else Inr \<lparr>sb_window_chars = w, sb_queue_bytes = q, sb_event_bytes = e, sb_preview_bytes = p\<rparr>)"

definition bounds_in_process :: "int \<Rightarrow> stream_bounds res" where
  "bounds_in_process window_chars = new_bounds window_chars 0 0 0"

definition max_retained_bytes :: "stream_bounds \<Rightarrow> int" where
  "max_retained_bytes b =
     UTF8_MAX_BYTES_PER_CHAR * sb_window_chars b + sb_queue_bytes b + sb_event_bytes b + sb_preview_bytes b"

definition in_declared_domain :: "stream_bounds \<Rightarrow> bool" where
  "in_declared_domain b \<longleftrightarrow>
     64 \<le> sb_window_chars b \<and> sb_window_chars b \<le> 4096 \<and> 1024 \<le> sb_queue_bytes b \<and> sb_queue_bytes b \<le> 16777216
     \<and> 256 \<le> sb_event_bytes b \<and> sb_event_bytes b \<le> sb_queue_bytes b \<and> 0 \<le> sb_preview_bytes b \<and> sb_preview_bytes b \<le> 65536"

definition bounds_admit :: "stream_bounds \<Rightarrow> int \<Rightarrow> bool" where
  "bounds_admit b retained \<longleftrightarrow> retained \<le> max_retained_bytes b"

definition require_admits :: "stream_bounds \<Rightarrow> int \<Rightarrow> unit res" where
  "require_admits b retained =
     (if \<not> bounds_admit b retained then Inl (ValueError ''over its declared ceiling'') else Inr ())"

definition require_window_in_domain :: "int \<Rightarrow> int res" where
  "require_window_in_domain w =
     (if \<not> (64 \<le> w \<and> w \<le> 4096) then Inl (ValueError ''window_chars must be in [64, 4096]'') else Inr w)"

subsection \<open>The queue\<close>

datatype queue_item = Data_Item bytes | Complete_Item | Error_Item string

fun item_data :: "queue_item \<Rightarrow> bytes" where
  "item_data (Data_Item d) = d"
| "item_data _ = []"

record stream_queue =
  sq_items :: "queue_item list"
  sq_max_items :: int
  sq_max_bytes :: int
  sq_bytes :: int
  sq_peak_items :: int
  sq_peak_bytes :: int

definition event_limit_error :: exn where "event_limit_error = RuntimeError ''StreamEventLimitError''"
definition byte_limit_error :: exn where "byte_limit_error = RuntimeError ''StreamByteLimitError''"

definition new_queue :: "int \<Rightarrow> int \<Rightarrow> stream_queue res" where
  "new_queue max_items max_bytes =
     (if max_items < 1 \<or> max_bytes < 1 then Inl (ValueError ''queue bounds must be positive'')
      else Inr \<lparr>sq_items = [], sq_max_items = max_items, sq_max_bytes = max_bytes, sq_bytes = 0, sq_peak_items = 0, sq_peak_bytes = 0\<rparr>)"

text \<open>\<open>put\<close> raises, waits (\<open>None\<close>), or has put the item.\<close>

definition queue_put :: "queue_item \<Rightarrow> stream_queue \<Rightarrow> stream_queue option res" where
  "queue_put it q =
     (let n = int (length (item_data it)) in
      if n > sq_max_bytes q then Inl event_limit_error
      else if sq_bytes q + n \<le> sq_max_bytes q \<and> int (length (sq_items q)) < sq_max_items q then
        Inr (Some (q\<lparr>sq_items := sq_items q @ [it], sq_bytes := sq_bytes q + n,
                    sq_peak_items := max (sq_peak_items q) (int (length (sq_items q)) + 1),
                    sq_peak_bytes := max (sq_peak_bytes q) (sq_bytes q + n)\<rparr>))
      else Inr None)"

text \<open>\<open>get\<close> in its two halves: the item leaves the queue, and later its bytes are given back.\<close>

definition queue_pop :: "stream_queue \<Rightarrow> (queue_item \<times> stream_queue) option" where
  "queue_pop q = (case sq_items q of [] \<Rightarrow> None | it # rest \<Rightarrow> Some (it, q\<lparr>sq_items := rest\<rparr>))"

definition queue_give_back :: "queue_item \<Rightarrow> stream_queue \<Rightarrow> stream_queue" where
  "queue_give_back it q = q\<lparr>sq_bytes := sq_bytes q - int (length (item_data it))\<rparr>"

subsection \<open>The proxy\<close>

record evidence =
  es_response_hash :: string
  es_response_size :: int
  es_response_preview :: bytes
  es_terminal_outcome :: string
  es_final_marker_included :: bool
  es_token_count :: int
  es_elapsed_seconds :: py_float
  es_redaction_hits :: "(string \<times> int) list"

record stream_proxy =
  sx_max_response_bytes :: int
  sx_max_event_bytes :: int
  sx_preview_limit :: int
  sx_terminal_marker :: bytes
  sx_has_handoff :: bool
  sx_queue :: stream_queue
  sx_hashed :: bytes
  sx_size :: int
  sx_preview :: bytes
  sx_finalized :: bool
  sx_frozen_summary :: "evidence option"
  sx_terminal_dispatched :: bool
  sx_closed :: bool

definition new_proxy :: "int \<Rightarrow> py_float \<Rightarrow> int \<Rightarrow> int \<Rightarrow> int \<Rightarrow> int \<Rightarrow> bytes \<Rightarrow> bool \<Rightarrow> stream_proxy res" where
  "new_proxy max_response max_duration max_event max_items max_bytes preview marker handoff =
     (if max_response < 1 \<or> max_event < 1 \<or> preview < 0 then Inl (ValueError ''stream byte limits must be positive'')
      else if (case max_duration of Fin d \<Rightarrow> d \<le> 0 | NegInf \<Rightarrow> True | _ \<Rightarrow> False) then Inl (ValueError ''max_duration_seconds must be positive'')
      else bind_res (new_queue max_items max_bytes) (\<lambda>q.
        Inr \<lparr>sx_max_response_bytes = max_response, sx_max_event_bytes = max_event, sx_preview_limit = preview,
             sx_terminal_marker = marker, sx_has_handoff = handoff, sx_queue = q, sx_hashed = [], sx_size = 0, sx_preview = [],
             sx_finalized = False, sx_frozen_summary = None, sx_terminal_dispatched = False, sx_closed = False\<rparr>))"

definition check_event :: "bytes \<Rightarrow> stream_proxy \<Rightarrow> unit res" where
  "check_event e sx = (if int (length e) > sx_max_event_bytes sx then Inl event_limit_error else Inr ())"

definition accumulate :: "bytes \<Rightarrow> stream_proxy \<Rightarrow> stream_proxy res" where
  "accumulate data sx =
     (if sx_size sx + int (length data) > sx_max_response_bytes sx then Inl byte_limit_error
      else
        let remaining = sx_preview_limit sx - int (length (sx_preview sx)) in
        Inr (sx\<lparr>sx_hashed := sx_hashed sx @ data, sx_size := sx_size sx + int (length data),
                sx_preview := (if remaining > 0 then sx_preview sx @ take (nat remaining) data else sx_preview sx)\<rparr>))"

text \<open>What the clock, the redactor and the token count of the transformation report when the summary is frozen.\<close>

record freeze_view =
  fv_elapsed :: py_float
  fv_hits :: "(string \<times> int) list"
  fv_tokens :: int

definition freeze_summary :: "freeze_view \<Rightarrow> string \<Rightarrow> bool \<Rightarrow> stream_proxy \<Rightarrow> evidence option \<times> stream_proxy" where
  "freeze_summary v outcome marker sx =
     (if sx_finalized sx then (None, sx)
      else
        let s = \<lparr>es_response_hash = hexdigest (sx_hashed sx), es_response_size = sx_size sx, es_response_preview = sx_preview sx,
                 es_terminal_outcome = outcome, es_final_marker_included = marker, es_token_count = fv_tokens v,
                 es_elapsed_seconds = fv_elapsed v, es_redaction_hits = fv_hits v\<rparr>
        in (Some s, sx\<lparr>sx_finalized := True, sx_frozen_summary := Some s\<rparr>))"

text \<open>Where a summary goes: to the callback inside the stream, to the hand-off, to a detached task, or nowhere.\<close>

datatype dispatch = Inline evidence | Handed evidence | Detached evidence | Lost evidence

fun dispatched_evidence :: "dispatch \<Rightarrow> evidence" where
  "dispatched_evidence (Inline s) = s"
| "dispatched_evidence (Handed s) = s"
| "dispatched_evidence (Detached s) = s"
| "dispatched_evidence (Lost s) = s"

definition handoff_terminal :: "freeze_view \<Rightarrow> bool \<Rightarrow> string \<Rightarrow> bool \<Rightarrow> stream_proxy \<Rightarrow> dispatch list \<times> stream_proxy" where
  "handoff_terminal v loop_running outcome marker sx =
     (case freeze_summary v outcome marker sx of
        (fresh, sx1) \<Rightarrow>
          (case (case fresh of Some s \<Rightarrow> Some s | None \<Rightarrow> sx_frozen_summary sx1) of
             None \<Rightarrow> ([], sx1)
           | Some s \<Rightarrow>
               if sx_terminal_dispatched sx1 then ([], sx1)
               else ([if sx_has_handoff sx1 then Handed s else if loop_running then Detached s else Lost s],
                     sx1\<lparr>sx_terminal_dispatched := True\<rparr>)))"

definition aclose :: "freeze_view \<Rightarrow> bool \<Rightarrow> stream_proxy \<Rightarrow> dispatch list \<times> stream_proxy" where
  "aclose v loop_running sx =
     (if sx_closed sx then ([], sx)
      else handoff_terminal v loop_running ''client_disconnected'' False (sx\<lparr>sx_closed := True\<rparr>))"

text \<open>The producer's turn with one canonical event.\<close>

definition produce_event :: "bytes \<Rightarrow> stream_proxy \<Rightarrow> stream_proxy option res" where
  "produce_event e sx =
     bind_res (check_event e sx) (\<lambda>_.
       if sx_size sx + sq_bytes (sx_queue sx) + int (length e) > sx_max_response_bytes sx then Inl byte_limit_error
       else bind_res (queue_put (Data_Item e) (sx_queue sx)) (\<lambda>q.
         Inr (map_option (\<lambda>q'. sx\<lparr>sx_queue := q'\<rparr>) q)))"

subsection \<open>The generator\<close>

text \<open>
  Where the generator is: waiting for an item; holding one; suspended at the yield of the
  tail; awaiting the callback, for the complete outcome or another; suspended at the yield of
  the marker; over. The state adds what was yielded, the calls so far and whether the awaited
  callback has returned.
\<close>

datatype phase = Fetching | Took queue_item | Tail_Out | Awaiting bool | Marker_Out | Finished

record stream_state =
  ss_proxy :: stream_proxy
  ss_phase :: phase
  ss_delivered :: bytes
  ss_calls :: "dispatch list"
  ss_returned :: bool

definition end_stream :: "freeze_view \<Rightarrow> bool \<Rightarrow> stream_state \<Rightarrow> stream_state" where
  "end_stream v loop_running st =
     (case aclose v loop_running (ss_proxy st) of
        (ds, sx) \<Rightarrow> st\<lparr>ss_proxy := sx, ss_phase := Finished, ss_calls := ss_calls st @ ds\<rparr>)"

text \<open>\<open>_finalize\<close> up to its await: nothing when the summary is frozen, otherwise the callback is called.\<close>

definition begin_finalize :: "freeze_view \<Rightarrow> bool \<Rightarrow> string \<Rightarrow> bool \<Rightarrow> stream_state \<Rightarrow> stream_state" where
  "begin_finalize v loop_running outcome marker st =
     (case freeze_summary v outcome marker (ss_proxy st) of
        (None, sx) \<Rightarrow> end_stream v loop_running st
      | (Some s, sx) \<Rightarrow> st\<lparr>ss_proxy := sx, ss_phase := Awaiting marker, ss_calls := ss_calls st @ [Inline s]\<rparr>)"

definition failure_outcome :: "exn \<Rightarrow> string" where
  "failure_outcome x =
     (if x = byte_limit_error then ''byte_limit'' else if x = event_limit_error then ''event_limit'' else ''upstream_error'')"

definition yield_out :: "bytes \<Rightarrow> phase \<Rightarrow> stream_proxy \<Rightarrow> stream_state \<Rightarrow> stream_state" where
  "yield_out data ph sx st = st\<lparr>ss_proxy := sx, ss_phase := ph, ss_delivered := ss_delivered st @ data\<rparr>"

definition send_marker :: "freeze_view \<Rightarrow> bool \<Rightarrow> stream_state \<Rightarrow> stream_state" where
  "send_marker v loop_running st =
     (let sx = ss_proxy st in
      case bind_res (check_event (sx_terminal_marker sx) sx) (\<lambda>_. accumulate (sx_terminal_marker sx) sx) of
        Inl x \<Rightarrow> begin_finalize v loop_running (failure_outcome x) False st
      | Inr sx' \<Rightarrow> begin_finalize v loop_running ''complete'' True (st\<lparr>ss_proxy := sx'\<rparr>))"

text \<open>The item in hand; \<open>tail\<close> is the encoded tail of the redactor, empty when there is none.\<close>

fun handle_item :: "freeze_view \<Rightarrow> bool \<Rightarrow> bytes \<Rightarrow> queue_item \<Rightarrow> stream_state \<Rightarrow> stream_state" where
  "handle_item v loop_running tail (Data_Item d) st =
     (case accumulate d (ss_proxy st) of
        Inl x \<Rightarrow> begin_finalize v loop_running (failure_outcome x) False st
      | Inr sx \<Rightarrow> yield_out d Fetching sx st)"
| "handle_item v loop_running tail (Error_Item outcome) st = begin_finalize v loop_running outcome False st"
| "handle_item v loop_running tail Complete_Item st =
     (if tail = [] then send_marker v loop_running st
      else
        (case bind_res (check_event tail (ss_proxy st)) (\<lambda>_. accumulate tail (ss_proxy st)) of
           Inl x \<Rightarrow> begin_finalize v loop_running (failure_outcome x) False st
         | Inr sx \<Rightarrow> yield_out tail Tail_Out sx st))"

definition give_back :: "queue_item \<Rightarrow> stream_state \<Rightarrow> stream_state" where
  "give_back it st = st\<lparr>ss_proxy := (ss_proxy st)\<lparr>sx_queue := queue_give_back it (sx_queue (ss_proxy st))\<rparr>\<rparr>"

definition callback_returned :: "freeze_view \<Rightarrow> bool \<Rightarrow> bool \<Rightarrow> unit res \<Rightarrow> stream_state \<Rightarrow> stream_state" where
  "callback_returned v loop_running whole r st =
     (case r of
        Inl x \<Rightarrow> end_stream v loop_running st
      | Inr _ \<Rightarrow>
          let st1 = st\<lparr>ss_proxy := (ss_proxy st)\<lparr>sx_terminal_dispatched := True\<rparr>, ss_returned := True\<rparr> in
          if whole then yield_out (sx_terminal_marker (ss_proxy st)) Marker_Out (ss_proxy st1) st1
          else end_stream v loop_running st1)"

text \<open>A cancellation or a close of the suspended generator.\<close>

definition tear_down :: "freeze_view \<Rightarrow> bool \<Rightarrow> stream_state \<Rightarrow> stream_state" where
  "tear_down v loop_running st =
     (case handoff_terminal v loop_running ''client_disconnected'' False (ss_proxy st) of
        (ds, sx) \<Rightarrow> end_stream v loop_running (st\<lparr>ss_proxy := sx, ss_calls := ss_calls st @ ds\<rparr>))"

definition producer_outcomes :: "string list" where
  "producer_outcomes = [''upstream_incomplete'', ''timeout'', ''byte_limit'', ''event_limit'', ''privacy_failure'', ''upstream_error'']"

inductive stream_step :: "stream_state \<Rightarrow> stream_state \<Rightarrow> bool" where
  Step_Produce: "produce_event e (ss_proxy st) = Inr (Some sx) \<Longrightarrow> stream_step st (st\<lparr>ss_proxy := sx\<rparr>)"
| Step_Produce_End: "it = Complete_Item \<or> (\<exists>outcome\<in>set producer_outcomes. it = Error_Item outcome) \<Longrightarrow> queue_put it (sx_queue (ss_proxy st)) = Inr (Some q) \<Longrightarrow>
    stream_step st (st\<lparr>ss_proxy := (ss_proxy st)\<lparr>sx_queue := q\<rparr>\<rparr>)"
| Step_Take: "ss_phase st = Fetching \<Longrightarrow> queue_pop (sx_queue (ss_proxy st)) = Some (it, q) \<Longrightarrow>
    stream_step st (st\<lparr>ss_proxy := (ss_proxy st)\<lparr>sx_queue := q\<rparr>, ss_phase := Took it\<rparr>)"
| Step_Handle: "ss_phase st = Took it \<Longrightarrow> stream_step st (handle_item v loop_running tail it (give_back it st))"
| Step_Flush_Failed: "ss_phase st = Took Complete_Item \<Longrightarrow> outcome = ''privacy_failure'' \<or> outcome = ''upstream_error'' \<Longrightarrow>
    stream_step st (begin_finalize v loop_running outcome False (give_back Complete_Item st))"
| Step_Timeout: "ss_phase st = Fetching \<Longrightarrow> stream_step st (begin_finalize v loop_running ''timeout'' False st)"
| Step_After_Tail: "ss_phase st = Tail_Out \<Longrightarrow> stream_step st (send_marker v loop_running st)"
| Step_Callback: "ss_phase st = Awaiting whole \<Longrightarrow> stream_step st (callback_returned v loop_running whole r st)"
| Step_After_Marker: "ss_phase st = Marker_Out \<Longrightarrow> stream_step st (end_stream v loop_running st)"
| Step_Tear_Down: "ss_phase st \<noteq> Finished \<Longrightarrow> stream_step st (tear_down v loop_running st)"

definition opened_stream :: "stream_proxy \<Rightarrow> stream_state" where
  "opened_stream sx = \<lparr>ss_proxy = sx, ss_phase = Fetching, ss_delivered = [], ss_calls = [], ss_returned = False\<rparr>"

text \<open>The bytes a stream holds on to, given the characters the redactor holds back.\<close>

definition retained_bytes :: "int \<Rightarrow> stream_proxy \<Rightarrow> int" where
  "retained_bytes retained_chars sx =
     sq_bytes (sx_queue sx) + retained_chars * UTF8_MAX_BYTES_PER_CHAR + int (length (sx_preview sx))"

definition proxy_bounds :: "int \<Rightarrow> stream_proxy \<Rightarrow> stream_bounds res" where
  "proxy_bounds window_chars sx =
     new_bounds window_chars (sq_max_bytes (sx_queue sx)) (min (sx_max_event_bytes sx) (sq_max_bytes (sx_queue sx))) (sx_preview_limit sx)"

subsection \<open>The evidence is what was sent\<close>

definition evidence_of :: "evidence \<Rightarrow> stream_proxy \<Rightarrow> bool" where
  "evidence_of s sx \<longleftrightarrow> es_response_hash s = hexdigest (sx_hashed sx) \<and> es_response_size s = int (length (sx_hashed sx))
     \<and> es_response_preview s = take (nat (sx_preview_limit sx)) (sx_hashed sx)
     \<and> (es_final_marker_included s \<longleftrightarrow> es_terminal_outcome s = ''complete'')"

definition proxy_ok :: "stream_proxy \<Rightarrow> bool" where
  "proxy_ok sx \<longleftrightarrow>
     sx_size sx = int (length (sx_hashed sx)) \<and> sx_size sx \<le> sx_max_response_bytes sx \<and> 0 \<le> sx_preview_limit sx
     \<and> sx_preview sx = take (nat (sx_preview_limit sx)) (sx_hashed sx)
     \<and> (sx_finalized sx \<longleftrightarrow> sx_frozen_summary sx \<noteq> None)
     \<and> (\<forall>s. sx_frozen_summary sx = Some s \<longrightarrow> evidence_of s sx)"

lemma accumulate_ok:
  assumes "accumulate d sx = Inr sx'" "proxy_ok sx" "\<not> sx_finalized sx"
  shows "proxy_ok sx' \<and> sx_hashed sx' = sx_hashed sx @ d"
proof -
  have "take (nat p) (h @ d) = take (nat p) h @ (if p > int (length (take (nat p) h)) then take (nat (p - int (length (take (nat p) h)))) d else [])"
    for p and h :: bytes
    by (auto simp: min_def nat_diff_distrib')
  moreover have "length (take (nat p) h) = min (length h) (nat p)" for p and h :: bytes by simp
  ultimately show ?thesis using assms
    by (auto simp: accumulate_def proxy_ok_def Let_def split: if_splits)
qed

lemma accumulate_sel:
  assumes "accumulate d sx = Inr sx'"
  shows "sx_finalized sx' = sx_finalized sx" "sx_terminal_dispatched sx' = sx_terminal_dispatched sx" "sx_closed sx' = sx_closed sx"
    "sx_terminal_marker sx' = sx_terminal_marker sx" "sx_queue sx' = sx_queue sx" "sx_preview_limit sx' = sx_preview_limit sx"
  using assms by (auto simp: accumulate_def Let_def split: if_splits)

lemma freeze_ok:
  assumes "proxy_ok sx" "\<not> sx_finalized sx" "marker \<longleftrightarrow> outcome = ''complete''"
  obtains s where "freeze_summary v outcome marker sx = (Some s, sx\<lparr>sx_finalized := True, sx_frozen_summary := Some s\<rparr>)"
    "proxy_ok (sx\<lparr>sx_finalized := True, sx_frozen_summary := Some s\<rparr>)" "es_final_marker_included s = marker" "evidence_of s sx"
proof -
  define s where "s = \<lparr>es_response_hash = hexdigest (sx_hashed sx), es_response_size = sx_size sx, es_response_preview = sx_preview sx,
                 es_terminal_outcome = outcome, es_final_marker_included = marker, es_token_count = fv_tokens v,
                 es_elapsed_seconds = fv_elapsed v, es_redaction_hits = fv_hits v\<rparr>"
  have e: "evidence_of s sx" using assms(1,3) by (simp add: s_def evidence_of_def proxy_ok_def)
  moreover have "proxy_ok (sx\<lparr>sx_finalized := True, sx_frozen_summary := Some s\<rparr>)"
    using assms(1) e by (simp add: proxy_ok_def evidence_of_def)
  moreover have "freeze_summary v outcome marker sx = (Some s, sx\<lparr>sx_finalized := True, sx_frozen_summary := Some s\<rparr>)"
    using assms(2) by (simp add: freeze_summary_def s_def Let_def)
  ultimately show thesis using that by (simp add: s_def)
qed

text \<open>A dispatch out of the stream, of a given summary.\<close>

definition sent_out :: "bool \<Rightarrow> evidence \<Rightarrow> dispatch \<Rightarrow> bool" where
  "sent_out handoff s d \<longleftrightarrow> (if handoff then d = Handed s else d = Detached s \<or> d = Lost s)"

text \<open>
  The phases: before the end nothing is frozen and what has been hashed has been yielded;
  from the callback on the summary is frozen, the marker being hashed already and yielded
  only once the callback has returned; a finished stream has dispatched its summary.
\<close>

definition before_end :: "stream_state \<Rightarrow> bool" where
  "before_end st \<longleftrightarrow> \<not> sx_finalized (ss_proxy st) \<and> \<not> sx_terminal_dispatched (ss_proxy st) \<and> \<not> sx_closed (ss_proxy st)
     \<and> ss_calls st = [] \<and> \<not> ss_returned st \<and> sx_hashed (ss_proxy st) = ss_delivered st"

definition frozen_as :: "evidence \<Rightarrow> stream_state \<Rightarrow> bool" where
  "frozen_as s st \<longleftrightarrow> sx_frozen_summary (ss_proxy st) = Some s
     \<and> sx_hashed (ss_proxy st)
       = (if es_final_marker_included s \<and> \<not> ss_returned st then ss_delivered st @ sx_terminal_marker (ss_proxy st) else ss_delivered st)"

definition finished_ok :: "evidence \<Rightarrow> stream_state \<Rightarrow> bool" where
  "finished_ok s st \<longleftrightarrow> frozen_as s st \<and> sx_terminal_dispatched (ss_proxy st) \<and> sx_closed (ss_proxy st)
     \<and> (ss_returned st \<and> ss_calls st = [Inline s]
        \<or> \<not> ss_returned st \<and> (\<exists>d. sent_out (sx_has_handoff (ss_proxy st)) s d \<and> (ss_calls st = [d] \<or> ss_calls st = [Inline s, d])))"

definition stream_ok :: "stream_state \<Rightarrow> bool" where
  "stream_ok st \<longleftrightarrow> proxy_ok (ss_proxy st) \<and>
     (case ss_phase st of
        Awaiting whole \<Rightarrow> (\<exists>s. frozen_as s st \<and> es_final_marker_included s = whole \<and> \<not> sx_terminal_dispatched (ss_proxy st)
          \<and> \<not> sx_closed (ss_proxy st) \<and> ss_calls st = [Inline s] \<and> \<not> ss_returned st)
      | Marker_Out \<Rightarrow> (\<exists>s. frozen_as s st \<and> es_final_marker_included s \<and> sx_terminal_dispatched (ss_proxy st)
          \<and> \<not> sx_closed (ss_proxy st) \<and> ss_calls st = [Inline s] \<and> ss_returned st)
      | Finished \<Rightarrow> (\<exists>s. finished_ok s st)
      | _ \<Rightarrow> before_end st)"

lemma finalizedI: "proxy_ok sx \<Longrightarrow> sx_frozen_summary sx = Some s \<Longrightarrow> sx_finalized sx"
  by (simp add: proxy_ok_def)

lemma handoff_frozen:
  assumes "sx_finalized sx" "sx_frozen_summary sx = Some s" "\<not> sx_terminal_dispatched sx"
  obtains d where "sent_out (sx_has_handoff sx) s d" "handoff_terminal v lr outcome m sx = ([d], sx\<lparr>sx_terminal_dispatched := True\<rparr>)"
  by (rule that [of "if sx_has_handoff sx then Handed s else if lr then Detached s else Lost s"])
    (use assms in \<open>auto simp: handoff_terminal_def freeze_summary_def sent_out_def\<close>)

lemma handoff_dispatched:
  assumes "sx_finalized sx" "sx_terminal_dispatched sx"
  shows "handoff_terminal v lr outcome m sx = ([], sx)"
  using assms by (auto simp: handoff_terminal_def freeze_summary_def split: option.splits)

lemma handoff_fresh:
  assumes "proxy_ok sx" "\<not> sx_finalized sx" "\<not> sx_terminal_dispatched sx"
  obtains s d where "sent_out (sx_has_handoff sx) s d" "evidence_of s sx" "\<not> es_final_marker_included s"
    "handoff_terminal v lr ''client_disconnected'' False sx
       = ([d], sx\<lparr>sx_finalized := True, sx_frozen_summary := Some s, sx_terminal_dispatched := True\<rparr>)"
proof -
  have c: "False \<longleftrightarrow> ''client_disconnected'' = ''complete''" by simp
  obtain s where s: "freeze_summary v ''client_disconnected'' False sx = (Some s, sx\<lparr>sx_finalized := True, sx_frozen_summary := Some s\<rparr>)"
    "es_final_marker_included s = False" "evidence_of s sx" by (rule freeze_ok [OF assms(1,2) c])
  show thesis
    by (rule that [of s "if sx_has_handoff sx then Handed s else if lr then Detached s else Lost s"])
      (use s assms(3) in \<open>auto simp: handoff_terminal_def sent_out_def\<close>)
qed

lemma frozen_as_frame:
  assumes "frozen_as s st" "sx_frozen_summary (ss_proxy st') = sx_frozen_summary (ss_proxy st)" "sx_hashed (ss_proxy st') = sx_hashed (ss_proxy st)"
    "sx_terminal_marker (ss_proxy st') = sx_terminal_marker (ss_proxy st)" "ss_delivered st' = ss_delivered st" "ss_returned st' = ss_returned st"
  shows "frozen_as s st'"
  using assms by (simp add: frozen_as_def)

lemma proxy_ok_flags [simp]:
  "proxy_ok (sx\<lparr>sx_closed := b\<rparr>) = proxy_ok sx" "proxy_ok (sx\<lparr>sx_terminal_dispatched := b\<rparr>) = proxy_ok sx"
  "proxy_ok (sx\<lparr>sx_queue := q\<rparr>) = proxy_ok sx"
  by (simp_all add: proxy_ok_def evidence_of_def)

lemma end_settled:
  assumes "proxy_ok (ss_proxy st)" "frozen_as s st" "sx_terminal_dispatched (ss_proxy st)" "\<not> sx_closed (ss_proxy st)"
    "ss_returned st" "ss_calls st = [Inline s]"
  shows "stream_ok (end_stream v lr st)"
proof -
  have "sx_finalized (ss_proxy st)" using finalizedI assms(1,2) by (auto simp: frozen_as_def)
  then have e: "end_stream v lr st = st\<lparr>ss_proxy := (ss_proxy st)\<lparr>sx_closed := True\<rparr>, ss_phase := Finished\<rparr>"
    using assms(3,4) by (simp add: end_stream_def aclose_def handoff_dispatched)
  have "finished_ok s (end_stream v lr st)" using assms unfolding e by (simp add: finished_ok_def frozen_as_def)
  then show ?thesis using assms(1) unfolding stream_ok_def e by auto
qed

text \<open>A stream whose summary is frozen and not dispatched ends by sending it out.\<close>

lemma end_unsettled:
  assumes "proxy_ok (ss_proxy st)" "frozen_as s st" "\<not> sx_terminal_dispatched (ss_proxy st)" "\<not> sx_closed (ss_proxy st)"
    "\<not> ss_returned st" "ss_calls st = [] \<or> ss_calls st = [Inline s]"
  shows "stream_ok (end_stream v lr st)"
proof -
  let ?sx = "(ss_proxy st)\<lparr>sx_closed := True\<rparr>"
  have fr: "sx_finalized ?sx" "sx_frozen_summary ?sx = Some s" "\<not> sx_terminal_dispatched ?sx"
    using finalizedI [OF assms(1)] assms(2,3) by (auto simp: frozen_as_def)
  obtain d where d: "sent_out (sx_has_handoff ?sx) s d"
    "handoff_terminal v lr ''client_disconnected'' False ?sx = ([d], ?sx\<lparr>sx_terminal_dispatched := True\<rparr>)"
    by (rule handoff_frozen [OF fr])
  have e: "end_stream v lr st
      = st\<lparr>ss_proxy := ?sx\<lparr>sx_terminal_dispatched := True\<rparr>, ss_phase := Finished, ss_calls := ss_calls st @ [d]\<rparr>"
    using assms(4) d(2) by (simp add: end_stream_def aclose_def)
  have "finished_ok s (end_stream v lr st)" using assms(2,5,6) d(1) unfolding e by (auto simp: finished_ok_def frozen_as_def)
  then show ?thesis using assms(1) unfolding stream_ok_def e by auto
qed

text \<open>After the hand-off the close that follows finds nothing to do.\<close>

lemma end_after_handoff:
  assumes "proxy_ok (ss_proxy st)" "frozen_as s st" "sx_terminal_dispatched (ss_proxy st)" "\<not> sx_closed (ss_proxy st)"
    "\<not> ss_returned st" "sent_out (sx_has_handoff (ss_proxy st)) s d" "ss_calls st = [d] \<or> ss_calls st = [Inline s, d]"
  shows "stream_ok (end_stream v lr st)"
proof -
  have "sx_finalized (ss_proxy st)" using finalizedI assms(1,2) by (auto simp: frozen_as_def)
  then have e: "end_stream v lr st = st\<lparr>ss_proxy := (ss_proxy st)\<lparr>sx_closed := True\<rparr>, ss_phase := Finished\<rparr>"
    using assms(3,4) by (simp add: end_stream_def aclose_def handoff_dispatched)
  have "finished_ok s (end_stream v lr st)" using assms unfolding e by (auto simp: finished_ok_def frozen_as_def)
  then show ?thesis using assms(1) unfolding stream_ok_def e by auto
qed

lemma begin_finalize_ok:
  assumes p: "proxy_ok (ss_proxy st)" and nf: "\<not> sx_finalized (ss_proxy st)" "\<not> sx_terminal_dispatched (ss_proxy st)" "\<not> sx_closed (ss_proxy st)"
    and c: "ss_calls st = []" "\<not> ss_returned st" and m: "marker \<longleftrightarrow> outcome = ''complete''"
    and h: "sx_hashed (ss_proxy st) = (if marker then ss_delivered st @ sx_terminal_marker (ss_proxy st) else ss_delivered st)"
  shows "stream_ok (begin_finalize v lr outcome marker st)"
proof -
  obtain s where s: "freeze_summary v outcome marker (ss_proxy st)
      = (Some s, (ss_proxy st)\<lparr>sx_finalized := True, sx_frozen_summary := Some s\<rparr>)"
    "proxy_ok ((ss_proxy st)\<lparr>sx_finalized := True, sx_frozen_summary := Some s\<rparr>)" "es_final_marker_included s = marker"
    by (rule freeze_ok [OF p nf(1) m])
  then show ?thesis using nf c h by (simp add: begin_finalize_def stream_ok_def frozen_as_def)
qed

lemma begin_failure_ok:
  assumes "proxy_ok (ss_proxy st)" "before_end st" "outcome \<noteq> ''complete''"
  shows "stream_ok (begin_finalize v lr outcome False st)"
  using assms by (intro begin_finalize_ok) (simp_all add: before_end_def)

lemma failure_not_complete: "failure_outcome x \<noteq> ''complete''"
  by (simp add: failure_outcome_def)

lemma send_marker_ok:
  assumes p: "proxy_ok (ss_proxy st)" and b: "before_end st"
  shows "stream_ok (send_marker v lr st)"
proof (cases "bind_res (check_event (sx_terminal_marker (ss_proxy st)) (ss_proxy st)) (\<lambda>_. accumulate (sx_terminal_marker (ss_proxy st)) (ss_proxy st))")
  case (Inl x)
  then show ?thesis using begin_failure_ok [OF p b failure_not_complete] by (simp add: send_marker_def)
next
  case (Inr sx)
  then have acc: "accumulate (sx_terminal_marker (ss_proxy st)) (ss_proxy st) = Inr sx" by (simp add: bind_res_eq_Inr)
  have a: "proxy_ok sx" "sx_hashed sx = sx_hashed (ss_proxy st) @ sx_terminal_marker (ss_proxy st)"
    using accumulate_ok [OF acc p] b by (simp_all add: before_end_def)
  have "stream_ok (begin_finalize v lr ''complete'' True (st\<lparr>ss_proxy := sx\<rparr>))"
    using a b accumulate_sel [OF acc] by (intro begin_finalize_ok) (simp_all add: before_end_def)
  then show ?thesis using Inr by (simp add: send_marker_def)
qed

lemma yield_ok:
  assumes acc: "accumulate d (ss_proxy st) = Inr sx" and p: "proxy_ok (ss_proxy st)" and b: "before_end st" and ph: "ph = Fetching \<or> ph = Tail_Out"
  shows "stream_ok (yield_out d ph sx st)"
proof -
  have "proxy_ok sx" "before_end (yield_out d ph sx st)"
    using accumulate_ok [OF acc p] b accumulate_sel [OF acc] by (simp_all add: before_end_def yield_out_def)
  then show ?thesis using ph by (auto simp: stream_ok_def yield_out_def)
qed

lemma handle_item_ok:
  assumes p: "proxy_ok (ss_proxy st)" and b: "before_end st" and it: "it \<noteq> Error_Item ''complete''"
  shows "stream_ok (handle_item v lr tail it st)"
proof (cases it)
  case (Data_Item d)
  then show ?thesis using yield_ok [OF _ p b, of d _ Fetching] begin_failure_ok [OF p b failure_not_complete]
    by (simp split: sum.splits)
next
  case Complete_Item
  show ?thesis
  proof (cases "tail = []")
    case True
    then show ?thesis using Complete_Item send_marker_ok [OF p b] by simp
  next
    case False
    then show ?thesis
      using Complete_Item yield_ok [OF _ p b, of tail _ Tail_Out] begin_failure_ok [OF p b failure_not_complete]
      by (auto simp: bind_res_eq_Inr split: sum.splits)
  qed
next
  case (Error_Item outcome)
  then show ?thesis using begin_failure_ok [OF p b, of outcome] it by simp
qed

lemma tear_down_ok:
  assumes ok: "stream_ok st" and ph: "ss_phase st \<noteq> Finished"
  shows "stream_ok (tear_down v lr st)"
proof -
  let ?sx = "ss_proxy st"
  have p: "proxy_ok ?sx" using ok by (simp add: stream_ok_def)
  consider (early) "before_end st"
    | (awaiting) s where "frozen_as s st" "\<not> sx_terminal_dispatched ?sx" "\<not> sx_closed ?sx" "ss_calls st = [Inline s]" "\<not> ss_returned st"
    | (marker) s where "frozen_as s st" "sx_terminal_dispatched ?sx" "\<not> sx_closed ?sx" "ss_calls st = [Inline s]" "ss_returned st"
    using ok ph by (cases "ss_phase st") (auto simp: stream_ok_def)
  then show ?thesis
  proof cases
    case early
    then have e: "\<not> sx_finalized ?sx" "\<not> sx_terminal_dispatched ?sx" by (simp_all add: before_end_def)
    obtain s d where s: "sent_out (sx_has_handoff ?sx) s d" "evidence_of s ?sx" "\<not> es_final_marker_included s"
      "handoff_terminal v lr ''client_disconnected'' False ?sx
         = ([d], ?sx\<lparr>sx_finalized := True, sx_frozen_summary := Some s, sx_terminal_dispatched := True\<rparr>)"
      by (rule handoff_fresh [OF p e])
    have "proxy_ok (?sx\<lparr>sx_finalized := True, sx_frozen_summary := Some s, sx_terminal_dispatched := True\<rparr>)"
      using p s(2) by (simp add: proxy_ok_def evidence_of_def)
    then show ?thesis unfolding tear_down_def s(4) prod.case
      by (intro end_after_handoff [of _ s d]) (use early s in \<open>simp_all add: before_end_def frozen_as_def\<close>)
  next
    case awaiting
    then have f: "sx_finalized ?sx" "sx_frozen_summary ?sx = Some s" using finalizedI [OF p] by (auto simp: frozen_as_def)
    obtain d where d: "sent_out (sx_has_handoff ?sx) s d"
      "handoff_terminal v lr ''client_disconnected'' False ?sx = ([d], ?sx\<lparr>sx_terminal_dispatched := True\<rparr>)"
      by (rule handoff_frozen [OF f awaiting(2)])
    show ?thesis unfolding tear_down_def d(2) prod.case
      by (intro end_after_handoff [of _ s d]) (use awaiting p d in \<open>simp_all add: frozen_as_def\<close>)
  next
    case marker
    then have "sx_finalized ?sx" using finalizedI [OF p] by (auto simp: frozen_as_def)
    then have d: "handoff_terminal v lr ''client_disconnected'' False ?sx = ([], ?sx)"
      using handoff_dispatched marker(2) by blast
    show ?thesis unfolding tear_down_def d prod.case
      by (intro end_settled [of _ s]) (use marker p in \<open>simp_all add: frozen_as_def\<close>)
  qed
qed

lemma callback_ok:
  assumes ok: "stream_ok st" and ph: "ss_phase st = Awaiting whole"
  shows "stream_ok (callback_returned v lr whole r st)"
proof -
  have p: "proxy_ok (ss_proxy st)" using ok by (simp add: stream_ok_def)
  obtain s where s: "frozen_as s st" "es_final_marker_included s = whole" "\<not> sx_terminal_dispatched (ss_proxy st)"
    "\<not> sx_closed (ss_proxy st)" "ss_calls st = [Inline s]" "\<not> ss_returned st" using ok ph by (auto simp: stream_ok_def)
  show ?thesis
  proof (cases r)
    case (Inl x)
    then show ?thesis using end_unsettled [OF p s(1,3,4,6)] s(5) by (simp add: callback_returned_def)
  next
    case (Inr u)
    define st1 where "st1 = st\<lparr>ss_proxy := (ss_proxy st)\<lparr>sx_terminal_dispatched := True\<rparr>, ss_returned := True\<rparr>"
    show ?thesis
    proof (cases whole)
      case True
      then show ?thesis using Inr p s by (simp add: callback_returned_def stream_ok_def yield_out_def frozen_as_def)
    next
      case False
      have "stream_ok (end_stream v lr st1)"
        by (rule end_settled [of _ s]) (use p s False in \<open>simp_all add: st1_def frozen_as_def\<close>)
      then show ?thesis using Inr False by (simp add: callback_returned_def st1_def)
    qed
  qed
qed

subsection \<open>The queue stays within its budget\<close>

definition queue_ok :: "stream_queue \<Rightarrow> queue_item list \<Rightarrow> bool" where
  "queue_ok q held \<longleftrightarrow>
     int (sum_list (map (length \<circ> item_data) (held @ sq_items q))) \<le> sq_bytes q \<and> sq_bytes q \<le> sq_max_bytes q
     \<and> int (length (sq_items q)) \<le> sq_max_items q \<and> sq_peak_bytes q \<le> sq_max_bytes q \<and> sq_peak_items q \<le> sq_max_items q
     \<and> Error_Item ''complete'' \<notin> set (held @ sq_items q)"

definition held_item :: "phase \<Rightarrow> queue_item list" where
  "held_item ph = (case ph of Took it \<Rightarrow> [it] | _ \<Rightarrow> [])"

lemma held_item_simps [simp]:
  "held_item Fetching = []" "held_item (Took it) = [it]" "held_item Tail_Out = []" "held_item (Awaiting w) = []"
  "held_item Marker_Out = []" "held_item Finished = []"
  by (simp_all add: held_item_def)

lemma new_queue_ok: "new_queue n b = Inr q \<Longrightarrow> queue_ok q []"
  by (auto simp: new_queue_def queue_ok_def split: if_splits)

lemma queue_put_ok:
  assumes "queue_put it q = Inr (Some q')" "queue_ok q held" "it \<noteq> Error_Item ''complete''"
  shows "queue_ok q' held"
  using assms by (auto simp: queue_put_def queue_ok_def Let_def max_def split: if_splits)

lemma queue_pop_ok: "queue_pop q = Some (it, q') \<Longrightarrow> queue_ok q [] \<Longrightarrow> queue_ok q' [it]"
  by (auto simp: queue_pop_def queue_ok_def split: list.splits)

lemma queue_give_back_ok: "queue_ok q [it] \<Longrightarrow> queue_ok (queue_give_back it q) []"
  by (auto simp: queue_give_back_def queue_ok_def)

lemma queue_ok_drop: "queue_ok q held \<Longrightarrow> queue_ok q []"
  by (auto simp: queue_ok_def)

lemma freeze_queue [simp]: "freeze_summary v o' m sx = (s, sx') \<Longrightarrow> sx_queue sx' = sx_queue sx"
  by (auto simp: freeze_summary_def Let_def split: if_splits)

lemma handoff_queue: "handoff_terminal v lr o' m sx = (ds, sx') \<Longrightarrow> sx_queue sx' = sx_queue sx"
  by (auto simp: handoff_terminal_def split: prod.splits option.splits if_splits)

lemma aclose_queue: "aclose v lr sx = (ds, sx') \<Longrightarrow> sx_queue sx' = sx_queue sx"
  by (auto simp: aclose_def dest: handoff_queue split: if_splits)

lemma end_stream_frame: "sx_queue (ss_proxy (end_stream v lr st)) = sx_queue (ss_proxy st) \<and> ss_phase (end_stream v lr st) = Finished"
  by (simp add: end_stream_def aclose_queue split: prod.splits)

lemma begin_finalize_frame:
  "sx_queue (ss_proxy (begin_finalize v lr o' m st)) = sx_queue (ss_proxy st) \<and> held_item (ss_phase (begin_finalize v lr o' m st)) = []"
  using end_stream_frame [of v lr st]
  by (auto simp: begin_finalize_def split: prod.splits option.splits)

lemma send_marker_frame:
  "sx_queue (ss_proxy (send_marker v lr st)) = sx_queue (ss_proxy st) \<and> held_item (ss_phase (send_marker v lr st)) = []"
  by (auto simp: send_marker_def Let_def begin_finalize_frame bind_res_eq_Inr accumulate_sel(5) split: sum.splits)

lemma handle_item_frame:
  "sx_queue (ss_proxy (handle_item v lr tail it st)) = sx_queue (ss_proxy st) \<and> held_item (ss_phase (handle_item v lr tail it st)) = []"
  by (cases it) (auto simp: begin_finalize_frame send_marker_frame yield_out_def bind_res_eq_Inr accumulate_sel(5) split: sum.splits)

lemma callback_frame:
  "sx_queue (ss_proxy (callback_returned v lr w r st)) = sx_queue (ss_proxy st) \<and> held_item (ss_phase (callback_returned v lr w r st)) = []"
  by (auto simp: callback_returned_def Let_def yield_out_def end_stream_frame split: sum.splits)

lemma tear_down_frame: "sx_queue (ss_proxy (tear_down v lr st)) = sx_queue (ss_proxy st) \<and> ss_phase (tear_down v lr st) = Finished"
  by (auto simp: tear_down_def end_stream_frame dest: handoff_queue split: prod.splits)

definition state_ok :: "stream_state \<Rightarrow> bool" where
  "state_ok st \<longleftrightarrow> stream_ok st \<and> queue_ok (sx_queue (ss_proxy st)) (held_item (ss_phase st))"

lemma give_back_ok:
  assumes "state_ok st" "ss_phase st = Took it"
  shows "proxy_ok (ss_proxy (give_back it st))" "before_end (give_back it st)" "it \<noteq> Error_Item ''complete''"
    "queue_ok (sx_queue (ss_proxy (give_back it st))) []"
  using assms queue_give_back_ok [of "sx_queue (ss_proxy st)" it]
  by (auto simp: state_ok_def stream_ok_def give_back_def before_end_def queue_ok_def)

lemma stream_ok_queue:
  assumes "stream_ok st" "ss_phase st = Fetching \<and> ph = Took it \<or> ph = ss_phase st"
  shows "stream_ok (st\<lparr>ss_proxy := (ss_proxy st)\<lparr>sx_queue := q\<rparr>, ss_phase := ph\<rparr>)"
  using assms by (cases "ss_phase st") (auto simp: stream_ok_def before_end_def finished_ok_def frozen_as_def)

lemma produced:
  assumes "produce_event e sx = Inr (Some sx')"
  obtains q where "sx' = sx\<lparr>sx_queue := q\<rparr>" "queue_put (Data_Item e) (sx_queue sx) = Inr (Some q)"
  using assms by (auto simp: produce_event_def bind_res_eq_Inr split: if_splits)

lemma step_state_ok:
  assumes "stream_step st st'" "state_ok st"
  shows "state_ok st'"
  using assms
proof cases
  case (Step_Produce e sx)
  obtain q where q: "sx = (ss_proxy st)\<lparr>sx_queue := q\<rparr>" "queue_put (Data_Item e) (sx_queue (ss_proxy st)) = Inr (Some q)"
    by (rule produced [OF Step_Produce(2)])
  then show ?thesis using assms(2) queue_put_ok [OF q(2)] stream_ok_queue [of st "ss_phase st" _ q] Step_Produce(1) by (simp add: state_ok_def)
next
  case (Step_Produce_End it q)
  have "it \<noteq> Error_Item ''complete''" using Step_Produce_End(2) by (auto simp: producer_outcomes_def)
  then show ?thesis using assms(2) queue_put_ok [OF Step_Produce_End(3)] stream_ok_queue [of st "ss_phase st" _ q] Step_Produce_End(1)
    by (simp add: state_ok_def)
next
  case (Step_Take it q)
  then show ?thesis using assms(2) queue_pop_ok [OF Step_Take(3)] stream_ok_queue [of st "Took it" it q]
    by (simp add: state_ok_def)
next
  case (Step_Handle it v lr tail)
  note g = give_back_ok [OF assms(2) Step_Handle(2)]
  show ?thesis using handle_item_ok [OF g(1-3), of v lr tail] handle_item_frame [of v lr tail it "give_back it st"] g(4) Step_Handle(1)
    by (simp add: state_ok_def)
next
  case (Step_Flush_Failed outcome v lr)
  note g = give_back_ok [OF assms(2) Step_Flush_Failed(2)]
  have "outcome \<noteq> ''complete''" using Step_Flush_Failed(3) by auto
  then show ?thesis using begin_failure_ok [OF g(1,2)] begin_finalize_frame [of v lr outcome False "give_back Complete_Item st"] g(4) Step_Flush_Failed(1)
    by (simp add: state_ok_def)
next
  case (Step_Timeout v lr)
  have "proxy_ok (ss_proxy st)" "before_end st" using assms(2) Step_Timeout(2) by (simp_all add: state_ok_def stream_ok_def)
  then show ?thesis using begin_failure_ok [of st "''timeout''"] begin_finalize_frame [of v lr "''timeout''" False st] assms(2) Step_Timeout
    by (simp add: state_ok_def)
next
  case (Step_After_Tail v lr)
  have "proxy_ok (ss_proxy st)" "before_end st" using assms(2) Step_After_Tail(2) by (simp_all add: state_ok_def stream_ok_def)
  then show ?thesis using send_marker_ok [of st] send_marker_frame [of v lr st] assms(2) Step_After_Tail
    by (simp add: state_ok_def)
next
  case (Step_Callback w v lr r)
  then show ?thesis using assms(2) callback_ok [of st w v lr r] callback_frame [of v lr w r st] by (simp add: state_ok_def)
next
  case (Step_After_Marker v lr)
  then obtain s where s: "frozen_as s st" "sx_terminal_dispatched (ss_proxy st)" "\<not> sx_closed (ss_proxy st)" "ss_returned st" "ss_calls st = [Inline s]"
    and p: "proxy_ok (ss_proxy st)" using assms(2) by (auto simp: state_ok_def stream_ok_def)
  then show ?thesis using end_settled [OF p s] end_stream_frame [of v lr st] assms(2) Step_After_Marker by (simp add: state_ok_def)
next
  case (Step_Tear_Down v lr)
  then show ?thesis using assms(2) tear_down_ok [of st v lr] tear_down_frame [of v lr st] queue_ok_drop
    by (auto simp: state_ok_def)
qed

subsection \<open>The settings of a stream do not change\<close>

definition settings :: "stream_proxy \<Rightarrow> int \<times> int \<times> int \<times> bytes \<times> bool \<times> int \<times> int" where
  "settings sx = (sx_max_response_bytes sx, sx_max_event_bytes sx, sx_preview_limit sx, sx_terminal_marker sx, sx_has_handoff sx,
     sq_max_items (sx_queue sx), sq_max_bytes (sx_queue sx))"

lemma settings_flags [simp]:
  "settings (sx\<lparr>sx_terminal_dispatched := b\<rparr>) = settings sx" "settings (sx\<lparr>sx_closed := b\<rparr>) = settings sx"
  "settings (sx\<lparr>sx_finalized := b, sx_frozen_summary := f\<rparr>) = settings sx"
  by (simp_all add: settings_def)

lemma settings_freeze: "freeze_summary v o' m sx = (s, sx') \<Longrightarrow> settings sx' = settings sx"
  by (cases "sx_finalized sx") (auto simp: freeze_summary_def Let_def)

lemma settings_handoff: "handoff_terminal v lr o' m sx = (ds, sx') \<Longrightarrow> settings sx' = settings sx"
  by (auto simp: handoff_terminal_def dest: settings_freeze split: prod.splits option.splits if_splits)

lemma settings_accumulate: "accumulate d sx = Inr sx' \<Longrightarrow> settings sx' = settings sx"
  by (auto simp: accumulate_def settings_def Let_def split: if_splits)

lemma settings_end: "settings (ss_proxy (end_stream v lr st)) = settings (ss_proxy st)"
proof -
  obtain ds sx where a: "aclose v lr (ss_proxy st) = (ds, sx)" by force
  then have "settings sx = settings (ss_proxy st)" by (auto simp: aclose_def dest: settings_handoff split: if_splits)
  then show ?thesis by (simp add: end_stream_def a)
qed

lemma settings_begin: "settings (ss_proxy (begin_finalize v lr o' m st)) = settings (ss_proxy st)"
  by (auto simp: begin_finalize_def settings_end dest: settings_freeze split: prod.splits option.splits)

lemma settings_marker: "settings (ss_proxy (send_marker v lr st)) = settings (ss_proxy st)"
  by (auto simp: send_marker_def Let_def settings_begin bind_res_eq_Inr dest: settings_accumulate split: sum.splits)

lemma settings_handle: "settings (ss_proxy (handle_item v lr tail it st)) = settings (ss_proxy st)"
  by (cases it) (auto simp: settings_begin settings_marker yield_out_def bind_res_eq_Inr dest: settings_accumulate split: sum.splits)

lemma settings_give_back [simp]: "settings (ss_proxy (give_back it st)) = settings (ss_proxy st)"
  by (simp add: give_back_def queue_give_back_def settings_def)

lemma settings_callback: "settings (ss_proxy (callback_returned v lr w r st)) = settings (ss_proxy st)"
  by (auto simp: callback_returned_def Let_def settings_end yield_out_def split: sum.splits)

lemma settings_tear_down: "settings (ss_proxy (tear_down v lr st)) = settings (ss_proxy st)"
  by (auto simp: tear_down_def settings_end dest: settings_handoff split: prod.splits)

lemma settings_put: "queue_put it q = Inr (Some q') \<Longrightarrow> sq_max_items q' = sq_max_items q \<and> sq_max_bytes q' = sq_max_bytes q"
  by (auto simp: queue_put_def Let_def split: if_splits)

lemma settings_step:
  assumes "stream_step st st'"
  shows "settings (ss_proxy st') = settings (ss_proxy st)"
  using assms
proof cases
  case (Step_Produce e sx)
  show ?thesis by (rule produced [OF Step_Produce(2)]) (use Step_Produce(1) in \<open>auto simp: settings_def dest: settings_put\<close>)
next
  case (Step_Produce_End it q)
  then show ?thesis using settings_put [OF Step_Produce_End(3)] by (simp add: settings_def)
next
  case (Step_Take it q)
  then show ?thesis by (auto simp: settings_def queue_pop_def split: list.splits)
qed (simp_all add: settings_handle settings_begin settings_marker settings_callback settings_end settings_tear_down)

lemma opened_ok:
  assumes "new_proxy mr md me mi mb pv mk ho = Inr sx"
  shows "state_ok (opened_stream sx) \<and> settings sx = (mr, me, pv, mk, ho, mi, mb)"
  using assms new_queue_ok
  by (auto simp: new_proxy_def bind_res_eq_Inr state_ok_def stream_ok_def opened_stream_def before_end_def proxy_ok_def evidence_of_def
      settings_def new_queue_def queue_ok_def split: if_splits)

lemma run_ok:
  assumes "new_proxy mr md me mi mb pv mk ho = Inr sx" "stream_step\<^sup>*\<^sup>* (opened_stream sx) st"
  shows "state_ok st \<and> settings (ss_proxy st) = (mr, me, pv, mk, ho, mi, mb)"
  using assms(2)
proof (induction rule: rtranclp_induct)
  case base
  then show ?case using opened_ok [OF assms(1)] by (simp add: opened_stream_def)
next
  case (step st st')
  then show ?case using step_state_ok settings_step by simp
qed

subsection \<open>What a stream promises\<close>

lemma calls_frozen:
  assumes "stream_ok st" "d \<in> set (ss_calls st)"
  shows "frozen_as (dispatched_evidence d) st \<and> evidence_of (dispatched_evidence d) (ss_proxy st)"
proof -
  have "\<exists>s. frozen_as s st \<and> dispatched_evidence d = s"
    using assms by (cases "ss_phase st") (auto simp: stream_ok_def before_end_def finished_ok_def sent_out_def split: if_splits)
  then show ?thesis using assms(1) by (auto simp: stream_ok_def proxy_ok_def frozen_as_def)
qed

subsection \<open>A stream that times out\<close>

definition demo_proxy :: stream_proxy where
  "demo_proxy = \<lparr>sx_max_response_bytes = 100, sx_max_event_bytes = 50, sx_preview_limit = 10, sx_terminal_marker = [42], sx_has_handoff = True,
     sx_queue = \<lparr>sq_items = [], sq_max_items = 4, sq_max_bytes = 100, sq_bytes = 0, sq_peak_items = 0, sq_peak_bytes = 0\<rparr>,
     sx_hashed = [], sx_size = 0, sx_preview = [], sx_finalized = False, sx_frozen_summary = None,
     sx_terminal_dispatched = False, sx_closed = False\<rparr>"

lemma demo_new_proxy: "new_proxy 100 (Fin 1) 50 4 100 10 [42] True = Inr demo_proxy"
  by (simp add: new_proxy_def new_queue_def bind_res_def demo_proxy_def)

text \<open>
  One event is sent, then the stream times out, and the terminal callback fails: the summary
  it was called with goes to the hand-off, which calls the callback again.
\<close>

lemma callback_called_again:
  "\<exists>st s. stream_step\<^sup>*\<^sup>* (opened_stream demo_proxy) st \<and> ss_phase st = Finished \<and> ss_delivered st = [7]
     \<and> ss_calls st = [Inline s, Handed s]"
proof -
  let ?v = "\<lparr>fv_elapsed = Fin 1, fv_hits = [], fv_tokens = 1\<rparr>"
  let ?q = "\<lparr>sq_items = [Data_Item [7]], sq_max_items = 4, sq_max_bytes = 100, sq_bytes = 1, sq_peak_items = 1, sq_peak_bytes = 1\<rparr>"
  let ?s0 = "opened_stream demo_proxy"
  define s1 where "s1 = ?s0\<lparr>ss_proxy := demo_proxy\<lparr>sx_queue := ?q\<rparr>\<rparr>"
  define s2 where "s2 = s1\<lparr>ss_proxy := (ss_proxy s1)\<lparr>sx_queue := ?q\<lparr>sq_items := []\<rparr>\<rparr>, ss_phase := Took (Data_Item [7])\<rparr>"
  define s3 where "s3 = handle_item ?v True [] (Data_Item [7]) (give_back (Data_Item [7]) s2)"
  define s4 where "s4 = begin_finalize ?v True ''timeout'' False s3"
  define s5 where "s5 = callback_returned ?v True False (Inl (RuntimeError ''ledger'')) s4"
  have 1: "stream_step ?s0 s1" unfolding s1_def
    by (rule Step_Produce [of "[7]"]) (simp add: opened_stream_def demo_proxy_def produce_event_def check_event_def queue_put_def bind_res_def)
  have 2: "stream_step s1 s2" unfolding s2_def
    by (rule Step_Take) (simp_all add: s1_def opened_stream_def queue_pop_def)
  have 3: "stream_step s2 s3" unfolding s3_def by (rule Step_Handle) (simp add: s2_def)
  have p3: "ss_phase s3 = Fetching" "ss_delivered s3 = [7]" "ss_calls s3 = []" "ss_returned s3 = False"
      "sx_finalized (ss_proxy s3) = False" "sx_has_handoff (ss_proxy s3)" "\<not> sx_terminal_dispatched (ss_proxy s3)" "\<not> sx_closed (ss_proxy s3)"
    by (simp_all add: s3_def s2_def s1_def opened_stream_def demo_proxy_def give_back_def queue_give_back_def accumulate_def yield_out_def Let_def)
  have 4: "stream_step s3 s4" unfolding s4_def by (rule Step_Timeout [OF p3(1)])
  obtain s where s: "ss_calls s4 = [Inline s]" "ss_phase s4 = Awaiting False" "sx_frozen_summary (ss_proxy s4) = Some s" "sx_finalized (ss_proxy s4)"
      "sx_has_handoff (ss_proxy s4)" "\<not> sx_terminal_dispatched (ss_proxy s4)" "\<not> sx_closed (ss_proxy s4)" "ss_delivered s4 = [7]"
    using p3 by (simp add: s4_def begin_finalize_def freeze_summary_def Let_def)
  have 5: "stream_step s4 s5" unfolding s5_def by (rule Step_Callback [OF s(2)])
  have "ss_phase s5 = Finished" "ss_delivered s5 = [7]" "ss_calls s5 = [Inline s, Handed s]"
    using s by (simp_all add: s5_def callback_returned_def end_stream_def aclose_def handoff_terminal_def freeze_summary_def)
  moreover have "stream_step\<^sup>*\<^sup>* ?s0 s5" using 1 2 3 4 5 by (meson rtranclp.rtrancl_into_rtrancl rtranclp.rtrancl_refl)
  ultimately show ?thesis by blast
qed

text \<open>
  C13. The evidence of a stream is the evidence of what was sent: every summary that reaches the
  terminal callback or the hand-off, however the stream ended and whatever came in between,
  carries the SHA-256, the size and the preview of exactly the bytes yielded to the client,
  followed by the terminal marker when the outcome is complete; the marker itself is yielded
  only after the callback has returned. The size never exceeds the configured limit.
\<close>

theorem evidence_is_what_was_sent:
  assumes "new_proxy mr md me mi mb pv mk ho = Inr sx" and "stream_step\<^sup>*\<^sup>* (opened_stream sx) st" and "d \<in> set (ss_calls st)"
  shows "\<exists>b. b = ss_delivered st @ (if es_final_marker_included (dispatched_evidence d) \<and> \<not> ss_returned st then mk else [])
    \<and> es_response_hash (dispatched_evidence d) = hexdigest b \<and> es_response_size (dispatched_evidence d) = int (length b)
    \<and> es_response_preview (dispatched_evidence d) = take (nat pv) b \<and> int (length b) \<le> mr
    \<and> (es_final_marker_included (dispatched_evidence d) \<longleftrightarrow> es_terminal_outcome (dispatched_evidence d) = ''complete'')"
proof -
  note r = run_ok [OF assms(1,2)]
  have ok: "stream_ok st" and c: "sx_terminal_marker (ss_proxy st) = mk" "sx_preview_limit (ss_proxy st) = pv" "sx_max_response_bytes (ss_proxy st) = mr"
    using r by (simp_all add: state_ok_def settings_def)
  have p: "proxy_ok (ss_proxy st)" using ok by (simp add: stream_ok_def)
  show ?thesis
    using calls_frozen [OF ok assms(3)] p c
    by (intro exI [of _ "sx_hashed (ss_proxy st)"]) (simp add: frozen_as_def evidence_of_def proxy_ok_def)
qed

theorem evidence_is_what_was_sent_witness:
  "\<exists>st s. stream_step\<^sup>*\<^sup>* (opened_stream demo_proxy) st \<and> ss_calls st = [Inline s, Handed s]
     \<and> (es_response_hash s = hexdigest [7] \<or> es_final_marker_included s)"
proof -
  obtain st s where r: "stream_step\<^sup>*\<^sup>* (opened_stream demo_proxy) st" "ss_delivered st = [7]" "ss_calls st = [Inline s, Handed s]"
    using callback_called_again by blast
  then have "Handed s \<in> set (ss_calls st)" by simp
  from evidence_is_what_was_sent [OF demo_new_proxy r(1) this] r show ?thesis by auto
qed

text \<open>
  Without a hand-off the summary of a stream whose callback did not return goes to a task of
  its own, and it is dropped where no event loop runs any more.
\<close>

lemma stream_end_dispatch:
  assumes "new_proxy mr md me mi mb pv mk ho = Inr sx" and "stream_step\<^sup>*\<^sup>* (opened_stream sx) st" and "ss_phase st = Finished"
  shows "\<exists>s. sx_frozen_summary (ss_proxy st) = Some s
    \<and> (ss_returned st \<and> ss_calls st = [Inline s]
      \<or> \<not> ss_returned st \<and> (\<exists>d. (if ho then d = Handed s else d = Detached s \<or> d = Lost s) \<and> (ss_calls st = [d] \<or> ss_calls st = [Inline s, d])))"
  using run_ok [OF assms(1,2)] assms(3)
  by (auto simp: state_ok_def stream_ok_def settings_def finished_ok_def frozen_as_def sent_out_def)

text \<open>
  C14. With a hand-off configured, as the gateway configures every stream, no stream whose
  iteration has begun ends without its evidence: when the generator is over it has frozen one
  summary, and either the terminal callback was called once with it and returned, or it did
  not return and that summary was given to the hand-off exactly once; the callback is called
  inside the stream at most once, and nothing else is done with a summary.
\<close>

theorem stream_ends_with_evidence:
  assumes "new_proxy mr md me mi mb pv mk True = Inr sx" and "stream_step\<^sup>*\<^sup>* (opened_stream sx) st" and "ss_phase st = Finished"
  shows "\<exists>s. sx_frozen_summary (ss_proxy st) = Some s
    \<and> (ss_returned st \<and> ss_calls st = [Inline s]
      \<or> \<not> ss_returned st \<and> (ss_calls st = [Handed s] \<or> ss_calls st = [Inline s, Handed s]))"
  using stream_end_dispatch [OF assms] by auto

theorem stream_ends_with_evidence_witness:
  "\<exists>st s. stream_step\<^sup>*\<^sup>* (opened_stream demo_proxy) st \<and> ss_phase st = Finished \<and> Handed s \<in> set (ss_calls st) \<and> \<not> ss_returned st"
proof -
  obtain st s where r: "stream_step\<^sup>*\<^sup>* (opened_stream demo_proxy) st" "ss_phase st = Finished" "ss_calls st = [Inline s, Handed s]"
    using callback_called_again by blast
  from stream_ends_with_evidence [OF demo_new_proxy r(1,2)] r show ?thesis by auto
qed

text \<open>
  C19. One stream holds no more than its declared ceiling: whenever the redactor holds back at
  most its window, the queued bytes, the held-back characters at four bytes each and the
  preview stay within four times the window plus the queue, event and preview budgets, and
  the queue never held more bytes or items than its bounds.
\<close>

theorem retention_within_ceiling:
  assumes "new_proxy mr md me mi mb pv mk ho = Inr sx" and "stream_step\<^sup>*\<^sup>* (opened_stream sx) st"
    and "1 \<le> window" and "chars \<le> window"
  shows "\<exists>b. proxy_bounds window (ss_proxy st) = Inr b \<and> require_admits b (retained_bytes chars (ss_proxy st)) = Inr ()
    \<and> sq_peak_bytes (sx_queue (ss_proxy st)) \<le> mb \<and> sq_peak_items (sx_queue (ss_proxy st)) \<le> mi"
proof -
  note r = run_ok [OF assms(1,2)]
  let ?sx = "ss_proxy st"
  have q: "queue_ok (sx_queue ?sx) (held_item (ss_phase st))" and p: "proxy_ok ?sx" and c: "settings ?sx = (mr, me, pv, mk, ho, mi, mb)"
    using r by (simp_all add: state_ok_def stream_ok_def)
  have me: "1 \<le> me" "1 \<le> mb" using assms(1) by (auto simp: new_proxy_def new_queue_def bind_res_eq_Inr split: if_splits)
  have pv: "0 \<le> pv" "int (length (sx_preview ?sx)) \<le> pv" using p c by (auto simp: proxy_ok_def settings_def)
  have b: "proxy_bounds window ?sx = Inr \<lparr>sb_window_chars = window, sb_queue_bytes = mb, sb_event_bytes = min me mb, sb_preview_bytes = pv\<rparr>"
    using assms(3) me pv(1) c by (simp add: proxy_bounds_def new_bounds_def settings_def)
  have "sq_bytes (sx_queue ?sx) \<le> mb" "sq_peak_bytes (sx_queue ?sx) \<le> mb" "sq_peak_items (sx_queue ?sx) \<le> mi"
    using q c by (auto simp: queue_ok_def settings_def)
  then show ?thesis using b assms(4) me pv(2)
    by (simp add: require_admits_def bounds_admit_def max_retained_bytes_def retained_bytes_def UTF8_MAX_BYTES_PER_CHAR_def)
qed

theorem retention_within_ceiling_witness:
  "\<exists>st b. stream_step\<^sup>*\<^sup>* (opened_stream demo_proxy) st \<and> ss_phase st = Finished
     \<and> proxy_bounds 64 (ss_proxy st) = Inr b \<and> require_admits b (retained_bytes 60 (ss_proxy st)) = Inr ()"
proof -
  obtain st where r: "stream_step\<^sup>*\<^sup>* (opened_stream demo_proxy) st" "ss_phase st = Finished" using callback_called_again by blast
  have "(1 :: int) \<le> 64" "(60 :: int) \<le> 64" by simp_all
  from retention_within_ceiling [OF demo_new_proxy r(1) this] r show ?thesis by blast
qed

end
