(* ===== verification/Rate_Limiter.thy ===== *)
theory Rate_Limiter
  imports Py_Float Encoding "HOL-Library.AList"
begin

section \<open>Request and token rate limiting\<close>

text \<open>
  The model of \<^verbatim>\<open>aegis/proxy/rate_limiter.py\<close>: token buckets, the in-process backend with
  its bounded table, the Redis backend with its script, and the limiter with its token
  reservations on top of either. A finite float is the rational it denotes and arithmetic
  on them is exact; rounding to doubles is left out. A backend is a function of an argument
  for what it meets outside (nothing in process; the network for Redis), the time, and the
  charges of one transaction.
\<close>

subsection \<open>Buckets and charges\<close>

record bucket_spec =
  bs_capacity :: rat
  bs_refill :: rat

definition new_spec :: "py_float \<Rightarrow> py_float \<Rightarrow> bucket_spec res" where
  "new_spec capacity refill_per_second =
     (case capacity of
        Fin c \<Rightarrow>
          if c \<le> 0 then Inl (ValueError ''bucket capacity must be finite and positive'')
          else (case refill_per_second of
                  Fin r \<Rightarrow> if r < 0 then Inl (ValueError ''bucket refill rate must be finite and non-negative'')
                           else Inr \<lparr>bs_capacity = c, bs_refill = r\<rparr>
                | _ \<Rightarrow> Inl (ValueError ''bucket refill rate must be finite and non-negative''))
      | _ \<Rightarrow> Inl (ValueError ''bucket capacity must be finite and positive''))"

record bucket_charge =
  bc_key :: string
  bc_spec :: bucket_spec
  bc_amount :: rat

definition new_charge :: "string \<Rightarrow> bucket_spec \<Rightarrow> py_float \<Rightarrow> bucket_charge res" where
  "new_charge key spec amount =
     (if key = [] then Inl (ValueError ''bucket key must not be empty'')
      else case amount of
        Fin a \<Rightarrow> Inr \<lparr>bc_key = key, bc_spec = spec, bc_amount = a\<rparr>
      | _ \<Rightarrow> Inl (ValueError ''bucket amount must be finite''))"

record bucket_result =
  br_allowed :: bool
  br_remaining :: rat
  br_retry_after :: py_float

text \<open>The slack of the admission test.\<close>

definition SLACK :: rat where
  "SLACK = 1 / 10 ^ 12"

definition admits :: "bucket_charge \<Rightarrow> rat \<Rightarrow> bool" where
  "admits c tokens \<longleftrightarrow> bc_amount c \<le> 0 \<or> tokens + SLACK \<ge> bc_amount c"

definition debited :: "bucket_charge \<Rightarrow> rat \<Rightarrow> rat" where
  "debited c tokens = min (bs_capacity (bc_spec c)) (max 0 (tokens - bc_amount c))"

subsection \<open>The in-process backend\<close>

record bucket_state =
  bk_tokens :: rat
  bk_updated_at :: rat
  bk_spec :: bucket_spec

record local_backend =
  lb_max_buckets :: int
  lb_buckets :: "(string \<times> bucket_state) list"

definition new_local :: "int \<Rightarrow> local_backend res" where
  "new_local max_buckets =
     (if max_buckets < 2 then Inl (ValueError ''max_buckets must be at least two'')
      else Inr \<lparr>lb_max_buckets = max_buckets, lb_buckets = []\<rparr>)"

definition replenished :: "rat \<Rightarrow> bucket_state \<Rightarrow> bool" where
  "replenished t b \<longleftrightarrow> bk_tokens b + max 0 (t - bk_updated_at b) * bs_refill (bk_spec b) \<ge> bs_capacity (bk_spec b)"

definition evictable :: "rat \<Rightarrow> string list \<Rightarrow> (string \<times> bucket_state) list \<Rightarrow> (string \<times> bucket_state) option" where
  "evictable t protected bs = List.find (\<lambda>(k, b). k \<notin> set protected \<and> replenished t b) bs"

lemma evictable_in: "evictable t protected bs = Some (k, b) \<Longrightarrow> (k, b) \<in> set bs \<and> k \<notin> set protected \<and> replenished t b"
  by (auto simp: evictable_def find_Some_iff in_set_conv_nth)

text \<open>The eviction loop: whether the new buckets fit now, and the table.\<close>

function evict :: "rat \<Rightarrow> string list \<Rightarrow> int \<Rightarrow> (string \<times> bucket_state) list \<Rightarrow> bool \<times> (string \<times> bucket_state) list" where
  "evict t protected room bs =
     (if int (length bs) \<le> room then (True, bs)
      else case evictable t protected bs of
        None \<Rightarrow> (False, bs)
      | Some (k, b) \<Rightarrow> evict t protected room (AList.delete k bs))"
  by pat_completeness auto

lemma length_delete_less: "(k, b) \<in> set bs \<Longrightarrow> length (AList.delete k bs) < length bs"
  by (auto simp: AList.delete_eq intro: length_filter_less)

termination evict
  by (relation "measure (\<lambda>(_, _, _, bs). length bs)") (auto dest!: evictable_in [THEN conjunct1] length_delete_less)

declare evict.simps [simp del]

definition available_tokens :: "rat \<Rightarrow> (string \<times> bucket_state) list \<Rightarrow> bucket_charge \<Rightarrow> rat" where
  "available_tokens t bs c =
     (case map_of bs (bc_key c) of
        None \<Rightarrow> bs_capacity (bc_spec c)
      | Some b \<Rightarrow> min (bs_capacity (bc_spec c)) (bk_tokens b + max 0 (t - bk_updated_at b) * bs_refill (bc_spec c)))"

definition deficit_of :: "bucket_charge \<Rightarrow> rat \<Rightarrow> rat" where
  "deficit_of c tokens = (if bc_amount c > 0 then max 0 (bc_amount c - tokens) else 0)"

definition retry_of :: "bucket_charge \<Rightarrow> rat \<Rightarrow> py_float" where
  "retry_of c tokens =
     (let deficit = deficit_of c tokens in
      if deficit \<noteq> 0 \<and> bs_refill (bc_spec c) > 0 then Fin (deficit / bs_refill (bc_spec c))
      else if deficit \<noteq> 0 then Inf else Fin 0)"

text \<open>The second loop: every bucket is written back and moved to the end of the table.\<close>

fun settle_buckets ::
    "bool \<Rightarrow> rat \<Rightarrow> (bucket_charge \<times> rat) list \<Rightarrow> (string \<times> bucket_state) list \<Rightarrow> bucket_result list \<times> (string \<times> bucket_state) list" where
  "settle_buckets allowed t [] bs = ([], bs)"
| "settle_buckets allowed t ((c, tokens) # rest) bs =
     (let new_tokens = (if allowed then debited c tokens else tokens);
          updated_at = (case map_of bs (bc_key c) of None \<Rightarrow> t | Some b \<Rightarrow> max t (bk_updated_at b));
          bs1 = AList.delete (bc_key c) bs @ [(bc_key c, \<lparr>bk_tokens = new_tokens, bk_updated_at = updated_at, bk_spec = bc_spec c\<rparr>)]
      in case settle_buckets allowed t rest bs1 of
           (rs, bs2) \<Rightarrow> (\<lparr>br_allowed = allowed, br_remaining = new_tokens, br_retry_after = retry_of c tokens\<rparr> # rs, bs2))"

definition apply_local :: "py_float \<Rightarrow> bucket_charge list \<Rightarrow> local_backend \<Rightarrow> bucket_result list res \<times> local_backend" where
  "apply_local now_time cs lb =
     (case now_time of
        Fin t \<Rightarrow>
          if \<not> distinct (map bc_key cs) then (Inl (ValueError ''a backend transaction cannot charge a bucket twice''), lb)
          else
            let missing = int (length (filter (\<lambda>c. bc_key c \<notin> fst ` set (lb_buckets lb)) cs)) in
            (case evict t (map bc_key cs) (lb_max_buckets lb - missing) (lb_buckets lb) of
               (False, bs) \<Rightarrow>
                 (Inr (map (\<lambda>_. \<lparr>br_allowed = False, br_remaining = 0, br_retry_after = Inf\<rparr>) cs), lb\<lparr>lb_buckets := bs\<rparr>)
             | (True, bs) \<Rightarrow>
                 let avail = map (available_tokens t bs) cs;
                     allowed = list_all (\<lambda>(c, tokens). admits c tokens) (zip cs avail)
                 in case settle_buckets allowed t (zip cs avail) bs of (rs, bs') \<Rightarrow> (Inr rs, lb\<lparr>lb_buckets := bs'\<rparr>))
      | _ \<Rightarrow> (Inl (ValueError ''clock value must be finite''), lb))"

definition close_local :: "local_backend \<Rightarrow> local_backend" where
  "close_local lb = lb\<lparr>lb_buckets := []\<rparr>"

subsection \<open>The Redis backend\<close>

text \<open>A hash of the server: its two fields and the time it expires, if any.\<close>

record redis_bucket =
  rb_tokens :: rat
  rb_updated_at :: rat
  rb_expires :: "rat option"

type_synonym redis_store = "string \<Rightarrow> redis_bucket option"

definition hmget :: "rat \<Rightarrow> redis_store \<Rightarrow> string \<Rightarrow> redis_bucket option" where
  "hmget t st k =
     (case st k of
        None \<Rightarrow> None
      | Some b \<Rightarrow> (case rb_expires b of None \<Rightarrow> Some b | Some e \<Rightarrow> if t < e then Some b else None))"

definition script_available :: "rat \<Rightarrow> redis_store \<Rightarrow> string \<Rightarrow> bucket_charge \<Rightarrow> rat \<times> rat" where
  "script_available t st key c =
     (case hmget t st key of
        None \<Rightarrow> (bs_capacity (bc_spec c), t)
      | Some b \<Rightarrow>
          (min (bs_capacity (bc_spec c)) (rb_tokens b + max 0 (t - rb_updated_at b) * bs_refill (bc_spec c)),
           max t (rb_updated_at b)))"

definition script_retry :: "bucket_charge \<Rightarrow> rat \<Rightarrow> rat" where
  "script_retry c tokens =
     (let deficit = (if bc_amount c > tokens then bc_amount c - tokens else 0) in
      if deficit > 0 then (if bs_refill (bc_spec c) > 0 then deficit / bs_refill (bc_spec c) else - 1) else 0)"

definition script_expiry :: "rat \<Rightarrow> rat \<Rightarrow> bucket_spec \<Rightarrow> rat option" where
  "script_expiry t updated_at spec =
     (if bs_refill spec > 0 then
        let ttl = max 1 (of_int \<lceil>bs_capacity spec / bs_refill spec * 2 + updated_at - t\<rceil>) in
        if ttl \<le> 2147483647 then Some (t + ttl) else None
      else None)"

fun script_settle ::
    "bool \<Rightarrow> rat \<Rightarrow> (string \<times> bucket_charge \<times> rat \<times> rat) list \<Rightarrow> redis_store \<Rightarrow> rat list \<times> redis_store" where
  "script_settle allowed t [] st = ([], st)"
| "script_settle allowed t ((key, c, tokens, updated_at) # rest) st =
     (let updated = (if allowed then debited c tokens else tokens);
          st1 = st(key \<mapsto> \<lparr>rb_tokens = updated, rb_updated_at = updated_at, rb_expires = script_expiry t updated_at (bc_spec c)\<rparr>)
      in case script_settle allowed t rest st1 of (out, st2) \<Rightarrow> (updated # script_retry c tokens # out, st2))"

definition run_script :: "rat \<Rightarrow> (string \<times> bucket_charge) list \<Rightarrow> redis_store \<Rightarrow> rat list \<times> redis_store" where
  "run_script t kcs st =
     (let avail = map (\<lambda>(key, c). case script_available t st key c of (tokens, u) \<Rightarrow> (key, c, tokens, u)) kcs;
          allowed = list_all (\<lambda>(key, c, tokens, u). \<not> (bc_amount c > 0 \<and> tokens + SLACK < bc_amount c)) avail
      in case script_settle allowed t avail st of (out, st') \<Rightarrow> ((if allowed then 1 else 0) # out, st'))"

text \<open>What comes back over the network: the reply, nothing with the script run or not, or something else.\<close>

datatype redis_io = Replied | Lost_Before | Lost_After | Replied_With "py_float list"

definition backend_unavailable :: exn where
  "backend_unavailable = RuntimeError ''RateLimitBackendUnavailableError''"

fun parse_pairs :: "bool \<Rightarrow> bucket_charge list \<Rightarrow> py_float list \<Rightarrow> bucket_result list res" where
  "parse_pairs allowed [] raw = Inr []"
| "parse_pairs allowed (c # cs) (Fin remaining # Fin retry # raw) =
     (if \<not> (0 \<le> remaining \<and> remaining \<le> bs_capacity (bc_spec c)) then Inl backend_unavailable
      else if retry < 0 \<and> retry \<noteq> - 1 then Inl backend_unavailable
      else if allowed \<and> retry \<noteq> 0 then Inl backend_unavailable
      else bind_res (parse_pairs allowed cs raw) (\<lambda>rs.
        Inr (\<lparr>br_allowed = allowed, br_remaining = remaining, br_retry_after = (if retry = - 1 then Inf else Fin retry)\<rparr> # rs)))"
| "parse_pairs allowed (c # cs) raw = Inl backend_unavailable"

definition parse_reply :: "bucket_charge list \<Rightarrow> py_float list \<Rightarrow> bucket_result list res" where
  "parse_reply cs raw =
     (if length raw \<noteq> 1 + 2 * length cs then Inl backend_unavailable
      else if hd raw = Fin 0 then parse_pairs False cs (tl raw)
      else if hd raw = Fin 1 then parse_pairs True cs (tl raw)
      else Inl backend_unavailable)"

definition apply_redis :: "string \<Rightarrow> redis_io \<Rightarrow> rat \<Rightarrow> bucket_charge list \<Rightarrow> redis_store \<Rightarrow> bucket_result list res \<times> redis_store" where
  "apply_redis namespace io t cs st =
     (if cs = [] then (Inr [], st)
      else if \<not> distinct (map bc_key cs) then (Inl (ValueError ''a backend transaction cannot charge a bucket twice''), st)
      else
        let ran = run_script t (map (\<lambda>c. (namespace @ '':'' @ bc_key c, c)) cs) st in
        (case io of
           Replied \<Rightarrow> (parse_reply cs (map Fin (fst ran)), snd ran)
         | Lost_Before \<Rightarrow> (Inl backend_unavailable, st)
         | Lost_After \<Rightarrow> (Inl backend_unavailable, snd ran)
         | Replied_With raw \<Rightarrow> (parse_reply cs raw, snd ran)))"

end
