(* ===== verification/Rate_Bound.thy ===== *)
theory Rate_Bound
  imports Rate_Limiter
begin

section \<open>What a rate limit promises\<close>

text \<open>
  The contract of a backend is the locale \<open>rate_backend\<close>: a bucket has a level at every time,
  which rises with the refill rate up to the capacity, a granted transaction takes its
  amounts from it, and nothing else lowers or raises it. The bound on what is admitted is
  proved once from the contract. Both backends provide it: forgetting a bucket, by eviction
  in process or by expiry in Redis, never changes a level. Every key belongs to one
  specification, as the keys of the limiter do, and the clock does not run backwards.
\<close>

subsection \<open>Levels\<close>

definition spec_ok :: "bucket_spec \<Rightarrow> bool" where
  "spec_ok s \<longleftrightarrow> 0 < bs_capacity s \<and> 0 \<le> bs_refill s"

lemma new_spec_ok: "new_spec c r = Inr s \<Longrightarrow> spec_ok s"
  by (auto simp: new_spec_def spec_ok_def split: py_float.splits if_splits)

text \<open>A level \<open>x\<close> some time later.\<close>

definition risen :: "bucket_spec \<Rightarrow> rat \<Rightarrow> rat \<Rightarrow> rat" where
  "risen s x dt = min (bs_capacity s) (x + dt * bs_refill s)"

definition specs_ok :: "(string \<Rightarrow> bucket_spec) \<Rightarrow> bool" where
  "specs_ok spec_of \<longleftrightarrow> (\<forall>k. spec_ok (spec_of k))"

definition charges_ok :: "(string \<Rightarrow> bucket_spec) \<Rightarrow> bucket_charge list \<Rightarrow> bool" where
  "charges_ok spec_of cs \<longleftrightarrow> distinct (map bc_key cs) \<and> (\<forall>c\<in>set cs. bc_spec c = spec_of (bc_key c))"

definition charge_for :: "bucket_charge list \<Rightarrow> string \<Rightarrow> bucket_charge option" where
  "charge_for cs k = map_of (map (\<lambda>c. (bc_key c, c)) cs) k"

text \<open>The net amount one transaction takes from a bucket.\<close>

definition amount_for :: "bucket_charge list \<Rightarrow> string \<Rightarrow> rat" where
  "amount_for cs k = (case charge_for cs k of None \<Rightarrow> 0 | Some c \<Rightarrow> bc_amount c)"

definition granted :: "bucket_charge list \<Rightarrow> bucket_result list res \<Rightarrow> bool" where
  "granted cs r \<longleftrightarrow> (\<exists>rs. r = Inr rs \<and> cs \<noteq> [] \<and> length rs = length cs \<and> list_all br_allowed rs)"

definition taken :: "bucket_charge list \<Rightarrow> bucket_result list res \<Rightarrow> string \<Rightarrow> rat" where
  "taken cs r k = (if granted cs r then amount_for cs k else min 0 (amount_for cs k))"

text \<open>
  A sequence of transactions, each with what it met and its time, and what was taken from one
  bucket: the amounts granted, and refunds even when their answer was lost.
\<close>

type_synonym 'e transactions = "('e \<times> rat \<times> bucket_charge list) list"
type_synonym ('e, 's) charging = "'e \<Rightarrow> rat \<Rightarrow> bucket_charge list \<Rightarrow> 's \<Rightarrow> bucket_result list res \<times> 's"

fun charge_run :: "('e, 's) charging \<Rightarrow> 'e transactions \<Rightarrow> 's \<Rightarrow> 's" where
  "charge_run charge [] s = s"
| "charge_run charge ((e, t, cs) # ts) s = charge_run charge ts (snd (charge e t cs s))"

fun spent :: "('e, 's) charging \<Rightarrow> string \<Rightarrow> 'e transactions \<Rightarrow> 's \<Rightarrow> rat" where
  "spent charge k [] s = 0"
| "spent charge k ((e, t, cs) # ts) s = (case charge e t cs s of (r, s') \<Rightarrow> taken cs r k + spent charge k ts s')"

fun timed :: "(string \<Rightarrow> bucket_spec) \<Rightarrow> rat \<Rightarrow> 'e transactions \<Rightarrow> rat \<Rightarrow> bool" where
  "timed spec_of t0 [] t1 \<longleftrightarrow> t0 \<le> t1"
| "timed spec_of t0 ((e, t, cs) # ts) t1 \<longleftrightarrow> t0 \<le> t \<and> charges_ok spec_of cs \<and> timed spec_of t ts t1"

lemma charge_for_SomeD: "charge_for cs k = Some c \<Longrightarrow> c \<in> set cs \<and> bc_key c = k"
  unfolding charge_for_def by (auto dest!: map_of_SomeD)

lemma charge_for_in: "distinct (map bc_key cs) \<Longrightarrow> c \<in> set cs \<Longrightarrow> charge_for cs (bc_key c) = Some c"
  unfolding charge_for_def by (rule map_of_is_SomeI) (auto simp: comp_def)

lemma charge_for_None: "charge_for cs k = None \<longleftrightarrow> k \<notin> bc_key ` set cs"
  by (simp add: charge_for_def map_of_eq_None_iff image_image)

lemma risen_0: "x \<le> bs_capacity s \<Longrightarrow> risen s x 0 = x"
  by (simp add: risen_def)

lemma risen_le: "risen s x dt \<le> bs_capacity s" "risen s x dt \<le> x + dt * bs_refill s"
  by (simp_all add: risen_def)

lemma risen_nonneg: "spec_ok s \<Longrightarrow> 0 \<le> x \<Longrightarrow> 0 \<le> dt \<Longrightarrow> 0 \<le> risen s x dt"
  by (simp add: risen_def spec_ok_def)

lemma risen_risen:
  assumes "spec_ok s" "0 \<le> d" "0 \<le> e"
  shows "risen s (risen s x d) e = risen s x (d + e)"
proof (cases "x + d * bs_refill s \<le> bs_capacity s")
  case True
  then show ?thesis by (simp add: risen_def algebra_simps)
next
  case False
  have "0 \<le> e * bs_refill s" using assms by (simp add: spec_ok_def)
  moreover have "x + (d + e) * bs_refill s = x + d * bs_refill s + e * bs_refill s" by (simp add: algebra_simps)
  ultimately show ?thesis using False by (simp add: risen_def)
qed

subsection \<open>The contract of a backend\<close>

locale rate_backend =
  fixes spec_of :: "string \<Rightarrow> bucket_spec"
    and charge :: "'e \<Rightarrow> rat \<Rightarrow> bucket_charge list \<Rightarrow> 's \<Rightarrow> bucket_result list res \<times> 's"
    and level :: "'s \<Rightarrow> string \<Rightarrow> rat \<Rightarrow> rat"
    and valid :: "'s \<Rightarrow> rat \<Rightarrow> bool"
  assumes level_bounds: "valid s t \<Longrightarrow> 0 \<le> level s k t \<and> level s k t \<le> bs_capacity (spec_of k)"
    and level_rises: "valid s t \<Longrightarrow> t \<le> u \<Longrightarrow> level s k u = risen (spec_of k) (level s k t) (u - t)"
    and valid_later: "valid s t \<Longrightarrow> t \<le> u \<Longrightarrow> valid s u"
    and charge_valid: "valid s t \<Longrightarrow> charges_ok spec_of cs \<Longrightarrow> charge e t cs s = (r, s') \<Longrightarrow> valid s' t"
    and charge_level: "valid s t \<Longrightarrow> charges_ok spec_of cs \<Longrightarrow> charge e t cs s = (r, s') \<Longrightarrow>
      (\<forall>k. level s' k t = level s k t) \<and> \<not> granted cs r
      \<or> (\<forall>c\<in>set cs. admits c (level s (bc_key c) t))
        \<and> (\<forall>k. level s' k t = (case charge_for cs k of None \<Rightarrow> level s k t | Some c \<Rightarrow> debited c (level s k t)))"
begin

lemma debited_le:
  assumes "admits c x" "0 \<le> x" "x \<le> bs_capacity (bc_spec c)"
  shows "debited c x \<le> x - bc_amount c + SLACK"
  using assms by (auto simp: debited_def admits_def SLACK_def min_def max_def)

text \<open>One transaction lowers a level by at least what it was granted, up to the slack.\<close>

lemma charge_bound:
  assumes v: "valid s t" and c: "charges_ok spec_of cs" and eq: "charge e t cs s = (r, s')"
  shows "level s' k t + taken cs r k \<le> level s k t + SLACK"
  using charge_level [OF v c eq]
proof
  assume "(\<forall>k. level s' k t = level s k t) \<and> \<not> granted cs r"
  then show ?thesis by (simp add: SLACK_def taken_def)
next
  assume a: "(\<forall>c\<in>set cs. admits c (level s (bc_key c) t))
    \<and> (\<forall>k. level s' k t = (case charge_for cs k of None \<Rightarrow> level s k t | Some c \<Rightarrow> debited c (level s k t)))"
  show ?thesis
  proof (cases "charge_for cs k")
    case None
    with a show ?thesis by (simp add: amount_for_def SLACK_def taken_def)
  next
    case (Some d)
    note d = charge_for_SomeD [OF Some]
    have "bc_spec d = spec_of k" using c d by (auto simp: charges_ok_def)
    then have "debited d (level s k t) \<le> level s k t - bc_amount d + SLACK"
      using a d level_bounds [OF v, of k] by (intro debited_le) auto
    with a Some show ?thesis by (auto simp: amount_for_def taken_def SLACK_def)
  qed
qed

lemma spent_bound:
  assumes "valid s t0" "timed spec_of t0 ts t1"
  shows "spent charge k ts s + level (charge_run charge ts s) k t1 \<le> level s k t0 + (t1 - t0) * bs_refill (spec_of k) + of_nat (length ts) * SLACK
    \<and> valid (charge_run charge ts s) t1"
  using assms
proof (induction ts arbitrary: s t0)
  case Nil
  then show ?case using level_rises [of s t0 t1 k] valid_later risen_le(2) by simp
next
  case (Cons x ts)
  obtain e t cs where x: "x = (e, t, cs)" by (metis prod_cases3)
  obtain r s' where eq: "charge e t cs s = (r, s')" by force
  have le: "t0 \<le> t" and c: "charges_ok spec_of cs" and tm: "timed spec_of t ts t1" using Cons.prems(2) x by simp_all
  have v: "valid s t" using valid_later [OF Cons.prems(1) le] .
  have v': "valid s' t" using charge_valid [OF v c eq] .
  have "level s k t \<le> level s k t0 + (t - t0) * bs_refill (spec_of k)"
    using level_rises [OF Cons.prems(1) le] risen_le(2) by simp
  moreover note charge_bound [OF v c eq, of k] Cons.IH [OF v' tm]
  ultimately show ?case by (simp add: x eq algebra_simps)
qed

end

subsection \<open>The in-process backend keeps the contract\<close>

definition bucket_ok :: "bucket_spec \<Rightarrow> rat \<Rightarrow> bucket_state \<Rightarrow> bool" where
  "bucket_ok s t b \<longleftrightarrow> bk_spec b = s \<and> 0 \<le> bk_tokens b \<and> bk_tokens b \<le> bs_capacity s \<and> bk_updated_at b \<le> t"

definition table_ok :: "(string \<Rightarrow> bucket_spec) \<Rightarrow> (string \<times> bucket_state) list \<Rightarrow> rat \<Rightarrow> bool" where
  "table_ok spec_of bs t \<longleftrightarrow> distinct (map fst bs) \<and> (\<forall>k b. map_of bs k = Some b \<longrightarrow> bucket_ok (spec_of k) t b)"

definition bucket_level :: "bucket_spec \<Rightarrow> bucket_state option \<Rightarrow> rat \<Rightarrow> rat" where
  "bucket_level s b t =
     (case b of None \<Rightarrow> bs_capacity s | Some b \<Rightarrow> risen s (bk_tokens b) (max 0 (t - bk_updated_at b)))"

definition local_level :: "(string \<Rightarrow> bucket_spec) \<Rightarrow> local_backend \<Rightarrow> string \<Rightarrow> rat \<Rightarrow> rat" where
  "local_level spec_of lb k t = bucket_level (spec_of k) (map_of (lb_buckets lb) k) t"

definition local_valid :: "(string \<Rightarrow> bucket_spec) \<Rightarrow> local_backend \<Rightarrow> rat \<Rightarrow> bool" where
  "local_valid spec_of lb t \<longleftrightarrow> table_ok spec_of (lb_buckets lb) t"

lemma bucket_ok_later: "bucket_ok s t b \<Longrightarrow> t \<le> u \<Longrightarrow> bucket_ok s u b"
  by (simp add: bucket_ok_def)

lemma bucket_level_bounds:
  assumes "spec_ok s" "\<And>b'. b = Some b' \<Longrightarrow> bucket_ok s t b'"
  shows "0 \<le> bucket_level s b t \<and> bucket_level s b t \<le> bs_capacity s"
  using assms by (cases b) (auto simp: bucket_level_def bucket_ok_def risen_le spec_ok_def intro!: risen_nonneg)

lemma bucket_level_rises:
  assumes "spec_ok s" "\<And>b'. b = Some b' \<Longrightarrow> bucket_ok s t b'" "t \<le> u"
  shows "bucket_level s b u = risen s (bucket_level s b t) (u - t)"
proof (cases b)
  case None
  have "0 \<le> (u - t) * bs_refill s" using assms by (simp add: spec_ok_def)
  then show ?thesis using None by (simp add: bucket_level_def risen_def)
next
  case (Some b')
  then have "bk_updated_at b' \<le> t" using assms(2) by (simp add: bucket_ok_def)
  then show ?thesis using Some assms(1,3) by (simp add: bucket_level_def risen_risen)
qed

lemma available_level:
  assumes "bc_spec c = s" "\<And>b. map_of bs (bc_key c) = Some b \<Longrightarrow> bucket_ok s t b"
  shows "available_tokens t bs c = bucket_level s (map_of bs (bc_key c)) t"
  using assms by (auto simp: available_tokens_def bucket_level_def risen_def split: option.splits)

lemma replenished_level: "bucket_ok s t b \<Longrightarrow> replenished t b \<Longrightarrow> bucket_level s (Some b) t = bs_capacity s"
  by (simp add: replenished_def bucket_ok_def bucket_level_def risen_def)

text \<open>Evicting a bucket that is full again changes no level.\<close>

lemma evict_keeps:
  assumes "evict t protected room bs = (fit, bs')" "table_ok spec_of bs t"
  shows "table_ok spec_of bs' t \<and> (\<forall>k. bucket_level (spec_of k) (map_of bs' k) t = bucket_level (spec_of k) (map_of bs k) t)"
  using assms
proof (induction t protected room bs rule: evict.induct)
  case (1 t protected room bs)
  show ?case
  proof (cases "int (length bs) \<le> room")
    case True
    with 1 show ?thesis by (simp add: evict.simps [of t protected room bs])
  next
    case big: False
    show ?thesis
    proof (cases "evictable t protected bs")
      case None
      with 1 big show ?thesis by (simp add: evict.simps [of t protected room bs])
    next
      case (Some kb)
      obtain k b where kb: "kb = (k, b)" by force
      have b: "map_of bs k = Some b" "replenished t b"
        using evictable_in [of t protected bs k b] Some kb "1.prems"(2) by (auto simp: table_ok_def)
      have ok: "bucket_ok (spec_of k) t b" using b "1.prems"(2) by (simp add: table_ok_def)
      have d: "table_ok spec_of (AList.delete k bs) t"
        using "1.prems"(2) by (auto simp: table_ok_def delete_conv' distinct_delete)
      have "evict t protected room (AList.delete k bs) = (fit, bs')"
        using "1.prems"(1) big Some kb by (simp add: evict.simps [of t protected room bs])
      from "1.IH" [OF big Some kb [symmetric] this d] show ?thesis
        using replenished_level [OF ok b(2)] b(1) by (auto simp: delete_conv' bucket_level_def)
    qed
  qed
qed

lemma map_of_rotate: "map_of (AList.delete k bs @ [(k, v)]) = (map_of bs)(k \<mapsto> v)"
  by (rule ext) (auto simp: map_of_append map_add_def delete_conv' split: option.splits)

lemma table_ok_rotate: "table_ok spec_of bs t \<Longrightarrow> bucket_ok (spec_of k) t b \<Longrightarrow> table_ok spec_of (AList.delete k bs @ [(k, b)]) t"
  unfolding table_ok_def map_of_rotate by (auto simp: AList.delete_keys distinct_removeAll)

lemma debited_bounds: "spec_ok (bc_spec c) \<Longrightarrow> 0 \<le> debited c x \<and> debited c x \<le> bs_capacity (bc_spec c)"
  by (auto simp: debited_def spec_ok_def)

lemma settle_buckets_levels:
  assumes "settle_buckets allowed t (map (\<lambda>c. (c, f c)) cs) bs = (rs, bs')" "table_ok spec_of bs t" "charges_ok spec_of cs"
    "\<And>k. spec_ok (spec_of k)" "\<And>c. c \<in> set cs \<Longrightarrow> 0 \<le> f c \<and> f c \<le> bs_capacity (bc_spec c)"
  shows "table_ok spec_of bs' t \<and> (list_all br_allowed rs \<longleftrightarrow> allowed \<or> cs = []) \<and> length rs = length cs
    \<and> (\<forall>k. bucket_level (spec_of k) (map_of bs' k) t =
         (case charge_for cs k of None \<Rightarrow> bucket_level (spec_of k) (map_of bs k) t | Some c \<Rightarrow> if allowed then debited c (f c) else f c))"
  using assms
proof (induction cs arbitrary: bs rs bs')
  case Nil
  then show ?case by (simp add: charge_for_def)
next
  case (Cons c cs)
  let ?n = "if allowed then debited c (f c) else f c"
  let ?u = "case map_of bs (bc_key c) of None \<Rightarrow> t | Some b \<Rightarrow> max t (bk_updated_at b)"
  let ?b = "\<lparr>bk_tokens = ?n, bk_updated_at = ?u, bk_spec = bc_spec c\<rparr>"
  let ?bs = "AList.delete (bc_key c) bs @ [(bc_key c, ?b)]"
  obtain rs1 bs1 where r: "settle_buckets allowed t (map (\<lambda>c. (c, f c)) cs) ?bs = (rs1, bs1)" by force
  have sp: "bc_spec c = spec_of (bc_key c)" and cs: "charges_ok spec_of cs" and new: "bc_key c \<notin> bc_key ` set cs"
    using Cons.prems(3) by (auto simp: charges_ok_def)
  have u: "?u = t" using Cons.prems(2) by (auto simp: table_ok_def bucket_ok_def split: option.splits)
  have n: "0 \<le> ?n \<and> ?n \<le> bs_capacity (spec_of (bc_key c))"
    using debited_bounds [of c "f c"] Cons.prems(4) [of "bc_key c"] Cons.prems(5) [of c] sp by auto
  then have ok: "bucket_ok (spec_of (bc_key c)) t ?b" using sp u by (simp add: bucket_ok_def)
  have lvl: "bucket_level (spec_of (bc_key c)) (Some ?b) t = ?n" using n u by (simp add: bucket_level_def risen_0)
  from Cons.IH [OF r table_ok_rotate [OF Cons.prems(2) ok] cs Cons.prems(4) Cons.prems(5)]
  have ih: "table_ok spec_of bs1 t" "list_all br_allowed rs1 \<longleftrightarrow> allowed \<or> cs = []" "length rs1 = length cs"
    "\<And>k. bucket_level (spec_of k) (map_of bs1 k) t =
         (case charge_for cs k of None \<Rightarrow> bucket_level (spec_of k) (((map_of bs)(bc_key c \<mapsto> ?b)) k) t
          | Some c \<Rightarrow> if allowed then debited c (f c) else f c)"
    unfolding map_of_rotate by auto
  have res: "bs' = bs1" "rs = \<lparr>br_allowed = allowed, br_remaining = ?n, br_retry_after = retry_of c (f c)\<rparr> # rs1"
    using Cons.prems(1) r by (simp_all add: Let_def)
  have cf: "charge_for (c # cs) k = (if k = bc_key c then Some c else charge_for cs k)" for k by (simp add: charge_for_def)
  have "charge_for cs (bc_key c) = None" using new by (simp add: charge_for_None)
  then have "bucket_level (spec_of k) (map_of bs1 k) t =
      (case charge_for (c # cs) k of None \<Rightarrow> bucket_level (spec_of k) (map_of bs k) t
       | Some c \<Rightarrow> if allowed then debited c (f c) else f c)" for k
    using ih(4) [of k] lvl by (cases "k = bc_key c") (simp_all add: cf cong: option.case_cong)
  then show ?case using ih(1-3) res by auto
qed

lemma zip_map_same: "zip cs (map f cs) = map (\<lambda>c. (c, f c)) cs"
  by (induction cs) simp_all

lemma local_charge:
  assumes specs: "\<And>k. spec_ok (spec_of k)" and v: "local_valid spec_of lb t" and c: "charges_ok spec_of cs"
    and eq: "apply_local (Fin t) cs lb = (r, lb')"
  shows "local_valid spec_of lb' t \<and>
      ((\<forall>k. local_level spec_of lb' k t = local_level spec_of lb k t) \<and> \<not> granted cs r
      \<or> (\<forall>c\<in>set cs. admits c (local_level spec_of lb (bc_key c) t))
        \<and> (\<forall>k. local_level spec_of lb' k t =
             (case charge_for cs k of None \<Rightarrow> local_level spec_of lb k t | Some c \<Rightarrow> debited c (local_level spec_of lb k t))))"
proof -
  let ?room = "lb_max_buckets lb - int (length (filter (\<lambda>c. bc_key c \<notin> fst ` set (lb_buckets lb)) cs))"
  obtain fit bs where ev: "evict t (map bc_key cs) ?room (lb_buckets lb) = (fit, bs)" by force
  have k: "table_ok spec_of bs t" "\<And>k. bucket_level (spec_of k) (map_of bs k) t = local_level spec_of lb k t"
    using evict_keeps [OF ev] v by (simp_all add: local_valid_def local_level_def)
  have dist: "distinct (map bc_key cs)" using c by (simp add: charges_ok_def)
  show ?thesis
  proof (cases fit)
    case False
    then have "lb' = lb\<lparr>lb_buckets := bs\<rparr>" "\<not> granted cs r"
      using eq ev dist by (auto simp: apply_local_def Let_def granted_def neq_Nil_conv)
    with k show ?thesis by (auto simp: local_valid_def local_level_def)
  next
    case True
    let ?f = "available_tokens t bs"
    let ?allowed = "list_all (\<lambda>c. admits c (?f c)) cs"
    obtain rs bs' where st: "settle_buckets ?allowed t (map (\<lambda>c. (c, ?f c)) cs) bs = (rs, bs')" by force
    have res: "r = Inr rs" "lb' = lb\<lparr>lb_buckets := bs'\<rparr>"
      using eq ev dist True st by (auto simp: apply_local_def Let_def zip_map_same list.pred_map comp_def)
    have f: "?f c = local_level spec_of lb (bc_key c) t" if "c \<in> set cs" for c
      using available_level [of c "spec_of (bc_key c)" bs t] that c k by (auto simp: charges_ok_def table_ok_def)
    have "0 \<le> ?f c \<and> ?f c \<le> bs_capacity (bc_spec c)" if "c \<in> set cs" for c
      using that c f [OF that] k(1) bucket_level_bounds [OF specs [of "bc_key c"], of "map_of bs (bc_key c)" t] k(2) [of "bc_key c"]
      by (auto simp: charges_ok_def table_ok_def)
    from settle_buckets_levels [OF st k(1) c specs this]
    have s: "table_ok spec_of bs' t" "list_all br_allowed rs \<longleftrightarrow> ?allowed \<or> cs = []"
      "\<And>k. bucket_level (spec_of k) (map_of bs' k) t =
         (case charge_for cs k of None \<Rightarrow> local_level spec_of lb k t | Some c \<Rightarrow> if ?allowed then debited c (?f c) else ?f c)"
      by (simp_all add: k(2) cong: option.case_cong)
    show ?thesis
    proof (cases ?allowed)
      case a: True
      have "\<forall>c\<in>set cs. admits c (local_level spec_of lb (bc_key c) t)" using a f by (auto simp: list_all_iff)
      then show ?thesis using s a f res by (auto simp: local_valid_def local_level_def dest: charge_for_SomeD split: option.splits)
    next
      case a: False
      then have "\<not> granted cs r" using s(2) res by (auto simp: granted_def)
      then show ?thesis using s a f res by (auto simp: local_valid_def local_level_def dest: charge_for_SomeD split: option.splits)
    qed
  qed
qed

text \<open>The in-process backend as a function of nothing, the time and the charges.\<close>

definition charge_local :: "(unit, local_backend) charging" where
  "charge_local u t cs lb = apply_local (Fin t) cs lb"

interpretation in_process: rate_backend spec_of charge_local "local_level spec_of" "\<lambda>lb t. specs_ok spec_of \<and> local_valid spec_of lb t"
  for spec_of :: "string \<Rightarrow> bucket_spec"
proof (unfold_locales, goal_cases)
  case (1 s t k)
  then show ?case unfolding local_level_def
    by (intro bucket_level_bounds) (auto simp: specs_ok_def local_valid_def table_ok_def)
next
  case (2 s t u k)
  then show ?case unfolding local_level_def
    by (intro bucket_level_rises) (auto simp: specs_ok_def local_valid_def table_ok_def)
next
  case (3 s t u)
  then show ?case unfolding local_valid_def table_ok_def by (metis bucket_ok_later)
next
  case (4 s t cs e r s')
  then show ?case using local_charge [of spec_of s t cs r s'] by (auto simp: specs_ok_def charge_local_def)
next
  case (5 s t cs e r s')
  then show ?case using local_charge [of spec_of s t cs r s'] by (auto simp: specs_ok_def charge_local_def)
qed

subsection \<open>The Redis backend keeps the contract\<close>

text \<open>A hash of the script is the state of a bucket; one that expires has been full for a while.\<close>

definition as_bucket :: "bucket_spec \<Rightarrow> redis_bucket \<Rightarrow> bucket_state" where
  "as_bucket s b = \<lparr>bk_tokens = rb_tokens b, bk_updated_at = rb_updated_at b, bk_spec = s\<rparr>"

definition redis_level :: "string \<Rightarrow> (string \<Rightarrow> bucket_spec) \<Rightarrow> redis_store \<Rightarrow> string \<Rightarrow> rat \<Rightarrow> rat" where
  "redis_level ns spec_of st k t = bucket_level (spec_of k) (map_option (as_bucket (spec_of k)) (hmget t st (ns @ '':'' @ k))) t"

definition hash_ok :: "bucket_spec \<Rightarrow> rat \<Rightarrow> redis_bucket \<Rightarrow> bool" where
  "hash_ok s t b \<longleftrightarrow> bucket_ok s t (as_bucket s b)
     \<and> (\<forall>e u. rb_expires b = Some e \<longrightarrow> e \<le> u \<longrightarrow> bucket_level s (Some (as_bucket s b)) u = bs_capacity s)"

definition redis_valid :: "string \<Rightarrow> (string \<Rightarrow> bucket_spec) \<Rightarrow> redis_store \<Rightarrow> rat \<Rightarrow> bool" where
  "redis_valid ns spec_of st t \<longleftrightarrow> (\<forall>k b. st (ns @ '':'' @ k) = Some b \<longrightarrow> hash_ok (spec_of k) t b)"

lemma hmget_level:
  assumes "redis_valid ns spec_of st t" "t \<le> u"
  shows "redis_level ns spec_of st k u =
    bucket_level (spec_of k) (map_option (as_bucket (spec_of k)) (st (ns @ '':'' @ k))) u"
  using assms
  by (auto simp: redis_level_def redis_valid_def hash_ok_def hmget_def bucket_level_def [of _ None] split: option.splits)

lemma redis_bucket_ok:
  "redis_valid ns spec_of st t \<Longrightarrow> map_option (as_bucket (spec_of k)) (st (ns @ '':'' @ k)) = Some b \<Longrightarrow> bucket_ok (spec_of k) t b"
  by (auto simp: redis_valid_def hash_ok_def)

lemma redis_valid_later: "redis_valid ns spec_of st t \<Longrightarrow> t \<le> u \<Longrightarrow> redis_valid ns spec_of st u"
  by (auto simp: redis_valid_def hash_ok_def intro: bucket_ok_later)

text \<open>The time to live covers two refills of the whole bucket.\<close>

lemma written_hash_ok:
  assumes "spec_ok s" "0 \<le> x" "x \<le> bs_capacity s"
  shows "hash_ok s t \<lparr>rb_tokens = x, rb_updated_at = t, rb_expires = script_expiry t t s\<rparr>" (is "hash_ok s t ?b")
proof -
  have "bucket_level s (Some (as_bucket s ?b)) u = bs_capacity s" if "script_expiry t t s = Some e" "e \<le> u" for e u
  proof -
    have r: "0 < bs_refill s" and e: "e = t + max 1 (of_int \<lceil>bs_capacity s / bs_refill s * 2 + t - t\<rceil>)"
      using that(1) by (auto simp: script_expiry_def Let_def split: if_splits)
    define d where "d = bs_capacity s / bs_refill s"
    have d: "0 < d" using r assms(1) by (simp add: d_def spec_ok_def)
    have "d * 2 \<le> max 1 (of_int \<lceil>d * 2\<rceil>)" by (rule max.coboundedI2) simp
    moreover have "e = t + max 1 (of_int \<lceil>d * 2\<rceil>)" using e by (simp add: d_def)
    ultimately have "t + d * 2 \<le> u" using that(2) by linarith
    then have le: "t + d \<le> u" using d by linarith
    then have "d * bs_refill s \<le> (u - t) * bs_refill s" using r by (intro mult_right_mono) auto
    then have "bs_capacity s \<le> (u - t) * bs_refill s" using r by (simp add: d_def)
    moreover have "t \<le> u" using le d by simp
    ultimately show ?thesis using assms(2) by (simp add: bucket_level_def risen_def as_bucket_def)
  qed
  then show ?thesis using assms by (simp add: hash_ok_def bucket_ok_def as_bucket_def)
qed

lemma script_available_level:
  assumes "redis_valid ns spec_of st t" "bc_spec c = spec_of (bc_key c)"
  shows "script_available t st (ns @ '':'' @ bc_key c) c = (redis_level ns spec_of st (bc_key c) t, t)"
proof (cases "hmget t st (ns @ '':'' @ bc_key c)")
  case None
  then show ?thesis using assms by (simp add: script_available_def redis_level_def bucket_level_def)
next
  case (Some b)
  then have "st (ns @ '':'' @ bc_key c) = Some b" by (auto simp: hmget_def split: option.splits if_splits)
  then have "rb_updated_at b \<le> t" using assms(1) by (auto simp: redis_valid_def hash_ok_def bucket_ok_def as_bucket_def)
  then show ?thesis using assms Some by (simp add: script_available_def redis_level_def bucket_level_def risen_def as_bucket_def)
qed

lemma script_settle_levels:
  assumes "script_settle allowed t (map (\<lambda>c. (ns @ '':'' @ bc_key c, c, f c, t)) cs) st = (out, st')"
    "redis_valid ns spec_of st t" "charges_ok spec_of cs" "\<And>k. spec_ok (spec_of k)"
    "\<And>c. c \<in> set cs \<Longrightarrow> 0 \<le> f c \<and> f c \<le> bs_capacity (bc_spec c)"
  shows "redis_valid ns spec_of st' t
    \<and> out = concat (map (\<lambda>c. [if allowed then debited c (f c) else f c, script_retry c (f c)]) cs)
    \<and> (\<forall>k. redis_level ns spec_of st' k t =
         (case charge_for cs k of None \<Rightarrow> redis_level ns spec_of st k t | Some c \<Rightarrow> if allowed then debited c (f c) else f c))"
  using assms
proof (induction cs arbitrary: st out st')
  case Nil
  then show ?case by (simp add: charge_for_def)
next
  case (Cons c cs)
  let ?n = "if allowed then debited c (f c) else f c"
  let ?b = "\<lparr>rb_tokens = ?n, rb_updated_at = t, rb_expires = script_expiry t t (bc_spec c)\<rparr>"
  let ?key = "ns @ '':'' @ bc_key c"
  define st2 where "st2 = st(?key \<mapsto> ?b)"
  obtain out1 st1 where r: "script_settle allowed t (map (\<lambda>c. (ns @ '':'' @ bc_key c, c, f c, t)) cs) st2 = (out1, st1)" by force
  have sp: "bc_spec c = spec_of (bc_key c)" and cs: "charges_ok spec_of cs" and new: "bc_key c \<notin> bc_key ` set cs"
    using Cons.prems(3) by (auto simp: charges_ok_def)
  have n: "0 \<le> ?n \<and> ?n \<le> bs_capacity (spec_of (bc_key c))"
    using debited_bounds [of c "f c"] Cons.prems(4) [of "bc_key c"] Cons.prems(5) [of c] sp by auto
  have ok: "hash_ok (spec_of (bc_key c)) t ?b" using written_hash_ok [OF Cons.prems(4)] n sp by simp
  have v: "redis_valid ns spec_of st2 t" using Cons.prems(2) ok by (auto simp: redis_valid_def st2_def)
  have lvl: "redis_level ns spec_of st2 k t = (if k = bc_key c then ?n else redis_level ns spec_of st k t)" for k
    using hmget_level [OF v order_refl, of k] hmget_level [OF Cons.prems(2) order_refl, of k] n
    by (auto simp: bucket_level_def as_bucket_def risen_0 st2_def)
  from Cons.IH [OF r v cs Cons.prems(4) Cons.prems(5)]
  have ih: "redis_valid ns spec_of st1 t"
    "out1 = concat (map (\<lambda>c. [if allowed then debited c (f c) else f c, script_retry c (f c)]) cs)"
    "\<And>k. redis_level ns spec_of st1 k t =
         (case charge_for cs k of None \<Rightarrow> redis_level ns spec_of st2 k t
          | Some c \<Rightarrow> if allowed then debited c (f c) else f c)" by auto
  have res: "st' = st1" "out = ?n # script_retry c (f c) # out1" using Cons.prems(1) r by (simp_all add: Let_def st2_def)
  have cf: "charge_for (c # cs) k = (if k = bc_key c then Some c else charge_for cs k)" for k by (simp add: charge_for_def)
  have "charge_for cs (bc_key c) = None" using new by (simp add: charge_for_None)
  then have "redis_level ns spec_of st1 k t =
      (case charge_for (c # cs) k of None \<Rightarrow> redis_level ns spec_of st k t
       | Some c \<Rightarrow> if allowed then debited c (f c) else f c)" for k
    using ih(3) [of k] by (cases "k = bc_key c") (simp_all add: cf lvl cong: option.case_cong)
  then show ?case using ih(1,2) res by auto
qed

definition redis_allowed :: "string \<Rightarrow> (string \<Rightarrow> bucket_spec) \<Rightarrow> rat \<Rightarrow> bucket_charge list \<Rightarrow> redis_store \<Rightarrow> bool" where
  "redis_allowed ns spec_of t cs st \<longleftrightarrow> list_all (\<lambda>c. admits c (redis_level ns spec_of st (bc_key c) t)) cs"

lemma redis_level_bounds:
  assumes "spec_ok (spec_of k)" "redis_valid ns spec_of st t"
  shows "0 \<le> redis_level ns spec_of st k t \<and> redis_level ns spec_of st k t \<le> bs_capacity (spec_of k)"
  unfolding hmget_level [OF assms(2) order_refl]
  using redis_bucket_ok [OF assms(2)] by (intro bucket_level_bounds assms(1)) auto

lemma run_script_levels:
  assumes specs: "\<And>k. spec_ok (spec_of k)" and v: "redis_valid ns spec_of st t" and c: "charges_ok spec_of cs"
    and eq: "run_script t (map (\<lambda>c. (ns @ '':'' @ bc_key c, c)) cs) st = (out, st')"
  defines "lv \<equiv> \<lambda>c. redis_level ns spec_of st (bc_key c) t" and "al \<equiv> redis_allowed ns spec_of t cs st"
  shows "redis_valid ns spec_of st' t"
    and "out = (if al then 1 else 0) # concat (map (\<lambda>c. [if al then debited c (lv c) else lv c, script_retry c (lv c)]) cs)"
    and "\<And>k. redis_level ns spec_of st' k t =
      (case charge_for cs k of None \<Rightarrow> redis_level ns spec_of st k t | Some c \<Rightarrow> if al then debited c (lv c) else lv c)"
proof -
  have sp: "bc_spec c = spec_of (bc_key c)" if "c \<in> set cs" for c using that c by (simp add: charges_ok_def)
  have avail: "map (\<lambda>(key, c). case script_available t st key c of (tokens, u) \<Rightarrow> (key, c, tokens, u)) (map (\<lambda>c. (ns @ '':'' @ bc_key c, c)) cs)
      = map (\<lambda>c. (ns @ '':'' @ bc_key c, c, lv c, t)) cs"
    using script_available_level [OF v] sp by (auto simp: lv_def)
  have al: "list_all (\<lambda>(key, c, tokens, u). \<not> (bc_amount c > 0 \<and> tokens + SLACK < bc_amount c)) (map (\<lambda>c. (ns @ '':'' @ bc_key c, c, lv c, t)) cs) = al"
    by (auto simp: al_def redis_allowed_def lv_def admits_def list_all_iff not_le not_less)
  obtain out1 st1 where s: "script_settle al t (map (\<lambda>c. (ns @ '':'' @ bc_key c, c, lv c, t)) cs) st = (out1, st1)" by force
  have b: "0 \<le> lv c \<and> lv c \<le> bs_capacity (bc_spec c)" if "c \<in> set cs" for c
    using redis_level_bounds [OF specs v, of "bc_key c"] sp [OF that] by (simp add: lv_def)
  have res: "st' = st1" "out = (if al then 1 else 0) # out1"
    using eq s unfolding run_script_def Let_def avail al by simp_all
  note s' = script_settle_levels [OF s v c specs b]
  show "redis_valid ns spec_of st' t" using s' res by simp
  show "out = (if al then 1 else 0) # concat (map (\<lambda>c. [if al then debited c (lv c) else lv c, script_retry c (lv c)]) cs)"
    using s' res by simp
  show "\<And>k. redis_level ns spec_of st' k t =
      (case charge_for cs k of None \<Rightarrow> redis_level ns spec_of st k t | Some c \<Rightarrow> if al then debited c (lv c) else lv c)"
    using s' res by simp
qed

lemma parse_pairs_flag: "parse_pairs a cs raw = Inr rs \<Longrightarrow> length rs = length cs \<and> list_all (\<lambda>r. br_allowed r = a) rs"
  by (induction a cs raw arbitrary: rs rule: parse_pairs.induct) (auto simp: bind_res_eq_Inr split: if_splits)

lemma parse_reply_refused:
  assumes "hd raw = Fin 0"
  shows "\<not> granted cs (parse_reply cs raw)"
proof
  assume "granted cs (parse_reply cs raw)"
  then obtain rs where rs: "parse_reply cs raw = Inr rs" "cs \<noteq> []" "list_all br_allowed rs" by (auto simp: granted_def)
  then have "parse_pairs False cs (tl raw) = Inr rs" using assms by (auto simp: parse_reply_def split: if_splits)
  from parse_pairs_flag [OF this] rs show False by (cases rs) auto
qed

text \<open>An answer of the server arrives as it was sent or not at all.\<close>

definition answered :: "redis_io \<Rightarrow> redis_io" where
  "answered io = (case io of Replied_With raw \<Rightarrow> Lost_After | _ \<Rightarrow> io)"

lemma redis_charge:
  assumes specs: "\<And>k. spec_ok (spec_of k)" and v: "redis_valid ns spec_of st t" and c: "charges_ok spec_of cs"
    and eq: "apply_redis ns (answered io) t cs st = (r, st')"
  shows "redis_valid ns spec_of st' t \<and>
      ((\<forall>k. redis_level ns spec_of st' k t = redis_level ns spec_of st k t) \<and> \<not> granted cs r
      \<or> (\<forall>c\<in>set cs. admits c (redis_level ns spec_of st (bc_key c) t))
        \<and> (\<forall>k. redis_level ns spec_of st' k t =
             (case charge_for cs k of None \<Rightarrow> redis_level ns spec_of st k t | Some c \<Rightarrow> debited c (redis_level ns spec_of st k t))))"
proof (cases "cs = [] \<or> answered io = Lost_Before")
  case True
  then have "st' = st" "\<not> granted cs r" using eq by (auto simp: apply_redis_def granted_def Let_def split: if_splits)
  then show ?thesis using v by simp
next
  case False
  obtain out st1 where rs: "run_script t (map (\<lambda>c. (ns @ '':'' @ bc_key c, c)) cs) st = (out, st1)" by force
  note lv = run_script_levels [OF specs v c rs]
  have d: "distinct (map bc_key cs)" using c by (simp add: charges_ok_def)
  have st': "st' = st1" and r: "r = parse_reply cs (map Fin out) \<or> r = Inl backend_unavailable"
    using eq False d rs by (auto simp: apply_redis_def answered_def Let_def split: redis_io.splits)
  show ?thesis
  proof (cases "redis_allowed ns spec_of t cs st")
    case True
    then have "\<forall>c\<in>set cs. admits c (redis_level ns spec_of st (bc_key c) t)" by (simp add: redis_allowed_def list_all_iff)
    then show ?thesis using lv True st' by (auto dest: charge_for_SomeD split: option.splits)
  next
    case no: False
    then have "hd (map Fin out) = Fin 0" using lv(2) by simp
    from parse_reply_refused [OF this, of cs] have "\<not> granted cs r" using r by (elim disjE) (simp_all add: granted_def)
    then show ?thesis using lv no st' by (auto dest: charge_for_SomeD split: option.splits)
  qed
qed

definition charge_redis :: "string \<Rightarrow> (redis_io, redis_store) charging" where
  "charge_redis ns io t cs st = apply_redis ns (answered io) t cs st"

interpretation in_redis: rate_backend spec_of "charge_redis ns" "redis_level ns spec_of"
  "\<lambda>st t. specs_ok spec_of \<and> redis_valid ns spec_of st t"
  for ns :: string and spec_of :: "string \<Rightarrow> bucket_spec"
proof (unfold_locales, goal_cases)
  case (1 s t k)
  then show ?case by (intro redis_level_bounds) (simp_all add: specs_ok_def)
next
  case (2 s t u k)
  then have "spec_ok (spec_of k)" and v: "redis_valid ns spec_of s t" by (simp_all add: specs_ok_def)
  then show ?case
    unfolding hmget_level [OF v \<open>t \<le> u\<close>] hmget_level [OF v order_refl]
    using redis_bucket_ok [OF v] \<open>t \<le> u\<close> by (intro bucket_level_rises) auto
next
  case (3 s t u)
  then show ?case using redis_valid_later [of ns spec_of s t u] by simp
next
  case (4 s t cs e r s')
  then show ?case using redis_charge [of spec_of ns s t cs e r s'] by (auto simp: specs_ok_def charge_redis_def)
next
  case (5 s t cs e r s')
  then show ?case using redis_charge [of spec_of ns s t cs e r s'] by (auto simp: specs_ok_def charge_redis_def)
qed

end
