(* ===== verification/Dual_Limiter.thy ===== *)
theory Dual_Limiter
  imports Rate_Bound
begin

section \<open>The limiter and its token reservations\<close>

text \<open>
  The model of the limiter of \<^verbatim>\<open>aegis/proxy/rate_limiter.py\<close> over any backend: one request and a
  number of tokens are charged together, the tokens as a reservation that stream charges,
  a refund or a final count settle. A limiter is the two bucket specifications and its
  identity as an object; the backend is the charging function, with what each call meets and
  the time of the call as arguments. The locks of the code make each operation one step.
\<close>

subsection \<open>Identities\<close>

definition bucket_keys :: "string \<Rightarrow> string \<Rightarrow> string \<times> string" where
  "bucket_keys tenant_id credential_id =
     (let identity = str_nat (length tenant_id) @ '':'' @ tenant_id @ '':'' @ str_nat (length credential_id) @ '':'' @ credential_id;
          pseudonym = hexdigest (encode identity)
      in (''request:'' @ pseudonym, ''token:'' @ pseudonym))"

definition validate_identity :: "string \<Rightarrow> string \<Rightarrow> unit res" where
  "validate_identity tenant_id credential_id =
     (if strip tenant_id = [] then Inl (ValueError ''tenant_id must be a non-empty authenticated identity'')
      else if strip credential_id = [] then Inl (ValueError ''credential_id must be a non-empty authenticated identity'')
      else Inr ())"

fun whole_tokens :: "py_float \<Rightarrow> int res" where
  "whole_tokens (Fin x) = Inr (max 0 \<lfloor>x + SLACK\<rfloor>)"
| "whole_tokens Nan = Inl (ValueError ''cannot convert float NaN to integer'')"
| "whole_tokens _ = Inr 0"

subsection \<open>Decisions and reservations\<close>

record token_reservation =
  tr_limiter :: nat
  tr_tenant :: string
  tr_credential :: string
  tr_reserved :: int
  tr_charged :: int
  tr_closed :: bool

definition new_reservation :: "nat \<Rightarrow> string \<Rightarrow> string \<Rightarrow> int \<Rightarrow> token_reservation" where
  "new_reservation limiter tenant_id credential_id reserved =
     \<lparr>tr_limiter = limiter, tr_tenant = tenant_id, tr_credential = credential_id, tr_reserved = reserved,
      tr_charged = 0, tr_closed = False\<rparr>"

record rate_decision =
  rd_allowed :: bool
  rd_request_remaining :: int
  rd_token_remaining :: int
  rd_retry_after :: py_float
  rd_reservation :: "token_reservation option"

definition decision_remaining :: "rate_decision \<Rightarrow> int" where
  "decision_remaining d = min (rd_request_remaining d) (rd_token_remaining d)"

text \<open>\<open>max\<close> of two intervals as Python compares them; no backend answers NaN.\<close>

fun later_of :: "py_float \<Rightarrow> py_float \<Rightarrow> py_float" where
  "later_of (Fin x) (Fin y) = Fin (max x y)"
| "later_of Inf _ = Inf"
| "later_of _ Inf = Inf"
| "later_of NegInf y = y"
| "later_of x _ = x"

subsection \<open>The limiter\<close>

record limiter =
  lm_id :: nat
  lm_request_spec :: bucket_spec
  lm_token_spec :: bucket_spec

definition new_limiter :: "nat \<Rightarrow> int \<Rightarrow> py_float \<Rightarrow> int \<Rightarrow> py_float \<Rightarrow> limiter res" where
  "new_limiter i request_capacity request_refill token_capacity token_refill =
     bind_res (new_spec (Fin (of_int request_capacity)) request_refill) (\<lambda>rq.
     bind_res (new_spec (Fin (of_int token_capacity)) token_refill) (\<lambda>tk.
     Inr \<lparr>lm_id = i, lm_request_spec = rq, lm_token_spec = tk\<rparr>))"

definition reserve_charges :: "limiter \<Rightarrow> string \<Rightarrow> string \<Rightarrow> int \<Rightarrow> bucket_charge list" where
  "reserve_charges lm tenant_id credential_id token_count =
     (case bucket_keys tenant_id credential_id of (request_key, token_key) \<Rightarrow>
        [\<lparr>bc_key = request_key, bc_spec = lm_request_spec lm, bc_amount = 1\<rparr>,
         \<lparr>bc_key = token_key, bc_spec = lm_token_spec lm, bc_amount = of_int token_count\<rparr>])"

definition reserve_decision :: "limiter \<Rightarrow> string \<Rightarrow> string \<Rightarrow> int \<Rightarrow> bucket_result list \<Rightarrow> rate_decision res" where
  "reserve_decision lm tenant_id credential_id token_count results =
     (case results of
        [rq, tk] \<Rightarrow>
          if br_allowed rq \<noteq> br_allowed tk then Inl backend_unavailable
          else
            bind_res (whole_tokens (Fin (br_remaining rq))) (\<lambda>request_remaining.
            bind_res (whole_tokens (Fin (br_remaining tk))) (\<lambda>token_remaining.
            Inr \<lparr>rd_allowed = br_allowed rq, rd_request_remaining = request_remaining, rd_token_remaining = token_remaining,
                 rd_retry_after = later_of (br_retry_after rq) (br_retry_after tk),
                 rd_reservation = (if br_allowed rq then Some (new_reservation (lm_id lm) tenant_id credential_id token_count) else None)\<rparr>))
      | _ \<Rightarrow> Inl backend_unavailable)"

definition reserve ::
    "('e, 's) charging \<Rightarrow> limiter \<Rightarrow> 'e \<Rightarrow> rat \<Rightarrow> string \<Rightarrow> string \<Rightarrow> int \<Rightarrow> 's \<Rightarrow> rate_decision res \<times> 's" where
  "reserve backend lm e t tenant_id credential_id token_count s =
     (case validate_identity tenant_id credential_id of
        Inl x \<Rightarrow> (Inl x, s)
      | Inr _ \<Rightarrow>
          if token_count < 0 then (Inl (ValueError ''reserved token count cannot be negative''), s)
          else case backend e t (reserve_charges lm tenant_id credential_id token_count) s of
            (results, s') \<Rightarrow> (bind_res results (reserve_decision lm tenant_id credential_id token_count), s'))"

definition check_limit ::
    "('e, 's) charging \<Rightarrow> limiter \<Rightarrow> 'e \<Rightarrow> rat \<Rightarrow> string \<Rightarrow> string \<Rightarrow> int \<Rightarrow> 's \<Rightarrow> rate_decision res \<times> 's" where
  "check_limit = reserve"

definition token_charges :: "limiter \<Rightarrow> string \<Rightarrow> string \<Rightarrow> int \<Rightarrow> bucket_charge list" where
  "token_charges lm tenant_id credential_id amount =
     [\<lparr>bc_key = snd (bucket_keys tenant_id credential_id), bc_spec = lm_token_spec lm, bc_amount = of_int amount\<rparr>]"

definition token_decision :: "limiter \<Rightarrow> bucket_result list \<Rightarrow> rate_decision res" where
  "token_decision lm results =
     (case results of
        [r] \<Rightarrow>
          bind_res (whole_tokens (Fin (bs_capacity (lm_request_spec lm)))) (\<lambda>request_remaining.
          bind_res (whole_tokens (Fin (br_remaining r))) (\<lambda>token_remaining.
          Inr \<lparr>rd_allowed = br_allowed r, rd_request_remaining = request_remaining, rd_token_remaining = token_remaining,
               rd_retry_after = br_retry_after r, rd_reservation = None\<rparr>))
      | _ \<Rightarrow> Inl backend_unavailable)"

definition charge_tokens ::
    "('e, 's) charging \<Rightarrow> limiter \<Rightarrow> 'e \<Rightarrow> rat \<Rightarrow> string \<Rightarrow> string \<Rightarrow> int \<Rightarrow> 's \<Rightarrow> rate_decision res \<times> 's" where
  "charge_tokens backend lm e t tenant_id credential_id amount s =
     (case backend e t (token_charges lm tenant_id credential_id amount) s of
        (results, s') \<Rightarrow> (bind_res results (token_decision lm), s'))"

subsection \<open>Settling a reservation\<close>

definition stream_amount :: "token_reservation \<Rightarrow> int \<Rightarrow> int" where
  "stream_amount tr token_count =
     max 0 (tr_charged tr + token_count - tr_reserved tr) - max 0 (tr_charged tr - tr_reserved tr)"

definition closed_error :: exn where
  "closed_error = RuntimeError ''token reservation is already closed''"

definition charge_stream ::
    "('e, 's) charging \<Rightarrow> limiter \<Rightarrow> 'e \<Rightarrow> rat \<Rightarrow> int \<Rightarrow> token_reservation \<times> 's \<Rightarrow> rate_decision res \<times> token_reservation \<times> 's" where
  "charge_stream backend lm e t token_count = (\<lambda>(tr, s).
     if token_count < 0 then (Inl (ValueError ''stream token_count cannot be negative''), tr, s)
     else if tr_closed tr then (Inl closed_error, tr, s)
     else case charge_tokens backend lm e t (tr_tenant tr) (tr_credential tr) (stream_amount tr token_count) s of
       (Inl x, s') \<Rightarrow> (Inl x, tr, s')
     | (Inr d, s') \<Rightarrow>
         (Inr d, if rd_allowed d then tr\<lparr>tr_charged := tr_charged tr + token_count\<rparr> else tr, s'))"

definition refund ::
    "('e, 's) charging \<Rightarrow> limiter \<Rightarrow> 'e \<Rightarrow> rat \<Rightarrow> int option \<Rightarrow> token_reservation \<times> 's \<Rightarrow> rate_decision res \<times> token_reservation \<times> 's" where
  "refund backend lm e t token_count = (\<lambda>(tr, s).
     if tr_closed tr then (Inl closed_error, tr, s)
     else
       let used = (case token_count of None \<Rightarrow> tr_charged tr | Some n \<Rightarrow> n) in
       if used < 0 then (Inl (ValueError ''used token count cannot be negative''), tr, s)
       else if used < tr_charged tr then (Inl (ValueError ''used token count cannot be below observed streamed usage''), tr, s)
       else case charge_tokens backend lm e t (tr_tenant tr) (tr_credential tr) (- max 0 (tr_reserved tr - min used (tr_reserved tr))) s of
         (Inl x, s') \<Rightarrow> (Inl x, tr, s')
       | (Inr d, s') \<Rightarrow> (Inr d, tr\<lparr>tr_closed := True\<rparr>, s'))"

definition finalize_reservation ::
    "('e, 's) charging \<Rightarrow> limiter \<Rightarrow> 'e \<Rightarrow> rat \<Rightarrow> int \<Rightarrow> token_reservation \<times> 's \<Rightarrow> rate_decision res \<times> token_reservation \<times> 's" where
  "finalize_reservation backend lm e t actual_tokens = (\<lambda>(tr, s).
     if actual_tokens < 0 then (Inl (ValueError ''actual token count cannot be negative''), tr, s)
     else if tr_closed tr then (Inl closed_error, tr, s)
     else if actual_tokens < tr_charged tr then (Inl (ValueError ''actual token count cannot be below observed streamed usage''), tr, s)
     else case charge_tokens backend lm e t (tr_tenant tr) (tr_credential tr) (actual_tokens - max (tr_reserved tr) (tr_charged tr)) s of
       (Inl x, s') \<Rightarrow> (Inl x, tr, s')
     | (Inr d, s') \<Rightarrow>
         (Inr d, if rd_allowed d then tr\<lparr>tr_charged := actual_tokens, tr_closed := True\<rparr> else tr, s'))"

text \<open>The limiter's own entry points check that the reservation is its own.\<close>

definition limiter_charge_stream ::
    "('e, 's) charging \<Rightarrow> limiter \<Rightarrow> 'e \<Rightarrow> rat \<Rightarrow> int \<Rightarrow> token_reservation \<times> 's \<Rightarrow> rate_decision res \<times> token_reservation \<times> 's" where
  "limiter_charge_stream backend lm e t token_count trs =
     (if tr_limiter (fst trs) \<noteq> lm_id lm then (Inl (ValueError ''reservation belongs to a different rate limiter''), trs)
      else charge_stream backend lm e t token_count trs)"

definition limiter_refund ::
    "('e, 's) charging \<Rightarrow> limiter \<Rightarrow> 'e \<Rightarrow> rat \<Rightarrow> int option \<Rightarrow> token_reservation \<times> 's \<Rightarrow> rate_decision res \<times> token_reservation \<times> 's" where
  "limiter_refund backend lm e t token_count trs =
     (if tr_limiter (fst trs) \<noteq> lm_id lm then (Inl (ValueError ''reservation belongs to a different rate limiter''), trs)
      else refund backend lm e t token_count trs)"

subsection \<open>The identities are unambiguous\<close>

lemma colon_sep: "CHR '':'' \<notin> set (str_nat n)"
  using str_nat_digits [of "CHR '':''" n] by (auto simp: digits_def)

text \<open>Two identities share buckets only through a collision of the hash.\<close>

lemma bucket_keys_inject:
  assumes "fst (bucket_keys t c) = fst (bucket_keys t' c') \<or> snd (bucket_keys t c) = snd (bucket_keys t' c')"
  shows "(t, c) = (t', c') \<or> (\<exists>x y. x \<noteq> y \<and> sha256 x = sha256 y)"
proof (rule disjCI)
  assume no: "\<nexists>x y. x \<noteq> y \<and> sha256 x = sha256 y"
  let ?id = "\<lambda>t c. str_nat (length t) @ '':'' @ t @ '':'' @ str_nat (length c) @ '':'' @ c"
  have "sha256 (encode (?id t c)) = sha256 (encode (?id t' c'))"
    using assms by (auto simp: bucket_keys_def Let_def hexdigest_eq_iff simp del: encode_append)
  with no have eq: "?id t c = ?id t' c'" by (metis encode_inj)
  then have "str_nat (length t) @ CHR '':'' # (t @ '':'' @ str_nat (length c) @ '':'' @ c)
      = str_nat (length t') @ CHR '':'' # (t' @ '':'' @ str_nat (length c') @ '':'' @ c')" by simp
  from sep_split [OF this colon_sep colon_sep] have l: "str_nat (length t) = str_nat (length t')"
    and r: "t @ '':'' @ str_nat (length c) @ '':'' @ c = t' @ '':'' @ str_nat (length c') @ '':'' @ c'" by simp_all
  from l have "length t = length t'" by simp
  with r have "t = t'" and "str_nat (length c) @ CHR '':'' # c = str_nat (length c') @ CHR '':'' # c'" by simp_all
  with sep_split [OF this(2) colon_sep colon_sep] show "(t, c) = (t', c')" by simp
qed

subsection \<open>Requests and tokens admitted in a window\<close>

text \<open>The specification of every key the limiter makes.\<close>

definition limiter_spec :: "limiter \<Rightarrow> string \<Rightarrow> bucket_spec" where
  "limiter_spec lm k = (if take 8 k = ''request:'' then lm_request_spec lm else lm_token_spec lm)"

lemma limiter_spec_ok: "new_limiter i rc rr tc tr = Inr lm \<Longrightarrow> specs_ok (limiter_spec lm)"
  by (auto simp: new_limiter_def bind_res_eq_Inr specs_ok_def limiter_spec_def dest: new_spec_ok)

lemma limiter_spec_keys [simp]:
  "limiter_spec lm (fst (bucket_keys tn cr)) = lm_request_spec lm"
  "limiter_spec lm (snd (bucket_keys tn cr)) = lm_token_spec lm"
  by (simp_all add: limiter_spec_def bucket_keys_def Let_def)

lemma keys_differ: "fst (bucket_keys tn cr) \<noteq> snd (bucket_keys tn' cr')"
  by (simp add: bucket_keys_def Let_def)

lemma reserve_charges_ok: "charges_ok (limiter_spec lm) (reserve_charges lm tn cr n)"
  by (cases "bucket_keys tn cr") (use limiter_spec_keys [of lm tn cr] keys_differ [of tn cr tn cr] in
    \<open>simp add: reserve_charges_def charges_ok_def\<close>)

lemma token_charges_ok: "charges_ok (limiter_spec lm) (token_charges lm tn cr n)"
  by (simp add: token_charges_def charges_ok_def)

text \<open>
  The calls that reach the backend: a request, or a charge or refund of a reservation. Each
  call carries what it meets and its time.
\<close>

datatype limiter_call = Reserve string string int | Charge string string int

type_synonym 'e limiter_calls = "('e \<times> rat \<times> limiter_call) list"

fun call_step :: "('e, 's) charging \<Rightarrow> limiter \<Rightarrow> 'e \<Rightarrow> rat \<Rightarrow> limiter_call \<Rightarrow> 's \<Rightarrow> rate_decision res \<times> 's" where
  "call_step backend lm e t (Reserve tn cr n) s = reserve backend lm e t tn cr n s"
| "call_step backend lm e t (Charge tn cr n) s = charge_tokens backend lm e t tn cr n s"

fun call_run :: "('e, 's) charging \<Rightarrow> limiter \<Rightarrow> 'e limiter_calls \<Rightarrow> 's \<Rightarrow> 's" where
  "call_run backend lm [] s = s"
| "call_run backend lm ((e, t, c) # cs) s = call_run backend lm cs (snd (call_step backend lm e t c s))"

fun call_times :: "rat \<Rightarrow> 'e limiter_calls \<Rightarrow> rat \<Rightarrow> bool" where
  "call_times t0 [] t1 \<longleftrightarrow> t0 \<le> t1"
| "call_times t0 ((e, t, c) # cs) t1 \<longleftrightarrow> t0 \<le> t \<and> call_times t cs t1"

definition admits_request :: "string \<Rightarrow> string \<Rightarrow> limiter_call \<Rightarrow> rate_decision res \<Rightarrow> bool" where
  "admits_request tn cr c r \<longleftrightarrow>
     (case c of Reserve tn' cr' _ \<Rightarrow> tn' = tn \<and> cr' = cr | Charge _ _ _ \<Rightarrow> False)
     \<and> (case r of Inr d \<Rightarrow> rd_allowed d | Inl _ \<Rightarrow> False)"

text \<open>How many requests of an identity a sequence of calls admits.\<close>

fun admitted :: "('e, 's) charging \<Rightarrow> limiter \<Rightarrow> string \<Rightarrow> string \<Rightarrow> 'e limiter_calls \<Rightarrow> 's \<Rightarrow> nat" where
  "admitted backend lm tn cr [] s = 0"
| "admitted backend lm tn cr ((e, t, c) # cs) s =
     (case call_step backend lm e t c s of
        (r, s') \<Rightarrow> (if admits_request tn cr c r then 1 else 0) + admitted backend lm tn cr cs s')"

text \<open>The transaction a call makes, if it gets that far.\<close>

fun call_tx :: "limiter \<Rightarrow> limiter_call \<Rightarrow> bucket_charge list option" where
  "call_tx lm (Reserve tn cr n) =
     (if validate_identity tn cr = Inr () \<and> 0 \<le> n then Some (reserve_charges lm tn cr n) else None)"
| "call_tx lm (Charge tn cr n) = Some (token_charges lm tn cr n)"

lemma call_tx_ok: "call_tx lm c = Some cs \<Longrightarrow> charges_ok (limiter_spec lm) cs"
  by (cases c) (auto simp: reserve_charges_ok token_charges_ok split: if_splits)

lemma call_step_tx:
  "snd (call_step backend lm e t c s) = (case call_tx lm c of None \<Rightarrow> s | Some cs \<Rightarrow> snd (backend e t cs s))"
  by (cases c)
    (auto simp: reserve_def charge_tokens_def Let_def split: sum.splits prod.splits list.splits if_splits)

lemma request_amounts:
  "amount_for (reserve_charges lm tn cr n) (fst (bucket_keys tn' cr')) = (if fst (bucket_keys tn cr) = fst (bucket_keys tn' cr') then 1 else 0)"
  "amount_for (token_charges lm tn cr n) (fst (bucket_keys tn' cr')) = 0"
  using keys_differ [of tn' cr' tn cr] keys_differ [of tn' cr' tn cr, symmetric]
  by (auto simp: amount_for_def charge_for_def reserve_charges_def token_charges_def split: prod.splits)

lemma reserve_decision_Inr:
  assumes "reserve_decision lm tn cr n rs = Inr d"
  shows "\<exists>rq tk. rs = [rq, tk] \<and> br_allowed rq = br_allowed tk \<and> rd_allowed d = br_allowed rq
    \<and> rd_reservation d = (if br_allowed rq then Some (new_reservation (lm_id lm) tn cr n) else None)"
proof -
  obtain rq tk where "rs = [rq, tk]" using assms by (auto simp: reserve_decision_def split: list.splits)
  then show ?thesis using assms by (auto simp: reserve_decision_def split: if_splits)
qed

lemma reserve_decision_allowed:
  assumes "bind_res r (reserve_decision lm tn cr n) = Inr d" "rd_allowed d"
  shows "granted (reserve_charges lm tn cr n) r \<and> rd_reservation d = Some (new_reservation (lm_id lm) tn cr n)"
  using assms by (auto simp: bind_res_eq_Inr granted_def reserve_charges_def dest!: reserve_decision_Inr split: prod.splits)

lemma reserve_reserved_allowed:
  assumes "bind_res r (reserve_decision lm tn cr n) = Inr d" "rd_reservation d = Some tr"
  shows "rd_allowed d"
  using assms by (auto simp: bind_res_eq_Inr dest!: reserve_decision_Inr split: if_splits)

lemma reserve_charged:
  assumes "reserve backend lm e t tn cr n s = (Inr d, s')"
  shows "0 \<le> n \<and> (\<exists>r. backend e t (reserve_charges lm tn cr n) s = (r, s') \<and> bind_res r (reserve_decision lm tn cr n) = Inr d)"
  using assms by (auto simp: reserve_def split: sum.splits if_splits prod.splits)

lemma reserve_granted:
  assumes "reserve backend lm e t tn cr n s = (Inr d, s')" "rd_allowed d" "backend e t (reserve_charges lm tn cr n) s = (r, s')"
  shows "granted (reserve_charges lm tn cr n) r"
  using reserve_charged [OF assms(1)] reserve_decision_allowed assms(2,3) by auto

lemma taken_request_nonneg: "call_tx lm c = Some cs \<Longrightarrow> 0 \<le> taken cs r (fst (bucket_keys tn cr))"
  by (cases c) (auto simp: taken_def request_amounts split: if_splits)

lemma admits_request_taken:
  assumes step: "call_step backend lm e t c s = (d, s')" and tx: "call_tx lm c = Some cs" and b: "backend e t cs s = (r, s'')"
  shows "(if admits_request tn cr c d then 1 else 0) \<le> taken cs r (fst (bucket_keys tn cr))"
proof (cases "admits_request tn cr c d")
  case True
  then obtain n d' where c: "c = Reserve tn cr n" and d: "d = Inr d'" "rd_allowed d'"
    by (auto simp: admits_request_def split: limiter_call.splits sum.splits)
  have cs: "cs = reserve_charges lm tn cr n" using tx c by (simp split: if_splits)
  have "s'' = s'" using call_step_tx [of backend lm e t c s] step tx b by simp
  then have "granted cs r" using reserve_granted [of backend lm e t tn cr n s d' s' r] step c d b cs by simp
  then show ?thesis by (simp add: taken_def cs request_amounts True)
next
  case False
  then show ?thesis using taken_request_nonneg [OF tx] by simp
qed

text \<open>A limiter on a backend that keeps its contract.\<close>

locale limited = rate_backend "limiter_spec lm" charge level valid
  for lm :: limiter
    and charge :: "'e \<Rightarrow> rat \<Rightarrow> bucket_charge list \<Rightarrow> 's \<Rightarrow> bucket_result list res \<times> 's"
    and level :: "'s \<Rightarrow> string \<Rightarrow> rat \<Rightarrow> rat"
    and valid :: "'s \<Rightarrow> rat \<Rightarrow> bool"
begin

lemma call_valid:
  assumes "valid s t"
  shows "valid (snd (call_step charge lm e t c s)) t"
proof (cases "call_tx lm c")
  case None
  then show ?thesis using assms by (simp add: call_step_tx)
next
  case (Some cs)
  obtain r s' where "charge e t cs s = (r, s')" by force
  with charge_valid [OF assms call_tx_ok [OF Some] this] Some show ?thesis by (simp add: call_step_tx)
qed

lemma call_run_valid: "valid s t0 \<Longrightarrow> call_times t0 cs t1 \<Longrightarrow> valid (call_run charge lm cs s) t1"
proof (induction cs arbitrary: s t0)
  case Nil
  then show ?case using valid_later by simp
next
  case (Cons x cs)
  then show ?case by (cases x) (auto intro!: Cons.IH call_valid intro: valid_later)
qed

lemma call_bound:
  assumes v: "valid s t" and eq: "call_step charge lm e t c s = (d, s')"
  shows "level s' (fst (bucket_keys tn cr)) t + (if admits_request tn cr c d then 1 else 0)
    \<le> level s (fst (bucket_keys tn cr)) t + SLACK"
proof (cases "call_tx lm c")
  case None
  then have "s' = s" "\<not> admits_request tn cr c d" using eq call_step_tx [of charge lm e t c s]
    by (auto simp: admits_request_def reserve_def split: limiter_call.splits sum.splits if_splits)
  then show ?thesis by (simp add: SLACK_def)
next
  case (Some cs)
  obtain r s'' where b: "charge e t cs s = (r, s'')" by force
  then have s: "s'' = s'" using call_step_tx [of charge lm e t c s] eq Some by simp
  show ?thesis
    using charge_bound [OF v call_tx_ok [OF Some] b, of "fst (bucket_keys tn cr)"] admits_request_taken [OF eq Some b, of tn cr] s
    by (simp split: if_splits)
qed

lemma admitted_bound:
  assumes "valid s t0" "call_times t0 cs t1"
  shows "of_nat (admitted charge lm tn cr cs s)
    \<le> level s (fst (bucket_keys tn cr)) t0 + (t1 - t0) * bs_refill (lm_request_spec lm) + of_nat (length cs) * SLACK"
proof -
  let ?k = "fst (bucket_keys tn cr)"
  have "of_nat (admitted charge lm tn cr cs s) + level (call_run charge lm cs s) ?k t1
      \<le> level s ?k t0 + (t1 - t0) * bs_refill (lm_request_spec lm) + of_nat (length cs) * SLACK"
    using assms
  proof (induction cs arbitrary: s t0)
    case Nil
    then show ?case using level_rises [of s t0 t1 ?k] risen_le(2) by simp
  next
    case (Cons x cs)
    obtain e t c where x: "x = (e, t, c)" by (metis prod_cases3)
    obtain d s' where eq: "call_step charge lm e t c s = (d, s')" by force
    have le: "t0 \<le> t" and tm: "call_times t cs t1" using Cons.prems(2) x by simp_all
    have v: "valid s t" using valid_later [OF Cons.prems(1) le] .
    have v': "valid s' t" using call_valid [OF v, of e c] eq by simp
    have "level s ?k t \<le> level s ?k t0 + (t - t0) * bs_refill (lm_request_spec lm)"
      using level_rises [OF Cons.prems(1) le, of ?k] risen_le(2) by simp
    moreover note call_bound [OF v eq, of tn cr] Cons.IH [OF v' tm]
    ultimately show ?case by (cases "admits_request tn cr c d") (simp_all add: x eq algebra_simps)
  qed
  moreover have "0 \<le> level (call_run charge lm cs s) ?k t1"
    using level_bounds [OF call_run_valid [OF assms]] by blast
  ultimately show ?thesis by linarith
qed

text \<open>From any state on: a full bucket, and what the window refills.\<close>

lemma window_bound:
  assumes "valid s t" "call_times t before t0" "call_times t0 during t1"
  shows "of_nat (admitted charge lm tn cr during (call_run charge lm before s))
    \<le> bs_capacity (lm_request_spec lm) + (t1 - t0) * bs_refill (lm_request_spec lm) + of_nat (length during) * SLACK"
proof -
  have v: "valid (call_run charge lm before s) t0" by (rule call_run_valid [OF assms(1,2)])
  show ?thesis
    using admitted_bound [OF v assms(3), of tn cr] level_bounds [OF v, of "fst (bucket_keys tn cr)"] by simp
qed

end

interpretation local_limited: limited lm charge_local "local_level (limiter_spec lm)"
  "\<lambda>lb t. specs_ok (limiter_spec lm) \<and> local_valid (limiter_spec lm) lb t" for lm :: limiter
  by (intro limited.intro in_process.rate_backend_axioms)

interpretation redis_limited: limited lm "charge_redis ns" "redis_level ns (limiter_spec lm)"
  "\<lambda>st t. specs_ok (limiter_spec lm) \<and> redis_valid ns (limiter_spec lm) st t" for ns :: string and lm :: limiter
  by (intro limited.intro in_redis.rate_backend_axioms)

text \<open>
  C16. Over a backend that starts empty, in process or in Redis, the requests of an identity
  admitted in a window of time are at most a full bucket, what the window refills, and the
  admission slack of each call in it, whatever calls came before, whatever other identities
  do, whatever is evicted or expires, and whichever answers of Redis are lost.
\<close>

theorem requests_bounded:
  assumes "new_limiter i rc rr tc tr = Inr lm" and "new_local m = Inr lb"
    and "call_times t before t0" "call_times t0 during t1"
    and "call_times t before' t0" "call_times t0 during' t1"
  shows "of_nat (admitted charge_local lm tn cr during (call_run charge_local lm before lb))
      \<le> of_int rc + (t1 - t0) * bs_refill (lm_request_spec lm) + of_nat (length during) * SLACK
    \<and> of_nat (admitted (charge_redis ns) lm tn cr during' (call_run (charge_redis ns) lm before' Map.empty))
      \<le> of_int rc + (t1 - t0) * bs_refill (lm_request_spec lm) + of_nat (length during') * SLACK"
proof (intro conjI)
  have ok: "specs_ok (limiter_spec lm)" using limiter_spec_ok [OF assms(1)] .
  have c: "bs_capacity (lm_request_spec lm) = of_int rc"
    using assms(1) by (auto simp: new_limiter_def bind_res_eq_Inr new_spec_def split: if_splits py_float.splits)
  have "local_valid (limiter_spec lm) lb t" using assms(2) by (auto simp: new_local_def local_valid_def table_ok_def split: if_splits)
  then show "of_nat (admitted charge_local lm tn cr during (call_run charge_local lm before lb))
      \<le> of_int rc + (t1 - t0) * bs_refill (lm_request_spec lm) + of_nat (length during) * SLACK"
    using local_limited.window_bound [of lm lb t before t0 during t1 tn cr] ok assms(3,4) by (simp add: c)
  have "redis_valid ns (limiter_spec lm) Map.empty t" by (simp add: redis_valid_def)
  then show "of_nat (admitted (charge_redis ns) lm tn cr during' (call_run (charge_redis ns) lm before' Map.empty))
      \<le> of_int rc + (t1 - t0) * bs_refill (lm_request_spec lm) + of_nat (length during') * SLACK"
    using redis_limited.window_bound [of lm ns Map.empty t before' t0 during' t1 tn cr] ok assms(5,6) by (simp add: c)
qed

text \<open>A limiter of one request, refilled once in two seconds, called twice within a second.\<close>

theorem requests_bounded_witness:
  "of_nat (admitted charge_local \<lparr>lm_id = 0, lm_request_spec = \<lparr>bs_capacity = 1, bs_refill = 1 / 2\<rparr>, lm_token_spec = \<lparr>bs_capacity = 1, bs_refill = 0\<rparr>\<rparr>
        ''a'' ''b'' [((), 0, Reserve ''a'' ''b'' 0), ((), 1, Reserve ''a'' ''b'' 0)]
        (call_run charge_local \<lparr>lm_id = 0, lm_request_spec = \<lparr>bs_capacity = 1, bs_refill = 1 / 2\<rparr>, lm_token_spec = \<lparr>bs_capacity = 1, bs_refill = 0\<rparr>\<rparr> []
          \<lparr>lb_max_buckets = 2, lb_buckets = []\<rparr>))
      \<le> (of_int 1 + (1 - 0) * (1 / 2) + of_nat 2 * SLACK :: rat)"
  using requests_bounded [of 0 1 "Fin (1 / 2)" 1 "Fin 0"
      "\<lparr>lm_id = 0, lm_request_spec = \<lparr>bs_capacity = 1, bs_refill = 1 / 2\<rparr>, lm_token_spec = \<lparr>bs_capacity = 1, bs_refill = 0\<rparr>\<rparr>"
      2 "\<lparr>lb_max_buckets = 2, lb_buckets = []\<rparr>" 0 "[]" 0 "[((), 0, Reserve ''a'' ''b'' 0), ((), 1, Reserve ''a'' ''b'' 0)]" 1 "[]" "[]" "''a''" "''b''" "''n''"]
  by (simp add: new_limiter_def new_spec_def new_local_def bind_res_def)

subsection \<open>A reservation is settled exactly\<close>

text \<open>
  A backend with a meter on one bucket. The meter counts what the backend executed, whether or
  not its answer arrived: the net amount debited, and of it the part whose answer was lost.
  \<open>executed\<close> says which transactions take effect.
\<close>

type_synonym ('e, 's) execution = "'e \<Rightarrow> rat \<Rightarrow> bucket_charge list \<Rightarrow> 's \<Rightarrow> bool"

definition metered :: "('e, 's) execution \<Rightarrow> string \<Rightarrow> ('e, 's) charging \<Rightarrow> ('e, 's \<times> rat \<times> rat) charging" where
  "metered executed k backend e t cs = (\<lambda>(s, x, lost).
     case backend e t cs s of (r, s') \<Rightarrow>
       let a = (if executed e t cs s then amount_for cs k else 0)
       in (r, s', x + a, lost + (case r of Inl _ \<Rightarrow> a | Inr _ \<Rightarrow> 0)))"

text \<open>
  In process a transaction takes effect exactly when the answer grants it; in Redis when the
  script runs and its own reply grants it, whatever comes back over the network.
\<close>

definition local_executed :: "(unit, local_backend) execution" where
  "local_executed u t cs lb \<longleftrightarrow> granted cs (fst (charge_local u t cs lb))"

definition redis_executed :: "string \<Rightarrow> (redis_io, redis_store) execution" where
  "redis_executed ns io t cs st \<longleftrightarrow>
     cs \<noteq> [] \<and> distinct (map bc_key cs) \<and> answered io \<noteq> Lost_Before
     \<and> hd (fst (run_script t (map (\<lambda>c. (ns @ '':'' @ bc_key c, c)) cs) st)) = 1"

datatype reservation_op = Stream int | Refund "int option" | Finalize int

fun reservation_step ::
    "('e, 's) charging \<Rightarrow> limiter \<Rightarrow> 'e \<Rightarrow> rat \<Rightarrow> reservation_op \<Rightarrow> token_reservation \<times> 's \<Rightarrow> rate_decision res \<times> token_reservation \<times> 's" where
  "reservation_step backend lm e t (Stream n) = charge_stream backend lm e t n"
| "reservation_step backend lm e t (Refund n) = refund backend lm e t n"
| "reservation_step backend lm e t (Finalize n) = finalize_reservation backend lm e t n"

fun reservation_run ::
    "('e, 's) charging \<Rightarrow> limiter \<Rightarrow> ('e \<times> rat \<times> reservation_op) list \<Rightarrow> token_reservation \<times> 's \<Rightarrow> token_reservation \<times> 's" where
  "reservation_run backend lm [] trs = trs"
| "reservation_run backend lm ((e, t, op) # ops) trs = reservation_run backend lm ops (snd (reservation_step backend lm e t op trs))"

lemma token_amounts:
  "amount_for (reserve_charges lm tn cr n) (snd (bucket_keys tn cr)) = of_int n"
  "amount_for (token_charges lm tn cr n) (snd (bucket_keys tn cr)) = of_int n"
  using keys_differ [of tn cr tn cr]
  by (auto simp: amount_for_def charge_for_def reserve_charges_def token_charges_def split: prod.splits)

lemma length_reserve_charges: "length (reserve_charges lm tn cr n) = 2"
  by (simp add: reserve_charges_def split: prod.splits)

lemma length_token_charges: "length (token_charges lm tn cr n) = 1"
  by (simp add: token_charges_def)

lemma token_decision_allowed:
  assumes "bind_res r (token_decision lm) = Inr d"
  shows "rd_allowed d \<longleftrightarrow> granted (token_charges lm tn cr n) r"
proof -
  obtain rs where r: "r = Inr rs" and rs: "token_decision lm rs = Inr d" using assms by (auto simp: bind_res_eq_Inr)
  then obtain a where "rs = [a]" by (auto simp: token_decision_def split: list.splits)
  then show ?thesis using r rs by (auto simp: token_decision_def granted_def token_charges_def)
qed

lemma token_decision_refused:
  assumes "bind_res r (token_decision lm) = Inl z"
  shows "\<not> granted (token_charges lm tn cr n) r"
proof
  assume "granted (token_charges lm tn cr n) r"
  then obtain a where "r = Inr [a]" by (auto simp: granted_def token_charges_def length_Suc_conv)
  then show False using assms by (simp add: token_decision_def)
qed

text \<open>
  What an open reservation has been debited with an answer: its reservation, or the observed
  usage above it.
\<close>

definition paid :: "token_reservation \<Rightarrow> rat \<Rightarrow> rat \<Rightarrow> bool" where
  "paid tr x lost \<longleftrightarrow> tr_closed tr \<or> x - lost = of_int (max (tr_reserved tr) (tr_charged tr))"

definition same_identity :: "token_reservation \<Rightarrow> token_reservation \<Rightarrow> bool" where
  "same_identity tr tr' \<longleftrightarrow> tr_tenant tr' = tr_tenant tr \<and> tr_credential tr' = tr_credential tr"

lemma stream_amount_max:
  "max (tr_reserved tr) (tr_charged tr) + stream_amount tr n = max (tr_reserved tr) (tr_charged tr + n)"
  by (auto simp: stream_amount_def max_def)

lemma refund_closes:
  assumes "refund backend lm e t n (tr, s) = (r, tr', s')"
  shows "same_identity tr tr' \<and> (tr_closed tr' \<or> tr' = tr \<and> (\<exists>z. r = Inl z))"
  using assms by (auto simp: refund_def same_identity_def Let_def split: sum.splits if_splits prod.splits)

text \<open>
  One request from its reservation to its final count: the reservation, the operations on it,
  and the final count; the result when the reservation is admitted and the final count accepted.
\<close>

definition settlement ::
    "('e, 's) execution \<Rightarrow> ('e, 's) charging \<Rightarrow> limiter \<Rightarrow> string \<Rightarrow> string \<Rightarrow> 'e \<times> rat \<times> int \<Rightarrow> ('e \<times> rat \<times> reservation_op) list
      \<Rightarrow> 'e \<times> rat \<times> int \<Rightarrow> 's \<Rightarrow> (token_reservation \<times> 's \<times> rat \<times> rat) option" where
  "settlement executed backend lm tenant_id credential_id = (\<lambda>(e, t, token_count) ops (e', t', actual_tokens) s.
     let meter = metered executed (snd (bucket_keys tenant_id credential_id)) backend in
     (case reserve meter lm e t tenant_id credential_id token_count (s, 0, 0) of
        (Inr d, m) \<Rightarrow>
          (case rd_reservation d of
             None \<Rightarrow> None
           | Some tr \<Rightarrow>
               (case finalize_reservation meter lm e' t' actual_tokens (reservation_run meter lm ops (tr, m)) of
                  (Inr d', trs) \<Rightarrow> if rd_allowed d' then Some trs else None
                | _ \<Rightarrow> None))
      | _ \<Rightarrow> None))"

text \<open>What the backend keeps, every operation keeps.\<close>

lemma settlement_keeps:
  assumes keeps: "\<And>e t cs s. P s \<Longrightarrow> P (snd (metered executed (snd (bucket_keys tn cr)) backend e t cs s))"
    and P: "P (s, 0, 0)" and eq: "settlement executed backend lm tn cr start ops final s = Some (tr, m)"
  shows "P m"
proof -
  let ?b = "metered executed (snd (bucket_keys tn cr)) backend"
  have ct: "P (snd (charge_tokens ?b lm e t a c n s))" if "P s" for e t a c n s
    using keeps [OF that] by (simp add: charge_tokens_def case_prod_beta)
  have ct': "charge_tokens ?b lm e t a c n s = (r, s') \<Longrightarrow> P s \<Longrightarrow> P s'" for e t a c n s r s'
    using ct [of s e t a c n] by simp
  have fin: "P (snd (snd (finalize_reservation ?b lm e t n (tr, s))))" if "P s" for e t n tr s
    using that by (auto simp: finalize_reservation_def dest!: ct' split: prod.splits sum.splits)
  have st: "P (snd (snd (reservation_step ?b lm e t op (tr, s))))" if "P s" for e t op tr s
    using that fin by (cases op) (auto simp: charge_stream_def refund_def Let_def dest!: ct' split: prod.splits sum.splits)
  have run: "P (snd (reservation_run ?b lm ops (tr, s)))" if "P s" for tr s
    using that
  proof (induction ops arbitrary: tr s)
    case (Cons y ops)
    obtain e t op where y: "y = (e, t, op)" by (metis prod_cases3)
    obtain r tr1 s1 where "reservation_step ?b lm e t op (tr, s) = (r, tr1, s1)" by (metis prod_cases3)
    then show ?case using st [OF Cons.prems, of e t op tr] Cons.IH y by simp
  qed simp
  obtain e t n where start: "start = (e, t, n)" by (metis prod_cases3)
  obtain e' t' n' where final: "final = (e', t', n')" by (metis prod_cases3)
  have res: "P (snd (reserve ?b lm e t tn cr n (s, 0, 0)))"
    using P keeps [OF P] by (simp add: reserve_def case_prod_beta split: sum.split)
  obtain d m0 where r: "reserve ?b lm e t tn cr n (s, 0, 0) = (Inr d, m0)" using eq
    by (auto simp: settlement_def start final Let_def split: prod.splits sum.splits)
  then obtain tr0 where tr0: "rd_reservation d = Some tr0" using eq
    by (auto simp: settlement_def start final Let_def split: option.splits)
  obtain tr1 m1 where r1: "reservation_run ?b lm ops (tr0, m0) = (tr1, m1)" by (rule prod.exhaust)
  have "snd (finalize_reservation ?b lm e' t' n' (tr1, m1)) = (tr, m)"
    using eq by (auto simp: settlement_def start final Let_def r tr0 r1 split: prod.splits sum.splits if_splits)
  then show ?thesis using fin [of m1 e' t' n' tr1] run [of m0 tr0] res r r1 by simp
qed

text \<open>A backend that answers truly: a transaction it answers took effect exactly when the answer grants it.\<close>

locale truthful =
  fixes charge :: "'e \<Rightarrow> rat \<Rightarrow> bucket_charge list \<Rightarrow> 's \<Rightarrow> bucket_result list res \<times> 's"
    and executed :: "'e \<Rightarrow> rat \<Rightarrow> bucket_charge list \<Rightarrow> 's \<Rightarrow> bool"
  assumes answers: "charge e t cs s = (Inr rs, s') \<Longrightarrow> executed e t cs s \<longleftrightarrow> granted cs (Inr rs)"
begin

lemma metered_answered:
  assumes "metered executed k charge e t cs (s, x, l) = (r, s', x', l')"
  shows "x' - l' = x - l + (if granted cs r then amount_for cs k else 0)"
proof -
  obtain q s1 where b: "charge e t cs s = (q, s1)" by force
  then show ?thesis using assms answers [of e t cs s _ s1]
    by (cases q) (auto simp: metered_def Let_def granted_def)
qed

lemma charge_tokens_metered:
  assumes "charge_tokens (metered executed (snd (bucket_keys tn cr)) charge) lm e t tn cr n (s, x, l) = (r, s', x', l')"
  shows "x' - l' = x - l + (case r of Inr d \<Rightarrow> if rd_allowed d then of_int n else 0 | Inl _ \<Rightarrow> 0)"
proof -
  obtain q where m: "metered executed (snd (bucket_keys tn cr)) charge e t (token_charges lm tn cr n) (s, x, l) = (q, s', x', l')"
    and r: "r = bind_res q (token_decision lm)" using assms by (auto simp: charge_tokens_def split: prod.splits)
  have x: "x' - l' = x - l + (if granted (token_charges lm tn cr n) q then of_int n else 0)"
    using metered_answered [OF m] by (simp add: token_amounts)
  show ?thesis
    by (cases r) (use x r [symmetric] token_decision_refused token_decision_allowed in simp_all)
qed

lemma charge_stream_paid:
  assumes k: "k = snd (bucket_keys (tr_tenant tr) (tr_credential tr))"
    and eq: "charge_stream (metered executed k charge) lm e t n (tr, s, x, l) = (r, tr', s', x', l')" and p: "paid tr x l"
  shows "paid tr' x' l' \<and> same_identity tr tr'"
proof (cases "n < 0 \<or> tr_closed tr")
  case True
  with eq p show ?thesis by (auto simp: charge_stream_def same_identity_def split: if_splits)
next
  case False
  obtain q s1 x1 l1 where c: "charge_tokens (metered executed k charge) lm e t (tr_tenant tr) (tr_credential tr) (stream_amount tr n) (s, x, l)
      = (q, s1, x1, l1)"
    by (metis prod_cases4)
  have x: "x - l = of_int (max (tr_reserved tr) (tr_charged tr))" using p False by (simp add: paid_def)
  have "x - l + of_int (stream_amount tr n) = of_int (max (tr_reserved tr) (tr_charged tr + n))"
    unfolding x of_int_add [symmetric] stream_amount_max ..
  then show ?thesis using charge_tokens_metered [OF c [unfolded k]] eq c False p
    by (auto simp: charge_stream_def same_identity_def paid_def split: sum.splits)
qed

lemma refund_paid:
  assumes k: "k = snd (bucket_keys (tr_tenant tr) (tr_credential tr))"
    and eq: "refund (metered executed k charge) lm e t n (tr, s, x, l) = (r, tr', s', x', l')" and p: "paid tr x l"
  shows "paid tr' x' l' \<and> same_identity tr tr'"
proof (cases "tr_closed tr'")
  case True
  then show ?thesis using refund_closes [OF eq] by (simp add: paid_def)
next
  case False
  then obtain z where z: "tr' = tr" "r = Inl z" using refund_closes [OF eq] by auto
  then have "x' - l' = x - l" using eq k
    by (auto simp: refund_def Let_def dest: charge_tokens_metered split: sum.splits if_splits prod.splits)
  then show ?thesis using p z by (simp add: same_identity_def paid_def)
qed

lemma finalize_outcome:
  assumes k: "k = snd (bucket_keys (tr_tenant tr) (tr_credential tr))"
    and eq: "finalize_reservation (metered executed k charge) lm e t n (tr, s, x, l) = (r, tr', s', x', l')" and p: "paid tr x l"
  shows "same_identity tr tr' \<and> (case r of
      Inr d \<Rightarrow> if rd_allowed d then tr_closed tr' \<and> tr_charged tr' = n \<and> x' - l' = of_int n else tr' = tr \<and> x' - l' = x - l
    | Inl z \<Rightarrow> tr' = tr \<and> x' - l' = x - l)"
proof (cases "n < 0 \<or> tr_closed tr \<or> n < tr_charged tr")
  case True
  with eq show ?thesis by (auto simp: finalize_reservation_def same_identity_def split: if_splits)
next
  case False
  obtain q s1 x1 l1 where c: "charge_tokens (metered executed k charge) lm e t (tr_tenant tr) (tr_credential tr)
      (n - max (tr_reserved tr) (tr_charged tr)) (s, x, l) = (q, s1, x1, l1)"
    by (metis prod_cases4)
  have "x - l = of_int (max (tr_reserved tr) (tr_charged tr))" using p False by (simp add: paid_def)
  then show ?thesis using charge_tokens_metered [OF c [unfolded k]] eq c False
    by (cases q) (auto simp: finalize_reservation_def same_identity_def)
qed

lemma reservation_run_paid:
  assumes "k = snd (bucket_keys (tr_tenant tr) (tr_credential tr))" "paid tr x l"
    "reservation_run (metered executed k charge) lm ops (tr, s, x, l) = (tr', s', x', l')"
  shows "paid tr' x' l' \<and> same_identity tr tr'"
  using assms
proof (induction ops arbitrary: tr s x l)
  case Nil
  then show ?case by (simp add: same_identity_def)
next
  case (Cons y ops)
  obtain e t op where y: "y = (e, t, op)" by (metis prod_cases3)
  obtain r tr1 s1 x1 l1 where st: "reservation_step (metered executed k charge) lm e t op (tr, s, x, l) = (r, tr1, s1, x1, l1)"
    by (metis prod_cases5)
  have "paid tr1 x1 l1 \<and> same_identity tr tr1"
  proof (cases op)
    case (Stream n)
    then show ?thesis using charge_stream_paid [OF Cons.prems(1) _ Cons.prems(2)] st by simp
  next
    case (Refund n)
    then show ?thesis using refund_paid [OF Cons.prems(1) _ Cons.prems(2)] st by simp
  next
    case (Finalize n)
    then show ?thesis using finalize_outcome [OF Cons.prems(1) _ Cons.prems(2)] st Cons.prems(2)
      by (fastforce simp: paid_def split: sum.splits if_splits)
  qed
  then show ?case using Cons.IH [of tr1 x1 l1 s1] Cons.prems(1,3) st y by (simp add: same_identity_def)
qed

lemma reserve_metered:
  assumes r: "reserve (metered executed (snd (bucket_keys tn cr)) charge) lm e t tn cr n (s, 0, 0) = (Inr d, s0, x0, l0)"
    and tr: "rd_reservation d = Some tr"
  shows "tr = new_reservation (lm_id lm) tn cr n \<and> 0 \<le> n \<and> x0 - l0 = of_int n"
proof -
  let ?k = "snd (bucket_keys tn cr)"
  obtain q where m: "metered executed ?k charge e t (reserve_charges lm tn cr n) (s, 0, 0) = (q, s0, x0, l0)"
    and q: "bind_res q (reserve_decision lm tn cr n) = Inr d" and n: "0 \<le> n" using reserve_charged [OF r] by blast
  note a = reserve_decision_allowed [OF q reserve_reserved_allowed [OF q tr]]
  have "x0 - l0 = of_int n" using metered_answered [OF m] a by (simp add: token_amounts)
  then show ?thesis using a tr n by simp
qed

lemma settled_amount:
  assumes "settlement executed charge lm tn cr start ops (e', t', actual) s = Some (tr, s', x, lost)"
  shows "x = of_int actual + lost \<and> tr_closed tr"
proof -
  obtain e t n where start: "start = (e, t, n)" by (metis prod_cases3)
  let ?k = "snd (bucket_keys tn cr)"
  obtain d s0 x0 l0 tr0 d' where r: "reserve (metered executed ?k charge) lm e t tn cr n (s, 0, 0) = (Inr d, s0, x0, l0)"
    and tr0: "rd_reservation d = Some tr0"
    and f: "finalize_reservation (metered executed ?k charge) lm e' t' actual
      (reservation_run (metered executed ?k charge) lm ops (tr0, s0, x0, l0)) = (Inr d', tr, s', x, lost)" "rd_allowed d'"
    using assms by (auto simp: settlement_def start Let_def split: prod.splits sum.splits option.splits if_splits)
  have d: "tr0 = new_reservation (lm_id lm) tn cr n" and "0 \<le> n" "x0 - l0 = of_int n" using reserve_metered [OF r tr0] by simp_all
  then have p: "paid tr0 x0 l0" by (simp add: paid_def new_reservation_def)
  obtain tr1 s1 x1 l1 where run: "reservation_run (metered executed ?k charge) lm ops (tr0, s0, x0, l0) = (tr1, s1, x1, l1)"
    by (metis prod_cases4)
  have k: "?k = snd (bucket_keys (tr_tenant tr0) (tr_credential tr0))" using d by (simp add: new_reservation_def)
  have p1: "paid tr1 x1 l1 \<and> same_identity tr0 tr1" using reservation_run_paid [OF k p run] .
  then have k1: "?k = snd (bucket_keys (tr_tenant tr1) (tr_credential tr1))" using k by (simp add: same_identity_def)
  show ?thesis using finalize_outcome [OF k1 f(1) [unfolded run]] p1 f(2) by auto
qed

end

text \<open>The backends answer truly.\<close>

interpretation in_process_meter: truthful charge_local local_executed
  by unfold_locales (simp add: local_executed_def)

lemma parse_pairs_granted:
  "parse_pairs allowed cs raw = Inr rs \<Longrightarrow> length rs = length cs \<and> list_all (\<lambda>r. br_allowed r = allowed) rs"
proof (induction allowed cs raw arbitrary: rs rule: parse_pairs.induct)
  case (2 allowed c cs remaining retry raw)
  then show ?case by (auto simp: bind_res_eq_Inr split: if_splits)
qed auto

lemma parse_reply_granted:
  assumes "parse_reply cs raw = Inr rs" "cs \<noteq> []"
  shows "granted cs (Inr rs) \<longleftrightarrow> hd raw = Fin 1"
  using assms parse_pairs_granted [of "hd raw = Fin 1" cs "tl raw" rs]
  by (cases rs) (auto simp: parse_reply_def granted_def list_all_iff split: if_splits)

lemma script_reply_nonempty: "fst (run_script t kcs st) \<noteq> []"
  by (simp add: run_script_def Let_def split: prod.splits)

interpretation redis_meter: truthful "charge_redis ns" "redis_executed ns" for ns :: string
proof unfold_locales
  fix e t cs s rs and s' :: redis_store
  assume eq: "charge_redis ns e t cs s = (Inr rs, s')"
  let ?ran = "run_script t (map (\<lambda>c. (ns @ '':'' @ bc_key c, c)) cs) s"
  show "redis_executed ns e t cs s \<longleftrightarrow> granted cs (Inr rs)"
  proof (cases "cs = []")
    case True
    then show ?thesis by (simp add: redis_executed_def granted_def)
  next
    case False
    then have a: "distinct (map bc_key cs)" "answered e = Replied" "parse_reply cs (map Fin (fst ?ran)) = Inr rs"
      using eq by (auto simp: charge_redis_def apply_redis_def answered_def Let_def split: if_splits redis_io.splits)
    then show ?thesis using False parse_reply_granted [OF a(3) False] script_reply_nonempty
      by (simp add: redis_executed_def hd_map)
  qed
qed

lemma local_always_answers:
  "snd (snd (snd (metered local_executed k charge_local e t cs m))) = snd (snd m)"
  by (cases m; cases "charge_local e t cs (fst m)") (auto simp: metered_def Let_def local_executed_def granted_def split: sum.splits)

lemma closed_refuses:
  "tr_closed tr \<Longrightarrow> \<exists>z. reservation_step backend lm e t op (tr, s) = (Inl z, tr, s)"
  by (cases op) (simp_all add: charge_stream_def refund_def finalize_reservation_def)

text \<open>
  C17. The tokens of a request are settled: from an admitted reservation on, through any stream
  charges, refunds and final counts that fail, an accepted final count leaves the amounts
  debited from the token bucket of the identity, net of what was returned, adding up to that
  count. In process they add up exactly. In Redis they add up to the count and the net amount
  of the transactions of the request that the script executed while their answer was lost or
  refused: nothing else is charged twice or left out. The reservation is closed, so every later
  operation on it is refused and leaves the backend as it is.
\<close>

theorem finalize_settles:
  shows "(\<forall>tr s' x lost. settlement local_executed charge_local lm tn cr start ops (u, t, actual) s = Some (tr, s', x, lost) \<longrightarrow>
      x = of_int actual
      \<and> (\<forall>e t op. \<exists>z. reservation_step charge_local lm e t op (tr, s') = (Inl z, tr, s')))
    \<and> (\<forall>tr s' x lost. settlement (redis_executed ns) (charge_redis ns) lm tn cr start' ops' (io, t', actual') st = Some (tr, s', x, lost) \<longrightarrow>
      x = of_int actual' + lost
      \<and> (\<forall>e t op. \<exists>z. reservation_step (charge_redis ns) lm e t op (tr, s') = (Inl z, tr, s')))"
proof (intro conjI allI impI)
  fix tr s' x lost assume eq: "settlement local_executed charge_local lm tn cr start ops (u, t, actual) s = Some (tr, s', x, lost)"
  have "snd (snd (s', x, lost)) = 0"
    by (rule settlement_keeps [OF _ _ eq, where P = "\<lambda>m. snd (snd m) = 0"])
      (simp_all add: local_always_answers)
  then show "x = of_int actual" using in_process_meter.settled_amount [OF eq] by simp
  show "\<exists>z. reservation_step charge_local lm e t op (tr, s') = (Inl z, tr, s')" for e t op
    using in_process_meter.settled_amount [OF eq] by (simp add: closed_refuses)
next
  fix tr s' x lost assume eq: "settlement (redis_executed ns) (charge_redis ns) lm tn cr start' ops' (io, t', actual') st = Some (tr, s', x, lost)"
  show "x = of_int actual' + lost" using redis_meter.settled_amount [OF eq] by simp
  show "\<exists>z. reservation_step (charge_redis ns) lm e t op (tr, s') = (Inl z, tr, s')" for e t op
    using redis_meter.settled_amount [OF eq] by (simp add: closed_refuses)
qed

text \<open>
  In process, five tokens reserved, six streamed, seven counted in the end; in Redis, five
  reserved, the answer to a refund of two lost after the script ran, seven counted in the end.
\<close>

definition sample_limiter :: limiter where
  "sample_limiter = \<lparr>lm_id = 0, lm_request_spec = \<lparr>bs_capacity = 2, bs_refill = 1\<rparr>, lm_token_spec = \<lparr>bs_capacity = 9, bs_refill = 1\<rparr>\<rparr>"

definition sample_backend :: local_backend where
  "sample_backend = \<lparr>lb_max_buckets = 2, lb_buckets = []\<rparr>"

lemmas evaluated_calls =
  sample_limiter_def sample_backend_def reserve_def metered_def settlement_def local_executed_def charge_local_def apply_local_def reserve_charges_def token_charges_def
  validate_identity_def strip_def py_space_def case_prod_beta Let_def evict.simps available_tokens_def admits_def SLACK_def
  debited_def retry_of_def deficit_of_def reserve_decision_def token_decision_def charge_tokens_def keys_differ keys_differ [symmetric] granted_def
  new_reservation_def finalize_reservation_def charge_stream_def stream_amount_def amount_for_def charge_for_def AList.delete_eq

lemmas evaluated_redis_calls =
  redis_executed_def charge_redis_def answered_def apply_redis_def run_script_def script_available_def hmget_def
  script_retry_def script_expiry_def parse_reply_def refund_def

theorem finalize_settles_witness:
  "(\<exists>tr s'. settlement local_executed charge_local sample_limiter ''a'' ''b'' ((), 0, 5) [((), 1, Stream 6)] ((), 2, 7) sample_backend
     = Some (tr, s', 7, 0))
   \<and> (\<exists>tr s'. settlement (redis_executed ''n'') (charge_redis ''n'') sample_limiter ''a'' ''b'' (Replied, 0, 5) [(Lost_After, 1, Refund (Some 3))]
       (Replied, 2, 7) Map.empty = Some (tr, s', 5, - 2))"
proof -
  obtain tr s' x where a: "settlement local_executed charge_local sample_limiter ''a'' ''b'' ((), 0, 5) [((), 1, Stream 6)] ((), 2, 7) sample_backend
      = Some (tr, s', x, 0)"
    by (simp add: evaluated_calls)
  obtain tr1 s1 x1 where b: "settlement (redis_executed ''n'') (charge_redis ''n'') sample_limiter ''a'' ''b'' (Replied, 0, 5)
      [(Lost_After, 1, Refund (Some 3))] (Replied, 2, 7) Map.empty = Some (tr1, s1, x1, - 2)"
    by (simp add: evaluated_calls evaluated_redis_calls)
  show ?thesis
    using finalize_settles [of sample_limiter "''a''" "''b''" "((), 0, 5)" "[((), 1, Stream 6)]" "()" 2 7 sample_backend "''n''"
        "(Replied, 0, 5)" "[(Lost_After, 1, Refund (Some 3))]" Replied 2 7 Map.empty] a b by auto
qed

end
