(* ===== verification/Rate_Agree.thy ===== *)
theory Rate_Agree
  imports Dual_Limiter
begin

section \<open>The two backends decide alike\<close>

text \<open>
  Redis and the in-process backend answer a transaction alike when their levels agree, the
  table has room and no charge falls into the slack of the admission test; a charge that does
  is admitted by both and then reported as an outage by the Redis backend alone.
\<close>

subsection \<open>What each answers\<close>

definition decisions :: "bool \<Rightarrow> (bucket_charge \<Rightarrow> rat) \<Rightarrow> bucket_charge list \<Rightarrow> bucket_result list" where
  "decisions allowed f cs =
     map (\<lambda>c. \<lparr>br_allowed = allowed, br_remaining = (if allowed then debited c (f c) else f c), br_retry_after = retry_of c (f c)\<rparr>) cs"

lemma settle_buckets_decisions: "fst (settle_buckets allowed t (map (\<lambda>c. (c, f c)) cs) bs) = decisions allowed f cs"
  by (induction cs arbitrary: bs) (auto simp: decisions_def Let_def case_prod_beta)

lemma evict_room: "int (length bs) \<le> room \<Longrightarrow> evict t protected room bs = (True, bs)"
  by (simp add: evict.simps)

definition has_room :: "local_backend \<Rightarrow> bucket_charge list \<Rightarrow> bool" where
  "has_room lb cs \<longleftrightarrow>
     int (length (lb_buckets lb)) + int (length (filter (\<lambda>c. bc_key c \<notin> fst ` set (lb_buckets lb)) cs)) \<le> lb_max_buckets lb"

lemma apply_local_answer:
  assumes "local_valid spec_of lb t" "charges_ok spec_of cs" "has_room lb cs"
  defines "f \<equiv> \<lambda>c. local_level spec_of lb (bc_key c) t"
  shows "fst (apply_local (Fin t) cs lb) = Inr (decisions (list_all (\<lambda>c. admits c (f c)) cs) f cs)"
proof -
  let ?a = "available_tokens t (lb_buckets lb)"
  have f: "?a c = f c" if "c \<in> set cs" for c
    using available_level [of c "spec_of (bc_key c)" "lb_buckets lb" t] that assms(1,2)
    by (auto simp: charges_ok_def local_valid_def table_ok_def f_def local_level_def)
  have z: "zip cs (map ?a cs) = map (\<lambda>c. (c, f c)) cs" using f by (simp add: zip_map_same)
  have al: "list_all (\<lambda>(c, x). admits c x) (map (\<lambda>c. (c, f c)) cs) = list_all (\<lambda>c. admits c (f c)) cs"
    by (simp add: list.pred_map comp_def)
  have ev: "evict t (map bc_key cs) (lb_max_buckets lb - int (length (filter (\<lambda>c. bc_key c \<notin> fst ` set (lb_buckets lb)) cs))) (lb_buckets lb)
      = (True, lb_buckets lb)"
    using assms(3) by (intro evict_room) (simp add: has_room_def)
  have d: "distinct (map bc_key cs)" using assms(2) by (simp add: charges_ok_def)
  show ?thesis
    using settle_buckets_decisions [of "list_all (\<lambda>c. admits c (f c)) cs" t f cs "lb_buckets lb"] d
    by (simp add: apply_local_def ev z al Let_def case_prod_beta)
qed

lemma parse_pairs_decisions:
  assumes "\<And>c. c \<in> set cs \<Longrightarrow> spec_ok (bc_spec c) \<and> 0 \<le> f c \<and> f c \<le> bs_capacity (bc_spec c)"
    and "allowed \<Longrightarrow> \<forall>c\<in>set cs. bc_amount c \<le> f c"
  shows "parse_pairs allowed cs (map Fin (concat (map (\<lambda>c. [if allowed then debited c (f c) else f c, script_retry c (f c)]) cs)))
    = Inr (decisions allowed f cs)"
  using assms
proof (induction cs)
  case Nil
  then show ?case by (simp add: decisions_def)
next
  case (Cons c cs)
  have c: "spec_ok (bc_spec c)" "0 \<le> f c" "f c \<le> bs_capacity (bc_spec c)" using Cons.prems(1) by simp_all
  have ih: "parse_pairs allowed cs (map Fin (concat (map (\<lambda>c. [if allowed then debited c (f c) else f c, script_retry c (f c)]) cs)))
      = Inr (decisions allowed f cs)"
    using Cons.prems by (intro Cons.IH) auto
  have rem: "0 \<le> (if allowed then debited c (f c) else f c)" "(if allowed then debited c (f c) else f c) \<le> bs_capacity (bc_spec c)"
    using debited_bounds [OF c(1)] c by auto
  have "0 < deficit / bs_refill (bc_spec c)" if "0 < deficit" "0 < bs_refill (bc_spec c)" for deficit :: rat
    using that by simp
  then have "(script_retry c (f c) = - 1 \<and> retry_of c (f c) = Inf \<or> 0 \<le> script_retry c (f c) \<and> retry_of c (f c) = Fin (script_retry c (f c)))
      \<and> (allowed \<longrightarrow> script_retry c (f c) = 0)"
    using Cons.prems(2) c(2) by (auto simp: script_retry_def retry_of_def deficit_of_def Let_def max_def)
  then show ?case using ih rem by (auto simp: decisions_def)
qed

text \<open>Every charge fits the level or exceeds it by more than the slack.\<close>

definition clear_of_slack :: "(bucket_charge \<Rightarrow> rat) \<Rightarrow> bucket_charge list \<Rightarrow> bool" where
  "clear_of_slack f cs \<longleftrightarrow> list_all (\<lambda>c. bc_amount c \<le> f c \<or> f c + SLACK < bc_amount c) cs"

lemma apply_redis_answer:
  assumes specs: "specs_ok spec_of" and v: "redis_valid ns spec_of st t" and c: "charges_ok spec_of cs" "cs \<noteq> []"
  defines "f \<equiv> \<lambda>c. redis_level ns spec_of st (bc_key c) t"
  assumes slack: "clear_of_slack f cs"
  shows "fst (apply_redis ns Replied t cs st) = Inr (decisions (list_all (\<lambda>c. admits c (f c)) cs) f cs)"
proof -
  obtain out st1 where rs: "run_script t (map (\<lambda>c. (ns @ '':'' @ bc_key c, c)) cs) st = (out, st1)" by force
  let ?al = "list_all (\<lambda>c. admits c (f c)) cs"
  have al: "redis_allowed ns spec_of t cs st = ?al" by (simp add: redis_allowed_def f_def)
  have k: "\<And>k. spec_ok (spec_of k)" using specs by (simp add: specs_ok_def)
  have out: "out = (if ?al then 1 else 0) # concat (map (\<lambda>c. [if ?al then debited c (f c) else f c, script_retry c (f c)]) cs)"
    using run_script_levels(2) [OF k v c(1) rs] unfolding al f_def .
  have "spec_ok (bc_spec c) \<and> 0 \<le> f c \<and> f c \<le> bs_capacity (bc_spec c)" if "c \<in> set cs" for c
    using that c(1) k [of "bc_key c"] redis_level_bounds [OF k v, of "bc_key c"] by (auto simp: charges_ok_def f_def)
  moreover have "\<forall>c\<in>set cs. bc_amount c \<le> f c" if ?al
    using that slack \<open>\<And>c. c \<in> set cs \<Longrightarrow> _\<close> by (fastforce simp: clear_of_slack_def admits_def list_all_iff)
  ultimately have p: "parse_pairs ?al cs (map Fin (tl out)) = Inr (decisions ?al f cs)"
    using parse_pairs_decisions [of cs f ?al] by (simp add: out)
  have len: "length out = 1 + 2 * length cs" unfolding out by (simp add: length_concat comp_def sum_list_triv)
  have d: "distinct (map bc_key cs)" using c(1) by (simp add: charges_ok_def)
  have hd: "hd out = (if ?al then 1 else 0)" by (simp add: out)
  have "out \<noteq> []" by (simp add: out)
  then show ?thesis using p len hd d c(2) rs
    by (auto simp: apply_redis_def Let_def parse_reply_def hd_map map_tl)
qed

lemma granted_decisions: "cs \<noteq> [] \<Longrightarrow> granted cs (Inr (decisions al f cs)) \<longleftrightarrow> al"
  by (auto simp: granted_def decisions_def list_all_iff neq_Nil_conv)

text \<open>
  C18. The in-process backend and Redis are interchangeable: a transaction on buckets at the same
  levels gets the same answer from both, decision, remaining quota and retry interval of
  every bucket, and leaves the same levels, provided the bounded table has room, the answer
  of Redis arrives and no charge exceeds its level by less than the slack.
\<close>

theorem backends_agree:
  assumes specs: "specs_ok spec_of" and lv: "local_valid spec_of lb t" and rv: "redis_valid ns spec_of st t"
    and c: "charges_ok spec_of cs" "cs \<noteq> []" and room: "has_room lb cs"
    and same: "\<forall>k. local_level spec_of lb k t = redis_level ns spec_of st k t"
    and slack: "clear_of_slack (\<lambda>c. redis_level ns spec_of st (bc_key c) t) cs"
    and l: "apply_local (Fin t) cs lb = (lr, lb')" and r: "apply_redis ns Replied t cs st = (rr, st')"
  shows "lr = rr \<and> (\<forall>k. local_level spec_of lb' k t = redis_level ns spec_of st' k t)"
proof -
  let ?f = "\<lambda>c. redis_level ns spec_of st (bc_key c) t"
  let ?al = "list_all (\<lambda>c. admits c (?f c)) cs"
  have k: "\<And>k. spec_ok (spec_of k)" using specs by (simp add: specs_ok_def)
  have rr: "rr = Inr (decisions ?al ?f cs)" using apply_redis_answer [OF specs rv c slack] r by simp
  have lr: "lr = Inr (decisions ?al ?f cs)" using apply_local_answer [OF lv c(1) room] l same by simp
  have redis: "apply_redis ns (answered Replied) t cs st = (rr, st')" using r by (simp add: answered_def)
  have g: "granted cs lr = ?al" "granted cs rr = ?al" using granted_decisions [OF c(2)] lr rr by simp_all
  note L = local_charge [OF k lv c(1) l, THEN conjunct2, unfolded g]
    and R = redis_charge [OF k rv c(1) redis, THEN conjunct2, unfolded g]
  have "local_level spec_of lb' k t = redis_level ns spec_of st' k t" for k
  proof (cases ?al)
    case True
    then show ?thesis using L R same by (auto cong: option.case_cong)
  next
    case False
    then have "\<not> (\<forall>c\<in>set cs. admits c (?f c))" by (simp add: list_all_iff)
    then show ?thesis using L R same by metis
  qed
  then show ?thesis using lr rr by simp
qed

text \<open>Two tokens of three, two seconds into an empty system.\<close>

theorem backends_agree_witness:
  "fst (apply_local (Fin 2) [\<lparr>bc_key = ''k'', bc_spec = \<lparr>bs_capacity = 3, bs_refill = 1\<rparr>, bc_amount = 2\<rparr>] \<lparr>lb_max_buckets = 2, lb_buckets = []\<rparr>)
     = fst (apply_redis ''n'' Replied 2 [\<lparr>bc_key = ''k'', bc_spec = \<lparr>bs_capacity = 3, bs_refill = 1\<rparr>, bc_amount = 2\<rparr>] Map.empty)"
proof -
  let ?s = "\<lparr>bs_capacity = 3, bs_refill = 1\<rparr>" and ?lb = "\<lparr>lb_max_buckets = 2, lb_buckets = []\<rparr>"
  let ?cs = "[\<lparr>bc_key = ''k'', bc_spec = ?s, bc_amount = 2\<rparr>]"
  obtain lr lb' where l: "apply_local (Fin 2) ?cs ?lb = (lr, lb')" by force
  obtain rr st' where r: "apply_redis ''n'' Replied 2 ?cs Map.empty = (rr, st')" by force
  have "lr = rr \<and> (\<forall>k. local_level (\<lambda>_. ?s) lb' k 2 = redis_level ''n'' (\<lambda>_. ?s) st' k 2)"
    by (rule backends_agree [OF _ _ _ _ _ _ _ _ l r])
      (simp_all add: specs_ok_def spec_ok_def local_valid_def table_ok_def redis_valid_def charges_ok_def has_room_def
        local_level_def redis_level_def hmget_def bucket_level_def clear_of_slack_def)
  then show ?thesis using l r by simp
qed

subsection \<open>A charge within the slack\<close>

text \<open>
  A charge that exceeds its level by no more than the slack is admitted and the bucket
  emptied, and then the reply, which carries the tiny deficit as a retry interval, is refused
  as malformed: the Redis backend reports an outage for a request it has just charged, where
  the in-process backend admits it.
\<close>

theorem slack_reported_as_outage:
  assumes specs: "specs_ok spec_of" and v: "redis_valid ns spec_of st t" and sp: "bc_spec c = spec_of (bc_key c)"
    and over: "redis_level ns spec_of st (bc_key c) t < bc_amount c"
    and slack: "bc_amount c \<le> redis_level ns spec_of st (bc_key c) t + SLACK"
    and r: "apply_redis ns Replied t [c] st = (rr, st')"
  shows "rr = Inl backend_unavailable \<and> redis_level ns spec_of st' (bc_key c) t = 0"
proof -
  let ?x = "redis_level ns spec_of st (bc_key c) t"
  have k: "\<And>k. spec_ok (spec_of k)" using specs by (simp add: specs_ok_def)
  have c: "charges_ok spec_of [c]" using sp by (simp add: charges_ok_def)
  obtain out st1 where rs: "run_script t (map (\<lambda>c. (ns @ '':'' @ bc_key c, c)) [c]) st = (out, st1)" by force
  note s = run_script_levels [OF k v c rs]
  have al: "redis_allowed ns spec_of t [c] st" using slack by (simp add: redis_allowed_def admits_def)
  have b: "0 \<le> ?x" "0 < bs_capacity (spec_of (bc_key c))" "0 \<le> bs_refill (spec_of (bc_key c))"
    using redis_level_bounds [OF k v, of "bc_key c"] k [of "bc_key c"] by (simp_all add: spec_ok_def)
  have d: "debited c ?x = 0" using over b sp by (simp add: debited_def)
  have "script_retry c ?x \<noteq> 0" using over b sp by (auto simp: script_retry_def)
  moreover have "out = [1, 0, script_retry c ?x]" using s(2) al d by simp
  ultimately have "parse_reply [c] (map Fin out) = Inl backend_unavailable"
    using b sp by (simp add: parse_reply_def)
  moreover have "redis_level ns spec_of st1 (bc_key c) t = 0" using s(3) [of "bc_key c"] al d by (simp add: charge_for_def)
  ultimately show ?thesis using r rs by (simp add: apply_redis_def)
qed

text \<open>Half a millionth of a millionth short of one request.\<close>

theorem slack_reported_as_outage_witness:
  "fst (apply_redis ''n'' Replied 0 [\<lparr>bc_key = ''k'', bc_spec = \<lparr>bs_capacity = 1, bs_refill = 1\<rparr>, bc_amount = 1\<rparr>]
      [''n:k'' \<mapsto> \<lparr>rb_tokens = 1 - SLACK / 2, rb_updated_at = 0, rb_expires = None\<rparr>]) = Inl backend_unavailable"
proof -
  let ?s = "\<lparr>bs_capacity = 1, bs_refill = 1\<rparr>" and ?st = "[''n:k'' \<mapsto> \<lparr>rb_tokens = 1 - SLACK / 2, rb_updated_at = 0, rb_expires = None\<rparr>]"
  let ?c = "\<lparr>bc_key = ''k'', bc_spec = ?s, bc_amount = 1\<rparr>"
  obtain rr st' where r: "apply_redis ''n'' Replied 0 [?c] ?st = (rr, st')" by force
  have "rr = Inl backend_unavailable \<and> redis_level ''n'' (\<lambda>_. ?s) st' (bc_key ?c) 0 = 0"
    by (rule slack_reported_as_outage [OF _ _ _ _ _ r])
      (simp_all add: specs_ok_def spec_ok_def redis_valid_def hash_ok_def bucket_ok_def as_bucket_def
        redis_level_def hmget_def bucket_level_def risen_def SLACK_def)
  then show ?thesis using r by simp
qed

subsection \<open>A refund whose answer is lost\<close>

text \<open>
  When the answer to a refund is lost after the script ran, the tokens are back in the bucket
  and the reservation is still open: a second refund returns them again.
\<close>

lemma lost_refund_stays_open:
  assumes specs: "specs_ok (limiter_spec lm)" and v: "redis_valid ns (limiter_spec lm) st t"
    and tr: "\<not> tr_closed tr" "tr_charged tr \<le> u" "0 \<le> u" "u \<le> tr_reserved tr"
    and eq: "refund (charge_redis ns) lm Lost_After t (Some u) (tr, st) = (r, tr', st')"
  defines "k \<equiv> snd (bucket_keys (tr_tenant tr) (tr_credential tr))"
  shows "r = Inl backend_unavailable \<and> tr' = tr
    \<and> redis_level ns (limiter_spec lm) st' k t
        = min (bs_capacity (lm_token_spec lm)) (redis_level ns (limiter_spec lm) st k t + of_int (tr_reserved tr - u))"
proof -
  define cs where "cs = token_charges lm (tr_tenant tr) (tr_credential tr) (- (tr_reserved tr - u))"
  have c: "charges_ok (limiter_spec lm) cs" by (simp add: cs_def token_charges_ok)
  have ks: "\<And>k. spec_ok (limiter_spec lm k)" using specs by (simp add: specs_ok_def)
  obtain out st1 where rs: "run_script t (map (\<lambda>c. (ns @ '':'' @ bc_key c, c)) cs) st = (out, st1)" by force
  note s = run_script_levels(3) [OF ks v c rs, of k]
  have "charge_redis ns Lost_After t cs st = (Inl backend_unavailable, st1)"
    using rs by (simp add: charge_redis_def answered_def apply_redis_def cs_def token_charges_def)
  then have e: "r = Inl backend_unavailable" "tr' = tr" "st' = st1"
    using eq tr by (auto simp: refund_def charge_tokens_def cs_def bind_res_def)
  have "charge_for cs k = Some (hd cs)" "bc_key (hd cs) = k" by (simp_all add: cs_def token_charges_def charge_for_def k_def)
  moreover have "redis_allowed ns (limiter_spec lm) t cs st" using tr by (simp add: redis_allowed_def admits_def cs_def token_charges_def)
  moreover have "0 \<le> redis_level ns (limiter_spec lm) st k t" using redis_level_bounds [OF ks v] by blast
  ultimately show ?thesis using e s tr by (simp add: debited_def cs_def token_charges_def)
qed

end
