(* ===== verification/Rbac.thy ===== *)
theory Rbac
  imports Py_Text "HOL-Library.List_Lexorder" "HOL-Library.Char_ord" "HOL-Library.AList"
begin

section \<open>Scopes, roles and the zero-trust policy\<close>

text \<open>
  The model of \<^verbatim>\<open>aegis/auth/scopes.py\<close> and \<^verbatim>\<open>aegis/auth/rbac.py\<close>. A frozenset is a list read as a
  set, a dict an association list. The networks of an allowlist are given as the
  \<open>ipaddress\<close> module holds them, with the version, the address and the mask as numbers;
  \<open>parse_ip\<close> is its reading of an address. Of a request time only the hour matters.
  The texts of denials leave out the quotes and the lists they quote.
\<close>

subsection \<open>Scopes of API keys\<close>

definition SCOPE_PROXY_COMPLETIONS :: string where "SCOPE_PROXY_COMPLETIONS = ''proxy:completions''"
definition SCOPE_AUDIT_READ :: string where "SCOPE_AUDIT_READ = ''audit:read''"
definition SCOPE_AUDIT_EXPORT :: string where "SCOPE_AUDIT_EXPORT = ''audit:export''"
definition SCOPE_AUDIT_ANALYTICS :: string where "SCOPE_AUDIT_ANALYTICS = ''audit:analytics''"

definition ALL_SCOPES :: "string list" where
  "ALL_SCOPES = [SCOPE_PROXY_COMPLETIONS, SCOPE_AUDIT_READ, SCOPE_AUDIT_EXPORT, SCOPE_AUDIT_ANALYTICS]"

fun parse_scope_entries :: "string list \<Rightarrow> (string \<times> string list) list \<Rightarrow> (string \<times> string list) list" where
  "parse_scope_entries [] result = result"
| "parse_scope_entries (raw # rest) result =
     (let entry = strip raw in
      if entry = [] \<or> CHR '':'' \<notin> set entry then parse_scope_entries rest result
      else
        case partition_at (CHR '':'') entry of (k, _, scopes_str) \<Rightarrow>
          let key = strip k in
          if key = [] then parse_scope_entries rest result
          else parse_scope_entries rest
                 (AList.update key (filter (\<lambda>s. s \<noteq> []) (map strip (split_on (CHR '','') scopes_str))) result))"

definition parse_scope_config :: "string \<Rightarrow> (string \<times> string list) list" where
  "parse_scope_config scope_config =
     (if strip scope_config = [] then [] else parse_scope_entries (split_on (CHR '';'') scope_config) [])"

record scoped_keys =
  sk_keys :: "string list"
  sk_scope_map :: "(string \<times> string list) list"

text \<open>The loop compares with every key; \<open>compare_digest\<close> of two byte strings is their equality.\<close>

definition constant_time_in :: "string \<Rightarrow> string list \<Rightarrow> bool" where
  "constant_time_in key valid_keys = foldl (\<lambda>result valid. result \<or> encode key = encode valid) False valid_keys"

definition validate_key :: "scoped_keys \<Rightarrow> string \<Rightarrow> string list res" where
  "validate_key sk key =
     (if \<not> constant_time_in key (sk_keys sk) then Inl (KeyError ''Invalid API key'')
      else Inr (case map_of (sk_scope_map sk) key of None \<Rightarrow> ALL_SCOPES | Some scopes \<Rightarrow> scopes))"

definition require_scope :: "scoped_keys \<Rightarrow> string \<Rightarrow> string \<Rightarrow> string list res" where
  "require_scope sk key required =
     bind_res (validate_key sk key) (\<lambda>scopes.
       if required \<notin> set scopes then Inl (PermissionError ''API key lacks required scope'') else Inr scopes)"

definition keys_from_config :: "string list \<Rightarrow> string \<Rightarrow> scoped_keys" where
  "keys_from_config valid_keys scope_config = \<lparr>sk_keys = valid_keys, sk_scope_map = parse_scope_config scope_config\<rparr>"

subsection \<open>Roles\<close>

record role =
  ro_name :: string
  ro_permissions :: "string list"
  ro_description :: string

definition role_grants :: "role \<Rightarrow> string \<Rightarrow> bool" where
  "role_grants r permission \<longleftrightarrow> permission \<in> set (ro_permissions r)"

definition ROLE_ADMIN :: role where
  "ROLE_ADMIN = \<lparr>ro_name = ''admin'', ro_permissions = ALL_SCOPES, ro_description = ''Full access to proxy and all audit operations.''\<rparr>"
definition ROLE_PROXY_USER :: role where
  "ROLE_PROXY_USER = \<lparr>ro_name = ''proxy_user'', ro_permissions = [SCOPE_PROXY_COMPLETIONS],
     ro_description = ''May call the inference proxy only.''\<rparr>"
definition ROLE_AUDITOR :: role where
  "ROLE_AUDITOR = \<lparr>ro_name = ''auditor'', ro_permissions = [SCOPE_AUDIT_READ, SCOPE_AUDIT_EXPORT, SCOPE_AUDIT_ANALYTICS],
     ro_description = ''Read, export and run analytics over the audit chain.''\<rparr>"
definition ROLE_AUDIT_READER :: role where
  "ROLE_AUDIT_READER = \<lparr>ro_name = ''audit_reader'', ro_permissions = [SCOPE_AUDIT_READ],
     ro_description = ''Read-only access to audit records.''\<rparr>"

definition BUILTIN_ROLES :: "(string \<times> role) list" where
  "BUILTIN_ROLES = map (\<lambda>r. (ro_name r, r)) [ROLE_ADMIN, ROLE_PROXY_USER, ROLE_AUDITOR, ROLE_AUDIT_READER]"

record access_context =
  ac_subject_id :: string
  ac_auth_method :: string
  ac_mtls_verified :: bool
  ac_source_ip :: string
  ac_request_hour :: "int option"
  ac_ldap_groups :: "string list"
  ac_direct_roles :: "string list"

record access_request =
  aq_context :: access_context
  aq_permission :: string
  aq_resource :: string

record access_decision =
  ad_allowed :: bool
  ad_reason :: string
  ad_permission :: string
  ad_subject_id :: string
  ad_matched_role :: string

subsection \<open>The registry\<close>

record role_registry =
  rg_catalogue :: "(string \<times> role) list"
  rg_subject_roles :: "(string \<times> string list) list"
  rg_group_roles :: "(string \<times> string list) list"
  rg_default_roles :: "string list"

definition referenced_roles :: "role_registry \<Rightarrow> string list" where
  "referenced_roles rg =
     rg_default_roles rg @ concat (map snd (rg_subject_roles rg)) @ concat (map snd (rg_group_roles rg))"

definition new_registry ::
    "(string \<times> string list) list \<Rightarrow> (string \<times> string list) list \<Rightarrow> role list \<Rightarrow> string list \<Rightarrow> role_registry res" where
  "new_registry subject_roles group_roles roles default_roles =
     (let rg = \<lparr>rg_catalogue = foldl (\<lambda>cat r. AList.update (ro_name r) r cat) BUILTIN_ROLES roles,
                rg_subject_roles = subject_roles, rg_group_roles = group_roles, rg_default_roles = default_roles\<rparr>
      in if list_all (\<lambda>n. n \<in> set (map fst (rg_catalogue rg))) (referenced_roles rg) then Inr rg
         else Inl (ValueError ''Unknown role(s) referenced but not in catalogue''))"

definition get_role :: "role_registry \<Rightarrow> string \<Rightarrow> role option" where
  "get_role rg name = map_of (rg_catalogue rg) name"

text \<open>\<open>str.lower\<close> on characters below 256.\<close>

definition lower_char :: "char \<Rightarrow> char" where
  "lower_char c =
     (let n = (of_char c :: nat) in
      if 65 \<le> n \<and> n \<le> 90 \<or> 192 \<le> n \<and> n \<le> 222 \<and> n \<noteq> 215 then char_of (n + 32) else c)"

definition lower :: "string \<Rightarrow> string" where
  "lower s = map lower_char s"

text \<open>The exact group name first, then the lowered one, where the last of several entries wins.\<close>

definition group_mapped :: "role_registry \<Rightarrow> string \<Rightarrow> string list" where
  "group_mapped rg g =
     (case map_of (rg_group_roles rg) g of
        Some names \<Rightarrow> names
      | None \<Rightarrow>
          (case map_of (rev (map (\<lambda>(k, names). (lower k, names)) (rg_group_roles rg))) (lower g) of
             Some names \<Rightarrow> names
           | None \<Rightarrow> []))"

definition resolve_roles :: "role_registry \<Rightarrow> access_context \<Rightarrow> string list" where
  "resolve_roles rg ctx =
     (let names = rg_default_roles rg @ ac_direct_roles ctx
            @ (case map_of (rg_subject_roles rg) (ac_subject_id ctx) of None \<Rightarrow> [] | Some ns \<Rightarrow> ns)
            @ concat (map (group_mapped rg) (ac_ldap_groups ctx))
      in filter (\<lambda>n. n \<in> set (map fst (rg_catalogue rg))) names)"

definition resolve_permissions :: "role_registry \<Rightarrow> access_context \<Rightarrow> string list" where
  "resolve_permissions rg ctx =
     concat (map (\<lambda>n. case get_role rg n of None \<Rightarrow> [] | Some r \<Rightarrow> ro_permissions r) (resolve_roles rg ctx))"

definition find_granting_role :: "role_registry \<Rightarrow> access_context \<Rightarrow> string \<Rightarrow> string" where
  "find_granting_role rg ctx permission =
     (case List.find (\<lambda>n. case get_role rg n of None \<Rightarrow> False | Some r \<Rightarrow> role_grants r permission)
             (sort (remdups (resolve_roles rg ctx))) of
        Some n \<Rightarrow> n
      | None \<Rightarrow> [])"

subsection \<open>Constraints and the engine\<close>

record ip_network =
  ip_version :: nat
  ip_network_address :: nat
  ip_netmask :: nat

datatype constraint =
    Require_MTLS string
  | Require_Auth_Method string "string list"
  | IP_Allowlist string "ip_network list"
  | Time_Window string int int

definition new_time_window :: "string \<Rightarrow> int \<Rightarrow> int \<Rightarrow> constraint res" where
  "new_time_window permission start_hour end_hour =
     (if \<not> (0 \<le> start_hour \<and> start_hour \<le> 24) \<or> \<not> (0 \<le> end_hour \<and> end_hour \<le> 24)
      then Inl (ValueError ''hour out of range 0..24'')
      else Inr (Time_Window permission start_hour end_hour))"

fun applies_to :: "constraint \<Rightarrow> string \<Rightarrow> bool" where
  "applies_to (Require_MTLS p) permission = (permission = p)"
| "applies_to (Require_Auth_Method p _) permission = (permission = p)"
| "applies_to (IP_Allowlist p _) permission = (permission = p)"
| "applies_to (Time_Window p _ _) permission = (permission = p)"

definition in_network :: "nat \<times> nat \<Rightarrow> ip_network \<Rightarrow> bool" where
  "in_network addr net \<longleftrightarrow>
     fst addr = ip_version net \<and> and (snd addr) (ip_netmask net) = ip_network_address net"

fun constraint_check :: "(string \<Rightarrow> (nat \<times> nat) option) \<Rightarrow> constraint \<Rightarrow> access_context \<Rightarrow> bool" where
  "constraint_check parse_ip (Require_MTLS _) ctx = ac_mtls_verified ctx"
| "constraint_check parse_ip (Require_Auth_Method _ allowed) ctx = (ac_auth_method ctx \<in> set allowed)"
| "constraint_check parse_ip (IP_Allowlist _ nets) ctx =
     (if ac_source_ip ctx = [] then False
      else case parse_ip (ac_source_ip ctx) of None \<Rightarrow> False | Some addr \<Rightarrow> list_ex (in_network addr) nets)"
| "constraint_check parse_ip (Time_Window _ start_hour end_hour) ctx =
     (case ac_request_hour ctx of
        None \<Rightarrow> False
      | Some hour \<Rightarrow>
          if start_hour \<le> end_hour then start_hour \<le> hour \<and> hour < end_hour else hour \<ge> start_hour \<or> hour < end_hour)"

fun denial_reason :: "constraint \<Rightarrow> string" where
  "denial_reason (Require_MTLS p) = p @ '' requires a verified mTLS client certificate''"
| "denial_reason (Require_Auth_Method p _) = p @ '' requires auth method''"
| "denial_reason (IP_Allowlist p _) = p @ '' restricted to networks''"
| "denial_reason (Time_Window p _ _) = p @ '' only permitted between hours''"

record policy_engine =
  pe_registry :: role_registry
  pe_constraints :: "constraint list"

definition add_constraint :: "constraint \<Rightarrow> policy_engine \<Rightarrow> policy_engine" where
  "add_constraint c pe = pe\<lparr>pe_constraints := pe_constraints pe @ [c]\<rparr>"

definition evaluate :: "(string \<Rightarrow> (nat \<times> nat) option) \<Rightarrow> policy_engine \<Rightarrow> access_request \<Rightarrow> access_decision" where
  "evaluate parse_ip pe req =
     (let ctx = aq_context req; perm = aq_permission req;
          granting_role = find_granting_role (pe_registry pe) ctx perm
      in if granting_role = [] then
           \<lparr>ad_allowed = False, ad_reason = ''subject holds no role granting '' @ perm, ad_permission = perm,
            ad_subject_id = ac_subject_id ctx, ad_matched_role = []\<rparr>
         else
           (case List.find (\<lambda>c. applies_to c perm \<and> \<not> constraint_check parse_ip c ctx) (pe_constraints pe) of
              Some c \<Rightarrow>
                \<lparr>ad_allowed = False, ad_reason = denial_reason c, ad_permission = perm,
                 ad_subject_id = ac_subject_id ctx, ad_matched_role = granting_role\<rparr>
            | None \<Rightarrow>
                \<lparr>ad_allowed = True, ad_reason = ''granted by role '' @ granting_role, ad_permission = perm,
                 ad_subject_id = ac_subject_id ctx, ad_matched_role = granting_role\<rparr>))"

definition require_access :: "(string \<Rightarrow> (nat \<times> nat) option) \<Rightarrow> policy_engine \<Rightarrow> access_request \<Rightarrow> access_decision res" where
  "require_access parse_ip pe req =
     (let d = evaluate parse_ip pe req in if \<not> ad_allowed d then Inl (PermissionError (ad_reason d)) else Inr d)"

subsection \<open>Who is allowed\<close>

text \<open>The ways in which a subject comes to hold a role.\<close>

inductive holds_role :: "role_registry \<Rightarrow> access_context \<Rightarrow> string \<Rightarrow> bool" for rg ctx where
  By_Default: "n \<in> set (rg_default_roles rg) \<Longrightarrow> holds_role rg ctx n"
| Directly: "n \<in> set (ac_direct_roles ctx) \<Longrightarrow> holds_role rg ctx n"
| Assigned: "map_of (rg_subject_roles rg) (ac_subject_id ctx) = Some ns \<Longrightarrow> n \<in> set ns \<Longrightarrow> holds_role rg ctx n"
| By_Group: "g \<in> set (ac_ldap_groups ctx) \<Longrightarrow> n \<in> set (group_mapped rg g) \<Longrightarrow> holds_role rg ctx n"

lemma resolve_roles_iff: "n \<in> set (resolve_roles rg ctx) \<longleftrightarrow> holds_role rg ctx n \<and> get_role rg n \<noteq> None"
proof -
  have "get_role rg n \<noteq> None \<longleftrightarrow> n \<in> set (map fst (rg_catalogue rg))" by (simp add: get_role_def map_of_eq_None_iff)
  then show ?thesis
    by (auto simp: resolve_roles_def Let_def holds_role.simps split: option.splits)
qed

definition may :: "role_registry \<Rightarrow> access_context \<Rightarrow> string \<Rightarrow> string \<Rightarrow> bool" where
  "may rg ctx permission n \<longleftrightarrow> holds_role rg ctx n \<and> (\<exists>r. get_role rg n = Some r \<and> role_grants r permission)"

lemma find_none: "List.find P xs = None \<longleftrightarrow> (\<forall>x\<in>set xs. \<not> P x)"
  by (auto simp: find_None_iff)

lemma find_some_in: "List.find P xs = Some x \<Longrightarrow> x \<in> set xs \<and> P x"
  by (metis find_Some_iff nth_mem)

lemma granting_role_may:
  assumes "find_granting_role rg ctx p = n" "n \<noteq> []"
  shows "may rg ctx p n"
proof -
  let ?P = "\<lambda>n. case get_role rg n of None \<Rightarrow> False | Some r \<Rightarrow> role_grants r p"
  have "List.find ?P (sort (remdups (resolve_roles rg ctx))) = Some n"
    using assms by (auto simp: find_granting_role_def split: option.splits)
  from find_some_in [OF this] have "n \<in> set (resolve_roles rg ctx)" "?P n" by simp_all
  then show ?thesis by (auto simp: may_def resolve_roles_iff split: option.splits)
qed

text \<open>A role with the empty name is the only one the search can find and the engine not see.\<close>

lemma granting_role_found:
  assumes "may rg ctx p n" "n \<noteq> []" "get_role rg [] = None"
  shows "find_granting_role rg ctx p \<noteq> []"
proof -
  let ?P = "\<lambda>n. case get_role rg n of None \<Rightarrow> False | Some r \<Rightarrow> role_grants r p"
  let ?ns = "sort (remdups (resolve_roles rg ctx))"
  have n: "n \<in> set ?ns" "?P n" using assms(1) by (auto simp: may_def resolve_roles_iff)
  then obtain m where m: "List.find ?P ?ns = Some m" by (cases "List.find ?P ?ns") (auto simp: find_None_iff)
  then have "?P m" by (auto simp: find_Some_iff)
  then have "m \<noteq> []" using assms(3) by auto
  then show ?thesis using m by (simp add: find_granting_role_def)
qed

text \<open>The granting role is the first in the order of names.\<close>

lemma granting_role_least:
  assumes "may rg ctx p n" "get_role rg [] = None" "n \<noteq> []"
  shows "find_granting_role rg ctx p \<le> n"
proof -
  let ?P = "\<lambda>n. case get_role rg n of None \<Rightarrow> False | Some r \<Rightarrow> role_grants r p"
  let ?ns = "sort (remdups (resolve_roles rg ctx))"
  have n: "n \<in> set ?ns" "?P n" using assms(1) by (auto simp: may_def resolve_roles_iff)
  then obtain m where m: "List.find ?P ?ns = Some m" by (cases "List.find ?P ?ns") (auto simp: find_None_iff)
  then obtain i where i: "i < length ?ns" "?ns ! i = m" "\<And>j. j < i \<Longrightarrow> \<not> ?P (?ns ! j)" by (auto simp: find_Some_iff)
  obtain j where j: "j < length ?ns" "?ns ! j = n" using n(1) by (metis in_set_conv_nth)
  then have "i \<le> j" using i(3) n(2) by (meson not_le)
  then have "m \<le> n" using i j by (metis sorted_nth_mono sorted_sort)
  then show ?thesis using m by (simp add: find_granting_role_def)
qed

text \<open>
  C40. Access is denied by default and granted exactly on privilege and posture: in a registry
  without a role of the empty name, a request is allowed if and only if the subject holds, by
  default, directly, by assignment or through a group, a catalogued role that grants the
  permission, and every registered constraint on that permission is satisfied; the decision
  names such a role, and \<open>require\<close> raises exactly when it is denied.
\<close>

theorem access_granted_iff:
  assumes "get_role (pe_registry pe) [] = None"
  shows "(ad_allowed (evaluate parse_ip pe req)
      \<longleftrightarrow> (\<exists>n. may (pe_registry pe) (aq_context req) (aq_permission req) n)
        \<and> (\<forall>c\<in>set (pe_constraints pe). applies_to c (aq_permission req) \<longrightarrow> constraint_check parse_ip c (aq_context req)))
    \<and> (ad_allowed (evaluate parse_ip pe req) \<longrightarrow>
        may (pe_registry pe) (aq_context req) (aq_permission req) (ad_matched_role (evaluate parse_ip pe req)))
    \<and> ((\<exists>x. require_access parse_ip pe req = Inl x) \<longleftrightarrow> \<not> ad_allowed (evaluate parse_ip pe req))"
proof -
  let ?ctx = "aq_context req" and ?p = "aq_permission req" and ?rg = "pe_registry pe"
  let ?g = "find_granting_role ?rg ?ctx ?p"
  have named: "n \<noteq> []" if "may ?rg ?ctx ?p n" for n using that assms by (auto simp: may_def)
  have g: "(\<exists>n. may ?rg ?ctx ?p n) \<longleftrightarrow> ?g \<noteq> []"
    using granting_role_may [of ?rg ?ctx ?p] granting_role_found [OF _ named assms] by blast
  have e: "ad_allowed (evaluate parse_ip pe req)
      \<longleftrightarrow> ?g \<noteq> [] \<and> (\<forall>c\<in>set (pe_constraints pe). \<not> (applies_to c ?p \<and> \<not> constraint_check parse_ip c ?ctx))"
  proof (cases "List.find (\<lambda>c. applies_to c ?p \<and> \<not> constraint_check parse_ip c ?ctx) (pe_constraints pe)")
    case None
    then show ?thesis using None [unfolded find_none] by (simp add: evaluate_def Let_def)
  next
    case (Some c)
    then show ?thesis using find_some_in [OF Some] by (auto simp: evaluate_def Let_def)
  qed
  have "may ?rg ?ctx ?p (ad_matched_role (evaluate parse_ip pe req))" if "ad_allowed (evaluate parse_ip pe req)"
    using that granting_role_may [of ?rg ?ctx ?p] by (auto simp: evaluate_def Let_def split: option.splits if_splits)
  then show ?thesis using g e by (auto simp: require_access_def Let_def)
qed

definition sample_engine :: policy_engine where
  "sample_engine =
     \<lparr>pe_registry = \<lparr>rg_catalogue = BUILTIN_ROLES, rg_subject_roles = [(''alice'', [''auditor''])],
                     rg_group_roles = [(''AegisAdmins'', [''admin''])], rg_default_roles = []\<rparr>,
      pe_constraints = [Require_MTLS SCOPE_AUDIT_EXPORT]\<rparr>"

definition sample_access :: "string \<Rightarrow> access_request" where
  "sample_access permission =
     \<lparr>aq_context = \<lparr>ac_subject_id = ''alice'', ac_auth_method = ''ldap'', ac_mtls_verified = False,
        ac_source_ip = [], ac_request_hour = None, ac_ldap_groups = [], ac_direct_roles = []\<rparr>,
      aq_permission = permission, aq_resource = []\<rparr>"

lemma sample_named: "get_role (pe_registry sample_engine) [] = None"
  by code_simp

lemma sample_read: "ad_allowed (evaluate (\<lambda>_. None) sample_engine (sample_access SCOPE_AUDIT_READ))"
  by code_simp

text \<open>The example of the module's own documentation: the auditor may read; to export takes a client certificate.\<close>

theorem access_granted_iff_witness:
  "(\<exists>n. may (pe_registry sample_engine) (aq_context (sample_access SCOPE_AUDIT_READ)) SCOPE_AUDIT_READ n)
    \<and> (\<exists>x. require_access (\<lambda>_. None) sample_engine (sample_access SCOPE_AUDIT_EXPORT) = Inl x)"
proof -
  have "\<not> ad_allowed (evaluate (\<lambda>_. None) sample_engine (sample_access SCOPE_AUDIT_EXPORT))" by code_simp
  moreover have "aq_permission (sample_access SCOPE_AUDIT_READ) = SCOPE_AUDIT_READ" by (simp add: sample_access_def)
  ultimately show ?thesis
    using access_granted_iff [OF sample_named, of "\<lambda>_. None" "sample_access SCOPE_AUDIT_READ"]
      access_granted_iff [OF sample_named, of "\<lambda>_. None" "sample_access SCOPE_AUDIT_EXPORT"] sample_read
    by metis
qed

end
