(* ===== verification/Abac.thy ===== *)
theory Abac
  imports Rbac
begin

section \<open>Classification-aware access to data\<close>

text \<open>
  The model of \<^verbatim>\<open>aegis/auth/abac.py\<close>: the levels with their order, the labels, and the engine's four
  decisions. A frozenset is a list read as a set. \<open>upper\<close> is \<open>str.upper\<close> on characters below 256, as
  far as a level's name can depend on it; the texts of denials leave out the lists they quote.
  The locale \<open>mediated\<close> is the contract between an engine and the information that moves
  through it: whatever each of its allowed operations relates is ordered, so nothing ever reaches
  a place that does not dominate it.
\<close>

subsection \<open>Levels\<close>

datatype ClassificationLevel = UNCLASSIFIED | CUI | CONFIDENTIAL | SECRET | TOP_SECRET

primrec level_value :: "ClassificationLevel \<Rightarrow> nat" where
  "level_value UNCLASSIFIED = 0"
| "level_value CUI = 1"
| "level_value CONFIDENTIAL = 2"
| "level_value SECRET = 3"
| "level_value TOP_SECRET = 4"

lemma level_value_inj: "level_value a = level_value b \<Longrightarrow> a = b"
  by (cases a; cases b) simp_all

instantiation ClassificationLevel :: linorder
begin

definition less_eq_ClassificationLevel :: "ClassificationLevel \<Rightarrow> ClassificationLevel \<Rightarrow> bool" where
  "a \<le> b \<longleftrightarrow> level_value a \<le> level_value b"

definition less_ClassificationLevel :: "ClassificationLevel \<Rightarrow> ClassificationLevel \<Rightarrow> bool" where
  "a < b \<longleftrightarrow> level_value a < level_value b"

instance
  by standard
    (auto simp: less_eq_ClassificationLevel_def less_ClassificationLevel_def intro: level_value_inj)

end

primrec level_name :: "ClassificationLevel \<Rightarrow> string" where
  "level_name UNCLASSIFIED = ''UNCLASSIFIED''"
| "level_name CUI = ''CUI''"
| "level_name CONFIDENTIAL = ''CONFIDENTIAL''"
| "level_name SECRET = ''SECRET''"
| "level_name TOP_SECRET = ''TOP_SECRET''"

definition level_members :: "(string \<times> ClassificationLevel) list" where
  "level_members = map (\<lambda>l. (level_name l, l)) [UNCLASSIFIED, CUI, CONFIDENTIAL, SECRET, TOP_SECRET]"

definition level_aliases :: "(string \<times> ClassificationLevel) list" where
  "level_aliases =
     [(''U'', UNCLASSIFIED), (''UNCLAS'', UNCLASSIFIED), (''C'', CONFIDENTIAL), (''S'', SECRET),
      (''TS'', TOP_SECRET), (''TOPSECRET'', TOP_SECRET)]"

definition upper_char :: "char \<Rightarrow> string" where
  "upper_char c =
     (let n = (of_char c :: nat) in
      if n = 223 then ''SS''
      else if 97 \<le> n \<and> n \<le> 122 \<or> 224 \<le> n \<and> n \<le> 254 \<and> n \<noteq> 247 then [char_of (n - 32)]
      else [c])"

definition upper :: "string \<Rightarrow> string" where
  "upper s = concat (map upper_char s)"

definition replace_char :: "char \<Rightarrow> char \<Rightarrow> string \<Rightarrow> string" where
  "replace_char a b s = map (\<lambda>c. if c = a then b else c) s"

definition level_from_name :: "string \<Rightarrow> ClassificationLevel res" where
  "level_from_name name =
     (let key = replace_char (CHR ''-'') (CHR ''_'') (replace_char (CHR '' '') (CHR ''_'') (upper (strip name))) in
      case map_of level_members key of
        Some l \<Rightarrow> Inr l
      | None \<Rightarrow>
          (case map_of level_aliases key of
             Some l \<Rightarrow> Inr l
           | None \<Rightarrow> Inl (ValueError ''unknown classification level'')))"

definition IL_TO_CLASSIFICATION :: "(int \<times> ClassificationLevel) list" where
  "IL_TO_CLASSIFICATION = [(2, UNCLASSIFIED), (4, CUI), (5, CUI), (6, SECRET)]"

definition classification_for_impact_level :: "int \<Rightarrow> ClassificationLevel res" where
  "classification_for_impact_level impact_level =
     (case map_of IL_TO_CLASSIFICATION impact_level of
        None \<Rightarrow> Inl (ValueError ''unsupported DoD Impact Level'')
      | Some l \<Rightarrow> Inr l)"

subsection \<open>Labels and decisions\<close>

record security_label =
  sl_classification :: ClassificationLevel
  sl_compartments :: "string list"
  sl_releasable_to :: "string list"

definition dominates :: "security_label \<Rightarrow> security_label \<Rightarrow> bool" where
  "dominates self other \<longleftrightarrow>
     sl_classification self \<ge> sl_classification other \<and> set (sl_compartments other) \<subseteq> set (sl_compartments self)"

record subject_attributes =
  sa_clearance :: ClassificationLevel
  sa_compartments :: "string list"
  sa_affiliations :: "string list"

record abac_decision =
  ab_allowed :: bool
  ab_reason :: string
  ab_classification :: string

definition check_releasability ::
    "string \<Rightarrow> subject_attributes \<Rightarrow> security_label \<Rightarrow> string \<Rightarrow> abac_decision option" where
  "check_releasability home subject label cls_name =
     (let rel = sl_releasable_to label in
      if ''NOFORN'' \<in> set rel then
        if home \<notin> set (sa_affiliations subject) then
          Some \<lparr>ab_allowed = False, ab_reason = ''label marked NOFORN; subject lacks home affiliation'',
                ab_classification = cls_name\<rparr>
        else None
      else if rel = [] then
        if home \<notin> set (sa_affiliations subject) then
          Some \<lparr>ab_allowed = False, ab_reason = ''no REL TO marking; data releasable only to '' @ home,
                ab_classification = cls_name\<rparr>
        else None
      else if set (sa_affiliations subject) \<inter> set rel = {} then
        Some \<lparr>ab_allowed = False, ab_reason = ''REL TO; subject affiliations not authorized'',
              ab_classification = cls_name\<rparr>
      else None)"

definition can_read :: "string \<Rightarrow> subject_attributes \<Rightarrow> security_label \<Rightarrow> abac_decision" where
  "can_read home subject label =
     (let cls_name = level_name (sl_classification label) in
      if sa_clearance subject < sl_classification label then
        \<lparr>ab_allowed = False,
         ab_reason = ''clearance '' @ level_name (sa_clearance subject) @ '' does not dominate classification ''
           @ cls_name @ '' (no read up)'',
         ab_classification = cls_name\<rparr>
      else if \<not> set (sl_compartments label) \<subseteq> set (sa_compartments subject) then
        \<lparr>ab_allowed = False, ab_reason = ''missing need-to-know compartment(s)'', ab_classification = cls_name\<rparr>
      else
        case check_releasability home subject label cls_name of
          Some rel_decision \<Rightarrow> rel_decision
        | None \<Rightarrow>
            \<lparr>ab_allowed = True,
             ab_reason = ''clearance dominates '' @ cls_name @ ''; need-to-know and releasability satisfied'',
             ab_classification = cls_name\<rparr>)"

definition can_write :: "subject_attributes \<Rightarrow> security_label \<Rightarrow> abac_decision" where
  "can_write subject sink =
     (if sl_classification sink < sa_clearance subject then
        \<lparr>ab_allowed = False,
         ab_reason = ''sink classification '' @ level_name (sl_classification sink) @ '' is below subject clearance ''
           @ level_name (sa_clearance subject) @ '' (no write down)'',
         ab_classification = level_name (sl_classification sink)\<rparr>
      else
        \<lparr>ab_allowed = True, ab_reason = ''sink dominates subject clearance '' @ level_name (sa_clearance subject),
         ab_classification = level_name (sl_classification sink)\<rparr>)"

definition can_flow :: "security_label \<Rightarrow> security_label \<Rightarrow> abac_decision" where
  "can_flow source sink =
     (if \<not> dominates sink source then
        \<lparr>ab_allowed = False,
         ab_reason = ''sink '' @ level_name (sl_classification sink) @ '' does not dominate source ''
           @ level_name (sl_classification source),
         ab_classification = level_name (sl_classification source)\<rparr>
      else
        \<lparr>ab_allowed = True, ab_reason = ''sink dominates source; flow preserves confidentiality'',
         ab_classification = level_name (sl_classification source)\<rparr>)"

definition endpoint_accredited :: "security_label \<Rightarrow> int \<Rightarrow> abac_decision res" where
  "endpoint_accredited data endpoint_impact_level =
     bind_res (classification_for_impact_level endpoint_impact_level) (\<lambda>accredited.
       Inr (if accredited < sl_classification data then
              \<lparr>ab_allowed = False,
               ab_reason = ''IL'' @ str_int endpoint_impact_level @ '' endpoint accredited to ''
                 @ level_name accredited @ ''; cannot process '' @ level_name (sl_classification data) @ '' data'',
               ab_classification = level_name (sl_classification data)\<rparr>
            else
              \<lparr>ab_allowed = True,
               ab_reason = ''IL'' @ str_int endpoint_impact_level @ '' endpoint ('' @ level_name accredited
                 @ '') accredited for '' @ level_name (sl_classification data) @ '' data'',
               ab_classification = level_name (sl_classification data)\<rparr>))"

subsection \<open>What the decisions promise\<close>

text \<open>Reading needs the clearance, every compartment, and a releasable affiliation.\<close>

definition released_to :: "string \<Rightarrow> subject_attributes \<Rightarrow> security_label \<Rightarrow> bool" where
  "released_to home subject label \<longleftrightarrow>
     (if ''NOFORN'' \<in> set (sl_releasable_to label) \<or> sl_releasable_to label = []
      then home \<in> set (sa_affiliations subject)
      else \<exists>a\<in>set (sa_affiliations subject). a \<in> set (sl_releasable_to label))"

lemma check_releasability_None: "check_releasability home s l n = None \<longleftrightarrow> released_to home s l"
  by (auto simp: check_releasability_def released_to_def Let_def)

lemma check_releasability_denies: "check_releasability home s l n = Some d \<Longrightarrow> \<not> ab_allowed d"
  by (auto simp: check_releasability_def Let_def split: if_splits)

lemma can_read_iff:
  "ab_allowed (can_read home s l) \<longleftrightarrow>
     sl_classification l \<le> sa_clearance s \<and> set (sl_compartments l) \<subseteq> set (sa_compartments s)
       \<and> released_to home s l"
proof (cases "check_releasability home s l (level_name (sl_classification l))")
  case None
  then show ?thesis using check_releasability_None [of home s l] by (auto simp: can_read_def Let_def)
next
  case (Some d)
  then have "\<not> ab_allowed d" "\<not> released_to home s l"
    using check_releasability_denies [OF Some] check_releasability_None [of home s l "level_name (sl_classification l)"]
    by auto
  with Some show ?thesis by (auto simp: can_read_def Let_def)
qed

lemma can_write_iff: "ab_allowed (can_write s l) \<longleftrightarrow> sa_clearance s \<le> sl_classification l"
  by (auto simp: can_write_def)

lemma can_flow_iff: "ab_allowed (can_flow source sink) \<longleftrightarrow> dominates sink source"
  by (auto simp: can_flow_def)

lemma dominates_refl [simp]: "dominates l l"
  by (simp add: dominates_def)

lemma dominates_trans: "dominates a b \<Longrightarrow> dominates b c \<Longrightarrow> dominates a c"
  by (auto simp: dominates_def)

lemma endpoint_accredited_iff:
  "endpoint_accredited l il = Inr d \<Longrightarrow> ab_allowed d \<longleftrightarrow>
     (\<exists>highest. classification_for_impact_level il = Inr highest \<and> sl_classification l \<le> highest)"
  by (auto simp: endpoint_accredited_def bind_res_eq_Inr split: if_splits)

text \<open>No endpoint is accredited for TOP SECRET data.\<close>

lemma no_endpoint_above_secret: "classification_for_impact_level il = Inr highest \<Longrightarrow> highest \<le> SECRET"
  by (auto simp: classification_for_impact_level_def IL_TO_CLASSIFICATION_def less_eq_ClassificationLevel_def
      split: option.splits if_splits)

text \<open>Every level is found under its own name.\<close>

lemma level_from_name_name:
  "list_all (\<lambda>l. level_from_name (level_name l) = Inr l)
     [UNCLASSIFIED, CUI, CONFIDENTIAL, SECRET, TOP_SECRET]
   \<and> level_from_name '' top secret'' = Inr TOP_SECRET \<and> level_from_name ''ts'' = Inr TOP_SECRET"
  by code_simp

subsection \<open>Information moving through an engine\<close>

text \<open>
  Subjects read from containers, write to them, and containers are copied into one another,
  each move one the engine allows. \<open>in_store\<close> says which pieces of information, each under the
  label it had at its origin, may have reached a container, \<open>known\<close> which have reached a subject.
\<close>

inductive in_store :: "('s \<Rightarrow> 'o \<Rightarrow> bool) \<Rightarrow> ('s \<Rightarrow> 'o \<Rightarrow> bool) \<Rightarrow> ('o \<Rightarrow> 'o \<Rightarrow> bool) \<Rightarrow> 'o \<Rightarrow> 'o \<Rightarrow> bool"
  and known :: "('s \<Rightarrow> 'o \<Rightarrow> bool) \<Rightarrow> ('s \<Rightarrow> 'o \<Rightarrow> bool) \<Rightarrow> ('o \<Rightarrow> 'o \<Rightarrow> bool) \<Rightarrow> 'o \<Rightarrow> 's \<Rightarrow> bool"
  for reads writes flows where
  Origin: "in_store reads writes flows x x"
| Read: "in_store reads writes flows x y \<Longrightarrow> reads s y \<Longrightarrow> known reads writes flows x s"
| Write: "known reads writes flows x s \<Longrightarrow> writes s y \<Longrightarrow> in_store reads writes flows x y"
| Flow: "in_store reads writes flows x y \<Longrightarrow> flows y z \<Longrightarrow> in_store reads writes flows x z"

locale mediated =
  fixes leq :: "'l \<Rightarrow> 'l \<Rightarrow> bool"
    and label :: "'o \<Rightarrow> 'l"
    and ceiling :: "'s \<Rightarrow> 'l"
    and reads :: "'s \<Rightarrow> 'o \<Rightarrow> bool"
    and writes :: "'s \<Rightarrow> 'o \<Rightarrow> bool"
    and flows :: "'o \<Rightarrow> 'o \<Rightarrow> bool"
  assumes leq_refl: "leq a a"
    and leq_trans: "leq a b \<Longrightarrow> leq b c \<Longrightarrow> leq a c"
    and no_read_up: "reads s x \<Longrightarrow> leq (label x) (ceiling s)"
    and no_write_down: "writes s x \<Longrightarrow> leq (ceiling s) (label x)"
    and flows_up: "flows x y \<Longrightarrow> leq (label x) (label y)"
begin

lemma confined:
  "in_store reads writes flows x y \<Longrightarrow> leq (label x) (label y)"
  "known reads writes flows x' s \<Longrightarrow> leq (label x') (ceiling s)"
  by (induction rule: in_store_known.inducts)
    (blast intro: leq_refl leq_trans dest: no_read_up no_write_down flows_up)+

end

text \<open>
  \<open>lab\<close> gives the containers their labels and \<open>attr\<close> the subjects their attributes. Levels are kept
  by all of the engine's moves; whole labels where data is only copied and read.
\<close>

definition engine_reads :: "string \<Rightarrow> ('s \<Rightarrow> subject_attributes) \<Rightarrow> ('o \<Rightarrow> security_label) \<Rightarrow> 's \<Rightarrow> 'o \<Rightarrow> bool" where
  "engine_reads home attr lab s x \<longleftrightarrow> ab_allowed (can_read home (attr s) (lab x))"

definition engine_writes :: "('s \<Rightarrow> subject_attributes) \<Rightarrow> ('o \<Rightarrow> security_label) \<Rightarrow> 's \<Rightarrow> 'o \<Rightarrow> bool" where
  "engine_writes attr lab s x \<longleftrightarrow> ab_allowed (can_write (attr s) (lab x))"

definition engine_flows :: "('o \<Rightarrow> security_label) \<Rightarrow> 'o \<Rightarrow> 'o \<Rightarrow> bool" where
  "engine_flows lab x y \<longleftrightarrow> ab_allowed (can_flow (lab x) (lab y))"

definition subject_label :: "subject_attributes \<Rightarrow> security_label" where
  "subject_label s = \<lparr>sl_classification = sa_clearance s, sl_compartments = sa_compartments s, sl_releasable_to = []\<rparr>"

lemmas engine_move_defs = engine_reads_def engine_writes_def engine_flows_def can_read_iff can_write_iff can_flow_iff

interpretation by_level: mediated "(\<le>)" "\<lambda>x. sl_classification (lab x)" "\<lambda>s. sa_clearance (attr s)"
  "engine_reads home attr lab" "engine_writes attr lab" "engine_flows lab" for home attr lab
  by unfold_locales (auto simp: engine_move_defs dominates_def)

interpretation by_label: mediated "\<lambda>a b. dominates b a" lab "\<lambda>s. subject_label (attr s)"
  "engine_reads home attr lab" "\<lambda>s x. False" "engine_flows lab" for home attr lab
  by unfold_locales (auto simp: engine_move_defs dominates_def subject_label_def)

text \<open>
  C23. Nothing classified leaks. However subjects and containers are labelled, and whatever sequence
  of reads, writes and copies the engine allows: a container never holds information of a higher
  classification than its own, and a subject never learns any above its clearance; an endpoint the
  engine accredits for a container is accredited for everything that container may hold, none of
  which is TOP SECRET. Where information moves by copies and reads alone, need-to-know is kept
  as well: the subject has every compartment of all it learns.
\<close>

theorem no_classified_leak:
  "(in_store (engine_reads home attr lab) (engine_writes attr lab) (engine_flows lab) x y \<longrightarrow>
      sl_classification (lab x) \<le> sl_classification (lab y)
      \<and> (\<forall>il d. endpoint_accredited (lab y) il = Inr d \<and> ab_allowed d \<longrightarrow>
            (\<exists>d'. endpoint_accredited (lab x) il = Inr d' \<and> ab_allowed d') \<and> sl_classification (lab x) \<le> SECRET))
    \<and> (known (engine_reads home attr lab) (engine_writes attr lab) (engine_flows lab) x s \<longrightarrow>
        sl_classification (lab x) \<le> sa_clearance (attr s))
    \<and> (known (engine_reads home attr lab) (\<lambda>_ _. False) (engine_flows lab) x s \<longrightarrow>
        set (sl_compartments (lab x)) \<subseteq> set (sa_compartments (attr s)))"
proof -
  have "(\<exists>d'. endpoint_accredited (lab x) il = Inr d' \<and> ab_allowed d') \<and> sl_classification (lab x) \<le> SECRET"
    if le: "sl_classification (lab x) \<le> sl_classification (lab y)"
      and d: "endpoint_accredited (lab y) il = Inr d" "ab_allowed d" for il d
  proof -
    obtain a where a: "classification_for_impact_level il = Inr a" "sl_classification (lab y) \<le> a"
      using d endpoint_accredited_iff [OF d(1)] by blast
    then obtain d' where d': "endpoint_accredited (lab x) il = Inr d'" by (simp add: endpoint_accredited_def)
    have "sl_classification (lab x) \<le> a" using le a(2) by (rule order_trans)
    then show ?thesis
      using d' endpoint_accredited_iff [OF d'] a(1) no_endpoint_above_secret [OF a(1)] by (blast intro: order_trans)
  qed
  then show ?thesis
    using by_level.confined(1) [of home attr lab x y] by_level.confined(2) [of home attr lab x s]
      by_label.confined(2) [of home attr lab x s]
    by (auto simp: dominates_def subject_label_def)
qed

text \<open>
  Writing does not look at compartments. A subject that may read compartmented data may write it
  to a container of the same level without the compartment, which \<open>can_flow\<close> forbids, and one
  who lacks the compartment then reads it there.
\<close>

definition crypto_data :: security_label where
  "crypto_data = \<lparr>sl_classification = SECRET, sl_compartments = [''CRYPTO''], sl_releasable_to = []\<rparr>"
definition plain_data :: security_label where
  "plain_data = \<lparr>sl_classification = SECRET, sl_compartments = [], sl_releasable_to = []\<rparr>"
definition insider :: subject_attributes where
  "insider = \<lparr>sa_clearance = SECRET, sa_compartments = [''CRYPTO''], sa_affiliations = [''USA'']\<rparr>"
definition outsider :: subject_attributes where
  "outsider = \<lparr>sa_clearance = SECRET, sa_compartments = [], sa_affiliations = [''USA'']\<rparr>"

lemma compartment_written_away:
  "\<not> ab_allowed (can_flow crypto_data plain_data) \<and> \<not> ab_allowed (can_read ''USA'' outsider crypto_data)
    \<and> known (engine_reads ''USA'' id id) (engine_writes id id) (engine_flows id) crypto_data outsider"
proof -
  let ?r = "engine_reads ''USA'' id id" and ?w = "engine_writes id id" and ?f = "engine_flows id"
  have moves: "?r insider crypto_data" "?w insider plain_data" "?r outsider plain_data"
    by (simp_all add: engine_move_defs released_to_def insider_def outsider_def crypto_data_def plain_data_def)
  have "known ?r ?w ?f crypto_data insider" using Origin moves(1) by (rule Read)
  then have "in_store ?r ?w ?f crypto_data plain_data" using moves(2) by (rule Write)
  then have "known ?r ?w ?f crypto_data outsider" using moves(3) by (rule Read)
  then show ?thesis
    by (simp add: can_flow_iff can_read_iff dominates_def outsider_def crypto_data_def plain_data_def)
qed

theorem no_classified_leak_witness:
  "sl_classification crypto_data \<le> sl_classification plain_data"
proof -
  let ?r = "engine_reads ''USA'' id id" and ?w = "engine_writes id id" and ?f = "engine_flows id"
  have moves: "?r insider crypto_data" "?w insider plain_data"
    by (simp_all add: engine_move_defs released_to_def insider_def crypto_data_def plain_data_def)
  have "known ?r ?w ?f crypto_data insider" using Origin moves(1) by (rule Read)
  then have "in_store ?r ?w ?f crypto_data plain_data" using moves(2) by (rule Write)
  then show ?thesis using no_classified_leak [of "''USA''" id id crypto_data plain_data] by simp
qed

end
