(* ===== verification/Principals.thy ===== *)
theory Principals
  imports Rbac
begin

section \<open>Authenticated principals\<close>

text \<open>
  The model of \<^verbatim>\<open>aegis/auth/principal.py\<close>, with the key comparison of \<^verbatim>\<open>apikey.py\<close> and what
  \<^verbatim>\<open>config.py\<close> keeps of API keys: the platform roles and the scopes each grants, the parsing of a
  mapping entry, the principal with its normalisation, and the generator of the mapping from
  API keys to principals. A JSON document is the value \<open>json.loads\<close> gives; its digests are real
  HMAC-SHA256 values. An \<open>http_error\<close> is a refusal with its status.
\<close>

subsection \<open>Roles and scopes\<close>

datatype platform_role = Admin | Proxy_User | Auditor | Audit_Reader

primrec role_text :: "platform_role \<Rightarrow> string" where
  "role_text Admin = ''admin''"
| "role_text Proxy_User = ''proxy_user''"
| "role_text Auditor = ''auditor''"
| "role_text Audit_Reader = ''audit_reader''"

definition ALL_ROLES :: "platform_role list" where
  "ALL_ROLES = [Admin, Proxy_User, Auditor, Audit_Reader]"

definition role_of_text :: "string \<Rightarrow> platform_role res" where
  "role_of_text s =
     (case List.find (\<lambda>r. role_text r = s) ALL_ROLES of
        Some r \<Rightarrow> Inr r
      | None \<Rightarrow> Inl (ValueError (s @ '' is not a valid Role'')))"

primrec ROLE_SCOPES :: "platform_role \<Rightarrow> string list" where
  "ROLE_SCOPES Admin = ALL_SCOPES"
| "ROLE_SCOPES Proxy_User = [SCOPE_PROXY_COMPLETIONS]"
| "ROLE_SCOPES Auditor = [SCOPE_AUDIT_READ, SCOPE_AUDIT_EXPORT, SCOPE_AUDIT_ANALYTICS]"
| "ROLE_SCOPES Audit_Reader = [SCOPE_AUDIT_READ]"

definition permissions_for_roles :: "platform_role list \<Rightarrow> string list" where
  "permissions_for_roles roles = concat (map ROLE_SCOPES roles)"

fun as_strings :: "pyval \<Rightarrow> string list option" where
  "as_strings (PList vs) = (if list_all (\<lambda>v. as_str v \<noteq> None) vs then Some (map (\<lambda>v. the (as_str v)) vs) else None)"
| "as_strings _ = None"

definition parse_roles :: "pyval \<Rightarrow> platform_role list res" where
  "parse_roles value =
     (case as_strings value of
        None \<Rightarrow> Inl (ValueError ''roles must be a JSON string array'')
      | Some names \<Rightarrow> map_res role_of_text names)"

definition parse_scopes :: "pyval \<Rightarrow> string list res" where
  "parse_scopes value =
     (case as_strings value of
        None \<Rightarrow> Inl (ValueError ''scopes must be a JSON string array'')
      | Some scopes \<Rightarrow>
          if list_all (\<lambda>s. s \<in> set ALL_SCOPES) scopes then Inr scopes
          else Inl (ValueError ''unsupported scopes''))"

subsection \<open>The principal\<close>

record principal =
  pr_subject :: string
  pr_tenant_id :: string
  pr_roles :: "platform_role list"
  pr_scopes :: "string list"
  pr_auth_method :: string
  pr_credential_id :: string
  pr_attributes :: "(string \<times> pyval) list"

definition new_principal :: "principal \<Rightarrow> principal res" where
  "new_principal p =
     (let subject = strip (pr_subject p);
          tenant_id = strip (pr_tenant_id p);
          credential_id = (if strip (pr_credential_id p) \<noteq> [] then strip (pr_credential_id p) else subject)
      in if subject = [] then Inl (ValueError ''principal subject must not be empty'')
         else if tenant_id = [] then Inl (ValueError ''principal tenant_id must not be empty'')
         else if strip (pr_auth_method p) = [] then Inl (ValueError ''principal auth_method must not be empty'')
         else Inr (p\<lparr>pr_subject := subject, pr_tenant_id := tenant_id, pr_credential_id := credential_id,
                     pr_scopes := filter (\<lambda>s. s \<noteq> []) (map strip (pr_scopes p))\<rparr>))"

definition has_role :: "principal \<Rightarrow> string \<Rightarrow> bool" where
  "has_role p role = (case role_of_text role of Inl _ \<Rightarrow> False | Inr r \<Rightarrow> r \<in> set (pr_roles p))"

definition require_role :: "principal \<Rightarrow> string \<Rightarrow> unit res" where
  "require_role p role =
     (if \<not> has_role p role then Inl (PermissionError ''principal lacks required role'') else Inr ())"

subsection \<open>The settings that concern API keys\<close>

record auth_settings =
  as_api_keys :: string
  as_audit_api_keys :: string
  as_api_key_scopes :: string
  as_auth_disabled :: bool
  as_auth_mode :: string
  as_strict :: bool
  as_allow_legacy :: bool
  as_development_tenant_id :: string
  as_identity_key :: string
  as_principals :: "pyval option res"
  as_oidc_issuer :: string
  as_mtls_default_roles :: string

definition split_keys :: "string \<Rightarrow> string list" where
  "split_keys s = filter (\<lambda>k. k \<noteq> []) (map strip (split_on (CHR '','') s))"

definition get_api_keys :: "auth_settings \<Rightarrow> string list" where
  "get_api_keys st = (if as_api_keys st = [] then [] else split_keys (as_api_keys st))"

definition get_audit_api_keys :: "auth_settings \<Rightarrow> string list" where
  "get_audit_api_keys st = (if as_audit_api_keys st = [] then get_api_keys st else split_keys (as_audit_api_keys st))"

definition api_key_principal_digest :: "string \<Rightarrow> string \<Rightarrow> string" where
  "api_key_principal_digest identity_key key =
     hex (hmac_sha256 (encode identity_key) (encode (''aegis-api-key-principal-v1'' @ [CHR 0x00]) @ encode key))"

text \<open>
  \<open>as_principals\<close> is what \<open>json.loads\<close> makes of the setting: \<open>None\<close> where it is empty, an error where it is
  not JSON.
\<close>

fun principal_records :: "(string \<times> pyval) list \<Rightarrow> (string \<times> (string \<times> pyval) list) list \<Rightarrow> (string \<times> (string \<times> pyval) list) list res" where
  "principal_records [] result = Inr result"
| "principal_records ((digest, record) # rest) result =
     (case record of
        PDict grant \<Rightarrow>
          if length digest \<noteq> 64 \<or> \<not> list_all (\<lambda>c. c \<in> set ''0123456789abcdef'') digest
          then Inl (ValueError ''API-key principal mappings require HMAC-SHA256 keys and object values'')
          else principal_records rest (AList.update digest grant result)
      | _ \<Rightarrow> Inl (ValueError ''API-key principal mappings require HMAC-SHA256 keys and object values''))"

definition get_api_key_principals :: "auth_settings \<Rightarrow> (string \<times> (string \<times> pyval) list) list res" where
  "get_api_key_principals st =
     bind_res (as_principals st) (\<lambda>value.
       case value of
         None \<Rightarrow> Inr []
       | Some (PDict entries) \<Rightarrow> principal_records entries []
       | Some _ \<Rightarrow> Inl (ValueError ''api_key_principals_json must be a JSON object''))"

subsection \<open>Generating the mapping\<close>

definition grant_field :: "(string \<times> pyval) list \<Rightarrow> string \<Rightarrow> pyval \<Rightarrow> pyval" where
  "grant_field grant name absent = (case map_of grant name of None \<Rightarrow> absent | Some v \<Rightarrow> v)"

definition check_grant :: "(string \<times> pyval) list \<Rightarrow> (string \<times> platform_role list \<times> string list) res" where
  "check_grant grant =
     (case grant_field grant ''tenant_id'' PNone of
        PStr tenant_id \<Rightarrow>
          if strip tenant_id = [] then Inl (ValueError ''tenant_id must be a non-empty string'')
          else
            bind_res (parse_roles (grant_field grant ''roles'' (PList []))) (\<lambda>roles.
            bind_res (parse_scopes (grant_field grant ''scopes'' (PList []))) (\<lambda>scopes.
              if \<not> set scopes \<subseteq> set (permissions_for_roles roles)
              then Inl (ValueError ''scopes exceed what the roles grant'')
              else Inr (tenant_id, roles, scopes)))
      | _ \<Rightarrow> Inl (ValueError ''tenant_id must be a non-empty string''))"

definition sorted_texts :: "string list \<Rightarrow> pyval" where
  "sorted_texts ss = PList (map PStr (sort (remdups ss)))"

fun build_principals :: "string \<Rightarrow> (string \<times> (string \<times> pyval) list) list \<Rightarrow> (string \<times> pyval) list \<Rightarrow> (string \<times> pyval) list res" where
  "build_principals identity_key [] mapping = Inr mapping"
| "build_principals identity_key ((api_key, grant) # rest) mapping =
     (if strip api_key = [] then Inl (ValueError ''API key must not be empty'')
      else
        bind_res (check_grant grant) (\<lambda>(tenant_id, roles, scopes).
          build_principals identity_key rest
            (AList.update (api_key_principal_digest identity_key api_key)
              (PDict [(''tenant_id'', PStr tenant_id), (''roles'', sorted_texts (map role_text roles)),
                      (''scopes'', sorted_texts scopes)])
              mapping)))"

definition build_api_key_principals :: "string \<Rightarrow> (string \<times> (string \<times> pyval) list) list \<Rightarrow> (string \<times> pyval) list res" where
  "build_api_key_principals identity_key grants =
     (if length (encode identity_key) < 32
      then Inl (ValueError ''AEGIS_AUTH_IDENTITY_HMAC_KEY must be at least 32 bytes'')
      else build_principals identity_key grants [])"

subsection \<open>Facts about roles and scopes\<close>

lemma role_of_text_iff: "role_of_text s = Inr r \<longleftrightarrow> role_text r = s"
  by (cases r) (auto simp: role_of_text_def ALL_ROLES_def)

lemma role_of_role_text [simp]: "role_of_text (role_text r) = Inr r"
  by (simp add: role_of_text_iff)

text \<open>Roles grant platform scopes only, and the catalogue of \<open>rbac.py\<close> agrees with this one.\<close>

lemma permissions_known: "set (permissions_for_roles roles) \<subseteq> set ALL_SCOPES"
proof -
  have "set (ROLE_SCOPES r) \<subseteq> set ALL_SCOPES" for r by (cases r) (auto simp: ALL_SCOPES_def)
  then show ?thesis by (auto simp: permissions_for_roles_def)
qed

lemma catalogues_agree:
  "map (\<lambda>(n, r). (n, ro_permissions r)) BUILTIN_ROLES = map (\<lambda>r. (role_text r, ROLE_SCOPES r)) ALL_ROLES"
  by code_simp

lemma permissions_for_roles_set: "set (permissions_for_roles roles) = (\<Union>r\<in>set roles. set (ROLE_SCOPES r))"
  by (auto simp: permissions_for_roles_def)

lemma strip_front: "dropWhile py_space (strip s) = strip s"
proof -
  let ?t = "dropWhile py_space s"
  obtain w where w: "rev ?t = w @ dropWhile py_space (rev ?t)" by (metis takeWhile_dropWhile_id)
  then have t: "?t = strip s @ rev w" by (metis rev_append rev_rev_ident strip_def)
  show ?thesis
  proof (cases "strip s")
    case (Cons c cs)
    then have "hd ?t = c" "?t \<noteq> []" using t by simp_all
    then have "\<not> py_space c" using hd_dropWhile by metis
    then show ?thesis using Cons by simp
  qed simp
qed

lemma strip_strip [simp]: "strip (strip s) = strip s"
proof -
  have "strip (strip s) = rev (dropWhile py_space (rev (strip s)))" by (simp add: strip_def [of "strip s"] strip_front)
  then show ?thesis by (simp add: strip_def [of s])
qed

lemma strip_spaceless: "\<forall>c\<in>set s. \<not> py_space c \<Longrightarrow> strip s = s"
proof -
  assume a: "\<forall>c\<in>set s. \<not> py_space c"
  have "dropWhile py_space xs = xs" if "set xs \<subseteq> set s" for xs
    using that a by (cases xs) auto
  then show ?thesis by (simp add: strip_def)
qed

lemma scopes_strip:
  "s \<in> set ALL_SCOPES \<Longrightarrow> strip s = s \<and> s \<noteq> []"
  by (auto simp: ALL_SCOPES_def SCOPE_PROXY_COMPLETIONS_def SCOPE_AUDIT_READ_def SCOPE_AUDIT_EXPORT_def
      SCOPE_AUDIT_ANALYTICS_def strip_def py_space_def)

lemma as_strings_PStr [simp]: "as_strings (PList (map PStr ss)) = Some ss"
proof -
  have "list_all (\<lambda>v. as_str v \<noteq> None) (map PStr ss)" by (simp add: list_all_iff)
  moreover have "map (\<lambda>v. the (as_str v)) (map PStr ss) = ss" by (induction ss) simp_all
  ultimately show ?thesis by simp
qed

declare as_strings.simps(1) [simp del]

lemma role_text_inj [simp]: "role_text r = role_text q \<longleftrightarrow> r = q"
  by (cases r; cases q) simp_all

lemma map_res_role_text [simp]: "map_res role_of_text (map role_text rs) = Inr rs"
  by (induction rs) simp_all

lemma map_res_roles: "map_res role_of_text names = Inr rs \<Longrightarrow> names = map role_text rs"
  by (induction names arbitrary: rs) (auto simp: bind_res_eq_Inr role_of_text_iff)

lemma parse_sorted_roles: "\<exists>rs. parse_roles (sorted_texts (map role_text roles)) = Inr rs \<and> set rs = set roles"
proof -
  let ?ss = "sort (remdups (map role_text roles))"
  have "\<exists>rs. ?ss = map role_text rs" by (simp only: ex_map_conv set_sort set_remdups set_map) blast
  then obtain rs where rs: "?ss = map role_text rs" by blast
  then have "role_text ` set rs = role_text ` set roles" by (metis set_map set_remdups set_sort)
  then have "set rs = set roles" by (auto simp: inj_image_eq_iff inj_def)
  moreover have "parse_roles (sorted_texts (map role_text roles)) = Inr rs"
    by (simp add: parse_roles_def sorted_texts_def rs del: map_map)
  ultimately show ?thesis by blast
qed

lemma parse_sorted_scopes:
  assumes "set scopes \<subseteq> set ALL_SCOPES"
  shows "parse_scopes (sorted_texts scopes) = Inr (sort (remdups scopes))"
  using assms by (simp add: parse_scopes_def sorted_texts_def list_all_iff subset_iff)

lemma parse_scopes_known: "parse_scopes v = Inr scopes \<Longrightarrow> set scopes \<subseteq> set ALL_SCOPES"
  by (auto simp: parse_scopes_def list_all_iff split: option.splits if_splits)

text \<open>A checked grant, written out and read back, is checked again with the same meaning.\<close>

definition grant_entry :: "string \<times> platform_role list \<times> string list \<Rightarrow> (string \<times> pyval) list" where
  "grant_entry g =
     (case g of (tenant_id, roles, scopes) \<Rightarrow>
       [(''tenant_id'', PStr tenant_id), (''roles'', sorted_texts (map role_text roles)), (''scopes'', sorted_texts scopes)])"

lemma check_grant_Inr:
  assumes "check_grant grant = Inr (tenant_id, roles, scopes)"
  shows "strip tenant_id \<noteq> []" "set scopes \<subseteq> set ALL_SCOPES" "set scopes \<subseteq> set (permissions_for_roles roles)"
  using assms by (auto simp: check_grant_def bind_res_eq_Inr dest: parse_scopes_known split: pyval.splits if_splits)

lemma check_grant_entry:
  assumes "check_grant grant = Inr (tenant_id, roles, scopes)"
  obtains rs where "set rs = set roles"
    "check_grant (grant_entry (tenant_id, roles, scopes)) = Inr (tenant_id, rs, sort (remdups scopes))"
proof -
  note g = check_grant_Inr [OF assms]
  obtain rs where rs: "parse_roles (sorted_texts (map role_text roles)) = Inr rs" "set rs = set roles"
    using parse_sorted_roles by blast
  then have "set (permissions_for_roles rs) = set (permissions_for_roles roles)"
    by (simp add: permissions_for_roles_set)
  then have "check_grant (grant_entry (tenant_id, roles, scopes)) = Inr (tenant_id, rs, sort (remdups scopes))"
    using g rs(1) parse_sorted_scopes [OF g(2)] by (simp add: check_grant_def grant_entry_def grant_field_def)
  with rs(2) show ?thesis by (rule that)
qed

text \<open>A principal is never nameless, and normalising it once more changes nothing.\<close>

lemma new_principal_ok:
  "new_principal p = Inr q \<longleftrightarrow> strip (pr_subject p) \<noteq> [] \<and> strip (pr_tenant_id p) \<noteq> [] \<and> strip (pr_auth_method p) \<noteq> []
     \<and> q = p\<lparr>pr_subject := strip (pr_subject p), pr_tenant_id := strip (pr_tenant_id p),
          pr_credential_id := (if strip (pr_credential_id p) \<noteq> [] then strip (pr_credential_id p) else strip (pr_subject p)),
          pr_scopes := filter (\<lambda>s. s \<noteq> []) (map strip (pr_scopes p))\<rparr>"
  by (auto simp: new_principal_def Let_def)

subsection \<open>What the generated mapping holds\<close>

lemma digest_shape:
  "length (api_key_principal_digest k key) = 64"
  "list_all (\<lambda>c. c \<in> set ''0123456789abcdef'') (api_key_principal_digest k key)"
  using hex_chars by (auto simp: api_key_principal_digest_def list_all_iff hex_digits_def)

lemma build_principals_Cons:
  "build_principals k ((api_key, grant) # rest) mapping = Inr out \<longleftrightarrow>
     strip api_key \<noteq> [] \<and> (\<exists>g. check_grant grant = Inr g
       \<and> build_principals k rest (AList.update (api_key_principal_digest k api_key) (PDict (grant_entry g)) mapping) = Inr out)"
  by (auto simp: bind_res_eq_Inr grant_entry_def)

lemma build_principals_keeps:
  assumes "build_principals k grants mapping = Inr out" "d \<notin> api_key_principal_digest k ` fst ` set grants"
  shows "map_of out d = map_of mapping d"
  using assms
proof (induction grants arbitrary: mapping)
  case (Cons x rest)
  then show ?case by (cases x) (auto simp: build_principals_Cons update_conv' simp del: build_principals.simps(2))
qed simp

text \<open>Every granted key is in the mapping under its digest, with the entry that was checked.\<close>

lemma build_principals_maps:
  assumes "build_principals k grants mapping = Inr out" "(key, grant) \<in> set grants"
    "distinct (map (\<lambda>x. api_key_principal_digest k (fst x)) grants)"
  shows "\<exists>g. check_grant grant = Inr g \<and> map_of out (api_key_principal_digest k key) = Some (PDict (grant_entry g))"
  using assms
proof (induction grants arbitrary: mapping)
  case (Cons x rest)
  obtain api_key gr where x: "x = (api_key, gr)" by (cases x)
  obtain g where g: "check_grant gr = Inr g"
      "build_principals k rest (AList.update (api_key_principal_digest k api_key) (PDict (grant_entry g)) mapping) = Inr out"
    using Cons.prems(1) unfolding x build_principals_Cons by blast
  show ?case
  proof (cases "(key, grant) = x")
    case True
    have "api_key_principal_digest k api_key \<notin> api_key_principal_digest k ` fst ` set rest"
      using Cons.prems(3) x by (auto simp: image_iff)
    from build_principals_keeps [OF g(2) this] show ?thesis using True g(1) x by (auto simp: update_conv')
  next
    case False
    then show ?thesis using Cons.IH [OF g(2)] Cons.prems by auto
  qed
qed simp

text \<open>The settings read such a mapping back entry by entry.\<close>

definition mapping_shape :: "(string \<times> pyval) list \<Rightarrow> bool" where
  "mapping_shape m \<longleftrightarrow> distinct (map fst m) \<and>
     (\<forall>(d, v)\<in>set m. length d = 64 \<and> list_all (\<lambda>c. c \<in> set ''0123456789abcdef'') d \<and> (\<exists>g. v = PDict g))"

lemma build_principals_shape:
  assumes "build_principals k grants mapping = Inr out" "mapping_shape mapping"
  shows "mapping_shape out"
  using assms
proof (induction grants arbitrary: mapping)
  case (Cons x rest)
  obtain api_key gr where x: "x = (api_key, gr)" by (cases x)
  let ?d = "api_key_principal_digest k api_key"
  obtain g where g: "build_principals k rest (AList.update ?d (PDict (grant_entry g)) mapping) = Inr out"
    using Cons.prems(1) unfolding x build_principals_Cons by blast
  have "set (AList.update ?d v m) \<subseteq> insert (?d, v) (set m)" for v :: pyval and m
    by (induction m) auto
  moreover have "distinct (map fst (AList.update ?d (PDict (grant_entry g)) mapping))"
    using Cons.prems(2) by (simp add: mapping_shape_def distinct_update)
  ultimately have "mapping_shape (AList.update ?d (PDict (grant_entry g)) mapping)"
    using Cons.prems(2) digest_shape [of k api_key] unfolding mapping_shape_def by blast
  then show ?case by (rule Cons.IH [OF g])
qed simp

lemma principal_records_reads:
  assumes "mapping_shape m" "\<forall>d \<in> fst ` set m. map_of acc d = None"
  shows "\<exists>rs. principal_records m acc = Inr rs
    \<and> (\<forall>d. map_of rs d = (case map_of m d of None \<Rightarrow> map_of acc d | Some v \<Rightarrow> Some (case v of PDict g \<Rightarrow> g)))"
  using assms
proof (induction m arbitrary: acc)
  case (Cons x m)
  obtain d g where x: "x = (d, PDict g)" using Cons.prems(1) by (cases x) (auto simp: mapping_shape_def)
  have shape: "mapping_shape m" "d \<notin> fst ` set m" "length d = 64" "list_all (\<lambda>c. c \<in> set ''0123456789abcdef'') d"
    using Cons.prems(1) x by (auto simp: mapping_shape_def)
  have "\<forall>d' \<in> fst ` set m. map_of (AList.update d g acc) d' = None"
    using Cons.prems(2) shape(2) by (auto simp: update_conv')
  from Cons.IH [OF shape(1) this] obtain rs where rs: "principal_records m (AList.update d g acc) = Inr rs"
      "\<And>d'. map_of rs d' = (case map_of m d' of None \<Rightarrow> map_of (AList.update d g acc) d' | Some v \<Rightarrow> Some (case v of PDict g \<Rightarrow> g))"
    by blast
  have "map_of m d = None" using shape(2) by (simp add: map_of_eq_None_iff)
  then show ?case using rs shape(3,4) x by (auto simp: update_conv' split: option.splits)
qed simp

lemma generated_mapping_read:
  assumes "build_api_key_principals k grants = Inr m" "as_principals st = Inr (Some (PDict m))"
    "(key, grant) \<in> set grants" "distinct (map (\<lambda>x. api_key_principal_digest k (fst x)) grants)"
  obtains rs g where "get_api_key_principals st = Inr rs" "check_grant grant = Inr g"
    "map_of rs (api_key_principal_digest k key) = Some (grant_entry g)"
proof -
  have b: "build_principals k grants [] = Inr m" using assms(1) by (simp add: build_api_key_principals_def split: if_splits)
  obtain g where g: "check_grant grant = Inr g" "map_of m (api_key_principal_digest k key) = Some (PDict (grant_entry g))"
    using build_principals_maps [OF b assms(3,4)] by blast
  have "mapping_shape m" by (rule build_principals_shape [OF b]) (simp add: mapping_shape_def)
  from principal_records_reads [OF this, of "[]"] obtain rs where rs: "principal_records m [] = Inr rs"
      "map_of rs (api_key_principal_digest k key) = Some (grant_entry g)" using g(2) by auto
  then show ?thesis using that assms(2) g(1) by (simp add: get_api_key_principals_def)
qed

end
