(* ===== verification/Mtls.thy ===== *)
theory Mtls
  imports Principals "HOL-Library.Sublist"
begin

section \<open>Client certificates\<close>

text \<open>
  The model of \<^verbatim>\<open>aegis/auth/mtls.py\<close>. Parsing of certificates, addresses and networks belongs to
  libraries: \<open>load_pem\<close> and \<open>load_der\<close> give the certificate a byte string encodes, \<open>parse_ip\<close> and
  \<open>parse_network\<close> what the \<open>ipaddress\<close> module reads. A certificate is kept as the parts the verifier
  asks for: its SHA-256 digest, its validity as points in time, the entries of the
  SAN extension where it has one, and its common names.
\<close>

datatype general_name =
    DNS_Name string
  | RFC822_Name string
  | Uri_Name string
  | IP_Name string
  | Other_Name string bytes
  | Ignored_Name

record certificate =
  ct_fingerprint :: bytes
  ct_not_before :: rat
  ct_not_after :: rat
  ct_san :: "general_name list option"
  ct_common_names :: "string list"

datatype cert_input = Cert_Bytes bytes | Cert_Text string | Cert_Object certificate

datatype mtls_error = Mtls_Verification string | Mtls_Raised exn

subsection \<open>Configuration\<close>

record mtls_config =
  mc_trusted_proxy_cidrs :: "string list"
  mc_fingerprints :: "string list"
  mc_san_allowlist :: "string list"
  mc_tenant_san_prefix :: string
  mc_certificate_header :: string
  mc_fingerprint_header :: string
  mc_fingerprint_aliases :: "string list"

text \<open>\<open>bytes.fromhex\<close> skips ASCII space between the pairs of digits.\<close>

definition ascii_space :: "char \<Rightarrow> bool" where
  "ascii_space c \<longleftrightarrow> (of_char c :: nat) \<in> {9, 10, 11, 12, 13, 32}"

definition is_hex_char :: "char \<Rightarrow> bool" where
  "is_hex_char c \<longleftrightarrow> c \<in> set ''0123456789abcdefABCDEF''"

fun fromhex_accepts :: "string \<Rightarrow> bool" where
  "fromhex_accepts [] = True"
| "fromhex_accepts (c # cs) =
     (if ascii_space c then fromhex_accepts cs
      else case cs of [] \<Rightarrow> False | d # ds \<Rightarrow> is_hex_char c \<and> is_hex_char d \<and> fromhex_accepts ds)"

definition normalize_fingerprint :: "string \<Rightarrow> string" where
  "normalize_fingerprint value =
     (let normalized = strip (filter (\<lambda>c. c \<noteq> CHR '':'') (lower value)) in
      if length normalized \<noteq> 64 then []
      else if \<not> fromhex_accepts normalized then []
      else normalized)"

definition new_mtls_config :: "(string \<Rightarrow> ip_network option) \<Rightarrow> mtls_config \<Rightarrow> mtls_config res" where
  "new_mtls_config parse_network c =
     (let normalized = map normalize_fingerprint (mc_fingerprints c);
          normalized_headers = map (\<lambda>v. lower (strip v)) (mc_fingerprint_header c # mc_fingerprint_aliases c)
      in if mc_fingerprints c = [] then Inl (ValueError ''at least one allowed SHA-256 fingerprint is required'')
         else if mc_san_allowlist c = [] then Inl (ValueError ''at least one allowed certificate SAN is required'')
         else if \<not> list_all (\<lambda>cidr. parse_network cidr \<noteq> None) (mc_trusted_proxy_cidrs c)
         then Inl (ValueError ''invalid trusted proxy CIDR'')
         else if [] \<in> set normalized
         then Inl (ValueError ''configured SHA-256 fingerprints must contain 64 hexadecimal digits'')
         else if [] \<in> set normalized_headers
         then Inl (ValueError ''forwarded fingerprint header names must not be empty'')
         else if \<not> distinct normalized_headers
         then Inl (ValueError ''forwarded fingerprint header names must be unique'')
         else Inr (c\<lparr>mc_fingerprints := normalized, mc_fingerprint_header := hd normalized_headers,
                     mc_fingerprint_aliases := tl normalized_headers\<rparr>))"

subsection \<open>Reading a certificate\<close>

fun replace_escapes :: "bytes \<Rightarrow> bytes" where
  "replace_escapes (a # b # c # rest) =
     (if a = of_char (CHR ''%'') \<and> b = of_char (CHR ''0'') \<and> c \<in> {of_char (CHR ''A''), of_char (CHR ''a'')}
      then 10 # replace_escapes rest else a # replace_escapes (b # c # rest))"
| "replace_escapes bs = bs"

definition load_certificate ::
    "(bytes \<Rightarrow> certificate option) \<Rightarrow> (bytes \<Rightarrow> certificate option) \<Rightarrow> cert_input \<Rightarrow> mtls_error + certificate" where
  "load_certificate load_pem load_der value =
     (case value of
        Cert_Object c \<Rightarrow> Inr c
      | _ \<Rightarrow>
          let raw = (case value of Cert_Text s \<Rightarrow> encode s | Cert_Bytes b \<Rightarrow> b | Cert_Object _ \<Rightarrow> []);
              data = replace_escapes raw;
              loaded = (if sublist (encode ''-----BEGIN CERTIFICATE-----'') data then load_pem data else load_der data)
          in case loaded of
               Some c \<Rightarrow> Inr c
             | None \<Rightarrow> Inl (Mtls_Verification ''client certificate cannot be parsed''))"

fun san_text :: "general_name \<Rightarrow> string list" where
  "san_text (DNS_Name v) = [v]"
| "san_text (RFC822_Name v) = [v]"
| "san_text (Uri_Name v) = [v]"
| "san_text (IP_Name v) = [v]"
| "san_text (Other_Name oid v) = [oid @ '':'' @ hex v]"
| "san_text Ignored_Name = []"

definition certificate_sans :: "certificate \<Rightarrow> string list" where
  "certificate_sans c = (case ct_san c of None \<Rightarrow> [] | Some names \<Rightarrow> concat (map san_text names))"

definition constant_time_member :: "string \<Rightarrow> string list \<Rightarrow> bool" where
  "constant_time_member candidate allowed =
     foldl (\<lambda>result value. encode candidate = encode value \<or> result) False allowed"

subsection \<open>The verifier\<close>

record mtls_libs =
  ml_load_pem :: "bytes \<Rightarrow> certificate option"
  ml_load_der :: "bytes \<Rightarrow> certificate option"
  ml_parse_ip :: "string \<Rightarrow> (nat \<times> nat) option"
  ml_parse_network :: "string \<Rightarrow> ip_network option"

definition is_trusted_proxy :: "mtls_libs \<Rightarrow> mtls_config \<Rightarrow> string \<Rightarrow> bool" where
  "is_trusted_proxy libs config source_ip =
     (case ml_parse_ip libs source_ip of
        None \<Rightarrow> False
      | Some address \<Rightarrow>
          list_ex (\<lambda>cidr. case ml_parse_network libs cidr of
              None \<Rightarrow> False
            | Some network \<Rightarrow> fst address = ip_version network \<and> in_network address network)
            (mc_trusted_proxy_cidrs config))"

definition lowered_header :: "(string \<times> string) list \<Rightarrow> string \<Rightarrow> string option" where
  "lowered_header headers name = map_of (rev (map (\<lambda>(k, v). (lower k, v)) headers)) name"

definition fingerprint_assertions :: "mtls_config \<Rightarrow> (string \<times> string) list \<Rightarrow> string list" where
  "fingerprint_assertions config headers =
     concat (map (\<lambda>name. case lowered_header headers name of None \<Rightarrow> [] | Some v \<Rightarrow> [v])
       (mc_fingerprint_header config # mc_fingerprint_aliases config))"

text \<open>What a proxy forwards: the certificate to verify and the fingerprint it asserts for it.\<close>

definition forwarded_input ::
    "mtls_config \<Rightarrow> cert_input option \<Rightarrow> (string \<times> string) list \<Rightarrow> mtls_error + (cert_input option \<times> string option)" where
  "forwarded_input config peer_certificate headers =
     (let forwarded = lowered_header headers (lower (mc_certificate_header config));
          certificate_input =
            (case forwarded of Some v \<Rightarrow> if v \<noteq> [] then Some (Cert_Text v) else peer_certificate | None \<Rightarrow> peer_certificate);
          assertions = fingerprint_assertions config headers;
          normalized = remdups (filter (\<lambda>v. v \<noteq> []) (map normalize_fingerprint assertions))
      in if length normalized > 1 then Inl (Mtls_Verification ''conflicting forwarded fingerprint assertions'')
         else Inr (certificate_input, (case assertions of [] \<Rightarrow> None | v # _ \<Rightarrow> Some v)))"

definition tenant_sans :: "mtls_config \<Rightarrow> string list \<Rightarrow> string list" where
  "tenant_sans config san_values =
     map (drop (length (mc_tenant_san_prefix config))) (filter (prefix (mc_tenant_san_prefix config)) san_values)"

definition fingerprint_checks :: "mtls_config \<Rightarrow> string \<Rightarrow> string option \<Rightarrow> mtls_error + unit" where
  "fingerprint_checks config fingerprint asserted =
     (if mc_fingerprints config \<noteq> [] \<and> \<not> constant_time_member fingerprint (mc_fingerprints config)
      then Inl (Mtls_Verification ''client certificate fingerprint is not allowed'')
      else case asserted of
        None \<Rightarrow> Inr ()
      | Some a \<Rightarrow>
          if normalize_fingerprint a = [] \<or> fingerprint \<noteq> normalize_fingerprint a
          then Inl (Mtls_Verification ''forwarded client certificate fingerprint mismatch'')
          else Inr ())"

definition validity_checks :: "certificate \<Rightarrow> rat \<Rightarrow> mtls_error + unit" where
  "validity_checks c clock =
     (if clock < ct_not_before c then Inl (Mtls_Verification ''client certificate is not yet valid'')
      else if clock \<ge> ct_not_after c then Inl (Mtls_Verification ''client certificate has expired'')
      else Inr ())"

definition certificate_tenant :: "mtls_config \<Rightarrow> certificate \<Rightarrow> string option \<Rightarrow> mtls_error + string" where
  "certificate_tenant config c tenant_id =
     (let san_values = certificate_sans c; tenant_values = tenant_sans config san_values in
      if san_values = [] then Inl (Mtls_Verification ''client certificate must contain a SAN extension'')
      else if mc_san_allowlist config \<noteq> []
        \<and> \<not> list_ex (\<lambda>v. constant_time_member v (mc_san_allowlist config)) san_values
      then Inl (Mtls_Verification ''client certificate SAN is not allowed'')
      else if length tenant_values \<noteq> 1 \<or> strip (hd tenant_values) = []
      then Inl (Mtls_Verification ''client certificate must bind exactly one tenant SAN'')
      else case tenant_id of
        Some t \<Rightarrow>
          if encode (hd tenant_values) \<noteq> encode t
          then Inl (Mtls_Verification ''client certificate SAN does not bind the expected tenant'')
          else Inr (hd tenant_values)
      | None \<Rightarrow> Inr (hd tenant_values))"

definition subject_name :: "certificate \<Rightarrow> string \<Rightarrow> string" where
  "subject_name c fingerprint =
     (let common_name = (case ct_common_names c of [] \<Rightarrow> fingerprint | n # _ \<Rightarrow> n) in
      if strip common_name = [] then fingerprint else strip common_name)"

definition certificate_principal :: "certificate \<Rightarrow> string \<Rightarrow> string \<Rightarrow> mtls_error + principal" where
  "certificate_principal c fingerprint tenant =
     (case new_principal
         \<lparr>pr_subject = subject_name c fingerprint, pr_tenant_id = tenant, pr_roles = [], pr_scopes = [],
          pr_auth_method = ''mtls'', pr_credential_id = ''mtls:'' @ fingerprint,
          pr_attributes = [(''certificate_sha256'', PStr fingerprint),
            (''sans'', PList (map PStr (sort (certificate_sans c))))]\<rparr> of
        Inl e \<Rightarrow> Inl (Mtls_Raised e)
      | Inr p \<Rightarrow> Inr p)"

definition verify_presented ::
    "mtls_libs \<Rightarrow> mtls_config \<Rightarrow> rat \<Rightarrow> string option \<Rightarrow> cert_input option \<times> string option \<Rightarrow> mtls_error + principal" where
  "verify_presented libs config clock tenant_id presentation =
     (case presentation of
        (None, _) \<Rightarrow> Inl (Mtls_Verification ''a verified client certificate is required'')
      | (Some input, asserted) \<Rightarrow>
          bind_res (load_certificate (ml_load_pem libs) (ml_load_der libs) input) (\<lambda>c.
          let fingerprint = hex (ct_fingerprint c) in
          bind_res (fingerprint_checks config fingerprint asserted) (\<lambda>_.
          bind_res (validity_checks c clock) (\<lambda>_.
          bind_res (certificate_tenant config c tenant_id) (\<lambda>tenant.
            certificate_principal c fingerprint tenant)))))"

definition presentation ::
    "mtls_libs \<Rightarrow> mtls_config \<Rightarrow> string \<Rightarrow> cert_input option \<Rightarrow> (string \<times> string) list
      \<Rightarrow> mtls_error + (cert_input option \<times> string option)" where
  "presentation libs config source_ip peer_certificate headers =
     (if is_trusted_proxy libs config source_ip then forwarded_input config peer_certificate headers
      else Inr (peer_certificate, None))"

definition mtls_verify ::
    "mtls_libs \<Rightarrow> mtls_config \<Rightarrow> rat \<Rightarrow> string \<Rightarrow> string option \<Rightarrow> cert_input option \<Rightarrow> (string \<times> string) list
      \<Rightarrow> mtls_error + principal" where
  "mtls_verify libs config clock source_ip tenant_id peer_certificate headers =
     (if (case tenant_id of None \<Rightarrow> False | Some t \<Rightarrow> strip t = [])
      then Inl (Mtls_Verification ''expected tenant_id must not be empty'')
      else bind_res (presentation libs config source_ip peer_certificate headers)
             (verify_presented libs config clock tenant_id))"

definition verify_certificate :: "mtls_libs \<Rightarrow> mtls_config \<Rightarrow> rat \<Rightarrow> cert_input \<Rightarrow> string option \<Rightarrow> string \<Rightarrow> mtls_error + principal" where
  "verify_certificate libs config clock cert tenant_id source_ip =
     mtls_verify libs config clock source_ip tenant_id (Some cert) []"

subsection \<open>What is verified\<close>

lemma constant_time_member_iff: "constant_time_member x allowed \<longleftrightarrow> x \<in> set allowed"
proof -
  have "foldl (\<lambda>result value. encode x = encode value \<or> result) b allowed \<longleftrightarrow> b \<or> x \<in> set allowed" for b
    by (induction allowed arbitrary: b) auto
  then show ?thesis by (simp add: constant_time_member_def)
qed

text \<open>\<open>accepted\<close> says what an accepted certificate fulfils, independently of the order of the checks.\<close>

definition accepted :: "mtls_config \<Rightarrow> rat \<Rightarrow> certificate \<Rightarrow> string \<Rightarrow> bool" where
  "accepted config clock c tenant \<longleftrightarrow>
     (mc_fingerprints config \<noteq> [] \<longrightarrow> hex (ct_fingerprint c) \<in> set (mc_fingerprints config))
     \<and> ct_not_before c \<le> clock \<and> clock < ct_not_after c
     \<and> (mc_san_allowlist config \<noteq> [] \<longrightarrow> set (certificate_sans c) \<inter> set (mc_san_allowlist config) \<noteq> {})
     \<and> tenant_sans config (certificate_sans c) = [tenant] \<and> strip tenant \<noteq> []"

lemma fingerprint_checks_ok:
  "fingerprint_checks config fp asserted = Inr u \<Longrightarrow>
     (mc_fingerprints config \<noteq> [] \<longrightarrow> fp \<in> set (mc_fingerprints config)) \<and> (\<forall>a. asserted = Some a \<longrightarrow> normalize_fingerprint a = fp \<and> fp \<noteq> [])"
  by (auto simp: fingerprint_checks_def constant_time_member_iff split: if_splits option.splits)

lemma validity_checks_ok: "validity_checks c clock = Inr u \<longleftrightarrow> ct_not_before c \<le> clock \<and> clock < ct_not_after c"
  by (auto simp: validity_checks_def)

lemma certificate_tenant_ok:
  assumes "certificate_tenant config c expected = Inr tenant"
  shows "tenant_sans config (certificate_sans c) = [tenant]" "strip tenant \<noteq> []"
    "mc_san_allowlist config \<noteq> [] \<Longrightarrow> set (certificate_sans c) \<inter> set (mc_san_allowlist config) \<noteq> {}"
    "expected = Some t \<Longrightarrow> t = tenant"
proof -
  let ?ts = "tenant_sans config (certificate_sans c)"
  have t: "length ?ts = 1" "strip (hd ?ts) \<noteq> []" "tenant = hd ?ts"
    using assms by (auto simp: certificate_tenant_def Let_def split: if_splits option.splits)
  then show "?ts = [tenant]" "strip tenant \<noteq> []" by (cases ?ts; simp)+
  show "set (certificate_sans c) \<inter> set (mc_san_allowlist config) \<noteq> {}" if "mc_san_allowlist config \<noteq> []"
    using assms that by (auto simp: certificate_tenant_def Let_def list_ex_iff constant_time_member_iff split: if_splits)
  show "t = tenant" if "expected = Some t"
    using assms that by (auto simp: certificate_tenant_def Let_def split: if_splits)
qed

text \<open>The libraries give every certificate a digest of 32 bytes.\<close>

definition libs_ok :: "mtls_libs \<Rightarrow> bool" where
  "libs_ok libs \<longleftrightarrow>
     (\<forall>b c. ml_load_pem libs b = Some c \<or> ml_load_der libs b = Some c \<longrightarrow> length (ct_fingerprint c) = 32)"

lemma hex_strip [simp]: "strip (hex bs) = hex bs"
proof (rule strip_spaceless, rule ballI)
  fix c assume "c \<in> set (hex bs)"
  then show "\<not> py_space c" using hex_chars [of c bs] by (auto simp: hex_digits_def py_space_def)
qed

lemma strip_mtls: "strip (''mtls:'' @ hex bs) = ''mtls:'' @ hex bs"
proof (rule strip_spaceless, rule ballI)
  fix c assume "c \<in> set (''mtls:'' @ hex bs)"
  then show "\<not> py_space c" using hex_chars [of c bs] by (auto simp: hex_digits_def py_space_def)
qed

lemma certificate_principal_ok:
  assumes "certificate_principal c (hex fp) tenant = Inr p"
  shows "pr_tenant_id p = strip tenant" "pr_credential_id p = ''mtls:'' @ hex fp" "pr_roles p = []" "pr_scopes p = []"
    "pr_auth_method p = ''mtls''"
proof -
  obtain q where "new_principal q = Inr p" "pr_tenant_id q = tenant" "pr_credential_id q = ''mtls:'' @ hex fp"
      "pr_roles q = []" "pr_scopes q = []" "pr_auth_method q = ''mtls''"
    using assms by (auto simp: certificate_principal_def split: sum.splits)
  then show "pr_tenant_id p = strip tenant" "pr_credential_id p = ''mtls:'' @ hex fp" "pr_roles p = []" "pr_scopes p = []"
    "pr_auth_method p = ''mtls''" using strip_mtls [of fp] by (auto simp: new_principal_ok)
qed

lemma certificate_principal_total:
  assumes "strip tenant \<noteq> []" "length fp = 32"
  shows "\<exists>p. certificate_principal c (hex fp) tenant = Inr p"
proof -
  have "hex fp \<noteq> []" using assms(2) by (metis length_0_conv length_hex mult_is_0 zero_neq_numeral)
  then have "strip (subject_name c (hex fp)) \<noteq> []"
    by (auto simp: subject_name_def Let_def split: list.splits)
  moreover have "strip ''mtls'' \<noteq> []" by code_simp
  ultimately show ?thesis using assms(1) by (auto simp: certificate_principal_def new_principal_def Let_def)
qed

text \<open>Where a certificate comes from: the peer, or the header of a trusted proxy.\<close>

definition presented ::
    "mtls_libs \<Rightarrow> mtls_config \<Rightarrow> string \<Rightarrow> cert_input option \<Rightarrow> (string \<times> string) list \<Rightarrow> certificate \<Rightarrow> bool" where
  "presented libs config source_ip peer headers c \<longleftrightarrow>
     (\<exists>input. load_certificate (ml_load_pem libs) (ml_load_der libs) input = Inr c
       \<and> (Some input = peer
          \<or> is_trusted_proxy libs config source_ip
            \<and> (\<exists>v. lowered_header headers (lower (mc_certificate_header config)) = Some v \<and> input = Cert_Text v)))"

lemma mtls_verify_steps:
  assumes "mtls_verify libs config clock ip expected peer headers = Inr p"
  obtains c tenant where "presented libs config ip peer headers c"
    "accepted config clock c tenant" "certificate_principal c (hex (ct_fingerprint c)) tenant = Inr p"
    "\<And>t. expected = Some t \<Longrightarrow> t = tenant"
    "is_trusted_proxy libs config ip \<Longrightarrow>
       \<forall>a \<in> set (fingerprint_assertions config headers). normalize_fingerprint a \<in> {[], hex (ct_fingerprint c)}"
proof -
  let ?tp = "is_trusted_proxy libs config ip"
  obtain input asserted c tenant where
    i: "presentation libs config ip peer headers = Inr (Some input, asserted)"
    and c: "load_certificate (ml_load_pem libs) (ml_load_der libs) input = Inr c"
    and f: "fingerprint_checks config (hex (ct_fingerprint c)) asserted = Inr ()"
    and v: "validity_checks c clock = Inr ()"
    and t: "certificate_tenant config c expected = Inr tenant"
    and p: "certificate_principal c (hex (ct_fingerprint c)) tenant = Inr p"
    using assms by (auto simp: mtls_verify_def verify_presented_def bind_res_eq_Inr Let_def split: option.splits if_splits prod.splits)
  have "presented libs config ip peer headers c"
    using i c by (auto simp: presented_def presentation_def forwarded_input_def Let_def split: if_splits option.splits)
  moreover have "accepted config clock c tenant"
    using fingerprint_checks_ok [OF f] v certificate_tenant_ok [OF t] by (simp add: accepted_def validity_checks_ok)
  moreover have "\<forall>a \<in> set (fingerprint_assertions config headers). normalize_fingerprint a \<in> {[], hex (ct_fingerprint c)}"
    if ?tp
  proof (cases "fingerprint_assertions config headers")
    case (Cons a as)
    let ?n = "remdups (filter (\<lambda>v. v \<noteq> []) (map normalize_fingerprint (fingerprint_assertions config headers)))"
    have n: "length ?n \<le> 1" "asserted = Some a" using i that Cons by (auto simp: presentation_def forwarded_input_def Let_def split: if_splits)
    then have a: "normalize_fingerprint a = hex (ct_fingerprint c)" "hex (ct_fingerprint c) \<noteq> []"
      using fingerprint_checks_ok [OF f] by blast+
    then have "hex (ct_fingerprint c) \<in> set ?n" using Cons by (auto intro: rev_image_eqI)
    then have "set ?n = {hex (ct_fingerprint c)}" using n(1) by (cases ?n) auto
    then show ?thesis by auto
  qed simp
  ultimately show ?thesis using that p certificate_tenant_ok(4) [OF t] by blast
qed

definition refuses :: "mtls_error + 'a \<Rightarrow> bool" where
  "refuses r \<longleftrightarrow> (\<forall>e. r = Inl e \<longrightarrow> (\<exists>m. e = Mtls_Verification m))"

lemma refuses_bind: "refuses r \<Longrightarrow> (\<And>x. r = Inr x \<Longrightarrow> refuses (f x)) \<Longrightarrow> refuses (bind_res r f)"
  by (cases r) (simp_all add: refuses_def)

lemma refuses_checks:
  "refuses (load_certificate pem der input)" "refuses (fingerprint_checks config fp asserted)"
  "refuses (validity_checks c clock)" "refuses (certificate_tenant config c expected)"
  "refuses (forwarded_input config peer headers)" "refuses (Inr y)"
  by (auto simp: refuses_def load_certificate_def fingerprint_checks_def validity_checks_def certificate_tenant_def
      forwarded_input_def Let_def split: if_splits option.splits cert_input.splits)

lemma loaded_digest:
  assumes "libs_ok libs" "load_certificate (ml_load_pem libs) (ml_load_der libs) input = Inr c" "\<nexists>c. input = Cert_Object c"
  shows "length (ct_fingerprint c) = 32"
  using assms by (auto simp: load_certificate_def libs_ok_def Let_def split: cert_input.splits option.splits if_splits)

lemma presentation_input:
  "presentation libs config ip peer headers = Inr (Some input, asserted) \<Longrightarrow> Some input = peer \<or> (\<exists>v. input = Cert_Text v)"
  by (auto simp: presentation_def forwarded_input_def Let_def split: if_splits option.splits)

lemma refuses_presented:
  assumes "libs_ok libs" "\<nexists>c. input = Cert_Object c"
  shows "refuses (verify_presented libs config clock expected (Some input, asserted))"
  unfolding verify_presented_def Let_def prod.case option.case
proof (intro refuses_bind refuses_checks)
  fix c tenant
  assume "load_certificate (ml_load_pem libs) (ml_load_der libs) input = Inr c"
    and t: "certificate_tenant config c expected = Inr tenant"
  then have "length (ct_fingerprint c) = 32" using loaded_digest assms by blast
  then obtain p where "certificate_principal c (hex (ct_fingerprint c)) tenant = Inr p"
    using certificate_principal_total [OF certificate_tenant_ok(2) [OF t]] by blast
  then show "refuses (certificate_principal c (hex (ct_fingerprint c)) tenant)" by (simp add: refuses_def)
qed

lemma mtls_never_raises:
  assumes "libs_ok libs" "\<And>c. peer \<noteq> Some (Cert_Object c)"
  shows "refuses (mtls_verify libs config clock ip expected peer headers)"
proof -
  have "refuses (presentation libs config ip peer headers)" by (simp add: presentation_def refuses_checks)
  moreover have "refuses (verify_presented libs config clock expected x)"
    if x: "presentation libs config ip peer headers = Inr x" for x
  proof (cases x)
    case (Pair input asserted)
    show ?thesis
    proof (cases input)
      case None
      then show ?thesis using Pair by (simp add: verify_presented_def refuses_def)
    next
      case (Some i)
      then have "\<nexists>c. i = Cert_Object c"
        using presentation_input [of libs config ip peer headers i asserted] x Pair assms(2) by auto
      then show ?thesis using Pair Some refuses_presented [OF assms(1)] by simp
    qed
  qed
  ultimately have "refuses (bind_res (presentation libs config ip peer headers) (verify_presented libs config clock expected))"
    by (rule refuses_bind)
  then show ?thesis by (simp add: mtls_verify_def refuses_def split: option.splits)
qed

text \<open>
  C22. A certificate speaks only for what it proves. Forwarded headers of a source that is not a
  trusted proxy change nothing in the outcome. Where verification succeeds, the principal is
  that of a certificate which the peer or a trusted proxy presented, whose fingerprint and SAN are
  allowed, which is within its validity, and which names exactly one tenant, the principal's;
  no forwarded fingerprint contradicts it, an expected tenant is that tenant, and the principal
  carries no role and no scope of its own.
\<close>

theorem certificate_identity:
  "(\<not> is_trusted_proxy libs config ip \<longrightarrow>
      mtls_verify libs config clock ip expected peer headers = mtls_verify libs config clock ip expected peer [])
    \<and> (mtls_verify libs config clock ip expected peer headers = Inr p \<longrightarrow>
        (\<exists>c tenant. presented libs config ip peer headers c \<and> accepted config clock c tenant
          \<and> pr_tenant_id p = strip tenant \<and> pr_credential_id p = ''mtls:'' @ hex (ct_fingerprint c)
          \<and> pr_roles p = [] \<and> pr_scopes p = [] \<and> (\<forall>t. expected = Some t \<longrightarrow> t = tenant)
          \<and> (is_trusted_proxy libs config ip \<longrightarrow>
              (\<forall>a\<in>set (fingerprint_assertions config headers). normalize_fingerprint a \<in> {[], hex (ct_fingerprint c)}))))"
proof -
  have "\<not> is_trusted_proxy libs config ip \<longrightarrow>
      mtls_verify libs config clock ip expected peer headers = mtls_verify libs config clock ip expected peer []"
    by (simp add: mtls_verify_def presentation_def)
  moreover have "\<exists>c tenant. presented libs config ip peer headers c \<and> accepted config clock c tenant
          \<and> pr_tenant_id p = strip tenant \<and> pr_credential_id p = ''mtls:'' @ hex (ct_fingerprint c)
          \<and> pr_roles p = [] \<and> pr_scopes p = [] \<and> (\<forall>t. expected = Some t \<longrightarrow> t = tenant)
          \<and> (is_trusted_proxy libs config ip \<longrightarrow>
              (\<forall>a\<in>set (fingerprint_assertions config headers). normalize_fingerprint a \<in> {[], hex (ct_fingerprint c)}))"
    if "mtls_verify libs config clock ip expected peer headers = Inr p"
    using mtls_verify_steps [OF that] certificate_principal_ok by metis
  ultimately show ?thesis by blast
qed

definition sample_certificate :: certificate where
  "sample_certificate =
     \<lparr>ct_fingerprint = replicate 32 7, ct_not_before = 0, ct_not_after = 10,
      ct_san = Some [Uri_Name ''tenant:acme''], ct_common_names = [''client'']\<rparr>"

definition sample_libs :: mtls_libs where
  "sample_libs =
     \<lparr>ml_load_pem = (\<lambda>_. None), ml_load_der = (\<lambda>b. if b = [1] then Some sample_certificate else None),
      ml_parse_ip = (\<lambda>_. None), ml_parse_network = (\<lambda>_. None)\<rparr>"

definition sample_mtls_config :: mtls_config where
  "sample_mtls_config =
     \<lparr>mc_trusted_proxy_cidrs = [], mc_fingerprints = [hex (replicate 32 7)], mc_san_allowlist = [''tenant:acme''],
      mc_tenant_san_prefix = ''tenant:'', mc_certificate_header = ''x-forwarded-client-cert'',
      mc_fingerprint_header = ''x-ssl-client-sha256'', mc_fingerprint_aliases = [''x-client-cert-sha256'']\<rparr>"

lemma sample_verified:
  "case mtls_verify sample_libs sample_mtls_config 5 ''10.0.0.1'' None (Some (Cert_Bytes [1])) [(''X-SSL-Client-SHA256'', ''00'')] of
     Inl _ \<Rightarrow> False | Inr p \<Rightarrow> pr_tenant_id p = ''acme'' \<and> pr_subject p = ''client''"
  by code_simp

theorem certificate_identity_witness:
  "\<exists>c tenant. presented sample_libs sample_mtls_config ''10.0.0.1'' (Some (Cert_Bytes [1])) [(''X-SSL-Client-SHA256'', ''00'')] c
     \<and> accepted sample_mtls_config 5 c tenant \<and> strip tenant = ''acme''"
proof -
  obtain p where p: "mtls_verify sample_libs sample_mtls_config 5 ''10.0.0.1'' None (Some (Cert_Bytes [1]))
      [(''X-SSL-Client-SHA256'', ''00'')] = Inr p" "pr_tenant_id p = ''acme''"
    using sample_verified by (auto split: sum.splits)
  then show ?thesis using certificate_identity [of sample_libs sample_mtls_config "''10.0.0.1''" 5 None "Some (Cert_Bytes [1])"
      "[(''X-SSL-Client-SHA256'', ''00'')]" p] by metis
qed

text \<open>
  A configured fingerprint may hold spaces between its pairs: it passes for 64 hexadecimal digits
  and admits no certificate.
\<close>

lemma spaced_fingerprint_accepted:
  "\<exists>v. normalize_fingerprint v \<noteq> [] \<and> (\<forall>bs. hex bs \<noteq> normalize_fingerprint v)"
proof -
  let ?v = "''07  '' @ hex (replicate 30 7)"
  have "normalize_fingerprint ?v = ?v" by code_simp
  moreover have "hex bs \<noteq> ?v" for bs
  proof
    assume "hex bs = ?v"
    then have "CHR '' '' \<in> set (hex bs)" by simp
    then show False using hex_chars [of "CHR '' ''" bs] by (simp add: hex_digits_def)
  qed
  ultimately show ?thesis by (metis append_is_Nil_conv list.distinct(1))
qed

end
