(* ===== verification/Oidc.thy ===== *)
theory Oidc
  imports Principals
begin

section \<open>OIDC tokens\<close>

text \<open>
  The model of \<^verbatim>\<open>aegis/auth/oidc.py\<close>: the key set cache with its lifetime, the refresh with its one second
  of restraint, the choice of a key, and the checks on claims. The JWT library is the parameter
  \<open>jwt_lib\<close>: whether it is installed, the unverified header it reads from a token, and the claims it decodes
  with a key, an algorithm and a list of required claims, or nothing where it raises. The n-th
  answer of the transport and the n-th reading of the monotonic clock are parameters as well;
  a call uses them up in order. A date may be NaN, all of whose comparisons fail, or an infinity,
  which compares as one; the sums of the clock and the leeway are exact.
\<close>

type_synonym claims = "(string \<times> pyval) list"

record oidc_config =
  oc_issuer :: string
  oc_audience :: string
  oc_algorithms :: "string list"
  oc_tenant_claim :: string
  oc_roles_claim :: string
  oc_leeway_seconds :: int
  oc_require_iat :: bool

record jwt_lib =
  jl_installed :: bool
  jl_header :: "string \<Rightarrow> claims option"
  jl_decode :: "string \<Rightarrow> claims \<Rightarrow> string \<Rightarrow> string list \<Rightarrow> claims option"

datatype oidc_error = Oidc_Authentication string | Oidc_Dependency | Oidc_Raised exn

record oidc_world =
  ow_jwt :: jwt_lib
  ow_transport :: "nat \<Rightarrow> pyval option"
  ow_mono :: "nat \<Rightarrow> rat"
  ow_ttl :: rat

record oidc_state =
  os_values :: "(string \<times> (rat \<times> pyval)) list"
  os_last_refresh :: "rat option"
  os_ticks :: nat
  os_fetches :: nat

subsection \<open>Key sets\<close>

fun pget :: "claims \<Rightarrow> string \<Rightarrow> pyval" where
  "pget d name = (case map_of d name of None \<Rightarrow> PNone | Some v \<Rightarrow> v)"

declare pget.simps [simp del]

fun as_dict :: "pyval \<Rightarrow> claims option" where
  "as_dict (PDict d) = Some d"
| "as_dict _ = None"

fun jwks_keys :: "pyval \<Rightarrow> claims list option" where
  "jwks_keys (PDict d) =
     (case pget d ''keys'' of
        PList ks \<Rightarrow> if list_all (\<lambda>k. as_dict k \<noteq> None) ks then Some (map (\<lambda>k. the (as_dict k)) ks) else None
      | _ \<Rightarrow> None)"
| "jwks_keys _ = None"

definition key_id :: "claims \<Rightarrow> string option" where
  "key_id k = (case pget k ''kid'' of PStr s \<Rightarrow> if s = [] then None else Some s | _ \<Rightarrow> None)"

definition validate_jwks :: "pyval \<Rightarrow> oidc_error + unit" where
  "validate_jwks jwks =
     (case jwks of
        PDict _ \<Rightarrow>
          (case jwks_keys jwks of
             None \<Rightarrow> Inl (Oidc_Authentication ''OIDC JWKS response must contain a keys array'')
           | Some ks \<Rightarrow>
               if \<not> list_all (\<lambda>k. key_id k \<noteq> None) ks
               then Inl (Oidc_Authentication ''every OIDC JWK must contain a non-empty kid'')
               else if \<not> distinct (map key_id ks)
               then Inl (Oidc_Authentication ''OIDC JWKS contains duplicate kid values'')
               else Inr ())
      | _ \<Rightarrow> Inl (Oidc_Authentication ''OIDC JWKS response must be an object''))"

definition find_jwk :: "pyval \<Rightarrow> string \<Rightarrow> oidc_error + claims option" where
  "find_jwk jwks kid =
     bind_res (validate_jwks jwks) (\<lambda>_.
       Inr (case jwks_keys jwks of
              None \<Rightarrow> None
            | Some ks \<Rightarrow> List.find (\<lambda>k. pget k ''kid'' = PStr kid) ks))"

subsection \<open>The cache\<close>

definition cache_get :: "oidc_world \<Rightarrow> string \<Rightarrow> oidc_state \<Rightarrow> pyval option \<times> oidc_state" where
  "cache_get w issuer st =
     (case map_of (os_values st) issuer of
        None \<Rightarrow> (None, st)
      | Some (expires_at, value) \<Rightarrow>
          let st' = st\<lparr>os_ticks := Suc (os_ticks st)\<rparr> in
          if ow_mono w (os_ticks st) \<ge> expires_at then (None, st'\<lparr>os_values := AList.delete issuer (os_values st)\<rparr>)
          else (Some value, st'))"

definition cache_set :: "oidc_world \<Rightarrow> string \<Rightarrow> pyval \<Rightarrow> oidc_state \<Rightarrow> oidc_state" where
  "cache_set w issuer jwks st =
     st\<lparr>os_ticks := Suc (os_ticks st),
        os_values := AList.update issuer (ow_mono w (os_ticks st) + ow_ttl w, jwks) (os_values st)\<rparr>"

definition fetch_jwks :: "oidc_world \<Rightarrow> string \<Rightarrow> rat \<Rightarrow> oidc_state \<Rightarrow> (oidc_error + pyval) \<times> oidc_state" where
  "fetch_jwks w issuer started st =
     (let st' = st\<lparr>os_fetches := Suc (os_fetches st)\<rparr> in
      case ow_transport w (os_fetches st) of
        None \<Rightarrow> (Inl (Oidc_Authentication ''OIDC JWKS retrieval failed''), st')
      | Some result \<Rightarrow>
          (case validate_jwks result of
             Inl e \<Rightarrow> (Inl e, st')
           | Inr _ \<Rightarrow> (Inr result, (cache_set w issuer result st')\<lparr>os_last_refresh := Some started\<rparr>)))"

definition refresh :: "oidc_world \<Rightarrow> string \<Rightarrow> bool \<Rightarrow> bool \<Rightarrow> oidc_state \<Rightarrow> (oidc_error + pyval) \<times> oidc_state" where
  "refresh w issuer force allow_immediate st =
     (case cache_get w issuer st of
        (cached, st1) \<Rightarrow>
          (case (force, cached) of
             (False, Some jwks) \<Rightarrow> (Inr jwks, st1)
           | _ \<Rightarrow>
               let started = ow_mono w (os_ticks st1); st2 = st1\<lparr>os_ticks := Suc (os_ticks st1)\<rparr>;
                   recent = (case os_last_refresh st2 of None \<Rightarrow> False | Some t \<Rightarrow> started - t < 1)
               in case cached of
                    Some jwks \<Rightarrow>
                      if force \<and> \<not> allow_immediate \<and> recent then (Inr jwks, st2)
                      else fetch_jwks w issuer started st2
                  | None \<Rightarrow> fetch_jwks w issuer started st2))"

subsection \<open>Claims\<close>

fun numeric_date :: "pyval \<Rightarrow> (rat + non_finite) option" where
  "numeric_date (PInt i) = Some (Inl (of_int i))"
| "numeric_date (PFloat q) = Some (Inl q)"
| "numeric_date (PNonFinite x) = Some (Inr x)"
| "numeric_date _ = None"

text \<open>\<open>date <= t\<close> and \<open>date > t\<close> for a finite \<open>t\<close>: both fail on NaN.\<close>

fun date_le :: "rat + non_finite \<Rightarrow> rat \<Rightarrow> bool" where
  "date_le (Inl q) t = (q \<le> t)"
| "date_le (Inr x) t = (x = Minus_Infinity)"

fun date_gt :: "rat + non_finite \<Rightarrow> rat \<Rightarrow> bool" where
  "date_gt (Inl q) t = (q > t)"
| "date_gt (Inr x) t = (x = Plus_Infinity)"

definition audience_matches :: "string \<Rightarrow> pyval \<Rightarrow> bool" where
  "audience_matches audience v =
     (case v of
        PStr s \<Rightarrow> s = audience
      | PList vs \<Rightarrow> PStr audience \<in> set vs \<and> list_all (\<lambda>x. as_str x \<noteq> None) vs
      | _ \<Rightarrow> False)"

definition date_typed :: "oidc_config \<Rightarrow> claims \<Rightarrow> string \<Rightarrow> bool" where
  "date_typed config cl name \<longleftrightarrow>
     pget cl name = PNone \<and> (name = ''nbf'' \<or> name = ''iat'' \<and> \<not> oc_require_iat config)
     \<or> numeric_date (pget cl name) \<noteq> None"

definition beyond :: "pyval \<Rightarrow> rat \<Rightarrow> bool" where
  "beyond v t \<longleftrightarrow> (case numeric_date v of Some d \<Rightarrow> date_gt d t | None \<Rightarrow> False)"

definition validate_exact_claims :: "oidc_config \<Rightarrow> rat \<Rightarrow> claims \<Rightarrow> oidc_error + unit" where
  "validate_exact_claims config clock cl =
     (if pget cl ''iss'' \<noteq> PStr (oc_issuer config)
      then Inl (Oidc_Authentication ''OIDC issuer claim does not exactly match'')
      else if \<not> audience_matches (oc_audience config) (pget cl ''aud'')
      then Inl (Oidc_Authentication ''OIDC audience claim does not exactly match'')
      else if (case as_str (pget cl ''sub'') of None \<Rightarrow> True | Some s \<Rightarrow> strip s = [])
      then Inl (Oidc_Authentication ''OIDC subject claim must be a non-empty string'')
      else if \<not> list_all (date_typed config cl) [''exp'', ''iat'', ''nbf'']
      then Inl (Oidc_Authentication ''OIDC claim must be a NumericDate'')
      else if (case numeric_date (pget cl ''exp'') of
                 Some d \<Rightarrow> date_le d (clock - of_int (oc_leeway_seconds config)) | None \<Rightarrow> False)
      then Inl (Oidc_Authentication ''OIDC token has expired'')
      else if beyond (pget cl ''iat'') (clock + of_int (oc_leeway_seconds config))
      then Inl (Oidc_Authentication ''OIDC token was issued in the future'')
      else if beyond (pget cl ''nbf'') (clock + of_int (oc_leeway_seconds config))
      then Inl (Oidc_Authentication ''OIDC token is not yet valid'')
      else Inr ())"

text \<open>\<open>str.split()\<close>: the maximal runs without space.\<close>

fun py_words :: "string \<Rightarrow> string \<Rightarrow> string list" where
  "py_words word [] = (if word = [] then [] else [word])"
| "py_words word (c # cs) =
     (if py_space c then (if word = [] then [] else [word]) @ py_words [] cs else py_words (word @ [c]) cs)"

definition role_values :: "pyval option \<Rightarrow> pyval list option" where
  "role_values raw =
     (case raw of
        None \<Rightarrow> Some []
      | Some (PStr s) \<Rightarrow> Some (map PStr (py_words [] s))
      | Some (PList vs) \<Rightarrow> Some vs
      | Some _ \<Rightarrow> None)"

definition token_principal :: "oidc_config \<Rightarrow> claims \<Rightarrow> string \<Rightarrow> string \<Rightarrow> platform_role list \<Rightarrow> principal" where
  "token_principal config cl kid tenant roles =
     (let sub = (case as_str (pget cl ''sub'') of None \<Rightarrow> [] | Some s \<Rightarrow> s) in
      \<lparr>pr_subject = sub, pr_tenant_id = tenant, pr_roles = roles, pr_scopes = [], pr_auth_method = ''oidc'',
       pr_credential_id = ''oidc:'' @ kid @ '':'' @ sub, pr_attributes = [(''issuer'', PStr (oc_issuer config))]\<rparr>)"

definition principal_from_claims :: "oidc_config \<Rightarrow> claims \<Rightarrow> string \<Rightarrow> oidc_error + principal" where
  "principal_from_claims config cl kid =
     (case pget cl (oc_tenant_claim config) of
        PStr tenant \<Rightarrow>
          if strip tenant = [] then Inl (Oidc_Authentication ''OIDC tenant claim must be a non-empty string'')
          else
            (case role_values (map_of cl (oc_roles_claim config)) of
               None \<Rightarrow> Inl (Oidc_Authentication ''OIDC roles claim must be a string or array'')
             | Some values \<Rightarrow>
                 (case map_res role_of_text (List.map_filter as_str values) of
                    Inl _ \<Rightarrow> Inl (Oidc_Authentication ''OIDC roles claim contains an unsupported role'')
                  | Inr roles \<Rightarrow>
                      if length (remdups roles) \<noteq> length values
                      then Inl (Oidc_Authentication ''OIDC roles claim contains a non-string role'')
                      else
                        case new_principal (token_principal config cl kid tenant roles) of
                          Inl e \<Rightarrow> Inl (Oidc_Raised e)
                        | Inr p \<Rightarrow> Inr p))
      | _ \<Rightarrow> Inl (Oidc_Authentication ''OIDC tenant claim must be a non-empty string''))"

subsection \<open>Authentication\<close>

definition required_claims :: "oidc_config \<Rightarrow> string list" where
  "required_claims config = [''iss'', ''aud'', ''sub'', ''exp''] @ (if oc_require_iat config then [''iat''] else [])"

text \<open>The key for the token: from the cache or a first retrieval, else after one forced refresh.\<close>

definition initial_jwks :: "oidc_world \<Rightarrow> oidc_config \<Rightarrow> oidc_state \<Rightarrow> (oidc_error + pyval) \<times> oidc_state" where
  "initial_jwks w config st =
     (case cache_get w (oc_issuer config) st of
        (Some jwks, st') \<Rightarrow> (Inr jwks, st')
      | (None, st') \<Rightarrow> refresh w (oc_issuer config) False False st')"

definition lookup_key ::
    "oidc_world \<Rightarrow> oidc_config \<Rightarrow> string \<Rightarrow> pyval \<Rightarrow> oidc_state \<Rightarrow> (oidc_error + claims option) \<times> oidc_state" where
  "lookup_key w config kid jwks st =
     (case find_jwk jwks kid of
        Inr None \<Rightarrow>
          (case refresh w (oc_issuer config) True False st of
             (Inl e, st') \<Rightarrow> (Inl e, st')
           | (Inr jwks', st') \<Rightarrow> (find_jwk jwks' kid, st'))
      | r \<Rightarrow> (r, st))"

definition select_key ::
    "oidc_world \<Rightarrow> oidc_config \<Rightarrow> string \<Rightarrow> string \<Rightarrow> oidc_state \<Rightarrow> (oidc_error + claims) \<times> oidc_state" where
  "select_key w config kid algorithm st =
     (case initial_jwks w config st of
        (Inl e, st1) \<Rightarrow> (Inl e, st1)
      | (Inr jwks, st1) \<Rightarrow>
          (case lookup_key w config kid jwks st1 of
             (Inl e, st2) \<Rightarrow> (Inl e, st2)
           | (Inr None, st2) \<Rightarrow> (Inl (Oidc_Authentication ''OIDC signing key is unknown after JWKS refresh''), st2)
           | (Inr (Some jwk), st2) \<Rightarrow>
               if pget jwk ''alg'' \<noteq> PNone \<and> pget jwk ''alg'' \<noteq> PStr algorithm
               then (Inl (Oidc_Authentication ''OIDC signing key algorithm does not match token''), st2)
               else if pget jwk ''use'' \<notin> {PNone, PStr ''sig''}
               then (Inl (Oidc_Authentication ''OIDC key is not authorized for signatures''), st2)
               else (Inr jwk, st2)))"

text \<open>Decoding with that key, and where it fails once more with the key of the same name after a refresh.\<close>

definition decode_token ::
    "oidc_world \<Rightarrow> oidc_config \<Rightarrow> string \<Rightarrow> string \<Rightarrow> string \<Rightarrow> claims \<Rightarrow> oidc_state \<Rightarrow> (oidc_error + claims) \<times> oidc_state" where
  "decode_token w config token kid algorithm jwk st =
     (let decode = (\<lambda>key. jl_decode (ow_jwt w) token key algorithm (required_claims config)) in
      case decode jwk of
        Some cl \<Rightarrow> (Inr cl, st)
      | None \<Rightarrow>
          (case refresh w (oc_issuer config) True True st of
             (Inl e, st') \<Rightarrow> (Inl e, st')
           | (Inr jwks, st') \<Rightarrow>
               (case find_jwk jwks kid of
                  Inl e \<Rightarrow> (Inl e, st')
                | Inr None \<Rightarrow> (Inl (Oidc_Authentication ''OIDC signing key is unknown after JWKS refresh''), st')
                | Inr (Some jwk') \<Rightarrow>
                    (case decode jwk' of
                       None \<Rightarrow> (Inl (Oidc_Authentication ''OIDC token signature or claims are invalid''), st')
                     | Some cl \<Rightarrow> (Inr cl, st')))))"

definition verify_with_key ::
    "oidc_world \<Rightarrow> oidc_config \<Rightarrow> rat \<Rightarrow> string \<Rightarrow> string \<Rightarrow> string \<Rightarrow> oidc_state \<Rightarrow> (oidc_error + principal) \<times> oidc_state" where
  "verify_with_key w config clock token kid algorithm st =
     (case select_key w config kid algorithm st of
        (Inl e, st1) \<Rightarrow> (Inl e, st1)
      | (Inr jwk, st1) \<Rightarrow>
          (case decode_token w config token kid algorithm jwk st1 of
             (Inl e, st2) \<Rightarrow> (Inl e, st2)
           | (Inr cl, st2) \<Rightarrow>
               (bind_res (validate_exact_claims config clock cl) (\<lambda>_. principal_from_claims config cl kid), st2)))"

definition header_checks :: "oidc_config \<Rightarrow> claims \<Rightarrow> oidc_error + (string \<times> string)" where
  "header_checks config header =
     (case as_str (pget header ''kid'') of
        None \<Rightarrow> Inl (Oidc_Authentication ''OIDC token header must contain a non-empty kid'')
      | Some kid \<Rightarrow>
          if kid = [] then Inl (Oidc_Authentication ''OIDC token header must contain a non-empty kid'')
          else
            (case as_str (pget header ''alg'') of
               None \<Rightarrow> Inl (Oidc_Authentication ''OIDC token uses an unapproved algorithm'')
             | Some algorithm \<Rightarrow>
                 if algorithm \<notin> set (oc_algorithms config)
                 then Inl (Oidc_Authentication ''OIDC token uses an unapproved algorithm'')
                 else Inr (kid, algorithm)))"

definition authenticate_token :: "oidc_world \<Rightarrow> oidc_config \<Rightarrow> rat \<Rightarrow> string \<Rightarrow> oidc_state \<Rightarrow> (oidc_error + principal) \<times> oidc_state" where
  "authenticate_token w config clock token st =
     (if token = [] then (Inl (Oidc_Authentication ''OIDC token is required''), st)
      else if \<not> jl_installed (ow_jwt w) then (Inl Oidc_Dependency, st)
      else case jl_header (ow_jwt w) token of
        None \<Rightarrow> (Inl (Oidc_Authentication ''OIDC token has an invalid JOSE header''), st)
      | Some header \<Rightarrow>
          (case header_checks config header of
             Inl e \<Rightarrow> (Inl e, st)
           | Inr (kid, algorithm) \<Rightarrow> verify_with_key w config clock token kid algorithm st))"

subsection \<open>Where keys come from\<close>

text \<open>
  \<open>issued\<close> holds of the key sets the transport has answered and the code has validated. The cache
  holds no others, and so no key is ever used that the issuer has not published.
\<close>

definition issued :: "oidc_world \<Rightarrow> oidc_state \<Rightarrow> pyval \<Rightarrow> bool" where
  "issued w st v \<longleftrightarrow> validate_jwks v = Inr () \<and> (\<exists>n < os_fetches st. ow_transport w n = Some v)"

definition cache_issued :: "oidc_world \<Rightarrow> oidc_state \<Rightarrow> bool" where
  "cache_issued w st \<longleftrightarrow> (\<forall>i t v. map_of (os_values st) i = Some (t, v) \<longrightarrow> issued w st v)"

definition refusal :: "oidc_error \<Rightarrow> bool" where
  "refusal e \<longleftrightarrow> (\<exists>m. e = Oidc_Authentication m)"

text \<open>What a step from one state to the next does: it keeps the cache, and fetches at most \<open>k\<close> times.\<close>

definition step_ok :: "oidc_world \<Rightarrow> nat \<Rightarrow> oidc_state \<Rightarrow> oidc_state \<Rightarrow> bool" where
  "step_ok w k st st' \<longleftrightarrow>
     (cache_issued w st \<longrightarrow> cache_issued w st') \<and> os_fetches st \<le> os_fetches st' \<and> os_fetches st' \<le> os_fetches st + k"

lemma issued_mono: "issued w st v \<Longrightarrow> os_fetches st \<le> os_fetches st' \<Longrightarrow> issued w st' v"
  unfolding issued_def by (meson less_le_trans)

lemma step_okI:
  assumes "os_fetches st \<le> os_fetches st'" "os_fetches st' \<le> os_fetches st + k"
    "\<And>i t v. map_of (os_values st') i = Some (t, v) \<Longrightarrow> map_of (os_values st) i = Some (t, v) \<or> issued w st' v"
  shows "step_ok w k st st'"
  unfolding step_ok_def cache_issued_def
proof (intro conjI impI allI)
  fix i t v assume "\<forall>i t v. map_of (os_values st) i = Some (t, v) \<longrightarrow> issued w st v" "map_of (os_values st') i = Some (t, v)"
  then show "issued w st' v" using assms(3) [of i t v] issued_mono [OF _ assms(1)] by blast
qed (use assms in auto)

lemma step_ok_trans: "step_ok w j st st' \<Longrightarrow> step_ok w k st' st'' \<Longrightarrow> step_ok w (j + k) st st''"
  by (auto simp: step_ok_def)

lemma step_ok_refl [simp]: "step_ok w k st st"
  by (simp add: step_ok_def)

lemma step_ok_weaken: "step_ok w j st st' \<Longrightarrow> j \<le> k \<Longrightarrow> step_ok w k st st'"
  by (auto simp: step_ok_def)

lemma validate_jwks_refusal: "validate_jwks v = Inl e \<Longrightarrow> refusal e"
  by (auto simp: validate_jwks_def refusal_def split: pyval.splits option.splits if_splits)

lemma cache_get_ok:
  assumes "cache_get w i st = (r, st')"
  shows "step_ok w 0 st st'" "cache_issued w st \<Longrightarrow> r = Some v \<Longrightarrow> issued w st' v"
proof -
  have f: "os_fetches st' = os_fetches st" "\<And>k x. map_of (os_values st') k = Some x \<Longrightarrow> map_of (os_values st) k = Some x"
    using assms by (auto simp: cache_get_def Let_def delete_conv' split: option.splits prod.splits if_splits)
  show "step_ok w 0 st st'" by (rule step_okI) (use f in auto)
  have "r = Some v \<Longrightarrow> \<exists>t. map_of (os_values st) i = Some (t, v)"
    using assms by (auto simp: cache_get_def Let_def split: option.splits prod.splits if_splits)
  then show "cache_issued w st \<Longrightarrow> r = Some v \<Longrightarrow> issued w st' v"
    using f(1) by (auto simp: cache_issued_def issued_def)
qed

lemma fetch_jwks_ok:
  assumes "fetch_jwks w i t st = (r, st')"
  shows "step_ok w 1 st st'" "r = Inr v \<Longrightarrow> issued w st' v" "r = Inl e \<Longrightarrow> refusal e"
proof -
  consider (none) "ow_transport w (os_fetches st) = None"
    | (bad) v e where "ow_transport w (os_fetches st) = Some v" "validate_jwks v = Inl e"
    | (good) v where "ow_transport w (os_fetches st) = Some v" "validate_jwks v = Inr ()"
    by (metis (full_types) old.unit.exhaust option.exhaust sum.exhaust)
  then have "step_ok w 1 st st' \<and> (\<forall>v. r = Inr v \<longrightarrow> issued w st' v) \<and> (\<forall>e. r = Inl e \<longrightarrow> refusal e)"
  proof cases
    case none
    then have "st' = st\<lparr>os_fetches := Suc (os_fetches st)\<rparr>" "r = Inl (Oidc_Authentication ''OIDC JWKS retrieval failed'')"
      using assms by (auto simp: fetch_jwks_def Let_def)
    then show ?thesis by (auto intro: step_okI simp: refusal_def)
  next
    case bad
    then have "st' = st\<lparr>os_fetches := Suc (os_fetches st)\<rparr>" "r = Inl e" using assms by (auto simp: fetch_jwks_def Let_def)
    then show ?thesis using validate_jwks_refusal [OF bad(2)] by (auto intro: step_okI)
  next
    case good
    then have st': "os_fetches st' = Suc (os_fetches st)" "r = Inr v"
        "os_values st' = AList.update i (ow_mono w (os_ticks st) + ow_ttl w, v) (os_values st)"
      using assms by (auto simp: fetch_jwks_def Let_def cache_set_def)
    then have "issued w st' v" using good by (auto simp: issued_def)
    moreover from this have "step_ok w 1 st st'" by (intro step_okI) (auto simp: st' update_conv' split: if_splits)
    ultimately show ?thesis using st'(2) by auto
  qed
  then show "step_ok w 1 st st'" "r = Inr v \<Longrightarrow> issued w st' v" "r = Inl e \<Longrightarrow> refusal e" by blast+
qed

text \<open>A refresh answers from the cache or from the transport, and fetches at most once.\<close>

lemma refresh_cases:
  assumes "refresh w i force imm st = (r, st')" "cache_get w i st = (c, st1)"
  shows "(\<exists>v n. c = Some v \<and> r = Inr v \<and> st' = st1\<lparr>os_ticks := n\<rparr>)
    \<or> (\<exists>t. fetch_jwks w i t (st1\<lparr>os_ticks := Suc (os_ticks st1)\<rparr>) = (r, st'))"
proof (cases c)
  case None
  then show ?thesis using assms by (auto simp: refresh_def Let_def split: bool.splits)
next
  case (Some v)
  show ?thesis
  proof (cases force)
    case True
    then show ?thesis using assms Some by (fastforce simp: refresh_def Let_def split: if_splits)
  next
    case False
    then have "r = Inr v" "st' = st1" using assms Some by (auto simp: refresh_def)
    moreover have "st1 = st1\<lparr>os_ticks := os_ticks st1\<rparr>" by simp
    ultimately show ?thesis using Some by metis
  qed
qed

lemma ticks_ok: "step_ok w 0 st (st\<lparr>os_ticks := n\<rparr>)" "issued w (st\<lparr>os_ticks := n\<rparr>) v = issued w st v"
  by (auto intro: step_okI simp: issued_def)

lemma refresh_ok:
  assumes "refresh w i force imm st = (r, st')"
  shows "step_ok w 1 st st'" "cache_issued w st \<Longrightarrow> r = Inr v \<Longrightarrow> issued w st' v" "r = Inl e \<Longrightarrow> refusal e"
proof -
  obtain c st1 where c: "cache_get w i st = (c, st1)" by (cases "cache_get w i st")
  note get = cache_get_ok [OF c]
  from refresh_cases [OF assms c]
  have "step_ok w 1 st st' \<and> (cache_issued w st \<longrightarrow> r = Inr v \<longrightarrow> issued w st' v) \<and> (r = Inl e \<longrightarrow> refusal e)"
  proof (elim disjE exE conjE)
    fix u n assume u: "c = Some u" "r = Inr u" "st' = st1\<lparr>os_ticks := n\<rparr>"
    then have "step_ok w 1 st st'" using step_ok_trans [OF get(1) ticks_ok(1), of n] by (auto intro: step_ok_weaken)
    then show ?thesis using u get(2) by (auto simp: ticks_ok)
  next
    fix t assume f: "fetch_jwks w i t (st1\<lparr>os_ticks := Suc (os_ticks st1)\<rparr>) = (r, st')"
    note f' = fetch_jwks_ok [OF f]
    have "step_ok w 1 st st'" using step_ok_trans [OF step_ok_trans [OF get(1) ticks_ok(1)] f'(1)] by simp
    then show ?thesis using f'(2,3) by blast
  qed
  then show "step_ok w 1 st st'" "cache_issued w st \<Longrightarrow> r = Inr v \<Longrightarrow> issued w st' v" "r = Inl e \<Longrightarrow> refusal e" by blast+
qed

text \<open>A key is published where an issued key set holds it under its name.\<close>

definition published :: "oidc_world \<Rightarrow> oidc_state \<Rightarrow> string \<Rightarrow> claims \<Rightarrow> bool" where
  "published w st kid k \<longleftrightarrow>
     (\<exists>jwks ks. issued w st jwks \<and> jwks_keys jwks = Some ks \<and> k \<in> set ks \<and> pget k ''kid'' = PStr kid)"

lemma find_jwk_ok:
  "find_jwk v kid = Inl e \<Longrightarrow> refusal e"
  "issued w st v \<Longrightarrow> find_jwk v kid = Inr (Some k) \<Longrightarrow> published w st kid k"
proof -
  show "find_jwk v kid = Inl e \<Longrightarrow> refusal e" by (auto simp: find_jwk_def bind_res_eq_Inl dest: validate_jwks_refusal)
  assume v: "issued w st v" "find_jwk v kid = Inr (Some k)"
  then obtain ks where ks: "jwks_keys v = Some ks" "List.find (\<lambda>k. pget k ''kid'' = PStr kid) ks = Some k"
    by (auto simp: find_jwk_def bind_res_eq_Inr split: option.splits)
  with v(1) find_some_in [OF ks(2)] show "published w st kid k" by (auto simp: published_def)
qed

lemma published_mono: "published w st kid k \<Longrightarrow> os_fetches st \<le> os_fetches st' \<Longrightarrow> published w st' kid k"
  unfolding published_def by (meson issued_mono)

lemma initial_jwks_ok:
  assumes "initial_jwks w config st = (r, st')" "cache_issued w st"
  shows "step_ok w 1 st st'" "r = Inr v \<Longrightarrow> issued w st' v" "r = Inl e \<Longrightarrow> refusal e"
proof -
  obtain c st1 where c: "cache_get w (oc_issuer config) st = (c, st1)" by (cases "cache_get w (oc_issuer config) st")
  note get = cache_get_ok [OF c]
  have st1: "cache_issued w st1" using get(1) assms(2) by (simp add: step_ok_def)
  have "step_ok w 1 st st' \<and> (r = Inr v \<longrightarrow> issued w st' v) \<and> (r = Inl e \<longrightarrow> refusal e)"
  proof (cases c)
    case None
    then have r: "refresh w (oc_issuer config) False False st1 = (r, st')" using assms(1) c by (simp add: initial_jwks_def)
    show ?thesis using step_ok_trans [OF get(1) refresh_ok(1) [OF r]] refresh_ok(2,3) [OF r] st1 by auto
  next
    case (Some u)
    then have "r = Inr u" "st' = st1" using assms(1) c by (auto simp: initial_jwks_def)
    then show ?thesis using get Some assms(2) by (auto intro: step_ok_weaken)
  qed
  then show "step_ok w 1 st st'" "r = Inr v \<Longrightarrow> issued w st' v" "r = Inl e \<Longrightarrow> refusal e" by blast+
qed

lemma lookup_key_ok:
  assumes "lookup_key w config kid jwks st = (r, st')" "cache_issued w st" "issued w st jwks"
  shows "step_ok w 1 st st'" "r = Inr (Some k) \<Longrightarrow> published w st' kid k" "r = Inl e \<Longrightarrow> refusal e"
proof -
  have "step_ok w 1 st st' \<and> (r = Inr (Some k) \<longrightarrow> published w st' kid k) \<and> (r = Inl e \<longrightarrow> refusal e)"
  proof (cases "find_jwk jwks kid = Inr None")
    case True
    obtain r' st1 where r': "refresh w (oc_issuer config) True False st = (r', st1)"
      by (cases "refresh w (oc_issuer config) True False st")
    show ?thesis
    proof (cases r')
      case (Inl x)
      then have "r = Inl x" "st' = st1" using True assms(1) r' by (auto simp: lookup_key_def)
      then show ?thesis using refresh_ok [OF r'] Inl by auto
    next
      case (Inr v)
      then have "r = find_jwk v kid" "st' = st1" using True assms(1) r' by (auto simp: lookup_key_def)
      then show ?thesis using refresh_ok [OF r'] Inr find_jwk_ok(1) [of v kid] find_jwk_ok(2) [of w st1 v kid] assms(2) by auto
    qed
  next
    case False
    then have "r = find_jwk jwks kid" "st' = st"
      using assms(1) by (auto simp: lookup_key_def split: sum.splits option.splits)
    then show ?thesis using find_jwk_ok(1) [of jwks kid] find_jwk_ok(2) [of w st jwks kid] assms(3) by auto
  qed
  then show "step_ok w 1 st st'" "r = Inr (Some k) \<Longrightarrow> published w st' kid k" "r = Inl e \<Longrightarrow> refusal e" by blast+
qed

lemma select_key_ok:
  assumes "select_key w config kid algorithm st = (r, st')" "cache_issued w st"
  shows "step_ok w 2 st st'" "r = Inr k \<Longrightarrow> published w st' kid k" "r = Inl e \<Longrightarrow> refusal e"
proof -
  obtain r1 st1 where 1: "initial_jwks w config st = (r1, st1)" by (cases "initial_jwks w config st")
  note i = initial_jwks_ok [OF 1 assms(2)]
  have "step_ok w 2 st st' \<and> (r = Inr k \<longrightarrow> published w st' kid k) \<and> (r = Inl e \<longrightarrow> refusal e)"
  proof (cases r1)
    case (Inl x)
    then have "r = Inl x" "st' = st1" using 1 assms(1) by (auto simp: select_key_def)
    then show ?thesis using i(1,3) Inl by (auto intro: step_ok_weaken)
  next
    case (Inr jwks)
    obtain r2 st2 where 2: "lookup_key w config kid jwks st1 = (r2, st2)" by (cases "lookup_key w config kid jwks st1")
    have "cache_issued w st1" using i(1) assms(2) by (simp add: step_ok_def)
    note l = lookup_key_ok [OF 2 this i(2) [OF Inr]]
    have s: "step_ok w 2 st st2" using step_ok_trans [OF i(1) l(1)] by (simp add: numeral_2_eq_2)
    have "st' = st2" "r = Inr k \<Longrightarrow> r2 = Inr (Some k)" "r = Inl e \<Longrightarrow> r2 = Inl e \<or> refusal e"
      using assms(1) 1 2 Inr by (auto simp: select_key_def refusal_def split: sum.splits option.splits if_splits)
    then show ?thesis using s l(2,3) by blast
  qed
  then show "step_ok w 2 st st'" "r = Inr k \<Longrightarrow> published w st' kid k" "r = Inl e \<Longrightarrow> refusal e" by blast+
qed

lemma decode_token_ok:
  assumes "decode_token w config token kid algorithm k st = (r, st')" "cache_issued w st" "published w st kid k"
  shows "step_ok w 1 st st'" "r = Inl e \<Longrightarrow> refusal e"
    "r = Inr cl \<Longrightarrow> \<exists>k'. published w st' kid k' \<and> jl_decode (ow_jwt w) token k' algorithm (required_claims config) = Some cl"
proof -
  let ?d = "\<lambda>k. jl_decode (ow_jwt w) token k algorithm (required_claims config)"
  have "step_ok w 1 st st' \<and> (r = Inl e \<longrightarrow> refusal e)
      \<and> (r = Inr cl \<longrightarrow> (\<exists>k'. published w st' kid k' \<and> ?d k' = Some cl))"
  proof (cases "?d k")
    case (Some c)
    then have "r = Inr c" "st' = st" using assms(1) by (auto simp: decode_token_def Let_def)
    then show ?thesis using Some assms(3) by auto
  next
    case None
    obtain r1 st1 where 1: "refresh w (oc_issuer config) True True st = (r1, st1)" by (cases "refresh w (oc_issuer config) True True st")
    note f = refresh_ok [OF 1]
    have st': "st' = st1"
      using None assms(1) 1 by (auto simp: decode_token_def Let_def split: sum.splits option.splits)
    show ?thesis
    proof (cases r1)
      case (Inl x)
      then have "r = Inl x" using None assms(1) 1 by (auto simp: decode_token_def Let_def)
      then show ?thesis using f st' Inl by auto
    next
      case (Inr v)
      then have v: "issued w st1 v" using f(2) assms(2) by blast
      have "r = Inl e \<Longrightarrow> find_jwk v kid = Inl e \<or> refusal e"
        "r = Inr cl \<Longrightarrow> \<exists>k'. find_jwk v kid = Inr (Some k') \<and> ?d k' = Some cl"
        using None assms(1) 1 Inr by (auto simp: decode_token_def Let_def refusal_def split: sum.splits option.splits)
      then show ?thesis using f(1) st' find_jwk_ok(1) [of v kid e] find_jwk_ok(2) [OF v] by blast
    qed
  qed
  then show "step_ok w 1 st st'" "r = Inl e \<Longrightarrow> refusal e"
    "r = Inr cl \<Longrightarrow> \<exists>k'. published w st' kid k' \<and> jl_decode (ow_jwt w) token k' algorithm (required_claims config) = Some cl"
    by blast+
qed

subsection \<open>Who a token speaks for\<close>

text \<open>
  What the claims of an accepted token say, apart from the signature. An expiry is a number
  that lies after the bound, plus infinity, or NaN; a start is absent, a number not after the
  bound, minus infinity, or NaN.
\<close>

definition ends_after :: "pyval \<Rightarrow> rat \<Rightarrow> bool" where
  "ends_after v t \<longleftrightarrow> (case numeric_date v of
     None \<Rightarrow> False | Some (Inl q) \<Rightarrow> t < q | Some (Inr x) \<Rightarrow> x = Plus_Infinity \<or> x = Not_A_Number)"

definition starts_by :: "pyval \<Rightarrow> rat \<Rightarrow> bool" where
  "starts_by v t \<longleftrightarrow> (case numeric_date v of
     None \<Rightarrow> v = PNone | Some (Inl q) \<Rightarrow> q \<le> t | Some (Inr x) \<Rightarrow> x = Minus_Infinity \<or> x = Not_A_Number)"

definition claims_accepted :: "oidc_config \<Rightarrow> rat \<Rightarrow> claims \<Rightarrow> bool" where
  "claims_accepted config clock cl \<longleftrightarrow>
     pget cl ''iss'' = PStr (oc_issuer config) \<and> audience_matches (oc_audience config) (pget cl ''aud'')
     \<and> (\<exists>s. pget cl ''sub'' = PStr s \<and> strip s \<noteq> [])
     \<and> ends_after (pget cl ''exp'') (clock - of_int (oc_leeway_seconds config))
     \<and> starts_by (pget cl ''iat'') (clock + of_int (oc_leeway_seconds config))
     \<and> (oc_require_iat config \<longrightarrow> pget cl ''iat'' \<noteq> PNone)
     \<and> starts_by (pget cl ''nbf'') (clock + of_int (oc_leeway_seconds config))"

definition claimed_principal :: "oidc_config \<Rightarrow> claims \<Rightarrow> principal \<Rightarrow> bool" where
  "claimed_principal config cl p \<longleftrightarrow>
     (\<exists>tenant sub values. pget cl (oc_tenant_claim config) = PStr tenant \<and> pr_tenant_id p = strip tenant
        \<and> pget cl ''sub'' = PStr sub \<and> pr_subject p = strip sub
        \<and> role_values (map_of cl (oc_roles_claim config)) = Some values \<and> values = map (\<lambda>r. PStr (role_text r)) (pr_roles p)
        \<and> distinct (pr_roles p) \<and> pr_scopes p = [] \<and> pr_auth_method p = ''oidc'')"

lemma ends_after_iff:
  "ends_after v t \<longleftrightarrow> numeric_date v \<noteq> None \<and> \<not> (case numeric_date v of Some d \<Rightarrow> date_le d t | None \<Rightarrow> False)"
  by (auto simp: ends_after_def not_le split: option.split sum.split) (metis non_finite.exhaust)+

lemma starts_by_iff: "starts_by v t \<longleftrightarrow> (v = PNone \<or> numeric_date v \<noteq> None) \<and> \<not> beyond v t"
  by (cases v) (auto simp: starts_by_def beyond_def not_le intro: non_finite.exhaust)

lemma validate_exact_claims_ok: "validate_exact_claims config clock cl = Inr u \<Longrightarrow> claims_accepted config clock cl"
proof -
  assume a: "validate_exact_claims config clock cl = Inr u"
  let ?s = "as_str (pget cl ''sub'')"
  have sub: "\<not> (case ?s of None \<Rightarrow> True | Some s \<Rightarrow> strip s = [])"
    and e: "\<not> (case numeric_date (pget cl ''exp'') of
                 Some d \<Rightarrow> date_le d (clock - of_int (oc_leeway_seconds config)) | None \<Rightarrow> False)"
    using a unfolding validate_exact_claims_def by (meson sum.distinct(1))+
  have rest: "pget cl ''iss'' = PStr (oc_issuer config)" "audience_matches (oc_audience config) (pget cl ''aud'')"
     "list_all (date_typed config cl) [''exp'', ''iat'', ''nbf'']"
     "\<not> beyond (pget cl ''iat'') (clock + of_int (oc_leeway_seconds config))"
     "\<not> beyond (pget cl ''nbf'') (clock + of_int (oc_leeway_seconds config))"
    using a unfolding validate_exact_claims_def by (meson sum.distinct(1))+
  have "\<exists>s. pget cl ''sub'' = PStr s \<and> strip s \<noteq> []" using sub by (cases ?s) auto
  moreover have "ends_after (pget cl ''exp'') (clock - of_int (oc_leeway_seconds config))"
    using e rest(3) by (auto simp: ends_after_iff date_typed_def)
  moreover have "starts_by (pget cl ''iat'') (clock + of_int (oc_leeway_seconds config))"
    "starts_by (pget cl ''nbf'') (clock + of_int (oc_leeway_seconds config))"
    "oc_require_iat config \<longrightarrow> pget cl ''iat'' \<noteq> PNone"
    using rest(3-5) by (auto simp: starts_by_iff date_typed_def)
  ultimately show ?thesis using rest(1,2) unfolding claims_accepted_def by blast
qed

lemma validate_exact_claims_refusal: "validate_exact_claims config clock cl = Inl e \<Longrightarrow> refusal e"
  by (auto simp: validate_exact_claims_def refusal_def split: if_splits)

lemma map_filter_as_str:
  "length (List.map_filter as_str vs) \<le> length vs \<and>
     (length (List.map_filter as_str vs) = length vs \<longrightarrow> vs = map PStr (List.map_filter as_str vs))"
proof (induction vs)
  case (Cons v vs)
  then show ?case by (cases "as_str v") (auto simp: map_filter_simps)
qed (simp add: map_filter_simps)

lemma role_values_ok:
  assumes "map_res role_of_text (List.map_filter as_str vs) = Inr roles" "length (remdups roles) = length vs"
  shows "vs = map (\<lambda>r. PStr (role_text r)) roles" "distinct roles"
proof -
  have names: "List.map_filter as_str vs = map role_text roles" using map_res_roles [OF assms(1)] .
  have "length (remdups roles) \<le> length roles" by simp
  then have len: "length roles = length vs"
    using map_filter_as_str [of vs] names assms(2) by (metis le_antisym length_map)
  then show "distinct roles" using assms(2) by (metis distinct_remdups length_remdups_eq)
  show "vs = map (\<lambda>r. PStr (role_text r)) roles" using map_filter_as_str [of vs] names len by (simp add: comp_def)
qed

lemma principal_from_claims_cases:
  assumes "claims_accepted config clock cl"
  shows "principal_from_claims config cl kid = Inr p \<Longrightarrow> claimed_principal config cl p"
    "principal_from_claims config cl kid = Inl e \<Longrightarrow> refusal e"
proof -
  obtain sub where sub: "pget cl ''sub'' = PStr sub" "strip sub \<noteq> []" using assms by (auto simp: claims_accepted_def)
  have named_oidc: "strip ''oidc'' \<noteq> []" by code_simp
  show "claimed_principal config cl p" if ok: "principal_from_claims config cl kid = Inr p"
  proof -
    obtain tenant vs roles where t: "pget cl (oc_tenant_claim config) = PStr tenant"
        and vs: "role_values (map_of cl (oc_roles_claim config)) = Some vs"
        and r: "map_res role_of_text (List.map_filter as_str vs) = Inr roles" "length (remdups roles) = length vs"
        and n: "new_principal (token_principal config cl kid tenant roles) = Inr p"
      using ok by (auto simp: principal_from_claims_def split: pyval.splits if_splits option.splits sum.splits)
    have "pr_subject (token_principal config cl kid tenant roles) = sub" "pr_tenant_id (token_principal config cl kid tenant roles) = tenant"
      "pr_roles (token_principal config cl kid tenant roles) = roles" "pr_scopes (token_principal config cl kid tenant roles) = []"
      "pr_auth_method (token_principal config cl kid tenant roles) = ''oidc''"
      by (simp_all add: token_principal_def sub)
    then show ?thesis
      using role_values_ok [OF r] sub(1) t vs n unfolding claimed_principal_def new_principal_ok by auto
  qed
  show "refusal e" if "principal_from_claims config cl kid = Inl e"
    using that sub named_oidc
    by (auto simp: principal_from_claims_def Let_def refusal_def new_principal_def token_principal_def split: pyval.splits if_splits option.splits sum.splits)
qed

text \<open>The token passes the header checks under a key name and an algorithm.\<close>

definition token_header :: "oidc_world \<Rightarrow> oidc_config \<Rightarrow> string \<Rightarrow> string \<Rightarrow> string \<Rightarrow> bool" where
  "token_header w config token kid algorithm \<longleftrightarrow>
     (\<exists>header. jl_header (ow_jwt w) token = Some header \<and> pget header ''kid'' = PStr kid \<and> kid \<noteq> []
        \<and> pget header ''alg'' = PStr algorithm \<and> algorithm \<in> set (oc_algorithms config))"

lemma header_checks_ok:
  assumes "jl_header (ow_jwt w) token = Some header"
  shows "header_checks config header = Inr (kid, algorithm) \<Longrightarrow> token_header w config token kid algorithm"
    "header_checks config header = Inl e \<Longrightarrow> refusal e"
  using assms by (auto simp: header_checks_def token_header_def refusal_def split: option.splits if_splits)

lemma authenticate_token_cases:
  assumes "authenticate_token w config clock token st = (r, st')"
  shows "(\<exists>e. r = Inl e \<and> st' = st \<and> (refusal e \<or> e = Oidc_Dependency \<and> \<not> jl_installed (ow_jwt w)))
    \<or> (\<exists>kid algorithm. token_header w config token kid algorithm
        \<and> verify_with_key w config clock token kid algorithm st = (r, st'))"
proof (cases "token \<noteq> [] \<and> jl_installed (ow_jwt w) \<and> jl_header (ow_jwt w) token \<noteq> None")
  case True
  then obtain header where h: "jl_header (ow_jwt w) token = Some header" by auto
  show ?thesis
  proof (cases "header_checks config header")
    case (Inl e)
    then show ?thesis using assms True h header_checks_ok(2) [OF h Inl] by (auto simp: authenticate_token_def)
  next
    case (Inr x)
    obtain kid algorithm where x: "x = (kid, algorithm)" by (cases x)
    have "token_header w config token kid algorithm" using header_checks_ok(1) [OF h] Inr x by blast
    then show ?thesis using assms True h Inr x by (auto simp: authenticate_token_def)
  qed
next
  case False
  then show ?thesis using assms by (auto simp: authenticate_token_def refusal_def split: option.splits if_splits)
qed

definition token_accepted :: "oidc_world \<Rightarrow> oidc_config \<Rightarrow> rat \<Rightarrow> string \<Rightarrow> oidc_state \<Rightarrow> principal \<Rightarrow> bool" where
  "token_accepted w config clock token st p \<longleftrightarrow>
     (\<exists>kid algorithm k cl. token_header w config token kid algorithm \<and> published w st kid k
        \<and> jl_decode (ow_jwt w) token k algorithm (required_claims config) = Some cl
        \<and> claims_accepted config clock cl \<and> claimed_principal config cl p)"

lemma verify_with_key_ok:
  assumes "verify_with_key w config clock token kid algorithm st = (r, st')" "cache_issued w st"
    "token_header w config token kid algorithm"
  shows "step_ok w 3 st st' \<and> (\<forall>e. r = Inl e \<longrightarrow> refusal e) \<and> (\<forall>p. r = Inr p \<longrightarrow> token_accepted w config clock token st' p)"
proof -
  obtain r1 st1 where 1: "select_key w config kid algorithm st = (r1, st1)" by (cases "select_key w config kid algorithm st")
  note k = select_key_ok [OF 1 assms(2)]
  show ?thesis
  proof (cases r1)
    case (Inl x)
    then have "r = Inl x" "st' = st1" using assms(1) 1 by (auto simp: verify_with_key_def)
    then show ?thesis using k(1,3) Inl by (auto intro: step_ok_weaken)
  next
    case (Inr jwk)
    obtain r2 st2 where 2: "decode_token w config token kid algorithm jwk st1 = (r2, st2)"
      by (cases "decode_token w config token kid algorithm jwk st1")
    have "cache_issued w st1" using k(1) assms(2) by (simp add: step_ok_def)
    note d = decode_token_ok [OF 2 this k(2) [OF Inr]]
    have s: "step_ok w 3 st st2" using step_ok_trans [OF k(1) d(1)] by (simp add: numeral_3_eq_3)
    show ?thesis
    proof (cases r2)
      case (Inl x)
      then have "r = Inl x" "st' = st2" using assms(1) 1 2 Inr by (auto simp: verify_with_key_def)
      then show ?thesis using s d(2) Inl by auto
    next
      case cl: (Inr cl)
      have r: "r = bind_res (validate_exact_claims config clock cl) (\<lambda>_. principal_from_claims config cl kid)" "st' = st2"
        using assms(1) 1 2 Inr cl by (auto simp: verify_with_key_def)
      show ?thesis
      proof (cases "validate_exact_claims config clock cl")
        case (Inl x)
        then show ?thesis using r s validate_exact_claims_refusal [OF Inl] by simp
      next
        case (Inr u)
        note v = validate_exact_claims_ok [OF Inr]
        have "token_accepted w config clock token st' p" if "r = Inr p" for p
        proof -
          have "principal_from_claims config cl kid = Inr p" using that r(1) Inr by simp
          then have "claimed_principal config cl p" by (rule principal_from_claims_cases(1) [OF v])
          then show ?thesis using d(3) [OF cl] v assms(3) r(2) unfolding token_accepted_def by blast
        qed
        then show ?thesis using r s Inr principal_from_claims_cases(2) [OF v] by simp
      qed
    qed
  qed
qed

text \<open>
  C21. A token is accepted only on what the issuer published. With a cache filled by nothing but
  its own retrievals, which every call keeps so, a call that returns a principal has found the
  token's claims under a key of that name which the issuer's endpoint has answered, with an
  approved algorithm; the claims name the issuer and the audience exactly, and the principal
  has their subject, tenant and roles and no scopes. Up to the configured leeway the expiry
  lies after the clock and neither the issue date, which is there when it is required, nor the
  start of validity lies after it, where a date may also be infinite on the right side, or NaN,
  which passes every check.
  Every other outcome is an authentication error, save that the JWT library may be missing,
  and no call retrieves the key set more than three times.
\<close>

theorem token_identity:
  assumes "cache_issued w st" "authenticate_token w config clock token st = (r, st')"
  shows "cache_issued w st' \<and> os_fetches st' \<le> os_fetches st + 3
    \<and> (\<forall>p. r = Inr p \<longrightarrow> token_accepted w config clock token st' p)
    \<and> (\<forall>e. r = Inl e \<longrightarrow> refusal e \<or> e = Oidc_Dependency \<and> \<not> jl_installed (ow_jwt w))"
  using authenticate_token_cases [OF assms(2)]
proof (elim disjE exE conjE)
  fix kid algorithm
  assume "token_header w config token kid algorithm" "verify_with_key w config clock token kid algorithm st = (r, st')"
  from verify_with_key_ok [OF this(2) assms(1) this(1)] show ?thesis using assms(1) by (auto simp: step_ok_def)
qed (use assms(1) in auto)

subsection \<open>Runs\<close>

text \<open>
  A key set with one key \<open>k1\<close> of the given kind of material and use; a token is the text of the material it
  was signed with.
\<close>

definition sample_jwks :: "string \<Rightarrow> string \<Rightarrow> pyval" where
  "sample_jwks material use =
     PDict [(''keys'', PList [PDict [(''kid'', PStr ''k1''), (''use'', PStr use), (''x'', PStr material)]])]"

definition sample_claims :: "pyval \<Rightarrow> claims" where
  "sample_claims roles =
     [(''iss'', PStr ''https://idp''), (''aud'', PStr ''aegis''), (''sub'', PStr ''alice''), (''exp'', PInt 100), (''iat'', PInt 1),
      (''tenant_id'', PStr ''acme''), (''roles'', roles)]"

definition sample_jwt :: "pyval \<Rightarrow> jwt_lib" where
  "sample_jwt roles =
     \<lparr>jl_installed = True, jl_header = (\<lambda>_. Some [(''kid'', PStr ''k1''), (''alg'', PStr ''RS256'')]),
      jl_decode = (\<lambda>token key _ _. if pget key ''x'' = PStr token then Some (sample_claims roles) else None)\<rparr>"

definition sample_world :: "pyval \<Rightarrow> oidc_world" where
  "sample_world roles =
     \<lparr>ow_jwt = sample_jwt roles,
      ow_transport = (\<lambda>n. if n = 0 then Some (sample_jwks ''old'' ''sig'') else Some (sample_jwks ''new'' ''enc'')),
      ow_mono = (\<lambda>n. of_nat n), ow_ttl = 300\<rparr>"

definition sample_oidc :: oidc_config where
  "sample_oidc =
     \<lparr>oc_issuer = ''https://idp'', oc_audience = ''aegis'', oc_algorithms = [''RS256''], oc_tenant_claim = ''tenant_id'',
      oc_roles_claim = ''roles'', oc_leeway_seconds = 0, oc_require_iat = True\<rparr>"

definition fresh_oidc :: oidc_state where
  "fresh_oidc = \<lparr>os_values = [], os_last_refresh = None, os_ticks = 0, os_fetches = 0\<rparr>"

definition warm_oidc :: oidc_state where
  "warm_oidc =
     \<lparr>os_values = [(''https://idp'', (300, sample_jwks ''old'' ''sig''))], os_last_refresh = Some 0, os_ticks = 2, os_fetches = 1\<rparr>"

lemma fresh_cache_issued: "cache_issued w fresh_oidc"
  by (simp add: cache_issued_def fresh_oidc_def)

lemma sample_authenticated:
  "case authenticate_token (sample_world (PStr ''auditor'')) sample_oidc 50 ''old'' fresh_oidc of
     (Inl _, _) \<Rightarrow> False | (Inr p, st') \<Rightarrow> pr_roles p = [Auditor] \<and> os_fetches st' = 1"
  by code_simp

theorem token_identity_witness:
  "\<exists>p st'. authenticate_token (sample_world (PStr ''auditor'')) sample_oidc 50 ''old'' fresh_oidc = (Inr p, st')
     \<and> token_accepted (sample_world (PStr ''auditor'')) sample_oidc 50 ''old'' st' p"
proof -
  obtain p st' where p: "authenticate_token (sample_world (PStr ''auditor'')) sample_oidc 50 ''old'' fresh_oidc = (Inr p, st')"
    using sample_authenticated by (auto split: prod.splits sum.splits)
  from token_identity [OF fresh_cache_issued p] have "token_accepted (sample_world (PStr ''auditor'')) sample_oidc 50 ''old'' st' p"
    by simp
  with p show ?thesis by blast
qed

text \<open>
  The key that a refresh after a failed decoding brings is used without the checks the first key had
  to pass: here one published for encryption. The same run shows that a cache hit may end in a
  retrieval, the restraint of one second notwithstanding.
\<close>

lemma refreshed_key_unchecked:
  "(case authenticate_token (sample_world (PStr ''auditor'')) sample_oidc 50 ''new'' warm_oidc of
      (Inl _, _) \<Rightarrow> False | (Inr p, st') \<Rightarrow> pr_subject p = ''alice'' \<and> os_fetches st' = 2)
   \<and> (case select_key (sample_world (PStr ''auditor'')) sample_oidc ''k1'' ''RS256'' (fresh_oidc\<lparr>os_fetches := 1\<rparr>) of
        (Inl e, _) \<Rightarrow> e = Oidc_Authentication ''OIDC key is not authorized for signatures'' | _ \<Rightarrow> False)"
  by code_simp

text \<open>A role named twice is refused as a non-string role.\<close>

lemma repeated_role_refused:
  "fst (authenticate_token (sample_world (PStr ''auditor auditor'')) sample_oidc 50 ''old'' fresh_oidc)
     = Inl (Oidc_Authentication ''OIDC roles claim contains a non-string role'')"
  by code_simp

text \<open>
  An expiry that is NaN never passes; minus infinity is refused as expired, and plus infinity
  as an issue date is refused as lying in the future.
\<close>

lemma nan_never_expires:
  "validate_exact_claims sample_oidc clock
     [(''iss'', PStr ''https://idp''), (''aud'', PStr ''aegis''), (''sub'', PStr ''alice''), (''exp'', PNonFinite Not_A_Number), (''iat'', PNonFinite Not_A_Number)] = Inr ()"
proof -
  have "strip ''alice'' = ''alice''" by code_simp
  then show ?thesis
    by (simp add: validate_exact_claims_def sample_oidc_def pget.simps audience_matches_def date_typed_def beyond_def)
qed

lemma infinite_dates_refused:
  "pget cl ''exp'' = PNonFinite Minus_Infinity \<or> pget cl ''iat'' = PNonFinite Plus_Infinity \<or> pget cl ''nbf'' = PNonFinite Plus_Infinity
     \<Longrightarrow> validate_exact_claims config clock cl \<noteq> Inr u"
  using validate_exact_claims_ok [of config clock cl u] by (auto simp: claims_accepted_def ends_after_def starts_by_def)

end
