(* ===== verification/Authenticate.thy ===== *)
theory Authenticate
  imports Mtls Oidc
begin

section \<open>Authenticating a request\<close>

text \<open>
  The model of \<^verbatim>\<open>aegis/proxy/dependencies.py\<close>, which turns a request into a principal by the configured mechanism
  (API key, OIDC token, client certificate, or two of them), caches it on the request, and asks it for scopes and a
  tenant; and of the start-up checks of \<^verbatim>\<open>config.py\<close> that concern it. \<open>auth_failure\<close> is an HTTP answer or an
  exception no handler of the code turns into one. What the components of the request path
  need is collected in \<open>auth_world\<close>; the state of the OIDC manager is passed along.
\<close>

datatype auth_failure = Http nat string | Unhandled exn

record auth_request =
  rq_headers :: "(string \<times> string) list"
  rq_client_host :: "string option"
  rq_client_cert :: "bytes option"
  rq_ssl_peer :: "bytes option"
  rq_principal :: "principal option"

record auth_world =
  aw_settings :: auth_settings
  aw_libs :: mtls_libs
  aw_mtls :: "mtls_config option"
  aw_oidc :: "(oidc_world \<times> oidc_config) option"
  aw_clock :: rat

subsection \<open>API keys\<close>

definition bearer :: "auth_request \<Rightarrow> auth_failure + string" where
  "bearer rq =
     (let value = (case map_of (rq_headers rq) ''authorization'' of None \<Rightarrow> [] | Some v \<Rightarrow> v) in
      case partition_at (CHR '' '') value of (scheme, separator, credential) \<Rightarrow>
        if \<not> separator \<or> lower scheme \<noteq> ''bearer'' \<or> credential = []
        then Inl (Http 401 ''Authorization header required'')
        else Inr credential)"

definition opaque_credential_id :: "string \<Rightarrow> string \<Rightarrow> string \<Rightarrow> string" where
  "opaque_credential_id secret domain value =
     (let key = (if secret \<noteq> [] then encode secret else encode ''aegis-development-identity-key'') in
      domain @ '':'' @ hex (hmac_sha256 key (encode (domain @ [CHR 0x00] @ value))))"

definition same_tenant :: "string \<Rightarrow> string \<Rightarrow> bool" where
  "same_tenant left right \<longleftrightarrow> encode left = encode right"

text \<open>The entry of a mapped key; every error in it is answered alike.\<close>

definition configured_grant :: "(string \<times> pyval) list \<Rightarrow> (string \<times> platform_role list \<times> string list) res" where
  "configured_grant configured =
     (case grant_field configured ''tenant_id'' PNone of
        PStr tenant_raw \<Rightarrow>
          if strip tenant_raw = [] then Inl (ValueError ''tenant_id must be a non-empty string'')
          else
            bind_res (parse_roles (grant_field configured ''roles'' (PList []))) (\<lambda>roles.
            bind_res (parse_scopes (grant_field configured ''scopes'' (PList []))) (\<lambda>scopes.
              if \<not> set scopes \<subseteq> set (permissions_for_roles roles)
              then Inl (ValueError ''configured scopes exceed role grants'')
              else Inr (tenant_raw, roles, scopes)))
      | _ \<Rightarrow> Inl (ValueError ''tenant_id must be a non-empty string''))"

definition unmapped_grant :: "auth_settings \<Rightarrow> string \<Rightarrow> auth_failure + (string \<times> platform_role list \<times> string list)" where
  "unmapped_grant st key =
     (if as_strict st then Inl (Http 503 ''API-key principal mapping is incomplete'')
      else if as_allow_legacy st then
        (let scopes = (case map_of (parse_scope_config (as_api_key_scopes st)) key of None \<Rightarrow> ALL_SCOPES | Some s \<Rightarrow> s) in
         Inr (as_development_tenant_id st, if set scopes = set ALL_SCOPES then [Admin] else [], scopes))
      else Inr (as_development_tenant_id st, [], []))"

definition lift_exn :: "'a res \<Rightarrow> auth_failure + 'a" where
  "lift_exn r = (case r of Inl e \<Rightarrow> Inl (Unhandled e) | Inr x \<Rightarrow> Inr x)"

definition key_grant :: "auth_settings \<Rightarrow> string \<Rightarrow> auth_failure + (string \<times> platform_role list \<times> string list)" where
  "key_grant st key =
     bind_res (lift_exn (get_api_key_principals st)) (\<lambda>principals.
       case map_of principals (api_key_principal_digest (as_identity_key st) key) of
         None \<Rightarrow> unmapped_grant st key
       | Some configured \<Rightarrow>
           (case configured_grant configured of
              Inl _ \<Rightarrow> Inl (Http 503 ''API-key principal mapping is invalid'')
            | Inr g \<Rightarrow> Inr g))"

definition api_key_principal :: "auth_settings \<Rightarrow> string \<Rightarrow> auth_failure + principal" where
  "api_key_principal st key =
     (let valid_keys = get_api_keys st @ get_audit_api_keys st in
      if valid_keys = [] then Inl (Http 503 ''No API keys configured on server; authentication impossible.'')
      else if \<not> constant_time_in key valid_keys then Inl (Http 401 ''Invalid API key'')
      else
        bind_res (key_grant st key) (\<lambda>(tenant_id, roles, scopes).
          lift_exn (new_principal
            \<lparr>pr_subject = ''api-key:'' @ take 16 (api_key_principal_digest (as_identity_key st) key), pr_tenant_id = tenant_id,
             pr_roles = roles, pr_scopes = scopes, pr_auth_method = ''api_key'',
             pr_credential_id = opaque_credential_id (as_identity_key st) ''api-key'' key, pr_attributes = []\<rparr>)))"

subsection \<open>Client certificates\<close>

definition peer_certificate :: "auth_request \<Rightarrow> bytes option" where
  "peer_certificate rq = (case rq_client_cert rq of Some b \<Rightarrow> Some b | None \<Rightarrow> rq_ssl_peer rq)"

definition configured_roles :: "auth_settings \<Rightarrow> platform_role list res" where
  "configured_roles st =
     map_res role_of_text (filter (\<lambda>v. v \<noteq> []) (map strip (split_on (CHR '','') (as_mtls_default_roles st))))"

definition mtls_principal :: "auth_world \<Rightarrow> auth_request \<Rightarrow> auth_failure + principal" where
  "mtls_principal w rq =
     (case aw_mtls w of
        None \<Rightarrow> Inl (Http 503 ''mTLS verifier is not configured'')
      | Some config \<Rightarrow>
          let source_ip = (case rq_client_host rq of None \<Rightarrow> [] | Some h \<Rightarrow> h) in
          (case mtls_verify (aw_libs w) config (aw_clock w) source_ip None (map_option Cert_Bytes (peer_certificate rq)) (rq_headers rq) of
             Inl (Mtls_Verification _) \<Rightarrow> Inl (Http 401 ''Client certificate authentication failed'')
           | Inl (Mtls_Raised e) \<Rightarrow> Inl (Unhandled e)
           | Inr p \<Rightarrow>
               bind_res (lift_exn (configured_roles (aw_settings w))) (\<lambda>roles.
                 lift_exn (new_principal
                   \<lparr>pr_subject = pr_subject p, pr_tenant_id = pr_tenant_id p, pr_roles = roles,
                    pr_scopes = permissions_for_roles roles, pr_auth_method = ''mtls'',
                    pr_credential_id = pr_credential_id p, pr_attributes = pr_attributes p\<rparr>))))"

subsection \<open>OIDC tokens\<close>

definition oidc_principal :: "auth_world \<Rightarrow> auth_request \<Rightarrow> oidc_state \<Rightarrow> (auth_failure + principal) \<times> oidc_state" where
  "oidc_principal w rq st =
     (case aw_oidc w of
        None \<Rightarrow> (Inl (Http 503 ''OIDC verifier is not configured''), st)
      | Some (ow, config) \<Rightarrow>
          (case bearer rq of
             Inl e \<Rightarrow> (Inl e, st)
           | Inr token \<Rightarrow>
               (case authenticate_token ow config (aw_clock w) token st of
                  (Inl Oidc_Dependency, st') \<Rightarrow> (Inl (Http 503 ''OIDC runtime dependency is unavailable''), st')
                | (Inl (Oidc_Authentication _), st') \<Rightarrow> (Inl (Http 401 ''OIDC authentication failed''), st')
                | (Inl (Oidc_Raised e), st') \<Rightarrow> (Inl (Unhandled e), st')
                | (Inr p, st') \<Rightarrow>
                    let issuer = as_oidc_issuer (aw_settings w) in
                    (lift_exn (new_principal
                      \<lparr>pr_subject = pr_subject p, pr_tenant_id = pr_tenant_id p, pr_roles = pr_roles p,
                       pr_scopes = permissions_for_roles (pr_roles p), pr_auth_method = pr_auth_method p,
                       pr_credential_id = opaque_credential_id (as_identity_key (aw_settings w)) ''oidc''
                         (str_nat (length issuer) @ '':'' @ issuer @ '':'' @ pr_subject p),
                       pr_attributes = pr_attributes p\<rparr>), st'))))"

subsection \<open>The request\<close>

definition combine_principals :: "principal \<Rightarrow> principal \<Rightarrow> string \<Rightarrow> auth_failure + principal" where
  "combine_principals left right secret =
     (if \<not> same_tenant (pr_tenant_id left) (pr_tenant_id right) then Inl (Http 403 ''Credential tenant mismatch'')
      else lift_exn (new_principal
        \<lparr>pr_subject = pr_subject left, pr_tenant_id = pr_tenant_id left,
         pr_roles = filter (\<lambda>r. r \<in> set (pr_roles right)) (pr_roles left),
         pr_scopes = filter (\<lambda>s. s \<in> set (pr_scopes right)) (pr_scopes left),
         pr_auth_method = pr_auth_method left @ ''_'' @ pr_auth_method right,
         pr_credential_id = opaque_credential_id secret ''composite''
           (str_nat (length (pr_credential_id left)) @ '':'' @ pr_credential_id left @ '':'' @ pr_credential_id right),
         pr_attributes = []\<rparr>))"

definition bearer_principal ::
    "auth_world \<Rightarrow> auth_request \<Rightarrow> oidc_state \<Rightarrow> (auth_failure + principal option) \<times> oidc_state" where
  "bearer_principal w rq st =
     (let mode = as_auth_mode (aw_settings w) in
      if mode \<in> {''api_key'', ''api_key_mtls''} then
        (bind_res (bearer rq) (\<lambda>key. bind_res (api_key_principal (aw_settings w) key) (\<lambda>p. Inr (Some p))), st)
      else if mode \<in> {''oidc'', ''oidc_mtls''} then
        (case oidc_principal w rq st of (r, st') \<Rightarrow> (bind_res r (\<lambda>p. Inr (Some p)), st'))
      else (Inr None, st))"

definition certificate_factor :: "auth_world \<Rightarrow> auth_request \<Rightarrow> auth_failure + principal option" where
  "certificate_factor w rq =
     (if sublist ''mtls'' (as_auth_mode (aw_settings w)) then bind_res (mtls_principal w rq) (\<lambda>p. Inr (Some p)) else Inr None)"

definition development_principal :: "auth_settings \<Rightarrow> auth_failure + principal" where
  "development_principal st =
     lift_exn (new_principal
       \<lparr>pr_subject = ''local-development'', pr_tenant_id = as_development_tenant_id st, pr_roles = [Admin], pr_scopes = ALL_SCOPES,
        pr_auth_method = ''development'', pr_credential_id = ''development'', pr_attributes = []\<rparr>)"

definition join_factors :: "auth_settings \<Rightarrow> principal option \<Rightarrow> principal option \<Rightarrow> auth_failure + principal" where
  "join_factors st b m =
     (case (b, m) of
        (Some left, Some right) \<Rightarrow> combine_principals left right (as_identity_key st)
      | (Some p, None) \<Rightarrow> Inr p
      | (None, Some p) \<Rightarrow> Inr p
      | (None, None) \<Rightarrow> Inl (Http 500 ''Authentication mode is not implemented''))"

definition fresh_principal :: "auth_world \<Rightarrow> auth_request \<Rightarrow> oidc_state \<Rightarrow> (auth_failure + principal) \<times> oidc_state" where
  "fresh_principal w rq st =
     (if as_auth_disabled (aw_settings w) then (development_principal (aw_settings w), st)
      else
        case bearer_principal w rq st of (rb, st') \<Rightarrow>
          (bind_res rb (\<lambda>b. bind_res (certificate_factor w rq) (\<lambda>m. join_factors (aw_settings w) b m)), st'))"

definition authenticate_principal ::
    "auth_world \<Rightarrow> auth_request \<Rightarrow> oidc_state \<Rightarrow> (auth_failure + principal) \<times> auth_request \<times> oidc_state" where
  "authenticate_principal w rq st =
     (case rq_principal rq of
        Some p \<Rightarrow> (Inr p, rq, st)
      | None \<Rightarrow>
          (case fresh_principal w rq st of
             (Inl e, st') \<Rightarrow> (Inl e, rq, st')
           | (Inr p, st') \<Rightarrow> (Inr p, rq\<lparr>rq_principal := Some p\<rparr>, st')))"

definition require_scope_of :: "string \<Rightarrow> principal \<Rightarrow> auth_failure + principal" where
  "require_scope_of required_scope p =
     (if required_scope \<notin> set (pr_scopes p)
      then Inl (Http 403 (''Authenticated principal lacks required scope '' @ required_scope))
      else Inr p)"

definition scope_dependency :: "string \<Rightarrow> (principal \<Rightarrow> auth_failure + principal) res" where
  "scope_dependency required_scope =
     (if required_scope \<notin> set ALL_SCOPES then Inl (ValueError ''unknown scope'')
      else Inr (require_scope_of required_scope))"

definition principal_tenant :: "principal \<Rightarrow> string option \<Rightarrow> auth_failure + string option" where
  "principal_tenant p requested_tenant =
     (if Admin \<in> set (pr_roles p) then Inr requested_tenant
      else
        case requested_tenant of
          Some t \<Rightarrow>
            if \<not> same_tenant t (pr_tenant_id p) then Inl (Http 403 ''Tenant access denied'') else Inr (Some (pr_tenant_id p))
        | None \<Rightarrow> Inr (Some (pr_tenant_id p)))"

subsection \<open>Checks before the gateway binds\<close>

text \<open>The texts of these errors leave out the quotes.\<close>

record runtime_settings = auth_settings +
  rs_require_distributed_limiter :: bool
  rs_rate_limit_backend :: string
  rs_debug_mode :: bool
  rs_require_durable_evidence :: bool
  rs_signing_key :: string
  rs_pkcs11_library_path :: string
  rs_mtls_required :: bool
  rs_ssl_ca_certs :: "string option"
  rs_ha_mode :: string
  rs_workers :: int
  rs_ha_redis_url :: string
  rs_redis_url :: string
  rs_ha_chain_id :: string
  rs_ha_sequencer_url :: string

definition validate_ha :: "runtime_settings \<Rightarrow> unit res" where
  "validate_ha rs =
     (let url = rs_ha_sequencer_url rs in
      if rs_ha_mode rs \<notin> {''single'', ''active_passive'', ''active_active''}
      then Inl (ValueError ''ha_mode must be single, active_passive or active_active'')
      else if rs_ha_mode rs = ''single'' then Inr ()
      else if rs_workers rs \<noteq> 1 then Inl (ValueError ''ha_mode requires workers=1: each replica is one writer process'')
      else if rs_ha_redis_url rs = [] \<and> rs_redis_url rs = []
      then Inl (ValueError ''ha_mode requires ha_redis_url or redis_url for the writer lease'')
      else if rs_ha_mode rs = ''active_passive'' \<and> rs_ha_chain_id rs = []
      then Inl (ValueError ''ha_mode=active_passive requires ha_chain_id (the shared chain)'')
      else if rs_ha_mode rs = ''active_active'' \<and> url = []
      then Inl (ValueError ''ha_mode=active_active requires ha_sequencer_url'')
      else if url \<noteq> [] \<and> \<not> list_ex (\<lambda>p. prefix p url) [''postgresql://'', ''postgres://'', ''sqlite:///'']
      then Inl (ValueError ''ha_sequencer_url must be postgresql or sqlite:///absolute/path'')
      else if prefix ''sqlite'' url \<and> as_strict (auth_settings.truncate rs)
      then Inl (ValueError ''strict runtime requires a postgresql:// ha_sequencer_url'')
      else Inr ())"

definition unmapped_keys :: "auth_settings \<Rightarrow> (string \<times> (string \<times> pyval) list) list \<Rightarrow> string list" where
  "unmapped_keys st configured =
     filter (\<lambda>d. d \<notin> set (map fst configured)) (map (api_key_principal_digest (as_identity_key st)) (get_api_keys st))"

definition validate_runtime_invariants :: "runtime_settings \<Rightarrow> unit res" where
  "validate_runtime_invariants rs =
     (let st = auth_settings.truncate rs; keyed = as_auth_mode st \<in> {''api_key'', ''api_key_mtls''} in
      if rs_require_distributed_limiter rs \<and> rs_rate_limit_backend rs \<noteq> ''redis''
      then Inl (ValueError ''require_distributed_limiter=True requires rate_limit_backend=redis'')
      else bind_res (validate_ha rs) (\<lambda>_.
        if \<not> as_strict st then Inr ()
        else if rs_debug_mode rs then Inl (ValueError ''strict runtime cannot enable debug_mode'')
        else if as_auth_disabled st then Inl (ValueError ''strict runtime cannot disable authentication'')
        else if \<not> rs_require_durable_evidence rs
        then Inl (ValueError ''strict runtime requires require_durable_evidence=True'')
        else if rs_rate_limit_backend rs \<noteq> ''redis''
        then Inl (ValueError ''strict runtime requires rate_limit_backend=redis'')
        else if keyed \<and> get_api_keys st = []
        then Inl (ValueError ''strict runtime requires at least one AEGIS_API_KEYS value'')
        else if rs_signing_key rs = [] \<and> rs_pkcs11_library_path rs = []
        then Inl (ValueError ''strict runtime requires signing_key or pkcs11_library_path'')
        else if rs_mtls_required rs \<and> rs_ssl_ca_certs rs = None
        then Inl (ValueError ''mtls_required=True requires ssl_ca_certs'')
        else if length (encode (as_identity_key st)) < 32
        then Inl (ValueError ''strict runtime requires auth_identity_hmac_key of at least 32 bytes'')
        else if keyed then
          bind_res (get_api_key_principals st) (\<lambda>configured.
            if unmapped_keys st configured \<noteq> []
            then Inl (ValueError ''strict API-key mode requires an explicit principal mapping per key'')
            else Inr ())
        else Inr ()))"

subsection \<open>What a factor grants\<close>

lemma lift_exn_Inr [simp]: "lift_exn r = Inr x \<longleftrightarrow> r = Inr x"
  by (cases r) (simp_all add: lift_exn_def)

lemma constant_time_in_iff: "constant_time_in key valid \<longleftrightarrow> key \<in> set valid"
proof -
  have "foldl (\<lambda>result v. result \<or> encode key = encode v) b valid \<longleftrightarrow> b \<or> key \<in> set valid" for b
    by (induction valid arbitrary: b) auto
  then show ?thesis by (simp add: constant_time_in_def)
qed

text \<open>The gateway checks an entry as the generator of the mapping does.\<close>

lemma configured_grant_iff: "configured_grant c = Inr g \<longleftrightarrow> check_grant c = Inr g"
  by (auto simp: configured_grant_def check_grant_def bind_res_eq_Inr split: pyval.splits if_splits)

definition granted :: "principal \<Rightarrow> bool" where
  "granted p \<longleftrightarrow> set (pr_scopes p) \<subseteq> set (permissions_for_roles (pr_roles p))"

definition no_legacy :: "auth_settings \<Rightarrow> bool" where
  "no_legacy st \<longleftrightarrow> as_strict st \<or> \<not> as_allow_legacy st"

lemma normalised_scopes:
  "set scopes \<subseteq> set ALL_SCOPES \<Longrightarrow> filter (\<lambda>s. s \<noteq> []) (map strip scopes) = scopes"
proof (induction scopes)
  case (Cons s scopes)
  then show ?case using scopes_strip [of s] by simp
qed simp

lemma new_principal_granted:
  assumes "new_principal p = Inr q" "granted p"
  shows "granted q" "pr_roles q = pr_roles p" "pr_scopes q = pr_scopes p" "pr_tenant_id q = strip (pr_tenant_id p)"
proof -
  have "set (pr_scopes p) \<subseteq> set ALL_SCOPES" using assms(2) permissions_known by (auto simp: granted_def)
  then have "pr_scopes q = pr_scopes p" using assms(1) by (simp add: new_principal_ok normalised_scopes)
  moreover have "pr_roles q = pr_roles p" using assms(1) by (simp add: new_principal_ok)
  ultimately show "granted q" "pr_roles q = pr_roles p" "pr_scopes q = pr_scopes p" using assms(2) by (simp_all add: granted_def)
  show "pr_tenant_id q = strip (pr_tenant_id p)" using assms(1) by (simp add: new_principal_ok)
qed

lemma key_grant_granted:
  assumes "key_grant st key = Inr (tenant_id, roles, scopes)" "no_legacy st"
  shows "set scopes \<subseteq> set (permissions_for_roles roles)"
proof -
  obtain ps where ps: "get_api_key_principals st = Inr ps" using assms(1) by (auto simp: key_grant_def bind_res_eq_Inr)
  show ?thesis
  proof (cases "map_of ps (api_key_principal_digest (as_identity_key st) key)")
    case None
    then have "scopes = []" using assms ps by (auto simp: key_grant_def lift_exn_def unmapped_grant_def no_legacy_def split: if_splits)
    then show ?thesis by simp
  next
    case (Some c)
    then have "configured_grant c = Inr (tenant_id, roles, scopes)"
      using assms(1) ps by (auto simp: key_grant_def lift_exn_def split: sum.splits)
    then show ?thesis using check_grant_Inr(3) by (simp add: configured_grant_iff)
  qed
qed

lemma api_key_principal_ok:
  assumes "api_key_principal st key = Inr p"
  shows "key \<in> set (get_api_keys st) \<union> set (get_audit_api_keys st)" "no_legacy st \<Longrightarrow> granted p"
proof -
  show "key \<in> set (get_api_keys st) \<union> set (get_audit_api_keys st)"
    using assms by (auto simp: api_key_principal_def Let_def constant_time_in_iff split: if_splits)
  obtain t rs sc q where g: "key_grant st key = Inr (t, rs, sc)" "new_principal q = Inr p" "pr_roles q = rs" "pr_scopes q = sc"
    using assms by (auto simp: api_key_principal_def Let_def bind_res_eq_Inr split: if_splits)
  show "granted p" if "no_legacy st"
    using new_principal_granted(1) [OF g(2)] key_grant_granted [OF g(1) that] g(3,4) by (simp add: granted_def)
qed

text \<open>A principal \<open>p\<close> is backed by a factor \<open>b\<close>: it is of the same tenant and may do nothing \<open>b\<close> may not.\<close>

definition backs :: "principal \<Rightarrow> principal \<Rightarrow> bool" where
  "backs b p \<longleftrightarrow> granted b \<and> pr_tenant_id p = pr_tenant_id b
     \<and> set (pr_scopes p) \<subseteq> set (pr_scopes b) \<and> set (pr_roles p) \<subseteq> set (pr_roles b)"

definition key_factor :: "auth_world \<Rightarrow> auth_request \<Rightarrow> principal \<Rightarrow> bool" where
  "key_factor w rq b \<longleftrightarrow>
     (\<exists>key. bearer rq = Inr key \<and> key \<in> set (get_api_keys (aw_settings w)) \<union> set (get_audit_api_keys (aw_settings w))
        \<and> api_key_principal (aw_settings w) key = Inr b)"

definition token_factor :: "auth_world \<Rightarrow> auth_request \<Rightarrow> oidc_state \<Rightarrow> oidc_state \<Rightarrow> principal \<Rightarrow> bool" where
  "token_factor w rq st st' b \<longleftrightarrow>
     (\<exists>ow config token q. aw_oidc w = Some (ow, config) \<and> bearer rq = Inr token
        \<and> authenticate_token ow config (aw_clock w) token st = (Inr q, st')
        \<and> pr_tenant_id b = strip (pr_tenant_id q) \<and> pr_roles b = pr_roles q)"

definition client_cert_factor :: "auth_world \<Rightarrow> auth_request \<Rightarrow> principal \<Rightarrow> bool" where
  "client_cert_factor w rq b \<longleftrightarrow>
     (\<exists>config q. aw_mtls w = Some config
        \<and> mtls_verify (aw_libs w) config (aw_clock w) (case rq_client_host rq of None \<Rightarrow> [] | Some h \<Rightarrow> h) None
            (map_option Cert_Bytes (peer_certificate rq)) (rq_headers rq) = Inr q
        \<and> pr_tenant_id b = strip (pr_tenant_id q) \<and> configured_roles (aw_settings w) = Inr (pr_roles b))"

lemma oidc_principal_ok:
  assumes "oidc_principal w rq st = (Inr b, st')"
  shows "token_factor w rq st st' b" "granted b"
proof -
  obtain ow config where o: "aw_oidc w = Some (ow, config)" using assms by (auto simp: oidc_principal_def split: option.splits)
  obtain token where t: "bearer rq = Inr token" using assms o by (auto simp: oidc_principal_def split: sum.splits)
  obtain r st1 where a: "authenticate_token ow config (aw_clock w) token st = (r, st1)"
    by (cases "authenticate_token ow config (aw_clock w) token st")
  obtain q where q: "r = Inr q" using assms o t a by (auto simp: oidc_principal_def split: sum.splits oidc_error.splits)
  obtain b0 where b0: "new_principal b0 = Inr b" "pr_tenant_id b0 = pr_tenant_id q" "pr_roles b0 = pr_roles q"
      "pr_scopes b0 = permissions_for_roles (pr_roles q)" and "st' = st1"
    using assms o t a q by (auto simp: oidc_principal_def Let_def)
  moreover have "granted b0" using b0(3,4) by (simp add: granted_def)
  ultimately show "token_factor w rq st st' b" "granted b"
    using new_principal_granted [OF b0(1)] o t a q unfolding token_factor_def by auto
qed

lemma mtls_principal_ok:
  assumes "mtls_principal w rq = Inr b"
  shows "client_cert_factor w rq b" "granted b"
proof -
  let ?v = "\<lambda>config. mtls_verify (aw_libs w) config (aw_clock w) (case rq_client_host rq of None \<Rightarrow> [] | Some h \<Rightarrow> h) None
      (map_option Cert_Bytes (peer_certificate rq)) (rq_headers rq)"
  obtain config where c: "aw_mtls w = Some config" using assms by (auto simp: mtls_principal_def split: option.splits)
  obtain q where q: "?v config = Inr q"
    using assms c by (auto simp: mtls_principal_def Let_def split: sum.splits mtls_error.splits)
  obtain b0 where b0: "new_principal b0 = Inr b" "pr_tenant_id b0 = pr_tenant_id q"
      "configured_roles (aw_settings w) = Inr (pr_roles b0)" "pr_scopes b0 = permissions_for_roles (pr_roles b0)"
    using assms c q by (auto simp: mtls_principal_def Let_def bind_res_eq_Inr)
  moreover have "granted b0" using b0(4) by (simp add: granted_def)
  ultimately show "client_cert_factor w rq b" "granted b"
    using new_principal_granted [OF b0(1)] c q unfolding client_cert_factor_def by auto
qed

text \<open>Two factors joined: the result is backed by both.\<close>

lemma new_principal_tenant_stripped: "new_principal p = Inr q \<Longrightarrow> strip (pr_tenant_id q) = pr_tenant_id q"
  by (simp add: new_principal_ok)

lemma combine_backed:
  assumes "combine_principals l r secret = Inr p" "granted l" "granted r" "strip (pr_tenant_id l) = pr_tenant_id l"
  shows "backs l p" "backs r p"
proof -
  let ?sc = "filter (\<lambda>s. s \<in> set (pr_scopes r)) (pr_scopes l)"
  obtain q where q: "new_principal q = Inr p" "pr_tenant_id q = pr_tenant_id l" "pr_scopes q = ?sc"
      "pr_roles q = filter (\<lambda>r'. r' \<in> set (pr_roles r)) (pr_roles l)" "pr_tenant_id l = pr_tenant_id r"
    using assms(1) by (auto simp: combine_principals_def same_tenant_def split: if_splits)
  have "set ?sc \<subseteq> set ALL_SCOPES" using assms(2) permissions_known [of "pr_roles l"] by (auto simp: granted_def)
  then have "pr_scopes p = ?sc" using q(1,3) normalised_scopes by (simp add: new_principal_ok)
  moreover have "pr_roles p = pr_roles q" "pr_tenant_id p = pr_tenant_id l" using q(1,2) assms(4) by (simp_all add: new_principal_ok)
  ultimately show "backs l p" "backs r p" using q(4,5) assms(2,3) by (auto simp: backs_def)
qed

lemma join_backed:
  assumes "join_factors st b m = Inr p"
    "\<And>x. b = Some x \<Longrightarrow> granted x \<and> strip (pr_tenant_id x) = pr_tenant_id x" "\<And>x. m = Some x \<Longrightarrow> granted x"
  shows "(\<forall>x. b = Some x \<longrightarrow> backs x p) \<and> (\<forall>x. m = Some x \<longrightarrow> backs x p) \<and> (b \<noteq> None \<or> m \<noteq> None)"
proof (cases b)
  case None
  then show ?thesis using assms by (cases m) (auto simp: join_factors_def backs_def)
next
  case (Some l)
  show ?thesis
  proof (cases m)
    case None
    then show ?thesis using assms Some by (auto simp: join_factors_def backs_def)
  next
    case m: (Some r)
    then have c: "combine_principals l r (as_identity_key st) = Inr p" using assms(1) Some by (simp add: join_factors_def)
    show ?thesis using combine_backed [OF c] assms(2,3) Some m by auto
  qed
qed

lemma factor_tenant_stripped:
  "api_key_principal st key = Inr p \<Longrightarrow> strip (pr_tenant_id p) = pr_tenant_id p"
  "oidc_principal w rq os = (Inr p, os') \<Longrightarrow> strip (pr_tenant_id p) = pr_tenant_id p"
proof -
  show "strip (pr_tenant_id p) = pr_tenant_id p" if "api_key_principal st key = Inr p"
    using that by (auto simp: api_key_principal_def Let_def bind_res_eq_Inr new_principal_ok split: if_splits)
  show "strip (pr_tenant_id p) = pr_tenant_id p" if "oidc_principal w rq os = (Inr p, os')"
    using oidc_principal_ok(1) [OF that] by (auto simp: token_factor_def)
qed

lemma bearer_principal_ok:
  assumes "bearer_principal w rq st = (Inr b, st')" "no_legacy (aw_settings w)"
  shows "as_auth_mode (aw_settings w) \<in> {''api_key'', ''api_key_mtls''} \<Longrightarrow>
      \<exists>x. b = Some x \<and> key_factor w rq x \<and> granted x \<and> strip (pr_tenant_id x) = pr_tenant_id x"
    "as_auth_mode (aw_settings w) \<in> {''oidc'', ''oidc_mtls''} \<Longrightarrow>
      \<exists>x. b = Some x \<and> token_factor w rq st st' x \<and> granted x \<and> strip (pr_tenant_id x) = pr_tenant_id x"
    "as_auth_mode (aw_settings w) \<notin> {''api_key'', ''api_key_mtls'', ''oidc'', ''oidc_mtls''} \<Longrightarrow> b = None"
proof -
  let ?mode = "as_auth_mode (aw_settings w)"
  show "\<exists>x. b = Some x \<and> key_factor w rq x \<and> granted x \<and> strip (pr_tenant_id x) = pr_tenant_id x"
    if m: "?mode \<in> {''api_key'', ''api_key_mtls''}"
  proof -
    obtain key x where x: "bearer rq = Inr key" "api_key_principal (aw_settings w) key = Inr x" "b = Some x"
      using assms(1) m by (auto simp: bearer_principal_def bind_res_eq_Inr)
    then show ?thesis
      using api_key_principal_ok [OF x(2)] factor_tenant_stripped(1) [OF x(2)] assms(2) by (auto simp: key_factor_def)
  qed
  show "\<exists>x. b = Some x \<and> token_factor w rq st st' x \<and> granted x \<and> strip (pr_tenant_id x) = pr_tenant_id x"
    if m: "?mode \<in> {''oidc'', ''oidc_mtls''}"
  proof -
    obtain x where x: "oidc_principal w rq st = (Inr x, st')" "b = Some x"
      using assms(1) m by (auto simp: bearer_principal_def bind_res_eq_Inr split: prod.splits)
    then show ?thesis using oidc_principal_ok [OF x(1)] factor_tenant_stripped(2) [OF x(1)] by blast
  qed
  show "b = None" if "?mode \<notin> {''api_key'', ''api_key_mtls'', ''oidc'', ''oidc_mtls''}"
    using assms(1) that by (auto simp: bearer_principal_def)
qed

lemma certificate_factor_ok:
  assumes "certificate_factor w rq = Inr m"
  shows "sublist ''mtls'' (as_auth_mode (aw_settings w)) \<Longrightarrow> \<exists>x. m = Some x \<and> client_cert_factor w rq x \<and> granted x"
    "\<not> sublist ''mtls'' (as_auth_mode (aw_settings w)) \<Longrightarrow> m = None"
  using assms by (auto simp: certificate_factor_def bind_res_eq_Inr dest: mtls_principal_ok)

lemma fresh_principal_backed:
  assumes "fresh_principal w rq st = (Inr p, st')" "\<not> as_auth_disabled (aw_settings w)" "no_legacy (aw_settings w)"
  shows "(as_auth_mode (aw_settings w) \<in> {''api_key'', ''api_key_mtls''} \<longrightarrow> (\<exists>b. key_factor w rq b \<and> backs b p))
    \<and> (as_auth_mode (aw_settings w) \<in> {''oidc'', ''oidc_mtls''} \<longrightarrow> (\<exists>b. token_factor w rq st st' b \<and> backs b p))
    \<and> (sublist ''mtls'' (as_auth_mode (aw_settings w)) \<longrightarrow> (\<exists>b. client_cert_factor w rq b \<and> backs b p))
    \<and> (\<exists>b. backs b p)"
proof -
  let ?mode = "as_auth_mode (aw_settings w)"
  obtain b m where b: "bearer_principal w rq st = (Inr b, st')" and m: "certificate_factor w rq = Inr m"
      and j: "join_factors (aw_settings w) b m = Inr p"
    using assms(1,2) by (auto simp: fresh_principal_def bind_res_eq_Inr split: prod.splits)
  note bp = bearer_principal_ok [OF b assms(3)]
  have "granted x \<and> strip (pr_tenant_id x) = pr_tenant_id x" if "b = Some x" for x
    using bp that by (cases "?mode \<in> {''api_key'', ''api_key_mtls''}"; cases "?mode \<in> {''oidc'', ''oidc_mtls''}") auto
  moreover have "granted x" if "m = Some x" for x
    using certificate_factor_ok [OF m] that by (cases "sublist ''mtls'' ?mode") auto
  ultimately have jb: "(\<forall>x. b = Some x \<longrightarrow> backs x p) \<and> (\<forall>x. m = Some x \<longrightarrow> backs x p) \<and> (b \<noteq> None \<or> m \<noteq> None)"
    using join_backed [OF j] by blast
  then show ?thesis using bp(1,2) certificate_factor_ok(1) [OF m] by blast
qed

text \<open>
  C20. No request is authenticated without every factor its mode names, and none gives more than
  each of them. Where authentication is on and the legacy opt-in is not in force, a principal for
  a request not seen before is backed, in a mode with API keys by the principal of a
  configured key, in a mode with OIDC by that of a token the manager accepted, in a mode with mTLS by
  that of a verified certificate: it is of each factor's tenant, and has no scope and no role which
  that factor lacks, where a factor's scopes are those its roles grant. It is cached, and the
  tenant filter it is given is its own tenant unless every factor is an administrator.
\<close>

theorem every_factor_required:
  assumes "authenticate_principal w rq st = (Inr p, rq', st')" "rq_principal rq = None"
    "\<not> as_auth_disabled (aw_settings w)" "no_legacy (aw_settings w)"
  shows "rq_principal rq' = Some p
    \<and> (as_auth_mode (aw_settings w) \<in> {''api_key'', ''api_key_mtls''} \<longrightarrow> (\<exists>b. key_factor w rq b \<and> backs b p))
    \<and> (as_auth_mode (aw_settings w) \<in> {''oidc'', ''oidc_mtls''} \<longrightarrow> (\<exists>b. token_factor w rq st st' b \<and> backs b p))
    \<and> (sublist ''mtls'' (as_auth_mode (aw_settings w)) \<longrightarrow> (\<exists>b. client_cert_factor w rq b \<and> backs b p))
    \<and> (\<exists>b. backs b p)
    \<and> (\<forall>requested t. principal_tenant p requested = Inr t \<longrightarrow>
        t = Some (pr_tenant_id p) \<or> t = requested \<and> (\<forall>b. backs b p \<longrightarrow> Admin \<in> set (pr_roles b)))"
proof -
  have f: "fresh_principal w rq st = (Inr p, st')" "rq_principal rq' = Some p"
    using assms(1,2) by (auto simp: authenticate_principal_def split: prod.splits sum.splits)
  have "t = Some (pr_tenant_id p) \<or> t = requested \<and> (\<forall>b. backs b p \<longrightarrow> Admin \<in> set (pr_roles b))"
    if "principal_tenant p requested = Inr t" for requested t
    using that by (auto simp: principal_tenant_def backs_def split: if_splits option.splits)
  with f(2) show ?thesis using fresh_principal_backed [OF f(1) assms(3,4)] by blast
qed

text \<open>Without a factor that a mode names there is no principal, whatever else is presented.\<close>

lemma missing_bearer_refused:
  assumes "bearer rq = Inl e" "rq_principal rq = None" "\<not> as_auth_disabled (aw_settings w)"
    "as_auth_mode (aw_settings w) \<in> {''api_key'', ''api_key_mtls''}"
  shows "authenticate_principal w rq st = (Inl e, rq, st)"
  using assms by (auto simp: authenticate_principal_def fresh_principal_def bearer_principal_def)

subsection \<open>Mapped keys are admitted\<close>

lemma strip_Nil: "strip s = [] \<longleftrightarrow> (\<forall>c\<in>set s. py_space c)"
proof -
  have "strip s = [] \<longleftrightarrow> (\<forall>c\<in>set (dropWhile py_space s). py_space c)" by (simp add: strip_def dropWhile_eq_Nil_conv)
  also have "\<dots> \<longleftrightarrow> (\<forall>c\<in>set s. py_space c)"
    by (metis dropWhile_eq_Nil_conv hd_dropWhile list.set_sel(1) set_dropWhileD)
  finally show ?thesis .
qed

lemma api_key_named: "strip (''api-key:'' @ t) \<noteq> []"
  by (auto simp: strip_Nil py_space_def)

text \<open>
  C24. The generated mapping is the one the gateway accepts. For every key of the generator's input
  that is configured as a valid key, the gateway reads the generated mapping back and makes a
  principal of it with the tenant, the roles and the scopes of the grant, which the generator has
  checked, provided that the keys' digests differ.
\<close>

theorem generated_mapping_accepted:
  assumes "build_api_key_principals (as_identity_key st) grants = Inr m" "as_principals st = Inr (Some (PDict m))"
    "(key, grant) \<in> set grants" "distinct (map (\<lambda>x. api_key_principal_digest (as_identity_key st) (fst x)) grants)"
    "key \<in> set (get_api_keys st) \<union> set (get_audit_api_keys st)"
  shows "\<exists>p tenant_id roles scopes. check_grant grant = Inr (tenant_id, roles, scopes) \<and> api_key_principal st key = Inr p
    \<and> pr_tenant_id p = strip tenant_id \<and> set (pr_roles p) = set roles \<and> set (pr_scopes p) = set scopes"
proof -
  obtain ps g where ps: "get_api_key_principals st = Inr ps" and g: "check_grant grant = Inr g"
      "map_of ps (api_key_principal_digest (as_identity_key st) key) = Some (grant_entry g)"
    using generated_mapping_read [OF assms(1,2,3,4)] by blast
  obtain t roles scopes where gt: "g = (t, roles, scopes)" by (cases g)
  obtain rs where rs: "set rs = set roles" "check_grant (grant_entry (t, roles, scopes)) = Inr (t, rs, sort (remdups scopes))"
    using check_grant_entry g(1) gt by blast
  have k: "key_grant st key = Inr (t, rs, sort (remdups scopes))"
    using ps g(2) gt rs(2) [folded configured_grant_iff] by (simp add: key_grant_def lift_exn_def)
  have "strip t \<noteq> []" using check_grant_Inr(1) g(1) gt by blast
  moreover have "strip ''api_key'' \<noteq> []" by code_simp
  moreover have valid: "get_api_keys st @ get_audit_api_keys st \<noteq> []" "key \<in> set (get_api_keys st @ get_audit_api_keys st)"
    using assms(5) by auto
  have "api_key_principal st key = lift_exn (new_principal
      \<lparr>pr_subject = ''api-key:'' @ take 16 (api_key_principal_digest (as_identity_key st) key), pr_tenant_id = t, pr_roles = rs,
       pr_scopes = sort (remdups scopes), pr_auth_method = ''api_key'',
       pr_credential_id = opaque_credential_id (as_identity_key st) ''api-key'' key, pr_attributes = []\<rparr>)"
    unfolding api_key_principal_def Let_def constant_time_in_iff k using valid by (simp only: if_False simp_thms bind_res_Inr prod.case)
  ultimately obtain p where p: "api_key_principal st key = Inr p" "pr_tenant_id p = strip t" "pr_roles p = rs"
      "pr_scopes p = filter (\<lambda>s. s \<noteq> []) (map strip (sort (remdups scopes)))"
    using api_key_named [of "take 16 (api_key_principal_digest (as_identity_key st) key)"]
    by (simp add: new_principal_def Let_def lift_exn_def)
  have "set scopes \<subseteq> set ALL_SCOPES" using check_grant_Inr(2) g(1) gt by blast
  then have "pr_scopes p = sort (remdups scopes)" using p(4) normalised_scopes by simp
  then show ?thesis using g(1) gt p rs(1) by auto
qed

text \<open>Once the strict checks have passed, a proxy key is never met without its mapping.\<close>

lemma startup_maps_proxy_keys:
  assumes "validate_runtime_invariants rs = Inr ()" "as_strict (auth_settings.truncate rs)"
    "as_auth_mode (auth_settings.truncate rs) \<in> {''api_key'', ''api_key_mtls''}" "key \<in> set (get_api_keys (auth_settings.truncate rs))"
  shows "key_grant (auth_settings.truncate rs) key \<noteq> Inl (Http 503 ''API-key principal mapping is incomplete'')"
proof -
  let ?st = "auth_settings.truncate rs" and ?d = "api_key_principal_digest (as_identity_key (auth_settings.truncate rs)) key"
  obtain ps where ps: "get_api_key_principals ?st = Inr ps" "unmapped_keys ?st ps = []"
    using assms(1,2,3) unfolding validate_runtime_invariants_def Let_def
    by (auto simp: bind_res_eq_Inr split: if_splits)
  then have "?d \<in> set (map fst ps)" using assms(4) by (auto simp: unmapped_keys_def filter_empty_conv)
  then obtain c where "map_of ps ?d = Some c" by (metis map_of_eq_None_iff option.exhaust set_map)
  then show ?thesis using ps(1) by (auto simp: key_grant_def lift_exn_def split: sum.splits)
qed

text \<open>
  The check looks at the proxy keys alone. A key that is configured for auditing only and has no
  mapping passes the start of a strict gateway, and every request with it is then answered 503.
\<close>

lemma audit_key_unmapped:
  assumes "as_strict st" "as_api_keys st = ''proxy''" "as_audit_api_keys st = ''audit''"
    "get_api_key_principals st = Inr [(api_key_principal_digest (as_identity_key st) ''proxy'', grant)]"
    "api_key_principal_digest (as_identity_key st) ''audit'' \<noteq> api_key_principal_digest (as_identity_key st) ''proxy''"
  shows "unmapped_keys st [(api_key_principal_digest (as_identity_key st) ''proxy'', grant)] = []
    \<and> ''audit'' \<in> set (get_audit_api_keys st)
    \<and> api_key_principal st ''audit'' = Inl (Http 503 ''API-key principal mapping is incomplete'')"
proof -
  have keys: "get_api_keys st = [''proxy'']" "get_audit_api_keys st = [''audit'']"
    using assms(2,3) by (simp_all add: get_api_keys_def get_audit_api_keys_def split_keys_def strip_def py_space_def)
  have "key_grant st ''audit'' = Inl (Http 503 ''API-key principal mapping is incomplete'')"
    using assms(1,4,5) by (simp add: key_grant_def lift_exn_def unmapped_grant_def)
  then show ?thesis using keys by (simp add: unmapped_keys_def api_key_principal_def constant_time_in_iff)
qed

subsection \<open>Runs\<close>

definition sample_auth_settings :: auth_settings where
  "sample_auth_settings =
     \<lparr>as_api_keys = ''k1'', as_audit_api_keys = [], as_api_key_scopes = [], as_auth_disabled = False, as_auth_mode = ''mtls'',
      as_strict = True, as_allow_legacy = False, as_development_tenant_id = ''development'',
      as_identity_key = replicate 32 (CHR ''k''), as_principals = Inr None, as_oidc_issuer = [], as_mtls_default_roles = ''auditor''\<rparr>"

definition sample_auth_world :: auth_world where
  "sample_auth_world =
     \<lparr>aw_settings = sample_auth_settings, aw_libs = sample_libs, aw_mtls = Some sample_mtls_config, aw_oidc = None, aw_clock = 5\<rparr>"

definition sample_auth_request :: auth_request where
  "sample_auth_request =
     \<lparr>rq_headers = [], rq_client_host = Some ''10.0.0.1'', rq_client_cert = Some [1], rq_ssl_peer = None, rq_principal = None\<rparr>"

lemma sample_auth_run:
  "case authenticate_principal sample_auth_world sample_auth_request fresh_oidc of
     (Inl _, _) \<Rightarrow> False | (Inr p, _) \<Rightarrow> pr_roles p = [Auditor] \<and> pr_tenant_id p = ''acme''"
  by code_simp

lemma sample_auth_mode:
  "\<not> as_auth_disabled (aw_settings sample_auth_world)" "no_legacy (aw_settings sample_auth_world)"
  "sublist ''mtls'' (as_auth_mode (aw_settings sample_auth_world))" "rq_principal sample_auth_request = None"
  by (simp_all add: sample_auth_world_def sample_auth_settings_def no_legacy_def sample_auth_request_def)

theorem every_factor_required_witness:
  "\<exists>p b. client_cert_factor sample_auth_world sample_auth_request b \<and> backs b p \<and> pr_tenant_id p = ''acme''"
proof -
  obtain p rq' st' where p: "authenticate_principal sample_auth_world sample_auth_request fresh_oidc = (Inr p, rq', st')"
      "pr_tenant_id p = ''acme''"
    using sample_auth_run by (auto split: prod.splits sum.splits)
  from every_factor_required [OF p(1) sample_auth_mode(4,1,2)] show ?thesis using sample_auth_mode(3) p(2) by blast
qed

definition sample_grants :: "(string \<times> (string \<times> pyval) list) list" where
  "sample_grants =
     [(''k1'', [(''tenant_id'', PStr ''acme''), (''roles'', PList [PStr ''auditor'']), (''scopes'', PList [PStr ''audit:read''])])]"

lemma build_one_grant:
  assumes "check_grant grant = Inr g" "strip key \<noteq> []" "32 \<le> length identity_key"
  shows "\<exists>m. build_api_key_principals identity_key [(key, grant)] = Inr m"
proof -
  have "build_principals identity_key [(key, grant)] []
      = Inr (AList.update (api_key_principal_digest identity_key key) (PDict (grant_entry g)) [])"
    unfolding build_principals_Cons using assms(1,2) by simp
  then show ?thesis using assms(3) by (auto simp: build_api_key_principals_def simp del: build_principals.simps)
qed

lemma sample_grant_checked:
  "check_grant [(''tenant_id'', PStr ''acme''), (''roles'', PList [PStr ''auditor'']), (''scopes'', PList [PStr ''audit:read''])]
     = Inr (''acme'', [Auditor], [''audit:read''])"
  "strip ''k1'' \<noteq> []"
  by code_simp+

lemma sample_keys: "get_api_keys (sample_auth_settings\<lparr>as_principals := v\<rparr>) = [''k1'']"
  by (simp add: get_api_keys_def sample_auth_settings_def split_keys_def strip_def py_space_def)

theorem generated_mapping_accepted_witness:
  "\<exists>m p. build_api_key_principals (replicate 32 (CHR ''k'')) sample_grants = Inr m
     \<and> api_key_principal (sample_auth_settings\<lparr>as_principals := Inr (Some (PDict m))\<rparr>) ''k1'' = Inr p \<and> set (pr_roles p) = {Auditor}"
proof -
  let ?g = "[(''tenant_id'', PStr ''acme''), (''roles'', PList [PStr ''auditor'']), (''scopes'', PList [PStr ''audit:read''])]"
  have grants: "sample_grants = [(''k1'', ?g)]" by (simp only: sample_grants_def)
  have "32 \<le> length (replicate 32 (CHR ''k''))" by (simp only: length_replicate)
  then obtain m where m: "build_api_key_principals (replicate 32 (CHR ''k'')) sample_grants = Inr m"
    unfolding grants using build_one_grant [OF sample_grant_checked] by blast
  let ?st = "sample_auth_settings\<lparr>as_principals := Inr (Some (PDict m))\<rparr>"
  have k: "as_identity_key ?st = replicate 32 (CHR ''k'')" and 2: "as_principals ?st = Inr (Some (PDict m))"
    by (simp_all only: sample_auth_settings_def auth_settings.simps)
  have 1: "build_api_key_principals (as_identity_key ?st) sample_grants = Inr m" unfolding k by (rule m)
  have 5: "''k1'' \<in> set (get_api_keys ?st) \<union> set (get_audit_api_keys ?st)" unfolding sample_keys by simp
  have 3: "(''k1'', ?g) \<in> set sample_grants"
    and 4: "distinct (map (\<lambda>x. api_key_principal_digest (as_identity_key ?st) (fst x)) sample_grants)"
    unfolding grants by simp_all
  from generated_mapping_accepted [OF 1 2 3 4 5]
  obtain p t rs sc where r: "check_grant ?g = Inr (t, rs, sc)" "api_key_principal ?st ''k1'' = Inr p"
      "set (pr_roles p) = set rs" by blast
  have "rs = [Auditor]" using r(1) unfolding sample_grant_checked(1) by blast
  then have "set (pr_roles p) = {Auditor}" using r(3) by (simp only: list.set)
  with m r(2) show ?thesis by blast
qed

end
