(* ===== verification/Spec2Isabelle.thy ===== *)
theory Spec2Isabelle
  imports Mmr_Json Mmr_Consistency Group_Commit Raft_Election Raft_Log Circuit_Breaker Split_Brain Ha_Verify Ha_Lease
    Ha_Order Ha_Handover Audit_Binding Ledger_Replay Ledger_Limits Gossip_Mesh Crdt_Ordering Witness_Cosign
    Transparency_Log Custody_Log Export_Log Commit_Handoff Bounded_Stream Rate_Agree
    Abac Authenticate
begin

text \<open>
  Aegis latent core: the evidence gateway's core, verified.

  \<^bold>\<open>The program.\<close> Aegis is a gateway in front of language models that leaves signed,
  tamper-evident evidence of what it let through and what it refused. Its core is a ledger
  (\<^verbatim>\<open>aegis/core/crypto_audit.py\<close>): a commit turns a request and its response into a leaf
  (\<^verbatim>\<open>forensic.py\<close>), optionally encrypts it under a key that can be destroyed
  (\<^verbatim>\<open>crypto_shredder.py\<close>), appends it to a Merkle Mountain Range (\<^verbatim>\<open>mmr.py\<close>), signs the
  new root together with the chain tip, writes a line to a write-ahead log and waits for a
  group commit (\<^verbatim>\<open>group_commit.py\<close>) to make it durable. Several replicas agree on who may
  write through a lease in Redis and put their chains into one global sequence (\<^verbatim>\<open>ha.py\<close>);
  \<^verbatim>\<open>raft_consensus.py\<close>, \<^verbatim>\<open>split_brain.py\<close> and \<^verbatim>\<open>circuit_breaker.py\<close> are the remaining
  pieces of distributed control. Beside the ledger a mesh of replicas exchanges a causal
  accumulator (\<^verbatim>\<open>aegis/consensus/gossip.py\<close> over \<^verbatim>\<open>aegis_rust_v2/src/crdt_mmr.rs\<close>), exports are
  released by witness co-signatures (\<^verbatim>\<open>witness_cosign.py\<close>) and deployed binaries are published
  in a transparency log (\<^verbatim>\<open>transparency_log.py\<close>); custody transfers and exports are kept in
  signed logs of their own (\<^verbatim>\<open>custody_transfer.py\<close>, \<^verbatim>\<open>export_audit_log.py\<close>). In front of the
  ledger stands the proxy: a request is authenticated (\<^verbatim>\<open>aegis/proxy/dependencies.py\<close> over
  \<^verbatim>\<open>aegis/auth\<close>), passes the rate limiter (\<^verbatim>\<open>aegis/proxy/rate_limiter.py\<close>), a
  streamed answer runs through a bounded stream that freezes a summary of what it sent, and
  the summary is committed inside the stream or handed to a worker (\<^verbatim>\<open>aegis/proxy/streaming.py\<close>)
  that spools it in an outbox (\<^verbatim>\<open>aegis/proxy/terminal_outbox.py\<close>) until the ledger has it.

  \<^bold>\<open>Conventions.\<close> A raise is the left side of a sum (\<open>exn + 'a\<close>, theory \<open>Prelude\<close>), with the
  binding \<open>bind_res\<close>; messages are abbreviated. State is a record passed explicitly; an object
  graph that the code mutates and aliases (the nodes of the range) is a heap. Interleavings of
  threads and replicas are \<open>inductive\<close> step relations. SHA-256, HMAC, Base64, JSON and decimal
  text are computed, not assumed (\<open>Sha256\<close>, \<open>Encoding\<close>, \<open>Py_Text\<close>, \<open>Json_Text\<close>, \<open>Py_Float\<close>);
  binding theorems end in equality or a named SHA-256 collision. What the environment decides
  (clocks, system calls, tokens, fresh keys, AES-GCM, Ed25519 and ML-DSA) is an argument, with
  what is relied on as named hypotheses (\<open>signers_ok\<close>, \<open>aead_correct\<close>). Strings are lists of
  characters below 256.

  \<^bold>\<open>Merkle Mountain Range\<close> (\<open>Mmr\<close>, \<open>Mmr_Heights\<close>, \<open>Mmr_Forest\<close>, \<open>Mmr_State\<close>, \<open>Mmr_Verify\<close>,
  \<open>Mmr_Sound\<close>, \<open>Mmr_Json\<close>, \<open>Mmr_Consistency\<close>). \<open>Mmr\<close> has \<open>MerkleMountainRange\<close> operation by
  operation. The heap represents a forest of perfect trees; the root is \<open>spec_root\<close> of the
  appended digests, computed without an accumulator; rollback undoes appends exactly; a
  restored peak set behaves like a full replay; issued proofs verify, accepted proofs are
  sound up to a collision, and their documents survive the JSON round trip; the consistency
  proof carries exactly the earlier peaks. Walks towards the root have the number of nodes as
  fuel, shown to be enough where a proof is issued.

  \<^bold>\<open>Ledger.\<close> \<open>Forensic\<close> has the leaves, \<open>Audit_Node\<close> the node, its hash, the signed payloads and
  the assurance of signatures, \<open>Shredder\<close> the key vault, \<open>Ledger\<close> signing, the commit paths, the
  log with its rotation and the checkpoint file, \<open>Ledger_Verify\<close> the integrity sweep, replay,
  restoration and construction. \<open>Accumulator\<close> states what the ledger needs of the range as the
  locales \<open>accumulator\<close> and \<open>replayable\<close> and interprets them on \<open>Mmr\<close>. \<open>Ledger_Integrity\<close>
  shows that every reachable ledger verifies, that a failed commit leaves chain and accumulator
  as they were, and that a fault is terminal; \<open>Ledger_Progress\<close> that a commit succeeds when
  nothing fails; \<open>Ledger_Replay\<close> that opening the files of a healthy ledger gives the same
  chain, anchor and root, with any checkpoint file; \<open>Audit_Binding\<close> what the signed bytes bind;
  \<open>Ledger_Limits\<close> two places where documentation promises more than the code does.

  \<^bold>\<open>Group commit\<close> (\<open>Group_Commit\<close>): the engine under any number of writers; a returned writer's
  record is on stable storage, a failed sync is terminal, no wake-up is lost.

  \<^bold>\<open>High availability.\<close> \<open>Ha_Lease\<close> has the Redis scripts and \<open>ChainLease\<close> with requests
  delayed, repeated or executed long after the client gave up, and replies lost: at most one
  replica believes it holds the lease, as long as none asks again after a release, and takeover
  epochs are fresh. \<open>Ha_Handover\<close> reads the epoch floor back from the chain. \<open>Ha_Sequence\<close> has the
  entries, the append transaction, whose two queries may each read a stale table, and the two
  verifiers, \<open>Ha_Verify\<close> their correctness, \<open>Ha_Sequencer\<close> the sequencer and admission, \<open>Ha_Order\<close>
  that the rows of a chain are always its first nodes in order, also when appends fail before or
  after their commit; it uses the store through the locale \<open>sequence_store\<close>.

  \<^bold>\<open>Raft\<close> (\<open>Raft\<close>, \<open>Raft_Election\<close>, \<open>Raft_Log\<close>): election safety when stale replies are not
  delivered and the run that breaks it when they are, replication and commitment of entries.
  \<^bold>\<open>Fencing\<close> (\<open>Fencing\<close>, \<open>Split_Brain\<close>) and the \<^bold>\<open>circuit breaker\<close> (\<open>Circuit_Breaker\<close>).

  \<^bold>\<open>Causal accumulator and gossip.\<close> \<open>Causal_Clock\<close> has the Rust vector clocks on machine words
  with their saturation, \<open>Causal_Mmr\<close> leaves, append, root and join, \<open>Causal_Wire\<close> the byte form
  and its decoder. The join is a semilattice (locale \<open>join_laws\<close>, interpreted on the clocks):
  replicas that hold the same leaves are equal up to their own identity, in whatever order
  states arrived. The root binds the leaves, a state survives the wire as long as the counters stay
  below the ceiling of 64 bits, and no bytes can break a replica. \<open>Gossip\<close> has the daemon, its rounds and both ends of the exchange over any
  accumulator (locale \<open>causal_accumulator\<close>); \<open>Gossip_Mesh\<close> interprets it on the Rust accumulator:
  rounds survive every answer of the network, and a mesh whose contacts reach everybody holds
  one state. \<open>Crdt_Ordering\<close> has the Python vector clocks and the total order of entries, which
  is deterministic exactly as long as wall clocks agree with causality.

  \<^bold>\<open>Witnesses and transparency.\<close> \<open>Witness_Cosign\<close>: the gate opens exactly on enough distinct
  witnesses and signatures cannot be moved to another package. \<open>Transparency_Log\<close>: every log
  that was written by publishing verifies and answers for what was published; what its hash
  leaves open is shown too.

  \<^bold>\<open>Signed logs.\<close> \<open>Signed_Log\<close> states what a log of signed, numbered records promises as the locale
  \<open>signed_log\<close>, with writes that are cut short or fail after the line was written; \<open>Custody_Log\<close>
  and \<open>Export_Log\<close> model the two logs and interpret it: verification accepts what was written and
  reports gaps, edits and reordering, up to the cut-off tail, and a custody log verifies exactly
  as long as no failed write has damaged it.

  \<^bold>\<open>Streams and their evidence.\<close> \<open>Bounded_Stream\<close> has the byte-bounded queue, the stream proxy as a
  step relation over the places where its generator can be suspended, and the declared memory
  ceiling: the evidence of a stream is the hash of what was sent, no stream that was started ends
  without dispatching it, and what is held stays below the ceiling. \<open>Commit_Handoff\<close> has the admission
  gate and the hand-off with its worker: an admitted stream finds room in the queue unless its guard was closed
  before it handed its evidence over, and
  through the locale \<open>terminal_sink\<close>, interpreted on the ledger, accepted evidence is in the
  ledger or still in the outbox. \<open>Terminal_Outbox\<close> has the spool with its authenticated lines,
  torn writes and compactions, \<open>Outbox_Durable\<close> that a restart finds every accepted record within
  the limits of loading, and \<open>Outbox_Replay\<close> that the start-up replay commits each of them once.

  \<^bold>\<open>Rate limiting.\<close> \<open>Rate_Limiter\<close> has both backends, the Redis script included, \<open>Dual_Limiter\<close> the
  limiter and its token reservations. \<open>Rate_Bound\<close> states the contract of a backend as the locale
  \<open>rate_backend\<close> and interprets it on both: levels rise with time, a grant lowers them, and
  eviction or expiry changes none of them. From it the requests admitted in any window are
  bounded (locale \<open>limited\<close>), reservations settle to the final count and what Redis executed
  without an answer (locale \<open>truthful\<close>), and \<open>Rate_Agree\<close> shows the
  two backends interchangeable outside the slack of the admission test, where they differ.
  Floating point is exact there: a finite float is the rational it denotes.

  \<^bold>\<open>Access control.\<close> \<open>Rbac\<close> has scopes of keys, roles and the zero-trust engine, which allows exactly
  on a held role and satisfied constraints; \<open>Abac\<close> the classification engine, from whose decisions
  the locale \<open>mediated\<close>, interpreted on levels and on whole labels, derives that nothing classified
  leaks through any sequence of allowed moves. \<open>Principals\<close> has the authenticated principal, the
  settings of API keys and the generator of their mapping, \<open>Mtls\<close> the verifier of client
  certificates, \<open>Oidc\<close> the manager of tokens with its key set cache: each gives an identity only on
  what its credential proves. \<open>Authenticate\<close> combines them as the configured mode says: every
  factor of the mode is required and none is exceeded, and the generated mapping is accepted.
  The parsing of certificates and addresses and the JWT library are parameters.

  \<^bold>\<open>Bounds and fuel.\<close> Loops of the code that are not structural are \<open>function\<close>s with a measure
  (\<open>drain\<close>: the waiting nodes), are cut by a bound the code itself has (a batch size, a retry
  count), or carry fuel with a lemma that the fuel used is enough. A parent walk or a retry
  that runs out is reported as an error value, and the theorems about results show that it
  does not occur.

  \<^bold>\<open>Not modelled.\<close> Of the ledger: \<open>commit_state\<close> (a wrapper of the forensic commit), the Part 11
  export, \<open>close\<close>, listeners, the lock on the log file and the identity files of the
  post-quantum signer; documents of the log whose fields have the wrong type, and log files
  that cannot be read. Of \<open>ha.py\<close>: the standby HTTP responder, status reports, thread and task
  start-up, the command line. Of \<open>mmr.py\<close>: \<open>RustBackedMMR\<close>, which forwards to the Rust
  extension. Of \<open>streaming.py\<close>: the JSON transformation of events and the redactor, which enter
  as an arbitrary source of canonical events. Of the authentication: LDAP, SCIM, the URL checks of
  the OIDC configuration and its HTTP transport. The proxy's routes, other settings, detectors,
  hardware and post-quantum backends, host hardening, connectors, dashboards and reporting
  packs are left out: they are I/O, wiring, or tables of regular expressions. Write-once
  storage rests on flags of the operating system and the object store, and the exchange of
  log lines between peers is outside the durable path.
\<close>

end
